(* ===== verification/Hash_Cons.thy ===== *)
theory Hash_Cons
  imports Prelude
begin

text \<open>
  The contract of the compiler's unique tables. The module's type maps
  (\<open>pointer_map_\<close>, \<open>array_map_\<close>, \<open>function_map_\<close>) and the constant caches
  (\<open>cached_int\<close>, \<open>cached_bool\<close>, \<open>cached_zero\<close>) are all used the same way: a
  \<open>get\<close> looks a key up and creates the object on a miss, and the rest of the compiler then
  compares the objects by address. What that use relies on is stated here once: objects with
  equal keys have equal addresses, whatever was interned in between.
\<close>

text \<open>Interning a list of keys from left to right, as a run of the compiler does.\<close>

fun get_all :: "('k \<Rightarrow> 's \<Rightarrow> ('a \<times> 's) res) \<Rightarrow> 'k list \<Rightarrow> 's \<Rightarrow> ('a list \<times> 's) res" where
  "get_all get [] s = Inr ([], s)"
| "get_all get (k # ks) s =
     bnd (get k s) (\<lambda>(a, s). bnd (get_all get ks s) (\<lambda>(as, s). Inr (a # as, s)))"

locale hash_cons =
  fixes get :: "'k \<Rightarrow> 's \<Rightarrow> ('a \<times> 's) res"
    and key :: "'s \<Rightarrow> 'a \<Rightarrow> 'k option"
    and ok :: "'s \<Rightarrow> bool"
  assumes ok_get: "ok s \<Longrightarrow> get k s = Inr (a, s') \<Longrightarrow> ok s'"
    and key_get: "ok s \<Longrightarrow> get k s = Inr (a, s') \<Longrightarrow> key s' a = Some k"
    and key_stable: "ok s \<Longrightarrow> get k s = Inr (a, s') \<Longrightarrow> key s b = Some k' \<Longrightarrow> key s' b = Some k'"
    and key_unique: "ok s \<Longrightarrow> key s a = Some k \<Longrightarrow> key s b = Some k \<Longrightarrow> a = b"
    and get_hit: "ok s \<Longrightarrow> key s a = Some k \<Longrightarrow> get k s = Inr (a, s)"
begin

lemma get_all_ok: "ok s \<Longrightarrow> get_all get ks s = Inr (as, s') \<Longrightarrow> ok s'"
  by (induction ks arbitrary: s as) (auto intro: ok_get)

lemma get_all_stable:
  "ok s \<Longrightarrow> get_all get ks s = Inr (as, s') \<Longrightarrow> key s b = Some k \<Longrightarrow> key s' b = Some k"
proof (induction ks arbitrary: s as)
  case Nil
  then show ?case by simp
next
  case (Cons k1 ks)
  from Cons.prems(2) obtain a s1 as1 where "get k1 s = Inr (a, s1)" and "get_all get ks s1 = Inr (as1, s')"
    by auto
  with Cons.prems(1,3) show ?case
    by (blast intro: Cons.IH ok_get key_stable)
qed

lemma get_all_keys:
  "ok s \<Longrightarrow> get_all get ks s = Inr (as, s') \<Longrightarrow> list_all2 (\<lambda>k a. key s' a = Some k) ks as"
proof (induction ks arbitrary: s as)
  case Nil
  then show ?case by simp
next
  case (Cons k ks)
  from Cons.prems(2) obtain a s1 as1 where k: "get k s = Inr (a, s1)"
    and r: "get_all get ks s1 = Inr (as1, s')" and as: "as = a # as1"
    by auto
  from Cons.prems(1) k have "ok s1" and "key s1 a = Some k"
    by (blast intro: ok_get key_get)+
  with r Cons.IH [of s1 as1] show ?case
    by (auto simp: as intro: get_all_stable)
qed

text \<open>Asking twice gives the same object and creates nothing.\<close>

lemma get_again: "ok s \<Longrightarrow> get k s = Inr (a, s') \<Longrightarrow> get k s' = Inr (a, s')"
  by (blast intro: get_hit ok_get key_get)

text \<open>Two keys of one run get the same address exactly if they are the same key.\<close>

lemma get_all_inj:
  assumes "ok s" and "get_all get ks s = Inr (as, s')" and "i < length ks" and "j < length ks"
  shows "as ! i = as ! j \<longleftrightarrow> ks ! i = ks ! j"
proof -
  have "list_all2 (\<lambda>k a. key s' a = Some k) ks as"
    using assms(1,2) by (rule get_all_keys)
  then have "key s' (as ! i) = Some (ks ! i)" and "key s' (as ! j) = Some (ks ! j)"
    using assms(3,4) by (auto simp: list_all2_conv_all_nth)
  then show ?thesis
    using key_unique [OF get_all_ok [OF assms(1,2)]] by auto
qed

end

end
