(* ===== verification/IR_Types.thy ===== *)
theory IR_Types
  imports Hash_Cons
begin

text \<open>
  The types of the intermediate representation (\<open>include/lightir/Type.h\<close>,
  \<open>src/lightir/Type.cpp\<close>) and the type tables of the module that intern them
  (\<open>src/lightir/Module.cpp\<close>). The compiler compares types by address; the last section
  shows that for interned types this is equality of the types themselves, so the rest of the
  model works with the datatype.
\<close>

section \<open>Types\<close>

datatype ty =
    VoidTy
  | LabelTy
  | IntTy nat          \<comment> \<open>\<open>num_bits_\<close>: 1 or 32\<close>
  | FunTy ty "ty list" \<comment> \<open>\<open>result_\<close>, \<open>args_\<close>\<close>
  | ArrTy ty nat       \<comment> \<open>\<open>contained_\<close>, \<open>num_elements_\<close>\<close>
  | PtrTy ty
  | FloatTy

abbreviation "INT1_T \<equiv> IntTy 1"
abbreviation "INT32_T \<equiv> IntTy 32"
abbreviation "INT32PTR_T \<equiv> PtrTy INT32_T"
abbreviation "FLOATPTR_T \<equiv> PtrTy FloatTy"

fun is_integer_type :: "ty \<Rightarrow> bool" where
  "is_integer_type (IntTy n) = True"
| "is_integer_type _ = False"

fun is_float_type :: "ty \<Rightarrow> bool" where
  "is_float_type FloatTy = True"
| "is_float_type _ = False"

fun is_void_type :: "ty \<Rightarrow> bool" where
  "is_void_type VoidTy = True"
| "is_void_type _ = False"

fun is_array_type :: "ty \<Rightarrow> bool" where
  "is_array_type (ArrTy t n) = True"
| "is_array_type _ = False"

fun is_pointer_type :: "ty \<Rightarrow> bool" where
  "is_pointer_type (PtrTy t) = True"
| "is_pointer_type _ = False"

text \<open>\<open>get_pointer_element_type\<close> and \<open>get_array_element_type\<close> return \<open>nullptr\<close>
  on other types.\<close>

fun get_pointer_element_type :: "ty \<Rightarrow> ty option" where
  "get_pointer_element_type (PtrTy t) = Some t"
| "get_pointer_element_type _ = None"

fun get_array_element_type :: "ty \<Rightarrow> ty option" where
  "get_array_element_type (ArrTy t n) = Some t"
| "get_array_element_type _ = None"

fun is_valid_return_type :: "ty \<Rightarrow> bool" where
  "is_valid_return_type t = (is_integer_type t \<or> is_void_type t \<or> is_float_type t)"

fun is_valid_argument_type :: "ty \<Rightarrow> bool" where
  "is_valid_argument_type t = (is_integer_type t \<or> is_pointer_type t \<or> is_float_type t)"

fun is_valid_element_type :: "ty \<Rightarrow> bool" where
  "is_valid_element_type t = (is_integer_type t \<or> is_array_type t \<or> is_float_type t)"

text \<open>\<open>get_size\<close> computes with 32-bit integers: a large array wraps around.\<close>

fun get_size :: "ty \<Rightarrow> 32 word" where
  "get_size (IntTy n) = (let bits = n div 8 in if bits > 0 then word_of_nat bits else 1)"
| "get_size (ArrTy t n) = get_size t * word_of_nat n"
| "get_size (PtrTy t) = (if is_array_type t then get_size t else 4)"
| "get_size FloatTy = 4"
| "get_size _ = 0"

fun print_type :: "ty \<Rightarrow> string" and print_types :: "ty list \<Rightarrow> string" where
  "print_type VoidTy = ''void''"
| "print_type LabelTy = ''label''"
| "print_type (IntTy n) = ''i'' @ show_nat n"
| "print_type (FunTy r as) = print_type r @ '' ('' @ print_types as @ '')''"
| "print_type (PtrTy t) = print_type t @ ''*''"
| "print_type (ArrTy t n) = ''['' @ show_nat n @ '' x '' @ print_type t @ '']''"
| "print_type FloatTy = ''float''"
| "print_types [] = ''''"
| "print_types [t] = print_type t"
| "print_types (t # t' # ts) = print_type t @ '', '' @ print_types (t' # ts)"

section \<open>The type tables of the module\<close>

text \<open>
  A \<open>Type\<close> object on the heap: its class and the addresses of the types it contains.
  The module owns the objects and the three maps; the addresses of the basic types are fixed
  by its constructor (\<open>void_ty_\<close>, \<open>label_ty_\<close>, \<open>int1_ty_\<close>,
  \<open>int32_ty_\<close>, \<open>float32_ty_\<close> are 0 to 4).
\<close>

datatype tyobj = TVoid | TLabel | TInt nat | TFloat | TPtr nat | TArr nat "32 word" | TFun nat "nat list"

record type_tab =
  ty_next :: nat
  ty_heap :: "nat \<Rightarrow> tyobj option"
  pointer_map :: "nat \<Rightarrow> nat option"
  array_map :: "nat \<times> 32 word \<Rightarrow> nat option"
  function_map :: "nat \<times> nat list \<Rightarrow> nat option"

definition type_tab_init :: type_tab where
  "type_tab_init =
     \<lparr>ty_next = 5,
      ty_heap = [0 \<mapsto> TVoid, 1 \<mapsto> TLabel, 2 \<mapsto> TInt 1, 3 \<mapsto> TInt 32, 4 \<mapsto> TFloat],
      pointer_map = Map.empty, array_map = Map.empty, function_map = Map.empty\<rparr>"

definition new_type :: "tyobj \<Rightarrow> type_tab \<Rightarrow> nat \<times> type_tab" where
  "new_type o' m = (ty_next m, m\<lparr>ty_next := Suc (ty_next m), ty_heap := (ty_heap m)(ty_next m \<mapsto> o')\<rparr>)"

definition get_pointer_type :: "nat \<Rightarrow> type_tab \<Rightarrow> (nat \<times> type_tab) res" where
  "get_pointer_type c m =
     (case pointer_map m c of
        Some p \<Rightarrow> Inr (p, m)
      | None \<Rightarrow>
          bnd (deref (ty_heap m c)) (\<lambda>_.
          let (p, m') = new_type (TPtr c) m
          in Inr (p, m'\<lparr>pointer_map := (pointer_map m')(c \<mapsto> p)\<rparr>)))"

text \<open>The asserts of the \<open>ArrayType\<close> and \<open>FunctionType\<close> constructors, which run
  only when the type is new.\<close>

fun valid_element_obj :: "tyobj \<Rightarrow> bool" where
  "valid_element_obj (TInt n) = True"
| "valid_element_obj (TArr c n) = True"
| "valid_element_obj TFloat = True"
| "valid_element_obj _ = False"

fun valid_return_obj :: "tyobj \<Rightarrow> bool" where
  "valid_return_obj (TInt n) = True"
| "valid_return_obj TVoid = True"
| "valid_return_obj TFloat = True"
| "valid_return_obj _ = False"

fun valid_argument_obj :: "tyobj \<Rightarrow> bool" where
  "valid_argument_obj (TInt n) = True"
| "valid_argument_obj (TPtr c) = True"
| "valid_argument_obj TFloat = True"
| "valid_argument_obj _ = False"

fun check_params :: "type_tab \<Rightarrow> nat list \<Rightarrow> unit res" where
  "check_params m [] = Inr ()"
| "check_params m (p # ps) =
     bnd (deref (ty_heap m p)) (\<lambda>o'.
     bnd (ensure (valid_argument_obj o') AssertFail) (\<lambda>_. check_params m ps))"

definition get_array_type :: "nat \<Rightarrow> 32 word \<Rightarrow> type_tab \<Rightarrow> (nat \<times> type_tab) res" where
  "get_array_type c n m =
     (case array_map m (c, n) of
        Some p \<Rightarrow> Inr (p, m)
      | None \<Rightarrow>
          bnd (deref (ty_heap m c)) (\<lambda>o'.
          bnd (ensure (valid_element_obj o') AssertFail) (\<lambda>_.
          let (p, m') = new_type (TArr c n) m
          in Inr (p, m'\<lparr>array_map := (array_map m')((c, n) \<mapsto> p)\<rparr>))))"

definition get_function_type :: "nat \<Rightarrow> nat list \<Rightarrow> type_tab \<Rightarrow> (nat \<times> type_tab) res" where
  "get_function_type r as m =
     (case function_map m (r, as) of
        Some p \<Rightarrow> Inr (p, m)
      | None \<Rightarrow>
          bnd (deref (ty_heap m r)) (\<lambda>o'.
          bnd (ensure (valid_return_obj o') AssertFail) (\<lambda>_.
          bnd (check_params m as) (\<lambda>_.
          let (p, m') = new_type (TFun r as) m
          in Inr (p, m'\<lparr>function_map := (function_map m')((r, as) \<mapsto> p)\<rparr>)))))"

text \<open>All the ways to obtain a type from the module, by the object wanted. \<open>IntegerType::get\<close>
  fails its assert on widths other than 1 and 32.\<close>

fun get_type_obj :: "tyobj \<Rightarrow> type_tab \<Rightarrow> (nat \<times> type_tab) res" where
  "get_type_obj TVoid m = Inr (0, m)"
| "get_type_obj TLabel m = Inr (1, m)"
| "get_type_obj (TInt n) m =
     (if n = 1 then Inr (2, m) else if n = 32 then Inr (3, m) else Inl AssertFail)"
| "get_type_obj TFloat m = Inr (4, m)"
| "get_type_obj (TPtr c) m = get_pointer_type c m"
| "get_type_obj (TArr c n) m = get_array_type c n m"
| "get_type_obj (TFun r as) m = get_function_type r as m"

subsection \<open>The tables keep one object per type\<close>

fun obj_children :: "tyobj \<Rightarrow> nat set" where
  "obj_children (TPtr c) = {c}"
| "obj_children (TArr c n) = {c}"
| "obj_children (TFun r as) = insert r (set as)"
| "obj_children _ = {}"

fun tab_addr :: "type_tab \<Rightarrow> tyobj \<Rightarrow> nat option" where
  "tab_addr m TVoid = Some 0"
| "tab_addr m TLabel = Some 1"
| "tab_addr m (TInt n) = (if n = 1 then Some 2 else if n = 32 then Some 3 else None)"
| "tab_addr m TFloat = Some 4"
| "tab_addr m (TPtr c) = pointer_map m c"
| "tab_addr m (TArr c n) = array_map m (c, n)"
| "tab_addr m (TFun r as) = function_map m (r, as)"

definition type_tab_ok :: "type_tab \<Rightarrow> bool" where
  "type_tab_ok m \<longleftrightarrow>
     (\<forall>a o'. ty_heap m a = Some o' \<longrightarrow> a < ty_next m \<and> (\<forall>c \<in> obj_children o'. c < a \<and> ty_heap m c \<noteq> None)) \<and>
     (\<forall>a o'. ty_heap m a = Some o' \<longleftrightarrow> tab_addr m o' = Some a)"


lemma type_tab_ok_init: "type_tab_ok type_tab_init"
proof -
  have "ty_heap type_tab_init a = Some o' \<longleftrightarrow> tab_addr type_tab_init o' = Some a" for a o'
    by (cases o') (auto simp: type_tab_init_def)
  moreover have "a < 5 \<and> obj_children o' = {}" if "ty_heap type_tab_init a = Some o'" for a o'
    using that by (auto simp: type_tab_init_def split: if_splits)
  ultimately show ?thesis
    by (auto simp: type_tab_ok_def type_tab_init_def)
qed

lemma type_tab_okD:
  assumes "type_tab_ok m"
  shows "ty_heap m a = Some o' \<longleftrightarrow> tab_addr m o' = Some a"
    and "ty_heap m a = Some o' \<Longrightarrow> a < ty_next m"
    and "ty_heap m a = Some o' \<Longrightarrow> c \<in> obj_children o' \<Longrightarrow> c < a \<and> ty_heap m c \<noteq> None"
  using assms unfolding type_tab_ok_def by blast+

text \<open>A miss creates an object at a fresh address and enters it in the map of its class.\<close>

lemma check_params_ok:
  "check_params m ps = Inr u \<Longrightarrow> p \<in> set ps \<Longrightarrow> ty_heap m p \<noteq> None"
  by (induction ps) (auto simp: deref_def split: option.splits)

lemma get_type_obj_cases:
  assumes "get_type_obj k m = Inr (a, m')"
  shows "(tab_addr m k = Some a \<and> m' = m) \<or>
         (tab_addr m k = None \<and> a = ty_next m \<and> (\<forall>c \<in> obj_children k. ty_heap m c \<noteq> None) \<and>
          ty_next m' = Suc (ty_next m) \<and> ty_heap m' = (ty_heap m)(a \<mapsto> k) \<and>
          tab_addr m' = (tab_addr m)(k \<mapsto> a))"
proof (cases k)
  case (TPtr c)
  have "tab_addr m' = (tab_addr m)(k \<mapsto> a)" if "pointer_map m c = None"
  proof
    fix x show "tab_addr m' x = ((tab_addr m)(k \<mapsto> a)) x"
      using assms that by (cases x) (auto simp: TPtr get_pointer_type_def new_type_def Let_def)
  qed
  with assms show ?thesis
    by (auto simp: TPtr get_pointer_type_def new_type_def Let_def split: option.splits)
next
  case (TArr c n)
  have "tab_addr m' = (tab_addr m)(k \<mapsto> a)" if "array_map m (c, n) = None"
  proof
    fix x show "tab_addr m' x = ((tab_addr m)(k \<mapsto> a)) x"
      using assms that by (cases x) (auto simp: TArr get_array_type_def new_type_def Let_def)
  qed
  with assms show ?thesis
    by (auto simp: TArr get_array_type_def new_type_def Let_def split: option.splits)
next
  case (TFun r as)
  have "tab_addr m' = (tab_addr m)(k \<mapsto> a)" if "function_map m (r, as) = None"
  proof
    fix x show "tab_addr m' x = ((tab_addr m)(k \<mapsto> a)) x"
      using assms that by (cases x) (auto simp: TFun get_function_type_def new_type_def Let_def)
  qed
  moreover have "ty_heap m c \<noteq> None"
    if "function_map m (r, as) = None" and "c \<in> obj_children k" for c
    using assms that by (auto simp: TFun get_function_type_def dest: check_params_ok)
  ultimately show ?thesis
    using assms by (auto simp: TFun get_function_type_def new_type_def Let_def split: option.splits)
qed (use assms in \<open>auto split: if_splits\<close>)

lemma get_type_obj_ok:
  assumes ok: "type_tab_ok m" and get: "get_type_obj k m = Inr (a, m')"
  shows "type_tab_ok m' \<and> ty_heap m' a = Some k \<and> (\<forall>b o'. ty_heap m b = Some o' \<longrightarrow> ty_heap m' b = Some o')"
  using get_type_obj_cases [OF get]
proof (elim disjE conjE)
  assume "tab_addr m k = Some a" and "m' = m"
  with ok show ?thesis by (auto dest: type_tab_okD(1))
next
  assume new: "tab_addr m k = None" "a = ty_next m" "\<forall>c \<in> obj_children k. ty_heap m c \<noteq> None"
    "ty_next m' = Suc (ty_next m)" "ty_heap m' = (ty_heap m)(a \<mapsto> k)"
    "tab_addr m' = (tab_addr m)(k \<mapsto> a)"
  have fresh: "ty_heap m a = None"
    using type_tab_okD(2) [OF ok, of a] new(2) by (cases "ty_heap m a") auto
  have below: "c < a" if "ty_heap m c \<noteq> None" for c
    using that type_tab_okD(2) [OF ok, of c] new(2) by auto
  have "ty_heap m' b = Some o' \<longleftrightarrow> tab_addr m' o' = Some b" for b o'
    using type_tab_okD(1) [OF ok, of b o'] new fresh by auto
  moreover have "b < ty_next m' \<and> (\<forall>c \<in> obj_children o'. c < b \<and> ty_heap m' c \<noteq> None)"
    if "ty_heap m' b = Some o'" for b o'
  proof (cases "b = a")
    case True
    with that new below show ?thesis by auto
  next
    case False
    with that new have "ty_heap m b = Some o'" by simp
    with type_tab_okD(2,3) [OF ok this] new show ?thesis by (auto intro: less_SucI)
  qed
  ultimately have "type_tab_ok m'"
    unfolding type_tab_ok_def by blast
  with new(5) fresh show ?thesis by simp
qed

interpretation types: hash_cons get_type_obj ty_heap type_tab_ok
proof
  show "get_type_obj k s = Inr (a, s)" if "type_tab_ok s" and "ty_heap s a = Some k" for s a k
    using that type_tab_okD(1) [OF that(1), of a k]
    by (cases k)
       (auto simp: get_pointer_type_def get_array_type_def get_function_type_def split: if_splits)
qed (use get_type_obj_ok in \<open>auto simp: type_tab_okD(1)\<close>)

subsection \<open>Equal addresses are equal types\<close>

inductive denotes :: "type_tab \<Rightarrow> nat \<Rightarrow> ty \<Rightarrow> bool" for m where
  "ty_heap m a = Some TVoid \<Longrightarrow> denotes m a VoidTy"
| "ty_heap m a = Some TLabel \<Longrightarrow> denotes m a LabelTy"
| "ty_heap m a = Some (TInt n) \<Longrightarrow> denotes m a (IntTy n)"
| "ty_heap m a = Some TFloat \<Longrightarrow> denotes m a FloatTy"
| "ty_heap m a = Some (TPtr c) \<Longrightarrow> denotes m c t \<Longrightarrow> denotes m a (PtrTy t)"
| "ty_heap m a = Some (TArr c n) \<Longrightarrow> denotes m c t \<Longrightarrow> denotes m a (ArrTy t (unat n))"
| "ty_heap m a = Some (TFun r as) \<Longrightarrow> denotes m r t \<Longrightarrow> list_all2 (denotes m) as ts
     \<Longrightarrow> denotes m a (FunTy t ts)"

inductive_cases denotes_elims:
  "denotes m a VoidTy" "denotes m a LabelTy" "denotes m a (IntTy n)" "denotes m a FloatTy"
  "denotes m a (PtrTy t)" "denotes m a (ArrTy t n)" "denotes m a (FunTy t ts)"

lemma denotes_obj:
  "denotes m a t \<Longrightarrow> ty_heap m a = Some o' \<Longrightarrow>
     (case o' of TVoid \<Rightarrow> t = VoidTy | TLabel \<Rightarrow> t = LabelTy | TInt n \<Rightarrow> t = IntTy n
       | TFloat \<Rightarrow> t = FloatTy | TPtr c \<Rightarrow> (\<exists>u. t = PtrTy u \<and> denotes m c u)
       | TArr c n \<Rightarrow> (\<exists>u. t = ArrTy u (unat n) \<and> denotes m c u)
       | TFun r as \<Rightarrow> (\<exists>u us. t = FunTy u us \<and> denotes m r u \<and> list_all2 (denotes m) as us))"
  by (cases rule: denotes.cases) auto

lemma denotes_functional: "denotes m a t \<Longrightarrow> denotes m a u \<Longrightarrow> t = u"
proof (induction arbitrary: u rule: denotes.induct)
  case (5 a c t)
  from denotes_obj [OF 5(4,1)] 5(3) show ?case by auto
next
  case (6 a c n t)
  from denotes_obj [OF 6(4,1)] 6(3) show ?case by auto
next
  case (7 a r as t ts)
  from denotes_obj [OF 7(5,1)] obtain v vs where u: "u = FunTy v vs" "denotes m r v"
    "list_all2 (denotes m) as vs"
    by auto
  moreover have "ts = vs"
    using 7(4) u(3) by (auto simp: list_all2_conv_all_nth intro!: nth_equalityI)
  ultimately show ?case using 7(3) by auto
qed (drule (1) denotes_obj, simp)+

lemma denotes_address:
  assumes "type_tab_ok m"
  shows "denotes m a t \<Longrightarrow> denotes m b t \<Longrightarrow> a = b"
proof (induction a t arbitrary: b rule: denotes.induct)
  case (5 a c t)
  from 5(4) obtain c' where b: "ty_heap m b = Some (TPtr c')" "denotes m c' t"
    by (auto elim: denotes_elims)
  with 5(1,3) show ?case
    by (auto intro: types.key_unique [OF assms])
next
  case (6 a c n t)
  from 6(4) obtain c' n' where b: "ty_heap m b = Some (TArr c' n')" "denotes m c' t" "unat n = unat n'"
    by (auto elim: denotes_elims)
  with 6(1,3) show ?case
    by (auto intro: types.key_unique [OF assms] simp flip: word_unat_eq_iff)
next
  case (7 a r as t ts)
  from 7(5) obtain r' as' where b: "ty_heap m b = Some (TFun r' as')" "denotes m r' t"
    "list_all2 (denotes m) as' ts"
    by (auto elim: denotes_elims)
  moreover have "as = as'"
    using 7(4) b(3) by (auto simp: list_all2_conv_all_nth intro!: nth_equalityI)
  ultimately show ?case
    using 7(1,3) by (auto intro: types.key_unique [OF assms])
qed (auto elim!: denotes_elims intro: types.key_unique [OF assms])

text \<open>C15: whatever types a run of the compiler asks the module for, two type objects of the
  resulting tables are at the same address exactly if they are the same type; comparing
  \<open>Type*\<close> as the builder, the printer (\<open>is_eq_type\<close>) and the passes do is comparing
  types.\<close>

theorem type_identity:
  assumes "get_all get_type_obj ks type_tab_init = Inr (as, m)"
    and "denotes m a t" and "denotes m b u"
  shows "a = b \<longleftrightarrow> t = u"
proof -
  have "type_tab_ok m"
    using type_tab_ok_init assms(1) by (rule types.get_all_ok)
  with assms(2,3) show ?thesis
    by (auto dest: denotes_address denotes_functional)
qed

theorem type_identity_witness:
  "\<exists>m. get_all get_type_obj [TPtr 3, TArr 3 10, TPtr 6, TPtr 3] type_tab_init = Inr ([5, 6, 7, 5], m) \<and>
     denotes m 7 (PtrTy (ArrTy INT32_T 10)) \<and> denotes m 5 INT32PTR_T \<and>
     (7 = (5::nat) \<longleftrightarrow> PtrTy (ArrTy INT32_T 10) = INT32PTR_T)"
proof -
  let ?ks = "[TPtr 3, TArr 3 10, TPtr 6, TPtr 3]"
  obtain m where m: "get_all get_type_obj ?ks type_tab_init = Inr ([5, 6, 7, 5], m)"
    and h: "ty_heap m 3 = Some (TInt 32)" "ty_heap m 5 = Some (TPtr 3)"
      "ty_heap m 6 = Some (TArr 3 10)" "ty_heap m 7 = Some (TPtr 6)"
    by (simp add: get_pointer_type_def get_array_type_def new_type_def type_tab_init_def)
  have 3: "denotes m 3 INT32_T" and 5: "denotes m 5 INT32PTR_T"
    using h by (auto intro: denotes.intros)
  from denotes.intros(6) [OF h(3) 3] h have 7: "denotes m 7 (PtrTy (ArrTy INT32_T 10))"
    by (auto intro: denotes.intros)
  from m 5 7 type_identity [OF m 7 5] show ?thesis by blast
qed

end
