(* ===== verification/Float32.thy ===== *)
theory Float32
  imports Prelude
begin

text \<open>
  The C++ type \<open>float\<close> as IEEE 754 binary32, by its bits: one sign bit, eight exponent
  bits, 23 fraction bits. The comparisons are those of the C++ operators (false when an operand
  is NaN, and \<open>-0.0 == 0.0\<close>). Conversions from a decimal fraction round to nearest, ties
  to even.
\<close>

type_synonym float32 = "32 word"

definition f_sign :: "float32 \<Rightarrow> bool" where
  "f_sign f = bit f 31"

definition f_exp :: "float32 \<Rightarrow> nat" where
  "f_exp f = unat (take_bit 8 (drop_bit 23 f))"

definition f_frac :: "float32 \<Rightarrow> nat" where
  "f_frac f = unat (take_bit 23 f)"

definition is_nan :: "float32 \<Rightarrow> bool" where
  "is_nan f \<longleftrightarrow> f_exp f = 255 \<and> f_frac f \<noteq> 0"

definition is_zero :: "float32 \<Rightarrow> bool" where
  "is_zero f \<longleftrightarrow> f_exp f = 0 \<and> f_frac f = 0"

text \<open>The magnitude as an integer: exponent and fraction bits order the absolute values.\<close>

definition f_rank :: "float32 \<Rightarrow> int" where
  "f_rank f = (let m = int (unat (take_bit 31 f)) in if f_sign f then - m else m)"

definition float_eq :: "float32 \<Rightarrow> float32 \<Rightarrow> bool" where
  "float_eq a b \<longleftrightarrow> \<not> is_nan a \<and> \<not> is_nan b \<and> f_rank a = f_rank b"

definition float_lt :: "float32 \<Rightarrow> float32 \<Rightarrow> bool" where
  "float_lt a b \<longleftrightarrow> \<not> is_nan a \<and> \<not> is_nan b \<and> f_rank a < f_rank b"

definition float_le :: "float32 \<Rightarrow> float32 \<Rightarrow> bool" where
  "float_le a b \<longleftrightarrow> \<not> is_nan a \<and> \<not> is_nan b \<and> f_rank a \<le> f_rank b"

text \<open>
  Rounding the fraction \<open>n / d\<close> (\<open>d > 0\<close>) to a float with the given sign: the
  exponent is the one that gives a 24-bit quotient (or the least one, for subnormals), the
  quotient is rounded to nearest-even, and a carry out of 24 bits moves to the next binade by the
  addition itself, since the fraction field overflows into the exponent field.
\<close>

fun bit_len :: "nat \<Rightarrow> nat" where
  "bit_len n = (if n = 0 then 0 else Suc (bit_len (n div 2)))"

declare bit_len.simps [simp del]

definition scaled :: "nat \<Rightarrow> nat \<Rightarrow> int \<Rightarrow> nat \<times> nat" where
  "scaled n d e = (if e \<ge> 0 then (n, d * 2 ^ nat e) else (n * 2 ^ nat (- e), d))"

definition round_exp :: "nat \<Rightarrow> nat \<Rightarrow> int" where
  "round_exp n d =
     (let e = int (bit_len n) - int (bit_len d) - 24;
          (a, b) = scaled n d e
      in max (- 149) (if a div b < 2 ^ 23 then e - 1 else if a div b \<ge> 2 ^ 24 then e + 1 else e))"

definition round_float :: "bool \<Rightarrow> nat \<Rightarrow> nat \<Rightarrow> float32" where
  "round_float neg n d =
     (let s = (if neg then 2 ^ 31 else 0)
      in if n = 0 then s
         else
           let e = round_exp n d;
               (a, b) = scaled n d e;
               q = a div b; r = a mod b;
               q' = (if 2 * r > b \<or> 2 * r = b \<and> odd q then q + 1 else q);
               bits = nat (e + 149) * 2 ^ 23 + q'
           in s + word_of_nat (min bits (255 * 2 ^ 23)))"

lemma float_eq_refl: "float_eq a a \<longleftrightarrow> \<not> is_nan a"
  by (simp add: float_eq_def)

lemma float_eq_sym: "float_eq a b \<longleftrightarrow> float_eq b a"
  by (auto simp: float_eq_def)

lemma float_eq_trans: "float_eq a b \<Longrightarrow> float_eq b c \<Longrightarrow> float_eq a c"
  by (simp add: float_eq_def)

end
