(* ===== verification/Users.thy ===== *)
theory Users
  imports IR_Types Float32
begin

text \<open>
  Values and the use-def graph (\<open>include/lightir/Value.h\<close>, \<open>include/lightir/User.h\<close>,
  \<open>src/lightir/Value.cpp\<close>, \<open>src/lightir/User.cpp\<close>): every value carries the list of
  the operand slots that refer to it, and the operations of \<open>User\<close> keep operands and use
  lists in step. The invariant \<open>use_def_ok\<close> says that they mirror each other exactly.
\<close>

section \<open>Values\<close>

text \<open>
  A \<open>Value*\<close>. Objects are named by their class and a number given at creation; constants
  are named by their contents, which is their identity for the unique integer, boolean and zero
  constants. A float constant also carries its creation number, because its table does not always
  make it unique (see the theory of constants).
\<close>

datatype const = CInt "32 word" | CBool bool | CFP float32 nat | CZero ty

datatype val =
    VNull              \<comment> \<open>\<open>nullptr\<close>\<close>
  | VConst const       \<comment> \<open>\<open>Constant\<close>\<close>
  | VGlobal nat        \<comment> \<open>\<open>GlobalVariable\<close>\<close>
  | VFun nat           \<comment> \<open>\<open>Function\<close>\<close>
  | VArg nat nat       \<comment> \<open>\<open>Argument\<close>: its function and its number\<close>
  | VBB nat            \<comment> \<open>\<open>BasicBlock\<close>\<close>
  | VInstr nat         \<comment> \<open>\<open>Instruction\<close>\<close>

text \<open>\<open>dynamic_cast<User*>\<close>, \<open>dynamic_cast<Constant*>\<close>.\<close>

fun is_user :: "val \<Rightarrow> bool" where
  "is_user (VConst c) = True"
| "is_user (VGlobal g) = True"
| "is_user (VInstr i) = True"
| "is_user _ = False"

fun is_constant :: "val \<Rightarrow> bool" where
  "is_constant (VConst c) = True"
| "is_constant _ = False"

section \<open>Users and use lists\<close>

text \<open>A \<open>Use\<close> is the user and the operand number.\<close>

record users =
  operands :: "val \<Rightarrow> val list"
  num_ops :: "val \<Rightarrow> nat"
  use_list :: "val \<Rightarrow> (val \<times> nat) list"

definition add_use :: "val \<Rightarrow> val \<Rightarrow> nat \<Rightarrow> 'z users_scheme \<Rightarrow> 'z users_scheme" where
  "add_use v u i s = s\<lparr>use_list := (use_list s)(v := use_list s v @ [(u, i)])\<rparr>"

text \<open>The \<open>User\<close> constructor: \<open>n\<close> null operands.\<close>

definition new_user :: "val \<Rightarrow> nat \<Rightarrow> 'z users_scheme \<Rightarrow> 'z users_scheme" where
  "new_user u n s =
     s\<lparr>operands := (operands s)(u := replicate n VNull), num_ops := (num_ops s)(u := n)\<rparr>"

definition set_operand :: "val \<Rightarrow> nat \<Rightarrow> val \<Rightarrow> 'z users_scheme \<Rightarrow> 'z users_scheme res" where
  "set_operand u i v s =
     bnd (ensure (i < num_ops s u) AssertFail) (\<lambda>_.
     let s = s\<lparr>operands := (operands s)(u := (operands s u)[i := v])\<rparr>
     in bnd (ensure (v \<noteq> VNull) NullDeref) (\<lambda>_. Inr (add_use v u i s)))"

text \<open>Setting the operands from number \<open>i\<close> on, one after the other, as the instruction
  constructors do.\<close>

fun set_operands :: "val \<Rightarrow> nat \<Rightarrow> val list \<Rightarrow> 'z users_scheme \<Rightarrow> 'z users_scheme res" where
  "set_operands u i [] s = Inr s"
| "set_operands u i (v # vs) s = bnd (set_operand u i v s) (set_operands u (Suc i) vs)"

definition add_operand :: "val \<Rightarrow> val \<Rightarrow> 'z users_scheme \<Rightarrow> 'z users_scheme res" where
  "add_operand u v s =
     (let s = s\<lparr>operands := (operands s)(u := operands s u @ [v])\<rparr>
      in bnd (ensure (v \<noteq> VNull) NullDeref) (\<lambda>_.
         let s = add_use v u (num_ops s u) s
         in Inr (s\<lparr>num_ops := (num_ops s)(u := Suc (num_ops s u))\<rparr>)))"

definition remove_use :: "val \<Rightarrow> val \<Rightarrow> 'z users_scheme \<Rightarrow> 'z users_scheme res" where
  "remove_use v u s =
     bnd (ensure (v \<noteq> VNull) NullDeref) (\<lambda>_.
     Inr (s\<lparr>use_list := (use_list s)(v := filter (\<lambda>use. fst use \<noteq> u) (use_list s v))\<rparr>))"

fun remove_uses :: "val \<Rightarrow> val list \<Rightarrow> 'z users_scheme \<Rightarrow> 'z users_scheme res" where
  "remove_uses u [] s = Inr s"
| "remove_uses u (v # vs) s = bnd (remove_use v u s) (remove_uses u vs)"

definition remove_use_of_ops :: "val \<Rightarrow> 'z users_scheme \<Rightarrow> 'z users_scheme res" where
  "remove_use_of_ops u s = remove_uses u (operands s u) s"

text \<open>\<open>remove_operands(index1, index2)\<close>: drops the uses of the removed slots, then the
  slots.\<close>

definition remove_operands :: "val \<Rightarrow> nat \<Rightarrow> nat \<Rightarrow> 'z users_scheme \<Rightarrow> 'z users_scheme res" where
  "remove_operands u i j s =
     bnd (ensure (j < length (operands s u)) OutOfBounds) (\<lambda>_.
     bnd (remove_uses u (drop i (take (Suc j) (operands s u))) s) (\<lambda>s.
     let ops = take i (operands s u) @ drop (Suc j) (operands s u)
     in Inr (s\<lparr>operands := (operands s)(u := ops), num_ops := (num_ops s)(u := length ops)\<rparr>)))"

text \<open>
  \<open>replace_all_use_with\<close> walks the use list of \<open>v\<close> while \<open>set_operand\<close> appends
  to the use list of \<open>new\<close>; the loop is over the live list, at position \<open>k\<close>. Whether
  it returns is part of the result: \<open>None\<close> is a loop that never ends.
\<close>

partial_function (option) replace_loop ::
  "val \<Rightarrow> val \<Rightarrow> nat \<Rightarrow> 'z users_scheme \<Rightarrow> 'z users_scheme res option" where
  "replace_loop v new k s =
     (if k < length (use_list s v)
      then let (u, i) = use_list s v ! k
           in if is_user u
              then case set_operand u i new s of
                     Inl e \<Rightarrow> Some (Inl e)
                   | Inr s' \<Rightarrow> replace_loop v new (Suc k) s'
              else Some (Inl AssertFail)
      else Some (Inr s))"

definition replace_all_use_with ::
  "val \<Rightarrow> val \<Rightarrow> 'z users_scheme \<Rightarrow> 'z users_scheme res option" where
  "replace_all_use_with v new s =
     map_option (\<lambda>r. bnd r (\<lambda>s. Inr (s\<lparr>use_list := (use_list s)(v := [])\<rparr>))) (replace_loop v new 0 s)"

text \<open>\<open>replace_use_with_when\<close> keeps the uses whose user does not satisfy the predicate and
  erases each of the others after its slot is set.\<close>

partial_function (option) replace_use_with_when ::
  "val \<Rightarrow> val \<Rightarrow> (val \<Rightarrow> bool) \<Rightarrow> nat \<Rightarrow> 'z users_scheme \<Rightarrow> 'z users_scheme res option" where
  "replace_use_with_when v new pred k s =
     (if k < length (use_list s v)
      then let (u, i) = use_list s v ! k
           in if is_user u
              then if pred u
                   then case set_operand u i new s of
                          Inl e \<Rightarrow> Some (Inl e)
                        | Inr s' \<Rightarrow>
                            replace_use_with_when v new pred k
                              (s'\<lparr>use_list := (use_list s')
                                 (v := take k (use_list s' v) @ drop (Suc k) (use_list s' v))\<rparr>)
                   else replace_use_with_when v new pred (Suc k) s
              else Some (Inl AssertFail)
      else Some (Inr s))"

section \<open>Operands and use lists mirror each other\<close>

definition uses_of :: "'z users_scheme \<Rightarrow> val \<Rightarrow> (val \<times> nat) set" where
  "uses_of s v = {(u, i). i < length (operands s u) \<and> operands s u ! i = v}"

definition use_def_ok :: "'z users_scheme \<Rightarrow> bool" where
  "use_def_ok s \<longleftrightarrow>
     (\<forall>u. num_ops s u = length (operands s u)) \<and>
     (\<forall>u. operands s u \<noteq> [] \<longrightarrow> is_user u) \<and>
     (\<forall>v. v \<noteq> VNull \<longrightarrow> distinct (use_list s v) \<and> set (use_list s v) = uses_of s v)"


lemma use_def_okD:
  assumes "use_def_ok s"
  shows "num_ops s u = length (operands s u)"
    and "operands s u \<noteq> [] \<Longrightarrow> is_user u"
    and "v \<noteq> VNull \<Longrightarrow> distinct (use_list s v)"
    and "v \<noteq> VNull \<Longrightarrow> (u, i) \<in> set (use_list s v) \<longleftrightarrow> i < length (operands s u) \<and> operands s u ! i = v"
  using assms by (auto simp: use_def_ok_def uses_of_def)

lemma use_def_okI:
  assumes "\<And>u. num_ops s u = length (operands s u)"
    and "\<And>u. operands s u \<noteq> [] \<Longrightarrow> is_user u"
    and "\<And>v. v \<noteq> VNull \<Longrightarrow> distinct (use_list s v)"
    and "\<And>v u i. v \<noteq> VNull \<Longrightarrow>
      (u, i) \<in> set (use_list s v) \<longleftrightarrow> i < length (operands s u) \<and> operands s u ! i = v"
  shows "use_def_ok s"
  using assms by (auto simp: use_def_ok_def uses_of_def)

text \<open>The graph of a list of users with their operands.\<close>

definition listed_operands :: "(val \<times> val list) list \<Rightarrow> val \<Rightarrow> val list" where
  "listed_operands ops u = (case map_of ops u of Some l \<Rightarrow> l | None \<Rightarrow> [])"

definition listed_uses :: "(val \<times> val list) list \<Rightarrow> val \<Rightarrow> (val \<times> nat) list" where
  "listed_uses ops v = concat (map (\<lambda>(u, l). map (Pair u) (filter (\<lambda>i. l ! i = v) [0..<length l])) ops)"

lemma listed_uses_iff:
  "distinct (map fst ops) \<Longrightarrow> (u, i) \<in> set (listed_uses ops v) \<longleftrightarrow> i < length (listed_operands ops u) \<and> listed_operands ops u ! i = v"
  by (induction ops) (force simp: listed_uses_def listed_operands_def split: option.splits dest: map_of_SomeD)+

lemma listed_uses_distinct: "distinct (map fst ops) \<Longrightarrow> distinct (listed_uses ops v)"
  by (induction ops) (force simp: listed_uses_def distinct_map inj_on_def)+

lemma listed_ok:
  assumes "operands s = listed_operands ops" and "num_ops s = (\<lambda>u. length (listed_operands ops u))" and "use_list s = listed_uses ops"
    and "distinct (map fst ops)" and "\<forall>(u, l) \<in> set ops. is_user u"
  shows "use_def_ok s"
proof (rule use_def_okI)
  show "is_user u" if "operands s u \<noteq> []" for u
    using that assms(5) by (auto simp: assms(1) listed_operands_def split: option.splits dest!: map_of_SomeD)
qed (simp_all add: assms(1-3) listed_uses_iff [OF assms(4)] listed_uses_distinct [OF assms(4)])

text \<open>Only these three fields matter: any other part of the compiler state may change.\<close>

lemma use_def_ok_cong:
  "operands s' = operands s \<Longrightarrow> num_ops s' = num_ops s \<Longrightarrow> use_list s' = use_list s \<Longrightarrow>
     use_def_ok s' \<longleftrightarrow> use_def_ok s"
  by (simp add: use_def_ok_def uses_of_def)

lemma set_operand_Inr:
  "set_operand u i v s = Inr s' \<longleftrightarrow>
     i < num_ops s u \<and> v \<noteq> VNull \<and>
     s' = s\<lparr>operands := (operands s)(u := (operands s u)[i := v]),
            use_list := (use_list s)(v := use_list s v @ [(u, i)])\<rparr>"
  by (auto simp: set_operand_def Let_def add_use_def bnd_eq_Inr_iff)

lemma new_user_ok:
  assumes "use_def_ok s" and "operands s u = []" and "is_user u"
  shows "use_def_ok (new_user u n s)"
  using assms(2,3) use_def_okD [OF assms(1)]
  by (intro use_def_okI) (auto simp: new_user_def split: if_splits)

lemma set_operand_ok:
  assumes ok: "use_def_ok s" and set: "set_operand u i v s = Inr s'" and null: "operands s u ! i = VNull"
  shows "use_def_ok s'"
proof (rule use_def_okI)
  note s' = set [unfolded set_operand_Inr]
  have i: "i < length (operands s u)"
    using s' use_def_okD(1) [OF ok] by simp
  show "num_ops s' w = length (operands s' w)" for w
    using s' use_def_okD(1) [OF ok] by simp
  show "operands s' w \<noteq> [] \<Longrightarrow> is_user w" for w
    using s' use_def_okD(2) [OF ok] i by (auto split: if_splits)
  show "distinct (use_list s' w)" if "w \<noteq> VNull" for w
    using s' use_def_okD(3,4) [OF ok] null that by auto
  show "(x, j) \<in> set (use_list s' w) \<longleftrightarrow> j < length (operands s' x) \<and> operands s' x ! j = w"
    if "w \<noteq> VNull" for w x j
    using s' use_def_okD(4) [OF ok] null that i by (auto simp: nth_list_update_iff)
qed

lemma set_operands_Inr:
  assumes "set_operands u i vs s = Inr s'"
  shows "(\<forall>w. num_ops s' w = num_ops s w) \<and> VNull \<notin> set vs \<and>
     (\<forall>w. w \<noteq> u \<longrightarrow> operands s' w = operands s w) \<and> length (operands s' u) = length (operands s u)"
  using assms
  by (induction vs arbitrary: i s) (fastforce simp: set_operand_Inr)+

lemma set_operands_nth:
  assumes "set_operands u i vs s = Inr s'" and "j < length (operands s u)"
  shows "operands s' u ! j = (if i \<le> j \<and> j < i + length vs then vs ! (j - i) else operands s u ! j)"
  using assms
proof (induction vs arbitrary: i s)
  case Nil
  then show ?case by auto
next
  case (Cons v vs)
  then obtain s1 where s1: "set_operand u i v s = Inr s1" "set_operands u (Suc i) vs s1 = Inr s'"
    by auto
  have "j < length (operands s1 u)"
    using s1(1) Cons.prems(2) by (auto simp: set_operand_Inr)
  from Cons.IH [OF s1(2) this] s1(1) Cons.prems(2) show ?case
    by (auto simp: set_operand_Inr nth_list_update_iff nth_Cons' not_less_eq_eq)
qed

lemma set_operands_ok:
  assumes "use_def_ok s" and "set_operands u i vs s = Inr s'"
    and "\<And>j. i \<le> j \<Longrightarrow> j < i + length vs \<Longrightarrow> operands s u ! j = VNull"
  shows "use_def_ok s'"
  using assms
proof (induction vs arbitrary: i s)
  case Nil
  then show ?case by simp
next
  case (Cons v vs)
  from Cons.prems(2) obtain s1 where s1: "set_operand u i v s = Inr s1"
    "set_operands u (Suc i) vs s1 = Inr s'"
    by auto
  show ?case
  proof (rule Cons.IH [OF _ s1(2)])
    show "use_def_ok s1"
      using Cons.prems(1) s1(1) by (rule set_operand_ok) (rule Cons.prems(3), simp_all)
    show "operands s1 u ! j = VNull" if "Suc i \<le> j" "j < Suc i + length vs" for j
      using s1(1) Cons.prems(3) [of j] that by (auto simp: set_operand_Inr)
  qed
qed

text \<open>Creating a user and setting all its operands, the way every instruction is built.\<close>

lemma init_user_ok:
  assumes "use_def_ok s" and "operands s u = []" and "is_user u"
    and "set_operands u 0 vs (new_user u (length vs) s) = Inr s'"
  shows "use_def_ok s'" and "operands s' u = vs" and "w \<noteq> u \<Longrightarrow> operands s' w = operands s w"
proof -
  let ?s = "new_user u (length vs) s"
  have ok: "use_def_ok ?s" and len: "length (operands ?s u) = length vs"
    using new_user_ok [OF assms(1-3)] by (auto simp: new_user_def)
  show "use_def_ok s'"
    using ok assms(4) by (rule set_operands_ok) (simp add: new_user_def)
  have "length (operands s' u) = length vs"
    using set_operands_Inr [OF assms(4)] len by simp
  then show "operands s' u = vs"
    using set_operands_nth [OF assms(4)] len by (intro nth_equalityI) auto
  show "operands s' w = operands s w" if "w \<noteq> u"
    using set_operands_Inr [OF assms(4)] that by (simp add: new_user_def)
qed

lemma add_operand_ok:
  assumes ok: "use_def_ok s" and add: "add_operand u v s = Inr s'" and "is_user u"
  shows "use_def_ok s' \<and> operands s' = (operands s)(u := operands s u @ [v])"
proof -
  have s': "v \<noteq> VNull" "operands s' = (operands s)(u := operands s u @ [v])"
    "num_ops s' = (num_ops s)(u := Suc (num_ops s u))"
    "use_list s' = (use_list s)(v := use_list s v @ [(u, num_ops s u)])"
    using add by (auto simp: add_operand_def Let_def add_use_def bnd_eq_Inr_iff)
  have "use_def_ok s'"
    using use_def_okD [OF ok] \<open>is_user u\<close>
    by (intro use_def_okI) (auto simp: s' nth_append less_Suc_eq split: if_splits)
  with s'(2) show ?thesis by simp
qed

section \<open>Replacing a value\<close>

text \<open>The effect of either replacement, as a list of slots redirected to the new value.\<close>

fun redirect :: "val \<Rightarrow> (val \<times> nat) list \<Rightarrow> 'z users_scheme \<Rightarrow> 'z users_scheme" where
  "redirect new [] s = s"
| "redirect new ((u, i) # us) s =
     redirect new us (add_use new u i (s\<lparr>operands := (operands s)(u := (operands s u)[i := new])\<rparr>))"

lemma redirect_num_ops [simp]: "num_ops (redirect new us s) = num_ops s"
  by (induction new us s rule: redirect.induct) (auto simp: add_use_def)

lemma redirect_more [simp]: "users.more (redirect new us s) = users.more s"
  by (induction new us s rule: redirect.induct) (auto simp: add_use_def)

lemma redirect_use_list:
  "use_list (redirect new us s) = (use_list s)(new := use_list s new @ us)"
  by (induction new us s rule: redirect.induct) (auto simp: add_use_def)

lemma redirect_length [simp]: "length (operands (redirect new us s) u) = length (operands s u)"
  by (induction new us s rule: redirect.induct) (auto simp: add_use_def)

lemma redirect_nth:
  "i < length (operands s u) \<Longrightarrow>
     operands (redirect new us s) u ! i = (if (u, i) \<in> set us then new else operands s u ! i)"
proof (induction new us s rule: redirect.induct)
  case (2 new v j us s)
  then show ?case by (cases "u = v") (auto simp: add_use_def nth_list_update_iff)
qed simp

definition slots_valid :: "val \<Rightarrow> 'z users_scheme \<Rightarrow> bool" where
  "slots_valid v s \<longleftrightarrow> (\<forall>(u, i) \<in> set (use_list s v). is_user u \<and> i < num_ops s u)"

lemma use_def_slots_valid: "use_def_ok s \<Longrightarrow> v \<noteq> VNull \<Longrightarrow> slots_valid v s"
  unfolding slots_valid_def
proof clarify
  fix u i
  assume ok: "use_def_ok s" and "v \<noteq> VNull" and "(u, i) \<in> set (use_list s v)"
  then have i: "i < length (operands s u)"
    by (simp add: use_def_okD(4))
  then have "operands s u \<noteq> []" by auto
  with ok i show "is_user u \<and> i < num_ops s u"
    by (simp add: use_def_okD(1,2))
qed

lemma set_operand_add_use:
  "i < num_ops s u \<Longrightarrow> v \<noteq> VNull \<Longrightarrow>
     set_operand u i v s = Inr (add_use v u i (s\<lparr>operands := (operands s)(u := (operands s u)[i := v])\<rparr>))"
  by (simp add: set_operand_def Let_def)

lemma replace_loop_eq:
  assumes "slots_valid v s" and "new \<noteq> v" and "new \<noteq> VNull"
  shows "replace_loop v new k s = Some (Inr (redirect new (drop k (use_list s v)) s))"
  using assms(1)
proof (induction "length (use_list s v) - k" arbitrary: k s)
  case 0
  then show ?case by (simp add: replace_loop.simps [of v new k s])
next
  case (Suc n)
  then have k: "k < length (use_list s v)" by simp
  obtain u i where ui: "use_list s v ! k = (u, i)" by (cases "use_list s v ! k")
  with k Suc.prems have valid: "is_user u" "i < num_ops s u"
    by (auto simp: slots_valid_def dest!: nth_mem)
  let ?s = "add_use new u i (s\<lparr>operands := (operands s)(u := (operands s u)[i := new])\<rparr>)"
  have ul: "use_list ?s v = use_list s v" and "num_ops ?s = num_ops s"
    using \<open>new \<noteq> v\<close> by (auto simp: add_use_def)
  then have "slots_valid v ?s"
    using Suc.prems by (simp add: slots_valid_def)
  moreover have "n = length (use_list ?s v) - Suc k"
    using Suc.hyps(2) ul by simp
  ultimately have "replace_loop v new (Suc k) ?s = Some (Inr (redirect new (drop (Suc k) (use_list s v)) ?s))"
    using Suc.hyps(1) [of ?s "Suc k"] ul by simp
  moreover have "drop k (use_list s v) = (u, i) # drop (Suc k) (use_list s v)"
    using k ui by (simp add: Cons_nth_drop_Suc [symmetric])
  ultimately show ?case
    using k ui valid \<open>new \<noteq> VNull\<close>
    by (simp add: replace_loop.simps [of v new k s] set_operand_add_use)
qed

text \<open>
  Replacing a value by itself, when it has a use, never returns: every step appends the slot it
  has just visited.
\<close>

lemma replace_loop_self:
  assumes "replace_loop v new k s = Some r"
  shows "new = v \<and> v \<noteq> VNull \<and> slots_valid v s \<longrightarrow> k \<ge> length (use_list s v)"
proof (rule replace_loop.raw_induct
    [where P = "\<lambda>v new k s r. new = v \<and> v \<noteq> VNull \<and> slots_valid v s \<longrightarrow> k \<ge> length (use_list s v)",
     OF _ assms])
  fix f :: "val \<Rightarrow> val \<Rightarrow> nat \<Rightarrow> 'a users_scheme \<Rightarrow> 'a users_scheme res option" and v new k s r
  assume IH: "\<And>v new k s r. f v new k s = Some r \<Longrightarrow>
      new = v \<and> v \<noteq> VNull \<and> slots_valid v s \<longrightarrow> k \<ge> length (use_list s v)"
    and eq: "(if k < length (use_list s v)
      then let (u, i) = use_list s v ! k
           in if is_user u
              then case set_operand u i new s of
                     Inl e \<Rightarrow> Some (Inl e)
                   | Inr s' \<Rightarrow> f v new (Suc k) s'
              else Some (Inl AssertFail)
      else Some (Inr s)) = Some r"
  show "new = v \<and> v \<noteq> VNull \<and> slots_valid v s \<longrightarrow> k \<ge> length (use_list s v)"
  proof (intro impI, elim conjE, rule ccontr)
    assume v: "new = v" "v \<noteq> VNull" "slots_valid v s" and "\<not> k \<ge> length (use_list s v)"
    then have k: "k < length (use_list s v)" by simp
    obtain u i where ui: "use_list s v ! k = (u, i)" by (cases "use_list s v ! k")
    with k v(3) have valid: "is_user u" "i < num_ops s u"
      by (auto simp: slots_valid_def dest!: nth_mem)
    let ?s = "add_use v u i (s\<lparr>operands := (operands s)(u := (operands s u)[i := v])\<rparr>)"
    have "f v new (Suc k) ?s = Some r"
      using eq k ui valid v by (simp add: set_operand_add_use)
    moreover have "slots_valid v ?s" and "Suc k < length (use_list ?s v)"
      using v(3) valid k by (auto simp: slots_valid_def add_use_def)
    ultimately show False
      using IH v by fastforce
  qed
qed

lemma replace_when_eq:
  assumes "slots_valid v s" and "new \<noteq> v" and "new \<noteq> VNull" and "k \<le> length (use_list s v)"
  shows "replace_use_with_when v new pred k s =
     (let us = drop k (use_list s v);
          s' = redirect new (filter (\<lambda>(u, i). pred u) us) s
      in Some (Inr (s'\<lparr>use_list := (use_list s')
           (v := take k (use_list s v) @ filter (\<lambda>(u, i). \<not> pred u) us)\<rparr>)))"
  using assms(1,4)
proof (induction "length (use_list s v) - k" arbitrary: k s)
  case 0
  then show ?case
    by (simp add: replace_use_with_when.simps [of v new pred k s] Let_def cong: if_cong)
next
  case (Suc n)
  then have k: "k < length (use_list s v)" by simp
  obtain u i where ui: "use_list s v ! k = (u, i)" by (cases "use_list s v ! k")
  with k Suc.prems have valid: "is_user u" "i < num_ops s u"
    by (auto simp: slots_valid_def dest!: nth_mem)
  have drop: "drop k (use_list s v) = (u, i) # drop (Suc k) (use_list s v)"
    using k ui by (simp add: Cons_nth_drop_Suc [symmetric])
  show ?case
  proof (cases "pred u")
    case False
    have "replace_use_with_when v new pred k s = replace_use_with_when v new pred (Suc k) s"
      using k ui valid False by (simp add: replace_use_with_when.simps [of v new pred k s])
    also have "\<dots> = (let us = drop (Suc k) (use_list s v);
          s' = redirect new (filter (\<lambda>(u, i). pred u) us) s
      in Some (Inr (s'\<lparr>use_list := (use_list s')
           (v := take (Suc k) (use_list s v) @ filter (\<lambda>(u, i). \<not> pred u) us)\<rparr>)))"
      using Suc.hyps(2) k Suc.prems(1) by (intro Suc.hyps(1)) auto
    finally show ?thesis
      using k ui False by (simp add: drop Let_def take_Suc_conv_app_nth)
  next
    case True
    let ?s1 = "add_use new u i (s\<lparr>operands := (operands s)(u := (operands s u)[i := new])\<rparr>)"
    let ?s = "?s1\<lparr>use_list := (use_list ?s1)
                 (v := take k (use_list ?s1 v) @ drop (Suc k) (use_list ?s1 v))\<rparr>"
    have ul: "use_list ?s1 v = use_list s v"
      using \<open>new \<noteq> v\<close> by (simp add: add_use_def)
    have "replace_use_with_when v new pred k s = replace_use_with_when v new pred k ?s"
      using k ui valid True \<open>new \<noteq> VNull\<close>
      by (simp add: replace_use_with_when.simps [of v new pred k s] set_operand_add_use)
    also have "\<dots> = (let us = drop k (use_list ?s v);
          s' = redirect new (filter (\<lambda>(u, i). pred u) us) ?s
      in Some (Inr (s'\<lparr>use_list := (use_list s')
           (v := take k (use_list ?s v) @ filter (\<lambda>(u, i). \<not> pred u) us)\<rparr>)))"
    proof (rule Suc.hyps(1))
      show "slots_valid v ?s"
        using Suc.prems(1) \<open>new \<noteq> v\<close>
        by (auto simp: slots_valid_def add_use_def dest: in_set_takeD in_set_dropD)
    qed (use Suc.hyps(2) k ul in auto)
    finally have eq: "replace_use_with_when v new pred k s = \<dots>" .
    have commute: "(redirect new us (x\<lparr>use_list := (use_list x)(v := l)\<rparr>))
        = (let y = redirect new us x in y\<lparr>use_list := (use_list y)(v := l)\<rparr>)" for us l and x :: "'a users_scheme"
      using \<open>new \<noteq> v\<close>
      by (induction new us x rule: redirect.induct) (auto simp: add_use_def Let_def fun_upd_twist)
    show ?thesis
      unfolding eq using k True ul
      by (simp add: drop Let_def commute)
  qed
qed

section \<open>A small use-def graph\<close>

text \<open>Used by the witnesses: one instruction \<open>VInstr 1\<close> with operands arg 0, arg 1, arg 0.\<close>

definition no_users :: users where
  "no_users = \<lparr>operands = (\<lambda>_. []), num_ops = (\<lambda>_. 0), use_list = (\<lambda>_. [])\<rparr>"

lemma no_users_ok: "use_def_ok no_users"
  by (simp add: use_def_ok_def uses_of_def no_users_def)

definition one_user :: users where
  "one_user =
     \<lparr>operands = (\<lambda>_. [])(VInstr 1 := [VArg 0 0, VArg 0 1, VArg 0 0]),
      num_ops = (\<lambda>_. 0)(VInstr 1 := 3),
      use_list = (\<lambda>_. [])(VArg 0 0 := [(VInstr 1, 0), (VInstr 1, 2)], VArg 0 1 := [(VInstr 1, 1)])\<rparr>"

lemma one_user_built:
  "set_operands (VInstr 1) 0 [VArg 0 0, VArg 0 1, VArg 0 0] (new_user (VInstr 1) 3 no_users) = Inr one_user"
  by (simp add: set_operand_def Let_def add_use_def new_user_def no_users_def one_user_def
      numeral_3_eq_3 numeral_2_eq_2 fun_upd_twist)

lemma one_user_ok: "use_def_ok one_user"
proof (rule init_user_ok(1) [OF no_users_ok])
  show "set_operands (VInstr 1) 0 [VArg 0 0, VArg 0 1, VArg 0 0]
      (new_user (VInstr 1) (length [VArg 0 0, VArg 0 1, VArg 0 0]) no_users) = Inr one_user"
    using one_user_built by (simp add: numeral_3_eq_3)
qed (simp_all add: no_users_def)

section \<open>What the replacements guarantee\<close>

lemma redirect_operands:
  assumes ok: "use_def_ok s" and "v \<noteq> VNull" and us: "set us = {(u, i) \<in> set (use_list s v). P u}"
  shows "operands (redirect new us s) u =
    (if P u then map (\<lambda>x. if x = v then new else x) (operands s u) else operands s u)"
  using us use_def_okD(4) [OF ok \<open>v \<noteq> VNull\<close>]
  by (intro nth_equalityI) (auto simp: redirect_nth)

text \<open>Moving part of the use list of \<open>v\<close> to \<open>new\<close> together with the slots keeps the
  mirror exact.\<close>

lemma redirect_ok:
  assumes ok: "use_def_ok s" and v: "v \<noteq> VNull" "new \<noteq> VNull" "new \<noteq> v"
    and us: "set us = {(u, i) \<in> set (use_list s v). P u}" "distinct us"
    and rest: "set rest = {(u, i) \<in> set (use_list s v). \<not> P u}" "distinct rest"
    and s': "s' = (redirect new us s)\<lparr>use_list := (use_list (redirect new us s))(v := rest)\<rparr>"
  shows "use_def_ok s'"
proof (rule use_def_okI)
  note ops = redirect_operands [OF ok v(1) us(1), of new]
  note slot = use_def_okD(4) [OF ok]
  show "num_ops s' u = length (operands s' u)" for u
    using use_def_okD(1) [OF ok] by (simp add: s')
  show "is_user u" if "operands s' u \<noteq> []" for u
    using that use_def_okD(2) [OF ok, of u] by (auto simp: s' ops split: if_splits)
  show "distinct (use_list s' w)" if "w \<noteq> VNull" for w
    using use_def_okD(3) [OF ok] that us rest v slot
    by (auto simp: s' redirect_use_list)
  show "(u, i) \<in> set (use_list s' w) \<longleftrightarrow> i < length (operands s' u) \<and> operands s' u ! i = w"
    if "w \<noteq> VNull" for w u i
    using that v us(1) rest(1) slot by (auto simp: s' redirect_use_list ops)
qed

text \<open>C11: \<open>replace_all_use_with\<close> on a value other than the replacement returns, and then
  every operand that was the old value is the new one and no other operand has changed, the old
  value has no use left, its uses have moved to the new value in order, and operands and use lists
  still mirror each other exactly.\<close>

theorem replace_all_use_with_spec:
  assumes "use_def_ok s" and "v \<noteq> VNull" and "new \<noteq> VNull" and "new \<noteq> v"
  shows "\<exists>s'. replace_all_use_with v new s = Some (Inr s') \<and> use_def_ok s' \<and>
    (\<forall>u. operands s' u = map (\<lambda>x. if x = v then new else x) (operands s u)) \<and>
    use_list s' v = [] \<and> use_list s' new = use_list s new @ use_list s v"
proof -
  let ?r = "redirect new (use_list s v) s"
  let ?s = "?r\<lparr>use_list := (use_list ?r)(v := [])\<rparr>"
  have "replace_all_use_with v new s = Some (Inr ?s)"
    using replace_loop_eq [OF use_def_slots_valid [OF assms(1,2)] assms(4,3), of 0]
    by (simp add: replace_all_use_with_def)
  moreover have "use_def_ok ?s"
    using use_def_okD(3) [OF assms(1,2)]
    by (intro redirect_ok [OF assms, where P = "\<lambda>u. True"]) auto
  moreover have "operands ?s u = map (\<lambda>x. if x = v then new else x) (operands s u)" for u
    by (simp add: redirect_operands [OF assms(1,2), where P = "\<lambda>u. True"])
  ultimately show ?thesis
    using assms(4) by (auto simp: redirect_use_list)
qed

theorem replace_all_use_with_spec_witness:
  "\<exists>s'. replace_all_use_with (VArg 0 0) (VConst (CInt 7)) one_user = Some (Inr s') \<and> use_def_ok s' \<and>
     operands s' (VInstr 1) = [VConst (CInt 7), VArg 0 1, VConst (CInt 7)] \<and> use_list s' (VArg 0 0) = []"
proof -
  have "VArg 0 0 \<noteq> VNull" and "VConst (CInt 7) \<noteq> VNull" and "VConst (CInt 7) \<noteq> VArg 0 0"
    by simp_all
  from replace_all_use_with_spec [OF one_user_ok this] obtain s' where
    s': "replace_all_use_with (VArg 0 0) (VConst (CInt 7)) one_user = Some (Inr s')" "use_def_ok s'"
      "\<forall>u. operands s' u = map (\<lambda>x. if x = VArg 0 0 then VConst (CInt 7) else x) (operands one_user u)"
      "use_list s' (VArg 0 0) = []"
    by blast
  have "operands s' (VInstr 1) = [VConst (CInt 7), VArg 0 1, VConst (CInt 7)]"
    using s'(3) by (simp add: one_user_def)
  with s' show ?thesis by blast
qed

text \<open>C12: the loop of \<open>replace_all_use_with\<close> runs over a list it may be appending to:
  replacing a used value by itself never returns.\<close>

theorem replace_all_use_with_self:
  assumes "use_def_ok s" and "v \<noteq> VNull" and "use_list s v \<noteq> []"
  shows "replace_all_use_with v v s = None"
proof (cases "replace_loop v v 0 s")
  case None
  then show ?thesis by (simp add: replace_all_use_with_def)
next
  case (Some r)
  from replace_loop_self [OF this] use_def_slots_valid [OF assms(1,2)] assms(2,3) show ?thesis
    by simp
qed

theorem replace_all_use_with_self_witness: "replace_all_use_with (VArg 0 0) (VArg 0 0) one_user = None"
proof -
  have "VArg 0 0 \<noteq> VNull" and "use_list one_user (VArg 0 0) \<noteq> []"
    by (simp_all add: one_user_def)
  with one_user_ok show ?thesis by (rule replace_all_use_with_self)
qed

text \<open>C13: \<open>replace_use_with_when\<close> changes exactly the operands of the users that satisfy
  the predicate, returns, and keeps the mirror exact.\<close>

theorem replace_use_with_when_spec:
  assumes "use_def_ok s" and "v \<noteq> VNull" and "new \<noteq> VNull" and "new \<noteq> v"
  shows "\<exists>s'. replace_use_with_when v new pred 0 s = Some (Inr s') \<and> use_def_ok s' \<and>
    (\<forall>u. operands s' u =
       (if pred u then map (\<lambda>x. if x = v then new else x) (operands s u) else operands s u)) \<and>
    use_list s' v = filter (\<lambda>(u, i). \<not> pred u) (use_list s v)"
proof -
  let ?us = "filter (\<lambda>(u, i). pred u) (use_list s v)"
  let ?r = "redirect new ?us s"
  let ?s = "?r\<lparr>use_list := (use_list ?r)(v := filter (\<lambda>(u, i). \<not> pred u) (use_list s v))\<rparr>"
  have "replace_use_with_when v new pred 0 s = Some (Inr ?s)"
    using replace_when_eq [OF use_def_slots_valid [OF assms(1,2)] assms(4,3), of 0]
    by (simp add: Let_def)
  moreover have "use_def_ok ?s"
    using use_def_okD(3) [OF assms(1,2)]
    by (intro redirect_ok [OF assms, where P = pred and us = ?us]) auto
  moreover have "operands ?r u =
     (if pred u then map (\<lambda>x. if x = v then new else x) (operands s u) else operands s u)" for u
    by (rule redirect_operands [OF assms(1,2)]) auto
  ultimately show ?thesis by auto
qed

theorem replace_use_with_when_spec_witness:
  "\<exists>s'. replace_use_with_when (VArg 0 0) (VArg 0 1) (\<lambda>u. u = VInstr 1) 0 one_user = Some (Inr s') \<and>
     use_def_ok s' \<and> operands s' (VInstr 1) = [VArg 0 1, VArg 0 1, VArg 0 1]"
proof -
  have "VArg 0 0 \<noteq> VNull" and "VArg 0 1 \<noteq> VNull" and "VArg 0 1 \<noteq> VArg 0 0"
    by simp_all
  from replace_use_with_when_spec [OF one_user_ok this, of "\<lambda>u. u = VInstr 1"] obtain s' where
    s': "replace_use_with_when (VArg 0 0) (VArg 0 1) (\<lambda>u. u = VInstr 1) 0 one_user = Some (Inr s')"
      "use_def_ok s'" "operands s' (VInstr 1) =
         map (\<lambda>x. if x = VArg 0 0 then VArg 0 1 else x) (operands one_user (VInstr 1))"
    by fastforce
  then show ?thesis by (simp add: one_user_def)
qed

section \<open>Dropping the operands of an erased instruction\<close>

lemma remove_uses_Inr:
  "remove_uses u vs s = Inr s' \<longleftrightarrow> VNull \<notin> set vs \<and>
     s' = s\<lparr>use_list := (\<lambda>v. if v \<in> set vs then filter (\<lambda>use. fst use \<noteq> u) (use_list s v)
                                         else use_list s v)\<rparr>"
proof (induction vs arbitrary: s)
  case Nil
  then show ?case by auto
next
  case (Cons v vs)
  show ?case
    by (auto simp: bnd_eq_Inr_iff remove_use_def Cons.IH fun_eq_iff
        intro!: users.equality cong: if_cong)
qed

text \<open>C14: after \<open>remove_use_of_ops\<close> no use list mentions the user any more, so deleting
  the user object leaves the rest of the graph exact.\<close>

theorem remove_use_of_ops_spec:
  assumes ok: "use_def_ok s" and nn: "VNull \<notin> set (operands s u)"
  shows "\<exists>s'. remove_use_of_ops u s = Inr s' \<and> operands s' = operands s \<and>
    (\<forall>v i. v \<noteq> VNull \<longrightarrow> (u, i) \<notin> set (use_list s' v)) \<and>
    use_def_ok (s'\<lparr>operands := (operands s')(u := []), num_ops := (num_ops s')(u := 0)\<rparr>)"
proof -
  let ?s = "s\<lparr>use_list := (\<lambda>v. if v \<in> set (operands s u) then filter (\<lambda>use. fst use \<noteq> u) (use_list s v)
                                       else use_list s v)\<rparr>"
  have none: "(u, i) \<notin> set (use_list ?s v)" if "v \<noteq> VNull" for v i
    using use_def_okD(4) [OF ok that, of u i] by auto
  have "use_def_ok (?s\<lparr>operands := (operands ?s)(u := []), num_ops := (num_ops ?s)(u := 0)\<rparr>)"
    using use_def_okD [OF ok] none by (intro use_def_okI) (auto split: if_splits)
  with none nn show ?thesis
    by (auto simp: remove_use_of_ops_def remove_uses_Inr)
qed

theorem remove_use_of_ops_spec_witness:
  "\<exists>s'. remove_use_of_ops (VInstr 1) one_user = Inr s' \<and>
     use_def_ok (s'\<lparr>operands := (operands s')(VInstr 1 := []), num_ops := (num_ops s')(VInstr 1 := 0)\<rparr>)"
proof -
  have "VNull \<notin> set (operands one_user (VInstr 1))"
    by (simp add: one_user_def)
  from remove_use_of_ops_spec [OF one_user_ok this] show ?thesis by blast
qed

lemma remove_operands_Inr:
  assumes "VNull \<notin> set (operands s u)" and "j < length (operands s u)"
  shows "remove_operands u i j s = Inr (s\<lparr>
     use_list := (\<lambda>v. if v \<in> set (drop i (take (Suc j) (operands s u))) then filter (\<lambda>use. fst use \<noteq> u) (use_list s v) else use_list s v),
     operands := (operands s)(u := take i (operands s u) @ drop (Suc j) (operands s u)),
     num_ops := (num_ops s)(u := length (take i (operands s u) @ drop (Suc j) (operands s u)))\<rparr>)"
proof -
  have "VNull \<notin> set (drop i (take (Suc j) (operands s u)))"
    using assms(1) by (meson in_set_dropD in_set_takeD)
  then have "remove_uses u (drop i (take (Suc j) (operands s u))) s =
      Inr (s\<lparr>use_list := (\<lambda>v. if v \<in> set (drop i (take (Suc j) (operands s u))) then filter (\<lambda>use. fst use \<noteq> u) (use_list s v) else use_list s v)\<rparr>)"
    by (simp add: remove_uses_Inr)
  then show ?thesis using assms(2) by (simp add: remove_operands_def Let_def)
qed

lemma remove_operands_view:
  assumes "VNull \<notin> set (operands s u)" and "j < length (operands s u)" and "remove_operands u i j s = Inr s'"
  shows "operands s' = (operands s)(u := take i (operands s u) @ drop (Suc j) (operands s u))"
    "num_ops s' = (num_ops s)(u := length (take i (operands s u) @ drop (Suc j) (operands s u)))"
    "use_list s' v = (if v \<in> set (drop i (take (Suc j) (operands s u))) then filter (\<lambda>use. fst use \<noteq> u) (use_list s v) else use_list s v)"
  using remove_operands_Inr [OF assms(1,2), of i] assms(3) by auto

text \<open>If the graph is exact after the removal, nothing stood behind the removed slots: the last slot of its
  value there would keep its old number.\<close>

lemma removed_at_end:
  assumes ok: "use_def_ok s" and nn: "VNull \<notin> set (operands s u)" and ij: "i \<le> j" "j < length (operands s u)"
    and r: "remove_operands u i j s = Inr s'" and ok': "use_def_ok s'"
  shows "Suc j = length (operands s u)"
proof (rule ccontr)
  assume "Suc j \<noteq> length (operands s u)"
  then have j: "Suc j < length (operands s u)" using ij(2) by simp
  let ?xs = "operands s u" and ?n = "length (operands s u) - 1"
  let ?v = "?xs ! ?n" and ?k = "i + (?n - Suc j)"
  note view = remove_operands_view [OF nn ij(2) r]
  have "?v \<in> set ?xs" using j by (intro nth_mem) simp
  then have v: "?v \<noteq> VNull" using nn by metis
  have ops: "operands s' u = take i ?xs @ drop (Suc j) ?xs" by (simp add: view)
  have len: "length (operands s' u) \<le> ?n" using ij j by (simp add: ops)
  have "length (take i ?xs) = i" using ij by simp
  then have "operands s' u ! ?k = drop (Suc j) ?xs ! (?n - Suc j)" unfolding ops by (metis nth_append_length_plus)
  also have "\<dots> = ?xs ! (Suc j + (?n - Suc j))" using j by (intro nth_drop) simp
  also have "Suc j + (?n - Suc j) = ?n" using j by simp
  finally have "operands s' u ! ?k = ?v" .
  moreover have "?k < length (operands s' u)" using ij j by (simp add: ops)
  ultimately have here: "(u, ?k) \<in> set (use_list s' ?v)" using use_def_okD(4) [OF ok' v] by blast
  then have "?v \<notin> set (drop i (take (Suc j) ?xs))" by (auto simp: view(3) split: if_splits)
  then have "use_list s' ?v = use_list s ?v" by (simp add: view(3))
  moreover have "(u, ?n) \<in> set (use_list s ?v)" using use_def_okD(4) [OF ok v, of u ?n] j by simp
  ultimately have "?n < length (operands s' u)" using use_def_okD(4) [OF ok' v, of u ?n] by simp
  then show False using len by simp
qed

text \<open>C19: \<open>remove_operands\<close> keeps operands and use lists in step exactly if it removes the last
  slots and none of their values is an operand before them: it does not renumber the uses of the
  slots behind the removed ones, and \<open>remove_use\<close> drops every use by this user.\<close>

theorem remove_operands_exact_iff:
  assumes "use_def_ok s" and "VNull \<notin> set (operands s u)" and "i \<le> j" and "j < length (operands s u)"
  shows "\<exists>s'. remove_operands u i j s = Inr s' \<and> operands s' u = take i (operands s u) @ drop (Suc j) (operands s u) \<and>
    (use_def_ok s' \<longleftrightarrow> Suc j = length (operands s u) \<and> set (take i (operands s u)) \<inter> set (drop i (operands s u)) = {})"
proof -
  obtain s' where s': "remove_operands u i j s = Inr s'" using remove_operands_Inr [OF assms(2,4)] by blast
  note view = remove_operands_view [OF assms(2,4) s']
  let ?xs = "operands s u"
  have ops: "operands s' u = take i ?xs @ drop (Suc j) ?xs" by (simp add: view)
  have "set (take i ?xs) \<inter> set (drop i ?xs) = {}" if ok': "use_def_ok s'" "Suc j = length ?xs"
  proof (rule ccontr)
    assume "set (take i ?xs) \<inter> set (drop i ?xs) \<noteq> {}"
    then obtain v where v: "v \<in> set (take i ?xs)" "v \<in> set (drop i ?xs)" by blast
    then obtain k where k: "k < length (operands s' u)" "operands s' u ! k = v"
      using ok'(2) by (auto simp: ops in_set_conv_nth)
    have "v \<noteq> VNull" using v(1) assms(2) by (meson in_set_takeD)
    then have "(u, k) \<in> set (use_list s' v)" using use_def_okD(4) [OF ok'(1)] k by blast
    then show False using v(2) that(2) by (simp add: view(3))
  qed
  moreover have "use_def_ok s'" if j: "Suc j = length ?xs" and dj: "set (take i ?xs) \<inter> set (drop i ?xs) = {}"
  proof (rule use_def_okI)
    have s'_eq: "operands s' = (operands s)(u := take i ?xs)" "num_ops s' = (num_ops s)(u := length (take i ?xs))"
      "use_list s' = (\<lambda>v. if v \<in> set (drop i ?xs) then filter (\<lambda>use. fst use \<noteq> u) (use_list s v) else use_list s v)"
      using j by (auto simp: view)
    show "num_ops s' w = length (operands s' w)" for w using use_def_okD(1) [OF assms(1)] by (simp add: s'_eq)
    show "is_user w" if "operands s' w \<noteq> []" for w
      using use_def_okD(2) [OF assms(1), of w] that by (auto simp: s'_eq split: if_splits)
    fix v :: val assume v: "v \<noteq> VNull"
    show "distinct (use_list s' v)" using use_def_okD(3) [OF assms(1) v] by (simp add: s'_eq)
    fix w k
    have old: "(w, k) \<in> set (use_list s v) \<longleftrightarrow> k < length (operands s w) \<and> operands s w ! k = v"
      using use_def_okD(4) [OF assms(1) v] .
    have "k < i" if "k < length ?xs" "?xs ! k = v" "v \<notin> set (drop i ?xs)"
    proof (rule ccontr)
      assume "\<not> k < i"
      then have "drop i ?xs ! (k - i) = v" "k - i < length (drop i ?xs)" using that(1,2) by auto
      then show False using that(3) nth_mem by metis
    qed
    moreover have "v \<notin> set (drop i ?xs)" if "k < i" "k < length ?xs" "?xs ! k = v"
      using that dj by (auto simp: set_eq_iff in_set_conv_nth)
    ultimately show "(w, k) \<in> set (use_list s' v) \<longleftrightarrow> k < length (operands s' w) \<and> operands s' w ! k = v"
      using old by (cases "w = u") (auto simp: s'_eq)
  qed
  ultimately show ?thesis using s' ops removed_at_end [OF assms s'] by blast
qed

theorem remove_operands_exact_iff_witness:
  "\<exists>s'. remove_operands (VInstr 1) 0 0 one_user = Inr s' \<and> operands s' (VInstr 1) = [VArg 0 1, VArg 0 0] \<and> \<not> use_def_ok s'"
proof -
  have "VNull \<notin> set (operands one_user (VInstr 1))" "0 < length (operands one_user (VInstr 1))"
    by (simp_all add: one_user_def)
  from remove_operands_exact_iff [OF one_user_ok this(1) _ this(2), of 0]
  show ?thesis by (auto simp: one_user_def)
qed

end
