(* ===== verification/Constants.thy ===== *)
theory Constants
  imports Users
begin

text \<open>
  The constants of the intermediate representation (\<open>include/lightir/Constant.h\<close>,
  \<open>src/lightir/Constant.cpp\<close>). The first part shows that the tables \<open>cached_int\<close>,
  \<open>cached_bool\<close> and \<open>cached_zero\<close> hand out one object per value, which is why the
  model names such constants by their contents. The second part is the table of float constants,
  whose keys are compared with the float \<open>==\<close>: it is part of the state, and it does not
  keep one object per bit pattern.
\<close>

section \<open>Integer, boolean and zero constants\<close>

text \<open>The tables map a key to the address of the object; one module is compiled per run, so
  the module half of the keys is constant.\<close>

datatype cobj = OInt "32 word" | OBool bool | OZero ty

record const_tab =
  c_next :: nat
  c_heap :: "nat \<Rightarrow> cobj option"
  cached_int :: "32 word \<Rightarrow> nat option"
  cached_bool :: "bool \<Rightarrow> nat option"
  cached_zero :: "ty \<Rightarrow> nat option"

definition const_tab_init :: const_tab where
  "const_tab_init = \<lparr>c_next = 0, c_heap = Map.empty, cached_int = Map.empty,
     cached_bool = Map.empty, cached_zero = Map.empty\<rparr>"

definition new_const :: "cobj \<Rightarrow> const_tab \<Rightarrow> nat \<times> const_tab" where
  "new_const c m = (c_next m, m\<lparr>c_next := Suc (c_next m), c_heap := (c_heap m)(c_next m \<mapsto> c)\<rparr>)"

definition ConstantInt_get :: "32 word \<Rightarrow> const_tab \<Rightarrow> nat \<times> const_tab" where
  "ConstantInt_get v m =
     (case cached_int m v of
        Some p \<Rightarrow> (p, m)
      | None \<Rightarrow> let (p, m) = new_const (OInt v) m in (p, m\<lparr>cached_int := (cached_int m)(v \<mapsto> p)\<rparr>))"

definition ConstantInt_get_bool :: "bool \<Rightarrow> const_tab \<Rightarrow> nat \<times> const_tab" where
  "ConstantInt_get_bool v m =
     (case cached_bool m v of
        Some p \<Rightarrow> (p, m)
      | None \<Rightarrow> let (p, m) = new_const (OBool v) m in (p, m\<lparr>cached_bool := (cached_bool m)(v \<mapsto> p)\<rparr>))"

definition ConstantZero_get :: "ty \<Rightarrow> const_tab \<Rightarrow> nat \<times> const_tab" where
  "ConstantZero_get t m =
     (case cached_zero m t of
        Some p \<Rightarrow> (p, m)
      | None \<Rightarrow> let (p, m) = new_const (OZero t) m in (p, m\<lparr>cached_zero := (cached_zero m)(t \<mapsto> p)\<rparr>))"

fun get_const :: "cobj \<Rightarrow> const_tab \<Rightarrow> (nat \<times> const_tab) res" where
  "get_const (OInt v) m = Inr (ConstantInt_get v m)"
| "get_const (OBool v) m = Inr (ConstantInt_get_bool v m)"
| "get_const (OZero t) m = Inr (ConstantZero_get t m)"

fun const_addr :: "const_tab \<Rightarrow> cobj \<Rightarrow> nat option" where
  "const_addr m (OInt v) = cached_int m v"
| "const_addr m (OBool v) = cached_bool m v"
| "const_addr m (OZero t) = cached_zero m t"

definition const_tab_ok :: "const_tab \<Rightarrow> bool" where
  "const_tab_ok m \<longleftrightarrow>
     (\<forall>a c. c_heap m a = Some c \<longrightarrow> a < c_next m) \<and>
     (\<forall>a c. c_heap m a = Some c \<longleftrightarrow> const_addr m c = Some a)"

lemma const_tab_ok_init: "const_tab_ok const_tab_init"
proof -
  have "const_addr const_tab_init c = None" for c
    by (cases c) (auto simp: const_tab_init_def)
  then show ?thesis by (simp add: const_tab_ok_def) (simp add: const_tab_init_def)
qed

lemmas const_get_defs = ConstantInt_get_def ConstantInt_get_bool_def ConstantZero_get_def new_const_def

lemma get_const_cases:
  assumes "get_const k m = Inr (a, m')"
  shows "(const_addr m k = Some a \<and> m' = m) \<or>
         (const_addr m k = None \<and> a = c_next m \<and> c_next m' = Suc (c_next m) \<and>
          c_heap m' = (c_heap m)(a \<mapsto> k) \<and> const_addr m' = (const_addr m)(k \<mapsto> a))"
proof -
  have "const_addr m' x = ((const_addr m)(k \<mapsto> a)) x" if "const_addr m k = None" for x
    using assms that by (cases k; cases x) (auto simp: const_get_defs Let_def)
  then have "const_addr m k = None \<Longrightarrow> const_addr m' = (const_addr m)(k \<mapsto> a)"
    by blast
  with assms show ?thesis
    by (cases k) (auto simp: const_get_defs Let_def split: option.splits)
qed

lemma const_tab_okD: "const_tab_ok m \<Longrightarrow> c_heap m a = Some c \<longleftrightarrow> const_addr m c = Some a"
  unfolding const_tab_ok_def by blast

lemma get_const_ok:
  assumes ok: "const_tab_ok m" and get: "get_const k m = Inr (a, m')"
  shows "const_tab_ok m' \<and> c_heap m' a = Some k \<and> (\<forall>b c. c_heap m b = Some c \<longrightarrow> c_heap m' b = Some c)"
  using get_const_cases [OF get]
proof (elim disjE conjE)
  assume "const_addr m k = Some a" and "m' = m"
  with ok show ?thesis by (auto simp: const_tab_ok_def)
next
  assume new: "const_addr m k = None" "a = c_next m" "c_next m' = Suc (c_next m)"
    "c_heap m' = (c_heap m)(a \<mapsto> k)" "const_addr m' = (const_addr m)(k \<mapsto> a)"
  have inv: "\<And>b c. c_heap m b = Some c \<Longrightarrow> b < c_next m" "\<And>b c. c_heap m b = Some c \<longleftrightarrow> const_addr m c = Some b"
    using ok unfolding const_tab_ok_def by blast+
  then have fresh: "c_heap m a = None"
    using new(2) by (metis less_irrefl not_None_eq)
  have "c_heap m' b = Some c \<longleftrightarrow> const_addr m' c = Some b" for b c
    using inv(2) [of b c] new fresh by auto
  moreover have "b < c_next m'" if "c_heap m' b = Some c" for b c
    using inv(1) [of b c] that new by (cases "b = a") auto
  ultimately have "const_tab_ok m'"
    unfolding const_tab_ok_def by blast
  with new(4) fresh show ?thesis by simp
qed

interpretation const_table: hash_cons get_const c_heap const_tab_ok
proof
  show "get_const k s = Inr (a, s)" if "const_tab_ok s" and "c_heap s a = Some k" for s a k
    using that const_tab_okD [OF that(1), of a k] by (cases k) (auto simp: const_get_defs)
qed (use get_const_ok in \<open>auto simp: const_tab_okD\<close>)

text \<open>C16: the compiler gets the same \<open>Constant*\<close> for two requests exactly if the requests
  are for the same value of the same type; in particular the \<open>i1\<close> constant \<open>true\<close> and
  the \<open>i32\<close> constant 1 are different objects. This is what lets global value numbering
  compare constants by address.\<close>

theorem constant_identity:
  assumes "get_all get_const ks const_tab_init = Inr (as, m)" and "i < length ks" and "j < length ks"
  shows "as ! i = as ! j \<longleftrightarrow> ks ! i = ks ! j"
  using const_tab_ok_init assms by (rule const_table.get_all_inj)

theorem constant_identity_witness:
  "\<exists>m. get_all get_const [OInt 1, OBool True, OInt 1] const_tab_init = Inr ([0, 1, 0], m) \<and>
     ([0, 1, 0 :: nat] ! 0 = [0, 1, 0] ! 1 \<longleftrightarrow> [OInt 1, OBool True, OInt 1] ! 0 = [OInt 1, OBool True, OInt 1] ! 1)"
proof -
  obtain m where m: "get_all get_const [OInt 1, OBool True, OInt 1] const_tab_init = Inr ([0, 1, 0], m)"
    by (simp add: const_get_defs const_tab_init_def)
  from constant_identity [OF m, of 0 1] m show ?thesis by simp
qed

section \<open>Float constants\<close>

text \<open>
  The table in the order of creation, each key with its object. Keys are equal if the floats
  compare equal: zero of either sign has one entry (the standard library hashes both zeros alike),
  and NaN is never found.
\<close>

record const_state = users +
  fp_count :: nat
  cached_float :: "(float32 \<times> const) list"

fun find_float :: "float32 \<Rightarrow> (float32 \<times> const) list \<Rightarrow> const option" where
  "find_float v [] = None"
| "find_float v ((k, c) # es) = (if float_eq k v then Some c else find_float v es)"

definition ConstantFP_get :: "float32 \<Rightarrow> 'z const_state_scheme \<Rightarrow> const \<times> 'z const_state_scheme" where
  "ConstantFP_get v s =
     (case find_float v (cached_float s) of
        Some c \<Rightarrow> (c, s)
      | None \<Rightarrow>
          let c = CFP v (fp_count s)
          in (c, s\<lparr>fp_count := Suc (fp_count s), cached_float := cached_float s @ [(v, c)]\<rparr>))"

fun fp_value :: "const \<Rightarrow> float32" where
  "fp_value (CFP v n) = v"
| "fp_value _ = 0"

text \<open>The types of constants, and \<open>get_value\<close> on the integers.\<close>

fun const_type :: "const \<Rightarrow> ty" where
  "const_type (CInt v) = INT32_T"
| "const_type (CBool b) = INT1_T"
| "const_type (CFP v n) = FloatTy"
| "const_type (CZero t) = t"

fun int_value :: "const \<Rightarrow> 32 word option" where
  "int_value (CInt v) = Some v"
| "int_value (CBool b) = Some (if b then 1 else 0)"
| "int_value _ = None"

definition float_tab_ok :: "'z const_state_scheme \<Rightarrow> bool" where
  "float_tab_ok s \<longleftrightarrow> (\<forall>(k, c) \<in> set (cached_float s). fp_value c = k)"

lemma find_float_Some:
  "find_float v es = Some c \<Longrightarrow> \<exists>k. (k, c) \<in> set es \<and> float_eq k v"
  by (induction v es rule: find_float.induct) (auto split: if_splits)

lemma find_float_append:
  "find_float v (es @ es') = (case find_float v es of Some c \<Rightarrow> Some c | None \<Rightarrow> find_float v es')"
  by (induction v es rule: find_float.induct) auto

definition no_consts :: const_state where
  "no_consts = users.extend no_users \<lparr>fp_count = 0, cached_float = []\<rparr>"

text \<open>C17: the constant returned for a float that is not NaN compares equal to it (for NaN it is
  the NaN itself), and asking again returns the same object; so a lookup can confuse only the two
  zeros.\<close>

theorem ConstantFP_get_value:
  assumes "float_tab_ok s" and "ConstantFP_get v s = (c, s')"
  shows "float_tab_ok s' \<and> (if is_nan v then fp_value c = v
           else float_eq (fp_value c) v \<and> ConstantFP_get v s' = (c, s'))"
proof (cases "find_float v (cached_float s)")
  case None
  with assms show ?thesis
    by (auto simp: ConstantFP_get_def float_tab_ok_def find_float_append float_eq_refl Let_def)
next
  case (Some c')
  then obtain k where k: "(k, c') \<in> set (cached_float s)" "float_eq k v"
    by (auto dest: find_float_Some)
  then have "\<not> is_nan v" and "fp_value c' = k"
    using assms(1) by (auto simp: float_tab_ok_def float_eq_def)
  with k Some assms show ?thesis
    by (auto simp: ConstantFP_get_def)
qed

theorem ConstantFP_get_value_witness:
  "\<exists>c s'. ConstantFP_get (2 ^ 31) (no_consts\<lparr>cached_float := [(0, CFP 0 5)]\<rparr>) = (c, s') \<and>
     float_eq (fp_value c) (2 ^ 31) \<and> ConstantFP_get (2 ^ 31) s' = (c, s')"
proof -
  let ?s = "no_consts\<lparr>cached_float := [(0, CFP 0 5)]\<rparr>"
  obtain c s' where get: "ConstantFP_get (2 ^ 31) ?s = (c, s')"
    by (cases "ConstantFP_get (2 ^ 31) ?s")
  have "float_tab_ok ?s"
    by (simp add: float_tab_ok_def)
  from ConstantFP_get_value [OF this get] have "float_eq (fp_value c) (2 ^ 31) \<and> ConstantFP_get (2 ^ 31) s' = (c, s')"
    by (simp add: is_nan_def f_exp_def f_frac_def)
  with get show ?thesis by blast
qed

text \<open>The sign of zero is lost: once \<open>0.0\<close> has been interned, asking for
  \<open>-0.0\<close> returns the constant \<open>0.0\<close>, so folding an expression to \<open>-0.0\<close>
  changes its bits (the order of the requests decides which zero the module gets).\<close>

lemma negative_zero_lost:
  "cached_float s = [] \<Longrightarrow>
     (let (z, s) = ConstantFP_get 0 s; (n, s) = ConstantFP_get (2 ^ 31) s in n = z \<and> fp_value n = 0 \<and> fp_value n \<noteq> 2 ^ 31)"
  by (simp add: ConstantFP_get_def Let_def float_eq_def is_nan_def f_exp_def f_frac_def f_rank_def f_sign_def)

end
