(* ===== verification/IR_Module.thy ===== *)
theory IR_Module
  imports Constants
begin

text \<open>
  The objects of the intermediate representation and the operations that build them: instructions
  (\<open>Instruction.h\<close>, \<open>Instruction.cpp\<close>), basic blocks (\<open>BasicBlock.h\<close>,
  \<open>BasicBlock.cpp\<close>), functions (\<open>Function.h\<close>, \<open>Function.cpp\<close>), global variables
  (\<open>GlobalVariable.cpp\<close>) and the module's lists (\<open>Module.cpp\<close>), all under
  \<open>lightir/\<close>. The state extends the use-def graph and the float constants by the heap of
  these objects; every constructor below runs the source's constructor chain in its order.
\<close>

section \<open>Objects\<close>

datatype opid =
    Ret | Br
  | Add | Sub | Mul | Sdiv
  | Fadd | Fsub | Fmul | Fdiv
  | Alloca | Load | Store
  | Cmp | Fcmp | Phi | Call | Getelementptr | Zext | Fptosi | Sitofp

datatype cmpop = EQ | NE | GT | GE | LT | LE

text \<open>The fields of the \<open>Instruction\<close> subclasses: \<open>cmp_op_\<close>, \<open>element_ty_\<close>,
  \<open>alloca_ty_\<close>, \<open>dest_ty_\<close>, \<open>l_val_\<close>.\<close>

datatype idata = NoData | CmpData cmpop | GepData ty | AllocaData ty | DestData ty | PhiData val

record instr =
  i_type :: ty
  i_op :: opid
  i_parent :: nat
  i_data :: idata
  i_name :: string

record block =
  bb_name :: string
  bb_parent :: nat
  pre_bbs :: "nat list"
  succ_bbs :: "nat list"
  instr_list :: "nat list"

record func =
  f_name :: string
  f_type :: ty
  basic_blocks :: "nat list"
  arg_names :: "string list"
  seq_cnt :: nat

record gvar =
  g_name :: string
  g_type :: ty
  g_const :: bool
  g_init :: val

record ir = const_state +
  next_id :: nat
  instrs :: "nat \<Rightarrow> instr option"
  blocks :: "nat \<Rightarrow> block option"
  funs :: "nat \<Rightarrow> func option"
  gvars :: "nat \<Rightarrow> gvar option"
  global_list :: "nat list"
  function_list :: "nat list"

fun is_terminator_op :: "opid \<Rightarrow> bool" where
  "is_terminator_op Ret = True"
| "is_terminator_op Br = True"
| "is_terminator_op _ = False"

text \<open>\<open>Instruction::is_void\<close>: no name is given to such an instruction.\<close>

definition is_void_instr :: "instr \<Rightarrow> bool" where
  "is_void_instr ins \<longleftrightarrow> i_op ins = Ret \<or> i_op ins = Br \<or> i_op ins = Store \<or>
     (i_op ins = Call \<and> is_void_type (i_type ins))"

text \<open>\<open>Instruction::isBinary\<close>.\<close>

definition is_binary :: "'z users_scheme \<Rightarrow> nat \<Rightarrow> instr \<Rightarrow> bool" where
  "is_binary s p ins \<longleftrightarrow>
     i_op ins \<in> {Add, Sub, Mul, Sdiv, Fadd, Fsub, Fmul, Fdiv} \<and> num_ops s (VInstr p) = 2"

fun fun_params :: "ty \<Rightarrow> ty list res" where
  "fun_params (FunTy r as) = Inr as"
| "fun_params _ = Inl BadCast"

fun fun_result :: "ty \<Rightarrow> ty res" where
  "fun_result (FunTy r as) = Inr r"
| "fun_result _ = Inl BadCast"

text \<open>\<open>Value::get_type\<close>, for a pointer to any value.\<close>

fun get_type :: "'z ir_scheme \<Rightarrow> val \<Rightarrow> ty res" where
  "get_type s VNull = Inl NullDeref"
| "get_type s (VConst c) = Inr (const_type c)"
| "get_type s (VGlobal g) = bnd (deref (gvars s g)) (\<lambda>x. Inr (g_type x))"
| "get_type s (VFun f) = bnd (deref (funs s f)) (\<lambda>x. Inr (f_type x))"
| "get_type s (VArg f i) =
     bnd (deref (funs s f)) (\<lambda>x.
     bnd (fun_params (f_type x)) (\<lambda>as.
     bnd (ensure (i < length as) NullDeref) (\<lambda>_. Inr (as ! i))))"
| "get_type s (VBB b) = bnd (deref (blocks s b)) (\<lambda>_. Inr LabelTy)"
| "get_type s (VInstr p) = bnd (deref (instrs s p)) (\<lambda>x. Inr (i_type x))"

section \<open>Basic blocks\<close>

definition modify_block :: "nat \<Rightarrow> (block \<Rightarrow> block) \<Rightarrow> 'z ir_scheme \<Rightarrow> 'z ir_scheme res" where
  "modify_block b f s = bnd (deref (blocks s b)) (\<lambda>k. Inr (s\<lparr>blocks := (blocks s)(b \<mapsto> f k)\<rparr>))"

definition add_instruction :: "nat \<Rightarrow> nat \<Rightarrow> 'z ir_scheme \<Rightarrow> 'z ir_scheme res" where
  "add_instruction b p = modify_block b (\<lambda>k. k\<lparr>instr_list := instr_list k @ [p]\<rparr>)"

definition add_instr_begin :: "nat \<Rightarrow> nat \<Rightarrow> 'z ir_scheme \<Rightarrow> 'z ir_scheme res" where
  "add_instr_begin b p = modify_block b (\<lambda>k. k\<lparr>instr_list := p # instr_list k\<rparr>)"

definition add_pre_basic_block :: "nat \<Rightarrow> nat \<Rightarrow> 'z ir_scheme \<Rightarrow> 'z ir_scheme res" where
  "add_pre_basic_block b p = modify_block b (\<lambda>k. k\<lparr>pre_bbs := pre_bbs k @ [p]\<rparr>)"

definition add_succ_basic_block :: "nat \<Rightarrow> nat \<Rightarrow> 'z ir_scheme \<Rightarrow> 'z ir_scheme res" where
  "add_succ_basic_block b p = modify_block b (\<lambda>k. k\<lparr>succ_bbs := succ_bbs k @ [p]\<rparr>)"

definition remove_pre_basic_block :: "nat \<Rightarrow> nat \<Rightarrow> 'z ir_scheme \<Rightarrow> 'z ir_scheme res" where
  "remove_pre_basic_block b p = modify_block b (\<lambda>k. k\<lparr>pre_bbs := removeAll p (pre_bbs k)\<rparr>)"

definition remove_succ_basic_block :: "nat \<Rightarrow> nat \<Rightarrow> 'z ir_scheme \<Rightarrow> 'z ir_scheme res" where
  "remove_succ_basic_block b p = modify_block b (\<lambda>k. k\<lparr>succ_bbs := removeAll p (succ_bbs k)\<rparr>)"

text \<open>\<open>get_terminator\<close>: the last instruction if it is a \<open>ret\<close> or \<open>br\<close>, else
  \<open>nullptr\<close>.\<close>

definition get_terminator :: "'z ir_scheme \<Rightarrow> nat \<Rightarrow> nat option" where
  "get_terminator s b =
     (case blocks s b of
        None \<Rightarrow> None
      | Some k \<Rightarrow>
          if instr_list k = [] then None
          else let p = last (instr_list k)
               in case instrs s p of
                    None \<Rightarrow> None
                  | Some ins \<Rightarrow> if is_terminator_op (i_op ins) then Some p else None)"

text \<open>\<open>erase_instr\<close>: the uses of the operands go, then the list deletes the object.\<close>

definition erase_instr :: "nat \<Rightarrow> nat \<Rightarrow> 'z ir_scheme \<Rightarrow> 'z ir_scheme res" where
  "erase_instr b p s =
     bnd (remove_use_of_ops (VInstr p) s) (\<lambda>s.
     bnd (modify_block b (\<lambda>k. k\<lparr>instr_list := remove1 p (instr_list k)\<rparr>) s) (\<lambda>s.
     Inr (s\<lparr>instrs := (instrs s)(p := None), operands := (operands s)(VInstr p := []),
            num_ops := (num_ops s)(VInstr p := 0)\<rparr>)))"

section \<open>Instructions\<close>

text \<open>The base constructor: a new object with null operands, appended to its block.\<close>

definition new_instr :: "ty \<Rightarrow> opid \<Rightarrow> nat \<Rightarrow> idata \<Rightarrow> nat \<Rightarrow> 'z ir_scheme \<Rightarrow> (nat \<times> 'z ir_scheme) res" where
  "new_instr t opc n d b s =
     (let p = next_id s;
          s = new_user (VInstr p) n
                (s\<lparr>next_id := Suc p,
                   instrs := (instrs s)(p \<mapsto> \<lparr>i_type = t, i_op = opc, i_parent = b, i_data = d, i_name = ''''\<rparr>)\<rparr>)
      in bnd (add_instruction b p s) (\<lambda>s. Inr (p, s)))"

text \<open>A subclass constructor: the base constructor, then the operands in order.\<close>

definition mk_instr :: "ty \<Rightarrow> opid \<Rightarrow> idata \<Rightarrow> val list \<Rightarrow> nat \<Rightarrow> 'z ir_scheme \<Rightarrow> (val \<times> 'z ir_scheme) res" where
  "mk_instr t opc d vs b s =
     bnd (new_instr t opc (length vs) d b s) (\<lambda>(p, s).
     bnd (set_operands (VInstr p) 0 vs s) (\<lambda>s. Inr (VInstr p, s)))"

fun binary_type :: "opid \<Rightarrow> ty" where
  "binary_type Fadd = FloatTy"
| "binary_type Fsub = FloatTy"
| "binary_type Fmul = FloatTy"
| "binary_type Fdiv = FloatTy"
| "binary_type _ = INT32_T"

definition create_binary :: "opid \<Rightarrow> val \<Rightarrow> val \<Rightarrow> nat \<Rightarrow> 'z ir_scheme \<Rightarrow> (val \<times> 'z ir_scheme) res" where
  "create_binary opc v1 v2 = mk_instr (binary_type opc) opc NoData [v1, v2]"

definition create_cmp :: "cmpop \<Rightarrow> val \<Rightarrow> val \<Rightarrow> nat \<Rightarrow> 'z ir_scheme \<Rightarrow> (val \<times> 'z ir_scheme) res" where
  "create_cmp c lhs rhs = mk_instr INT1_T Cmp (CmpData c) [lhs, rhs]"

definition create_fcmp :: "cmpop \<Rightarrow> val \<Rightarrow> val \<Rightarrow> nat \<Rightarrow> 'z ir_scheme \<Rightarrow> (val \<times> 'z ir_scheme) res" where
  "create_fcmp c lhs rhs = mk_instr INT1_T Fcmp (CmpData c) [lhs, rhs]"

text \<open>\<open>CallInst\<close>: the result type is the function's, the argument count is asserted.\<close>

definition create_call :: "val \<Rightarrow> val list \<Rightarrow> nat \<Rightarrow> 'z ir_scheme \<Rightarrow> (val \<times> 'z ir_scheme) res" where
  "create_call fn args b s =
     (case fn of
        VFun f \<Rightarrow>
          bnd (get_type s fn) (\<lambda>t.
          bnd (fun_result t) (\<lambda>r.
          bnd (fun_params t) (\<lambda>as.
          bnd (ensure (length as = length args) AssertFail) (\<lambda>_.
          mk_instr r Call NoData (fn # args) b s))))
      | _ \<Rightarrow> Inl AssertFail)"

text \<open>\<open>create_cond_br\<close> and \<open>create_br\<close> record the edges before the instruction.\<close>

definition create_cond_br :: "val \<Rightarrow> nat \<Rightarrow> nat \<Rightarrow> nat \<Rightarrow> 'z ir_scheme \<Rightarrow> (val \<times> 'z ir_scheme) res" where
  "create_cond_br cond if_true if_false b s =
     bnd (add_pre_basic_block if_true b s) (\<lambda>s.
     bnd (add_pre_basic_block if_false b s) (\<lambda>s.
     bnd (add_succ_basic_block b if_false s) (\<lambda>s.
     bnd (add_succ_basic_block b if_true s) (\<lambda>s.
     mk_instr VoidTy Br NoData [cond, VBB if_true, VBB if_false] b s))))"

definition create_br :: "nat \<Rightarrow> nat \<Rightarrow> 'z ir_scheme \<Rightarrow> (val \<times> 'z ir_scheme) res" where
  "create_br if_true b s =
     bnd (add_pre_basic_block if_true b s) (\<lambda>s.
     bnd (add_succ_basic_block b if_true s) (\<lambda>s.
     mk_instr VoidTy Br NoData [VBB if_true] b s))"

definition create_ret :: "val \<Rightarrow> nat \<Rightarrow> 'z ir_scheme \<Rightarrow> (val \<times> 'z ir_scheme) res" where
  "create_ret v = mk_instr VoidTy Ret NoData [v]"

definition create_void_ret :: "nat \<Rightarrow> 'z ir_scheme \<Rightarrow> (val \<times> 'z ir_scheme) res" where
  "create_void_ret = mk_instr VoidTy Ret NoData []"

text \<open>
  \<open>GetElementPtrInst::get_element_type\<close>: the loop over the index positions 1 to
  \<open>n - 1\<close>, by the number of positions left, with the current array type and the current
  result; every result but the last must be an array.
\<close>

fun gep_loop :: "nat \<Rightarrow> ty \<Rightarrow> ty \<Rightarrow> ty res" where
  "gep_loop 0 arr t = Inr t"
| "gep_loop (Suc k) arr t =
     bnd (deref (get_array_element_type arr)) (\<lambda>t.
     bnd (ensure (k = 0 \<or> is_array_type t) AssertFail) (\<lambda>_.
     gep_loop k (if is_array_type t then t else arr) t))"

definition gep_element_type :: "ty \<Rightarrow> nat \<Rightarrow> ty res" where
  "gep_element_type ptr_ty n =
     bnd (deref (get_pointer_element_type ptr_ty)) (\<lambda>t.
     bnd (ensure (is_array_type t \<or> is_integer_type t \<or> is_float_type t) AssertFail) (\<lambda>_.
     if is_array_type t then gep_loop (n - 1) t t else Inr t))"

definition create_gep :: "val \<Rightarrow> val list \<Rightarrow> nat \<Rightarrow> 'z ir_scheme \<Rightarrow> (val \<times> 'z ir_scheme) res" where
  "create_gep ptr idxs b s =
     bnd (get_type s ptr) (\<lambda>pt.
     bnd (gep_element_type pt (length idxs)) (\<lambda>t.
     mk_instr (PtrTy t) Getelementptr (GepData t) (ptr # idxs) b s))"

definition create_store :: "val \<Rightarrow> val \<Rightarrow> nat \<Rightarrow> 'z ir_scheme \<Rightarrow> (val \<times> 'z ir_scheme) res" where
  "create_store v ptr = mk_instr VoidTy Store NoData [v, ptr]"

definition create_load :: "val \<Rightarrow> nat \<Rightarrow> 'z ir_scheme \<Rightarrow> (val \<times> 'z ir_scheme) res" where
  "create_load ptr b s =
     bnd (get_type s ptr) (\<lambda>pt.
     case pt of
       PtrTy t \<Rightarrow> mk_instr t Load NoData [ptr] b s
     | _ \<Rightarrow> Inl AssertFail)"

definition create_alloca :: "ty \<Rightarrow> nat \<Rightarrow> 'z ir_scheme \<Rightarrow> (val \<times> 'z ir_scheme) res" where
  "create_alloca t = mk_instr (PtrTy t) Alloca (AllocaData t) []"

definition create_zext :: "val \<Rightarrow> ty \<Rightarrow> nat \<Rightarrow> 'z ir_scheme \<Rightarrow> (val \<times> 'z ir_scheme) res" where
  "create_zext v t = mk_instr t Zext (DestData t) [v]"

definition create_fptosi :: "val \<Rightarrow> ty \<Rightarrow> nat \<Rightarrow> 'z ir_scheme \<Rightarrow> (val \<times> 'z ir_scheme) res" where
  "create_fptosi v t = mk_instr t Fptosi (DestData t) [v]"

definition create_sitofp :: "val \<Rightarrow> ty \<Rightarrow> nat \<Rightarrow> 'z ir_scheme \<Rightarrow> (val \<times> 'z ir_scheme) res" where
  "create_sitofp v t = mk_instr t Sitofp (DestData t) [v]"

text \<open>A phi instruction knows its block but is not in its list yet; \<open>generate_phi\<close> puts it
  in front.\<close>

definition create_phi :: "ty \<Rightarrow> nat \<Rightarrow> 'z ir_scheme \<Rightarrow> nat \<times> 'z ir_scheme" where
  "create_phi t b s =
     (let p = next_id s
      in (p, new_user (VInstr p) 0
            (s\<lparr>next_id := Suc p,
               instrs := (instrs s)(p \<mapsto> \<lparr>i_type = t, i_op = Phi, i_parent = b, i_data = PhiData VNull, i_name = ''''\<rparr>)\<rparr>)))"

definition add_phi_pair_operand :: "nat \<Rightarrow> val \<Rightarrow> nat \<Rightarrow> 'z ir_scheme \<Rightarrow> 'z ir_scheme res" where
  "add_phi_pair_operand p v pre_bb s =
     bnd (add_operand (VInstr p) v s) (add_operand (VInstr p) (VBB pre_bb))"

section \<open>Functions, blocks of a function, global variables\<close>

definition Function_create :: "ty \<Rightarrow> string \<Rightarrow> 'z ir_scheme \<Rightarrow> (nat \<times> 'z ir_scheme) res" where
  "Function_create t name s =
     bnd (fun_params t) (\<lambda>as.
     let f = next_id s
     in Inr (f, s\<lparr>next_id := Suc f,
          funs := (funs s)(f \<mapsto> \<lparr>f_name = name, f_type = t, basic_blocks = [],
             arg_names = replicate (length as) '''', seq_cnt = 0\<rparr>),
          function_list := function_list s @ [f]\<rparr>))"

definition BasicBlock_create :: "string \<Rightarrow> nat \<Rightarrow> 'z ir_scheme \<Rightarrow> (nat \<times> 'z ir_scheme) res" where
  "BasicBlock_create name f s =
     bnd (deref (funs s f)) (\<lambda>fn.
     let b = next_id s;
         prefix = (if name = '''' then '''' else ''label_'')
     in Inr (b, s\<lparr>next_id := Suc b,
          blocks := (blocks s)(b \<mapsto> \<lparr>bb_name = prefix @ name, bb_parent = f, pre_bbs = [],
             succ_bbs = [], instr_list = []\<rparr>),
          funs := (funs s)(f \<mapsto> fn\<lparr>basic_blocks := basic_blocks fn @ [b]\<rparr>)\<rparr>))"

fun for_blocks :: "(nat \<Rightarrow> 'z ir_scheme \<Rightarrow> 'z ir_scheme res) \<Rightarrow> nat list \<Rightarrow> 'z ir_scheme \<Rightarrow> 'z ir_scheme res" where
  "for_blocks f [] s = Inr s"
| "for_blocks f (b # bs) s = bnd (f b s) (for_blocks f bs)"

text \<open>\<open>Function::remove\<close>, called by \<open>BasicBlock::erase_from_parent\<close>. The second loop reads the
  successors that the first one has left (a block that is its own predecessor is gone from them).\<close>

definition Function_remove :: "nat \<Rightarrow> nat \<Rightarrow> 'z ir_scheme \<Rightarrow> 'z ir_scheme res" where
  "Function_remove f b s =
     bnd (deref (funs s f)) (\<lambda>fn.
     let s = s\<lparr>funs := (funs s)(f \<mapsto> fn\<lparr>basic_blocks := remove1 b (basic_blocks fn)\<rparr>)\<rparr>
     in bnd (deref (blocks s b)) (\<lambda>k.
        bnd (for_blocks (\<lambda>p. remove_succ_basic_block p b) (pre_bbs k) s) (\<lambda>s.
        bnd (deref (blocks s b)) (\<lambda>k.
        for_blocks (\<lambda>c. remove_pre_basic_block c b) (succ_bbs k) s))))"

definition GlobalVariable_create :: "string \<Rightarrow> ty \<Rightarrow> bool \<Rightarrow> val \<Rightarrow> 'z ir_scheme \<Rightarrow> (val \<times> 'z ir_scheme) res" where
  "GlobalVariable_create name t is_const init s =
     (let g = next_id s;
          n = (if init \<noteq> VNull then 1 else 0);
          s = new_user (VGlobal g) n
                (s\<lparr>next_id := Suc g,
                   gvars := (gvars s)(g \<mapsto> \<lparr>g_name = name, g_type = PtrTy t, g_const = is_const, g_init = init\<rparr>),
                   global_list := global_list s @ [g]\<rparr>)
      in bnd (if init \<noteq> VNull then set_operand (VGlobal g) 0 init s else Inr s) (\<lambda>s.
         Inr (VGlobal g, s)))"

end
