(* ===== verification/IR_Invariants.thy ===== *)
theory IR_Invariants
  imports IR_Module
begin

text \<open>
  The well-formedness of the intermediate representation and its preservation by the constructors:
  objects are owned by the lists that name them (\<open>heap_ok\<close>), a terminator can only be the
  last instruction of a block (\<open>body_ok\<close>), the predecessor and successor lists are the edges
  of the branch instructions (\<open>cfg_ok\<close>), and the use-def graph is exact. The constructors
  are first described by their effect on a few views of the heap.
\<close>

section \<open>Views of the heap\<close>

definition owner :: "'z ir_scheme \<Rightarrow> nat \<Rightarrow> nat option" where
  "owner s b = map_option bb_parent (blocks s b)"

definition ilist :: "'z ir_scheme \<Rightarrow> nat \<Rightarrow> nat list" where
  "ilist s b = (case blocks s b of None \<Rightarrow> [] | Some k \<Rightarrow> instr_list k)"

definition preds :: "'z ir_scheme \<Rightarrow> nat \<Rightarrow> nat list" where
  "preds s b = (case blocks s b of None \<Rightarrow> [] | Some k \<Rightarrow> pre_bbs k)"

definition succs :: "'z ir_scheme \<Rightarrow> nat \<Rightarrow> nat list" where
  "succs s b = (case blocks s b of None \<Rightarrow> [] | Some k \<Rightarrow> succ_bbs k)"

definition fblocks :: "'z ir_scheme \<Rightarrow> nat \<Rightarrow> nat list" where
  "fblocks s f = (case funs s f of None \<Rightarrow> [] | Some fn \<Rightarrow> basic_blocks fn)"

definition op_of :: "'z ir_scheme \<Rightarrow> nat \<Rightarrow> opid option" where
  "op_of s p = map_option i_op (instrs s p)"

definition is_term :: "'z ir_scheme \<Rightarrow> nat \<Rightarrow> bool" where
  "is_term s p \<longleftrightarrow> (case op_of s p of None \<Rightarrow> False | Some opc \<Rightarrow> is_terminator_op opc)"

lemmas view_defs = owner_def ilist_def preds_def succs_def fblocks_def op_of_def

definition opens :: "'z ir_scheme \<Rightarrow> nat set" where
  "opens s = {b. owner s b \<noteq> None \<and> get_terminator s b = None}"

lemma get_terminator_view:
  "get_terminator s b = (if ilist s b \<noteq> [] \<and> is_term s (last (ilist s b)) then Some (last (ilist s b)) else None)"
  by (auto simp: get_terminator_def ilist_def is_term_def op_of_def Let_def split: option.splits)

lemma opens_view:
  "b \<in> opens s \<longleftrightarrow> owner s b \<noteq> None \<and> (ilist s b = [] \<or> \<not> is_term s (last (ilist s b)))"
  by (auto simp: opens_def get_terminator_view)

section \<open>The invariants\<close>

definition fresh_ok :: "'z ir_scheme \<Rightarrow> bool" where
  "fresh_ok s \<longleftrightarrow> (\<forall>p \<ge> next_id s. instrs s p = None \<and> blocks s p = None \<and> funs s p = None \<and>
     gvars s p = None \<and> operands s (VInstr p) = [] \<and> operands s (VGlobal p) = [])"

definition heap_ok :: "'z ir_scheme \<Rightarrow> bool" where
  "heap_ok s \<longleftrightarrow> fresh_ok s \<and>
     (\<forall>b. distinct (ilist s b)) \<and>
     (\<forall>b. \<forall>p \<in> set (ilist s b). \<exists>ins. instrs s p = Some ins \<and> i_parent ins = b) \<and>
     (\<forall>b f. owner s b = Some f \<longleftrightarrow> b \<in> set (fblocks s f)) \<and>
     (\<forall>f. distinct (fblocks s f))"

definition body_ok :: "'z ir_scheme \<Rightarrow> bool" where
  "body_ok s \<longleftrightarrow> (\<forall>b. \<forall>p \<in> set (butlast (ilist s b)). \<not> is_term s p)"

text \<open>The targets of the branch that ends a block, in the order in which the builder records
  the edges: the false target first.\<close>

fun br_edges :: "val list \<Rightarrow> nat list" where
  "br_edges [VBB t] = [t]"
| "br_edges [c, VBB t, VBB f] = [f, t]"
| "br_edges _ = []"

definition br_targets :: "'z ir_scheme \<Rightarrow> nat \<Rightarrow> nat list" where
  "br_targets s b =
     (if ilist s b \<noteq> [] \<and> op_of s (last (ilist s b)) = Some Br
      then br_edges (operands s (VInstr (last (ilist s b)))) else [])"

definition cfg_ok :: "'z ir_scheme \<Rightarrow> bool" where
  "cfg_ok s \<longleftrightarrow> (\<forall>b. succs s b = br_targets s b) \<and>
     (\<forall>b c. count_list (preds s c) b = count_list (succs s b) c)"

definition ir_ok :: "'z ir_scheme \<Rightarrow> bool" where
  "ir_ok s \<longleftrightarrow> use_def_ok s \<and> heap_ok s \<and> body_ok s \<and> cfg_ok s"

text \<open>What a complete module satisfies besides: every block ends with a terminator.\<close>

definition closed :: "'z ir_scheme \<Rightarrow> bool" where
  "closed s \<longleftrightarrow> opens s = {}"

section \<open>Effects of the constructors\<close>

lemma set_operands_frame:
  assumes "set_operands u i vs s = Inr s'"
  shows "next_id s' = next_id s" "instrs s' = instrs s" "blocks s' = blocks s" "funs s' = funs s"
    "gvars s' = gvars s" "global_list s' = global_list s" "function_list s' = function_list s"
    "fp_count s' = fp_count s" "cached_float s' = cached_float s" "ir.more s' = ir.more s"
  using assms by (induction vs arbitrary: i s) (fastforce simp: set_operand_Inr)+

lemma modify_block_Inr:
  "modify_block b f s = Inr s' \<longleftrightarrow>
     (\<exists>k. blocks s b = Some k \<and> s' = s\<lparr>blocks := (blocks s)(b \<mapsto> f k)\<rparr>)"
  by (auto simp: modify_block_def bnd_eq_Inr_iff)

lemma new_user_frame [simp]:
  fixes s :: "'z ir_scheme"
  shows "next_id (new_user u n s) = next_id s" "instrs (new_user u n s) = instrs s"
    "blocks (new_user u n s) = blocks s" "funs (new_user u n s) = funs s"
    "gvars (new_user u n s) = gvars s" "global_list (new_user u n s) = global_list s"
    "function_list (new_user u n s) = function_list s" "fp_count (new_user u n s) = fp_count s"
    "cached_float (new_user u n s) = cached_float s" "ir.more (new_user u n s) = ir.more s"
    "operands (new_user u n s) = (operands s)(u := replicate n VNull)"
    "num_ops (new_user u n s) = (num_ops s)(u := n)" "use_list (new_user u n s) = use_list s"
  by (simp_all add: new_user_def)

lemma new_user_blocks:
  fixes s :: "'z ir_scheme"
  shows "(new_user u n s)\<lparr>blocks := B\<rparr> = new_user u n (s\<lparr>blocks := B\<rparr>)"
  by (rule ir.equality) (simp_all add: new_user_def)

lemma mk_instr_Inr:
  assumes "mk_instr t opc d vs b s = Inr (v, s')"
  obtains k s0 s1 where "blocks s b = Some k" and "v = VInstr (next_id s)"
    and "s0 = s\<lparr>next_id := Suc (next_id s),
       instrs := (instrs s)(next_id s \<mapsto> \<lparr>i_type = t, i_op = opc, i_parent = b, i_data = d, i_name = ''''\<rparr>)\<rparr>"
    and "s1 = new_user (VInstr (next_id s)) (length vs)
       (s0\<lparr>blocks := (blocks s)(b \<mapsto> k\<lparr>instr_list := instr_list k @ [next_id s]\<rparr>)\<rparr>)"
    and "set_operands (VInstr (next_id s)) 0 vs s1 = Inr s'"
proof -
  let ?s = "s\<lparr>next_id := Suc (next_id s),
       instrs := (instrs s)(next_id s \<mapsto> \<lparr>i_type = t, i_op = opc, i_parent = b, i_data = d, i_name = ''''\<rparr>)\<rparr>"
  from assms obtain k where k: "blocks s b = Some k" "v = VInstr (next_id s)"
    "set_operands (VInstr (next_id s)) 0 vs ((new_user (VInstr (next_id s)) (length vs) ?s)
       \<lparr>blocks := (blocks s)(b \<mapsto> k\<lparr>instr_list := instr_list k @ [next_id s]\<rparr>)\<rparr>) = Inr s'"
    by (auto simp: mk_instr_def new_instr_def Let_def add_instruction_def modify_block_Inr)
  then show thesis
    by (auto simp: new_user_blocks intro: that)
qed

lemma mk_instr_view:
  assumes "mk_instr t opc d vs b s = Inr (v, s')"
  shows "v = VInstr (next_id s)" "owner s b \<noteq> None" "next_id s' = Suc (next_id s)"
    "instrs s' = (instrs s)(next_id s \<mapsto> \<lparr>i_type = t, i_op = opc, i_parent = b, i_data = d, i_name = ''''\<rparr>)"
    "owner s' = owner s" "ilist s' = (ilist s)(b := ilist s b @ [next_id s])"
    "preds s' = preds s" "succs s' = succs s" "fblocks s' = fblocks s" "funs s' = funs s"
    "gvars s' = gvars s" "operands s' = (operands s)(VInstr (next_id s) := vs)"
    "global_list s' = global_list s" "function_list s' = function_list s"
    "fp_count s' = fp_count s" "cached_float s' = cached_float s" "ir.more s' = ir.more s"
    "VNull \<notin> set vs"
proof -
  let ?p = "next_id s"
  obtain k s0 s1 where k: "blocks s b = Some k" and v: "v = VInstr ?p"
    and s0: "s0 = s\<lparr>next_id := Suc ?p,
       instrs := (instrs s)(?p \<mapsto> \<lparr>i_type = t, i_op = opc, i_parent = b, i_data = d, i_name = ''''\<rparr>)\<rparr>"
    and s1: "s1 = new_user (VInstr ?p) (length vs)
       (s0\<lparr>blocks := (blocks s)(b \<mapsto> k\<lparr>instr_list := instr_list k @ [?p]\<rparr>)\<rparr>)"
    and ops: "set_operands (VInstr ?p) 0 vs s1 = Inr s'"
    using assms by (rule mk_instr_Inr)
  note frame = set_operands_frame [OF ops]
  show "v = VInstr ?p" "owner s b \<noteq> None" "next_id s' = Suc ?p"
    "instrs s' = (instrs s)(next_id s \<mapsto> \<lparr>i_type = t, i_op = opc, i_parent = b, i_data = d, i_name = ''''\<rparr>)"
    "owner s' = owner s" "ilist s' = (ilist s)(b := ilist s b @ [next_id s])"
    "preds s' = preds s" "succs s' = succs s" "fblocks s' = fblocks s" "funs s' = funs s"
    "gvars s' = gvars s"
    "global_list s' = global_list s" "function_list s' = function_list s"
    "fp_count s' = fp_count s" "cached_float s' = cached_float s" "ir.more s' = ir.more s"
    using v k by (auto simp: frame s1 s0 view_defs fun_eq_iff)
  show "VNull \<notin> set vs"
    using set_operands_Inr [OF ops] by simp
  have len: "length (operands s1 (VInstr ?p)) = length vs"
    by (simp add: s1)
  have "operands s' (VInstr ?p) = vs"
    using set_operands_Inr [OF ops] set_operands_nth [OF ops] len by (intro nth_equalityI) auto
  moreover have "operands s' w = operands s w" if "w \<noteq> VInstr ?p" for w
    using set_operands_Inr [OF ops] that by (simp add: s1 s0)
  ultimately show "operands s' = (operands s)(VInstr ?p := vs)"
    by (auto simp: fun_eq_iff)
qed

lemma mk_instr_use_def:
  assumes ok: "use_def_ok s" and fresh: "fresh_ok s" and mk: "mk_instr t opc d vs b s = Inr (v, s')"
  shows "use_def_ok s'"
  using mk
proof (rule mk_instr_Inr)
  fix k s0 s1
  assume s0: "s0 = s\<lparr>next_id := Suc (next_id s),
       instrs := (instrs s)(next_id s \<mapsto> \<lparr>i_type = t, i_op = opc, i_parent = b, i_data = d, i_name = ''''\<rparr>)\<rparr>"
    and s1: "s1 = new_user (VInstr (next_id s)) (length vs)
       (s0\<lparr>blocks := (blocks s)(b \<mapsto> k\<lparr>instr_list := instr_list k @ [next_id s]\<rparr>)\<rparr>)"
    and ops: "set_operands (VInstr (next_id s)) 0 vs s1 = Inr s'"
  let ?s = "s0\<lparr>blocks := (blocks s)(b \<mapsto> k\<lparr>instr_list := instr_list k @ [next_id s]\<rparr>)\<rparr>"
  have "use_def_ok ?s"
    using ok by (subst use_def_ok_cong [of _ s]) (simp_all add: s0)
  moreover have "operands ?s (VInstr (next_id s)) = []"
    using fresh by (simp add: fresh_ok_def s0)
  ultimately show "use_def_ok s'"
    by (rule init_user_ok(1)) (use ops s1 in simp_all)
qed

section \<open>Preservation: a new instruction at the end of an open block\<close>

lemma fresh_okD:
  assumes "fresh_ok s" and "next_id s \<le> p"
  shows "instrs s p = None" "blocks s p = None" "funs s p = None" "gvars s p = None"
    "operands s (VInstr p) = []" "operands s (VGlobal p) = []"
  using assms by (auto simp: fresh_ok_def)

lemma heap_okD:
  assumes "heap_ok s"
  shows "fresh_ok s" "distinct (ilist s b)"
    "p \<in> set (ilist s b) \<Longrightarrow> \<exists>ins. instrs s p = Some ins \<and> i_parent ins = b"
    "owner s b = Some f \<longleftrightarrow> b \<in> set (fblocks s f)" "distinct (fblocks s f)"
  using assms by (auto simp: heap_ok_def)

lemma heap_okI:
  assumes "fresh_ok s" "\<And>b. distinct (ilist s b)"
    "\<And>b p. p \<in> set (ilist s b) \<Longrightarrow> \<exists>ins. instrs s p = Some ins \<and> i_parent ins = b"
    "\<And>b f. owner s b = Some f \<longleftrightarrow> b \<in> set (fblocks s f)" "\<And>f. distinct (fblocks s f)"
  shows "heap_ok s"
  unfolding heap_ok_def using assms by blast

lemma ilist_not_fresh: "heap_ok s \<Longrightarrow> p \<in> set (ilist s b) \<Longrightarrow> p < next_id s"
  using heap_okD(3) [of s p b] fresh_okD(1) [OF heap_okD(1), of s p] by (force simp: not_less [symmetric])

lemma ir_okD:
  assumes "ir_ok s"
  shows "use_def_ok s" "heap_ok s" "body_ok s" "cfg_ok s"
  using assms by (auto simp: ir_ok_def)

lemma cfg_okD:
  assumes "cfg_ok s"
  shows "succs s b = br_targets s b" "count_list (preds s c) b = count_list (succs s b) c"
  using assms by (auto simp: cfg_ok_def)

lemma owner_None_views:
  "owner s b = None \<Longrightarrow> ilist s b = [] \<and> preds s b = [] \<and> succs s b = []"
  by (auto simp: view_defs split: option.splits)

lemma owner_None_ilist: "owner s b = None \<Longrightarrow> ilist s b = []"
  by (simp add: owner_None_views)

lemma fresh_ok_blocks: "fresh_ok s \<Longrightarrow> next_id s \<le> p \<Longrightarrow> owner s p = None"
  by (simp add: owner_def fresh_okD)

lemma owner_None_blocks: "owner s b = None \<longleftrightarrow> blocks s b = None"
  by (simp add: owner_def)

lemma mk_instr_heap:
  assumes heap: "heap_ok s" and mk: "mk_instr t opc d vs b s = Inr (v, s')"
  shows "heap_ok s'"
proof (rule heap_okI)
  note view = mk_instr_view [OF mk]
  have own: "owner s' x = None \<longleftrightarrow> owner s x = None" for x
    by (simp add: view)
  show "fresh_ok s'"
    using heap_okD(1) [OF heap] own
    by (auto simp: fresh_ok_def view owner_None_blocks [symmetric])
  show "distinct (ilist s' c)" for c
    using heap_okD(2) [OF heap] ilist_not_fresh [OF heap, of "next_id s" b] by (auto simp: view)
  show "\<exists>ins. instrs s' p = Some ins \<and> i_parent ins = c" if "p \<in> set (ilist s' c)" for p c
    using that heap_okD(3) [OF heap, of p c] ilist_not_fresh [OF heap, of p c]
    by (auto simp: view split: if_splits)
  show "owner s' c = Some f \<longleftrightarrow> c \<in> set (fblocks s' f)" for c f
    using heap_okD(4) [OF heap] by (simp add: view)
  show "distinct (fblocks s' f)" for f
    using heap_okD(5) [OF heap] by (simp add: view)
qed

lemma mk_instr_is_term:
  assumes heap: "heap_ok s" and mk: "mk_instr t opc d vs b s = Inr (v, s')"
  shows "p \<in> set (ilist s c) \<Longrightarrow> is_term s' p = is_term s p"
    and "is_term s' (next_id s) = is_terminator_op opc"
  using ilist_not_fresh [OF heap, of p c] by (auto simp: is_term_def op_of_def mk_instr_view [OF mk])

lemma last_in_ilist: "ilist s b \<noteq> [] \<Longrightarrow> last (ilist s b) \<in> set (ilist s b)"
  by simp

lemma mk_instr_body:
  assumes heap: "heap_ok s" and body: "body_ok s" and op: "b \<in> opens s"
    and mk: "mk_instr t opc d vs b s = Inr (v, s')"
  shows "body_ok s'"
  unfolding body_ok_def
proof (intro allI ballI)
  fix c p assume p: "p \<in> set (butlast (ilist s' c))"
  have "p \<in> set (ilist s c)" and "\<not> is_term s p"
  proof -
    show "p \<in> set (ilist s c)"
      using p by (auto simp: mk_instr_view [OF mk] split: if_splits dest: in_set_butlastD)
    show "\<not> is_term s p"
    proof (cases "c = b")
      case True
      then have "p \<in> set (butlast (ilist s b)) \<or> p = last (ilist s b) \<and> ilist s b \<noteq> []"
        using p by (cases "ilist s b" rule: rev_cases) (auto simp: mk_instr_view [OF mk] butlast_append)
      then show ?thesis
        using body op by (auto simp: body_ok_def opens_view)
    next
      case False
      then show ?thesis
        using p body by (auto simp: mk_instr_view [OF mk] body_ok_def)
    qed
  qed
  then show "\<not> is_term s' p"
    by (simp add: mk_instr_is_term(1) [OF heap mk])
qed

lemma mk_instr_opens:
  assumes heap: "heap_ok s" and mk: "mk_instr t opc d vs b s = Inr (v, s')"
  shows "opens s' = (if is_terminator_op opc then opens s - {b} else insert b (opens s))"
proof -
  have "c \<in> opens s' \<longleftrightarrow> (if c = b then \<not> is_terminator_op opc else c \<in> opens s)" for c
  proof (cases "c = b")
    case True
    then show ?thesis
      using mk_instr_view(2) [OF mk]
      by (simp add: opens_view mk_instr_view(5,6) [OF mk] mk_instr_is_term(2) [OF heap mk])
  next
    case False
    then show ?thesis
      using mk_instr_is_term(1) [OF heap mk last_in_ilist, of c]
      by (cases "ilist s c = []") (simp_all add: opens_view mk_instr_view(5,6) [OF mk])
  qed
  then show ?thesis
    by (intro set_eqI) simp
qed

lemma mk_instr_br_targets:
  assumes heap: "heap_ok s" and mk: "mk_instr t opc d vs b s = Inr (v, s')"
  shows "br_targets s' = (br_targets s)(b := if opc = Br then br_edges vs else [])"
proof
  fix c
  show "br_targets s' c = ((br_targets s)(b := if opc = Br then br_edges vs else [])) c"
    using ilist_not_fresh [OF heap, of "last (ilist s c)" c] last_in_ilist [of s c]
    by (cases "ilist s c = []") (auto simp: br_targets_def op_of_def mk_instr_view [OF mk])
qed

lemma open_br_targets: "b \<in> opens s \<Longrightarrow> br_targets s b = []"
  by (auto simp: opens_view br_targets_def is_term_def split: option.splits)

lemma mk_instr_cfg:
  assumes heap: "heap_ok s" and cfg: "cfg_ok s" and op: "b \<in> opens s" and "opc \<noteq> Br"
    and mk: "mk_instr t opc d vs b s = Inr (v, s')"
  shows "cfg_ok s'"
  using cfg open_br_targets [OF op] \<open>opc \<noteq> Br\<close>
  by (auto simp: cfg_ok_def mk_instr_br_targets [OF heap mk] mk_instr_view [OF mk])

lemma mk_instr_ok:
  assumes "ir_ok s" and "b \<in> opens s" and "opc \<noteq> Br"
    and mk: "mk_instr t opc d vs b s = Inr (v, s')"
  shows "ir_ok s'" and "opens s' = (if is_terminator_op opc then opens s - {b} else opens s)"
  using assms mk_instr_use_def [OF ir_okD(1) heap_okD(1) [OF ir_okD(2)] mk]
    mk_instr_heap [OF ir_okD(2) mk] mk_instr_body [OF ir_okD(2,3) _ mk] mk_instr_cfg [OF ir_okD(2,4) _ _ mk]
    mk_instr_opens [OF ir_okD(2) mk]
  by (auto simp: ir_ok_def)

section \<open>Preservation: branches\<close>

text \<open>Two states that differ in the predecessor and successor lists only.\<close>

definition same_code :: "'z ir_scheme \<Rightarrow> 'z ir_scheme \<Rightarrow> bool" where
  "same_code s s' \<longleftrightarrow> next_id s' = next_id s \<and> instrs s' = instrs s \<and> owner s' = owner s \<and>
     ilist s' = ilist s \<and> fblocks s' = fblocks s \<and> funs s' = funs s \<and> gvars s' = gvars s \<and>
     operands s' = operands s \<and> num_ops s' = num_ops s \<and> use_list s' = use_list s \<and>
     global_list s' = global_list s \<and> function_list s' = function_list s \<and>
     fp_count s' = fp_count s \<and> cached_float s' = cached_float s \<and> ir.more s' = ir.more s"

lemma same_code_trans: "same_code s s1 \<Longrightarrow> same_code s1 s2 \<Longrightarrow> same_code s s2"
  by (simp add: same_code_def)

lemma same_code_ok:
  assumes "same_code s s'"
  shows "use_def_ok s' \<longleftrightarrow> use_def_ok s" "heap_ok s' \<longleftrightarrow> heap_ok s" "body_ok s' \<longleftrightarrow> body_ok s"
    "opens s' = opens s" "br_targets s' = br_targets s"
proof -
  have e: "operands s' = operands s" "num_ops s' = num_ops s" "use_list s' = use_list s"
    "next_id s' = next_id s" "instrs s' = instrs s" "owner s' = owner s" "ilist s' = ilist s"
    "fblocks s' = fblocks s" "funs s' = funs s" "gvars s' = gvars s"
    using assms by (simp_all add: same_code_def)
  have b: "blocks s' p = None \<longleftrightarrow> blocks s p = None" for p
    by (simp add: owner_None_blocks [symmetric] e)
  have t: "is_term s' = is_term s" and o: "op_of s' = op_of s"
    by (simp_all add: is_term_def op_of_def fun_eq_iff e)
  show "use_def_ok s' \<longleftrightarrow> use_def_ok s"
    by (rule use_def_ok_cong) (simp_all add: e)
  show "heap_ok s' \<longleftrightarrow> heap_ok s"
    by (simp add: heap_ok_def fresh_ok_def e b)
  show "body_ok s' \<longleftrightarrow> body_ok s"
    by (simp add: body_ok_def e t)
  show "opens s' = opens s"
    by (simp add: set_eq_iff opens_view e t)
  show "br_targets s' = br_targets s"
    by (simp add: fun_eq_iff br_targets_def e o)
qed

lemma add_pre_view:
  assumes "add_pre_basic_block c b s = Inr s'"
  shows "same_code s s'" "preds s' = (preds s)(c := preds s c @ [b])" "succs s' = succs s"
    "owner s c \<noteq> None"
  using assms by (auto simp: add_pre_basic_block_def modify_block_Inr same_code_def view_defs fun_eq_iff)

lemma add_succ_view:
  assumes "add_succ_basic_block b c s = Inr s'"
  shows "same_code s s'" "succs s' = (succs s)(b := succs s b @ [c])" "preds s' = preds s"
    "owner s b \<noteq> None"
  using assms by (auto simp: add_succ_basic_block_def modify_block_Inr same_code_def view_defs fun_eq_iff)

lemma branch_cfg:
  assumes cfg: "cfg_ok s" and op: "b \<in> opens s"
    and "br_targets s' = (br_targets s)(b := es)" and "succs s' = (succs s)(b := succs s b @ es)"
    and "\<And>c x. count_list (preds s' c) x = count_list (preds s c) x + (if x = b then count_list es c else 0)"
  shows "cfg_ok s'"
  using assms open_br_targets [OF op] by (auto simp: cfg_ok_def)

lemma br_after_edges:
  assumes ok: "ir_ok s" and op: "b \<in> opens s" and same: "same_code s s1"
    and mk: "mk_instr VoidTy Br NoData vs b s1 = Inr (v, s')"
    and succ: "succs s1 = (succs s)(b := succs s b @ br_edges vs)"
    and pre: "\<And>c x. count_list (preds s1 c) x =
       count_list (preds s c) x + (if x = b then count_list (br_edges vs) c else 0)"
  shows "ir_ok s'" "opens s' = opens s - {b}"
proof -
  note sc = same_code_ok [OF same]
  note d = ir_okD [OF ok]
  have heap: "heap_ok s1" using d(2) sc by simp
  have "use_def_ok s'"
    using mk_instr_use_def [OF _ heap_okD(1) [OF heap] mk] d(1) sc by simp
  moreover have "heap_ok s'"
    by (rule mk_instr_heap [OF heap mk])
  moreover have "body_ok s'"
    by (rule mk_instr_body [OF heap _ _ mk]) (use d(3) op sc in simp_all)
  moreover have "cfg_ok s'"
    by (rule branch_cfg [OF d(4) op])
      (simp_all add: mk_instr_br_targets [OF heap mk] mk_instr_view [OF mk] sc succ pre)
  ultimately show "ir_ok s'"
    by (simp add: ir_ok_def)
  show "opens s' = opens s - {b}"
    using mk_instr_opens [OF heap mk] by (simp add: sc)
qed

lemma create_br_Inr:
  assumes "create_br t b s = Inr (v, s')"
  obtains s1 where "mk_instr VoidTy Br NoData [VBB t] b s1 = Inr (v, s')" "same_code s s1"
    "preds s1 = (preds s)(t := preds s t @ [b])" "succs s1 = (succs s)(b := succs s b @ [t])"
    "owner s t \<noteq> None"
proof -
  from assms obtain s0 s1 where 1: "add_pre_basic_block t b s = Inr s0"
    "add_succ_basic_block b t s0 = Inr s1" "mk_instr VoidTy Br NoData [VBB t] b s1 = Inr (v, s')"
    by (auto simp: create_br_def)
  show thesis
    by (rule that [OF 1(3) same_code_trans [OF add_pre_view(1) [OF 1(1)] add_succ_view(1) [OF 1(2)]]])
      (use add_pre_view [OF 1(1)] add_succ_view [OF 1(2)] in simp_all)
qed

lemma create_br_ok:
  assumes "ir_ok s" and "b \<in> opens s" and "create_br t b s = Inr (v, s')"
  shows "ir_ok s' \<and> opens s' = opens s - {b} \<and> owner s' = owner s"
  using assms(3)
proof (rule create_br_Inr)
  fix s1
  assume a: "mk_instr VoidTy Br NoData [VBB t] b s1 = Inr (v, s')" "same_code s s1"
    "preds s1 = (preds s)(t := preds s t @ [b])" "succs s1 = (succs s)(b := succs s b @ [t])"
  have "owner s' = owner s"
    using mk_instr_view(5) [OF a(1)] a(2) by (simp add: same_code_def)
  then show ?thesis
    using br_after_edges [OF assms(1,2) a(2,1)] a(3,4) by simp
qed

lemma create_cond_br_ok:
  assumes "ir_ok s" and "b \<in> opens s" and "create_cond_br c t f b s = Inr (v, s')"
  shows "ir_ok s' \<and> opens s' = opens s - {b} \<and> owner s' = owner s"
proof -
  from assms(3) obtain s1 s2 s3 s4 where e: "add_pre_basic_block t b s = Inr s1"
    "add_pre_basic_block f b s1 = Inr s2" "add_succ_basic_block b f s2 = Inr s3"
    "add_succ_basic_block b t s3 = Inr s4" "mk_instr VoidTy Br NoData [c, VBB t, VBB f] b s4 = Inr (v, s')"
    by (auto simp: create_cond_br_def)
  note v = add_pre_view [OF e(1)] add_pre_view [OF e(2)] add_succ_view [OF e(3)] add_succ_view [OF e(4)]
  have same: "same_code s s4"
    using v same_code_trans by blast
  have "owner s' = owner s"
    using mk_instr_view(5) [OF e(5)] same by (simp add: same_code_def)
  moreover have "succs s4 = (succs s)(b := succs s b @ br_edges [c, VBB t, VBB f])"
    by (simp add: v)
  moreover have "count_list (preds s4 x) y =
      count_list (preds s x) y + (if y = b then count_list (br_edges [c, VBB t, VBB f]) x else 0)" for x y
    by (simp add: v)
  ultimately show ?thesis
    using br_after_edges [OF assms(1,2) same e(5)] by blast
qed

section \<open>Preservation: new blocks, functions, global variables and constants\<close>

lemma BasicBlock_create_view:
  assumes "BasicBlock_create name f s = Inr (b, s')" and "fresh_ok s"
  shows "b = next_id s" "next_id s' = Suc (next_id s)" "instrs s' = instrs s" "gvars s' = gvars s"
    "owner s' = (owner s)(b \<mapsto> f)" "ilist s' = ilist s" "preds s' = preds s" "succs s' = succs s"
    "fblocks s' = (fblocks s)(f := fblocks s f @ [b])" "funs s f \<noteq> None"
    "\<And>g. funs s' g = None \<longleftrightarrow> funs s g = None"
    "operands s' = operands s" "num_ops s' = num_ops s" "use_list s' = use_list s"
  using assms fresh_okD(2) [OF assms(2), of "next_id s"]
  by (auto simp: BasicBlock_create_def Let_def view_defs fun_eq_iff split: if_splits)

lemma is_term_cong: "instrs s' = instrs s \<Longrightarrow> is_term s' = is_term s"
  by (simp add: fun_eq_iff is_term_def op_of_def)

lemma br_targets_cong:
  "instrs s' = instrs s \<Longrightarrow> ilist s' = ilist s \<Longrightarrow> (\<And>p. operands s' (VInstr p) = operands s (VInstr p)) \<Longrightarrow>
     br_targets s' = br_targets s"
  by (rule ext) (simp add: br_targets_def op_of_def cong: if_cong)

lemma BasicBlock_create_ok:
  assumes "ir_ok s" and mk: "BasicBlock_create name f s = Inr (b, s')"
  shows "ir_ok s' \<and> opens s' = insert b (opens s) \<and> owner s b = None \<and> owner s' = (owner s)(b \<mapsto> f)"
proof -
  note d = ir_okD [OF assms(1)]
  have fresh: "fresh_ok s" by (rule heap_okD(1) [OF d(2)])
  note v = BasicBlock_create_view [OF mk fresh]
  have none: "owner s b = None"
    using fresh_ok_blocks [OF fresh] v(1) by simp
  have il: "ilist s b = []"
    by (rule owner_None_ilist [OF none])
  have notin: "b \<notin> set (fblocks s g)" for g
    using heap_okD(4) [OF d(2), of b g] none by simp
  have own: "blocks s' p = None \<longleftrightarrow> blocks s p = None \<and> p \<noteq> b" for p
    by (simp add: owner_None_blocks [symmetric] v)
  have "use_def_ok s'"
    using d(1) by (subst use_def_ok_cong [of _ s]) (simp_all add: v)
  moreover have "heap_ok s'"
  proof (rule heap_okI)
    show "fresh_ok s'"
      using fresh by (auto simp: fresh_ok_def v(2-4,11,12) own v(1))
    show "owner s' c = Some g \<longleftrightarrow> c \<in> set (fblocks s' g)" for c g
      using heap_okD(4) [OF d(2), of c g] notin none by (auto simp: v(5,9))
    show "distinct (fblocks s' g)" for g
      using heap_okD(5) [OF d(2)] notin by (simp add: v(9))
  qed (use heap_okD(2,3) [OF d(2)] v in auto)
  moreover have "body_ok s'"
    using d(3) by (simp add: body_ok_def v is_term_cong [OF v(3)])
  moreover have "cfg_ok s'"
    using d(4) by (simp add: cfg_ok_def v br_targets_cong [of s' s])
  moreover have "opens s' = insert b (opens s)"
    by (auto simp: opens_view v(5,6) is_term_cong [OF v(3)] il split: if_splits)
  ultimately show ?thesis
    using none v(5) by (simp add: ir_ok_def)
qed

text \<open>A change that leaves the blocks and their instructions alone.\<close>

lemma ir_ok_frame:
  assumes ok: "ir_ok s" and "use_def_ok s'" and "fresh_ok s'"
    and e: "instrs s' = instrs s" "owner s' = owner s" "ilist s' = ilist s" "preds s' = preds s"
      "succs s' = succs s" "fblocks s' = fblocks s" "\<And>p. operands s' (VInstr p) = operands s (VInstr p)"
  shows "ir_ok s'" "opens s' = opens s"
proof -
  note t = is_term_cong [OF e(1)] br_targets_cong [OF e(1,3,7)]
  show "ir_ok s'"
    using ir_okD [OF ok] assms(2,3) by (simp add: ir_ok_def heap_ok_def body_ok_def cfg_ok_def e t)
  show "opens s' = opens s"
    by (simp add: set_eq_iff opens_view e t)
qed

lemma Function_create_ok:
  assumes ok: "ir_ok s" and mk: "Function_create t name s = Inr (f, s')"
  shows "ir_ok s' \<and> opens s' = opens s \<and> owner s' = owner s"
proof -
  have fresh: "fresh_ok s" by (rule heap_okD(1) [OF ir_okD(2) [OF ok]])
  have "fblocks s' = fblocks s"
    using mk fresh_okD(3) [OF fresh, of "next_id s"]
    by (auto simp: Function_create_def Let_def fblocks_def fun_eq_iff)
  moreover have "use_def_ok s'"
    using ir_okD(1) [OF ok] mk
    by (subst use_def_ok_cong [of _ s]) (auto simp: Function_create_def Let_def)
  moreover have "fresh_ok s'"
    using mk fresh by (auto simp: Function_create_def Let_def fresh_ok_def)
  moreover have "instrs s' = instrs s" "owner s' = owner s" "ilist s' = ilist s" "preds s' = preds s"
      "succs s' = succs s" "operands s' = operands s"
    using mk by (auto simp: Function_create_def Let_def view_defs fun_eq_iff)
  ultimately show ?thesis
    by (intro conjI ir_ok_frame [OF ok]) simp_all
qed

lemma GlobalVariable_create_ok:
  assumes ok: "ir_ok s" and mk: "GlobalVariable_create name t c init s = Inr (v, s')"
  shows "ir_ok s' \<and> opens s' = opens s \<and> owner s' = owner s"
proof -
  let ?g = "next_id s"
  let ?vs = "if init \<noteq> VNull then [init] else []"
  let ?s = "s\<lparr>next_id := Suc ?g,
     gvars := (gvars s)(?g \<mapsto> \<lparr>g_name = name, g_type = PtrTy t, g_const = c, g_init = init\<rparr>),
     global_list := global_list s @ [?g]\<rparr>"
  have fresh: "fresh_ok s" by (rule heap_okD(1) [OF ir_okD(2) [OF ok]])
  have set: "set_operands (VGlobal ?g) 0 ?vs (new_user (VGlobal ?g) (length ?vs) ?s) = Inr s'"
    using mk by (auto simp: GlobalVariable_create_def Let_def split: if_splits)
  have ud: "use_def_ok ?s"
    using ir_okD(1) [OF ok] by (subst use_def_ok_cong [of _ s]) simp_all
  note init = init_user_ok [OF ud _ _ set]
  have 1: "use_def_ok s'"
    by (rule init(1)) (simp_all add: fresh_okD [OF fresh])
  have 2: "operands s' w = operands s w" if "w \<noteq> VGlobal ?g" for w
    using init(3) that fresh_okD [OF fresh] by simp
  note fr = set_operands_frame [OF set]
  have "fresh_ok s'"
    using fresh by (auto simp: fresh_ok_def fr 2)
  then show ?thesis
    using 1 2 by (intro conjI ir_ok_frame [OF ok]) (simp_all add: fr view_defs fun_eq_iff)
qed

lemma ConstantFP_get_view:
  assumes "ConstantFP_get v s = (c, s')"
  obtains n es where "s' = s\<lparr>fp_count := n, cached_float := es\<rparr>"
proof -
  have "s' = s\<lparr>fp_count := fp_count s', cached_float := cached_float s'\<rparr>"
    using assms by (auto simp: ConstantFP_get_def Let_def split: option.splits)
  then show thesis by (rule that)
qed

lemma ConstantFP_get_ok:
  fixes s :: "'z ir_scheme"
  assumes ok: "ir_ok s" and get: "ConstantFP_get v s = (c, s')"
  shows "ir_ok s' \<and> opens s' = opens s \<and> owner s' = owner s"
proof -
  obtain n es where e: "s' = s\<lparr>fp_count := n, cached_float := es\<rparr>"
    using get by (rule ConstantFP_get_view)
  have "use_def_ok s'"
    using ir_okD(1) [OF ok] by (subst use_def_ok_cong [of _ s]) (simp_all add: e)
  moreover have "fresh_ok s'"
    using heap_okD(1) [OF ir_okD(2) [OF ok]] by (simp add: e fresh_ok_def)
  ultimately show ?thesis
    by (intro conjI ir_ok_frame [OF ok]) (simp_all add: e view_defs fun_eq_iff)
qed

section \<open>What construction never changes\<close>

text \<open>Instructions, global variables, function types and the owners of blocks stay as they were;
  so the type of a value does too.\<close>

definition f_types :: "'z ir_scheme \<Rightarrow> nat \<Rightarrow> ty option" where
  "f_types s f = map_option f_type (funs s f)"

definition kept :: "'z ir_scheme \<Rightarrow> 'z ir_scheme \<Rightarrow> bool" where
  "kept s s' \<longleftrightarrow> instrs s \<subseteq>\<^sub>m instrs s' \<and> gvars s \<subseteq>\<^sub>m gvars s' \<and> f_types s \<subseteq>\<^sub>m f_types s' \<and>
     owner s \<subseteq>\<^sub>m owner s'"

lemma kept_refl [simp]: "kept s s"
  by (simp add: kept_def)

lemma kept_trans: "kept s s1 \<Longrightarrow> kept s1 s2 \<Longrightarrow> kept s s2"
  unfolding kept_def by (blast intro: map_le_trans)

lemma map_le_fresh: "m a = None \<Longrightarrow> m \<subseteq>\<^sub>m m(a \<mapsto> x)"
  by (auto simp: map_le_def)

lemma map_leD: "m \<subseteq>\<^sub>m m' \<Longrightarrow> m a = Some x \<Longrightarrow> m' a = Some x"
  by (metis domI map_le_def)

lemma keptD:
  assumes "kept s s'"
  shows "instrs s p = Some x \<Longrightarrow> instrs s' p = Some x" "gvars s p = Some y \<Longrightarrow> gvars s' p = Some y"
    "f_types s p = Some t \<Longrightarrow> f_types s' p = Some t" "owner s p = Some f \<Longrightarrow> owner s' p = Some f"
  using assms map_leD by (fastforce simp: kept_def)+

text \<open>\<open>get_type\<close> through the views.\<close>

lemma get_type_view:
  "get_type s v = Inr t \<longleftrightarrow> (case v of
     VNull \<Rightarrow> False
   | VConst c \<Rightarrow> t = const_type c
   | VGlobal g \<Rightarrow> (\<exists>x. gvars s g = Some x \<and> t = g_type x)
   | VFun f \<Rightarrow> f_types s f = Some t
   | VArg f i \<Rightarrow> (\<exists>u as. f_types s f = Some u \<and> fun_params u = Inr as \<and> i < length as \<and> t = as ! i)
   | VBB b \<Rightarrow> (\<exists>f. owner s b = Some f) \<and> t = LabelTy
   | VInstr p \<Rightarrow> (\<exists>x. instrs s p = Some x \<and> t = i_type x))"
  by (cases v) (auto simp: bnd_eq_Inr_iff f_types_def owner_def)

lemma kept_get_type:
  assumes "kept s s'" and "get_type s v = Inr t"
  shows "get_type s' v = Inr t"
  using assms(2) keptD [OF assms(1)] unfolding get_type_view by (cases v) (simp_all, blast+)

lemma mk_instr_kept:
  assumes "fresh_ok s" and "mk_instr t opc d vs b s = Inr (v, s')"
  shows "kept s s'"
proof -
  have "f_types s' = f_types s"
    by (simp add: fun_eq_iff f_types_def mk_instr_view [OF assms(2)])
  then show ?thesis
    using fresh_okD(1) [OF assms(1), of "next_id s"]
    by (simp add: kept_def mk_instr_view [OF assms(2)] map_le_fresh)
qed

lemma same_code_kept: "same_code s s' \<Longrightarrow> kept s s'"
  by (simp add: same_code_def kept_def f_types_def map_le_def)

lemma create_br_kept:
  assumes "heap_ok s" and "create_br t b s = Inr (v, s')"
  shows "kept s s'"
  using assms(2)
proof (rule create_br_Inr)
  fix s1 assume a: "mk_instr VoidTy Br NoData [VBB t] b s1 = Inr (v, s')" "same_code s s1"
  have "fresh_ok s1"
    using a(2) assms(1) heap_okD(1) same_code_ok(2) by blast
  then show ?thesis
    using kept_trans [OF same_code_kept [OF a(2)] mk_instr_kept [OF _ a(1)]] by simp
qed

lemma create_cond_br_kept:
  assumes "heap_ok s" and "create_cond_br c t f b s = Inr (v, s')"
  shows "kept s s'"
proof -
  from assms(2) obtain s1 s2 s3 s4 where e: "add_pre_basic_block t b s = Inr s1"
    "add_pre_basic_block f b s1 = Inr s2" "add_succ_basic_block b f s2 = Inr s3"
    "add_succ_basic_block b t s3 = Inr s4" "mk_instr VoidTy Br NoData [c, VBB t, VBB f] b s4 = Inr (v, s')"
    by (auto simp: create_cond_br_def)
  have same: "same_code s s4"
    using add_pre_view(1) [OF e(1)] add_pre_view(1) [OF e(2)] add_succ_view(1) [OF e(3)]
      add_succ_view(1) [OF e(4)] same_code_trans by blast
  then have "fresh_ok s4"
    using assms(1) heap_okD(1) same_code_ok(2) by blast
  then show ?thesis
    using kept_trans [OF same_code_kept [OF same] mk_instr_kept [OF _ e(5)]] by simp
qed

lemma BasicBlock_create_kept:
  assumes "fresh_ok s" and "BasicBlock_create name f s = Inr (b, s')"
  shows "kept s s'"
proof -
  have "f_types s' = f_types s"
    using assms(2) by (auto simp: BasicBlock_create_def Let_def f_types_def fun_eq_iff)
  moreover have "owner s b = None"
    using fresh_ok_blocks [OF assms(1)] BasicBlock_create_view(1) [OF assms(2,1)] by simp
  ultimately show ?thesis
    using BasicBlock_create_view [OF assms(2,1)] by (simp add: kept_def map_le_fresh)
qed

lemma Function_create_kept:
  assumes "fresh_ok s" and "Function_create t name s = Inr (f, s')"
  shows "kept s s'" "f_types s' f = Some t" "f = next_id s" "\<exists>as. fun_params t = Inr as"
  using assms fresh_okD(3) [OF assms(1), of "next_id s"]
  by (auto simp: Function_create_def Let_def kept_def f_types_def owner_def map_le_def)

lemma GlobalVariable_create_kept:
  assumes "fresh_ok s" and "GlobalVariable_create name t c init s = Inr (v, s')"
  shows "kept s s'" "v = VGlobal (next_id s)" "get_type s' v = Inr (PtrTy t)" "ir.more s' = ir.more s"
proof -
  let ?g = "next_id s"
  let ?vs = "if init \<noteq> VNull then [init] else []"
  let ?s = "s\<lparr>next_id := Suc ?g,
     gvars := (gvars s)(?g \<mapsto> \<lparr>g_name = name, g_type = PtrTy t, g_const = c, g_init = init\<rparr>),
     global_list := global_list s @ [?g]\<rparr>"
  have set: "set_operands (VGlobal ?g) 0 ?vs (new_user (VGlobal ?g) (length ?vs) ?s) = Inr s'"
    and v: "v = VGlobal ?g"
    using assms(2) by (auto simp: GlobalVariable_create_def Let_def split: if_splits)
  note fr = set_operands_frame [OF set]
  show "v = VGlobal (next_id s)" "get_type s' v = Inr (PtrTy t)" "ir.more s' = ir.more s"
    by (simp_all add: v fr)
  have "f_types s' = f_types s" "owner s' = owner s"
    by (simp_all add: fun_eq_iff f_types_def owner_def fr)
  then show "kept s s'"
    using fresh_okD(4) [OF assms(1), of ?g] by (simp add: kept_def fr map_le_fresh)
qed

lemma ConstantFP_get_kept:
  fixes s :: "'z ir_scheme"
  assumes "ConstantFP_get v s = (c, s')"
  shows "kept s s'" "ir.more s' = ir.more s"
  using assms by (rule ConstantFP_get_view, simp add: kept_def f_types_def owner_def map_le_def)+

end
