(* ===== verification/Scope.thy ===== *)
theory Scope
  imports Users
begin

text \<open>
  The symbol table of the code generator (\<open>class Scope\<close> in
  \<open>include/cminusf_builder.hpp\<close>): a vector of maps from names to values. The list here has
  the innermost scope first, the source's vector has it last. \<open>pop_back\<close> and
  \<open>inner[inner.size() - 1]\<close> on an empty vector are undefined in C++ and a fault here.
\<close>

section \<open>The table\<close>

type_synonym scope = "(string \<rightharpoonup> val) list"

definition enter :: "scope \<Rightarrow> scope" where
  "enter sc = Map.empty # sc"

fun exit :: "scope \<Rightarrow> scope res" where
  "exit [] = Inl OutOfBounds"
| "exit (m # sc) = Inr sc"

definition in_global :: "scope \<Rightarrow> bool" where
  "in_global sc \<longleftrightarrow> length sc = 1"

text \<open>\<open>std::map::insert\<close> does not overwrite; the flag says whether the name was new.\<close>

fun push :: "string \<Rightarrow> val \<Rightarrow> scope \<Rightarrow> (bool \<times> scope) res" where
  "push n v [] = Inl OutOfBounds"
| "push n v (m # sc) = Inr (if n \<in> dom m then (False, m # sc) else (True, m(n \<mapsto> v) # sc))"

fun find :: "scope \<Rightarrow> string \<Rightarrow> val" where
  "find [] n = VNull"
| "find (m # sc) n = (case m n of Some v \<Rightarrow> v | None \<Rightarrow> find sc n)"

section \<open>What the code generator relies on\<close>

text \<open>A run of declarations in the current scope, in order.\<close>

fun declare_all :: "('k \<Rightarrow> 'v \<Rightarrow> 'e \<Rightarrow> (bool \<times> 'e) res) \<Rightarrow> ('k \<times> 'v) list \<Rightarrow> 'e \<Rightarrow> 'e res" where
  "declare_all psh [] e = Inr e"
| "declare_all psh ((k, v) # ds) e = bnd (psh k v e) (\<lambda>(r, e). declare_all psh ds e)"

text \<open>A client that opens a scope, declares names and leaves it again; \<open>level\<close> is the number
  of open scopes.\<close>

locale environment =
  fixes enter_env :: "'e \<Rightarrow> 'e"
    and exit_env :: "'e \<Rightarrow> 'e res"
    and push_env :: "'k \<Rightarrow> 'v \<Rightarrow> 'e \<Rightarrow> (bool \<times> 'e) res"
    and find_env :: "'e \<Rightarrow> 'k \<Rightarrow> 'v"
    and level :: "'e \<Rightarrow> nat"
  assumes exit_enter: "exit_env (enter_env e) = Inr e"
    and find_enter: "find_env (enter_env e) k = find_env e k"
    and level_enter: "level (enter_env e) = Suc (level e)"
    and push_total: "level e \<noteq> 0 \<Longrightarrow> \<exists>r. push_env k v e = Inr r"
    and push_exit: "push_env k v e = Inr (r, e') \<Longrightarrow> exit_env e' = exit_env e \<and> level e' = level e"
    and push_new: "push_env k v e = Inr (True, e') \<Longrightarrow>
       find_env e' k = v \<and> (\<forall>j. j \<noteq> k \<longrightarrow> find_env e' j = find_env e j)"
    and push_old: "push_env k v e = Inr (False, e') \<Longrightarrow> e' = e"
begin

text \<open>Declarations are undone by leaving the scope, however many there are.\<close>

lemma declare_all_exit:
  "declare_all push_env ds e = Inr e' \<Longrightarrow> exit_env e' = exit_env e \<and> level e' = level e"
proof (induction ds arbitrary: e)
  case (Cons d ds)
  then obtain r e1 where p: "push_env (fst d) (snd d) e = Inr (r, e1)" "declare_all push_env ds e1 = Inr e'"
    by (cases d) auto
  with Cons.IH [OF p(2)] push_exit [OF p(1)] show ?case by auto
qed simp

lemma declare_all_total: "level e \<noteq> 0 \<Longrightarrow> \<exists>e'. declare_all push_env ds e = Inr e'"
proof (induction ds arbitrary: e)
  case (Cons d ds)
  from push_total [OF Cons(2), of "fst d" "snd d"] obtain r e1
    where p: "push_env (fst d) (snd d) e = Inr (r, e1)"
    by auto
  with push_exit [OF p] Cons show ?case by (cases d) simp
qed simp

lemma scope_balanced:
  "\<exists>e'. declare_all push_env ds (enter_env e) = Inr e' \<and> exit_env e' = Inr e"
proof -
  obtain e' where e': "declare_all push_env ds (enter_env e) = Inr e'"
    using declare_all_total [of "enter_env e" ds] by (auto simp: level_enter)
  with declare_all_exit [OF e'] show ?thesis
    by (simp add: exit_enter)
qed

text \<open>The first declaration of a name in a scope wins, and hides the outer one.\<close>

lemma declare_other:
  "declare_all push_env ds e = Inr e' \<Longrightarrow> k \<notin> fst ` set ds \<Longrightarrow> find_env e' k = find_env e k"
proof (induction ds arbitrary: e)
  case (Cons d ds)
  then obtain r e1 where p: "push_env (fst d) (snd d) e = Inr (r, e1)" "declare_all push_env ds e1 = Inr e'"
    by (cases d) auto
  have "find_env e1 k = find_env e k"
    using push_new [of "fst d" "snd d" e e1] push_old [of "fst d" "snd d" e e1] p(1) Cons.prems(2)
    by (cases r) auto
  with Cons.IH [OF p(2)] Cons.prems(2) show ?case by simp
qed simp

end

interpretation scopes: environment enter exit push find length
proof
  show "exit (enter e) = Inr e" for e
    by (simp add: enter_def)
  show "find (enter e) k = find e k" for e k
    by (simp add: enter_def)
  show "length (enter e) = Suc (length e)" for e
    by (simp add: enter_def)
  show "length e \<noteq> 0 \<Longrightarrow> \<exists>r. push k v e = Inr r" for e k v
    by (cases e) auto
  show "push k v e = Inr (r, e') \<Longrightarrow> exit e' = exit e \<and> length e' = length e" for k v e r e'
    by (cases e) (auto split: if_splits)
  show "push k v e = Inr (True, e') \<Longrightarrow>
      find e' k = v \<and> (\<forall>j. j \<noteq> k \<longrightarrow> find e' j = find e j)" for k v e e'
    by (cases e) (auto split: if_splits)
  show "push k v e = Inr (False, e') \<Longrightarrow> e' = e" for k v e e'
    by (cases e) (auto split: if_splits)
qed

text \<open>C18: a scope is balanced: whatever is declared after \<open>enter\<close>, the declarations succeed,
  leaving gives back exactly the table that was entered, and a name not declared inside is found as
  outside.\<close>

theorem scope_enter_exit:
  "\<exists>e'. declare_all push ds (enter e) = Inr e' \<and> exit e' = Inr e \<and>
     (\<forall>n. n \<notin> fst ` set ds \<longrightarrow> find e' n = find e n)"
proof -
  obtain e' where e': "declare_all push ds (enter e) = Inr e'" "exit e' = Inr e"
    using scopes.scope_balanced by blast
  moreover have "find e' n = find e n" if "n \<notin> fst ` set ds" for n
    using scopes.declare_other [OF e'(1) that] by (simp add: scopes.find_enter)
  ultimately show ?thesis by blast
qed

theorem scope_enter_exit_witness:
  "\<exists>e'. declare_all push [(''x'', VInstr 1)] (enter [[''y'' \<mapsto> VInstr 0]]) = Inr e' \<and>
     exit e' = Inr [[''y'' \<mapsto> VInstr 0]] \<and> find e' ''y'' = VInstr 0"
  using scope_enter_exit [of "[(''x'', VInstr 1)]" "[[''y'' \<mapsto> VInstr 0]]"] by fastforce

end
