(* ===== verification/Ast.thy ===== *)
theory Ast
  imports Float32
begin

text \<open>
  The abstract syntax of Cminus-f (\<open>include/ast.hpp\<close>). A class with a pointer that may be
  null becomes one constructor for each case; the members of a class keep their order.
\<close>

datatype cminus_type = TYPE_INT | TYPE_FLOAT | TYPE_VOID

datatype rel_op = OP_LE | OP_LT | OP_GT | OP_GE | OP_EQ | OP_NEQ

datatype add_op = OP_PLUS | OP_MINUS

datatype mul_op = OP_MUL | OP_DIV

text \<open>\<open>ASTNum\<close>: the type tag and the member of the union it selects.\<close>

datatype num = NumInt "32 word" | NumFloat float32

text \<open>
  Expressions. \<open>SimpleE\<close> is an \<open>ASTSimpleExpression\<close> without a right side,
  \<open>RelE\<close> one with it; \<open>Var\<close> and \<open>VarIndex\<close> are an \<open>ASTVar\<close> without and with
  an index; \<open>AddTerm\<close>, \<open>AddBin\<close> an \<open>ASTAdditiveExpression\<close> and
  \<open>TermFactor\<close>, \<open>TermBin\<close> an \<open>ASTTerm\<close>.
\<close>

datatype expression =
    AssignE avar expression
  | SimpleE additive
  | RelE additive rel_op additive
and avar =
    Var string
  | VarIndex string expression
and additive =
    AddTerm aterm
  | AddBin additive add_op aterm
and aterm =
    TermFactor factor
  | TermBin aterm mul_op factor
and factor =
    FExpr expression
  | FVar avar
  | FCall string "expression list"
  | FNum num

text \<open>Declarations; \<open>vd_num\<close> is the length of an array.\<close>

record var_decl =
  vd_type :: cminus_type
  vd_id :: string
  vd_num :: "32 word option"

datatype statement =
    Compound "var_decl list" "statement list"
  | ExprStmt "expression option"
  | Selection expression statement "statement option"
  | Iteration expression statement
  | Return "expression option"

record param =
  p_type :: cminus_type
  p_id :: string
  p_isarray :: bool

record fun_decl =
  fd_type :: cminus_type
  fd_id :: string
  fd_params :: "param list"
  fd_locals :: "var_decl list"
  fd_body :: "statement list"

datatype decl = VarDecl var_decl | FunDecl fun_decl

type_synonym program = "decl list"

text \<open>A literal or a variable as an expression, as the parser wraps it.\<close>

definition factor_expr :: "factor \<Rightarrow> expression" where
  "factor_expr f = SimpleE (AddTerm (TermFactor f))"

end
