(* ===== verification/Codegen.thy ===== *)
theory Codegen
  imports IR_Invariants Scope Ast
begin

text \<open>
  The code generator (\<open>cminusfc/cminusf_builder.cpp\<close>, \<open>include/cminusf_builder.hpp\<close>,
  \<open>include/lightir/IRBuilder.h\<close>): one definition per \<open>visit\<close> method. The state adds to
  the IR the builder's insertion point, the scope table and the file's global variables.
\<close>

section \<open>State and the builder\<close>

record cg = ir +
  insert_bb :: "nat option"
  scope :: scope
  tmp_val :: val
  require_lvalue :: bool
  cur_fun :: "nat option"
  pre_enter_scope :: bool

text \<open>\<open>IRBuilder\<close> passes its block to the constructor of the instruction.\<close>

definition build :: "(nat \<Rightarrow> cg \<Rightarrow> (val \<times> cg) res) \<Rightarrow> cg \<Rightarrow> (val \<times> cg) res" where
  "build f s = bnd (deref (insert_bb s)) (\<lambda>b. f b s)"

definition set_insert_point :: "nat \<Rightarrow> cg \<Rightarrow> cg" where
  "set_insert_point b s = s\<lparr>insert_bb := Some b\<rparr>"

text \<open>Keep the new instruction in \<open>tmp_val\<close>, or drop it.\<close>

definition to_tmp :: "(val \<times> cg) res \<Rightarrow> cg res" where
  "to_tmp r = bnd r (\<lambda>(v, s). Inr (s\<lparr>tmp_val := v\<rparr>))"

definition discard :: "(val \<times> cg) res \<Rightarrow> cg res" where
  "discard r = bnd r (\<lambda>(v, s). Inr s)"

definition const_int :: "int \<Rightarrow> val" where
  "const_int n = VConst (CInt (word_of_int n))"

definition const_fp :: "float32 \<Rightarrow> cg \<Rightarrow> val \<times> cg" where
  "const_fp v s = (let (c, s) = ConstantFP_get v s in (VConst c, s))"

text \<open>\<open>builder->get_insert_block()->get_terminator() != nullptr\<close>.\<close>

definition terminated :: "cg \<Rightarrow> bool res" where
  "terminated s = bnd (deref (insert_bb s)) (\<lambda>b. bnd (deref (blocks s b)) (\<lambda>k.
     Inr (get_terminator s b \<noteq> None)))"

definition new_block :: "string \<Rightarrow> cg \<Rightarrow> (nat \<times> cg) res" where
  "new_block name s = bnd (deref (cur_fun s)) (\<lambda>f. BasicBlock_create name f s)"

definition declare_name :: "string \<Rightarrow> val \<Rightarrow> cg \<Rightarrow> cg res" where
  "declare_name n v s = bnd (push n v (scope s)) (\<lambda>(r, sc). Inr (s\<lparr>scope := sc\<rparr>))"

section \<open>Shared pieces of the visitor\<close>

text \<open>\<open>promote\<close>: the operands after conversion and whether both are integers.\<close>

definition promote :: "val \<Rightarrow> val \<Rightarrow> cg \<Rightarrow> (bool \<times> val \<times> val \<times> cg) res" where
  "promote l r s =
     bnd (get_type s l) (\<lambda>lt.
     bnd (get_type s r) (\<lambda>rt.
     if lt = rt then Inr (is_integer_type lt, l, r, s)
     else if is_integer_type lt
     then bnd (build (create_sitofp l FloatTy) s) (\<lambda>(l, s). Inr (False, l, r, s))
     else bnd (build (create_sitofp r FloatTy) s) (\<lambda>(r, s). Inr (False, l, r, s))))"

text \<open>Two operands combined by the integer or the float instruction.\<close>

definition arith :: "opid \<Rightarrow> opid \<Rightarrow> val \<Rightarrow> val \<Rightarrow> cg \<Rightarrow> cg res" where
  "arith iop fop l r s =
     bnd (promote l r s) (\<lambda>(is_int, l, r, s).
     to_tmp (build (create_binary (if is_int then iop else fop) l r) s))"

fun cmp_of :: "rel_op \<Rightarrow> cmpop" where
  "cmp_of OP_LT = LT"
| "cmp_of OP_LE = LE"
| "cmp_of OP_GE = GE"
| "cmp_of OP_GT = GT"
| "cmp_of OP_EQ = EQ"
| "cmp_of OP_NEQ = NE"

definition compare :: "rel_op \<Rightarrow> val \<Rightarrow> val \<Rightarrow> cg \<Rightarrow> cg res" where
  "compare op l r s =
     bnd (promote l r s) (\<lambda>(is_int, l, r, s).
     bnd (if is_int then build (create_cmp (cmp_of op) l r) s
          else build (create_fcmp (cmp_of op) l r) s) (\<lambda>(c, s).
     to_tmp (build (create_zext c INT32_T) s)))"

text \<open>The return at the end of a function and after a negative index.\<close>

definition default_return :: "cg \<Rightarrow> cg res" where
  "default_return s =
     bnd (deref (cur_fun s)) (\<lambda>f.
     bnd (get_type s (VFun f)) (\<lambda>t.
     bnd (fun_result t) (\<lambda>rt.
     if is_void_type rt then discard (build create_void_ret s)
     else if is_float_type rt
     then (let (c, s) = const_fp 0 s in discard (build (create_ret c) s))
     else discard (build (create_ret (const_int 0)) s))))"

text \<open>A condition is compared with zero.\<close>

definition condition :: "val \<Rightarrow> cg \<Rightarrow> (val \<times> cg) res" where
  "condition v s =
     bnd (get_type s v) (\<lambda>t.
     if is_integer_type t then build (create_cmp NE v (const_int 0)) s
     else (let (c, s) = const_fp 0 s in build (create_fcmp NE v c) s))"

section \<open>Expressions\<close>

definition visit_num :: "num \<Rightarrow> cg \<Rightarrow> cg res" where
  "visit_num n s =
     (case n of
        NumInt i \<Rightarrow> Inr (s\<lparr>tmp_val := VConst (CInt i)\<rparr>)
      | NumFloat v \<Rightarrow> (let (c, s) = const_fp v s in Inr (s\<lparr>tmp_val := c\<rparr>)))"

text \<open>The start of \<open>visit(ASTVar)\<close>: the variable, the type it points to, and the flag that
  asks for an address, which is reset.\<close>

definition lookup_var :: "string \<Rightarrow> cg \<Rightarrow> (val \<times> ty \<times> bool \<times> cg) res" where
  "lookup_var name s =
     (let v = find (scope s) name
      in bnd (ensure (v \<noteq> VNull) AssertFail) (\<lambda>_.
         bnd (get_type s v) (\<lambda>t.
         bnd (deref (get_pointer_element_type t)) (\<lambda>et.
         Inr (v, et, require_lvalue s, s\<lparr>require_lvalue := False\<rparr>)))))"

definition is_scalar :: "ty \<Rightarrow> bool" where
  "is_scalar t \<longleftrightarrow> is_integer_type t \<or> is_float_type t"

definition var_value :: "val \<Rightarrow> ty \<Rightarrow> bool \<Rightarrow> cg \<Rightarrow> cg res" where
  "var_value v et lval s =
     (if lval then Inr (s\<lparr>tmp_val := v\<rparr>)
      else if is_scalar et \<or> is_pointer_type et then to_tmp (build (create_load v) s)
      else to_tmp (build (create_gep v [const_int 0, const_int 0]) s))"

text \<open>The check that the index is not negative: the block that calls the handler and returns,
  then the block where the access continues.\<close>

definition index_check :: "val \<Rightarrow> cg \<Rightarrow> (val \<times> cg) res" where
  "index_check v s =
     bnd (new_block '''' s) (\<lambda>(except_bb, s).
     bnd (new_block '''' s) (\<lambda>(cont_bb, s).
     bnd (get_type s v) (\<lambda>t.
     bnd (if is_float_type t then build (create_fptosi v INT32_T) s else Inr (v, s)) (\<lambda>(v, s).
     bnd (build (create_cmp LT v (const_int 0)) s) (\<lambda>(is_neg, s).
     bnd (discard (build (create_cond_br is_neg except_bb cont_bb) s)) (\<lambda>s.
     let s = set_insert_point except_bb s
     in bnd (discard (build (create_call (find (scope s) ''neg_idx_except'') []) s)) (\<lambda>s.
        bnd (default_return s) (\<lambda>s.
        Inr (v, set_insert_point cont_bb s)))))))))"

definition element_access :: "val \<Rightarrow> ty \<Rightarrow> bool \<Rightarrow> val \<Rightarrow> cg \<Rightarrow> cg res" where
  "element_access v et lval i s =
     bnd (if is_scalar et then build (create_gep v [i]) s
          else if is_pointer_type et
          then bnd (build (create_load v) s) (\<lambda>(a, s). build (create_gep a [i]) s)
          else build (create_gep v [const_int 0, i]) s) (\<lambda>(p, s).
     if lval then Inr (s\<lparr>tmp_val := p\<rparr>) else to_tmp (build (create_load p) s))"

text \<open>The end of \<open>visit(ASTAssignExpression)\<close>: the value is converted to the variable's
  type and stored.\<close>

definition assign :: "val \<Rightarrow> val \<Rightarrow> cg \<Rightarrow> cg res" where
  "assign v addr s =
     bnd (get_type s addr) (\<lambda>at.
     bnd (get_type s v) (\<lambda>vt.
     bnd (if get_pointer_element_type at \<noteq> Some vt
          then if vt = INT32_T then build (create_sitofp v FloatTy) s
               else build (create_fptosi v INT32_T) s
          else Inr (v, s)) (\<lambda>(v, s).
     bnd (discard (build (create_store v addr) s)) (\<lambda>s.
     Inr (s\<lparr>tmp_val := v\<rparr>)))))"

text \<open>One argument of a call. The iterator over the parameter types is the list of those left;
  it is dereferenced only for an argument that is not a pointer.\<close>

definition convert_arg :: "ty list \<Rightarrow> cg \<Rightarrow> cg res" where
  "convert_arg ps s =
     bnd (get_type s (tmp_val s)) (\<lambda>t.
     if is_pointer_type t then Inr s
     else case ps of
            [] \<Rightarrow> Inl OutOfBounds
          | p # _ \<Rightarrow>
              if p = t then Inr s
              else if is_integer_type t then to_tmp (build (create_sitofp (tmp_val s) FloatTy) s)
              else to_tmp (build (create_fptosi (tmp_val s) INT32_T) s))"

text \<open>The start of \<open>visit(ASTCall)\<close>: the callee and its parameter types.\<close>

definition lookup_fun :: "string \<Rightarrow> cg \<Rightarrow> (val \<times> ty list) res" where
  "lookup_fun name s =
     (case find (scope s) name of
        VNull \<Rightarrow> Inl NullDeref
      | VFun f \<Rightarrow> bnd (get_type s (VFun f)) (\<lambda>t. bnd (fun_params t) (\<lambda>ps. Inr (VFun f, ps)))
      | _ \<Rightarrow> Inl BadCast)"

fun int_add :: "add_op \<Rightarrow> opid" and float_add :: "add_op \<Rightarrow> opid" where
  "int_add OP_PLUS = Add"
| "int_add OP_MINUS = Sub"
| "float_add OP_PLUS = Fadd"
| "float_add OP_MINUS = Fsub"

fun int_mul :: "mul_op \<Rightarrow> opid" and float_mul :: "mul_op \<Rightarrow> opid" where
  "int_mul OP_MUL = Mul"
| "int_mul OP_DIV = Sdiv"
| "float_mul OP_MUL = Fmul"
| "float_mul OP_DIV = Fdiv"

function (sequential)
  visit_expression :: "expression \<Rightarrow> cg \<Rightarrow> cg res" and
  visit_var :: "avar \<Rightarrow> cg \<Rightarrow> cg res" and
  visit_additive :: "additive \<Rightarrow> cg \<Rightarrow> cg res" and
  visit_term :: "aterm \<Rightarrow> cg \<Rightarrow> cg res" and
  visit_factor :: "factor \<Rightarrow> cg \<Rightarrow> cg res" and
  visit_args :: "expression list \<Rightarrow> ty list \<Rightarrow> cg \<Rightarrow> (val list \<times> cg) res"
where
  "visit_expression (AssignE v e) s =
     bnd (visit_expression e s) (\<lambda>s.
     let expr_result = tmp_val s
     in bnd (visit_var v (s\<lparr>require_lvalue := True\<rparr>)) (\<lambda>s.
        assign expr_result (tmp_val s) s))"
| "visit_expression (SimpleE a) s = visit_additive a s"
| "visit_expression (RelE l op r) s =
     bnd (visit_additive l s) (\<lambda>s.
     let l_val = tmp_val s
     in bnd (visit_additive r s) (\<lambda>s. compare op l_val (tmp_val s) s))"
| "visit_var (Var name) s =
     bnd (lookup_var name s) (\<lambda>(v, et, lval, s). var_value v et lval s)"
| "visit_var (VarIndex name e) s =
     bnd (lookup_var name s) (\<lambda>(v, et, lval, s).
     bnd (visit_expression e s) (\<lambda>s.
     bnd (index_check (tmp_val s) s) (\<lambda>(i, s). element_access v et lval i s)))"
| "visit_additive (AddTerm t) s = visit_term t s"
| "visit_additive (AddBin a op t) s =
     bnd (visit_additive a s) (\<lambda>s.
     let l_val = tmp_val s
     in bnd (visit_term t s) (\<lambda>s. arith (int_add op) (float_add op) l_val (tmp_val s) s))"
| "visit_term (TermFactor f) s = visit_factor f s"
| "visit_term (TermBin t op f) s =
     bnd (visit_term t s) (\<lambda>s.
     let l_val = tmp_val s
     in bnd (visit_factor f s) (\<lambda>s. arith (int_mul op) (float_mul op) l_val (tmp_val s) s))"
| "visit_factor (FExpr e) s = visit_expression e s"
| "visit_factor (FVar v) s = visit_var v s"
| "visit_factor (FCall name args) s =
     bnd (lookup_fun name s) (\<lambda>(fn, ps).
     bnd (visit_args args ps s) (\<lambda>(vs, s). to_tmp (build (create_call fn vs) s)))"
| "visit_factor (FNum n) s = visit_num n s"
| "visit_args [] ps s = Inr ([], s)"
| "visit_args (e # es) ps s =
     bnd (visit_expression e s) (\<lambda>s.
     bnd (convert_arg ps s) (\<lambda>s.
     bnd (visit_args es (tl ps) s) (\<lambda>(vs, s'). Inr (tmp_val s # vs, s'))))"
  by pat_completeness auto
termination
  by (relation "measure (\<lambda>x. case x of
        Inl (Inl (e, s)) \<Rightarrow> size e
      | Inl (Inr (Inl (v, s))) \<Rightarrow> size v
      | Inl (Inr (Inr (a, s))) \<Rightarrow> size a
      | Inr (Inl (t, s)) \<Rightarrow> size t
      | Inr (Inr (Inl (f, s))) \<Rightarrow> size f
      | Inr (Inr (Inr (es, ps, s))) \<Rightarrow> size_list size es)") auto

section \<open>Declarations of variables\<close>

fun element_type :: "cminus_type \<Rightarrow> ty" where
  "element_type TYPE_INT = INT32_T"
| "element_type _ = FloatTy"

definition visit_var_decl :: "var_decl \<Rightarrow> cg \<Rightarrow> cg res" where
  "visit_var_decl d s =
     (let var_type = element_type (vd_type d);
          t = (case vd_num d of None \<Rightarrow> var_type | Some n \<Rightarrow> ArrTy var_type (unat n))
      in bnd (if in_global (scope s)
              then GlobalVariable_create (vd_id d) t False (VConst (CZero t)) s
              else build (create_alloca t) s) (\<lambda>(v, s).
         declare_name (vd_id d) v s))"

fun visit_var_decls :: "var_decl list \<Rightarrow> cg \<Rightarrow> cg res" where
  "visit_var_decls [] s = Inr s"
| "visit_var_decls (d # ds) s = bnd (visit_var_decl d s) (visit_var_decls ds)"

section \<open>Statements\<close>

text \<open>A branch to the block where the control flow continues, unless the block has ended.\<close>

definition br_if_open :: "nat \<Rightarrow> cg \<Rightarrow> cg res" where
  "br_if_open b s =
     bnd (terminated s) (\<lambda>t. if t then Inr s else discard (build (create_br b) s))"

definition compound_enter :: "cg \<Rightarrow> bool \<times> cg" where
  "compound_enter s =
     (if pre_enter_scope s then (False, s\<lparr>pre_enter_scope := False\<rparr>)
      else (True, s\<lparr>scope := enter (scope s)\<rparr>))"

definition exit_scope :: "cg \<Rightarrow> cg res" where
  "exit_scope s = bnd (exit (scope s)) (\<lambda>sc. Inr (s\<lparr>scope := sc\<rparr>))"

definition compound_exit :: "bool \<Rightarrow> cg \<Rightarrow> cg res" where
  "compound_exit need s = (if need then exit_scope s else Inr s)"

text \<open>\<open>visit(ASTReturnStmt)\<close> after the expression: conversion to the function's type.\<close>

definition return_value :: "ty \<Rightarrow> cg \<Rightarrow> cg res" where
  "return_value rt s =
     bnd (get_type s (tmp_val s)) (\<lambda>t.
     bnd (if rt \<noteq> t
          then if is_integer_type rt then to_tmp (build (create_fptosi (tmp_val s) INT32_T) s)
               else to_tmp (build (create_sitofp (tmp_val s) FloatTy) s)
          else Inr s) (\<lambda>s.
     discard (build (create_ret (tmp_val s)) s)))"

definition return_type :: "cg \<Rightarrow> ty res" where
  "return_type s =
     bnd (deref (cur_fun s)) (\<lambda>f. bnd (get_type s (VFun f)) (\<lambda>t. fun_result t))"

function (sequential)
  visit_statement :: "statement \<Rightarrow> cg \<Rightarrow> cg res" and
  visit_statements :: "statement list \<Rightarrow> cg \<Rightarrow> cg res"
where
  "visit_statement (Compound ds ss) s =
     (let (need_exit, s) = compound_enter s
      in bnd (visit_var_decls ds s) (\<lambda>s.
         bnd (visit_statements ss s) (compound_exit need_exit)))"
| "visit_statement (ExprStmt None) s = Inr s"
| "visit_statement (ExprStmt (Some e)) s = visit_expression e s"
| "visit_statement (Selection e st None) s =
     bnd (visit_expression e s) (\<lambda>s.
     let ret_val = tmp_val s
     in bnd (new_block '''' s) (\<lambda>(true_bb, s).
        bnd (new_block '''' s) (\<lambda>(cont_bb, s).
        bnd (condition ret_val s) (\<lambda>(cond_val, s).
        bnd (discard (build (create_cond_br cond_val true_bb cont_bb) s)) (\<lambda>s.
        bnd (visit_statement st (set_insert_point true_bb s)) (\<lambda>s.
        bnd (br_if_open cont_bb s) (\<lambda>s.
        Inr (set_insert_point cont_bb s))))))))"
| "visit_statement (Selection e st (Some el)) s =
     bnd (visit_expression e s) (\<lambda>s.
     let ret_val = tmp_val s
     in bnd (new_block '''' s) (\<lambda>(true_bb, s).
        bnd (new_block '''' s) (\<lambda>(cont_bb, s).
        bnd (condition ret_val s) (\<lambda>(cond_val, s).
        bnd (new_block '''' s) (\<lambda>(false_bb, s).
        bnd (discard (build (create_cond_br cond_val true_bb false_bb) s)) (\<lambda>s.
        bnd (visit_statement st (set_insert_point true_bb s)) (\<lambda>s.
        bnd (br_if_open cont_bb s) (\<lambda>s.
        bnd (visit_statement el (set_insert_point false_bb s)) (\<lambda>s.
        bnd (br_if_open cont_bb s) (\<lambda>s.
        Inr (set_insert_point cont_bb s)))))))))))"
| "visit_statement (Iteration e st) s =
     bnd (new_block '''' s) (\<lambda>(expr_bb, s).
     bnd (br_if_open expr_bb s) (\<lambda>s.
     bnd (visit_expression e (set_insert_point expr_bb s)) (\<lambda>s.
     let ret_val = tmp_val s
     in bnd (new_block '''' s) (\<lambda>(true_bb, s).
        bnd (new_block '''' s) (\<lambda>(cont_bb, s).
        bnd (condition ret_val s) (\<lambda>(cond_val, s).
        bnd (discard (build (create_cond_br cond_val true_bb cont_bb) s)) (\<lambda>s.
        bnd (visit_statement st (set_insert_point true_bb s)) (\<lambda>s.
        bnd (br_if_open expr_bb s) (\<lambda>s.
        Inr (set_insert_point cont_bb s))))))))))"
| "visit_statement (Return None) s = discard (build create_void_ret s)"
| "visit_statement (Return (Some e)) s =
     bnd (return_type s) (\<lambda>rt.
     bnd (visit_expression e s) (return_value rt))"
| "visit_statements [] s = Inr s"
| "visit_statements (st # ss) s =
     bnd (visit_statement st s) (\<lambda>s.
     bnd (terminated s) (\<lambda>t. if t then Inr s else visit_statements ss s))"
  by pat_completeness auto
termination
  by (relation "measure (\<lambda>x. case x of
        Inl (st, s) \<Rightarrow> size st
      | Inr (ss, s) \<Rightarrow> size_list size ss)") auto

section \<open>Functions and the program\<close>

fun param_type :: "param \<Rightarrow> ty" where
  "param_type p =
     (if p_type p = TYPE_INT then if p_isarray p then INT32PTR_T else INT32_T
      else if p_isarray p then FLOATPTR_T else FloatTy)"

fun return_ty :: "cminus_type \<Rightarrow> ty" where
  "return_ty TYPE_INT = INT32_T"
| "return_ty TYPE_FLOAT = FloatTy"
| "return_ty TYPE_VOID = VoidTy"

text \<open>The loop over the parameters from number \<open>i\<close> on: a slot for each, the argument stored
  in it, and the name bound to the slot.\<close>

fun visit_params :: "nat \<Rightarrow> nat \<Rightarrow> param list \<Rightarrow> cg \<Rightarrow> cg res" where
  "visit_params f i [] s = Inr s"
| "visit_params f i (p # ps) s =
     bnd (build (create_alloca (param_type p)) s) (\<lambda>(alloc, s).
     bnd (discard (build (create_store (VArg f i) alloc) s)) (\<lambda>s.
     bnd (declare_name (p_id p) alloc s) (visit_params f (Suc i) ps)))"

definition visit_fun_decl :: "fun_decl \<Rightarrow> cg \<Rightarrow> cg res" where
  "visit_fun_decl d s =
     bnd (Function_create (FunTy (return_ty (fd_type d)) (map param_type (fd_params d))) (fd_id d) s) (\<lambda>(f, s).
     bnd (declare_name (fd_id d) (VFun f) s) (\<lambda>s.
     bnd (BasicBlock_create ''entry'' f (s\<lparr>cur_fun := Some f\<rparr>)) (\<lambda>(fun_bb, s).
     let s = set_insert_point fun_bb s;
         s = s\<lparr>scope := enter (scope s), pre_enter_scope := True\<rparr>
     in bnd (visit_params f 0 (fd_params d) s) (\<lambda>s.
        bnd (visit_statement (Compound (fd_locals d) (fd_body d)) s) (\<lambda>s.
        bnd (terminated s) (\<lambda>t.
        bnd (if t then Inr s else default_return s) exit_scope))))))"

fun visit_decl :: "decl \<Rightarrow> cg \<Rightarrow> cg res" where
  "visit_decl (VarDecl d) s = visit_var_decl d s"
| "visit_decl (FunDecl d) s = visit_fun_decl d s"

fun visit_program :: "program \<Rightarrow> cg \<Rightarrow> cg res" where
  "visit_program [] s = Inr s"
| "visit_program (d # ds) s = bnd (visit_decl d s) (visit_program ds)"

section \<open>The constructor: the library functions\<close>

definition empty_cg :: cg where
  "empty_cg = ir.extend (const_state.extend no_consts
      \<lparr>next_id = 0, instrs = (\<lambda>_. None), blocks = (\<lambda>_. None), funs = (\<lambda>_. None), gvars = (\<lambda>_. None),
       global_list = [], function_list = []\<rparr>)
      \<lparr>insert_bb = None, scope = [], tmp_val = VNull, require_lvalue = False, cur_fun = None,
       pre_enter_scope = False\<rparr>"

definition library :: "(string \<times> ty) list" where
  "library = [(''input'', FunTy INT32_T []), (''output'', FunTy VoidTy [INT32_T]),
     (''outputFloat'', FunTy VoidTy [FloatTy]), (''neg_idx_except'', FunTy VoidTy [])]"

fun create_library :: "(string \<times> ty) list \<Rightarrow> cg \<Rightarrow> ((string \<times> val) list \<times> cg) res" where
  "create_library [] s = Inr ([], s)"
| "create_library ((n, t) # fs) s =
     bnd (Function_create t n s) (\<lambda>(f, s).
     bnd (create_library fs s) (\<lambda>(vs, s). Inr ((n, VFun f) # vs, s)))"

fun declare_names :: "(string \<times> val) list \<Rightarrow> cg \<Rightarrow> cg res" where
  "declare_names [] s = Inr s"
| "declare_names ((n, v) # vs) s = bnd (declare_name n v s) (declare_names vs)"

definition init_builder :: "cg res" where
  "init_builder =
     bnd (create_library library empty_cg) (\<lambda>(vs, s).
     declare_names vs (s\<lparr>scope := enter (scope s)\<rparr>))"

text \<open>The constructor, then the visit of the root (\<open>cminusfc.cpp\<close>).\<close>

definition generate :: "program \<Rightarrow> cg res" where
  "generate p = bnd init_builder (visit_program p)"

end
