(* ===== verification/Builder_Effects.thy ===== *)
theory Builder_Effects
  imports Codegen
begin

text \<open>
  What the steps of the code generator do to the module, in two layers. First every \<open>IRBuilder\<close>
  call is reduced to the constructor \<open>mk_instr\<close> or to a branch. Then the locale
  \<open>expression_effect\<close> states the interface between the visitor and the builder: a preorder on
  states that holds of each elementary step holds of the visit of any expression. It is
  interpreted for the control flow discipline here, and for the frame of the visitor.
\<close>

section \<open>The builder's calls as constructors\<close>

definition emits :: "cg \<Rightarrow> cg \<Rightarrow> bool" where
  "emits s s' \<longleftrightarrow> (\<exists>b t opc d vs v. insert_bb s = Some b \<and> \<not> is_terminator_op opc \<and>
     mk_instr t opc d vs b s = Inr (v, s'))"

lemma build_Inr: "build f s = Inr r \<longleftrightarrow> (\<exists>b. insert_bb s = Some b \<and> f b s = Inr r)"
  by (auto simp: build_def bnd_eq_Inr_iff)

lemma to_tmp_Inr: "to_tmp r = Inr s' \<longleftrightarrow> (\<exists>v s. r = Inr (v, s) \<and> s' = s\<lparr>tmp_val := v\<rparr>)"
  by (auto simp: to_tmp_def bnd_eq_Inr_iff)

lemma discard_Inr: "discard r = Inr s' \<longleftrightarrow> (\<exists>v. r = Inr (v, s'))"
  by (auto simp: discard_def bnd_eq_Inr_iff)

named_theorems emits_intros

lemma mk_instr_emits:
  "insert_bb s = Some b \<Longrightarrow> mk_instr t opc d vs b s = Inr (v, s') \<Longrightarrow> \<not> is_terminator_op opc \<Longrightarrow> emits s s'"
  unfolding emits_def by blast

lemma build_emits [emits_intros]:
  "build (create_binary opc l r) s = Inr (v, s') \<Longrightarrow> \<not> is_terminator_op opc \<Longrightarrow> emits s s'"
  "build (create_cmp c l r) s = Inr (v, s') \<Longrightarrow> emits s s'"
  "build (create_fcmp c l r) s = Inr (v, s') \<Longrightarrow> emits s s'"
  "build (create_zext w t) s = Inr (v, s') \<Longrightarrow> emits s s'"
  "build (create_fptosi w t) s = Inr (v, s') \<Longrightarrow> emits s s'"
  "build (create_sitofp w t) s = Inr (v, s') \<Longrightarrow> emits s s'"
  "build (create_store w ptr) s = Inr (v, s') \<Longrightarrow> emits s s'"
  "build (create_alloca t) s = Inr (v, s') \<Longrightarrow> emits s s'"
  by (auto simp: build_Inr create_binary_def create_cmp_def create_fcmp_def create_zext_def
      create_fptosi_def create_sitofp_def create_store_def create_alloca_def intro: mk_instr_emits)

lemma build_emits2 [emits_intros]:
  "build (create_load ptr) s = Inr (v, s') \<Longrightarrow> emits s s'"
  "build (create_gep ptr idxs) s = Inr (v, s') \<Longrightarrow> emits s s'"
  "build (create_call fn args) s = Inr (v, s') \<Longrightarrow> emits s s'"
  subgoal
    by (auto simp: build_Inr create_load_def split: ty.splits) (erule (1) mk_instr_emits, simp)
  subgoal by (auto simp: build_Inr create_gep_def elim!: mk_instr_emits)
  subgoal by (cases fn) (auto simp: build_Inr create_call_def elim!: mk_instr_emits)
  done

section \<open>The literals of a program\<close>

text \<open>All float literals of a piece of syntax satisfy \<open>P\<close>.\<close>

fun lit_expression :: "(float32 \<Rightarrow> bool) \<Rightarrow> expression \<Rightarrow> bool" and
  lit_var :: "(float32 \<Rightarrow> bool) \<Rightarrow> avar \<Rightarrow> bool" and
  lit_additive :: "(float32 \<Rightarrow> bool) \<Rightarrow> additive \<Rightarrow> bool" and
  lit_term :: "(float32 \<Rightarrow> bool) \<Rightarrow> aterm \<Rightarrow> bool" and
  lit_factor :: "(float32 \<Rightarrow> bool) \<Rightarrow> factor \<Rightarrow> bool" and
  lit_args :: "(float32 \<Rightarrow> bool) \<Rightarrow> expression list \<Rightarrow> bool"
where
  "lit_expression P (AssignE v e) = (lit_var P v \<and> lit_expression P e)"
| "lit_expression P (SimpleE a) = lit_additive P a"
| "lit_expression P (RelE l op r) = (lit_additive P l \<and> lit_additive P r)"
| "lit_var P (Var n) = True"
| "lit_var P (VarIndex n e) = lit_expression P e"
| "lit_additive P (AddTerm t) = lit_term P t"
| "lit_additive P (AddBin a op t) = (lit_additive P a \<and> lit_term P t)"
| "lit_term P (TermFactor f) = lit_factor P f"
| "lit_term P (TermBin t op f) = (lit_term P t \<and> lit_factor P f)"
| "lit_factor P (FExpr e) = lit_expression P e"
| "lit_factor P (FVar v) = lit_var P v"
| "lit_factor P (FCall n es) = lit_args P es"
| "lit_factor P (FNum n) = (case n of NumInt i \<Rightarrow> True | NumFloat v \<Rightarrow> P v)"
| "lit_args P [] = True"
| "lit_args P (e # es) = (lit_expression P e \<and> lit_args P es)"

lemma lit_True [simp]:
  "lit_expression (\<lambda>_. True) e" "lit_var (\<lambda>_. True) v" "lit_additive (\<lambda>_. True) a"
  "lit_term (\<lambda>_. True) t" "lit_factor (\<lambda>_. True) f" "lit_args (\<lambda>_. True) es"
proof (induction "\<lambda>_ :: float32. True" e and "\<lambda>_ :: float32. True" v and "\<lambda>_ :: float32. True" a
    and "\<lambda>_ :: float32. True" t and "\<lambda>_ :: float32. True" f and "\<lambda>_ :: float32. True" es
    rule: lit_expression_lit_var_lit_additive_lit_term_lit_factor_lit_args.induct)
  case (13 n)
  then show ?case by (cases n) simp_all
qed simp_all

section \<open>The interface between the visitor and the builder\<close>

text \<open>The steps that leave the flag \<open>require_lvalue\<close> alone, for programs whose literals satisfy
  \<open>lit\<close>.\<close>

locale builder_effect =
  fixes R :: "cg \<Rightarrow> cg \<Rightarrow> bool" and lit :: "float32 \<Rightarrow> bool"
  assumes refl: "R s s"
    and trans: "R s s1 \<Longrightarrow> R s1 s2 \<Longrightarrow> R s s2"
    and tmp: "R s (s\<lparr>tmp_val := v\<rparr>)"
    and zero: "lit 0"
    and fp: "lit x \<Longrightarrow> ConstantFP_get x s = (c, s') \<Longrightarrow> R s s'"
    and emit: "emits s s' \<Longrightarrow> R s s'"
    and check: "index_check v s = Inr (i, s') \<Longrightarrow> R s s'"
begin

lemma const_fp: "lit x \<Longrightarrow> const_fp x s = (c, s') \<Longrightarrow> R s s'"
  by (auto simp: const_fp_def split: prod.splits intro: fp)

lemma emit_tmp: "emits s s1 \<Longrightarrow> R s (s1\<lparr>tmp_val := v\<rparr>)"
  using emit tmp trans by blast

lemma promote: "promote l r s = Inr (i, l', r', s') \<Longrightarrow> R s s'"
  by (auto simp: promote_def refl split: if_splits) (blast intro: emit emits_intros)+

lemma arith:
  assumes "arith iop fop l r s = Inr s'" and "\<not> is_terminator_op iop" and "\<not> is_terminator_op fop"
  shows "R s s'"
proof -
  obtain i l' r' s1 v s2 where p: "promote l r s = Inr (i, l', r', s1)"
    "build (create_binary (if i then iop else fop) l' r') s1 = Inr (v, s2)" "s' = s2\<lparr>tmp_val := v\<rparr>"
    using assms(1) by (auto simp: arith_def to_tmp_Inr)
  have "emits s1 s2"
    using p(2) assms(2,3) by (cases i; simp) (blast intro: emits_intros)+
  with p(3) have "R s1 s'"
    by (simp add: emit_tmp)
  with promote [OF p(1)] show ?thesis
    by (rule trans)
qed

lemma compare:
  assumes "compare op l r s = Inr s'"
  shows "R s s'"
proof -
  obtain i l' r' s1 c s2 v s3 where p: "promote l r s = Inr (i, l', r', s1)"
    "(if i then build (create_cmp (cmp_of op) l' r') s1 else build (create_fcmp (cmp_of op) l' r') s1) = Inr (c, s2)"
    "build (create_zext c INT32_T) s2 = Inr (v, s3)" "s' = s3\<lparr>tmp_val := v\<rparr>"
    using assms by (auto simp: compare_def to_tmp_Inr)
  have "emits s1 s2" "emits s2 s3"
    using p(2,3) by (cases i; simp; blast intro: emits_intros)+
  then have "R s1 s2" "R s2 s'"
    using p(4) by (simp_all add: emit emit_tmp)
  with promote [OF p(1)] show ?thesis
    using trans by blast
qed

lemma condition: "condition v s = Inr (c, s') \<Longrightarrow> R s s'"
  by (auto simp: condition_def split: if_splits prod.splits)
    (blast intro: emit emits_intros trans [OF const_fp [OF zero] emit])+

lemma num: "visit_num n s = Inr s' \<Longrightarrow> lit_factor lit (FNum n) \<Longrightarrow> R s s'"
  by (auto simp: visit_num_def tmp split: num.splits prod.splits intro: trans [OF const_fp tmp])

lemma var_value: "var_value v et lval s = Inr s' \<Longrightarrow> R s s'"
  by (auto simp: var_value_def to_tmp_Inr tmp split: if_splits) (blast intro: emit_tmp emits_intros)+

lemma element_access:
  assumes "element_access v et lval i s = Inr s'"
  shows "R s s'"
proof -
  obtain p s1 where p: "(if is_scalar et then build (create_gep v [i]) s
      else if is_pointer_type et
      then bnd (build (create_load v) s) (\<lambda>(a, s). build (create_gep a [i]) s)
      else build (create_gep v [const_int 0, i]) s) = Inr (p, s1)"
    "(if lval then Inr (s1\<lparr>tmp_val := p\<rparr>) else to_tmp (build (create_load p) s1)) = Inr s'"
    using assms by (auto simp: element_access_def)
  from p(1) have "R s s1"
    by (auto split: if_splits) (blast intro: emit emits_intros trans [OF emit emit])+
  moreover from p(2) have "R s1 s'"
    by (auto simp: to_tmp_Inr tmp split: if_splits) (blast intro: emit_tmp emits_intros)
  ultimately show ?thesis
    by (rule trans)
qed

lemma assign:
  assumes "assign v addr s = Inr s'"
  shows "R s s'"
proof -
  obtain at vt v' s1 w s2 where p: "(if get_pointer_element_type at \<noteq> Some vt
      then if vt = INT32_T then build (create_sitofp v FloatTy) s else build (create_fptosi v INT32_T) s
      else Inr (v, s)) = Inr (v', s1)" "build (create_store v' addr) s1 = Inr (w, s2)"
      "s' = s2\<lparr>tmp_val := v'\<rparr>"
    using assms by (auto simp: assign_def discard_Inr)
  from p(1) have "R s s1"
    by (auto simp: refl split: if_splits) (blast intro: emit emits_intros)+
  moreover from p(2,3) have "R s1 s'"
    by (blast intro: emit_tmp emits_intros)
  ultimately show ?thesis
    by (rule trans)
qed

lemma convert_arg: "convert_arg ps s = Inr s' \<Longrightarrow> R s s'"
  by (auto simp: convert_arg_def to_tmp_Inr refl split: if_splits list.splits)
    (blast intro: emit_tmp emits_intros)+

lemma opids [simp]:
  "\<not> is_terminator_op (int_add a)" "\<not> is_terminator_op (float_add a)"
  "\<not> is_terminator_op (int_mul m)" "\<not> is_terminator_op (float_mul m)"
  by (cases a; simp; fail)+ (cases m; simp; fail)+

lemma trans3: "R s s1 \<Longrightarrow> R s1 s2 \<Longrightarrow> R s2 s3 \<Longrightarrow> R s s3"
  by (blast intro: trans)

end

text \<open>The visits of expressions also set and clear the flag.\<close>

locale expression_effect = builder_effect +
  assumes flag: "R s (s\<lparr>require_lvalue := r\<rparr>)"
begin

lemma lookup_var: "lookup_var n s = Inr (v, et, lval, s') \<Longrightarrow> R s s'"
  by (auto simp: lookup_var_def Let_def flag)

lemma visits_lit:
  "visit_expression e s = Inr s1 \<Longrightarrow> lit_expression lit e \<Longrightarrow> R s s1"
  "visit_var v s = Inr s2 \<Longrightarrow> lit_var lit v \<Longrightarrow> R s s2"
  "visit_additive a s = Inr s3 \<Longrightarrow> lit_additive lit a \<Longrightarrow> R s s3"
  "visit_term t s = Inr s4 \<Longrightarrow> lit_term lit t \<Longrightarrow> R s s4"
  "visit_factor f s = Inr s5 \<Longrightarrow> lit_factor lit f \<Longrightarrow> R s s5"
  "visit_args es ps s = Inr (vs, s6) \<Longrightarrow> lit_args lit es \<Longrightarrow> R s s6"
proof (induction e s and v s and a s and t s and f s and es ps s arbitrary: s1 and s2 and s3 and s4 and s5 and vs s6
    rule: visit_expression_visit_var_visit_additive_visit_term_visit_factor_visit_args.induct)
  case (1 v e s)
  then obtain sa sb where p: "visit_expression e s = Inr sa"
    "visit_var v (sa\<lparr>require_lvalue := True\<rparr>) = Inr sb" "assign (tmp_val sa) (tmp_val sb) sb = Inr s1"
    by (auto simp: Let_def)
  have "R s sa" "R (sa\<lparr>require_lvalue := True\<rparr>) sb"
    using 1(1) [OF p(1)] 1(2) [OF p(1) HOL.refl p(2)] 1(4) by simp_all
  then show ?case
    using trans3 [OF _ trans [OF flag] assign [OF p(3)]] by blast
next
  case (3 l op r s)
  then obtain sa sb where p: "visit_additive l s = Inr sa" "visit_additive r sa = Inr sb"
    "compare op (tmp_val sa) (tmp_val sb) sb = Inr s1"
    by (auto simp: Let_def)
  show ?case
    using 3(4) by (intro trans3 [OF 3(1) [OF p(1)] 3(2) [OF p(1) HOL.refl p(2)] compare [OF p(3)]]) simp_all
next
  case (4 n s)
  then obtain v et lval sa where "lookup_var n s = Inr (v, et, lval, sa)" "var_value v et lval sa = Inr s2"
    by auto
  then show ?case
    by (rule trans [OF lookup_var var_value])
next
  case (5 n e s)
  then obtain v et lval sa sb i sc where p: "lookup_var n s = Inr (v, et, lval, sa)"
    "visit_expression e sa = Inr sb" "index_check (tmp_val sb) sb = Inr (i, sc)"
    "element_access v et lval i sc = Inr s2"
    by auto
  have "R sa sb"
    using 5(1) 5(3) p by simp
  from trans [OF lookup_var [OF p(1)] trans3 [OF this check [OF p(3)] element_access [OF p(4)]]]
  show ?case .
next
  case (7 a op t s)
  then obtain sa sb where p: "visit_additive a s = Inr sa" "visit_term t sa = Inr sb"
    "arith (int_add op) (float_add op) (tmp_val sa) (tmp_val sb) sb = Inr s3"
    by (auto simp: Let_def)
  show ?case
    using 7(4) by (intro trans3 [OF 7(1) [OF p(1)] 7(2) [OF p(1) HOL.refl p(2)] arith [OF p(3)]]) simp_all
next
  case (9 t op f s)
  then obtain sa sb where p: "visit_term t s = Inr sa" "visit_factor f sa = Inr sb"
    "arith (int_mul op) (float_mul op) (tmp_val sa) (tmp_val sb) sb = Inr s4"
    by (auto simp: Let_def)
  show ?case
    using 9(4) by (intro trans3 [OF 9(1) [OF p(1)] 9(2) [OF p(1) HOL.refl p(2)] arith [OF p(3)]]) simp_all
next
  case (12 n args s)
  then obtain fn ps vs sa v sb where p: "lookup_fun n s = Inr (fn, ps)" "visit_args args ps s = Inr (vs, sa)"
    "build (create_call fn vs) sa = Inr (v, sb)" "s5 = sb\<lparr>tmp_val := v\<rparr>"
    by (auto simp: to_tmp_Inr)
  have "R s sa"
    using 12(1) 12(3) p by simp
  moreover have "R sa s5"
    using p(3,4) by (blast intro: emit_tmp emits_intros)
  ultimately show ?case
    by (rule trans)
next
  case (15 e es ps s)
  then obtain sa sb ws where p: "visit_expression e s = Inr sa" "convert_arg ps sa = Inr sb"
    "visit_args es (tl ps) sb = Inr (ws, s6)"
    by auto
  have "R s sa" "R sb s6"
    using 15(1,2) 15(4) p by simp_all
  then show ?case
    using trans3 [OF _ convert_arg [OF p(2)]] by blast
qed (simp_all add: refl num)

end

text \<open>Effects of any literal.\<close>

locale any_literal = expression_effect R "\<lambda>_. True" for R
begin

lemmas visits = visits_lit(1) [OF _ lit_True(1)] visits_lit(2) [OF _ lit_True(2)]

end

end
