(* ===== verification/Codegen_Blocks.thy ===== *)
theory Codegen_Blocks
  imports Builder_Effects
begin

text \<open>
  The control flow that the code generator builds. The invariant of the whole traversal: the
  module is well formed, and apart from the block at the insertion point no block is left open
  that was not open before. An expression ends in an open block, a statement may close it.
\<close>

section \<open>Where the traversal stands\<close>

text \<open>\<open>on_open r B s\<close>: the module extends \<open>r\<close>, the insertion point is an open block and the
  other open blocks are those of \<open>B\<close>; \<open>on_block\<close>: the block at the insertion point may be
  closed; \<open>off_block\<close>: only the blocks of \<open>B\<close> are open.\<close>

definition on_open :: "cg \<Rightarrow> nat set \<Rightarrow> cg \<Rightarrow> bool" where
  "on_open r B s \<longleftrightarrow> ir_ok s \<and> kept r s \<and> (\<exists>b. insert_bb s = Some b \<and> b \<notin> B \<and> opens s = insert b B)"

definition on_block :: "cg \<Rightarrow> nat set \<Rightarrow> cg \<Rightarrow> bool" where
  "on_block r B s \<longleftrightarrow> ir_ok s \<and> kept r s \<and> (\<exists>b. insert_bb s = Some b \<and> opens s - {b} = B)"

definition off_block :: "cg \<Rightarrow> nat set \<Rightarrow> cg \<Rightarrow> bool" where
  "off_block r B s \<longleftrightarrow> ir_ok s \<and> kept r s \<and> (\<exists>b. insert_bb s = Some b) \<and> opens s = B"

lemma on_open_block: "on_open r B s \<Longrightarrow> on_block r B s"
  by (auto simp: on_open_def on_block_def)

lemma cg_more:
  fixes s :: cg
  assumes "ir.more s' = ir.more s"
  shows "insert_bb s' = insert_bb s" "scope s' = scope s" "tmp_val s' = tmp_val s"
    "require_lvalue s' = require_lvalue s" "cur_fun s' = cur_fun s"
    "pre_enter_scope s' = pre_enter_scope s"
  using assms by (cases s; cases s'; simp)+

text \<open>Changes of the visitor's own variables.\<close>

lemma same_ir_ok:
  assumes "ir.truncate s' = ir.truncate s"
  shows "ir_ok s' = ir_ok s" "opens s' = opens s" "kept r s' = kept r s" "kept s' = kept s"
proof -
  have e: "operands s' = operands s" "num_ops s' = num_ops s" "use_list s' = use_list s"
    "next_id s' = next_id s" "instrs s' = instrs s" "blocks s' = blocks s"
    "funs s' = funs s" "gvars s' = gvars s"
    using assms by (simp_all add: ir.truncate_def)
  have v: "owner s' = owner s" "ilist s' = ilist s" "fblocks s' = fblocks s" "preds s' = preds s"
    "succs s' = succs s" "op_of s' = op_of s" "f_types s' = f_types s"
    by (simp_all add: fun_eq_iff view_defs f_types_def e)
  have t: "is_term s' = is_term s" "br_targets s' = br_targets s"
    by (simp_all add: fun_eq_iff is_term_def br_targets_def e v)
  have u: "use_def_ok s' = use_def_ok s"
    by (rule use_def_ok_cong) (simp_all add: e)
  show "ir_ok s' = ir_ok s"
    by (simp add: ir_ok_def u heap_ok_def fresh_ok_def body_ok_def cfg_ok_def e v t)
  show "opens s' = opens s"
    by (simp add: set_eq_iff opens_view v t)
  show "kept r s' = kept r s" "kept s' = kept s"
    by (simp_all add: fun_eq_iff kept_def e v)
qed

lemma cg_upd_ir_ok [simp]:
  fixes s :: cg
  shows "ir_ok (s\<lparr>tmp_val := v1\<rparr>) = ir_ok s"
    "ir_ok (s\<lparr>require_lvalue := v2\<rparr>) = ir_ok s"
    "ir_ok (s\<lparr>insert_bb := v3\<rparr>) = ir_ok s"
    "ir_ok (s\<lparr>scope := v4\<rparr>) = ir_ok s"
    "ir_ok (s\<lparr>cur_fun := v5\<rparr>) = ir_ok s"
    "ir_ok (s\<lparr>pre_enter_scope := v6\<rparr>) = ir_ok s"
  by (rule same_ir_ok, simp add: ir.truncate_def)+

lemma cg_upd_opens [simp]:
  fixes s :: cg
  shows "opens (s\<lparr>tmp_val := v1\<rparr>) = opens s"
    "opens (s\<lparr>require_lvalue := v2\<rparr>) = opens s"
    "opens (s\<lparr>insert_bb := v3\<rparr>) = opens s"
    "opens (s\<lparr>scope := v4\<rparr>) = opens s"
    "opens (s\<lparr>cur_fun := v5\<rparr>) = opens s"
    "opens (s\<lparr>pre_enter_scope := v6\<rparr>) = opens s"
  by (rule same_ir_ok, simp add: ir.truncate_def)+

lemma cg_upd_kept_r [simp]:
  fixes s :: cg
  shows "kept r (s\<lparr>tmp_val := v1\<rparr>) = kept r s"
    "kept r (s\<lparr>require_lvalue := v2\<rparr>) = kept r s"
    "kept r (s\<lparr>insert_bb := v3\<rparr>) = kept r s"
    "kept r (s\<lparr>scope := v4\<rparr>) = kept r s"
    "kept r (s\<lparr>cur_fun := v5\<rparr>) = kept r s"
    "kept r (s\<lparr>pre_enter_scope := v6\<rparr>) = kept r s"
  by (rule same_ir_ok, simp add: ir.truncate_def)+

lemma cg_upd_kept_l [simp]:
  fixes s :: cg
  shows "kept (s\<lparr>tmp_val := v1\<rparr>) = kept s"
    "kept (s\<lparr>require_lvalue := v2\<rparr>) = kept s"
    "kept (s\<lparr>insert_bb := v3\<rparr>) = kept s"
    "kept (s\<lparr>scope := v4\<rparr>) = kept s"
    "kept (s\<lparr>cur_fun := v5\<rparr>) = kept s"
    "kept (s\<lparr>pre_enter_scope := v6\<rparr>) = kept s"
  by (rule same_ir_ok, simp add: ir.truncate_def)+

section \<open>The triples of the builder's steps\<close>

lemma emits_on_open:
  assumes "on_open r B s" and "emits s s'"
  shows "on_open r B s'"
proof -
  obtain b t opc d vs v where e: "insert_bb s = Some b" "\<not> is_terminator_op opc"
    "mk_instr t opc d vs b s = Inr (v, s')"
    using assms(2) by (auto simp: emits_def)
  have b: "ir_ok s" "kept r s" "b \<in> opens s" "b \<notin> B" "opens s = insert b B"
    using assms(1) e(1) by (auto simp: on_open_def)
  have "opc \<noteq> Br" using e(2) by auto
  from mk_instr_ok [OF b(1,3) this e(3)] e(2) have "ir_ok s'" "opens s' = opens s"
    by simp_all
  moreover have "kept r s'"
    using kept_trans [OF b(2) mk_instr_kept [OF _ e(3)]] b(1) heap_okD(1) ir_okD(2) by blast
  ultimately show ?thesis
    using b(4,5) e(1) cg_more(1) [OF mk_instr_view(17) [OF e(3)]] by (auto simp: on_open_def)
qed

lemma emits_frame:
  "emits s s' \<Longrightarrow> insert_bb s' = insert_bb s \<and> scope s' = scope s \<and> cur_fun s' = cur_fun s \<and>
     pre_enter_scope s' = pre_enter_scope s \<and> require_lvalue s' = require_lvalue s"
  unfolding emits_def by (elim exE conjE) (simp add: cg_more [OF mk_instr_view(17)])

lemma fp_on_open:
  assumes "on_open r B s" and "ConstantFP_get v s = (c, s')"
  shows "on_open r B s'"
  using assms ConstantFP_get_ok [OF _ assms(2)] ConstantFP_get_kept [OF assms(2)] kept_trans
    cg_more(1) [OF ConstantFP_get_kept(2) [OF assms(2)]]
  by (auto simp: on_open_def)

lemma new_block_on_open:
  assumes "on_open r B s" and "new_block name s = Inr (c, s')"
  shows "on_open r (insert c B) s'" "c \<notin> B" "insert_bb s' = insert_bb s"
proof -
  obtain f where f: "BasicBlock_create name f s = Inr (c, s')"
    using assms(2) by (auto simp: new_block_def)
  obtain b where b: "insert_bb s = Some b" "b \<notin> B" "opens s = insert b B" and ok: "ir_ok s" "kept r s"
    using assms(1) by (auto simp: on_open_def)
  have c: "c \<notin> opens s"
    using BasicBlock_create_ok [OF ok(1) f] by (auto simp: opens_view)
  have more: "ir.more s' = ir.more s"
    using f by (auto simp: BasicBlock_create_def Let_def)
  show "c \<notin> B" "insert_bb s' = insert_bb s"
    using c b cg_more(1) [OF more] by auto
  have "kept r s'"
    using kept_trans [OF ok(2) BasicBlock_create_kept [OF _ f]] heap_okD(1) ir_okD(2) [OF ok(1)] by blast
  with BasicBlock_create_ok [OF ok(1) f] b c show "on_open r (insert c B) s'"
    by (auto simp: on_open_def cg_more(1) [OF more])
qed

lemma new_block_frame:
  "new_block name s = Inr (c, s') \<Longrightarrow> insert_bb s' = insert_bb s \<and> scope s' = scope s \<and> cur_fun s' = cur_fun s \<and>
     pre_enter_scope s' = pre_enter_scope s \<and> require_lvalue s' = require_lvalue s"
  by (auto simp: new_block_def BasicBlock_create_def Let_def)

lemma branch_off_block:
  assumes open_s: "on_open r B s"
    and step: "\<And>b. insert_bb s = Some b \<Longrightarrow> b \<in> opens s \<Longrightarrow>
      ir_ok s' \<and> opens s' = opens s - {b} \<and> kept s s' \<and> ir.more s' = ir.more s"
  shows "off_block r B s'"
proof -
  obtain b where b: "insert_bb s = Some b" "b \<notin> B" "opens s = insert b B" and r: "kept r s"
    using open_s by (auto simp: on_open_def)
  then have "ir_ok s' \<and> opens s' = opens s - {b} \<and> kept s s' \<and> ir.more s' = ir.more s"
    using step by blast
  with b kept_trans [OF r] cg_more(1) [of s' s] show ?thesis
    by (simp add: off_block_def)
qed

lemma create_br_more: "create_br t b s = Inr (v, s') \<Longrightarrow> ir.more s' = ir.more s"
  by (erule create_br_Inr) (simp add: mk_instr_view(17) same_code_def)

lemma create_cond_br_more:
  assumes "create_cond_br c t f b s = Inr (v, s')"
  shows "ir.more s' = ir.more s"
  using assms
  by (auto simp: create_cond_br_def add_pre_basic_block_def add_succ_basic_block_def modify_block_Inr
      dest!: mk_instr_view(17))

lemma br_off_block:
  assumes "on_open r B s" and "discard (build (create_br t) s) = Inr s'"
  shows "off_block r B s'"
  using assms(1)
proof (rule branch_off_block)
  fix b assume b: "insert_bb s = Some b" "b \<in> opens s"
  then obtain v where v: "create_br t b s = Inr (v, s')"
    using assms(2) by (auto simp: discard_Inr build_Inr)
  have ok: "ir_ok s" using assms(1) by (simp add: on_open_def)
  show "ir_ok s' \<and> opens s' = opens s - {b} \<and> kept s s' \<and> ir.more s' = ir.more s"
    using create_br_ok [OF ok b(2) v] create_br_kept [OF ir_okD(2) [OF ok] v] create_br_more [OF v] by blast
qed

lemma cond_br_off_block:
  assumes "on_open r B s" and "discard (build (create_cond_br c t f) s) = Inr s'"
  shows "off_block r B s'"
  using assms(1)
proof (rule branch_off_block)
  fix b assume b: "insert_bb s = Some b" "b \<in> opens s"
  then obtain v where v: "create_cond_br c t f b s = Inr (v, s')"
    using assms(2) by (auto simp: discard_Inr build_Inr)
  have ok: "ir_ok s" using assms(1) by (simp add: on_open_def)
  show "ir_ok s' \<and> opens s' = opens s - {b} \<and> kept s s' \<and> ir.more s' = ir.more s"
    using create_cond_br_ok [OF ok b(2) v] create_cond_br_kept [OF ir_okD(2) [OF ok] v]
      create_cond_br_more [OF v] by blast
qed

lemma ret_off_block:
  assumes "on_open r B s" and "discard (build (mk_instr VoidTy Ret d vs) s) = Inr s'"
  shows "off_block r B s'"
  using assms(1)
proof (rule branch_off_block)
  fix b assume b: "insert_bb s = Some b" "b \<in> opens s"
  then obtain v where v: "mk_instr VoidTy Ret d vs b s = Inr (v, s')"
    using assms(2) by (auto simp: discard_Inr build_Inr)
  have ok: "ir_ok s" using assms(1) by (simp add: on_open_def)
  show "ir_ok s' \<and> opens s' = opens s - {b} \<and> kept s s' \<and> ir.more s' = ir.more s"
    using mk_instr_ok [OF ok b(2) _ v] mk_instr_kept [OF heap_okD(1) [OF ir_okD(2) [OF ok]] v]
      mk_instr_view(17) [OF v] by simp
qed

lemma default_return_off_block:
  assumes "on_open r B s" and "default_return s = Inr s'"
  shows "off_block r B s'"
proof -
  obtain rt where rt: "(if is_void_type rt then discard (build create_void_ret s)
     else if is_float_type rt then (let (c, s) = const_fp 0 s in discard (build (create_ret c) s))
     else discard (build (create_ret (const_int 0)) s)) = Inr s'"
    using assms(2) by (auto simp: default_return_def)
  consider "discard (build create_void_ret s) = Inr s'"
    | c s1 where "const_fp 0 s = (c, s1)" "discard (build (create_ret c) s1) = Inr s'"
    | "discard (build (create_ret (const_int 0)) s) = Inr s'"
    using rt by (auto split: if_splits prod.splits)
  then show ?thesis
  proof cases
    case 2
    have "on_open r B s1"
      using fp_on_open [OF assms(1)] 2(1) by (auto simp: const_fp_def split: prod.splits)
    then show ?thesis
      using 2(2) unfolding create_ret_def by (rule ret_off_block)
  qed (use ret_off_block [OF assms(1)] in \<open>auto simp: create_ret_def create_void_ret_def\<close>)
qed

lemma insert_point_on_open:
  "off_block r (insert c B) s \<Longrightarrow> c \<notin> B \<Longrightarrow> on_open r B (set_insert_point c s)"
  by (auto simp: off_block_def on_open_def set_insert_point_def)

lemma index_check_Inr:
  assumes "index_check v s = Inr (i, s')"
  obtains e s1 c s2 s3 neg s4 s5 w s6 s7 where "new_block '''' s = Inr (e, s1)" "new_block '''' s1 = Inr (c, s2)"
    "s3 = s2 \<or> emits s2 s3" "build (create_cmp LT i (const_int 0)) s3 = Inr (neg, s4)"
    "discard (build (create_cond_br neg e c) s4) = Inr s5"
    "build (create_call (find (scope (set_insert_point e s5)) ''neg_idx_except'') []) (set_insert_point e s5) = Inr (w, s6)"
    "default_return s6 = Inr s7" "s' = set_insert_point c s7"
proof -
  from assms obtain e s1 c s2 t s3 neg s4 s5 s6 s7 where p: "new_block '''' s = Inr (e, s1)"
    "new_block '''' s1 = Inr (c, s2)"
    "(if is_float_type t then build (create_fptosi v INT32_T) s2 else Inr (v, s2)) = Inr (i, s3)"
    "build (create_cmp LT i (const_int 0)) s3 = Inr (neg, s4)"
    "discard (build (create_cond_br neg e c) s4) = Inr s5"
    "discard (build (create_call (find (scope (set_insert_point e s5)) ''neg_idx_except'') []) (set_insert_point e s5)) = Inr s6"
    "default_return s6 = Inr s7" "s' = set_insert_point c s7"
    by (auto simp: index_check_def Let_def)
  from p(3) have "s3 = s2 \<or> emits s2 s3"
    by (cases "is_float_type t"; simp) (blast intro: emits_intros)
  moreover from p(6) obtain w where
    "build (create_call (find (scope (set_insert_point e s5)) ''neg_idx_except'') []) (set_insert_point e s5) = Inr (w, s6)"
    by (auto simp: discard_Inr)
  ultimately show thesis
    using p that by blast
qed

lemma index_check_on_open:
  assumes "on_open r B s" and "index_check v s = Inr (i, s')"
  shows "on_open r B s'"
  using assms(2)
proof (rule index_check_Inr)
  fix e s1 c s2 s3 neg s4 s5 w s6 s7
  assume p: "new_block '''' s = Inr (e, s1)" "new_block '''' s1 = Inr (c, s2)"
    "s3 = s2 \<or> emits s2 s3" "build (create_cmp LT i (const_int 0)) s3 = Inr (neg, s4)"
    "discard (build (create_cond_br neg e c) s4) = Inr s5"
    "build (create_call (find (scope (set_insert_point e s5)) ''neg_idx_except'') []) (set_insert_point e s5) = Inr (w, s6)"
    "default_return s6 = Inr s7" "s' = set_insert_point c s7"
  note e = new_block_on_open [OF assms(1) p(1)]
  note c = new_block_on_open [OF e(1) p(2)]
  have "on_open r (insert c (insert e B)) s3"
    using p(3) c(1) emits_on_open by blast
  then have "on_open r (insert c (insert e B)) s4"
    using p(4) by (blast intro: emits_on_open emits_intros)
  then have "off_block r (insert c (insert e B)) s5"
    using p(5) by (rule cond_br_off_block)
  then have "on_open r (insert c B) (set_insert_point e s5)"
    using e(2) c(2) by (intro insert_point_on_open) (auto simp: insert_commute)
  then have "on_open r (insert c B) s6"
    using p(6) by (blast intro: emits_on_open emits_intros)
  then have "off_block r (insert c B) s7"
    using p(7) by (rule default_return_off_block)
  then show "on_open r B s'"
    using p(8) c(2) by (auto intro: insert_point_on_open)
qed

text \<open>The control flow discipline of expressions.\<close>

interpretation flow: any_literal "\<lambda>s s'. \<forall>r B. on_open r B s \<longrightarrow> on_open r B s'"
proof
  show "\<forall>r B. on_open r B s \<longrightarrow> on_open r B (s\<lparr>tmp_val := v\<rparr>)" for s v
    by (simp add: on_open_def)
  show "\<forall>r B. on_open r B s \<longrightarrow> on_open r B (s\<lparr>require_lvalue := v\<rparr>)" for s v
    by (simp add: on_open_def)
qed (blast intro: fp_on_open emits_on_open index_check_on_open)+

text \<open>What an expression leaves alone in the visitor. The builder's steps leave the flag of the
  visitor alone as well.\<close>

definition framed :: "cg \<Rightarrow> cg \<Rightarrow> bool" where
  "framed s s' \<longleftrightarrow> scope s' = scope s \<and> cur_fun s' = cur_fun s \<and> pre_enter_scope s' = pre_enter_scope s"

definition steady :: "cg \<Rightarrow> cg \<Rightarrow> bool" where
  "steady s s' \<longleftrightarrow> framed s s' \<and> require_lvalue s' = require_lvalue s"

lemma steady_refl [simp]: "steady s s"
  by (simp add: steady_def framed_def)

lemma framed_refl [simp]: "framed s s"
  by (simp add: framed_def)

lemma framed_trans: "framed s s1 \<Longrightarrow> framed s1 s2 \<Longrightarrow> framed s s2"
  by (simp add: framed_def)

lemma steady_framed: "steady s s' \<Longrightarrow> framed s s'"
  by (simp add: steady_def)

lemma steady_trans: "steady s s1 \<Longrightarrow> steady s1 s2 \<Longrightarrow> steady s s2"
  by (simp add: steady_def framed_def)

lemma emits_steady: "emits s s' \<Longrightarrow> steady s s'"
  using emits_frame by (simp add: steady_def framed_def)

lemma new_block_steady: "new_block n s = Inr (c, s') \<Longrightarrow> steady s s'"
  using new_block_frame by (simp add: steady_def framed_def)

lemma fp_steady: "ConstantFP_get v s = (c, s') \<Longrightarrow> steady s s'"
  using cg_more [OF ConstantFP_get_kept(2)] by (simp add: steady_def framed_def)

lemma insert_point_steady: "steady s (set_insert_point b s)"
  by (simp add: steady_def framed_def set_insert_point_def)

lemma more_steady: "ir.more s' = ir.more s \<Longrightarrow> steady s s'"
  using cg_more [of s' s] by (simp add: steady_def framed_def)

lemma br_steady: "discard (build (create_br t) s) = Inr s' \<Longrightarrow> steady s s'"
  by (auto simp: discard_Inr build_Inr intro: more_steady dest: create_br_more)

lemma cond_br_steady: "discard (build (create_cond_br c t f) s) = Inr s' \<Longrightarrow> steady s s'"
  by (auto simp: discard_Inr build_Inr intro: more_steady dest: create_cond_br_more)

lemma ret_steady: "discard (build (mk_instr VoidTy Ret d vs) s) = Inr s' \<Longrightarrow> steady s s'"
  by (auto simp: discard_Inr build_Inr intro: more_steady dest: mk_instr_view(17))

lemma default_return_steady: "default_return s = Inr s' \<Longrightarrow> steady s s'"
  by (auto simp: default_return_def create_ret_def create_void_ret_def const_fp_def
      split: if_splits prod.splits intro: ret_steady steady_trans [OF fp_steady ret_steady])

lemma index_check_steady:
  assumes "index_check v s = Inr (i, s')"
  shows "steady s s'"
  using assms
proof (rule index_check_Inr)
  fix e s1 c s2 s3 neg s4 s5 w s6 s7
  assume p: "new_block '''' s = Inr (e, s1)" "new_block '''' s1 = Inr (c, s2)"
    "s3 = s2 \<or> emits s2 s3" "build (create_cmp LT i (const_int 0)) s3 = Inr (neg, s4)"
    "discard (build (create_cond_br neg e c) s4) = Inr s5"
    "build (create_call (find (scope (set_insert_point e s5)) ''neg_idx_except'') []) (set_insert_point e s5) = Inr (w, s6)"
    "default_return s6 = Inr s7" "s' = set_insert_point c s7"
  have "emits s3 s4" "emits (set_insert_point e s5) s6"
    using p(4,6) by (blast intro: emits_intros)+
  with p(3) have "steady s2 s3" "steady s3 s4" "steady (set_insert_point e s5) s6"
    by (auto intro: emits_steady)
  then show "steady s s'"
    using new_block_steady [OF p(1)] new_block_steady [OF p(2)] cond_br_steady [OF p(5)]
      default_return_steady [OF p(7)] p(8) by (simp add: steady_def framed_def set_insert_point_def)
qed

lemmas emits_framed = emits_steady [THEN steady_framed]
lemmas new_block_framed = new_block_steady [THEN steady_framed]
lemmas fp_framed = fp_steady [THEN steady_framed]
lemmas more_framed = more_steady [THEN steady_framed]
lemmas br_framed = br_steady [THEN steady_framed]
lemmas cond_br_framed = cond_br_steady [THEN steady_framed]
lemmas ret_framed = ret_steady [THEN steady_framed]
lemmas default_return_framed = default_return_steady [THEN steady_framed]
lemmas index_check_framed = index_check_steady [THEN steady_framed]

interpretation steady: builder_effect steady "\<lambda>_. True"
proof
  show "steady s s1 \<Longrightarrow> steady s1 s2 \<Longrightarrow> steady s s2" for s s1 s2
    by (rule steady_trans)
  show "steady s (s\<lparr>tmp_val := v\<rparr>)" for s v
    by (simp add: steady_def framed_def)
qed (auto intro: fp_steady emits_steady index_check_steady)

interpretation frame: any_literal framed
proof
  show "framed s s1 \<Longrightarrow> framed s1 s2 \<Longrightarrow> framed s s2" for s s1 s2
    by (rule framed_trans)
qed (auto simp: framed_def [of s "s\<lparr>tmp_val := v\<rparr>" for s v] framed_def [of s s for s]
    framed_def [of s "s\<lparr>require_lvalue := v\<rparr>" for s v]
    intro: fp_framed emits_framed index_check_framed)

end
