(* ===== verification/Codegen_Correct.thy ===== *)
theory Codegen_Correct
  imports Codegen_Blocks
begin

text \<open>
  The traversal of declarations, statements, functions and the program: scopes are balanced, the
  visitor's variables are restored, and the control flow discipline of the previous theory carries
  over, so that a generated module is well formed and every block of it ends with a terminator.
\<close>

section \<open>Scopes and the visitor's variables\<close>

text \<open>After declarations in the current scope.\<close>

definition declared :: "cg \<Rightarrow> cg \<Rightarrow> bool" where
  "declared s s' \<longleftrightarrow> exit (scope s') = exit (scope s) \<and> length (scope s') = length (scope s) \<and>
     cur_fun s' = cur_fun s \<and> pre_enter_scope s' = pre_enter_scope s"

lemma declared_trans: "declared s s1 \<Longrightarrow> declared s1 s2 \<Longrightarrow> declared s s2"
  by (simp add: declared_def)

lemma framed_declared: "framed s s' \<Longrightarrow> declared s s'"
  by (simp add: framed_def declared_def)

lemma declared_refl [simp]: "declared s s"
  by (simp add: declared_def)

lemma declare_name_Inr:
  "declare_name n v s = Inr s' \<longleftrightarrow> (\<exists>r sc. push n v (scope s) = Inr (r, sc) \<and> s' = s\<lparr>scope := sc\<rparr>)"
  by (auto simp: declare_name_def bnd_eq_Inr_iff)

lemma declare_name_declared: "declare_name n v s = Inr s' \<Longrightarrow> declared s s'"
  using scopes.push_exit by (fastforce simp: declare_name_Inr declared_def)

lemma visit_var_decl_Inr:
  assumes "visit_var_decl d s = Inr s'"
  obtains t v s1 where "declare_name (vd_id d) v s1 = Inr s'"
    "if in_global (scope s) then GlobalVariable_create (vd_id d) t False (VConst (CZero t)) s = Inr (v, s1)
     else build (create_alloca t) s = Inr (v, s1)"
  using assms by (auto simp: visit_var_decl_def Let_def split: if_splits)

lemma visit_var_decl_declared:
  assumes "visit_var_decl d s = Inr s'"
  shows "declared s s'"
  using assms
proof (rule visit_var_decl_Inr)
  fix t v s1
  assume p: "declare_name (vd_id d) v s1 = Inr s'"
    "if in_global (scope s) then GlobalVariable_create (vd_id d) t False (VConst (CZero t)) s = Inr (v, s1)
     else build (create_alloca t) s = Inr (v, s1)"
  have "framed s s1"
  proof (cases "in_global (scope s)")
    case True
    then have "ir.more s1 = ir.more s"
      using p(2) by (auto simp: GlobalVariable_create_def Let_def set_operand_Inr split: if_splits)
    then show ?thesis by (rule more_framed)
  next
    case False
    then have "emits s s1"
      using p(2) by simp (blast intro: emits_intros)
    then show ?thesis by (rule emits_framed)
  qed
  then show ?thesis
    using declared_trans [OF framed_declared declare_name_declared [OF p(1)]] by blast
qed

lemma visit_var_decls_declared: "visit_var_decls ds s = Inr s' \<Longrightarrow> declared s s'"
proof (induction ds s rule: visit_var_decls.induct)
  case (2 d ds s)
  then show ?case
    using declared_trans visit_var_decl_declared by auto blast
qed simp

lemma br_if_open_framed: "br_if_open b s = Inr s' \<Longrightarrow> framed s s'"
  by (auto simp: br_if_open_def split: if_splits intro: br_framed)

lemma return_value_framed:
  assumes "return_value rt s = Inr s'"
  shows "framed s s'"
proof -
  obtain t s1 where p: "(if rt \<noteq> t
      then if is_integer_type rt then to_tmp (build (create_fptosi (tmp_val s) INT32_T) s)
           else to_tmp (build (create_sitofp (tmp_val s) FloatTy) s)
      else Inr s) = Inr s1" "discard (build (create_ret (tmp_val s1)) s1) = Inr s'"
    using assms by (auto simp: return_value_def)
  from p(1) have "framed s s1"
    by (auto simp: to_tmp_Inr split: if_splits) (blast intro: frame.emit_tmp emits_intros)+
  moreover have "framed s1 s'"
    using p(2) unfolding create_ret_def by (rule ret_framed)
  ultimately show ?thesis by (rule framed_trans)
qed

lemma insert_point_eq [simp]:
  "scope (set_insert_point b s) = scope s" "cur_fun (set_insert_point b s) = cur_fun s"
  "pre_enter_scope (set_insert_point b s) = pre_enter_scope s"
  by (simp_all add: set_insert_point_def)

lemma framed_eq:
  "framed s s' \<Longrightarrow> scope s' = scope s \<and> cur_fun s' = cur_fun s \<and> pre_enter_scope s' = pre_enter_scope s"
  by (simp add: framed_def)

lemma visit_statement_framed:
  "\<lbrakk>visit_statement st s = Inr s1; \<not> pre_enter_scope s\<rbrakk> \<Longrightarrow> framed s s1"
  "\<lbrakk>visit_statements ss s = Inr s2; \<not> pre_enter_scope s\<rbrakk> \<Longrightarrow> framed s s2"
proof (induction st s and ss s arbitrary: s1 and s2 rule: visit_statement_visit_statements.induct)
  case (1 ds ss s)
  then obtain sa sb where p: "visit_var_decls ds (s\<lparr>scope := enter (scope s)\<rparr>) = Inr sa"
    "visit_statements ss sa = Inr sb" "exit_scope sb = Inr s1"
    by (auto simp: compound_enter_def compound_exit_def)
  note d = visit_var_decls_declared [OF p(1)]
  have "framed sa sb"
    using 1 p d by (auto simp: compound_enter_def declared_def)
  then show ?case
    using d p(3) by (auto simp: exit_scope_def framed_def declared_def enter_def)
next
  case (3 e s)
  then show ?case
    using frame.visits(1) by simp
next
  case (4 e st s)
  then obtain sa t sb c sc cv sd se sf sg where p: "visit_expression e s = Inr sa" "new_block '''' sa = Inr (t, sb)"
    "new_block '''' sb = Inr (c, sc)" "condition (tmp_val sa) sc = Inr (cv, sd)"
    "discard (build (create_cond_br cv t c) sd) = Inr se"
    "visit_statement st (set_insert_point t se) = Inr sf" "br_if_open c sf = Inr sg"
    "s1 = set_insert_point c sg"
    by (auto simp: Let_def)
  note f = framed_eq [OF frame.visits(1) [OF p(1)]] framed_eq [OF new_block_framed [OF p(2)]]
    framed_eq [OF new_block_framed [OF p(3)]] framed_eq [OF frame.condition [OF p(4)]]
    framed_eq [OF cond_br_framed [OF p(5)]] framed_eq [OF br_if_open_framed [OF p(7)]]
  have "framed (set_insert_point t se) sf"
    using 4 p f by simp
  from framed_eq [OF this] show ?case
    using f p(8) by (simp add: framed_def)
next
  case (5 e st el s)
  then obtain sa t sb c sc cv sd fb se sf sg sh si sj where p: "visit_expression e s = Inr sa" "new_block '''' sa = Inr (t, sb)"
    "new_block '''' sb = Inr (c, sc)" "condition (tmp_val sa) sc = Inr (cv, sd)"
    "new_block '''' sd = Inr (fb, se)"
    "discard (build (create_cond_br cv t fb) se) = Inr sf"
    "visit_statement st (set_insert_point t sf) = Inr sg" "br_if_open c sg = Inr sh"
    "visit_statement el (set_insert_point fb sh) = Inr si" "br_if_open c si = Inr sj"
    "s1 = set_insert_point c sj"
    by (auto simp: Let_def)
  note f = framed_eq [OF frame.visits(1) [OF p(1)]] framed_eq [OF new_block_framed [OF p(2)]]
    framed_eq [OF new_block_framed [OF p(3)]] framed_eq [OF frame.condition [OF p(4)]]
    framed_eq [OF new_block_framed [OF p(5)]] framed_eq [OF cond_br_framed [OF p(6)]]
    framed_eq [OF br_if_open_framed [OF p(8)]] framed_eq [OF br_if_open_framed [OF p(10)]]
  have 1: "framed (set_insert_point t sf) sg"
    using 5(1) [OF p(1) refl p(2) refl p(3) refl p(4) refl p(5) refl p(6,7)] 5(4) f by simp
  have "framed (set_insert_point fb sh) si"
    using 5(2) [OF p(1) refl p(2) refl p(3) refl p(4) refl p(5) refl p(6,7,8,9)] 5(4) f
      framed_eq [OF 1] by simp
  from framed_eq [OF this] show ?case
    using f p(11) framed_eq [OF 1] by (simp add: framed_def)
next
  case (6 e st s)
  then obtain eb sa sb sc t sd c se cv sf sg sh si where p: "new_block '''' s = Inr (eb, sa)"
    "br_if_open eb sa = Inr sb" "visit_expression e (set_insert_point eb sb) = Inr sc"
    "new_block '''' sc = Inr (t, sd)" "new_block '''' sd = Inr (c, se)"
    "condition (tmp_val sc) se = Inr (cv, sf)" "discard (build (create_cond_br cv t c) sf) = Inr sg"
    "visit_statement st (set_insert_point t sg) = Inr sh" "br_if_open eb sh = Inr si"
    "s1 = set_insert_point c si"
    by (auto simp: Let_def)
  note f = framed_eq [OF frame.visits(1) [OF p(3)]] framed_eq [OF new_block_framed [OF p(1)]]
    framed_eq [OF br_if_open_framed [OF p(2)]] framed_eq [OF new_block_framed [OF p(4)]]
    framed_eq [OF new_block_framed [OF p(5)]] framed_eq [OF frame.condition [OF p(6)]]
    framed_eq [OF cond_br_framed [OF p(7)]] framed_eq [OF br_if_open_framed [OF p(9)]]
  have "framed (set_insert_point t sg) sh"
    using 6 p f by simp
  from framed_eq [OF this] show ?case
    using f p(10) by (simp add: framed_def)
next
  case (7 s)
  then show ?case
    unfolding visit_statement.simps create_void_ret_def by (intro ret_framed)
next
  case (8 e s)
  then obtain rt sa where "visit_expression e s = Inr sa" "return_value rt sa = Inr s1"
    by auto
  then show ?case
    using framed_trans frame.visits(1) return_value_framed by blast
next
  case (10 st ss s)
  then obtain sa t where p: "visit_statement st s = Inr sa" "terminated sa = Inr t"
    "if t then s2 = sa else visit_statements ss sa = Inr s2"
    by (auto split: if_splits)
  have "framed s sa"
    using 10 p by simp
  then show ?case
    using 10(2) [OF p(1,2)] p(3) 10(4) by (cases t) (auto simp: framed_def)
qed simp_all

section \<open>The control flow of declarations and statements\<close>

lemma on_open_cong:
  "ir_ok s' = ir_ok s \<Longrightarrow> opens s' = opens s \<Longrightarrow> kept r s' = kept r s \<Longrightarrow> insert_bb s' = insert_bb s \<Longrightarrow>
     on_open r B s' = on_open r B s"
  by (simp add: on_open_def)

lemma on_open_upd [simp]:
  "on_open r B (s\<lparr>scope := v1\<rparr>) = on_open r B s" "on_open r B (s\<lparr>tmp_val := v2\<rparr>) = on_open r B s"
  "on_open r B (s\<lparr>cur_fun := v3\<rparr>) = on_open r B s" "on_open r B (s\<lparr>pre_enter_scope := v4\<rparr>) = on_open r B s"
  "on_block r B (s\<lparr>scope := v1\<rparr>) = on_block r B s"
  by (simp_all add: on_open_def on_block_def)

lemma declare_name_on_open: "declare_name n v s = Inr s' \<Longrightarrow> on_open r B s' = on_open r B s"
  by (auto simp: declare_name_Inr)

lemma visit_var_decl_on_open:
  assumes "visit_var_decl d s = Inr s'" and "on_open r B s" and "\<not> in_global (scope s)"
  shows "on_open r B s'"
  using assms(1)
proof (rule visit_var_decl_Inr)
  fix t v s1
  assume p: "declare_name (vd_id d) v s1 = Inr s'"
    "if in_global (scope s) then GlobalVariable_create (vd_id d) t False (VConst (CZero t)) s = Inr (v, s1)
     else build (create_alloca t) s = Inr (v, s1)"
  have "emits s s1"
    using p(2) assms(3) by simp (blast intro: emits_intros)
  then show ?thesis
    using emits_on_open [OF assms(2)] declare_name_on_open [OF p(1)] by simp
qed

lemma visit_var_decls_on_open:
  "\<lbrakk>visit_var_decls ds s = Inr s'; on_open r B s; \<not> in_global (scope s)\<rbrakk> \<Longrightarrow> on_open r B s'"
proof (induction ds s rule: visit_var_decls.induct)
  case (2 d ds s)
  then obtain s1 where p: "visit_var_decl d s = Inr s1" "visit_var_decls ds s1 = Inr s'"
    by auto
  have "\<not> in_global (scope s1)"
    using visit_var_decl_declared [OF p(1)] 2(4) by (simp add: declared_def in_global_def)
  with 2 p visit_var_decl_on_open show ?case by blast
qed simp

lemma terminated_cases:
  assumes "on_block r B s" and "terminated s = Inr t"
  shows "if t then off_block r B s else on_open r B s"
proof -
  obtain b where b: "insert_bb s = Some b" "opens s - {b} = B" and ok: "ir_ok s" "kept r s"
    using assms(1) by (auto simp: on_block_def)
  have "owner s b \<noteq> None" "t \<longleftrightarrow> get_terminator s b \<noteq> None"
    using assms(2) b(1) by (auto simp: terminated_def owner_None_blocks)
  then have t: "t \<longleftrightarrow> b \<notin> opens s"
    by (auto simp: opens_def)
  show ?thesis
  proof (cases t)
    case True
    then have "opens s = B"
      using t b(2) by simp
    then show ?thesis
      using True ok b(1) by (simp add: off_block_def)
  next
    case False
    then have "opens s = insert b B" "b \<notin> B"
      using t b(2) by auto
    then show ?thesis
      using False ok b(1) by (simp add: on_open_def)
  qed
qed

lemma off_block_block: "off_block r B s \<Longrightarrow> insert_bb s = Some b \<Longrightarrow> b \<notin> B \<Longrightarrow> on_block r B s"
  by (auto simp: off_block_def on_block_def)

lemma br_if_open_off_block:
  assumes "on_block r B s" and "br_if_open c s = Inr s'"
  shows "off_block r B s'"
proof -
  obtain t where t: "terminated s = Inr t" "if t then s' = s else discard (build (create_br c) s) = Inr s'"
    using assms(2) by (auto simp: br_if_open_def split: if_splits)
  with terminated_cases [OF assms(1) t(1)] br_off_block show ?thesis
    by (cases t) auto
qed

lemma ret_on_block:
  assumes "on_open r B s" and "discard (build (mk_instr VoidTy Ret d vs) s) = Inr s'"
  shows "on_block r B s'"
proof -
  obtain b v where b: "insert_bb s = Some b" "b \<notin> B" "mk_instr VoidTy Ret d vs b s = Inr (v, s')"
    using assms by (auto simp: on_open_def discard_Inr build_Inr)
  then show ?thesis
    using off_block_block [OF ret_off_block [OF assms], of b] cg_more(1) [OF mk_instr_view(17) [OF b(3)]]
    by simp
qed

lemma return_value_on_block:
  assumes "on_open r B s" and "return_value rt s = Inr s'"
  shows "on_block r B s'"
proof -
  obtain t s1 where p: "(if rt \<noteq> t
      then if is_integer_type rt then to_tmp (build (create_fptosi (tmp_val s) INT32_T) s)
           else to_tmp (build (create_sitofp (tmp_val s) FloatTy) s)
      else Inr s) = Inr s1" "discard (build (create_ret (tmp_val s1)) s1) = Inr s'"
    using assms(2) by (auto simp: return_value_def)
  from p(1) have "s1 = s \<or> (\<exists>s0 v. emits s s0 \<and> s1 = s0\<lparr>tmp_val := v\<rparr>)"
    by (auto simp: to_tmp_Inr split: if_splits) (blast intro: emits_intros)+
  then have "on_open r B s1"
    using assms(1) emits_on_open by auto
  then show ?thesis
    using p(2) unfolding create_ret_def by (rule ret_on_block)
qed

lemma flow_expression: "on_open r B s \<Longrightarrow> visit_expression e s = Inr s' \<Longrightarrow> on_open r B s'"
  using flow.visits(1) by blast

lemma flow_condition: "on_open r B s \<Longrightarrow> condition v s = Inr (c, s') \<Longrightarrow> on_open r B s'"
  using flow.condition by blast

text \<open>The block of a branch: visited from its fresh start and joined at the end.\<close>

lemma off_block_insert: "off_block r (insert c B) s \<Longrightarrow> c \<notin> B \<Longrightarrow> on_block r B (set_insert_point c s)"
  by (rule on_open_block) (rule insert_point_on_open)

lemma two_blocks:
  assumes "on_open r B s" and "new_block n s = Inr (a, s1)" and "new_block m s1 = Inr (c, s2)"
  shows "on_open r (insert c (insert a B)) s2" "a \<notin> B" "c \<notin> B" "c \<noteq> a"
  using new_block_on_open [OF assms(1,2)] new_block_on_open [OF new_block_on_open(1) [OF assms(1,2)] assms(3)]
  by auto

definition in_body :: "cg \<Rightarrow> bool" where
  "in_body s \<longleftrightarrow> \<not> pre_enter_scope s \<and> 2 \<le> length (scope s)"

lemma in_body_framed: "in_body s \<Longrightarrow> framed s s' \<Longrightarrow> in_body s'"
  by (simp add: in_body_def framed_def)

lemma in_body_insert [simp]: "in_body (set_insert_point b s) = in_body s"
  by (simp add: in_body_def)

lemma branch_visited:
  assumes "off_block r (insert t C) s" and "t \<notin> C"
    and "on_open r C (set_insert_point t s) \<Longrightarrow> on_block r C s1" and "br_if_open j s1 = Inr s2"
  shows "off_block r C s2"
  using br_if_open_off_block [OF assms(3) assms(4)] insert_point_on_open [OF assms(1,2)] by blast

lemma visit_statement_on_block:
  "\<lbrakk>visit_statement st s = Inr s1; on_open r B s; in_body s\<rbrakk> \<Longrightarrow> on_block r B s1"
  "\<lbrakk>visit_statements ss s = Inr s2; on_open r B s; in_body s\<rbrakk> \<Longrightarrow> on_block r B s2"
proof (induction st s and ss s arbitrary: s1 B and s2 B rule: visit_statement_visit_statements.induct)
  case (1 ds ss s)
  let ?s = "s\<lparr>scope := enter (scope s)\<rparr>"
  obtain sa sb where p: "visit_var_decls ds ?s = Inr sa" "visit_statements ss sa = Inr sb" "exit_scope sb = Inr s1"
    using 1 by (auto simp: compound_enter_def compound_exit_def in_body_def)
  have len: "\<not> in_global (scope ?s)"
    using 1(4) by (auto simp: in_global_def enter_def in_body_def)
  have "on_open r B sa"
    by (rule visit_var_decls_on_open [OF p(1) _ len]) (simp add: 1(3))
  moreover have "in_body sa"
    using visit_var_decls_declared [OF p(1)] 1(4) by (simp add: in_body_def declared_def enter_def)
  ultimately have "on_block r B sb"
    using 1 p by (auto simp: compound_enter_def in_body_def)
  then show ?case
    using p(3) by (auto simp: exit_scope_def)
next
  case (2 s)
  then show ?case
    using on_open_block by simp
next
  case (3 e s)
  then show ?case
    using on_open_block flow_expression by simp
next
  case (4 e st s)
  then obtain sa t sb c sc cv sd se sf sg where p: "visit_expression e s = Inr sa" "new_block '''' sa = Inr (t, sb)"
    "new_block '''' sb = Inr (c, sc)" "condition (tmp_val sa) sc = Inr (cv, sd)"
    "discard (build (create_cond_br cv t c) sd) = Inr se"
    "visit_statement st (set_insert_point t se) = Inr sf" "br_if_open c sf = Inr sg"
    "s1 = set_insert_point c sg"
    by (auto simp: Let_def)
  note two = two_blocks [OF flow_expression [OF 4(3) p(1)] p(2,3)]
  have off: "off_block r (insert t (insert c B)) se"
    using cond_br_off_block [OF flow_condition [OF two(1) p(4)] p(5)] by (simp add: insert_commute)
  have body: "in_body se"
    using 4(4) frame.visits(1) [OF p(1)] new_block_framed [OF p(2)] new_block_framed [OF p(3)]
      frame.condition [OF p(4)] cond_br_framed [OF p(5)] by (simp add: in_body_def framed_def)
  have "off_block r (insert c B) sg"
    by (rule branch_visited [OF off _ 4(1) [OF p(1) refl p(2) refl p(3) refl p(4) refl p(5,6)] p(7)])
      (use two body in auto)
  then show ?case
    using two(3) p(8) off_block_insert by simp
next
  case (5 e st el s)
  then obtain sa t sb c sc cv sd fb se sf sg sh si sj where p: "visit_expression e s = Inr sa" "new_block '''' sa = Inr (t, sb)"
    "new_block '''' sb = Inr (c, sc)" "condition (tmp_val sa) sc = Inr (cv, sd)"
    "new_block '''' sd = Inr (fb, se)"
    "discard (build (create_cond_br cv t fb) se) = Inr sf"
    "visit_statement st (set_insert_point t sf) = Inr sg" "br_if_open c sg = Inr sh"
    "visit_statement el (set_insert_point fb sh) = Inr si" "br_if_open c si = Inr sj"
    "s1 = set_insert_point c sj"
    by (auto simp: Let_def)
  note two = two_blocks [OF flow_expression [OF 5(4) p(1)] p(2,3)]
  note three = new_block_on_open [OF flow_condition [OF two(1) p(4)] p(5)]
  have off: "off_block r (insert t (insert fb (insert c B))) sf"
    using cond_br_off_block [OF three(1) p(6)] by (simp add: insert_commute)
  have body: "in_body sf"
    using 5(5) frame.visits(1) [OF p(1)] new_block_framed [OF p(2)] new_block_framed [OF p(3)]
      frame.condition [OF p(4)] new_block_framed [OF p(5)] cond_br_framed [OF p(6)]
    by (simp add: in_body_def framed_def)
  have off2: "off_block r (insert fb (insert c B)) sh"
    by (rule branch_visited [OF off _ 5(1) [OF p(1) refl p(2) refl p(3) refl p(4) refl p(5) refl p(6,7)] p(8)])
      (use two three body in auto)
  have body2: "in_body sh"
    using visit_statement_framed(1) [OF p(7)] body br_if_open_framed [OF p(8)]
    by (auto simp: in_body_def framed_def)
  have "off_block r (insert c B) sj"
    by (rule branch_visited [OF off2 _ 5(2) [OF p(1) refl p(2) refl p(3) refl p(4) refl p(5) refl p(6,7,8,9)] p(10)])
      (use two three body2 in auto)
  then show ?case
    using two(3) p(11) off_block_insert by simp
next
  case (6 e st s)
  then obtain eb sa sb sc t sd c se cv sf sg sh si where p: "new_block '''' s = Inr (eb, sa)"
    "br_if_open eb sa = Inr sb" "visit_expression e (set_insert_point eb sb) = Inr sc"
    "new_block '''' sc = Inr (t, sd)" "new_block '''' sd = Inr (c, se)"
    "condition (tmp_val sc) se = Inr (cv, sf)" "discard (build (create_cond_br cv t c) sf) = Inr sg"
    "visit_statement st (set_insert_point t sg) = Inr sh" "br_if_open eb sh = Inr si"
    "s1 = set_insert_point c si"
    by (auto simp: Let_def)
  note one = new_block_on_open [OF 6(3) p(1)]
  have "on_open r B (set_insert_point eb sb)"
    using br_if_open_off_block [OF on_open_block [OF one(1)] p(2)] one(2) by (rule insert_point_on_open)
  note two = two_blocks [OF flow_expression [OF this p(3)] p(4,5)]
  have off: "off_block r (insert t (insert c B)) sg"
    using cond_br_off_block [OF flow_condition [OF two(1) p(6)] p(7)] by (simp add: insert_commute)
  have body: "in_body sg"
  proof -
    have "in_body (set_insert_point eb sb)"
      using 6(4) new_block_framed [OF p(1)] br_if_open_framed [OF p(2)] by (simp add: in_body_def framed_def)
    then show ?thesis
      using frame.visits(1) [OF p(3)] new_block_framed [OF p(4)] new_block_framed [OF p(5)]
        frame.condition [OF p(6)] cond_br_framed [OF p(7)] by (simp add: in_body_def framed_def)
  qed
  have "off_block r (insert c B) si"
    by (rule branch_visited [OF off _ 6(1) [OF p(1) refl p(2,3) refl p(4) refl p(5) refl p(6) refl p(7,8)] p(9)])
      (use two body in auto)
  then show ?case
    using two(3) p(10) off_block_insert by simp
next
  case (7 s)
  then show ?case
    unfolding visit_statement.simps create_void_ret_def by (intro ret_on_block)
next
  case (8 e s)
  then obtain rt sa where "visit_expression e s = Inr sa" "return_value rt sa = Inr s1"
    by auto
  then show ?case
    using 8(2) flow_expression return_value_on_block by blast
next
  case (9 s)
  then show ?case
    using on_open_block by simp
next
  case (10 st ss s)
  then obtain sa t where p: "visit_statement st s = Inr sa" "terminated sa = Inr t"
    "if t then s2 = sa else visit_statements ss sa = Inr s2"
    by (auto split: if_splits)
  have sa: "on_block r B sa"
    using 10 p by simp
  moreover have "in_body sa"
    using visit_statement_framed(1) [OF p(1)] 10(5) by (auto simp: in_body_def framed_def)
  ultimately show ?case
    using 10(2) [OF p(1,2)] p(3) terminated_cases [OF sa p(2)] by (cases t) auto
qed

section \<open>Functions and the program\<close>

definition quiet :: "cg \<Rightarrow> nat set \<Rightarrow> cg \<Rightarrow> bool" where
  "quiet r B s \<longleftrightarrow> ir_ok s \<and> kept r s \<and> opens s = B"

lemma quiet_upd [simp]:
  "quiet r B (s\<lparr>scope := v1\<rparr>) = quiet r B s" "quiet r B (s\<lparr>cur_fun := v2\<rparr>) = quiet r B s"
  "quiet r B (s\<lparr>pre_enter_scope := v3\<rparr>) = quiet r B s" "quiet r B (set_insert_point b s) = quiet r B s"
  by (simp_all add: quiet_def set_insert_point_def)

lemma fresh_of_ok: "ir_ok s \<Longrightarrow> fresh_ok s"
  using heap_okD(1) ir_okD(2) by blast

lemma Function_create_quiet:
  assumes "quiet r B s" and "Function_create t n s = Inr (f, s')"
  shows "quiet r B s'" "ir.more s' = ir.more s"
proof -
  have ok: "ir_ok s" "kept r s" "opens s = B"
    using assms(1) by (auto simp: quiet_def)
  show "quiet r B s'"
    using Function_create_ok [OF ok(1) assms(2)] ok(3)
      kept_trans [OF ok(2) Function_create_kept(1) [OF fresh_of_ok [OF ok(1)] assms(2)]]
    by (simp add: quiet_def)
  show "ir.more s' = ir.more s"
    using assms(2) by (auto simp: Function_create_def Let_def)
qed

lemma visit_params_on_open:
  "\<lbrakk>visit_params f i ps s = Inr s'; on_open r B s\<rbrakk> \<Longrightarrow> on_open r B s' \<and> declared s s'"
proof (induction f i ps s rule: visit_params.induct)
  case (2 f i p ps s)
  then obtain a s1 s2 s3 where p: "build (create_alloca (param_type p)) s = Inr (a, s1)"
    "discard (build (create_store (VArg f i) a) s1) = Inr s2" "declare_name (p_id p) a s2 = Inr s3"
    "visit_params f (Suc i) ps s3 = Inr s'"
    by auto
  have e: "emits s s1" "emits s1 s2"
    using p(1,2) unfolding discard_Inr by (blast intro: emits_intros)+
  have "on_open r B s3"
    using emits_on_open [OF emits_on_open [OF 2(3) e(1)] e(2)] declare_name_on_open [OF p(3)] by simp
  then have "on_open r B s' \<and> declared s3 s'"
    using 2(1) [OF p(1) refl p(2,3,4)] by blast
  moreover have "declared s s3"
    using framed_trans [OF emits_framed [OF e(1)] emits_framed [OF e(2)]] declare_name_declared [OF p(3)]
    by (blast intro: declared_trans framed_declared)
  ultimately show ?case
    by (blast intro: declared_trans)
qed simp

lemma visit_fun_decl_quiet:
  assumes visit: "visit_fun_decl d s = Inr s'" and q: "quiet r B s" and scope: "scope s \<noteq> []"
  shows "quiet r B s' \<and> exit (scope s') = exit (scope s) \<and> length (scope s') = length (scope s) \<and>
    \<not> pre_enter_scope s'"
proof -
  let ?in = "\<lambda>b s. (set_insert_point b s)\<lparr>scope := enter (scope s), pre_enter_scope := True\<rparr>"
  from visit obtain f s1 s2 b s3 s4 s5 t s6 where p:
    "Function_create (FunTy (return_ty (fd_type d)) (map param_type (fd_params d))) (fd_id d) s = Inr (f, s1)"
    "declare_name (fd_id d) (VFun f) s1 = Inr s2"
    "BasicBlock_create ''entry'' f (s2\<lparr>cur_fun := Some f\<rparr>) = Inr (b, s3)"
    "visit_params f 0 (fd_params d) (?in b s3) = Inr s4"
    "visit_statement (Compound (fd_locals d) (fd_body d)) s4 = Inr s5" "terminated s5 = Inr t"
    "if t then s6 = s5 else default_return s5 = Inr s6" "exit_scope s6 = Inr s'"
    by (auto simp: visit_fun_decl_def Let_def split: if_splits)
  note f1 = Function_create_quiet [OF q p(1)]
  have d2: "declared s1 s2"
    by (rule declare_name_declared [OF p(2)])
  have q2: "quiet r B s2"
    using f1(1) p(2) by (auto simp: declare_name_Inr)
  then have ok2: "ir_ok (s2\<lparr>cur_fun := Some f\<rparr>)" "kept r (s2\<lparr>cur_fun := Some f\<rparr>)" "opens s2 = B"
    by (simp_all add: quiet_def)
  note b3 = BasicBlock_create_ok [OF ok2(1) p(3)]
  have more: "ir.more s3 = ir.more (s2\<lparr>cur_fun := Some f\<rparr>)"
    using p(3) by (auto simp: BasicBlock_create_def Let_def)
  have "b \<notin> opens (s2\<lparr>cur_fun := Some f\<rparr>)"
    using b3 by (metis opens_view)
  then have "b \<notin> B" "opens s3 = insert b B"
    using b3 ok2(3) by simp_all
  then have on3: "on_open r B (?in b s3)"
    using b3 kept_trans [OF ok2(2) BasicBlock_create_kept [OF fresh_of_ok [OF ok2(1)] p(3)]]
    by (simp add: on_open_def set_insert_point_def)
  have s3: "scope s3 = scope s2" "exit (scope s2) = exit (scope s)" "length (scope s2) = length (scope s)"
    using cg_more [OF more] cg_more [OF f1(2)] d2 by (simp_all add: declared_def)
  note s4 = visit_params_on_open [OF p(4) on3]
  have x4: "exit (scope s4) = Inr (scope s2)" "length (scope s4) = Suc (length (scope s))" "pre_enter_scope s4"
    using s4 s3 by (simp_all add: declared_def enter_def)
  obtain s4a where p5: "visit_var_decls (fd_locals d) (s4\<lparr>pre_enter_scope := False\<rparr>) = Inr s4a"
    "visit_statements (fd_body d) s4a = Inr s5"
    using p(5) x4(3) by (auto simp: compound_enter_def compound_exit_def)
  have len: "Suc 0 \<le> length (scope s)" using scope by (cases "scope s") simp_all
  have "on_open r B s4a"
    by (rule visit_var_decls_on_open [OF p5(1)]) (use s4 x4(2) scope in \<open>simp_all add: in_global_def\<close>)
  moreover note d4 = visit_var_decls_declared [OF p5(1)]
  moreover have body: "in_body s4a"
    using d4 x4(2) len by (simp add: in_body_def declared_def)
  ultimately have s5: "on_block r B s5"
    using visit_statement_on_block(2) [OF p5(2)] by blast
  have fr5: "framed s4a s5"
    using visit_statement_framed(2) [OF p5(2)] body by (simp add: in_body_def)
  have "off_block r B s6" "framed s5 s6"
    using terminated_cases [OF s5 p(6)] p(7) default_return_off_block default_return_framed
    by (cases t; auto)+
  then show ?thesis
    using p(8) fr5 d4 x4 s3 by (auto simp: exit_scope_def off_block_def quiet_def framed_def declared_def)
qed

lemma visit_decl_quiet:
  assumes "visit_decl d s = Inr s'" and q: "quiet r B s" and "length (scope s) = 1"
    and "\<not> pre_enter_scope s"
  shows "quiet r B s' \<and> length (scope s') = 1 \<and> \<not> pre_enter_scope s'"
proof (cases d)
  case (FunDecl f)
  moreover have "scope s \<noteq> []"
    using assms(3) by auto
  ultimately show ?thesis
    using visit_fun_decl_quiet [of f s s' r B] assms by simp
next
  case (VarDecl v)
  then have "visit_var_decl v s = Inr s'"
    using assms(1) by simp
  then show ?thesis
  proof (rule visit_var_decl_Inr)
    fix t w s1
    assume p: "declare_name (vd_id v) w s1 = Inr s'"
      "if in_global (scope s) then GlobalVariable_create (vd_id v) t False (VConst (CZero t)) s = Inr (w, s1)
       else build (create_alloca t) s = Inr (w, s1)"
    then have g: "GlobalVariable_create (vd_id v) t False (VConst (CZero t)) s = Inr (w, s1)"
      using assms(3) by (simp add: in_global_def)
    have ok: "ir_ok s" "kept r s" "opens s = B"
      using q by (auto simp: quiet_def)
    note k = GlobalVariable_create_kept [OF fresh_of_ok [OF ok(1)] g]
    have "quiet r B s1"
      using GlobalVariable_create_ok [OF ok(1) g] kept_trans [OF ok(2) k(1)] ok(3) by (simp add: quiet_def)
    then show ?thesis
      using p(1) declare_name_declared [OF p(1)] cg_more [OF k(4)] assms(3,4)
      by (auto simp: declare_name_Inr declared_def)
  qed
qed

lemma visit_program_quiet:
  "\<lbrakk>visit_program ds s = Inr s'; quiet r B s; length (scope s) = 1; \<not> pre_enter_scope s\<rbrakk> \<Longrightarrow>
     quiet r B s' \<and> length (scope s') = 1 \<and> \<not> pre_enter_scope s'"
proof (induction ds s rule: visit_program.induct)
  case (2 d ds s)
  then obtain s1 where p: "visit_decl d s = Inr s1" "visit_program ds s1 = Inr s'"
    by auto
  from visit_decl_quiet [OF p(1) 2(3,4,5)] 2(1) [OF p] show ?case by blast
qed simp

text \<open>The start: the library functions and nothing else.\<close>

lemma empty_cg_ok: "ir_ok empty_cg" "opens empty_cg = {}"
  by (auto simp: empty_cg_def ir_ok_def heap_ok_def fresh_ok_def body_ok_def cfg_ok_def view_defs
      opens_view is_term_def br_targets_def use_def_ok_def uses_of_def no_consts_def no_users_def
      ir.defs const_state.defs users.defs)

lemma init_builder_eq: "\<exists>s. init_builder = Inr s"
  by (simp add: init_builder_def library_def Function_create_def Let_def declare_name_def enter_def
      empty_cg_def ir.defs const_state.defs users.defs no_consts_def no_users_def)

lemma create_library_quiet:
  "\<lbrakk>create_library fs s = Inr (vs, s'); quiet r B s\<rbrakk> \<Longrightarrow> quiet r B s' \<and> ir.more s' = ir.more s"
proof (induction fs s arbitrary: vs rule: create_library.induct)
  case (2 n t fs s)
  then obtain f s1 ws where p: "Function_create t n s = Inr (f, s1)" "create_library fs s1 = Inr (ws, s')"
    by auto
  show ?case
    using 2(1) [OF p(1) refl p(2)] Function_create_quiet [OF 2(3) p(1)] by simp
qed simp

lemma declare_names_quiet:
  "\<lbrakk>declare_names vs s = Inr s'; quiet r B s\<rbrakk> \<Longrightarrow> quiet r B s' \<and> declared s s'"
proof (induction vs s rule: declare_names.induct)
  case (2 n v vs s)
  then obtain s1 where p: "declare_name n v s = Inr s1" "declare_names vs s1 = Inr s'"
    by auto
  have "quiet r B s1"
    using p(1) 2(3) by (auto simp: declare_name_Inr)
  then show ?case
    using 2(1) [OF p] declare_name_declared [OF p(1)] declared_trans by blast
qed simp

lemma init_builder_quiet:
  assumes "init_builder = Inr s"
  shows "quiet s {} s \<and> length (scope s) = 1 \<and> \<not> pre_enter_scope s"
proof -
  obtain vs s1 where p: "create_library library empty_cg = Inr (vs, s1)"
    "declare_names vs (s1\<lparr>scope := enter (scope s1)\<rparr>) = Inr s"
    using assms by (auto simp: init_builder_def)
  have "quiet empty_cg {} empty_cg"
    using empty_cg_ok by (simp add: quiet_def)
  from create_library_quiet [OF p(1) this] have q: "quiet empty_cg {} s1" "ir.more s1 = ir.more empty_cg"
    by simp_all
  then have "quiet empty_cg {} (s1\<lparr>scope := enter (scope s1)\<rparr>)"
    by simp
  from declare_names_quiet [OF p(2) this] show ?thesis
    using cg_more [OF q(2)] by (simp add: quiet_def declared_def enter_def empty_cg_def ir.defs)
qed

section \<open>The flag for addresses\<close>

lemma steady_flag: "steady s s' \<Longrightarrow> require_lvalue s' = require_lvalue s"
  by (simp add: steady_def)

lemma lookup_var_flag: "lookup_var n s = Inr (v, et, lval, s') \<Longrightarrow> \<not> require_lvalue s'"
  by (auto simp: lookup_var_def Let_def)

lemma lvalue_flag:
  "visit_expression e s = Inr s1 \<Longrightarrow> \<not> require_lvalue s \<Longrightarrow> \<not> require_lvalue s1"
  "visit_var v s = Inr s2 \<Longrightarrow> \<not> require_lvalue s2"
  "visit_additive a s = Inr s3 \<Longrightarrow> \<not> require_lvalue s \<Longrightarrow> \<not> require_lvalue s3"
  "visit_term t s = Inr s4 \<Longrightarrow> \<not> require_lvalue s \<Longrightarrow> \<not> require_lvalue s4"
  "visit_factor f s = Inr s5 \<Longrightarrow> \<not> require_lvalue s \<Longrightarrow> \<not> require_lvalue s5"
  "visit_args es ps s = Inr (vs, s6) \<Longrightarrow> \<not> require_lvalue s \<Longrightarrow> \<not> require_lvalue s6"
proof (induction e s and v s and a s and t s and f s and es ps s arbitrary: s1 and s2 and s3 and s4 and s5 and vs s6
    rule: visit_expression_visit_var_visit_additive_visit_term_visit_factor_visit_args.induct)
  case (1 v e s)
  from 1(3) obtain sa sb where p: "visit_expression e s = Inr sa"
    "visit_var v (sa\<lparr>require_lvalue := True\<rparr>) = Inr sb" "assign (tmp_val sa) (tmp_val sb) sb = Inr s1"
    by (auto simp: Let_def)
  show ?case
    using 1(2) [OF p(1) refl p(2)] steady_flag [OF steady.assign [OF p(3)]] by simp
next
  case (3 l op r s)
  from 3(3) obtain sa sb where p: "visit_additive l s = Inr sa" "visit_additive r sa = Inr sb"
    "compare op (tmp_val sa) (tmp_val sb) sb = Inr s1"
    by (auto simp: Let_def)
  show ?case
    using 3(1) [OF p(1) 3(4)] 3(2) [OF p(1) refl p(2)] steady_flag [OF steady.compare [OF p(3)]] by simp
next
  case (4 n s)
  from 4(1) obtain v et lval sa where p: "lookup_var n s = Inr (v, et, lval, sa)" "var_value v et lval sa = Inr s2"
    by auto
  show ?case
    using lookup_var_flag [OF p(1)] steady_flag [OF steady.var_value [OF p(2)]] by simp
next
  case (5 n e s)
  from 5(2) obtain v et lval sa sb i sc where p: "lookup_var n s = Inr (v, et, lval, sa)"
    "visit_expression e sa = Inr sb" "index_check (tmp_val sb) sb = Inr (i, sc)"
    "element_access v et lval i sc = Inr s2"
    by auto
  have "\<not> require_lvalue sb"
    using 5(1) [OF p(1) refl refl refl p(2)] lookup_var_flag [OF p(1)] by simp
  then show ?case
    using steady_flag [OF index_check_steady [OF p(3)]] steady_flag [OF steady.element_access [OF p(4)]]
    by simp
next
  case (7 a op t s)
  from 7(3) obtain sa sb where p: "visit_additive a s = Inr sa" "visit_term t sa = Inr sb"
    "arith (int_add op) (float_add op) (tmp_val sa) (tmp_val sb) sb = Inr s3"
    by (auto simp: Let_def)
  show ?case
    using 7(1) [OF p(1) 7(4)] 7(2) [OF p(1) refl p(2)] steady_flag [OF steady.arith [OF p(3) steady.opids(1,2)]] by simp
next
  case (9 t op f s)
  from 9(3) obtain sa sb where p: "visit_term t s = Inr sa" "visit_factor f sa = Inr sb"
    "arith (int_mul op) (float_mul op) (tmp_val sa) (tmp_val sb) sb = Inr s4"
    by (auto simp: Let_def)
  show ?case
    using 9(1) [OF p(1) 9(4)] 9(2) [OF p(1) refl p(2)] steady_flag [OF steady.arith [OF p(3) steady.opids(3,4)]] by simp
next
  case (12 n args s)
  from 12(2) obtain fn ps vs sa v sb where p: "lookup_fun n s = Inr (fn, ps)" "visit_args args ps s = Inr (vs, sa)"
    "build (create_call fn vs) sa = Inr (v, sb)" "s5 = sb\<lparr>tmp_val := v\<rparr>"
    by (auto simp: to_tmp_Inr)
  have "\<not> require_lvalue sa"
    using 12(1) [OF p(1) refl p(2) 12(3)] .
  moreover have "emits sa sb"
    using p(3) by (blast intro: emits_intros)
  ultimately show ?case
    using p(4) emits_frame by simp
next
  case (13 n s)
  then show ?case
    using steady_flag [OF steady.num] by simp
next
  case (15 e es ps s)
  from 15(3) obtain sa sb ws where p: "visit_expression e s = Inr sa" "convert_arg ps sa = Inr sb"
    "visit_args es (tl ps) sb = Inr (ws, s6)"
    by auto
  show ?case
    using 15(1) [OF p(1) 15(4)] 15(2) [OF p(1,2,3)] steady_flag [OF steady.convert_arg [OF p(2)]] by simp
qed simp_all

section \<open>The properties\<close>

text \<open>Equations that run the generator on a concrete program by simplification.\<close>

lemmas generate_run = generate_def init_builder_def library_def Function_create_def Let_def
  declare_name_def enter_def empty_cg_def ir.defs const_state.defs users.defs no_consts_def no_users_def
  visit_fun_decl_def BasicBlock_create_def set_insert_point_def compound_enter_def return_type_def
  factor_expr_def visit_num_def return_value_def create_ret_def mk_instr_def new_instr_def build_def
  add_instruction_def modify_block_def new_user_def to_tmp_def discard_def terminated_def
  get_terminator_def compound_exit_def exit_scope_def set_operand_def add_use_def new_block_def
  condition_def create_cmp_def create_cond_br_def create_br_def add_pre_basic_block_def
  add_succ_basic_block_def br_if_open_def const_int_def const_fp_def ConstantFP_get_def
  default_return_def create_void_ret_def visit_var_decl_def create_alloca_def in_global_def
  GlobalVariable_create_def lookup_var_def var_value_def is_scalar_def create_load_def create_store_def
  assign_def create_sitofp_def create_fptosi_def arith_def promote_def create_binary_def

text \<open>A small program: \<open>int main(void) { while (1) return 2; return 0; }\<close>.\<close>

definition sample_loop :: program where
  "sample_loop = [FunDecl \<lparr>fd_type = TYPE_INT, fd_id = ''main'', fd_params = [], fd_locals = [],
     fd_body = [Iteration (factor_expr (FNum (NumInt 1))) (Return (Some (factor_expr (FNum (NumInt 2))))),
                Return (Some (factor_expr (FNum (NumInt 0))))]\<rparr>]"

lemma sample_loop_runs: "\<exists>s. generate sample_loop = Inr s"
  by (simp add: sample_loop_def generate_run)

text \<open>C6: whenever the compiler generates a module for a program, the module is well formed: the
  use-def graph is exact, every block belongs to exactly the function that lists it, the successor
  and predecessor lists are the edges of the branches with their multiplicity, and every block ends
  with a terminator and contains no other.\<close>

theorem generate_well_formed:
  assumes "generate p = Inr s"
  shows "ir_ok s \<and> (\<forall>b f. owner s b = Some f \<longrightarrow>
    (\<exists>ps q. ilist s b = ps @ [q] \<and> is_term s q \<and> (\<forall>x \<in> set ps. \<not> is_term s x)))"
proof -
  obtain s0 where s0: "init_builder = Inr s0" "visit_program p s0 = Inr s"
    using assms by (auto simp: generate_def)
  have q: "quiet s0 {} s"
    using visit_program_quiet [OF s0(2), of s0 "{}"] init_builder_quiet [OF s0(1)] by blast
  have "\<exists>ps q. ilist s b = ps @ [q] \<and> is_term s q \<and> (\<forall>x \<in> set ps. \<not> is_term s x)"
    if "owner s b = Some f" for b f
  proof -
    have "b \<notin> opens s"
      using q by (simp add: quiet_def)
    then have "ilist s b \<noteq> []" "is_term s (last (ilist s b))"
      using that by (auto simp: opens_view)
    moreover have "\<forall>x \<in> set (butlast (ilist s b)). \<not> is_term s x"
      using q by (simp add: quiet_def ir_ok_def body_ok_def)
    ultimately show ?thesis
      by (metis append_butlast_last_id)
  qed
  with q show ?thesis
    by (simp add: quiet_def)
qed

theorem generate_well_formed_witness:
  "\<exists>s. generate sample_loop = Inr s \<and> ir_ok s \<and> (\<forall>b. owner s b \<noteq> None \<longrightarrow> ilist s b \<noteq> [])"
proof -
  obtain s where s: "generate sample_loop = Inr s"
    using sample_loop_runs by blast
  from generate_well_formed [OF s] have ok: "ir_ok s" and b: "\<And>b f. owner s b = Some f \<Longrightarrow> ilist s b \<noteq> []"
    by fastforce+
  from b have "\<forall>b. owner s b \<noteq> None \<longrightarrow> ilist s b \<noteq> []"
    by auto
  with s ok show ?thesis by blast
qed

text \<open>C9: a statement restores the symbol table, the current function and the flag for function
  bodies, so what it declares is visible in it only.\<close>

theorem visit_statement_scope:
  assumes "visit_statement st s = Inr s'" and "\<not> pre_enter_scope s"
  shows "scope s' = scope s \<and> cur_fun s' = cur_fun s \<and> \<not> pre_enter_scope s'"
  using visit_statement_framed(1) [OF assms] assms(2) by (simp add: framed_def)

theorem visit_statement_scope_witness:
  "\<exists>s'. visit_statement (Compound [] [ExprStmt None]) (empty_cg\<lparr>insert_bb := Some 0, blocks := (\<lambda>_. Some
     \<lparr>bb_name = '''', bb_parent = 0, pre_bbs = [], succ_bbs = [], instr_list = []\<rparr>)\<rparr>) = Inr s' \<and> scope s' = []"
proof -
  let ?s = "empty_cg\<lparr>insert_bb := Some 0, blocks := (\<lambda>_. Some
     \<lparr>bb_name = '''', bb_parent = 0, pre_bbs = [], succ_bbs = [], instr_list = []\<rparr>)\<rparr>"
  obtain s' where s': "visit_statement (Compound [] [ExprStmt None]) ?s = Inr s'"
    by (simp add: generate_run)
  have "\<not> pre_enter_scope ?s" "scope ?s = []"
    by (simp_all add: generate_run)
  with visit_statement_scope [OF s'] s' show ?thesis by auto
qed

text \<open>C10: the flag that asks the next variable for its address is global in the source. It is never
  left set: a variable clears it before it does anything else, so an index is always evaluated
  as a value, and an expression that starts with the flag clear ends with it clear.\<close>

theorem require_lvalue_cleared:
  "(visit_var v s = Inr s1 \<longrightarrow> \<not> require_lvalue s1) \<and>
   (visit_expression e s = Inr s2 \<longrightarrow> \<not> require_lvalue s \<longrightarrow> \<not> require_lvalue s2)"
  using lvalue_flag(1,2) by blast

theorem require_lvalue_cleared_witness:
  "\<exists>s'. visit_expression (factor_expr (FNum (NumInt 1))) empty_cg = Inr s' \<and> \<not> require_lvalue s'"
proof -
  have "visit_expression (factor_expr (FNum (NumInt 1))) empty_cg =
      Inr (empty_cg\<lparr>tmp_val := VConst (CInt 1)\<rparr>)" "\<not> require_lvalue empty_cg"
    by (simp_all add: generate_run)
  with require_lvalue_cleared [of "Var ''x''" empty_cg empty_cg "factor_expr (FNum (NumInt 1))"] show ?thesis
    by simp
qed

end
