(* ===== verification/Cminus_Types.thy ===== *)
theory Cminus_Types
  imports Ast IR_Types
begin

text \<open>
  The static semantics of Cminus-f, which the compiler does not check: an environment of types, the
  type of an expression and the programs that are well typed. It is the specification that the code
  generator refines: well-typed programs are translated, to well-typed instructions. Types are the
  types of the IR. A name may be declared again in a scope, where its first declaration stays in
  force, as in the symbol table.
\<close>

section \<open>Environments\<close>

type_synonym tenv = "(string \<rightharpoonup> ty) list"

fun lookup :: "tenv \<Rightarrow> string \<Rightarrow> ty option" where
  "lookup [] n = None"
| "lookup (m # E) n = (case m n of Some t \<Rightarrow> Some t | None \<Rightarrow> lookup E n)"

fun bind :: "string \<Rightarrow> ty \<Rightarrow> tenv \<Rightarrow> tenv" where
  "bind n t [] = []"
| "bind n t (m # E) = (if n \<in> dom m then m else m(n \<mapsto> t)) # E"

text \<open>The types of numbers, and those of values a variable can hold.\<close>

definition num_ty :: "ty \<Rightarrow> bool" where
  "num_ty t \<longleftrightarrow> t = INT32_T \<or> t = FloatTy"

fun held_ty :: "ty \<Rightarrow> bool" where
  "held_ty (PtrTy t) = num_ty t"
| "held_ty t = num_ty t"

text \<open>The result of arithmetic on two numbers, and what can be used where a type is expected:
  a number for a number, or the same pointer.\<close>

definition join_ty :: "ty \<Rightarrow> ty \<Rightarrow> ty" where
  "join_ty a b = (if a = b then a else FloatTy)"

definition fits :: "ty \<Rightarrow> ty \<Rightarrow> bool" where
  "fits t expected \<longleftrightarrow> num_ty t \<and> num_ty expected \<or> t = expected \<and> held_ty t"

section \<open>Expressions\<close>

text \<open>The value of a variable that holds a type: an array is the pointer to its first element. The
  element that an index selects.\<close>

fun value_ty :: "ty \<Rightarrow> ty option" where
  "value_ty (ArrTy t n) = (if num_ty t then Some (PtrTy t) else None)"
| "value_ty t = (if held_ty t then Some t else None)"

fun index_ty :: "ty \<Rightarrow> ty option" where
  "index_ty (ArrTy t n) = (if num_ty t then Some t else None)"
| "index_ty (PtrTy t) = (if num_ty t then Some t else None)"
| "index_ty t = (if num_ty t then Some t else None)"

text \<open>\<open>infer_var E addr v\<close>: the type of the variable's value, or of its address.\<close>

fun infer_expression :: "tenv \<Rightarrow> expression \<Rightarrow> ty option" and
  infer_var :: "tenv \<Rightarrow> bool \<Rightarrow> avar \<Rightarrow> ty option" and
  infer_additive :: "tenv \<Rightarrow> additive \<Rightarrow> ty option" and
  infer_term :: "tenv \<Rightarrow> aterm \<Rightarrow> ty option" and
  infer_factor :: "tenv \<Rightarrow> factor \<Rightarrow> ty option" and
  infer_args :: "tenv \<Rightarrow> expression list \<Rightarrow> ty list \<Rightarrow> bool"
where
  "infer_expression E (AssignE v e) =
     (case (infer_expression E e, infer_var E True v) of
        (Some t, Some (PtrTy et)) \<Rightarrow> if fits t et then Some et else None
      | _ \<Rightarrow> None)"
| "infer_expression E (SimpleE a) = infer_additive E a"
| "infer_expression E (RelE l op r) =
     (case (infer_additive E l, infer_additive E r) of
        (Some a, Some b) \<Rightarrow> if num_ty a \<and> num_ty b then Some INT32_T else None
      | _ \<Rightarrow> None)"
| "infer_var E addr (Var n) =
     (case lookup E n of
        Some (PtrTy t) \<Rightarrow> if addr then Some (PtrTy t) else value_ty t
      | _ \<Rightarrow> None)"
| "infer_var E addr (VarIndex n e) =
     (case (lookup E n, infer_expression E e) of
        (Some (PtrTy t), Some it) \<Rightarrow>
          if num_ty it \<and> lookup E ''neg_idx_except'' = Some (FunTy VoidTy [])
          then map_option (\<lambda>et. if addr then PtrTy et else et) (index_ty t) else None
      | _ \<Rightarrow> None)"
| "infer_additive E (AddTerm t) = infer_term E t"
| "infer_additive E (AddBin a op t) =
     (case (infer_additive E a, infer_term E t) of
        (Some l, Some r) \<Rightarrow> if num_ty l \<and> num_ty r then Some (join_ty l r) else None
      | _ \<Rightarrow> None)"
| "infer_term E (TermFactor f) = infer_factor E f"
| "infer_term E (TermBin t op f) =
     (case (infer_term E t, infer_factor E f) of
        (Some l, Some r) \<Rightarrow> if num_ty l \<and> num_ty r then Some (join_ty l r) else None
      | _ \<Rightarrow> None)"
| "infer_factor E (FExpr e) = infer_expression E e"
| "infer_factor E (FVar v) = infer_var E False v"
| "infer_factor E (FCall n args) =
     (case lookup E n of
        Some (FunTy r ps) \<Rightarrow> if infer_args E args ps then Some r else None
      | _ \<Rightarrow> None)"
| "infer_factor E (FNum (NumInt i)) = Some INT32_T"
| "infer_factor E (FNum (NumFloat v)) = Some FloatTy"
| "infer_args E [] [] = True"
| "infer_args E (e # es) (p # ps) =
     ((case infer_expression E e of Some t \<Rightarrow> fits t p | None \<Rightarrow> False) \<and> infer_args E es ps)"
| "infer_args E es ps = False"

section \<open>Statements and programs\<close>

definition numeric :: "tenv \<Rightarrow> expression \<Rightarrow> bool" where
  "numeric E e \<longleftrightarrow> (case infer_expression E e of Some t \<Rightarrow> num_ty t | None \<Rightarrow> False)"

fun number_ty :: "cminus_type \<Rightarrow> ty" where
  "number_ty TYPE_INT = INT32_T"
| "number_ty _ = FloatTy"

definition decl_ty :: "var_decl \<Rightarrow> ty" where
  "decl_ty d = (case vd_num d of None \<Rightarrow> number_ty (vd_type d) | Some n \<Rightarrow> ArrTy (number_ty (vd_type d)) (unat n))"

fun bind_vars :: "var_decl list \<Rightarrow> tenv \<Rightarrow> tenv" where
  "bind_vars [] E = E"
| "bind_vars (d # ds) E = bind_vars ds (bind (vd_id d) (PtrTy (decl_ty d)) E)"

text \<open>\<open>check_statement r E st\<close>: in a function whose result is \<open>r\<close>.\<close>

fun check_statement :: "ty \<Rightarrow> tenv \<Rightarrow> statement \<Rightarrow> bool" and
  check_statements :: "ty \<Rightarrow> tenv \<Rightarrow> statement list \<Rightarrow> bool"
where
  "check_statement r E (Compound ds ss) = check_statements r (bind_vars ds (Map.empty # E)) ss"
| "check_statement r E (ExprStmt None) = True"
| "check_statement r E (ExprStmt (Some e)) = (infer_expression E e \<noteq> None)"
| "check_statement r E (Selection e st None) = (numeric E e \<and> check_statement r E st)"
| "check_statement r E (Selection e st (Some el)) =
     (numeric E e \<and> check_statement r E st \<and> check_statement r E el)"
| "check_statement r E (Iteration e st) = (numeric E e \<and> check_statement r E st)"
| "check_statement r E (Return None) = (r = VoidTy)"
| "check_statement r E (Return (Some e)) = (num_ty r \<and> numeric E e)"
| "check_statements r E [] = True"
| "check_statements r E (st # ss) = (check_statement r E st \<and> check_statements r E ss)"

fun par_ty :: "param \<Rightarrow> ty" where
  "par_ty p = (let t = (if p_type p = TYPE_INT then INT32_T else FloatTy) in if p_isarray p then PtrTy t else t)"

fun result_ty :: "cminus_type \<Rightarrow> ty" where
  "result_ty TYPE_INT = INT32_T"
| "result_ty TYPE_FLOAT = FloatTy"
| "result_ty TYPE_VOID = VoidTy"

definition fun_ty :: "fun_decl \<Rightarrow> ty" where
  "fun_ty d = FunTy (result_ty (fd_type d)) (map par_ty (fd_params d))"

fun bind_params :: "param list \<Rightarrow> tenv \<Rightarrow> tenv" where
  "bind_params [] E = E"
| "bind_params (p # ps) E = bind_params ps (bind (p_id p) (PtrTy (par_ty p)) E)"

text \<open>The parameters and the outermost locals of a function share a scope.\<close>

fun check_decl :: "tenv \<Rightarrow> decl \<Rightarrow> bool" where
  "check_decl E (VarDecl d) = True"
| "check_decl E (FunDecl d) =
     check_statements (result_ty (fd_type d))
       (bind_vars (fd_locals d) (bind_params (fd_params d) (Map.empty # bind (fd_id d) (fun_ty d) E)))
       (fd_body d)"

fun bind_decl :: "decl \<Rightarrow> tenv \<Rightarrow> tenv" where
  "bind_decl (VarDecl d) E = bind (vd_id d) (PtrTy (decl_ty d)) E"
| "bind_decl (FunDecl d) E = bind (fd_id d) (fun_ty d) E"

fun check_decls :: "tenv \<Rightarrow> program \<Rightarrow> bool" where
  "check_decls E [] = True"
| "check_decls E (d # ds) = (check_decl E d \<and> check_decls (bind_decl d E) ds)"

definition library_env :: tenv where
  "library_env = [[''input'' \<mapsto> FunTy INT32_T [], ''output'' \<mapsto> FunTy VoidTy [INT32_T],
     ''outputFloat'' \<mapsto> FunTy VoidTy [FloatTy], ''neg_idx_except'' \<mapsto> FunTy VoidTy []]]"

definition well_typed :: "program \<Rightarrow> bool" where
  "well_typed p \<longleftrightarrow> check_decls library_env p"

section \<open>Types of what is inferred\<close>

lemma num_tyE: "num_ty t \<Longrightarrow> (t = INT32_T \<Longrightarrow> P) \<Longrightarrow> (t = FloatTy \<Longrightarrow> P) \<Longrightarrow> P"
  by (auto simp: num_ty_def)

lemma num_ty_simps [simp]: "num_ty INT32_T" "num_ty FloatTy" "\<not> num_ty VoidTy" "\<not> num_ty (PtrTy t)"
  "\<not> num_ty (ArrTy t n)" "\<not> num_ty (FunTy r ps)"
  by (simp_all add: num_ty_def)

lemma join_num: "num_ty a \<Longrightarrow> num_ty b \<Longrightarrow> num_ty (join_ty a b)"
  by (auto simp: join_ty_def num_ty_def)

end
