(* ===== verification/IR_Typing.thy ===== *)
theory IR_Typing
  imports IR_Invariants
begin

text \<open>
  The typing rules of the instructions, as the IR's documentation gives them and LLVM checks them:
  from the result type of the function, the operation, its data and the types of the operands to
  the type of the instruction. A module is \<open>typed\<close> when every instruction obeys its rule.
\<close>

fun first_class :: "ty \<Rightarrow> bool" where
  "first_class (IntTy n) = True"
| "first_class FloatTy = True"
| "first_class (PtrTy t) = True"
| "first_class _ = False"

text \<open>Address computations: an element of an array through two indices, or a step from a pointer.\<close>

fun gep_typed :: "ty list \<Rightarrow> ty \<Rightarrow> bool" where
  "gep_typed [PtrTy (ArrTy t n), i, j] u = (i = INT32_T \<and> j = INT32_T \<and> u = t)"
| "gep_typed [PtrTy t, i] u = (i = INT32_T \<and> u = t \<and> first_class t)"
| "gep_typed ts u = False"

fun call_typed :: "ty list \<Rightarrow> ty \<Rightarrow> bool" where
  "call_typed (FunTy r as # ts) t = (ts = as \<and> t = r)"
| "call_typed ts t = False"

fun phi_typed :: "ty list \<Rightarrow> ty \<Rightarrow> bool" where
  "phi_typed [] t = True"
| "phi_typed (u # l # ts) t = (u = t \<and> l = LabelTy \<and> phi_typed ts t)"
| "phi_typed ts t = False"

fun instr_typed :: "ty \<Rightarrow> opid \<Rightarrow> idata \<Rightarrow> ty list \<Rightarrow> ty \<Rightarrow> bool" where
  "instr_typed r Ret d ts t = (t = VoidTy \<and> ts = (if r = VoidTy then [] else [r]))"
| "instr_typed r Br d ts t = (t = VoidTy \<and> (ts = [LabelTy] \<or> ts = [INT1_T, LabelTy, LabelTy]))"
| "instr_typed r Alloca (AllocaData u) ts t = (ts = [] \<and> t = PtrTy u)"
| "instr_typed r Load d ts t = (ts = [PtrTy t] \<and> first_class t)"
| "instr_typed r Store d ts t = (t = VoidTy \<and> (case ts of [u, p] \<Rightarrow> p = PtrTy u \<and> first_class u | _ \<Rightarrow> False))"
| "instr_typed r Cmp (CmpData c) ts t = (ts = [INT32_T, INT32_T] \<and> t = INT1_T)"
| "instr_typed r Fcmp (CmpData c) ts t = (ts = [FloatTy, FloatTy] \<and> t = INT1_T)"
| "instr_typed r Phi d ts t = phi_typed ts t"
| "instr_typed r Call d ts t = call_typed ts t"
| "instr_typed r Getelementptr (GepData u) ts t = (t = PtrTy u \<and> gep_typed ts u)"
| "instr_typed r Zext (DestData u) ts t = (ts = [INT1_T] \<and> u = INT32_T \<and> t = u)"
| "instr_typed r Fptosi (DestData u) ts t = (ts = [FloatTy] \<and> u = INT32_T \<and> t = u)"
| "instr_typed r Sitofp (DestData u) ts t = (ts = [INT32_T] \<and> u = FloatTy \<and> t = u)"
| "instr_typed r opc d ts t =
     (if opc \<in> {Add, Sub, Mul, Sdiv} then ts = [INT32_T, INT32_T] \<and> t = INT32_T
      else if opc \<in> {Fadd, Fsub, Fmul, Fdiv} then ts = [FloatTy, FloatTy] \<and> t = FloatTy
      else False)"

text \<open>The types of a list of values, and of the function an instruction stands in.\<close>

definition types_of :: "'z ir_scheme \<Rightarrow> val list \<Rightarrow> ty list \<Rightarrow> bool" where
  "types_of s vs ts \<longleftrightarrow> list_all2 (\<lambda>v t. get_type s v = Inr t) vs ts"

definition result_of :: "'z ir_scheme \<Rightarrow> nat \<Rightarrow> ty \<Rightarrow> bool" where
  "result_of s b r \<longleftrightarrow> (\<exists>f ps. owner s b = Some f \<and> f_types s f = Some (FunTy r ps))"

definition typed :: "'z ir_scheme \<Rightarrow> bool" where
  "typed s \<longleftrightarrow> (\<forall>p ins. instrs s p = Some ins \<longrightarrow>
     (\<exists>ts r. types_of s (operands s (VInstr p)) ts \<and> result_of s (i_parent ins) r \<and>
        instr_typed r (i_op ins) (i_data ins) ts (i_type ins)))"

definition floats_typed :: "'z ir_scheme \<Rightarrow> bool" where
  "floats_typed s \<longleftrightarrow> (\<forall>(k, c) \<in> set (cached_float s). const_type c = FloatTy)"

section \<open>Preservation\<close>

lemma types_of_simps [simp]:
  "types_of s [] ts \<longleftrightarrow> ts = []"
  "types_of s (v # vs) ts \<longleftrightarrow> (\<exists>u us. ts = u # us \<and> get_type s v = Inr u \<and> types_of s vs us)"
  by (auto simp: types_of_def list_all2_Cons1)

lemma kept_types_of: "kept s s' \<Longrightarrow> types_of s vs ts \<Longrightarrow> types_of s' vs ts"
  unfolding types_of_def by (auto elim!: list_all2_mono intro: kept_get_type)

lemma kept_result_of: "kept s s' \<Longrightarrow> result_of s b r \<Longrightarrow> result_of s' b r"
  unfolding result_of_def using keptD(3,4) by blast

lemma types_of_not_null: "types_of s vs ts \<Longrightarrow> VNull \<notin> set vs"
  by (induction vs arbitrary: ts) auto

lemma typedD:
  "typed s \<Longrightarrow> instrs s p = Some ins \<Longrightarrow> \<exists>ts r. types_of s (operands s (VInstr p)) ts \<and>
     result_of s (i_parent ins) r \<and> instr_typed r (i_op ins) (i_data ins) ts (i_type ins)"
  unfolding typed_def by blast

text \<open>A step that adds no instruction.\<close>

lemma typed_same_instrs:
  assumes "typed s" and "kept s s'" and "instrs s' = instrs s"
    and "\<And>p. p < next_id s \<Longrightarrow> operands s' (VInstr p) = operands s (VInstr p)" and "fresh_ok s"
  shows "typed s'"
  unfolding typed_def
proof (intro allI impI)
  fix p ins assume p: "instrs s' p = Some ins"
  then have "p < next_id s"
    using fresh_okD(1) [OF assms(5), of p] assms(3) by (cases "next_id s \<le> p") auto
  then show "\<exists>ts r. types_of s' (operands s' (VInstr p)) ts \<and> result_of s' (i_parent ins) r \<and>
      instr_typed r (i_op ins) (i_data ins) ts (i_type ins)"
    using typedD [OF assms(1), of p ins] p assms(3,4) kept_types_of [OF assms(2)] kept_result_of [OF assms(2)]
    by fastforce
qed

text \<open>A new instruction that obeys its rule.\<close>

lemma set_operands_total:
  "VNull \<notin> set vs \<Longrightarrow> i + length vs \<le> num_ops s u \<Longrightarrow> \<exists>s'. set_operands u i vs s = Inr s'"
proof (induction vs arbitrary: i s)
  case (Cons v vs)
  then obtain s1 where s1: "set_operand u i v s = Inr s1"
    by (auto simp: set_operand_def)
  then have "num_ops s1 u = num_ops s u"
    by (auto simp: set_operand_Inr)
  with Cons s1 show ?case by simp
qed simp

lemma mk_instr_total:
  assumes "owner s b \<noteq> None" and "VNull \<notin> set vs"
  shows "\<exists>s'. mk_instr t opc d vs b s = Inr (VInstr (next_id s), s')"
proof -
  let ?p = "next_id s"
  obtain k where k: "blocks s b = Some k"
    using assms(1) by (auto simp: owner_def)
  let ?s = "new_user (VInstr ?p) (length vs) (s\<lparr>next_id := Suc ?p,
       instrs := (instrs s)(?p \<mapsto> \<lparr>i_type = t, i_op = opc, i_parent = b, i_data = d, i_name = ''''\<rparr>)\<rparr>)
     \<lparr>blocks := (blocks s)(b \<mapsto> k\<lparr>instr_list := instr_list k @ [?p]\<rparr>)\<rparr>"
  have "\<exists>s'. set_operands (VInstr ?p) 0 vs ?s = Inr s'"
    by (rule set_operands_total) (simp_all add: assms(2))
  then show ?thesis
    by (auto simp: mk_instr_def new_instr_def Let_def add_instruction_def modify_block_def k)
qed

lemma mk_instr_fresh:
  assumes "fresh_ok s" and "mk_instr t opc d vs b s = Inr (v, s')"
  shows "fresh_ok s'"
proof -
  have "owner s' x = None \<longleftrightarrow> owner s x = None" for x
    by (simp add: mk_instr_view [OF assms(2)])
  then show ?thesis
    using assms(1) by (auto simp: fresh_ok_def mk_instr_view [OF assms(2)] owner_None_blocks [symmetric])
qed

lemma mk_instr_typed:
  assumes "typed s" and fresh: "fresh_ok s" and mk: "mk_instr t opc d vs b s = Inr (v, s')"
    and "types_of s vs ts" and "result_of s b r" and "instr_typed r opc d ts t"
  shows "typed s'" "get_type s' v = Inr t"
proof -
  note view = mk_instr_view [OF mk]
  note k = mk_instr_kept [OF fresh mk]
  show "typed s'"
    unfolding typed_def
  proof (intro allI impI)
    fix p ins assume p: "instrs s' p = Some ins"
    show "\<exists>ts r. types_of s' (operands s' (VInstr p)) ts \<and> result_of s' (i_parent ins) r \<and>
      instr_typed r (i_op ins) (i_data ins) ts (i_type ins)"
    proof (cases "p = next_id s")
      case True
      then show ?thesis
        using p assms(6) kept_types_of [OF k assms(4)] kept_result_of [OF k assms(5)]
        by (auto simp: view; blast)
    next
      case False
      then have "instrs s p = Some ins" "operands s' (VInstr p) = operands s (VInstr p)"
        using p by (simp_all add: view)
      then show ?thesis
        using typedD [OF assms(1), of p ins] kept_types_of [OF k] kept_result_of [OF k] by metis
    qed
  qed
  show "get_type s' v = Inr t"
    by (simp add: view)
qed

end
