(* ===== verification/Codegen_Steps.thy ===== *)
theory Codegen_Steps
  imports Codegen_Correct Cminus_Types IR_Typing
begin

text \<open>
  The steps of the code generator on well-typed input. A state inside a function satisfies
  \<open>in_fun\<close>: the symbol table realises the type environment and the module is typed. Every
  builder call and every shared piece of the visitor, used as the type system admits it, returns,
  in such a state again (\<open>goes\<close>), and with a value of the expected type (\<open>gives\<close>).
\<close>

section \<open>States inside a function\<close>

definition has_type :: "cg \<Rightarrow> val \<Rightarrow> ty \<Rightarrow> bool" where
  "has_type s v t \<longleftrightarrow> get_type s v = Inr t"

text \<open>The value a name stands for: a function's name stands for the function itself.\<close>

definition realises :: "cg \<Rightarrow> val \<Rightarrow> ty \<Rightarrow> bool" where
  "realises s v t \<longleftrightarrow> has_type s v t \<and> (case t of FunTy r ps \<Rightarrow> (\<exists>f. v = VFun f) | _ \<Rightarrow> True)"

definition env_ok :: "tenv \<Rightarrow> cg \<Rightarrow> bool" where
  "env_ok E s \<longleftrightarrow> list_all2 (\<lambda>m k. dom m = dom k \<and> (\<forall>n t v. m n = Some t \<longrightarrow> k n = Some v \<longrightarrow> realises s v t)) E (scope s)"

text \<open>What holds between declarations as well.\<close>

definition sound :: "tenv \<Rightarrow> cg \<Rightarrow> bool" where
  "sound E s \<longleftrightarrow> fresh_ok s \<and> typed s \<and> floats_typed s \<and> env_ok E s"

definition in_fun :: "ty \<Rightarrow> tenv \<Rightarrow> cg \<Rightarrow> bool" where
  "in_fun r E s \<longleftrightarrow> sound E s \<and> (r = VoidTy \<or> num_ty r) \<and>
     (\<exists>f b ps. cur_fun s = Some f \<and> insert_bb s = Some b \<and> owner s b = Some f \<and>
        f_types s f = Some (FunTy r ps))"

text \<open>A step from \<open>s\<close> to \<open>s'\<close>.\<close>

definition goes :: "ty \<Rightarrow> tenv \<Rightarrow> cg \<Rightarrow> cg \<Rightarrow> bool" where
  "goes r E s s' \<longleftrightarrow> in_fun r E s' \<and> kept s s' \<and> steady s s'"

lemma goes_trans: "goes r E s s1 \<Longrightarrow> goes r E s1 s2 \<Longrightarrow> goes r E s s2"
  unfolding goes_def by (blast intro: kept_trans steady_trans)

lemma goes_refl: "in_fun r E s \<Longrightarrow> goes r E s s"
  by (simp add: goes_def)

lemma goesD: "goes r E s s' \<Longrightarrow> in_fun r E s'"
  by (simp add: goes_def)

lemma goes_type: "goes r E s s' \<Longrightarrow> has_type s v t \<Longrightarrow> has_type s' v t"
  unfolding goes_def has_type_def by (blast intro: kept_get_type)

lemma goes_flag: "goes r E s s' \<Longrightarrow> require_lvalue s' = require_lvalue s"
  by (simp add: goes_def steady_def)

lemma realises_kept: "kept s s' \<Longrightarrow> realises s v t \<Longrightarrow> realises s' v t"
  unfolding realises_def has_type_def using kept_get_type by blast

lemma env_ok_kept: "env_ok E s \<Longrightarrow> kept s s' \<Longrightarrow> scope s' = scope s \<Longrightarrow> env_ok E s'"
  unfolding env_ok_def by (auto elim!: list_all2_mono intro: realises_kept)

lemma env_ok_lookup:
  assumes "env_ok E s" and "lookup E n = Some t"
  shows "realises s (find (scope s) n) t"
proof -
  have "lookup E n = Some t \<Longrightarrow> realises s (find sc n) t"
    if "list_all2 (\<lambda>m k. dom m = dom k \<and> (\<forall>n t v. m n = Some t \<longrightarrow> k n = Some v \<longrightarrow> realises s v t)) E sc" for sc
    using that
  proof (induction E sc rule: list_all2_induct)
    case (Cons m E k sc)
    then have "m n = None \<longleftrightarrow> k n = None"
      by (metis domIff)
    with Cons show ?case
      by (cases "m n"; cases "k n") simp_all
  qed simp
  then show ?thesis
    using assms by (simp add: env_ok_def)
qed

text \<open>Changes of the visitor's own variables.\<close>

lemma get_type_upd [simp]:
  fixes s :: cg
  shows "has_type (s\<lparr>tmp_val := v1\<rparr>) v t = has_type s v t" "has_type (s\<lparr>require_lvalue := v2\<rparr>) v t = has_type s v t"
    "has_type (s\<lparr>insert_bb := v3\<rparr>) v t = has_type s v t" "has_type (s\<lparr>scope := v4\<rparr>) v t = has_type s v t"
    "has_type (s\<lparr>cur_fun := v5\<rparr>) v t = has_type s v t" "has_type (s\<lparr>pre_enter_scope := v6\<rparr>) v t = has_type s v t"
  by (cases v; simp add: has_type_def)+

lemma same_ir_typed:
  assumes "ir.truncate s' = ir.truncate s"
  shows "fresh_ok s' = fresh_ok s" "typed s' = typed s" "floats_typed s' = floats_typed s"
    "has_type s' = has_type s"
proof -
  have e: "operands s' = operands s" "next_id s' = next_id s" "instrs s' = instrs s"
    "blocks s' = blocks s" "funs s' = funs s" "gvars s' = gvars s" "cached_float s' = cached_float s"
    using assms by (simp_all add: ir.truncate_def)
  have r: "result_of s' = result_of s"
    by (simp add: fun_eq_iff result_of_def owner_def f_types_def e)
  have g: "get_type s' v = get_type s v" for v
    by (cases v) (simp_all add: e)
  then have t: "types_of s' = types_of s"
    by (simp add: fun_eq_iff types_of_def)
  show "fresh_ok s' = fresh_ok s" "floats_typed s' = floats_typed s" "has_type s' = has_type s"
    by (simp_all add: fresh_ok_def floats_typed_def fun_eq_iff has_type_def e g)
  show "typed s' = typed s"
    by (simp add: typed_def e t r)
qed

lemma sound_cong:
  assumes "ir.truncate s' = ir.truncate s" and "scope s' = scope s"
  shows "sound E s' = sound E s"
proof -
  have "realises s' = realises s"
    by (simp add: fun_eq_iff realises_def same_ir_typed(4) [OF assms(1)])
  then show ?thesis
    by (simp add: sound_def same_ir_typed [OF assms(1)] env_ok_def assms(2))
qed

lemma sound_upd [simp]:
  "sound E (s\<lparr>tmp_val := v1\<rparr>) = sound E s" "sound E (s\<lparr>require_lvalue := v2\<rparr>) = sound E s"
  "sound E (s\<lparr>insert_bb := v3\<rparr>) = sound E s" "sound E (s\<lparr>cur_fun := v5\<rparr>) = sound E s"
  "sound E (s\<lparr>pre_enter_scope := v6\<rparr>) = sound E s"
  by (rule sound_cong; simp add: ir.truncate_def)+

lemma f_types_upd [simp]:
  fixes s :: cg
  shows "f_types (s\<lparr>tmp_val := v1\<rparr>) = f_types s" "f_types (s\<lparr>require_lvalue := v2\<rparr>) = f_types s"
    "f_types (s\<lparr>insert_bb := v3\<rparr>) = f_types s" "f_types (s\<lparr>scope := v4\<rparr>) = f_types s"
    "f_types (s\<lparr>cur_fun := v5\<rparr>) = f_types s" "f_types (s\<lparr>pre_enter_scope := v6\<rparr>) = f_types s"
    "owner (s\<lparr>tmp_val := v1\<rparr>) = owner s" "owner (s\<lparr>require_lvalue := v2\<rparr>) = owner s"
    "owner (s\<lparr>insert_bb := v3\<rparr>) = owner s" "owner (s\<lparr>scope := v4\<rparr>) = owner s"
    "owner (s\<lparr>cur_fun := v5\<rparr>) = owner s" "owner (s\<lparr>pre_enter_scope := v6\<rparr>) = owner s"
  by (simp_all add: fun_eq_iff f_types_def owner_def)

lemma in_fun_upd [simp]:
  "in_fun r E (s\<lparr>tmp_val := v1\<rparr>) = in_fun r E s" "in_fun r E (s\<lparr>require_lvalue := v2\<rparr>) = in_fun r E s"
  "in_fun r E (s\<lparr>pre_enter_scope := v3\<rparr>) = in_fun r E s"
  by (simp_all add: in_fun_def)

lemma goes_tmp [simp]: "goes r E s (s'\<lparr>tmp_val := v\<rparr>) = goes r E s s'" "goes r E (s\<lparr>tmp_val := v\<rparr>) s' = goes r E s s'"
  by (simp_all add: goes_def steady_def framed_def)

section \<open>The builder's steps\<close>

lemma returns_pairE:
  assumes "returns m (\<lambda>(v, s). P v s)"
  obtains v s where "m = Inr (v, s)" and "P v s"
  using assms by (auto simp: returns_def)

lemma in_funE:
  assumes "in_fun r E s"
  obtains f b ps where "cur_fun s = Some f" "insert_bb s = Some b" "owner s b = Some f"
    "f_types s f = Some (FunTy r ps)" "result_of s b r" "sound E s" "r = VoidTy \<or> num_ty r"
  using assms by (auto simp: in_fun_def result_of_def)

lemma in_fun_step:
  assumes "in_fun r E s" and "kept s s'" and "ir.more s' = ir.more s" and "fresh_ok s'" "typed s'" "floats_typed s'"
  shows "goes r E s s'"
proof -
  note m = cg_more [OF assms(3)]
  have "env_ok E s'"
    using assms(1,2) m(2) env_ok_kept by (auto simp: in_fun_def sound_def)
  moreover have "steady s s'"
    by (rule more_steady [OF assms(3)])
  ultimately show ?thesis
    using assms keptD(3,4) [OF assms(2)] m by (auto simp: goes_def in_fun_def sound_def)
qed

lemma emit:
  assumes "in_fun r E s" and "types_of s vs ts" and "instr_typed r opc d ts t"
  shows "returns (build (mk_instr t opc d vs) s) (\<lambda>(v, s'). goes r E s s' \<and> has_type s' v t)"
  using assms(1)
proof (rule in_funE)
  fix f b ps
  assume b: "cur_fun s = Some f" "insert_bb s = Some b" "owner s b = Some f" "result_of s b r" "sound E s"
  have own: "owner s b \<noteq> None" by (simp add: b)
  obtain s' where mk: "mk_instr t opc d vs b s = Inr (VInstr (next_id s), s')"
    using mk_instr_total [OF own types_of_not_null [OF assms(2)]] by blast
  have s: "fresh_ok s" "typed s" "floats_typed s"
    using b(5) by (simp_all add: sound_def)
  note t = mk_instr_typed [OF s(2,1) mk assms(2) b(4) assms(3)]
  have "goes r E s s'"
    by (rule in_fun_step [OF assms(1) mk_instr_kept [OF s(1) mk] mk_instr_view(17) [OF mk]
          mk_instr_fresh [OF s(1) mk] t(1)])
      (use s(3) in \<open>simp add: floats_typed_def mk_instr_view(16) [OF mk]\<close>)
  then show ?thesis
    using t(2) b(2) mk by (simp add: build_def has_type_def)
qed

text \<open>The result of a step that gives a value of type \<open>t\<close>.\<close>

abbreviation gives :: "ty \<Rightarrow> tenv \<Rightarrow> cg \<Rightarrow> ty \<Rightarrow> val \<times> cg \<Rightarrow> bool" where
  "gives r E s t \<equiv> \<lambda>(v, s'). goes r E s s' \<and> has_type s' v t"

lemma types_of_typed [simp]:
  "types_of s (v # vs) ts \<longleftrightarrow> (\<exists>u us. ts = u # us \<and> has_type s v u \<and> types_of s vs us)"
  by (simp add: has_type_def)

declare types_of_simps(2) [simp del]

lemma has_type_const [simp]:
  "has_type s (VConst c) t \<longleftrightarrow> t = const_type c" "has_type s (const_int n) t \<longleftrightarrow> t = INT32_T"
  by (auto simp: has_type_def const_int_def)

lemma binary_gives:
  "in_fun r E s \<Longrightarrow> has_type s l (binary_type opc) \<Longrightarrow> has_type s v (binary_type opc) \<Longrightarrow>
     opc \<in> {Add, Sub, Mul, Sdiv, Fadd, Fsub, Fmul, Fdiv} \<Longrightarrow>
     returns (build (create_binary opc l v) s) (gives r E s (binary_type opc))"
  unfolding create_binary_def
  by (rule emit [where ts = "[binary_type opc, binary_type opc]"]) auto

lemma cmp_gives:
  "in_fun r E s \<Longrightarrow> has_type s l INT32_T \<Longrightarrow> has_type s v INT32_T \<Longrightarrow>
     returns (build (create_cmp c l v) s) (gives r E s INT1_T)"
  unfolding create_cmp_def
  by (rule emit [where ts = "[INT32_T, INT32_T]"]) simp_all

lemma fcmp_gives:
  "in_fun r E s \<Longrightarrow> has_type s l FloatTy \<Longrightarrow> has_type s v FloatTy \<Longrightarrow>
     returns (build (create_fcmp c l v) s) (gives r E s INT1_T)"
  unfolding create_fcmp_def
  by (rule emit [where ts = "[FloatTy, FloatTy]"]) simp_all

lemma zext_gives:
  "in_fun r E s \<Longrightarrow> has_type s v INT1_T \<Longrightarrow> returns (build (create_zext v INT32_T) s) (gives r E s INT32_T)"
  unfolding create_zext_def
  by (rule emit [where ts = "[INT1_T]"]) simp_all

lemma sitofp_gives:
  "in_fun r E s \<Longrightarrow> has_type s v INT32_T \<Longrightarrow> returns (build (create_sitofp v FloatTy) s) (gives r E s FloatTy)"
  unfolding create_sitofp_def
  by (rule emit [where ts = "[INT32_T]"]) simp_all

lemma fptosi_gives:
  "in_fun r E s \<Longrightarrow> has_type s v FloatTy \<Longrightarrow> returns (build (create_fptosi v INT32_T) s) (gives r E s INT32_T)"
  unfolding create_fptosi_def
  by (rule emit [where ts = "[FloatTy]"]) simp_all

lemma alloca_gives:
  "in_fun r E s \<Longrightarrow> returns (build (create_alloca t) s) (gives r E s (PtrTy t))"
  unfolding create_alloca_def by (rule emit [where ts = "[]"]) auto

lemma store_gives:
  "in_fun r E s \<Longrightarrow> has_type s v t \<Longrightarrow> has_type s p (PtrTy t) \<Longrightarrow> first_class t \<Longrightarrow>
     returns (build (create_store v p) s) (gives r E s VoidTy)"
  unfolding create_store_def
  by (rule emit [where ts = "[t, PtrTy t]"]) simp_all

lemma build_some: "in_fun r E s \<Longrightarrow> returns (build f s) P \<longleftrightarrow> returns (f (the (insert_bb s)) s) P"
  by (auto simp: in_fun_def build_def)

lemma load_gives:
  assumes "in_fun r E s" and "has_type s p (PtrTy t)" and "first_class t"
  shows "returns (build (create_load p) s) (gives r E s t)"
proof -
  have "build (create_load p) s = build (mk_instr t Load NoData [p]) s"
    using assms(2) by (simp add: build_def create_load_def has_type_def)
  moreover have "returns (build (mk_instr t Load NoData [p]) s) (gives r E s t)"
    by (rule emit [where ts = "[PtrTy t]"]) (use assms in simp_all)
  ultimately show ?thesis by simp
qed

lemma gep_gives:
  assumes "in_fun r E s" and "has_type s p pt" and "types_of s is its"
    and "gep_typed (pt # its) t" and "gep_element_type pt (length is) = Inr t"
  shows "returns (build (create_gep p is) s) (gives r E s (PtrTy t))"
proof -
  have "build (create_gep p is) s = build (mk_instr (PtrTy t) Getelementptr (GepData t) (p # is)) s"
    using assms(2,5) by (simp add: build_def create_gep_def has_type_def)
  moreover have "returns (build (mk_instr (PtrTy t) Getelementptr (GepData t) (p # is)) s) (gives r E s (PtrTy t))"
    by (rule emit [where ts = "pt # its"]) (use assms in simp_all)
  ultimately show ?thesis by simp
qed

lemma gep_array_gives:
  "in_fun r E s \<Longrightarrow> has_type s p (PtrTy (ArrTy t n)) \<Longrightarrow> has_type s i INT32_T \<Longrightarrow> num_ty t \<Longrightarrow>
     returns (build (create_gep p [const_int 0, i]) s) (gives r E s (PtrTy t))"
  by (rule gep_gives [where its = "[INT32_T, INT32_T]"])
    (auto simp: gep_element_type_def numeral_2_eq_2)

lemma gep_step_gives:
  "in_fun r E s \<Longrightarrow> has_type s p (PtrTy t) \<Longrightarrow> has_type s i INT32_T \<Longrightarrow> num_ty t \<Longrightarrow>
     returns (build (create_gep p [i]) s) (gives r E s (PtrTy t))"
  by (rule gep_gives [where its = "[INT32_T]"])
    (auto simp: gep_element_type_def elim!: num_tyE)

lemma call_gives:
  assumes "in_fun r E s" and "has_type s (VFun f) (FunTy t as)" and "types_of s vs as"
  shows "returns (build (create_call (VFun f) vs) s) (gives r E s t)"
proof -
  have "length as = length vs"
    using assms(3) by (simp add: types_of_def list_all2_lengthD)
  then have "build (create_call (VFun f) vs) s = build (mk_instr t Call NoData (VFun f # vs)) s"
    using assms(2) by (simp add: build_def create_call_def has_type_def del: get_type.simps)
  moreover have "returns (build (mk_instr t Call NoData (VFun f # vs)) s) (gives r E s t)"
    by (rule emit [where ts = "FunTy t as # as"]) (use assms in simp_all)
  ultimately show ?thesis by simp
qed

lemma fp_gives:
  assumes "in_fun r E s"
  shows "gives r E s FloatTy (const_fp v s)"
proof -
  obtain c s' where g: "ConstantFP_get v s = (c, s')"
    by (cases "ConstantFP_get v s")
  then have e: "const_fp v s = (VConst c, s')"
    by (simp add: const_fp_def)
  obtain n es where u: "s' = s\<lparr>fp_count := n, cached_float := es\<rparr>"
    using g by (rule ConstantFP_get_view)
  have s: "fresh_ok s" "typed s" "floats_typed s"
    using assms by (auto simp: in_fun_def sound_def)
  have "const_type c = FloatTy \<and> floats_typed s'"
  proof (cases "find_float v (cached_float s)")
    case None
    then show ?thesis
      using g s(3) by (auto simp: ConstantFP_get_def Let_def floats_typed_def)
  next
    case (Some d)
    then have "\<exists>k. (k, d) \<in> set (cached_float s)"
      by (auto dest: find_float_Some)
    then show ?thesis
      using g s(3) Some by (auto simp: ConstantFP_get_def floats_typed_def)
  qed
  moreover have "fresh_ok s'"
    using s(1) by (simp add: u fresh_ok_def)
  moreover have "typed s'"
    by (rule typed_same_instrs [OF s(2) ConstantFP_get_kept(1) [OF g] _ _ s(1)]) (simp_all add: u)
  ultimately show ?thesis
    using in_fun_step [OF assms ConstantFP_get_kept [OF g]] e by simp
qed

section \<open>The shared pieces of the visitor\<close>

abbreviation gives_tmp :: "ty \<Rightarrow> tenv \<Rightarrow> cg \<Rightarrow> ty \<Rightarrow> cg \<Rightarrow> bool" where
  "gives_tmp r E s t \<equiv> \<lambda>s'. goes r E s s' \<and> has_type s' (tmp_val s') t"

lemma to_tmp_gives: "returns m (gives r E s t) \<Longrightarrow> returns (to_tmp m) (gives_tmp r E s t)"
  by (auto simp: returns_def to_tmp_def)

lemma discard_gives: "returns m (gives r E s t) \<Longrightarrow> returns (discard m) (goes r E s)"
  by (auto simp: returns_def discard_def)

text \<open>A step after \<open>s\<close> has gone to \<open>s1\<close>.\<close>

lemma after_gives: "returns m (gives r E s1 t) \<Longrightarrow> goes r E s s1 \<Longrightarrow> returns m (gives r E s t)"
  by (erule returns_mono) (auto intro: goes_trans)

lemma after_tmp: "returns m (gives_tmp r E s1 t) \<Longrightarrow> goes r E s s1 \<Longrightarrow> returns m (gives_tmp r E s t)"
  by (erule returns_mono) (auto intro: goes_trans)

lemma after_goes: "returns m (goes r E s1) \<Longrightarrow> goes r E s s1 \<Longrightarrow> returns m (goes r E s)"
  by (erule returns_mono) (auto intro: goes_trans)

lemma promote_gives:
  assumes "in_fun r E s" and "has_type s a ta" and "has_type s b tb" and n: "num_ty ta" "num_ty tb"
  shows "returns (promote a b s) (\<lambda>(i, a', b', s'). goes r E s s' \<and> has_type s' a' (join_ty ta tb) \<and>
    has_type s' b' (join_ty ta tb) \<and> i = is_integer_type (join_ty ta tb))"
proof (cases "ta = tb")
  case True
  then show ?thesis
    using assms by (auto simp: promote_def join_ty_def has_type_def goes_refl)
next
  case False
  have g: "get_type s a = Inr ta" "get_type s b = Inr tb"
    using assms(2,3) by (simp_all add: has_type_def)
  show ?thesis
  proof (cases "ta = INT32_T")
    case True
    then have tb: "tb = FloatTy" using False n by (simp add: num_ty_def)
    have "returns (build (create_sitofp a FloatTy) s) (gives r E s FloatTy)"
      using assms(1,2) True by (simp add: sitofp_gives)
    then show ?thesis
      using assms(3) True tb by (auto simp: promote_def g returns_bnd join_ty_def elim!: returns_mono intro: goes_type)
  next
    case ta: False
    then have t: "ta = FloatTy" "tb = INT32_T" using False n by (auto simp: num_ty_def)
    have "returns (build (create_sitofp b FloatTy) s) (gives r E s FloatTy)"
      using assms(1,3) t by (simp add: sitofp_gives)
    then show ?thesis
      using assms(2) t by (auto simp: promote_def g returns_bnd join_ty_def elim!: returns_mono intro: goes_type)
  qed
qed

lemma arith_gives:
  assumes "in_fun r E s" and "has_type s a ta" and "has_type s b tb" and n: "num_ty ta" "num_ty tb"
    and ops: "iop \<in> {Add, Sub, Mul, Sdiv}" "fop \<in> {Fadd, Fsub, Fmul, Fdiv}"
  shows "returns (arith iop fop a b s) (gives_tmp r E s (join_ty ta tb))"
  unfolding arith_def
proof (rule returns_bndI [OF promote_gives [OF assms(1-5)]], clarify)
  fix i a' b' s1
  let ?t = "join_ty ta tb"
  let ?op = "if is_integer_type ?t then iop else fop"
  assume p: "goes r E s s1" "has_type s1 a' ?t" "has_type s1 b' ?t"
  have t: "binary_type ?op = ?t" "?op \<in> {Add, Sub, Mul, Sdiv, Fadd, Fsub, Fmul, Fdiv}"
    using ops join_num [OF n] by (auto simp: num_ty_def)
  have "returns (build (create_binary ?op a' b') s1) (gives r E s1 ?t)"
    using binary_gives [OF goesD [OF p(1)], of a' ?op b'] p(2,3) t by simp
  then show "returns (to_tmp (build (create_binary ?op a' b') s1)) (gives_tmp r E s ?t)"
    using p(1) by (blast intro: to_tmp_gives after_gives)
qed

lemma compare_gives:
  assumes "in_fun r E s" and "has_type s a ta" and "has_type s b tb" and n: "num_ty ta" "num_ty tb"
  shows "returns (compare op a b s) (gives_tmp r E s INT32_T)"
  unfolding compare_def
proof (rule returns_bndI [OF promote_gives [OF assms(1-5)]], clarify)
  fix i a' b' s1
  let ?t = "join_ty ta tb"
  let ?m = "if is_integer_type ?t then build (create_cmp (cmp_of op) a' b') s1 else build (create_fcmp (cmp_of op) a' b') s1"
  assume p: "goes r E s s1" "has_type s1 a' ?t" "has_type s1 b' ?t"
  have m: "returns ?m (gives r E s1 INT1_T)"
    using join_num [OF n] p(2,3) cmp_gives [OF goesD [OF p(1)]] fcmp_gives [OF goesD [OF p(1)]]
    by (cases "?t = INT32_T") (auto simp: num_ty_def)
  show "returns (bnd ?m (\<lambda>(c, s). to_tmp (build (create_zext c INT32_T) s))) (gives_tmp r E s INT32_T)"
  proof (rule returns_bndI [OF m], clarify)
    fix c s2 assume c: "goes r E s1 s2" "has_type s2 c INT1_T"
    show "returns (to_tmp (build (create_zext c INT32_T) s2)) (gives_tmp r E s INT32_T)"
      using zext_gives [OF goesD [OF c(1)] c(2)] p(1) c(1) by (blast intro: to_tmp_gives after_gives goes_trans)
  qed
qed

lemma condition_gives:
  assumes "in_fun r E s" and "has_type s v t" and n: "num_ty t"
  shows "returns (condition v s) (gives r E s INT1_T)"
proof (cases "t = INT32_T")
  case True
  have g: "get_type s v = Inr t" using assms(2) by (simp add: has_type_def)
  show ?thesis
    using assms(2) cmp_gives [OF assms(1), of v "const_int 0"] by (simp add: condition_def g True)
next
  case False
  then have t: "t = FloatTy" using n by (simp add: num_ty_def)
  obtain c s1 where c: "const_fp 0 s = (c, s1)"
    by (cases "const_fp 0 s")
  then have g: "goes r E s s1" "has_type s1 c FloatTy"
    using fp_gives [OF assms(1), of 0] by auto
  have "returns (build (create_fcmp NE v c) s1) (gives r E s1 INT1_T)"
    using fcmp_gives [OF goesD [OF g(1)]] goes_type [OF g(1) assms(2)] g(2) t by simp
  then show ?thesis
    using assms(2) t c g(1) after_gives by (simp add: condition_def has_type_def)
qed

lemma var_value_gives:
  assumes "in_fun r E s" and "has_type s v (PtrTy et)" and t: "value_ty et = Some t"
  shows "returns (var_value v et lval s) (gives_tmp r E s (if lval then PtrTy et else t))"
proof (cases lval)
  case True
  then show ?thesis
    using assms(1,2) by (simp add: var_value_def goes_refl)
next
  case False
  have load: "returns (to_tmp (build (create_load v) s)) (gives_tmp r E s et)" if "first_class et"
    by (rule to_tmp_gives [OF load_gives [OF assms(1,2) that]])
  have zero: "has_type s (const_int 0) INT32_T"
    by simp
  show ?thesis
    using False t load to_tmp_gives [OF gep_array_gives [OF assms(1) _ zero]] assms(2)
    by (cases et) (auto simp: var_value_def is_scalar_def num_ty_def split: if_splits)
qed

section \<open>Blocks and terminators\<close>

lemma sound_step:
  assumes "sound E s" and "kept s s'" and "scope s' = scope s" and "fresh_ok s'" "typed s'" "floats_typed s'"
  shows "sound E s'"
  using assms env_ok_kept by (auto simp: sound_def)

lemma BasicBlock_create_sound:
  assumes "sound E s" and f: "f_types s f \<noteq> None"
  shows "returns (BasicBlock_create n f s) (\<lambda>(b, s'). sound E s' \<and> kept s s' \<and> ir.more s' = ir.more s \<and> owner s' b = Some f)"
proof -
  have fr: "fresh_ok s" "typed s" "floats_typed s"
    using assms(1) by (simp_all add: sound_def)
  obtain c s' where mk: "BasicBlock_create n f s = Inr (c, s')"
    using f by (auto simp: BasicBlock_create_def f_types_def Let_def)
  note v = BasicBlock_create_view [OF mk fr(1)]
  note k = BasicBlock_create_kept [OF fr(1) mk]
  have more: "ir.more s' = ir.more s" "cached_float s' = cached_float s"
    using mk by (auto simp: BasicBlock_create_def Let_def)
  have own: "blocks s' p = None \<longleftrightarrow> blocks s p = None \<and> p \<noteq> c" for p
    by (simp add: owner_None_blocks [symmetric] v)
  have "fresh_ok s'"
    using fr(1) own v(1) by (auto simp: fresh_ok_def v)
  moreover have "typed s'"
    by (rule typed_same_instrs [OF fr(2) k _ _ fr(1)]) (simp_all add: v)
  ultimately have "sound E s'"
    using fr(3) by (intro sound_step [OF assms(1) k cg_more(2) [OF more(1)]]) (simp_all add: floats_typed_def more)
  then show ?thesis
    using mk k v(5) more(1) by simp
qed

lemma BasicBlock_createE:
  assumes "f_types s f = Some t" and "sound E s"
  obtains b s' where "BasicBlock_create n f s = Inr (b, s')" "sound E s'" "kept s s'" "ir.more s' = ir.more s"
    "owner s' b = Some f"
proof -
  have "f_types s f \<noteq> None" using assms(1) by simp
  then show thesis
    using BasicBlock_create_sound [OF assms(2), of f n] that by (auto simp: returns_def)
qed

lemma new_block_gives:
  assumes "in_fun r E s"
  shows "returns (new_block n s) (\<lambda>(b, s'). goes r E s s' \<and> (\<exists>f. cur_fun s = Some f \<and> owner s' b = Some f))"
  using assms
proof (rule in_funE)
  fix f b ps assume f: "cur_fun s = Some f" "f_types s f = Some (FunTy r ps)" "sound E s"
  obtain c s' where c: "BasicBlock_create n f s = Inr (c, s')" "sound E s'" "kept s s'" "ir.more s' = ir.more s"
    "owner s' c = Some f"
    by (rule BasicBlock_createE [OF f(2,3)])
  then have "goes r E s s'"
    by (intro in_fun_step [OF assms c(3,4)]) (simp_all add: sound_def)
  then show ?thesis
    using c f(1) by (simp add: new_block_def)
qed

text \<open>A block to which the function can branch.\<close>

definition target :: "cg \<Rightarrow> nat \<Rightarrow> bool" where
  "target s b \<longleftrightarrow> (\<exists>f. cur_fun s = Some f \<and> owner s b = Some f)"

lemma goes_target: "goes r E s s' \<Longrightarrow> target s b \<Longrightarrow> target s' b"
  unfolding goes_def target_def steady_def framed_def using keptD(4) by metis

lemma new_block_target:
  "in_fun r E s \<Longrightarrow> returns (new_block n s) (\<lambda>(b, s'). goes r E s s' \<and> target s' b)"
  by (drule new_block_gives [of _ _ _ n], erule returns_mono)
    (auto simp: target_def goes_def steady_def framed_def)

lemma target_type: "target s b \<Longrightarrow> has_type s (VBB b) LabelTy"
  unfolding target_def has_type_def get_type_view by auto

lemma in_fun_lookup:
  "in_fun r E s \<Longrightarrow> lookup E n = Some t \<Longrightarrow> realises s (find (scope s) n) t"
  unfolding in_fun_def sound_def by (blast intro: env_ok_lookup)

lemma same_code_goes:
  assumes "in_fun r E s" and "same_code s s'"
  shows "goes r E s s'"
proof -
  have s: "fresh_ok s" "typed s" "floats_typed s"
    using assms(1) by (auto simp: in_fun_def sound_def)
  have e: "next_id s' = next_id s" "instrs s' = instrs s" "owner s' = owner s" "funs s' = funs s"
    "gvars s' = gvars s" "operands s' = operands s" "cached_float s' = cached_float s" "ir.more s' = ir.more s"
    using assms(2) by (simp_all add: same_code_def)
  have "blocks s' p = None \<longleftrightarrow> blocks s p = None" for p
    by (simp add: owner_None_blocks [symmetric] e)
  then have "fresh_ok s'"
    using s(1) by (simp add: fresh_ok_def e)
  moreover have "typed s'"
    by (rule typed_same_instrs [OF s(2) same_code_kept [OF assms(2)] _ _ s(1)]) (simp_all add: e)
  ultimately show ?thesis
    using s(3) by (intro in_fun_step [OF assms(1) same_code_kept [OF assms(2)] e(8)])
      (simp_all add: floats_typed_def e)
qed

lemma edge_total:
  "owner s c \<noteq> None \<Longrightarrow> returns (add_pre_basic_block c b s) (same_code s)"
  "owner s c \<noteq> None \<Longrightarrow> returns (add_succ_basic_block c b s) (same_code s)"
proof -
  assume "owner s c \<noteq> None"
  then obtain k where k: "blocks s c = Some k" by (auto simp: owner_def)
  then obtain s1 s2 where s: "add_pre_basic_block c b s = Inr s1" "add_succ_basic_block c b s = Inr s2"
    by (simp add: add_pre_basic_block_def add_succ_basic_block_def modify_block_def)
  show "returns (add_pre_basic_block c b s) (same_code s)"
    using add_pre_view(1) [OF s(1)] s(1) by simp
  show "returns (add_succ_basic_block c b s) (same_code s)"
    using add_succ_view(1) [OF s(2)] s(2) by simp
qed

lemma same_code_owner: "same_code s s' \<Longrightarrow> owner s' = owner s"
  by (simp add: same_code_def)

lemma br_goes:
  assumes "in_fun r E s" and "target s t"
  shows "returns (discard (build (create_br t) s)) (goes r E s)"
proof -
  obtain b where b: "insert_bb s = Some b" "owner s b \<noteq> None"
    using assms(1) by (auto simp: in_fun_def)
  have o: "owner s t \<noteq> None" using assms(2) by (auto simp: target_def)
  have "returns (create_br t b s) (gives r E s VoidTy)"
    unfolding create_br_def
  proof (rule returns_bndI [OF edge_total(1) [OF o]])
    fix s1 assume s1: "same_code s s1"
    have o1: "owner s1 b \<noteq> None" using b(2) same_code_owner [OF s1] by simp
    show "returns (bnd (add_succ_basic_block b t s1) (mk_instr VoidTy Br NoData [VBB t] b)) (gives r E s VoidTy)"
    proof (rule returns_bndI [OF edge_total(2) [OF o1]])
      fix s2 assume "same_code s1 s2"
      then have g: "goes r E s s2" "insert_bb s2 = Some b"
        using same_code_goes [OF assms(1)] same_code_trans [OF s1] cg_more(1) [of s2 s] b(1)
        by (auto simp: same_code_def)
      have "returns (build (mk_instr VoidTy Br NoData [VBB t]) s2) (gives r E s2 VoidTy)"
        by (rule emit [OF goesD [OF g(1)], where ts = "[LabelTy]"])
          (use target_type [OF goes_target [OF g(1) assms(2)]] in simp_all)
      then show "returns (mk_instr VoidTy Br NoData [VBB t] b s2) (gives r E s VoidTy)"
        using after_gives [OF _ g(1)] g(2) by (simp add: build_def)
    qed
  qed
  then show ?thesis
    using b(1) discard_gives by (simp add: build_def)
qed

lemma cond_br_goes:
  assumes "in_fun r E s" and "target s t" and "target s f" and "has_type s c INT1_T"
  shows "returns (discard (build (create_cond_br c t f) s)) (goes r E s)"
proof -
  obtain b where b: "insert_bb s = Some b" "owner s b \<noteq> None"
    using assms(1) by (auto simp: in_fun_def)
  have o: "owner s t \<noteq> None" "owner s f \<noteq> None"
    using assms(2,3) by (auto simp: target_def)
  have edges: "returns (bnd (add_pre_basic_block t b s) (\<lambda>s. bnd (add_pre_basic_block f b s) (\<lambda>s.
      bnd (add_succ_basic_block b f s) (add_succ_basic_block b t)))) (same_code s)"
    by (rule returns_bndI [OF edge_total(1)] returns_mono [OF edge_total(2)] returns_bndI [OF edge_total(2)];
        (auto simp: same_code_owner o b intro: same_code_trans)?)+
  have "returns (create_cond_br c t f b s) (gives r E s VoidTy)"
  proof -
    obtain s4 where s4: "bnd (add_pre_basic_block t b s) (\<lambda>s. bnd (add_pre_basic_block f b s) (\<lambda>s.
      bnd (add_succ_basic_block b f s) (add_succ_basic_block b t))) = Inr s4" "same_code s s4"
      using edges by (auto simp: returns_def)
    then have g: "goes r E s s4" "insert_bb s4 = Some b"
      using same_code_goes [OF assms(1)] cg_more(1) [of s4 s] b(1) by (auto simp: same_code_def)
    have "returns (build (mk_instr VoidTy Br NoData [c, VBB t, VBB f]) s4) (gives r E s4 VoidTy)"
      by (rule emit [OF goesD [OF g(1)], where ts = "[INT1_T, LabelTy, LabelTy]"])
        (use target_type goes_target [OF g(1)] assms(2-4) goes_type [OF g(1)] in simp_all)
    then have "returns (mk_instr VoidTy Br NoData [c, VBB t, VBB f] b s4) (gives r E s VoidTy)"
      using after_gives [OF _ g(1)] g(2) by (simp add: build_def)
    moreover have "create_cond_br c t f b s = mk_instr VoidTy Br NoData [c, VBB t, VBB f] b s4"
      using s4(1) by (auto simp: create_cond_br_def)
    ultimately show ?thesis by simp
  qed
  then show ?thesis
    using b(1) discard_gives by (simp add: build_def)
qed

lemma ret_goes:
  assumes "in_fun r E s" and "num_ty r" and "has_type s v r"
  shows "returns (discard (build (create_ret v) s)) (goes r E s)"
proof -
  have "returns (build (create_ret v) s) (gives r E s VoidTy)"
    unfolding create_ret_def
    by (rule emit [OF assms(1), where ts = "[r]"]) (use assms(2,3) in \<open>auto simp: num_ty_def\<close>)
  then show ?thesis by (rule discard_gives)
qed

lemma void_ret_goes:
  assumes "in_fun VoidTy E s"
  shows "returns (discard (build create_void_ret s)) (goes VoidTy E s)"
proof -
  have "returns (build create_void_ret s) (gives VoidTy E s VoidTy)"
    unfolding create_void_ret_def by (rule emit [OF assms, where ts = "[]"]) simp_all
  then show ?thesis by (rule discard_gives)
qed

lemma in_fun_result:
  assumes "in_fun r E s"
  obtains f ps where "cur_fun s = Some f" "get_type s (VFun f) = Inr (FunTy r ps)"
proof -
  obtain f ps where "cur_fun s = Some f" "f_types s f = Some (FunTy r ps)"
    using assms by (rule in_funE)
  then show thesis
    using that [of f ps] unfolding get_type_view by simp
qed

lemma default_return_goes:
  assumes "in_fun r E s"
  shows "returns (default_return s) (goes r E s)"
  using assms
proof (rule in_fun_result)
  fix f ps assume f: "cur_fun s = Some f" "get_type s (VFun f) = Inr (FunTy r ps)"
  then have e: "default_return s = (if is_void_type r then discard (build create_void_ret s)
     else if is_float_type r
     then (let (c, s) = const_fp 0 s in discard (build (create_ret c) s))
     else discard (build (create_ret (const_int 0)) s))"
    by (simp add: default_return_def del: get_type.simps)
  have "r = VoidTy \<or> num_ty r"
    using assms by (simp add: in_fun_def)
  then consider "r = VoidTy" | "r = INT32_T" | "r = FloatTy"
    by (auto simp: num_ty_def)
  then show ?thesis
  proof cases
    case 1
    then show ?thesis using assms void_ret_goes by (simp add: e)
  next
    case 2
    then show ?thesis using ret_goes [OF assms, of "const_int 0"] by (simp add: e)
  next
    case 3
    obtain c s1 where c: "const_fp 0 s = (c, s1)"
      by (cases "const_fp 0 s")
    then have g: "goes r E s s1" "has_type s1 c FloatTy"
      using fp_gives [OF assms, of 0] by auto
    then show ?thesis
      using after_goes [OF ret_goes [OF goesD [OF g(1)]] g(1)] 3 c by (simp add: e)
  qed
qed

lemma target_insert: "in_fun r E s \<Longrightarrow> target s b \<Longrightarrow> goes r E s (set_insert_point b s)"
  by (auto simp: goes_def set_insert_point_def in_fun_def target_def steady_def framed_def)

section \<open>Elements and assignments\<close>

lemma index_check_gives:
  assumes "in_fun r E s" and "has_type s v t" and n: "num_ty t"
    and handler: "lookup E ''neg_idx_except'' = Some (FunTy VoidTy [])"
  shows "returns (index_check v s) (gives r E s INT32_T)"
proof -
  obtain e s1 where s1: "new_block '''' s = Inr (e, s1)" "goes r E s s1" "target s1 e"
    using new_block_target [OF assms(1)] by (rule returns_pairE) blast
  obtain c s2 where s2: "new_block '''' s1 = Inr (c, s2)" "goes r E s1 s2" "target s2 c"
    using new_block_target [OF goesD [OF s1(2)]] by (rule returns_pairE) blast
  note g2 = goes_trans [OF s1(2) s2(2)]
  have t2: "get_type s2 v = Inr t" "target s2 e"
    using goes_type [OF g2 assms(2)] goes_target [OF s2(2) s1(3)] by (simp_all add: has_type_def)
  have "returns (if is_float_type t then build (create_fptosi v INT32_T) s2 else Inr (v, s2)) (gives r E s2 INT32_T)"
    using n t2(1) fptosi_gives [OF goesD [OF g2]] goes_refl [OF goesD [OF g2]]
    by (auto simp: num_ty_def has_type_def)
  then obtain i s3 where s3: "(if is_float_type t then build (create_fptosi v INT32_T) s2 else Inr (v, s2)) = Inr (i, s3)"
    "goes r E s2 s3" "has_type s3 i INT32_T"
    by (rule returns_pairE) blast
  note g3 = goes_trans [OF g2 s3(2)]
  have zero: "has_type s3 (const_int 0) INT32_T" by simp
  obtain neg s4 where s4: "build (create_cmp LT i (const_int 0)) s3 = Inr (neg, s4)" "goes r E s3 s4"
    "has_type s4 neg INT1_T"
    using cmp_gives [OF goesD [OF g3] s3(3) zero] by (rule returns_pairE) blast
  note g24 = goes_trans [OF s3(2) s4(2)]
  obtain s5 where s5: "discard (build (create_cond_br neg e c) s4) = Inr s5" "goes r E s4 s5"
    using cond_br_goes [OF goesD [OF s4(2)] goes_target [OF g24 t2(2)] goes_target [OF g24 s2(3)] s4(3)]
    by (rule returnsE)
  note g25 = goes_trans [OF g24 s5(2)]
  let ?s6 = "set_insert_point e s5"
  have s6: "goes r E s5 ?s6"
    by (rule target_insert [OF goesD [OF s5(2)] goes_target [OF g25 t2(2)]])
  obtain f where f: "find (scope ?s6) ''neg_idx_except'' = VFun f" "has_type ?s6 (VFun f) (FunTy VoidTy [])"
    using in_fun_lookup [OF goesD [OF s6] handler] by (auto simp: realises_def)
  have nil: "types_of ?s6 [] []" by simp
  obtain s7 where s7: "discard (build (create_call (VFun f) []) ?s6) = Inr s7" "goes r E ?s6 s7"
    using discard_gives [OF call_gives [OF goesD [OF s6] f(2) nil]] by (rule returnsE)
  obtain s8 where s8: "default_return s7 = Inr s8" "goes r E s7 s8"
    using default_return_goes [OF goesD [OF s7(2)]] by (rule returnsE)
  note g38 = goes_trans [OF goes_trans [OF s4(2) s5(2)] goes_trans [OF s6 goes_trans [OF s7(2) s8(2)]]]
  have "goes r E s8 (set_insert_point c s8)"
    by (rule target_insert [OF goesD [OF s8(2)] goes_target [OF g38 goes_target [OF s3(2) s2(3)]]])
  then have g39: "goes r E s3 (set_insert_point c s8)"
    by (rule goes_trans [OF g38])
  have "index_check v s = Inr (i, set_insert_point c s8)"
    using f(1) s7(1) by (simp add: index_check_def s1(1) s2(1) t2(1) s3(1) s4(1) s5(1) s8(1) Let_def cong: if_cong)
  then show ?thesis
    using goes_trans [OF g3 g39] goes_type [OF g39 s3(3)] by simp
qed

lemma access_end:
  assumes "returns m (gives r E s (PtrTy t))" and "num_ty t"
  shows "returns (bnd m (\<lambda>(p, s). if lval then Inr (s\<lparr>tmp_val := p\<rparr>) else to_tmp (build (create_load p) s)))
    (gives_tmp r E s (if lval then PtrTy t else t))"
  using assms(1)
proof (rule returns_pairE)
  fix p s1 assume p: "m = Inr (p, s1)" "goes r E s s1 \<and> has_type s1 p (PtrTy t)"
  have "first_class t" using assms(2) by (auto simp: num_ty_def)
  then have "returns (to_tmp (build (create_load p) s1)) (gives_tmp r E s t)"
    using p(2) load_gives goesD after_tmp to_tmp_gives by blast
  then show ?thesis
    using p by (simp add: returns_bnd)
qed

lemma element_access_gives:
  assumes "in_fun r E s" and "has_type s v (PtrTy et)" and "has_type s i INT32_T" and t: "index_ty et = Some t"
  shows "returns (element_access v et lval i s) (gives_tmp r E s (if lval then PtrTy t else t))"
proof -
  have num: "num_ty t"
    using t by (cases et) (auto split: if_splits)
  consider "et = t" | "et = PtrTy t" | n where "et = ArrTy t n"
    using t by (cases et) (auto split: if_splits)
  then show ?thesis
  proof cases
    case 1
    then have "is_scalar et" using num by (auto simp: is_scalar_def num_ty_def)
    then show ?thesis
      using access_end [OF gep_step_gives [OF assms(1) _ assms(3) num] num] 1 assms(2)
      by (simp add: element_access_def)
  next
    case 2
    have "first_class (PtrTy t)" by simp
    then obtain a s1 where a: "build (create_load v) s = Inr (a, s1)" "goes r E s s1" "has_type s1 a (PtrTy t)"
      using load_gives [OF assms(1)] assms(2) 2 by (blast elim: returns_pairE)
    have "returns (build (create_gep a [i]) s1) (gives r E s (PtrTy t))"
      using gep_step_gives [OF goesD [OF a(2)] a(3) goes_type [OF a(2) assms(3)] num] a(2)
      by (rule after_gives)
    then show ?thesis
      using access_end [OF _ num, of "build (create_gep a [i]) s1"] 2 a(1)
      by (simp add: element_access_def is_scalar_def)
  next
    case 3
    then show ?thesis
      using access_end [OF gep_array_gives [OF assms(1) _ assms(3) num] num] assms(2)
      by (simp add: element_access_def is_scalar_def)
  qed
qed

text \<open>A value is converted to the type that is expected.\<close>

lemma convert_gives:
  assumes "in_fun r E s" and "has_type s v t" and "num_ty t" "num_ty u" "u \<noteq> t"
  shows "returns (if t = INT32_T then build (create_sitofp v FloatTy) s else build (create_fptosi v INT32_T) s)
    (gives r E s u)"
  using assms sitofp_gives fptosi_gives by (auto simp: num_ty_def)

lemma assign_gives:
  assumes "in_fun r E s" and "has_type s addr (PtrTy u)" and "has_type s v t" and f: "fits t u"
  shows "returns (assign v addr s) (gives_tmp r E s u)"
proof -
  have g: "get_type s addr = Inr (PtrTy u)" "get_type s v = Inr t"
    using assms(2,3) by (simp_all add: has_type_def)
  have "returns (if u \<noteq> t then if t = INT32_T then build (create_sitofp v FloatTy) s
       else build (create_fptosi v INT32_T) s else Inr (v, s)) (gives r E s u)"
    using convert_gives [OF assms(1,3)] f assms(3) goes_refl [OF assms(1)] by (auto simp: fits_def)
  then obtain w s1 where w: "(if u \<noteq> t then if t = INT32_T then build (create_sitofp v FloatTy) s
       else build (create_fptosi v INT32_T) s else Inr (v, s)) = Inr (w, s1)" "goes r E s s1" "has_type s1 w u"
    by (rule returns_pairE) blast
  have "first_class u"
    using f by (cases u) (auto simp: fits_def num_ty_def)
  then obtain s2 where s2: "discard (build (create_store w addr) s1) = Inr s2" "goes r E s1 s2"
    using discard_gives [OF store_gives [OF goesD [OF w(2)] w(3) goes_type [OF w(2) assms(2)]]]
    by (blast elim: returnsE)
  have "assign v addr s = Inr (s2\<lparr>tmp_val := w\<rparr>)"
    using w(1) by (simp add: assign_def g s2(1) cong: if_cong)
  then show ?thesis
    using goes_trans [OF w(2) s2(2)] goes_type [OF s2(2) w(3)] by simp
qed

lemma convert_arg_gives:
  assumes "in_fun r E s" and "has_type s (tmp_val s) t" and f: "fits t u"
  shows "returns (convert_arg (u # ps) s) (gives_tmp r E s u)"
proof -
  have g: "get_type s (tmp_val s) = Inr t"
    using assms(2) by (simp add: has_type_def)
  show ?thesis
  proof (cases "t = u")
    case True
    then show ?thesis
      using assms(2) goes_refl [OF assms(1)] by (simp add: convert_arg_def g)
  next
    case False
    then have n: "num_ty t" "num_ty u" using f by (auto simp: fits_def)
    then have "is_integer_type t \<longleftrightarrow> t = INT32_T" "\<not> is_pointer_type t" by (auto simp: num_ty_def)
    then show ?thesis
      using to_tmp_gives [OF convert_gives [OF assms(1,2) n]] False by (auto simp: convert_arg_def g split: if_splits)
  qed
qed

end
