(* ===== verification/Codegen_Types.thy ===== *)
theory Codegen_Types
  imports Codegen_Steps
begin

text \<open>
  Well-typed programs are translated, and to well-typed instructions: the visits of expressions,
  declarations, statements, functions and programs, by induction over the abstract syntax on the
  steps of the previous theory.
\<close>

section \<open>Expressions\<close>

lemma lookup_var_gives:
  assumes "in_fun r E s" and "lookup E n = Some (PtrTy t)"
  shows "\<exists>v. lookup_var n s = Inr (v, t, require_lvalue s, s\<lparr>require_lvalue := False\<rparr>) \<and> has_type s v (PtrTy t)"
proof -
  have v: "has_type s (find (scope s) n) (PtrTy t)"
    using in_fun_lookup [OF assms] by (simp add: realises_def)
  then have "find (scope s) n \<noteq> VNull" "get_type s (find (scope s) n) = Inr (PtrTy t)"
    by (auto simp: has_type_def)
  with v show ?thesis
    by (simp add: lookup_var_def Let_def)
qed

lemma flag_id: "\<not> require_lvalue s \<Longrightarrow> s\<lparr>require_lvalue := False\<rparr> = (s :: cg)"
  by simp

text \<open>What is proved of each kind of expression; a variable is visited with the flag set or not.\<close>

definition visits :: "(cg \<Rightarrow> cg res) \<Rightarrow> (tenv \<Rightarrow> ty option) \<Rightarrow> bool" where
  "visits m ty_of \<longleftrightarrow> (\<forall>r E s t. ty_of E = Some t \<longrightarrow> in_fun r E s \<longrightarrow> \<not> require_lvalue s \<longrightarrow>
     returns (m s) (gives_tmp r E s t))"

lemma visitsE:
  assumes "visits m ty_of" and "ty_of E = Some t" and "in_fun r E s" and "\<not> require_lvalue s"
  obtains s' where "m s = Inr s'" and "goes r E s s'" and "has_type s' (tmp_val s') t"
    and "\<not> require_lvalue s'"
  using assms goes_flag unfolding visits_def returns_def by blast

lemma visits_two:
  assumes "visits m ty_of" and "visits m' ty_of'" and "ty_of E = Some t" and "ty_of' E = Some t'"
    and "in_fun r E s" and "\<not> require_lvalue s"
  obtains s1 s2 where "m s = Inr s1" "m' s1 = Inr s2" "goes r E s s2" "has_type s2 (tmp_val s1) t"
    "has_type s2 (tmp_val s2) t'"
  using assms(1,3,5,6)
proof (rule visitsE)
  fix s1 assume 1: "m s = Inr s1" "goes r E s s1" "has_type s1 (tmp_val s1) t" "\<not> require_lvalue s1"
  show thesis
    using assms(2,4) goesD [OF 1(2)] 1(4)
  proof (rule visitsE)
    fix s2 assume "m' s1 = Inr s2" "goes r E s1 s2" "has_type s2 (tmp_val s2) t'"
    then show thesis
      using that 1 goes_trans goes_type by blast
  qed
qed

definition visits_at :: "avar \<Rightarrow> bool" where
  "visits_at v \<longleftrightarrow> (\<forall>r E s t. infer_var E (require_lvalue s) v = Some t \<longrightarrow> in_fun r E s \<longrightarrow>
     returns (visit_var v s) (gives_tmp r E (s\<lparr>require_lvalue := False\<rparr>) t))"

lemma visits_args:
  assumes "\<And>e. e \<in> set es \<Longrightarrow> visits (visit_expression e) (\<lambda>E. infer_expression E e)"
    and "infer_args E es ps" and "in_fun r E s" and "\<not> require_lvalue s"
  shows "returns (visit_args es ps s) (\<lambda>(vs, s'). goes r E s s' \<and> types_of s' vs ps)"
  using assms
proof (induction es arbitrary: ps s)
  case Nil
  then show ?case by (cases ps) (simp_all add: goes_refl)
next
  case (Cons e es)
  then obtain u us t where ps: "ps = u # us" and t: "infer_expression E e = Some t" "fits t u" "infer_args E es us"
    by (cases ps) (auto split: option.splits)
  obtain s1 where s1: "visit_expression e s = Inr s1" "goes r E s s1" "has_type s1 (tmp_val s1) t" "\<not> require_lvalue s1"
    using Cons.prems(1) [of e] t(1) Cons.prems(3,4) by (auto elim: visitsE)
  obtain s2 where s2: "convert_arg ps s1 = Inr s2" "goes r E s1 s2" "has_type s2 (tmp_val s2) u"
    using convert_arg_gives [OF goesD [OF s1(2)] s1(3) t(2)] ps by (auto elim: returnsE)
  have fl: "\<not> require_lvalue s2"
    using goes_flag [OF s2(2)] s1(4) by simp
  obtain vs s3 where s3: "visit_args es us s2 = Inr (vs, s3)" "goes r E s2 s3" "types_of s3 vs us"
    using Cons.IH [OF _ t(3) goesD [OF s2(2)] fl] Cons.prems(1) by (auto elim: returns_pairE)
  show ?case
    using s1(1) s2(1) s3 ps goes_trans [OF s1(2) goes_trans [OF s2(2) s3(2)]] goes_type [OF s3(2) s2(3)] by simp
qed

lemma visits_assign:
  assumes e: "visits (visit_expression e) (\<lambda>E. infer_expression E e)" and v: "visits_at v"
  shows "visits (visit_expression (AssignE v e)) (\<lambda>E. infer_expression E (AssignE v e))"
  unfolding visits_def
proof (intro allI impI)
  fix r E s t assume a: "infer_expression E (AssignE v e) = Some t" "in_fun r E s" "\<not> require_lvalue s"
  then obtain u where u: "infer_expression E e = Some u" "infer_var E True v = Some (PtrTy t)" "fits u t"
    by (auto split: option.splits ty.splits if_splits)
  obtain s1 where s1: "visit_expression e s = Inr s1" "goes r E s s1" "has_type s1 (tmp_val s1) u" "\<not> require_lvalue s1"
    using e u(1) a(2,3) by (rule visitsE)
  have "returns (visit_var v (s1\<lparr>require_lvalue := True\<rparr>)) (gives_tmp r E s1 (PtrTy t))"
    using v [unfolded visits_at_def, rule_format, of E "s1\<lparr>require_lvalue := True\<rparr>" "PtrTy t" r] u(2)
      goesD [OF s1(2)] flag_id [OF s1(4)] by simp
  then obtain s2 where s2: "visit_var v (s1\<lparr>require_lvalue := True\<rparr>) = Inr s2" "goes r E s1 s2"
    "has_type s2 (tmp_val s2) (PtrTy t)"
    by (auto elim: returnsE)
  show "returns (visit_expression (AssignE v e) s) (gives_tmp r E s t)"
    using after_tmp [OF assign_gives [OF goesD [OF s2(2)] s2(3) goes_type [OF s2(2) s1(3)] u(3)] goes_trans [OF s1(2) s2(2)]]
      s1(1) s2(1) by (simp add: Let_def)
qed

lemma visits_index:
  assumes e: "visits (visit_expression e) (\<lambda>E. infer_expression E e)"
  shows "visits_at (VarIndex n e)"
  unfolding visits_at_def
proof (intro allI impI)
  fix r E and s :: cg and t
  let ?s = "s\<lparr>require_lvalue := False\<rparr>"
  assume a: "infer_var E (require_lvalue s) (VarIndex n e) = Some t" "in_fun r E s"
  then obtain et it u where u: "lookup E n = Some (PtrTy et)" "infer_expression E e = Some it" "num_ty it"
    "lookup E ''neg_idx_except'' = Some (FunTy VoidTy [])" "index_ty et = Some u"
    "t = (if require_lvalue s then PtrTy u else u)"
    by (auto split: option.splits ty.splits if_splits)
  obtain v where v: "lookup_var n s = Inr (v, et, require_lvalue s, ?s)" "has_type s v (PtrTy et)"
    using lookup_var_gives [OF a(2) u(1)] by blast
  have 0: "in_fun r E ?s" "\<not> require_lvalue ?s" using a(2) by simp_all
  obtain s1 where s1: "visit_expression e ?s = Inr s1" "goes r E ?s s1" "has_type s1 (tmp_val s1) it"
    using e u(2) 0 by (rule visitsE)
  obtain i s2 where s2: "index_check (tmp_val s1) s1 = Inr (i, s2)" "goes r E s1 s2" "has_type s2 i INT32_T"
    using index_check_gives [OF goesD [OF s1(2)] s1(3) u(3,4)] by (rule returns_pairE) blast
  note g = goes_trans [OF s1(2) s2(2)]
  have "has_type ?s v (PtrTy et)" using v(2) by simp
  from after_tmp [OF element_access_gives [OF goesD [OF s2(2)] goes_type [OF g this] s2(3) u(5), of "require_lvalue s"] g]
  show "returns (visit_var (VarIndex n e) s) (gives_tmp r E ?s t)"
    unfolding u(6) by (simp add: v(1) s1(1) s2(1))
qed

lemma visits_rel:
  assumes l: "visits (visit_additive l) (\<lambda>E. infer_additive E l)" and q: "visits (visit_additive q) (\<lambda>E. infer_additive E q)"
  shows "visits (visit_expression (RelE l op q)) (\<lambda>E. infer_expression E (RelE l op q))"
  unfolding visits_def
proof (intro allI impI)
  fix r E s t assume a: "infer_expression E (RelE l op q) = Some t" "in_fun r E s" "\<not> require_lvalue s"
  then obtain ta tb where t: "infer_additive E l = Some ta" "infer_additive E q = Some tb" "num_ty ta" "num_ty tb" "t = INT32_T"
    by (auto split: option.splits if_splits)
  show "returns (visit_expression (RelE l op q) s) (gives_tmp r E s t)"
    using l q t(1,2) a(2,3)
  proof (rule visits_two)
    fix s1 s2 assume g: "visit_additive l s = Inr s1" "visit_additive q s1 = Inr s2" "goes r E s s2"
      "has_type s2 (tmp_val s1) ta" "has_type s2 (tmp_val s2) tb"
    show ?thesis
      using after_tmp [OF compare_gives [OF goesD [OF g(3)] g(4,5) t(3,4)] g(3)] g(1,2) t(5) by (simp add: Let_def)
  qed
qed

lemma visits_arith:
  assumes m: "visits m ty_of" and m': "visits m' ty_of'"
    and ops: "iop \<in> {Add, Sub, Mul, Sdiv}" "fop \<in> {Fadd, Fsub, Fmul, Fdiv}"
  shows "visits (\<lambda>s. bnd (m s) (\<lambda>s. let l_val = tmp_val s in bnd (m' s) (\<lambda>s. arith iop fop l_val (tmp_val s) s)))
    (\<lambda>E. case (ty_of E, ty_of' E) of
        (Some l, Some r) \<Rightarrow> if num_ty l \<and> num_ty r then Some (join_ty l r) else None | _ \<Rightarrow> None)"
  unfolding visits_def
proof (intro allI impI)
  fix r E s t
  assume a: "(case (ty_of E, ty_of' E) of
      (Some l, Some r) \<Rightarrow> if num_ty l \<and> num_ty r then Some (join_ty l r) else None | _ \<Rightarrow> None) = Some t"
    and s: "in_fun r E s" "\<not> require_lvalue s"
  then obtain ta tb where t: "ty_of E = Some ta" "ty_of' E = Some tb" "num_ty ta" "num_ty tb" "t = join_ty ta tb"
    by (auto split: option.splits if_splits)
  show "returns (bnd (m s) (\<lambda>s. let l_val = tmp_val s in bnd (m' s) (\<lambda>s. arith iop fop l_val (tmp_val s) s)))
      (gives_tmp r E s t)"
    using m m' t(1,2) s
  proof (rule visits_two)
    fix s1 s2 assume g: "m s = Inr s1" "m' s1 = Inr s2" "goes r E s s2" "has_type s2 (tmp_val s1) ta" "has_type s2 (tmp_val s2) tb"
    show ?thesis
      using after_tmp [OF arith_gives [OF goesD [OF g(3)] g(4,5) t(3,4) ops] g(3)] g(1,2) t(5) by (simp add: Let_def)
  qed
qed

lemma visits_var:
  "visits_at (Var n)"
  unfolding visits_at_def
proof (intro allI impI)
  fix r E and s :: cg and t
  let ?s = "s\<lparr>require_lvalue := False\<rparr>"
  assume a: "infer_var E (require_lvalue s) (Var n) = Some t" "in_fun r E s"
  then obtain et where u: "lookup E n = Some (PtrTy et)" "if require_lvalue s then t = PtrTy et else value_ty et = Some t"
    by (auto split: option.splits ty.splits if_splits)
  obtain v where v: "lookup_var n s = Inr (v, et, require_lvalue s, ?s)" "has_type ?s v (PtrTy et)"
    using lookup_var_gives [OF a(2) u(1)] by auto
  have s: "in_fun r E ?s" using a(2) by simp
  have "returns (var_value v et (require_lvalue s) ?s) (gives_tmp r E ?s t)"
  proof (cases "require_lvalue s")
    case True
    then show ?thesis
      using u(2) v(2) goes_refl [OF s] by (simp add: var_value_def)
  next
    case False
    then show ?thesis
      using var_value_gives [OF s v(2), of t False] u(2) by simp
  qed
  then show "returns (visit_var (Var n) s) (gives_tmp r E ?s t)"
    using v(1) by simp
qed

lemma visits_call:
  assumes "\<And>e. e \<in> set es \<Longrightarrow> visits (visit_expression e) (\<lambda>E. infer_expression E e)"
  shows "visits (visit_factor (FCall n es)) (\<lambda>E. infer_factor E (FCall n es))"
  unfolding visits_def
proof (intro allI impI)
  fix r E s t assume a: "infer_factor E (FCall n es) = Some t" "in_fun r E s" "\<not> require_lvalue s"
  then obtain ps where p: "lookup E n = Some (FunTy t ps)" "infer_args E es ps"
    by (auto split: option.splits ty.splits if_splits)
  obtain f where f: "find (scope s) n = VFun f" "has_type s (VFun f) (FunTy t ps)"
    using in_fun_lookup [OF a(2) p(1)] by (auto simp: realises_def)
  have l: "lookup_fun n s = Inr (VFun f, ps)"
    using f by (simp add: lookup_fun_def has_type_def del: get_type.simps)
  obtain vs s1 where s1: "visit_args es ps s = Inr (vs, s1)" "goes r E s s1" "types_of s1 vs ps"
    using visits_args [OF assms p(2) a(2,3)] by (auto elim: returns_pairE)
  show "returns (visit_factor (FCall n es) s) (gives_tmp r E s t)"
    using after_tmp [OF to_tmp_gives [OF call_gives [OF goesD [OF s1(2)] goes_type [OF s1(2) f(2)] s1(3)]] s1(2)] l s1(1)
    by simp
qed

lemma visits_num: "visits (visit_factor (FNum n)) (\<lambda>E. infer_factor E (FNum n))"
  unfolding visits_def
proof (intro allI impI)
  fix r E s t assume a: "infer_factor E (FNum n) = Some t" "in_fun r E s"
  show "returns (visit_factor (FNum n) s) (gives_tmp r E s t)"
  proof (cases n)
    case (NumInt i)
    then show ?thesis
      using a goes_refl [OF a(2)] by (simp add: visit_num_def)
  next
    case (NumFloat v)
    obtain c s1 where c: "const_fp v s = (c, s1)"
      by (cases "const_fp v s")
    then show ?thesis
      using a(1) NumFloat fp_gives [OF a(2), of v] by (simp add: visit_num_def)
  qed
qed

lemma opids_in:
  "int_add a \<in> {Add, Sub, Mul, Sdiv}" "float_add a \<in> {Fadd, Fsub, Fmul, Fdiv}"
  by (cases a; simp)+

lemma opids_in2:
  "int_mul m \<in> {Add, Sub, Mul, Sdiv}" "float_mul m \<in> {Fadd, Fsub, Fmul, Fdiv}"
  by (cases m; simp)+

lemma visits_bin:
  "visits (visit_additive a) (\<lambda>E. infer_additive E a) \<Longrightarrow> visits (visit_term t) (\<lambda>E. infer_term E t) \<Longrightarrow>
     visits (visit_additive (AddBin a op t)) (\<lambda>E. infer_additive E (AddBin a op t))"
  "visits (visit_term t) (\<lambda>E. infer_term E t) \<Longrightarrow> visits (visit_factor f) (\<lambda>E. infer_factor E f) \<Longrightarrow>
     visits (visit_term (TermBin t m f)) (\<lambda>E. infer_term E (TermBin t m f))"
proof -
  assume a: "visits (visit_additive a) (\<lambda>E. infer_additive E a)" and t: "visits (visit_term t) (\<lambda>E. infer_term E t)"
  show "visits (visit_additive (AddBin a op t)) (\<lambda>E. infer_additive E (AddBin a op t))"
    using visits_arith [OF a t opids_in, of op op] by (simp add: visits_def)
next
  assume t: "visits (visit_term t) (\<lambda>E. infer_term E t)" and f: "visits (visit_factor f) (\<lambda>E. infer_factor E f)"
  show "visits (visit_term (TermBin t m f)) (\<lambda>E. infer_term E (TermBin t m f))"
    using visits_arith [OF t f opids_in2, of m m] by (simp add: visits_def)
qed

text \<open>Through the chain of nodes that only wrap another.\<close>

lemma visits_wrap:
  "visits (visit_additive a) (\<lambda>E. infer_additive E a) \<Longrightarrow> visits (visit_expression (SimpleE a)) (\<lambda>E. infer_expression E (SimpleE a))"
  "visits (visit_term t) (\<lambda>E. infer_term E t) \<Longrightarrow> visits (visit_additive (AddTerm t)) (\<lambda>E. infer_additive E (AddTerm t))"
  "visits (visit_factor f) (\<lambda>E. infer_factor E f) \<Longrightarrow> visits (visit_term (TermFactor f)) (\<lambda>E. infer_term E (TermFactor f))"
  "visits (visit_expression e) (\<lambda>E. infer_expression E e) \<Longrightarrow> visits (visit_factor (FExpr e)) (\<lambda>E. infer_factor E (FExpr e))"
  by (simp_all add: visits_def)

lemma visits_value:
  "visits_at v \<Longrightarrow> visits (visit_factor (FVar v)) (\<lambda>E. infer_factor E (FVar v))"
  unfolding visits_def
proof (intro allI impI)
  fix r E s t
  assume v: "visits_at v" and a: "infer_factor E (FVar v) = Some t" "in_fun r E s" "\<not> require_lvalue s"
  then have "returns (visit_var v s) (gives_tmp r E (s\<lparr>require_lvalue := False\<rparr>) t)"
    using v [unfolded visits_at_def, rule_format, of E s t r] by simp
  then show "returns (visit_factor (FVar v) s) (gives_tmp r E s t)"
    using flag_id [OF a(3)] by simp
qed

lemma visits_all:
  "visits (visit_expression e) (\<lambda>E. infer_expression E e) \<and> visits_at v \<and>
   visits (visit_additive a) (\<lambda>E. infer_additive E a) \<and> visits (visit_term t) (\<lambda>E. infer_term E t) \<and>
   visits (visit_factor f) (\<lambda>E. infer_factor E f)"
  by (rule expression_avar_additive_aterm_factor.induct)
    (assumption | rule visits_assign visits_wrap visits_rel visits_var visits_index visits_bin visits_value
      visits_call visits_num)+

section \<open>Declarations\<close>

lemma bind_not_Nil [simp]: "bind n t E = [] \<longleftrightarrow> E = []" "length (bind n t E) = length E"
  by (cases E; simp)+

lemma bind_vars_not_Nil [simp]: "bind_vars ds E = [] \<longleftrightarrow> E = []"
  by (induction ds E rule: bind_vars.induct) simp_all

lemma bind_params_not_Nil [simp]: "bind_params ps E = [] \<longleftrightarrow> E = []"
  by (induction ps E rule: bind_params.induct) simp_all

lemma env_ok_length: "env_ok E s \<Longrightarrow> length (scope s) = length E"
  by (simp add: env_ok_def list_all2_lengthD)

lemma scope_same [simp]: "sound E (s\<lparr>scope := scope s\<rparr>) = sound E s"
  by simp

lemma realises_scope [simp]: "realises (s\<lparr>scope := sc\<rparr>) = realises s"
  by (simp add: fun_eq_iff realises_def)

lemma sound_scope:
  "sound E (s\<lparr>scope := sc\<rparr>) \<longleftrightarrow> fresh_ok s \<and> typed s \<and> floats_typed s \<and>
     list_all2 (\<lambda>m k. dom m = dom k \<and> (\<forall>n t v. m n = Some t \<longrightarrow> k n = Some v \<longrightarrow> realises s v t)) E sc"
  using same_ir_typed [of "s\<lparr>scope := sc\<rparr>" s] by (simp add: sound_def env_ok_def ir.truncate_def)

lemma declare_name_sound:
  assumes "sound E s" and "E \<noteq> []" and "realises s v t"
  shows "returns (declare_name n v s) (\<lambda>s'. sound (bind n t E) s' \<and> (\<exists>sc. s' = s\<lparr>scope := sc\<rparr>))"
proof -
  obtain m E' where E: "E = m # E'" using assms(2) by (cases E) auto
  with assms(1) obtain k sc where sc: "scope s = k # sc" and dom: "dom m = dom k"
    by (auto simp: sound_def env_ok_def list_all2_Cons1)
  show ?thesis
  proof (cases "n \<in> dom k")
    case True
    moreover have "sound E (s\<lparr>scope := k # sc\<rparr>)"
      using assms(1) scope_same [of E s] unfolding sc by simp
    ultimately show ?thesis
      using sc dom E by (auto simp: declare_name_def)
  next
    case False
    have "sound (bind n t E) (s\<lparr>scope := k(n \<mapsto> v) # sc\<rparr>)"
      using assms(1,3) sc dom E False unfolding sound_scope by (auto simp: sound_def env_ok_def)
    then show ?thesis
      using False sc by (auto simp: declare_name_def)
  qed
qed

lemma declare_nameE:
  assumes "realises s v t" and "sound E s" and "E \<noteq> []"
  obtains sc where "declare_name n v s = Inr (s\<lparr>scope := sc\<rparr>)" "sound (bind n t E) (s\<lparr>scope := sc\<rparr>)"
  using declare_name_sound [OF assms(2,3,1), of n] by (auto simp: returns_def)

lemma declare_name_in_fun:
  assumes "in_fun r E s" and "E \<noteq> []" and "realises s v t"
  shows "returns (declare_name n v s) (\<lambda>s'. in_fun r (bind n t E) s' \<and> kept s s' \<and>
    require_lvalue s' = require_lvalue s)"
proof -
  have "sound E s" using assms(1) by (simp add: in_fun_def)
  from declare_name_sound [OF this assms(2,3), of n] show ?thesis
    by (rule returns_mono) (use assms(1) in \<open>auto simp: in_fun_def\<close>)
qed

lemma element_number: "element_type t = number_ty t"
  by (cases t) simp_all

lemma realises_ptr [simp]: "realises s v (PtrTy t) = has_type s v (PtrTy t)"
  by (simp add: realises_def)

lemma visit_var_decl_gives:
  assumes "in_fun r E s" and "E \<noteq> []" and "\<not> in_global (scope s)"
  shows "returns (visit_var_decl d s) (\<lambda>s'. in_fun r (bind (vd_id d) (PtrTy (decl_ty d)) E) s' \<and> kept s s' \<and>
    require_lvalue s' = require_lvalue s)"
proof -
  obtain v s1 where v: "build (create_alloca (decl_ty d)) s = Inr (v, s1)" "goes r E s s1" "has_type s1 v (PtrTy (decl_ty d))"
    using alloca_gives [OF assms(1)] by (rule returns_pairE) blast
  have "realises s1 v (PtrTy (decl_ty d))" using v(3) by simp
  from declare_name_in_fun [OF goesD [OF v(2)] assms(2) this, of "vd_id d"]
  have "returns (declare_name (vd_id d) v s1) (\<lambda>s'. in_fun r (bind (vd_id d) (PtrTy (decl_ty d)) E) s' \<and> kept s s' \<and>
    require_lvalue s' = require_lvalue s)"
    by (rule returns_mono) (use v(2) goes_flag [OF v(2)] in \<open>auto simp: goes_def intro: kept_trans\<close>)
  moreover have "(case vd_num d of None \<Rightarrow> element_type (vd_type d) | Some n \<Rightarrow> ArrTy (element_type (vd_type d)) (unat n)) = decl_ty d"
    by (simp add: decl_ty_def element_number split: option.splits)
  ultimately show ?thesis
    using v(1) assms(3) by (simp add: visit_var_decl_def Let_def)
qed

lemma visit_var_decls_gives:
  "\<lbrakk>in_fun r E s; E \<noteq> []; \<not> in_global (scope s)\<rbrakk> \<Longrightarrow>
     returns (visit_var_decls ds s) (\<lambda>s'. in_fun r (bind_vars ds E) s' \<and> kept s s' \<and> require_lvalue s' = require_lvalue s)"
proof (induction ds arbitrary: s E)
  case (Cons d ds)
  obtain s1 where s1: "visit_var_decl d s = Inr s1" "in_fun r (bind (vd_id d) (PtrTy (decl_ty d)) E) s1" "kept s s1"
    "require_lvalue s1 = require_lvalue s"
    using visit_var_decl_gives [OF Cons(2,3,4), of d] by (auto elim: returnsE)
  have "\<not> in_global (scope s1)"
    using visit_var_decl_declared [OF s1(1)] Cons(4) by (simp add: declared_def in_global_def)
  with Cons.IH [OF s1(2)] Cons(3) show ?case
    using s1 by simp (erule returns_mono, auto intro: kept_trans)
qed simp

section \<open>Statements\<close>

lemma terminated_returns: "in_fun r E s \<Longrightarrow> \<exists>t. terminated s = Inr t"
  by (auto simp: in_fun_def terminated_def owner_def)

lemma br_if_open_goes:
  assumes "in_fun r E s" and "target s b"
  shows "returns (br_if_open b s) (goes r E s)"
  using terminated_returns [OF assms(1)] br_goes [OF assms] goes_refl [OF assms(1)]
  by (auto simp: br_if_open_def)

lemma return_value_goes:
  assumes "in_fun r E s" and "num_ty r" and "has_type s (tmp_val s) t" "num_ty t"
  shows "returns (return_value r s) (goes r E s)"
proof -
  have g: "get_type s (tmp_val s) = Inr t" using assms(3) by (simp add: has_type_def)
  have i: "is_integer_type r \<longleftrightarrow> t \<noteq> INT32_T" if "r \<noteq> t"
    using assms(2,4) that by (auto simp: num_ty_def)
  have "returns (if r \<noteq> t then if is_integer_type r then to_tmp (build (create_fptosi (tmp_val s) INT32_T) s)
       else to_tmp (build (create_sitofp (tmp_val s) FloatTy) s) else Inr s) (gives_tmp r E s r)"
    using to_tmp_gives [OF convert_gives [OF assms(1,3,4,2)]] goes_refl [OF assms(1)] assms(3) i
    by (auto split: if_splits)
  then obtain s1 where s1: "(if r \<noteq> t then if is_integer_type r then to_tmp (build (create_fptosi (tmp_val s) INT32_T) s)
       else to_tmp (build (create_sitofp (tmp_val s) FloatTy) s) else Inr s) = Inr s1" "goes r E s s1" "has_type s1 (tmp_val s1) r"
    by (auto elim: returnsE)
  then show ?thesis
    using after_goes [OF ret_goes [OF goesD [OF s1(2)] assms(2) s1(3)] s1(2)]
    by (simp add: return_value_def g cong: if_cong)
qed

lemma return_type_eq: "in_fun r E s \<Longrightarrow> return_type s = Inr r"
  by (erule in_fun_result) (simp add: return_type_def del: get_type.simps)

text \<open>A branch: its block is entered, its statement visited, and it jumps on.\<close>

definition runs :: "(cg \<Rightarrow> cg res) \<Rightarrow> (ty \<Rightarrow> tenv \<Rightarrow> bool) \<Rightarrow> bool" where
  "runs m ok \<longleftrightarrow> (\<forall>r E s. ok r E \<longrightarrow> in_fun r E s \<longrightarrow> E \<noteq> [] \<longrightarrow> \<not> require_lvalue s \<longrightarrow> \<not> pre_enter_scope s \<longrightarrow>
     returns (m s) (goes r E s))"

definition idle :: "cg \<Rightarrow> bool" where
  "idle s \<longleftrightarrow> \<not> require_lvalue s \<and> \<not> pre_enter_scope s"

lemma goes_idle: "goes r E s s' \<Longrightarrow> idle s' = idle s"
  by (simp add: goes_def steady_def framed_def idle_def)

lemma runsE:
  assumes "runs m ok" and "ok r E" and "in_fun r E s" and "E \<noteq> []" and "idle s"
  obtains s' where "m s = Inr s'" and "goes r E s s'"
  using assms unfolding runs_def idle_def returns_def by blast

lemma visit_expressionE:
  assumes "infer_expression E e = Some t" and "in_fun r E s" and "idle s"
  obtains s' where "visit_expression e s = Inr s'" "goes r E s s'" "has_type s' (tmp_val s') t"
  using visits_all assms visitsE unfolding idle_def by metis

lemma branch_goes:
  assumes "runs m ok" and "ok r E" and "in_fun r E s" and "E \<noteq> []" and "idle s" and t: "target s b" and j: "target s j"
  obtains s1 s2 where "m (set_insert_point b s) = Inr s1" "br_if_open j s1 = Inr s2" "goes r E s s2"
proof -
  have g0: "goes r E s (set_insert_point b s)"
    by (rule target_insert [OF assms(3) t])
  obtain s1 where s1: "m (set_insert_point b s) = Inr s1" "goes r E (set_insert_point b s) s1"
    using assms(1,2) goesD [OF g0] assms(4) goes_idle [OF g0] assms(5) by (auto elim: runsE)
  note g1 = goes_trans [OF g0 s1(2)]
  show thesis
    using br_if_open_goes [OF goesD [OF g1] goes_target [OF g1 j]] s1(1) that goes_trans [OF g1]
    by (auto elim: returnsE)
qed

text \<open>The head of a selection or a loop: the condition is evaluated between two new blocks.\<close>

lemma head_goes:
  assumes "numeric E e" and "in_fun r E s" and "idle s"
  obtains s1 a s2 b s3 cv s4 where "visit_expression e s = Inr s1" "new_block '''' s1 = Inr (a, s2)"
    "new_block '''' s2 = Inr (b, s3)" "condition (tmp_val s1) s3 = Inr (cv, s4)" "goes r E s s4"
    "target s4 a" "target s4 b" "has_type s4 cv INT1_T"
proof -
  obtain t where t: "infer_expression E e = Some t" "num_ty t"
    using assms(1) by (auto simp: numeric_def split: option.splits)
  obtain s1 where s1: "visit_expression e s = Inr s1" "goes r E s s1" "has_type s1 (tmp_val s1) t"
    using t(1) assms(2,3) by (rule visit_expressionE)
  obtain a s2 where s2: "new_block '''' s1 = Inr (a, s2)" "goes r E s1 s2" "target s2 a"
    using new_block_target [OF goesD [OF s1(2)]] by (rule returns_pairE) blast
  obtain b s3 where s3: "new_block '''' s2 = Inr (b, s3)" "goes r E s2 s3" "target s3 b"
    using new_block_target [OF goesD [OF s2(2)]] by (rule returns_pairE) blast
  note g13 = goes_trans [OF s2(2) s3(2)]
  obtain cv s4 where s4: "condition (tmp_val s1) s3 = Inr (cv, s4)" "goes r E s3 s4" "has_type s4 cv INT1_T"
    using condition_gives [OF goesD [OF g13] goes_type [OF g13 s1(3)] t(2)] by (rule returns_pairE) blast
  show thesis
    by (rule that [OF s1(1) s2(1) s3(1) s4(1) goes_trans [OF s1(2) goes_trans [OF g13 s4(2)]]
          goes_target [OF s4(2) goes_target [OF s3(2) s2(3)]] goes_target [OF s4(2) s3(3)] s4(3)])
qed

lemma selection_runs:
  assumes "runs (visit_statement st) (\<lambda>r E. check_statement r E st)"
  shows "runs (visit_statement (Selection e st None)) (\<lambda>r E. check_statement r E (Selection e st None))"
  unfolding runs_def
proof (intro allI impI)
  fix r E s
  assume "check_statement r E (Selection e st None)" and s: "in_fun r E s" "E \<noteq> []"
    "\<not> require_lvalue s" "\<not> pre_enter_scope s"
  then have c: "numeric E e" "check_statement r E st" and idle: "idle s"
    by (simp_all add: idle_def)
  obtain s1 a s2 b s3 cv s4 where h: "visit_expression e s = Inr s1" "new_block '''' s1 = Inr (a, s2)"
    "new_block '''' s2 = Inr (b, s3)" "condition (tmp_val s1) s3 = Inr (cv, s4)" "goes r E s s4"
    "target s4 a" "target s4 b" "has_type s4 cv INT1_T"
    using c(1) s(1) idle by (rule head_goes)
  obtain s5 where s5: "discard (build (create_cond_br cv a b) s4) = Inr s5" "goes r E s4 s5"
    using cond_br_goes [OF goesD [OF h(5)] h(6-8)] by (rule returnsE)
  note g5 = goes_trans [OF h(5) s5(2)]
  have idle5: "idle s5" using goes_idle [OF g5] idle by simp
  note t5 = goes_target [OF s5(2) h(6)] goes_target [OF s5(2) h(7)]
  obtain s6 s7 where s7: "visit_statement st (set_insert_point a s5) = Inr s6" "br_if_open b s6 = Inr s7" "goes r E s5 s7"
    using assms c(2) goesD [OF g5] s(2) idle5 t5 by (rule branch_goes)
  have g8: "goes r E s7 (set_insert_point b s7)"
    by (rule target_insert [OF goesD [OF s7(3)] goes_target [OF s7(3) t5(2)]])
  have "visit_statement (Selection e st None) s = Inr (set_insert_point b s7)"
    by (simp add: h(1-4) s5(1) s7(1,2) Let_def)
  then show "returns (visit_statement (Selection e st None) s) (goes r E s)"
    using goes_trans [OF g5 goes_trans [OF s7(3) g8]] by simp
qed

lemma selection_else_runs:
  assumes "runs (visit_statement st) (\<lambda>r E. check_statement r E st)"
    and "runs (visit_statement el) (\<lambda>r E. check_statement r E el)"
  shows "runs (visit_statement (Selection e st (Some el))) (\<lambda>r E. check_statement r E (Selection e st (Some el)))"
  unfolding runs_def
proof (intro allI impI)
  fix r E s
  assume "check_statement r E (Selection e st (Some el))" and s: "in_fun r E s" "E \<noteq> []"
    "\<not> require_lvalue s" "\<not> pre_enter_scope s"
  then have c: "numeric E e" "check_statement r E st" "check_statement r E el" and idle: "idle s"
    by (simp_all add: idle_def)
  obtain s1 a s2 b s3 cv s4 where h: "visit_expression e s = Inr s1" "new_block '''' s1 = Inr (a, s2)"
    "new_block '''' s2 = Inr (b, s3)" "condition (tmp_val s1) s3 = Inr (cv, s4)" "goes r E s s4"
    "target s4 a" "target s4 b" "has_type s4 cv INT1_T"
    using c(1) s(1) idle by (rule head_goes)
  obtain f sf where sf: "new_block '''' s4 = Inr (f, sf)" "goes r E s4 sf" "target sf f"
    using new_block_target [OF goesD [OF h(5)]] by (rule returns_pairE) blast
  obtain s5 where s5: "discard (build (create_cond_br cv a f) sf) = Inr s5" "goes r E sf s5"
    using cond_br_goes [OF goesD [OF sf(2)] goes_target [OF sf(2) h(6)] sf(3) goes_type [OF sf(2) h(8)]] by (rule returnsE)
  note g45 = goes_trans [OF sf(2) s5(2)]
  note g5 = goes_trans [OF h(5) g45]
  have idle5: "idle s5" using goes_idle [OF g5] idle by simp
  note t5 = goes_target [OF g45 h(6)] goes_target [OF g45 h(7)] goes_target [OF s5(2) sf(3)]
  obtain s6 s7 where s7: "visit_statement st (set_insert_point a s5) = Inr s6" "br_if_open b s6 = Inr s7" "goes r E s5 s7"
    using assms(1) c(2) goesD [OF g5] s(2) idle5 t5(1,2) by (rule branch_goes)
  have idle7: "idle s7" using goes_idle [OF s7(3)] idle5 by simp
  note t7 = goes_target [OF s7(3) t5(3)] goes_target [OF s7(3) t5(2)]
  obtain s8 s9 where s9: "visit_statement el (set_insert_point f s7) = Inr s8" "br_if_open b s8 = Inr s9" "goes r E s7 s9"
    using assms(2) c(3) goesD [OF s7(3)] s(2) idle7 t7 by (rule branch_goes)
  have g10: "goes r E s9 (set_insert_point b s9)"
    by (rule target_insert [OF goesD [OF s9(3)] goes_target [OF s9(3) t7(2)]])
  have "visit_statement (Selection e st (Some el)) s = Inr (set_insert_point b s9)"
    by (simp add: h(1-4) sf(1) s5(1) s7(1,2) s9(1,2) Let_def)
  then show "returns (visit_statement (Selection e st (Some el)) s) (goes r E s)"
    using goes_trans [OF g5 goes_trans [OF s7(3) goes_trans [OF s9(3) g10]]] by simp
qed

lemma iteration_runs:
  assumes "runs (visit_statement st) (\<lambda>r E. check_statement r E st)"
  shows "runs (visit_statement (Iteration e st)) (\<lambda>r E. check_statement r E (Iteration e st))"
  unfolding runs_def
proof (intro allI impI)
  fix r E s
  assume "check_statement r E (Iteration e st)" and s: "in_fun r E s" "E \<noteq> []"
    "\<not> require_lvalue s" "\<not> pre_enter_scope s"
  then have c: "numeric E e" "check_statement r E st" and idle: "idle s"
    by (simp_all add: idle_def)
  obtain x sx where sx: "new_block '''' s = Inr (x, sx)" "goes r E s sx" "target sx x"
    using new_block_target [OF s(1)] by (rule returns_pairE) blast
  obtain sy where sy: "br_if_open x sx = Inr sy" "goes r E sx sy"
    using br_if_open_goes [OF goesD [OF sx(2)] sx(3)] by (rule returnsE)
  let ?sx = "set_insert_point x sy"
  have gx: "goes r E sx ?sx"
    by (rule goes_trans [OF sy(2) target_insert [OF goesD [OF sy(2)] goes_target [OF sy(2) sx(3)]]])
  have idlex: "idle ?sx" using goes_idle [OF goes_trans [OF sx(2) gx]] idle by simp
  obtain s1 a s2 b s3 cv s4 where h: "visit_expression e ?sx = Inr s1" "new_block '''' s1 = Inr (a, s2)"
    "new_block '''' s2 = Inr (b, s3)" "condition (tmp_val s1) s3 = Inr (cv, s4)" "goes r E ?sx s4"
    "target s4 a" "target s4 b" "has_type s4 cv INT1_T"
    using c(1) goesD [OF gx] idlex by (rule head_goes)
  obtain s5 where s5: "discard (build (create_cond_br cv a b) s4) = Inr s5" "goes r E s4 s5"
    using cond_br_goes [OF goesD [OF h(5)] h(6-8)] by (rule returnsE)
  note g5 = goes_trans [OF gx goes_trans [OF h(5) s5(2)]]
  have idle5: "idle s5" using goes_idle [OF goes_trans [OF sx(2) g5]] idle by simp
  note t5 = goes_target [OF s5(2) h(6)] goes_target [OF g5 sx(3)] goes_target [OF s5(2) h(7)]
  obtain s6 s7 where s7: "visit_statement st (set_insert_point a s5) = Inr s6" "br_if_open x s6 = Inr s7" "goes r E s5 s7"
    using assms c(2) goesD [OF g5] s(2) idle5 t5(1,2) by (rule branch_goes)
  have g8: "goes r E s7 (set_insert_point b s7)"
    by (rule target_insert [OF goesD [OF s7(3)] goes_target [OF s7(3) t5(3)]])
  have "visit_statement (Iteration e st) s = Inr (set_insert_point b s7)"
    by (simp add: sx(1) sy(1) h(1-4) s5(1) s7(1,2) Let_def)
  then show "returns (visit_statement (Iteration e st) s) (goes r E s)"
    using goes_trans [OF sx(2) goes_trans [OF g5 goes_trans [OF s7(3) g8]]] by simp
qed

lemma sound_back:
  assumes "sound E s" and "sound E' s'" and "kept s s'"
  shows "sound E (s'\<lparr>scope := scope s\<rparr>)"
proof -
  have s: "env_ok E s" "fresh_ok s'" "typed s'" "floats_typed s'"
    using assms(1,2) by (simp_all add: sound_def)
  have "kept s (s'\<lparr>scope := scope s\<rparr>)" using assms(3) by simp
  from env_ok_kept [OF s(1) this] have "env_ok E (s'\<lparr>scope := scope s\<rparr>)" by simp
  then show ?thesis
    using s(2-4) unfolding sound_scope by (simp add: env_ok_def)
qed

lemma in_fun_sound: "in_fun r E s \<Longrightarrow> sound E s"
  by (simp add: in_fun_def)

lemma exit_after:
  assumes "in_fun r E s" and "in_fun r E' s'" and "kept s s'" and "exit (scope s') = Inr (scope s)"
    and "cur_fun s' = cur_fun s" "pre_enter_scope s' = pre_enter_scope s" "require_lvalue s' = require_lvalue s"
  shows "returns (exit_scope s') (goes r E s)"
proof -
  let ?s = "s'\<lparr>scope := scope s\<rparr>"
  have "sound E ?s"
    by (rule sound_back [OF in_fun_sound [OF assms(1)] in_fun_sound [OF assms(2)] assms(3)])
  then have "in_fun r E ?s"
    using assms(2) unfolding in_fun_def by simp
  then show ?thesis
    using assms(3-7) by (simp add: exit_scope_def goes_def steady_def framed_def)
qed

lemma compound_runs:
  assumes "runs (visit_statements ss) (\<lambda>r E. check_statements r E ss)"
  shows "runs (visit_statement (Compound ds ss)) (\<lambda>r E. check_statement r E (Compound ds ss))"
  unfolding runs_def
proof (intro allI impI)
  fix r E s
  assume c: "check_statement r E (Compound ds ss)" and s: "in_fun r E s" "E \<noteq> []"
    "\<not> require_lvalue s" "\<not> pre_enter_scope s"
  let ?s = "s\<lparr>scope := enter (scope s)\<rparr>" and ?E = "Map.empty # E"
  have "sound E s" using s(1) by (simp add: in_fun_def)
  then have sound: "sound ?E ?s"
    unfolding sound_scope by (simp add: sound_def env_ok_def enter_def)
  then have in0: "in_fun r ?E ?s"
    using s(1) by (auto simp: in_fun_def)
  have "length (scope s) = length E"
    using \<open>sound E s\<close> env_ok_length by (auto simp: sound_def)
  then have len: "\<not> in_global (scope ?s)"
    using s(2) by (auto simp: in_global_def enter_def)
  obtain sa where sa: "visit_var_decls ds ?s = Inr sa" "in_fun r (bind_vars ds ?E) sa" "kept s sa" "require_lvalue sa = require_lvalue s"
    using visit_var_decls_gives [OF in0 _ len, of ds] by (auto elim: returnsE)
  note d = visit_var_decls_declared [OF sa(1)]
  have "idle sa" using d sa(4) s(3,4) by (simp add: idle_def declared_def)
  then obtain sb where sb: "visit_statements ss sa = Inr sb" "goes r (bind_vars ds ?E) sa sb"
    using assms c sa(2) by (auto elim: runsE)
  have "returns (exit_scope sb) (goes r E s)"
    using d sb(2) sa(4) by (intro exit_after [OF s(1) goesD [OF sb(2)] kept_trans [OF sa(3)]])
      (simp_all add: goes_def steady_def framed_def declared_def enter_def)
  then show "returns (visit_statement (Compound ds ss) s) (goes r E s)"
    using s(4) sa(1) sb(1) by (simp add: compound_enter_def compound_exit_def)
qed

lemma simple_runs:
  "runs (visit_statement (ExprStmt None)) (\<lambda>r E. check_statement r E (ExprStmt None))"
  "runs (visit_statement (ExprStmt (Some e))) (\<lambda>r E. check_statement r E (ExprStmt (Some e)))"
  "runs (visit_statement (Return None)) (\<lambda>r E. check_statement r E (Return None))"
  "runs (visit_statements []) (\<lambda>r E. check_statements r E [])"
  by (auto simp: runs_def goes_refl idle_def void_ret_goes elim: visit_expressionE)

lemma return_runs: "runs (visit_statement (Return (Some e))) (\<lambda>r E. check_statement r E (Return (Some e)))"
  unfolding runs_def
proof (intro allI impI)
  fix r E s
  assume c: "check_statement r E (Return (Some e))" and s: "in_fun r E s" "\<not> require_lvalue s" "\<not> pre_enter_scope s"
  then obtain t where t: "infer_expression E e = Some t" "num_ty t" "num_ty r" "idle s"
    by (auto simp: numeric_def idle_def split: option.splits)
  obtain s1 where s1: "visit_expression e s = Inr s1" "goes r E s s1" "has_type s1 (tmp_val s1) t"
    using t(1) s(1) t(4) by (rule visit_expressionE)
  show "returns (visit_statement (Return (Some e)) s) (goes r E s)"
    using after_goes [OF return_value_goes [OF goesD [OF s1(2)] t(3) s1(3) t(2)] s1(2)] s1(1)
    by (simp add: return_type_eq [OF s(1)])
qed

lemma sequence_runs:
  assumes "runs (visit_statement st) (\<lambda>r E. check_statement r E st)"
    and "runs (visit_statements ss) (\<lambda>r E. check_statements r E ss)"
  shows "runs (visit_statements (st # ss)) (\<lambda>r E. check_statements r E (st # ss))"
  unfolding runs_def
proof (intro allI impI)
  fix r E s
  assume c: "check_statements r E (st # ss)" and s: "in_fun r E s" "E \<noteq> []" "\<not> require_lvalue s" "\<not> pre_enter_scope s"
  then have idle: "idle s" "check_statement r E st" "check_statements r E ss" by (simp_all add: idle_def)
  obtain s1 where s1: "visit_statement st s = Inr s1" "goes r E s s1"
    using assms(1) idle(2) s(1,2) idle(1) by (rule runsE)
  obtain t where t: "terminated s1 = Inr t"
    using terminated_returns [OF goesD [OF s1(2)]] by blast
  have "idle s1" using goes_idle [OF s1(2)] idle(1) by simp
  then obtain s2 where s2: "visit_statements ss s1 = Inr s2" "goes r E s1 s2"
    using assms(2) idle(3) goesD [OF s1(2)] s(2) by (auto elim: runsE)
  show "returns (visit_statements (st # ss) s) (goes r E s)"
    using s1 t s2(1) goes_trans [OF s1(2) s2(2)] by (cases t) simp_all
qed

lemma statements_run:
  "runs (visit_statement st) (\<lambda>r E. check_statement r E st)"
  "runs (visit_statements ss) (\<lambda>r E. check_statements r E ss)"
proof -
  have *: "runs (visit_statements ss) (\<lambda>r E. check_statements r E ss)"
    if "\<And>st. st \<in> set ss \<Longrightarrow> runs (visit_statement st) (\<lambda>r E. check_statement r E st)" for ss
    using that by (induction ss) (rule simple_runs(4), rule sequence_runs, simp_all)
  show 1: "runs (visit_statement st) (\<lambda>r E. check_statement r E st)" for st
  proof (induction st)
    case (Compound ds ss)
    then show ?case by (intro compound_runs *)
  next
    case (ExprStmt e)
    then show ?case using simple_runs(1,2) by (cases e) blast+
  next
    case (Selection e st el)
    show ?case
    proof (cases el)
      case None
      show ?thesis unfolding None by (rule selection_runs [OF Selection(1)])
    next
      case (Some x)
      show ?thesis
        unfolding Some by (rule selection_else_runs [OF Selection(1) Selection(2)]) (simp add: Some)
    qed
  next
    case (Iteration e st)
    then show ?case by (intro iteration_runs)
  next
    case (Return e)
    then show ?case using simple_runs(3) return_runs by (cases e) blast+
  qed
  show "runs (visit_statements ss) (\<lambda>r E. check_statements r E ss)"
    by (rule *) (rule 1)
qed

section \<open>Functions and programs\<close>

lemma param_par: "param_type p = par_ty p"
  by (simp add: Let_def)

lemma return_result: "return_ty t = result_ty t"
  by (cases t) simp_all

lemma par_first_class: "first_class (par_ty p)"
  by (simp add: Let_def)

lemma goes_declared: "goes r E s s' \<Longrightarrow> declared s s'"
  by (simp add: goes_def steady_def framed_declared)

lemma visit_params_gives:
  "\<lbrakk>in_fun r E s; E \<noteq> []; \<And>j. j < length ps \<Longrightarrow> has_type s (VArg f (i + j)) (par_ty (ps ! j))\<rbrakk> \<Longrightarrow>
     returns (visit_params f i ps s) (\<lambda>s'. in_fun r (bind_params ps E) s' \<and> kept s s' \<and> declared s s' \<and>
       require_lvalue s' = require_lvalue s)"
proof (induction ps arbitrary: i s E)
  case (Cons p ps)
  let ?t = "par_ty p"
  obtain a s1 where s1: "build (create_alloca (param_type p)) s = Inr (a, s1)" "goes r E s s1" "has_type s1 a (PtrTy ?t)"
    using alloca_gives [OF Cons(2), of ?t] unfolding param_par by (rule returns_pairE) blast
  have arg: "has_type s (VArg f i) ?t"
    using Cons(4) [of 0] by simp
  obtain s2 where s2: "discard (build (create_store (VArg f i) a) s1) = Inr s2" "goes r E s1 s2"
    using discard_gives [OF store_gives [OF goesD [OF s1(2)] goes_type [OF s1(2) arg] s1(3) par_first_class]]
    by (rule returnsE)
  note g = goes_trans [OF s1(2) s2(2)]
  have "realises s2 a (PtrTy ?t)" using goes_type [OF s2(2) s1(3)] by simp
  then obtain s3 where s3: "declare_name (p_id p) a s2 = Inr s3" "in_fun r (bind (p_id p) (PtrTy ?t) E) s3" "kept s2 s3"
    "require_lvalue s3 = require_lvalue s2"
    using declare_name_in_fun [OF goesD [OF s2(2)] Cons(3), of a "PtrTy ?t" "p_id p"] by (auto elim: returnsE)
  have k: "kept s s3" using g s3(3) by (auto simp: goes_def intro: kept_trans)
  have d: "declared s s3" using goes_declared [OF g] declare_name_declared [OF s3(1)] declared_trans by blast
  have "has_type s3 (VArg f (Suc i + j)) (par_ty (ps ! j))" if "j < length ps" for j
    using Cons(4) [of "Suc j"] that kept_get_type [OF k] by (simp add: has_type_def del: get_type.simps)
  from Cons.IH [OF s3(2) _ this] Cons(3)
  have "returns (visit_params f (Suc i) ps s3) (\<lambda>s'. in_fun r (bind_params (p # ps) E) s' \<and> kept s3 s' \<and> declared s3 s' \<and>
       require_lvalue s' = require_lvalue s3)"
    by simp
  then have "returns (visit_params f (Suc i) ps s3) (\<lambda>s'. in_fun r (bind_params (p # ps) E) s' \<and> kept s s' \<and> declared s s' \<and>
       require_lvalue s' = require_lvalue s)"
    by (rule returns_mono) (use k d s3(4) goes_flag [OF g] in \<open>auto intro: kept_trans declared_trans\<close>)
  then show ?case
    by (simp add: s1(1) s2(1) s3(1) del: param_type.simps)
qed (simp add: goes_refl)

lemma Function_create_sound:
  assumes "sound E s"
  shows "returns (Function_create (FunTy r as) n s) (\<lambda>(f, s'). sound E s' \<and> kept s s' \<and> ir.more s' = ir.more s \<and>
    f_types s' f = Some (FunTy r as))"
proof -
  have fr: "fresh_ok s" "typed s" "floats_typed s"
    using assms(1) by (simp_all add: sound_def)
  obtain f s' where mk: "Function_create (FunTy r as) n s = Inr (f, s')"
    by (simp add: Function_create_def Let_def)
  note k = Function_create_kept [OF fr(1) mk]
  have u: "instrs s' = instrs s" "operands s' = operands s" "cached_float s' = cached_float s" "ir.more s' = ir.more s"
    using mk by (auto simp: Function_create_def Let_def)
  have "fresh_ok s'"
    using fr(1) mk by (auto simp: Function_create_def Let_def fresh_ok_def)
  moreover have "typed s'"
    by (rule typed_same_instrs [OF fr(2) k(1) _ _ fr(1)]) (simp_all add: u)
  ultimately have "sound E s'"
    using fr(3) by (intro sound_step [OF assms k(1) cg_more(2) [OF u(4)]]) (simp_all add: floats_typed_def u)
  then show ?thesis
    using mk k u(4) by simp
qed

lemma GlobalVariable_create_sound:
  assumes "sound E s"
  shows "returns (GlobalVariable_create n t False (VConst c) s) (\<lambda>(v, s'). sound E s' \<and> kept s s' \<and> ir.more s' = ir.more s \<and>
    has_type s' v (PtrTy t))"
proof -
  have fr: "fresh_ok s" "typed s" "floats_typed s"
    using assms(1) by (simp_all add: sound_def)
  obtain v s' where mk: "GlobalVariable_create n t False (VConst c) s = Inr (v, s')"
    by (auto simp: GlobalVariable_create_def Let_def set_operand_def)
  note k = GlobalVariable_create_kept [OF fr(1) mk]
  have u: "instrs s' = instrs s" "cached_float s' = cached_float s" "operands s' (VInstr p) = operands s (VInstr p)"
    "next_id s' = Suc (next_id s)" "blocks s' = blocks s" "funs s' = funs s"
    "gvars s' = (gvars s)(next_id s \<mapsto> \<lparr>g_name = n, g_type = PtrTy t, g_const = False, g_init = VConst c\<rparr>)"
    "q \<noteq> next_id s \<Longrightarrow> operands s' (VGlobal q) = operands s (VGlobal q)" for p q
    using mk by (auto simp: GlobalVariable_create_def Let_def set_operand_def add_use_def new_user_def)
  have "fresh_ok s'"
    using fr(1) by (auto simp: fresh_ok_def u)
  moreover have "typed s'"
    by (rule typed_same_instrs [OF fr(2) k(1) _ _ fr(1)]) (simp_all add: u)
  ultimately have "sound E s'"
    using fr(3) by (intro sound_step [OF assms k(1) cg_more(2) [OF k(4)]]) (simp_all add: floats_typed_def u)
  then show ?thesis
    using mk k by (simp add: has_type_def)
qed

text \<open>The states between declarations.\<close>

definition ready :: "tenv \<Rightarrow> cg \<Rightarrow> bool" where
  "ready E s \<longleftrightarrow> sound E s \<and> length E = 1 \<and> idle s"

lemma idle_more: "ir.more s' = ir.more s \<Longrightarrow> idle s' = idle s"
  using cg_more(4,6) [of s' s] by (simp add: idle_def)

lemma realises_fun: "f_types s f = Some (FunTy r as) \<Longrightarrow> realises s (VFun f) (FunTy r as)"
  unfolding realises_def has_type_def get_type_view by simp

lemma fun_header:
  assumes "ready E s"
  obtains f s1 s2 b s3 where
    "Function_create (FunTy (return_ty (fd_type d)) (map param_type (fd_params d))) (fd_id d) s = Inr (f, s1)"
    "declare_name (fd_id d) (VFun f) s1 = Inr s2"
    "BasicBlock_create ''entry'' f (s2\<lparr>cur_fun := Some f\<rparr>) = Inr (b, s3)"
    "sound (bind (fd_id d) (fun_ty d) E) s3" "idle s3" "cur_fun s3 = Some f" "owner s3 b = Some f"
    "f_types s3 f = Some (fun_ty d)"
proof -
  have ft: "FunTy (return_ty (fd_type d)) (map param_type (fd_params d)) = fun_ty d"
    by (simp add: fun_ty_def return_result param_par [abs_def])
  have r: "sound E s" "E \<noteq> []" "idle s" using assms by (auto simp: ready_def)
  obtain f s1 where s1: "Function_create (fun_ty d) (fd_id d) s = Inr (f, s1)" "sound E s1" "kept s s1"
    "ir.more s1 = ir.more s" "f_types s1 f = Some (fun_ty d)"
    using Function_create_sound [OF r(1)] unfolding fun_ty_def by (rule returns_pairE) blast
  have "realises s1 (VFun f) (fun_ty d)"
    using s1(5) unfolding fun_ty_def by (rule realises_fun)
  then obtain sc where s2: "declare_name (fd_id d) (VFun f) s1 = Inr (s1\<lparr>scope := sc\<rparr>)"
    "sound (bind (fd_id d) (fun_ty d) E) (s1\<lparr>scope := sc\<rparr>)"
    using s1(2) r(2) by (rule declare_nameE)
  let ?s2 = "s1\<lparr>scope := sc\<rparr>"
  have t2: "f_types (?s2\<lparr>cur_fun := Some f\<rparr>) f = Some (fun_ty d)" using s1(5) by simp
  have "sound (bind (fd_id d) (fun_ty d) E) (?s2\<lparr>cur_fun := Some f\<rparr>)" using s2(2) by simp
  from this obtain b s3 where s3: "BasicBlock_create ''entry'' f (?s2\<lparr>cur_fun := Some f\<rparr>) = Inr (b, s3)"
    "sound (bind (fd_id d) (fun_ty d) E) s3" "kept (?s2\<lparr>cur_fun := Some f\<rparr>) s3"
    "ir.more s3 = ir.more (?s2\<lparr>cur_fun := Some f\<rparr>)" "owner s3 b = Some f"
    by (rule BasicBlock_createE [OF t2])
  have "idle s3"
    using idle_more [OF s3(4)] idle_more [OF s1(4)] r(3) by (simp add: idle_def)
  then show thesis
    using that [of f s1 ?s2 b s3] s1(1) s2(1) s3 cg_more(5) [OF s3(4)] keptD(3) [OF s3(3) t2] ft by simp
qed

text \<open>The state in which the body of a function is entered.\<close>

lemma entry_in_fun:
  assumes "sound E s" and "cur_fun s = Some f" "owner s b = Some f" and "f_types s f = Some (fun_ty d)"
  shows "in_fun (result_ty (fd_type d)) (Map.empty # E) ((set_insert_point b s)\<lparr>scope := enter (scope s), pre_enter_scope := True\<rparr>)"
    "j < length (fd_params d) \<Longrightarrow>
       has_type ((set_insert_point b s)\<lparr>scope := enter (scope s), pre_enter_scope := True\<rparr>) (VArg f j) (par_ty (fd_params d ! j))"
proof -
  let ?s = "(set_insert_point b s)\<lparr>scope := enter (scope s), pre_enter_scope := True\<rparr>"
  have "sound (Map.empty # E) (s\<lparr>scope := enter (scope s)\<rparr>)"
    using assms(1) unfolding sound_scope by (simp add: sound_def env_ok_def enter_def)
  moreover have "?s = (s\<lparr>scope := enter (scope s)\<rparr>)\<lparr>insert_bb := Some b, pre_enter_scope := True\<rparr>"
    by (simp add: set_insert_point_def)
  ultimately have "sound (Map.empty # E) ?s" by simp
  moreover have "result_ty (fd_type d) = VoidTy \<or> num_ty (result_ty (fd_type d))" by (cases "fd_type d") simp_all
  ultimately show "in_fun (result_ty (fd_type d)) (Map.empty # E) ?s"
    using assms(2-4) by (auto simp: in_fun_def set_insert_point_def fun_ty_def)
  show "has_type ?s (VArg f j) (par_ty (fd_params d ! j))" if "j < length (fd_params d)"
    using assms(4) that unfolding has_type_def get_type_view by (simp add: fun_ty_def set_insert_point_def)
qed

lemma visit_fun_decl_ready:
  assumes "ready E s" and c: "check_decl E (FunDecl d)"
  shows "returns (visit_fun_decl d s) (ready (bind (fd_id d) (fun_ty d) E))"
  using assms(1)
proof (rule fun_header)
  fix f s1 s2 b s3
  let ?E = "bind (fd_id d) (fun_ty d) E" and ?r = "result_ty (fd_type d)"
  let ?s4 = "(set_insert_point b s3)\<lparr>scope := enter (scope s3), pre_enter_scope := True\<rparr>"
  assume h: "Function_create (FunTy (return_ty (fd_type d)) (map param_type (fd_params d))) (fd_id d) s = Inr (f, s1)"
    "declare_name (fd_id d) (VFun f) s1 = Inr s2" "BasicBlock_create ''entry'' f (s2\<lparr>cur_fun := Some f\<rparr>) = Inr (b, s3)"
    "sound ?E s3" "idle s3" "cur_fun s3 = Some f" "owner s3 b = Some f" "f_types s3 f = Some (fun_ty d)"
  have len: "length E = 1" "length (scope s3) = 1"
    using assms(1) h(4) env_ok_length by (fastforce simp: ready_def sound_def)+
  note in4 = entry_in_fun(1) [OF h(4,6,7,8)]
  have arg: "has_type ?s4 (VArg f (0 + j)) (par_ty (fd_params d ! j))" if "j < length (fd_params d)" for j
    using entry_in_fun(2) [OF h(4,6,7,8) that] by simp
  obtain s5 where s5: "visit_params f 0 (fd_params d) ?s4 = Inr s5" "in_fun ?r (bind_params (fd_params d) (Map.empty # ?E)) s5"
    "kept ?s4 s5" "declared ?s4 s5" "require_lvalue s5 = require_lvalue ?s4"
    using visit_params_gives [OF in4 _ arg] by (auto elim: returnsE)
  let ?s5 = "s5\<lparr>pre_enter_scope := False\<rparr>" and ?E5 = "bind_params (fd_params d) (Map.empty # ?E)"
  have x5: "exit (scope s5) = Inr (scope s3)" "length (scope s5) = 2" "pre_enter_scope s5" "\<not> require_lvalue s5"
    "cur_fun s5 = Some f"
    using s5(4,5) h(5,6) len(2) by (simp_all add: declared_def enter_def idle_def set_insert_point_def)
  obtain s6 where s6: "visit_var_decls (fd_locals d) ?s5 = Inr s6" "in_fun ?r (bind_vars (fd_locals d) ?E5) s6"
    "kept ?s5 s6" "require_lvalue s6 = require_lvalue ?s5"
    using visit_var_decls_gives [of ?r ?E5 ?s5 "fd_locals d"] s5(2) x5(2) by (auto simp: in_global_def elim: returnsE)
  have d6: "declared ?s5 s6" by (rule visit_var_decls_declared [OF s6(1)])
  then have idle6: "idle s6" using s6(4) x5(4) by (simp add: declared_def idle_def)
  have c6: "check_statements ?r (bind_vars (fd_locals d) ?E5) (fd_body d)" using c by simp
  obtain s7 where s7: "visit_statements (fd_body d) s6 = Inr s7" "goes ?r (bind_vars (fd_locals d) ?E5) s6 s7"
    using statements_run(2) c6 s6(2) _ idle6 by (rule runsE) simp
  obtain t where t: "terminated s7 = Inr t"
    using terminated_returns [OF goesD [OF s7(2)]] by blast
  obtain s8 where s8: "(if t then Inr s7 else default_return s7) = Inr s8" "goes ?r (bind_vars (fd_locals d) ?E5) s7 s8"
    using default_return_goes [OF goesD [OF s7(2)]] goes_refl [OF goesD [OF s7(2)]] by (cases t) (auto elim: returnsE)
  note g = goes_trans [OF s7(2) s8(2)]
  have k: "kept s3 s8"
    using s5(3) s6(3) g by (auto simp: goes_def set_insert_point_def intro: kept_trans)
  have x8: "exit (scope s8) = Inr (scope s3)" "idle s8"
    using g d6 x5(1) goes_idle [OF g] idle6 by (simp_all add: goes_def steady_def framed_def declared_def)
  have "sound ?E (s8\<lparr>scope := scope s3\<rparr>)"
    by (rule sound_back [OF h(4) in_fun_sound [OF goesD [OF s8(2)]] k])
  then have "ready ?E (s8\<lparr>scope := scope s3\<rparr>)"
    using len(1) x8(2) by (simp add: ready_def idle_def)
  moreover have "visit_statement (Compound (fd_locals d) (fd_body d)) s5 = Inr s7"
    using x5(3) s6(1) s7(1) by (simp add: compound_enter_def compound_exit_def)
  ultimately show ?thesis
    using x8(1) by (simp add: visit_fun_decl_def h(1-3) s5(1) t s8(1) Let_def exit_scope_def del: visit_statement.simps)
qed

lemma visit_decl_ready:
  assumes "ready E s" and "check_decl E d"
  shows "returns (visit_decl d s) (ready (bind_decl d E))"
proof (cases d)
  case (FunDecl f)
  then show ?thesis using visit_fun_decl_ready assms by simp
next
  case (VarDecl v)
  have s: "sound E s" "E \<noteq> []" "length E = 1" "idle s" using assms(1) by (auto simp: ready_def)
  then have glob: "in_global (scope s)"
    using env_ok_length by (auto simp: sound_def in_global_def)
  have t: "(case vd_num v of None \<Rightarrow> element_type (vd_type v) | Some n \<Rightarrow> ArrTy (element_type (vd_type v)) (unat n)) = decl_ty v"
    by (simp add: decl_ty_def element_number split: option.splits)
  obtain g s1 where s1: "GlobalVariable_create (vd_id v) (decl_ty v) False (VConst (CZero (decl_ty v))) s = Inr (g, s1)"
    "sound E s1" "ir.more s1 = ir.more s" "has_type s1 g (PtrTy (decl_ty v))"
    using GlobalVariable_create_sound [OF s(1)] by (rule returns_pairE) blast
  have "realises s1 g (PtrTy (decl_ty v))" using s1(4) by simp
  then obtain sc where s2: "declare_name (vd_id v) g s1 = Inr (s1\<lparr>scope := sc\<rparr>)"
    "sound (bind (vd_id v) (PtrTy (decl_ty v)) E) (s1\<lparr>scope := sc\<rparr>)"
    using s1(2) s(2) by (rule declare_nameE)
  have "idle (s1\<lparr>scope := sc\<rparr>)" using idle_more [OF s1(3)] s(4) by (simp add: idle_def)
  then show ?thesis
    using VarDecl s1(1) s2 s(3) glob t by (simp add: visit_var_decl_def Let_def ready_def)
qed

lemma visit_program_ready:
  "ready E s \<Longrightarrow> check_decls E p \<Longrightarrow> returns (visit_program p s) (\<lambda>s'. \<exists>E'. ready E' s')"
proof (induction p arbitrary: E s)
  case (Cons d p)
  then obtain s1 where s1: "visit_decl d s = Inr s1" "ready (bind_decl d E) s1"
    using visit_decl_ready [of E s d] by (auto elim: returnsE)
  with Cons.IH [OF s1(2)] Cons.prems(2) show ?case by simp
qed auto

section \<open>The library functions\<close>

lemma empty_cg_sound: "sound [] empty_cg"
  using fresh_of_ok [OF empty_cg_ok(1)]
  by (auto simp: sound_def typed_def floats_typed_def env_ok_def empty_cg_def no_consts_def
      ir.defs const_state.defs users.defs)

definition is_fun_ty :: "ty \<Rightarrow> bool" where
  "is_fun_ty t \<longleftrightarrow> (\<exists>r as. t = FunTy r as)"

lemma create_library_sound:
  "\<lbrakk>sound [] s; \<forall>(n, t) \<in> set fs. is_fun_ty t\<rbrakk> \<Longrightarrow>
     returns (create_library fs s) (\<lambda>(vs, s'). sound [] s' \<and> kept s s' \<and> ir.more s' = ir.more s \<and>
       list_all2 (\<lambda>(n, t) (m, v). m = n \<and> realises s' v t) fs vs)"
proof (induction fs s rule: create_library.induct)
  case (2 n t fs s)
  then obtain r as where t: "t = FunTy r as" by (auto simp: is_fun_ty_def)
  obtain f s1 where s1: "Function_create t n s = Inr (f, s1)" "sound [] s1" "kept s s1" "ir.more s1 = ir.more s"
    "f_types s1 f = Some t"
    using Function_create_sound [OF 2(2), of r as n] unfolding t by (rule returns_pairE) blast
  obtain vs s2 where s2: "create_library fs s1 = Inr (vs, s2)" "sound [] s2" "kept s1 s2" "ir.more s2 = ir.more s1"
    "list_all2 (\<lambda>(n, t) (m, v). m = n \<and> realises s2 v t) fs vs"
    using 2(1) [OF s1(1) refl s1(2)] 2(3) by (auto elim!: returns_pairE)
  have "realises s2 (VFun f) t"
    using realises_kept [OF s2(3)] realises_fun s1(5) t by simp
  then show ?case
    using s1 s2 by (auto intro: kept_trans)
qed simp

fun bind_names :: "(string \<times> ty) list \<Rightarrow> tenv \<Rightarrow> tenv" where
  "bind_names [] E = E"
| "bind_names ((n, t) # ns) E = bind_names ns (bind n t E)"

lemma declare_names_sound:
  "\<lbrakk>list_all2 (\<lambda>(n, t) (m, v). m = n \<and> realises s v t) fs vs; sound E s; E \<noteq> []\<rbrakk> \<Longrightarrow>
     returns (declare_names vs s) (\<lambda>s'. sound (bind_names fs E) s' \<and> (\<exists>sc. s' = s\<lparr>scope := sc\<rparr>))"
proof (induction fs arbitrary: vs s E)
  case Nil
  then show ?case
    by (auto intro: exI [of _ "scope s"])
next
  case (Cons f fs)
  obtain n t where f: "f = (n, t)" by force
  obtain w ws where v: "vs = (n, w) # ws" and w: "realises s w t"
    and ws: "list_all2 (\<lambda>(n, t) (m, v). m = n \<and> realises s v t) fs ws"
    using Cons(2) f by (auto simp: list_all2_Cons1)
  obtain sc where sc: "declare_name n w s = Inr (s\<lparr>scope := sc\<rparr>)" "sound (bind n t E) (s\<lparr>scope := sc\<rparr>)"
    using w Cons(3,4) by (rule declare_nameE)
  have "returns (declare_names ws (s\<lparr>scope := sc\<rparr>)) (\<lambda>s'. sound (bind_names fs (bind n t E)) s' \<and> (\<exists>sc'. s' = s\<lparr>scope := sc'\<rparr>))"
    using Cons.IH [of "s\<lparr>scope := sc\<rparr>" ws "bind n t E"] sc(2) ws Cons(4) by simp
  then show ?case
    by (simp add: f v sc(1))
qed

lemma library_env_eq: "bind_names library [Map.empty] = library_env"
  by (simp add: library_def library_env_def)

lemma init_builder_ready: "returns init_builder (ready library_env)"
proof -
  have lib: "\<forall>(n, t) \<in> set library. is_fun_ty t" by (simp add: library_def is_fun_ty_def)
  obtain vs s1 where s1: "create_library library empty_cg = Inr (vs, s1)" "sound [] s1" "ir.more s1 = ir.more empty_cg"
    "list_all2 (\<lambda>(n, t) (m, v). m = n \<and> realises s1 v t) library vs"
    using create_library_sound [OF empty_cg_sound lib] by (rule returns_pairE) blast
  let ?s = "s1\<lparr>scope := enter (scope s1)\<rparr>"
  have "sound [Map.empty] ?s"
    using s1(2) unfolding sound_scope by (simp add: sound_def env_ok_def enter_def)
  then have "returns (declare_names vs ?s) (\<lambda>s'. sound library_env s' \<and> (\<exists>sc. s' = ?s\<lparr>scope := sc\<rparr>))"
    using declare_names_sound [of ?s library vs "[Map.empty]"] s1(4) unfolding library_env_eq by simp
  moreover have "idle s1"
    using idle_more [OF s1(3)] by (simp add: idle_def empty_cg_def ir.defs)
  ultimately have "returns (declare_names vs ?s) (ready library_env)"
    by (auto simp: ready_def library_env_def idle_def elim!: returns_mono)
  then show ?thesis
    by (simp add: init_builder_def s1(1))
qed

section \<open>The properties\<close>

text \<open>C8: in a state whose symbol table realises the type environment, the visit of a well-typed
  expression returns; the value it leaves has the type that the static semantics gives the
  expression, and the state is of that kind again, with the same scopes and flags.\<close>

theorem visit_expression_typed:
  assumes "infer_expression E e = Some t" and "in_fun r E s" and "\<not> require_lvalue s"
  shows "\<exists>s'. visit_expression e s = Inr s' \<and> get_type s' (tmp_val s') = Inr t \<and> in_fun r E s' \<and>
    kept s s' \<and> steady s s'"
proof -
  have "visits (visit_expression e) (\<lambda>E. infer_expression E e)"
    using visits_all by blast
  then obtain s' where "visit_expression e s = Inr s'" "goes r E s s'" "has_type s' (tmp_val s') t"
    using assms by (rule visitsE)
  then show ?thesis
    by (auto simp: goes_def has_type_def)
qed

text \<open>C7: every well-typed program is translated: no assertion, cast or pointer access of the code
  generator fails on it, and every instruction of the module obeys the typing rule of the IR, its
  operands included.\<close>

theorem generate_well_typed:
  assumes "well_typed p"
  shows "\<exists>s. generate p = Inr s \<and> typed s"
proof -
  obtain s0 where s0: "init_builder = Inr s0" "ready library_env s0"
    using init_builder_ready by (rule returnsE)
  obtain s E where s: "visit_program p s0 = Inr s" "ready E s"
    using visit_program_ready [OF s0(2) assms [unfolded well_typed_def]] by (auto simp: returns_def)
  have "typed s" using s(2) by (simp add: ready_def sound_def)
  moreover have "generate p = Inr s"
    using s(1) by (simp add: generate_def s0(1))
  ultimately show ?thesis by blast
qed

text \<open>\<open>int get(float a[], int i) { return a[i + 1]; }
  void main(void) { float b[3]; int x; b[0] = x = 2; while (x) output(get(b, x)); }\<close>\<close>

definition sample_typed :: program where
  "sample_typed =
    [FunDecl \<lparr>fd_type = TYPE_INT, fd_id = ''get'', fd_params =
        [\<lparr>p_type = TYPE_FLOAT, p_id = ''a'', p_isarray = True\<rparr>, \<lparr>p_type = TYPE_INT, p_id = ''i'', p_isarray = False\<rparr>],
       fd_locals = [], fd_body = [Return (Some (factor_expr (FVar (VarIndex ''a''
          (SimpleE (AddBin (AddTerm (TermFactor (FVar (Var ''i'')))) OP_PLUS (TermFactor (FNum (NumInt 1)))))))))]\<rparr>,
     FunDecl \<lparr>fd_type = TYPE_VOID, fd_id = ''main'', fd_params = [],
       fd_locals = [\<lparr>vd_type = TYPE_FLOAT, vd_id = ''b'', vd_num = Some 3\<rparr>, \<lparr>vd_type = TYPE_INT, vd_id = ''x'', vd_num = None\<rparr>],
       fd_body = [ExprStmt (Some (AssignE (VarIndex ''b'' (factor_expr (FNum (NumInt 0))))
            (AssignE (Var ''x'') (factor_expr (FNum (NumInt 2)))))),
          Iteration (factor_expr (FVar (Var ''x''))) (ExprStmt (Some (factor_expr (FCall ''output''
            [factor_expr (FCall ''get'' [factor_expr (FVar (Var ''b'')), factor_expr (FVar (Var ''x''))])]))))]\<rparr>]"

lemma sample_typed_ok: "well_typed sample_typed"
  by (simp add: well_typed_def sample_typed_def library_env_def factor_expr_def fun_ty_def decl_ty_def
      numeric_def fits_def join_ty_def)

theorem generate_well_typed_witness:
  "\<exists>s. generate sample_typed = Inr s \<and> typed s"
  by (rule generate_well_typed [OF sample_typed_ok])

text \<open>A state inside a function: \<open>float main(void)\<close> before its body.\<close>

lemma inside_function:
  obtains E s where "in_fun FloatTy E s" "\<not> require_lvalue s"
proof -
  let ?d = "\<lparr>fd_type = TYPE_FLOAT, fd_id = ''main'', fd_params = [], fd_locals = [], fd_body = []\<rparr>"
  obtain s0 where "ready library_env s0"
    using init_builder_ready by (rule returnsE)
  then obtain f b s3 where s3: "sound (bind ''main'' (fun_ty ?d) library_env) s3" "idle s3" "cur_fun s3 = Some f"
    "owner s3 b = Some f" "f_types s3 f = Some (fun_ty ?d)"
    by (rule fun_header [of _ _ ?d]) simp
  then have "in_fun FloatTy (bind ''main'' (fun_ty ?d) library_env) (set_insert_point b s3)"
    by (auto simp: in_fun_def set_insert_point_def fun_ty_def)
  moreover have "\<not> require_lvalue (set_insert_point b s3)"
    using s3(2) by (simp add: idle_def set_insert_point_def)
  ultimately show thesis by (rule that)
qed

theorem visit_expression_typed_witness:
  "\<exists>r E s s'. visit_expression (SimpleE (AddBin (AddTerm (TermFactor (FNum (NumInt 1)))) OP_PLUS
     (TermFactor (FNum (NumFloat 2))))) s = Inr s' \<and> get_type s' (tmp_val s') = Inr FloatTy \<and> in_fun r E s'"
proof -
  obtain E s where s: "in_fun FloatTy E s" "\<not> require_lvalue s"
    by (rule inside_function)
  have "infer_expression E (SimpleE (AddBin (AddTerm (TermFactor (FNum (NumInt 1)))) OP_PLUS
     (TermFactor (FNum (NumFloat 2))))) = Some FloatTy"
    by (simp add: join_ty_def)
  from visit_expression_typed [OF this s] show ?thesis by blast
qed

end
