(* ===== verification/Code_Growth.thy ===== *)
theory Code_Growth
  imports Codegen_Types "HOL-Library.Sublist"
begin

text \<open>
  The code generator only adds to a module: what has been emitted stays as it is, and code is
  appended at the insertion point or in blocks that are created later. The locale
  \<open>visitor_invariant\<close> carries any property of states from the steps to the visits of statements;
  it is interpreted for this growth and for the table of floats.
\<close>

section \<open>Growth\<close>

definition grows :: "cg \<Rightarrow> cg \<Rightarrow> bool" where
  "grows s s' \<longleftrightarrow> next_id s \<le> next_id s' \<and> instrs s \<subseteq>\<^sub>m instrs s' \<and> gvars s \<subseteq>\<^sub>m gvars s' \<and>
     (\<forall>p. instrs s p \<noteq> None \<longrightarrow> operands s' (VInstr p) = operands s (VInstr p)) \<and>
     (\<forall>b. prefix (ilist s b) (ilist s' b)) \<and> (\<forall>f. prefix (fblocks s f) (fblocks s' f)) \<and>
     (\<forall>f fn. funs s f = Some fn \<longrightarrow> (\<exists>fn'. funs s' f = Some fn' \<and> f_name fn' = f_name fn \<and> f_type fn' = f_type fn)) \<and>
     prefix (global_list s) (global_list s') \<and> prefix (function_list s) (function_list s') \<and>
     set (cached_float s) \<subseteq> set (cached_float s')"

lemma growsD:
  assumes "grows s s'"
  shows "next_id s \<le> next_id s'" "instrs s p = Some ins \<Longrightarrow> instrs s' p = Some ins"
    "gvars s g = Some x \<Longrightarrow> gvars s' g = Some x"
    "instrs s p = Some ins \<Longrightarrow> operands s' (VInstr p) = operands s (VInstr p)"
    "prefix (ilist s b) (ilist s' b)" "prefix (fblocks s f) (fblocks s' f)"
    "funs s f = Some fn \<Longrightarrow> \<exists>fn'. funs s' f = Some fn' \<and> f_name fn' = f_name fn \<and> f_type fn' = f_type fn"
    "prefix (global_list s) (global_list s')" "prefix (function_list s) (function_list s')"
    "set (cached_float s) \<subseteq> set (cached_float s')"
  using assms unfolding grows_def by (auto intro: map_leD)

lemma grows_refl [simp]: "grows s s"
  by (simp add: grows_def)

lemma grows_trans:
  assumes "grows s s1" and "grows s1 s2"
  shows "grows s s2"
  unfolding grows_def
proof (intro conjI allI impI)
  show "instrs s \<subseteq>\<^sub>m instrs s2" "gvars s \<subseteq>\<^sub>m gvars s2"
    using assms unfolding grows_def by (blast intro: map_le_trans)+
  show "operands s2 (VInstr p) = operands s (VInstr p)" if "instrs s p \<noteq> None" for p
    using that growsD(2,4) [OF assms(1)] growsD(4) [OF assms(2)] by auto
  show "\<exists>fn'. funs s2 f = Some fn' \<and> f_name fn' = f_name fn \<and> f_type fn' = f_type fn" if "funs s f = Some fn" for f fn
    using growsD(7) [OF assms(1) that] growsD(7) [OF assms(2)] by metis
  show "prefix (ilist s b) (ilist s2 b)" "prefix (fblocks s f) (fblocks s2 f)" for b f
    using growsD(5,6) [OF assms(1)] growsD(5,6) [OF assms(2)] prefix_order.trans by blast+
  show "prefix (global_list s) (global_list s2)" "prefix (function_list s) (function_list s2)"
    using growsD(8,9) [OF assms(1)] growsD(8,9) [OF assms(2)] prefix_order.trans by blast+
qed (use growsD(1,10) [OF assms(1)] growsD(1,10) [OF assms(2)] in auto)

text \<open>The table of floats gives every literal back, since negative zero is not in it.\<close>

definition exact :: "cg \<Rightarrow> bool" where
  "exact s \<longleftrightarrow> (\<forall>(k, c) \<in> set (cached_float s). k \<noteq> 2 ^ 31 \<and> (\<exists>n. c = CFP k n))"

text \<open>\<open>past s0 s\<close>: the code since \<open>s0\<close> stands behind the insertion point of \<open>s0\<close> and in newer blocks.\<close>

definition past :: "cg \<Rightarrow> cg \<Rightarrow> bool" where
  "past s0 s \<longleftrightarrow> fresh_ok s \<and> grows s0 s \<and> (exact s0 \<longrightarrow> exact s) \<and> cur_fun s = cur_fun s0 \<and>
     (insert_bb s = insert_bb s0 \<or> (\<exists>b \<ge> next_id s0. insert_bb s = Some b)) \<and>
     (\<forall>b < next_id s0. insert_bb s0 \<noteq> Some b \<longrightarrow> ilist s b = ilist s0 b) \<and>
     (\<forall>f. cur_fun s0 \<noteq> Some f \<longrightarrow> fblocks s f = fblocks s0 f)"

lemma pastD:
  assumes "past s0 s"
  shows "fresh_ok s" "grows s0 s" "exact s0 \<Longrightarrow> exact s" "cur_fun s = cur_fun s0"
    "insert_bb s = insert_bb s0 \<or> (\<exists>b \<ge> next_id s0. insert_bb s = Some b)"
    "b < next_id s0 \<Longrightarrow> insert_bb s0 \<noteq> Some b \<Longrightarrow> ilist s b = ilist s0 b"
    "cur_fun s0 \<noteq> Some f \<Longrightarrow> fblocks s f = fblocks s0 f"
  using assms unfolding past_def by blast+

lemma past_refl: "fresh_ok s \<Longrightarrow> past s s"
  by (simp add: past_def)

lemma past_trans:
  assumes "past s0 s" and "past s s'"
  shows "past s0 s'"
proof -
  note p = pastD [OF assms(1)] and q = pastD [OF assms(2)]
  have "insert_bb s' = insert_bb s0 \<or> (\<exists>b \<ge> next_id s0. insert_bb s' = Some b)"
    using p(5) q(5) growsD(1) [OF p(2)] by (metis le_trans)
  moreover have "ilist s' b = ilist s0 b" if "b < next_id s0" "insert_bb s0 \<noteq> Some b" for b
    using p(5) p(6) [OF that] q(6) [of b] growsD(1) [OF p(2)] that by fastforce
  ultimately show ?thesis
    using p q grows_trans [OF p(2) q(2)] by (simp add: past_def)
qed

section \<open>The steps\<close>

lemma past_upd [simp]:
  "past s0 (s\<lparr>tmp_val := v1\<rparr>) = past s0 s" "past s0 (s\<lparr>require_lvalue := v2\<rparr>) = past s0 s"
  "past s0 (s\<lparr>scope := v3\<rparr>) = past s0 s" "past s0 (s\<lparr>pre_enter_scope := v4\<rparr>) = past s0 s"
  by (simp_all add: past_def grows_def exact_def fresh_ok_def ilist_def fblocks_def)

lemma past_insert: "past s0 s \<Longrightarrow> next_id s0 \<le> b \<Longrightarrow> past s0 (set_insert_point b s)"
  by (simp add: past_def grows_def exact_def fresh_ok_def ilist_def fblocks_def set_insert_point_def)

lemma grows_mk_instr:
  assumes "fresh_ok s" and "mk_instr t opc d vs b s = Inr (v, s')"
  shows "grows s s'"
  using fresh_okD(1) [OF assms(1), of "next_id s"]
  by (auto simp: grows_def mk_instr_view [OF assms(2)] map_le_fresh)

lemma past_mk_instr:
  assumes p: "past s0 s" and b: "insert_bb s = Some b" and mk: "mk_instr t opc d vs b s = Inr (v, s')"
  shows "past s0 s'"
proof -
  note f = pastD(1) [OF p]
  note v = mk_instr_view [OF mk]
  have m: "cur_fun s' = cur_fun s" "insert_bb s' = insert_bb s"
    using cg_more [OF v(17)] by simp_all
  have "exact s' = exact s" by (simp add: exact_def v)
  moreover have "ilist s' c = ilist s0 c" if "c < next_id s0" "insert_bb s0 \<noteq> Some c" for c
    using that pastD(5,6) [OF p] b by (auto simp: v)
  ultimately show ?thesis
    using p grows_trans [OF pastD(2) [OF p] grows_mk_instr [OF f mk]] mk_instr_fresh [OF f mk]
    unfolding past_def by (simp add: m v(9))
qed

lemma past_same_code:
  assumes p: "past s0 s" and "same_code s s'"
  shows "past s0 s'"
proof -
  have e: "next_id s' = next_id s" "instrs s' = instrs s" "owner s' = owner s" "funs s' = funs s" "ilist s' = ilist s"
    "fblocks s' = fblocks s" "gvars s' = gvars s" "operands s' = operands s" "cached_float s' = cached_float s"
    "ir.more s' = ir.more s" "global_list s' = global_list s" "function_list s' = function_list s"
    using assms(2) by (simp_all add: same_code_def)
  have "blocks s' p = None \<longleftrightarrow> blocks s p = None" for p
    by (simp add: owner_None_blocks [symmetric] e)
  then have "fresh_ok s'" using pastD(1) [OF p] by (simp add: fresh_ok_def e)
  then show ?thesis
    using p cg_more [OF e(10)] by (simp add: past_def grows_def exact_def e)
qed

lemma past_br:
  assumes "past s0 s" and "discard (build (create_br t) s) = Inr s'"
  shows "past s0 s'"
proof -
  obtain b v where b: "insert_bb s = Some b" "create_br t b s = Inr (v, s')"
    using assms(2) by (auto simp: discard_Inr build_Inr)
  from b(2) show ?thesis
  proof (rule create_br_Inr)
    fix s1 assume s1: "mk_instr VoidTy Br NoData [VBB t] b s1 = Inr (v, s')" "same_code s s1"
    have "insert_bb s1 = Some b" using s1(2) b(1) cg_more(1) [of s1 s] by (simp add: same_code_def)
    then show ?thesis using past_mk_instr [OF past_same_code [OF assms(1) s1(2)] _ s1(1)] by simp
  qed
qed

lemma past_cond_br:
  assumes "past s0 s" and "discard (build (create_cond_br c t f) s) = Inr s'"
  shows "past s0 s'"
proof -
  obtain b v where b: "insert_bb s = Some b" "create_cond_br c t f b s = Inr (v, s')"
    using assms(2) by (auto simp: discard_Inr build_Inr)
  obtain s1 s2 s3 s4 where e: "add_pre_basic_block t b s = Inr s1"
    "add_pre_basic_block f b s1 = Inr s2" "add_succ_basic_block b f s2 = Inr s3"
    "add_succ_basic_block b t s3 = Inr s4" "mk_instr VoidTy Br NoData [c, VBB t, VBB f] b s4 = Inr (v, s')"
    using b(2) by (auto simp: create_cond_br_def)
  have same: "same_code s s4"
    using add_pre_view(1) [OF e(1)] add_pre_view(1) [OF e(2)] add_succ_view(1) [OF e(3)]
      add_succ_view(1) [OF e(4)] same_code_trans by blast
  have "insert_bb s4 = Some b" using same b(1) cg_more(1) [of s4 s] by (simp add: same_code_def)
  then show ?thesis using past_mk_instr [OF past_same_code [OF assms(1) same] _ e(5)] by simp
qed

lemma past_ret: "past s0 s \<Longrightarrow> discard (build (mk_instr VoidTy Ret d vs) s) = Inr s' \<Longrightarrow> past s0 s'"
  by (auto simp: discard_Inr build_Inr intro: past_mk_instr)

lemma past_emits: "past s0 s \<Longrightarrow> emits s s' \<Longrightarrow> past s0 s'"
  unfolding emits_def by (blast intro: past_mk_instr)

lemma past_fp:
  assumes p: "past s0 s" and g: "ConstantFP_get x s = (c, s')" and x: "x \<noteq> 2 ^ 31"
  shows "past s0 s'"
proof -
  obtain n es where u: "s' = s\<lparr>fp_count := n, cached_float := cached_float s @ es\<rparr>" "\<forall>e \<in> set es. \<exists>n. e = (x, CFP x n)"
  proof (cases "find_float x (cached_float s)")
    case None
    then show thesis using g by (intro that [of "[(x, c)]" "Suc (fp_count s)"]) (auto simp: ConstantFP_get_def Let_def)
  next
    case (Some d)
    then show thesis using g by (intro that [of "[]" "fp_count s"]) (auto simp: ConstantFP_get_def)
  qed
  have "exact s \<Longrightarrow> exact s'" using u x by (fastforce simp: exact_def)
  then show ?thesis
    using p by (auto simp: past_def grows_def fresh_ok_def ilist_def fblocks_def u(1))
qed

lemma past_new_block:
  assumes p: "past s0 s" and n: "new_block n s = Inr (b, s')"
  shows "past s0 s'" "b = next_id s" "next_id s0 \<le> b" "ilist s' b = []"
proof -
  obtain f fn where f: "cur_fun s = Some f" "funs s f = Some fn" and b: "b = next_id s"
    and s': "s' = s\<lparr>next_id := Suc b, blocks := (blocks s)(b \<mapsto> \<lparr>bb_name = (if n = '''' then '''' else ''label_'') @ n,
       bb_parent = f, pre_bbs = [], succ_bbs = [], instr_list = []\<rparr>),
       funs := (funs s)(f \<mapsto> fn\<lparr>basic_blocks := basic_blocks fn @ [b]\<rparr>)\<rparr>"
    using n by (auto simp: new_block_def BasicBlock_create_def Let_def)
  note fr = pastD(1) [OF p]
  have none: "blocks s b = None" using fresh_okD(2) [OF fr, of b] b by simp
  have il: "ilist s' = ilist s" using none by (auto simp: fun_eq_iff ilist_def s')
  then show "ilist s' b = []" using none by (simp add: ilist_def)
  show le: "b = next_id s" "next_id s0 \<le> b" using growsD(1) [OF pastD(2) [OF p]] b by simp_all
  have "f < next_id s" using fresh_okD(3) [OF fr, of f] f(2) by (cases "next_id s \<le> f") auto
  then have "fresh_ok s'" using fr by (auto simp: fresh_ok_def s' b)
  moreover have "grows s s'"
    using b f(2) unfolding grows_def il by (auto simp: fblocks_def s')
  then have "grows s0 s'" by (rule grows_trans [OF pastD(2) [OF p]])
  moreover have "exact s' = exact s" by (simp add: exact_def s')
  moreover have "fblocks s' g = fblocks s0 g" if "cur_fun s0 \<noteq> Some g" for g
    using that pastD(4,7) [OF p] f(1) by (auto simp: fblocks_def s')
  ultimately show "past s0 s'"
    using p by (simp add: past_def il) (simp add: s')
qed

lemma past_default_return:
  assumes p: "past s0 s" and "default_return s = Inr s'"
  shows "past s0 s'"
proof -
  obtain rt where rt: "(if is_void_type rt then discard (build create_void_ret s)
     else if is_float_type rt then (let (c, s) = const_fp 0 s in discard (build (create_ret c) s))
     else discard (build (create_ret (const_int 0)) s)) = Inr s'"
    using assms(2) by (auto simp: default_return_def)
  consider "discard (build create_void_ret s) = Inr s'"
    | c s1 where "const_fp 0 s = (c, s1)" "discard (build (create_ret c) s1) = Inr s'"
    | "discard (build (create_ret (const_int 0)) s) = Inr s'"
    using rt by (auto split: if_splits prod.splits)
  then show ?thesis
  proof cases
    case 2
    have "past s0 s1" using 2(1) past_fp [OF p] by (auto simp: const_fp_def split: prod.splits)
    then show ?thesis using 2(2) unfolding create_ret_def by (rule past_ret)
  qed (use past_ret [OF p] in \<open>auto simp: create_ret_def create_void_ret_def\<close>)
qed

lemma past_index_check:
  assumes p: "past s0 s" and "index_check v s = Inr (i, s')"
  shows "past s0 s'"
  using assms(2)
proof (rule index_check_Inr)
  fix e s1 c s2 s3 neg s4 s5 w s6 s7
  assume h: "new_block '''' s = Inr (e, s1)" "new_block '''' s1 = Inr (c, s2)"
    "s3 = s2 \<or> emits s2 s3" "build (create_cmp LT i (const_int 0)) s3 = Inr (neg, s4)"
    "discard (build (create_cond_br neg e c) s4) = Inr s5"
    "build (create_call (find (scope (set_insert_point e s5)) ''neg_idx_except'') []) (set_insert_point e s5) = Inr (w, s6)"
    "default_return s6 = Inr s7" "s' = set_insert_point c s7"
  note e = past_new_block [OF p h(1)]
  note c = past_new_block [OF e(1) h(2)]
  have "past s0 s3" using h(3) c(1) past_emits by blast
  then have "past s0 s4" using h(4) by (blast intro: past_emits emits_intros)
  then have "past s0 (set_insert_point e s5)" using past_insert [OF past_cond_br [OF _ h(5)]] e(3) by blast
  then have "past s0 s6" using h(6) by (blast intro: past_emits emits_intros)
  then have "past s0 s7" using h(7) by (rule past_default_return)
  then show ?thesis using past_insert c(3) h(8) by blast
qed

text \<open>A block that is not the insertion point stays as it is.\<close>

lemma past_ilist: "past s s' \<Longrightarrow> b < next_id s \<Longrightarrow> insert_bb s \<noteq> Some b \<Longrightarrow> ilist s' b = ilist s b"
  by (rule pastD(6))

section \<open>Statements\<close>

fun lit_statement :: "(float32 \<Rightarrow> bool) \<Rightarrow> statement \<Rightarrow> bool" and
  lit_statements :: "(float32 \<Rightarrow> bool) \<Rightarrow> statement list \<Rightarrow> bool"
where
  "lit_statement P (Compound ds ss) = lit_statements P ss"
| "lit_statement P (ExprStmt None) = True"
| "lit_statement P (ExprStmt (Some e)) = lit_expression P e"
| "lit_statement P (Selection e st None) = (lit_expression P e \<and> lit_statement P st)"
| "lit_statement P (Selection e st (Some el)) = (lit_expression P e \<and> lit_statement P st \<and> lit_statement P el)"
| "lit_statement P (Iteration e st) = (lit_expression P e \<and> lit_statement P st)"
| "lit_statement P (Return None) = True"
| "lit_statement P (Return (Some e)) = lit_expression P e"
| "lit_statements P [] = True"
| "lit_statements P (st # ss) = (lit_statement P st \<and> lit_statements P ss)"

text \<open>A property of states that every step of the visits keeps; \<open>T\<close> are the blocks that may become the
  insertion point.\<close>

locale visitor_invariant = expression_effect "\<lambda>s s'. I s \<longrightarrow> I s'" lit
  for I :: "cg \<Rightarrow> bool" and lit :: "float32 \<Rightarrow> bool" +
  fixes T :: "nat \<Rightarrow> bool"
  assumes new_block: "I s \<Longrightarrow> new_block n s = Inr (b, s') \<Longrightarrow> I s' \<and> T b"
    and insert: "I s \<Longrightarrow> T b \<Longrightarrow> I (set_insert_point b s)"
    and br: "I s \<Longrightarrow> discard (build (create_br t) s) = Inr s' \<Longrightarrow> I s'"
    and cond_br: "I s \<Longrightarrow> discard (build (create_cond_br c t f) s) = Inr s' \<Longrightarrow> I s'"
    and return: "I s \<Longrightarrow> discard (build (mk_instr VoidTy Ret d vs) s) = Inr s' \<Longrightarrow> I s'"
    and scope: "I (s\<lparr>scope := sc\<rparr>) = I s"
    and entering: "I (s\<lparr>pre_enter_scope := x\<rparr>) = I s"
    and global: "I s \<Longrightarrow> GlobalVariable_create n gt False (VConst gc) s = Inr (gv, s') \<Longrightarrow> I s'"
begin

lemma emitted: "I s \<Longrightarrow> emits s s' \<Longrightarrow> I s'"
  using emit by blast

lemma emitted_tmp: "I s \<Longrightarrow> emits s s1 \<Longrightarrow> I (s1\<lparr>tmp_val := v\<rparr>)"
  using emit_tmp by blast

lemma expression: "I s \<Longrightarrow> visit_expression e s = Inr s' \<Longrightarrow> lit_expression lit e \<Longrightarrow> I s'"
  using visits_lit(1) by blast

lemma tested: "I s \<Longrightarrow> condition v s = Inr (c, s') \<Longrightarrow> I s'"
  using condition by blast

lemma declare_name: "I s \<Longrightarrow> declare_name n v s = Inr s' \<Longrightarrow> I s'"
  by (auto simp: declare_name_Inr scope)

lemma var_decls: "visit_var_decls ds s = Inr s' \<Longrightarrow> I s \<Longrightarrow> I s'"
proof (induction ds s rule: visit_var_decls.induct)
  case (2 d ds s)
  then obtain s1 where s1: "visit_var_decl d s = Inr s1" "visit_var_decls ds s1 = Inr s'" by auto
  have "I s1"
    using s1(1)
  proof (rule visit_var_decl_Inr)
    fix t v s0
    assume p: "declare_name (vd_id d) v s0 = Inr s1"
      "if in_global (cg.scope s) then GlobalVariable_create (vd_id d) t False (VConst (CZero t)) s = Inr (v, s0)
       else build (create_alloca t) s = Inr (v, s0)"
    have "I s0"
    proof (cases "in_global (cg.scope s)")
      case True
      then have "GlobalVariable_create (vd_id d) t False (VConst (CZero t)) s = Inr (v, s0)" using p(2) by simp
      then show ?thesis by (rule global [OF 2(3)])
    next
      case False
      then have "build (create_alloca t) s = Inr (v, s0)" using p(2) by simp
      then show ?thesis by (rule emitted [OF 2(3) build_emits(8)])
    qed
    then show "I s1" using p(1) by (rule declare_name)
  qed
  then show ?case using 2(1) s1 by blast
qed simp

lemma params: "visit_params f i ps s = Inr s' \<Longrightarrow> I s \<Longrightarrow> I s'"
proof (induction ps arbitrary: i s)
  case (Cons p ps)
  then obtain v1 s1 w1 s2 s3 where p: "build (create_alloca (param_type p)) s = Inr (v1, s1)" "build (create_store (VArg f i) v1) s1 = Inr (w1, s2)"
    "declare_name (p_id p) v1 s2 = Inr s3" "visit_params f (Suc i) ps s3 = Inr s'"
    by (auto simp: discard_Inr simp del: param_type.simps)
  have "I s2" using emitted [OF emitted [OF Cons(3) build_emits(8) [OF p(1)]] build_emits(7) [OF p(2)]] .
  then show ?case using Cons.IH [OF p(4)] declare_name p(3) by blast
qed simp

lemma br_if_open: "I s \<Longrightarrow> br_if_open b s = Inr s' \<Longrightarrow> I s'"
  by (auto simp: br_if_open_def split: if_splits intro: br)

lemma return_value: "I s \<Longrightarrow> return_value r s = Inr s' \<Longrightarrow> I s'"
proof -
  assume s: "I s" "return_value r s = Inr s'"
  obtain t s1 where p: "(if r \<noteq> t
      then if is_integer_type r then to_tmp (build (create_fptosi (tmp_val s) INT32_T) s)
           else to_tmp (build (create_sitofp (tmp_val s) FloatTy) s)
      else Inr s) = Inr s1" "discard (build (create_ret (tmp_val s1)) s1) = Inr s'"
    using s(2) by (auto simp: return_value_def)
  from p(1) have "I s \<longrightarrow> I s1"
    by (auto simp: to_tmp_Inr split: if_splits) (blast intro: emitted_tmp emits_intros)+
  then show "I s'" using return s(1) p(2) unfolding create_ret_def by blast
qed

lemma visits_statement:
  "\<lbrakk>visit_statement st s = Inr s1; I s; lit_statement lit st\<rbrakk> \<Longrightarrow> I s1"
  "\<lbrakk>visit_statements ss s = Inr s2; I s; lit_statements lit ss\<rbrakk> \<Longrightarrow> I s2"
proof (induction st s and ss s arbitrary: s1 and s2 rule: visit_statement_visit_statements.induct)
  case (1 ds ss s)
  obtain nx sx where c: "compound_enter s = (nx, sx)" by force
  then have "I sx" using 1(3) by (auto simp: compound_enter_def scope entering split: if_splits)
  obtain sa sb where p: "visit_var_decls ds sx = Inr sa" "visit_statements ss sa = Inr sb" "compound_exit nx sb = Inr s1"
    using 1(2) c by auto
  have "I sb" using 1(1) [OF c [symmetric] HOL.refl p(1,2)] var_decls [OF p(1) \<open>I sx\<close>] 1(4) by simp
  then show ?case using p(3) by (auto simp: compound_exit_def exit_scope_def scope split: if_splits)
next
  case (4 e st s)
  then obtain sa t sb c sc cv sd se sf sg where p: "visit_expression e s = Inr sa" "new_block '''' sa = Inr (t, sb)"
    "new_block '''' sb = Inr (c, sc)" "condition (tmp_val sa) sc = Inr (cv, sd)"
    "discard (build (create_cond_br cv t c) sd) = Inr se"
    "visit_statement st (set_insert_point t se) = Inr sf" "br_if_open c sf = Inr sg"
    "s1 = set_insert_point c sg"
    by (auto simp: Let_def)
  have b: "I sb" "T t" "I sc" "T c"
    using new_block [OF _ p(2)] new_block [OF _ p(3)] expression [OF _ p(1)] 4(3,4) by auto
  then have "I (set_insert_point t se)" using tested [OF _ p(4)] cond_br [OF _ p(5)] insert by blast
  then have "I sf" using 4(1) 4(4) p by auto
  then show ?case using br_if_open [OF _ p(7)] insert b(4) p(8) by blast
next
  case (5 e st el s)
  then obtain sa t sb c sc cv sd fb se sf sg sh si sj where p: "visit_expression e s = Inr sa" "new_block '''' sa = Inr (t, sb)"
    "new_block '''' sb = Inr (c, sc)" "condition (tmp_val sa) sc = Inr (cv, sd)"
    "new_block '''' sd = Inr (fb, se)"
    "discard (build (create_cond_br cv t fb) se) = Inr sf"
    "visit_statement st (set_insert_point t sf) = Inr sg" "br_if_open c sg = Inr sh"
    "visit_statement el (set_insert_point fb sh) = Inr si" "br_if_open c si = Inr sj"
    "s1 = set_insert_point c sj"
    by (auto simp: Let_def)
  have b: "I sb" "T t" "I sc" "T c" "I se" "T fb"
    using new_block [OF _ p(2)] new_block [OF _ p(3)] new_block [OF _ p(5)] expression [OF _ p(1)] tested [OF _ p(4)] 5(4,5)
    by auto
  then have "I (set_insert_point t sf)" using cond_br [OF _ p(6)] insert by blast
  then have "I sg" using 5(1) [OF p(1) HOL.refl p(2) HOL.refl p(3) HOL.refl p(4) HOL.refl p(5) HOL.refl p(6,7)] 5(5) by simp
  then have "I (set_insert_point fb sh)" using br_if_open [OF _ p(8)] insert b(6) by blast
  then have "I si"
    using 5(2) [OF p(1) HOL.refl p(2) HOL.refl p(3) HOL.refl p(4) HOL.refl p(5) HOL.refl p(6-9)] 5(5) by simp
  then show ?case using br_if_open [OF _ p(10)] insert b(4) p(11) by blast
next
  case (6 e st s)
  then obtain eb sa sb sc t sd c se cv sf sg sh si where p: "new_block '''' s = Inr (eb, sa)"
    "br_if_open eb sa = Inr sb" "visit_expression e (set_insert_point eb sb) = Inr sc"
    "new_block '''' sc = Inr (t, sd)" "new_block '''' sd = Inr (c, se)"
    "condition (tmp_val sc) se = Inr (cv, sf)" "discard (build (create_cond_br cv t c) sf) = Inr sg"
    "visit_statement st (set_insert_point t sg) = Inr sh" "br_if_open eb sh = Inr si"
    "s1 = set_insert_point c si"
    by (auto simp: Let_def)
  have a: "I sa" "T eb" using new_block [OF _ p(1)] 6(3) by auto
  then have "I (set_insert_point eb sb)" using br_if_open [OF _ p(2)] insert by blast
  then have "I sc" using expression [OF _ p(3)] 6(4) by auto
  then have b: "T t" "I se" "T c" using new_block [OF _ p(4)] new_block [OF _ p(5)] by auto
  then have "I (set_insert_point t sg)" using tested [OF _ p(6)] cond_br [OF _ p(7)] insert by blast
  then have "I sh" using 6(1) 6(4) p by auto
  then show ?case using br_if_open [OF _ p(9)] insert b(3) p(10) by blast
next
  case (8 e s)
  then obtain rt sa where p: "visit_expression e s = Inr sa" "return_value rt sa = Inr s1" by auto
  have "I sa" using expression [OF 8(2) p(1)] 8(3) by simp
  then show ?case using p(2) by (rule return_value)
next
  case (10 st ss s)
  then obtain sa t where p: "visit_statement st s = Inr sa" "terminated sa = Inr t"
    "if t then s2 = sa else visit_statements ss sa = Inr s2"
    by (auto split: if_splits)
  have "I sa" using 10(1) [OF p(1) 10(4)] 10(5) by simp
  then show ?case using 10(2) [OF p(1,2)] p(3) 10(5) by (cases t) auto
next
  case (3 e s)
  then show ?case using expression by simp
next
  case (7 s)
  then show ?case using return by (simp add: create_void_ret_def)
qed simp_all

end

lemma past_global:
  assumes p: "past s0 s" and g: "GlobalVariable_create n t False (VConst c) s = Inr (v, s')"
  shows "past s0 s'"
proof -
  have u: "instrs s' = instrs s" "cached_float s' = cached_float s" "next_id s' = Suc (next_id s)" "blocks s' = blocks s"
    "funs s' = funs s" "operands s' (VInstr q) = operands s (VInstr q)" "function_list s' = function_list s"
    "gvars s' = (gvars s)(next_id s \<mapsto> \<lparr>g_name = n, g_type = PtrTy t, g_const = False, g_init = VConst c\<rparr>)"
    "q \<noteq> next_id s \<Longrightarrow> operands s' (VGlobal q) = operands s (VGlobal q)" "global_list s' = global_list s @ [next_id s]"
    "cur_fun s' = cur_fun s" "insert_bb s' = insert_bb s" for q
    using g by (auto simp: GlobalVariable_create_def Let_def set_operand_def add_use_def new_user_def)
  note f = pastD(1) [OF p]
  have "fresh_ok s'" using f by (auto simp: fresh_ok_def u)
  moreover have "grows s s'"
    using fresh_okD(4) [OF f, of "next_id s"] by (auto simp: grows_def ilist_def fblocks_def u map_le_fresh)
  then have "grows s0 s'" by (rule grows_trans [OF pastD(2) [OF p]])
  moreover have "ilist s' = ilist s" "fblocks s' = fblocks s" "exact s' = exact s"
    by (simp_all add: fun_eq_iff ilist_def fblocks_def exact_def u)
  ultimately show ?thesis using p by (simp add: past_def u)
qed

interpretation past: visitor_invariant "past s0" "\<lambda>x. x \<noteq> 2 ^ 31" "\<lambda>b. next_id s0 \<le> b" for s0
  by unfold_locales (auto intro: past_fp past_emits past_index_check past_insert past_br past_cond_br past_ret past_global
      dest: past_new_block)

section \<open>Open blocks\<close>

text \<open>An expression ends in a block without a terminator.\<close>

definition opened :: "cg \<Rightarrow> bool" where
  "opened s \<longleftrightarrow> fresh_ok s \<and> (\<exists>b. insert_bb s = Some b \<and> b < next_id s \<and> (ilist s b = [] \<or> \<not> is_term s (last (ilist s b))))"

lemma opened_upd [simp]:
  "opened (s\<lparr>tmp_val := v1\<rparr>) = opened s" "opened (s\<lparr>require_lvalue := v2\<rparr>) = opened s"
  "opened (s\<lparr>scope := v3\<rparr>) = opened s" "opened (s\<lparr>pre_enter_scope := v4\<rparr>) = opened s"
  by (simp_all add: opened_def fresh_ok_def ilist_def is_term_def op_of_def)

lemma opened_insert: "fresh_ok s \<Longrightarrow> b < next_id s \<Longrightarrow> ilist s b = [] \<Longrightarrow> opened (set_insert_point b s)"
  by (simp add: opened_def fresh_ok_def set_insert_point_def ilist_def)

lemma opened_emits:
  assumes "opened s" and "emits s s'"
  shows "opened s'"
proof -
  obtain b t opc d vs v where e: "insert_bb s = Some b" "\<not> is_terminator_op opc" "mk_instr t opc d vs b s = Inr (v, s')"
    using assms(2) by (auto simp: emits_def)
  have f: "fresh_ok s" "b < next_id s" using assms(1) e(1) by (auto simp: opened_def)
  have "insert_bb s' = Some b" using cg_more(1) [OF mk_instr_view(17) [OF e(3)]] e(1) by simp
  then show ?thesis
    using mk_instr_fresh [OF f(1) e(3)] f(2) e(2) by (simp add: opened_def mk_instr_view [OF e(3)] is_term_def op_of_def)
qed

lemma opened_fp:
  assumes "opened s" and "ConstantFP_get x s = (c, s')"
  shows "opened s'"
proof -
  obtain n es where "s' = s\<lparr>fp_count := n, cached_float := es\<rparr>"
    using assms(2) by (rule ConstantFP_get_view)
  then show ?thesis using assms(1) by (simp add: opened_def fresh_ok_def ilist_def is_term_def op_of_def)
qed

lemma set_insert_point_id [simp]: "next_id (set_insert_point b s) = next_id s" "insert_bb (set_insert_point b s) = Some b"
  "fresh_ok (set_insert_point b s) = fresh_ok s" "ilist (set_insert_point b s) = ilist s"
  by (simp_all add: set_insert_point_def fresh_ok_def ilist_def fun_eq_iff)

text \<open>The block where the code continues after the check of an index is still empty.\<close>

lemma index_check_end:
  assumes "fresh_ok s" and "insert_bb s = Some b" and "b < next_id s" and "index_check v s = Inr (i, s')"
  shows "\<exists>c. insert_bb s' = Some c \<and> c < next_id s' \<and> ilist s' c = []"
  using assms(4)
proof (rule index_check_Inr)
  fix e s1 c s2 s3 neg s4 s5 w s6 s7
  assume h: "new_block '''' s = Inr (e, s1)" "new_block '''' s1 = Inr (c, s2)"
    "s3 = s2 \<or> emits s2 s3" "build (create_cmp LT i (const_int 0)) s3 = Inr (neg, s4)"
    "discard (build (create_cond_br neg e c) s4) = Inr s5"
    "build (create_call (find (scope (set_insert_point e s5)) ''neg_idx_except'') []) (set_insert_point e s5) = Inr (w, s6)"
    "default_return s6 = Inr s7" "s' = set_insert_point c s7"
  note e = past_new_block [OF past_refl [OF assms(1)] h(1)]
  note c = past_new_block [OF past_refl [OF pastD(1) [OF e(1)]] h(2)]
  have i: "next_id s1 = Suc e" "next_id s2 = Suc c" "insert_bb s2 = Some b"
    using h(1,2) e(2) c(2) assms(2) by (auto simp: new_block_def BasicBlock_create_def Let_def)
  have lt: "b < e" "e < c" using assms(3) e(2) c(2) i(1) by simp_all
  have "past s2 s3" using h(3) past_emits [OF past_refl [OF pastD(1) [OF c(1)]]] past_refl [OF pastD(1) [OF c(1)]] by blast
  then have 5: "past s2 s5" using h(4) past_cond_br [OF _ h(5)] by (blast intro: past_emits emits_intros)
  have c5: "ilist s5 c = []" "c < next_id s5"
    using past_ilist [OF 5, of c] i lt c(4) growsD(1) [OF pastD(2) [OF 5]] by simp_all
  let ?s = "set_insert_point e s5"
  have "past ?s ?s" using past_refl pastD(1) [OF 5] by simp
  then have "past ?s s6" using h(6) by (blast intro: past_emits emits_intros)
  then have 7: "past ?s s7" using h(7) by (rule past_default_return)
  have "ilist s7 c = []" using past_ilist [OF 7, of c] c5 lt(2) by simp
  moreover have "c < next_id s7" using c5(2) growsD(1) [OF pastD(2) [OF 7]] by simp
  ultimately show ?thesis using h(8) by simp
qed

interpretation opened: any_literal "\<lambda>s s'. opened s \<longrightarrow> opened s'"
proof (unfold_locales, goal_cases)
  case (7 v s i s')
  then show ?case
    using index_check_end [of s _ v i s'] past_index_check [OF past_refl, of s v i s'] by (force simp: opened_def dest: pastD(1))
qed (auto intro: opened_fp opened_emits)

end
