(* ===== verification/Float_Arith.thy ===== *)
theory Float_Arith
  imports Float32
begin

text \<open>
  Arithmetic of the C++ type \<open>float\<close> on the bits of binary32, which the constant folder of
  value numbering uses: the exact result of an operation on finite operands, rounded to nearest-even
  by \<open>round_float\<close>, and the IEEE 754 rules for infinities and zeros. For NaN the bits are those
  of the x86 SSE unit: the first NaN operand made quiet, or the default NaN. The conversion to
  \<open>int\<close> gives that unit's \<open>0x80000000\<close> where C++ leaves the result undefined.
\<close>

section \<open>Parts of a float\<close>

definition is_inf :: "float32 \<Rightarrow> bool" where
  "is_inf f \<longleftrightarrow> f_exp f = 255 \<and> f_frac f = 0"

definition inf_of :: "bool \<Rightarrow> float32" where
  "inf_of neg = (if neg then 2 ^ 31 else 0) + 255 * 2 ^ 23"

definition zero_of :: "bool \<Rightarrow> float32" where
  "zero_of neg = (if neg then 2 ^ 31 else 0)"

definition default_nan :: float32 where
  "default_nan = 0xFFC00000"

definition nan_of :: "float32 \<Rightarrow> float32 \<Rightarrow> float32" where
  "nan_of a b = or (if is_nan a then a else b) (2 ^ 22)"

text \<open>A finite float is its sign, an integer and a power of two.\<close>

definition f_mant :: "float32 \<Rightarrow> nat" where
  "f_mant f = (if f_exp f = 0 then f_frac f else f_frac f + 2 ^ 23)"

definition f_pow :: "float32 \<Rightarrow> int" where
  "f_pow f = (if f_exp f = 0 then - 149 else int (f_exp f) - 150)"

definition round_scaled :: "bool \<Rightarrow> nat \<Rightarrow> int \<Rightarrow> float32" where
  "round_scaled neg n e = (if e \<ge> 0 then round_float neg (n * 2 ^ nat e) 1 else round_float neg n (2 ^ nat (- e)))"

section \<open>Operations\<close>

definition add_finite :: "float32 \<Rightarrow> float32 \<Rightarrow> float32" where
  "add_finite a b =
     (let e = min (f_pow a) (f_pow b);
          x = (\<lambda>f. (if f_sign f then - 1 else 1) * int (f_mant f) * 2 ^ nat (f_pow f - e));
          r = x a + x b
      in if r = 0 then zero_of (f_sign a \<and> f_sign b) else round_scaled (r < 0) (nat \<bar>r\<bar>) e)"

definition add_number :: "float32 \<Rightarrow> float32 \<Rightarrow> float32" where
  "add_number a b =
     (if is_inf a then if is_inf b \<and> f_sign a \<noteq> f_sign b then default_nan else a
      else if is_inf b then b else add_finite a b)"

definition ieee_add :: "float32 \<Rightarrow> float32 \<Rightarrow> float32" where
  "ieee_add a b = (if is_nan a \<or> is_nan b then nan_of a b else add_number a b)"

definition ieee_sub :: "float32 \<Rightarrow> float32 \<Rightarrow> float32" where
  "ieee_sub a b = (if is_nan a \<or> is_nan b then nan_of a b else add_number a (xor b (2 ^ 31)))"

definition ieee_mul :: "float32 \<Rightarrow> float32 \<Rightarrow> float32" where
  "ieee_mul a b =
     (let s = (f_sign a \<noteq> f_sign b)
      in if is_nan a \<or> is_nan b then nan_of a b
         else if is_inf a \<and> is_zero b \<or> is_zero a \<and> is_inf b then default_nan
         else if is_inf a \<or> is_inf b then inf_of s
         else round_scaled s (f_mant a * f_mant b) (f_pow a + f_pow b))"

definition ieee_div :: "float32 \<Rightarrow> float32 \<Rightarrow> float32" where
  "ieee_div a b =
     (let s = (f_sign a \<noteq> f_sign b); e = f_pow a - f_pow b
      in if is_nan a \<or> is_nan b then nan_of a b
         else if is_inf a \<and> is_inf b \<or> is_zero a \<and> is_zero b then default_nan
         else if is_inf a \<or> is_zero b then inf_of s
         else if is_inf b then zero_of s
         else round_float s (f_mant a * 2 ^ nat e) (f_mant b * 2 ^ nat (- e)))"

section \<open>Conversions\<close>

definition float_of_int :: "32 word \<Rightarrow> float32" where
  "float_of_int w = round_float (sint w < 0) (nat \<bar>sint w\<bar>) 1"

definition int_of_float :: "float32 \<Rightarrow> 32 word" where
  "int_of_float f =
     (let m = (if f_pow f \<ge> 0 then f_mant f * 2 ^ nat (f_pow f) else f_mant f div 2 ^ nat (- f_pow f));
          i = (if f_sign f then - int m else int m)
      in if f_exp f = 255 \<or> i < - (2 ^ 31) \<or> i \<ge> 2 ^ 31 then 2 ^ 31 else word_of_int i)"

end
