(* ===== verification/Runtime.thy ===== *)
theory Runtime
  imports Float_Arith IR_Typing Cminus_Types "HOL-Library.Signed_Division"
begin

text \<open>
  What the meaning of a Cminus-f program and of its intermediate code share: values, memory, the
  streams of the runtime library (\<open>src/io/io.c\<close>) and the arithmetic of the two types. An address is
  an object and a cell in it; an operation that the language or LLVM leaves undefined has no
  result.
\<close>

section \<open>Values\<close>

text \<open>\<open>VoidV\<close> is the result of a function without one.\<close>

datatype rv = IntV "32 word" | FloatV float32 | BoolV bool | PtrV nat int | VoidV

fun has_ty :: "rv \<Rightarrow> ty \<Rightarrow> bool" where
  "has_ty (IntV i) t = (t = INT32_T)"
| "has_ty (FloatV f) t = (t = FloatTy)"
| "has_ty (BoolV b) t = (t = INT1_T)"
| "has_ty (PtrV ob i) t = is_pointer_type t"
| "has_ty VoidV t = (t = VoidTy)"

lemma has_ty_cases:
  "has_ty v INT32_T \<longleftrightarrow> (\<exists>i. v = IntV i)" "has_ty v FloatTy \<longleftrightarrow> (\<exists>f. v = FloatV f)"
  "has_ty v INT1_T \<longleftrightarrow> (\<exists>b. v = BoolV b)" "has_ty v (PtrTy t) \<longleftrightarrow> (\<exists>ob i. v = PtrV ob i)"
  "has_ty v VoidTy \<longleftrightarrow> v = VoidV"
  by (cases v; auto)+

lemma num_ty_value: "has_ty v t \<Longrightarrow> num_ty t \<Longrightarrow> (\<exists>i. v = IntV i \<and> t = INT32_T) \<or> (\<exists>f. v = FloatV f \<and> t = FloatTy)"
  by (auto simp: num_ty_def has_ty_cases)

section \<open>Arithmetic\<close>

definition div_int :: "32 word \<Rightarrow> 32 word \<Rightarrow> 32 word option" where
  "div_int a b =
     (if b = 0 \<or> sint a = - (2 ^ 31) \<and> sint b = - 1 then None else Some (word_of_int (sint a sdiv sint b)))"

text \<open>The conversion to an integer cuts the fraction off; it is undefined out of range.\<close>

definition f_trunc :: "float32 \<Rightarrow> int" where
  "f_trunc f =
     (let m = (if f_pow f \<ge> 0 then f_mant f * 2 ^ nat (f_pow f) else f_mant f div 2 ^ nat (- f_pow f))
      in if f_sign f then - int m else int m)"

definition float_to_int :: "float32 \<Rightarrow> 32 word option" where
  "float_to_int f =
     (if f_exp f = 255 \<or> f_trunc f < - (2 ^ 31) \<or> f_trunc f \<ge> 2 ^ 31 then None else Some (word_of_int (f_trunc f)))"

text \<open>A value where type \<open>t\<close> is expected: a number is converted.\<close>

definition convert :: "ty \<Rightarrow> rv \<Rightarrow> rv option" where
  "convert t v =
     (if has_ty v t then Some v
      else case v of
        IntV i \<Rightarrow> if t = FloatTy then Some (FloatV (float_of_int i)) else None
      | FloatV f \<Rightarrow> if t = INT32_T then map_option IntV (float_to_int f) else None
      | _ \<Rightarrow> None)"

lemma convert_type: "convert t v = Some w \<Longrightarrow> has_ty w t"
  by (auto simp: convert_def split: if_splits rv.splits)

section \<open>Memory and streams\<close>

datatype event = PrintInt "32 word" | PrintFloat float32 | PrintNegIndex

record mem =
  objects :: "nat \<Rightarrow> rv option list"
  next_object :: nat
  stdin :: "32 word list"
  stdout :: "event list"

text \<open>The number of cells of a type, and a new object whose cells hold \<open>x\<close>.\<close>

fun cells :: "ty \<Rightarrow> nat" where
  "cells (ArrTy t n) = n"
| "cells t = 1"

definition alloc :: "ty \<Rightarrow> rv option \<Rightarrow> mem \<Rightarrow> nat \<times> mem" where
  "alloc t x m = (next_object m,
     m\<lparr>objects := (objects m)(next_object m := replicate (cells t) x), next_object := Suc (next_object m)\<rparr>)"

text \<open>A cell is read with the type it was written with.\<close>

definition load :: "ty \<Rightarrow> nat \<Rightarrow> int \<Rightarrow> mem \<Rightarrow> rv option" where
  "load t ob i m =
     (if 0 \<le> i \<and> nat i < length (objects m ob)
      then case objects m ob ! nat i of Some v \<Rightarrow> if has_ty v t then Some v else None | None \<Rightarrow> None
      else None)"

definition store :: "nat \<Rightarrow> int \<Rightarrow> rv \<Rightarrow> mem \<Rightarrow> mem option" where
  "store ob i v m =
     (if 0 \<le> i \<and> nat i < length (objects m ob)
      then Some (m\<lparr>objects := (objects m)(ob := (objects m ob)[nat i := Some v])\<rparr>)
      else None)"

lemma load_type: "load t ob i m = Some v \<Longrightarrow> has_ty v t"
  by (auto simp: load_def split: if_splits option.splits)

section \<open>Results\<close>

text \<open>A computation is undefined, ends the program, or has a result.\<close>

type_synonym 'a run = "(mem + 'a \<times> mem) option"

definition ret :: "'a \<Rightarrow> mem \<Rightarrow> 'a run" where
  "ret x m = Some (Inr (x, m))"

definition seq :: "'a run \<Rightarrow> ('a \<Rightarrow> mem \<Rightarrow> 'b run) \<Rightarrow> 'b run" where
  "seq r k = (case r of None \<Rightarrow> None | Some (Inl m) \<Rightarrow> Some (Inl m) | Some (Inr (x, m)) \<Rightarrow> k x m)"

definition partial :: "'a option \<Rightarrow> ('a \<Rightarrow> 'b run) \<Rightarrow> 'b run" where
  "partial x k = (case x of None \<Rightarrow> None | Some y \<Rightarrow> k y)"

lemma ret_eq [simp]: "ret x m = Some r \<longleftrightarrow> r = Inr (x, m)"
  by (auto simp: ret_def)

lemma seq_simps [simp]: "seq None k = None" "seq (Some (Inl m)) k = Some (Inl m)" "seq (Some (Inr (x, m))) k = k x m"
  "seq (ret x m) k = k x m"
  by (simp_all add: seq_def ret_def)

lemma partial_simps [simp]: "partial None k = None" "partial (Some x) k = k x"
  by (simp_all add: partial_def)

lemma partial_Some: "partial x k = Some r \<longleftrightarrow> (\<exists>y. x = Some y \<and> k y = Some r)"
  by (cases x) auto

text \<open>The elimination for a sequence that is defined.\<close>

lemma seqE:
  assumes "seq r k = Some q"
  obtains m where "r = Some (Inl m)" "q = Inl m" | x m where "r = Some (Inr (x, m))" "k x m = Some q"
  using assms by (auto simp: seq_def split: option.splits sum.splits)

lemma seq_cong [fundef_cong]:
  "r = r' \<Longrightarrow> (\<And>x m. r' = Some (Inr (x, m)) \<Longrightarrow> k x m = k' x m) \<Longrightarrow> seq r k = seq r' k'"
  by (auto simp: seq_def split: option.splits sum.splits)

lemma partial_cong [fundef_cong]:
  "x = x' \<Longrightarrow> (\<And>y. x' = Some y \<Longrightarrow> k y = k' y) \<Longrightarrow> partial x k = partial x' k'"
  by (cases x') auto

section \<open>The runtime library\<close>

text \<open>\<open>input\<close> on an exhausted stream returns an uninitialised variable.\<close>

definition lib_call :: "string \<Rightarrow> rv list \<Rightarrow> mem \<Rightarrow> rv run" where
  "lib_call n vs m =
     (if n = ''input'' \<and> vs = [] then
        (case stdin m of [] \<Rightarrow> None | i # is \<Rightarrow> ret (IntV i) (m\<lparr>stdin := is\<rparr>))
      else if n = ''output'' then
        (case vs of [IntV i] \<Rightarrow> ret VoidV (m\<lparr>stdout := stdout m @ [PrintInt i]\<rparr>) | _ \<Rightarrow> None)
      else if n = ''outputFloat'' then
        (case vs of [FloatV f] \<Rightarrow> ret VoidV (m\<lparr>stdout := stdout m @ [PrintFloat f]\<rparr>) | _ \<Rightarrow> None)
      else if n = ''neg_idx_except'' \<and> vs = [] then Some (Inl (m\<lparr>stdout := stdout m @ [PrintNegIndex]\<rparr>))
      else None)"

text \<open>What a value of a number type is at the start of a global variable or at the end of a function.\<close>

fun zero_value :: "ty \<Rightarrow> rv" where
  "zero_value FloatTy = FloatV 0"
| "zero_value (ArrTy t n) = zero_value t"
| "zero_value VoidTy = VoidV"
| "zero_value t = IntV 0"

end
