(* ===== verification/IR_Semantics.thy ===== *)
theory IR_Semantics
  imports Runtime
begin

text \<open>
  The meaning of a module: the execution of the instructions the code generator emits, as the IR's
  documentation and LLVM define them. A configuration of a function is a block, the position in
  it, the values of the registers and the memory. Calls nest: \<open>calls\<close> relates a call to its result.
\<close>

section \<open>Instructions\<close>

fun int_instr :: "opid \<Rightarrow> 32 word \<Rightarrow> 32 word \<Rightarrow> 32 word option" where
  "int_instr Add a b = Some (a + b)"
| "int_instr Sub a b = Some (a - b)"
| "int_instr Mul a b = Some (a * b)"
| "int_instr Sdiv a b = div_int a b"
| "int_instr opc a b = None"

fun float_instr :: "opid \<Rightarrow> float32 \<Rightarrow> float32 \<Rightarrow> float32 option" where
  "float_instr Fadd a b = Some (ieee_add a b)"
| "float_instr Fsub a b = Some (ieee_sub a b)"
| "float_instr Fmul a b = Some (ieee_mul a b)"
| "float_instr Fdiv a b = Some (ieee_div a b)"
| "float_instr opc a b = None"

definition binary_instr :: "opid \<Rightarrow> rv \<Rightarrow> rv \<Rightarrow> rv option" where
  "binary_instr opc x y = (case (x, y) of
     (IntV a, IntV b) \<Rightarrow> map_option IntV (int_instr opc a b)
   | (FloatV a, FloatV b) \<Rightarrow> map_option FloatV (float_instr opc a b)
   | _ \<Rightarrow> None)"

fun icmp_instr :: "cmpop \<Rightarrow> 32 word \<Rightarrow> 32 word \<Rightarrow> bool" where
  "icmp_instr EQ a b = (a = b)"
| "icmp_instr NE a b = (a \<noteq> b)"
| "icmp_instr GT a b = word_sless b a"
| "icmp_instr GE a b = word_sle b a"
| "icmp_instr LT a b = word_sless a b"
| "icmp_instr LE a b = word_sle a b"

text \<open>The printer gives \<open>fcmp\<close> the unordered predicates.\<close>

fun fcmp_instr :: "cmpop \<Rightarrow> float32 \<Rightarrow> float32 \<Rightarrow> bool" where
  "fcmp_instr EQ a b = (is_nan a \<or> is_nan b \<or> float_eq a b)"
| "fcmp_instr NE a b = (\<not> float_eq a b)"
| "fcmp_instr GT a b = (is_nan a \<or> is_nan b \<or> float_lt b a)"
| "fcmp_instr GE a b = (is_nan a \<or> is_nan b \<or> float_le b a)"
| "fcmp_instr LT a b = (is_nan a \<or> is_nan b \<or> float_lt a b)"
| "fcmp_instr LE a b = (is_nan a \<or> is_nan b \<or> float_le a b)"

text \<open>The cells of an object are elements, so an index counts cells.\<close>

definition gep_instr :: "rv list \<Rightarrow> rv option" where
  "gep_instr vs = (case vs of
     [PtrV ob i, IntV j] \<Rightarrow> Some (PtrV ob (i + sint j))
   | [PtrV ob i, IntV k, IntV j] \<Rightarrow> if k = 0 then Some (PtrV ob (i + sint j)) else None
   | _ \<Rightarrow> None)"

definition cmp_data :: "idata \<Rightarrow> cmpop option" where
  "cmp_data d = (case d of CmpData c \<Rightarrow> Some c | _ \<Rightarrow> None)"

text \<open>An instruction other than calls, branches and returns, on the values of its operands.\<close>

definition exec_instr :: "opid \<Rightarrow> idata \<Rightarrow> ty \<Rightarrow> rv list \<Rightarrow> mem \<Rightarrow> (rv \<times> mem) option" where
  "exec_instr opc d t vs m = (case opc of
     Alloca \<Rightarrow> (case d of AllocaData u \<Rightarrow> let (ob, m) = alloc u None m in Some (PtrV ob 0, m) | _ \<Rightarrow> None)
   | Load \<Rightarrow> (case vs of [PtrV ob i] \<Rightarrow> map_option (\<lambda>v. (v, m)) (load t ob i m) | _ \<Rightarrow> None)
   | Store \<Rightarrow> (case vs of [v, PtrV ob i] \<Rightarrow> map_option (\<lambda>m. (VoidV, m)) (store ob i v m) | _ \<Rightarrow> None)
   | Cmp \<Rightarrow> (case (cmp_data d, vs) of (Some c, [IntV a, IntV b]) \<Rightarrow> Some (BoolV (icmp_instr c a b), m) | _ \<Rightarrow> None)
   | Fcmp \<Rightarrow> (case (cmp_data d, vs) of (Some c, [FloatV a, FloatV b]) \<Rightarrow> Some (BoolV (fcmp_instr c a b), m) | _ \<Rightarrow> None)
   | Zext \<Rightarrow> (case vs of [BoolV b] \<Rightarrow> Some (IntV (of_bool b), m) | _ \<Rightarrow> None)
   | Sitofp \<Rightarrow> (case vs of [IntV i] \<Rightarrow> Some (FloatV (float_of_int i), m) | _ \<Rightarrow> None)
   | Fptosi \<Rightarrow> (case vs of [FloatV f] \<Rightarrow> map_option (\<lambda>i. (IntV i, m)) (float_to_int f) | _ \<Rightarrow> None)
   | Getelementptr \<Rightarrow> map_option (\<lambda>p. (p, m)) (gep_instr vs)
   | _ \<Rightarrow> (case vs of [x, y] \<Rightarrow> map_option (\<lambda>v. (v, m)) (binary_instr opc x y) | _ \<Rightarrow> None))"

section \<open>Configurations\<close>

type_synonym regs = "val \<Rightarrow> rv option"

fun value_of :: "regs \<Rightarrow> val \<Rightarrow> rv option" where
  "value_of \<rho> (VConst c) = (case c of
     CInt i \<Rightarrow> Some (IntV i) | CBool b \<Rightarrow> Some (BoolV b) | CFP f n \<Rightarrow> Some (FloatV f) | CZero t \<Rightarrow> None)"
| "value_of \<rho> v = \<rho> v"

text \<open>The values of a list of operands, all of them defined.\<close>

fun values_of :: "regs \<Rightarrow> val list \<Rightarrow> rv list option" where
  "values_of \<rho> [] = Some []"
| "values_of \<rho> (v # vs) = (case (value_of \<rho> v, values_of \<rho> vs) of
     (Some x, Some xs) \<Rightarrow> Some (x # xs) | _ \<Rightarrow> None)"

datatype conf = At nat nat regs mem | Exited mem

text \<open>The instruction at a position.\<close>

definition instr_at :: "'z ir_scheme \<Rightarrow> nat \<Rightarrow> nat \<Rightarrow> (nat \<times> instr) option" where
  "instr_at F b i = (if i < length (ilist F b)
     then map_option (\<lambda>ins. (ilist F b ! i, ins)) (instrs F (ilist F b ! i)) else None)"

text \<open>One step inside a function.\<close>

definition branch :: "val list \<Rightarrow> regs \<Rightarrow> nat option" where
  "branch ops \<rho> = (case ops of
     [VBB t] \<Rightarrow> Some t
   | [c, VBB t, VBB f] \<Rightarrow> (case value_of \<rho> c of Some (BoolV b) \<Rightarrow> Some (if b then t else f) | _ \<Rightarrow> None)
   | _ \<Rightarrow> None)"

definition local_step :: "'z ir_scheme \<Rightarrow> nat \<Rightarrow> nat \<Rightarrow> regs \<Rightarrow> mem \<Rightarrow> conf option" where
  "local_step F b i \<rho> m = (case instr_at F b i of
     None \<Rightarrow> None
   | Some (p, ins) \<Rightarrow>
       if i_op ins = Br then map_option (\<lambda>t. At t 0 \<rho> m) (branch (operands F (VInstr p)) \<rho>)
       else if i_op ins = Ret \<or> i_op ins = Call then None
       else (case values_of \<rho> (operands F (VInstr p)) of
               None \<Rightarrow> None
             | Some vs \<Rightarrow> map_option (\<lambda>(v, m). At b (Suc i) (\<rho>(VInstr p \<mapsto> v)) m)
                 (exec_instr (i_op ins) (i_data ins) (i_type ins) vs m)))"

text \<open>The value a function returns at a position.\<close>

definition returned :: "'z ir_scheme \<Rightarrow> nat \<Rightarrow> nat \<Rightarrow> regs \<Rightarrow> rv option" where
  "returned F b i \<rho> = (case instr_at F b i of
     Some (p, ins) \<Rightarrow>
       if i_op ins = Ret then (case operands F (VInstr p) of [] \<Rightarrow> Some VoidV | [v] \<Rightarrow> value_of \<rho> v | _ \<Rightarrow> None) else None
   | None \<Rightarrow> None)"

text \<open>A call at a position: the function and the arguments.\<close>

definition call_at :: "'z ir_scheme \<Rightarrow> nat \<Rightarrow> nat \<Rightarrow> regs \<Rightarrow> (nat \<times> nat \<times> rv list) option" where
  "call_at F b i \<rho> = (case instr_at F b i of
     Some (p, ins) \<Rightarrow>
       if i_op ins = Call then (case operands F (VInstr p) of
           VFun f # vs \<Rightarrow> map_option (\<lambda>xs. (p, f, xs)) (values_of \<rho> vs) | _ \<Rightarrow> None) else None
   | None \<Rightarrow> None)"

section \<open>Functions\<close>

text \<open>The global variables are the first objects of the memory, in the order of the module.\<close>

fun position :: "'a \<Rightarrow> 'a list \<Rightarrow> nat" where
  "position x [] = 0"
| "position x (y # ys) = (if x = y then 0 else Suc (position x ys))"

definition start_regs :: "'z ir_scheme \<Rightarrow> nat \<Rightarrow> rv list \<Rightarrow> regs" where
  "start_regs F f vs = (\<lambda>v. case v of
     VGlobal g \<Rightarrow> if g \<in> set (global_list F) then Some (PtrV (position g (global_list F)) 0) else None
   | VArg f' i \<Rightarrow> if f' = f \<and> i < length vs then Some (vs ! i) else None
   | _ \<Rightarrow> None)"

text \<open>\<open>calls F f vs m r\<close>: function \<open>f\<close> called with \<open>vs\<close> ends the program or returns; a function without a
  body is in the runtime library. \<open>reach F c c'\<close>: the execution of a function gets from \<open>c\<close> to \<open>c'\<close>.\<close>

inductive calls :: "'z ir_scheme \<Rightarrow> nat \<Rightarrow> rv list \<Rightarrow> mem \<Rightarrow> mem + rv \<times> mem \<Rightarrow> bool" and
  reach :: "'z ir_scheme \<Rightarrow> conf \<Rightarrow> conf \<Rightarrow> bool" for F where
  library: "funs F f = Some fn \<Longrightarrow> basic_blocks fn = [] \<Longrightarrow> lib_call (f_name fn) vs m = Some r \<Longrightarrow> calls F f vs m r"
| body: "funs F f = Some fn \<Longrightarrow> basic_blocks fn = b # bs \<Longrightarrow> reach F (At b 0 (start_regs F f vs) m) (At c i \<rho> m') \<Longrightarrow>
    returned F c i \<rho> = Some v \<Longrightarrow> calls F f vs m (Inr (v, m'))"
| body_exit: "funs F f = Some fn \<Longrightarrow> basic_blocks fn = b # bs \<Longrightarrow> reach F (At b 0 (start_regs F f vs) m) (Exited m') \<Longrightarrow>
    calls F f vs m (Inl m')"
| refl: "reach F c c"
| step: "local_step F b i \<rho> m = Some c \<Longrightarrow> reach F c c' \<Longrightarrow> reach F (At b i \<rho> m) c'"
| call: "call_at F b i \<rho> = Some (p, f, vs) \<Longrightarrow> calls F f vs m (Inr (v, m')) \<Longrightarrow>
    reach F (At b (Suc i) (\<rho>(VInstr p \<mapsto> v)) m') c' \<Longrightarrow> reach F (At b i \<rho> m) c'"
| call_exit: "call_at F b i \<rho> = Some (p, f, vs) \<Longrightarrow> calls F f vs m (Inl m') \<Longrightarrow> reach F (At b i \<rho> m) (Exited m')"

inductive_cases reach_ExitedE: "reach F (Exited m) c"

lemma reach_trans: "reach F c c1 \<Longrightarrow> reach F c1 c2 \<Longrightarrow> reach F c c2"
  by (induction rule: calls_reach.inducts(2) [where ?P1.0 = "\<lambda>_ _ _ _. True"])
    (auto intro: calls_reach.step calls_reach.call calls_reach.call_exit elim: reach_ExitedE)

section \<open>Modules\<close>

text \<open>The memory before the program starts, and a run of the program from its function \<open>main\<close>.\<close>

fun global_objects :: "'z ir_scheme \<Rightarrow> nat list \<Rightarrow> mem \<Rightarrow> mem" where
  "global_objects F [] m = m"
| "global_objects F (g # gs) m = global_objects F gs (case gvars F g of
     None \<Rightarrow> m
   | Some x \<Rightarrow> (case g_type x of PtrTy t \<Rightarrow> snd (alloc t (Some (zero_value t)) m) | _ \<Rightarrow> m))"

definition empty_mem :: "32 word list \<Rightarrow> mem" where
  "empty_mem is = \<lparr>objects = (\<lambda>_. []), next_object = 0, stdin = is, stdout = []\<rparr>"

definition module_runs :: "'z ir_scheme \<Rightarrow> 32 word list \<Rightarrow> event list \<Rightarrow> rv option \<Rightarrow> bool" where
  "module_runs F is out v \<longleftrightarrow> (\<exists>f fn. f \<in> set (function_list F) \<and> funs F f = Some fn \<and> f_name fn = ''main'' \<and>
     (\<exists>r. calls F f [] (global_objects F (global_list F) (empty_mem is)) r \<and>
        (case r of Inl m \<Rightarrow> stdout m = out \<and> v = None | Inr (x, m) \<Rightarrow> stdout m = out \<and> v = Some x)))"

section \<open>One result\<close>

text \<open>A configuration where the execution of a function ends.\<close>

fun final :: "'z ir_scheme \<Rightarrow> conf \<Rightarrow> bool" where
  "final F (At b i \<rho> m) = (returned F b i \<rho> \<noteq> None)"
| "final F (Exited m) = True"

lemma returned_stops: "returned F b i \<rho> = Some v \<Longrightarrow> local_step F b i \<rho> m = None \<and> call_at F b i \<rho> = None"
  by (auto simp: returned_def local_step_def call_at_def split: option.splits if_splits)

lemma step_no_call: "local_step F b i \<rho> m = Some c \<Longrightarrow> call_at F b i \<rho> = None"
  by (auto simp: local_step_def call_at_def split: option.splits if_splits)

lemma reach_final:
  assumes "reach F c c'" and "final F c"
  shows "c' = c"
  using assms(1)
proof cases
  case (step b i \<rho> m c1)
  then show ?thesis using assms(2) returned_stops by fastforce
next
  case (call b i \<rho> p f vs m v m')
  then show ?thesis using assms(2) returned_stops by fastforce
next
  case (call_exit b i \<rho> p f vs m m')
  then show ?thesis using assms(2) returned_stops by fastforce
qed simp

lemma reach_step:
  assumes "local_step F b i \<rho> m = Some c" and "reach F (At b i \<rho> m) c2" and "final F c2"
  shows "reach F c c2"
  using assms(2)
proof cases
  case refl
  then show ?thesis using assms(1,3) returned_stops by fastforce
next
  case (step c1)
  then show ?thesis using assms(1) by simp
qed (use assms(1) step_no_call in fastforce)+

lemma reach_call:
  assumes "call_at F b i \<rho> = Some (p, f, vs)" and "reach F (At b i \<rho> m) c2" and "final F c2"
  obtains v m' where "calls F f vs m (Inr (v, m'))" "reach F (At b (Suc i) (\<rho>(VInstr p \<mapsto> v)) m') c2"
  | m' where "calls F f vs m (Inl m')" "c2 = Exited m'"
  using assms(2)
proof cases
  case refl
  then show thesis using assms(1,3) returned_stops by fastforce
next
  case (step c1)
  then show thesis using assms(1) step_no_call by fastforce
qed (use assms(1) that in auto)

lemma call_body:
  assumes "calls F f vs m r" and "funs F f = Some fn" and "basic_blocks fn = b # bs"
  obtains c where "reach F (At b 0 (start_regs F f vs) m) c" "final F c"
    "case c of At b i \<rho> m \<Rightarrow> \<exists>v. returned F b i \<rho> = Some v \<and> r = Inr (v, m) | Exited m \<Rightarrow> r = Inl m"
  using assms(1)
proof cases
  case (library fn)
  then show thesis using assms(2,3) by simp
next
  case (body fn b bs c i \<rho> m' v)
  then show thesis using assms(2,3) that [of "At c i \<rho> m'"] by simp
next
  case (body_exit fn b bs m')
  then show thesis using assms(2,3) that [of "Exited m'"] by simp
qed

text \<open>The code is deterministic: a call has at most one result.\<close>

lemma calls_reach_deterministic:
  "calls F f vs m r \<Longrightarrow> (\<forall>r'. calls F f vs m r' \<longrightarrow> r' = r)"
  "reach F c c' \<Longrightarrow> (\<forall>c2. reach F c c2 \<longrightarrow> final F c2 \<longrightarrow> reach F c' c2)"
proof (induction rule: calls_reach.inducts)
  case (library f fn vs m r)
  then show ?case by (auto elim: calls.cases)
next
  case (body f fn b bs vs m c i \<rho> m' v)
  then have fn: "funs F f = Some fn" "basic_blocks fn = b # bs" and v: "returned F c i \<rho> = Some v" by blast+
  show ?case
  proof (intro allI impI)
    fix r' assume "calls F f vs m r'"
    then obtain c2 where c2: "reach F (At b 0 (start_regs F f vs) m) c2" "final F c2"
      "case c2 of At b i \<rho> m \<Rightarrow> \<exists>v. returned F b i \<rho> = Some v \<and> r' = Inr (v, m) | Exited m \<Rightarrow> r' = Inl m"
      using call_body [OF _ fn] by blast
    then have "reach F (At c i \<rho> m') c2" using body.IH by blast
    then have "c2 = At c i \<rho> m'" using reach_final v by fastforce
    then show "r' = Inr (v, m')" using c2(3) v by simp
  qed
next
  case (body_exit f fn b bs vs m m')
  then have fn: "funs F f = Some fn" "basic_blocks fn = b # bs" by blast+
  show ?case
  proof (intro allI impI)
    fix r' assume "calls F f vs m r'"
    then obtain c2 where c2: "reach F (At b 0 (start_regs F f vs) m) c2" "final F c2"
      "case c2 of At b i \<rho> m \<Rightarrow> \<exists>v. returned F b i \<rho> = Some v \<and> r' = Inr (v, m) | Exited m \<Rightarrow> r' = Inl m"
      using call_body [OF _ fn] by blast
    then have "reach F (Exited m') c2" using body_exit.IH by blast
    then have "c2 = Exited m'" by (auto elim: reach_ExitedE)
    then show "r' = Inl m'" using c2(3) by simp
  qed
next
  case (refl c)
  then show ?case by simp
next
  case (step b i \<rho> m c c')
  then show ?case using reach_step by blast
next
  case (call b i \<rho> p f vs m v m' c')
  then have at: "call_at F b i \<rho> = Some (p, f, vs)" by blast
  show ?case
  proof (intro allI impI)
    fix c2 assume c2: "reach F (At b i \<rho> m) c2" "final F c2"
    from at c2 show "reach F c' c2"
      by (rule reach_call) (use call.IH c2(2) in auto)
  qed
next
  case (call_exit b i \<rho> p f vs m m')
  then have at: "call_at F b i \<rho> = Some (p, f, vs)" by blast
  show ?case
  proof (intro allI impI)
    fix c2 assume c2: "reach F (At b i \<rho> m) c2" "final F c2"
    from at c2 show "reach F (Exited m') c2"
      by (rule reach_call) (use call_exit.IH in \<open>auto intro: calls_reach.refl\<close>)
  qed
qed

lemma calls_deterministic: "calls F f vs m r \<Longrightarrow> calls F f vs m r' \<Longrightarrow> r' = r"
  using calls_reach_deterministic(1) by blast

end
