(* ===== verification/Cminus_Semantics.thy ===== *)
theory Cminus_Semantics
  imports Runtime Cminus_Types
begin

text \<open>
  The dynamic semantics of Cminus-f as an interpreter of the abstract syntax, the specification that
  the generated code is compared with. What the language leaves undefined has no result: reading a
  variable that was never assigned, an index past the end, a division by zero, a number that does
  not fit the type it is converted to. The order of a float that is not a number has no result
  either, though C has one: the generated code compares the other way then.

  The language document evaluates the place of an assignment, with its index, before the right side;
  the code generator does it the other way round. The interpreter knows both orders.
\<close>

datatype assign_order = PlaceFirst | ValueFirst

section \<open>Environments\<close>

text \<open>A variable is an object, a function a place in the table of functions.\<close>

datatype den = Slot ty nat | Code nat ty

type_synonym denv = "(string \<rightharpoonup> den) list"

fun find_den :: "denv \<Rightarrow> string \<Rightarrow> den option" where
  "find_den [] n = None"
| "find_den (m # D) n = (case m n of Some d \<Rightarrow> Some d | None \<Rightarrow> find_den D n)"

fun bind_den :: "string \<Rightarrow> den \<Rightarrow> denv \<Rightarrow> denv" where
  "bind_den n d [] = []"
| "bind_den n d (m # D) = (if n \<in> dom m then m else m(n \<mapsto> d)) # D"

section \<open>Operators\<close>

definition num_op :: "(32 word \<Rightarrow> 32 word \<Rightarrow> 32 word option) \<Rightarrow> (float32 \<Rightarrow> float32 \<Rightarrow> float32) \<Rightarrow> rv \<Rightarrow> rv \<Rightarrow> rv option" where
  "num_op f g x y = (case (x, y) of
     (IntV a, IntV b) \<Rightarrow> map_option IntV (f a b)
   | (IntV a, FloatV b) \<Rightarrow> Some (FloatV (g (float_of_int a) b))
   | (FloatV a, IntV b) \<Rightarrow> Some (FloatV (g a (float_of_int b)))
   | (FloatV a, FloatV b) \<Rightarrow> Some (FloatV (g a b))
   | _ \<Rightarrow> None)"

fun add_values :: "add_op \<Rightarrow> rv \<Rightarrow> rv \<Rightarrow> rv option" where
  "add_values OP_PLUS x y = num_op (\<lambda>a b. Some (a + b)) ieee_add x y"
| "add_values OP_MINUS x y = num_op (\<lambda>a b. Some (a - b)) ieee_sub x y"

fun mul_values :: "mul_op \<Rightarrow> rv \<Rightarrow> rv \<Rightarrow> rv option" where
  "mul_values OP_MUL x y = num_op (\<lambda>a b. Some (a * b)) ieee_mul x y"
| "mul_values OP_DIV x y = num_op div_int ieee_div x y"

fun int_rel :: "rel_op \<Rightarrow> int \<Rightarrow> int \<Rightarrow> bool" where
  "int_rel OP_LE a b = (a \<le> b)"
| "int_rel OP_LT a b = (a < b)"
| "int_rel OP_GT a b = (a > b)"
| "int_rel OP_GE a b = (a \<ge> b)"
| "int_rel OP_EQ a b = (a = b)"
| "int_rel OP_NEQ a b = (a \<noteq> b)"

definition float_rel :: "rel_op \<Rightarrow> float32 \<Rightarrow> float32 \<Rightarrow> bool option" where
  "float_rel op a b =
     (if is_nan a \<or> is_nan b then if op = OP_NEQ then Some True else None
      else Some (int_rel op (f_rank a) (f_rank b)))"

definition rel_values :: "rel_op \<Rightarrow> rv \<Rightarrow> rv \<Rightarrow> rv option" where
  "rel_values op x y = map_option (\<lambda>b. IntV (of_bool b)) (case (x, y) of
     (IntV a, IntV b) \<Rightarrow> Some (int_rel op (sint a) (sint b))
   | (IntV a, FloatV b) \<Rightarrow> float_rel op (float_of_int a) b
   | (FloatV a, IntV b) \<Rightarrow> float_rel op a (float_of_int b)
   | (FloatV a, FloatV b) \<Rightarrow> float_rel op a b
   | _ \<Rightarrow> None)"

text \<open>A condition holds unless it is zero.\<close>

fun truth :: "rv \<Rightarrow> bool option" where
  "truth (IntV i) = Some (i \<noteq> 0)"
| "truth (FloatV f) = Some (\<not> float_eq f 0)"
| "truth v = None"

section \<open>Expressions\<close>

text \<open>The functions that can be called are a parameter: place in the table, arguments, memory.\<close>

type_synonym code = "nat \<Rightarrow> rv list \<Rightarrow> mem \<Rightarrow> rv run"

text \<open>A negative index calls the handler, which ends the program.\<close>

definition index_value :: "code \<Rightarrow> denv \<Rightarrow> rv \<Rightarrow> mem \<Rightarrow> int run" where
  "index_value cf D x m = partial (convert INT32_T x) (\<lambda>y. case y of
     IntV i \<Rightarrow>
       if sint i < 0
       then (case find_den D ''neg_idx_except'' of
               Some (Code k t) \<Rightarrow> (case cf k [] m of Some (Inl m) \<Rightarrow> Some (Inl m) | _ \<Rightarrow> None)
             | _ \<Rightarrow> None)
       else ret (sint i) m
   | _ \<Rightarrow> None)"

text \<open>The element of variable \<open>ob\<close>, which holds a \<open>t\<close>, at an index: its type and address.\<close>

definition element :: "ty \<Rightarrow> nat \<Rightarrow> int \<Rightarrow> mem \<Rightarrow> (ty \<times> nat \<times> int) option" where
  "element t ob i m = (case t of
     PtrTy u \<Rightarrow> (case load t ob 0 m of Some (PtrV ob' j) \<Rightarrow> Some (u, ob', j + i) | _ \<Rightarrow> None)
   | ArrTy u n \<Rightarrow> Some (u, ob, i)
   | _ \<Rightarrow> Some (t, ob, i))"

definition variable :: "denv \<Rightarrow> string \<Rightarrow> (ty \<times> nat) option" where
  "variable D n = (case find_den D n of Some (Slot t ob) \<Rightarrow> Some (t, ob) | _ \<Rightarrow> None)"

definition callee :: "denv \<Rightarrow> string \<Rightarrow> (nat \<times> ty \<times> ty list) option" where
  "callee D n = (case find_den D n of Some (Code k (FunTy r ps)) \<Rightarrow> Some (k, r, ps) | _ \<Rightarrow> None)"

text \<open>The value of a variable: an array is the address of its first element.\<close>

definition fetch :: "ty \<Rightarrow> nat \<Rightarrow> mem \<Rightarrow> rv option" where
  "fetch t ob m = (case t of ArrTy u n \<Rightarrow> Some (PtrV ob 0) | _ \<Rightarrow> load t ob 0 m)"

function (sequential)
  eval_expression :: "assign_order \<Rightarrow> code \<Rightarrow> denv \<Rightarrow> expression \<Rightarrow> mem \<Rightarrow> rv run" and
  eval_place :: "assign_order \<Rightarrow> code \<Rightarrow> denv \<Rightarrow> avar \<Rightarrow> mem \<Rightarrow> (ty \<times> nat \<times> int) run" and
  eval_additive :: "assign_order \<Rightarrow> code \<Rightarrow> denv \<Rightarrow> additive \<Rightarrow> mem \<Rightarrow> rv run" and
  eval_term :: "assign_order \<Rightarrow> code \<Rightarrow> denv \<Rightarrow> aterm \<Rightarrow> mem \<Rightarrow> rv run" and
  eval_factor :: "assign_order \<Rightarrow> code \<Rightarrow> denv \<Rightarrow> factor \<Rightarrow> mem \<Rightarrow> rv run" and
  eval_args :: "assign_order \<Rightarrow> code \<Rightarrow> denv \<Rightarrow> expression list \<Rightarrow> ty list \<Rightarrow> mem \<Rightarrow> rv list run"
where
  "eval_expression PlaceFirst cf D (AssignE v e) m =
     seq (eval_place PlaceFirst cf D v m) (\<lambda>(t, ob, i) m.
     seq (eval_expression PlaceFirst cf D e m) (\<lambda>x m.
     partial (convert t x) (\<lambda>y. partial (store ob i y m) (\<lambda>m. ret y m))))"
| "eval_expression ValueFirst cf D (AssignE v e) m =
     seq (eval_expression ValueFirst cf D e m) (\<lambda>x m.
     seq (eval_place ValueFirst cf D v m) (\<lambda>(t, ob, i) m.
     partial (convert t x) (\<lambda>y. partial (store ob i y m) (\<lambda>m. ret y m))))"
| "eval_expression ao cf D (SimpleE a) m = eval_additive ao cf D a m"
| "eval_expression ao cf D (RelE l op r) m =
     seq (eval_additive ao cf D l m) (\<lambda>x m.
     seq (eval_additive ao cf D r m) (\<lambda>y m.
     partial (rel_values op x y) (\<lambda>z. ret z m)))"
| "eval_place ao cf D (Var n) m = partial (variable D n) (\<lambda>(t, ob). ret (t, ob, 0) m)"
| "eval_place ao cf D (VarIndex n e) m =
     partial (variable D n) (\<lambda>(t, ob).
     seq (eval_expression ao cf D e m) (\<lambda>x m.
     seq (index_value cf D x m) (\<lambda>i m.
     partial (element t ob i m) (\<lambda>p. ret p m))))"
| "eval_additive ao cf D (AddTerm t) m = eval_term ao cf D t m"
| "eval_additive ao cf D (AddBin a op t) m =
     seq (eval_additive ao cf D a m) (\<lambda>x m.
     seq (eval_term ao cf D t m) (\<lambda>y m.
     partial (add_values op x y) (\<lambda>z. ret z m)))"
| "eval_term ao cf D (TermFactor f) m = eval_factor ao cf D f m"
| "eval_term ao cf D (TermBin t op f) m =
     seq (eval_term ao cf D t m) (\<lambda>x m.
     seq (eval_factor ao cf D f m) (\<lambda>y m.
     partial (mul_values op x y) (\<lambda>z. ret z m)))"
| "eval_factor ao cf D (FExpr e) m = eval_expression ao cf D e m"
| "eval_factor ao cf D (FVar (Var n)) m = partial (variable D n) (\<lambda>(t, ob). partial (fetch t ob m) (\<lambda>v. ret v m))"
| "eval_factor ao cf D (FVar (VarIndex n e)) m =
     seq (eval_place ao cf D (VarIndex n e) m) (\<lambda>(t, ob, i) m. partial (load t ob i m) (\<lambda>v. ret v m))"
| "eval_factor ao cf D (FCall n es) m =
     partial (callee D n) (\<lambda>(k, r, ps).
     seq (eval_args ao cf D es ps m) (\<lambda>xs m. cf k xs m))"
| "eval_factor ao cf D (FNum n) m = (case n of NumInt i \<Rightarrow> ret (IntV i) m | NumFloat f \<Rightarrow> ret (FloatV f) m)"
| "eval_args ao cf D [] ps m = ret [] m"
| "eval_args ao cf D (e # es) [] m = None"
| "eval_args ao cf D (e # es) (p # ps) m =
     seq (eval_expression ao cf D e m) (\<lambda>x m.
     partial (convert p x) (\<lambda>y.
     seq (eval_args ao cf D es ps m) (\<lambda>ys m. ret (y # ys) m)))"
  by pat_completeness auto
termination
  by (relation "measure (\<lambda>x. case x of
        Inl (Inl (ao, cf, D, e, m)) \<Rightarrow> size e
      | Inl (Inr (Inl (ao, cf, D, v, m))) \<Rightarrow> size v
      | Inl (Inr (Inr (ao, cf, D, a, m))) \<Rightarrow> size a
      | Inr (Inl (ao, cf, D, t, m)) \<Rightarrow> size t
      | Inr (Inr (Inl (ao, cf, D, f, m))) \<Rightarrow> size f
      | Inr (Inr (Inr (ao, cf, D, es, ps, m))) \<Rightarrow> size_list size es)") auto

section \<open>Statements\<close>

datatype flow = Normal | Returned rv

text \<open>The variables of a block get new objects in its scope.\<close>

definition alloc_var :: "var_decl \<Rightarrow> denv \<times> mem \<Rightarrow> denv \<times> mem" where
  "alloc_var d = (\<lambda>(D, m). let (ob, m) = alloc (decl_ty d) None m in (bind_den (vd_id d) (Slot (decl_ty d) ob) D, m))"

fun alloc_vars :: "var_decl list \<Rightarrow> denv \<times> mem \<Rightarrow> denv \<times> mem" where
  "alloc_vars [] Dm = Dm"
| "alloc_vars (d # ds) Dm = alloc_vars ds (alloc_var d Dm)"

fun loop :: "nat \<Rightarrow> (mem \<Rightarrow> rv run) \<Rightarrow> (mem \<Rightarrow> flow run) \<Rightarrow> mem \<Rightarrow> flow run" where
  "loop 0 c b m = None"
| "loop (Suc n) c b m =
     seq (c m) (\<lambda>x m. partial (truth x) (\<lambda>t.
       if t then seq (b m) (\<lambda>fl m. case fl of Normal \<Rightarrow> loop n c b m | Returned v \<Rightarrow> ret (Returned v) m)
       else ret Normal m))"

text \<open>\<open>exec ao cf n r D st m\<close>: in a function whose result is \<open>r\<close>; \<open>n\<close> bounds the rounds of each loop.\<close>

fun exec :: "assign_order \<Rightarrow> code \<Rightarrow> nat \<Rightarrow> ty \<Rightarrow> denv \<Rightarrow> statement \<Rightarrow> mem \<Rightarrow> flow run" and
  exec_all :: "assign_order \<Rightarrow> code \<Rightarrow> nat \<Rightarrow> ty \<Rightarrow> denv \<Rightarrow> statement list \<Rightarrow> mem \<Rightarrow> flow run"
where
  "exec ao cf n r D (Compound ds ss) m = (let (D', m) = alloc_vars ds (Map.empty # D, m) in exec_all ao cf n r D' ss m)"
| "exec ao cf n r D (ExprStmt None) m = ret Normal m"
| "exec ao cf n r D (ExprStmt (Some e)) m = seq (eval_expression ao cf D e m) (\<lambda>x m. ret Normal m)"
| "exec ao cf n r D (Selection e st None) m =
     seq (eval_expression ao cf D e m) (\<lambda>x m. partial (truth x) (\<lambda>t. if t then exec ao cf n r D st m else ret Normal m))"
| "exec ao cf n r D (Selection e st (Some el)) m =
     seq (eval_expression ao cf D e m) (\<lambda>x m. partial (truth x) (\<lambda>t. if t then exec ao cf n r D st m else exec ao cf n r D el m))"
| "exec ao cf n r D (Iteration e st) m = loop n (eval_expression ao cf D e) (exec ao cf n r D st) m"
| "exec ao cf n r D (Return None) m = ret (Returned VoidV) m"
| "exec ao cf n r D (Return (Some e)) m =
     seq (eval_expression ao cf D e m) (\<lambda>x m. partial (convert r x) (\<lambda>y. ret (Returned y) m))"
| "exec_all ao cf n r D [] m = ret Normal m"
| "exec_all ao cf n r D (st # ss) m =
     seq (exec ao cf n r D st m) (\<lambda>fl m. case fl of Normal \<Rightarrow> exec_all ao cf n r D ss m | Returned v \<Rightarrow> ret (Returned v) m)"

section \<open>Functions and programs\<close>

text \<open>A parameter is a variable that starts with the argument.\<close>

fun pass_args :: "param list \<Rightarrow> rv list \<Rightarrow> denv \<times> mem \<Rightarrow> (denv \<times> mem) option" where
  "pass_args [] [] Dm = Some Dm"
| "pass_args (p # ps) (x # xs) (D, m) =
     (let (ob, m) = alloc (par_ty p) None m
      in case store ob 0 x m of
           None \<Rightarrow> None
         | Some m \<Rightarrow> pass_args ps xs (bind_den (p_id p) (Slot (par_ty p) ob) D, m))"
| "pass_args ps xs Dm = None"

text \<open>The table of functions: those of the runtime library, and those of the program with the
  global environment in which they were declared. A function whose end is reached returns zero.\<close>

datatype def = Library string | Defined denv fun_decl

definition run_body :: "assign_order \<Rightarrow> code \<Rightarrow> nat \<Rightarrow> denv \<Rightarrow> fun_decl \<Rightarrow> rv list \<Rightarrow> mem \<Rightarrow> rv run" where
  "run_body ao cf n D d xs m =
     partial (pass_args (fd_params d) xs (Map.empty # D, m)) (\<lambda>Dm.
     let (D', m) = alloc_vars (fd_locals d) Dm; r = result_ty (fd_type d)
     in seq (exec_all ao cf n r D' (fd_body d) m) (\<lambda>fl m. case fl of
          Normal \<Rightarrow> ret (zero_value r) m | Returned v \<Rightarrow> ret v m))"

fun call_fun :: "assign_order \<Rightarrow> nat \<Rightarrow> def list \<Rightarrow> code" where
  "call_fun ao 0 T k xs m = None"
| "call_fun ao (Suc n) T k xs m =
     (if k < length T
      then case T ! k of Library f \<Rightarrow> lib_call f xs m | Defined D d \<Rightarrow> run_body ao (call_fun ao n T) n D d xs m
      else None)"

text \<open>The declarations of a program: the global environment, the functions, the memory.\<close>

fun elaborate :: "decl \<Rightarrow> denv \<times> def list \<times> mem \<Rightarrow> denv \<times> def list \<times> mem" where
  "elaborate (VarDecl d) (D, T, m) =
     (let (ob, m) = alloc (decl_ty d) (Some (zero_value (decl_ty d))) m in (bind_den (vd_id d) (Slot (decl_ty d) ob) D, T, m))"
| "elaborate (FunDecl d) (D, T, m) =
     (let D' = bind_den (fd_id d) (Code (length T) (fun_ty d)) D in (D', T @ [Defined D' d], m))"

fun elaborates :: "program \<Rightarrow> denv \<times> def list \<times> mem \<Rightarrow> denv \<times> def list \<times> mem" where
  "elaborates [] x = x"
| "elaborates (d # ds) x = elaborates ds (elaborate d x)"

definition library_den :: denv where
  "library_den = [[''input'' \<mapsto> Code 0 (FunTy INT32_T []), ''output'' \<mapsto> Code 1 (FunTy VoidTy [INT32_T]),
     ''outputFloat'' \<mapsto> Code 2 (FunTy VoidTy [FloatTy]), ''neg_idx_except'' \<mapsto> Code 3 (FunTy VoidTy [])]]"

definition library_defs :: "def list" where
  "library_defs = [Library ''input'', Library ''output'', Library ''outputFloat'', Library ''neg_idx_except'']"

definition start_mem :: "32 word list \<Rightarrow> mem" where
  "start_mem is = \<lparr>objects = (\<lambda>_. []), next_object = 0, stdin = is, stdout = []\<rparr>"

text \<open>\<open>run_program ao n p is\<close>: the output and the value of \<open>main\<close>, none if the program was ended; \<open>n\<close> bounds the
  depth of calls and the rounds of loops.\<close>

definition run_program :: "assign_order \<Rightarrow> nat \<Rightarrow> program \<Rightarrow> 32 word list \<Rightarrow> (event list \<times> rv option) option" where
  "run_program ao n p is =
     (let (D, T, m) = elaborates p (library_den, library_defs, start_mem is)
      in case find_den D ''main'' of
           Some (Code k t) \<Rightarrow>
             (case call_fun ao n T k [] m of
                None \<Rightarrow> None
              | Some (Inl m) \<Rightarrow> Some (stdout m, None)
              | Some (Inr (v, m)) \<Rightarrow> Some (stdout m, Some v))
         | _ \<Rightarrow> None)"

end
