(* ===== verification/Simulation.thy ===== *)
theory Simulation
  imports Code_Growth IR_Semantics Cminus_Semantics
begin

text \<open>
  The simulation of the source program by the generated code, for the single steps of the code
  generator. \<open>F\<close> is any module that the state has grown to: code emitted between \<open>s\<close> and \<open>s'\<close> takes the
  execution of \<open>F\<close> from the insertion point of \<open>s\<close> to that of \<open>s'\<close>, with the same memory as the
  source.
\<close>

section \<open>Execution between two states\<close>

definition here :: "cg \<Rightarrow> regs \<Rightarrow> mem \<Rightarrow> conf" where
  "here s \<rho> m = At (the (insert_bb s)) (length (ilist s (the (insert_bb s)))) \<rho> m"

text \<open>The registers that \<open>s\<close> knows keep their values.\<close>

definition agree :: "cg \<Rightarrow> regs \<Rightarrow> regs \<Rightarrow> bool" where
  "agree s \<rho> \<rho>' \<longleftrightarrow> (\<forall>v. (\<forall>p. v = VInstr p \<longrightarrow> p < next_id s) \<longrightarrow> \<rho>' v = \<rho> v)"

definition moves :: "cg \<Rightarrow> cg \<Rightarrow> regs \<Rightarrow> mem \<Rightarrow> cg \<Rightarrow> regs \<Rightarrow> mem \<Rightarrow> bool" where
  "moves F s \<rho> m s' \<rho>' m' \<longleftrightarrow> reach F (here s \<rho> m) (here s' \<rho>' m') \<and> agree s \<rho> \<rho>'"

text \<open>The execution follows a source computation: it exits with it, or gets to \<open>s'\<close> with its result.\<close>

definition leads :: "cg \<Rightarrow> cg \<Rightarrow> regs \<Rightarrow> mem \<Rightarrow> cg \<Rightarrow> mem + 'a \<times> mem \<Rightarrow> ('a \<Rightarrow> regs \<Rightarrow> bool) \<Rightarrow> bool" where
  "leads F s \<rho> m s' r P \<longleftrightarrow> (case r of
     Inl m' \<Rightarrow> reach F (here s \<rho> m) (Exited m')
   | Inr (x, m') \<Rightarrow> \<exists>\<rho>'. moves F s \<rho> m s' \<rho>' m' \<and> P x \<rho>')"

lemma agree_refl [simp]: "agree s \<rho> \<rho>"
  by (simp add: agree_def)

lemma agree_trans: "agree s \<rho> \<rho>1 \<Longrightarrow> agree s1 \<rho>1 \<rho>2 \<Longrightarrow> next_id s \<le> next_id s1 \<Longrightarrow> agree s \<rho> \<rho>2"
  unfolding agree_def by (metis order_less_le_trans)

lemma moves_refl [simp]: "moves F s \<rho> m s \<rho> m"
  by (simp add: moves_def calls_reach.refl)

lemma moves_trans: "moves F s \<rho> m s1 \<rho>1 m1 \<Longrightarrow> moves F s1 \<rho>1 m1 s2 \<rho>2 m2 \<Longrightarrow> next_id s \<le> next_id s1 \<Longrightarrow> moves F s \<rho> m s2 \<rho>2 m2"
  unfolding moves_def by (blast intro: reach_trans agree_trans)

lemma leads_Inl [simp]: "leads F s \<rho> m s' (Inl m') P \<longleftrightarrow> reach F (here s \<rho> m) (Exited m')"
  by (simp add: leads_def)

lemma leads_Inr [simp]: "leads F s \<rho> m s' (Inr (x, m')) P \<longleftrightarrow> (\<exists>\<rho>'. moves F s \<rho> m s' \<rho>' m' \<and> P x \<rho>')"
  by (simp add: leads_def)

lemma leads_after: "moves F s \<rho> m s1 \<rho>1 m1 \<Longrightarrow> next_id s \<le> next_id s1 \<Longrightarrow> leads F s1 \<rho>1 m1 s2 r P \<Longrightarrow> leads F s \<rho> m s2 r P"
  by (auto simp: leads_def moves_def intro: reach_trans agree_trans split: sum.splits prod.splits)

lemma leads_mono: "leads F s \<rho> m s' r P \<Longrightarrow> (\<And>x \<rho>'. P x \<rho>' \<Longrightarrow> Q x \<rho>') \<Longrightarrow> leads F s \<rho> m s' r Q"
  by (auto simp: leads_def split: sum.splits)

text \<open>Sequencing on both sides.\<close>

lemma leads_seq:
  assumes "seq e k = Some r" and "\<And>r1. e = Some r1 \<Longrightarrow> leads F s \<rho> m s1 r1 P" and "next_id s \<le> next_id s1"
    and "\<And>x m1 \<rho>1. e = Some (Inr (x, m1)) \<Longrightarrow> moves F s \<rho> m s1 \<rho>1 m1 \<Longrightarrow> P x \<rho>1 \<Longrightarrow> k x m1 = Some r \<Longrightarrow> leads F s1 \<rho>1 m1 s2 r Q"
  shows "leads F s \<rho> m s2 r Q"
  using assms(1)
proof (cases rule: seqE)
  case (1 m')
  then show ?thesis using assms(2) by fastforce
next
  case (2 x m1)
  then obtain \<rho>1 where "moves F s \<rho> m s1 \<rho>1 m1" "P x \<rho>1" using assms(2) by fastforce
  then show ?thesis using leads_after assms(3,4) 2 by blast
qed

text \<open>Changes of the visitor's own variables.\<close>

lemma here_upd [simp]:
  "here (s\<lparr>tmp_val := v1\<rparr>) = here s" "here (s\<lparr>require_lvalue := v2\<rparr>) = here s" "here (s\<lparr>scope := v3\<rparr>) = here s"
  "here (s\<lparr>pre_enter_scope := v4\<rparr>) = here s"
  by (simp_all add: fun_eq_iff here_def ilist_def)

lemma agree_upd [simp]:
  "agree (s\<lparr>tmp_val := v1\<rparr>) = agree s" "agree (s\<lparr>require_lvalue := v2\<rparr>) = agree s" "agree (s\<lparr>scope := v3\<rparr>) = agree s"
  "agree (s\<lparr>pre_enter_scope := v4\<rparr>) = agree s" "agree (set_insert_point b s) = agree s"
  by (simp_all add: fun_eq_iff agree_def)

lemma moves_upd [simp]:
  "moves F (s\<lparr>tmp_val := v1\<rparr>) = moves F s" "moves F (s\<lparr>require_lvalue := v2\<rparr>) = moves F s"
  "moves F (s\<lparr>scope := v3\<rparr>) = moves F s" "moves F (s\<lparr>pre_enter_scope := v4\<rparr>) = moves F s"
  "moves F s0 \<rho> m (s\<lparr>tmp_val := v1\<rparr>) = moves F s0 \<rho> m s" "moves F s0 \<rho> m (s\<lparr>require_lvalue := v2\<rparr>) = moves F s0 \<rho> m s"
  "moves F s0 \<rho> m (s\<lparr>scope := v3\<rparr>) = moves F s0 \<rho> m s" "moves F s0 \<rho> m (s\<lparr>pre_enter_scope := v4\<rparr>) = moves F s0 \<rho> m s"
  by (simp_all add: fun_eq_iff moves_def)

lemma leads_upd [simp]:
  "leads F (s\<lparr>tmp_val := v1\<rparr>) = leads F s" "leads F (s\<lparr>require_lvalue := v2\<rparr>) = leads F s"
  "leads F (s\<lparr>scope := v3\<rparr>) = leads F s" "leads F (s\<lparr>pre_enter_scope := v4\<rparr>) = leads F s"
  unfolding leads_def [abs_def] by (simp_all only: moves_upd here_upd)

lemma grows_upd [simp]:
  "grows (s\<lparr>tmp_val := v1\<rparr>) = grows s" "grows (s\<lparr>require_lvalue := v2\<rparr>) = grows s" "grows (s\<lparr>scope := v3\<rparr>) = grows s"
  "grows (s\<lparr>pre_enter_scope := v4\<rparr>) = grows s" "grows (set_insert_point b s) = grows s"
  by (simp_all add: fun_eq_iff grows_def ilist_def fblocks_def set_insert_point_def)

section \<open>What is known of the registers\<close>

definition den_ty :: "den \<Rightarrow> ty" where
  "den_ty d = (case d of Slot t ob \<Rightarrow> PtrTy t | Code k t \<Rightarrow> t)"

definition tenv_of :: "denv \<Rightarrow> tenv" where
  "tenv_of D = map (\<lambda>m n. map_option den_ty (m n)) D"

lemma lookup_tenv: "lookup (tenv_of D) n = map_option den_ty (find_den D n)"
  by (induction D) (auto simp: tenv_of_def split: option.splits)

text \<open>The place \<open>k\<close> of the table stands for the function \<open>fst (fid k)\<close> of type \<open>snd (fid k)\<close>. The value \<open>v\<close> of the module has the type \<open>t\<close> and, at run time, the value \<open>x\<close>.\<close>

definition holds :: "cg \<Rightarrow> regs \<Rightarrow> val \<Rightarrow> rv \<Rightarrow> ty \<Rightarrow> bool" where
  "holds s \<rho> v x t \<longleftrightarrow> has_type s v t \<and> value_of \<rho> v = Some x \<and> has_ty x t"

definition env_rel :: "(nat \<Rightarrow> nat \<times> ty) \<Rightarrow> regs \<Rightarrow> denv \<Rightarrow> cg \<Rightarrow> bool" where
  "env_rel fid \<rho> D s \<longleftrightarrow> (\<forall>n d. find_den D n = Some d \<longrightarrow> (case d of
     Slot t ob \<Rightarrow> value_of \<rho> (find (scope s) n) = Some (PtrV ob 0) | Code k t \<Rightarrow> find (scope s) n = VFun (fst (fid k)) \<and> snd (fid k) = t))"

definition ready_at :: "(nat \<Rightarrow> nat \<times> ty) \<Rightarrow> ty \<Rightarrow> denv \<Rightarrow> cg \<Rightarrow> regs \<Rightarrow> bool" where
  "ready_at fid r D s \<rho> \<longleftrightarrow> in_fun r (tenv_of D) s \<and> env_rel fid \<rho> D s"

lemma in_fun_fresh: "in_fun r E s \<Longrightarrow> fresh_ok s"
  by (simp add: in_fun_def sound_def)

lemma typed_below: "fresh_ok s \<Longrightarrow> has_type s (VInstr p) t \<Longrightarrow> p < next_id s"
  using fresh_okD(1) [of s p] by (cases "next_id s \<le> p") (auto simp: has_type_def)

lemma agree_value: "agree s \<rho> \<rho>' \<Longrightarrow> fresh_ok s \<Longrightarrow> has_type s v t \<Longrightarrow> value_of \<rho>' v = value_of \<rho> v"
  by (cases v) (auto simp: agree_def dest: typed_below)

lemma holds_step: "holds s \<rho> v x t \<Longrightarrow> goes r E s s' \<Longrightarrow> agree s \<rho> \<rho>' \<Longrightarrow> in_fun r E s \<Longrightarrow> holds s' \<rho>' v x t"
  unfolding holds_def using agree_value goes_type in_fun_fresh by metis

lemma env_rel_find:
  assumes "in_fun r (tenv_of D) s" and "find_den D n = Some d"
  shows "has_type s (find (scope s) n) (den_ty d)"
proof -
  have "lookup (tenv_of D) n = Some (den_ty d)" by (simp add: lookup_tenv assms(2))
  then show ?thesis using in_fun_lookup [OF assms(1)] by (auto simp: realises_def)
qed

lemma ready_step:
  assumes "ready_at fid r D s \<rho>" and "goes r (tenv_of D) s s'" and "agree s \<rho> \<rho>'"
  shows "ready_at fid r D s' \<rho>'"
proof -
  have s: "in_fun r (tenv_of D) s" "env_rel fid \<rho> D s" using assms(1) by (simp_all add: ready_at_def)
  have sc: "scope s' = scope s" using assms(2) by (simp add: goes_def steady_def framed_def)
  have "value_of \<rho>' (find (scope s) n) = value_of \<rho> (find (scope s) n)" if "find_den D n = Some d" for n d
    using agree_value [OF assms(3) in_fun_fresh [OF s(1)] env_rel_find [OF s(1) that]] .
  then have "env_rel fid \<rho>' D s'"
    using s(2) by (fastforce simp: env_rel_def sc split: den.splits)
  then show ?thesis using goesD [OF assms(2)] by (simp add: ready_at_def)
qed

lemma holds_const [simp]: "holds s \<rho> (const_int n) (IntV (word_of_int n)) INT32_T"
  by (simp add: holds_def const_int_def has_type_def)

section \<open>One instruction\<close>

lemma emitted_at:
  assumes "build (mk_instr t opc d vs) s = Inr (v, s')" and "grows s' F"
  shows "v = VInstr (next_id s)" "\<exists>b. insert_bb s = Some b \<and> insert_bb s' = Some b \<and> ilist s' b = ilist s b @ [next_id s] \<and>
      instr_at F b (length (ilist s b)) = Some (next_id s, \<lparr>i_type = t, i_op = opc, i_parent = b, i_data = d, i_name = ''''\<rparr>)"
    "operands F (VInstr (next_id s)) = vs" "next_id s' = Suc (next_id s)"
proof -
  obtain b where b: "insert_bb s = Some b" "mk_instr t opc d vs b s = Inr (v, s')"
    using assms(1) by (auto simp: build_Inr)
  note view = mk_instr_view [OF b(2)]
  let ?i = "\<lparr>i_type = t, i_op = opc, i_parent = b, i_data = d, i_name = ''''\<rparr>"
  have ins: "instrs s' (next_id s) = Some ?i" by (simp add: view)
  obtain zs where zs: "ilist F b = (ilist s b @ [next_id s]) @ zs"
    using growsD(5) [OF assms(2), of b] by (auto simp: view prefix_def)
  have "instr_at F b (length (ilist s b)) = Some (next_id s, ?i)"
    by (simp add: instr_at_def zs nth_append growsD(2) [OF assms(2) ins])
  then show "\<exists>b. insert_bb s = Some b \<and> insert_bb s' = Some b \<and> ilist s' b = ilist s b @ [next_id s] \<and>
      instr_at F b (length (ilist s b)) = Some (next_id s, \<lparr>i_type = t, i_op = opc, i_parent = b, i_data = d, i_name = ''''\<rparr>)"
    using b(1) cg_more(1) [OF view(17)] by (auto simp: view(6))
  show "v = VInstr (next_id s)" "next_id s' = Suc (next_id s)" by (simp_all add: view)
  show "operands F (VInstr (next_id s)) = vs"
    using growsD(4) [OF assms(2) ins] by (simp add: view)
qed

lemma agree_new: "agree s \<rho> (\<rho>(VInstr (next_id s) \<mapsto> x))"
  by (simp add: agree_def)

lemma instr_moves:
  assumes "build (mk_instr t opc d vs) s = Inr (v, s')" and "grows s' F" and "values_of \<rho> vs = Some xs"
    and "exec_instr opc d t xs m = Some (x, m')" and "opc \<noteq> Br" "opc \<noteq> Ret" "opc \<noteq> Call"
  shows "moves F s \<rho> m s' (\<rho>(v \<mapsto> x)) m'"
proof -
  note e = emitted_at [OF assms(1,2)]
  obtain b where b: "insert_bb s = Some b" "insert_bb s' = Some b" "ilist s' b = ilist s b @ [next_id s]"
    "instr_at F b (length (ilist s b)) = Some (next_id s, \<lparr>i_type = t, i_op = opc, i_parent = b, i_data = d, i_name = ''''\<rparr>)"
    using e(2) by blast
  have "local_step F b (length (ilist s b)) \<rho> m = Some (At b (Suc (length (ilist s b))) (\<rho>(VInstr (next_id s) \<mapsto> x)) m')"
    by (simp add: local_step_def b(4) e(3) assms(3-7))
  then have "reach F (here s \<rho> m) (here s' (\<rho>(v \<mapsto> x)) m')"
    unfolding here_def b(1,2) option.sel b(3) length_append e(1) by (auto intro: calls_reach.step calls_reach.refl)
  then show ?thesis using agree_new by (simp add: moves_def e(1))
qed

text \<open>A new instruction gives a value.\<close>

definition computes :: "cg \<Rightarrow> cg \<Rightarrow> regs \<Rightarrow> mem \<Rightarrow> val \<Rightarrow> rv \<Rightarrow> cg \<Rightarrow> mem \<Rightarrow> bool" where
  "computes F s \<rho> m v x s' m' \<longleftrightarrow> (\<exists>\<rho>'. moves F s \<rho> m s' \<rho>' m' \<and> value_of \<rho>' v = Some x)"

lemma instr_computes:
  assumes "build (mk_instr t opc d vs) s = Inr (v, s')" and "grows s' F" and "values_of \<rho> vs = Some xs"
    and "exec_instr opc d t xs m = Some (x, m')" and "opc \<noteq> Br" "opc \<noteq> Ret" "opc \<noteq> Call"
  shows "computes F s \<rho> m v x s' m'"
  using instr_moves [OF assms] emitted_at(1) [OF assms(1,2)] unfolding computes_def
  by (intro exI [of _ "\<rho>(v \<mapsto> x)"]) simp

lemma call_moves:
  assumes "build (mk_instr t Call d (VFun f # vs)) s = Inr (v, s')" and "grows s' F" and "values_of \<rho> vs = Some xs"
    and "calls F f xs m (Inr (x, m'))"
  shows "computes F s \<rho> m v x s' m'"
proof -
  note e = emitted_at [OF assms(1,2)]
  obtain b where b: "insert_bb s = Some b" "insert_bb s' = Some b" "ilist s' b = ilist s b @ [next_id s]"
    "instr_at F b (length (ilist s b)) = Some (next_id s, \<lparr>i_type = t, i_op = Call, i_parent = b, i_data = d, i_name = ''''\<rparr>)"
    using e(2) by blast
  have "call_at F b (length (ilist s b)) \<rho> = Some (next_id s, f, xs)"
    by (simp add: call_at_def b(4) e(3) assms(3))
  then have "reach F (here s \<rho> m) (here s' (\<rho>(v \<mapsto> x)) m')"
    unfolding here_def b(1,2) option.sel b(3) length_append e(1)
    by (auto intro: calls_reach.call [OF _ assms(4)] calls_reach.refl)
  then show ?thesis using agree_new
    unfolding computes_def moves_def by (intro exI [of _ "\<rho>(v \<mapsto> x)"]) (simp add: e(1))
qed

lemma call_exits:
  assumes "build (mk_instr t Call d (VFun f # vs)) s = Inr (v, s')" and "grows s' F" and "values_of \<rho> vs = Some xs"
    and "calls F f xs m (Inl m')"
  shows "reach F (here s \<rho> m) (Exited m')"
proof -
  note e = emitted_at [OF assms(1,2)]
  obtain b where b: "insert_bb s = Some b"
    "instr_at F b (length (ilist s b)) = Some (next_id s, \<lparr>i_type = t, i_op = Call, i_parent = b, i_data = d, i_name = ''''\<rparr>)"
    using e(2) by blast
  have "call_at F b (length (ilist s b)) \<rho> = Some (next_id s, f, xs)"
    by (simp add: call_at_def b(2) e(3) assms(3))
  then show ?thesis unfolding here_def b(1) option.sel by (rule calls_reach.call_exit [OF _ assms(4)])
qed

end
