(* ===== verification/Simulation_Expressions.thy ===== *)
theory Simulation_Expressions
  imports Simulation
begin

text \<open>
  The simulation for expressions: the pieces that the visits of expressions share, and then every kind
  of expression by induction over the syntax.
\<close>

section \<open>The builder's instructions\<close>

lemma values_of_pair: "value_of \<rho> l = Some x \<Longrightarrow> value_of \<rho> r = Some y \<Longrightarrow> values_of \<rho> [l, r] = Some [x, y]"
  "value_of \<rho> l = Some x \<Longrightarrow> values_of \<rho> [l] = Some [x]"
  by simp_all

definition arith_op :: "opid \<Rightarrow> bool" where
  "arith_op opc \<longleftrightarrow> opc \<in> {Add, Sub, Mul, Sdiv, Fadd, Fsub, Fmul, Fdiv}"

lemma exec_arith: "arith_op opc \<Longrightarrow> exec_instr opc d t [x, y] m = map_option (\<lambda>v. (v, m)) (binary_instr opc x y)"
  by (auto simp: arith_op_def exec_instr_def)

lemma binary_computes:
  "build (create_binary opc l r) s = Inr (v, s') \<Longrightarrow> grows s' F \<Longrightarrow> value_of \<rho> l = Some x \<Longrightarrow> value_of \<rho> r = Some y \<Longrightarrow>
     binary_instr opc x y = Some z \<Longrightarrow> arith_op opc \<Longrightarrow> computes F s \<rho> m v z s' m"
  unfolding create_binary_def
  by (erule instr_computes [OF _ _ values_of_pair(1)]) (auto simp: exec_arith, auto simp: arith_op_def)

lemma cmp_computes:
  "build (create_cmp c l r) s = Inr (v, s') \<Longrightarrow> grows s' F \<Longrightarrow> value_of \<rho> l = Some (IntV a) \<Longrightarrow> value_of \<rho> r = Some (IntV b) \<Longrightarrow>
     computes F s \<rho> m v (BoolV (icmp_instr c a b)) s' m"
  unfolding create_cmp_def
  by (erule instr_computes [OF _ _ values_of_pair(1)]) (auto simp: exec_instr_def cmp_data_def)

lemma fcmp_computes:
  "build (create_fcmp c l r) s = Inr (v, s') \<Longrightarrow> grows s' F \<Longrightarrow> value_of \<rho> l = Some (FloatV a) \<Longrightarrow> value_of \<rho> r = Some (FloatV b) \<Longrightarrow>
     computes F s \<rho> m v (BoolV (fcmp_instr c a b)) s' m"
  unfolding create_fcmp_def
  by (erule instr_computes [OF _ _ values_of_pair(1)]) (auto simp: exec_instr_def cmp_data_def)

lemma zext_computes:
  "build (create_zext l t) s = Inr (v, s') \<Longrightarrow> grows s' F \<Longrightarrow> value_of \<rho> l = Some (BoolV b) \<Longrightarrow>
     computes F s \<rho> m v (IntV (of_bool b)) s' m"
  unfolding create_zext_def
  by (erule instr_computes [OF _ _ values_of_pair(2)]) (auto simp: exec_instr_def)

lemma sitofp_computes:
  "build (create_sitofp l t) s = Inr (v, s') \<Longrightarrow> grows s' F \<Longrightarrow> value_of \<rho> l = Some (IntV i) \<Longrightarrow>
     computes F s \<rho> m v (FloatV (float_of_int i)) s' m"
  unfolding create_sitofp_def
  by (erule instr_computes [OF _ _ values_of_pair(2)]) (auto simp: exec_instr_def)

lemma fptosi_computes:
  "build (create_fptosi l t) s = Inr (v, s') \<Longrightarrow> grows s' F \<Longrightarrow> value_of \<rho> l = Some (FloatV f) \<Longrightarrow> float_to_int f = Some i \<Longrightarrow>
     computes F s \<rho> m v (IntV i) s' m"
  unfolding create_fptosi_def
  by (erule instr_computes [OF _ _ values_of_pair(2)]) (auto simp: exec_instr_def)

lemma alloca_computes:
  "build (create_alloca t) s = Inr (v, s') \<Longrightarrow> grows s' F \<Longrightarrow> alloc t None m = (ob, m') \<Longrightarrow>
     computes F s \<rho> m v (PtrV ob 0) s' m'"
  unfolding create_alloca_def
  by (erule instr_computes [where xs = "[]"]) (auto simp: exec_instr_def)

lemma store_moves:
  "build (create_store l p) s = Inr (v, s') \<Longrightarrow> grows s' F \<Longrightarrow> value_of \<rho> l = Some x \<Longrightarrow> value_of \<rho> p = Some (PtrV ob i) \<Longrightarrow>
     store ob i x m = Some m' \<Longrightarrow> computes F s \<rho> m v VoidV s' m'"
  unfolding create_store_def
  by (erule instr_computes [OF _ _ values_of_pair(1)]) (auto simp: exec_instr_def)

lemma load_computes:
  assumes "build (create_load p) s = Inr (v, s')" and "grows s' F" and "has_type s p (PtrTy t)"
    and "value_of \<rho> p = Some (PtrV ob i)" and "load t ob i m = Some x"
  shows "computes F s \<rho> m v x s' m"
proof -
  have "build (mk_instr t Load NoData [p]) s = Inr (v, s')"
    using assms(1,3) by (auto simp: build_Inr create_load_def has_type_def)
  then show ?thesis
    by (rule instr_computes [OF _ assms(2) values_of_pair(2) [OF assms(4)]]) (simp_all add: exec_instr_def assms(5))
qed

lemma gep_computes:
  assumes "build (create_gep p is) s = Inr (v, s')" and "grows s' F" and "values_of \<rho> (p # is) = Some xs" and "gep_instr xs = Some x"
  shows "computes F s \<rho> m v x s' m"
proof -
  obtain t where "build (mk_instr (PtrTy t) Getelementptr (GepData t) (p # is)) s = Inr (v, s')"
    using assms(1) by (auto simp: build_Inr create_gep_def)
  then show ?thesis
    by (rule instr_computes [OF _ assms(2,3)]) (simp_all add: exec_instr_def assms(4))
qed

text \<open>The instruction after one that gave a value.\<close>

lemma emits_grows: "fresh_ok s \<Longrightarrow> emits s s' \<Longrightarrow> grows s s'"
  using past_emits [OF past_refl] pastD(2) by blast

lemma build_goes: "returns m P \<Longrightarrow> m = Inr x \<Longrightarrow> P x"
  by simp

lemma moves_agree: "moves F s \<rho> m s' \<rho>' m' \<Longrightarrow> agree s \<rho> \<rho>'"
  by (simp add: moves_def)

lemma computes_refl: "value_of \<rho> v = Some x \<Longrightarrow> computes F s \<rho> m v x s m"
  unfolding computes_def by (intro exI [of _ \<rho>]) simp

lemma computes_then:
  assumes "computes F s \<rho> m v x s1 m1" and "next_id s \<le> next_id s1"
    and "\<And>\<rho>1. moves F s \<rho> m s1 \<rho>1 m1 \<Longrightarrow> value_of \<rho>1 v = Some x \<Longrightarrow> computes F s1 \<rho>1 m1 w y s2 m2"
  shows "computes F s \<rho> m w y s2 m2"
  using assms moves_trans unfolding computes_def by blast

section \<open>Arithmetic and comparisons\<close>

definition converted :: "rv \<Rightarrow> rv \<Rightarrow> rv \<times> rv" where
  "converted x y = (case (x, y) of
     (IntV a, FloatV b) \<Rightarrow> (FloatV (float_of_int a), y) | (FloatV a, IntV b) \<Rightarrow> (x, FloatV (float_of_int b)) | _ \<Rightarrow> (x, y))"

lemma promote_sim:
  assumes p: "promote a b s = Inr (i, a', b', s')" and F: "grows s' F" and f: "fresh_ok s"
    and a: "holds s \<rho> a x ta" "num_ty ta" and b: "holds s \<rho> b y tb" "num_ty tb"
  shows "\<exists>\<rho>'. moves F s \<rho> m s' \<rho>' m \<and> value_of \<rho>' a' = Some (fst (converted x y)) \<and>
    value_of \<rho>' b' = Some (snd (converted x y)) \<and> i = is_integer_type (join_ty ta tb)"
proof -
  have g: "get_type s a = Inr ta" "get_type s b = Inr tb" "value_of \<rho> a = Some x" "value_of \<rho> b = Some y"
    "has_ty x ta" "has_ty y tb" "has_type s a ta" "has_type s b tb"
    using a(1) b(1) by (simp_all add: holds_def has_type_def)
  have keep: "value_of \<rho>' a = Some x" "value_of \<rho>' b = Some y" if "moves F s \<rho> m s' \<rho>' m" for \<rho>'
    using that agree_value [OF _ f g(7)] agree_value [OF _ f g(8)] g(3,4) by (auto simp: moves_def)
  consider "ta = tb" | c d where "x = IntV c" "y = FloatV d" "ta = INT32_T" "tb = FloatTy"
    | c d where "x = FloatV c" "y = IntV d" "ta = FloatTy" "tb = INT32_T"
    using num_ty_value [OF g(5) a(2)] num_ty_value [OF g(6) b(2)] by auto
  then show ?thesis
  proof cases
    case 1
    then have "converted x y = (x, y)"
      using num_ty_value [OF g(5) a(2)] num_ty_value [OF g(6) b(2)] by (auto simp: converted_def)
    then show ?thesis using p 1 g(1-4) by (auto simp: promote_def join_ty_def intro: exI [of _ \<rho>])
  next
    case 2
    then have "build (create_sitofp a FloatTy) s = Inr (a', s')" "b' = b" "\<not> i"
      using p g(1,2) by (auto simp: promote_def)
    then show ?thesis
      using sitofp_computes [OF _ F, of a FloatTy s a' \<rho> _ m] g(3) 2 keep by (auto simp: computes_def converted_def join_ty_def)
  next
    case 3
    then have "build (create_sitofp b FloatTy) s = Inr (b', s')" "a' = a" "\<not> i"
      using p g(1,2) by (auto simp: promote_def)
    then show ?thesis
      using sitofp_computes [OF _ F, of b FloatTy s b' \<rho> _ m] g(4) 3 keep by (auto simp: computes_def converted_def join_ty_def)
  qed
qed

text \<open>The source's operator is the integer instruction on integers and the float instruction otherwise.\<close>

definition op_pair :: "(rv \<Rightarrow> rv \<Rightarrow> rv option) \<Rightarrow> opid \<Rightarrow> opid \<Rightarrow> bool" where
  "op_pair g iop fop \<longleftrightarrow> arith_op iop \<and> arith_op fop \<and>
     (\<forall>x y. g x y = num_op (int_instr iop) (\<lambda>a b. the (float_instr fop a b)) x y) \<and> (\<forall>a b. float_instr fop a b \<noteq> None)"

lemma op_pairs: "op_pair (add_values op) (int_add op) (float_add op)" "op_pair (mul_values op2) (int_mul op2) (float_mul op2)"
proof -
  have i: "int_instr Add = (\<lambda>a b. Some (a + b))" "int_instr Sub = (\<lambda>a b. Some (a - b))"
    "int_instr Mul = (\<lambda>a b. Some (a * b))" "int_instr Sdiv = div_int"
    by (simp_all add: fun_eq_iff)
  show "op_pair (add_values op) (int_add op) (float_add op)" by (cases op) (simp_all add: op_pair_def arith_op_def i)
  show "op_pair (mul_values op2) (int_mul op2) (float_mul op2)" by (cases op2) (simp_all add: op_pair_def arith_op_def i)
qed

lemma num_op_converted:
  assumes "op_pair g iop fop" and "g x y = Some z" and "has_ty x ta" "num_ty ta" "has_ty y tb" "num_ty tb"
  shows "binary_instr (if is_integer_type (join_ty ta tb) then iop else fop) (fst (converted x y)) (snd (converted x y)) = Some z"
    "has_ty z (join_ty ta tb)"
  using assms(1,2) num_ty_value [OF assms(3,4)] num_ty_value [OF assms(5,6)]
  by (auto simp: op_pair_def num_op_def converted_def binary_instr_def join_ty_def)

text \<open>The shape of the claims: a state of the visitor from which the code computes a value in \<open>tmp_val\<close>.\<close>

lemma arith_sim:
  assumes p: "arith iop fop a b s = Inr s'" and F: "grows s' F" and s: "in_fun r E s"
    and a: "holds s \<rho> a x ta" "num_ty ta" and b: "holds s \<rho> b y tb" "num_ty tb" and g: "op_pair g iop fop" "g x y = Some z"
  shows "computes F s \<rho> m (tmp_val s') z s' m"
proof -
  note f = in_fun_fresh [OF s]
  obtain i a' b' s1 v s2 where p1: "promote a b s = Inr (i, a', b', s1)"
    "build (create_binary (if i then iop else fop) a' b') s1 = Inr (v, s2)" "s' = s2\<lparr>tmp_val := v\<rparr>"
    using p by (auto simp: arith_def to_tmp_Inr)
  have past: "past s s1" using past.promote [OF p1(1)] past_refl [OF f] by blast
  have t: "\<not> is_terminator_op (if i then iop else fop)" "arith_op (if i then iop else fop)"
    using g(1) by (auto simp: op_pair_def arith_op_def)
  have F2: "grows s2 F" using F p1(3) by simp
  then have "grows s1 F" using grows_trans emits_grows [OF pastD(1) [OF past] build_emits(1) [OF p1(2) t(1)]] by blast
  from promote_sim [OF p1(1) this f a b, of m]
  obtain \<rho>1 where \<rho>1: "moves F s \<rho> m s1 \<rho>1 m" "value_of \<rho>1 a' = Some (fst (converted x y))"
    "value_of \<rho>1 b' = Some (snd (converted x y))" "i = is_integer_type (join_ty ta tb)" by blast
  have "binary_instr (if i then iop else fop) (fst (converted x y)) (snd (converted x y)) = Some z"
    using num_op_converted(1) [OF g] a b unfolding \<rho>1(4) holds_def by blast
  from binary_computes [OF p1(2) F2 \<rho>1(2,3) this t(2), of m]
  have "computes F s1 \<rho>1 m v z s2 m" .
  then show ?thesis
    using moves_trans [OF \<rho>1(1) _ growsD(1) [OF pastD(2) [OF past]]] p1(3) by (auto simp: computes_def)
qed

lemma cmp_matches:
  "icmp_instr (cmp_of op) a b = int_rel op (sint a) (sint b)"
  "float_rel op f g = Some c \<Longrightarrow> fcmp_instr (cmp_of op) f g = c"
  by (cases op; auto simp: word_sle_eq word_sless_alt signed_word_eqI)
    (cases op; auto simp: float_rel_def float_eq_def float_lt_def float_le_def split: if_splits)

lemma compare_sim:
  assumes p: "compare op a b s = Inr s'" and F: "grows s' F" and s: "in_fun r E s"
    and a: "holds s \<rho> a x ta" "num_ty ta" and b: "holds s \<rho> b y tb" "num_ty tb" and g: "rel_values op x y = Some z"
  shows "computes F s \<rho> m (tmp_val s') z s' m"
proof -
  note f = in_fun_fresh [OF s]
  obtain i a' b' s1 c s2 v s3 where p1: "promote a b s = Inr (i, a', b', s1)"
    "(if i then build (create_cmp (cmp_of op) a' b') s1 else build (create_fcmp (cmp_of op) a' b') s1) = Inr (c, s2)"
    "build (create_zext c INT32_T) s2 = Inr (v, s3)" "s' = s3\<lparr>tmp_val := v\<rparr>"
    using p by (auto simp: compare_def to_tmp_Inr)
  have past: "past s s1" using past.promote [OF p1(1)] past_refl [OF f] by blast
  have e: "emits s1 s2" "emits s2 s3" using p1(2,3) by (cases i; simp; blast intro: emits_intros)+
  have F3: "grows s3 F" using F p1(4) by simp
  have past2: "past s1 s2" using past_emits [OF past_refl [OF pastD(1) [OF past]] e(1)] .
  have F2: "grows s2 F" using grows_trans [OF emits_grows [OF pastD(1) [OF past2] e(2)] F3] .
  have F1: "grows s1 F" using grows_trans [OF pastD(2) [OF past2] F2] .
  from promote_sim [OF p1(1) F1 f a b, of m]
  obtain \<rho>1 where \<rho>1: "moves F s \<rho> m s1 \<rho>1 m" "value_of \<rho>1 a' = Some (fst (converted x y))"
    "value_of \<rho>1 b' = Some (snd (converted x y))" "i = is_integer_type (join_ty ta tb)" by blast
  have t: "has_ty x ta" "has_ty y tb" using a(1) b(1) by (simp_all add: holds_def)
  obtain q where z: "z = IntV (of_bool q)" using g by (auto simp: rel_values_def)
  have "computes F s1 \<rho>1 m c (BoolV q) s2 m"
  proof (cases "join_ty ta tb = INT32_T")
    case True
    then obtain k l where kl: "x = IntV k" "y = IntV l"
      using num_ty_value [OF t(1) a(2)] num_ty_value [OF t(2) b(2)] by (auto simp: join_ty_def split: if_splits)
    then have "int_rel op (sint k) (sint l) = q" using g z by (auto simp: rel_values_def)
    then show ?thesis
      using cmp_computes [OF _ F2, of "cmp_of op" a' b' s1 c \<rho>1 k l m] p1(2) \<rho>1(2-4) kl True
      by (simp add: converted_def cmp_matches)
  next
    case False
    then obtain k l where kl: "fst (converted x y) = FloatV k" "snd (converted x y) = FloatV l" "float_rel op k l = Some q"
      using num_ty_value [OF t(1) a(2)] num_ty_value [OF t(2) b(2)] g z
      by (auto simp: join_ty_def converted_def rel_values_def of_bool_eq_iff split: if_splits)
    have "\<not> i" using False join_num [OF a(2) b(2)] \<rho>1(4) by (auto simp: num_ty_def)
    then show ?thesis
      using fcmp_computes [OF _ F2, of "cmp_of op" a' b' s1 c \<rho>1 k l m] p1(2) \<rho>1(2,3) kl
      by (simp add: cmp_matches(2) [OF kl(3)])
  qed
  then have "computes F s1 \<rho>1 m v z s3 m"
    by (rule computes_then [OF _ growsD(1) [OF pastD(2) [OF past2]]]) (use zext_computes [OF p1(3) F3] z in auto)
  then show ?thesis
    using moves_trans [OF \<rho>1(1) _ growsD(1) [OF pastD(2) [OF past]]] p1(4) by (auto simp: computes_def)
qed

section \<open>Conversions and assignments\<close>

lemma convert_computes:
  assumes p: "(if t = INT32_T then build (create_sitofp v FloatTy) s else build (create_fptosi v INT32_T) s) = Inr (w, s')"
    and F: "grows s' F" and v: "holds s \<rho> v x t" and n: "num_ty t" "num_ty u" "u \<noteq> t" and c: "convert u x = Some y"
  shows "computes F s \<rho> m w y s' m"
proof -
  have x: "has_ty x t" "value_of \<rho> v = Some x" using v by (simp_all add: holds_def)
  from num_ty_value [OF x(1) n(1)] show ?thesis
  proof (elim disjE exE conjE)
    fix i assume i: "x = IntV i" "t = INT32_T"
    then have "y = FloatV (float_of_int i)" using c n(2,3) by (auto simp: convert_def num_ty_def split: if_splits)
    then show ?thesis using sitofp_computes [OF _ F] p x(2) i by simp
  next
    fix f assume i: "x = FloatV f" "t = FloatTy"
    then obtain k where "float_to_int f = Some k" "y = IntV k" using c n(2,3) by (auto simp: convert_def num_ty_def split: if_splits)
    then show ?thesis using fptosi_computes [OF _ F] p x(2) i by simp
  qed
qed

lemma convert_same: "has_ty x t \<Longrightarrow> convert t x = Some y \<Longrightarrow> y = x"
  by (simp add: convert_def)

lemma convert_emits:
  "(if t = INT32_T then build (create_sitofp v FloatTy) s else build (create_fptosi v INT32_T) s) = Inr (w, s') \<Longrightarrow> emits s s'"
  by (cases "t = INT32_T"; simp; blast intro: emits_intros)

lemma assign_sim:
  assumes p: "assign v addr s = Inr s'" and F: "grows s' F" and s: "in_fun r E s" and v: "holds s \<rho> v x t"
    and addr: "has_type s addr (PtrTy u)" "value_of \<rho> addr = Some (PtrV ob i)" and ft: "fits t u"
    and c: "convert u x = Some y" and st: "store ob i y m = Some m'"
  shows "computes F s \<rho> m (tmp_val s') y s' m'"
proof -
  note f = in_fun_fresh [OF s]
  obtain w s1 q s2 where p1: "(if u \<noteq> t then if t = INT32_T then build (create_sitofp v FloatTy) s
       else build (create_fptosi v INT32_T) s else Inr (v, s)) = Inr (w, s1)"
    "build (create_store w addr) s1 = Inr (q, s2)" "s' = s2\<lparr>tmp_val := w\<rparr>"
    using p addr(1) v by (auto simp: assign_def holds_def has_type_def discard_Inr)
  have past: "past s s1" using p1(1) past_emits [OF past_refl [OF f] convert_emits] past_refl [OF f]
    by (auto split: if_splits)
  note n = growsD(1) [OF pastD(2) [OF past]]
  have F2: "grows s2 F" using F p1(3) by simp
  have F1: "grows s1 F" using grows_trans [OF emits_grows [OF pastD(1) [OF past] build_emits(7) [OF p1(2)]] F2] .
  have "computes F s \<rho> m w y s1 m"
  proof (cases "u = t")
    case True
    then have "y = x" using convert_same c v by (auto simp: holds_def)
    then show ?thesis using p1(1) True v computes_refl by (auto simp: holds_def)
  next
    case False
    then show ?thesis using convert_computes [OF _ F1 v _ _ False c] p1(1) ft by (auto simp: fits_def)
  qed
  then obtain \<rho>1 where \<rho>1: "moves F s \<rho> m s1 \<rho>1 m" "value_of \<rho>1 w = Some y" by (auto simp: computes_def)
  have "value_of \<rho>1 addr = Some (PtrV ob i)" using agree_value [OF moves_agree [OF \<rho>1(1)] f addr(1)] addr(2) by simp
  from store_moves [OF p1(2) F2 \<rho>1(2) this st]
  obtain \<rho>2 where \<rho>2: "moves F s1 \<rho>1 m s2 \<rho>2 m'" by (auto simp: computes_def)
  have "value_of \<rho>2 w = Some y"
  proof -
    have "has_type s1 w u"
    proof (cases "u = t")
      case True
      then show ?thesis using p1(1) v by (auto simp: holds_def)
    next
      case False
      then show ?thesis
        using p1(1) convert_gives [OF s _ _ _ False, of v] v ft by (auto simp: holds_def fits_def)
    qed
    then show ?thesis using agree_value [OF moves_agree [OF \<rho>2] pastD(1) [OF past]] \<rho>1(2) by simp
  qed
  then show ?thesis using moves_trans [OF \<rho>1(1) \<rho>2 n] p1(3) by (auto simp: computes_def)
qed

lemma convert_arg_sim:
  assumes p: "convert_arg (u # us) s = Inr s'" and F: "grows s' F" and s: "in_fun r E s" and v: "holds s \<rho> (tmp_val s) x t"
    and ft: "fits t u" and c: "convert u x = Some y"
  shows "computes F s \<rho> m (tmp_val s') y s' m"
proof -
  have g: "get_type s (tmp_val s) = Inr t" "value_of \<rho> (tmp_val s) = Some x" "has_ty x t"
    using v by (simp_all add: holds_def has_type_def)
  show ?thesis
  proof (cases "t = u")
    case True
    then have "y = x" "s' = s" using convert_same c g p by (auto simp: convert_arg_def split: if_splits)
    then show ?thesis using g(2) computes_refl by simp
  next
    case False
    then have n: "num_ty t" "num_ty u" using ft by (auto simp: fits_def)
    then obtain w s1 where s1: "(if t = INT32_T then build (create_sitofp (tmp_val s) FloatTy) s
        else build (create_fptosi (tmp_val s) INT32_T) s) = Inr (w, s1)" "s' = s1\<lparr>tmp_val := w\<rparr>"
      using p False g(1) by (auto simp: convert_arg_def to_tmp_Inr num_ty_def split: if_splits)
    then show ?thesis
      using convert_computes [OF s1(1) _ v n False [symmetric] c, of F m] F by (auto simp: computes_def)
  qed
qed

section \<open>Literals\<close>

lemma float_bits: "unat (f :: float32) = (if f_sign f then 2 ^ 31 else 0) + unat (take_bit 31 f)"
proof -
  have "take_bit 32 (unat f) = take_bit 31 (unat f) + 2 ^ 31 * of_bool (bit (unat f) 31)"
    using take_bit_Suc_from_most [of 31 "unat f"] by simp
  moreover have "take_bit 32 (unat f) = unat f"
    using unsigned_less [of f] by (simp add: take_bit_nat_eq_self_iff)
  moreover have "bit (unat f) 31 = f_sign f" by (simp add: f_sign_def bit_unsigned_iff)
  moreover have "take_bit 31 (unat f) = unat (take_bit 31 f)" by (simp add: unsigned_take_bit_eq)
  ultimately show ?thesis by (cases "f_sign f") simp_all
qed

lemma float_eq_same: "float_eq a b \<Longrightarrow> a \<noteq> 2 ^ 31 \<Longrightarrow> b \<noteq> 2 ^ 31 \<Longrightarrow> a = b"
proof -
  assume e: "float_eq a b" and n: "a \<noteq> 2 ^ 31" "b \<noteq> 2 ^ 31"
  define mag where "mag f = unat (take_bit 31 f)" for f :: float32
  have u: "unat f = (if f_sign f then 2 ^ 31 else 0) + mag f" for f using float_bits [of f] by (simp add: mag_def)
  have r: "f_rank f = (if f_sign f then - int (mag f) else int (mag f))" for f by (simp add: f_rank_def mag_def)
  have m: "mag f \<noteq> 0" if "f_sign f" "f \<noteq> 2 ^ 31" for f
    using that u [of f] word_unat_eq_iff [of f "2 ^ 31"] by auto
  have "f_sign a = f_sign b \<and> mag a = mag b"
    using e m [of a] m [of b] n by (cases "f_sign a"; cases "f_sign b") (auto simp: float_eq_def r)
  then show "a = b" by (simp add: word_unat_eq_iff u)
qed

lemma const_fp_sim:
  assumes c: "const_fp x s = (v, s')" and F: "grows s' F" "exact F" and x: "x \<noteq> 2 ^ 31"
  shows "value_of \<rho> v = Some (FloatV x)" "here s' = here s" "agree s' = agree s" "next_id s' = next_id s"
proof -
  obtain d where d: "ConstantFP_get x s = (d, s')" "v = VConst d" using c by (auto simp: const_fp_def split: prod.splits)
  obtain n es where u: "s' = s\<lparr>fp_count := n, cached_float := es\<rparr>" using d(1) by (rule ConstantFP_get_view)
  show "here s' = here s" "agree s' = agree s" "next_id s' = next_id s"
    by (simp_all add: fun_eq_iff here_def agree_def ilist_def u)
  have tab: "k \<noteq> 2 ^ 31 \<and> (\<exists>n. e = CFP k n)" if "(k, e) \<in> set (cached_float s')" for k e
    using that growsD(10) [OF F(1)] F(2) by (auto simp: exact_def)
  show "value_of \<rho> v = Some (FloatV x)"
  proof (cases "find_float x (cached_float s)")
    case None
    then show ?thesis using d by (auto simp: ConstantFP_get_def Let_def)
  next
    case (Some e)
    then have e: "d = e" "s' = s" using d(1) by (auto simp: ConstantFP_get_def)
    obtain k where k: "(k, e) \<in> set (cached_float s)" "float_eq k x" using find_float_Some [OF Some] by blast
    then obtain n where "e = CFP k n" "k \<noteq> 2 ^ 31" using tab e(2) by blast
    then show ?thesis using float_eq_same [OF k(2) _ x] d(2) e(1) by simp
  qed
qed

lemma num_sim:
  assumes p: "visit_num n s = Inr s'" and F: "grows s' F" "exact F" and l: "lit_factor (\<lambda>x. x \<noteq> 2 ^ 31) (FNum n)"
  shows "computes F s \<rho> m (tmp_val s') (case n of NumInt i \<Rightarrow> IntV i | NumFloat f \<Rightarrow> FloatV f) s' m"
proof (cases n)
  case (NumInt i)
  then have s': "s' = s\<lparr>tmp_val := VConst (CInt i)\<rparr>" using p by (simp add: visit_num_def)
  have "moves F s \<rho> m s' \<rho> m" "value_of \<rho> (tmp_val s') = Some (IntV i)" unfolding s' by simp_all
  then show ?thesis using NumInt by (auto simp: computes_def)
next
  case (NumFloat f)
  then obtain v s1 where c: "const_fp f s = (v, s1)" "s' = s1\<lparr>tmp_val := v\<rparr>"
    using p by (auto simp: visit_num_def split: prod.splits)
  have "grows s1 F" "f \<noteq> 2 ^ 31" using F(1) c(2) l NumFloat by simp_all
  note k = const_fp_sim [OF c(1) this(1) F(2) this(2)]
  have "moves F s \<rho> m s1 \<rho> m" by (simp add: moves_def k(2) calls_reach.refl)
  then show ?thesis using k(1) [of \<rho>] NumFloat c(2) by (auto simp: computes_def)
qed

section \<open>Branches\<close>

lemma new_block_facts:
  assumes "fresh_ok s" and "new_block n s = Inr (b, s')"
  shows "b = next_id s" "next_id s' = Suc b" "insert_bb s' = insert_bb s" "ilist s' = ilist s" "fresh_ok s'" "grows s s'"
    "here s' = here s" "ilist s' b = []" "scope s' = scope s" "cur_fun s' = cur_fun s"
proof -
  note p = past_new_block [OF past_refl [OF assms(1)] assms(2)]
  show "b = next_id s" "fresh_ok s'" "grows s s'" "ilist s' b = []" using p pastD by blast+
  then have none: "blocks s b = None" using fresh_okD(2) [OF assms(1), of b] by simp
  show "next_id s' = Suc b" "insert_bb s' = insert_bb s" "scope s' = scope s" "cur_fun s' = cur_fun s"
    using assms(2) p(2) by (auto simp: new_block_def BasicBlock_create_def Let_def)
  moreover show "ilist s' = ilist s"
    using assms(2) none p(2) by (auto simp: fun_eq_iff ilist_def new_block_def BasicBlock_create_def Let_def)
  ultimately show "here s' = here s" by (simp add: fun_eq_iff here_def)
qed

lemma same_code_here: "same_code s s' \<Longrightarrow> here s' = here s \<and> insert_bb s' = insert_bb s"
  using cg_more(1) [of s' s] by (simp add: same_code_def here_def fun_eq_iff)

lemma branch_simps [simp]:
  "branch [VBB t] \<rho> = Some t"
  "branch [c, VBB t, VBB f] \<rho> = (case value_of \<rho> c of Some (BoolV b) \<Rightarrow> Some (if b then t else f) | _ \<Rightarrow> None)"
  by (simp_all add: branch_def) (cases c; simp)

lemma branch_reach:
  assumes "build (mk_instr VoidTy Br NoData vs) s = Inr (v, s')" and "grows s' F" and "branch vs \<rho> = Some b"
  shows "reach F (here s \<rho> m) (At b 0 \<rho> m)"
proof -
  note e = emitted_at [OF assms(1,2)]
  obtain c where c: "insert_bb s = Some c"
    "instr_at F c (length (ilist s c)) = Some (next_id s, \<lparr>i_type = VoidTy, i_op = Br, i_parent = c, i_data = NoData, i_name = ''''\<rparr>)"
    using e(2) by blast
  have "local_step F c (length (ilist s c)) \<rho> m = Some (At b 0 \<rho> m)"
    by (simp add: local_step_def c(2) e(3) assms(3))
  then show ?thesis by (auto simp: here_def c(1) intro: calls_reach.step calls_reach.refl)
qed

lemma br_reach:
  assumes "discard (build (create_br t) s) = Inr s'" and "grows s' F"
  shows "reach F (here s \<rho> m) (At t 0 \<rho> m)"
proof -
  obtain b v where b: "insert_bb s = Some b" "create_br t b s = Inr (v, s')"
    using assms(1) by (auto simp: discard_Inr build_Inr)
  from b(2) show ?thesis
  proof (rule create_br_Inr)
    fix s1 assume s1: "mk_instr VoidTy Br NoData [VBB t] b s1 = Inr (v, s')" "same_code s s1"
    have "build (mk_instr VoidTy Br NoData [VBB t]) s1 = Inr (v, s')"
      using s1 b(1) same_code_here [OF s1(2)] by (simp add: build_def)
    from branch_reach [OF this assms(2), of \<rho> t m] show ?thesis
      using same_code_here [OF s1(2)] by simp
  qed
qed

lemma cond_br_reach:
  assumes "discard (build (create_cond_br c t f) s) = Inr s'" and "grows s' F" and "value_of \<rho> c = Some (BoolV x)"
  shows "reach F (here s \<rho> m) (At (if x then t else f) 0 \<rho> m)"
proof -
  obtain b v where b: "insert_bb s = Some b" "create_cond_br c t f b s = Inr (v, s')"
    using assms(1) by (auto simp: discard_Inr build_Inr)
  obtain s1 s2 s3 s4 where e: "add_pre_basic_block t b s = Inr s1"
    "add_pre_basic_block f b s1 = Inr s2" "add_succ_basic_block b f s2 = Inr s3"
    "add_succ_basic_block b t s3 = Inr s4" "mk_instr VoidTy Br NoData [c, VBB t, VBB f] b s4 = Inr (v, s')"
    using b(2) by (auto simp: create_cond_br_def)
  have same: "same_code s s4"
    using add_pre_view(1) [OF e(1)] add_pre_view(1) [OF e(2)] add_succ_view(1) [OF e(3)]
      add_succ_view(1) [OF e(4)] same_code_trans by blast
  have "build (mk_instr VoidTy Br NoData [c, VBB t, VBB f]) s4 = Inr (v, s')"
    using e(5) b(1) same_code_here [OF same] by (simp add: build_def)
  from branch_reach [OF this assms(2), of \<rho> "if x then t else f" m] show ?thesis
    using same_code_here [OF same] assms(3) by simp
qed

text \<open>The start of an empty block.\<close>

lemma here_empty: "ilist s b = [] \<Longrightarrow> here (set_insert_point b s) \<rho> m = At b 0 \<rho> m"
  by (simp add: here_def)

lemma condition_sim:
  assumes p: "condition v s = Inr (c, s')" and F: "grows s' F" "exact F" and s: "in_fun r E s"
    and v: "holds s \<rho> v x t" and t: "truth x = Some q"
  shows "computes F s \<rho> m c (BoolV q) s' m"
proof -
  have g: "get_type s v = Inr t" "value_of \<rho> v = Some x" "has_ty x t" using v by (simp_all add: holds_def has_type_def)
  show ?thesis
  proof (cases x)
    case (IntV i)
    then have "build (create_cmp NE v (const_int 0)) s = Inr (c, s')" using p g by (simp add: condition_def)
    from cmp_computes [OF this F(1), of \<rho> i 0 m] show ?thesis using IntV g(2) t by (simp add: const_int_def)
  next
    case (FloatV f)
    then obtain k s1 where k: "const_fp 0 s = (k, s1)" "build (create_fcmp NE v k) s1 = Inr (c, s')"
      using p g by (auto simp: condition_def split: prod.splits)
    have "past s s1" using past.const_fp [OF _ k(1)] past_refl [OF in_fun_fresh [OF s]] by simp
    then have F1: "grows s1 F"
      using grows_trans [OF emits_grows [OF pastD(1) build_emits(3) [OF k(2)]] F(1)] by blast
    note z = const_fp_sim [OF k(1) F1 F(2), simplified]
    have "computes F s1 \<rho> m c (BoolV q) s' m"
      using fcmp_computes [OF k(2) F(1), of \<rho> f 0 m] z(1) [of \<rho>] FloatV g(2) t by simp
    then show ?thesis by (simp add: computes_def moves_def z(2,3))
  qed (use t in simp_all)
qed

section \<open>Variables and their elements\<close>

definition calls_sim :: "cg \<Rightarrow> (nat \<Rightarrow> nat \<times> ty) \<Rightarrow> code \<Rightarrow> bool" where
  "calls_sim F fid cf \<longleftrightarrow> (\<forall>k xs m r. cf k xs m = Some r \<longrightarrow> calls F (fst (fid k)) xs m r \<and>
     (\<forall>v m' t ps. r = Inr (v, m') \<longrightarrow> snd (fid k) = FunTy t ps \<longrightarrow> has_ty v t))"

lemma create_call_Inr:
  "build (create_call (VFun f) vs) s = Inr (v, s') \<Longrightarrow> \<exists>t. build (mk_instr t Call NoData (VFun f # vs)) s = Inr (v, s')"
  by (auto simp: build_Inr create_call_def simp del: get_type.simps)

lemma env_rel_code:
  assumes "env_rel fid \<rho> D s" and "lookup (tenv_of D) n = Some (FunTy r ps)"
  shows "\<exists>k. find_den D n = Some (Code k (FunTy r ps)) \<and> find (scope s) n = VFun (fst (fid k)) \<and> snd (fid k) = FunTy r ps"
proof -
  obtain d where d: "find_den D n = Some d" "den_ty d = FunTy r ps"
    using assms(2) by (auto simp: lookup_tenv)
  then show ?thesis using assms(1) by (cases d) (fastforce simp: den_ty_def env_rel_def)+
qed

lemma in_fun_bb: "in_fun r E s \<Longrightarrow> \<exists>b. insert_bb s = Some b \<and> b < next_id s"
proof -
  assume s: "in_fun r E s"
  then obtain b where b: "insert_bb s = Some b" "owner s b \<noteq> None" by (auto simp: in_fun_def)
  then have "b < next_id s"
    using fresh_okD(2) [OF in_fun_fresh [OF s], of b] by (cases "next_id s \<le> b") (auto simp: owner_def)
  then show ?thesis using b(1) by blast
qed

text \<open>The steps of the check, and where the code of its two outcomes stands.\<close>

lemma index_check_parts:
  assumes p: "index_check v s = Inr (i, s')" and F: "grows s' F" and s: "in_fun r E s"
    and v: "has_type s v t" and n: "num_ty t"
  obtains e c s2 s3 neg s4 s5 w s6 where "in_fun r E s2" "here s2 = here s" "scope s2 = scope s" "has_type s2 v t"
    "(if is_float_type t then build (create_fptosi v INT32_T) s2 else Inr (v, s2)) = Inr (i, s3)"
    "build (create_cmp LT i (const_int 0)) s3 = Inr (neg, s4)" "discard (build (create_cond_br neg e c) s4) = Inr s5"
    "build (create_call (find (scope s) ''neg_idx_except'') []) (set_insert_point e s5) = Inr (w, s6)"
    "next_id s \<le> next_id s2" "next_id s2 \<le> next_id s3" "next_id s3 \<le> next_id s4" "has_type s3 i INT32_T" "fresh_ok s3"
    "grows s3 F" "grows s4 F" "grows s5 F" "grows s6 F" "ilist s5 e = []" "insert_bb s' = Some c" "ilist s' c = []"
proof -
  note f = in_fun_fresh [OF s]
  have g: "get_type s v = Inr t" using v by (simp add: has_type_def)
  obtain e s1 where s1: "new_block '''' s = Inr (e, s1)" "goes r E s s1"
    using new_block_target [OF s] by (rule returns_pairE) blast
  obtain c s2 where s2: "new_block '''' s1 = Inr (c, s2)" "goes r E s1 s2"
    using new_block_target [OF goesD [OF s1(2)]] by (rule returns_pairE) blast
  note i2 = goesD [OF s2(2)]
  note t2 = goes_type [OF goes_trans [OF s1(2) s2(2)] v]
  note e1 = new_block_facts [OF f s1(1)]
  note c2 = new_block_facts [OF e1(5) s2(1)]
  obtain s3 neg s4 s5 s6 s7 where p1: "(if is_float_type t then build (create_fptosi v INT32_T) s2 else Inr (v, s2)) = Inr (i, s3)"
    "build (create_cmp LT i (const_int 0)) s3 = Inr (neg, s4)" "discard (build (create_cond_br neg e c) s4) = Inr s5"
    "discard (build (create_call (find (scope s5) ''neg_idx_except'') []) (set_insert_point e s5)) = Inr s6"
    "default_return s6 = Inr s7" "s' = set_insert_point c s7"
    using p g t2 by (auto simp: index_check_def s1(1) s2(1) has_type_def Let_def)
  obtain w where w: "build (create_call (find (scope s5) ''neg_idx_except'') []) (set_insert_point e s5) = Inr (w, s6)"
    using p1(4) by (auto simp: discard_Inr)
  have "s3 = s2 \<or> emits s2 s3" using p1(1) by (auto split: if_splits intro: emits_intros)
  then have st3: "past s2 s3" using past_emits [OF past_refl [OF c2(5)]] past_refl [OF c2(5)] by blast
  have em: "emits s3 s4" "emits (set_insert_point e s5) s6" using p1(2) w by (blast intro: emits_intros)+
  have st4: "past s2 s4" using past_emits [OF st3 em(1)] .
  have st5: "past s2 s5" using past_cond_br [OF st4 p1(3)] .
  have r5: "past (set_insert_point e s5) (set_insert_point e s5)" using past_refl pastD(1) [OF st5] by simp
  have st6: "past (set_insert_point e s5) s6" using past_emits [OF r5 em(2)] .
  have st7: "past s6 s7" using past_default_return [OF past_refl [OF pastD(1) [OF st6]] p1(5)] .
  have F7: "grows s7 F" using F p1(6) by simp
  have F6: "grows s6 F" using grows_trans [OF pastD(2) [OF st7] F7] .
  have F5: "grows s5 F" using grows_trans [OF _ F6] pastD(2) [OF st6] by simp
  have st45: "past s4 s5" using past_cond_br [OF past_refl [OF pastD(1) [OF st4]] p1(3)] .
  have F4: "grows s4 F" using grows_trans [OF pastD(2) [OF st45] F5] .
  have g34: "grows s3 s4" using emits_grows [OF pastD(1) [OF st3] em(1)] .
  have F3: "grows s3 F" using grows_trans [OF g34 F4] .
  have t3: "has_type s3 i INT32_T"
    using p1(1) t2 n fptosi_gives [OF i2, of v] by (cases "t = FloatTy") (auto simp: num_ty_def)
  obtain b where b: "insert_bb s = Some b" "b < next_id s" using in_fun_bb [OF s] by blast
  have e5: "ilist s5 e = []"
    using past_ilist [OF st5, of e] e1 c2 b by auto
  have sc: "scope s5 = scope s"
    using st5 e1(9) c2(9) frame.promote framed_eq [OF cond_br_framed [OF p1(3)]] emits_frame [OF em(1)]
      \<open>s3 = s2 \<or> emits s2 s3\<close> emits_frame [of s2 s3] by auto
  obtain c' where c': "insert_bb s' = Some c'" "ilist s' c' = []" using index_check_end [OF f b p] by blast
  then have "ilist s' c = []" using p1(6) by (simp add: set_insert_point_def)
  then show thesis
    using that [of s2 s3 neg s4 e c s5 w s6] i2 c2(7,9) e1(7,9) t2 p1 w sc growsD(1) [OF pastD(2) [OF st3]] growsD(1) [OF g34]
      growsD(1) [OF e1(6)] growsD(1) [OF c2(6)] t3 pastD(1) [OF st3] F3 F4 F5 F6 e5
    by simp
qed

lemma index_check_sim:
  assumes p: "index_check v s = Inr (i, s')" and F: "grows s' F" and s: "in_fun r (tenv_of D) s" "env_rel fid \<rho> D s"
    and v: "holds s \<rho> v x t" and n: "num_ty t" and h: "lookup (tenv_of D) ''neg_idx_except'' = Some (FunTy VoidTy [])"
    and e: "index_value cf D x m = Some res" and cs: "calls_sim F fid cf"
  shows "leads F s \<rho> m s' res (\<lambda>j \<rho>'. \<exists>w. value_of \<rho>' i = Some (IntV w) \<and> sint w = j)"
proof -
  have v': "has_type s v t" "value_of \<rho> v = Some x" "has_ty x t" using v by (simp_all add: holds_def)
  obtain e c s2 s3 neg s4 s5 w s6 where q: "in_fun r (tenv_of D) s2" "here s2 = here s" "has_type s2 v t"
    "(if is_float_type t then build (create_fptosi v INT32_T) s2 else Inr (v, s2)) = Inr (i, s3)"
    "build (create_cmp LT i (const_int 0)) s3 = Inr (neg, s4)" "discard (build (create_cond_br neg e c) s4) = Inr s5"
    "build (create_call (find (scope s) ''neg_idx_except'') []) (set_insert_point e s5) = Inr (w, s6)"
    "next_id s \<le> next_id s2" "next_id s2 \<le> next_id s3" "next_id s3 \<le> next_id s4" "has_type s3 i INT32_T" "fresh_ok s3"
    "grows s3 F" "grows s4 F" "grows s5 F" "grows s6 F" "ilist s5 e = []" "insert_bb s' = Some c" "ilist s' c = []"
    using p F s(1) v'(1) n by (rule index_check_parts)
  obtain y where y: "convert INT32_T x = Some (IntV y)"
    using e convert_type [of INT32_T x] by (auto simp: index_value_def partial_Some has_ty_cases)
  have "computes F s2 \<rho> m i (IntV y) s3 m"
    using num_ty_value [OF v'(3) n]
  proof (elim disjE exE conjE)
    fix k assume k: "x = IntV k" "t = INT32_T"
    then show ?thesis using q(4) v'(2) y computes_refl by (auto simp: convert_def)
  next
    fix f assume k: "x = FloatV f" "t = FloatTy"
    then have "float_to_int f = Some y" using y by (auto simp: convert_def)
    then show ?thesis using fptosi_computes [OF _ q(13), of v INT32_T s2 i \<rho> f y m] q(4) k v'(2) by simp
  qed
  then obtain \<rho>3 where \<rho>3: "moves F s2 \<rho> m s3 \<rho>3 m" "value_of \<rho>3 i = Some (IntV y)" by (auto simp: computes_def)
  have "value_of \<rho>3 (const_int 0) = Some (IntV 0)" by (simp add: const_int_def)
  from cmp_computes [OF q(5) q(14) \<rho>3(2) this, of m]
  obtain \<rho>4 where \<rho>4: "moves F s3 \<rho>3 m s4 \<rho>4 m" "value_of \<rho>4 neg = Some (BoolV (sint y < 0))"
    by (auto simp: computes_def word_sless_alt)
  have i4: "value_of \<rho>4 i = Some (IntV y)"
    using agree_value [OF moves_agree [OF \<rho>4(1)] q(12) q(11)] \<rho>3(2) by simp
  have "moves F s2 \<rho> m s4 \<rho>4 m" using moves_trans [OF \<rho>3(1) \<rho>4(1) q(9)] .
  then have r: "reach F (here s \<rho> m) (At (if sint y < 0 then e else c) 0 \<rho>4 m)" "agree s \<rho> \<rho>4"
    using cond_br_reach [OF q(6,15) \<rho>4(2), of m] q(2) reach_trans agree_trans [of s \<rho> \<rho> s2 \<rho>4] q(8)
    by (auto simp: moves_def split: if_splits)
  show ?thesis
  proof (cases "sint y < 0")
    case True
    obtain k where k: "find_den D ''neg_idx_except'' = Some (Code k (FunTy VoidTy []))" "find (scope s) ''neg_idx_except'' = VFun (fst (fid k))"
      using env_rel_code [OF s(2) h] by blast
    obtain m' where m': "res = Inl m'" "cf k [] m = Some (Inl m')"
      using e y k(1) True by (auto simp: index_value_def split: option.splits sum.splits)
    obtain ct where ct: "build (mk_instr ct Call NoData [VFun (fst (fid k))]) (set_insert_point e s5) = Inr (w, s6)"
      using create_call_Inr q(7) unfolding k(2) by blast
    have "calls F (fst (fid k)) [] m (Inl m')" using cs m'(2) unfolding calls_sim_def by blast
    from call_exits [OF ct q(16) _ this, of \<rho>4] have "reach F (At e 0 \<rho>4 m) (Exited m')"
      using here_empty [OF q(17)] by simp
    then show ?thesis using r(1) True reach_trans m'(1) by simp blast
  next
    case False
    then have "res = Inr (sint y, m)" using e y by (auto simp: index_value_def)
    moreover have "At c 0 \<rho>4 m = here s' \<rho>4 m" by (simp add: here_def q(18,19))
    ultimately show ?thesis using r False i4 by (auto simp: moves_def)
  qed
qed

lemma gep_step_sim:
  assumes p: "build (create_gep v [i]) s = Inr (p, s')" and F: "grows s' F" and v: "value_of \<rho> v = Some (PtrV ob j)"
    and i: "value_of \<rho> i = Some (IntV w)"
  shows "computes F s \<rho> m p (PtrV ob (j + sint w)) s' m"
proof -
  have "values_of \<rho> [v, i] = Some [PtrV ob j, IntV w]" using v i by simp
  then show ?thesis by (rule gep_computes [OF p F]) (simp add: gep_instr_def)
qed

lemma gep_array_sim:
  assumes p: "build (create_gep v [const_int 0, i]) s = Inr (p, s')" and F: "grows s' F" and v: "value_of \<rho> v = Some (PtrV ob j)"
    and i: "value_of \<rho> i = Some (IntV w)"
  shows "computes F s \<rho> m p (PtrV ob (j + sint w)) s' m"
proof -
  have "values_of \<rho> [v, const_int 0, i] = Some [PtrV ob j, IntV 0, IntV w]" using v i by (simp add: const_int_def)
  then show ?thesis by (rule gep_computes [OF p F]) (simp add: gep_instr_def)
qed

lemma element_address_sim:
  assumes p: "(if is_scalar et then build (create_gep v [i]) s
      else if is_pointer_type et
      then bnd (build (create_load v) s) (\<lambda>(a, s). build (create_gep a [i]) s)
      else build (create_gep v [const_int 0, i]) s) = Inr (p, s')" and F: "grows s' F" and s: "in_fun r E s"
    and v: "has_type s v (PtrTy et)" "value_of \<rho> v = Some (PtrV ob 0)" and i: "has_type s i INT32_T" "value_of \<rho> i = Some (IntV w)"
    and u: "index_ty et = Some u" and e: "element et ob (sint w) m = Some (u', ob', j)"
  shows "u' = u \<and> goes r E s s' \<and> has_type s' p (PtrTy u) \<and> computes F s \<rho> m p (PtrV ob' j) s' m"
proof -
  have num: "num_ty u" using u by (cases et) (auto split: if_splits)
  consider "et = u" | "et = PtrTy u" | n where "et = ArrTy u n"
    using u by (cases et) (auto split: if_splits)
  then show ?thesis
  proof cases
    case 1
    then have sc: "is_scalar et" "u' = u" "ob' = ob" "j = sint w" using num e by (auto simp: is_scalar_def num_ty_def element_def)
    then have b: "build (create_gep v [i]) s = Inr (p, s')" using p by simp
    show ?thesis using gep_step_gives [OF s _ i(1) num, of v] v(1) 1 gep_step_sim [OF b F v(2) i(2), of m] sc b by simp
  next
    case 2
    then obtain k where k: "load et ob 0 m = Some (PtrV ob' k)" "u' = u" "j = k + sint w"
      using e by (auto simp: element_def split: option.splits rv.splits)
    obtain a s1 where a: "build (create_load v) s = Inr (a, s1)" "build (create_gep a [i]) s1 = Inr (p, s')"
      using p 2 by (auto simp: is_scalar_def)
    have g1: "goes r E s s1" "has_type s1 a (PtrTy u)" using load_gives [OF s, of v "PtrTy u"] v(1) 2 a(1) by auto
    have em: "emits s s1" "emits s1 s'" using a by (blast intro: emits_intros)+
    have F1: "grows s1 F" using grows_trans [OF emits_grows [OF in_fun_fresh [OF goesD [OF g1(1)]] em(2)] F] .
    from load_computes [OF a(1) F1 v(1,2) k(1)]
    have 1: "computes F s \<rho> m a (PtrV ob' k) s1 m" .
    have "computes F s \<rho> m p (PtrV ob' j) s' m"
      using 1
    proof (rule computes_then)
      show "next_id s \<le> next_id s1" using growsD(1) [OF emits_grows [OF in_fun_fresh [OF s] em(1)]] .
      fix \<rho>1 assume \<rho>1: "moves F s \<rho> m s1 \<rho>1 m" "value_of \<rho>1 a = Some (PtrV ob' k)"
      have "value_of \<rho>1 i = Some (IntV w)" using agree_value [OF moves_agree [OF \<rho>1(1)] in_fun_fresh [OF s] i(1)] i(2) by simp
      from gep_step_sim [OF a(2) F \<rho>1(2) this, of m]
      show "computes F s1 \<rho>1 m p (PtrV ob' j) s' m" using k(3) by simp
    qed
    then show ?thesis
      using gep_step_gives [OF goesD [OF g1(1)] g1(2) goes_type [OF g1(1) i(1)] num] a(2) goes_trans [OF g1(1)] k(2) by auto
  next
    case 3
    then have b: "build (create_gep v [const_int 0, i]) s = Inr (p, s')" using p by (simp add: is_scalar_def)
    have "u' = u" "ob' = ob" "j = sint w" using e 3 by (auto simp: element_def)
    then show ?thesis
      using gep_array_gives [OF s _ i(1) num, of v n] v(1) 3 gep_array_sim [OF b F v(2) i(2), of m] b by simp
  qed
qed

lemma element_access_sim:
  assumes p: "element_access v et lval i s = Inr s'" and F: "grows s' F" and s: "in_fun r E s"
    and v: "has_type s v (PtrTy et)" "value_of \<rho> v = Some (PtrV ob 0)" and i: "has_type s i INT32_T" "value_of \<rho> i = Some (IntV w)"
    and u: "index_ty et = Some u" and e: "element et ob (sint w) m = Some (u', ob', j)"
    and y: "if lval then y = PtrV ob' j else load u ob' j m = Some y"
  shows "u' = u \<and> computes F s \<rho> m (tmp_val s') y s' m"
proof -
  obtain p1 s1 where q: "(if is_scalar et then build (create_gep v [i]) s
      else if is_pointer_type et
      then bnd (build (create_load v) s) (\<lambda>(a, s). build (create_gep a [i]) s)
      else build (create_gep v [const_int 0, i]) s) = Inr (p1, s1)"
    "(if lval then Inr (s1\<lparr>tmp_val := p1\<rparr>) else to_tmp (build (create_load p1) s1)) = Inr s'"
    using p by (auto simp: element_access_def)
  have num: "num_ty u" using u by (cases et) (auto split: if_splits)
  have acc: "element_access v et True i s = Inr (s1\<lparr>tmp_val := p1\<rparr>)"
    using q(1) by (simp add: element_access_def)
  have g1: "goes r E s s1" "has_type s1 p1 (PtrTy u)"
    using element_access_gives [OF s v(1) i(1) u, of True] acc by simp_all
  have past: "past s s1"
    using past.element_access [OF acc] past_refl [OF in_fun_fresh [OF s]] by simp
  have "s' = s1\<lparr>tmp_val := p1\<rparr> \<or> (\<exists>z s2. build (create_load p1) s1 = Inr (z, s2) \<and> s' = s2\<lparr>tmp_val := z\<rparr>)"
    using q(2) by (auto simp: to_tmp_Inr split: if_splits)
  then have F1: "grows s1 F"
    using F grows_trans [OF emits_grows [OF in_fun_fresh [OF goesD [OF g1(1)]] build_emits2(1)]] by auto
  note a = element_address_sim [OF q(1) F1 s v i u e]
  show ?thesis
  proof (cases lval)
    case True
    then show ?thesis using a y q(2) by (auto simp: computes_def)
  next
    case False
    then obtain z s2 where z: "build (create_load p1) s1 = Inr (z, s2)" "s' = s2\<lparr>tmp_val := z\<rparr>"
      using q(2) by (auto simp: to_tmp_Inr)
    have F2: "grows s2 F" using F z(2) by simp
    have c: "computes F s \<rho> m p1 (PtrV ob' j) s1 m" "u' = u" using a by simp_all
    have "computes F s \<rho> m z y s2 m"
      using c(1) growsD(1) [OF pastD(2) [OF past]]
    proof (rule computes_then)
      fix \<rho>1 assume \<rho>1: "value_of \<rho>1 p1 = Some (PtrV ob' j)"
      show "computes F s1 \<rho>1 m z y s2 m"
        by (rule load_computes [OF z(1) F2 g1(2) \<rho>1]) (use y False c(2) in simp)
    qed
    then show ?thesis using c(2) z(2) by (auto simp: computes_def)
  qed
qed

lemma var_value_sim:
  assumes p: "var_value v et False s = Inr s'" and F: "grows s' F" and s: "in_fun r E s"
    and v: "has_type s v (PtrTy et)" "value_of \<rho> v = Some (PtrV ob 0)" and t: "value_ty et = Some t" and y: "fetch et ob m = Some y"
  shows "computes F s \<rho> m (tmp_val s') y s' m \<and> has_ty y t"
proof (cases "is_array_type et")
  case True
  then obtain u n where et: "et = ArrTy u n" by (cases et) auto
  then obtain z s1 where z: "build (create_gep v [const_int 0, const_int 0]) s = Inr (z, s1)" "s' = s1\<lparr>tmp_val := z\<rparr>"
    using p by (auto simp: var_value_def is_scalar_def to_tmp_Inr)
  have "grows s1 F" "value_of \<rho> (const_int 0) = Some (IntV 0)" using F z(2) by (simp_all add: const_int_def)
  from gep_array_sim [OF z(1) this(1) v(2) this(2), of m] show ?thesis
    using y t et z(2) by (auto simp: computes_def fetch_def split: if_splits)
next
  case False
  then have et: "et = t" "held_ty t" using t by (cases et; auto split: if_splits)+
  have f: "fetch et ob m = load et ob 0 m" using False by (cases et) (simp_all add: fetch_def)
  have "is_scalar et \<or> is_pointer_type et" using et by (cases t) (auto simp: is_scalar_def num_ty_def)
  then obtain z s1 where z: "build (create_load v) s = Inr (z, s1)" "s' = s1\<lparr>tmp_val := z\<rparr>"
    using p by (auto simp: var_value_def to_tmp_Inr)
  have F1: "grows s1 F" using F z(2) by simp
  have l: "load et ob 0 m = Some y" using y f by simp
  from load_computes [OF z(1) F1 v l] show ?thesis
    using load_type [OF l] et z(2) by (auto simp: computes_def)
qed

section \<open>Expressions\<close>

text \<open>What is proved of each kind of expression.\<close>

definition sims :: "cg \<Rightarrow> (nat \<Rightarrow> nat \<times> ty) \<Rightarrow> (cg \<Rightarrow> cg res) \<Rightarrow> (tenv \<Rightarrow> ty option) \<Rightarrow> (denv \<Rightarrow> mem \<Rightarrow> rv run) \<Rightarrow> bool" where
  "sims F fid m ty_of ev \<longleftrightarrow> visits m ty_of \<and> (\<forall>s s'. fresh_ok s \<longrightarrow> m s = Inr s' \<longrightarrow> past s s') \<and>
     (\<forall>r D s s' t \<rho> \<mu> res. ty_of (tenv_of D) = Some t \<longrightarrow> ready_at fid r D s \<rho> \<longrightarrow> \<not> require_lvalue s \<longrightarrow> m s = Inr s' \<longrightarrow>
        grows s' F \<longrightarrow> ev D \<mu> = Some res \<longrightarrow>
        leads F s \<rho> \<mu> s' res (\<lambda>x \<rho>'. value_of \<rho>' (tmp_val s') = Some x \<and> has_ty x t))"

lemma leads_moves:
  "leads F s \<rho> m s' r P \<Longrightarrow> (\<And>x \<rho>'. agree s \<rho> \<rho>' \<Longrightarrow> P x \<rho>' \<Longrightarrow> Q x \<rho>') \<Longrightarrow> leads F s \<rho> m s' r Q"
  by (auto simp: leads_def moves_def split: sum.splits)

lemma simsE:
  assumes "sims F fid m ty_of ev" and "ty_of (tenv_of D) = Some t" and "ready_at fid r D s \<rho>" and "\<not> require_lvalue s"
    and "m s = Inr s'"
  obtains "goes r (tenv_of D) s s'" "past s s'" "\<not> require_lvalue s'" "has_type s' (tmp_val s') t"
    "\<And>\<mu> res. grows s' F \<Longrightarrow> ev D \<mu> = Some res \<Longrightarrow>
       leads F s \<rho> \<mu> s' res (\<lambda>x \<rho>'. holds s' \<rho>' (tmp_val s') x t \<and> ready_at fid r D s' \<rho>')"
proof -
  have i: "in_fun r (tenv_of D) s" using assms(3) by (simp add: ready_at_def)
  have v: "visits m ty_of" using assms(1) by (simp add: sims_def)
  have g: "goes r (tenv_of D) s s'" "has_type s' (tmp_val s') t" "\<not> require_lvalue s'"
    using visitsE [OF v assms(2) i assms(4)] assms(5) by (metis sum.inject(2))+
  have "past s s'" using assms(1,5) in_fun_fresh [OF i] by (auto simp: sims_def)
  moreover have "leads F s \<rho> \<mu> s' res (\<lambda>x \<rho>'. holds s' \<rho>' (tmp_val s') x t \<and> ready_at fid r D s' \<rho>')"
    if "grows s' F" "ev D \<mu> = Some res" for \<mu> res
  proof (rule leads_moves)
    show "leads F s \<rho> \<mu> s' res (\<lambda>x \<rho>'. value_of \<rho>' (tmp_val s') = Some x \<and> has_ty x t)"
      using assms that unfolding sims_def by blast
    show "holds s' \<rho>' (tmp_val s') x t \<and> ready_at fid r D s' \<rho>'"
      if "agree s \<rho> \<rho>'" "value_of \<rho>' (tmp_val s') = Some x \<and> has_ty x t" for x \<rho>'
      using that ready_step [OF assms(3) g(1)] g(2) by (simp add: holds_def)
  qed
  ultimately show thesis using that g by blast
qed

text \<open>The value of a single step after others.\<close>

lemma computes_leads: "computes F s \<rho> m v x s' m' \<Longrightarrow> has_ty x t \<Longrightarrow>
    leads F s \<rho> m s' (Inr (x, m')) (\<lambda>x \<rho>'. value_of \<rho>' v = Some x \<and> has_ty x t)"
  by (auto simp: computes_def)

lemma simsI:
  assumes "visits m ty_of" and "\<And>s s'. fresh_ok s \<Longrightarrow> m s = Inr s' \<Longrightarrow> past s s'"
    and "\<And>r D s s' t \<rho> \<mu> res. ty_of (tenv_of D) = Some t \<Longrightarrow> ready_at fid r D s \<rho> \<Longrightarrow> \<not> require_lvalue s \<Longrightarrow> m s = Inr s' \<Longrightarrow>
        grows s' F \<Longrightarrow> ev D \<mu> = Some res \<Longrightarrow>
        leads F s \<rho> \<mu> s' res (\<lambda>x \<rho>'. value_of \<rho>' (tmp_val s') = Some x \<and> has_ty x t)"
  shows "sims F fid m ty_of ev"
  using assms unfolding sims_def by blast

text \<open>Two operands, then a step on their values.\<close>

lemma sims_two:
  assumes 1: "sims F fid m1 ty1 ev1" and 2: "sims F fid m2 ty2 ev2"
    and t: "ty1 (tenv_of D) = Some t1" "ty2 (tenv_of D) = Some t2" and s: "ready_at fid r D s \<rho>" "\<not> require_lvalue s"
    and m: "m1 s = Inr s1" "m2 s1 = Inr s2" and F: "grows s2 F"
    and e: "seq (ev1 D \<mu>) (\<lambda>x \<mu>. seq (ev2 D \<mu>) (\<lambda>y \<mu>. partial (g x y) (\<lambda>z. ret z \<mu>))) = Some res"
    and k: "\<And>x y z \<rho>2 \<mu>2. in_fun r (tenv_of D) s2 \<Longrightarrow> holds s2 \<rho>2 (tmp_val s1) x t1 \<Longrightarrow> holds s2 \<rho>2 (tmp_val s2) y t2 \<Longrightarrow>
        g x y = Some z \<Longrightarrow> computes F s2 \<rho>2 \<mu>2 (tmp_val s') z s' \<mu>2 \<and> has_ty z t"
  shows "leads F s \<rho> \<mu> s' res (\<lambda>x \<rho>'. value_of \<rho>' (tmp_val s') = Some x \<and> has_ty x t)"
  using 1 t(1) s m(1)
proof (rule simsE)
  let ?E = "tenv_of D"
  assume a: "goes r ?E s s1" "past s s1" "\<not> require_lvalue s1"
    "\<And>\<mu> res. grows s1 F \<Longrightarrow> ev1 D \<mu> = Some res \<Longrightarrow>
       leads F s \<rho> \<mu> s1 res (\<lambda>x \<rho>'. holds s1 \<rho>' (tmp_val s1) x t1 \<and> ready_at fid r D s1 \<rho>')"
  have i1: "in_fun r ?E s1" using goesD [OF a(1)] .
  have p2: "past s1 s2" using 2 m(2) in_fun_fresh [OF i1] by (auto simp: sims_def)
  have F1: "grows s1 F" using grows_trans [OF pastD(2) [OF p2] F] .
  show ?thesis
    using e a(4) [OF F1] growsD(1) [OF pastD(2) [OF a(2)]]
  proof (rule leads_seq)
    fix x \<mu>1 \<rho>1
    assume x: "holds s1 \<rho>1 (tmp_val s1) x t1 \<and> ready_at fid r D s1 \<rho>1"
      and e2: "seq (ev2 D \<mu>1) (\<lambda>y \<mu>. partial (g x y) (\<lambda>z. ret z \<mu>)) = Some res"
    from x have "ready_at fid r D s1 \<rho>1" by simp
    from 2 t(2) this a(3) m(2)
    show "leads F s1 \<rho>1 \<mu>1 s' res (\<lambda>x \<rho>'. value_of \<rho>' (tmp_val s') = Some x \<and> has_ty x t)"
    proof (rule simsE)
      assume b: "goes r ?E s1 s2" 
        "\<And>\<mu> res. grows s2 F \<Longrightarrow> ev2 D \<mu> = Some res \<Longrightarrow>
          leads F s1 \<rho>1 \<mu> s2 res (\<lambda>x \<rho>'. holds s2 \<rho>' (tmp_val s2) x t2 \<and> ready_at fid r D s2 \<rho>')"
      show ?thesis
        using e2 b(2) [OF F] growsD(1) [OF pastD(2) [OF p2]]
      proof (rule leads_seq)
        fix y \<mu>2 \<rho>2
        assume y: "moves F s1 \<rho>1 \<mu>1 s2 \<rho>2 \<mu>2" "holds s2 \<rho>2 (tmp_val s2) y t2 \<and> ready_at fid r D s2 \<rho>2"
          and z: "partial (g x y) (\<lambda>z. ret z \<mu>2) = Some res"
        then obtain z where z: "g x y = Some z" "res = Inr (z, \<mu>2)" by (auto simp: partial_Some)
        have "holds s2 \<rho>2 (tmp_val s1) x t1"
          using holds_step [OF _ b(1) moves_agree [OF y(1)] i1] x by blast
        then show "leads F s2 \<rho>2 \<mu>2 s' res (\<lambda>x \<rho>'. value_of \<rho>' (tmp_val s') = Some x \<and> has_ty x t)"
          using k [OF goesD [OF b(1)] _ _ z(1)] y(2) computes_leads z(2) by blast
      qed
    qed
  qed
qed

lemma seq_assoc: "seq (seq r f) g = seq r (\<lambda>x m. seq (f x m) g)"
  by (auto simp: seq_def split: option.splits sum.splits)

lemma seq_partial: "seq (partial x f) g = partial x (\<lambda>y. seq (f y) g)"
  by (cases x) simp_all

abbreviation plain :: "float32 \<Rightarrow> bool" where
  "plain x \<equiv> x \<noteq> 2 ^ 31"

text \<open>The index of an element, before the element is reached.\<close>

lemma index_sim:
  assumes e: "sims F fid (visit_expression e) (\<lambda>E. infer_expression E e) (\<lambda>D. eval_expression ValueFirst cf D e)"
    and t: "infer_expression (tenv_of D) e = Some it" "num_ty it"
    and h: "lookup (tenv_of D) ''neg_idx_except'' = Some (FunTy VoidTy [])"
    and s: "ready_at fid r D s \<rho>" "\<not> require_lvalue s" and m: "visit_expression e s = Inr s1" "index_check (tmp_val s1) s1 = Inr (i, s2)"
    and F: "grows s2 F" and cs: "calls_sim F fid cf"
    and run: "seq (eval_expression ValueFirst cf D e \<mu>) (\<lambda>x m. seq (index_value cf D x m) K) = Some res"
    and k: "\<And>w \<rho>2 m2. ready_at fid r D s2 \<rho>2 \<Longrightarrow> agree s \<rho> \<rho>2 \<Longrightarrow> value_of \<rho>2 i = Some (IntV w) \<Longrightarrow> has_type s2 i INT32_T \<Longrightarrow>
      goes r (tenv_of D) s s2 \<Longrightarrow> K (sint w) m2 = Some res \<Longrightarrow> leads F s2 \<rho>2 m2 s' res Q"
  shows "leads F s \<rho> \<mu> s' res Q"
  using e t(1) s m(1)
proof (rule simsE)
  let ?E = "tenv_of D"
  assume a: "goes r ?E s s1" "past s s1" "has_type s1 (tmp_val s1) it"
    "\<And>\<mu> res. grows s1 F \<Longrightarrow> eval_expression ValueFirst cf D e \<mu> = Some res \<Longrightarrow>
       leads F s \<rho> \<mu> s1 res (\<lambda>x \<rho>'. holds s1 \<rho>' (tmp_val s1) x it \<and> ready_at fid r D s1 \<rho>')"
  note i1 = goesD [OF a(1)]
  have p2: "past s1 s2" using past_index_check [OF past_refl [OF in_fun_fresh [OF i1]] m(2)] .
  have F1: "grows s1 F" using grows_trans [OF pastD(2) [OF p2] F] .
  have g2: "goes r ?E s1 s2" "has_type s2 i INT32_T"
    using index_check_gives [OF i1 a(3) t(2) h] m(2) by simp_all
  show ?thesis
    using run a(4) [OF F1] growsD(1) [OF pastD(2) [OF a(2)]]
  proof (rule leads_seq)
    fix x m1 \<rho>1
    assume x: "moves F s \<rho> \<mu> s1 \<rho>1 m1" "holds s1 \<rho>1 (tmp_val s1) x it \<and> ready_at fid r D s1 \<rho>1"
      and run1: "seq (index_value cf D x m1) K = Some res"
    have rel: "env_rel fid \<rho>1 D s1" using x(2) by (simp add: ready_at_def)
    have h1: "holds s1 \<rho>1 (tmp_val s1) x it" using x(2) by simp
    show "leads F s1 \<rho>1 m1 s' res Q"
      using run1 index_check_sim [OF m(2) F i1 rel h1 t(2) h _ cs] growsD(1) [OF pastD(2) [OF p2]]
    proof (rule leads_seq)
      fix j m2 \<rho>2
      assume y: "moves F s1 \<rho>1 m1 s2 \<rho>2 m2" "\<exists>w. value_of \<rho>2 i = Some (IntV w) \<and> sint w = j" and run2: "K j m2 = Some res"
      then obtain w where w: "value_of \<rho>2 i = Some (IntV w)" "K (sint w) m2 = Some res" by blast
      have "agree s \<rho> \<rho>2"
        using agree_trans [OF moves_agree [OF x(1)] moves_agree [OF y(1)] growsD(1) [OF pastD(2) [OF a(2)]]] .
      moreover have "ready_at fid r D s2 \<rho>2" using ready_step [OF _ g2(1) moves_agree [OF y(1)]] x(2) by blast
      ultimately show "leads F s2 \<rho>2 m2 s' res Q" using k w g2(2) goes_trans [OF a(1) g2(1)] by blast
    qed
  qed
qed

lemma find_slot:
  assumes "ready_at fid r D s \<rho>" and "find_den D n = Some (Slot t ob)"
  shows "lookup_var n s = Inr (find (scope s) n, t, require_lvalue s, s\<lparr>require_lvalue := False\<rparr>)"
    "has_type s (find (scope s) n) (PtrTy t)" "value_of \<rho> (find (scope s) n) = Some (PtrV ob 0)"
proof -
  have i: "in_fun r (tenv_of D) s" "env_rel fid \<rho> D s" using assms(1) by (simp_all add: ready_at_def)
  show h: "has_type s (find (scope s) n) (PtrTy t)" using env_rel_find [OF i(1) assms(2)] by (simp add: den_ty_def)
  show "value_of \<rho> (find (scope s) n) = Some (PtrV ob 0)" using i(2) assms(2) by (force simp: env_rel_def)
  show "lookup_var n s = Inr (find (scope s) n, t, require_lvalue s, s\<lparr>require_lvalue := False\<rparr>)"
  proof -
    have "find (scope s) n \<noteq> VNull" using h by (auto simp: has_type_def)
    then show ?thesis using h by (simp add: lookup_var_def has_type_def)
  qed
qed

lemma slot_lookup: "lookup (tenv_of D) n = Some (PtrTy t) \<Longrightarrow> variable D n = Some (u, ob) \<Longrightarrow> find_den D n = Some (Slot t ob) \<and> u = t"
  by (auto simp: lookup_tenv variable_def den_ty_def split: option.splits den.splits)

lemma ready_flag [simp]: "ready_at fid r D (s\<lparr>require_lvalue := x\<rparr>) \<rho> = ready_at fid r D s \<rho>"
proof -
  have "scope (s\<lparr>require_lvalue := x\<rparr>) = scope s" by simp
  then have "env_rel fid \<rho> D (s\<lparr>require_lvalue := x\<rparr>) = env_rel fid \<rho> D s" by (simp only: env_rel_def)
  then show ?thesis by (simp add: ready_at_def)
qed

lemma holds_upd [simp]: "holds (s\<lparr>require_lvalue := x\<rparr>) = holds s"
  by (simp add: fun_eq_iff holds_def)

text \<open>A variable with an index, visited for its address or its value.\<close>

lemma element_sim:
  assumes e: "sims F fid (visit_expression e) (\<lambda>E. infer_expression E e) (\<lambda>D. eval_expression ValueFirst cf D e)"
    and t: "infer_var (tenv_of D) lval (VarIndex n e) = Some t" and s: "ready_at fid r D s \<rho>" "require_lvalue s = lval"
    and m: "visit_var (VarIndex n e) s = Inr s'" and F: "grows s' F" and cs: "calls_sim F fid cf"
    and run: "seq (eval_place ValueFirst cf D (VarIndex n e) \<mu>) G = Some res"
    and k: "\<And>u ob j m2 s2 i \<rho>2. G (u, ob, j) m2 = Some res \<Longrightarrow> t = (if lval then PtrTy u else u) \<Longrightarrow>
      (\<And>y. (if lval then y = PtrV ob j else load u ob j m2 = Some y) \<Longrightarrow> computes F s2 \<rho>2 m2 (tmp_val s') y s' m2) \<Longrightarrow>
      leads F s2 \<rho>2 m2 s' res Q"
  shows "leads F s \<rho> \<mu> s' res Q"
proof -
  let ?s = "s\<lparr>require_lvalue := False\<rparr>"
  obtain et it u where u: "lookup (tenv_of D) n = Some (PtrTy et)" "infer_expression (tenv_of D) e = Some it" "num_ty it"
    "lookup (tenv_of D) ''neg_idx_except'' = Some (FunTy VoidTy [])" "index_ty et = Some u"
    "t = (if lval then PtrTy u else u)"
    using t by (auto split: option.splits ty.splits if_splits)
  obtain ob where ob: "variable D n = Some (et, ob)" "find_den D n = Some (Slot et ob)"
  proof (cases "variable D n")
    case (Some x)
    obtain t' ob' where x: "x = (t', ob')" by (cases x)
    show thesis using that [of ob'] slot_lookup [OF u(1) Some [unfolded x]] Some x by simp
  qed (use run in simp)
  note l = find_slot [OF s(1) ob(2)]
  let ?v = "find (scope s) n"
  obtain s1 i s2 where q: "visit_expression e ?s = Inr s1" "index_check (tmp_val s1) s1 = Inr (i, s2)"
    "element_access ?v et lval i s2 = Inr s'"
    using m s(2) l(1) by auto
  have i2: "past s2 s'" if "fresh_ok s2" using past.element_access [OF q(3)] past_refl [OF that] by blast
  have rs: "ready_at fid r D ?s \<rho>" "\<not> require_lvalue ?s" using s(1) by simp_all
  have run': "seq (eval_expression ValueFirst cf D e \<mu>) (\<lambda>x m. seq (index_value cf D x m)
      (\<lambda>i m. seq (partial (element et ob i m) (\<lambda>p. ret p m)) G)) = Some res"
    using run by (simp add: ob(1) seq_assoc)
  have fr: "fresh_ok s2"
  proof -
    have "past ?s s1" using e q(1) in_fun_fresh rs(1) unfolding sims_def ready_at_def by blast
    then show ?thesis using past_index_check [OF _ q(2)] pastD(1) by blast
  qed
  have F2: "grows s2 F" using grows_trans [OF pastD(2) [OF i2 [OF fr]] F] .
  have "leads F ?s \<rho> \<mu> s' res Q"
  proof (rule index_sim [OF e u(2,3,4) rs q(1,2) F2 cs run'])
    fix w \<rho>2 m2
    assume a: "ready_at fid r D s2 \<rho>2" "agree ?s \<rho> \<rho>2" "value_of \<rho>2 i = Some (IntV w)" "has_type s2 i INT32_T"
      "goes r (tenv_of D) ?s s2" "seq (partial (element et ob (sint w) m2) (\<lambda>p. ret p m2)) G = Some res"
    then obtain u' ob' j where el: "element et ob (sint w) m2 = Some (u', ob', j)" "G (u', ob', j) m2 = Some res"
      by (auto simp: seq_partial partial_Some)
    have i2: "in_fun r (tenv_of D) s2" using a(1) by (simp add: ready_at_def)
    have fs: "fresh_ok ?s" using rs(1) in_fun_fresh by (auto simp: ready_at_def)
    have v2: "has_type s2 ?v (PtrTy et)" using goes_type [OF a(5)] l(2) by simp
    have "value_of \<rho>2 ?v = Some (PtrV ob 0)" using agree_value [OF a(2) fs] l(2,3) by simp
    note acc = element_access_sim [OF q(3) F i2 v2 this a(4,3) u(5) el(1)]
    have "u' = u"
    proof -
      have "num_ty u" using u(5) by (cases et) (auto split: if_splits)
      then show ?thesis using el(1) u(5) by (cases et) (auto simp: element_def split: if_splits option.splits rv.splits)
    qed
    then show "leads F s2 \<rho>2 m2 s' res Q"
      by (intro k [OF el(2)]) (use u(6) acc in auto)
  qed
  then show ?thesis by simp
qed

definition places :: "cg \<Rightarrow> (nat \<Rightarrow> nat \<times> ty) \<Rightarrow> code \<Rightarrow> avar \<Rightarrow> bool" where
  "places F fid cf v \<longleftrightarrow> (\<forall>s s'. fresh_ok s \<longrightarrow> visit_var v s = Inr s' \<longrightarrow> past s s') \<and>
     (\<forall>r D s s' t \<rho> \<mu> res. infer_var (tenv_of D) True v = Some t \<longrightarrow> ready_at fid r D s \<rho> \<longrightarrow> require_lvalue s \<longrightarrow>
        visit_var v s = Inr s' \<longrightarrow> grows s' F \<longrightarrow> eval_place ValueFirst cf D v \<mu> = Some res \<longrightarrow>
        leads F s \<rho> \<mu> s' res (\<lambda>(u, ob, i) \<rho>'. t = PtrTy u \<and> value_of \<rho>' (tmp_val s') = Some (PtrV ob i)))"

lemma past_visits:
  "fresh_ok s \<Longrightarrow> visit_expression e s = Inr s' \<Longrightarrow> lit_expression plain e \<Longrightarrow> past s s'"
  "fresh_ok s \<Longrightarrow> visit_var v s = Inr s' \<Longrightarrow> lit_var plain v \<Longrightarrow> past s s'"
  "fresh_ok s \<Longrightarrow> visit_additive a s = Inr s' \<Longrightarrow> lit_additive plain a \<Longrightarrow> past s s'"
  "fresh_ok s \<Longrightarrow> visit_term t s = Inr s' \<Longrightarrow> lit_term plain t \<Longrightarrow> past s s'"
  "fresh_ok s \<Longrightarrow> visit_factor g s = Inr s' \<Longrightarrow> lit_factor plain g \<Longrightarrow> past s s'"
  "fresh_ok s \<Longrightarrow> visit_args es ps s = Inr (vs, s') \<Longrightarrow> lit_args plain es \<Longrightarrow> past s s'"
proof -
  assume f: "fresh_ok s"
  note r = past_refl [OF f]
  show "visit_expression e s = Inr s' \<Longrightarrow> lit_expression plain e \<Longrightarrow> past s s'" using r by (blast dest: past.visits_lit(1))
  show "visit_var v s = Inr s' \<Longrightarrow> lit_var plain v \<Longrightarrow> past s s'" using r by (blast dest: past.visits_lit(2))
  show "visit_additive a s = Inr s' \<Longrightarrow> lit_additive plain a \<Longrightarrow> past s s'" using r by (blast dest: past.visits_lit(3))
  show "visit_term t s = Inr s' \<Longrightarrow> lit_term plain t \<Longrightarrow> past s s'" using r by (blast dest: past.visits_lit(4))
  show "visit_factor g s = Inr s' \<Longrightarrow> lit_factor plain g \<Longrightarrow> past s s'" using r by (blast dest: past.visits_lit(5))
  show "visit_args es ps s = Inr (vs, s') \<Longrightarrow> lit_args plain es \<Longrightarrow> past s s'" using r by (blast dest: past.visits_lit(6))
qed

lemma past_visit_var: "fresh_ok s \<Longrightarrow> lit_factor plain (FVar v) \<Longrightarrow> visit_var v s = Inr s' \<Longrightarrow> past s s'"
  using past_visits(2) by simp

lemma sims_var:
  "places F fid cf (Var n)" "sims F fid (visit_factor (FVar (Var n))) (\<lambda>E. infer_factor E (FVar (Var n))) (\<lambda>D. eval_factor ValueFirst cf D (FVar (Var n)))"
proof -
  show "places F fid cf (Var n)"
    unfolding places_def
  proof (intro conjI allI impI)
    show "past s s'" if "fresh_ok s" "visit_var (Var n) s = Inr s'" for s s'
      using past_visits(2) [OF that] by simp
    fix r D s s' t \<rho> \<mu> res
    assume a: "infer_var (tenv_of D) True (Var n) = Some t" "ready_at fid r D s \<rho>" "require_lvalue s" "visit_var (Var n) s = Inr s'"
      "eval_place ValueFirst cf D (Var n) \<mu> = Some res"
    obtain et where et: "lookup (tenv_of D) n = Some (PtrTy et)" "t = PtrTy et" using a(1) by (auto split: option.splits ty.splits)
    obtain u ob where ob: "variable D n = Some (u, ob)" "res = Inr ((u, ob, 0), \<mu>)" using a(5) by (auto simp: partial_Some)
    have sl: "find_den D n = Some (Slot et ob)" "u = et" using slot_lookup [OF et(1) ob(1)] by simp_all
    note l = find_slot [OF a(2) sl(1)]
    have "s' = s\<lparr>require_lvalue := False, tmp_val := find (scope s) n\<rparr>" using a(3,4) l(1) by (simp add: var_value_def)
    then show "leads F s \<rho> \<mu> s' res (\<lambda>(u, ob, i) \<rho>'. t = PtrTy u \<and> value_of \<rho>' (tmp_val s') = Some (PtrV ob i))"
      using l(3) ob(2) sl(2) et(2) by (auto intro: exI [of _ \<rho>])
  qed
  show "sims F fid (visit_factor (FVar (Var n))) (\<lambda>E. infer_factor E (FVar (Var n))) (\<lambda>D. eval_factor ValueFirst cf D (FVar (Var n)))"
  proof (rule simsI)
    show "visits (visit_factor (FVar (Var n))) (\<lambda>E. infer_factor E (FVar (Var n)))" using visits_all by blast
    show "past s s'" if "fresh_ok s" "visit_factor (FVar (Var n)) s = Inr s'" for s s'
      using past_visits(5) [OF that] by simp
    fix r D s s' t \<rho> \<mu> res
    assume a: "infer_factor (tenv_of D) (FVar (Var n)) = Some t" "ready_at fid r D s \<rho>" "\<not> require_lvalue s"
      "visit_factor (FVar (Var n)) s = Inr s'" "grows s' F" "eval_factor ValueFirst cf D (FVar (Var n)) \<mu> = Some res"
    obtain et where et: "lookup (tenv_of D) n = Some (PtrTy et)" "value_ty et = Some t" using a(1) by (auto split: option.splits ty.splits)
    obtain u ob y where ob: "variable D n = Some (u, ob)" "fetch u ob \<mu> = Some y" "res = Inr (y, \<mu>)" using a(6) by (auto simp: partial_Some)
    have sl: "find_den D n = Some (Slot et ob)" "u = et" using slot_lookup [OF et(1) ob(1)] by simp_all
    note l = find_slot [OF a(2) sl(1)]
    have "var_value (find (scope s) n) et False s = Inr s'" using a(3,4) l(1) flag_id [OF a(3)] by simp
    moreover have "in_fun r (tenv_of D) s" using a(2) by (simp add: ready_at_def)
    moreover have "fetch et ob \<mu> = Some y" using ob(2) sl(2) by simp
    ultimately have "computes F s \<rho> \<mu> (tmp_val s') y s' \<mu> \<and> has_ty y t"
      using var_value_sim [OF _ a(5) _ l(2,3) et(2)] by blast
    then show "leads F s \<rho> \<mu> s' res (\<lambda>x \<rho>'. value_of \<rho>' (tmp_val s') = Some x \<and> has_ty x t)"
      unfolding ob(3) using computes_leads by blast
  qed
qed

lemma sims_index:
  assumes e: "sims F fid (visit_expression e) (\<lambda>E. infer_expression E e) (\<lambda>D. eval_expression ValueFirst cf D e)"
    and cs: "calls_sim F fid cf" and lit: "lit_expression plain e"
  shows "places F fid cf (VarIndex n e)"
    "sims F fid (visit_factor (FVar (VarIndex n e))) (\<lambda>E. infer_factor E (FVar (VarIndex n e))) (\<lambda>D. eval_factor ValueFirst cf D (FVar (VarIndex n e)))"
proof -
  show "places F fid cf (VarIndex n e)"
    unfolding places_def
  proof (intro conjI allI impI)
    show "past s s'" if "fresh_ok s" "visit_var (VarIndex n e) s = Inr s'" for s s'
      using past_visits(2) [OF that] lit by simp
    fix r D s s' t \<rho> \<mu> res
    assume a: "infer_var (tenv_of D) True (VarIndex n e) = Some t" "ready_at fid r D s \<rho>" "require_lvalue s"
      "visit_var (VarIndex n e) s = Inr s'" "grows s' F" "eval_place ValueFirst cf D (VarIndex n e) \<mu> = Some res"
    have lv: "require_lvalue s = True" using a(3) by simp
    have "seq (eval_place ValueFirst cf D (VarIndex n e) \<mu>) ret = Some res"
      using a(6) by (auto simp: seq_def ret_def split: sum.splits)
    then show "leads F s \<rho> \<mu> s' res (\<lambda>(u, ob, i) \<rho>'. t = PtrTy u \<and> value_of \<rho>' (tmp_val s') = Some (PtrV ob i))"
      by (rule element_sim [OF e a(1,2) lv a(4,5) cs]) (auto simp: computes_def)
  qed
  show "sims F fid (visit_factor (FVar (VarIndex n e))) (\<lambda>E. infer_factor E (FVar (VarIndex n e))) (\<lambda>D. eval_factor ValueFirst cf D (FVar (VarIndex n e)))"
  proof (rule simsI)
    show "visits (visit_factor (FVar (VarIndex n e))) (\<lambda>E. infer_factor E (FVar (VarIndex n e)))" using visits_all by blast
    show "past s s'" if "fresh_ok s" "visit_factor (FVar (VarIndex n e)) s = Inr s'" for s s'
      using past_visits(5) [OF that] lit by simp
    fix r D s s' t \<rho> \<mu> res
    assume a: "infer_factor (tenv_of D) (FVar (VarIndex n e)) = Some t" "ready_at fid r D s \<rho>" "\<not> require_lvalue s"
      "visit_factor (FVar (VarIndex n e)) s = Inr s'" "grows s' F" "eval_factor ValueFirst cf D (FVar (VarIndex n e)) \<mu> = Some res"
    have lv: "require_lvalue s = False" "infer_var (tenv_of D) False (VarIndex n e) = Some t" "visit_var (VarIndex n e) s = Inr s'"
      using a(1,3,4) by simp_all
    have "seq (eval_place ValueFirst cf D (VarIndex n e) \<mu>) (\<lambda>(t, ob, i) m. partial (load t ob i m) (\<lambda>v. ret v m)) = Some res"
      using a(6) by simp
    then show "leads F s \<rho> \<mu> s' res (\<lambda>x \<rho>'. value_of \<rho>' (tmp_val s') = Some x \<and> has_ty x t)"
    proof (rule element_sim [OF e lv(2) a(2) lv(1,3) a(5) cs])
      fix u ob j m2 s2 i \<rho>2
      assume k: "(case (u, ob, j) of (t, ob, i) \<Rightarrow> \<lambda>m. partial (load t ob i m) (\<lambda>v. ret v m)) m2 = Some res"
        "t = (if False then PtrTy u else u)"
        "\<And>y. (if False then y = PtrV ob j else load u ob j m2 = Some y) \<Longrightarrow> computes F s2 \<rho>2 m2 (tmp_val s') y s' m2"
      then obtain y where y: "load u ob j m2 = Some y" "res = Inr (y, m2)" by (auto simp: partial_Some)
      have "computes F s2 \<rho>2 m2 (tmp_val s') y s' m2" using k(3) y(1) by simp
      moreover have "has_ty y t" using load_type [OF y(1)] k(2) by simp
      ultimately show "leads F s2 \<rho>2 m2 s' res (\<lambda>x \<rho>'. value_of \<rho>' (tmp_val s') = Some x \<and> has_ty x t)"
        unfolding y(2) by (rule computes_leads)
    qed
  qed
qed

end
