(* ===== verification/Simulation_Visits.thy ===== *)
theory Simulation_Visits
  imports Simulation_Expressions
begin

text \<open>
  Every kind of expression: the code that its visit emits computes what the source computes, by
  induction over the syntax.
\<close>

abbreviation sims_expr :: "cg \<Rightarrow> (nat \<Rightarrow> nat \<times> ty) \<Rightarrow> code \<Rightarrow> expression \<Rightarrow> bool" where
  "sims_expr F fid cf e \<equiv> sims F fid (visit_expression e) (\<lambda>E. infer_expression E e) (\<lambda>D. eval_expression ValueFirst cf D e)"

abbreviation sims_add :: "cg \<Rightarrow> (nat \<Rightarrow> nat \<times> ty) \<Rightarrow> code \<Rightarrow> additive \<Rightarrow> bool" where
  "sims_add F fid cf a \<equiv> sims F fid (visit_additive a) (\<lambda>E. infer_additive E a) (\<lambda>D. eval_additive ValueFirst cf D a)"

abbreviation sims_term :: "cg \<Rightarrow> (nat \<Rightarrow> nat \<times> ty) \<Rightarrow> code \<Rightarrow> aterm \<Rightarrow> bool" where
  "sims_term F fid cf t \<equiv> sims F fid (visit_term t) (\<lambda>E. infer_term E t) (\<lambda>D. eval_term ValueFirst cf D t)"

abbreviation sims_factor :: "cg \<Rightarrow> (nat \<Rightarrow> nat \<times> ty) \<Rightarrow> code \<Rightarrow> factor \<Rightarrow> bool" where
  "sims_factor F fid cf f \<equiv> sims F fid (visit_factor f) (\<lambda>E. infer_factor E f) (\<lambda>D. eval_factor ValueFirst cf D f)"

section \<open>Assignments\<close>

lemma past_flag [simp]: "past (s\<lparr>require_lvalue := x\<rparr>) = past s"
proof -
  have "exact (s\<lparr>require_lvalue := x\<rparr>) = exact s" "ilist (s\<lparr>require_lvalue := x\<rparr>) = ilist s"
    "fblocks (s\<lparr>require_lvalue := x\<rparr>) = fblocks s"
    by (simp_all add: fun_eq_iff exact_def ilist_def fblocks_def)
  then show ?thesis by (simp add: fun_eq_iff past_def)
qed

text \<open>The steps so far are in the module when the last one is.\<close>

lemma past_grows: "past s s' \<Longrightarrow> grows s' F \<Longrightarrow> grows s F"
  using grows_trans pastD(2) by blast

lemma places_past: "places F fid cf v \<Longrightarrow> visit_var v (s\<lparr>require_lvalue := True\<rparr>) = Inr s' \<Longrightarrow> fresh_ok s \<Longrightarrow> past s s'"
proof -
  assume "places F fid cf v" and m: "visit_var v (s\<lparr>require_lvalue := True\<rparr>) = Inr s'" and f: "fresh_ok s"
  then have "fresh_ok (s\<lparr>require_lvalue := True\<rparr>) \<Longrightarrow> past (s\<lparr>require_lvalue := True\<rparr>) s'" unfolding places_def by blast
  then show "past s s'" using f by (simp add: fresh_ok_def)
qed

lemma placesD:
  assumes "places F fid cf v" and "infer_var (tenv_of D) True v = Some t" and "ready_at fid r D s \<rho>" and "\<not> require_lvalue s"
    and m: "visit_var v (s\<lparr>require_lvalue := True\<rparr>) = Inr s'"
  shows "past s s'" "goes r (tenv_of D) s s'" "has_type s' (tmp_val s') t"
    "grows s' F \<Longrightarrow> eval_place ValueFirst cf D v \<mu> = Some res \<Longrightarrow>
       leads F s \<rho> \<mu> s' res (\<lambda>(u, ob, i) \<rho>'. t = PtrTy u \<and> value_of \<rho>' (tmp_val s') = Some (PtrV ob i))"
proof -
  let ?s = "s\<lparr>require_lvalue := True\<rparr>"
  have i: "in_fun r (tenv_of D) s" using assms(3) by (simp add: ready_at_def)
  show "past s s'" using places_past [OF assms(1) m in_fun_fresh [OF i]] .
  have "visits_at v" using visits_all by blast
  then have "returns (visit_var v ?s) (gives_tmp r (tenv_of D) s t)"
    using assms(2) i flag_id [OF assms(4)] visits_at_def [of v] by (auto dest!: spec [of _ "tenv_of D"] spec [of _ ?s])
  then show "goes r (tenv_of D) s s'" "has_type s' (tmp_val s') t" using m by simp_all
  have p: "ready_at fid r D ?s \<rho>" "require_lvalue ?s" using assms(3) by simp_all
  show "leads F s \<rho> \<mu> s' res (\<lambda>(u, ob, i) \<rho>'. t = PtrTy u \<and> value_of \<rho>' (tmp_val s') = Some (PtrV ob i))"
    if "grows s' F" "eval_place ValueFirst cf D v \<mu> = Some res"
    using assms(1) [unfolded places_def, THEN conjunct2, rule_format, OF assms(2) p m that] by simp
qed

lemma sims_assign:
  assumes e: "sims_expr F fid cf e" and v: "places F fid cf v" and lit: "lit_expression plain (AssignE v e)"
  shows "sims_expr F fid cf (AssignE v e)"
proof (rule simsI)
  show "visits (visit_expression (AssignE v e)) (\<lambda>E. infer_expression E (AssignE v e))" using visits_all by blast
  show "past s s'" if "fresh_ok s" "visit_expression (AssignE v e) s = Inr s'" for s s'
    using past_visits(1) [OF that lit] .
  fix r D s s' t \<rho> \<mu> res
  assume a: "infer_expression (tenv_of D) (AssignE v e) = Some t" "ready_at fid r D s \<rho>" "\<not> require_lvalue s"
    "visit_expression (AssignE v e) s = Inr s'" and F: "grows s' F" and run: "eval_expression ValueFirst cf D (AssignE v e) \<mu> = Some res"
  obtain u where u: "infer_expression (tenv_of D) e = Some u" "infer_var (tenv_of D) True v = Some (PtrTy t)" "fits u t"
    using a(1) by (auto split: option.splits ty.splits if_splits)
  obtain s1 s2 where m: "visit_expression e s = Inr s1" "visit_var v (s1\<lparr>require_lvalue := True\<rparr>) = Inr s2"
    "assign (tmp_val s1) (tmp_val s2) s2 = Inr s'"
    using a(4) by (auto simp: Let_def)
  show "leads F s \<rho> \<mu> s' res (\<lambda>x \<rho>'. value_of \<rho>' (tmp_val s') = Some x \<and> has_ty x t)"
    using e u(1) a(2,3) m(1)
  proof (rule simsE)
    assume b: "goes r (tenv_of D) s s1" "past s s1" "\<not> require_lvalue s1"
      "\<And>\<mu> res. grows s1 F \<Longrightarrow> eval_expression ValueFirst cf D e \<mu> = Some res \<Longrightarrow>
         leads F s \<rho> \<mu> s1 res (\<lambda>x \<rho>'. holds s1 \<rho>' (tmp_val s1) x u \<and> ready_at fid r D s1 \<rho>')"
    note i1 = goesD [OF b(1)]
    have p: "past s1 s2" using places_past [OF v m(2) in_fun_fresh [OF i1]] .
    have "past s2 s'" using past.assign [OF m(3)] past_refl [OF pastD(1) [OF p]] by blast
    then have F2: "grows s2 F" using past_grows F by blast
    note F1 = past_grows [OF p F2]
    show ?thesis
      using run [simplified eval_expression.simps] b(4) [OF F1] growsD(1) [OF pastD(2) [OF b(2)]]
    proof (rule leads_seq)
      fix x m1 \<rho>1
      assume x: "holds s1 \<rho>1 (tmp_val s1) x u \<and> ready_at fid r D s1 \<rho>1"
        and run1: "seq (eval_place ValueFirst cf D v m1) (\<lambda>(t, ob, i) m. partial (convert t x) (\<lambda>y. partial (store ob i y m) (\<lambda>m. ret y m))) = Some res"
      have r1: "ready_at fid r D s1 \<rho>1" using x by simp
      note pl = placesD [OF v u(2) r1 b(3) m(2)]
      show "leads F s1 \<rho>1 m1 s' res (\<lambda>x \<rho>'. value_of \<rho>' (tmp_val s') = Some x \<and> has_ty x t)"
        using run1 pl(4) [OF F2] growsD(1) [OF pastD(2) [OF pl(1)]]
      proof (rule leads_seq)
        fix q m2 \<rho>2
        assume y: "moves F s1 \<rho>1 m1 s2 \<rho>2 m2"
          "(case q of (w, ob, i) \<Rightarrow> \<lambda>\<rho>'. PtrTy t = PtrTy w \<and> value_of \<rho>' (tmp_val s2) = Some (PtrV ob i)) \<rho>2"
          "(case q of (t, ob, i) \<Rightarrow> \<lambda>m. partial (convert t x) (\<lambda>y. partial (store ob i y m) (\<lambda>m. ret y m))) m2 = Some res"
        obtain ob i where q: "q = (t, ob, i)" "value_of \<rho>2 (tmp_val s2) = Some (PtrV ob i)" using y(2) by (cases q) auto
        obtain y m3 where z: "convert t x = Some y" "store ob i y m2 = Some m3" "res = Inr (y, m3)"
          using y(3) by (auto simp: q(1) partial_Some)
        have h: "holds s2 \<rho>2 (tmp_val s1) x u" using holds_step [OF _ pl(2) moves_agree [OF y(1)] i1] x by blast
        show "leads F s2 \<rho>2 m2 s' res (\<lambda>x \<rho>'. value_of \<rho>' (tmp_val s') = Some x \<and> has_ty x t)"
          unfolding z(3)
          by (rule computes_leads [OF assign_sim [OF m(3) F goesD [OF pl(2)] h pl(3) q(2) u(3) z(1,2)] convert_type [OF z(1)]])
      qed
    qed
  qed
qed


section \<open>Operators\<close>

lemma sims_rel:
  assumes l: "sims_add F fid cf l" and q: "sims_add F fid cf q" and lit: "lit_expression plain (RelE l op q)"
  shows "sims_expr F fid cf (RelE l op q)"
proof (rule simsI)
  show "visits (visit_expression (RelE l op q)) (\<lambda>E. infer_expression E (RelE l op q))" using visits_all by blast
  show "past s s'" if "fresh_ok s" "visit_expression (RelE l op q) s = Inr s'" for s s'
    using past_visits(1) [OF that lit] .
  fix r D s s' t \<rho> \<mu> res
  assume a: "infer_expression (tenv_of D) (RelE l op q) = Some t" "ready_at fid r D s \<rho>" "\<not> require_lvalue s"
    "visit_expression (RelE l op q) s = Inr s'" and F: "grows s' F" and run: "eval_expression ValueFirst cf D (RelE l op q) \<mu> = Some res"
  obtain ta tb where u: "infer_additive (tenv_of D) l = Some ta" "infer_additive (tenv_of D) q = Some tb" "num_ty ta" "num_ty tb" "t = INT32_T"
    using a(1) by (auto split: option.splits if_splits)
  obtain s1 s2 where m: "visit_additive l s = Inr s1" "visit_additive q s1 = Inr s2" "compare op (tmp_val s1) (tmp_val s2) s2 = Inr s'"
    using a(4) by (auto simp: Let_def)
  have lq: "lit_additive plain l" "lit_additive plain q" using lit by simp_all
  have p: "past s s1" using past_visits(3) [OF _ m(1) lq(1)] a(2) in_fun_fresh by (auto simp: ready_at_def)
  have p: "past s1 s2" using past_visits(3) [OF pastD(1) [OF p] m(2) lq(2)] .
  have "past s2 s'" using past.compare [OF m(3)] past_refl [OF pastD(1) [OF p]] by blast
  then have F2: "grows s2 F" using past_grows F by blast
  show "leads F s \<rho> \<mu> s' res (\<lambda>x \<rho>'. value_of \<rho>' (tmp_val s') = Some x \<and> has_ty x t)"
  proof (rule sims_two [OF l q u(1,2) a(2,3) m(1,2) F2 run [simplified eval_expression.simps]])
    fix x y z \<rho>2 \<mu>2
    assume k: "in_fun r (tenv_of D) s2" "holds s2 \<rho>2 (tmp_val s1) x ta" "holds s2 \<rho>2 (tmp_val s2) y tb" "rel_values op x y = Some z"
    have "has_ty z t" using k(4) u(5) by (auto simp: rel_values_def)
    then show "computes F s2 \<rho>2 \<mu>2 (tmp_val s') z s' \<mu>2 \<and> has_ty z t"
      using compare_sim [OF m(3) F k(1,2) u(3) k(3) u(4) k(4)] by simp
  qed
qed

lemma sims_arith:
  assumes l: "sims F fid m1 ty1 ev1" and q: "sims F fid m2 ty2 ev2" and g: "op_pair g iop fop"
    and ops: "iop \<in> {Add, Sub, Mul, Sdiv}" "fop \<in> {Fadd, Fsub, Fmul, Fdiv}"
  shows "sims F fid (\<lambda>s. bnd (m1 s) (\<lambda>s. let l_val = tmp_val s in bnd (m2 s) (\<lambda>s. arith iop fop l_val (tmp_val s) s)))
    (\<lambda>E. case (ty1 E, ty2 E) of
        (Some l, Some r) \<Rightarrow> if num_ty l \<and> num_ty r then Some (join_ty l r) else None | _ \<Rightarrow> None)
    (\<lambda>D \<mu>. seq (ev1 D \<mu>) (\<lambda>x \<mu>. seq (ev2 D \<mu>) (\<lambda>y \<mu>. partial (g x y) (\<lambda>z. ret z \<mu>))))"
    (is "sims F fid ?m ?ty ?ev")
proof (rule simsI)
  have v: "visits m1 ty1" "visits m2 ty2" using l q by (simp_all add: sims_def)
  show "visits ?m ?ty" using visits_arith [OF v ops] .
  have parts: "\<exists>s1 s2. m1 s = Inr s1 \<and> m2 s1 = Inr s2 \<and> arith iop fop (tmp_val s1) (tmp_val s2) s2 = Inr s' \<and> past s s1 \<and> past s1 s2 \<and> past s2 s'"
    if a: "fresh_ok s" "?m s = Inr s'" for s s'
  proof -
    obtain s1 s2 where m: "m1 s = Inr s1" "m2 s1 = Inr s2" "arith iop fop (tmp_val s1) (tmp_val s2) s2 = Inr s'"
      using a(2) by (auto simp: Let_def)
    have p1: "past s s1" using l m(1) a(1) by (simp add: sims_def)
    have p2: "past s1 s2" using q m(2) pastD(1) [OF p1] by (simp add: sims_def)
    have "past s2 s'" using past.arith [OF m(3)] past_refl [OF pastD(1) [OF p2]] ops by auto
    with m p1 p2 show ?thesis by blast
  qed
  show "past s s'" if "fresh_ok s" "?m s = Inr s'" for s s'
  proof -
    from parts [OF that] obtain s1 s2 where "past s s1" "past s1 s2" "past s2 s'" by blast
    then show ?thesis using past_trans by blast
  qed
  fix r D s s' t \<rho> \<mu> res
  assume a: "?ty (tenv_of D) = Some t" "ready_at fid r D s \<rho>" "\<not> require_lvalue s" "?m s = Inr s'"
    and F: "grows s' F" and run: "?ev D \<mu> = Some res"
  obtain ta tb where u: "ty1 (tenv_of D) = Some ta" "ty2 (tenv_of D) = Some tb" "num_ty ta" "num_ty tb" "t = join_ty ta tb"
    using a(1) by (auto split: option.splits if_splits)
  have f: "fresh_ok s" using a(2) in_fun_fresh by (auto simp: ready_at_def)
  obtain s1 s2 where m: "m1 s = Inr s1" "m2 s1 = Inr s2" "arith iop fop (tmp_val s1) (tmp_val s2) s2 = Inr s'" "past s2 s'"
    using parts [OF f a(4)] by blast
  note F2 = past_grows [OF m(4) F]
  show "leads F s \<rho> \<mu> s' res (\<lambda>x \<rho>'. value_of \<rho>' (tmp_val s') = Some x \<and> has_ty x t)"
  proof (rule sims_two [OF l q u(1,2) a(2,3) m(1,2) F2 run])
    fix x y z \<rho>2 \<mu>2
    assume k: "in_fun r (tenv_of D) s2" "holds s2 \<rho>2 (tmp_val s1) x ta" "holds s2 \<rho>2 (tmp_val s2) y tb" "g x y = Some z"
    have "has_ty x ta" "has_ty y tb" using k(2,3) by (simp_all add: holds_def)
    from num_op_converted(2) [OF g k(4) this(1) u(3) this(2) u(4)]
    show "computes F s2 \<rho>2 \<mu>2 (tmp_val s') z s' \<mu>2 \<and> has_ty z t"
      using arith_sim [OF m(3) F k(1,2) u(3) k(3) u(4) g k(4)] u(5) by simp
  qed
qed

lemma sims_bin:
  "sims_add F fid cf a \<Longrightarrow> sims_term F fid cf t \<Longrightarrow> sims_add F fid cf (AddBin a op t)"
  "sims_term F fid cf t \<Longrightarrow> sims_factor F fid cf f \<Longrightarrow> sims_term F fid cf (TermBin t op2 f)"
proof -
  have e: "visit_additive (AddBin a op t) = (\<lambda>s. bnd (visit_additive a s) (\<lambda>s. let l_val = tmp_val s
       in bnd (visit_term t s) (\<lambda>s. arith (int_add op) (float_add op) l_val (tmp_val s) s)))"
    "(\<lambda>D. eval_additive ValueFirst cf D (AddBin a op t)) = (\<lambda>D \<mu>. seq (eval_additive ValueFirst cf D a \<mu>) (\<lambda>x \<mu>.
       seq (eval_term ValueFirst cf D t \<mu>) (\<lambda>y \<mu>. partial (add_values op x y) (\<lambda>z. ret z \<mu>))))"
    by (simp_all add: fun_eq_iff)
  show "sims_add F fid cf a \<Longrightarrow> sims_term F fid cf t \<Longrightarrow> sims_add F fid cf (AddBin a op t)"
    using sims_arith [OF _ _ op_pairs(1) opids_in] unfolding e infer_additive.simps by blast
  have e: "visit_term (TermBin t op2 f) = (\<lambda>s. bnd (visit_term t s) (\<lambda>s. let l_val = tmp_val s
       in bnd (visit_factor f s) (\<lambda>s. arith (int_mul op2) (float_mul op2) l_val (tmp_val s) s)))"
    "(\<lambda>D. eval_term ValueFirst cf D (TermBin t op2 f)) = (\<lambda>D \<mu>. seq (eval_term ValueFirst cf D t \<mu>) (\<lambda>x \<mu>.
       seq (eval_factor ValueFirst cf D f \<mu>) (\<lambda>y \<mu>. partial (mul_values op2 x y) (\<lambda>z. ret z \<mu>))))"
    by (simp_all add: fun_eq_iff)
  show "sims_term F fid cf t \<Longrightarrow> sims_factor F fid cf f \<Longrightarrow> sims_term F fid cf (TermBin t op2 f)"
    using sims_arith [OF _ _ op_pairs(2) opids_in2] unfolding e infer_term.simps by blast
qed

lemma sims_wrap:
  "sims_add F fid cf a \<Longrightarrow> sims_expr F fid cf (SimpleE a)"
  "sims_term F fid cf t \<Longrightarrow> sims_add F fid cf (AddTerm t)"
  "sims_factor F fid cf f \<Longrightarrow> sims_term F fid cf (TermFactor f)"
  "sims_expr F fid cf e \<Longrightarrow> sims_factor F fid cf (FExpr e)"
  by (simp_all add: sims_def visits_def)

lemma sims_num:
  assumes "exact F" and lit: "lit_factor plain (FNum n)"
  shows "sims_factor F fid cf (FNum n)"
proof (rule simsI)
  show "visits (visit_factor (FNum n)) (\<lambda>E. infer_factor E (FNum n))" using visits_all by blast
  show "past s s'" if "fresh_ok s" "visit_factor (FNum n) s = Inr s'" for s s'
    using past_visits(5) [OF that lit] .
  fix r D s s' t \<rho> \<mu> res
  assume a: "infer_factor (tenv_of D) (FNum n) = Some t" "visit_factor (FNum n) s = Inr s'" "grows s' F"
    "eval_factor ValueFirst cf D (FNum n) \<mu> = Some res"
  let ?x = "case n of NumInt i \<Rightarrow> IntV i | NumFloat f \<Rightarrow> FloatV f"
  have r: "res = Inr (?x, \<mu>)" "has_ty ?x t" using a(1,4) by (cases n; simp add: ret_def)+
  have "computes F s \<rho> \<mu> (tmp_val s') ?x s' \<mu>"
    using num_sim [OF _ a(3) assms] a(2) by simp
  from computes_leads [OF this r(2)]
  show "leads F s \<rho> \<mu> s' res (\<lambda>x \<rho>'. value_of \<rho>' (tmp_val s') = Some x \<and> has_ty x t)" using r(1) by simp
qed


section \<open>Calls\<close>

lemma sims_args:
  "\<lbrakk>\<And>e. e \<in> set es \<Longrightarrow> sims_expr F fid cf e; lit_args plain es; infer_args (tenv_of D) es ps; ready_at fid r D s \<rho>;
     \<not> require_lvalue s; visit_args es ps s = Inr (vs, s'); grows s' F; eval_args ValueFirst cf D es ps \<mu> = Some res\<rbrakk> \<Longrightarrow>
   leads F s \<rho> \<mu> s' res (\<lambda>xs \<rho>'. values_of \<rho>' vs = Some xs)"
proof (induction es arbitrary: ps s vs \<rho> \<mu> res)
  case (Nil ps s vs \<rho> \<mu> res)
  then have "res = Inr ([], \<mu>)" "vs = []" "s' = s" by (auto simp: ret_def)
  then show ?case by (auto intro: exI [of _ \<rho>])
next
  case (Cons e es)
  obtain u us t where ps: "ps = u # us" and t: "infer_expression (tenv_of D) e = Some t" "fits t u" "infer_args (tenv_of D) es us"
    using Cons.prems(3) by (cases ps) (auto split: option.splits)
  obtain s1 s2 ws where m: "visit_expression e s = Inr s1" "convert_arg (u # us) s1 = Inr s2" "visit_args es us s2 = Inr (ws, s')"
    "vs = tmp_val s2 # ws"
    using Cons.prems(6) ps by auto
  have lit: "lit_args plain es" using Cons.prems(2) by simp
  have sim: "sims_expr F fid cf e" using Cons.prems(1) by simp
  show ?case
    using sim t(1) Cons.prems(4,5) m(1)
  proof (rule simsE)
    assume b: "goes r (tenv_of D) s s1" "past s s1" "\<not> require_lvalue s1" "has_type s1 (tmp_val s1) t"
      "\<And>\<mu> res. grows s1 F \<Longrightarrow> eval_expression ValueFirst cf D e \<mu> = Some res \<Longrightarrow>
         leads F s \<rho> \<mu> s1 res (\<lambda>x \<rho>'. holds s1 \<rho>' (tmp_val s1) x t \<and> ready_at fid r D s1 \<rho>')"
    note i1 = goesD [OF b(1)]
    have g2: "goes r (tenv_of D) s1 s2" "has_type s2 (tmp_val s2) u" using convert_arg_gives [OF i1 b(4) t(2), of us] m(2) by simp_all
    have p: "past s1 s2" using past.convert_arg [OF m(2)] past_refl [OF pastD(1) [OF b(2)]] by blast
    have p2: "past s2 s'" using past_visits(6) [OF pastD(1) [OF p] m(3) lit] .
    note F2 = past_grows [OF p2 Cons.prems(7)]
    note F1 = past_grows [OF p F2]
    show ?thesis
      using Cons.prems(8) [unfolded ps eval_args.simps] b(5) [OF F1] growsD(1) [OF pastD(2) [OF b(2)]]
    proof (rule leads_seq)
      fix x m1 \<rho>1
      assume x: "holds s1 \<rho>1 (tmp_val s1) x t \<and> ready_at fid r D s1 \<rho>1"
        and run: "partial (convert u x) (\<lambda>y. seq (eval_args ValueFirst cf D es us m1) (\<lambda>ys m. ret (y # ys) m)) = Some res"
      obtain y where y: "convert u x = Some y" "seq (eval_args ValueFirst cf D es us m1) (\<lambda>ys m. ret (y # ys) m) = Some res"
        using run by (auto simp: partial_Some)
      obtain \<rho>2 where \<rho>2: "moves F s1 \<rho>1 m1 s2 \<rho>2 m1" "value_of \<rho>2 (tmp_val s2) = Some y"
        using convert_arg_sim [OF m(2) F2 i1 _ t(2) y(1), of \<rho>1 m1] x by (auto simp: computes_def)
      have r2: "ready_at fid r D s2 \<rho>2" using ready_step [OF _ g2(1) moves_agree [OF \<rho>2(1)]] x by blast
      have fl: "\<not> require_lvalue s2" using goes_flag [OF g2(1)] b(3) by simp
      have "leads F s2 \<rho>2 m1 s' res (\<lambda>xs \<rho>'. values_of \<rho>' vs = Some xs)"
        using y(2) Cons.IH [OF _ lit t(3) r2 fl m(3) Cons.prems(7)] growsD(1) [OF pastD(2) [OF p2]]
      proof (rule leads_seq)
        fix ys m3 \<rho>3
        assume z: "moves F s2 \<rho>2 m1 s' \<rho>3 m3" "values_of \<rho>3 ws = Some ys" "ret (y # ys) m3 = Some res"
        have "value_of \<rho>3 (tmp_val s2) = Some y" using agree_value [OF moves_agree [OF z(1)] pastD(1) [OF p] g2(2)] \<rho>2(2) by simp
        then have "values_of \<rho>3 vs = Some (y # ys)" using m(4) z(2) by simp
        moreover have "res = Inr (y # ys, m3)" using z(3) by (simp add: ret_def)
        ultimately show "leads F s' \<rho>3 m3 s' res (\<lambda>xs \<rho>'. values_of \<rho>' vs = Some xs)" by (auto intro: exI [of _ \<rho>3])
      qed (use Cons.prems(1) in auto)
      then show "leads F s1 \<rho>1 m1 s' res (\<lambda>xs \<rho>'. values_of \<rho>' vs = Some xs)"
        using leads_after [OF \<rho>2(1) growsD(1) [OF pastD(2) [OF p]]] by blast
    qed
  qed
qed

lemma sims_call:
  assumes es: "\<And>e. e \<in> set es \<Longrightarrow> sims_expr F fid cf e" and cs: "calls_sim F fid cf" and lit: "lit_factor plain (FCall n es)"
  shows "sims_factor F fid cf (FCall n es)"
proof (rule simsI)
  show "visits (visit_factor (FCall n es)) (\<lambda>E. infer_factor E (FCall n es))" using visits_all by blast
  show "past s s'" if "fresh_ok s" "visit_factor (FCall n es) s = Inr s'" for s s'
    using past_visits(5) [OF that lit] .
  fix r D s s' t \<rho> \<mu> res
  assume a: "infer_factor (tenv_of D) (FCall n es) = Some t" "ready_at fid r D s \<rho>" "\<not> require_lvalue s"
    "visit_factor (FCall n es) s = Inr s'" and F: "grows s' F" and run: "eval_factor ValueFirst cf D (FCall n es) \<mu> = Some res"
  obtain ps where p: "lookup (tenv_of D) n = Some (FunTy t ps)" "infer_args (tenv_of D) es ps"
    using a(1) by (auto split: option.splits ty.splits if_splits)
  have i: "in_fun r (tenv_of D) s" "env_rel fid \<rho> D s" using a(2) by (simp_all add: ready_at_def)
  obtain k where k: "find_den D n = Some (Code k (FunTy t ps))" "find (scope s) n = VFun (fst (fid k))" "snd (fid k) = FunTy t ps"
    using env_rel_code [OF i(2) p(1)] by blast
  have "has_type s (VFun (fst (fid k))) (FunTy t ps)" using env_rel_find [OF i(1) k(1)] k(2) by (simp add: den_ty_def)
  then have l: "lookup_fun n s = Inr (VFun (fst (fid k)), ps)"
    using k(2) by (simp add: lookup_fun_def has_type_def del: get_type.simps)
  obtain vs s1 v s2 where m: "visit_args es ps s = Inr (vs, s1)" "build (create_call (VFun (fst (fid k))) vs) s1 = Inr (v, s2)"
    "s' = s2\<lparr>tmp_val := v\<rparr>"
    using a(4) l by (auto simp: to_tmp_Inr)
  have les: "lit_args plain es" using lit by simp
  have p1: "past s s1" using past_visits(6) [OF in_fun_fresh [OF i(1)] m(1) les] .
  have F2: "grows s2 F" using F m(3) by simp
  have "emits s1 s2" using m(2) by (blast intro: emits_intros)
  then have F1: "grows s1 F" using grows_trans [OF emits_grows [OF pastD(1) [OF p1]] F2] by blast
  obtain ct where ct: "build (mk_instr ct Call NoData (VFun (fst (fid k)) # vs)) s1 = Inr (v, s2)"
    using create_call_Inr [OF m(2)] by blast
  have "seq (eval_args ValueFirst cf D es ps \<mu>) (\<lambda>xs m. cf k xs m) = Some res" using run k(1) by (simp add: callee_def)
  then show "leads F s \<rho> \<mu> s' res (\<lambda>x \<rho>'. value_of \<rho>' (tmp_val s') = Some x \<and> has_ty x t)"
    using sims_args [OF es les p(2) a(2,3) m(1) F1] growsD(1) [OF pastD(2) [OF p1]]
  proof (rule leads_seq)
    fix xs m1 \<rho>1
    assume x: "values_of \<rho>1 vs = Some xs" "cf k xs m1 = Some res"
    have c: "calls F (fst (fid k)) xs m1 res" "res = Inr (y, m') \<Longrightarrow> has_ty y t" for y m'
      using cs x(2) k(3) unfolding calls_sim_def by blast+
    show "leads F s1 \<rho>1 m1 s' res (\<lambda>x \<rho>'. value_of \<rho>' (tmp_val s') = Some x \<and> has_ty x t)"
    proof (cases res)
      case (Inl m')
      then show ?thesis using call_exits [OF ct F2 x(1)] c(1) by simp
    next
      case (Inr q)
      obtain y m' where q: "res = Inr (y, m')" using Inr by (cases q) simp
      have "computes F s1 \<rho>1 m1 v y s2 m'" using call_moves [OF ct F2 x(1)] c(1) q by simp
      then show ?thesis using c(2) [OF q] m(3) q by (auto simp: computes_def)
    qed
  qed
qed

section \<open>All expressions\<close>

lemma lit_args_set: "lit_args P es \<Longrightarrow> e \<in> set es \<Longrightarrow> lit_expression P e"
  by (induction es) auto

lemma sims_all:
  assumes cs: "calls_sim F fid cf" and F: "exact F"
  shows "lit_expression plain e \<Longrightarrow> sims_expr F fid cf e"
    "lit_var plain v \<Longrightarrow> places F fid cf v \<and> sims_factor F fid cf (FVar v)"
    "lit_additive plain a \<Longrightarrow> sims_add F fid cf a"
    "lit_term plain t \<Longrightarrow> sims_term F fid cf t"
    "lit_factor plain f \<Longrightarrow> sims_factor F fid cf f"
proof (induction e and v and a and t and f)
  case (FCall n es)
  have "sims_expr F fid cf e" if "e \<in> set es" for e using FCall that lit_args_set by auto
  then show ?case using sims_call [OF _ cs FCall(2)] by blast
next
  case (AssignE v e)
  then have "lit_var plain v" "lit_expression plain e" by simp_all
  then show ?case using AssignE sims_assign by blast
next
  case (RelE l op q)
  then have "lit_additive plain l" "lit_additive plain q" by simp_all
  then show ?case using RelE sims_rel by blast
next
  case (AddBin a op t)
  then have "lit_additive plain a" "lit_term plain t" by simp_all
  then show ?case using AddBin sims_bin(1) by blast
next
  case (TermBin t op f)
  then have "lit_term plain t" "lit_factor plain f" by simp_all
  then show ?case using TermBin sims_bin(2) by blast
next
  case (VarIndex n e)
  then have "lit_expression plain e" by simp
  then show ?case using VarIndex sims_index [OF _ cs] by blast
next
  case (SimpleE a)
  then have "lit_additive plain a" by simp
  then show ?case using SimpleE sims_wrap(1) by blast
next
  case (AddTerm t)
  then have "lit_term plain t" by simp
  then show ?case using AddTerm sims_wrap(2) by blast
next
  case (TermFactor f)
  then have "lit_factor plain f" by simp
  then show ?case using TermFactor sims_wrap(3) by blast
next
  case (FExpr e)
  then have "lit_expression plain e" by simp
  then show ?case using FExpr sims_wrap(4) by blast
next
  case (FVar v)
  then have "lit_var plain v" by simp
  then show ?case using FVar by blast
next
  case (Var n)
  show ?case using sims_var by blast
next
  case (FNum n)
  then show ?case using sims_num [OF F] by blast
qed

end
