(* ===== verification/Simulation_Statements.thy ===== *)
theory Simulation_Statements
  imports Simulation_Visits
begin

text \<open>
  The simulation for statements: declarations of variables, then every kind of statement by
  induction over the syntax and, for loops, over the bound of their rounds.
\<close>

section \<open>How the execution of a statement ends\<close>

text \<open>From \<open>c\<close>, with the registers \<open>\<rho>\<close>, it exits, returns, or gets to \<open>d\<close> with the registers known to \<open>s\<close>
  as they were; only in the last case \<open>q\<close> holds of the code generator.\<close>

definition ends :: "cg \<Rightarrow> cg \<Rightarrow> regs \<Rightarrow> conf \<Rightarrow> (regs \<Rightarrow> mem \<Rightarrow> conf) \<Rightarrow> bool \<Rightarrow> ty \<Rightarrow> mem + flow \<times> mem \<Rightarrow> bool" where
  "ends F s \<rho> c d q r res \<longleftrightarrow> (case res of
     Inl m' \<Rightarrow> reach F c (Exited m')
   | Inr (Normal, m') \<Rightarrow> q \<and> (\<exists>\<rho>'. reach F c (d \<rho>' m') \<and> agree s \<rho> \<rho>')
   | Inr (Returned v, m') \<Rightarrow> \<exists>b i \<rho>'. reach F c (At b i \<rho>' m') \<and> returned F b i \<rho>' = Some v \<and> has_ty v r)"

lemma ends_simps [simp]:
  "ends F s \<rho> c d q r (Inl m') \<longleftrightarrow> reach F c (Exited m')"
  "ends F s \<rho> c d q r (Inr (Normal, m')) \<longleftrightarrow> q \<and> (\<exists>\<rho>'. reach F c (d \<rho>' m') \<and> agree s \<rho> \<rho>')"
  "ends F s \<rho> c d q r (Inr (Returned v, m')) \<longleftrightarrow>
     (\<exists>b i \<rho>'. reach F c (At b i \<rho>' m') \<and> returned F b i \<rho>' = Some v \<and> has_ty v r)"
  by (simp_all add: ends_def)

lemma res_cases:
  fixes res :: "mem + flow \<times> mem"
  obtains m where "res = Inl m" | m where "res = Inr (Normal, m)" | v m where "res = Inr (Returned v, m)"
proof (cases res)
  case (Inr q)
  obtain fl m where q: "q = (fl, m)" by (cases q)
  show thesis using that Inr q by (cases fl) simp_all
qed (rule that(1))

lemma ends_after:
  assumes "reach F c c1" and "agree s \<rho> \<rho>1" and "next_id s \<le> next_id s1" and "ends F s1 \<rho>1 c1 d q r res"
  shows "ends F s \<rho> c d q r res"
  using assms(4) by (cases res rule: res_cases) (use assms(1-3) in \<open>auto intro: reach_trans agree_trans\<close>)

lemma ends_weaken: "ends F s1 \<rho> c d q' r res \<Longrightarrow> next_id s \<le> next_id s1 \<Longrightarrow> q \<Longrightarrow> ends F s \<rho> c d q r res"
  by (cases res rule: res_cases) (auto intro: agree_trans [OF agree_refl])

text \<open>An expression, then the rest.\<close>

lemma ends_seq:
  assumes "seq e k = Some res" and "\<And>r1. e = Some r1 \<Longrightarrow> leads F s \<rho> m s1 r1 P"
    and "\<And>x m1 \<rho>1. moves F s \<rho> m s1 \<rho>1 m1 \<Longrightarrow> P x \<rho>1 \<Longrightarrow> k x m1 = Some res \<Longrightarrow> ends F s \<rho> (here s \<rho> m) d q r res"
  shows "ends F s \<rho> (here s \<rho> m) d q r res"
  using assms(1)
proof (cases rule: seqE)
  case (1 m')
  then show ?thesis using assms(2) by fastforce
next
  case (2 x m1)
  then obtain \<rho>1 where "moves F s \<rho> m s1 \<rho>1 m1" "P x \<rho>1" using assms(2) by fastforce
  then show ?thesis using assms(3) 2 by blast
qed

text \<open>A statement, then the rest unless it returned.\<close>

lemma ends_then:
  assumes "seq e (\<lambda>fl m. case fl of Normal \<Rightarrow> k m | Returned v \<Rightarrow> ret (Returned v) m) = Some res"
    and "\<And>r1. e = Some r1 \<Longrightarrow> ends F s \<rho> c d1 q1 r r1" and "next_id s \<le> next_id s1"
    and "\<And>m1 \<rho>1. q1 \<Longrightarrow> reach F c (d1 \<rho>1 m1) \<Longrightarrow> agree s \<rho> \<rho>1 \<Longrightarrow> k m1 = Some res \<Longrightarrow> ends F s1 \<rho>1 (d1 \<rho>1 m1) d q r res"
  shows "ends F s \<rho> c d q r res"
  using assms(1)
proof (cases rule: seqE)
  case (1 m')
  then show ?thesis using assms(2) by fastforce
next
  case (2 fl m1)
  show ?thesis
  proof (cases fl)
    case Normal
    then obtain \<rho>1 where "q1" "reach F c (d1 \<rho>1 m1)" "agree s \<rho> \<rho>1" using assms(2) 2 by fastforce
    then show ?thesis using ends_after assms(3,4) 2 Normal by auto
  next
    case (Returned v)
    then have "res = Inr (Returned v, m1)" using 2 by (simp add: ret_def)
    then show ?thesis using assms(2) [OF 2(1)] Returned by simp
  qed
qed

section \<open>Declarations\<close>

lemma tenv_bind: "tenv_of (bind_den n d D) = bind n (den_ty d) (tenv_of D)"
  by (cases D) (auto simp: tenv_of_def fun_eq_iff dom_def)

lemma tenv_Cons [simp]: "tenv_of (m # D) = (\<lambda>n. map_option den_ty (m n)) # tenv_of D" "tenv_of [] = []"
  "tenv_of D = [] \<longleftrightarrow> D = []"
  by (simp_all add: tenv_of_def)

lemma tenv_enter: "tenv_of (Map.empty # D) = Map.empty # tenv_of D"
  by (simp add: fun_eq_iff)

lemma bind_den_Nil [simp]: "bind_den n d D = [] \<longleftrightarrow> D = []"
  by (cases D; simp)

text \<open>The names of the source's environment in the symbol table.\<close>

definition named_by :: "(string \<Rightarrow> den \<Rightarrow> val \<Rightarrow> bool) \<Rightarrow> denv \<Rightarrow> scope \<Rightarrow> bool" where
  "named_by Q D sc \<longleftrightarrow> (\<forall>n d. find_den D n = Some d \<longrightarrow> Q n d (find sc n))"

lemma named_by_bind:
  assumes "env_ok (tenv_of D) s" and "D \<noteq> []" and "named_by Q D (scope s)" and "declare_name n v s = Inr s'" and "Q n d v"
  shows "named_by Q (bind_den n d D) (scope s')"
proof -
  obtain m D' where D: "D = m # D'" using assms(2) by (cases D) auto
  obtain k sc where sc: "scope s = k # sc" "dom k = dom m"
    using assms(1) unfolding D by (auto simp: env_ok_def list_all2_Cons1 dom_def)
  have s': "scope s' = (if n \<in> dom k then k else k(n \<mapsto> v)) # sc"
    using assms(4) sc(1) by (cases "n \<in> dom k") (auto simp: declare_name_def)
  show ?thesis
    unfolding named_by_def
  proof (intro allI impI)
    fix j e assume e: "find_den (bind_den n d D) j = Some e"
    show "Q j e (find (scope s') j)"
    proof (cases "j = n \<and> n \<notin> dom m")
      case True
      then show ?thesis using e sc(2) assms(5) by (simp add: D s')
    next
      case False
      then have "find_den D j = Some e" "find (scope s') j = find (scope s) j"
        using e sc by (auto simp: D s' split: if_splits)
      then show ?thesis using assms(3) by (simp add: named_by_def)
    qed
  qed
qed

lemma env_rel_named: "env_rel fid \<rho> D s \<longleftrightarrow> named_by (\<lambda>n d v. case d of
     Slot t ob \<Rightarrow> value_of \<rho> v = Some (PtrV ob 0) | Code k t \<Rightarrow> v = VFun (fst (fid k)) \<and> snd (fid k) = t) D (scope s)"
  by (simp add: env_rel_def named_by_def)

lemmas env_rel_bind = named_by_bind [where Q = "\<lambda>n d v. case d of
     Slot t ob \<Rightarrow> value_of \<rho> v = Some (PtrV ob 0) | Code k t \<Rightarrow> v = VFun (fst (fid k)) \<and> snd (fid k) = t" for \<rho> fid,
   folded env_rel_named]

lemma ready_env: "ready_at fid r D s \<rho> \<Longrightarrow> env_ok (tenv_of D) s"
  by (simp add: ready_at_def in_fun_def sound_def)

lemma declare_sim:
  assumes s: "ready_at fid r D s \<rho>" and D: "D \<noteq> []" and m: "declare_name n v s = Inr s'" and v: "realises s v (den_ty d)"
    and d: "case d of Slot t ob \<Rightarrow> value_of \<rho> v = Some (PtrV ob 0) | Code k t \<Rightarrow> v = VFun (fst (fid k)) \<and> snd (fid k) = t"
  shows "ready_at fid r (bind_den n d D) s' \<rho>"
proof -
  have i: "in_fun r (tenv_of D) s" "env_rel fid \<rho> D s" using s by (simp_all add: ready_at_def)
  have "in_fun r (bind n (den_ty d) (tenv_of D)) s'"
    using declare_name_in_fun [OF i(1) _ v, of n] m D by simp
  moreover have "env_rel fid \<rho> (bind_den n d D) s'"
    using env_rel_bind [OF ready_env [OF s] D i(2) m d] .
  ultimately show ?thesis by (simp add: ready_at_def tenv_bind)
qed

lemma decl_parts:
  assumes "visit_var_decl d s = Inr s'" and "\<not> in_global (scope s)"
  obtains v s1 where "build (create_alloca (decl_ty d)) s = Inr (v, s1)" "declare_name (vd_id d) v s1 = Inr s'"
proof -
  have "(case vd_num d of None \<Rightarrow> element_type (vd_type d) | Some n \<Rightarrow> ArrTy (element_type (vd_type d)) (unat n)) = decl_ty d"
    by (simp add: decl_ty_def element_number split: option.splits)
  then show thesis using that assms by (auto simp: visit_var_decl_def Let_def)
qed

lemma alloc_vars_tenv: "alloc_vars ds (D, m) = (D', m') \<Longrightarrow> tenv_of D' = bind_vars ds (tenv_of D)"
  by (induction ds arbitrary: D m) (auto simp: alloc_var_def tenv_bind den_ty_def split: prod.splits)

lemma var_decls_sim:
  "\<lbrakk>visit_var_decls ds s = Inr s'; ready_at fid r D s \<rho>; D \<noteq> []; \<not> in_global (scope s); grows s' F; alloc_vars ds (D, m) = (D', m')\<rbrakk> \<Longrightarrow>
     \<exists>\<rho>'. moves F s \<rho> m s' \<rho>' m' \<and> ready_at fid r D' s' \<rho>'"
proof (induction ds arbitrary: s D \<rho> m)
  case (Nil s D \<rho> m)
  then show ?case by (auto intro: exI [of _ \<rho>])
next
  case (Cons d ds)
  obtain s1 where s1: "visit_var_decl d s = Inr s1" "visit_var_decls ds s1 = Inr s'" using Cons.prems(1) by auto
  obtain v s0 where v: "build (create_alloca (decl_ty d)) s = Inr (v, s0)" "declare_name (vd_id d) v s0 = Inr s1"
    using s1(1) Cons.prems(4) by (rule decl_parts)
  obtain ob m1 where ob: "alloc (decl_ty d) None m = (ob, m1)" by (cases "alloc (decl_ty d) None m")
  have i: "in_fun r (tenv_of D) s" using Cons.prems(2) by (simp add: ready_at_def)
  have g: "goes r (tenv_of D) s s0" "has_type s0 v (PtrTy (decl_ty d))" using alloca_gives [OF i, of "decl_ty d"] v(1) by simp_all
  have p0: "past s s0" using past_emits [OF past_refl [OF in_fun_fresh [OF i]] build_emits(8) [OF v(1)]] .
  have "past s1 s'" using past.var_decls [OF s1(2) past_refl] past.declare_name [OF p0 v(2)] pastD(1) by blast
  note F1 = past_grows [OF this Cons.prems(5)]
  have "past s0 s1" using past.declare_name [OF past_refl [OF pastD(1) [OF p0]] v(2)] .
  note F0 = past_grows [OF this F1]
  obtain \<rho>0 where \<rho>0: "moves F s \<rho> m s0 \<rho>0 m1" "value_of \<rho>0 v = Some (PtrV ob 0)"
    using alloca_computes [OF v(1) F0 ob] by (auto simp: computes_def)
  have "ready_at fid r D s0 \<rho>0" using ready_step [OF Cons.prems(2) g(1) moves_agree [OF \<rho>0(1)]] .
  from declare_sim [OF this Cons.prems(3) v(2), of "Slot (decl_ty d) ob"]
  have r1: "ready_at fid r (bind_den (vd_id d) (Slot (decl_ty d) ob) D) s1 \<rho>0" using g(2) \<rho>0(2) by (simp add: den_ty_def)
  have "\<not> in_global (scope s1)"
    using visit_var_decl_declared [OF s1(1)] Cons.prems(4) by (simp add: declared_def in_global_def)
  moreover have "alloc_vars ds (bind_den (vd_id d) (Slot (decl_ty d) ob) D, m1) = (D', m')"
    using Cons.prems(6) ob by (simp add: alloc_var_def)
  ultimately obtain \<rho>' where \<rho>': "moves F s1 \<rho>0 m1 s' \<rho>' m'" "ready_at fid r D' s' \<rho>'"
    using Cons.IH [OF s1(2) r1 _ _ Cons.prems(5)] Cons.prems(3) by auto
  obtain sc where "s1 = s0\<lparr>scope := sc\<rparr>" using v(2) by (auto simp: declare_name_Inr)
  then have "moves F s0 \<rho>0 m1 s' \<rho>' m'" using \<rho>'(1) by simp
  then show ?case using moves_trans [OF \<rho>0(1) _ growsD(1) [OF pastD(2) [OF p0]]] \<rho>'(2) by blast
qed


section \<open>Statements\<close>

definition runs_sim :: "cg \<Rightarrow> (nat \<Rightarrow> nat \<times> ty) \<Rightarrow> (cg \<Rightarrow> cg res) \<Rightarrow> (ty \<Rightarrow> tenv \<Rightarrow> bool) \<Rightarrow> (ty \<Rightarrow> denv \<Rightarrow> mem \<Rightarrow> flow run) \<Rightarrow> bool" where
  "runs_sim F fid m ok ex \<longleftrightarrow> (\<forall>r D s s' \<rho> \<mu> res. ok r (tenv_of D) \<longrightarrow> ready_at fid r D s \<rho> \<longrightarrow> D \<noteq> [] \<longrightarrow> idle s \<longrightarrow> opened s \<longrightarrow>
     m s = Inr s' \<longrightarrow> grows s' F \<longrightarrow> ex r D \<mu> = Some res \<longrightarrow> ends F s \<rho> (here s \<rho> \<mu>) (here s') (opened s') r res)"

lemma runs_simI:
  assumes "\<And>r D s s' \<rho> \<mu> res. ok r (tenv_of D) \<Longrightarrow> ready_at fid r D s \<rho> \<Longrightarrow> D \<noteq> [] \<Longrightarrow> idle s \<Longrightarrow> opened s \<Longrightarrow>
     m s = Inr s' \<Longrightarrow> grows s' F \<Longrightarrow> ex r D \<mu> = Some res \<Longrightarrow> ends F s \<rho> (here s \<rho> \<mu>) (here s') (opened s') r res"
  shows "runs_sim F fid m ok ex"
  using assms unfolding runs_sim_def by blast

lemma runs_simD:
  assumes "runs_sim F fid m ok ex" and "ok r (tenv_of D)" and "ready_at fid r D s \<rho>" and "D \<noteq> []" and "idle s" and "opened s"
    and "m s = Inr s'" and "grows s' F" and "ex r D \<mu> = Some res"
  shows "ends F s \<rho> (here s \<rho> \<mu>) (here s') (opened s') r res"
  using assms unfolding runs_sim_def by blast

lemma ready_in: "ready_at fid r D s \<rho> \<Longrightarrow> in_fun r (tenv_of D) s"
  by (simp add: ready_at_def)

lemma opened_terminated: "opened s \<Longrightarrow> terminated s = Inr t \<Longrightarrow> \<not> t"
  by (auto simp: opened_def terminated_def get_terminator_view)

lemma opened_new_block:
  assumes "opened s" and "new_block n s = Inr (b, s')"
  shows "opened s'"
proof -
  have f: "fresh_ok s" using assms(1) by (simp add: opened_def)
  note k = new_block_facts [OF f assms(2)]
  have "instrs s' = instrs s" using assms(2) by (auto simp: new_block_def BasicBlock_create_def Let_def)
  then show ?thesis using assms(1) k(1-5) by (auto simp: opened_def is_term_def op_of_def)
qed

text \<open>A new block is empty until it becomes the insertion point.\<close>

lemma new_block_stays:
  assumes "in_fun r E s" and "new_block n s = Inr (b, s1)" and "past s1 s'"
  shows "ilist s' b = []" "next_id s \<le> b" "b < next_id s'"
proof -
  note k = new_block_facts [OF in_fun_fresh [OF assms(1)] assms(2)]
  obtain c where c: "insert_bb s = Some c" "c < next_id s" using in_fun_bb [OF assms(1)] by blast
  then show "ilist s' b = []" using past_ilist [OF assms(3), of b] k by simp
  show "next_id s \<le> b" "b < next_id s'" using k(1,2) growsD(1) [OF pastD(2) [OF assms(3)]] by simp_all
qed

lemma visited_past:
  "visit_statement st s = Inr s' \<Longrightarrow> lit_statement plain st \<Longrightarrow> fresh_ok s \<Longrightarrow> past s s'"
  "visit_statements ss s = Inr s' \<Longrightarrow> lit_statements plain ss \<Longrightarrow> fresh_ok s \<Longrightarrow> past s s'"
  using past.visits_statement(1) [OF _ past_refl] past.visits_statement(2) [OF _ past_refl] by blast+

lemma open_branch:
  assumes "opened s" and "br_if_open j s = Inr s'" and "grows s' F"
  shows "reach F (here s \<rho> m) (At j 0 \<rho> m)"
  using opened_terminated [OF assms(1)] assms(2,3)
  by (cases "terminated s") (auto simp: br_if_open_def intro: br_reach split: if_splits)

text \<open>A branch, from its block to the block where it jumps.\<close>

lemma branch_sim:
  assumes sim: "runs_sim F fid m ok ex" "ok r (tenv_of D)" and s: "ready_at fid r D s \<rho>" "D \<noteq> []" "idle s"
    and a: "ilist s a = []" "a < next_id s" "target s a"
    and m: "m (set_insert_point a s) = Inr s1" "br_if_open j s1 = Inr s2" "grows s2 F" "past (set_insert_point a s) s1"
    and ex: "ex r D \<mu> = Some res"
  shows "ends F s \<rho> (At a 0 \<rho> \<mu>) (At j 0) True r res"
proof -
  let ?s = "set_insert_point a s"
  have g: "goes r (tenv_of D) s ?s" using target_insert [OF ready_in [OF s(1)] a(3)] .
  have r: "ready_at fid r D ?s \<rho>" using ready_step [OF s(1) g agree_refl] .
  have "opened ?s" using opened_insert [OF in_fun_fresh [OF ready_in [OF s(1)]] a(2,1)] .
  moreover have "idle ?s" using goes_idle [OF g] s(3) by simp
  moreover have "grows s1 F" using past_grows [OF past.br_if_open [OF past_refl [OF pastD(1) [OF m(4)]] m(2)] m(3)] .
  ultimately have "ends F ?s \<rho> (here ?s \<rho> \<mu>) (here s1) (opened s1) r res"
    using runs_simD [OF sim r s(2)] m(1) ex by blast
  then have e: "ends F s \<rho> (At a 0 \<rho> \<mu>) (here s1) (opened s1) r res"
    unfolding here_empty [OF a(1)] ends_def agree_upd .
  show ?thesis
  proof (cases res rule: res_cases)
    case (2 m')
    then show ?thesis using e open_branch [OF _ m(2,3)] by (fastforce intro: reach_trans)
  qed (use e in simp_all)
qed

text \<open>The head of a selection or a loop.\<close>

lemma head_sim:
  assumes cs: "calls_sim F fid cf" "exact F" and n: "numeric (tenv_of D) e" "lit_expression plain e" and s: "ready_at fid r D s \<rho>" "idle s"
    and m: "visit_expression e s = Inr s1" "new_block '''' s1 = Inr (a, s2)" "new_block '''' s2 = Inr (b, s3)"
      "condition (tmp_val s1) s3 = Inr (cv, s4)" and F: "grows s4 F"
    and run: "seq (eval_expression ValueFirst cf D e \<mu>) (\<lambda>x m. partial (truth x) (\<lambda>t. K t m)) = Some res"
    and k: "\<And>t \<rho>4 m4. ready_at fid r D s4 \<rho>4 \<Longrightarrow> agree s \<rho> \<rho>4 \<Longrightarrow> value_of \<rho>4 cv = Some (BoolV t) \<Longrightarrow> K t m4 = Some res \<Longrightarrow>
      ends F s \<rho>4 (here s4 \<rho>4 m4) d q rt res"
  shows "ends F s \<rho> (here s \<rho> \<mu>) d q rt res"
proof -
  obtain t where t: "infer_expression (tenv_of D) e = Some t" "num_ty t"
    using n(1) by (auto simp: numeric_def split: option.splits)
  have fl: "\<not> require_lvalue s" using s(2) by (simp add: idle_def)
  show ?thesis
    using sims_all(1) [OF cs n(2)] t(1) s(1) fl m(1)
  proof (rule simsE)
    assume p: "goes r (tenv_of D) s s1" "past s s1" "has_type s1 (tmp_val s1) t"
      "\<And>\<mu> res. grows s1 F \<Longrightarrow> eval_expression ValueFirst cf D e \<mu> = Some res \<Longrightarrow>
         leads F s \<rho> \<mu> s1 res (\<lambda>x \<rho>'. holds s1 \<rho>' (tmp_val s1) x t \<and> ready_at fid r D s1 \<rho>')"
    note i1 = goesD [OF p(1)]
    have g2: "goes r (tenv_of D) s1 s2" using new_block_target [OF i1, of "''''"] m(2) by simp
    have g3: "goes r (tenv_of D) s2 s3" using new_block_target [OF goesD [OF g2], of "''''"] m(3) by simp
    note g13 = goes_trans [OF g2 g3]
    have g4: "goes r (tenv_of D) s3 s4" using condition_gives [OF goesD [OF g13] goes_type [OF g13 p(3)] t(2)] m(4) by simp
    note k2 = new_block_facts [OF in_fun_fresh [OF i1] m(2)]
    note k3 = new_block_facts [OF k2(5) m(3)]
    have p34: "past s3 s4" using past.tested [OF past_refl [OF k3(5)] m(4)] .
    have F1: "grows s1 F" using grows_trans [OF k2(6) grows_trans [OF k3(6) past_grows [OF p34 F]]] .
    show ?thesis
      using run p(4) [OF F1]
    proof (rule ends_seq)
      fix x m1 \<rho>1
      assume x: "moves F s \<rho> \<mu> s1 \<rho>1 m1" "holds s1 \<rho>1 (tmp_val s1) x t \<and> ready_at fid r D s1 \<rho>1"
        and run1: "partial (truth x) (\<lambda>t. K t m1) = Some res"
      obtain u where u: "truth x = Some u" "K u m1 = Some res" using run1 by (auto simp: partial_Some)
      have h: "holds s3 \<rho>1 (tmp_val s1) x t" using holds_step [OF _ g13 agree_refl i1] x(2) by blast
      obtain \<rho>4 where \<rho>4: "moves F s3 \<rho>1 m1 s4 \<rho>4 m1" "value_of \<rho>4 cv = Some (BoolV u)"
        using condition_sim [OF m(4) F cs(2) goesD [OF g13] h u(1)] by (auto simp: computes_def)
      have ag: "agree s \<rho> \<rho>4"
        using agree_trans [OF moves_agree [OF x(1)] moves_agree [OF \<rho>4(1)]] growsD(1) [OF pastD(2) [OF p(2)]]
          growsD(1) [OF k2(6)] growsD(1) [OF k3(6)] by simp
      have "ready_at fid r D s4 \<rho>4"
        using ready_step [OF ready_step [OF _ g13 agree_refl] g4 moves_agree [OF \<rho>4(1)]] x(2) by blast
      from k [OF this ag \<rho>4(2) u(2)]
      have "ends F s \<rho>4 (here s4 \<rho>4 m1) d q rt res" .
      moreover have "reach F (here s \<rho> \<mu>) (here s4 \<rho>4 m1)"
        using x(1) \<rho>4(1) k2(7) k3(7) by (auto simp: moves_def intro: reach_trans)
      ultimately show "ends F s \<rho> (here s \<rho> \<mu>) d q rt res" using ends_after [OF _ ag order_refl] by blast
    qed
  qed
qed

lemma head_past:
  assumes n: "lit_expression plain e" and s: "in_fun r E s" "numeric E e" "idle s"
    and m: "visit_expression e s = Inr s1" "new_block '''' s1 = Inr (a, s2)" "new_block '''' s2 = Inr (b, s3)"
      "condition (tmp_val s1) s3 = Inr (cv, s4)"
  obtains "past s s1" "past s1 s2" "past s2 s3" "past s3 s4" "in_fun r E s1" "in_fun r E s2" "goes r E s s4" "target s4 a" "target s4 b"
    "a < b" "has_type s4 cv INT1_T"
proof -
  obtain s1' a' s2' b' s3' cv' s4' where h: "visit_expression e s = Inr s1'" "new_block '''' s1' = Inr (a', s2')"
    "new_block '''' s2' = Inr (b', s3')" "condition (tmp_val s1') s3' = Inr (cv', s4')" "goes r E s s4'"
    "target s4' a'" "target s4' b'" "has_type s4' cv' INT1_T"
    using s(2,1,3) by (rule head_goes)
  have e: "s1' = s1" using h(1) m(1) by simp
  have e: "a' = a" "s2' = s2" "s1' = s1" using h(2) m(2) e by simp_all
  have e: "b' = b" "s3' = s3" "a' = a" "s2' = s2" "s1' = s1" using h(3) m(3) e by simp_all
  have e: "cv' = cv" "s4' = s4" "b' = b" "s3' = s3" "a' = a" "s2' = s2" "s1' = s1" using h(4) m(4) e by simp_all
  have p1: "past s s1" using past_visits(1) [OF in_fun_fresh [OF s(1)] m(1) n] .
  have p2: "past s1 s2" using past_new_block [OF past_refl [OF pastD(1) [OF p1]] m(2)] by blast
  have p3: "past s2 s3" using past_new_block [OF past_refl [OF pastD(1) [OF p2]] m(3)] by blast
  have p4: "past s3 s4" using past.tested [OF past_refl [OF pastD(1) [OF p3]] m(4)] .
  obtain t where t: "infer_expression E e = Some t" using s(2) by (auto simp: numeric_def split: option.splits)
  have i1: "in_fun r E s1" using t s(1,3) by (rule visit_expressionE) (use m(1) goesD in auto)
  have i2: "in_fun r E s2" using new_block_target [OF i1, of "''''"] m(2) goesD by auto
  have "a < b" using new_block_facts(1,2) [OF pastD(1) [OF p1] m(2)] new_block_facts(1) [OF pastD(1) [OF p2] m(3)] by simp
  then show thesis using that p1 p2 p3 p4 i1 i2 h(5-8) e by simp
qed


section \<open>Selections and loops\<close>

abbreviation sims_stmt :: "cg \<Rightarrow> (nat \<Rightarrow> nat \<times> ty) \<Rightarrow> code \<Rightarrow> nat \<Rightarrow> statement \<Rightarrow> bool" where
  "sims_stmt F fid cf n st \<equiv> runs_sim F fid (visit_statement st) (\<lambda>r E. check_statement r E st) (\<lambda>r D. exec ValueFirst cf n r D st)"

abbreviation sims_stmts :: "cg \<Rightarrow> (nat \<Rightarrow> nat \<times> ty) \<Rightarrow> code \<Rightarrow> nat \<Rightarrow> statement list \<Rightarrow> bool" where
  "sims_stmts F fid cf n ss \<equiv> runs_sim F fid (visit_statements ss) (\<lambda>r E. check_statements r E ss) (\<lambda>r D. exec_all ValueFirst cf n r D ss)"

lemma selection_sim:
  assumes cs: "calls_sim F fid cf" "exact F" and st: "sims_stmt F fid cf n st" and lit: "lit_statement plain (Selection e st None)"
  shows "sims_stmt F fid cf n (Selection e st None)"
proof (rule runs_simI)
  fix r D s s' \<rho> \<mu> res
  assume ok: "check_statement r (tenv_of D) (Selection e st None)" and s: "ready_at fid r D s \<rho>" "D \<noteq> []" "idle s" "opened s"
    and v: "visit_statement (Selection e st None) s = Inr s'" and F: "grows s' F" and ex: "exec ValueFirst cf n r D (Selection e st None) \<mu> = Some res"
  have c: "numeric (tenv_of D) e" "check_statement r (tenv_of D) st" "lit_expression plain e" "lit_statement plain st"
    using ok lit by simp_all
  obtain s1 a s2 b s3 cv s4 s5 s6 s7 where m: "visit_expression e s = Inr s1" "new_block '''' s1 = Inr (a, s2)"
    "new_block '''' s2 = Inr (b, s3)" "condition (tmp_val s1) s3 = Inr (cv, s4)"
    "discard (build (create_cond_br cv a b) s4) = Inr s5" "visit_statement st (set_insert_point a s5) = Inr s6"
    "br_if_open b s6 = Inr s7" "s' = set_insert_point b s7"
    using v by (auto simp: Let_def)
  show "ends F s \<rho> (here s \<rho> \<mu>) (here s') (opened s') r res"
    using c(3) ready_in [OF s(1)] c(1) s(3) m(1-4)
  proof (rule head_past)
    assume p: "past s s1" "past s1 s2" "past s2 s3" "past s3 s4" "in_fun r (tenv_of D) s1" "in_fun r (tenv_of D) s2"
      "goes r (tenv_of D) s s4" "target s4 a" "target s4 b" "a < b" "has_type s4 cv INT1_T"
    have g5: "goes r (tenv_of D) s4 s5" using cond_br_goes [OF goesD [OF p(7)] p(8,9,11)] m(5) by simp
    have p35: "past s3 s5" using past_cond_br [OF p(4) m(5)] .
    note A = new_block_stays [OF p(5) m(2) past_trans [OF p(3) p35]] and B = new_block_stays [OF p(6) m(3) p35]
    let ?s = "set_insert_point a s5"
    have p6: "past ?s s6" using visited_past(1) [OF m(6) c(4)] pastD(1) [OF p35] by simp
    have p7: "past ?s s7" using past.br_if_open [OF p6 m(7)] .
    have b7: "ilist s7 b = []" "b < next_id s7"
      using past_ilist [OF p7, of b] B p(10) growsD(1) [OF pastD(2) [OF p7]] by simp_all
    have h': "here s' = At b 0" using here_empty [OF b7(1)] m(8) by (simp add: fun_eq_iff)
    have F7: "grows s7 F" using F m(8) by simp
    have F5: "grows s5 F" using past_grows [OF p7 F7] by simp
    have F4: "grows s4 F" using past_grows [OF past_cond_br [OF past_refl [OF pastD(1) [OF p(4)]] m(5)] F5] .
    have le: "next_id s \<le> next_id s5"
      using growsD(1) [OF pastD(2) [OF past_trans [OF p(1) past_trans [OF p(2) past_trans [OF p(3) p35]]]]] .
    have op: "opened s'" using opened_insert [OF pastD(1) [OF p7] b7(2,1)] m(8) by simp
    have run: "seq (eval_expression ValueFirst cf D e \<mu>) (\<lambda>x m. partial (truth x) (\<lambda>t. (if t then exec ValueFirst cf n r D st m else ret Normal m))) = Some res"
      using ex by simp
    show ?thesis
      using cs c(1,3) s(1,3) m(1-4) F4 run
    proof (rule head_sim)
      fix t \<rho>4 m4
      assume k: "ready_at fid r D s4 \<rho>4" "value_of \<rho>4 cv = Some (BoolV t)"
        "(if t then exec ValueFirst cf n r D st m4 else ret Normal m4) = Some res"
      note rb = cond_br_reach [OF m(5) F5 k(2), of m4]
      have r5: "ready_at fid r D s5 \<rho>4" using ready_step [OF k(1) g5 agree_refl] .
      have i5: "idle s5" using goes_idle [OF goes_trans [OF p(7) g5]] s(3) by simp
      have "ends F s \<rho>4 (At (if t then a else b) 0 \<rho>4 m4) (here s') (opened s') r res"
      proof (cases t)
        case True
        then have "exec ValueFirst cf n r D st m4 = Some res" using k(3) by simp
        from branch_sim [OF st c(2) r5 s(2) i5 A(1,3) goes_target [OF g5 p(8)] m(6,7) F7 p6 this]
        have "ends F s \<rho>4 (At a 0 \<rho>4 m4) (At b 0) (opened s') r res" using le op by (rule ends_weaken)
        then show ?thesis using True h' by simp
      next
        case False
        then show ?thesis using k(3) h' op by (auto simp: ret_def intro!: exI [of _ \<rho>4] calls_reach.refl)
      qed
      then show "ends F s \<rho>4 (here s4 \<rho>4 m4) (here s') (opened s') r res"
        by (rule ends_after [OF rb agree_refl order_refl])
    qed
  qed
qed


lemma selection_else_sim:
  assumes cs: "calls_sim F fid cf" "exact F" and st: "sims_stmt F fid cf n st" and el: "sims_stmt F fid cf n el"
    and lit: "lit_statement plain (Selection e st (Some el))"
  shows "sims_stmt F fid cf n (Selection e st (Some el))"
proof (rule runs_simI)
  fix r D s s' \<rho> \<mu> res
  assume ok: "check_statement r (tenv_of D) (Selection e st (Some el))" and s: "ready_at fid r D s \<rho>" "D \<noteq> []" "idle s" "opened s"
    and v: "visit_statement (Selection e st (Some el)) s = Inr s'" and F: "grows s' F"
    and ex: "exec ValueFirst cf n r D (Selection e st (Some el)) \<mu> = Some res"
  have c: "numeric (tenv_of D) e" "check_statement r (tenv_of D) st" "lit_expression plain e" "lit_statement plain st"
    "check_statement r (tenv_of D) el" "lit_statement plain el"
    using ok lit by simp_all
  obtain s1 a s2 b s3 cv s4 f sf s5 s6 s7 s8 s9 where m: "visit_expression e s = Inr s1" "new_block '''' s1 = Inr (a, s2)"
    "new_block '''' s2 = Inr (b, s3)" "condition (tmp_val s1) s3 = Inr (cv, s4)" "new_block '''' s4 = Inr (f, sf)"
    "discard (build (create_cond_br cv a f) sf) = Inr s5" "visit_statement st (set_insert_point a s5) = Inr s6"
    "br_if_open b s6 = Inr s7" "visit_statement el (set_insert_point f s7) = Inr s8" "br_if_open b s8 = Inr s9"
    "s' = set_insert_point b s9"
    using v by (auto simp: Let_def)
  show "ends F s \<rho> (here s \<rho> \<mu>) (here s') (opened s') r res"
    using c(3) ready_in [OF s(1)] c(1) s(3) m(1-4)
  proof (rule head_past)
    assume p: "past s s1" "past s1 s2" "past s2 s3" "past s3 s4" "in_fun r (tenv_of D) s1" "in_fun r (tenv_of D) s2"
      "goes r (tenv_of D) s s4" "target s4 a" "target s4 b" "a < b" "has_type s4 cv INT1_T"
    note i4 = goesD [OF p(7)]
    have nf: "goes r (tenv_of D) s4 sf" "target sf f" using new_block_target [OF i4, of "''''"] m(5) by simp_all
    have pf: "past s4 sf" using past_new_block [OF past_refl [OF pastD(1) [OF p(4)]] m(5)] by blast
    have pf5: "past sf s5" using past_cond_br [OF past_refl [OF pastD(1) [OF pf]] m(6)] .
    have g5: "goes r (tenv_of D) sf s5"
      using cond_br_goes [OF goesD [OF nf(1)] goes_target [OF nf(1) p(8)] nf(2) goes_type [OF nf(1) p(11)]] m(6) by simp
    note g45 = goes_trans [OF nf(1) g5]
    have p35: "past s3 s5" using past_trans [OF p(4) past_trans [OF pf pf5]] .
    note A = new_block_stays [OF p(5) m(2) past_trans [OF p(3) p35]] and B = new_block_stays [OF p(6) m(3) p35]
      and C = new_block_stays [OF i4 m(5) pf5]
    have ab: "b < f" using new_block_stays(3) [OF p(6) m(3) p(4)] C(2) by simp
    let ?s = "set_insert_point a s5" and ?t = "set_insert_point f s7"
    have p6: "past ?s s6" using visited_past(1) [OF m(7) c(4)] pastD(1) [OF p35] by simp
    have p7: "past ?s s7" using past.br_if_open [OF p6 m(8)] .
    have p8: "past ?t s8" using visited_past(1) [OF m(9) c(6)] pastD(1) [OF p7] by simp
    have p9: "past ?t s9" using past.br_if_open [OF p8 m(10)] .
    have n7: "next_id s5 \<le> next_id s7" using growsD(1) [OF pastD(2) [OF p7]] by simp
    have c7: "ilist s7 f = []" using past_ilist [OF p7, of f] C(1,3) p(10) ab by simp
    have b9: "ilist s9 b = []" "b < next_id s9"
      using past_ilist [OF p7, of b] past_ilist [OF p9, of b] B ab p(10) n7 growsD(1) [OF pastD(2) [OF p9]] by simp_all
    have h': "here s' = At b 0" using here_empty [OF b9(1)] m(11) by (simp add: fun_eq_iff)
    have F9: "grows s9 F" using F m(11) by simp
    have F7: "grows s7 F" using past_grows [OF p9 F9] by simp
    have F5: "grows s5 F" using past_grows [OF p7 F7] by simp
    note F4 = past_grows [OF past_trans [OF pf pf5] F5]
    have le: "next_id s \<le> next_id s5"
      using growsD(1) [OF pastD(2) [OF past_trans [OF p(1) past_trans [OF p(2) past_trans [OF p(3) p35]]]]] .
    have op: "opened s'" using opened_insert [OF pastD(1) [OF p9] b9(2,1)] m(11) by simp
    note tm = goes_target [OF g45 p(8)] goes_target [OF g45 p(9)] goes_target [OF g5 nf(2)]
    have i5: "idle s5" using goes_idle [OF goes_trans [OF p(7) g45]] s(3) by simp
    have g7: "goes r (tenv_of D) s5 s7"
      using statements_run(1) c(2) goesD [OF g45] _ i5 tm(1,2)
    proof (rule branch_goes)
      fix q1 q2 assume "visit_statement st ?s = Inr q1" "br_if_open b q1 = Inr q2" "goes r (tenv_of D) s5 q2"
      then show ?thesis using m(7,8) by simp
    qed (use s(2) in simp)
    have i7: "idle s7" using goes_idle [OF g7] i5 by simp
    have run: "seq (eval_expression ValueFirst cf D e \<mu>) (\<lambda>x m. partial (truth x) (\<lambda>t. (if t then exec ValueFirst cf n r D st m else exec ValueFirst cf n r D el m))) = Some res"
      using ex by simp
    show ?thesis
      using cs c(1,3) s(1,3) m(1-4) F4 run
    proof (rule head_sim)
      fix t \<rho>4 m4
      assume k: "ready_at fid r D s4 \<rho>4" "value_of \<rho>4 cv = Some (BoolV t)"
        "(if t then exec ValueFirst cf n r D st m4 else exec ValueFirst cf n r D el m4) = Some res"
      have rb: "reach F (here s4 \<rho>4 m4) (At (if t then a else f) 0 \<rho>4 m4)"
        using cond_br_reach [OF m(6) F5 k(2), of m4] new_block_facts(7) [OF pastD(1) [OF p(4)] m(5)] by simp
      have r5: "ready_at fid r D s5 \<rho>4" using ready_step [OF k(1) g45 agree_refl] .
      have r7: "ready_at fid r D s7 \<rho>4" using ready_step [OF r5 g7 agree_refl] .
      have "ends F s \<rho>4 (At (if t then a else f) 0 \<rho>4 m4) (here s') (opened s') r res"
      proof (cases t)
        case True
        then have "exec ValueFirst cf n r D st m4 = Some res" using k(3) by simp
        from branch_sim [OF st c(2) r5 s(2) i5 A(1,3) tm(1) m(7,8) F7 p6 this]
        have "ends F s \<rho>4 (At a 0 \<rho>4 m4) (At b 0) (opened s') r res" using le op by (rule ends_weaken)
        then show ?thesis using True h' by simp
      next
        case False
        then have "exec ValueFirst cf n r D el m4 = Some res" using k(3) by simp
        from branch_sim [OF el c(5) r7 s(2) i7 c7 order.strict_trans2 [OF C(3) n7] goes_target [OF g7 tm(3)] m(9,10) F9 p8 this]
        have "ends F s \<rho>4 (At f 0 \<rho>4 m4) (At b 0) (opened s') r res" using le n7 op by (rule ends_weaken [OF _ order_trans])
        then show ?thesis using False h' by simp
      qed
      then show "ends F s \<rho>4 (here s4 \<rho>4 m4) (here s') (opened s') r res"
        by (rule ends_after [OF rb agree_refl order_refl])
    qed
  qed
qed

lemma iteration_sim:
  assumes cs: "calls_sim F fid cf" "exact F" and st: "sims_stmt F fid cf n st" and lit: "lit_statement plain (Iteration e st)"
  shows "sims_stmt F fid cf n (Iteration e st)"
proof (rule runs_simI)
  fix r D s s' \<rho> \<mu> res
  assume ok: "check_statement r (tenv_of D) (Iteration e st)" and s: "ready_at fid r D s \<rho>" "D \<noteq> []" "idle s" "opened s"
    and v: "visit_statement (Iteration e st) s = Inr s'" and F: "grows s' F" and ex: "exec ValueFirst cf n r D (Iteration e st) \<mu> = Some res"
  have c: "numeric (tenv_of D) e" "check_statement r (tenv_of D) st" "lit_expression plain e" "lit_statement plain st"
    using ok lit by simp_all
  obtain x sx sy s1 a s2 b s3 cv s4 s5 s6 s7 where m: "visit_expression e (set_insert_point x sy) = Inr s1" "new_block '''' s1 = Inr (a, s2)"
    "new_block '''' s2 = Inr (b, s3)" "condition (tmp_val s1) s3 = Inr (cv, s4)"
    "discard (build (create_cond_br cv a b) s4) = Inr s5" "visit_statement st (set_insert_point a s5) = Inr s6"
    "br_if_open x s6 = Inr s7" "s' = set_insert_point b s7"
    and mx: "new_block '''' s = Inr (x, sx)" "br_if_open x sx = Inr sy"
    using v by (auto simp: Let_def)
  let ?x = "set_insert_point x sy"
  note ins = ready_in [OF s(1)]
  have gx: "goes r (tenv_of D) s sx" "target sx x" using new_block_target [OF ins, of "''''"] mx(1) by simp_all
  note kx = new_block_facts [OF in_fun_fresh [OF ins] mx(1)]
  have gy: "goes r (tenv_of D) sx sy" using br_if_open_goes [OF goesD [OF gx(1)] gx(2)] mx(2) by simp
  have gxx: "goes r (tenv_of D) sx ?x" using goes_trans [OF gy target_insert [OF goesD [OF gy] goes_target [OF gy gx(2)]]] .
  note gsx = goes_trans [OF gx(1) gxx]
  have pxy: "past sx sy" using past.br_if_open [OF past_refl [OF kx(5)] mx(2)] .
  note X = new_block_stays [OF ins mx(1) pxy]
  have idx: "idle ?x" using goes_idle [OF gsx] s(3) by simp
  have hx: "here ?x = At x 0" using here_empty [OF X(1)] by (simp add: fun_eq_iff)
  show "ends F s \<rho> (here s \<rho> \<mu>) (here s') (opened s') r res"
    using c(3) goesD [OF gsx] c(1) idx m(1-4)
  proof (rule head_past)
    assume p: "past ?x s1" "past s1 s2" "past s2 s3" "past s3 s4" "in_fun r (tenv_of D) s1" "in_fun r (tenv_of D) s2"
      "goes r (tenv_of D) ?x s4" "target s4 a" "target s4 b" "a < b" "has_type s4 cv INT1_T"
    have g5: "goes r (tenv_of D) s4 s5" using cond_br_goes [OF goesD [OF p(7)] p(8,9,11)] m(5) by simp
    have p35: "past s3 s5" using past_cond_br [OF p(4) m(5)] .
    note A = new_block_stays [OF p(5) m(2) past_trans [OF p(3) p35]] and B = new_block_stays [OF p(6) m(3) p35]
    let ?s = "set_insert_point a s5"
    have p6: "past ?s s6" using visited_past(1) [OF m(6) c(4)] pastD(1) [OF p35] by simp
    have p7: "past ?s s7" using past.br_if_open [OF p6 m(7)] .
    have b7: "ilist s7 b = []" "b < next_id s7"
      using past_ilist [OF p7, of b] B p(10) growsD(1) [OF pastD(2) [OF p7]] by simp_all
    have h': "here s' = At b 0" using here_empty [OF b7(1)] m(8) by (simp add: fun_eq_iff)
    have F7: "grows s7 F" using F m(8) by simp
    have F5: "grows s5 F" using past_grows [OF p7 F7] by simp
    have F4: "grows s4 F" using past_grows [OF past_cond_br [OF past_refl [OF pastD(1) [OF p(4)]] m(5)] F5] .
    note px5 = past_trans [OF p(1) past_trans [OF p(2) past_trans [OF p(3) p35]]]
    have le: "next_id ?x \<le> next_id s5" using growsD(1) [OF pastD(2) [OF px5]] .
    have op: "opened s'" using opened_insert [OF pastD(1) [OF p7] b7(2,1)] m(8) by simp
    have Fy: "grows sy F" using past_grows [OF px5 F5] by simp
    have rounds: "ends F ?x \<rho> (At x 0 \<rho> \<mu>) (At b 0) (opened s') r res"
      if "ready_at fid r D ?x \<rho>" "loop k (eval_expression ValueFirst cf D e) (exec ValueFirst cf n r D st) \<mu> = Some res" for k \<rho> \<mu> res
      using that
    proof (induction k arbitrary: \<rho> \<mu> res)
      case (Suc k)
      have run: "seq (eval_expression ValueFirst cf D e \<mu>) (\<lambda>x m. partial (truth x) (\<lambda>t. (if t then seq (exec ValueFirst cf n r D st m)
          (\<lambda>fl m. case fl of Normal \<Rightarrow> loop k (eval_expression ValueFirst cf D e) (exec ValueFirst cf n r D st) m | Returned v \<Rightarrow> ret (Returned v) m)
          else ret Normal m))) = Some res"
        using Suc.prems(2) by simp
      have "ends F ?x \<rho> (here ?x \<rho> \<mu>) (At b 0) (opened s') r res"
        using cs c(1,3) Suc.prems(1) idx m(1-4) F4 run
      proof (rule head_sim)
        fix t \<rho>4 m4
        assume k: "ready_at fid r D s4 \<rho>4" "agree ?x \<rho> \<rho>4" "value_of \<rho>4 cv = Some (BoolV t)"
          "(if t then seq (exec ValueFirst cf n r D st m4)
             (\<lambda>fl m. case fl of Normal \<Rightarrow> loop k (eval_expression ValueFirst cf D e) (exec ValueFirst cf n r D st) m | Returned v \<Rightarrow> ret (Returned v) m)
            else ret Normal m4) = Some res"
        note rb = cond_br_reach [OF m(5) F5 k(3), of m4]
        have r5: "ready_at fid r D s5 \<rho>4" using ready_step [OF k(1) g5 agree_refl] .
        have i5: "idle s5" using goes_idle [OF goes_trans [OF p(7) g5]] idx by simp
        have "ends F ?x \<rho>4 (At (if t then a else b) 0 \<rho>4 m4) (At b 0) (opened s') r res"
        proof (cases t)
          case True
          then have "seq (exec ValueFirst cf n r D st m4)
            (\<lambda>fl m. case fl of Normal \<Rightarrow> loop k (eval_expression ValueFirst cf D e) (exec ValueFirst cf n r D st) m | Returned v \<Rightarrow> ret (Returned v) m) = Some res"
            using k(4) by simp
          then have "ends F ?x \<rho>4 (At a 0 \<rho>4 m4) (At b 0) (opened s') r res"
          proof (rule ends_then [OF _ _ order_refl])
            fix r1 assume "exec ValueFirst cf n r D st m4 = Some r1"
            from branch_sim [OF st c(2) r5 s(2) i5 A(1,3) goes_target [OF g5 p(8)] m(6,7) F7 p6 this]
            show "ends F ?x \<rho>4 (At a 0 \<rho>4 m4) (At x 0) True r r1" using le TrueI by (rule ends_weaken)
          next
            fix m6 \<rho>6
            assume z: "agree ?x \<rho>4 \<rho>6" "loop k (eval_expression ValueFirst cf D e) (exec ValueFirst cf n r D st) m6 = Some res"
            have "ready_at fid r D ?x \<rho>6"
              using ready_step [OF Suc.prems(1) goes_refl [OF goesD [OF gsx]] agree_trans [OF k(2) z(1) order_refl]] .
            from Suc.IH [OF this z(2)] show "ends F ?x \<rho>6 (At x 0 \<rho>6 m6) (At b 0) (opened s') r res" .
          qed
          then show ?thesis using True by simp
        next
          case False
          then show ?thesis using k(4) op by (auto simp: ret_def intro!: exI [of _ \<rho>4] calls_reach.refl)
        qed
        then show "ends F ?x \<rho>4 (here s4 \<rho>4 m4) (At b 0) (opened s') r res"
          by (rule ends_after [OF rb agree_refl order_refl])
      qed
      then show ?case unfolding hx .
    qed simp
    have "ready_at fid r D ?x \<rho>" using ready_step [OF s(1) gsx agree_refl] .
    then have "ends F ?x \<rho> (At x 0 \<rho> \<mu>) (here s') (opened s') r res" using rounds ex unfolding h' by simp
    moreover have "reach F (here s \<rho> \<mu>) (At x 0 \<rho> \<mu>)"
      using open_branch [OF opened_new_block [OF s(4) mx(1)] mx(2) Fy, of \<rho> \<mu>] kx(7) by simp
    moreover have "next_id s \<le> next_id ?x" using X(2,3) by simp
    ultimately show ?thesis using ends_after agree_refl by blast
  qed
qed


section \<open>Returns, sequences and blocks\<close>

lemma ret_returned:
  assumes "discard (build (mk_instr VoidTy Ret d vs) s) = Inr s'" and "grows s' F"
  shows "returned F (the (insert_bb s)) (length (ilist s (the (insert_bb s)))) \<rho> =
    (case vs of [] \<Rightarrow> Some VoidV | [v] \<Rightarrow> value_of \<rho> v | _ \<Rightarrow> None)"
proof -
  obtain v where v: "build (mk_instr VoidTy Ret d vs) s = Inr (v, s')" using assms(1) by (auto simp: discard_Inr)
  note e = emitted_at [OF v assms(2)]
  obtain b where "insert_bb s = Some b"
    "instr_at F b (length (ilist s b)) = Some (next_id s, \<lparr>i_type = VoidTy, i_op = Ret, i_parent = b, i_data = d, i_name = ''''\<rparr>)"
    using e(2) by blast
  then show ?thesis by (simp add: returned_def e(3))
qed

text \<open>The value where a result of type \<open>r\<close> is expected, and the return.\<close>

lemma return_value_sim:
  assumes p: "return_value r s = Inr s'" and F: "grows s' F" and s: "in_fun r E s" and v: "holds s \<rho> (tmp_val s) x t"
    and n: "num_ty t" "num_ty r" and c: "convert r x = Some y"
  shows "\<exists>b i \<rho>'. reach F (here s \<rho> m) (At b i \<rho>' m) \<and> returned F b i \<rho>' = Some y"
proof -
  have g: "get_type s (tmp_val s) = Inr t" "value_of \<rho> (tmp_val s) = Some x" "has_ty x t"
    using v by (simp_all add: holds_def has_type_def)
  obtain s1 where s1: "(if r \<noteq> t then if is_integer_type r then to_tmp (build (create_fptosi (tmp_val s) INT32_T) s)
       else to_tmp (build (create_sitofp (tmp_val s) FloatTy) s) else Inr s) = Inr s1"
    "discard (build (create_ret (tmp_val s1)) s1) = Inr s'"
    using p g(1) by (auto simp: return_value_def)
  have "past s1 s'"
  proof -
    have "s1 = s \<or> (\<exists>w s2. emits s s2 \<and> s1 = s2\<lparr>tmp_val := w\<rparr>)"
      using s1(1) by (auto simp: to_tmp_Inr split: if_splits) (blast intro: emits_intros)+
    then have "past s s1" using past_emits [OF past_refl [OF in_fun_fresh [OF s]]] past_refl [OF in_fun_fresh [OF s]] by auto
    then show ?thesis using past_ret [OF past_refl [OF pastD(1)]] s1(2) unfolding create_ret_def by blast
  qed
  note F1 = past_grows [OF this F]
  have "computes F s \<rho> m (tmp_val s1) y s1 m"
  proof (cases "r = t")
    case True
    then have "y = x" "s1 = s" using convert_same c g(3) s1(1) by auto
    then show ?thesis using computes_refl g(2) by simp
  next
    case False
    then obtain w s2 where w: "(if t = INT32_T then build (create_sitofp (tmp_val s) FloatTy) s
        else build (create_fptosi (tmp_val s) INT32_T) s) = Inr (w, s2)" "s1 = s2\<lparr>tmp_val := w\<rparr>"
      using s1(1) n by (auto simp: to_tmp_Inr num_ty_def split: if_splits)
    then show ?thesis
      using convert_computes [OF w(1) _ v n False c, of F m] F1 by (auto simp: computes_def)
  qed
  then obtain \<rho>' where \<rho>': "moves F s \<rho> m s1 \<rho>' m" "value_of \<rho>' (tmp_val s1) = Some y" by (auto simp: computes_def)
  have "returned F (the (insert_bb s1)) (length (ilist s1 (the (insert_bb s1)))) \<rho>' = Some y"
    using ret_returned [OF s1(2) [unfolded create_ret_def] F, of \<rho>'] \<rho>'(2) by simp
  then show ?thesis using \<rho>'(1) unfolding moves_def here_def by blast
qed

lemma return_sim:
  assumes cs: "calls_sim F fid cf" "exact F" and lit: "lit_statement plain (Return (Some e))"
  shows "sims_stmt F fid cf n (Return (Some e))"
proof (rule runs_simI)
  fix r D s s' \<rho> \<mu> res
  assume ok: "check_statement r (tenv_of D) (Return (Some e))" and s: "ready_at fid r D s \<rho>" "idle s"
    and v: "visit_statement (Return (Some e)) s = Inr s'" and F: "grows s' F" and ex: "exec ValueFirst cf n r D (Return (Some e)) \<mu> = Some res"
  obtain t where t: "infer_expression (tenv_of D) e = Some t" "num_ty t" "num_ty r"
    using ok by (auto simp: numeric_def split: option.splits)
  obtain s1 where m: "visit_expression e s = Inr s1" "return_value r s1 = Inr s'"
    using v return_type_eq [OF ready_in [OF s(1)]] by auto
  have le: "lit_expression plain e" and fl: "\<not> require_lvalue s" using lit s(2) by (simp_all add: idle_def)
  show "ends F s \<rho> (here s \<rho> \<mu>) (here s') (opened s') r res"
    using sims_all(1) [OF cs le] t(1) s(1) fl m(1)
  proof (rule simsE)
    assume p: "past s s1"
      "\<And>\<mu> res. grows s1 F \<Longrightarrow> eval_expression ValueFirst cf D e \<mu> = Some res \<Longrightarrow>
         leads F s \<rho> \<mu> s1 res (\<lambda>x \<rho>'. holds s1 \<rho>' (tmp_val s1) x t \<and> ready_at fid r D s1 \<rho>')"
    have F1: "grows s1 F" using past_grows [OF past.return_value [OF past_refl [OF pastD(1) [OF p(1)]] m(2)] F] .
    show ?thesis
      using ex [simplified] p(2) [OF F1]
    proof (rule ends_seq)
      fix x m1 \<rho>1
      assume x: "moves F s \<rho> \<mu> s1 \<rho>1 m1" "holds s1 \<rho>1 (tmp_val s1) x t \<and> ready_at fid r D s1 \<rho>1"
        and run: "partial (convert r x) (\<lambda>y. ret (Returned y) m1) = Some res"
      obtain y where y: "convert r x = Some y" "res = Inr (Returned y, m1)" using run by (auto simp: partial_Some)
      obtain b i \<rho>' where "reach F (here s1 \<rho>1 m1) (At b i \<rho>' m1)" "returned F b i \<rho>' = Some y"
        using return_value_sim [OF m(2) F _ _ t(2,3) y(1)] x(2) ready_in by blast
      then show "ends F s \<rho> (here s \<rho> \<mu>) (here s') (opened s') r res"
        using x(1) convert_type [OF y(1)] y(2) unfolding moves_def by (auto intro: reach_trans)
    qed
  qed
qed

lemma simple_sims:
  assumes cs: "calls_sim F fid cf" "exact F"
  shows "sims_stmt F fid cf n (ExprStmt None)" "sims_stmt F fid cf n (Return None)" "sims_stmts F fid cf n []"
    "lit_expression plain e \<Longrightarrow> sims_stmt F fid cf n (ExprStmt (Some e))"
proof -
  show "sims_stmt F fid cf n (ExprStmt None)" "sims_stmts F fid cf n []"
    by (auto intro!: runs_simI calls_reach.refl simp: ret_def) (auto intro: calls_reach.refl agree_refl)
  show "sims_stmt F fid cf n (Return None)"
  proof (rule runs_simI)
    fix r D s s' \<rho> \<mu> res
    assume ok: "check_statement r (tenv_of D) (Return None)" and m: "visit_statement (Return None) s = Inr s'" "grows s' F"
      and ex: "exec ValueFirst cf n r D (Return None) \<mu> = Some res"
    have "returned F (the (insert_bb s)) (length (ilist s (the (insert_bb s)))) \<rho> = Some VoidV"
      using ret_returned [OF _ m(2), of NoData "[]" s \<rho>] m(1) by (simp add: create_void_ret_def)
    moreover have e: "res = Inr (Returned VoidV, \<mu>)" "r = VoidTy" using ex ok by (simp_all add: ret_def)
    ultimately show "ends F s \<rho> (here s \<rho> \<mu>) (here s') (opened s') r res"
      unfolding e ends_simps has_ty.simps here_def by (blast intro: calls_reach.refl)
  qed
  assume le: "lit_expression plain e"
  show "sims_stmt F fid cf n (ExprStmt (Some e))"
  proof (rule runs_simI)
    fix r D s s' \<rho> \<mu> res
    assume ok: "check_statement r (tenv_of D) (ExprStmt (Some e))" and s: "ready_at fid r D s \<rho>" "idle s" "opened s"
      and m: "visit_statement (ExprStmt (Some e)) s = Inr s'" "grows s' F" and ex: "exec ValueFirst cf n r D (ExprStmt (Some e)) \<mu> = Some res"
    obtain t where t: "infer_expression (tenv_of D) e = Some t" using ok by auto
    have m1: "visit_expression e s = Inr s'" and fl: "\<not> require_lvalue s" using m(1) s(2) by (simp_all add: idle_def)
    have op: "opened s'" using opened.visits(1) [OF m1] s(3) by blast
    show "ends F s \<rho> (here s \<rho> \<mu>) (here s') (opened s') r res"
      using sims_all(1) [OF cs le] t s(1) fl m1
    proof (rule simsE)
      assume p: "\<And>\<mu> res. grows s' F \<Longrightarrow> eval_expression ValueFirst cf D e \<mu> = Some res \<Longrightarrow>
         leads F s \<rho> \<mu> s' res (\<lambda>x \<rho>'. holds s' \<rho>' (tmp_val s') x t \<and> ready_at fid r D s' \<rho>')"
      show ?thesis
        using ex [simplified] p [OF m(2)] by (rule ends_seq) (auto simp: ret_def moves_def op)
    qed
  qed
qed

lemma sequence_sim:
  assumes st: "sims_stmt F fid cf n st" and ss: "sims_stmts F fid cf n ss" and lit: "lit_statements plain (st # ss)"
  shows "sims_stmts F fid cf n (st # ss)"
proof (rule runs_simI)
  fix r D s s' \<rho> \<mu> res
  assume ok: "check_statements r (tenv_of D) (st # ss)" and s: "ready_at fid r D s \<rho>" "D \<noteq> []" "idle s" "opened s"
    and v: "visit_statements (st # ss) s = Inr s'" and F: "grows s' F" and ex: "exec_all ValueFirst cf n r D (st # ss) \<mu> = Some res"
  have c: "check_statement r (tenv_of D) st" "check_statements r (tenv_of D) ss" "lit_statement plain st" "lit_statements plain ss"
    using ok lit by simp_all
  obtain s1 t where m: "visit_statement st s = Inr s1" "terminated s1 = Inr t" "if t then s' = s1 else visit_statements ss s1 = Inr s'"
    using v by (auto split: if_splits)
  have g: "goes r (tenv_of D) s s1"
    using statements_run(1) c(1) ready_in [OF s(1)] _ s(3) by (rule runsE) (use s(2) m(1) in auto)
  have p: "past s s1" using visited_past(1) [OF m(1) c(3) in_fun_fresh [OF ready_in [OF s(1)]]] .
  have F1: "grows s1 F"
    using m(3) F past_grows [OF visited_past(2) [OF _ c(4) pastD(1) [OF p]] F] by (cases t) auto
  show "ends F s \<rho> (here s \<rho> \<mu>) (here s') (opened s') r res"
    using ex [unfolded exec_all.simps] runs_simD [OF st c(1) s m(1) F1] growsD(1) [OF pastD(2) [OF p]]
  proof (rule ends_then)
    fix m1 \<rho>1
    assume o: "opened s1" and ag: "agree s \<rho> \<rho>1" and run: "exec_all ValueFirst cf n r D ss m1 = Some res"
    have "\<not> t" using opened_terminated [OF o m(2)] .
    then have "visit_statements ss s1 = Inr s'" using m(3) by simp
    then show "ends F s1 \<rho>1 (here s1 \<rho>1 m1) (here s') (opened s') r res"
      using runs_simD [OF ss c(2) ready_step [OF s(1) g ag] s(2) _ o _ F run] goes_idle [OF g] s(3) by simp
  qed
qed

text \<open>A block: its variables, then its statements.\<close>

lemma block_sim:
  assumes ss: "sims_stmts F fid cf n ss" "lit_statements plain ss" and ok: "check_statements r (bind_vars ds (tenv_of D)) ss"
    and s: "ready_at fid r D s \<rho>" "D \<noteq> []" "idle s" "opened s" "\<not> in_global (scope s)"
    and m: "visit_var_decls ds s = Inr s1" "visit_statements ss s1 = Inr s2" and F: "grows s2 F"
    and ex: "alloc_vars ds (D, \<mu>) = (D', \<mu>1)" "exec_all ValueFirst cf n r D' ss \<mu>1 = Some res"
  shows "ends F s \<rho> (here s \<rho> \<mu>) (here s2) (opened s2) r res" "past s s2"
proof -
  have p1: "past s s1" using past.var_decls [OF m(1) past_refl [OF in_fun_fresh [OF ready_in [OF s(1)]]]] .
  have p2: "past s1 s2" using visited_past(2) [OF m(2) ss(2) pastD(1) [OF p1]] .
  show "past s s2" using past_trans [OF p1 p2] .
  note F1 = past_grows [OF p2 F]
  obtain \<rho>1 where \<rho>1: "moves F s \<rho> \<mu> s1 \<rho>1 \<mu>1" "ready_at fid r D' s1 \<rho>1"
    using var_decls_sim [OF m(1) s(1,2,5) F1 ex(1)] by blast
  have t: "tenv_of D' = bind_vars ds (tenv_of D)" using alloc_vars_tenv [OF ex(1)] .
  then have ne: "D' \<noteq> []" using s(2) by (metis tenv_Cons(3) bind_vars_not_Nil)
  have "opened s1"
    using m(1) s(4,5)
  proof (induction ds s rule: visit_var_decls.induct)
    case (2 d ds s)
    obtain s0 where s0: "visit_var_decl d s = Inr s0" "visit_var_decls ds s0 = Inr s1" using 2(2) by auto
    obtain v sa where "build (create_alloca (decl_ty d)) s = Inr (v, sa)" "declare_name (vd_id d) v sa = Inr s0"
      using s0(1) 2(4) by (rule decl_parts)
    then have "opened s0" using opened_emits [OF 2(3) build_emits(8)] by (auto simp: declare_name_Inr)
    moreover have "\<not> in_global (scope s0)"
      using visit_var_decl_declared [OF s0(1)] 2(4) by (simp add: declared_def in_global_def)
    ultimately show ?case using 2(1) s0 by blast
  qed simp
  moreover have "idle s1"
  proof -
    have "require_lvalue s1 = require_lvalue s"
      using visit_var_decls_gives [OF ready_in [OF s(1)] _ s(5), of ds] m(1) s(2) by simp
    then show ?thesis using visit_var_decls_declared [OF m(1)] s(3) by (simp add: idle_def declared_def)
  qed
  moreover have "check_statements r (tenv_of D') ss" using ok t by simp
  ultimately have "ends F s1 \<rho>1 (here s1 \<rho>1 \<mu>1) (here s2) (opened s2) r res"
    using runs_simD [OF ss(1) _ \<rho>1(2) ne _ _ m(2) F ex(2)] by blast
  then show "ends F s \<rho> (here s \<rho> \<mu>) (here s2) (opened s2) r res"
    using \<rho>1(1) growsD(1) [OF pastD(2) [OF p1]] unfolding moves_def by (blast intro: ends_after)
qed

lemma enter_ready:
  assumes "ready_at fid r D s \<rho>"
  shows "ready_at fid r (Map.empty # D) (s\<lparr>scope := enter (scope s)\<rparr>) \<rho>"
proof -
  have "sound (tenv_of D) s" using ready_in [OF assms] by (simp add: in_fun_def)
  then have "sound (Map.empty # tenv_of D) (s\<lparr>scope := enter (scope s)\<rparr>)"
    unfolding sound_scope by (simp add: sound_def env_ok_def enter_def)
  then have "in_fun r (tenv_of (Map.empty # D)) (s\<lparr>scope := enter (scope s)\<rparr>)"
    using ready_in [OF assms] unfolding tenv_enter by (auto simp: in_fun_def)
  moreover have f: "find (scope (s\<lparr>scope := enter (scope s)\<rparr>)) j = find (scope s) j" "find_den (Map.empty # D) j = find_den D j" for j
    by (simp_all add: enter_def)
  have "env_rel fid \<rho> (Map.empty # D) (s\<lparr>scope := enter (scope s)\<rparr>)"
    using assms unfolding ready_at_def env_rel_def f by blast
  ultimately show ?thesis by (simp add: ready_at_def)
qed

lemma compound_sim:
  assumes ss: "sims_stmts F fid cf n ss" and lit: "lit_statement plain (Compound ds ss)"
  shows "sims_stmt F fid cf n (Compound ds ss)"
proof (rule runs_simI)
  fix r D s s' \<rho> \<mu> res
  assume ok: "check_statement r (tenv_of D) (Compound ds ss)" and s: "ready_at fid r D s \<rho>" "D \<noteq> []" "idle s" "opened s"
    and v: "visit_statement (Compound ds ss) s = Inr s'" and F: "grows s' F" and ex: "exec ValueFirst cf n r D (Compound ds ss) \<mu> = Some res"
  let ?s = "s\<lparr>scope := enter (scope s)\<rparr>" and ?D = "Map.empty # D"
  obtain s1 s2 sc where m: "visit_var_decls ds ?s = Inr s1" "visit_statements ss s1 = Inr s2" "s' = s2\<lparr>scope := sc\<rparr>"
    using v s(3) by (auto simp: compound_enter_def compound_exit_def exit_scope_def idle_def)
  have "length (scope s) = length (tenv_of D)" using env_ok_length [OF ready_env [OF s(1)]] .
  then have ng: "\<not> in_global (scope ?s)" using s(2) by (simp add: in_global_def enter_def tenv_of_def)
  obtain D' \<mu>1 where a: "alloc_vars ds (?D, \<mu>) = (D', \<mu>1)" "exec_all ValueFirst cf n r D' ss \<mu>1 = Some res"
    using ex by (auto split: prod.splits)
  have ls: "lit_statements plain ss" using lit by simp
  have ok: "check_statements r (bind_vars ds (tenv_of ?D)) ss" using ok by (simp add: tenv_enter)
  have i: "idle ?s" "opened ?s" "grows s2 F" using s(3,4) F m(3) by (simp_all add: idle_def)
  have "ends F ?s \<rho> (here ?s \<rho> \<mu>) (here s2) (opened s2) r res"
    using block_sim(1) [OF ss ls ok enter_ready [OF s(1)] _ i(1,2) ng m(1,2) i(3) a] by simp
  then show "ends F s \<rho> (here s \<rho> \<mu>) (here s') (opened s') r res"
    unfolding ends_def agree_upd here_upd m(3) opened_upd .
qed

section \<open>All statements\<close>

lemma lit_statements_set: "lit_statements P ss \<Longrightarrow> st \<in> set ss \<Longrightarrow> lit_statement P st"
  by (induction ss) auto

lemma statements_sim:
  assumes cs: "calls_sim F fid cf" "exact F"
  shows "lit_statement plain st \<Longrightarrow> sims_stmt F fid cf n st" "lit_statements plain ss \<Longrightarrow> sims_stmts F fid cf n ss"
proof -
  have *: "sims_stmts F fid cf n ss"
    if "\<And>st. st \<in> set ss \<Longrightarrow> lit_statement plain st \<Longrightarrow> sims_stmt F fid cf n st" "lit_statements plain ss" for ss
    using that
  proof (induction ss)
    case (Cons st ss)
    then have l: "lit_statement plain st" "lit_statements plain ss" by simp_all
    show ?case by (rule sequence_sim [OF _ _ Cons(3)]) (use Cons(1,2) l in auto)
  qed (rule simple_sims(3) [OF cs])
  show 1: "lit_statement plain st \<Longrightarrow> sims_stmt F fid cf n st" for st
  proof (induction st)
    case (Compound ds ss)
    then have "lit_statements plain ss" by simp
    then show ?case using compound_sim [OF * Compound(2)] Compound(1) by blast
  next
    case (ExprStmt e)
    show ?case
    proof (cases e)
      case None
      show ?thesis unfolding None by (rule simple_sims(1) [OF cs])
    next
      case (Some x)
      then have "lit_expression plain x" using ExprStmt by simp
      then show ?thesis unfolding Some by (rule simple_sims(4) [OF cs])
    qed
  next
    case (Selection e st el)
    show ?case
    proof (cases el)
      case None
      then have l: "lit_statement plain (Selection e st None)" "lit_statement plain st" using Selection(3) by simp_all
      show ?thesis unfolding None by (rule selection_sim [OF cs Selection(1) [OF l(2)] l(1)])
    next
      case (Some x)
      then have l: "lit_statement plain (Selection e st (Some x))" "lit_statement plain st" "lit_statement plain x"
        using Selection(3) by simp_all
      have "sims_stmt F fid cf n x" using Selection(2) [of x] Some l(3) by simp
      then show ?thesis unfolding Some by (rule selection_else_sim [OF cs Selection(1) [OF l(2)] _ l(1)])
    qed
  next
    case (Iteration e st)
    then have "lit_statement plain st" by simp
    then show ?case using iteration_sim [OF cs Iteration(1)] Iteration(2) by blast
  next
    case (Return e)
    then show ?case using simple_sims(2) [OF cs] return_sim [OF cs] by (cases e) blast+
  qed
  show "lit_statements plain ss \<Longrightarrow> sims_stmts F fid cf n ss"
    using * [OF 1] by blast
qed

end
