(* ===== verification/Module_Lists.thy ===== *)
theory Module_Lists
  imports Code_Growth
begin

text \<open>
  The body of a function adds neither functions nor global variables to the module: a relation
  between states that every step of a body respects holds between its ends, and the two lists of the
  module are such a relation.
\<close>

section \<open>Effects of statements\<close>

locale statement_effect = any_literal R for R +
  assumes new_block: "new_block n s = Inr (b, s') \<Longrightarrow> R s s'"
    and insert: "R s (set_insert_point b s)"
    and br: "discard (build (create_br t) s) = Inr s' \<Longrightarrow> R s s'"
    and cond_br: "discard (build (create_cond_br c t f) s) = Inr s' \<Longrightarrow> R s s'"
    and return: "discard (build (mk_instr VoidTy Ret d vs) s) = Inr s' \<Longrightarrow> R s s'"
    and scope: "R s (s\<lparr>scope := sc\<rparr>)"
begin

lemma br_if_open: "br_if_open b s = Inr s' \<Longrightarrow> R s s'"
  by (auto simp: br_if_open_def refl split: if_splits intro: br)

lemma var_decls: "visit_var_decls ds s = Inr s' \<Longrightarrow> \<not> in_global (cg.scope s) \<Longrightarrow> R s s'"
proof (induction ds s rule: visit_var_decls.induct)
  case (2 d ds s)
  obtain s1 where s1: "visit_var_decl d s = Inr s1" "visit_var_decls ds s1 = Inr s'" using 2(2) by auto
  obtain t v s0 where "build (create_alloca t) s = Inr (v, s0)" "declare_name (vd_id d) v s0 = Inr s1"
    using s1(1) 2(3) by (auto simp: visit_var_decl_def Let_def)
  then have "R s s1" using trans [OF emit [OF build_emits(8)] scope] by (auto simp: declare_name_Inr)
  moreover have "\<not> in_global (cg.scope s1)"
    using visit_var_decl_declared [OF s1(1)] 2(3) by (simp add: declared_def in_global_def)
  ultimately show ?case using trans 2(1) s1 by blast
qed (simp add: refl)

lemma params: "visit_params f i ps s = Inr s' \<Longrightarrow> R s s'"
proof (induction ps arbitrary: i s)
  case (Cons p ps)
  then obtain v1 s1 w1 s2 s3 where p: "build (create_alloca (param_type p)) s = Inr (v1, s1)" "build (create_store (VArg f i) v1) s1 = Inr (w1, s2)"
    "declare_name (p_id p) v1 s2 = Inr s3" "visit_params f (Suc i) ps s3 = Inr s'"
    by (auto simp: discard_Inr simp del: param_type.simps)
  have "R s s2" using trans [OF emit [OF build_emits(8) [OF p(1)]] emit [OF build_emits(7) [OF p(2)]]] .
  moreover have "R s2 s3" using p(3) scope by (auto simp: declare_name_Inr)
  ultimately show ?case using Cons.IH [OF p(4)] trans by blast
qed (simp add: refl)

lemma return_value:
  assumes "return_value r s = Inr s'"
  shows "R s s'"
proof -
  obtain t s1 where p: "(if r \<noteq> t
      then if is_integer_type r then to_tmp (build (create_fptosi (tmp_val s) INT32_T) s)
           else to_tmp (build (create_sitofp (tmp_val s) FloatTy) s)
      else Inr s) = Inr s1" "discard (build (create_ret (tmp_val s1)) s1) = Inr s'"
    using assms by (auto simp: return_value_def)
  from p(1) have "R s s1"
    by (auto simp: to_tmp_Inr refl split: if_splits) (blast intro: emit_tmp emits_intros)+
  moreover have "R s1 s'" using p(2) unfolding create_ret_def by (rule return)
  ultimately show ?thesis by (rule trans)
qed

lemma tested: "condition v s = Inr (c, s') \<Longrightarrow> R s s'"
  by (rule condition)

lemma statements:
  "\<lbrakk>visit_statement st s = Inr s1; cg.scope s \<noteq> []; \<not> pre_enter_scope s\<rbrakk> \<Longrightarrow> R s s1"
  "\<lbrakk>visit_statements ss s = Inr s2; cg.scope s \<noteq> []; \<not> pre_enter_scope s\<rbrakk> \<Longrightarrow> R s s2"
proof (induction st s and ss s arbitrary: s1 and s2 rule: visit_statement_visit_statements.induct)
  case (1 ds ss s)
  let ?s = "s\<lparr>scope := enter (cg.scope s)\<rparr>"
  obtain sa sb sc where p: "visit_var_decls ds ?s = Inr sa" "visit_statements ss sa = Inr sb" "s1 = sb\<lparr>scope := sc\<rparr>"
    using 1(2,4) by (auto simp: compound_enter_def compound_exit_def exit_scope_def)
  note d = visit_var_decls_declared [OF p(1)]
  have "\<not> in_global (cg.scope ?s)" using 1(3) by (simp add: in_global_def enter_def)
  note a = trans [OF scope var_decls [OF p(1) this]]
  have "length (cg.scope sa) = Suc (length (cg.scope s))" using d by (simp add: declared_def enter_def)
  then have "cg.scope sa \<noteq> []" by auto
  then have "R sa sb" using 1 p d by (auto simp: compound_enter_def declared_def)
  then show ?case unfolding p(3) using trans trans [OF a] scope by blast
next
  case (4 e st s)
  then obtain sa t sb c sc cv sd se sf sg where p: "visit_expression e s = Inr sa" "new_block '''' sa = Inr (t, sb)"
    "new_block '''' sb = Inr (c, sc)" "condition (tmp_val sa) sc = Inr (cv, sd)"
    "discard (build (create_cond_br cv t c) sd) = Inr se"
    "visit_statement st (set_insert_point t se) = Inr sf" "br_if_open c sf = Inr sg"
    "s1 = set_insert_point c sg"
    by (auto simp: Let_def)
  note f = framed_eq [OF frame.visits(1) [OF p(1)]] framed_eq [OF new_block_framed [OF p(2)]]
    framed_eq [OF new_block_framed [OF p(3)]] framed_eq [OF frame.condition [OF p(4)]] framed_eq [OF cond_br_framed [OF p(5)]]
  have "R (set_insert_point t se) sf" using 4 p f by simp
  note 1 = trans [OF trans [OF insert this] trans [OF br_if_open [OF p(7)] insert]]
  show ?case
    unfolding p(8)
    by (rule trans [OF trans3 [OF visits(1) [OF p(1)] new_block [OF p(2)] new_block [OF p(3)]]
          trans3 [OF tested [OF p(4)] cond_br [OF p(5)] 1]])
next
  case (5 e st el s)
  then obtain sa t sb c sc cv sd fb se sf sg sh si sj where p: "visit_expression e s = Inr sa" "new_block '''' sa = Inr (t, sb)"
    "new_block '''' sb = Inr (c, sc)" "condition (tmp_val sa) sc = Inr (cv, sd)"
    "new_block '''' sd = Inr (fb, se)"
    "discard (build (create_cond_br cv t fb) se) = Inr sf"
    "visit_statement st (set_insert_point t sf) = Inr sg" "br_if_open c sg = Inr sh"
    "visit_statement el (set_insert_point fb sh) = Inr si" "br_if_open c si = Inr sj"
    "s1 = set_insert_point c sj"
    by (auto simp: Let_def)
  note f = framed_eq [OF frame.visits(1) [OF p(1)]] framed_eq [OF new_block_framed [OF p(2)]]
    framed_eq [OF new_block_framed [OF p(3)]] framed_eq [OF frame.condition [OF p(4)]]
    framed_eq [OF new_block_framed [OF p(5)]] framed_eq [OF cond_br_framed [OF p(6)]]
    framed_eq [OF br_if_open_framed [OF p(8)]] framed_eq [OF br_if_open_framed [OF p(10)]]
  have g: "framed (set_insert_point t sf) sg" using visit_statement_framed(1) [OF p(7)] f 5(5) by simp
  have "R (set_insert_point t sf) sg"
    using 5(1) [OF p(1) HOL.refl p(2) HOL.refl p(3) HOL.refl p(4) HOL.refl p(5) HOL.refl p(6,7)] 5(4,5) f by simp
  note 1 = trans3 [OF insert this br_if_open [OF p(8)]]
  have "R (set_insert_point fb sh) si"
    using 5(2) [OF p(1) HOL.refl p(2) HOL.refl p(3) HOL.refl p(4) HOL.refl p(5) HOL.refl p(6-9)] 5(4,5) f framed_eq [OF g] by simp
  note 2 = trans3 [OF insert this trans [OF br_if_open [OF p(10)] insert]]
  show ?case
    unfolding p(11)
    by (rule trans3 [OF trans3 [OF visits(1) [OF p(1)] new_block [OF p(2)] new_block [OF p(3)]]
          trans3 [OF tested [OF p(4)] new_block [OF p(5)] cond_br [OF p(6)]] trans [OF 1 2]])
next
  case (6 e st s)
  then obtain eb sa sb sc t sd c se cv sf sg sh si where p: "new_block '''' s = Inr (eb, sa)"
    "br_if_open eb sa = Inr sb" "visit_expression e (set_insert_point eb sb) = Inr sc"
    "new_block '''' sc = Inr (t, sd)" "new_block '''' sd = Inr (c, se)"
    "condition (tmp_val sc) se = Inr (cv, sf)" "discard (build (create_cond_br cv t c) sf) = Inr sg"
    "visit_statement st (set_insert_point t sg) = Inr sh" "br_if_open eb sh = Inr si"
    "s1 = set_insert_point c si"
    by (auto simp: Let_def)
  note f = framed_eq [OF frame.visits(1) [OF p(3)]] framed_eq [OF new_block_framed [OF p(1)]]
    framed_eq [OF br_if_open_framed [OF p(2)]] framed_eq [OF new_block_framed [OF p(4)]]
    framed_eq [OF new_block_framed [OF p(5)]] framed_eq [OF frame.condition [OF p(6)]] framed_eq [OF cond_br_framed [OF p(7)]]
  have "R (set_insert_point t sg) sh" using 6 p f by simp
  note 1 = trans [OF trans [OF insert this] trans [OF br_if_open [OF p(9)] insert]]
  show ?case
    unfolding p(10)
    by (rule trans3 [OF trans3 [OF new_block [OF p(1)] br_if_open [OF p(2)] trans [OF insert visits(1) [OF p(3)]]]
          trans3 [OF new_block [OF p(4)] new_block [OF p(5)] tested [OF p(6)]] trans [OF cond_br [OF p(7)] 1]])
next
  case (8 e s)
  then obtain rt sa where "visit_expression e s = Inr sa" "return_value rt sa = Inr s1" by auto
  then show ?case using trans visits(1) return_value by blast
next
  case (10 st ss s)
  then obtain sa t where p: "visit_statement st s = Inr sa" "terminated sa = Inr t"
    "if t then s2 = sa else visit_statements ss sa = Inr s2"
    by (auto split: if_splits)
  have "R s sa" using 10(1) [OF p(1) 10(4,5)] .
  moreover have "cg.scope sa \<noteq> []" "\<not> pre_enter_scope sa" using framed_eq [OF visit_statement_framed(1) [OF p(1) 10(5)]] 10(4,5) by simp_all
  ultimately show ?case using 10(2) [OF p(1,2)] p(3) trans by (cases t) auto
next
  case (3 e s)
  then show ?case using visits(1) by simp
next
  case (7 s)
  then show ?case using return by (simp add: create_void_ret_def)
qed (simp_all add: refl)

end

section \<open>The lists\<close>

definition same_lists :: "cg \<Rightarrow> cg \<Rightarrow> bool" where
  "same_lists s s' \<longleftrightarrow> global_list s' = global_list s \<and> function_list s' = function_list s \<and> gvars s' = gvars s \<and>
     f_types s' = f_types s"

lemma mk_instr_lists: "build (mk_instr t opc d vs) s = Inr (v, s') \<Longrightarrow> same_lists s s'"
  by (auto simp: build_Inr same_lists_def mk_instr_view f_types_def fun_eq_iff)

lemma emits_lists: "emits s s' \<Longrightarrow> same_lists s s'"
  by (auto simp: emits_def same_lists_def mk_instr_view f_types_def fun_eq_iff)

lemma fp_lists: "ConstantFP_get x s = (c, s') \<Longrightarrow> same_lists s s'"
  by (erule ConstantFP_get_view) (simp add: same_lists_def f_types_def fun_eq_iff)

lemma new_block_lists: "new_block n s = Inr (b, s') \<Longrightarrow> same_lists s s'"
  by (auto simp: new_block_def BasicBlock_create_def Let_def same_lists_def f_types_def fun_eq_iff)

lemma same_code_lists: "same_code s s' \<Longrightarrow> same_lists s s'"
  by (simp add: same_code_def same_lists_def f_types_def fun_eq_iff)

lemma same_lists_trans: "same_lists s s1 \<Longrightarrow> same_lists s1 s2 \<Longrightarrow> same_lists s s2"
  by (simp add: same_lists_def)


lemma br_lists:
  assumes "discard (build (create_br t) s) = Inr s'"
  shows "same_lists s s'"
proof -
  obtain b v where b: "create_br t b s = Inr (v, s')" using assms by (auto simp: discard_Inr build_Inr)
  then show ?thesis
  proof (rule create_br_Inr)
    fix s1 assume s1: "mk_instr VoidTy Br NoData [VBB t] b s1 = Inr (v, s')" "same_code s s1"
    have "same_lists s1 s'" using s1(1) by (auto simp: same_lists_def mk_instr_view f_types_def fun_eq_iff)
    then show ?thesis using same_lists_trans [OF same_code_lists [OF s1(2)]] by blast
  qed
qed

lemma cond_br_lists:
  assumes "discard (build (create_cond_br c t f) s) = Inr s'"
  shows "same_lists s s'"
proof -
  obtain b v where b: "create_cond_br c t f b s = Inr (v, s')" using assms by (auto simp: discard_Inr build_Inr)
  obtain s1 s2 s3 s4 where e: "add_pre_basic_block t b s = Inr s1"
    "add_pre_basic_block f b s1 = Inr s2" "add_succ_basic_block b f s2 = Inr s3"
    "add_succ_basic_block b t s3 = Inr s4" "mk_instr VoidTy Br NoData [c, VBB t, VBB f] b s4 = Inr (v, s')"
    using b by (auto simp: create_cond_br_def)
  have "same_code s s4"
    using add_pre_view(1) [OF e(1)] add_pre_view(1) [OF e(2)] add_succ_view(1) [OF e(3)]
      add_succ_view(1) [OF e(4)] same_code_trans by blast
  moreover have "same_lists s4 s'" using e(5) by (auto simp: same_lists_def mk_instr_view f_types_def fun_eq_iff)
  ultimately show ?thesis using same_lists_trans same_code_lists by blast
qed

lemma ret_lists: "discard (build (mk_instr VoidTy Ret d vs) s) = Inr s' \<Longrightarrow> same_lists s s'"
  by (auto simp: discard_Inr intro: mk_instr_lists)

lemma default_return_lists: "default_return s = Inr s' \<Longrightarrow> same_lists s s'"
  by (auto simp: default_return_def create_ret_def create_void_ret_def const_fp_def
      split: if_splits prod.splits intro: ret_lists same_lists_trans [OF fp_lists ret_lists])

lemma insert_lists: "same_lists s (set_insert_point b s)"
  by (simp add: same_lists_def set_insert_point_def f_types_def fun_eq_iff)

lemma index_check_lists:
  assumes "index_check v s = Inr (i, s')"
  shows "same_lists s s'"
  using assms
proof (rule index_check_Inr)
  fix e s1 c s2 s3 neg s4 s5 w s6 s7
  assume p: "new_block '''' s = Inr (e, s1)" "new_block '''' s1 = Inr (c, s2)"
    "s3 = s2 \<or> emits s2 s3" "build (create_cmp LT i (const_int 0)) s3 = Inr (neg, s4)"
    "discard (build (create_cond_br neg e c) s4) = Inr s5"
    "build (create_call (find (scope (set_insert_point e s5)) ''neg_idx_except'') []) (set_insert_point e s5) = Inr (w, s6)"
    "default_return s6 = Inr s7" "s' = set_insert_point c s7"
  have "emits s3 s4" "emits (set_insert_point e s5) s6" using p(4,6) by (blast intro: emits_intros)+
  then have "same_lists s2 s3" "same_lists s3 s4" "same_lists (set_insert_point e s5) s6"
    using p(3) emits_lists by (auto simp: same_lists_def [of s2 s2])
  then show "same_lists s s'"
    using new_block_lists [OF p(1)] new_block_lists [OF p(2)] cond_br_lists [OF p(5)] default_return_lists [OF p(7)]
      insert_lists [of s5 e] insert_lists [of s7 c] p(8) by (simp add: same_lists_def)
qed

interpretation lists: statement_effect same_lists
proof
  show "same_lists s s1 \<Longrightarrow> same_lists s1 s2 \<Longrightarrow> same_lists s s2" for s s1 s2 by (rule same_lists_trans)
qed (auto intro: fp_lists emits_lists index_check_lists new_block_lists insert_lists br_lists cond_br_lists ret_lists,
    simp_all add: same_lists_def f_types_def fun_eq_iff)

end
