(* ===== verification/Simulation_Functions.thy ===== *)
theory Simulation_Functions
  imports Simulation_Statements Module_Lists
begin

text \<open>
  The simulation for the body of a function: the arguments stored in the variables of its parameters,
  its block, and the return that is added at its end.
\<close>

section \<open>Parameters\<close>

lemma pass_args_tenv: "pass_args ps xs (D, m) = Some (D', m') \<Longrightarrow> tenv_of D' = bind_params ps (tenv_of D)"
  by (induction ps xs "(D, m)" arbitrary: D m rule: pass_args.induct)
    (auto simp: tenv_bind den_ty_def simp del: par_ty.simps split: prod.splits option.splits)

lemma params_sim:
  "\<lbrakk>visit_params f i ps s = Inr s'; ready_at fid r D s \<rho>; D \<noteq> []; \<And>j. j < length ps \<Longrightarrow> has_type s (VArg f (i + j)) (par_ty (ps ! j));
     \<And>j. j < length xs \<Longrightarrow> \<rho> (VArg f (i + j)) = Some (xs ! j); grows s' F; pass_args ps xs (D, m) = Some (D', m'); opened s\<rbrakk> \<Longrightarrow>
   past s s' \<and> opened s' \<and> (\<exists>\<rho>'. moves F s \<rho> m s' \<rho>' m' \<and> ready_at fid r D' s' \<rho>')"
proof (induction ps arbitrary: i s D \<rho> m xs)
  case (Nil i s D \<rho> m xs)
  then have "D' = D" "m' = m" "s' = s" by (cases xs; simp)+
  moreover have "past s s" using past_refl Nil(8) by (simp add: opened_def)
  moreover have "\<exists>\<rho>'. moves F s \<rho> m s \<rho>' m \<and> ready_at fid r D s \<rho>'" using Nil(2) moves_refl by blast
  ultimately show ?case using Nil(8) by simp
next
  case (Cons p ps i s D \<rho> m xs)
  let ?t = "par_ty p"
  obtain x xs' where xs: "xs = x # xs'" using Cons.prems(7) by (cases xs) auto
  obtain v s1 w s2 s3 where m: "build (create_alloca ?t) s = Inr (v, s1)" "build (create_store (VArg f i) v) s1 = Inr (w, s2)"
    "declare_name (p_id p) v s2 = Inr s3" "visit_params f (Suc i) ps s3 = Inr s'"
    using Cons.prems(1) by (auto simp: discard_Inr param_par simp del: param_type.simps par_ty.simps)
  obtain ob m1 where ob: "alloc ?t None m = (ob, m1)" by (cases "alloc ?t None m")
  obtain m2 where m2: "store ob 0 x m1 = Some m2" "pass_args ps xs' (bind_den (p_id p) (Slot ?t ob) D, m2) = Some (D', m')"
    using Cons.prems(7) ob unfolding xs by (auto simp del: par_ty.simps split: option.splits)
  have i: "in_fun r (tenv_of D) s" using ready_in [OF Cons.prems(2)] .
  have g1: "goes r (tenv_of D) s s1" "has_type s1 v (PtrTy ?t)" using alloca_gives [OF i, of ?t] m(1) by simp_all
  have arg: "has_type s1 (VArg f i) ?t" using goes_type [OF g1(1)] Cons.prems(4) [of 0] by simp
  have g2: "goes r (tenv_of D) s1 s2"
    using store_gives [OF goesD [OF g1(1)] arg g1(2) par_first_class] m(2) by simp
  note g = goes_trans [OF g1(1) g2]
  have em: "emits s s1" "emits s1 s2" using build_emits(8) [OF m(1)] build_emits(7) [OF m(2)] by simp_all
  have p1: "past s s1" using past_emits [OF past_refl [OF in_fun_fresh [OF i]] em(1)] .
  have p2: "past s s2" using past_emits [OF p1 em(2)] .
  have p3: "past s s3" using past.declare_name [OF p2 m(3)] .
  obtain sc where sc: "s3 = s2\<lparr>scope := sc\<rparr>" using m(3) by (auto simp: declare_name_Inr)
  have o3: "opened s3" using opened_emits [OF opened_emits [OF Cons.prems(8) em(1)] em(2)] sc by simp
  have type: "has_type s3 (VArg f (Suc i + j)) (par_ty (ps ! j))" if "j < length ps" for j
    using goes_type [OF g] Cons.prems(4) [of "Suc j"] that sc by (simp del: par_ty.simps)
  have p4: "past s3 s'" using past.params [OF m(4) past_refl [OF pastD(1) [OF p3]]] .
  have F3: "grows s3 F" using past_grows [OF p4 Cons.prems(6)] .
  then have F2: "grows s2 F" using sc by simp
  have F1: "grows s1 F" using grows_trans [OF emits_grows [OF pastD(1) [OF p1] em(2)] F2] .
  obtain \<rho>1 where \<rho>1: "moves F s \<rho> m s1 \<rho>1 m1" "value_of \<rho>1 v = Some (PtrV ob 0)"
    using alloca_computes [OF m(1) F1 ob] by (auto simp: computes_def)
  have "\<rho>1 (VArg f i) = Some x" using moves_agree [OF \<rho>1(1)] Cons.prems(5) [of 0] xs by (simp add: agree_def)
  then obtain \<rho>2 where \<rho>2: "moves F s1 \<rho>1 m1 s2 \<rho>2 m2"
    using store_moves [OF m(2) F2 _ \<rho>1(2) m2(1)] by (auto simp: computes_def)
  note mv = moves_trans [OF \<rho>1(1) \<rho>2 growsD(1) [OF pastD(2) [OF p1]]]
  have v2: "value_of \<rho>2 v = Some (PtrV ob 0)"
    using agree_value [OF moves_agree [OF \<rho>2] pastD(1) [OF p1] g1(2)] \<rho>1(2) by simp
  have "ready_at fid r D s2 \<rho>2" using ready_step [OF Cons.prems(2) g moves_agree [OF mv]] .
  from declare_sim [OF this Cons.prems(3) m(3), of "Slot ?t ob"]
  have r3: "ready_at fid r (bind_den (p_id p) (Slot ?t ob) D) s3 \<rho>2"
    using goes_type [OF g2 g1(2)] v2 by (simp add: den_ty_def del: par_ty.simps)
  have args: "\<rho>2 (VArg f (Suc i + j)) = Some (xs' ! j)" if "j < length xs'" for j
    using moves_agree [OF mv] Cons.prems(5) [of "Suc j"] that xs by (simp add: agree_def)
  obtain \<rho>' where \<rho>': "opened s'" "moves F s3 \<rho>2 m2 s' \<rho>' m'" "ready_at fid r D' s' \<rho>'"
    using Cons.IH [OF m(4) r3 _ type args Cons.prems(6) m2(2) o3] Cons.prems(3) by auto
  have "moves F s2 \<rho>2 m2 s' \<rho>' m'" using \<rho>'(2) sc by simp
  then show ?case
    using \<rho>'(1,3) moves_trans [OF mv _ growsD(1) [OF pastD(2) [OF p2]]] past_trans [OF p3 p4] by blast
qed

section \<open>The end of a function\<close>

lemma default_return_sim:
  assumes m: "default_return s = Inr s'" and F: "grows s' F" "exact F" and s: "in_fun r E s"
  shows "\<exists>b i \<rho>'. reach F (here s \<rho> m) (At b i \<rho>' m) \<and> returned F b i \<rho>' = Some (zero_value r)" "has_ty (zero_value r) r"
proof -
  have n: "r = VoidTy \<or> r = INT32_T \<or> r = FloatTy" using s by (simp add: in_fun_def num_ty_def)
  then show "has_ty (zero_value r) r" by auto
  obtain f ps where f: "cur_fun s = Some f" "get_type s (VFun f) = Inr (FunTy r ps)" using s by (rule in_fun_result)
  then have e: "(if is_void_type r then discard (build create_void_ret s)
     else if is_float_type r then (let (c, s) = const_fp 0 s in discard (build (create_ret c) s))
     else discard (build (create_ret (const_int 0)) s)) = Inr s'"
    using m by (simp add: default_return_def del: get_type.simps)
  show "\<exists>b i \<rho>'. reach F (here s \<rho> m) (At b i \<rho>' m) \<and> returned F b i \<rho>' = Some (zero_value r)"
    using n
  proof (elim disjE)
    assume r: "r = VoidTy"
    have "returned F (the (insert_bb s)) (length (ilist s (the (insert_bb s)))) \<rho> = Some VoidV"
      using ret_returned [OF _ F(1), of NoData "[]" s \<rho>] e r by (simp add: create_void_ret_def)
    then show ?thesis unfolding r here_def zero_value.simps by (blast intro: calls_reach.refl)
  next
    assume r: "r = INT32_T"
    have "returned F (the (insert_bb s)) (length (ilist s (the (insert_bb s)))) \<rho> = Some (IntV 0)"
      using ret_returned [OF _ F(1), of NoData "[const_int 0]" s \<rho>] e r by (simp add: create_ret_def) (simp add: const_int_def)
    then show ?thesis unfolding r here_def zero_value.simps by (blast intro: calls_reach.refl)
  next
    assume r: "r = FloatTy"
    then obtain c s1 where c: "const_fp 0 s = (c, s1)" "discard (build (create_ret c) s1) = Inr s'"
      using e by (auto split: prod.splits)
    have "past s s1" using past.const_fp [OF _ c(1)] past_refl [OF in_fun_fresh [OF s]] by simp
    then have F1: "grows s1 F" using past_ret [OF past_refl [OF pastD(1)]] c(2) past_grows [OF _ F(1)] unfolding create_ret_def by blast
    note z = const_fp_sim [OF c(1) F1 F(2), simplified]
    have "returned F (the (insert_bb s1)) (length (ilist s1 (the (insert_bb s1)))) \<rho> = Some (FloatV 0)"
      using ret_returned [OF c(2) [unfolded create_ret_def] F(1), of \<rho>] z(1) [of \<rho>] by simp
    moreover have "here s \<rho> m = here s1 \<rho> m" using z(2) by simp
    ultimately show ?thesis unfolding r zero_value.simps here_def by (metis calls_reach.refl)
  qed
qed

section \<open>The body\<close>

definition compiled :: "cg \<Rightarrow> (nat \<Rightarrow> nat \<times> ty) \<Rightarrow> denv \<Rightarrow> fun_decl \<Rightarrow> nat \<Rightarrow> bool" where
  "compiled F fid D d f \<longleftrightarrow> (\<exists>b bs fn s4 s5 s6 s7 s8 t.
     funs F f = Some fn \<and> basic_blocks fn = b # bs \<and> insert_bb s4 = Some b \<and> ilist s4 b = [] \<and> opened s4 \<and>
     (\<forall>xs. ready_at fid (result_ty (fd_type d)) (Map.empty # D) s4 (start_regs F f xs)) \<and>
     (\<forall>j < length (fd_params d). has_type s4 (VArg f j) (par_ty (fd_params d ! j))) \<and>
     length (scope s4) = 2 \<and> \<not> require_lvalue s4 \<and> visit_params f 0 (fd_params d) s4 = Inr s5 \<and>
     visit_var_decls (fd_locals d) (s5\<lparr>pre_enter_scope := False\<rparr>) = Inr s6 \<and> visit_statements (fd_body d) s6 = Inr s7 \<and>
     terminated s7 = Inr t \<and> (if t then Inr s7 else default_return s7) = Inr s8 \<and> grows s8 F)"

lemma compiledE:
  assumes "compiled F fid D d f"
  obtains b bs fn s4 s5 s6 s7 s8 t where "funs F f = Some fn" "basic_blocks fn = b # bs" "insert_bb s4 = Some b" "ilist s4 b = []"
    "opened s4" "\<And>xs. ready_at fid (result_ty (fd_type d)) (Map.empty # D) s4 (start_regs F f xs)"
    "\<And>j. j < length (fd_params d) \<Longrightarrow> has_type s4 (VArg f j) (par_ty (fd_params d ! j))" "length (scope s4) = 2"
    "\<not> require_lvalue s4" "visit_params f 0 (fd_params d) s4 = Inr s5" "visit_var_decls (fd_locals d) (s5\<lparr>pre_enter_scope := False\<rparr>) = Inr s6"
    "visit_statements (fd_body d) s6 = Inr s7" "terminated s7 = Inr t" "(if t then Inr s7 else default_return s7) = Inr s8" "grows s8 F"
  using assms unfolding compiled_def by metis

lemma ready_enter [simp]: "ready_at fid r D (s\<lparr>pre_enter_scope := x\<rparr>) \<rho> = ready_at fid r D s \<rho>"
proof -
  have "scope (s\<lparr>pre_enter_scope := x\<rparr>) = scope s" by simp
  then have "env_rel fid \<rho> D (s\<lparr>pre_enter_scope := x\<rparr>) = env_rel fid \<rho> D s" by (simp only: env_rel_def)
  then show ?thesis by (simp add: ready_at_def)
qed

lemma body_sim:
  assumes c: "compiled F fid D d f" and cs: "calls_sim F fid cf" "exact F" and lit: "lit_statements plain (fd_body d)"
    and ok: "check_statements (result_ty (fd_type d)) (bind_vars (fd_locals d) (bind_params (fd_params d) (Map.empty # tenv_of D))) (fd_body d)"
    and run: "run_body ValueFirst cf n D d xs m = Some res"
  shows "calls F f xs m res" "res = Inr (v, m') \<Longrightarrow> has_ty v (result_ty (fd_type d))"
proof -
  let ?r = "result_ty (fd_type d)" and ?\<rho> = "start_regs F f xs"
  obtain fn b bs s4 s5 s6 s7 t s8 where k: "funs F f = Some fn" "basic_blocks fn = b # bs" "insert_bb s4 = Some b" "ilist s4 b = []"
    "opened s4" "\<And>xs. ready_at fid (result_ty (fd_type d)) (Map.empty # D) s4 (start_regs F f xs)"
    "\<And>j. j < length (fd_params d) \<Longrightarrow> has_type s4 (VArg f j) (par_ty (fd_params d ! j))" "length (scope s4) = 2"
    "\<not> require_lvalue s4" "visit_params f 0 (fd_params d) s4 = Inr s5" "visit_var_decls (fd_locals d) (s5\<lparr>pre_enter_scope := False\<rparr>) = Inr s6"
    "visit_statements (fd_body d) s6 = Inr s7" "terminated s7 = Inr t" "(if t then Inr s7 else default_return s7) = Inr s8" "grows s8 F"
    by (rule compiledE [OF c]) (rule that)
  obtain D1 m1 where e1: "pass_args (fd_params d) xs (Map.empty # D, m) = Some (D1, m1)"
    using run by (auto simp: run_body_def partial_Some)
  obtain D2 m2 where e2: "alloc_vars (fd_locals d) (D1, m1) = (D2, m2)" by (cases "alloc_vars (fd_locals d) (D1, m1)")
  have e4: "seq (exec_all ValueFirst cf n ?r D2 (fd_body d) m2) (\<lambda>fl m. case fl of Normal \<Rightarrow> ret (zero_value ?r) m | Returned v \<Rightarrow> ret v m) = Some res"
    using run e1 e2 by (simp add: run_body_def Let_def)
  obtain r1 where e3: "exec_all ValueFirst cf n ?r D2 (fd_body d) m2 = Some r1"
    using e4 by (cases "exec_all ValueFirst cf n ?r D2 (fd_body d) m2") simp_all
  note e = e1 e2 e3 e4 [unfolded e3]
  let ?s5 = "s5\<lparr>pre_enter_scope := False\<rparr>"
  have hb: "here s4 = At b 0" by (simp add: fun_eq_iff here_def k(3,4))
  have fr5: "fresh_ok s5 \<Longrightarrow> past ?s5 s6" using past.var_decls [OF k(11) past_refl] by (simp add: fresh_ok_def)
  have p67: "fresh_ok s6 \<Longrightarrow> past s6 s7" using visited_past(2) [OF k(12) lit] .
  have p78: "fresh_ok s7 \<Longrightarrow> past s7 s8" using k(14) past_default_return [OF past_refl] past_refl by (cases t) auto
  have args: "?\<rho> (VArg f (0 + j)) = Some (xs ! j)" if "j < length xs" for j using that by (simp add: start_regs_def)
  have types: "has_type s4 (VArg f (0 + j)) (par_ty (fd_params d ! j))" if "j < length (fd_params d)" for j using k(7) that by simp
  have ok1: "check_statements ?r (bind_vars (fd_locals d) (tenv_of D1)) (fd_body d)"
    using ok pass_args_tenv [OF e(1)] by (simp add: tenv_enter del: tenv_Cons(1))
  have ne1: "D1 \<noteq> []" using pass_args_tenv [OF e(1)] by (metis tenv_Cons(3) tenv_enter bind_params_not_Nil list.distinct(1))
  have g5: "in_fun ?r (bind_params (fd_params d) (tenv_of (Map.empty # D))) s5 \<and> kept s4 s5 \<and> declared s4 s5 \<and>
      require_lvalue s5 = require_lvalue s4"
    using visit_params_gives [OF ready_in [OF k(6)] _ types] k(10) by simp
  then have f5: "fresh_ok s5" using in_fun_fresh by blast
  note f6 = pastD(1) [OF fr5 [OF f5]] note f7 = pastD(1) [OF p67 [OF f6]]
  have F7: "grows s7 F" using past_grows [OF p78 [OF f7] k(15)] .
  have F6: "grows s6 F" using past_grows [OF p67 [OF f6] F7] .
  have F5: "grows s5 F" using past_grows [OF fr5 [OF f5] F6] by simp
  obtain \<rho>5 where p: "past s4 s5" "opened s5" "moves F s4 ?\<rho> m s5 \<rho>5 m1" "ready_at fid ?r D1 s5 \<rho>5"
    using params_sim [OF k(10) k(6) _ types args F5 e(1) k(5)] by blast
  have d5: "declared s4 s5" "require_lvalue s5 = require_lvalue s4"
    using g5 by simp_all
  have i5: "idle ?s5" "\<not> in_global (scope ?s5)" using d5 k(8,9) by (simp_all add: idle_def declared_def in_global_def)
  have o5: "opened ?s5" "ready_at fid ?r D1 ?s5 \<rho>5" using p(2,4) by simp_all
  have rr: "reach F (At b 0 ?\<rho> m) (here ?s5 \<rho>5 m1)" using p(3) unfolding moves_def hb by simp
  have le: "next_id s4 \<le> next_id ?s5" using growsD(1) [OF pastD(2) [OF p(1)]] by simp
  have e5: "ends F ?s5 \<rho>5 (here ?s5 \<rho>5 m1) (here s7) (opened s7) ?r r1"
    using block_sim(1) [OF statements_sim(2) [OF cs lit] lit ok1 o5(2) ne1 i5(1) o5(1) i5(2) k(11,12) F7 e(2,3)] .
  have ends: "ends F s4 ?\<rho> (At b 0 ?\<rho> m) (here s7) (opened s7) ?r r1"
    using ends_after [OF rr moves_agree [OF p(3)] le e5] .
  have i7: "in_fun ?r (bind_vars (fd_locals d) (tenv_of D1)) s7"
  proof -
    obtain q where q: "visit_var_decls (fd_locals d) ?s5 = Inr q" "in_fun ?r (bind_vars (fd_locals d) (tenv_of D1)) q" "require_lvalue q = require_lvalue ?s5"
      using visit_var_decls_gives [OF ready_in [OF o5(2)] _ i5(2), of "fd_locals d"] ne1 by (auto elim: returnsE)
    have iq: "idle q" using visit_var_decls_declared [OF q(1)] q(3) i5(1) by (simp add: idle_def declared_def)
    show ?thesis using statements_run(2) ok1 q(2) _ iq
      by (rule runsE) (use ne1 k(11,12) q(1) goesD in auto)
  qed
  have "calls F f xs m res \<and> (\<forall>v m'. res = Inr (v, m') \<longrightarrow> has_ty v ?r)"
  proof (cases r1 rule: res_cases)
    case (1 m')
    then have z: "res = Inl m'" "reach F (At b 0 ?\<rho> m) (Exited m')" using e(4) ends by simp_all
    show ?thesis unfolding z(1) using calls_reach.body_exit [OF k(1,2) z(2)] by simp
  next
    case (2 m')
    then obtain \<rho>7 where r7: "opened s7" "reach F (At b 0 ?\<rho> m) (here s7 \<rho>7 m')" using ends by auto
    have "\<not> t" using opened_terminated [OF r7(1) k(13)] .
    then have dr: "default_return s7 = Inr s8" using k(14) by simp
    obtain c i \<rho>' where z: "reach F (here s7 \<rho>7 m') (At c i \<rho>' m')" "returned F c i \<rho>' = Some (zero_value ?r)"
      using default_return_sim(1) [OF dr k(15) cs(2) i7, of \<rho>7 m'] by blast
    have "res = Inr (zero_value ?r, m')" using e(4) 2 by (simp add: ret_def)
    then show ?thesis
      using calls_reach.body [OF k(1,2) reach_trans [OF r7(2) z(1)] z(2)] default_return_sim(2) [OF dr k(15) cs(2) i7] by simp
  next
    case (3 v m')
    then obtain c i \<rho>' where z: "reach F (At b 0 ?\<rho> m) (At c i \<rho>' m')" "returned F c i \<rho>' = Some v" "has_ty v ?r" using ends by auto
    have "res = Inr (v, m')" using e(4) 3 by (simp add: ret_def)
    then show ?thesis using calls_reach.body [OF k(1,2) z(1,2)] z(3) by simp
  qed
  then show "calls F f xs m res" "res = Inr (v, m') \<Longrightarrow> has_ty v ?r" by blast+
qed

end
