(* ===== verification/Assignment_Order.thy ===== *)
theory Assignment_Order
  imports Cminus_Semantics
begin

text \<open>
  The two orders of an assignment. The language document finds the place first, the code generator
  evaluates the right side first. Where an indexed place and its right side only read, a run
  that ends normally in the document's order is a run in the other order.
\<close>

section \<open>Expressions that only read\<close>

fun reads_expression :: "expression \<Rightarrow> bool" and reads_var :: "avar \<Rightarrow> bool" and reads_additive :: "additive \<Rightarrow> bool"
  and reads_term :: "aterm \<Rightarrow> bool" and reads_factor :: "factor \<Rightarrow> bool" where
  "reads_expression (AssignE v e) = False"
| "reads_expression (SimpleE a) = reads_additive a"
| "reads_expression (RelE l op r) = (reads_additive l \<and> reads_additive r)"
| "reads_var (Var n) = True"
| "reads_var (VarIndex n e) = reads_expression e"
| "reads_additive (AddTerm t) = reads_term t"
| "reads_additive (AddBin a op t) = (reads_additive a \<and> reads_term t)"
| "reads_term (TermFactor f) = reads_factor f"
| "reads_term (TermBin t op f) = (reads_term t \<and> reads_factor f)"
| "reads_factor (FExpr e) = reads_expression e"
| "reads_factor (FVar v) = reads_var v"
| "reads_factor (FCall n es) = False"
| "reads_factor (FNum k) = True"

text \<open>In every assignment to an element of an array, the index and the right side only read.\<close>

fun free_expression :: "expression \<Rightarrow> bool" and free_var :: "avar \<Rightarrow> bool" and free_additive :: "additive \<Rightarrow> bool"
  and free_term :: "aterm \<Rightarrow> bool" and free_factor :: "factor \<Rightarrow> bool" and free_args :: "expression list \<Rightarrow> bool" where
  "free_expression (AssignE v e) =
     (free_expression e \<and> (case v of Var n \<Rightarrow> True | VarIndex n i \<Rightarrow> reads_expression i \<and> reads_expression e))"
| "free_expression (SimpleE a) = free_additive a"
| "free_expression (RelE l op r) = (free_additive l \<and> free_additive r)"
| "free_var (Var n) = True"
| "free_var (VarIndex n e) = free_expression e"
| "free_additive (AddTerm t) = free_term t"
| "free_additive (AddBin a op t) = (free_additive a \<and> free_term t)"
| "free_term (TermFactor f) = free_factor f"
| "free_term (TermBin t op f) = (free_term t \<and> free_factor f)"
| "free_factor (FExpr e) = free_expression e"
| "free_factor (FVar v) = free_var v"
| "free_factor (FCall n es) = free_args es"
| "free_factor (FNum k) = True"
| "free_args [] = True"
| "free_args (e # es) = (free_expression e \<and> free_args es)"

fun free_statement :: "statement \<Rightarrow> bool" and free_statements :: "statement list \<Rightarrow> bool" where
  "free_statement (Compound ds ss) = free_statements ss"
| "free_statement (ExprStmt None) = True"
| "free_statement (ExprStmt (Some e)) = free_expression e"
| "free_statement (Selection e st None) = (free_expression e \<and> free_statement st)"
| "free_statement (Selection e st (Some el)) = (free_expression e \<and> free_statement st \<and> free_statement el)"
| "free_statement (Iteration e st) = (free_expression e \<and> free_statement st)"
| "free_statement (Return None) = True"
| "free_statement (Return (Some e)) = free_expression e"
| "free_statements [] = True"
| "free_statements (st # ss) = (free_statement st \<and> free_statements ss)"

fun free_decl :: "decl \<Rightarrow> bool" where
  "free_decl (VarDecl d) = True"
| "free_decl (FunDecl d) = free_statements (fd_body d)"

definition order_free :: "program \<Rightarrow> bool" where
  "order_free p \<longleftrightarrow> list_all free_decl p"

section \<open>Runs that end normally\<close>

definition below :: "'a run \<Rightarrow> 'a run \<Rightarrow> bool" where
  "below r r' \<longleftrightarrow> (\<forall>x. r = Some (Inr x) \<longrightarrow> r' = Some (Inr x))"

lemma seq_Inr: "seq r k = Some (Inr y) \<longleftrightarrow> (\<exists>x m. r = Some (Inr (x, m)) \<and> k x m = Some (Inr y))"
  by (auto simp: seq_def split: option.splits sum.splits)

lemma below_refl [simp]: "below r r"
  by (simp add: below_def)

lemma below_seq: "below r r' \<Longrightarrow> (\<And>x m. r = Some (Inr (x, m)) \<Longrightarrow> below (k x m) (k' x m)) \<Longrightarrow> below (seq r k) (seq r' k')"
  unfolding below_def seq_Inr by blast

lemma below_partial: "(\<And>y. x = Some y \<Longrightarrow> below (k y) (k' y)) \<Longrightarrow> below (partial x k) (partial x k')"
  by (cases x) simp_all

definition code_below :: "code \<Rightarrow> code \<Rightarrow> bool" where
  "code_below cf cf' \<longleftrightarrow> (\<forall>k xs m. below (cf k xs m) (cf' k xs m))"

lemma index_value_Inr:
  "index_value cf D x m = Some (Inr (i, m')) \<longleftrightarrow> (\<exists>j. convert INT32_T x = Some (IntV j) \<and> 0 \<le> sint j \<and> i = sint j \<and> m' = m)"
proof (cases "convert INT32_T x")
  case (Some y)
  then show ?thesis
    by (cases y) (auto simp: index_value_def ret_def split: option.splits den.splits sum.splits)
qed (simp add: index_value_def)

lemma below_index: "below (index_value cf D x m) (index_value cf' D x m)"
  by (auto simp: below_def index_value_Inr)

text \<open>An expression that only reads leaves the memory as it is.\<close>

lemma reads_same:
  "reads_expression e \<Longrightarrow> eval_expression ao cf D e m = Some (Inr (x, m')) \<Longrightarrow> m' = m"
  "reads_var v \<Longrightarrow> (eval_place ao cf D v m = Some (Inr (q, m')) \<longrightarrow> m' = m) \<and> (eval_factor ao cf D (FVar v) m = Some (Inr (x, m')) \<longrightarrow> m' = m)"
  "reads_additive a \<Longrightarrow> eval_additive ao cf D a m = Some (Inr (x, m')) \<Longrightarrow> m' = m"
  "reads_term t \<Longrightarrow> eval_term ao cf D t m = Some (Inr (x, m')) \<Longrightarrow> m' = m"
  "reads_factor f \<Longrightarrow> eval_factor ao cf D f m = Some (Inr (x, m')) \<Longrightarrow> m' = m"
proof (induction e and v and a and t and f arbitrary: m m' x and m m' q x and m m' x and m m' x and m m' x)
  case (VarIndex n e)
  then have "reads_expression e" by simp
  note ih = VarIndex.IH [OF this]
  then show ?case by (auto simp: seq_Inr partial_Some index_value_Inr ret_def)
next
  case (RelE l op r)
  then show ?case by (auto simp: seq_Inr partial_Some ret_def) metis
next
  case (AddBin a op t)
  then show ?case by (auto simp: seq_Inr partial_Some ret_def) metis
next
  case (TermBin t op f)
  then show ?case by (auto simp: seq_Inr partial_Some ret_def) metis
next
  case (FNum k)
  then show ?case by (auto simp: ret_def split: num.splits)
qed (auto simp: partial_Some ret_def)

section \<open>The two orders\<close>

text \<open>An assignment to an element whose index and right side only read.\<close>

lemma below_swap:
  assumes "reads_var v" and "reads_expression e"
    and "\<And>m. below (eval_place PlaceFirst cf D v m) (eval_place ValueFirst cf' D v m)"
    and "\<And>m. below (eval_expression PlaceFirst cf D e m) (eval_expression ValueFirst cf' D e m)"
  shows "below (eval_expression PlaceFirst cf D (AssignE v e) m) (eval_expression ValueFirst cf' D (AssignE v e) m)"
  unfolding below_def
proof (intro allI impI)
  fix y assume "eval_expression PlaceFirst cf D (AssignE v e) m = Some (Inr y)"
  then obtain t ob i m1 x m2 where p: "eval_place PlaceFirst cf D v m = Some (Inr ((t, ob, i), m1))"
    "eval_expression PlaceFirst cf D e m1 = Some (Inr (x, m2))"
    "partial (convert t x) (\<lambda>y. partial (store ob i y m2) (\<lambda>m. ret y m)) = Some (Inr y)"
    by (auto simp: seq_Inr)
  have "m1 = m" using reads_same(2) [OF assms(1)] p(1) by blast
  moreover have "m2 = m1" using reads_same(1) [OF assms(2) p(2)] .
  ultimately show "eval_expression ValueFirst cf' D (AssignE v e) m = Some (Inr y)"
    using p assms(3,4) by (auto simp: below_def)
qed

lemma below_args:
  assumes "\<And>e m. e \<in> set es \<Longrightarrow> below (eval_expression PlaceFirst cf D e m) (eval_expression ValueFirst cf' D e m)"
  shows "below (eval_args PlaceFirst cf D es ps m) (eval_args ValueFirst cf' D es ps m)"
  using assms
proof (induction es arbitrary: ps m)
  case (Cons e es)
  then show ?case by (cases ps) (auto intro!: below_seq below_partial)
qed simp

lemma free_args_set: "free_args es \<Longrightarrow> e \<in> set es \<Longrightarrow> free_expression e"
  by (induction es) auto

lemma reads_free:
  "reads_expression e \<Longrightarrow> free_expression e" "reads_var v \<Longrightarrow> free_var v" "reads_additive a \<Longrightarrow> free_additive a"
  "reads_term t \<Longrightarrow> free_term t" "reads_factor f \<Longrightarrow> free_factor f"
  by (induction e and v and a and t and f) auto

lemma eval_below:
  assumes cf: "code_below cf cf'"
  shows "free_expression e \<Longrightarrow> below (eval_expression PlaceFirst cf D e m) (eval_expression ValueFirst cf' D e m)"
    "free_var v \<Longrightarrow> below (eval_place PlaceFirst cf D v m) (eval_place ValueFirst cf' D v m) \<and>
       below (eval_factor PlaceFirst cf D (FVar v) m) (eval_factor ValueFirst cf' D (FVar v) m)"
    "free_additive a \<Longrightarrow> below (eval_additive PlaceFirst cf D a m) (eval_additive ValueFirst cf' D a m)"
    "free_term t \<Longrightarrow> below (eval_term PlaceFirst cf D t m) (eval_term ValueFirst cf' D t m)"
    "free_factor f \<Longrightarrow> below (eval_factor PlaceFirst cf D f m) (eval_factor ValueFirst cf' D f m)"
proof (induction e and v and a and t and f arbitrary: m and m and m and m and m)
  case (AssignE v e)
  then have e: "below (eval_expression PlaceFirst cf D e m) (eval_expression ValueFirst cf' D e m)" for m by simp
  show ?case
  proof (cases v)
    case (Var n)
    show ?thesis
    proof (cases "variable D n")
      case None
      then show ?thesis by (simp add: Var below_def)
    next
      case (Some q)
      then show ?thesis by (cases q) (auto simp: Var intro!: below_seq e)
    qed
  next
    case (VarIndex n i)
    then have r: "reads_var v" "reads_expression e" "free_var v" using AssignE.prems reads_free(1) by auto
    show ?thesis using below_swap [OF r(1,2)] AssignE(1) r(3) e by simp
  qed
next
  case (VarIndex n e)
  then have e: "below (eval_expression PlaceFirst cf D e m) (eval_expression ValueFirst cf' D e m)" for m by simp
  have p: "below (eval_place PlaceFirst cf D (VarIndex n e) m) (eval_place ValueFirst cf' D (VarIndex n e) m)"
    unfolding eval_place.simps by (auto intro!: below_seq below_partial e below_index)
  then show ?case unfolding eval_factor.simps by (auto intro!: below_seq below_partial)
next
  case (FCall n es)
  have "below (eval_args PlaceFirst cf D es ps m) (eval_args ValueFirst cf' D es ps m)" for ps m
    using FCall free_args_set by (intro below_args) auto
  then show ?case using cf by (auto intro!: below_seq below_partial simp: code_below_def)
qed (auto intro!: below_seq below_partial)

lemma loop_below:
  assumes "\<And>m. below (c m) (c' m)" and "\<And>m. below (b m) (b' m)"
  shows "below (loop n c b m) (loop n c' b' m)"
  by (induction n arbitrary: m) (auto intro!: below_seq below_partial assms split: flow.split)

lemma exec_below:
  assumes cf: "code_below cf cf'"
  shows "free_statement st \<Longrightarrow> below (exec PlaceFirst cf n r D st m) (exec ValueFirst cf' n r D st m)"
    "free_statements ss \<Longrightarrow> below (exec_all PlaceFirst cf n r D ss m) (exec_all ValueFirst cf' n r D ss m)"
proof (induction st and ss arbitrary: D m and D m rule: free_statement_free_statements.induct)
  case (1 ds ss)
  then show ?case by (auto split: prod.split)
next
  case (6 e st)
  then show ?case by (auto intro!: loop_below eval_below(1) [OF cf])
qed (auto intro!: below_seq below_partial eval_below(1) [OF cf] split: flow.split)

lemma run_body_below:
  assumes "code_below cf cf'" and "free_statements (fd_body d)"
  shows "below (run_body PlaceFirst cf n D d xs m) (run_body ValueFirst cf' n D d xs m)"
  using exec_below(2) [OF assms] unfolding run_body_def
  by (auto intro!: below_partial below_seq split: prod.split flow.split simp: Let_def)

fun free_def :: "def \<Rightarrow> bool" where
  "free_def (Library n) = True"
| "free_def (Defined D d) = free_statements (fd_body d)"

lemma call_fun_below: "list_all free_def T \<Longrightarrow> code_below (call_fun PlaceFirst n T) (call_fun ValueFirst n T)"
proof (induction n)
  case 0
  then show ?case by (simp add: code_below_def)
next
  case (Suc n)
  have "below (call_fun PlaceFirst (Suc n) T k xs m) (call_fun ValueFirst (Suc n) T k xs m)" for k xs m
  proof (cases "k < length T")
    case True
    then have "free_def (T ! k)" using Suc.prems by (simp add: list_all_length)
    then show ?thesis
      using True run_body_below [OF Suc.IH [OF Suc.prems]] by (auto split: def.split)
  qed simp
  then show ?case unfolding code_below_def by blast
qed

lemma elaborates_free:
  "elaborates p (D, T, m) = (D', T', m') \<Longrightarrow> list_all free_decl p \<Longrightarrow> list_all free_def T \<Longrightarrow> list_all free_def T'"
proof (induction p arbitrary: D T m)
  case (Cons d p)
  obtain D1 T1 m1 where e: "elaborate d (D, T, m) = (D1, T1, m1)" by (cases "elaborate d (D, T, m)")
  have "list_all free_def T1" using e Cons.prems(2,3) by (cases d) (auto simp: Let_def split: prod.splits)
  then show ?case using Cons.IH [of D1 T1 m1] Cons.prems(1,2) e by simp
qed simp

text \<open>A program that ends normally in the order of the document does the same in the other order.\<close>

lemma order_free_run:
  assumes "order_free p" and "run_program PlaceFirst n p is = Some (out, Some v)"
  shows "run_program ValueFirst n p is = Some (out, Some v)"
proof -
  obtain D T m where e: "elaborates p (library_den, library_defs, start_mem is) = (D, T, m)"
    by (cases "elaborates p (library_den, library_defs, start_mem is)")
  have "list_all free_def T"
    using elaborates_free [OF e] assms(1) by (simp add: order_free_def library_defs_def)
  from call_fun_below [OF this, of n] show ?thesis
    using assms(2) by (fastforce simp: run_program_def e code_below_def below_def split: option.splits den.splits sum.splits)
qed

end
