(* ===== verification/Simulation_Program.thy ===== *)
theory Simulation_Program
  imports Simulation_Functions Assignment_Order
begin

text \<open>
  The simulation for whole programs: what the code generator has built between two declarations
  agrees with the elaboration of the source so far, so the finished module behaves as the program.
\<close>

section \<open>Literals of a program\<close>

fun lit_decl :: "(float32 \<Rightarrow> bool) \<Rightarrow> decl \<Rightarrow> bool" where
  "lit_decl P (VarDecl d) = True"
| "lit_decl P (FunDecl d) = lit_statements P (fd_body d)"

definition lit_program :: "(float32 \<Rightarrow> bool) \<Rightarrow> program \<Rightarrow> bool" where
  "lit_program P p \<longleftrightarrow> list_all (lit_decl P) p"

section \<open>The declaration of a function\<close>

lemma fun_decl_parts:
  assumes r: "ready E s" and c: "check_decl E (FunDecl d)" and lit: "lit_statements plain (fd_body d)" and v: "visit_fun_decl d s = Inr s'"
  obtains f s1 s2 b s3 s4 s5 s6 s7 t s8 where
    "Function_create (fun_ty d) (fd_id d) s = Inr (f, s1)" "declare_name (fd_id d) (VFun f) s1 = Inr s2"
    "new_block ''entry'' (s2\<lparr>cur_fun := Some f\<rparr>) = Inr (b, s3)" "sound (bind (fd_id d) (fun_ty d) E) s3" "idle s3"
    "s4 = (set_insert_point b s3)\<lparr>scope := enter (scope s3), pre_enter_scope := True\<rparr>"
    "in_fun (result_ty (fd_type d)) (Map.empty # bind (fd_id d) (fun_ty d) E) s4"
    "\<And>j. j < length (fd_params d) \<Longrightarrow> has_type s4 (VArg f j) (par_ty (fd_params d ! j))" "length (scope s4) = 2"
    "visit_params f 0 (fd_params d) s4 = Inr s5" "visit_var_decls (fd_locals d) (s5\<lparr>pre_enter_scope := False\<rparr>) = Inr s6"
    "visit_statements (fd_body d) s6 = Inr s7" "terminated s7 = Inr t" "(if t then Inr s7 else default_return s7) = Inr s8"
    "s' = s8\<lparr>scope := scope s3\<rparr>" "past s4 s8" "same_lists s4 s8"
  using r
proof (rule fun_header)
  fix f s1 s2 b s3
  let ?E = "bind (fd_id d) (fun_ty d) E" and ?r = "result_ty (fd_type d)"
  let ?s4 = "(set_insert_point b s3)\<lparr>scope := enter (scope s3), pre_enter_scope := True\<rparr>"
  assume h: "Function_create (FunTy (return_ty (fd_type d)) (map param_type (fd_params d))) (fd_id d) s = Inr (f, s1)"
    "declare_name (fd_id d) (VFun f) s1 = Inr s2" "BasicBlock_create ''entry'' f (s2\<lparr>cur_fun := Some f\<rparr>) = Inr (b, s3)"
    "sound ?E s3" "idle s3" "cur_fun s3 = Some f" "owner s3 b = Some f" "f_types s3 f = Some (fun_ty d)"
  have ft: "FunTy (return_ty (fd_type d)) (map param_type (fd_params d)) = fun_ty d"
    by (simp add: fun_ty_def return_result param_par [abs_def])
  have len: "length (scope s3) = 1" using r h(4) env_ok_length by (fastforce simp: ready_def sound_def)
  note in4 = entry_in_fun [OF h(4,6,7,8)]
  have arg: "has_type ?s4 (VArg f (0 + j)) (par_ty (fd_params d ! j))" if "j < length (fd_params d)" for j
    using in4(2) [OF that] by simp
  obtain s5 where s5: "visit_params f 0 (fd_params d) ?s4 = Inr s5" "in_fun ?r (bind_params (fd_params d) (Map.empty # ?E)) s5"
    "declared ?s4 s5" "require_lvalue s5 = require_lvalue ?s4"
    using visit_params_gives [OF in4(1) _ arg] by (auto elim: returnsE)
  let ?s5 = "s5\<lparr>pre_enter_scope := False\<rparr>" and ?E5 = "bind_params (fd_params d) (Map.empty # ?E)"
  have x5: "exit (scope s5) = Inr (scope s3)" "length (scope s5) = 2" "pre_enter_scope s5"
    using s5(3) len by (simp_all add: declared_def enter_def)
  obtain s6 s7 t s8 where q: "visit_var_decls (fd_locals d) ?s5 = Inr s6" "visit_statements (fd_body d) s6 = Inr s7"
    "terminated s7 = Inr t" "(if t then Inr s7 else default_return s7) = Inr s8" "exit_scope s8 = Inr s'"
    using v h(1-3) s5(1) x5(3) by (auto simp: visit_fun_decl_def Let_def compound_enter_def compound_exit_def)
  have d6: "declared ?s5 s6" by (rule visit_var_decls_declared [OF q(1)])
  have fr: "framed s6 s7" using visit_statement_framed(2) [OF q(2)] d6 by (simp add: declared_def)
  have fr8: "framed s7 s8" using q(4) default_return_framed by (cases t) (auto simp: framed_def)
  have sc8: "exit (scope s8) = Inr (scope s3)" using framed_eq [OF fr] framed_eq [OF fr8] d6 x5(1) by (simp add: declared_def)
  then have s': "s' = s8\<lparr>scope := scope s3\<rparr>" using q(5) by (simp add: exit_scope_def)
  have p5: "past ?s4 s5" using past.params [OF s5(1) past_refl [OF in_fun_fresh [OF in4(1)]]] .
  then have p6: "past ?s4 s6" using past.var_decls [OF q(1)] by simp
  have p7: "past ?s4 s7" using past_trans [OF p6 visited_past(2) [OF q(2) lit pastD(1) [OF p6]]] .
  have p8: "past ?s4 s8" using q(4) p7 past_default_return [OF p7] by (cases t) auto
  have l5: "same_lists ?s4 s5" using lists.params [OF s5(1)] .
  have "\<not> in_global (scope ?s5)" using x5(2) by (simp add: in_global_def)
  from lists.var_decls [OF q(1) this] have l6: "same_lists s5 s6" by (simp add: same_lists_def f_types_def fun_eq_iff)
  have "length (scope s6) = 2" "\<not> pre_enter_scope s6" using d6 x5(2) by (simp_all add: declared_def)
  then have l7: "same_lists s6 s7" using lists.statements(2) [OF q(2)] by (cases "scope s6") simp_all
  have l8: "same_lists s7 s8" using q(4) default_return_lists by (cases t) (auto simp: same_lists_def)
  note l = same_lists_trans [OF l5 same_lists_trans [OF l6 same_lists_trans [OF l7 l8]]]
  have nb: "new_block ''entry'' (s2\<lparr>cur_fun := Some f\<rparr>) = Inr (b, s3)" using h(3) by (simp add: new_block_def)
  have l4: "length (scope ?s4) = 2" using len by (simp add: enter_def)
  show thesis
    by (rule that [OF h(1) [unfolded ft] h(2) nb h(4,5) HOL.refl in4(1) in4(2) l4 s5(1) q(1-4) s' p8 l])
qed


section \<open>Growth over declarations\<close>

text \<open>What a declaration leaves as it was: the code, the floats, and the blocks of the functions before it.\<close>

definition extends :: "cg \<Rightarrow> cg \<Rightarrow> bool" where
  "extends s s' \<longleftrightarrow> fresh_ok s' \<and> grows s s' \<and> (exact s \<longrightarrow> exact s') \<and> (\<forall>f. funs s f \<noteq> None \<longrightarrow> fblocks s' f = fblocks s f)"

lemma extends_refl: "fresh_ok s \<Longrightarrow> extends s s"
  by (simp add: extends_def)

lemma extends_trans: "extends s s1 \<Longrightarrow> extends s1 s2 \<Longrightarrow> extends s s2"
  unfolding extends_def using grows_trans growsD(7) by (metis not_Some_eq)

lemma Function_create_view:
  assumes "Function_create t n s = Inr (f, s')" and "fresh_ok s"
  shows "f = next_id s" "funs s f = None" "global_list s' = global_list s" "gvars s' = gvars s" "function_list s' = function_list s @ [f]"
    "cached_float s' = cached_float s" "fblocks s' = fblocks s" "next_id s' = Suc f" "ir.more s' = ir.more s"
    "f_types s' = (f_types s)(f \<mapsto> t)" "funs s' = (funs s)(f \<mapsto> the (funs s' f))" "\<exists>fn. funs s' f = Some fn \<and> f_name fn = n \<and> f_type fn = t"
    "extends s s'"
proof -
  have none: "funs s (next_id s) = None" using fresh_okD(3) [OF assms(2)] by simp
  obtain as where as: "fun_params t = Inr as" using assms(1) by (cases "fun_params t") (simp_all add: Function_create_def)
  have m: "f = next_id s" "s' = s\<lparr>next_id := Suc (next_id s),
      funs := (funs s)(next_id s \<mapsto> \<lparr>f_name = n, f_type = t, basic_blocks = [], arg_names = replicate (length as) '''', seq_cnt = 0\<rparr>),
      function_list := function_list s @ [next_id s]\<rparr>"
    using assms(1) by (auto simp: Function_create_def Let_def as)
  show "f = next_id s" "funs s f = None" "global_list s' = global_list s" "gvars s' = gvars s" "function_list s' = function_list s @ [f]"
    "cached_float s' = cached_float s" "next_id s' = Suc f" "ir.more s' = ir.more s"
    "f_types s' = (f_types s)(f \<mapsto> t)" "funs s' = (funs s)(f \<mapsto> the (funs s' f))" "\<exists>fn. funs s' f = Some fn \<and> f_name fn = n \<and> f_type fn = t"
    using m none by (auto simp: f_types_def fun_eq_iff)
  show fb: "fblocks s' = fblocks s" using m none by (auto simp: fblocks_def fun_eq_iff)
  have "ilist s' = ilist s" "operands s' = operands s" "instrs s' = instrs s" using m by (simp_all add: ilist_def fun_eq_iff)
  moreover have "fresh_ok s'" using assms(2) m by (auto simp: fresh_ok_def)
  ultimately show "extends s s'"
    using m none fb by (auto simp: extends_def grows_def exact_def)
qed

lemma extends_cg:
  "ir.truncate s' = ir.truncate s \<Longrightarrow> extends s0 s' = extends s0 s"
  by (auto simp: extends_def grows_def exact_def fresh_ok_def ilist_def fblocks_def ir.truncate_def)

lemma fun_decl_extends:
  assumes r: "ready E s" and c: "check_decl E (FunDecl d)" and lit: "lit_statements plain (fd_body d)" and v: "visit_fun_decl d s = Inr s'"
  shows "extends s s'"
  using assms
proof (rule fun_decl_parts)
  fix f s1 s2 b s3 s4 s5 s6 s7 t s8
  assume h: "Function_create (fun_ty d) (fd_id d) s = Inr (f, s1)" "declare_name (fd_id d) (VFun f) s1 = Inr s2"
    "new_block ''entry'' (s2\<lparr>cur_fun := Some f\<rparr>) = Inr (b, s3)"
    "s4 = (set_insert_point b s3)\<lparr>scope := enter (scope s3), pre_enter_scope := True\<rparr>" "s' = s8\<lparr>scope := scope s3\<rparr>" "past s4 s8"
  have f: "fresh_ok s" using r by (simp add: ready_def sound_def)
  note k = Function_create_view [OF h(1) f]
  let ?s2 = "s2\<lparr>cur_fun := Some f\<rparr>"
  obtain sc where sc: "s2 = s1\<lparr>scope := sc\<rparr>" using h(2) by (auto simp: declare_name_Inr)
  have e2: "extends s ?s2" using k(13) extends_cg [of ?s2 s1 s] sc by (simp add: ir.truncate_def)
  have "past ?s2 s3" "next_id ?s2 \<le> b" using past_new_block [OF past_refl h(3)] e2 by (auto simp: extends_def)
  then have "past ?s2 s4" using past_insert h(4) by simp
  then have p: "past ?s2 s8" using past_trans h(6) by blast
  have "fblocks s8 g = fblocks s g" if "funs s g \<noteq> None" for g
  proof -
    have "g \<noteq> f" using that k(2) by auto
    then have "fblocks s8 g = fblocks ?s2 g" using pastD(7) [OF p, of g] by simp
    then show ?thesis using e2 that by (simp add: extends_def)
  qed
  then have "extends s s8" using pastD(1-3) [OF p] e2 grows_trans unfolding extends_def by blast
  then show ?thesis using extends_cg [of s' s8 s] h(5) by (simp add: ir.truncate_def)
qed

lemma GlobalVariable_create_view:
  assumes "GlobalVariable_create n t False (VConst c) s = Inr (v, s')" and "fresh_ok s"
  shows "v = VGlobal (next_id s)" "global_list s' = global_list s @ [next_id s]" "next_id s' = Suc (next_id s)"
    "gvars s' = (gvars s)(next_id s \<mapsto> \<lparr>g_name = n, g_type = PtrTy t, g_const = False, g_init = VConst c\<rparr>)"
    "function_list s' = function_list s" "funs s' = funs s" "ir.more s' = ir.more s" "extends s s'"
proof -
  show "v = VGlobal (next_id s)" "global_list s' = global_list s @ [next_id s]" "next_id s' = Suc (next_id s)"
    "gvars s' = (gvars s)(next_id s \<mapsto> \<lparr>g_name = n, g_type = PtrTy t, g_const = False, g_init = VConst c\<rparr>)"
    "function_list s' = function_list s" "funs s' = funs s" "ir.more s' = ir.more s"
    using assms(1) by (auto simp: GlobalVariable_create_def Let_def set_operand_Inr)
  then have "fblocks s' = fblocks s" by (simp add: fblocks_def fun_eq_iff)
  then show "extends s s'"
    using past_global [OF past_refl [OF assms(2)] assms(1)] by (auto simp: extends_def dest: pastD)
qed

lemma var_decl_parts:
  assumes "visit_var_decl d s = Inr s'" and "ready E s"
  obtains v s1 where "GlobalVariable_create (vd_id d) (decl_ty d) False (VConst (CZero (decl_ty d))) s = Inr (v, s1)"
    "declare_name (vd_id d) v s1 = Inr s'"
proof -
  have "in_global (scope s)" using assms(2) env_ok_length by (auto simp: ready_def sound_def in_global_def)
  moreover have "(case vd_num d of None \<Rightarrow> element_type (vd_type d) | Some n \<Rightarrow> ArrTy (element_type (vd_type d)) (unat n)) = decl_ty d"
    by (simp add: decl_ty_def element_number split: option.splits)
  ultimately show thesis using that assms(1) by (auto simp: visit_var_decl_def Let_def)
qed

lemma decl_extends:
  assumes "visit_decl d s = Inr s'" and "ready E s" and "check_decl E d" and "lit_decl plain d"
  shows "extends s s'"
proof (cases d)
  case (VarDecl x)
  have f: "fresh_ok s" using assms(2) by (simp add: ready_def sound_def)
  have "visit_var_decl x s = Inr s'" using assms(1) VarDecl by simp
  then show ?thesis
    using assms(2)
  proof (rule var_decl_parts)
    fix v s1 assume m: "GlobalVariable_create (vd_id x) (decl_ty x) False (VConst (CZero (decl_ty x))) s = Inr (v, s1)"
      "declare_name (vd_id x) v s1 = Inr s'"
    obtain sc where "s' = s1\<lparr>scope := sc\<rparr>" using m(2) by (auto simp: declare_name_Inr)
    then show ?thesis using GlobalVariable_create_view(8) [OF m(1) f] extends_cg [of s' s1 s] by (simp add: ir.truncate_def)
  qed
next
  case (FunDecl x)
  then show ?thesis using fun_decl_extends assms by simp
qed

lemma program_extends:
  "\<lbrakk>visit_program p s = Inr s'; ready E s; check_decls E p; lit_program plain p\<rbrakk> \<Longrightarrow> extends s s'"
proof (induction p arbitrary: s E)
  case Nil
  then show ?case using extends_refl by (simp add: ready_def sound_def)
next
  case (Cons d p)
  then obtain s1 where s1: "visit_decl d s = Inr s1" "visit_program p s1 = Inr s'" by auto
  have "extends s s1" using decl_extends [OF s1(1) Cons.prems(2)] Cons.prems(3,4) by (simp add: lit_program_def)
  moreover have "ready (bind_decl d E) s1" using visit_decl_ready [OF Cons.prems(2), of d] Cons.prems(3) s1(1) by simp
  then have "extends s1 s'" using Cons.IH [OF s1(2)] Cons.prems(3,4) by (simp add: lit_program_def)
  ultimately show ?case using extends_trans by blast
qed


section \<open>Between two declarations\<close>

text \<open>What a name of the global scope stands for in the module: the global variable of its object, or
  the function of its place in the table.\<close>

definition global_den :: "cg \<Rightarrow> string \<Rightarrow> den \<Rightarrow> val \<Rightarrow> bool" where
  "global_den s n d v \<longleftrightarrow> (case d of
     Slot t ob \<Rightarrow> ob < length (global_list s) \<and> v = VGlobal (global_list s ! ob)
   | Code k t \<Rightarrow> k < length (function_list s) \<and> v = VFun (function_list s ! k) \<and>
       (\<exists>fn. funs s (function_list s ! k) = Some fn \<and> f_name fn = n \<and> f_type fn = t))"

definition fid_of :: "cg \<Rightarrow> nat \<Rightarrow> nat \<times> ty" where
  "fid_of F k = (function_list F ! k, the (f_types F (function_list F ! k)))"

lemma prefix_nth: "prefix xs ys \<Longrightarrow> k < length xs \<Longrightarrow> k < length ys \<and> ys ! k = xs ! k"
  by (auto simp: prefix_def nth_append)

lemma position_nth: "distinct xs \<Longrightarrow> k < length xs \<Longrightarrow> position (xs ! k) (xs @ ys) = k"
proof (induction xs arbitrary: k)
  case (Cons x xs)
  then show ?case by (cases k) auto
qed simp

lemma global_den_grows:
  assumes "global_den s n d v" and "grows s s'"
  shows "global_den s' n d v"
proof (cases d)
  case (Slot t ob)
  then show ?thesis using assms(1) prefix_nth [OF growsD(8) [OF assms(2)]] by (simp add: global_den_def)
next
  case (Code k t)
  then obtain fn where k: "k < length (function_list s)" "v = VFun (function_list s ! k)"
    "funs s (function_list s ! k) = Some fn" "f_name fn = n" "f_type fn = t"
    using assms(1) by (auto simp: global_den_def)
  note p = prefix_nth [OF growsD(9) [OF assms(2)] k(1)]
  obtain fn' where "funs s' (function_list s ! k) = Some fn'" "f_name fn' = f_name fn" "f_type fn' = f_type fn"
    using growsD(7) [OF assms(2) k(3)] by blast
  then show ?thesis using Code k p by (simp add: global_den_def)
qed

lemma named_grows: "named_by (global_den s) D sc \<Longrightarrow> grows s s' \<Longrightarrow> named_by (global_den s') D sc"
  unfolding named_by_def using global_den_grows by blast

lemma global_env:
  assumes g: "named_by (global_den s) D (scope s)" and d: "distinct (global_list s)" and F: "grows s F"
  shows "env_rel (fid_of F) (start_regs F f xs) D s"
  unfolding env_rel_named named_by_def
proof (intro allI impI)
  fix n e assume "find_den D n = Some e"
  then have e: "global_den s n e (find (scope s) n)" using g by (simp add: named_by_def)
  show "case e of Slot t ob \<Rightarrow> value_of (start_regs F f xs) (find (scope s) n) = Some (PtrV ob 0)
    | Code k t \<Rightarrow> find (scope s) n = VFun (fst (fid_of F k)) \<and> snd (fid_of F k) = t"
  proof (cases e)
    case (Slot t ob)
    then have k: "ob < length (global_list s)" "find (scope s) n = VGlobal (global_list s ! ob)" using e by (simp_all add: global_den_def)
    obtain zs where zs: "global_list F = global_list s @ zs" using growsD(8) [OF F] by (auto simp: prefix_def)
    show ?thesis using Slot k position_nth [OF d k(1), of zs] by (simp add: start_regs_def zs)
  next
    case (Code k t)
    have "global_den F n e (find (scope s) n)" using global_den_grows [OF e F] .
    then show ?thesis using Code by (auto simp: global_den_def fid_of_def f_types_def)
  qed
qed

definition installed :: "cg \<Rightarrow> cg \<Rightarrow> def \<Rightarrow> nat \<Rightarrow> bool" where
  "installed F s x f \<longleftrightarrow> (\<exists>fn. funs s f = Some fn \<and> (case x of
     Library n \<Rightarrow> f_name fn = n \<and> (n, f_type fn) \<in> set library \<and> basic_blocks fn = []
   | Defined D d \<Rightarrow> f_type fn = fun_ty d \<and> compiled F (fid_of F) D d f \<and> lit_statements plain (fd_body d) \<and>
       check_statements (result_ty (fd_type d))
         (bind_vars (fd_locals d) (bind_params (fd_params d) (Map.empty # tenv_of D))) (fd_body d)))"

lemma fblocks_nil: "funs s f = Some fn \<Longrightarrow> fblocks s f = basic_blocks fn"
  by (simp add: fblocks_def)

lemma installed_extends:
  assumes "installed F s x f" and "extends s s'"
  shows "installed F s' x f"
proof -
  obtain fn where fn: "funs s f = Some fn" using assms(1) by (auto simp: installed_def)
  have e: "grows s s'" "fblocks s' f = fblocks s f" using assms(2) fn by (auto simp: extends_def)
  obtain fn' where fn': "funs s' f = Some fn'" "f_name fn' = f_name fn" "f_type fn' = f_type fn"
    using growsD(7) [OF e(1) fn] by blast
  have "basic_blocks fn' = basic_blocks fn" using e(2) fblocks_nil [OF fn] fblocks_nil [OF fn'(1)] by simp
  then show ?thesis using assms(1) fn fn' by (cases x) (auto simp: installed_def)
qed

text \<open>After some declarations: the environment \<open>D\<close>, the table \<open>T\<close> and the memory \<open>m\<close> of the source, and the
  state \<open>s\<close> of the code generator, for the finished module \<open>F\<close>.\<close>

definition linked :: "cg \<Rightarrow> 32 word list \<Rightarrow> denv \<Rightarrow> def list \<Rightarrow> mem \<Rightarrow> cg \<Rightarrow> bool" where
  "linked F is D T m s \<longleftrightarrow> ready (tenv_of D) s \<and> exact s \<and> named_by (global_den s) D (scope s) \<and>
     distinct (global_list s) \<and> (\<forall>g \<in> set (global_list s). g < next_id s) \<and>
     m = global_objects s (global_list s) (empty_mem is) \<and> next_object m = length (global_list s) \<and>
     length T = length (function_list s) \<and> (\<forall>k < length T. installed F s (T ! k) (function_list s ! k))"

lemma global_objects_append: "global_objects s (gs @ hs) m = global_objects s hs (global_objects s gs m)"
  by (induction gs arbitrary: m) simp_all

lemma global_objects_cong: "(\<And>g. g \<in> set gs \<Longrightarrow> gvars s' g = gvars s g) \<Longrightarrow> global_objects s' gs m = global_objects s gs m"
  by (induction gs arbitrary: m) simp_all

lemma linked_var:
  assumes v: "visit_decl (VarDecl d) s = Inr s'" and e: "elaborate (VarDecl d) (D, T, m) = (D', T', m')" and l: "linked F is D T m s"
  shows "linked F is D' T' m' s'"
proof -
  have r: "ready (tenv_of D) s" "sound (tenv_of D) s" "fresh_ok s" "D \<noteq> []" using l by (auto simp: linked_def ready_def sound_def)
  have x: "extends s s'" using decl_extends [OF v r(1)] by simp
  have r': "ready (tenv_of D') s'" using visit_decl_ready [OF r(1), of "VarDecl d"] v e by (auto simp: tenv_bind den_ty_def split: prod.splits)
  have vd: "visit_var_decl d s = Inr s'" using v by simp
  show ?thesis
    using vd r(1)
  proof (rule var_decl_parts)
    fix w s1 assume p: "GlobalVariable_create (vd_id d) (decl_ty d) False (VConst (CZero (decl_ty d))) s = Inr (w, s1)"
      "declare_name (vd_id d) w s1 = Inr s'"
    note k = GlobalVariable_create_view [OF p(1) r(3)]
    obtain sc where sc: "s' = s1\<lparr>scope := sc\<rparr>" using p(2) by (auto simp: declare_name_Inr)
    have ok1: "env_ok (tenv_of D) s1"
      using GlobalVariable_create_sound [OF r(2), of "vd_id d" "decl_ty d" "CZero (decl_ty d)"] p(1) by (simp add: sound_def)
    have s1: "scope s1 = scope s" using cg_more(2) [OF k(7)] by simp
    have lt: "\<And>g. g \<in> set (global_list s) \<Longrightarrow> g < next_id s" using l by (simp add: linked_def)
    obtain ob where ob: "alloc (decl_ty d) (Some (zero_value (decl_ty d))) m = (ob, m')" "T' = T" "D' = bind_den (vd_id d) (Slot (decl_ty d) ob) D"
      "ob = length (global_list s)" "next_object m' = Suc ob"
      using e l by (auto simp: alloc_def linked_def)
    have "named_by (global_den s1) D (scope s1)"
      using l named_grows [of s D "scope s" s1] k(8) s1 by (simp add: linked_def extends_def)
    moreover have "global_den s1 (vd_id d) (Slot (decl_ty d) ob) w" using k(1,2) ob(4) by (simp add: global_den_def)
    ultimately have "named_by (global_den s1) D' (scope s')" using named_by_bind [OF ok1 r(4) _ p(2)] ob(3) by blast
    moreover have "grows s1 s'" using sc by (simp add: grows_def ilist_def fblocks_def)
    ultimately have n: "named_by (global_den s') D' (scope s')" using named_grows by blast
    have "m = global_objects s (global_list s) (empty_mem is)" using l by (simp add: linked_def)
    also have "\<dots> = global_objects s1 (global_list s) (empty_mem is)"
      using global_objects_cong [of "global_list s" s1 s] lt k(4) by fastforce
    finally have "m' = global_objects s1 (global_list s1) (empty_mem is)"
      using ob(1) k(4) by (simp add: k(2) global_objects_append)
    also have "\<dots> = global_objects s' (global_list s') (empty_mem is)" using global_objects_cong [of "global_list s1" s' s1] sc by simp
    finally have m: "m' = global_objects s' (global_list s') (empty_mem is)" .
    have lists: "global_list s' = global_list s @ [next_id s]" "function_list s' = function_list s" "next_id s' = Suc (next_id s)"
      using k sc by simp_all
    have "distinct (global_list s')" using l lt by (force simp: linked_def lists)
    moreover have "g < next_id s'" if "g \<in> set (global_list s')" for g using that lt by (auto simp: lists less_Suc_eq)
    moreover have "installed F s' (T' ! k) (function_list s' ! k)" if "k < length T'" for k
      using l that installed_extends [OF _ x] by (simp add: linked_def lists ob(2))
    moreover have "exact s'" using l x by (simp add: linked_def extends_def)
    ultimately show ?thesis
      using r' n m l ob by (simp add: linked_def lists)
  qed
qed


lemma fun_lists:
  assumes "same_lists s4 s8"
  shows "global_list s8 = global_list s4" "function_list s8 = function_list s4" "gvars s8 = gvars s4" "f_types s8 = f_types s4"
  using assms by (simp_all add: same_lists_def)

lemma linked_fun:
  assumes v: "visit_decl (FunDecl d) s = Inr s'" and e: "elaborate (FunDecl d) (D, T, m) = (D', T', m')" and l: "linked F is D T m s"
    and c: "check_decl (tenv_of D) (FunDecl d)" and lit: "lit_decl plain (FunDecl d)" and F: "grows s' F"
  shows "linked F is D' T' m' s'"
proof -
  have r: "ready (tenv_of D) s" "sound (tenv_of D) s" "fresh_ok s" "D \<noteq> []" using l by (auto simp: linked_def ready_def sound_def)
  have D': "D' = bind_den (fd_id d) (Code (length T) (fun_ty d)) D" "T' = T @ [Defined D' d]" "m' = m" using e by (auto simp: Let_def)
  have t': "tenv_of D' = bind (fd_id d) (fun_ty d) (tenv_of D)" by (simp add: D'(1) tenv_bind den_ty_def)
  have x: "extends s s'" using decl_extends [OF v r(1) c lit] .
  have r': "ready (tenv_of D') s'" using visit_decl_ready [OF r(1) c] v t' by simp
  have lt: "lit_statements plain (fd_body d)" and vd: "visit_fun_decl d s = Inr s'" using lit v by simp_all
  show ?thesis
    using r(1) c lt vd
  proof (rule fun_decl_parts)
    fix f s1 s2 b s3 s4 s5 s6 s7 t s8
    assume h: "Function_create (fun_ty d) (fd_id d) s = Inr (f, s1)" "declare_name (fd_id d) (VFun f) s1 = Inr s2"
      "new_block ''entry'' (s2\<lparr>cur_fun := Some f\<rparr>) = Inr (b, s3)" "sound (bind (fd_id d) (fun_ty d) (tenv_of D)) s3" "idle s3"
      "s4 = (set_insert_point b s3)\<lparr>scope := enter (scope s3), pre_enter_scope := True\<rparr>"
      "in_fun (result_ty (fd_type d)) (Map.empty # bind (fd_id d) (fun_ty d) (tenv_of D)) s4"
      "\<And>j. j < length (fd_params d) \<Longrightarrow> has_type s4 (VArg f j) (par_ty (fd_params d ! j))" "length (scope s4) = 2"
      "visit_params f 0 (fd_params d) s4 = Inr s5" "visit_var_decls (fd_locals d) (s5\<lparr>pre_enter_scope := False\<rparr>) = Inr s6"
      "visit_statements (fd_body d) s6 = Inr s7" "terminated s7 = Inr t" "(if t then Inr s7 else default_return s7) = Inr s8"
      "s' = s8\<lparr>scope := scope s3\<rparr>" "past s4 s8" "same_lists s4 s8"
    note k = Function_create_view [OF h(1) r(3)]
    let ?s2 = "s2\<lparr>cur_fun := Some f\<rparr>"
    obtain sc where sc: "s2 = s1\<lparr>scope := sc\<rparr>" using h(2) by (auto simp: declare_name_Inr)
    have f1: "fresh_ok ?s2" using k(13) sc by (simp add: extends_def fresh_ok_def)
    note nb = new_block_facts [OF f1 h(3)]
    have l3: "same_lists ?s2 s3" using new_block_lists [OF h(3)] .
    have l1: "global_list ?s2 = global_list s" "function_list ?s2 = function_list s @ [f]" "gvars ?s2 = gvars s"
      using k sc by simp_all
    have l4: "same_lists s3 s4" unfolding h(6) by (simp add: same_lists_def set_insert_point_def f_types_def fun_eq_iff)
    note l38 = same_lists_trans [OF l4 h(17)]
    have lists: "global_list s' = global_list s" "function_list s' = function_list s @ [f]" "gvars s' = gvars s"
      "global_list s3 = global_list s" "function_list s3 = function_list s @ [f]"
      using fun_lists [OF same_lists_trans [OF l3 l38]] fun_lists [OF l3] l1 h(15) by simp_all
    have p3: "past ?s2 s3" using past_new_block [OF past_refl [OF f1] h(3)] by blast
    have g13: "grows s1 s3"
    proof -
      have "grows s1 ?s2" using sc by (simp add: grows_def ilist_def fblocks_def)
      then show ?thesis using grows_trans pastD(2) [OF p3] by blast
    qed
    have g34: "grows s3 s4" unfolding h(6) by (simp add: set_insert_point_def grows_def ilist_def fblocks_def)
    have F8: "grows s8 F" using F h(15) by simp
    note F4 = past_grows [OF h(16) F8]
    note F3 = grows_trans [OF g34 F4]
    have g3': "grows s3 s'"
      using grows_trans [OF g34 pastD(2) [OF h(16)]] h(15) by (simp add: grows_def ilist_def fblocks_def)
    have s1: "scope s1 = scope s" using cg_more(2) [OF k(9)] by simp
    have ok1: "env_ok (tenv_of D) s1"
      using Function_create_sound [OF r(2), of "result_ty (fd_type d)" "map par_ty (fd_params d)" "fd_id d"] h(1)
      by (simp add: fun_ty_def sound_def)
    have n1: "named_by (global_den s1) D (scope s1)"
      using l named_grows [of s D "scope s" s1] k(13) s1 by (simp add: linked_def extends_def)
    have "global_den s1 (fd_id d) (Code (length T) (fun_ty d)) (VFun f)"
      using k(12) l by (auto simp: global_den_def k(5) linked_def)
    from named_by_bind [OF ok1 r(4) n1 h(2) this] have "named_by (global_den s1) D' (scope s2)" unfolding D'(1) .
    moreover have "scope s3 = scope s2" using nb(9) by simp
    ultimately have n3: "named_by (global_den s3) D' (scope s3)" using named_grows g13 by simp
    have n': "named_by (global_den s') D' (scope s')" using named_grows [OF n3 g3'] h(15) by simp
    have d3: "distinct (global_list s3)" using l lists(4) by (simp add: linked_def)
    have sc4: "find (scope s4) j = find (scope s3) j" "find_den (Map.empty # D') j = find_den D' j" for j
      by (simp_all add: h(6) enter_def)
    have ready4: "ready_at (fid_of F) (result_ty (fd_type d)) (Map.empty # D') s4 (start_regs F f xs)" for xs
    proof -
      have "env_rel (fid_of F) (start_regs F f xs) D' s3" using global_env [OF n3 d3 F3] .
      then have "env_rel (fid_of F) (start_regs F f xs) (Map.empty # D') s4" unfolding env_rel_def sc4 .
      then show ?thesis using h(7) unfolding ready_at_def tenv_enter t' by simp
    qed
    have b3: "fblocks s3 f = [b]"
    proof -
      have "BasicBlock_create ''entry'' f ?s2 = Inr (b, s3)" using h(3) by (simp add: new_block_def)
      from BasicBlock_create_view(9) [OF this f1] have "fblocks s3 f = fblocks ?s2 f @ [b]" by simp
      moreover have "fblocks ?s2 = fblocks s" unfolding k(7) [symmetric] by (simp add: sc fblocks_def fun_eq_iff)
      moreover have "fblocks s f = []" using k(2) by (simp add: fblocks_def)
      ultimately show ?thesis by simp
    qed
    obtain bs fn where fn: "funs F f = Some fn" "basic_blocks fn = b # bs"
    proof -
      have "prefix [b] (fblocks F f)" using growsD(6) [OF F3, of f] b3 by simp
      then show thesis using that by (cases "funs F f") (auto simp: fblocks_def prefix_def)
    qed
    have "opened (set_insert_point b s3)" using opened_insert [OF nb(5) _ nb(8)] nb(2) by simp
    then have o4: "opened s4" using h(6) by simp
    have i4: "insert_bb s4 = Some b" "ilist s4 b = []" using h(6) nb(8) by (simp_all add: set_insert_point_def ilist_def)
    have rl: "\<not> require_lvalue s4" using h(5,6) by (simp add: idle_def set_insert_point_def)
    have comp: "compiled F (fid_of F) D' d f"
      unfolding compiled_def
      by (intro exI conjI allI impI) (rule fn i4 o4 ready4 h(8-14) rl F8 | assumption)+
    obtain fn1 where fn1: "funs s1 f = Some fn1" "f_type fn1 = fun_ty d" using k(12) by blast
    obtain fn' where fn': "funs s' f = Some fn'" "f_type fn' = fun_ty d"
      using growsD(7) [OF grows_trans [OF g13 g3'] fn1(1)] fn1(2) by auto
    have "check_statements (result_ty (fd_type d))
         (bind_vars (fd_locals d) (bind_params (fd_params d) (Map.empty # tenv_of D'))) (fd_body d)"
      using c t' by simp
    then have inst: "installed F s' (Defined D' d) f" using comp lt fn' by (simp add: installed_def)
    have len: "length T = length (function_list s)" using l by (simp add: linked_def)
    have "installed F s' (T' ! k) (function_list s' ! k)" if "k < length T'" for k
    proof (cases "k < length T")
      case True
      then have "installed F s (T ! k) (function_list s ! k)" using l by (simp add: linked_def)
      then show ?thesis using installed_extends [OF _ x] True len by (simp add: D'(2) lists nth_append)
    next
      case False
      then have "k = length T" using that D'(2) by simp
      then show ?thesis using inst len by (simp add: D'(2) lists nth_append)
    qed
    moreover have "m' = global_objects s' (global_list s') (empty_mem is)"
      using l global_objects_cong [of "global_list s" s' s] lists by (simp add: D'(3) linked_def)
    moreover have "\<forall>g \<in> set (global_list s'). g < next_id s'"
      using l growsD(1) [of s s'] x lists(1) by (auto simp: linked_def extends_def)
    moreover have "exact s'" using l x by (simp add: linked_def extends_def)
    moreover have "next_object m' = length (global_list s')" "distinct (global_list s')" "length T' = length (function_list s')"
      using l D'(2,3) lists(1,2) unfolding linked_def by auto
    ultimately show ?thesis using r' n' unfolding linked_def by blast
  qed
qed

lemma linked_program:
  "\<lbrakk>visit_program p s = Inr s'; elaborates p (D, T, m) = (D', T', m'); linked F is D T m s; check_decls (tenv_of D) p;
     lit_program plain p; grows s' F\<rbrakk> \<Longrightarrow> linked F is D' T' m' s'"
proof (induction p arbitrary: s D T m)
  case (Cons d p)
  obtain s1 where s1: "visit_decl d s = Inr s1" "visit_program p s1 = Inr s'" using Cons.prems(1) by auto
  obtain D1 T1 m1 where e: "elaborate d (D, T, m) = (D1, T1, m1)" by (cases "elaborate d (D, T, m)")
  have e': "elaborates p (D1, T1, m1) = (D', T', m')" using Cons.prems(2) e by simp
  have r: "ready (tenv_of D) s" using Cons.prems(3) by (simp add: linked_def)
  have c: "check_decl (tenv_of D) d" "check_decls (bind_decl d (tenv_of D)) p" "lit_decl plain d" "lit_program plain p"
    using Cons.prems(4,5) by (simp_all add: lit_program_def)
  have t: "tenv_of D1 = bind_decl d (tenv_of D)"
    using e by (cases d) (auto simp: tenv_bind den_ty_def Let_def split: prod.splits)
  have r1: "ready (bind_decl d (tenv_of D)) s1" using visit_decl_ready [OF r c(1)] s1(1) by simp
  have "extends s1 s'" using program_extends [OF s1(2) r1 c(2,4)] .
  then have F1: "grows s1 F" using grows_trans Cons.prems(6) by (auto simp: extends_def)
  have "linked F is D1 T1 m1 s1"
  proof (cases d)
    case (VarDecl x)
    then show ?thesis using linked_var s1(1) e Cons.prems(3) by blast
  next
    case (FunDecl x)
    then show ?thesis using linked_fun [OF _ _ Cons.prems(3)] s1(1) e c(1,3) F1 by blast
  qed
  then show ?case using Cons.IH [OF s1(2) e'] c(2,4) Cons.prems(6) t by simp
qed simp


section \<open>The library\<close>

lemma init_builder_state:
  "\<exists>s. init_builder = Inr s \<and> scope s = [[''input'' \<mapsto> VFun 0, ''output'' \<mapsto> VFun 1, ''outputFloat'' \<mapsto> VFun 2, ''neg_idx_except'' \<mapsto> VFun 3]] \<and>
     function_list s = [0, 1, 2, 3] \<and> global_list s = [] \<and> cached_float s = [] \<and>
     (\<forall>k < 4. \<exists>fn. funs s k = Some fn \<and> (f_name fn, f_type fn) = library ! k \<and> basic_blocks fn = [])"
  by (simp add: init_builder_def library_def Function_create_def Let_def empty_cg_def no_consts_def enter_def declare_name_def
      ir.defs const_state.defs users.defs numeral_eq_Suc less_Suc_eq)

lemma linked_library:
  assumes "init_builder = Inr s"
  shows "linked F is library_den library_defs (start_mem is) s"
proof -
  obtain sa where sa: "init_builder = Inr sa" "scope sa = [[''input'' \<mapsto> VFun 0, ''output'' \<mapsto> VFun 1, ''outputFloat'' \<mapsto> VFun 2, ''neg_idx_except'' \<mapsto> VFun 3]]"
    "function_list sa = [0, 1, 2, 3]" "global_list sa = []" "cached_float sa = []"
    "\<forall>k < 4. \<exists>fn. funs sa k = Some fn \<and> (f_name fn, f_type fn) = library ! k \<and> basic_blocks fn = []"
    using init_builder_state by blast
  have "Inr sa = (Inr s :: cg res)" unfolding sa(1) [symmetric] assms [symmetric] ..
  then have "sa = s" by simp
  note c = sa(2-5) [unfolded this] and k = sa(6) [unfolded this, rule_format]
  have nth: "function_list s ! j = j" if "j < 4" for j
    using that by (auto simp: c(2) numeral_eq_Suc less_Suc_eq)
  have t: "tenv_of library_den = library_env"
    by (auto simp: tenv_of_def library_den_def library_env_def den_ty_def fun_eq_iff)
  have "returns (Inr s :: cg res) (ready library_env)" using init_builder_ready unfolding assms .
  then have "ready (tenv_of library_den) s" by (simp add: t)
  moreover have "named_by (global_den s) library_den (scope s)"
    unfolding named_by_def
  proof (intro allI impI)
    fix n d assume "find_den library_den n = Some d"
    then obtain j t where j: "j < 4" "library ! j = (n, t)" "d = Code j t" "find (scope s) n = VFun j"
      by (auto simp: library_den_def library_def c(1) split: if_splits)
    then show "global_den s n d (find (scope s) n)"
      using k [OF j(1)] nth [OF j(1)] c(2) by (auto simp: global_den_def)
  qed
  moreover have "installed F s (library_defs ! j) (function_list s ! j)" if "j < length library_defs" for j
  proof -
    have j: "j < 4" using that by (simp add: library_defs_def)
    then have "library_defs ! j = Library (fst (library ! j))" "library ! j \<in> set library"
      by (auto simp: library_defs_def library_def numeral_eq_Suc less_Suc_eq)
    then show ?thesis using k [OF j] nth [OF j] by (auto simp: installed_def) (metis fst_conv)+
  qed
  ultimately show ?thesis
    by (simp add: linked_def c exact_def start_mem_def empty_mem_def library_defs_def)
qed

lemma library_type:
  assumes "lib_call n xs m = Some (Inr (v, m'))" and "(n, FunTy t ps) \<in> set library"
  shows "has_ty v t"
  using assms by (auto simp: lib_call_def library_def split: if_splits list.splits rv.splits)

section \<open>Calls and programs\<close>

text \<open>Every function of the table behaves as its function of the module, by induction over the bound of the calls.\<close>

lemma table_sim:
  assumes l: "linked F is D T m F"
  shows "calls_sim F (fid_of F) (call_fun ValueFirst n T)"
proof (induction n)
  case 0
  then show ?case by (simp add: calls_sim_def)
next
  case (Suc n)
  have ex: "exact F" using l by (simp add: linked_def)
  show ?case
    unfolding calls_sim_def
  proof (intro allI impI)
    fix k xs \<mu> r assume run: "call_fun ValueFirst (Suc n) T k xs \<mu> = Some r"
    then have k: "k < length T" by (auto split: if_splits)
    let ?f = "function_list F ! k"
    have inst: "installed F F (T ! k) ?f" using l k by (simp add: linked_def)
    then obtain fn where fn: "funs F ?f = Some fn" by (auto simp: installed_def)
    have fid: "fst (fid_of F k) = ?f" "snd (fid_of F k) = f_type fn" using fn by (simp_all add: fid_of_def f_types_def)
    show "calls F (fst (fid_of F k)) xs \<mu> r \<and>
      (\<forall>v m' t ps. r = Inr (v, m') \<longrightarrow> snd (fid_of F k) = FunTy t ps \<longrightarrow> has_ty v t)"
    proof (cases "T ! k")
      case (Library f)
      then have lib: "f_name fn = f" "(f, f_type fn) \<in> set library" "basic_blocks fn = []" using inst fn by (auto simp: installed_def)
      have c: "lib_call f xs \<mu> = Some r" using run k Library by simp
      then show ?thesis using calls_reach.library [OF fn lib(3)] lib(1,2) library_type unfolding fid by auto
    next
      case (Defined D' d)
      then have b: "f_type fn = fun_ty d" "compiled F (fid_of F) D' d ?f" "lit_statements plain (fd_body d)"
        "check_statements (result_ty (fd_type d)) (bind_vars (fd_locals d) (bind_params (fd_params d) (Map.empty # tenv_of D'))) (fd_body d)"
        using inst fn by (auto simp: installed_def)
      have c: "run_body ValueFirst (call_fun ValueFirst n T) n D' d xs \<mu> = Some r" using run k Defined by simp
      show ?thesis
        using body_sim [OF b(2) Suc.IH ex b(3,4) c] unfolding fid b(1) fun_ty_def by auto
    qed
  qed
qed

text \<open>A function returns a number or nothing.\<close>

lemma installed_result:
  assumes "installed F s x f" and "funs s f = Some fn"
  obtains r as where "f_type fn = FunTy r as" "\<And>v. has_ty v r \<Longrightarrow> v \<noteq> PtrV ob i"
proof -
  have "\<exists>r as. f_type fn = FunTy r as \<and> \<not> is_pointer_type r"
  proof (cases x)
    case (Library n)
    then have "(n, f_type fn) \<in> set library" using assms by (simp add: installed_def)
    then show ?thesis by (auto simp: library_def)
  next
    case (Defined D d)
    then have "f_type fn = fun_ty d" using assms by (simp add: installed_def)
    then show ?thesis by (cases "fd_type d") (auto simp: fun_ty_def)
  qed
  then show thesis using that by fastforce
qed

text \<open>A generated module holds the functions of the program, in their order, and runs them.\<close>

lemma generate_linked:
  assumes "well_typed p" and "lit_program (\<lambda>x. x \<noteq> 2 ^ 31) p" and e: "elaborates p (library_den, library_defs, start_mem is) = (D, T, m)"
  obtains F where "generate p = Inr F" "linked F is D T m F"
proof -
  obtain s0 where s0: "init_builder = Inr s0" "ready library_env s0"
    using init_builder_ready by (rule returnsE)
  obtain F where F: "visit_program p s0 = Inr F"
    using visit_program_ready [OF s0(2) assms(1) [unfolded well_typed_def]] by (auto simp: returns_def)
  have t: "tenv_of library_den = library_env"
    by (auto simp: tenv_of_def library_den_def library_env_def den_ty_def fun_eq_iff)
  have "linked F is D T m F"
    using linked_program [OF F e linked_library [OF s0(1)]] assms(1,2) by (simp add: t well_typed_def)
  moreover have "generate p = Inr F" using F unfolding generate_def s0(1) by simp
  ultimately show thesis by (rule that [rotated])
qed

lemma linked_calls: "linked F is D T m F \<Longrightarrow> call_fun ValueFirst n T k xs \<mu> = Some r \<Longrightarrow> calls F (function_list F ! k) xs \<mu> r"
  using table_sim [of F "is" D T m n] unfolding calls_sim_def fid_of_def by fastforce

lemma generate_runs:
  assumes "well_typed p" and "lit_program (\<lambda>x. x \<noteq> 2 ^ 31) p" and "run_program ValueFirst n p is = Some (out, v)"
  obtains s where "generate p = Inr s" "module_runs s is out v" "\<And>ob i. v \<noteq> Some (PtrV ob i)"
proof -
  obtain D T m where e: "elaborates p (library_den, library_defs, start_mem is) = (D, T, m)"
    by (cases "elaborates p (library_den, library_defs, start_mem is)")
  obtain F where F: "generate p = Inr F" and l: "linked F is D T m F" using generate_linked [OF assms(1,2) e] .
  obtain k u r where k: "find_den D ''main'' = Some (Code k u)" "call_fun ValueFirst n T k [] m = Some r"
    and r: "case r of Inl m \<Rightarrow> stdout m = out \<and> v = None | Inr (x, m) \<Rightarrow> stdout m = out \<and> v = Some x"
    using assms(3) e by (auto simp: run_program_def split: option.splits den.splits sum.splits)
  have sim: "calls F (function_list F ! k) [] m r"
      "r = Inr (x, m') \<Longrightarrow> the (f_types F (function_list F ! k)) = FunTy t as \<Longrightarrow> has_ty x t" for x m' t as
    using table_sim [OF l, of n] k(2) unfolding calls_sim_def fid_of_def by fastforce+
  have "k < length T" using k(2) by (cases n) (auto split: if_splits)
  then have inst: "installed F F (T ! k) (function_list F ! k)" using l by (simp add: linked_def)
  have num: "v \<noteq> Some (PtrV ob i)" for ob i
  proof
    assume "v = Some (PtrV ob i)"
    then obtain m' where x: "r = Inr (PtrV ob i, m')" using r by (auto split: sum.splits)
    obtain fn where fn: "funs F (function_list F ! k) = Some fn" using inst by (auto simp: installed_def)
    obtain t as where t: "f_type fn = FunTy t as" "\<And>v. has_ty v t \<Longrightarrow> v \<noteq> PtrV ob i" using installed_result [OF inst fn] by blast
    then have "has_ty (PtrV ob i) t" by (intro sim(2) [OF x]) (simp add: f_types_def fn)
    then show False using t(2) by blast
  qed
  note sim(1)
  moreover have "m = global_objects F (global_list F) (empty_mem is)" using l by (simp add: linked_def)
  moreover have "global_den F ''main'' (Code k u) (find (scope F) ''main'')" using l k(1) by (simp add: linked_def named_by_def)
  then obtain fn where "function_list F ! k \<in> set (function_list F)" "funs F (function_list F ! k) = Some fn" "f_name fn = ''main''"
    by (auto simp: global_den_def)
  ultimately have "module_runs F is out v" unfolding module_runs_def using r by blast
  with F num show thesis by (intro that)
qed

text \<open>C1: a well-typed program without the literal minus zero whose run does not depend on the order of its
  assignments (the document's, place first, or the generator's) is translated, and the module does what
  the program does: when the source reads the input \<open>is\<close>, prints \<open>out\<close> and ends with the result \<open>v\<close> of
  \<open>main\<close>, or by the handler of negative indices, so does the generated code, run instruction
  by instruction from the function \<open>main\<close>.\<close>

theorem generate_simulates:
  assumes "well_typed p" and "lit_program (\<lambda>x. x \<noteq> 2 ^ 31) p" and "\<And>ao. run_program ao n p is = Some (out, v)"
  shows "\<exists>s. generate p = Inr s \<and> module_runs s is out v"
  using generate_runs [OF assms] by blast

text \<open>\<open>int get(int a[], int i) { return a[i]; }
  void main(void) { int b[2]; int x; b[1] = x = input(); while (x) { output(get(b, 1) * x); x = x - 1; } b[x - 1] = 0; }\<close>
  With the input 2 it prints 4 and 2, and then the index is negative.\<close>

definition sample_run :: program where
  "sample_run =
    [FunDecl \<lparr>fd_type = TYPE_INT, fd_id = ''get'', fd_params =
        [\<lparr>p_type = TYPE_INT, p_id = ''a'', p_isarray = True\<rparr>, \<lparr>p_type = TYPE_INT, p_id = ''i'', p_isarray = False\<rparr>],
       fd_locals = [], fd_body = [Return (Some (factor_expr (FVar (VarIndex ''a'' (factor_expr (FVar (Var ''i'')))))))]\<rparr>,
     FunDecl \<lparr>fd_type = TYPE_VOID, fd_id = ''main'', fd_params = [],
       fd_locals = [\<lparr>vd_type = TYPE_INT, vd_id = ''b'', vd_num = Some 2\<rparr>, \<lparr>vd_type = TYPE_INT, vd_id = ''x'', vd_num = None\<rparr>],
       fd_body = [ExprStmt (Some (AssignE (VarIndex ''b'' (factor_expr (FNum (NumInt 1))))
            (AssignE (Var ''x'') (factor_expr (FCall ''input'' []))))),
          Iteration (factor_expr (FVar (Var ''x''))) (Compound []
            [ExprStmt (Some (factor_expr (FCall ''output'' [SimpleE (AddTerm (TermBin
               (TermFactor (FCall ''get'' [factor_expr (FVar (Var ''b'')), factor_expr (FNum (NumInt 1))])) OP_MUL (FVar (Var ''x''))))]))),
             ExprStmt (Some (AssignE (Var ''x'') (SimpleE (AddBin (AddTerm (TermFactor (FVar (Var ''x'')))) OP_MINUS
               (TermFactor (FNum (NumInt 1)))))))]),
          ExprStmt (Some (AssignE (VarIndex ''b'' (SimpleE (AddBin (AddTerm (TermFactor (FVar (Var ''x'')))) OP_MINUS
               (TermFactor (FNum (NumInt 1)))))) (factor_expr (FNum (NumInt 0)))))]\<rparr>]"

lemma sample_run_typed: "well_typed sample_run"
  by (simp add: well_typed_def sample_run_def library_env_def factor_expr_def fun_ty_def decl_ty_def
      numeric_def fits_def join_ty_def)

lemma sample_lit: "lit_program (\<lambda>x. x \<noteq> 2 ^ 31) sample_run"
  by (simp add: lit_program_def sample_run_def factor_expr_def)

text \<open>The domain of an environment is tested at one name.\<close>

declare domIff [code_unfold]

lemma sample_run_result: "run_program ao 4 sample_run [2] = Some ([PrintInt 4, PrintInt 2, PrintNegIndex], None)"
  by (cases ao; hypsubst; code_simp)

theorem generate_simulates_witness:
  "\<exists>s. generate sample_run = Inr s \<and> module_runs s [2] [PrintInt 4, PrintInt 2, PrintNegIndex] None"
  by (rule generate_simulates [OF sample_run_typed sample_lit sample_run_result])

section \<open>The order of the document\<close>

text \<open>C2: for a well-typed program without the literal minus zero, whose assignments to array elements
  have an index and a right side that only read, the language document alone says what the
  module does: when the run in the document's order (place first) ends normally, the module has its
  output and its result.\<close>

theorem generate_follows_document:
  assumes "well_typed p" and "lit_program (\<lambda>x. x \<noteq> 2 ^ 31) p" and "order_free p"
    and "run_program PlaceFirst n p is = Some (out, Some v)"
  shows "\<exists>s. generate p = Inr s \<and> module_runs s is out (Some v)"
  using generate_runs [OF assms(1,2) order_free_run [OF assms(3,4)]] by blast

text \<open>\<open>int a[3]; int next(int i) { return i + 1; }
  int main(void) { int i; i = 0; while (i < 2) { a[i + 1] = i * 5; i = next(i); } output(a[2]); return a[1]; }\<close>\<close>

definition sample_order :: program where
  "sample_order =
    [VarDecl \<lparr>vd_type = TYPE_INT, vd_id = ''a'', vd_num = Some 3\<rparr>,
     FunDecl \<lparr>fd_type = TYPE_INT, fd_id = ''next'', fd_params = [\<lparr>p_type = TYPE_INT, p_id = ''i'', p_isarray = False\<rparr>],
       fd_locals = [], fd_body = [Return (Some (SimpleE (AddBin (AddTerm (TermFactor (FVar (Var ''i'')))) OP_PLUS (TermFactor (FNum (NumInt 1))))))]\<rparr>,
     FunDecl \<lparr>fd_type = TYPE_INT, fd_id = ''main'', fd_params = [],
       fd_locals = [\<lparr>vd_type = TYPE_INT, vd_id = ''i'', vd_num = None\<rparr>],
       fd_body = [ExprStmt (Some (AssignE (Var ''i'') (factor_expr (FNum (NumInt 0))))),
          Iteration (RelE (AddTerm (TermFactor (FVar (Var ''i'')))) OP_LT (AddTerm (TermFactor (FNum (NumInt 2)))))
            (Compound []
              [ExprStmt (Some (AssignE (VarIndex ''a'' (SimpleE (AddBin (AddTerm (TermFactor (FVar (Var ''i'')))) OP_PLUS (TermFactor (FNum (NumInt 1))))))
                 (SimpleE (AddTerm (TermBin (TermFactor (FVar (Var ''i''))) OP_MUL (FNum (NumInt 5))))))),
               ExprStmt (Some (AssignE (Var ''i'') (factor_expr (FCall ''next'' [factor_expr (FVar (Var ''i''))]))))]),
          ExprStmt (Some (factor_expr (FCall ''output'' [factor_expr (FVar (VarIndex ''a'' (factor_expr (FNum (NumInt 2)))))]))),
          Return (Some (factor_expr (FVar (VarIndex ''a'' (factor_expr (FNum (NumInt 1)))))))]\<rparr>]"

lemma sample_order_ok: "well_typed sample_order" "lit_program (\<lambda>x. x \<noteq> 2 ^ 31) sample_order" "order_free sample_order"
  by (simp_all add: well_typed_def sample_order_def library_env_def factor_expr_def fun_ty_def decl_ty_def
      numeric_def fits_def join_ty_def lit_program_def order_free_def)

lemma sample_order_result: "run_program PlaceFirst 5 sample_order [] = Some ([PrintInt 5], Some (IntV 0))"
  by code_simp

theorem generate_follows_document_witness:
  "\<exists>s. generate sample_order = Inr s \<and> module_runs s [] [PrintInt 5] (Some (IntV 0))"
  by (rule generate_follows_document [OF sample_order_ok sample_order_result])

text \<open>Where an index and a right side both print, the module does not follow the document:
  \<open>int a[2]; int f(int x) { output(x); return x; } void main(void) { a[f(0)] = f(1); }\<close>\<close>

definition sample_swap :: program where
  "sample_swap =
    [VarDecl \<lparr>vd_type = TYPE_INT, vd_id = ''a'', vd_num = Some 2\<rparr>,
     FunDecl \<lparr>fd_type = TYPE_INT, fd_id = ''f'', fd_params = [\<lparr>p_type = TYPE_INT, p_id = ''x'', p_isarray = False\<rparr>],
       fd_locals = [], fd_body = [ExprStmt (Some (factor_expr (FCall ''output'' [factor_expr (FVar (Var ''x''))]))),
          Return (Some (factor_expr (FVar (Var ''x''))))]\<rparr>,
     FunDecl \<lparr>fd_type = TYPE_VOID, fd_id = ''main'', fd_params = [], fd_locals = [],
       fd_body = [ExprStmt (Some (AssignE (VarIndex ''a'' (factor_expr (FCall ''f'' [factor_expr (FNum (NumInt 0))])))
          (factor_expr (FCall ''f'' [factor_expr (FNum (NumInt 1))]))))]\<rparr>]"

lemma sample_swap_ok: "well_typed sample_swap" "lit_program (\<lambda>x. x \<noteq> 2 ^ 31) sample_swap"
  by (simp_all add: well_typed_def sample_swap_def library_env_def factor_expr_def fun_ty_def decl_ty_def
      numeric_def fits_def join_ty_def lit_program_def)

lemma sample_swap_result:
  "run_program PlaceFirst 4 sample_swap [] = Some ([PrintInt 0, PrintInt 1], Some VoidV)"
  "run_program ValueFirst 4 sample_swap [] = Some ([PrintInt 1, PrintInt 0], Some VoidV)"
  by code_simp+

lemma assignment_order_differs:
  "run_program PlaceFirst 4 sample_swap [] = Some ([PrintInt 0, PrintInt 1], Some VoidV) \<and>
   (\<exists>s. generate sample_swap = Inr s \<and> module_runs s [] [PrintInt 1, PrintInt 0] (Some VoidV))"
  using generate_runs [OF sample_swap_ok sample_swap_result(2)] sample_swap_result(1) by blast

end
