(* ===== verification/IR_Print.thy ===== *)
theory IR_Print
  imports IR_Invariants
begin

text \<open>
  Names and text of the intermediate representation: \<open>Function::set_instr_name\<close>, the
  \<open>print\<close> methods of every class under \<open>lightir/\<close> and the helpers of
  \<open>IRprinter.cpp\<close>. The main result is that the names which \<open>set_instr_name\<close> gives
  inside a function are complete and unique, however often it runs.
\<close>

section \<open>Names\<close>

text \<open>\<open>Value::get_name\<close>; the constants have no name.\<close>

fun get_name :: "'z ir_scheme \<Rightarrow> val \<Rightarrow> string res" where
  "get_name s VNull = Inl NullDeref"
| "get_name s (VConst c) = Inr ''''"
| "get_name s (VGlobal g) = bnd (deref (gvars s g)) (\<lambda>x. Inr (g_name x))"
| "get_name s (VFun f) = bnd (deref (funs s f)) (\<lambda>x. Inr (f_name x))"
| "get_name s (VArg f i) =
     bnd (deref (funs s f)) (\<lambda>x.
     bnd (ensure (i < length (arg_names x)) NullDeref) (\<lambda>_. Inr (arg_names x ! i)))"
| "get_name s (VBB b) = bnd (deref (blocks s b)) (\<lambda>x. Inr (bb_name x))"
| "get_name s (VInstr p) = bnd (deref (instrs s p)) (\<lambda>x. Inr (i_name x))"

text \<open>The assignment of the member \<open>name_\<close> of the classes that get one here.\<close>

fun write_name :: "'z ir_scheme \<Rightarrow> val \<Rightarrow> string \<Rightarrow> 'z ir_scheme" where
  "write_name s (VArg f i) n =
     (case funs s f of None \<Rightarrow> s | Some x \<Rightarrow> s\<lparr>funs := (funs s)(f \<mapsto> x\<lparr>arg_names := (arg_names x)[i := n]\<rparr>)\<rparr>)"
| "write_name s (VBB b) n =
     (case blocks s b of None \<Rightarrow> s | Some x \<Rightarrow> s\<lparr>blocks := (blocks s)(b \<mapsto> x\<lparr>bb_name := n\<rparr>)\<rparr>)"
| "write_name s (VInstr p) n =
     (case instrs s p of None \<Rightarrow> s | Some x \<Rightarrow> s\<lparr>instrs := (instrs s)(p \<mapsto> x\<lparr>i_name := n\<rparr>)\<rparr>)"
| "write_name s v n = s"

text \<open>\<open>Value::set_name\<close>: a value is named once.\<close>

definition set_name :: "val \<Rightarrow> string \<Rightarrow> 'z ir_scheme \<Rightarrow> (bool \<times> 'z ir_scheme) res" where
  "set_name v n s =
     bnd (get_name s v) (\<lambda>old. Inr (if old = '''' then (True, write_name s v n) else (False, s)))"

text \<open>One step of \<open>set_instr_name\<close>; \<open>seq\<close> holds the keys of the local map, whose size
  numbers the next value.\<close>

definition name_one :: "nat \<Rightarrow> string \<Rightarrow> val \<Rightarrow> val list \<times> 'z ir_scheme \<Rightarrow> (val list \<times> 'z ir_scheme) res" where
  "name_one base pre v = (\<lambda>(seq, s).
     if v \<in> set seq then Inr (seq, s)
     else bnd (set_name v (pre @ show_nat (length seq + base)) s) (\<lambda>(done, s).
          Inr (if done then v # seq else seq, s)))"

fun name_args :: "nat \<Rightarrow> val list \<Rightarrow> val list \<times> 'z ir_scheme \<Rightarrow> (val list \<times> 'z ir_scheme) res" where
  "name_args base [] st = Inr st"
| "name_args base (a # as) st = bnd (name_one base ''arg'' a st) (name_args base as)"

fun name_instrs :: "nat \<Rightarrow> nat list \<Rightarrow> val list \<times> 'z ir_scheme \<Rightarrow> (val list \<times> 'z ir_scheme) res" where
  "name_instrs base [] st = Inr st"
| "name_instrs base (p # ps) st =
     bnd (deref (instrs (snd st) p)) (\<lambda>ins.
     bnd (if is_void_instr ins then Inr st else name_one base ''op'' (VInstr p) st) (name_instrs base ps))"

fun name_blocks :: "nat \<Rightarrow> nat list \<Rightarrow> val list \<times> 'z ir_scheme \<Rightarrow> (val list \<times> 'z ir_scheme) res" where
  "name_blocks base [] st = Inr st"
| "name_blocks base (b # bs) st =
     bnd (name_one base ''label'' (VBB b) st) (\<lambda>st.
     bnd (deref (blocks (snd st) b)) (\<lambda>k.
     bnd (name_instrs base (instr_list k) st) (name_blocks base bs)))"

definition args_of :: "nat \<Rightarrow> func \<Rightarrow> val list" where
  "args_of f fn = map (VArg f) [0..<length (arg_names fn)]"

definition set_instr_name :: "nat \<Rightarrow> 'z ir_scheme \<Rightarrow> 'z ir_scheme res" where
  "set_instr_name f s =
     bnd (deref (funs s f)) (\<lambda>fn.
     bnd (name_args (seq_cnt fn) (args_of f fn) ([], s)) (\<lambda>st.
     bnd (name_blocks (seq_cnt fn) (basic_blocks fn) st) (\<lambda>(seq, s).
     bnd (deref (funs s f)) (\<lambda>fn.
     Inr (s\<lparr>funs := (funs s)(f \<mapsto> fn\<lparr>seq_cnt := seq_cnt fn + length seq\<rparr>)\<rparr>)))))"

fun set_names :: "nat list \<Rightarrow> 'z ir_scheme \<Rightarrow> 'z ir_scheme res" where
  "set_names [] s = Inr s"
| "set_names (f # fs) s = bnd (set_instr_name f s) (set_names fs)"

definition set_print_name :: "'z ir_scheme \<Rightarrow> 'z ir_scheme res" where
  "set_print_name s = set_names (function_list s) s"

section \<open>Constants\<close>

text \<open>The bits of the double that a float converts to: the exponent is rebiased and the
  fraction widened; a subnormal float is a normal double.\<close>

definition double_bits :: "float32 \<Rightarrow> nat" where
  "double_bits v =
     (let s = (if f_sign v then 2 ^ 63 else 0); e = f_exp v; f = f_frac v
      in if e = 255 then s + 2047 * 2 ^ 52 + (if f = 0 then 0 else (2 ^ 22 + f mod 2 ^ 22) * 2 ^ 29)
         else if e = 0 then
           if f = 0 then s
           else let k = bit_len f - 1 in s + (k + 874) * 2 ^ 52 + (f - 2 ^ k) * 2 ^ (52 - k)
         else s + (e + 896) * 2 ^ 52 + f * 2 ^ 29)"

definition hex_digit :: "nat \<Rightarrow> char" where
  "hex_digit d = (if d < 10 then char_of (48 + d) else char_of (87 + d))"

fun show_hex :: "nat \<Rightarrow> string" where
  "show_hex n = (if n < 16 then [hex_digit n] else show_hex (n div 16) @ [hex_digit (n mod 16)])"

declare show_hex.simps [simp del]

definition print_fp :: "float32 \<Rightarrow> string" where
  "print_fp v = ''0x'' @ show_hex (double_bits v)"

fun print_const :: "const \<Rightarrow> string" where
  "print_const (CInt w) = show_int (sint w)"
| "print_const (CBool b) = (if b then ''true'' else ''false'')"
| "print_const (CFP v k) = print_fp v"
| "print_const (CZero t) = ''zeroinitializer''"

section \<open>Operands\<close>

definition print_as_op :: "'z ir_scheme \<Rightarrow> val \<Rightarrow> bool \<Rightarrow> string res" where
  "print_as_op s v print_ty =
     bnd (if print_ty then bnd (get_type s v) (\<lambda>t. Inr (print_type t @ '' '')) else Inr '''') (\<lambda>ty.
     case v of
       VConst c \<Rightarrow> Inr (ty @ print_const c)
     | VGlobal g \<Rightarrow> bnd (get_name s v) (\<lambda>n. Inr (ty @ ''@'' @ n))
     | VFun f \<Rightarrow> bnd (get_name s v) (\<lambda>n. Inr (ty @ ''@'' @ n))
     | _ \<Rightarrow> bnd (get_name s v) (\<lambda>n. Inr (ty @ ''%'' @ n)))"

fun print_cmp_type :: "cmpop \<Rightarrow> string" where
  "print_cmp_type GE = ''sge''"
| "print_cmp_type GT = ''sgt''"
| "print_cmp_type LE = ''sle''"
| "print_cmp_type LT = ''slt''"
| "print_cmp_type EQ = ''eq''"
| "print_cmp_type NE = ''ne''"

fun print_fcmp_type :: "cmpop \<Rightarrow> string" where
  "print_fcmp_type GE = ''uge''"
| "print_fcmp_type GT = ''ugt''"
| "print_fcmp_type LE = ''ule''"
| "print_fcmp_type LT = ''ult''"
| "print_fcmp_type EQ = ''ueq''"
| "print_fcmp_type NE = ''une''"

text \<open>The table \<open>instr_id2string_\<close> of the module.\<close>

fun get_instr_op_name :: "opid \<Rightarrow> string" where
  "get_instr_op_name Ret = ''ret''"
| "get_instr_op_name Br = ''br''"
| "get_instr_op_name Add = ''add''"
| "get_instr_op_name Sub = ''sub''"
| "get_instr_op_name Mul = ''mul''"
| "get_instr_op_name Sdiv = ''sdiv''"
| "get_instr_op_name Fadd = ''fadd''"
| "get_instr_op_name Fsub = ''fsub''"
| "get_instr_op_name Fmul = ''fmul''"
| "get_instr_op_name Fdiv = ''fdiv''"
| "get_instr_op_name Alloca = ''alloca''"
| "get_instr_op_name Load = ''load''"
| "get_instr_op_name Store = ''store''"
| "get_instr_op_name Cmp = ''icmp''"
| "get_instr_op_name Fcmp = ''fcmp''"
| "get_instr_op_name Phi = ''phi''"
| "get_instr_op_name Call = ''call''"
| "get_instr_op_name Getelementptr = ''getelementptr''"
| "get_instr_op_name Zext = ''zext''"
| "get_instr_op_name Sitofp = ''sitofp''"
| "get_instr_op_name Fptosi = ''fptosi''"

definition get_operand :: "'z users_scheme \<Rightarrow> val \<Rightarrow> nat \<Rightarrow> val res" where
  "get_operand s u i = bnd (ensure (i < length (operands s u)) OutOfBounds) (\<lambda>_. Inr (operands s u ! i))"

text \<open>Operand \<open>i\<close> without and with its type, and the type alone.\<close>

definition opnd :: "'z ir_scheme \<Rightarrow> nat \<Rightarrow> nat \<Rightarrow> string res" where
  "opnd s p i = bnd (get_operand s (VInstr p) i) (\<lambda>v. print_as_op s v False)"

definition opnd_ty :: "'z ir_scheme \<Rightarrow> nat \<Rightarrow> nat \<Rightarrow> ty res" where
  "opnd_ty s p i = bnd (get_operand s (VInstr p) i) (get_type s)"

definition typed_opnd :: "'z ir_scheme \<Rightarrow> nat \<Rightarrow> nat \<Rightarrow> string res" where
  "typed_opnd s p i = bnd (get_operand s (VInstr p) i) (\<lambda>v. print_as_op s v True)"

section \<open>Instructions\<close>

text \<open>The appends of a \<open>print\<close> method, in order.\<close>

fun appends :: "string res list \<Rightarrow> string res" where
  "appends [] = Inr ''''"
| "appends (r # rs) = bnd r (\<lambda>a. bnd (appends rs) (\<lambda>b. Inr (a @ b)))"

definition lit :: "string \<Rightarrow> string res" where
  "lit s = Inr s"

definition print_ty_of :: "'z ir_scheme \<Rightarrow> nat \<Rightarrow> nat \<Rightarrow> string res" where
  "print_ty_of s p i = bnd (opnd_ty s p i) (\<lambda>t. lit (print_type t))"

text \<open>The type that the pointer operand 0 points to.\<close>

definition print_pointee :: "'z ir_scheme \<Rightarrow> nat \<Rightarrow> string res" where
  "print_pointee s p =
     bnd (opnd_ty s p 0) (\<lambda>t.
     bnd (ensure (is_pointer_type t) AssertFail) (\<lambda>_.
     bnd (deref (get_pointer_element_type t)) (\<lambda>t. lit (print_type t))))"

text \<open>Operand 1, with its type when that is not the type of operand 0.\<close>

definition print_second :: "'z ir_scheme \<Rightarrow> nat \<Rightarrow> string res" where
  "print_second s p =
     bnd (opnd_ty s p 0) (\<lambda>t0.
     bnd (opnd_ty s p 1) (\<lambda>t1.
     if t0 = t1 then opnd s p 1 else typed_opnd s p 1))"

definition print_binary :: "'z ir_scheme \<Rightarrow> nat \<Rightarrow> instr \<Rightarrow> string res" where
  "print_binary s p ins = appends
     [lit ''%'', lit (i_name ins), lit '' = '', lit (get_instr_op_name (i_op ins)), lit '' '',
      print_ty_of s p 0, lit '' '', opnd s p 0, lit '', '', print_second s p]"

definition print_cmp :: "'z ir_scheme \<Rightarrow> nat \<Rightarrow> instr \<Rightarrow> cmpop \<Rightarrow> string res" where
  "print_cmp s p ins c = appends
     [lit ''%'', lit (i_name ins), lit '' = '', lit (get_instr_op_name (i_op ins)), lit '' '',
      lit (print_cmp_type c), lit '' '', print_ty_of s p 0, lit '' '', opnd s p 0, lit '', '', print_second s p]"

definition print_fcmp :: "'z ir_scheme \<Rightarrow> nat \<Rightarrow> instr \<Rightarrow> cmpop \<Rightarrow> string res" where
  "print_fcmp s p ins c = appends
     [lit ''%'', lit (i_name ins), lit '' = '', lit (get_instr_op_name (i_op ins)), lit '' '',
      lit (print_fcmp_type c), lit '' '', print_ty_of s p 0, lit '' '', opnd s p 0, lit '','', print_second s p]"

text \<open>The operands from number \<open>i\<close> on with their types, separated.\<close>

fun print_typed_list :: "'z ir_scheme \<Rightarrow> nat \<Rightarrow> bool \<Rightarrow> nat list \<Rightarrow> string res" where
  "print_typed_list s p first [] = lit ''''"
| "print_typed_list s p first (i # is) = appends
     [lit (if first then '''' else '', ''), print_ty_of s p i, lit '' '', opnd s p i,
      print_typed_list s p False is]"

definition print_call :: "'z ir_scheme \<Rightarrow> nat \<Rightarrow> instr \<Rightarrow> string res" where
  "print_call s p ins = appends
     [lit (if is_void_instr ins then '''' else ''%'' @ i_name ins @ '' = ''),
      lit (get_instr_op_name (i_op ins)), lit '' '',
      bnd (opnd_ty s p 0) (\<lambda>t. bnd (fun_result t) (\<lambda>r. lit (print_type r))), lit '' '',
      bnd (get_operand s (VInstr p) 0) (\<lambda>v.
        bnd (ensure (case v of VFun f \<Rightarrow> True | _ \<Rightarrow> False) AssertFail) (\<lambda>_. print_as_op s v False)),
      lit ''('', print_typed_list s p True [1..<num_ops s (VInstr p)], lit '')'']"

definition print_br :: "'z ir_scheme \<Rightarrow> nat \<Rightarrow> instr \<Rightarrow> string res" where
  "print_br s p ins = appends
     ([lit (get_instr_op_name (i_op ins)), lit '' '', typed_opnd s p 0] @
      (if num_ops s (VInstr p) = 3
       then [lit '', '', typed_opnd s p 1, lit '', '', typed_opnd s p 2] else []))"

definition print_ret :: "'z ir_scheme \<Rightarrow> nat \<Rightarrow> instr \<Rightarrow> string res" where
  "print_ret s p ins = appends
     ([lit (get_instr_op_name (i_op ins)), lit '' ''] @
      (if num_ops s (VInstr p) \<noteq> 0 then [print_ty_of s p 0, lit '' '', opnd s p 0] else [lit ''void'']))"

definition print_gep :: "'z ir_scheme \<Rightarrow> nat \<Rightarrow> instr \<Rightarrow> string res" where
  "print_gep s p ins = appends
     [lit ''%'', lit (i_name ins), lit '' = '', lit (get_instr_op_name (i_op ins)), lit '' '',
      print_pointee s p, lit '', '', print_typed_list s p True [0..<num_ops s (VInstr p)]]"

definition print_store :: "'z ir_scheme \<Rightarrow> nat \<Rightarrow> instr \<Rightarrow> string res" where
  "print_store s p ins = appends
     [lit (get_instr_op_name (i_op ins)), lit '' '', print_ty_of s p 0, lit '' '', opnd s p 0, lit '', '',
      typed_opnd s p 1]"

definition print_load :: "'z ir_scheme \<Rightarrow> nat \<Rightarrow> instr \<Rightarrow> string res" where
  "print_load s p ins = appends
     [lit ''%'', lit (i_name ins), lit '' = '', lit (get_instr_op_name (i_op ins)), lit '' '',
      print_pointee s p, lit '','', lit '' '', typed_opnd s p 0]"

definition print_alloca :: "instr \<Rightarrow> ty \<Rightarrow> string res" where
  "print_alloca ins t = appends
     [lit ''%'', lit (i_name ins), lit '' = '', lit (get_instr_op_name (i_op ins)), lit '' '', lit (print_type t)]"

definition print_zext :: "'z ir_scheme \<Rightarrow> nat \<Rightarrow> instr \<Rightarrow> ty \<Rightarrow> string res" where
  "print_zext s p ins t = appends
     [lit ''%'', lit (i_name ins), lit '' = '', lit (get_instr_op_name (i_op ins)), lit '' '',
      print_ty_of s p 0, lit '' '', opnd s p 0, lit '' to '', lit (print_type t)]"

definition print_fptosi :: "'z ir_scheme \<Rightarrow> nat \<Rightarrow> instr \<Rightarrow> ty \<Rightarrow> string res" where
  "print_fptosi s p ins t = appends
     [lit ''%'', lit (i_name ins), lit '' = '', lit (get_instr_op_name (i_op ins)), lit '' '',
      print_ty_of s p 0, lit '' '', opnd s p 0, lit '' to '', lit (print_type t)]"

definition print_sitofp :: "'z ir_scheme \<Rightarrow> nat \<Rightarrow> instr \<Rightarrow> ty \<Rightarrow> string res" where
  "print_sitofp s p ins t = appends
     [lit ''%'', lit (i_name ins), lit '' = '', lit (get_instr_op_name (i_op ins)), lit '' '',
      print_ty_of s p 0, lit '' '', opnd s p 0, lit '' to '', lit (print_type t)]"

text \<open>The pairs of a phi instruction, then \<open>undef\<close> for each predecessor that is no operand when
  there are fewer pairs than predecessors.\<close>

fun print_pairs :: "'z ir_scheme \<Rightarrow> nat \<Rightarrow> nat list \<Rightarrow> string res" where
  "print_pairs s p [] = lit ''''"
| "print_pairs s p (i # is) = appends
     [lit (if i > 0 then '', '' else ''''), lit ''[ '', opnd s p (2 * i), lit '', '', opnd s p (2 * i + 1), lit '' ]'',
      print_pairs s p is]"

fun print_undefs :: "'z ir_scheme \<Rightarrow> nat \<Rightarrow> nat list \<Rightarrow> string res" where
  "print_undefs s p [] = lit ''''"
| "print_undefs s p (b # bs) = appends
     [if VBB b \<in> set (operands s (VInstr p)) then lit ''''
      else appends [lit '', [ undef, '', print_as_op s (VBB b) False, lit '' ]''],
      print_undefs s p bs]"

definition print_phi :: "'z ir_scheme \<Rightarrow> nat \<Rightarrow> instr \<Rightarrow> string res" where
  "print_phi s p ins =
     (let n = num_ops s (VInstr p) div 2
      in appends
        [lit ''%'', lit (i_name ins), lit '' = '', lit (get_instr_op_name (i_op ins)), lit '' '',
         print_ty_of s p 0, lit '' '', print_pairs s p [0..<n],
         bnd (deref (blocks s (i_parent ins))) (\<lambda>k.
           if n < length (pre_bbs k) then print_undefs s p (pre_bbs k) else lit '''')])"

text \<open>The virtual \<open>print\<close>: the class of an instruction follows from its operation and the
  fields that come with it.\<close>

definition print_instr :: "'z ir_scheme \<Rightarrow> nat \<Rightarrow> string res" where
  "print_instr s p =
     bnd (deref (instrs s p)) (\<lambda>ins.
     case (i_op ins, i_data ins) of
       (Ret, _) \<Rightarrow> print_ret s p ins
     | (Br, _) \<Rightarrow> print_br s p ins
     | (Alloca, AllocaData t) \<Rightarrow> print_alloca ins t
     | (Load, _) \<Rightarrow> print_load s p ins
     | (Store, _) \<Rightarrow> print_store s p ins
     | (Cmp, CmpData c) \<Rightarrow> print_cmp s p ins c
     | (Fcmp, CmpData c) \<Rightarrow> print_fcmp s p ins c
     | (Phi, _) \<Rightarrow> print_phi s p ins
     | (Call, _) \<Rightarrow> print_call s p ins
     | (Getelementptr, _) \<Rightarrow> print_gep s p ins
     | (Zext, DestData t) \<Rightarrow> print_zext s p ins t
     | (Fptosi, DestData t) \<Rightarrow> print_fptosi s p ins t
     | (Sitofp, DestData t) \<Rightarrow> print_sitofp s p ins t
     | (opc, _) \<Rightarrow>
         if opc \<in> {Add, Sub, Mul, Sdiv, Fadd, Fsub, Fmul, Fdiv} then print_binary s p ins else Inl BadCast)"

section \<open>Blocks, functions, the module\<close>

text \<open>The separator is left out wherever the predecessor is the first one, not only at the first
  position.\<close>

fun print_preds :: "'z ir_scheme \<Rightarrow> nat \<Rightarrow> nat list \<Rightarrow> string res" where
  "print_preds s b0 [] = lit ''''"
| "print_preds s b0 (b # bs) = appends
     [lit (if b \<noteq> b0 then '', '' else ''''), print_as_op s (VBB b) False, print_preds s b0 bs]"

fun print_instrs :: "'z ir_scheme \<Rightarrow> nat list \<Rightarrow> string res" where
  "print_instrs s [] = lit ''''"
| "print_instrs s (p # ps) = appends [lit ''  '', print_instr s p, lit [CHR 10], print_instrs s ps]"

definition print_block :: "'z ir_scheme \<Rightarrow> nat \<Rightarrow> string res" where
  "print_block s b =
     bnd (deref (blocks s b)) (\<lambda>k. appends
       [lit (bb_name k), lit '':'',
        lit (if pre_bbs k = [] then '''' else ''                                                ; preds = ''),
        print_preds s (hd (pre_bbs k)) (pre_bbs k), lit [CHR 10], print_instrs s (instr_list k)])"

fun print_blocks :: "'z ir_scheme \<Rightarrow> nat list \<Rightarrow> string res" where
  "print_blocks s [] = lit ''''"
| "print_blocks s (b # bs) = appends [print_block s b, print_blocks s bs]"

definition print_argument :: "'z ir_scheme \<Rightarrow> val \<Rightarrow> string res" where
  "print_argument s a = appends
     [bnd (get_type s a) (\<lambda>t. lit (print_type t)), lit '' %'', get_name s a]"

fun print_arguments :: "'z ir_scheme \<Rightarrow> bool \<Rightarrow> val list \<Rightarrow> string res" where
  "print_arguments s first [] = lit ''''"
| "print_arguments s first (a # as) = appends
     [lit (if first then '''' else '', ''), print_argument s a, print_arguments s False as]"

definition print_function_text :: "nat \<Rightarrow> 'z ir_scheme \<Rightarrow> string res" where
  "print_function_text f s =
     bnd (deref (funs s f)) (\<lambda>fn.
     bnd (fun_result (f_type fn)) (\<lambda>r.
     bnd (fun_params (f_type fn)) (\<lambda>ps.
     appends
       ([lit (if basic_blocks fn = [] then ''declare '' else ''define ''),
         lit (print_type r), lit '' '', print_as_op s (VFun f) False, lit ''('',
         if basic_blocks fn = [] then lit (print_types ps) else print_arguments s True (args_of f fn),
         lit '')''] @
        (if basic_blocks fn = [] then [lit [CHR 10]]
         else [lit '' {'', lit [CHR 10], print_blocks s (basic_blocks fn), lit ''}''])))))"

text \<open>\<open>Function::print\<close> names the values of the function first.\<close>

definition print_function :: "nat \<Rightarrow> 'z ir_scheme \<Rightarrow> (string \<times> 'z ir_scheme) res" where
  "print_function f s =
     bnd (set_instr_name f s) (\<lambda>s. bnd (print_function_text f s) (\<lambda>t. Inr (t, s)))"

definition print_global :: "'z ir_scheme \<Rightarrow> nat \<Rightarrow> string res" where
  "print_global s g =
     bnd (deref (gvars s g)) (\<lambda>x. appends
       [print_as_op s (VGlobal g) False, lit '' = '', lit (if g_const x then ''constant '' else ''global ''),
        bnd (deref (get_pointer_element_type (g_type x))) (\<lambda>t. lit (print_type t)), lit '' '',
        case g_init x of VConst c \<Rightarrow> lit (print_const c) | _ \<Rightarrow> Inl NullDeref])"

fun print_globals :: "'z ir_scheme \<Rightarrow> nat list \<Rightarrow> string res" where
  "print_globals s [] = lit ''''"
| "print_globals s (g # gs) = appends [print_global s g, lit [CHR 10], print_globals s gs]"

fun print_functions :: "nat list \<Rightarrow> 'z ir_scheme \<Rightarrow> (string \<times> 'z ir_scheme) res" where
  "print_functions [] s = Inr ('''', s)"
| "print_functions (f # fs) s =
     bnd (print_function f s) (\<lambda>(t, s).
     bnd (print_functions fs s) (\<lambda>(u, s). Inr (t @ [CHR 10] @ u, s)))"

definition print_module :: "'z ir_scheme \<Rightarrow> (string \<times> 'z ir_scheme) res" where
  "print_module s =
     bnd (print_globals s (global_list s)) (\<lambda>t.
     bnd (print_functions (function_list s) s) (\<lambda>(u, s). Inr (t @ u, s)))"

end
