(* ===== verification/Func_Info.thy ===== *)
theory Func_Info
  imports IR_Print
begin

text \<open>
  The analysis of pure functions (\<open>optimization/FuncInfo.h\<close>) that dead code elimination and
  value numbering rest on: a first marking of each function by itself, then a work list that
  spreads impurity to the callers. The result is compared with an inductive definition of
  impurity.
\<close>

section \<open>Addresses\<close>

text \<open>The first operand of pointer type.\<close>

fun first_pointer :: "'z ir_scheme \<Rightarrow> val list \<Rightarrow> val option res" where
  "first_pointer s [] = Inr None"
| "first_pointer s (v # vs) =
     bnd (get_type s v) (\<lambda>t. if is_pointer_type t then Inr (Some v) else first_pointer s vs)"

text \<open>\<open>get_first_addr\<close> follows operands; a chain longer than the number of instructions ever
  made passes through one of them twice and never returns.\<close>

fun first_addr :: "nat \<Rightarrow> 'z ir_scheme \<Rightarrow> val \<Rightarrow> val res" where
  "first_addr 0 s v = Inl NoReturn"
| "first_addr (Suc n) s v =
     (case v of
        VInstr p \<Rightarrow>
          bnd (deref (instrs s p)) (\<lambda>ins.
          if i_op ins = Alloca then Inr v
          else if i_op ins = Getelementptr then bnd (get_operand s v 0) (first_addr n s)
          else if i_op ins = Load then Inr v
          else bnd (first_pointer s (operands s v)) (\<lambda>r.
               case r of None \<Rightarrow> Inr v | Some w \<Rightarrow> first_addr n s w))
      | _ \<Rightarrow> Inr v)"

definition get_first_addr :: "'z ir_scheme \<Rightarrow> val \<Rightarrow> val res" where
  "get_first_addr s v = first_addr (Suc (Suc (next_id s))) s v"

definition is_local_addr :: "'z ir_scheme \<Rightarrow> val \<Rightarrow> bool res" where
  "is_local_addr s v =
     bnd (get_first_addr s v) (\<lambda>a.
     case a of
       VInstr p \<Rightarrow> bnd (deref (instrs s p)) (\<lambda>ins. Inr (i_op ins = Alloca))
     | _ \<Rightarrow> Inr False)"

definition is_local_load :: "'z ir_scheme \<Rightarrow> nat \<Rightarrow> bool res" where
  "is_local_load s p = bnd (get_operand s (VInstr p) 0) (is_local_addr s)"

definition is_local_store :: "'z ir_scheme \<Rightarrow> nat \<Rightarrow> bool res" where
  "is_local_store s p = bnd (get_operand s (VInstr p) 1) (is_local_addr s)"

definition is_side_effect_inst :: "'z ir_scheme \<Rightarrow> nat \<Rightarrow> bool res" where
  "is_side_effect_inst s p =
     bnd (deref (instrs s p)) (\<lambda>ins.
     if i_op ins = Store then bnd (is_local_store s p) (\<lambda>l. Inr (\<not> l))
     else if i_op ins = Load then bnd (is_local_load s p) (\<lambda>l. Inr (\<not> l))
     else Inr False)"

section \<open>The first marking\<close>

fun any_side_effect :: "'z ir_scheme \<Rightarrow> nat list \<Rightarrow> bool res" where
  "any_side_effect s [] = Inr False"
| "any_side_effect s (p # ps) =
     bnd (is_side_effect_inst s p) (\<lambda>e. if e then Inr True else any_side_effect s ps)"

fun block_side_effect :: "'z ir_scheme \<Rightarrow> nat list \<Rightarrow> bool res" where
  "block_side_effect s [] = Inr False"
| "block_side_effect s (b # bs) =
     bnd (deref (blocks s b)) (\<lambda>k.
     bnd (any_side_effect s (instr_list k)) (\<lambda>e. if e then Inr True else block_side_effect s bs))"

text \<open>The value that \<open>trivial_mark\<close> writes to \<open>is_pure\<close>.\<close>

definition trivial_mark :: "'z ir_scheme \<Rightarrow> nat \<Rightarrow> bool res" where
  "trivial_mark s f =
     bnd (deref (funs s f)) (\<lambda>fn.
     if basic_blocks fn = [] \<or> f_name fn = ''main'' then Inr False
     else bnd (fun_params (f_type fn)) (\<lambda>ts.
          if list_ex (\<lambda>t. \<not> is_integer_type t \<and> \<not> is_float_type t) ts then Inr False
          else bnd (block_side_effect s (basic_blocks fn)) (\<lambda>e. Inr (\<not> e))))"

section \<open>The work list\<close>

type_synonym purity = "(nat \<Rightarrow> bool option) \<times> nat list"

fun mark_functions :: "'z ir_scheme \<Rightarrow> nat list \<Rightarrow> purity \<Rightarrow> purity res" where
  "mark_functions s [] st = Inr st"
| "mark_functions s (f # fs) (pure, wl) =
     bnd (trivial_mark s f) (\<lambda>b. mark_functions s fs (pure(f \<mapsto> b), if b then wl else wl @ [f]))"

definition get_function :: "'z ir_scheme \<Rightarrow> nat \<Rightarrow> nat res" where
  "get_function s p =
     bnd (deref (instrs s p)) (\<lambda>ins. bnd (deref (blocks s (i_parent ins))) (\<lambda>k. Inr (bb_parent k)))"

text \<open>One use of a function that is not pure. Reading \<open>is_pure\<close> enters \<open>false\<close> for a
  function it does not know.\<close>

definition process_use :: "'z ir_scheme \<Rightarrow> val \<Rightarrow> purity \<Rightarrow> purity res" where
  "process_use s u = (\<lambda>(pure, wl).
     case u of
       VInstr p \<Rightarrow>
         bnd (get_function s p) (\<lambda>f.
         case pure f of
           None \<Rightarrow> Inr (pure(f \<mapsto> False), wl)
         | Some b \<Rightarrow> Inr (if b then (pure(f \<mapsto> False), wl @ [f]) else (pure, wl)))
     | _ \<Rightarrow> Inr (pure, wl))"

fun process_uses :: "'z ir_scheme \<Rightarrow> (val \<times> nat) list \<Rightarrow> purity \<Rightarrow> purity res" where
  "process_uses s [] st = Inr st"
| "process_uses s ((u, i) # us) st = bnd (process_use s u st) (process_uses s us)"

text \<open>Every function enters the work list at most once, so the loop runs at most as often as there
  are functions.\<close>

fun purity_loop :: "nat \<Rightarrow> 'z ir_scheme \<Rightarrow> purity \<Rightarrow> (nat \<Rightarrow> bool option) res" where
  "purity_loop n s (pure, []) = Inr pure"
| "purity_loop 0 s (pure, f # wl) = Inl NoReturn"
| "purity_loop (Suc n) s (pure, f # wl) =
     bnd (process_uses s (use_list s (VFun f)) (pure, wl)) (purity_loop n s)"

definition FuncInfo_run :: "'z ir_scheme \<Rightarrow> (nat \<Rightarrow> bool option) res" where
  "FuncInfo_run s =
     bnd (mark_functions s (function_list s) (Map.empty, [])) (purity_loop (length (function_list s)) s)"

definition is_pure_function :: "(nat \<Rightarrow> bool option) \<Rightarrow> nat \<Rightarrow> bool res" where
  "is_pure_function pure f = (case pure f of None \<Rightarrow> Inl OutOfRange | Some b \<Rightarrow> Inr b)"

section \<open>Impurity\<close>

text \<open>The functions that the users in a list belong to.\<close>

definition owners :: "'z ir_scheme \<Rightarrow> (val \<times> nat) list \<Rightarrow> nat set" where
  "owners s us = {f. \<exists>p i. (VInstr p, i) \<in> set us \<and> get_function s p = Inr f}"

text \<open>A function is impure by itself, or because it uses an impure one.\<close>

inductive impure :: "'z ir_scheme \<Rightarrow> nat \<Rightarrow> bool" for s where
  itself: "f \<in> set (function_list s) \<Longrightarrow> trivial_mark s f = Inr False \<Longrightarrow> impure s f"
| caller: "impure s g \<Longrightarrow> f \<in> owners s (use_list s (VFun g)) \<Longrightarrow> impure s f"

text \<open>What the analysis needs of the module: the first marking of every function succeeds, and every
  instruction that uses a function belongs to a function of the module.\<close>

definition uses_resolved :: "'z ir_scheme \<Rightarrow> (val \<times> nat) list \<Rightarrow> bool" where
  "uses_resolved s us \<longleftrightarrow> (\<forall>p i. (VInstr p, i) \<in> set us \<longrightarrow> (\<exists>f \<in> set (function_list s). get_function s p = Inr f))"

definition analysable :: "'z ir_scheme \<Rightarrow> bool" where
  "analysable s \<longleftrightarrow> (\<forall>f \<in> set (function_list s). (\<exists>b. trivial_mark s f = Inr b) \<and> uses_resolved s (use_list s (VFun f)))"

lemma owners_Cons:
  "owners s ((u, i) # us) = (case u of VInstr p \<Rightarrow> (case get_function s p of Inr f \<Rightarrow> {f} | Inl e \<Rightarrow> {}) | _ \<Rightarrow> {}) \<union> owners s us"
  by (auto simp: owners_def split: val.splits sum.splits)

lemma process_uses_eq:
  assumes "uses_resolved s us" "set (function_list s) \<subseteq> dom pure"
  shows "\<exists>new. process_uses s us (pure, wl) = Inr (\<lambda>f. if f \<in> owners s us then Some False else pure f, wl @ new) \<and>
    distinct new \<and> set new = {f \<in> owners s us. pure f = Some True}"
  using assms
proof (induction us arbitrary: pure wl)
  case (Cons x us)
  obtain u i where x: "x = (u, i)" by fastforce
  have rest: "uses_resolved s us" using Cons.prems(1) by (auto simp: uses_resolved_def)
  show ?case
  proof (cases "\<exists>p. u = VInstr p")
    case False
    then have "process_use s u (pure, wl) = Inr (pure, wl)" "owners s ((u, i) # us) = owners s us"
      by (auto simp: process_use_def owners_Cons split: val.splits)
    with Cons.IH [OF rest Cons.prems(2), of wl] x show ?thesis by simp
  next
    case True
    then obtain p where u: "u = VInstr p" by blast
    then have "(VInstr p, i) \<in> set (x # us)" using x by simp
    then obtain f where p: "u = VInstr p" "get_function s p = Inr f" "f \<in> set (function_list s)"
      using Cons.prems(1) u unfolding uses_resolved_def by blast
    then obtain b where b: "pure f = Some b" using Cons.prems(2) by blast
    let ?pure = "pure(f \<mapsto> False)" and ?wl = "if b then wl @ [f] else wl"
    have one: "process_use s u (pure, wl) = Inr (?pure, ?wl)"
      using p b by (auto simp: process_use_def fun_upd_idem)
    obtain new where new: "process_uses s us (?pure, ?wl) = Inr (\<lambda>g. if g \<in> owners s us then Some False else ?pure g, ?wl @ new)"
      "distinct new" "set new = {g \<in> owners s us. ?pure g = Some True}"
    proof -
      have "set (function_list s) \<subseteq> dom ?pure" using Cons.prems(2) by auto
      from Cons.IH [OF rest this, of ?wl] show ?thesis using that by blast
    qed
    have "(\<lambda>g. if g \<in> owners s us then Some False else ?pure g) =
        (\<lambda>g. if g \<in> owners s ((u, i) # us) then Some False else pure g)"
      by (rule ext) (simp add: owners_Cons p)
    moreover have "set ((if b then [f] else []) @ new) = {g \<in> owners s ((u, i) # us). pure g = Some True}"
      using b by (auto simp: owners_Cons p(1,2) new(3))
    moreover have "distinct ((if b then [f] else []) @ new)" using new(2,3) by auto
    ultimately show ?thesis using one new(1) x
      by (intro exI [of _ "(if b then [f] else []) @ new"]) (auto split: if_splits)
  qed
qed (auto simp: owners_def)

lemma mark_functions_eq:
  assumes "\<forall>f \<in> set fs. \<exists>b. trivial_mark s f = Inr b"
  shows "\<exists>pure' new. mark_functions s fs (pure, wl) = Inr (pure', wl @ new) \<and>
    (\<forall>f. pure' f = (if f \<in> set fs then (case trivial_mark s f of Inr b \<Rightarrow> Some b | Inl e \<Rightarrow> None) else pure f)) \<and>
    set new = {f \<in> set fs. trivial_mark s f = Inr False} \<and>
    length new + card {f \<in> set fs. trivial_mark s f = Inr True} \<le> length fs"
  using assms
proof (induction fs arbitrary: pure wl)
  case (Cons f fs)
  then obtain b where b: "trivial_mark s f = Inr b" by auto
  have pre: "\<forall>f \<in> set fs. \<exists>b. trivial_mark s f = Inr b" using Cons.prems by simp
  from Cons.IH [OF pre, of "pure(f \<mapsto> b)" "if b then wl else wl @ [f]"] obtain pure' new where IH: "mark_functions s fs (pure(f \<mapsto> b), if b then wl else wl @ [f]) =
      Inr (pure', (if b then wl else wl @ [f]) @ new)"
    "\<forall>g. pure' g = (if g \<in> set fs then (case trivial_mark s g of Inr b \<Rightarrow> Some b | Inl e \<Rightarrow> None) else (pure(f \<mapsto> b)) g)"
    "set new = {g \<in> set fs. trivial_mark s g = Inr False}"
    "length new + card {g \<in> set fs. trivial_mark s g = Inr True} \<le> length fs"
    by blast
  have "{g \<in> set (f # fs). trivial_mark s g = Inr True} \<subseteq>
      (if b then {f} else {}) \<union> {g \<in> set fs. trivial_mark s g = Inr True}" using b by auto
  then have "card {g \<in> set (f # fs). trivial_mark s g = Inr True} \<le>
      card ((if b then {f} else {}) \<union> {g \<in> set fs. trivial_mark s g = Inr True})" by (intro card_mono) auto
  also have "\<dots> \<le> (if b then 1 else 0) + card {g \<in> set fs. trivial_mark s g = Inr True}"
    by (rule order.trans [OF card_Un_le]) auto
  finally have "length ((if b then [] else [f]) @ new) + card {g \<in> set (f # fs). trivial_mark s g = Inr True} \<le> length (f # fs)"
    using IH(4) by (auto split: if_splits)
  moreover have "mark_functions s (f # fs) (pure, wl) = Inr (pure', wl @ ((if b then [] else [f]) @ new))"
    using b IH(1) by simp
  moreover have "\<forall>g. pure' g = (if g \<in> set (f # fs) then (case trivial_mark s g of Inr b \<Rightarrow> Some b | Inl e \<Rightarrow> None) else pure g)"
    using IH(2) b by (simp add: fun_upd_def)
  moreover have "set ((if b then [] else [f]) @ new) = {g \<in> set (f # fs). trivial_mark s g = Inr False}"
    using b by (auto simp: IH(3))
  ultimately show ?case by (intro exI conjI)
qed simp

text \<open>The invariant of the work list: what is marked impure is impure, and the callers of a marked
  function are marked unless the function still waits in the list.\<close>

definition purity_inv :: "'z ir_scheme \<Rightarrow> purity \<Rightarrow> bool" where
  "purity_inv s st \<longleftrightarrow> (case st of (pure, wl) \<Rightarrow>
     dom pure = set (function_list s) \<and> set wl \<subseteq> {f. pure f = Some False} \<and>
     (\<forall>f. pure f = Some False \<longrightarrow> impure s f) \<and>
     (\<forall>f \<in> set (function_list s). trivial_mark s f = Inr False \<longrightarrow> pure f = Some False) \<and>
     (\<forall>g. pure g = Some False \<longrightarrow> g \<in> set wl \<or> owners s (use_list s (VFun g)) \<subseteq> {f. pure f = Some False}))"

definition purity_potential :: "purity \<Rightarrow> nat" where
  "purity_potential st = (case st of (pure, wl) \<Rightarrow> length wl + card {f. pure f = Some True})"

lemma pures_finite: "purity_inv s (pure, wl) \<Longrightarrow> finite {f. pure f = Some True}"
  by (rule finite_subset [of _ "set (function_list s)"]) (auto simp: purity_inv_def dom_def)

lemma owners_resolved: "uses_resolved s us \<Longrightarrow> owners s us \<subseteq> set (function_list s)"
  by (force simp: owners_def uses_resolved_def)

lemma purity_step:
  assumes inv: "purity_inv s (pure, f # wl)" and an: "analysable s"
  shows "\<exists>st. process_uses s (use_list s (VFun f)) (pure, wl) = Inr st \<and> purity_inv s st \<and>
    Suc (purity_potential st) = purity_potential (pure, f # wl)"
proof -
  let ?us = "use_list s (VFun f)"
  have f: "pure f = Some False" "impure s f" "f \<in> set (function_list s)"
    using inv by (auto simp: purity_inv_def)
  have res: "uses_resolved s ?us" using an f(3) by (simp add: analysable_def)
  have "set (function_list s) \<subseteq> dom pure" using inv by (simp add: purity_inv_def)
  from process_uses_eq [OF res this] obtain new where
    new: "process_uses s ?us (pure, wl) = Inr (\<lambda>f. if f \<in> owners s ?us then Some False else pure f, wl @ new)"
    "distinct new" "set new = {f \<in> owners s ?us. pure f = Some True}"
    by blast
  let ?pure = "\<lambda>f. if f \<in> owners s ?us then Some False else pure f"
  have own: "owners s ?us \<subseteq> set (function_list s)" by (rule owners_resolved [OF res])
  have "purity_inv s (?pure, wl @ new)"
  proof -
    have "dom ?pure = set (function_list s)" using inv own by (auto simp: purity_inv_def dom_def)
    moreover have "set (wl @ new) \<subseteq> {f. ?pure f = Some False}" using inv new(3) by (auto simp: purity_inv_def)
    moreover have "\<forall>g. ?pure g = Some False \<longrightarrow> impure s g"
      using inv impure.caller [OF f(2)] by (auto simp: purity_inv_def)
    moreover have "\<forall>g \<in> set (function_list s). trivial_mark s g = Inr False \<longrightarrow> ?pure g = Some False"
      using inv by (auto simp: purity_inv_def)
    moreover have "g \<in> set (wl @ new) \<or> owners s (use_list s (VFun g)) \<subseteq> {f. ?pure f = Some False}"
      if g: "?pure g = Some False" for g
    proof (cases "pure g = Some False")
      case True
      then have "g = f \<or> g \<in> set wl \<or> owners s (use_list s (VFun g)) \<subseteq> {f. pure f = Some False}"
        using inv by (auto simp: purity_inv_def)
      then show ?thesis by auto
    next
      case False
      then have "g \<in> owners s ?us" using g by (auto split: if_splits)
      moreover from this have "g \<in> dom pure" using own inv by (auto simp: purity_inv_def)
      ultimately have "g \<in> set new" using False by (auto simp: new(3))
      then show ?thesis by simp
    qed
    ultimately show ?thesis by (simp add: purity_inv_def)
  qed
  moreover have "Suc (purity_potential (?pure, wl @ new)) = purity_potential (pure, f # wl)"
  proof -
    have "{g. pure g = Some True} = {g. ?pure g = Some True} \<union> set new" by (auto simp: new(3))
    moreover have "{g. ?pure g = Some True} \<inter> set new = {}" by (auto simp: new(3))
    moreover have "finite {g. ?pure g = Some True}"
      by (rule finite_subset [OF _ pures_finite [OF inv]]) auto
    ultimately have "card {g. pure g = Some True} = card {g. ?pure g = Some True} + card (set new)"
      by (simp add: card_Un_disjoint)
    then show ?thesis using distinct_card [OF new(2)] by (simp add: purity_potential_def)
  qed
  ultimately show ?thesis using new(1) by blast
qed

lemma purity_done:
  assumes "impure s f" "purity_inv s (pure, [])"
  shows "pure f = Some False"
  using assms by (induction rule: impure.induct) (auto simp: purity_inv_def)

lemma purity_loop_result:
  "purity_inv s st \<Longrightarrow> analysable s \<Longrightarrow> purity_potential st \<le> n \<Longrightarrow>
     \<exists>pure. purity_loop n s st = Inr pure \<and> purity_inv s (pure, [])"
proof (induction n arbitrary: st)
  case 0
  then obtain pure where "st = (pure, [])" by (cases st) (auto simp: purity_potential_def)
  with 0 show ?case by simp
next
  case (Suc n)
  obtain pure wl where st: "st = (pure, wl)" by fastforce
  show ?case
  proof (cases wl)
    case Nil
    with Suc.prems st show ?thesis by simp
  next
    case (Cons f wl')
    from purity_step [OF Suc.prems(1) [unfolded st Cons] Suc.prems(2)] obtain st' where
      "process_uses s (use_list s (VFun f)) (pure, wl') = Inr st'" "purity_inv s st'"
      "Suc (purity_potential st') = purity_potential (pure, f # wl')"
      by blast
    with Suc.IH [of st'] Suc.prems st Cons show ?thesis by simp
  qed
qed

lemma FuncInfo_run_inv:
  assumes an: "analysable s"
  shows "\<exists>pure. FuncInfo_run s = Inr pure \<and> purity_inv s (pure, [])"
proof -
  have "\<forall>f \<in> set (function_list s). \<exists>b. trivial_mark s f = Inr b" using an by (simp add: analysable_def)
  from mark_functions_eq [OF this, of Map.empty "[]"] obtain pure0 new where
    m: "mark_functions s (function_list s) (Map.empty, []) = Inr (pure0, new)"
    "\<forall>f. pure0 f = (if f \<in> set (function_list s) then (case trivial_mark s f of Inr b \<Rightarrow> Some b | Inl e \<Rightarrow> None) else None)"
    "set new = {f \<in> set (function_list s). trivial_mark s f = Inr False}"
    "length new + card {f \<in> set (function_list s). trivial_mark s f = Inr True} \<le> length (function_list s)"
    by auto
  have val: "pure0 f = Some b \<longleftrightarrow> f \<in> set (function_list s) \<and> trivial_mark s f = Inr b" for f b
    using m(2) by (auto split: sum.splits)
  have "dom pure0 = set (function_list s)" using an by (auto simp: dom_def val analysable_def)
  then have inv: "purity_inv s (pure0, new)"
    by (auto simp: purity_inv_def val m(3) intro: impure.itself)
  have "purity_potential (pure0, new) \<le> length (function_list s)"
    using m(4) by (simp add: purity_potential_def val)
  from purity_loop_result [OF inv an this] show ?thesis using m(1) by (auto simp: FuncInfo_run_def)
qed

lemma FuncInfo_run_total:
  assumes "analysable s"
  shows "\<exists>pure. FuncInfo_run s = Inr pure \<and> (\<forall>f \<in> set (function_list s). pure f \<noteq> None)"
proof -
  obtain pure where p: "FuncInfo_run s = Inr pure" "purity_inv s (pure, [])"
    using FuncInfo_run_inv [OF assms] by blast
  have "dom pure = set (function_list s)" using p(2) by (simp add: purity_inv_def)
  with p(1) show ?thesis by blast
qed

text \<open>C26: the analysis of pure functions returns, and it marks a function pure exactly if the
  function is neither impure by itself nor uses, directly or through others, one that is.\<close>

theorem FuncInfo_run_spec:
  assumes an: "analysable s"
  shows "\<exists>pure. FuncInfo_run s = Inr pure \<and> (\<forall>f \<in> set (function_list s). pure f = Some (\<not> impure s f))"
proof -
  obtain pure where p: "FuncInfo_run s = Inr pure" "purity_inv s (pure, [])"
    using FuncInfo_run_inv [OF an] by blast
  have "pure f = Some (\<not> impure s f)" if "f \<in> set (function_list s)" for f
  proof -
    have "f \<in> dom pure" using that p(2) by (simp add: purity_inv_def)
    then obtain b where b: "pure f = Some b" by blast
    with p(2) purity_done [OF _ p(2), of f] show ?thesis by (cases b) (auto simp: purity_inv_def)
  qed
  with p(1) show ?thesis by blast
qed

text \<open>A library function, a function whose only instruction calls it, and one that only returns.\<close>

definition sample_calls :: ir where
  "sample_calls = \<lparr>
     operands = (\<lambda>_. [])(VInstr 5 := [VFun 0]), num_ops = (\<lambda>_. 0)(VInstr 5 := 1),
     use_list = (\<lambda>_. [])(VFun 0 := [(VInstr 5, 0)]), fp_count = 0, cached_float = [], next_id = 7,
     instrs = [5 \<mapsto> \<lparr>i_type = VoidTy, i_op = Call, i_parent = 3, i_data = NoData, i_name = ''''\<rparr>,
       6 \<mapsto> \<lparr>i_type = VoidTy, i_op = Ret, i_parent = 4, i_data = NoData, i_name = ''''\<rparr>],
     blocks = [3 \<mapsto> \<lparr>bb_name = '''', bb_parent = 1, pre_bbs = [], succ_bbs = [], instr_list = [5]\<rparr>,
       4 \<mapsto> \<lparr>bb_name = '''', bb_parent = 2, pre_bbs = [], succ_bbs = [], instr_list = [6]\<rparr>],
     funs = [0 \<mapsto> \<lparr>f_name = ''lib'', f_type = FunTy VoidTy [], basic_blocks = [], arg_names = [], seq_cnt = 0\<rparr>,
       1 \<mapsto> \<lparr>f_name = ''g'', f_type = FunTy VoidTy [], basic_blocks = [3], arg_names = [], seq_cnt = 0\<rparr>,
       2 \<mapsto> \<lparr>f_name = ''h'', f_type = FunTy VoidTy [], basic_blocks = [4], arg_names = [], seq_cnt = 0\<rparr>],
     gvars = Map.empty, global_list = [], function_list = [0, 1, 2]\<rparr>"

lemma sample_calls_marks:
  "trivial_mark sample_calls 0 = Inr False" "trivial_mark sample_calls (Suc 0) = Inr True"
  "trivial_mark sample_calls 2 = Inr True"
  by (simp_all add: sample_calls_def trivial_mark_def is_side_effect_inst_def)

theorem FuncInfo_run_spec_witness:
  "analysable sample_calls \<and> (\<exists>pure. FuncInfo_run sample_calls = Inr pure \<and> pure 0 = Some False \<and> pure 1 = Some False)"
proof -
  have own: "owners sample_calls (use_list sample_calls (VFun 0)) = {1}"
    by (auto simp: owners_def sample_calls_def get_function_def)
  have fl: "function_list sample_calls = [0, 1, 2]" by (simp add: sample_calls_def)
  have an: "analysable sample_calls"
    unfolding analysable_def fl
    by (auto simp: sample_calls_marks uses_resolved_def) (auto simp: sample_calls_def get_function_def)
  have i0: "impure sample_calls 0" by (rule impure.itself) (simp_all add: fl sample_calls_marks)
  have "impure sample_calls 1" by (rule impure.caller [OF i0]) (simp add: own)
  with i0 an FuncInfo_run_spec [OF an] fl show ?thesis by auto
qed

end
