(* ===== verification/Dead_Code.thy ===== *)
theory Dead_Code
  imports Func_Info
begin

text \<open>
  Dead code elimination (\<open>optimization/DeadCode.h\<close>): per function a marking phase with a work
  list and a sweep that erases what is not marked, repeated until nothing changes.
\<close>

section \<open>Marking\<close>

definition is_critical :: "(nat \<Rightarrow> bool option) \<Rightarrow> 'z ir_scheme \<Rightarrow> nat \<Rightarrow> bool res" where
  "is_critical pure s p =
     bnd (deref (instrs s p)) (\<lambda>ins.
     if i_op ins = Call
     then bnd (get_operand s (VInstr p) 0) (\<lambda>v.
          case v of
            VFun f \<Rightarrow> bnd (is_pure_function pure f) (\<lambda>b. Inr (\<not> b))
          | _ \<Rightarrow> Inl OutOfRange)
     else Inr (i_op ins = Br \<or> i_op ins = Ret \<or> i_op ins = Store))"

text \<open>The instructions of the blocks, in order.\<close>

fun blocks_instrs :: "'z ir_scheme \<Rightarrow> nat list \<Rightarrow> nat list res" where
  "blocks_instrs s [] = Inr []"
| "blocks_instrs s (b # bs) =
     bnd (deref (blocks s b)) (\<lambda>k. bnd (blocks_instrs s bs) (\<lambda>ps. Inr (instr_list k @ ps)))"

definition func_instrs :: "'z ir_scheme \<Rightarrow> nat \<Rightarrow> nat list res" where
  "func_instrs s f = bnd (deref (funs s f)) (\<lambda>fn. blocks_instrs s (basic_blocks fn))"

type_synonym marking = "(nat \<Rightarrow> bool) \<times> nat list"

fun collect_critical :: "(nat \<Rightarrow> bool option) \<Rightarrow> 'z ir_scheme \<Rightarrow> nat list \<Rightarrow> marking \<Rightarrow> marking res" where
  "collect_critical pure s [] st = Inr st"
| "collect_critical pure s (p # ps) (marked, wl) =
     bnd (is_critical pure s p) (\<lambda>c.
     collect_critical pure s ps (if c then (marked(p := True), wl @ [p]) else (marked, wl)))"

text \<open>\<open>mark(Instruction)\<close>: the definitions of the operands that are in the same function.\<close>

definition mark_operand :: "'z ir_scheme \<Rightarrow> nat \<Rightarrow> val \<Rightarrow> marking \<Rightarrow> marking res" where
  "mark_operand s p v = (\<lambda>(marked, wl).
     case v of
       VInstr q \<Rightarrow>
         if marked q then Inr (marked, wl)
         else bnd (get_function s q) (\<lambda>f. bnd (get_function s p) (\<lambda>g.
              Inr (if f = g then (marked(q := True), wl @ [q]) else (marked, wl))))
     | _ \<Rightarrow> Inr (marked, wl))"

fun mark_operands :: "'z ir_scheme \<Rightarrow> nat \<Rightarrow> val list \<Rightarrow> marking \<Rightarrow> marking res" where
  "mark_operands s p [] st = Inr st"
| "mark_operands s p (v # vs) st = bnd (mark_operand s p v st) (mark_operands s p vs)"

definition mark_instr :: "'z ir_scheme \<Rightarrow> nat \<Rightarrow> marking \<Rightarrow> marking res" where
  "mark_instr s p = mark_operands s p (operands s (VInstr p))"

text \<open>An instruction enters the work list at most once.\<close>

fun mark_loop :: "nat \<Rightarrow> 'z ir_scheme \<Rightarrow> marking \<Rightarrow> (nat \<Rightarrow> bool) res" where
  "mark_loop n s (marked, []) = Inr marked"
| "mark_loop 0 s (marked, p # wl) = Inl NoReturn"
| "mark_loop (Suc n) s (marked, p # wl) = bnd (mark_instr s p (marked, wl)) (mark_loop n s)"

definition mark_function :: "(nat \<Rightarrow> bool option) \<Rightarrow> 'z ir_scheme \<Rightarrow> nat \<Rightarrow> (nat \<Rightarrow> bool) res" where
  "mark_function pure s f =
     bnd (func_instrs s f) (\<lambda>ps.
     bnd (collect_critical pure s ps (\<lambda>_. False, [])) (mark_loop (next_id s) s))"

section \<open>Sweeping\<close>

fun remove_all_uses :: "nat list \<Rightarrow> 'z ir_scheme \<Rightarrow> 'z ir_scheme res" where
  "remove_all_uses [] s = Inr s"
| "remove_all_uses (p # ps) s = bnd (remove_use_of_ops (VInstr p) s) (remove_all_uses ps)"

text \<open>\<open>inst->get_parent()->get_instructions().erase(inst)\<close>: the list deletes the object.\<close>

definition drop_instr :: "nat \<Rightarrow> 'z ir_scheme \<Rightarrow> 'z ir_scheme res" where
  "drop_instr p s =
     bnd (deref (instrs s p)) (\<lambda>ins.
     bnd (modify_block (i_parent ins) (\<lambda>k. k\<lparr>instr_list := remove1 p (instr_list k)\<rparr>) s) (\<lambda>s.
     Inr (s\<lparr>instrs := (instrs s)(p := None), operands := (operands s)(VInstr p := []),
            num_ops := (num_ops s)(VInstr p := 0)\<rparr>)))"

fun drop_all :: "nat list \<Rightarrow> 'z ir_scheme \<Rightarrow> 'z ir_scheme res" where
  "drop_all [] s = Inr s"
| "drop_all (p # ps) s = bnd (drop_instr p s) (drop_all ps)"

text \<open>The state of the pass: the module and \<open>ins_count\<close>. The set of instructions to delete has
  no order in the source; the deletions commute, and the list stands for any order.\<close>

definition sweep :: "(nat \<Rightarrow> bool) \<Rightarrow> nat \<Rightarrow> 'z ir_scheme \<times> nat \<Rightarrow> (bool \<times> 'z ir_scheme \<times> nat) res" where
  "sweep marked f = (\<lambda>(s, ins_count).
     bnd (func_instrs s f) (\<lambda>ps.
     let wait_del = filter (\<lambda>p. \<not> marked p) ps
     in bnd (remove_all_uses wait_del s) (\<lambda>s.
        bnd (drop_all wait_del s) (\<lambda>s.
        Inr (wait_del \<noteq> [], s, ins_count + length wait_del)))))"

fun dce_functions :: "(nat \<Rightarrow> bool option) \<Rightarrow> nat list \<Rightarrow> bool \<Rightarrow> 'z ir_scheme \<times> nat \<Rightarrow> (bool \<times> 'z ir_scheme \<times> nat) res" where
  "dce_functions pure [] changed st = Inr (changed, st)"
| "dce_functions pure (f # fs) changed st =
     bnd (mark_function pure (fst st) f) (\<lambda>marked.
     bnd (sweep marked f st) (\<lambda>(c, st). dce_functions pure fs (changed \<or> c) st))"

text \<open>Every repetition has erased an instruction.\<close>

fun dce_loop :: "nat \<Rightarrow> (nat \<Rightarrow> bool option) \<Rightarrow> 'z ir_scheme \<times> nat \<Rightarrow> ('z ir_scheme \<times> nat) res" where
  "dce_loop 0 pure st = Inl NoReturn"
| "dce_loop (Suc n) pure st =
     bnd (dce_functions pure (function_list (fst st)) False st) (\<lambda>(changed, st).
     if changed then dce_loop n pure st else Inr st)"

definition DeadCode_run :: "'z ir_scheme \<Rightarrow> ('z ir_scheme \<times> nat) res" where
  "DeadCode_run s =
     bnd (FuncInfo_run s) (\<lambda>pure. dce_loop (Suc (next_id s)) pure (s, 0))"

section \<open>What marking finds\<close>

text \<open>The instructions of a function, as a set, and the invariant that operands stay inside a
  function.\<close>

definition code_of :: "'z ir_scheme \<Rightarrow> nat \<Rightarrow> nat set" where
  "code_of s f = (\<Union>b \<in> set (fblocks s f). set (ilist s b))"

definition refs_ok :: "'z ir_scheme \<Rightarrow> bool" where
  "refs_ok s \<longleftrightarrow> (\<forall>p. VNull \<notin> set (operands s (VInstr p))) \<and>
     (\<forall>f. \<forall>p \<in> code_of s f. \<forall>q. VInstr q \<in> set (operands s (VInstr p)) \<longrightarrow> q \<in> code_of s f)"

text \<open>Every call names a function whose purity is known.\<close>

definition calls_ok :: "(nat \<Rightarrow> bool option) \<Rightarrow> 'z ir_scheme \<Rightarrow> bool" where
  "calls_ok pure s \<longleftrightarrow> (\<forall>p ins. instrs s p = Some ins \<longrightarrow> i_op ins = Call \<longrightarrow>
     (\<exists>f vs b. operands s (VInstr p) = VFun f # vs \<and> pure f = Some b))"

inductive live :: "(nat \<Rightarrow> bool option) \<Rightarrow> 'z ir_scheme \<Rightarrow> nat \<Rightarrow> nat \<Rightarrow> bool" for pure s f where
  critical: "p \<in> code_of s f \<Longrightarrow> is_critical pure s p = Inr True \<Longrightarrow> live pure s f p"
| operand: "live pure s f p \<Longrightarrow> VInstr q \<in> set (operands s (VInstr p)) \<Longrightarrow> q \<in> code_of s f \<Longrightarrow> live pure s f q"

lemma live_in_code: "live pure s f p \<Longrightarrow> p \<in> code_of s f"
  by (induction rule: live.induct)

lemma code_owner:
  assumes "heap_ok s" "p \<in> code_of s f"
  shows "get_function s p = Inr f" and "\<exists>ins. instrs s p = Some ins"
proof -
  obtain b where b: "b \<in> set (fblocks s f)" "p \<in> set (ilist s b)" using assms(2) by (auto simp: code_of_def)
  obtain ins where ins: "instrs s p = Some ins" "i_parent ins = b" using heap_okD(3) [OF assms(1) b(2)] by blast
  have "owner s b = Some f" using assms(1) b(1) by (simp add: heap_ok_def)
  with ins show "get_function s p = Inr f" by (auto simp: get_function_def owner_def)
  from ins show "\<exists>ins. instrs s p = Some ins" by blast
qed

lemma code_of_flow: "code_of s f = set (concat (map (ilist s) (fblocks s f)))"
  by (simp add: code_of_def)

lemma blocks_instrs_eq:
  "\<forall>b \<in> set bs. blocks s b \<noteq> None \<Longrightarrow> blocks_instrs s bs = Inr (concat (map (ilist s) bs))"
  by (induction bs) (auto simp: ilist_def)

lemma func_instrs_eq:
  assumes "heap_ok s" "funs s f \<noteq> None"
  shows "func_instrs s f = Inr (concat (map (ilist s) (fblocks s f)))"
proof -
  obtain fn where fn: "funs s f = Some fn" using assms(2) by auto
  have "blocks s b \<noteq> None" if "b \<in> set (basic_blocks fn)" for b
    using heap_okD(4) [OF assms(1), of b f] that fn by (auto simp: owner_def fblocks_def)
  then show ?thesis using blocks_instrs_eq [of "basic_blocks fn" s] fn by (simp add: func_instrs_def fblocks_def)
qed

lemma distinct_concat_map:
  "distinct bs \<Longrightarrow> (\<And>b. distinct (g b)) \<Longrightarrow> (\<And>b c x. x \<in> set (g b) \<Longrightarrow> x \<in> set (g c) \<Longrightarrow> b = c) \<Longrightarrow>
     distinct (concat (map g bs))"
  by (induction bs) fastforce+

lemma flow_distinct:
  assumes "heap_ok s"
  shows "distinct (concat (map (ilist s) (fblocks s f)))"
proof (rule distinct_concat_map)
  show "b = c" if "p \<in> set (ilist s b)" "p \<in> set (ilist s c)" for b c p
    using heap_okD(3) [OF assms that(1)] heap_okD(3) [OF assms that(2)] by auto
qed (use heap_okD(2,5) [OF assms] in auto)

definition critical_instr :: "(nat \<Rightarrow> bool option) \<Rightarrow> 'z ir_scheme \<Rightarrow> nat \<Rightarrow> bool" where
  "critical_instr pure s p \<longleftrightarrow> is_critical pure s p = Inr True"

lemma is_critical_total:
  "calls_ok pure s \<Longrightarrow> instrs s p \<noteq> None \<Longrightarrow> is_critical pure s p = Inr (critical_instr pure s p)"
  by (fastforce simp: critical_instr_def is_critical_def calls_ok_def get_operand_def is_pure_function_def)

lemma collect_critical_eq:
  "\<forall>p \<in> set ps. is_critical pure s p = Inr (critical_instr pure s p) \<Longrightarrow>
     collect_critical pure s ps (M, wl) =
       Inr (\<lambda>p. M p \<or> p \<in> set ps \<and> critical_instr pure s p, wl @ filter (critical_instr pure s) ps)"
proof (induction ps arbitrary: M wl)
  case (Cons p ps)
  then have c: "is_critical pure s p = Inr (critical_instr pure s p)" by simp
  show ?case
  proof (cases "critical_instr pure s p")
    case True
    have "(\<lambda>x. (M(p := True)) x \<or> x \<in> set ps \<and> critical_instr pure s x) =
        (\<lambda>x. M x \<or> x \<in> set (p # ps) \<and> critical_instr pure s x)"
      using True by (intro ext) auto
    with Cons.IH [of "M(p := True)" "wl @ [p]"] Cons.prems True show ?thesis by (simp add: fun_upd_def)
  next
    case False
    have "(\<lambda>x. M x \<or> x \<in> set ps \<and> critical_instr pure s x) =
        (\<lambda>x. M x \<or> x \<in> set (p # ps) \<and> critical_instr pure s x)"
      using False by (intro ext) auto
    with Cons.IH [of M wl] Cons.prems False show ?thesis by simp
  qed
qed simp

lemma mark_operands_eq:
  assumes "heap_ok s" "p \<in> code_of s f" "\<forall>q. VInstr q \<in> set vs \<longrightarrow> q \<in> code_of s f"
  shows "\<exists>new. mark_operands s p vs (M, wl) = Inr (\<lambda>q. M q \<or> VInstr q \<in> set vs, wl @ new) \<and> distinct new \<and>
    set new = {q. VInstr q \<in> set vs \<and> \<not> M q}"
  using assms(3)
proof (induction vs arbitrary: M wl)
  case (Cons v vs)
  have rest: "\<forall>q. VInstr q \<in> set vs \<longrightarrow> q \<in> code_of s f" using Cons.prems by simp
  show ?case
  proof (cases "\<exists>q. v = VInstr q \<and> \<not> M q")
    case False
    then have one: "mark_operand s p v (M, wl) = Inr (M, wl)" by (auto simp: mark_operand_def split: val.splits)
    from Cons.IH [OF rest, of M wl] obtain new where
      new: "mark_operands s p vs (M, wl) = Inr (\<lambda>q. M q \<or> VInstr q \<in> set vs, wl @ new)" "distinct new"
      "set new = {q. VInstr q \<in> set vs \<and> \<not> M q}" by blast
    have "(\<lambda>q. M q \<or> VInstr q \<in> set vs) = (\<lambda>q. M q \<or> VInstr q \<in> set (v # vs))" using False by (intro ext) auto
    with one new False show ?thesis by (intro exI [of _ new]) auto
  next
    case True
    then obtain q where q: "v = VInstr q" "\<not> M q" by blast
    have "q \<in> code_of s f" using Cons.prems q by simp
    then have one: "mark_operand s p v (M, wl) = Inr (M(q := True), wl @ [q])"
      using code_owner(1) [OF assms(1)] assms(2) q by (simp add: mark_operand_def)
    from Cons.IH [OF rest, of "M(q := True)" "wl @ [q]"] obtain new where
      new: "mark_operands s p vs (M(q := True), wl @ [q]) = Inr (\<lambda>x. (M(q := True)) x \<or> VInstr x \<in> set vs, (wl @ [q]) @ new)"
      "distinct new" "set new = {x. VInstr x \<in> set vs \<and> \<not> (M(q := True)) x}" by blast
    have "(\<lambda>x. (M(q := True)) x \<or> VInstr x \<in> set vs) = (\<lambda>x. M x \<or> VInstr x \<in> set (v # vs))"
      using q by (intro ext) auto
    moreover have "distinct (q # new)" "set (q # new) = {x. VInstr x \<in> set (v # vs) \<and> \<not> M x}"
      using new(2) q by (auto simp: new(3))
    ultimately show ?thesis using one new(1) by (intro exI [of _ "q # new"]) simp
  qed
qed simp

definition mark_inv :: "(nat \<Rightarrow> bool option) \<Rightarrow> 'z ir_scheme \<Rightarrow> nat \<Rightarrow> marking \<Rightarrow> bool" where
  "mark_inv pure s f st \<longleftrightarrow> (case st of (M, wl) \<Rightarrow>
     (\<forall>p. M p \<longrightarrow> live pure s f p) \<and> (\<forall>p \<in> set wl. M p) \<and>
     (\<forall>p \<in> code_of s f. critical_instr pure s p \<longrightarrow> M p) \<and>
     (\<forall>p. M p \<longrightarrow> p \<in> set wl \<or> (\<forall>q. VInstr q \<in> set (operands s (VInstr p)) \<longrightarrow> M q)))"

definition mark_potential :: "'z ir_scheme \<Rightarrow> nat \<Rightarrow> marking \<Rightarrow> nat" where
  "mark_potential s f st = (case st of (M, wl) \<Rightarrow> length wl + card {p \<in> code_of s f. \<not> M p})"

lemma finite_code: "finite (code_of s f)"
  by (simp add: code_of_def)

lemma mark_step:
  assumes ok: "heap_ok s" "refs_ok s" and inv: "mark_inv pure s f (M, p # wl)"
  shows "\<exists>st. mark_instr s p (M, wl) = Inr st \<and> mark_inv pure s f st \<and>
    Suc (mark_potential s f st) = mark_potential s f (M, p # wl)"
proof -
  let ?vs = "operands s (VInstr p)"
  have p: "M p" "live pure s f p" using inv by (auto simp: mark_inv_def)
  have code: "p \<in> code_of s f" by (rule live_in_code [OF p(2)])
  have vs: "\<forall>q. VInstr q \<in> set ?vs \<longrightarrow> q \<in> code_of s f" using ok(2) code by (auto simp: refs_ok_def)
  from mark_operands_eq [OF ok(1) code this] obtain new where
    new: "mark_instr s p (M, wl) = Inr (\<lambda>q. M q \<or> VInstr q \<in> set ?vs, wl @ new)" "distinct new"
    "set new = {q. VInstr q \<in> set ?vs \<and> \<not> M q}"
    unfolding mark_instr_def by blast
  let ?M = "\<lambda>q. M q \<or> VInstr q \<in> set ?vs"
  have "mark_inv pure s f (?M, wl @ new)"
    using inv vs live.operand [OF p(2)] by (auto simp: mark_inv_def new(3))
  moreover have "Suc (mark_potential s f (?M, wl @ new)) = mark_potential s f (M, p # wl)"
  proof -
    have "{q \<in> code_of s f. \<not> M q} = {q \<in> code_of s f. \<not> ?M q} \<union> set new" using vs by (auto simp: new(3))
    moreover have "{q \<in> code_of s f. \<not> ?M q} \<inter> set new = {}" by (auto simp: new(3))
    ultimately have "card {q \<in> code_of s f. \<not> M q} = card {q \<in> code_of s f. \<not> ?M q} + card (set new)"
      using finite_subset [OF _ finite_code [of s f], of "{q \<in> code_of s f. \<not> ?M q}"]
      by (simp add: card_Un_disjoint subset_iff)
    then show ?thesis using distinct_card [OF new(2)] by (simp add: mark_potential_def)
  qed
  ultimately show ?thesis using new(1) by blast
qed

lemma mark_done:
  assumes "live pure s f p" "mark_inv pure s f (M, [])"
  shows "M p"
  using assms by (induction rule: live.induct) (auto simp: mark_inv_def critical_instr_def)

lemma mark_loop_result:
  "heap_ok s \<Longrightarrow> refs_ok s \<Longrightarrow> mark_inv pure s f st \<Longrightarrow> mark_potential s f st \<le> n \<Longrightarrow>
     \<exists>M. mark_loop n s st = Inr M \<and> mark_inv pure s f (M, [])"
proof (induction n arbitrary: st)
  case 0
  then obtain M where "st = (M, [])" by (cases st) (auto simp: mark_potential_def)
  with 0 show ?case by simp
next
  case (Suc n)
  obtain M wl where st: "st = (M, wl)" by fastforce
  show ?case
  proof (cases wl)
    case Nil
    with Suc.prems st show ?thesis by simp
  next
    case (Cons p wl')
    from mark_step [OF Suc.prems(1,2) Suc.prems(3) [unfolded st Cons]] obtain st' where
      "mark_instr s p (M, wl') = Inr st'" "mark_inv pure s f st'"
      "Suc (mark_potential s f st') = mark_potential s f (M, p # wl')"
      by blast
    with Suc.IH [of st'] Suc.prems st Cons show ?thesis by simp
  qed
qed

text \<open>Marking returns, and it marks exactly the live instructions.\<close>

lemma mark_function_live:
  assumes ok: "heap_ok s" "refs_ok s" "calls_ok pure s" and f: "funs s f \<noteq> None"
  shows "mark_function pure s f = Inr (live pure s f)"
proof -
  let ?ps = "concat (map (ilist s) (fblocks s f))"
  have crit: "\<forall>p \<in> set ?ps. is_critical pure s p = Inr (critical_instr pure s p)"
    using is_critical_total [OF ok(3)] code_owner(2) [OF ok(1), of _ f] by (auto simp: code_of_flow)
  let ?M = "\<lambda>p. False \<or> p \<in> set ?ps \<and> critical_instr pure s p" and ?wl = "[] @ filter (critical_instr pure s) ?ps"
  have inv: "mark_inv pure s f (?M, ?wl)"
    unfolding code_of_flow [symmetric] set_filter
    by (auto simp: mark_inv_def critical_instr_def simp del: set_concat intro: live.critical)
      (auto simp: code_of_flow)
  have "length ?wl + card {p \<in> code_of s f. \<not> ?M p} = card (set ?wl) + card {p \<in> code_of s f. \<not> ?M p}"
    using distinct_card [of ?wl] flow_distinct [OF ok(1)] by simp
  also have "\<dots> = card (set ?wl \<union> {p \<in> code_of s f. \<not> ?M p})"
    using finite_subset [OF _ finite_code [of s f], of "{p \<in> code_of s f. \<not> ?M p}"]
    by (subst card_Un_disjoint) auto
  also have "\<dots> \<le> card {..< next_id s}"
    using ilist_not_fresh [OF ok(1)] by (intro card_mono) (auto simp: code_of_def)
  finally have "mark_potential s f (?M, ?wl) \<le> next_id s" by (simp add: mark_potential_def)
  from mark_loop_result [OF ok(1,2) inv this] obtain M where
    M: "mark_loop (next_id s) s (?M, ?wl) = Inr M" "mark_inv pure s f (M, [])" by blast
  have "M p \<longleftrightarrow> live pure s f p" for p
    using M(2) mark_done [OF _ M(2), of p] by (auto simp: mark_inv_def)
  then have "M = live pure s f" by blast
  with M(1) show ?thesis
    using func_instrs_eq [OF ok(1) f] collect_critical_eq [OF crit, of "\<lambda>_. False" "[]"]
    by (simp add: mark_function_def)
qed

section \<open>What sweeping does\<close>

text \<open>The state without a set of instructions.\<close>

definition without :: "nat set \<Rightarrow> 'z ir_scheme \<Rightarrow> 'z ir_scheme" where
  "without D s = s\<lparr>
     operands := (\<lambda>u. if u \<in> VInstr ` D then [] else operands s u),
     num_ops := (\<lambda>u. if u \<in> VInstr ` D then 0 else num_ops s u),
     instrs := (\<lambda>p. if p \<in> D then None else instrs s p),
     blocks := (\<lambda>b. map_option (\<lambda>k. k\<lparr>instr_list := filter (\<lambda>p. p \<notin> D) (instr_list k)\<rparr>) (blocks s b))\<rparr>"

definition forget_uses :: "nat set \<Rightarrow> 'z ir_scheme \<Rightarrow> 'z ir_scheme" where
  "forget_uses D s = s\<lparr>use_list := (\<lambda>v. if v = VNull then use_list s v
     else filter (\<lambda>use. fst use \<notin> VInstr ` D) (use_list s v))\<rparr>"

definition uses_backed :: "'z ir_scheme \<Rightarrow> bool" where
  "uses_backed s \<longleftrightarrow> (\<forall>v u i. v \<noteq> VNull \<longrightarrow> (u, i) \<in> set (use_list s v) \<longrightarrow> v \<in> set (operands s u))"

lemma use_def_backed: "use_def_ok s \<Longrightarrow> uses_backed s"
  by (fastforce simp: uses_backed_def use_def_ok_def uses_of_def)

lemma remove_use_of_ops_eq:
  assumes "uses_backed s" "VNull \<notin> set (operands s (VInstr p))"
  shows "remove_use_of_ops (VInstr p) s = Inr (forget_uses {p} s)"
proof -
  have "use_list s v = filter (\<lambda>use. fst use \<noteq> VInstr p) (use_list s v)"
    if "v \<noteq> VNull" "v \<notin> set (operands s (VInstr p))" for v
  proof -
    have "\<forall>use \<in> set (use_list s v). fst use \<noteq> VInstr p"
      using assms(1) that unfolding uses_backed_def by fastforce
    then show ?thesis by simp
  qed
  then have "(\<lambda>v. if v \<in> set (operands s (VInstr p)) then filter (\<lambda>use. fst use \<noteq> VInstr p) (use_list s v) else use_list s v) =
      (\<lambda>v. if v = VNull then use_list s v else filter (\<lambda>use. fst use \<noteq> VInstr p) (use_list s v))"
    using assms(2) by (intro ext) auto
  then show ?thesis using assms(2)
    by (simp add: remove_use_of_ops_def remove_uses_Inr forget_uses_def cong: if_cong)
qed

lemma forget_forget: "forget_uses D (forget_uses E s) = forget_uses (E \<union> D) s"
  by (auto simp: forget_uses_def image_Un intro!: ir.equality)

lemma remove_all_uses_eq:
  assumes "uses_backed s" "\<forall>p \<in> set ps. VNull \<notin> set (operands s (VInstr p))"
  shows "remove_all_uses ps s = Inr (forget_uses (set ps) s)"
  using assms
proof (induction ps arbitrary: s)
  case Nil
  then show ?case by (auto simp: forget_uses_def intro!: ir.equality)
next
  case (Cons p ps)
  have one: "remove_use_of_ops (VInstr p) s = Inr (forget_uses {p} s)"
    by (rule remove_use_of_ops_eq) (use Cons.prems in auto)
  have "uses_backed (forget_uses {p} s)" using Cons.prems(1) by (auto simp: uses_backed_def forget_uses_def)
  moreover have "\<forall>q \<in> set ps. VNull \<notin> set (operands (forget_uses {p} s) (VInstr q))"
    using Cons.prems(2) by (simp add: forget_uses_def)
  ultimately show ?case using Cons.IH one by (simp add: forget_forget)
qed

lemma without_insert:
  assumes "heap_ok s" "p \<in> set (ilist s b)" "p \<notin> D"
  shows "drop_instr p (without D s) = Inr (without (insert p D) s)"
proof -
  obtain ins where ins: "instrs s p = Some ins" "i_parent ins = b" using heap_okD(3) [OF assms(1,2)] by blast
  obtain k where k: "blocks s b = Some k" "p \<in> set (instr_list k)"
    using assms(2) by (cases "blocks s b") (auto simp: ilist_def)
  have other: "p \<notin> set (instr_list k')" if "blocks s c = Some k'" "c \<noteq> b" for c k'
    using heap_okD(3) [OF assms(1), of p c] ins that by (auto simp: ilist_def)
  have "distinct (instr_list k)" using heap_okD(2) [OF assms(1), of b] k by (simp add: ilist_def)
  then have "remove1 p (filter (\<lambda>q. q \<notin> D) (instr_list k)) = filter (\<lambda>q. q \<notin> insert p D) (instr_list k)"
    by (simp add: distinct_remove1_removeAll removeAll_filter_not_eq conj_commute)
      (rule filter_cong, auto)
  note eq1 = this
  have same: "filter (\<lambda>q. q \<notin> D) (instr_list k') = filter (\<lambda>q. q \<notin> insert p D) (instr_list k')"
    if "blocks s c = Some k'" "c \<noteq> b" for c k'
    using other [OF that] by (intro filter_cong) auto
  have "(blocks (without D s))(b \<mapsto> k\<lparr>instr_list := remove1 p (filter (\<lambda>q. q \<notin> D) (instr_list k))\<rparr>) =
      blocks (without (insert p D) s)"
  proof (intro ext)
    fix c
    show "((blocks (without D s))(b \<mapsto> k\<lparr>instr_list := remove1 p (filter (\<lambda>q. q \<notin> D) (instr_list k))\<rparr>)) c =
        blocks (without (insert p D) s) c"
      using k(1) same eq1 by (cases "blocks s c"; cases "c = b") (simp_all add: without_def)
  qed
  then show ?thesis using ins k(1) assms(3)
    by (auto simp: drop_instr_def modify_block_def without_def fun_eq_iff intro!: ir.equality)
qed

lemma drop_all_eq:
  assumes "heap_ok s" "\<forall>p \<in> set ps. \<exists>b. p \<in> set (ilist s b)" "distinct ps" "set ps \<inter> D = {}"
  shows "drop_all ps (without D s) = Inr (without (D \<union> set ps) s)"
  using assms(2-4)
proof (induction ps arbitrary: D)
  case (Cons p ps)
  then obtain b where b: "p \<in> set (ilist s b)" by auto
  have "drop_instr p (without D s) = Inr (without (insert p D) s)"
    by (rule without_insert [OF assms(1) b]) (use Cons.prems in auto)
  moreover have "drop_all ps (without (insert p D) s) = Inr (without (insert p D \<union> set ps) s)"
    by (rule Cons.IH) (use Cons.prems in auto)
  ultimately show ?case by simp
qed simp

lemma without_empty: "without {} s = s"
proof -
  have "map_option (\<lambda>k. k\<lparr>instr_list := filter (\<lambda>p. p \<notin> {}) (instr_list k)\<rparr>) = (id :: block option \<Rightarrow> block option)"
    by (auto simp: fun_eq_iff option.map_ident)
  then show ?thesis by (auto simp: without_def intro!: ir.equality)
qed

lemma forget_none: "forget_uses {} s = s"
  by (auto simp: forget_uses_def intro!: ir.equality)

text \<open>The instructions that a sweep of \<open>f\<close> erases, and the state after it.\<close>

definition dead :: "(nat \<Rightarrow> bool option) \<Rightarrow> 'z ir_scheme \<Rightarrow> nat \<Rightarrow> nat set" where
  "dead pure s f = {p \<in> code_of s f. \<not> live pure s f p}"

definition swept :: "nat set \<Rightarrow> 'z ir_scheme \<Rightarrow> 'z ir_scheme" where
  "swept D s = without D (forget_uses D s)"

lemma heap_ok_forget: "heap_ok s \<Longrightarrow> heap_ok (forget_uses D s)"
  by (simp add: forget_uses_def heap_ok_def fresh_ok_def ilist_def owner_def fblocks_def)

lemma forget_ilist [simp]: "ilist (forget_uses D s) = ilist s"
  by (simp add: forget_uses_def ilist_def fun_eq_iff)

lemma sweep_result:
  assumes ok: "heap_ok s" "use_def_ok s" "refs_ok s" and f: "funs s f \<noteq> None"
  shows "sweep (live pure s f) f (s, n) = Inr (dead pure s f \<noteq> {}, swept (dead pure s f) s, n + card (dead pure s f))"
proof -
  let ?ps = "concat (map (ilist s) (fblocks s f))"
  let ?del = "filter (\<lambda>p. \<not> live pure s f p) ?ps"
  have set_del: "set ?del = dead pure s f" by (auto simp: dead_def code_of_def)
  have dist: "distinct ?del" using flow_distinct [OF ok(1)] by simp
  have rem: "remove_all_uses ?del s = Inr (forget_uses (set ?del) s)"
    by (rule remove_all_uses_eq [OF use_def_backed [OF ok(2)]]) (use ok(3) in \<open>simp add: refs_ok_def\<close>)
  have "drop_all ?del (without {} (forget_uses (set ?del) s)) = Inr (without ({} \<union> set ?del) (forget_uses (set ?del) s))"
    by (rule drop_all_eq [OF heap_ok_forget [OF ok(1)]]) (use dist in auto)
  then have "drop_all ?del (forget_uses (set ?del) s) = Inr (swept (dead pure s f) s)"
    by (simp only: without_empty set_del swept_def sup_bot_left)
  moreover have "length ?del = card (dead pure s f)" using distinct_card [OF dist] by (simp only: set_del)
  moreover have "?del \<noteq> [] \<longleftrightarrow> dead pure s f \<noteq> {}" by (simp only: set_del [symmetric] set_empty)
  ultimately show ?thesis using func_instrs_eq [OF ok(1) f] rem
    by (simp only: sweep_def prod.case bnd_Inr Let_def)
qed

section \<open>The module after a sweep\<close>

lemma swept_views:
  "ilist (swept D s) b = filter (\<lambda>p. p \<notin> D) (ilist s b)" "owner (swept D s) = owner s"
  "fblocks (swept D s) = fblocks s" "preds (swept D s) = preds s" "succs (swept D s) = succs s"
  "instrs (swept D s) p = (if p \<in> D then None else instrs s p)"
  "operands (swept D s) u = (if u \<in> VInstr ` D then [] else operands s u)"
  "num_ops (swept D s) u = (if u \<in> VInstr ` D then 0 else num_ops s u)"
  "funs (swept D s) = funs s" "function_list (swept D s) = function_list s" "next_id (swept D s) = next_id s"
  "gvars (swept D s) = gvars s" "global_list (swept D s) = global_list s"
  "use_list (swept D s) v = (if v = VNull then use_list s v else filter (\<lambda>use. fst use \<notin> VInstr ` D) (use_list s v))"
  by (auto simp: swept_def without_def forget_uses_def ilist_def owner_def fblocks_def preds_def succs_def fun_eq_iff
    option.map_comp comp_def split: option.splits)

lemma swept_use_def:
  assumes "use_def_ok s"
  shows "use_def_ok (swept D s)"
proof -
  note ok = use_def_okD [OF assms]
  have "set (use_list (swept D s) v) = uses_of (swept D s) v" if "v \<noteq> VNull" for v
  proof -
    have "set (use_list s v) = uses_of s v" "distinct (use_list s v)"
      using assms that by (simp_all add: use_def_ok_def)
    then show ?thesis using that by (auto simp: swept_views uses_of_def split: if_splits)
  qed
  then show ?thesis using assms by (auto simp: use_def_ok_def swept_views)
qed

lemma swept_heap:
  assumes "heap_ok s"
  shows "heap_ok (swept D s)"
proof (rule heap_okI)
  show "fresh_ok (swept D s)"
    using heap_okD(1) [OF assms] by (auto simp: fresh_ok_def swept_views swept_def without_def forget_uses_def)
  show "distinct (ilist (swept D s) b)" for b using heap_okD(2) [OF assms] by (simp add: swept_views)
  show "\<exists>ins. instrs (swept D s) p = Some ins \<and> i_parent ins = b" if "p \<in> set (ilist (swept D s) b)" for b p
    using heap_okD(3) [OF assms] that by (auto simp: swept_views)
qed (use heap_okD(4,5) [OF assms] in \<open>simp_all add: swept_views\<close>)

text \<open>Terminators are never erased.\<close>

definition spares_terminators :: "nat set \<Rightarrow> 'z ir_scheme \<Rightarrow> bool" where
  "spares_terminators D s \<longleftrightarrow> (\<forall>p \<in> D. \<not> is_term s p)"

lemma swept_is_term: "p \<notin> D \<Longrightarrow> is_term (swept D s) p \<longleftrightarrow> is_term s p"
  by (simp add: is_term_def op_of_def swept_views)

lemma term_is_last: "body_ok s \<Longrightarrow> p \<in> set (ilist s b) \<Longrightarrow> is_term s p \<Longrightarrow> p = last (ilist s b)"
proof -
  assume *: "body_ok s" "p \<in> set (ilist s b)" "is_term s p"
  then have "ilist s b = butlast (ilist s b) @ [last (ilist s b)]" by (cases "ilist s b") auto
  then have "p \<in> set (butlast (ilist s b) @ [last (ilist s b)])" using *(2) by simp
  with *(1,3) show ?thesis by (auto simp: body_ok_def)
qed

lemma swept_last:
  assumes "spares_terminators D s" "ilist s b \<noteq> []" "is_term s (last (ilist s b))"
  shows "ilist (swept D s) b = filter (\<lambda>p. p \<notin> D) (butlast (ilist s b)) @ [last (ilist s b)]"
proof -
  have "last (ilist s b) \<notin> D" using assms(1,3) by (auto simp: spares_terminators_def)
  moreover have "filter (\<lambda>p. p \<notin> D) (ilist s b) = filter (\<lambda>p. p \<notin> D) (butlast (ilist s b) @ [last (ilist s b)])"
    using assms(2) by simp
  ultimately show ?thesis by (simp add: swept_views)
qed

lemma swept_no_term:
  assumes "body_ok s" "ilist s b = [] \<or> \<not> is_term s (last (ilist s b))" "p \<in> set (ilist (swept D s) b)"
  shows "\<not> is_term (swept D s) p"
proof -
  have p: "p \<in> set (ilist s b)" "p \<notin> D" using assms(3) by (auto simp: swept_views)
  then have "\<not> is_term s p" using term_is_last [OF assms(1) p(1)] assms(2) by auto
  then show ?thesis by (simp add: swept_is_term p(2))
qed

lemma swept_body:
  assumes "body_ok s" "spares_terminators D s"
  shows "body_ok (swept D s)"
  unfolding body_ok_def
proof (intro allI ballI)
  fix b p assume p: "p \<in> set (butlast (ilist (swept D s) b))"
  show "\<not> is_term (swept D s) p"
  proof (cases "ilist s b \<noteq> [] \<and> is_term s (last (ilist s b))")
    case True
    with p have "p \<in> set (filter (\<lambda>p. p \<notin> D) (butlast (ilist s b)))"
      using swept_last [OF assms(2)] by simp
    with assms(1) show ?thesis by (auto simp: body_ok_def swept_is_term)
  next
    case False
    with p show ?thesis using swept_no_term [OF assms(1), of b p D] by (auto dest: in_set_butlastD)
  qed
qed

lemma swept_br_targets:
  assumes "body_ok s" "spares_terminators D s"
  shows "br_targets (swept D s) = br_targets s"
proof
  fix b
  show "br_targets (swept D s) b = br_targets s b"
  proof (cases "ilist s b \<noteq> [] \<and> is_term s (last (ilist s b))")
    case True
    then have "last (ilist s b) \<notin> D" using assms(2) by (auto simp: spares_terminators_def)
    with True show ?thesis using swept_last [OF assms(2), of b]
      by (auto simp: br_targets_def op_of_def swept_views(6,7) image_iff)
  next
    case False
    have nt: "br_targets t b = []" if "ilist t b = [] \<or> \<not> is_term t (last (ilist t b))" for t :: "'a ir_scheme"
      using that by (auto simp: br_targets_def is_term_def split: option.splits)
    have "ilist (swept D s) b = [] \<or> \<not> is_term (swept D s) (last (ilist (swept D s) b))"
      using swept_no_term [OF assms(1), of b _ D] False by (auto intro: last_in_set)
    with False show ?thesis using nt by metis
  qed
qed

lemma swept_ir_ok:
  assumes "ir_ok s" "spares_terminators D s"
  shows "ir_ok (swept D s)"
proof -
  have "br_targets (swept D s) = br_targets s" by (rule swept_br_targets) (use assms in \<open>simp_all add: ir_ok_def\<close>)
  with assms show ?thesis
    by (simp add: ir_ok_def cfg_ok_def swept_views(4,5) swept_use_def swept_heap swept_body)
qed

lemma swept_code: "code_of (swept D s) f = code_of s f - D"
  by (auto simp: code_of_def swept_views)

lemma code_disjoint: "heap_ok s \<Longrightarrow> p \<in> code_of s f \<Longrightarrow> p \<in> code_of s g \<Longrightarrow> f = g"
  using code_owner(1) [of s p f] code_owner(1) [of s p g] by simp

lemma swept_refs:
  assumes "heap_ok s" "refs_ok s"
  shows "refs_ok (swept (dead pure s g) s)"
proof -
  have "q \<notin> dead pure s g" if p: "p \<in> code_of s f" "p \<notin> dead pure s g" "VInstr q \<in> set (operands s (VInstr p))" for p q f
  proof
    assume q: "q \<in> dead pure s g"
    have "q \<in> code_of s f" using assms(2) p(1,3) by (auto simp: refs_ok_def)
    then have "f = g" using q code_disjoint [OF assms(1)] by (auto simp: dead_def)
    then have "live pure s g p" using p(1,2) by (auto simp: dead_def)
    then have "live pure s g q" using p(3) q by (auto simp: dead_def intro: live.operand)
    with q show False by (simp add: dead_def)
  qed
  then show ?thesis using assms(2) by (auto simp: refs_ok_def swept_code swept_views)
qed

lemma dead_not_critical: "p \<in> dead pure s f \<Longrightarrow> \<not> critical_instr pure s p"
  by (auto simp: dead_def critical_instr_def intro: live.critical)

lemma dead_spares: "heap_ok s \<Longrightarrow> spares_terminators (dead pure s f) s"
proof (unfold spares_terminators_def, intro ballI notI)
  fix p assume h: "heap_ok s" and p: "p \<in> dead pure s f" "is_term s p"
  obtain ins where "instrs s p = Some ins" using code_owner(2) [OF h, of p f] p(1) by (auto simp: dead_def)
  with p(2) have "critical_instr pure s p"
    by (cases "i_op ins") (auto simp: is_term_def op_of_def critical_instr_def is_critical_def)
  with dead_not_critical [OF p(1)] show False ..
qed

section \<open>The whole pass\<close>

text \<open>What the pass keeps, relative to the module it started with: the module without a set of
  instructions, none of them critical.\<close>

definition trimmed :: "(nat \<Rightarrow> bool option) \<Rightarrow> 'z ir_scheme \<Rightarrow> nat set \<Rightarrow> 'z ir_scheme \<Rightarrow> bool" where
  "trimmed pure s0 D s \<longleftrightarrow> ir_ok s \<and> refs_ok s \<and> calls_ok pure s \<and> funs s = funs s0 \<and>
     function_list s = function_list s0 \<and> gvars s = gvars s0 \<and> global_list s = global_list s0 \<and> next_id s = next_id s0 \<and>
     (\<forall>b. ilist s b = filter (\<lambda>p. p \<notin> D) (ilist s0 b)) \<and> (\<forall>p. instrs s p = (if p \<in> D then None else instrs s0 p)) \<and>
     (\<forall>u. operands s u = (if u \<in> VInstr ` D then [] else operands s0 u)) \<and>
     (\<forall>p \<in> D. \<not> critical_instr pure s0 p)"

definition instr_count :: "'z ir_scheme \<Rightarrow> nat" where
  "instr_count s = card {p. p < next_id s \<and> instrs s p \<noteq> None}"

lemma critical_instr_cong:
  "instrs s' p = instrs s p \<Longrightarrow> operands s' (VInstr p) = operands s (VInstr p) \<Longrightarrow>
     critical_instr pure s' p = critical_instr pure s p"
  by (simp add: critical_instr_def is_critical_def get_operand_def cong: if_cong)

lemma trimmed_sweep:
  assumes "trimmed pure s0 D s"
  shows "trimmed pure s0 (D \<union> dead pure s f) (swept (dead pure s f) s)"
proof -
  let ?E = "dead pure s f"
  have ok: "ir_ok s" "refs_ok s" "heap_ok s" using assms by (simp_all add: trimmed_def ir_ok_def)
  have "ir_ok (swept ?E s)" by (rule swept_ir_ok [OF ok(1) dead_spares [OF ok(3)]])
  moreover have "refs_ok (swept ?E s)" by (rule swept_refs [OF ok(3,2)])
  moreover have "calls_ok pure (swept ?E s)" using assms by (fastforce simp: trimmed_def calls_ok_def swept_views split: if_splits)
  moreover have "\<not> critical_instr pure s0 p" if p: "p \<in> ?E" for p
  proof (cases "p \<in> D")
    case True
    with assms show ?thesis by (simp add: trimmed_def)
  next
    case False
    then have "instrs s p = instrs s0 p" "operands s (VInstr p) = operands s0 (VInstr p)"
      using assms by (auto simp: trimmed_def)
    with dead_not_critical [OF p] show ?thesis using critical_instr_cong by blast
  qed
  ultimately show ?thesis using assms
    by (auto simp: trimmed_def swept_views image_Un intro!: filter_cong)
qed

lemma swept_count:
  assumes "heap_ok s"
  shows "instr_count (swept (dead pure s f) s) + card (dead pure s f) = instr_count s"
proof -
  let ?E = "dead pure s f"
  have sub: "?E \<subseteq> {p. p < next_id s \<and> instrs s p \<noteq> None}"
    using ilist_not_fresh [OF assms] code_owner(2) [OF assms, of _ f] by (force simp: dead_def code_of_def)
  have "{p. p < next_id (swept ?E s) \<and> instrs (swept ?E s) p \<noteq> None} = {p. p < next_id s \<and> instrs s p \<noteq> None} - ?E"
    by (auto simp: swept_views)
  then have "instr_count (swept ?E s) = instr_count s - card ?E"
    using sub by (simp add: instr_count_def card_Diff_subset finite_subset [OF sub])
  moreover have "card ?E \<le> instr_count s" unfolding instr_count_def by (rule card_mono [OF _ sub]) simp
  ultimately show ?thesis by simp
qed

lemma dead_finite: "finite (dead pure s f)"
  by (rule finite_subset [OF _ finite_code [of s f]]) (auto simp: dead_def)

lemma swept_empty: "swept {} s = s"
  by (simp add: swept_def without_empty forget_none)

lemma one_function:
  assumes "trimmed pure s0 D s" "funs s0 f \<noteq> None"
  shows "mark_function pure s f = Inr (live pure s f)"
    and "sweep (live pure s f) f (s, n) = Inr (dead pure s f \<noteq> {}, swept (dead pure s f) s, n + card (dead pure s f))"
  using assms mark_function_live [of s pure f] sweep_result [of s f pure n]
  by (simp_all add: trimmed_def ir_ok_def)

lemma dce_functions_result:
  assumes "trimmed pure s0 D s" "\<forall>f \<in> set fs. funs s0 f \<noteq> None"
  shows "\<exists>c s' n' D'. dce_functions pure fs ch (s, n) = Inr (ch \<or> c, s', n') \<and> trimmed pure s0 D' s' \<and>
    n' + instr_count s' = n + instr_count s \<and> (c \<longrightarrow> instr_count s' < instr_count s) \<and>
    (\<not> c \<longrightarrow> s' = s \<and> (\<forall>f \<in> set fs. dead pure s f = {}))"
  using assms
proof (induction fs arbitrary: ch s n D)
  case (Cons f fs)
  let ?E = "dead pure s f" and ?s = "swept (dead pure s f) s"
  note one = one_function [OF Cons.prems(1), of f]
  have f: "funs s0 f \<noteq> None" using Cons.prems(2) by simp
  have heap: "heap_ok s" using Cons.prems(1) by (simp add: trimmed_def ir_ok_def)
  note count = swept_count [OF heap, of pure f]
  from Cons.IH [OF trimmed_sweep [OF Cons.prems(1), of f], of "ch \<or> ?E \<noteq> {}" "n + card ?E"] Cons.prems(2)
  obtain c s' n' D' where IH: "dce_functions pure fs (ch \<or> ?E \<noteq> {}) (?s, n + card ?E) = Inr ((ch \<or> ?E \<noteq> {}) \<or> c, s', n')"
    "trimmed pure s0 D' s'" "n' + instr_count s' = n + card ?E + instr_count ?s"
    "c \<longrightarrow> instr_count s' < instr_count ?s" "\<not> c \<longrightarrow> s' = ?s \<and> (\<forall>f \<in> set fs. dead pure ?s f = {})"
    by auto
  have run: "dce_functions pure (f # fs) ch (s, n) = Inr (ch \<or> (?E \<noteq> {} \<or> c), s', n')"
    using one(1) [OF f] one(2) [OF f, of n] IH(1) by simp
  have le: "instr_count s' \<le> instr_count ?s" using IH(4,5) by (cases c) auto
  have "?E \<noteq> {} \<longrightarrow> card ?E > 0" using dead_finite [of pure s f] by (simp add: card_gt_0_iff)
  then have less: "?E \<noteq> {} \<or> c \<longrightarrow> instr_count s' < instr_count s" using count le IH(4) by linarith
  have same: "\<not> (?E \<noteq> {} \<or> c) \<longrightarrow> s' = s \<and> (\<forall>f \<in> set (f # fs). dead pure s f = {})"
    using IH(5) by (auto simp: swept_empty)
  have "n' + instr_count s' = n + instr_count s" using IH(3) count by simp
  with run less same IH(2) show ?case by blast
qed (auto simp: trimmed_def)

lemma dce_loop_result:
  "trimmed pure s0 D s \<Longrightarrow> \<forall>f \<in> set (function_list s0). funs s0 f \<noteq> None \<Longrightarrow> instr_count s < k \<Longrightarrow>
     \<exists>s' n' D'. dce_loop k pure (s, n) = Inr (s', n') \<and> trimmed pure s0 D' s' \<and>
       n' + instr_count s' = n + instr_count s \<and> (\<forall>f \<in> set (function_list s0). dead pure s' f = {})"
proof (induction k arbitrary: s n D)
  case (Suc k)
  have fl: "function_list s = function_list s0" using Suc.prems(1) by (simp add: trimmed_def)
  from dce_functions_result [OF Suc.prems(1,2), of False n] obtain c s1 n1 D1 where
    one: "dce_functions pure (function_list s0) False (s, n) = Inr (c, s1, n1)" "trimmed pure s0 D1 s1"
    "n1 + instr_count s1 = n + instr_count s" "c \<longrightarrow> instr_count s1 < instr_count s"
    "\<not> c \<longrightarrow> s1 = s \<and> (\<forall>f \<in> set (function_list s0). dead pure s f = {})"
    by auto
  show ?case
  proof (cases c)
    case True
    then have "instr_count s1 < k" using one(4) Suc.prems(3) by simp
    from Suc.IH [OF one(2) Suc.prems(2) this, of n1] obtain s' n' D' where
      "dce_loop k pure (s1, n1) = Inr (s', n')" "trimmed pure s0 D' s'" "n' + instr_count s' = n1 + instr_count s1"
      "\<forall>f \<in> set (function_list s0). dead pure s' f = {}"
      by blast
    with True one(1,3) fl show ?thesis by auto
  next
    case False
    with one fl Suc.prems(1) show ?thesis by auto
  qed
qed simp

text \<open>Every call names a function of the module.\<close>

definition calls_known :: "'z ir_scheme \<Rightarrow> bool" where
  "calls_known s \<longleftrightarrow> (\<forall>p ins. instrs s p = Some ins \<longrightarrow> i_op ins = Call \<longrightarrow>
     (\<exists>f vs. operands s (VInstr p) = VFun f # vs \<and> f \<in> set (function_list s)))"

lemma DeadCode_run_trimmed:
  assumes ok: "ir_ok s" "refs_ok s" "calls_known s" "analysable s"
  obtains pure s' n D where "FuncInfo_run s = Inr pure" "DeadCode_run s = Inr (s', n)" "trimmed pure s D s'"
    "n + instr_count s' = instr_count s" "\<forall>f \<in> set (function_list s). dead pure s' f = {}" "calls_ok pure s"
proof -
  have "\<exists>b. trivial_mark s f = Inr b" if "f \<in> set (function_list s)" for f using ok(4) that by (simp add: analysable_def)
  then have funs: "\<forall>f \<in> set (function_list s). funs s f \<noteq> None" by (fastforce simp: trivial_mark_def)
  have "\<exists>pure. FuncInfo_run s = Inr pure \<and> (\<forall>f \<in> set (function_list s). pure f \<noteq> None)"
    using FuncInfo_run_total [OF ok(4)] .
  then obtain pure where p: "FuncInfo_run s = Inr pure" "\<forall>f \<in> set (function_list s). pure f \<noteq> None" by blast
  have "calls_ok pure s" using ok(3) p(2) by (fastforce simp: calls_ok_def calls_known_def)
  then have tr: "trimmed pure s {} s" using ok(1,2) by (simp add: trimmed_def)
  have "instr_count s \<le> card {..< next_id s}" unfolding instr_count_def by (intro card_mono) auto
  then have "instr_count s < Suc (next_id s)" by simp
  from dce_loop_result [OF tr funs this, of 0] obtain s' n D where
    r: "dce_loop (Suc (next_id s)) pure (s, 0) = Inr (s', n)" "trimmed pure s D s'" "n + instr_count s' = instr_count s"
    "\<forall>f \<in> set (function_list s). dead pure s' f = {}"
    by auto
  have "DeadCode_run s = Inr (s', n)" using p(1) r(1) by (simp add: DeadCode_run_def)
  then show thesis using that [OF p(1) _ r(2,3,4)] \<open>calls_ok pure s\<close> by blast
qed

text \<open>C27: dead code elimination returns; the module stays well formed and without dangling operands,
  it is the old module without a set of instructions none of which is critical, the counter is the
  number of instructions that went, and in every function all that is left is live: it is critical
  or an operand of something live.\<close>

theorem DeadCode_run_spec:
  assumes ok: "ir_ok s" "refs_ok s" "calls_known s" "analysable s"
  shows "\<exists>pure s' n D. FuncInfo_run s = Inr pure \<and> DeadCode_run s = Inr (s', n) \<and> ir_ok s' \<and> refs_ok s' \<and>
    (\<forall>b. ilist s' b = filter (\<lambda>p. p \<notin> D) (ilist s b)) \<and> (\<forall>p. instrs s' p = (if p \<in> D then None else instrs s p)) \<and>
    (\<forall>p. p \<notin> D \<longrightarrow> operands s' (VInstr p) = operands s (VInstr p)) \<and>
    (\<forall>p \<in> D. is_critical pure s p \<noteq> Inr True) \<and> n + instr_count s' = instr_count s \<and>
    (\<forall>f \<in> set (function_list s). \<forall>p \<in> code_of s' f. live pure s' f p)"
proof -
  obtain pure s' n D where r: "FuncInfo_run s = Inr pure" "DeadCode_run s = Inr (s', n)" "trimmed pure s D s'"
    "n + instr_count s' = instr_count s" "\<forall>f \<in> set (function_list s). dead pure s' f = {}"
    using DeadCode_run_trimmed [OF ok] by metis
  have "\<forall>f \<in> set (function_list s). \<forall>q \<in> code_of s' f. live pure s' f q" using r(5) by (auto simp: dead_def)
  then show ?thesis using r(1-4)
    by (intro exI [of _ pure] exI [of _ s'] exI [of _ n] exI [of _ D])
      (auto simp: trimmed_def critical_instr_def)
qed

text \<open>\<open>void h() { 1 + 2; }\<close>: an addition that nothing uses, and the return.\<close>

definition sample_dead :: ir where
  "sample_dead = \<lparr>
     operands = (\<lambda>_. [])(VInstr 2 := [VConst (CInt 1), VConst (CInt 2)]), num_ops = (\<lambda>_. 0)(VInstr 2 := 2),
     use_list = (\<lambda>_. [])(VConst (CInt 1) := [(VInstr 2, 0)], VConst (CInt 2) := [(VInstr 2, 1)]),
     fp_count = 0, cached_float = [], next_id = 4,
     instrs = [2 \<mapsto> \<lparr>i_type = INT32_T, i_op = Add, i_parent = 1, i_data = NoData, i_name = ''''\<rparr>,
       3 \<mapsto> \<lparr>i_type = VoidTy, i_op = Ret, i_parent = 1, i_data = NoData, i_name = ''''\<rparr>],
     blocks = [1 \<mapsto> \<lparr>bb_name = '''', bb_parent = 0, pre_bbs = [], succ_bbs = [], instr_list = [2, 3]\<rparr>],
     funs = [0 \<mapsto> \<lparr>f_name = ''h'', f_type = FunTy VoidTy [], basic_blocks = [1], arg_names = [], seq_cnt = 0\<rparr>],
     gvars = Map.empty, global_list = [], function_list = [0]\<rparr>"

lemma sample_dead_views:
  "ilist sample_dead b = (if b = 1 then [2, 3] else [])" "fblocks sample_dead f = (if f = 0 then [1] else [])"
  "owner sample_dead b = (if b = 1 then Some 0 else None)" "preds sample_dead b = []" "succs sample_dead b = []"
  "instrs sample_dead 2 = Some \<lparr>i_type = INT32_T, i_op = Add, i_parent = 1, i_data = NoData, i_name = ''''\<rparr>"
  "instrs sample_dead 3 = Some \<lparr>i_type = VoidTy, i_op = Ret, i_parent = 1, i_data = NoData, i_name = ''''\<rparr>"
  "p \<noteq> 2 \<Longrightarrow> p \<noteq> 3 \<Longrightarrow> instrs sample_dead p = None"
  "operands sample_dead u = (if u = VInstr 2 then [VConst (CInt 1), VConst (CInt 2)] else [])"
  "function_list sample_dead = [0]" "next_id sample_dead = 4"
  by (auto simp: sample_dead_def ilist_def fblocks_def owner_def preds_def succs_def)

lemma sample_dead_use_def: "use_def_ok sample_dead"
proof (rule use_def_okI)
  show "num_ops sample_dead u = length (operands sample_dead u)" for u by (simp add: sample_dead_def)
  show "operands sample_dead u \<noteq> [] \<Longrightarrow> is_user u" for u by (simp add: sample_dead_def split: if_splits)
  show "v \<noteq> VNull \<Longrightarrow> distinct (use_list sample_dead v)" for v by (simp add: sample_dead_def)
  show "v \<noteq> VNull \<Longrightarrow> (u, i) \<in> set (use_list sample_dead v) \<longleftrightarrow> i < length (operands sample_dead u) \<and> operands sample_dead u ! i = v" for v u i
    by (auto simp: sample_dead_def less_Suc_eq numeral_2_eq_2)
qed

lemma sample_dead_ok: "ir_ok sample_dead" "refs_ok sample_dead" "calls_known sample_dead" "analysable sample_dead"
proof -
  have "fresh_ok sample_dead" by (auto simp: fresh_ok_def sample_dead_def)
  then have "heap_ok sample_dead" by (auto simp: heap_ok_def sample_dead_views)
  moreover have "body_ok sample_dead" by (auto simp: body_ok_def sample_dead_views is_term_def op_of_def)
  moreover have "cfg_ok sample_dead" by (auto simp: cfg_ok_def br_targets_def sample_dead_views op_of_def)
  ultimately show "ir_ok sample_dead" using sample_dead_use_def by (simp add: ir_ok_def)
  show "refs_ok sample_dead" by (auto simp: refs_ok_def sample_dead_views)
  have "instrs sample_dead p = Some ins \<Longrightarrow> i_op ins \<noteq> Call" for p ins
    using sample_dead_views(6,7) sample_dead_views(8) [of p] by (cases "p = 2"; cases "p = 3") auto
  then show "calls_known sample_dead" by (auto simp: calls_known_def)
  have "trivial_mark sample_dead 0 = Inr True" by (simp add: trivial_mark_def is_side_effect_inst_def sample_dead_def)
  moreover have "use_list sample_dead (VFun 0) = []" by (simp add: sample_dead_def)
  ultimately show "analysable sample_dead"
    unfolding analysable_def sample_dead_views by (auto simp: uses_resolved_def)
qed

theorem DeadCode_run_spec_witness:
  "\<exists>s' n. DeadCode_run sample_dead = Inr (s', n) \<and> ir_ok s' \<and> 3 \<in> set (ilist s' 1) \<and> instr_count s' \<le> 2"
proof -
  obtain pure s' n D where r: "DeadCode_run sample_dead = Inr (s', n)" "ir_ok s'"
    "\<forall>b. ilist s' b = filter (\<lambda>p. p \<notin> D) (ilist sample_dead b)"
    "\<forall>p \<in> D. is_critical pure sample_dead p \<noteq> Inr True" "n + instr_count s' = instr_count sample_dead"
    using DeadCode_run_spec [OF sample_dead_ok] by metis
  have "is_critical pure sample_dead 3 = Inr True" by (simp add: is_critical_def sample_dead_views)
  then have "3 \<notin> D" using r(4) by auto
  then have "3 \<in> set (ilist s' 1)" using r(3) by (simp add: sample_dead_views)
  moreover have "{p. p < next_id sample_dead \<and> instrs sample_dead p \<noteq> None} \<subseteq> {2, 3}"
    using sample_dead_views(8) by fastforce
  then have "instr_count sample_dead \<le> card {2, 3 :: nat}" unfolding instr_count_def by (intro card_mono) auto
  ultimately show ?thesis using r by auto
qed

end
