(* ===== verification/Purity_Sound.thy ===== *)
theory Purity_Sound
  imports Dead_Code IR_Semantics
begin

text \<open>
  What the analysis of pure functions promises, in terms of the execution of the module: a
  function that it marks pure returns from every call that ends, without input and output, and
  without a change to any object that was there before. The reason is where addresses come from:
  every store of such a function goes through a chain of address computations that starts at an
  \<open>alloca\<close> of the same execution.
\<close>

section \<open>Modules with an execution\<close>

text \<open>What a complete module satisfies: it is well formed and typed, operands and branches stay inside
  their function, calls name functions of the module, the analysis can read it, and the global
  variables are pointers.\<close>

definition edges_inside :: "'z ir_scheme \<Rightarrow> bool" where
  "edges_inside s \<longleftrightarrow> (\<forall>f. \<forall>b \<in> set (fblocks s f). set (succs s b) \<subseteq> set (fblocks s f))"

definition globals_ok :: "'z ir_scheme \<Rightarrow> bool" where
  "globals_ok s \<longleftrightarrow> (\<forall>g \<in> set (global_list s). \<exists>x t. gvars s g = Some x \<and> g_type x = PtrTy t)"

definition complete_module :: "'z ir_scheme \<Rightarrow> bool" where
  "complete_module s \<longleftrightarrow> ir_ok s \<and> typed s \<and> refs_ok s \<and> edges_inside s \<and> calls_known s \<and> analysable s \<and> globals_ok s"

lemma complete_moduleD:
  assumes "complete_module s"
  shows "ir_ok s" "typed s" "refs_ok s" "edges_inside s" "calls_known s" "analysable s" "globals_ok s" "heap_ok s" "use_def_ok s"
  using assms by (simp_all add: complete_module_def ir_ok_def)

text \<open>The instruction that an execution reads belongs to its block.\<close>

lemma instr_atD:
  assumes "instr_at s b i = Some (p, ins)"
  shows "i < length (ilist s b)" "ilist s b ! i = p" "p \<in> set (ilist s b)" "instrs s p = Some ins"
  using assms by (auto simp: instr_at_def split: if_splits)

lemma block_of_instr:
  assumes "heap_ok s" and "p \<in> set (ilist s b)"
  obtains f where "b \<in> set (fblocks s f)"
proof -
  obtain k where "blocks s b = Some k" using assms(2) by (cases "blocks s b") (auto simp: ilist_def)
  then obtain f where "owner s b = Some f" by (simp add: owner_def)
  then have "b \<in> set (fblocks s f)" using assms(1) by (simp add: heap_ok_def)
  then show thesis by (rule that)
qed

lemma branch_inside:
  assumes "complete_module s" and "b \<in> set (fblocks s f)" and "instr_at s b i = Some (p, ins)" and "i_op ins = Br"
    and "branch (operands s (VInstr p)) \<rho> = Some t"
  shows "t \<in> set (fblocks s f)"
proof -
  note ok = complete_moduleD [OF assms(1)] and at = instr_atD [OF assms(3)]
  have "op_of s p = Some Br" using at(4) assms(4) by (simp add: op_of_def)
  then have "is_term s p" by (simp add: is_term_def)
  then have "p = last (ilist s b)" using term_is_last [OF _ at(3)] ok(1) by (simp add: ir_ok_def)
  then have "br_targets s b = br_edges (operands s (VInstr p))"
    using at(3) \<open>op_of s p = Some Br\<close> by (auto simp: br_targets_def)
  moreover have "t \<in> set (br_edges (operands s (VInstr p)))"
    using assms(5) by (auto simp: branch_def split: list.splits val.splits option.splits rv.splits if_splits)
  ultimately have "t \<in> set (succs s b)" using ok(1) by (simp add: ir_ok_def cfg_ok_def)
  then show ?thesis using ok(4) assms(2) by (auto simp: edges_inside_def)
qed

section \<open>Addresses of local variables\<close>

text \<open>The chain that \<open>get_first_addr\<close> follows to an \<open>alloca\<close>.\<close>

inductive local_addr :: "'z ir_scheme \<Rightarrow> val \<Rightarrow> bool" for s where
  alloca: "instrs s p = Some ins \<Longrightarrow> i_op ins = Alloca \<Longrightarrow> local_addr s (VInstr p)"
| gep: "instrs s p = Some ins \<Longrightarrow> i_op ins = Getelementptr \<Longrightarrow> operands s (VInstr p) = w # ws \<Longrightarrow> local_addr s w \<Longrightarrow>
    local_addr s (VInstr p)"
| other: "instrs s p = Some ins \<Longrightarrow> i_op ins \<notin> {Alloca, Getelementptr, Load} \<Longrightarrow>
    first_pointer s (operands s (VInstr p)) = Inr (Some w) \<Longrightarrow> local_addr s w \<Longrightarrow> local_addr s (VInstr p)"

lemma first_addr_local:
  "first_addr n s v = Inr (VInstr q) \<Longrightarrow> instrs s q = Some ins \<Longrightarrow> i_op ins = Alloca \<Longrightarrow> local_addr s v"
proof (induction n arbitrary: v)
  case (Suc n)
  then obtain p where v: "v = VInstr p" by (auto split: val.splits)
  then obtain i where i: "instrs s p = Some i" using Suc.prems(1) by (auto simp: bnd_eq_Inr_iff)
  consider "i_op i = Alloca" | "i_op i = Getelementptr" | "i_op i = Load" | "i_op i \<notin> {Alloca, Getelementptr, Load}" by blast
  then show ?case
  proof cases
    case 1
    then show ?thesis using i v by (auto intro: local_addr.alloca)
  next
    case 2
    then obtain w where w: "get_operand s (VInstr p) 0 = Inr w" "first_addr n s w = Inr (VInstr q)"
      using Suc.prems(1) i v by (auto simp: bnd_eq_Inr_iff)
    then obtain ws where "operands s (VInstr p) = w # ws"
      by (cases "operands s (VInstr p)") (auto simp: get_operand_def bnd_eq_Inr_iff split: if_splits)
    then show ?thesis using local_addr.gep [OF i 2] Suc.IH [OF w(2) Suc.prems(2,3)] v by blast
  next
    case 3
    then show ?thesis using Suc.prems i v by (auto simp: bnd_eq_Inr_iff)
  next
    case 4
    then obtain r where r: "first_pointer s (operands s (VInstr p)) = Inr r"
      "(case r of None \<Rightarrow> Inr v | Some w \<Rightarrow> first_addr n s w) = Inr (VInstr q)"
      using Suc.prems(1) i v by (auto simp: bnd_eq_Inr_iff)
    show ?thesis
    proof (cases r)
      case None
      then show ?thesis using r(2) 4 i v Suc.prems(2,3) by simp
    next
      case (Some w)
      then have "local_addr s w" using r(2) Suc.IH Suc.prems(2,3) by simp
      then show ?thesis using local_addr.other [OF i 4] r(1) Some v by simp
    qed
  qed
qed simp

lemma is_local_addrD:
  assumes "is_local_addr s v = Inr True"
  shows "local_addr s v"
proof -
  obtain a where a: "get_first_addr s v = Inr a"
    "(case a of VInstr p \<Rightarrow> bnd (deref (instrs s p)) (\<lambda>ins. Inr (i_op ins = Alloca)) | _ \<Rightarrow> Inr False) = Inr True"
    using assms unfolding is_local_addr_def bnd_eq_Inr_iff by blast
  then obtain q ins where "a = VInstr q" "instrs s q = Some ins" "i_op ins = Alloca"
    by (auto simp: bnd_eq_Inr_iff split: val.splits)
  then show ?thesis using a(1) first_addr_local by (simp only: get_first_addr_def)
qed

section \<open>What pure functions are made of\<close>

definition pure_fun :: "'z ir_scheme \<Rightarrow> nat \<Rightarrow> bool" where
  "pure_fun s f \<longleftrightarrow> f \<in> set (function_list s) \<and> \<not> impure s f"

lemma pure_mark:
  assumes "complete_module s" and "pure_fun s f"
  shows "trivial_mark s f = Inr True"
proof -
  obtain b where "trivial_mark s f = Inr b"
    using complete_moduleD(6) [OF assms(1)] assms(2) by (auto simp: analysable_def pure_fun_def)
  then show ?thesis using assms(2) impure.itself [of f s] by (cases b) (auto simp: pure_fun_def)
qed

lemma no_side_effect_instr: "any_side_effect s ps = Inr False \<Longrightarrow> p \<in> set ps \<Longrightarrow> is_side_effect_inst s p = Inr False"
  by (induction ps) (auto simp: bnd_eq_Inr_iff split: if_splits)

lemma no_side_effect_block:
  "block_side_effect s bs = Inr False \<Longrightarrow> b \<in> set bs \<Longrightarrow> p \<in> set (ilist s b) \<Longrightarrow> is_side_effect_inst s p = Inr False"
  by (induction bs) (auto simp: bnd_eq_Inr_iff ilist_def no_side_effect_instr split: if_splits)

lemma pure_parts:
  assumes "complete_module s" and "pure_fun s f"
  obtains fn r as where "funs s f = Some fn" "basic_blocks fn \<noteq> []" "f_type fn = FunTy r as"
    "\<forall>t \<in> set as. is_integer_type t \<or> is_float_type t" "block_side_effect s (basic_blocks fn) = Inr False"
proof -
  obtain fn where fn: "funs s f = Some fn" using pure_mark [OF assms] by (auto simp: trivial_mark_def bnd_eq_Inr_iff)
  with pure_mark [OF assms] obtain as where as: "basic_blocks fn \<noteq> []" "fun_params (f_type fn) = Inr as"
    "list_all (\<lambda>t. is_integer_type t \<or> is_float_type t) as" "block_side_effect s (basic_blocks fn) = Inr False"
    by (auto simp: trivial_mark_def bnd_eq_Inr_iff list_ex_iff list_all_iff split: if_splits)
  then obtain r where "f_type fn = FunTy r as" by (cases "f_type fn") auto
  then show thesis using that fn as by (simp add: list_all_iff)
qed

lemma pure_store:
  assumes "complete_module s" and "pure_fun s f" and "b \<in> set (fblocks s f)" and "p \<in> set (ilist s b)"
    and "instrs s p = Some ins" and "i_op ins = Store"
  obtains v a ws where "operands s (VInstr p) = v # a # ws" "local_addr s a"
proof -
  obtain fn where fn: "funs s f = Some fn" "block_side_effect s (basic_blocks fn) = Inr False"
    using pure_parts [OF assms(1,2)] by metis
  then have "is_side_effect_inst s p = Inr False"
    using no_side_effect_block assms(3,4) by (auto simp: fblocks_def)
  then have "is_local_store s p = Inr True" using assms(5,6) by (auto simp: is_side_effect_inst_def bnd_eq_Inr_iff)
  then obtain a where a: "get_operand s (VInstr p) 1 = Inr a" "is_local_addr s a = Inr True"
    by (auto simp: is_local_store_def bnd_eq_Inr_iff)
  then have "operands s (VInstr p) ! 1 = a" "1 < length (operands s (VInstr p))"
    by (auto simp: get_operand_def bnd_eq_Inr_iff split: if_splits)
  then obtain v ws where "operands s (VInstr p) = v # a # ws"
    by (cases "operands s (VInstr p)"; cases "tl (operands s (VInstr p))") auto
  then show thesis using that is_local_addrD [OF a(2)] by blast
qed

text \<open>A pure function calls pure functions, and the result of such a call is no address.\<close>

lemma pure_call:
  assumes "complete_module s" and "pure_fun s f" and "b \<in> set (fblocks s f)" and "p \<in> set (ilist s b)"
    and "instrs s p = Some ins" and "i_op ins = Call" and "operands s (VInstr p) = VFun g # vs"
  shows "pure_fun s g"
proof -
  note ok = complete_moduleD [OF assms(1)]
  have "(VInstr p, 0) \<in> set (use_list s (VFun g))" using ok(9) assms(7) by (simp add: use_def_ok_def uses_of_def)
  moreover have "get_function s p = Inr f" using code_owner(1) [OF ok(8)] assms(3,4) by (auto simp: code_of_def)
  ultimately have "f \<in> owners s (use_list s (VFun g))" by (auto simp: owners_def)
  then have "\<not> impure s g" using assms(2) impure.caller by (auto simp: pure_fun_def)
  moreover have "g \<in> set (function_list s)" using ok(5) assms(5-7) by (fastforce simp: calls_known_def)
  ultimately show ?thesis by (simp add: pure_fun_def)
qed

lemma no_pointer_operand: "types_of s vs ts \<Longrightarrow> \<forall>t \<in> set ts. \<not> is_pointer_type t \<Longrightarrow> first_pointer s vs = Inr None"
  by (induction vs arbitrary: ts) auto

lemma pure_result:
  assumes "complete_module s" and "pure_fun s g" and "instrs s p = Some ins" and "i_op ins = Call"
    and "operands s (VInstr p) = VFun g # vs"
  shows "\<not> local_addr s (VInstr p)"
proof
  assume "local_addr s (VInstr p)"
  then obtain w where w: "first_pointer s (operands s (VInstr p)) = Inr (Some w)"
    by cases (use assms(3,4) in auto)
  obtain fn r as where fn: "funs s g = Some fn" "f_type fn = FunTy r as" "\<forall>t \<in> set as. is_integer_type t \<or> is_float_type t"
    using pure_parts [OF assms(1,2)] by metis
  obtain ts u where ts: "types_of s (operands s (VInstr p)) ts" "instr_typed u Call (i_data ins) ts (i_type ins)"
    using typedD [OF complete_moduleD(2) [OF assms(1)] assms(3)] assms(4) by auto
  then have "ts = FunTy r as # as" using assms(5) fn(1,2) by auto
  moreover have "\<not> is_pointer_type t" if "t \<in> set as" for t using fn(3) that by (cases t) auto
  ultimately have "first_pointer s (operands s (VInstr p)) = Inr None" using no_pointer_operand [OF ts(1)] by auto
  with w show False by simp
qed

section \<open>What an execution leaves alone\<close>

text \<open>No input or output, and the objects below \<open>n\<close> as they were.\<close>

definition silent :: "nat \<Rightarrow> mem \<Rightarrow> mem \<Rightarrow> bool" where
  "silent n m m' \<longleftrightarrow> stdin m' = stdin m \<and> stdout m' = stdout m \<and> next_object m \<le> next_object m' \<and>
     (\<forall>ob < n. objects m' ob = objects m ob)"

lemma silent_refl [simp]: "silent n m m"
  by (simp add: silent_def)

lemma silent_trans: "silent n m m1 \<Longrightarrow> silent n m1 m2 \<Longrightarrow> silent n m m2"
  by (auto simp: silent_def)

lemma silent_less: "silent n m m' \<Longrightarrow> k \<le> n \<Longrightarrow> silent k m m'"
  by (auto simp: silent_def)

lemma silent_alloc: "n \<le> next_object m \<Longrightarrow> silent n m (snd (alloc t x m))"
  by (auto simp: silent_def alloc_def)

lemma silent_store: "store ob i v m = Some m' \<Longrightarrow> n \<le> ob \<Longrightarrow> silent n m m'"
  by (auto simp: silent_def store_def split: if_splits)

text \<open>The instructions with a result of their own, by operation.\<close>

lemma exec_instr_simps:
  "exec_instr Load d t vs m = (case vs of [PtrV ob i] \<Rightarrow> map_option (\<lambda>v. (v, m)) (load t ob i m) | _ \<Rightarrow> None)"
  "exec_instr Store d t vs m = (case vs of [v, PtrV ob i] \<Rightarrow> map_option (\<lambda>m. (VoidV, m)) (store ob i v m) | _ \<Rightarrow> None)"
  "exec_instr Getelementptr d t vs m = map_option (\<lambda>p. (p, m)) (gep_instr vs)"
  by (simp_all add: exec_instr_def)

lemma exec_load:
  assumes "exec_instr Load d t vs m = Some (v, m')"
  obtains ob i where "vs = [PtrV ob i]" "load t ob i m = Some v" "m' = m"
proof -
  have e: "(case vs of [PtrV ob i] \<Rightarrow> map_option (\<lambda>v. (v, m)) (load t ob i m) | _ \<Rightarrow> None) = Some (v, m')"
    using assms by (simp only: exec_instr_simps(1))
  then obtain ob i where vs: "vs = [PtrV ob i]" by (cases vs rule: list.exhaust; cases "tl vs"; cases "hd vs") simp_all
  have "map_option (\<lambda>v. (v, m)) (load t ob i m) = Some (v, m')" using e unfolding vs by (simp only: list.case rv.case)
  then obtain w where w: "load t ob i m = Some w" "(w, m) = (v, m')" unfolding map_option_eq_Some by blast
  then have "load t ob i m = Some v" "m' = m" by blast+
  then show thesis by (rule that [OF vs])
qed

lemma exec_store:
  assumes "exec_instr Store d t vs m = Some (v, m')"
  obtains x ob i where "vs = [x, PtrV ob i]" "store ob i x m = Some m'" "v = VoidV"
  using assms by (auto simp: exec_instr_simps split: list.splits rv.splits)

lemma exec_alloca:
  assumes "exec_instr Alloca d t vs m = Some (v, m')"
  obtains u where "d = AllocaData u" "v = PtrV (next_object m) 0" "m' = snd (alloc u None m)"
  using assms by (auto simp: exec_instr_def alloc_def split: idata.splits)

lemma exec_other:
  assumes "exec_instr opc d t vs m = Some (v, m')" and "opc \<noteq> Alloca" and "opc \<noteq> Store"
  shows "m' = m"
  using assms by (cases opc) (auto simp: exec_instr_def split: list.splits rv.splits option.splits)

lemma exec_instr_silent:
  assumes "exec_instr opc d t vs m = Some (v, m')" and "n \<le> next_object m"
    and "opc = Store \<Longrightarrow> \<forall>x ob i. vs = [x, PtrV ob i] \<longrightarrow> n \<le> ob"
  shows "silent n m m'"
proof -
  consider "opc = Alloca" | "opc = Store" | "opc \<noteq> Alloca" "opc \<noteq> Store" by blast
  then show ?thesis
  proof cases
    case 1
    then show ?thesis using assms(1) silent_alloc [OF assms(2)] by (auto elim: exec_alloca)
  next
    case 2
    with assms(1) obtain x ob i where "vs = [x, PtrV ob i]" "store ob i x m = Some m'" by (auto elim: exec_store)
    then show ?thesis using assms(3) 2 silent_store by blast
  next
    case 3
    then show ?thesis using exec_other [OF assms(1)] by simp
  qed
qed

text \<open>Where an address comes from.\<close>

lemma gep_instr_address: "gep_instr vs = Some v \<Longrightarrow> \<exists>ob i j ws. v = PtrV ob i \<and> vs = PtrV ob j # ws"
  by (auto simp: gep_instr_def split: list.splits rv.splits if_splits)

lemma binary_instr_number: "binary_instr opc x y = Some v \<Longrightarrow> v \<noteq> PtrV ob i"
  by (auto simp: binary_instr_def split: rv.splits)

lemma exec_instr_address:
  assumes "exec_instr opc d t vs m = Some (PtrV ob i, m')"
  shows "opc = Alloca \<and> ob = next_object m \<or> opc = Load \<or> opc = Getelementptr \<and> (\<exists>j ws. vs = PtrV ob j # ws)"
proof -
  consider "opc = Alloca" | "opc = Load" | "opc = Getelementptr" | "opc \<in> {Store, Cmp, Fcmp, Zext, Sitofp, Fptosi}"
    | "opc \<in> {Ret, Br, Add, Sub, Mul, Sdiv, Fadd, Fsub, Fmul, Fdiv, Phi, Call}"
    by (cases opc) auto
  then show ?thesis
  proof cases
    case 1
    then show ?thesis using assms by (auto simp: exec_instr_def alloc_def split: idata.splits)
  next
    case 3
    then show ?thesis using assms gep_instr_address by (fastforce simp: exec_instr_simps)
  next
    case 4
    then show ?thesis using assms
      by (elim insertE) (auto simp: exec_instr_def split: list.splits rv.splits option.splits)
  next
    case 5
    then have "exec_instr opc d t vs m = (case vs of [x, y] \<Rightarrow> map_option (\<lambda>v. (v, m)) (binary_instr opc x y) | _ \<Rightarrow> None)"
      by (elim insertE emptyE) (hypsubst, simp add: exec_instr_def)+
    from assms [unfolded this] obtain x y where "binary_instr opc x y = Some (PtrV ob i)"
      by (auto split: list.splits)
    then show ?thesis using binary_instr_number by blast
  qed simp
qed

section \<open>Executions of pure functions\<close>

text \<open>The local addresses in the registers are those of objects that the execution has made.\<close>

definition own_objects :: "'z ir_scheme \<Rightarrow> nat \<Rightarrow> regs \<Rightarrow> bool" where
  "own_objects s n \<rho> \<longleftrightarrow> (\<forall>v ob i. local_addr s v \<longrightarrow> value_of \<rho> v = Some (PtrV ob i) \<longrightarrow> n \<le> ob)"

lemma local_addr_instr: "local_addr s v \<Longrightarrow> \<exists>p. v = VInstr p"
  by (auto elim: local_addr.cases)

lemma own_objects_upd:
  assumes "own_objects s n \<rho>" and "\<And>ob i. local_addr s (VInstr p) \<Longrightarrow> v = PtrV ob i \<Longrightarrow> n \<le> ob"
  shows "own_objects s n (\<rho>(VInstr p \<mapsto> v))"
  unfolding own_objects_def
proof (intro allI impI)
  fix w ob i assume w: "local_addr s w" "value_of (\<rho>(VInstr p \<mapsto> v)) w = Some (PtrV ob i)"
  then obtain q where q: "w = VInstr q" using local_addr_instr by blast
  show "n \<le> ob"
  proof (cases "q = p")
    case True
    then show ?thesis using w q assms(2) by simp
  next
    case False
    then have "value_of \<rho> w = Some (PtrV ob i)" using w(2) q by simp
    then show ?thesis using assms(1) w(1) unfolding own_objects_def by blast
  qed
qed

lemma values_of_ConsD: "values_of \<rho> (w # ws) = Some xs \<Longrightarrow> \<exists>y ys. xs = y # ys \<and> value_of \<rho> w = Some y \<and> values_of \<rho> ws = Some ys"
  by (auto split: option.splits)

lemma pure_local_step:
  assumes ok: "complete_module s" "pure_fun s f" "b \<in> set (fblocks s f)" and own: "own_objects s n \<rho>" "n \<le> next_object m"
    and step: "local_step s b i \<rho> m = Some c"
  obtains b' i' \<rho>' m' where "c = At b' i' \<rho>' m'" "b' \<in> set (fblocks s f)" "own_objects s n \<rho>'" "silent n m m'"
proof -
  obtain p ins where at: "instr_at s b i = Some (p, ins)"
    using step by (auto simp: local_step_def split: option.splits)
  note p = instr_atD [OF at]
  show thesis
  proof (cases "i_op ins = Br")
    case True
    then obtain t where t: "branch (operands s (VInstr p)) \<rho> = Some t" "c = At t 0 \<rho> m"
      using step at by (auto simp: local_step_def)
    then show thesis using that own(1) branch_inside [OF ok(1,3) at True t(1)] by simp
  next
    case False
    then obtain vs v m' where e: "values_of \<rho> (operands s (VInstr p)) = Some vs"
      "exec_instr (i_op ins) (i_data ins) (i_type ins) vs m = Some (v, m')" "c = At b (Suc i) (\<rho>(VInstr p \<mapsto> v)) m'"
      "i_op ins \<noteq> Ret" "i_op ins \<noteq> Call"
      using step at by (auto simp: local_step_def split: option.splits if_splits)
    have "n \<le> ob" if st: "i_op ins = Store" "vs = [x, PtrV ob j]" for x ob j
    proof -
      obtain w a ws where a: "operands s (VInstr p) = w # a # ws" "local_addr s a"
        using pure_store [OF ok p(3,4) st(1)] by blast
      then have "value_of \<rho> a = Some (PtrV ob j)" using e(1) st(2) by (auto split: option.splits)
      then show ?thesis using own(1) a(2) unfolding own_objects_def by blast
    qed
    then have q: "silent n m m'" by (intro exec_instr_silent [OF e(2) own(2)]) blast
    have "n \<le> ob" if loc: "local_addr s (VInstr p)" and v: "v = PtrV ob j" for ob j
      using exec_instr_address [OF e(2) [unfolded v]]
    proof (elim disjE conjE exE)
      assume "i_op ins = Load"
      with loc p(4) show ?thesis by (auto elim: local_addr.cases)
    next
      fix k ws assume g: "i_op ins = Getelementptr" "vs = PtrV ob k # ws"
      obtain w us where w: "operands s (VInstr p) = w # us" "local_addr s w"
        using loc p(4) g(1) by cases auto
      then have "value_of \<rho> w = Some (PtrV ob k)" using e(1) g(2) by (auto split: option.splits)
      then show ?thesis using own(1) w(2) unfolding own_objects_def by blast
    qed (use own(2) in simp)
    then have "own_objects s n (\<rho>(VInstr p \<mapsto> v))" using own_objects_upd [OF own(1)] by blast
    then show thesis using that [OF e(3) ok(3)] q by blast
  qed
qed

lemma call_atD:
  assumes "call_at s b i \<rho> = Some (p, g, xs)"
  obtains ins vs where "p \<in> set (ilist s b)" "instrs s p = Some ins" "i_op ins = Call" "operands s (VInstr p) = VFun g # vs"
    "values_of \<rho> vs = Some xs" "instr_at s b i = Some (p, ins)"
proof -
  obtain ins where at: "instr_at s b i = Some (p, ins)" "i_op ins = Call"
    "(case operands s (VInstr p) of VFun f # vs \<Rightarrow> map_option (\<lambda>xs. (p, f, xs)) (values_of \<rho> vs) | _ \<Rightarrow> None) = Some (p, g, xs)"
    using assms by (auto simp: call_at_def split: option.splits if_splits list.splits val.splits)
  then obtain vs where "operands s (VInstr p) = VFun g # vs" "values_of \<rho> vs = Some xs"
    by (auto split: list.splits val.splits)
  then show thesis using that instr_atD [OF at(1)] at by blast
qed

text \<open>Calls and executions, by mutual induction.\<close>

lemma pure_execution:
  assumes ok: "complete_module s"
  shows "calls s f vs m r \<Longrightarrow> pure_fun s f \<longrightarrow> (\<exists>v m'. r = Inr (v, m') \<and> silent (next_object m) m m')"
    and "reach s c c' \<Longrightarrow> (\<forall>f n b i \<rho> m. c = At b i \<rho> m \<longrightarrow> pure_fun s f \<longrightarrow> b \<in> set (fblocks s f) \<longrightarrow> own_objects s n \<rho> \<longrightarrow>
      n \<le> next_object m \<longrightarrow> (\<exists>b' i' \<rho>' m'. c' = At b' i' \<rho>' m' \<and> silent n m m'))"
proof (induction rule: calls_reach.inducts)
  case (library f fn vs m r)
  then show ?case using pure_parts [OF ok] by fastforce
next
  case (body f fn b bs vs m c i \<rho> m' v)
  have "b \<in> set (fblocks s f)" using body by (simp add: fblocks_def)
  moreover have "own_objects s (next_object m) (start_regs s f vs)"
    by (auto simp: own_objects_def start_regs_def dest: local_addr_instr)
  ultimately show ?case using body.IH by (fastforce simp: silent_def)
next
  case (body_exit f fn b bs vs m m')
  have "b \<in> set (fblocks s f)" using body_exit by (simp add: fblocks_def)
  moreover have "own_objects s (next_object m) (start_regs s f vs)"
    by (auto simp: own_objects_def start_regs_def dest: local_addr_instr)
  ultimately show ?case using body_exit.IH by blast
next
  case (step b i \<rho> m c c')
  show ?case
  proof (intro allI impI)
    fix f n b2 i2 \<rho>2 m2
    assume e: "At b i \<rho> m = At b2 i2 \<rho>2 m2" and h: "pure_fun s f" "b2 \<in> set (fblocks s f)" "own_objects s n \<rho>2" "n \<le> next_object m2"
    obtain b' i' \<rho>' m' where c: "c = At b' i' \<rho>' m'" "b' \<in> set (fblocks s f)" "own_objects s n \<rho>'" "silent n m m'"
      using pure_local_step [OF ok h(1) _ _ _ step(1)] h e by blast
    then have "n \<le> next_object m'" using h(4) e by (simp add: silent_def)
    then show "\<exists>b' i' \<rho>' m'. c' = At b' i' \<rho>' m' \<and> silent n m2 m'"
      using step.IH c h(1) e silent_trans by blast
  qed
next
  case (call b i \<rho> p g vs m v m1 c')
  then have at: "call_at s b i \<rho> = Some (p, g, vs)" and rest: "reach s (At b (Suc i) (\<rho>(VInstr p \<mapsto> v)) m1) c'" by blast+
  show ?case
  proof (intro allI impI)
    fix f n b2 i2 \<rho>2 m2
    assume e: "At b i \<rho> m = At b2 i2 \<rho>2 m2" and h: "pure_fun s f" "b2 \<in> set (fblocks s f)" "own_objects s n \<rho>2" "n \<le> next_object m2"
    obtain ins us where p: "p \<in> set (ilist s b)" "instrs s p = Some ins" "i_op ins = Call" "operands s (VInstr p) = VFun g # us"
      using call_atD [OF at] by blast
    have g: "pure_fun s g" by (rule pure_call [OF ok h(1) _ p]) (use h(2) e in simp)
    then have q: "silent (next_object m) m m1" using call.IH by auto
    have "own_objects s n (\<rho>(VInstr p \<mapsto> v))"
      using own_objects_upd [of s n \<rho> p v] h(3) e pure_result [OF ok g p(2-4)] by blast
    moreover have "n \<le> next_object m1" "silent n m m1" using q h(4) e silent_less [OF q, of n] by (auto simp: silent_def)
    ultimately show "\<exists>b' i' \<rho>' m'. c' = At b' i' \<rho>' m' \<and> silent n m2 m'"
      using call.IH h(1,2) e silent_trans by blast
  qed
next
  case (call_exit b i \<rho> p g vs m m1)
  then have at: "call_at s b i \<rho> = Some (p, g, vs)" by blast
  obtain ins us where p: "p \<in> set (ilist s b)" "instrs s p = Some ins" "i_op ins = Call" "operands s (VInstr p) = VFun g # us"
    using call_atD [OF at] by blast
  have "\<not> pure_fun s g" using call_exit.IH by blast
  then show ?case using pure_call [OF ok _ _ p] by blast
qed (use silent_refl in blast)

lemma pure_call_silent:
  assumes "complete_module s" and "pure_fun s f" and "calls s f vs m r"
  obtains v m' where "r = Inr (v, m')" "silent (next_object m) m m'"
  using pure_execution(1) [OF assms(1,3)] assms(2) by blast

section \<open>The analysis\<close>

lemma FuncInfo_pure:
  assumes "analysable s" and "FuncInfo_run s = Inr pure"
  shows "pure f = Some True \<Longrightarrow> pure_fun s f"
proof -
  assume f: "pure f = Some True"
  have inv: "purity_inv s (pure, [])" using FuncInfo_run_inv [OF assms(1)] assms(2) by auto
  then have "f \<in> set (function_list s)" using f by (auto simp: purity_inv_def)
  moreover have "\<not> impure s f" using purity_done [OF _ inv, of f] f by auto
  ultimately show "pure_fun s f" by (simp add: pure_fun_def)
qed

text \<open>C5: a call of a function that the analysis marks pure, if it ends, returns normally, reads no input,
  prints nothing, and leaves every object that was there before as it was.\<close>

theorem pure_functions_silent:
  assumes "complete_module s" and "FuncInfo_run s = Inr pure" and "pure f = Some True" and "calls s f vs m r"
  shows "\<exists>v m'. r = Inr (v, m') \<and> stdin m' = stdin m \<and> stdout m' = stdout m \<and>
    (\<forall>ob < next_object m. objects m' ob = objects m ob)"
proof -
  have "pure_fun s f" using FuncInfo_pure complete_moduleD(6) assms(1-3) by blast
  then obtain v m' where "r = Inr (v, m')" "silent (next_object m) m m'"
    using pure_call_silent [OF assms(1) _ assms(4)] by blast
  then show ?thesis by (auto simp: silent_def)
qed

text \<open>The module of \<open>int twice(int x) { int y; y = x; return y + x; }\<close>: the slot 2, its store 3, its load 4, the sum 5
  and the return 6.\<close>

definition sample_local :: ir where
  "sample_local = \<lparr>
     operands = (\<lambda>_. [])(VInstr 3 := [VArg 0 0, VInstr 2], VInstr 4 := [VInstr 2], VInstr 5 := [VInstr 4, VArg 0 0], VInstr 6 := [VInstr 5]),
     num_ops = (\<lambda>_. 0)(VInstr 3 := 2, VInstr 4 := 1, VInstr 5 := 2, VInstr 6 := 1),
     use_list = (\<lambda>_. [])(VArg 0 0 := [(VInstr 3, 0), (VInstr 5, 1)], VInstr 2 := [(VInstr 3, 1), (VInstr 4, 0)],
       VInstr 4 := [(VInstr 5, 0)], VInstr 5 := [(VInstr 6, 0)]),
     fp_count = 0, cached_float = [], next_id = 7,
     instrs = [2 \<mapsto> \<lparr>i_type = PtrTy INT32_T, i_op = Alloca, i_parent = 1, i_data = AllocaData INT32_T, i_name = ''''\<rparr>,
       3 \<mapsto> \<lparr>i_type = VoidTy, i_op = Store, i_parent = 1, i_data = NoData, i_name = ''''\<rparr>,
       4 \<mapsto> \<lparr>i_type = INT32_T, i_op = Load, i_parent = 1, i_data = NoData, i_name = ''''\<rparr>,
       5 \<mapsto> \<lparr>i_type = INT32_T, i_op = Add, i_parent = 1, i_data = NoData, i_name = ''''\<rparr>,
       6 \<mapsto> \<lparr>i_type = VoidTy, i_op = Ret, i_parent = 1, i_data = NoData, i_name = ''''\<rparr>],
     blocks = [1 \<mapsto> \<lparr>bb_name = '''', bb_parent = 0, pre_bbs = [], succ_bbs = [], instr_list = [2, 3, 4, 5, 6]\<rparr>],
     funs = [0 \<mapsto> \<lparr>f_name = ''twice'', f_type = FunTy INT32_T [INT32_T], basic_blocks = [1], arg_names = [''''], seq_cnt = 0\<rparr>],
     gvars = Map.empty, global_list = [], function_list = [0]\<rparr>"

lemma sample_local_views:
  "ilist sample_local b = (if b = 1 then [2, 3, 4, 5, 6] else [])" "fblocks sample_local f = (if f = 0 then [1] else [])"
  "owner sample_local b = (if b = 1 then Some 0 else None)" "preds sample_local b = []" "succs sample_local b = []"
  "f_types sample_local f = (if f = 0 then Some (FunTy INT32_T [INT32_T]) else None)"
  "instrs sample_local p = (if p = 2 then Some \<lparr>i_type = PtrTy INT32_T, i_op = Alloca, i_parent = 1, i_data = AllocaData INT32_T, i_name = ''''\<rparr>
     else if p = 3 then Some \<lparr>i_type = VoidTy, i_op = Store, i_parent = 1, i_data = NoData, i_name = ''''\<rparr>
     else if p = 4 then Some \<lparr>i_type = INT32_T, i_op = Load, i_parent = 1, i_data = NoData, i_name = ''''\<rparr>
     else if p = 5 then Some \<lparr>i_type = INT32_T, i_op = Add, i_parent = 1, i_data = NoData, i_name = ''''\<rparr>
     else if p = 6 then Some \<lparr>i_type = VoidTy, i_op = Ret, i_parent = 1, i_data = NoData, i_name = ''''\<rparr> else None)"
  "operands sample_local u = (if u = VInstr 3 then [VArg 0 0, VInstr 2] else if u = VInstr 4 then [VInstr 2]
     else if u = VInstr 5 then [VInstr 4, VArg 0 0] else if u = VInstr 6 then [VInstr 5] else [])"
  "function_list sample_local = [0]" "global_list sample_local = []" "next_id sample_local = 7" "use_list sample_local (VFun f) = []"
  by (auto simp: sample_local_def ilist_def fblocks_def owner_def preds_def succs_def f_types_def)

lemma sample_local_mark: "trivial_mark sample_local 0 = Inr True"
  by code_simp

lemma sample_local_complete: "complete_module sample_local"
proof -
  have "use_def_ok sample_local"
  proof (rule use_def_okI)
    show "num_ops sample_local u = length (operands sample_local u)" for u by (simp add: sample_local_def)
    show "operands sample_local u \<noteq> [] \<Longrightarrow> is_user u" for u by (simp add: sample_local_def split: if_splits)
    show "v \<noteq> VNull \<Longrightarrow> distinct (use_list sample_local v)" for v by (simp add: sample_local_def)
    show "v \<noteq> VNull \<Longrightarrow> (u, i) \<in> set (use_list sample_local v) \<longleftrightarrow> i < length (operands sample_local u) \<and> operands sample_local u ! i = v" for v u i
      by (auto simp: sample_local_def nth_Cons' less_Suc_eq numeral_2_eq_2 split: if_splits)
  qed
  moreover have "fresh_ok sample_local" by (auto simp: fresh_ok_def sample_local_def)
  then have "heap_ok sample_local" by (auto simp: heap_ok_def sample_local_views)
  moreover have "body_ok sample_local" by (auto simp: body_ok_def sample_local_views is_term_def op_of_def)
  moreover have "cfg_ok sample_local" by (auto simp: cfg_ok_def br_targets_def sample_local_views op_of_def)
  ultimately have "ir_ok sample_local" by (simp add: ir_ok_def)
  moreover have "refs_ok sample_local" by (auto simp: refs_ok_def sample_local_views code_of_def)
  moreover have "calls_known sample_local" by (auto simp: calls_known_def sample_local_views split: if_splits)
  moreover have "analysable sample_local"
    by (auto simp: analysable_def uses_resolved_def sample_local_views sample_local_mark)
  moreover have "edges_inside sample_local" "globals_ok sample_local" by (simp_all add: edges_inside_def globals_ok_def sample_local_views)
  moreover have "get_type sample_local (VArg 0 0) = Inr INT32_T" "get_type sample_local (VInstr 2) = Inr (PtrTy INT32_T)"
    "get_type sample_local (VInstr 4) = Inr INT32_T" "get_type sample_local (VInstr 5) = Inr INT32_T"
    by (simp_all add: sample_local_def get_type_view sample_local_views)
  then have "typed sample_local"
    by (auto simp: typed_def sample_local_views result_of_def split: if_splits)
  ultimately show ?thesis by (simp add: complete_module_def)
qed

lemma sample_local_call: "\<exists>v m'. calls sample_local 0 [IntV 5] (empty_mem []) (Inr (v, m'))"
proof -
  obtain r where f: "funs sample_local 0 = Some r" "basic_blocks r = [1]" by (simp add: sample_local_def)
  let ?\<rho> = "start_regs sample_local 0 [IntV 5]" and ?m = "empty_mem []"
  let ?m1 = "snd (alloc INT32_T None ?m)"
  obtain m2 where m2: "store 0 0 (IntV 5) ?m1 = Some m2" "load INT32_T 0 0 m2 = Some (IntV 5)"
    by (simp add: store_def load_def alloc_def empty_mem_def)
  let ?\<rho>1 = "?\<rho>(VInstr 2 \<mapsto> PtrV 0 0)"
  let ?\<rho>2 = "?\<rho>1(VInstr 3 \<mapsto> VoidV)"
  let ?\<rho>3 = "?\<rho>2(VInstr 4 \<mapsto> IntV 5)"
  let ?\<rho>4 = "?\<rho>3(VInstr 5 \<mapsto> IntV 10)"
  have arg: "?\<rho> (VArg 0 0) = Some (IntV 5)" by (simp add: start_regs_def)
  have s1: "local_step sample_local 1 0 ?\<rho> ?m = Some (At 1 1 ?\<rho>1 ?m1)"
    by (simp add: local_step_def instr_at_def sample_local_views exec_instr_def alloc_def empty_mem_def del: One_nat_def)
  have s2: "local_step sample_local 1 1 ?\<rho>1 ?m1 = Some (At 1 2 ?\<rho>2 m2)"
    using m2(1) arg by (simp add: local_step_def instr_at_def sample_local_views exec_instr_def del: One_nat_def)
  have s3: "local_step sample_local 1 2 ?\<rho>2 m2 = Some (At 1 3 ?\<rho>3 m2)"
    using m2(2) by (simp add: local_step_def instr_at_def sample_local_views exec_instr_def del: One_nat_def)
  have s4: "local_step sample_local 1 3 ?\<rho>3 m2 = Some (At 1 4 ?\<rho>4 m2)"
    using arg by (simp add: local_step_def instr_at_def sample_local_views exec_instr_def binary_instr_def del: One_nat_def)
  have "reach sample_local (At 1 0 ?\<rho> ?m) (At 1 4 ?\<rho>4 m2)"
    by (rule calls_reach.step [OF s1 calls_reach.step [OF s2 calls_reach.step [OF s3 calls_reach.step [OF s4 calls_reach.refl]]]])
  moreover have "returned sample_local 1 4 ?\<rho>4 = Some (IntV 10)"
    by (simp add: returned_def instr_at_def sample_local_views del: One_nat_def)
  ultimately show ?thesis using calls_reach.body [OF f(1) f(2)] by blast
qed

theorem pure_functions_silent_witness:
  "\<exists>pure v m'. FuncInfo_run sample_local = Inr pure \<and> pure 0 = Some True \<and>
     calls sample_local 0 [IntV 5] (empty_mem []) (Inr (v, m')) \<and> stdin m' = [] \<and> stdout m' = []"
proof -
  have "(case FuncInfo_run sample_local of Inr pure \<Rightarrow> pure 0 = Some True | Inl e \<Rightarrow> False)" by code_simp
  then obtain pure where p: "FuncInfo_run sample_local = Inr pure" "pure 0 = Some True" by (auto split: sum.splits)
  obtain v m' where c: "calls sample_local 0 [IntV 5] (empty_mem []) (Inr (v, m'))" using sample_local_call by blast
  from pure_functions_silent [OF sample_local_complete p c] p c show ?thesis by (auto simp: empty_mem_def)
qed

end
