(* ===== verification/Dead_Code_Sound.thy ===== *)
theory Dead_Code_Sound
  imports Purity_Sound
begin

text \<open>
  Dead code elimination keeps the behaviour of a module: an execution of the module is followed by
  one of the module without the erased instructions. The two agree on the registers that are left; since
  erased instructions may allocate objects, alone or inside of pure functions, objects have
  other numbers afterwards, which a partial injection relates.
\<close>

section \<open>Values and memories up to the numbers of objects\<close>

type_synonym renaming = "nat \<rightharpoonup> nat"

fun same_value :: "renaming \<Rightarrow> rv \<Rightarrow> rv \<Rightarrow> bool" where
  "same_value \<alpha> (PtrV ob i) w = (\<exists>ob'. \<alpha> ob = Some ob' \<and> w = PtrV ob' i)"
| "same_value \<alpha> v w = (w = v)"

definition same_mem :: "renaming \<Rightarrow> mem \<Rightarrow> mem \<Rightarrow> bool" where
  "same_mem \<alpha> m n \<longleftrightarrow> stdin n = stdin m \<and> stdout n = stdout m \<and> inj_on \<alpha> (dom \<alpha>) \<and>
     (\<forall>ob ob'. \<alpha> ob = Some ob' \<longrightarrow> ob < next_object m \<and> ob' < next_object n \<and>
        list_all2 (rel_option (same_value \<alpha>)) (objects m ob) (objects n ob'))"

lemma same_value_number: "(\<And>ob i. v \<noteq> PtrV ob i) \<Longrightarrow> same_value \<alpha> v w \<longleftrightarrow> w = v"
  by (cases v) auto

lemma same_value_simps [simp]:
  "same_value \<alpha> v (IntV i) \<longleftrightarrow> v = IntV i" "same_value \<alpha> v (FloatV x) \<longleftrightarrow> v = FloatV x"
  "same_value \<alpha> v (BoolV b) \<longleftrightarrow> v = BoolV b" "same_value \<alpha> v VoidV \<longleftrightarrow> v = VoidV"
  by (cases v; auto)+

lemma same_value_more: "same_value \<alpha> v w \<Longrightarrow> \<alpha> \<subseteq>\<^sub>m \<beta> \<Longrightarrow> same_value \<beta> v w"
  by (cases v) (auto dest: map_leD)

lemma same_values_more: "list_all2 (same_value \<alpha>) vs ws \<Longrightarrow> \<alpha> \<subseteq>\<^sub>m \<beta> \<Longrightarrow> list_all2 (same_value \<beta>) vs ws"
  by (erule list_all2_mono) (rule same_value_more)

lemma same_option_more: "rel_option (same_value \<alpha>) x y \<Longrightarrow> \<alpha> \<subseteq>\<^sub>m \<beta> \<Longrightarrow> rel_option (same_value \<beta>) x y"
  by (cases x; cases y) (auto intro: same_value_more)

lemma same_value_type: "same_value \<alpha> v w \<Longrightarrow> has_ty w t \<longleftrightarrow> has_ty v t"
  by (cases v) auto

lemma same_memD:
  assumes "same_mem \<alpha> m n"
  shows "stdin n = stdin m" "stdout n = stdout m" "inj_on \<alpha> (dom \<alpha>)" "\<alpha> ob = Some ob' \<Longrightarrow> ob < next_object m"
    "\<alpha> ob = Some ob' \<Longrightarrow> ob' < next_object n"
    "\<alpha> ob = Some ob' \<Longrightarrow> list_all2 (rel_option (same_value \<alpha>)) (objects m ob) (objects n ob')"
  using assms unfolding same_mem_def by blast+

text \<open>Reading, writing, and new objects.\<close>

lemma same_load:
  assumes "same_mem \<alpha> m n" and "\<alpha> ob = Some ob'" and "load t ob i m = Some v"
  obtains w where "load t ob' i n = Some w" "same_value \<alpha> v w"
proof -
  have i: "0 \<le> i" "nat i < length (objects m ob)" "objects m ob ! nat i = Some v" "has_ty v t"
    using assms(3) by (auto simp: load_def split: if_splits option.splits)
  note l = same_memD(6) [OF assms(1,2)]
  have "rel_option (same_value \<alpha>) (Some v) (objects n ob' ! nat i)" using list_all2_nthD [OF l i(2)] i(3) by simp
  then obtain w where w: "objects n ob' ! nat i = Some w" "same_value \<alpha> v w" by (auto simp: option_rel_Some1)
  then have "load t ob' i n = Some w"
    using i list_all2_lengthD [OF l] same_value_type [OF w(2)] by (simp add: load_def)
  with w(2) show thesis by (rule that [rotated])
qed

lemma same_store:
  assumes "same_mem \<alpha> m n" and "\<alpha> ob = Some ob'" and "store ob i v m = Some m'" and "same_value \<alpha> v w"
  obtains n' where "store ob' i w n = Some n'" "same_mem \<alpha> m' n'"
proof -
  have i: "0 \<le> i" "nat i < length (objects m ob)" "m' = m\<lparr>objects := (objects m)(ob := (objects m ob)[nat i := Some v])\<rparr>"
    using assms(3) by (auto simp: store_def split: if_splits)
  note l = same_memD(6) [OF assms(1)]
  let ?n = "n\<lparr>objects := (objects n)(ob' := (objects n ob')[nat i := Some w])\<rparr>"
  have "store ob' i w n = Some ?n" using i list_all2_lengthD [OF l [OF assms(2)]] by (simp add: store_def)
  moreover have "same_mem \<alpha> m' ?n"
    unfolding same_mem_def
  proof (intro conjI allI impI)
    fix x x' assume x: "\<alpha> x = Some x'"
    have other: "x' = ob' \<longleftrightarrow> x = ob"
      using x assms(2) same_memD(3) [OF assms(1)] by (metis domI inj_onD option.inject)
    show "list_all2 (rel_option (same_value \<alpha>)) (objects m' x) (objects ?n x')"
      using l [OF x] l [OF assms(2)] other assms(4) i(3) by (auto intro!: list_all2_update_cong)
  qed (use same_memD [OF assms(1)] i(3) in auto)
  ultimately show thesis by (rule that)
qed

lemma same_alloc:
  assumes "same_mem \<alpha> m n" and "\<And>ob i. x \<noteq> Some (PtrV ob i)"
  shows "\<alpha> \<subseteq>\<^sub>m \<alpha>(next_object m \<mapsto> next_object n)"
    and "same_mem (\<alpha>(next_object m \<mapsto> next_object n)) (snd (alloc t x m)) (snd (alloc t x n))"
proof -
  let ?\<beta> = "\<alpha>(next_object m \<mapsto> next_object n)"
  note d = same_memD [OF assms(1)]
  have new: "\<alpha> (next_object m) = None" using d(4) [of "next_object m"] by (cases "\<alpha> (next_object m)") auto
  have old: "\<alpha> ob \<noteq> Some (next_object n)" for ob using d(5) [of ob "next_object n"] by auto
  show le: "\<alpha> \<subseteq>\<^sub>m ?\<beta>" using new by (auto simp: map_le_def)
  have x: "rel_option (same_value ?\<beta>) x x"
    using assms(2) by (cases x) (auto simp: same_value_number)
  have "inj_on ?\<beta> (dom ?\<beta>)"
    using d(3) old by (auto simp: inj_on_def dom_def split: if_splits)
  moreover have "ob < next_object (snd (alloc t x m)) \<and> ob' < next_object (snd (alloc t x n)) \<and>
      list_all2 (rel_option (same_value ?\<beta>)) (objects (snd (alloc t x m)) ob) (objects (snd (alloc t x n)) ob')"
    if b: "?\<beta> ob = Some ob'" for ob ob'
  proof (cases "ob = next_object m")
    case True
    then have "ob' = next_object n" using b by simp
    then show ?thesis using True x by (auto simp: alloc_def list_all2_conv_all_nth)
  next
    case False
    then have a: "\<alpha> ob = Some ob'" using b by simp
    have "ob' \<noteq> next_object n" using a old by blast
    moreover have "list_all2 (rel_option (same_value ?\<beta>)) (objects m ob) (objects n ob')"
      using d(6) [OF a] by (rule list_all2_mono) (rule same_option_more [OF _ le])
    ultimately show ?thesis using False d(4,5) [OF a] by (simp add: alloc_def)
  qed
  ultimately show "same_mem ?\<beta> (snd (alloc t x m)) (snd (alloc t x n))"
    using d(1,2) by (simp add: same_mem_def alloc_def)
qed

text \<open>What is silent on the left keeps the relation.\<close>

lemma same_silent:
  assumes "same_mem \<alpha> m n" and "silent (next_object m) m m'"
  shows "same_mem \<alpha> m' n"
  using assms unfolding same_mem_def silent_def by (metis order_less_le_trans)

section \<open>One instruction\<close>

lemma same_values_Cons:
  "list_all2 (same_value \<alpha>) (PtrV ob i # vs) ws \<longleftrightarrow> (\<exists>ob' us. ws = PtrV ob' i # us \<and> \<alpha> ob = Some ob' \<and> list_all2 (same_value \<alpha>) vs us)"
  "list_all2 (same_value \<alpha>) (IntV j # vs) ws \<longleftrightarrow> (\<exists>us. ws = IntV j # us \<and> list_all2 (same_value \<alpha>) vs us)"
  by (auto simp: list_all2_Cons1)

lemma same_gep:
  assumes "gep_instr vs = Some v" and "list_all2 (same_value \<alpha>) vs ws"
  shows "\<exists>w. gep_instr ws = Some w \<and> same_value \<alpha> v w"
  using assms by (auto simp: gep_instr_def same_values_Cons split: list.splits rv.splits if_splits)

fun is_address :: "rv \<Rightarrow> bool" where
  "is_address (PtrV ob i) = True"
| "is_address v = False"

lemma same_value_no_address: "\<not> is_address v \<Longrightarrow> same_value \<alpha> v w \<longleftrightarrow> w = v"
  by (cases v) auto

lemma same_numbers: "list_all2 (same_value \<alpha>) vs ws \<Longrightarrow> \<forall>v \<in> set vs. \<not> is_address v \<Longrightarrow> ws = vs"
  by (induction rule: list_all2_induct) (auto simp: same_value_no_address)

lemma binary_instr_numbers: "binary_instr opc x y = Some v \<Longrightarrow> \<not> is_address x \<and> \<not> is_address y \<and> \<not> is_address v"
  by (auto simp: binary_instr_def split: rv.splits)

text \<open>The operations on numbers do not look at the memory.\<close>

lemma exec_numbers:
  assumes "exec_instr opc d t vs m = Some (v, m')" and "opc \<notin> {Alloca, Load, Store, Getelementptr}"
  shows "m' = m \<and> (\<forall>x \<in> set vs. \<not> is_address x) \<and> \<not> is_address v \<and> exec_instr opc d t vs n = Some (v, n)"
proof -
  consider "opc \<in> {Cmp, Fcmp, Zext, Sitofp, Fptosi}" | "opc \<in> {Ret, Br, Add, Sub, Mul, Sdiv, Fadd, Fsub, Fmul, Fdiv, Phi, Call}"
    using assms(2) by (cases opc) auto
  then show ?thesis
  proof cases
    case 1
    then show ?thesis using assms(1)
      by (elim insertE emptyE) (auto simp: exec_instr_def split: list.splits rv.splits option.splits)
  next
    case 2
    then have e: "exec_instr opc d t vs m = (case vs of [x, y] \<Rightarrow> map_option (\<lambda>v. (v, m)) (binary_instr opc x y) | _ \<Rightarrow> None)" for m
      by (elim insertE emptyE) (hypsubst, simp add: exec_instr_def)+
    from assms(1) [unfolded e] obtain x y where "vs = [x, y]" "binary_instr opc x y = Some v" "m' = m"
      by (auto split: list.splits)
    then show ?thesis unfolding e using binary_instr_numbers [of opc x y v] by simp
  qed
qed

lemma same_exec:
  assumes "exec_instr opc d t vs m = Some (v, m')" and "same_mem \<alpha> m n" and "list_all2 (same_value \<alpha>) vs ws"
  obtains w n' \<beta> where "exec_instr opc d t ws n = Some (w, n')" "\<alpha> \<subseteq>\<^sub>m \<beta>" "same_mem \<beta> m' n'" "same_value \<beta> v w"
proof -
  consider "opc = Alloca" | "opc = Load" | "opc = Store" | "opc = Getelementptr" | "opc \<notin> {Alloca, Load, Store, Getelementptr}"
    by blast
  then show thesis
  proof cases
    case 1
    with assms(1) obtain u where u: "d = AllocaData u" "v = PtrV (next_object m) 0" "m' = snd (alloc u None m)"
      by (auto elim: exec_alloca)
    let ?\<beta> = "\<alpha>(next_object m \<mapsto> next_object n)"
    show thesis
    proof (rule that)
      show "exec_instr opc d t ws n = Some (PtrV (next_object n) 0, snd (alloc u None n))"
        using 1 u(1) by (simp add: exec_instr_def alloc_def)
      show "\<alpha> \<subseteq>\<^sub>m ?\<beta>" by (rule same_alloc(1) [OF assms(2), of None]) simp
      show "same_mem ?\<beta> m' (snd (alloc u None n))" unfolding u(3) by (rule same_alloc(2) [OF assms(2)]) simp
      show "same_value ?\<beta> v (PtrV (next_object n) 0)" using u(2) by simp
    qed
  next
    case 2
    with assms(1) obtain ob i where i: "vs = [PtrV ob i]" "load t ob i m = Some v" "m' = m"
      by (auto elim: exec_load)
    then obtain ob' where ob: "ws = [PtrV ob' i]" "\<alpha> ob = Some ob'" using assms(3) by (auto simp: same_values_Cons)
    obtain w where w: "load t ob' i n = Some w" "same_value \<alpha> v w" using same_load [OF assms(2) ob(2) i(2)] .
    show thesis by (rule that [of w n \<alpha>]) (simp_all add: 2 exec_instr_simps ob(1) w i(3) assms(2))
  next
    case 3
    with assms(1) obtain x ob i where i: "vs = [x, PtrV ob i]" "store ob i x m = Some m'" "v = VoidV"
      by (auto elim: exec_store)
    then obtain y ob' where ob: "ws = [y, PtrV ob' i]" "\<alpha> ob = Some ob'" "same_value \<alpha> x y"
      using assms(3) by (auto simp: list_all2_Cons1)
    obtain n' where n: "store ob' i y n = Some n'" "same_mem \<alpha> m' n'" using same_store [OF assms(2) ob(2) i(2) ob(3)] .
    show thesis by (rule that [of VoidV n' \<alpha>]) (simp_all add: 3 exec_instr_simps ob(1) n i(3))
  next
    case 4
    with assms(1) have g: "gep_instr vs = Some v" "m' = m" by (auto simp: exec_instr_simps)
    obtain w where w: "gep_instr ws = Some w" "same_value \<alpha> v w" using same_gep [OF g(1) assms(3)] by blast
    show thesis by (rule that [of w n \<alpha>]) (simp_all add: 4 exec_instr_simps w assms(2) g(2))
  next
    case 5
    have "ws = vs" using same_numbers [OF assms(3)] exec_numbers [OF assms(1) 5] by blast
    then show thesis using exec_numbers [OF assms(1) 5, of n] assms(2) that [of v n \<alpha>] by (cases v) auto
  qed
qed

section \<open>The two modules\<close>

definition erased :: "(nat \<Rightarrow> bool option) \<Rightarrow> 'z ir_scheme \<Rightarrow> nat set \<Rightarrow> 'z ir_scheme \<Rightarrow> bool" where
  "erased pure s D s' \<longleftrightarrow> complete_module s \<and> trimmed pure s D s' \<and> calls_ok pure s \<and> (\<forall>f. pure f = Some True \<longrightarrow> pure_fun s f)"

definition left_of :: "nat set \<Rightarrow> 'z ir_scheme \<Rightarrow> nat \<Rightarrow> nat \<Rightarrow> nat" where
  "left_of D s b i = length (filter (\<lambda>p. p \<notin> D) (take i (ilist s b)))"

lemma left_of_0 [simp]: "left_of D s b 0 = 0"
  by (simp add: left_of_def)

lemma filter_position:
  assumes "i < length xs" and "P (xs ! i)"
  shows "length (filter P (take i xs)) < length (filter P xs) \<and> filter P xs ! length (filter P (take i xs)) = xs ! i"
proof -
  have "xs = take i xs @ xs ! i # drop (Suc i) xs" using assms(1) by (simp add: id_take_nth_drop)
  then have "filter P xs = filter P (take i xs) @ xs ! i # filter P (drop (Suc i) xs)"
    using assms(2) by (metis filter.simps(2) filter_append)
  then show ?thesis by simp
qed

lemma erasedD:
  assumes "erased pure s D s'"
  shows "complete_module s" "ilist s' b = filter (\<lambda>p. p \<notin> D) (ilist s b)" "instrs s' p = (if p \<in> D then None else instrs s p)"
    "p \<notin> D \<Longrightarrow> operands s' (VInstr p) = operands s (VInstr p)" "funs s' = funs s" "function_list s' = function_list s"
    "gvars s' = gvars s" "global_list s' = global_list s" "pure f = Some True \<Longrightarrow> pure_fun s f" "calls_ok pure s"
    "p \<in> D \<Longrightarrow> \<not> critical_instr pure s p" "refs_ok s'"
  using assms unfolding erased_def trimmed_def by (simp_all add: image_iff)

lemma left_of_Suc:
  assumes "instr_at s b i = Some (p, ins)"
  shows "left_of D s b (Suc i) = (if p \<in> D then left_of D s b i else Suc (left_of D s b i))"
  using instr_atD [OF assms] by (simp add: left_of_def take_Suc_conv_app_nth)

lemma kept_at:
  assumes "erased pure s D s'" and "instr_at s b i = Some (p, ins)" and "p \<notin> D"
  shows "instr_at s' b (left_of D s b i) = Some (p, ins)"
  using instr_atD [OF assms(2)] assms(3) filter_position [of i "ilist s b" "\<lambda>p. p \<notin> D"]
  by (simp add: instr_at_def left_of_def erasedD(2,3) [OF assms(1)])

lemma kept_operands:
  assumes "erased pure s D s'" and "p \<in> set (ilist s b)" and "p \<notin> D" and "v \<in> set (operands s (VInstr p))"
  shows "v \<notin> VInstr ` D"
proof
  assume "v \<in> VInstr ` D"
  then obtain q where q: "v = VInstr q" "q \<in> D" by blast
  have "heap_ok s" using complete_moduleD(8) erasedD(1) [OF assms(1)] .
  then obtain f where "b \<in> set (fblocks s f)" using assms(2) by (rule block_of_instr)
  then have "p \<in> code_of s' f"
    using assms(2,3) erasedD(2) [OF assms(1), of b] by (auto simp: code_of_def fblocks_def erasedD(5) [OF assms(1)])
  moreover have "VInstr q \<in> set (operands s' (VInstr p))" using assms(3,4) q(1) erasedD(4) [OF assms(1)] by simp
  ultimately have "q \<in> code_of s' f" using erasedD(12) [OF assms(1)] unfolding refs_ok_def by blast
  then show False using q(2) erasedD(2) [OF assms(1)] by (auto simp: code_of_def)
qed

text \<open>What an erased instruction can be.\<close>

lemma erased_instr:
  assumes "erased pure s D s'" and "p \<in> D" and "instrs s p = Some ins"
  shows "i_op ins \<notin> {Br, Ret, Store}" "i_op ins = Call \<Longrightarrow> operands s (VInstr p) = VFun g # vs \<Longrightarrow> pure_fun s g"
proof -
  have nc: "is_critical pure s p \<noteq> Inr True" using erasedD(11) [OF assms(1,2)] by (simp add: critical_instr_def)
  then show "i_op ins \<notin> {Br, Ret, Store}" using assms(3) by (auto simp: is_critical_def)
  assume c: "i_op ins = Call" "operands s (VInstr p) = VFun g # vs"
  then obtain b where "pure g = Some b" using erasedD(10) [OF assms(1)] assms(3) unfolding calls_ok_def by fastforce
  then have "pure g = Some True" using nc assms(3) c by (cases b) (auto simp: is_critical_def get_operand_def is_pure_function_def)
  then show "pure_fun s g" by (rule erasedD(9) [OF assms(1)])
qed

section \<open>Configurations\<close>

definition same_regs :: "nat set \<Rightarrow> renaming \<Rightarrow> regs \<Rightarrow> regs \<Rightarrow> bool" where
  "same_regs D \<alpha> \<rho> \<rho>' \<longleftrightarrow> (\<forall>v. v \<notin> VInstr ` D \<longrightarrow> rel_option (same_value \<alpha>) (value_of \<rho> v) (value_of \<rho>' v))"

fun same_conf :: "nat set \<Rightarrow> 'z ir_scheme \<Rightarrow> renaming \<Rightarrow> conf \<Rightarrow> conf \<Rightarrow> bool" where
  "same_conf D s \<alpha> (At b i \<rho> m) c = (\<exists>\<rho>' n. c = At b (left_of D s b i) \<rho>' n \<and> same_regs D \<alpha> \<rho> \<rho>' \<and> same_mem \<alpha> m n)"
| "same_conf D s \<alpha> (Exited m) c = (\<exists>n. c = Exited n \<and> same_mem \<alpha> m n)"

fun same_result :: "renaming \<Rightarrow> mem + rv \<times> mem \<Rightarrow> mem + rv \<times> mem \<Rightarrow> bool" where
  "same_result \<alpha> (Inl m) r = (\<exists>n. r = Inl n \<and> same_mem \<alpha> m n)"
| "same_result \<alpha> (Inr (v, m)) r = (\<exists>w n. r = Inr (w, n) \<and> same_value \<alpha> v w \<and> same_mem \<alpha> m n)"

lemma same_regs_more: "same_regs D \<alpha> \<rho> \<rho>' \<Longrightarrow> \<alpha> \<subseteq>\<^sub>m \<beta> \<Longrightarrow> same_regs D \<beta> \<rho> \<rho>'"
  unfolding same_regs_def by (blast intro: same_option_more)

lemma value_of_upd: "value_of (\<rho>(VInstr p \<mapsto> v)) w = (if w = VInstr p then Some v else value_of \<rho> w)"
  by (cases w) auto

lemma same_regs_upd: "same_regs D \<alpha> \<rho> \<rho>' \<Longrightarrow> same_value \<alpha> v w \<Longrightarrow> same_regs D \<alpha> (\<rho>(VInstr p \<mapsto> v)) (\<rho>'(VInstr p \<mapsto> w))"
  by (simp add: same_regs_def value_of_upd del: value_of.simps)

lemma same_regs_skip: "same_regs D \<alpha> \<rho> \<rho>' \<Longrightarrow> p \<in> D \<Longrightarrow> same_regs D \<alpha> (\<rho>(VInstr p \<mapsto> v)) \<rho>'"
  by (auto simp: same_regs_def value_of_upd simp del: value_of.simps)

lemma same_value_of:
  assumes "same_regs D \<alpha> \<rho> \<rho>'" and "v \<notin> VInstr ` D" and "value_of \<rho> v = Some x"
  obtains y where "value_of \<rho>' v = Some y" "same_value \<alpha> x y"
proof -
  have "rel_option (same_value \<alpha>) (value_of \<rho> v) (value_of \<rho>' v)" using assms(1,2) unfolding same_regs_def by blast
  then show thesis using assms(3) that by (auto simp: option_rel_Some1)
qed

lemma same_values_of:
  "same_regs D \<alpha> \<rho> \<rho>' \<Longrightarrow> \<forall>v \<in> set vs. v \<notin> VInstr ` D \<Longrightarrow> values_of \<rho> vs = Some xs \<Longrightarrow>
     \<exists>ys. values_of \<rho>' vs = Some ys \<and> list_all2 (same_value \<alpha>) xs ys"
proof (induction vs arbitrary: xs)
  case (Cons v vs)
  obtain x us where x: "xs = x # us" "value_of \<rho> v = Some x" "values_of \<rho> vs = Some us"
    using values_of_ConsD [OF Cons.prems(3)] by blast
  obtain y where y: "value_of \<rho>' v = Some y" "same_value \<alpha> x y"
    using same_value_of [OF Cons.prems(1) _ x(2)] Cons.prems(2) by auto
  with Cons.IH [OF Cons.prems(1) _ x(3)] Cons.prems(2) x(1) show ?case by auto
qed simp

section \<open>Steps\<close>

text \<open>A step of an erased instruction is followed by no step.\<close>

lemma erased_step:
  assumes er: "erased pure s D s'" and at: "instr_at s b i = Some (p, ins)" and p: "p \<in> D"
    and step: "local_step s b i \<rho> m = Some c" and same: "same_conf D s \<alpha> (At b i \<rho> m) c2"
  shows "same_conf D s \<alpha> c c2"
proof -
  note op = erased_instr(1) [OF er p instr_atD(4) [OF at]]
  obtain vs v m' where e: "exec_instr (i_op ins) (i_data ins) (i_type ins) vs m = Some (v, m')"
    "c = At b (Suc i) (\<rho>(VInstr p \<mapsto> v)) m'"
    using step at op by (auto simp: local_step_def split: option.splits if_splits)
  have "silent (next_object m) m m'" by (rule exec_instr_silent [OF e(1)]) (use op in auto)
  then show ?thesis using same e(2) p left_of_Suc [OF at, of D] by (auto intro: same_regs_skip same_silent)
qed

text \<open>An instruction that is left does the same.\<close>

lemma same_branch:
  assumes "same_regs D \<alpha> \<rho> \<rho>'" and "\<forall>v \<in> set ops. v \<notin> VInstr ` D" and "branch ops \<rho> = Some t"
  shows "branch ops \<rho>' = Some t"
proof -
  consider "ops = [VBB t]" | c t1 t2 x where "ops = [c, VBB t1, VBB t2]" "value_of \<rho> c = Some (BoolV x)" "t = (if x then t1 else t2)"
    using assms(3) by (auto simp: branch_def split: list.splits val.splits option.splits rv.splits)
  then show ?thesis
  proof cases
    case (2 c t1 t2 x)
    have "c \<notin> VInstr ` D" using assms(2) 2(1) by simp
    then obtain y where "value_of \<rho>' c = Some y" "same_value \<alpha> (BoolV x) y"
      using same_value_of [OF assms(1) _ 2(2)] by blast
    then show ?thesis using 2 by (cases c) (simp_all add: branch_def)
  qed (simp add: branch_def)
qed

lemma kept_step:
  assumes er: "erased pure s D s'" and at: "instr_at s b i = Some (p, ins)" and p: "p \<notin> D"
    and step: "local_step s b i \<rho> m = Some c" and same: "same_regs D \<alpha> \<rho> \<rho>'" "same_mem \<alpha> m n"
  obtains c' \<beta> where "local_step s' b (left_of D s b i) \<rho>' n = Some c'" "\<alpha> \<subseteq>\<^sub>m \<beta>" "same_conf D s \<beta> c c'"
proof -
  note at' = kept_at [OF er at p] and ops = erasedD(4) [OF er p]
  have kept: "\<forall>v \<in> set (operands s (VInstr p)). v \<notin> VInstr ` D"
    using kept_operands [OF er instr_atD(3) [OF at] p] by blast
  show thesis
  proof (cases "i_op ins = Br")
    case True
    then obtain t where t: "branch (operands s (VInstr p)) \<rho> = Some t" "c = At t 0 \<rho> m"
      using step at by (auto simp: local_step_def)
    then have "local_step s' b (left_of D s b i) \<rho>' n = Some (At t 0 \<rho>' n)"
      using at' ops True same_branch [OF same(1) kept] by (simp add: local_step_def)
    then show thesis by (rule that [of _ \<alpha>]) (simp_all add: t(2) same)
  next
    case False
    then obtain vs v m' where e: "values_of \<rho> (operands s (VInstr p)) = Some vs"
      "exec_instr (i_op ins) (i_data ins) (i_type ins) vs m = Some (v, m')" "c = At b (Suc i) (\<rho>(VInstr p \<mapsto> v)) m'"
      "i_op ins \<noteq> Ret" "i_op ins \<noteq> Call"
      using step at by (auto simp: local_step_def split: option.splits if_splits)
    obtain ws where ws: "values_of \<rho>' (operands s (VInstr p)) = Some ws" "list_all2 (same_value \<alpha>) vs ws"
      using same_values_of [OF same(1) kept e(1)] by blast
    obtain w n' \<beta> where x: "exec_instr (i_op ins) (i_data ins) (i_type ins) ws n = Some (w, n')" "\<alpha> \<subseteq>\<^sub>m \<beta>"
      "same_mem \<beta> m' n'" "same_value \<beta> v w"
      using same_exec [OF e(2) same(2) ws(2)] .
    have "local_step s' b (left_of D s b i) \<rho>' n = Some (At b (Suc (left_of D s b i)) (\<rho>'(VInstr p \<mapsto> w)) n')"
      using at' ops False e(4,5) ws(1) x(1) by (simp add: local_step_def)
    moreover have "same_conf D s \<beta> c (At b (Suc (left_of D s b i)) (\<rho>'(VInstr p \<mapsto> w)) n')"
      using e(3) x(3) same_regs_upd [OF same_regs_more [OF same(1) x(2)] x(4)] p left_of_Suc [OF at, of D] by simp
    ultimately show thesis using x(2) that by blast
  qed
qed

lemma kept_call:
  assumes er: "erased pure s D s'" and at: "call_at s b i \<rho> = Some (p, f, vs)" and p: "p \<notin> D" and same: "same_regs D \<alpha> \<rho> \<rho>'"
  obtains ws where "call_at s' b (left_of D s b i) \<rho>' = Some (p, f, ws)" "list_all2 (same_value \<alpha>) vs ws"
proof -
  obtain ins us where c: "p \<in> set (ilist s b)" "i_op ins = Call" "operands s (VInstr p) = VFun f # us"
    "values_of \<rho> us = Some vs" "instr_at s b i = Some (p, ins)"
    using call_atD [OF at] by metis
  have "\<forall>v \<in> set us. v \<notin> VInstr ` D" using kept_operands [OF er c(1) p] c(3) by auto
  then obtain ws where "values_of \<rho>' us = Some ws" "list_all2 (same_value \<alpha>) vs ws"
    using same_values_of [OF same _ c(4)] by blast
  then show thesis
    using that kept_at [OF er c(5) p] erasedD(4) [OF er p] c(2,3) by (simp add: call_at_def)
qed

lemma kept_return:
  assumes er: "erased pure s D s'" and ret: "returned s b i \<rho> = Some v" and same: "same_regs D \<alpha> \<rho> \<rho>'"
  obtains w where "returned s' b (left_of D s b i) \<rho>' = Some w" "same_value \<alpha> v w"
proof -
  obtain p ins where at: "instr_at s b i = Some (p, ins)" "i_op ins = Ret"
    and r: "(case operands s (VInstr p) of [] \<Rightarrow> Some VoidV | [v] \<Rightarrow> value_of \<rho> v | _ \<Rightarrow> None) = Some v"
    using ret by (auto simp: returned_def split: option.splits if_splits)
  have p: "p \<notin> D" using erased_instr(1) [OF er _ instr_atD(4) [OF at(1)]] at(2) by auto
  have kept: "\<forall>v \<in> set (operands s (VInstr p)). v \<notin> VInstr ` D"
    using kept_operands [OF er instr_atD(3) [OF at(1)] p] by blast
  have "\<exists>w. (case operands s (VInstr p) of [] \<Rightarrow> Some VoidV | [v] \<Rightarrow> value_of \<rho>' v | _ \<Rightarrow> None) = Some w \<and> same_value \<alpha> v w"
  proof (cases "operands s (VInstr p)")
    case (Cons x xs)
    then have x: "xs = []" "value_of \<rho> x = Some v" using r by (auto split: list.splits)
    show ?thesis using same_value_of [OF same _ x(2)] kept Cons x(1) by auto
  qed (use r in auto)
  then show thesis using that kept_at [OF er at(1) p] erasedD(4) [OF er p] at(2) by (auto simp: returned_def)
qed

section \<open>Calls\<close>

lemma same_library:
  assumes "lib_call f vs m = Some r" and "same_mem \<alpha> m n" and "list_all2 (same_value \<alpha>) vs ws"
  obtains r' where "lib_call f ws n = Some r'" "same_result \<alpha> r r'"
proof -
  have "\<forall>v \<in> set vs. \<not> is_address v" using assms(1) by (auto simp: lib_call_def split: if_splits list.splits rv.splits)
  then have ws: "ws = vs" using same_numbers [OF assms(3)] by blast
  note d = same_memD [OF assms(2)]
  have io: "same_mem \<alpha> (m\<lparr>stdin := i\<rparr>) (n\<lparr>stdin := i\<rparr>)" "same_mem \<alpha> (m\<lparr>stdout := o1\<rparr>) (n\<lparr>stdout := o1\<rparr>)" for i o1
    using assms(2) by (simp_all add: same_mem_def)
  show thesis
    using assms(1) that io d(1,2) by (auto simp: ws lib_call_def split: if_splits list.splits rv.splits)
qed

definition globals_fixed :: "'z ir_scheme \<Rightarrow> renaming \<Rightarrow> bool" where
  "globals_fixed s \<alpha> \<longleftrightarrow> (\<forall>k < length (global_list s). \<alpha> k = Some k)"

lemma globals_fixed_more: "globals_fixed s \<alpha> \<Longrightarrow> \<alpha> \<subseteq>\<^sub>m \<beta> \<Longrightarrow> globals_fixed s \<beta>"
  by (auto simp: globals_fixed_def dest: map_leD)

lemma position_less: "x \<in> set xs \<Longrightarrow> position x xs < length xs"
  by (induction xs) auto

lemma same_start:
  assumes "erased pure s D s'" and "globals_fixed s \<alpha>" and "list_all2 (same_value \<alpha>) vs ws"
  shows "same_regs D \<alpha> (start_regs s f vs) (start_regs s' f ws)"
  unfolding same_regs_def
proof (intro allI impI)
  fix v assume "v \<notin> VInstr ` D"
  show "rel_option (same_value \<alpha>) (value_of (start_regs s f vs) v) (value_of (start_regs s' f ws) v)"
  proof (cases v)
    case (VConst c)
    then show ?thesis by (cases c) auto
  next
    case (VGlobal g)
    then show ?thesis using assms(2) position_less [of g "global_list s"]
      by (auto simp: start_regs_def erasedD(8) [OF assms(1)] globals_fixed_def)
  next
    case (VArg f' i)
    then show ?thesis using list_all2_nthD [OF assms(3), of i] list_all2_lengthD [OF assms(3)] by (auto simp: start_regs_def)
  qed (simp_all add: start_regs_def)
qed

text \<open>Executions and calls, by mutual induction.\<close>

lemma erased_execution:
  assumes er: "erased pure s D s'"
  shows "calls s f vs m r \<Longrightarrow> (\<forall>\<alpha> n ws. same_mem \<alpha> m n \<longrightarrow> list_all2 (same_value \<alpha>) vs ws \<longrightarrow> globals_fixed s \<alpha> \<longrightarrow>
      (\<exists>r' \<beta>. calls s' f ws n r' \<and> \<alpha> \<subseteq>\<^sub>m \<beta> \<and> same_result \<beta> r r'))"
    and "reach s c c' \<Longrightarrow> (\<forall>\<alpha> c2. same_conf D s \<alpha> c c2 \<longrightarrow> globals_fixed s \<alpha> \<longrightarrow>
      (\<exists>c2' \<beta>. reach s' c2 c2' \<and> \<alpha> \<subseteq>\<^sub>m \<beta> \<and> same_conf D s \<beta> c' c2'))"
proof (induction rule: calls_reach.inducts)
  case (library f fn vs m r)
  then have l: "funs s' f = Some fn" "basic_blocks fn = []" "lib_call (f_name fn) vs m = Some r" by (simp_all add: erasedD(5) [OF er])
  show ?case
  proof (intro allI impI)
    fix \<alpha> n ws assume "same_mem \<alpha> m n" "list_all2 (same_value \<alpha>) vs ws"
    with l(3) obtain r' where "lib_call (f_name fn) ws n = Some r'" "same_result \<alpha> r r'" by (rule same_library)
    then show "\<exists>r' \<beta>. calls s' f ws n r' \<and> \<alpha> \<subseteq>\<^sub>m \<beta> \<and> same_result \<beta> r r'"
      using calls_reach.library [OF l(1,2)] by (intro exI [of _ r'] exI [of _ \<alpha>]) simp
  qed
next
  case (body f fn b bs vs m c i \<rho> m' v)
  then have l: "funs s' f = Some fn" "basic_blocks fn = b # bs" "returned s c i \<rho> = Some v" by (simp_all add: erasedD(5) [OF er])
  show ?case
  proof (intro allI impI)
    fix \<alpha> n ws assume h: "same_mem \<alpha> m n" "list_all2 (same_value \<alpha>) vs ws" "globals_fixed s \<alpha>"
    have "same_conf D s \<alpha> (At b 0 (start_regs s f vs) m) (At b 0 (start_regs s' f ws) n)"
      using same_start [OF er h(3,2)] h(1) by simp
    then obtain c2 \<beta> where c2: "reach s' (At b 0 (start_regs s' f ws) n) c2" "\<alpha> \<subseteq>\<^sub>m \<beta>" "same_conf D s \<beta> (At c i \<rho> m') c2"
      using body.IH h(3) by blast
    then obtain \<rho>' n' where e: "c2 = At c (left_of D s c i) \<rho>' n'" "same_regs D \<beta> \<rho> \<rho>'" "same_mem \<beta> m' n'" by auto
    obtain w where w: "returned s' c (left_of D s c i) \<rho>' = Some w" "same_value \<beta> v w" using kept_return [OF er l(3) e(2)] .
    have "calls s' f ws n (Inr (w, n'))" using calls_reach.body [OF l(1,2) c2(1) [unfolded e(1)] w(1)] .
    then show "\<exists>r' \<beta>. calls s' f ws n r' \<and> \<alpha> \<subseteq>\<^sub>m \<beta> \<and> same_result \<beta> (Inr (v, m')) r'" using c2(2) w(2) e(3) by auto
  qed
next
  case (body_exit f fn b bs vs m m')
  then have l: "funs s' f = Some fn" "basic_blocks fn = b # bs" by (simp_all add: erasedD(5) [OF er])
  show ?case
  proof (intro allI impI)
    fix \<alpha> n ws assume h: "same_mem \<alpha> m n" "list_all2 (same_value \<alpha>) vs ws" "globals_fixed s \<alpha>"
    have "same_conf D s \<alpha> (At b 0 (start_regs s f vs) m) (At b 0 (start_regs s' f ws) n)"
      using same_start [OF er h(3,2)] h(1) by simp
    then obtain c2 \<beta> where c2: "reach s' (At b 0 (start_regs s' f ws) n) c2" "\<alpha> \<subseteq>\<^sub>m \<beta>" "same_conf D s \<beta> (Exited m') c2"
      using body_exit.IH h(3) by blast
    then obtain n' where e: "c2 = Exited n'" "same_mem \<beta> m' n'" by auto
    have "calls s' f ws n (Inl n')" using calls_reach.body_exit [OF l c2(1) [unfolded e(1)]] .
    then show "\<exists>r' \<beta>. calls s' f ws n r' \<and> \<alpha> \<subseteq>\<^sub>m \<beta> \<and> same_result \<beta> (Inl m') r'" using c2(2) e(2) by auto
  qed
next
  case (refl c)
  then show ?case using calls_reach.refl map_le_refl by blast
next
  case (step b i \<rho> m c c')
  then have st: "local_step s b i \<rho> m = Some c" by blast
  then obtain p ins where at: "instr_at s b i = Some (p, ins)" by (auto simp: local_step_def split: option.splits)
  show ?case
  proof (intro allI impI)
    fix \<alpha> c2 assume h: "same_conf D s \<alpha> (At b i \<rho> m) c2" "globals_fixed s \<alpha>"
    show "\<exists>c2' \<beta>. reach s' c2 c2' \<and> \<alpha> \<subseteq>\<^sub>m \<beta> \<and> same_conf D s \<beta> c' c2'"
    proof (cases "p \<in> D")
      case True
      then show ?thesis using erased_step [OF er at True st h(1)] step.IH h(2) by blast
    next
      case False
      obtain \<rho>' n where e: "c2 = At b (left_of D s b i) \<rho>' n" "same_regs D \<alpha> \<rho> \<rho>'" "same_mem \<alpha> m n" using h(1) by auto
      obtain c1 \<beta> where c1: "local_step s' b (left_of D s b i) \<rho>' n = Some c1" "\<alpha> \<subseteq>\<^sub>m \<beta>" "same_conf D s \<beta> c c1"
        using kept_step [OF er at False st e(2,3)] .
      obtain c2' \<gamma> where "reach s' c1 c2'" "\<beta> \<subseteq>\<^sub>m \<gamma>" "same_conf D s \<gamma> c' c2'"
        using step.IH c1(3) globals_fixed_more [OF h(2) c1(2)] by blast
      then show ?thesis using calls_reach.step [OF c1(1)] e(1) map_le_trans [OF c1(2)] by blast
    qed
  qed
next
  case (call b i \<rho> p f vs m v m' c')
  then have at: "call_at s b i \<rho> = Some (p, f, vs)" and cl: "calls s f vs m (Inr (v, m'))" by blast+
  obtain ins us where p: "instrs s p = Some ins" "i_op ins = Call" "operands s (VInstr p) = VFun f # us" "instr_at s b i = Some (p, ins)"
    using call_atD [OF at] by metis
  show ?case
  proof (intro allI impI)
    fix \<alpha> c2 assume h: "same_conf D s \<alpha> (At b i \<rho> m) c2" "globals_fixed s \<alpha>"
    obtain \<rho>' n where e: "c2 = At b (left_of D s b i) \<rho>' n" "same_regs D \<alpha> \<rho> \<rho>'" "same_mem \<alpha> m n" using h(1) by auto
    show "\<exists>c2' \<beta>. reach s' c2 c2' \<and> \<alpha> \<subseteq>\<^sub>m \<beta> \<and> same_conf D s \<beta> c' c2'"
    proof (cases "p \<in> D")
      case True
      have "pure_fun s f" using erased_instr(2) [OF er True p(1-3)] .
      then have "silent (next_object m) m m'" using pure_call_silent [OF erasedD(1) [OF er] _ cl] by blast
      then have "same_conf D s \<alpha> (At b (Suc i) (\<rho>(VInstr p \<mapsto> v)) m') c2"
        using e True left_of_Suc [OF p(4), of D] by (auto intro: same_regs_skip same_silent)
      then show ?thesis using call.IH h(2) by blast
    next
      case False
      obtain ws where ws: "call_at s' b (left_of D s b i) \<rho>' = Some (p, f, ws)" "list_all2 (same_value \<alpha>) vs ws"
        using kept_call [OF er at False e(2)] .
      obtain w n' \<beta> where c1: "calls s' f ws n (Inr (w, n'))" "\<alpha> \<subseteq>\<^sub>m \<beta>" "same_value \<beta> v w" "same_mem \<beta> m' n'"
        using call.IH e(3) ws(2) h(2) by (metis same_result.simps(2))
      let ?c1 = "At b (Suc (left_of D s b i)) (\<rho>'(VInstr p \<mapsto> w)) n'"
      have "same_conf D s \<beta> (At b (Suc i) (\<rho>(VInstr p \<mapsto> v)) m') ?c1"
        using same_regs_upd [OF same_regs_more [OF e(2) c1(2)] c1(3)] c1(4) False left_of_Suc [OF p(4), of D] by simp
      then obtain c2' \<gamma> where "reach s' ?c1 c2'" "\<beta> \<subseteq>\<^sub>m \<gamma>" "same_conf D s \<gamma> c' c2'"
        using call.IH globals_fixed_more [OF h(2) c1(2)] by blast
      then show ?thesis using calls_reach.call [OF ws(1) c1(1)] e(1) map_le_trans [OF c1(2)] by blast
    qed
  qed
next
  case (call_exit b i \<rho> p f vs m m')
  then have at: "call_at s b i \<rho> = Some (p, f, vs)" and cl: "calls s f vs m (Inl m')" by blast+
  obtain ins us where p: "instrs s p = Some ins" "i_op ins = Call" "operands s (VInstr p) = VFun f # us"
    using call_atD [OF at] by metis
  have False_if: "p \<notin> D"
  proof
    assume "p \<in> D"
    then have "pure_fun s f" using erased_instr(2) [OF er _ p] by blast
    then show False using pure_call_silent [OF erasedD(1) [OF er] _ cl] by blast
  qed
  show ?case
  proof (intro allI impI)
    fix \<alpha> c2 assume h: "same_conf D s \<alpha> (At b i \<rho> m) c2" "globals_fixed s \<alpha>"
    obtain \<rho>' n where e: "c2 = At b (left_of D s b i) \<rho>' n" "same_regs D \<alpha> \<rho> \<rho>'" "same_mem \<alpha> m n" using h(1) by auto
    obtain ws where ws: "call_at s' b (left_of D s b i) \<rho>' = Some (p, f, ws)" "list_all2 (same_value \<alpha>) vs ws"
      using kept_call [OF er at False_if e(2)] .
    obtain n' \<beta> where "calls s' f ws n (Inl n')" "\<alpha> \<subseteq>\<^sub>m \<beta>" "same_mem \<beta> m' n'"
      using call_exit.IH e(3) ws(2) h(2) by (metis same_result.simps(1))
    then show "\<exists>c2' \<beta>. reach s' c2 c2' \<and> \<alpha> \<subseteq>\<^sub>m \<beta> \<and> same_conf D s \<beta> (Exited m') c2'"
      using calls_reach.call_exit [OF ws(1)] e(1) by auto
  qed
qed

section \<open>Programs\<close>

lemma global_objects_next:
  "globals_ok s \<Longrightarrow> set gs \<subseteq> set (global_list s) \<Longrightarrow> next_object (global_objects s gs m) = next_object m + length gs"
proof (induction gs arbitrary: m)
  case (Cons g gs)
  then obtain x t where "gvars s g = Some x" "g_type x = PtrTy t" by (auto simp: globals_ok_def)
  then show ?case using Cons by (simp add: alloc_def)
qed simp

text \<open>The memory before the start holds numbers only.\<close>

definition no_addresses :: "mem \<Rightarrow> bool" where
  "no_addresses m \<longleftrightarrow> (\<forall>ob v. Some v \<in> set (objects m ob) \<longrightarrow> \<not> is_address v)"

lemma zero_no_address: "\<not> is_address (zero_value t)"
  by (induction t) auto

lemma global_objects_numbers: "no_addresses m \<Longrightarrow> no_addresses (global_objects s gs m)"
proof (induction gs arbitrary: m)
  case (Cons g gs)
  have "no_addresses (snd (alloc t (Some (zero_value t)) m))" for t
    using Cons.prems zero_no_address [of t] by (auto simp: no_addresses_def alloc_def)
  then show ?case using Cons by (auto split: option.splits ty.splits)
qed simp

lemma same_start_mem:
  assumes "no_addresses m"
  shows "same_mem (\<lambda>k. if k < next_object m then Some k else None) m m"
proof -
  have "rel_option (same_value \<alpha>) x x" if "x \<in> set (objects m ob)" for x ob \<alpha>
    using assms that by (cases x) (auto simp: no_addresses_def same_value_no_address)
  then have "list_all2 (rel_option (same_value \<alpha>)) (objects m ob) (objects m ob)" for ob \<alpha>
    using nth_mem by (fastforce simp: list_all2_conv_all_nth)
  then show ?thesis by (auto simp: same_mem_def inj_on_def dom_def split: if_splits)
qed

lemma global_objects_same: "gvars s' = gvars s \<Longrightarrow> global_objects s' gs m = global_objects s gs m"
  by (induction gs arbitrary: m) simp_all

lemma DeadCode_erased:
  assumes "complete_module s"
  obtains pure s' n D where "DeadCode_run s = Inr (s', n)" "erased pure s D s'"
proof -
  note ok = complete_moduleD [OF assms]
  obtain pure s' n D where r: "FuncInfo_run s = Inr pure" "DeadCode_run s = Inr (s', n)" "trimmed pure s D s'" "calls_ok pure s"
    using DeadCode_run_trimmed [OF ok(1,3,5,6)] .
  then have "erased pure s D s'" using assms FuncInfo_pure [OF ok(6) r(1)] by (simp add: erased_def)
  with r(2) show thesis by (rule that)
qed

lemma same_result_stdout:
  assumes "same_result \<alpha> r r'" and "case r of Inl m \<Rightarrow> stdout m = out \<and> v = None | Inr (x, m) \<Rightarrow> stdout m = out \<and> v = Some x"
    and "\<And>ob i. v \<noteq> Some (PtrV ob i)"
  shows "case r' of Inl m \<Rightarrow> stdout m = out \<and> v = None | Inr (x, m) \<Rightarrow> stdout m = out \<and> v = Some x"
proof (cases r)
  case (Inl m)
  then show ?thesis using assms(1,2) by (auto dest: same_memD(2))
next
  case (Inr xm)
  then obtain x m where x: "r = Inr (x, m)" "v = Some x" "stdout m = out" using assms(2) by (cases xm) auto
  then obtain n where n: "r' = Inr (x, n)" "same_mem \<alpha> m n"
    using assms(1,3) same_value_number [of x \<alpha>] by auto
  then show ?thesis using x same_memD(2) [OF n(2)] by simp
qed

lemma keeps_runs:
  assumes "complete_module s" and "module_runs s is out v" and "\<And>ob i. v \<noteq> Some (PtrV ob i)"
  obtains s' n where "DeadCode_run s = Inr (s', n)" "module_runs s' is out v"
proof -
  obtain pure s' k D where d: "DeadCode_run s = Inr (s', k)" "erased pure s D s'" using DeadCode_erased [OF assms(1)] .
  note e = erasedD [OF d(2)]
  let ?m = "global_objects s (global_list s) (empty_mem is)"
  let ?\<alpha> = "\<lambda>k. if k < next_object ?m then Some k else None"
  obtain f fn r where f: "f \<in> set (function_list s)" "funs s f = Some fn" "f_name fn = ''main''" "calls s f [] ?m r"
    and r: "case r of Inl m \<Rightarrow> stdout m = out \<and> v = None | Inr (x, m) \<Rightarrow> stdout m = out \<and> v = Some x"
    using assms(2) unfolding module_runs_def by blast
  have "same_mem ?\<alpha> ?m ?m"
    by (intro same_start_mem global_objects_numbers) (simp add: no_addresses_def empty_mem_def)
  moreover have "globals_fixed s ?\<alpha>"
    using global_objects_next [OF complete_moduleD(7) [OF assms(1)], of "global_list s"] by (simp add: globals_fixed_def)
  ultimately obtain r' \<beta> where r': "calls s' f [] ?m r'" "same_result \<beta> r r'"
    using erased_execution(1) [OF d(2) f(4)] by blast
  have "global_objects s' (global_list s') (empty_mem is) = ?m" using global_objects_same [OF e(7)] by (simp add: e(8))
  then have "module_runs s' is out v"
    unfolding module_runs_def using f(1-3) r'(1) same_result_stdout [OF r'(2) r assms(3)] by (auto simp: e(5,6))
  with d(1) show thesis by (rule that)
qed


text \<open>C4: dead code elimination keeps what a program does: if a complete module reads \<open>is\<close>, prints \<open>out\<close> and ends with
  a number, with no value, or by the handler of negative indices, then the pass returns
  a module that does the same.\<close>

theorem DeadCode_keeps_runs:
  assumes "complete_module s" and "module_runs s is out v" and "\<And>ob i. v \<noteq> Some (PtrV ob i)"
  shows "\<exists>s' n. DeadCode_run s = Inr (s', n) \<and> module_runs s' is out v"
  using keeps_runs [OF assms] by blast

end
