(* ===== verification/Code_Homes.thy ===== *)
theory Code_Homes
  imports Codegen_Correct IR_Typing
begin

text \<open>
  Where the operands of generated code come from: an instruction uses earlier instructions and
  blocks of its own function, and functions of the module; calls name a function. The
  invariant \<open>in_home\<close> holds of the symbol table and the current values too, and every step of the
  visitor keeps it. Here a step is only asked what holds when it succeeds.
\<close>

section \<open>Results of steps that succeed\<close>

definition yields :: "'a res \<Rightarrow> ('a \<Rightarrow> bool) \<Rightarrow> bool" where
  "yields r P \<longleftrightarrow> (\<forall>x. r = Inr x \<longrightarrow> P x)"

lemma yieldsD: "yields r P \<Longrightarrow> r = Inr x \<Longrightarrow> P x"
  by (simp add: yields_def)

lemma yields_simps [simp]: "yields (Inr x) P = P x" "yields (Inl e) P"
  by (simp_all add: yields_def)

lemma yields_bnd:
  assumes "yields r Q" and "\<And>x. r = Inr x \<Longrightarrow> Q x \<Longrightarrow> yields (f x) P"
  shows "yields (bnd r f) P"
  using assms by (cases r) (auto simp: yields_def)

lemma yields_mono: "yields r Q \<Longrightarrow> (\<And>x. Q x \<Longrightarrow> P x) \<Longrightarrow> yields r P"
  by (simp add: yields_def)

lemma yields_any: "(\<And>x. yields (f x) P) \<Longrightarrow> yields (bnd r f) P"
  by (cases r) auto

section \<open>Values of a function\<close>

definition belongs :: "'z ir_scheme \<Rightarrow> nat \<Rightarrow> val \<Rightarrow> bool" where
  "belongs s f v = (case v of
     VInstr q \<Rightarrow> \<exists>ins. instrs s q = Some ins \<and> owner s (i_parent ins) = Some f
   | VBB b \<Rightarrow> owner s b = Some f
   | VFun g \<Rightarrow> g \<in> set (function_list s)
   | _ \<Rightarrow> True)"

definition settled :: "'z ir_scheme \<Rightarrow> bool" where
  "settled s \<longleftrightarrow> fresh_ok s \<and>
     (\<forall>p. instrs s p = None \<longrightarrow> operands s (VInstr p) = []) \<and>
     (\<forall>p ins. instrs s p = Some ins \<longrightarrow> VNull \<notin> set (operands s (VInstr p)) \<and>
        (\<exists>f. owner s (i_parent ins) = Some f \<and> f \<in> set (function_list s) \<and>
           (\<forall>v \<in> set (operands s (VInstr p)). belongs s f v \<and> (\<forall>q. v = VInstr q \<longrightarrow> q < p))) \<and>
        (i_op ins = Call \<longrightarrow> (\<exists>g vs. operands s (VInstr p) = VFun g # vs)) \<and> p \<in> set (ilist s (i_parent ins))) \<and>
     (\<forall>f \<in> set (function_list s). \<exists>fn r as. funs s f = Some fn \<and> f_type fn = FunTy r as) \<and>
     (\<forall>g \<in> set (global_list s). \<exists>x t. gvars s g = Some x \<and> g_type x = PtrTy t)"

text \<open>The states inside of the current function, and what a step there gives.\<close>

definition home :: "cg \<Rightarrow> val \<Rightarrow> bool" where
  "home s v \<longleftrightarrow> (\<exists>f. cur_fun s = Some f \<and> belongs s f v)"

definition in_home :: "cg \<Rightarrow> bool" where
  "in_home s \<longleftrightarrow> settled s \<and>
     (\<exists>f b. cur_fun s = Some f \<and> f \<in> set (function_list s) \<and> insert_bb s = Some b \<and> owner s b = Some f) \<and>
     (\<forall>m \<in> set (scope s). \<forall>n v. m n = Some v \<longrightarrow> home s v)"

definition stays :: "cg \<Rightarrow> cg \<Rightarrow> bool" where
  "stays s s' \<longleftrightarrow> in_home s' \<and> kept s s' \<and> function_list s' = function_list s \<and> cur_fun s' = cur_fun s"

lemma belongs_mono:
  assumes "belongs s f v" and "kept s s'" and "set (function_list s) \<subseteq> set (function_list s')"
  shows "belongs s' f v"
  using assms(1,3) keptD [OF assms(2)] by (cases v) (auto simp: belongs_def)

lemma home_stays: "home s v \<Longrightarrow> stays s s' \<Longrightarrow> home s' v"
  unfolding home_def stays_def using belongs_mono by force

lemma stays_refl: "in_home s \<Longrightarrow> stays s s"
  by (simp add: stays_def)

lemma stays_trans: "stays s s1 \<Longrightarrow> stays s1 s2 \<Longrightarrow> stays s s2"
  unfolding stays_def using kept_trans by force

lemma stays_home: "stays s s' \<Longrightarrow> in_home s'"
  by (simp add: stays_def)

lemma home_const [simp]: "in_home s \<Longrightarrow> home s (VConst c)" "in_home s \<Longrightarrow> home s VNull"
  by (auto simp: in_home_def home_def belongs_def)

lemma in_home_upd [simp]:
  "home (s\<lparr>tmp_val := v1\<rparr>) = home s" "home (s\<lparr>require_lvalue := v2\<rparr>) = home s" "home (s\<lparr>pre_enter_scope := v3\<rparr>) = home s"
  "home (s\<lparr>scope := v4\<rparr>) = home s"
  "in_home (s\<lparr>tmp_val := v1\<rparr>) = in_home s" "in_home (s\<lparr>require_lvalue := v2\<rparr>) = in_home s"
  "in_home (s\<lparr>pre_enter_scope := v3\<rparr>) = in_home s"
  by (simp_all add: fun_eq_iff home_def in_home_def settled_def belongs_def fresh_ok_def owner_def ilist_def cong: val.case_cong)

lemma stays_upd [simp]:
  "stays s (s'\<lparr>tmp_val := v1\<rparr>) = stays s s'" "stays s (s'\<lparr>require_lvalue := v2\<rparr>) = stays s s'"
  "stays s (s'\<lparr>pre_enter_scope := v3\<rparr>) = stays s s'"
  "stays (s\<lparr>tmp_val := v1\<rparr>) s' = stays s s'" "stays (s\<lparr>require_lvalue := v2\<rparr>) s' = stays s s'"
  "stays (s\<lparr>pre_enter_scope := v3\<rparr>) s' = stays s s'"
  by (simp_all add: stays_def)

lemma home_find: "in_home s \<Longrightarrow> home s (find (scope s) n)"
proof -
  have "\<forall>m \<in> set sc. \<forall>n v. m n = Some v \<longrightarrow> home s v \<Longrightarrow> find sc n \<noteq> VNull \<Longrightarrow> home s (find sc n)" for sc
    by (induction sc) (auto split: option.splits)
  then show "in_home s \<Longrightarrow> home s (find (scope s) n)"
    by (cases "find (scope s) n = VNull") (auto simp: in_home_def home_def belongs_def)
qed

section \<open>New instructions\<close>

lemma mk_instr_settled:
  assumes s: "settled s" and own: "owner s b = Some f" "f \<in> set (function_list s)"
    and mk: "mk_instr t opc d vs b s = Inr (v, s')" and vs: "\<forall>v \<in> set vs. belongs s f v"
    and call: "opc = Call \<longrightarrow> (\<exists>g us. vs = VFun g # us)"
  shows "settled s' \<and> belongs s' f v"
proof -
  note view = mk_instr_view [OF mk]
  have fr: "fresh_ok s" using s by (simp add: settled_def)
  note k = mk_instr_kept [OF fr mk]
  have mono: "belongs s' g w" if "belongs s g w" for g w using belongs_mono [OF that k] view(14) by simp
  have below: "q < next_id s" if "belongs s f (VInstr q)" for q
    using that fresh_okD(1) [OF fr, of q] by (cases "next_id s \<le> q") (auto simp: belongs_def)
  have new: "VNull \<notin> set vs \<and> (\<exists>g. owner s' b = Some g \<and> g \<in> set (function_list s') \<and>
      (\<forall>v \<in> set vs. belongs s' g v \<and> (\<forall>q. v = VInstr q \<longrightarrow> q < next_id s)))"
    using view(5,14,18) own vs mono below by auto
  have old: "VNull \<notin> set (operands s (VInstr p)) \<and> (\<exists>f. owner s' (i_parent ins) = Some f \<and> f \<in> set (function_list s') \<and>
       (\<forall>v \<in> set (operands s (VInstr p)). belongs s' f v \<and> (\<forall>q. v = VInstr q \<longrightarrow> q < p))) \<and>
       (i_op ins = Call \<longrightarrow> (\<exists>g vs. operands s (VInstr p) = VFun g # vs))" if p: "instrs s p = Some ins" for p ins
  proof -
    obtain g where g: "owner s (i_parent ins) = Some g" "g \<in> set (function_list s)"
      "\<forall>v \<in> set (operands s (VInstr p)). belongs s g v \<and> (\<forall>q. v = VInstr q \<longrightarrow> q < p)"
      using s p unfolding settled_def by meson
    have "VNull \<notin> set (operands s (VInstr p))" "i_op ins = Call \<longrightarrow> (\<exists>g vs. operands s (VInstr p) = VFun g # vs)"
      using s p unfolding settled_def by blast+
    then show ?thesis using g mono view(5,14) by auto
  qed
  have "settled s'"
    unfolding settled_def
  proof (intro conjI allI impI)
    show "fresh_ok s'" by (rule mk_instr_fresh [OF fr mk])
    show "operands s' (VInstr p) = []" if "instrs s' p = None" for p
      using that s by (auto simp: view settled_def split: if_splits)
    fix p ins assume p: "instrs s' p = Some ins"
    have "(p = next_id s \<and> i_parent ins = b \<and> i_op ins = opc \<and> operands s' (VInstr p) = vs) \<or>
        instrs s p = Some ins \<and> operands s' (VInstr p) = operands s (VInstr p)"
      using p by (auto simp: view split: if_splits)
    then show "VNull \<notin> set (operands s' (VInstr p))"
      "\<exists>f. owner s' (i_parent ins) = Some f \<and> f \<in> set (function_list s') \<and>
         (\<forall>v \<in> set (operands s' (VInstr p)). belongs s' f v \<and> (\<forall>q. v = VInstr q \<longrightarrow> q < p))"
      "i_op ins = Call \<Longrightarrow> \<exists>g vs. operands s' (VInstr p) = VFun g # vs"
      using new old [of p ins] call by metis+
    show "p \<in> set (ilist s' (i_parent ins))" using s p by (auto simp: view settled_def split: if_splits)
  qed (use s in \<open>simp_all add: view settled_def\<close>)
  moreover have "belongs s' f v" using own(1) by (simp add: view belongs_def)
  ultimately show ?thesis ..
qed

lemma mk_instr_home:
  assumes "in_home s" and "insert_bb s = Some b" and "mk_instr t opc d vs b s = Inr (v, s')"
    and "\<forall>v \<in> set vs. home s v" and "opc = Call \<longrightarrow> (\<exists>g us. vs = VFun g # us)"
  shows "stays s s' \<and> home s' v"
proof -
  note view = mk_instr_view [OF assms(3)]
  obtain f where f: "cur_fun s = Some f" "f \<in> set (function_list s)" "owner s b = Some f" "settled s"
    using assms(1,2) by (auto simp: in_home_def)
  have "\<forall>v \<in> set vs. belongs s f v" using assms(4) f(1) by (simp add: home_def)
  then have s': "settled s' \<and> belongs s' f v" using mk_instr_settled [OF f(4,3,2) assms(3)] assms(5) by blast
  have k: "kept s s'" using f(4) mk_instr_kept [OF _ assms(3)] by (simp add: settled_def)
  have c: "cur_fun s' = cur_fun s" "insert_bb s' = insert_bb s" "scope s' = scope s"
    using cg_more [OF view(17)] by simp_all
  have h: "home s' v" if "home s v" for v
    using that belongs_mono [OF _ k] view(14) c(1) by (auto simp: home_def)
  then have "in_home s'" using assms(1) s' f k keptD(4) [OF k] by (auto simp: in_home_def c view(14) assms(2))
  then show ?thesis using k s' f(1) by (simp add: stays_def c view(14) home_def)
qed

section \<open>The builder\<close>

definition value_home :: "cg \<Rightarrow> (val \<times> cg) res \<Rightarrow> bool" where
  "value_home s r \<longleftrightarrow> yields r (\<lambda>(v, s'). stays s s' \<and> home s' v)"

lemma value_homeD: "value_home s r \<Longrightarrow> r = Inr (v, s') \<Longrightarrow> stays s s' \<and> home s' v"
  by (simp add: value_home_def yields_def)

lemma value_home_bnd:
  assumes "value_home s r" and "\<And>v s'. stays s s' \<Longrightarrow> home s' v \<Longrightarrow> yields (f (v, s')) P"
  shows "yields (bnd r f) P"
  using assms unfolding value_home_def by (auto elim!: yields_bnd)

lemma build_mk_home:
  assumes "in_home s" and "\<forall>v \<in> set vs. home s v" and "opc \<noteq> Call"
  shows "value_home s (build (mk_instr t opc d vs) s)"
  using mk_instr_home [OF assms(1) _ _ assms(2)] assms(3)
  by (auto simp: value_home_def yields_def build_Inr)

lemma build_home:
  assumes "in_home s"
  shows "home s l \<Longrightarrow> home s r \<Longrightarrow> opc \<noteq> Call \<Longrightarrow> value_home s (build (create_binary opc l r) s)"
    "home s l \<Longrightarrow> home s r \<Longrightarrow> value_home s (build (create_cmp c l r) s)"
    "home s l \<Longrightarrow> home s r \<Longrightarrow> value_home s (build (create_fcmp c l r) s)"
    "home s l \<Longrightarrow> value_home s (build (create_zext l t) s)" "home s l \<Longrightarrow> value_home s (build (create_fptosi l t) s)"
    "home s l \<Longrightarrow> value_home s (build (create_sitofp l t) s)" "value_home s (build (create_alloca t) s)"
    "home s l \<Longrightarrow> home s r \<Longrightarrow> value_home s (build (create_store l r) s)" "home s l \<Longrightarrow> value_home s (build (create_ret l) s)"
    "value_home s (build create_void_ret s)"
  unfolding create_binary_def create_cmp_def create_fcmp_def create_zext_def create_fptosi_def create_sitofp_def
    create_alloca_def create_store_def create_ret_def create_void_ret_def
  by (auto intro: build_mk_home [OF assms])

lemma build_load_home: "in_home s \<Longrightarrow> home s v \<Longrightarrow> value_home s (build (create_load v) s)"
  using build_mk_home [of s "[v]" Load] unfolding value_home_def
  by (auto simp: yields_def build_Inr create_load_def split: ty.splits)

lemma build_gep_home: "in_home s \<Longrightarrow> home s v \<Longrightarrow> \<forall>i \<in> set is. home s i \<Longrightarrow> value_home s (build (create_gep v is) s)"
  using build_mk_home [of s "v # is" Getelementptr] unfolding value_home_def
  by (auto simp: yields_def build_Inr create_gep_def)

lemma build_call_home:
  assumes "in_home s" and "home s v" and "\<forall>a \<in> set args. home s a"
  shows "value_home s (build (create_call v args) s)"
proof (cases v)
  case (VFun f)
  then show ?thesis using mk_instr_home [OF assms(1), of _ _ Call _ "VFun f # args"] assms(2,3)
    by (auto simp: value_home_def yields_def build_Inr create_call_def)
qed (auto simp: value_home_def yields_def build_Inr create_call_def)

text \<open>The table of floats and the other steps that add no instruction.\<close>

lemma same_home:
  assumes "in_home s" and "instrs s' = instrs s" "ilist s' = ilist s" "operands s' = operands s" "owner s' = owner s" "funs s' = funs s"
    "gvars s' = gvars s" "function_list s' = function_list s" "global_list s' = global_list s" "next_id s' = next_id s"
    "ir.more s' = ir.more s"
  shows "stays s s'"
proof -
  have more: "cur_fun s' = cur_fun s" "insert_bb s' = insert_bb s" "scope s' = scope s" using cg_more [OF assms(11)] by simp_all
  have b: "belongs s' = belongs s" by (simp add: belongs_def fun_eq_iff assms split: val.split)
  have "blocks s' p = None \<longleftrightarrow> blocks s p = None" for p by (simp add: owner_None_blocks [symmetric] assms(5))
  then have "fresh_ok s' = fresh_ok s" by (simp add: fresh_ok_def assms)
  then have "settled s' = settled s" by (simp add: settled_def assms b)
  then have "in_home s'" using assms(1) by (simp add: in_home_def home_def b more assms)
  then show ?thesis by (simp add: stays_def more assms kept_def f_types_def [abs_def])
qed

lemma const_fp_home:
  assumes "in_home s" and "const_fp x s = (c, s')"
  shows "stays s s' \<and> home s' c"
proof -
  obtain k where k: "ConstantFP_get x s = (k, s')" "c = VConst k" using assms(2) by (auto simp: const_fp_def split: prod.splits)
  have "stays s s'"
    by (rule same_home [OF assms(1)]) (use k(1) in \<open>auto simp: ConstantFP_get_def Let_def owner_def [abs_def] ilist_def [abs_def] split: option.splits\<close>)
  then show ?thesis using k(2) by (simp add: stays_home)
qed

lemma same_code_home: "in_home s \<Longrightarrow> same_code s s' \<Longrightarrow> stays s s'"
  by (rule same_home) (simp_all add: same_code_def)

definition step_home :: "cg \<Rightarrow> cg res \<Rightarrow> bool" where
  "step_home s r \<longleftrightarrow> yields r (stays s)"

lemma discard_home: "value_home s r \<Longrightarrow> step_home s (discard r)"
  by (auto simp: value_home_def step_home_def yields_def discard_Inr)

lemma step_home_bnd:
  assumes "step_home s r" and "\<And>s'. stays s s' \<Longrightarrow> yields (f s') P"
  shows "yields (bnd r f) P"
  using assms unfolding step_home_def by (auto elim!: yields_bnd)

text \<open>Blocks of the current function.\<close>

lemma insert_home: "in_home s \<Longrightarrow> home s (VBB b) \<Longrightarrow> stays s (set_insert_point b s)"
proof -
  assume h: "in_home s" "home s (VBB b)"
  have b: "belongs (set_insert_point b s) = belongs s"
    by (simp add: belongs_def fun_eq_iff set_insert_point_def owner_def split: val.split)
  have "settled (set_insert_point b s) = settled s"
    by (simp add: settled_def b) (simp add: set_insert_point_def fresh_ok_def owner_def ilist_def)
  then have "in_home (set_insert_point b s)"
    using h by (auto simp: in_home_def home_def b) (auto simp: set_insert_point_def belongs_def owner_def)
  moreover have "kept s (set_insert_point b s)" by (simp add: kept_def set_insert_point_def owner_def [abs_def] f_types_def [abs_def])
  ultimately show ?thesis by (simp add: stays_def) (simp add: set_insert_point_def)
qed

lemma br_home:
  assumes "in_home s" and "home s (VBB t)"
  shows "step_home s (discard (build (create_br t) s))"
  unfolding step_home_def yields_def
proof (intro allI impI)
  fix s' assume "discard (build (create_br t) s) = Inr s'"
  then obtain b v where b: "insert_bb s = Some b" "create_br t b s = Inr (v, s')" by (auto simp: discard_Inr build_Inr)
  from b(2) show "stays s s'"
  proof (rule create_br_Inr)
    fix s1 assume s1: "mk_instr VoidTy Br NoData [VBB t] b s1 = Inr (v, s')" "same_code s s1"
    note h = same_code_home [OF assms(1) s1(2)]
    have "insert_bb s1 = Some b" using s1(2) b(1) cg_more(1) [of s1 s] by (simp add: same_code_def)
    then have "stays s1 s'" using mk_instr_home [OF stays_home [OF h] _ s1(1)] home_stays [OF assms(2) h] by simp
    then show ?thesis using stays_trans [OF h] by blast
  qed
qed

lemma cond_br_home:
  assumes "in_home s" and "home s c" "home s (VBB t)" "home s (VBB f)"
  shows "step_home s (discard (build (create_cond_br c t f) s))"
  unfolding step_home_def yields_def
proof (intro allI impI)
  fix s' assume "discard (build (create_cond_br c t f) s) = Inr s'"
  then obtain b v where b: "insert_bb s = Some b" "create_cond_br c t f b s = Inr (v, s')" by (auto simp: discard_Inr build_Inr)
  obtain s1 s2 s3 s4 where e: "add_pre_basic_block t b s = Inr s1"
    "add_pre_basic_block f b s1 = Inr s2" "add_succ_basic_block b f s2 = Inr s3"
    "add_succ_basic_block b t s3 = Inr s4" "mk_instr VoidTy Br NoData [c, VBB t, VBB f] b s4 = Inr (v, s')"
    using b(2) by (auto simp: create_cond_br_def)
  have same: "same_code s s4"
    using add_pre_view(1) [OF e(1)] add_pre_view(1) [OF e(2)] add_succ_view(1) [OF e(3)] add_succ_view(1) [OF e(4)] same_code_trans by blast
  note h = same_code_home [OF assms(1) same]
  have "insert_bb s4 = Some b" using same b(1) cg_more(1) [of s4 s] by (simp add: same_code_def)
  then have "stays s4 s'" using mk_instr_home [OF stays_home [OF h] _ e(5)] assms(2-4) by (simp add: home_stays [OF _ h])
  then show "stays s s'" using stays_trans [OF h] by blast
qed

lemma block_settled:
  assumes "settled s" and c: "BasicBlock_create n f s = Inr (b, s')"
  shows "settled s'" "kept s s'" "function_list s' = function_list s" "ir.more s' = ir.more s" "owner s' b = Some f"
proof -
  have fr: "fresh_ok s" using assms(1) by (simp add: settled_def)
  show k: "kept s s'" using BasicBlock_create_kept [OF fr c] .
  have v: "instrs s' = instrs s" "operands s' = operands s" "gvars s' = gvars s" "function_list s' = function_list s"
    "global_list s' = global_list s" "ir.more s' = ir.more s" "owner s' b = Some f"
    using c by (auto simp: BasicBlock_create_def Let_def owner_def)
  have il: "ilist s' = ilist s" using c fresh_okD(2) [OF fr, of "next_id s"]
    by (auto simp: BasicBlock_create_def Let_def ilist_def fun_eq_iff)
  have mono: "belongs s' g w" if "belongs s g w" for g w using belongs_mono [OF that k] v(4) by simp
  have "fresh_ok s'" using c fr by (auto simp: BasicBlock_create_def Let_def fresh_ok_def)
  moreover have "\<exists>fn r as. funs s' g = Some fn \<and> f_type fn = FunTy r as" if "g \<in> set (function_list s)" for g
    using assms(1) that c by (fastforce simp: settled_def BasicBlock_create_def Let_def split: if_splits)
  moreover have "\<exists>g. owner s' (i_parent ins) = Some g \<and> g \<in> set (function_list s) \<and>
      (\<forall>v \<in> set (operands s (VInstr p)). belongs s' g v \<and> (\<forall>q. v = VInstr q \<longrightarrow> q < p))" if p: "instrs s p = Some ins" for p ins
  proof -
    obtain g where "owner s (i_parent ins) = Some g" "g \<in> set (function_list s)"
      "\<forall>v \<in> set (operands s (VInstr p)). belongs s g v \<and> (\<forall>q. v = VInstr q \<longrightarrow> q < p)"
      using assms(1) p unfolding settled_def by meson
    then show ?thesis using mono keptD(4) [OF k] by blast
  qed
  ultimately show "settled s'" using assms(1) by (simp add: settled_def v il)
  show "function_list s' = function_list s" "ir.more s' = ir.more s" "owner s' b = Some f" by (fact v)+
qed

lemma new_block_home:
  assumes "in_home s"
  shows "yields (new_block n s) (\<lambda>(b, s'). stays s s' \<and> home s' (VBB b))"
  unfolding yields_def
proof (intro allI impI, clarify)
  fix b s' assume n: "new_block n s = Inr (b, s')"
  obtain f where f: "cur_fun s = Some f" "f \<in> set (function_list s)" "settled s" using assms by (auto simp: in_home_def)
  then have c: "BasicBlock_create n f s = Inr (b, s')" using n by (simp add: new_block_def)
  note v = block_settled [OF f(3) c]
  have more: "cur_fun s' = cur_fun s" "insert_bb s' = insert_bb s" "scope s' = scope s" using cg_more [OF v(4)] by simp_all
  have "home s' w" if "home s w" for w using that belongs_mono [OF _ v(2)] v(3) by (auto simp: home_def more)
  then have "in_home s'" using assms v(1) keptD(4) [OF v(2)] by (auto simp: in_home_def more v(3))
  then show "stays s s' \<and> home s' (VBB b)" using v f(1) by (simp add: stays_def more home_def belongs_def)
qed

section \<open>The pieces of the visitor\<close>

definition tmp_home :: "cg \<Rightarrow> cg res \<Rightarrow> bool" where
  "tmp_home s r \<longleftrightarrow> yields r (\<lambda>s'. stays s s' \<and> home s' (tmp_val s'))"

lemma to_tmp_home: "value_home s r \<Longrightarrow> tmp_home s (to_tmp r)"
  by (auto simp: value_home_def tmp_home_def yields_def to_tmp_Inr)

lemma tmp_home_step: "tmp_home s r \<Longrightarrow> step_home s r"
  by (simp add: tmp_home_def step_home_def yields_def)

text \<open>Earlier steps in front.\<close>

lemma home_after:
  "stays s s1 \<Longrightarrow> value_home s1 r \<Longrightarrow> value_home s r"
  "stays s s1 \<Longrightarrow> tmp_home s1 q \<Longrightarrow> tmp_home s q"
  "stays s s1 \<Longrightarrow> step_home s1 q \<Longrightarrow> step_home s q"
  unfolding value_home_def tmp_home_def step_home_def yields_def using stays_trans by blast+

lemma yields_seq:
  assumes "yields r Q" and "\<And>x. Q x \<Longrightarrow> yields (f x) (P' x)" and "\<And>x y. Q x \<Longrightarrow> P' x y \<Longrightarrow> P y"
  shows "yields (bnd r f) P"
  using assms by (cases r) (auto simp: yields_def)

lemmas home_defs = value_home_def tmp_home_def step_home_def

lemma value_home_value: "value_home s r \<Longrightarrow> (\<And>v s'. stays s s' \<Longrightarrow> home s' v \<Longrightarrow> value_home s' (f (v, s'))) \<Longrightarrow> value_home s (bnd r f)"
  unfolding home_defs by (erule yields_seq [where P' = "\<lambda>(v, s'). \<lambda>(w, s''). stays s' s'' \<and> home s'' w"]) (auto intro: stays_trans)

lemma value_home_tmp: "value_home s r \<Longrightarrow> (\<And>v s'. stays s s' \<Longrightarrow> home s' v \<Longrightarrow> tmp_home s' (f (v, s'))) \<Longrightarrow> tmp_home s (bnd r f)"
  unfolding home_defs by (erule yields_seq [where P' = "\<lambda>(v, s'). \<lambda>s''. stays s' s'' \<and> home s'' (tmp_val s'')"]) (auto intro: stays_trans)

lemma tmp_home_tmp: "tmp_home s r \<Longrightarrow> (\<And>s'. stays s s' \<Longrightarrow> home s' (tmp_val s') \<Longrightarrow> tmp_home s' (f s')) \<Longrightarrow> tmp_home s (bnd r f)"
  unfolding home_defs by (erule yields_seq [where P' = "\<lambda>s'. \<lambda>s''. stays s' s'' \<and> home s'' (tmp_val s'')"]) (auto intro: stays_trans)

lemma step_home_step: "step_home s r \<Longrightarrow> (\<And>s'. stays s s' \<Longrightarrow> step_home s' (f s')) \<Longrightarrow> step_home s (bnd r f)"
  unfolding home_defs by (erule yields_seq [where P' = "\<lambda>s'. stays s'"]) (auto intro: stays_trans)

lemma value_home_step: "value_home s r \<Longrightarrow> (\<And>v s'. stays s s' \<Longrightarrow> home s' v \<Longrightarrow> step_home s' (f (v, s'))) \<Longrightarrow> step_home s (bnd r f)"
  unfolding home_defs by (erule yields_seq [where P' = "\<lambda>(v, s'). stays s'"]) (auto intro: stays_trans)

lemma step_home_value: "step_home s r \<Longrightarrow> (\<And>s'. stays s s' \<Longrightarrow> value_home s' (f s')) \<Longrightarrow> value_home s (bnd r f)"
  unfolding home_defs by (erule yields_seq [where P' = "\<lambda>s'. \<lambda>(w, s''). stays s' s'' \<and> home s'' w"]) (auto intro: stays_trans)

text \<open>Reading a type or another part of the state.\<close>

lemma read_home:
  "(\<And>x. value_home s (f x)) \<Longrightarrow> value_home s (bnd a f)"
  "(\<And>x. tmp_home s (g x)) \<Longrightarrow> tmp_home s (bnd a g)"
  "(\<And>x. step_home s (g x)) \<Longrightarrow> step_home s (bnd a g)"
  by (cases a; simp add: value_home_def tmp_home_def step_home_def)+

lemma home_Inr [simp]:
  "value_home s (Inr (v, s')) \<longleftrightarrow> stays s s' \<and> home s' v" "tmp_home s (Inr s') \<longleftrightarrow> stays s s' \<and> home s' (tmp_val s')"
  "step_home s (Inr s') \<longleftrightarrow> stays s s'" "value_home s (Inl e)" "tmp_home s (Inl e)" "step_home s (Inl e)"
  by (simp_all add: value_home_def tmp_home_def step_home_def)

lemma promote_home:
  assumes "in_home s" and "home s l" "home s r"
  shows "yields (promote l r s) (\<lambda>(b, l, r, s'). stays s s' \<and> home s' l \<and> home s' r)"
proof -
  have "yields (bnd (build (create_sitofp v FloatTy) s) (\<lambda>(w, s). Inr (False, w, r, s)))
      (\<lambda>(b, l, r, s'). stays s s' \<and> home s' l \<and> home s' r)" if "home s v" for v
    by (rule value_home_bnd [OF build_home(6) [OF assms(1) that]]) (simp add: home_stays [OF assms(3)])
  moreover have "yields (bnd (build (create_sitofp v FloatTy) s) (\<lambda>(w, s). Inr (False, l, w, s)))
      (\<lambda>(b, l, r, s'). stays s s' \<and> home s' l \<and> home s' r)" if "home s v" for v
    by (rule value_home_bnd [OF build_home(6) [OF assms(1) that]]) (simp add: home_stays [OF assms(2)])
  ultimately show ?thesis
    unfolding promote_def using assms by (auto intro!: yields_any simp: stays_refl)
qed

lemma arith_home:
  assumes "in_home s" and "home s l" "home s r" and "iop \<noteq> Call" "fop \<noteq> Call"
  shows "tmp_home s (arith iop fop l r s)"
  unfolding arith_def tmp_home_def
proof (rule yields_bnd [OF promote_home [OF assms(1-3)]], clarify)
  fix b l' r' s' assume h: "stays s s'" "home s' l'" "home s' r'"
  have "tmp_home s' (to_tmp (build (create_binary (if b then iop else fop) l' r') s'))"
    using h assms(4,5) by (intro to_tmp_home build_home(1)) (auto dest: stays_home)
  then show "yields (to_tmp (build (create_binary (if b then iop else fop) l' r') s')) (\<lambda>s'. stays s s' \<and> home s' (tmp_val s'))"
    using home_after(2) [OF h(1)] unfolding tmp_home_def by blast
qed

lemma compare_home:
  assumes "in_home s" and "home s l" "home s r"
  shows "tmp_home s (compare op l r s)"
  unfolding compare_def tmp_home_def
proof (rule yields_bnd [OF promote_home [OF assms]], clarify)
  fix b l' r' s' assume h: "stays s s'" "home s' l'" "home s' r'"
  let ?c = "\<lambda>s. if b then build (create_cmp (cmp_of op) l' r') s else build (create_fcmp (cmp_of op) l' r') s"
  have "tmp_home s' (bnd (?c s') (\<lambda>(c, s). to_tmp (build (create_zext c INT32_T) s)))"
    using h by (intro value_home_tmp) (auto intro: to_tmp_home build_home dest: stays_home)
  then show "yields (bnd (?c s') (\<lambda>(c, s). to_tmp (build (create_zext c INT32_T) s))) (\<lambda>s'. stays s s' \<and> home s' (tmp_val s'))"
    using home_after(2) [OF h(1)] unfolding tmp_home_def by blast
qed

lemma default_return_home: "in_home s \<Longrightarrow> step_home s (default_return s)"
proof -
  assume h: "in_home s"
  have "step_home s (let (c, s) = const_fp 0 s in discard (build (create_ret c) s))"
  proof -
    obtain c s1 where c: "const_fp 0 s = (c, s1)" by fastforce
    then have "stays s s1 \<and> home s1 c" using const_fp_home [OF h] by blast
    then show ?thesis using c home_after(3) [OF _ discard_home [OF build_home(9)]] by (auto dest: stays_home)
  qed
  then show ?thesis
    unfolding default_return_def using h
    by (auto intro!: read_home discard_home build_home simp: const_int_def)
qed

lemma condition_home:
  assumes "in_home s" and "home s v"
  shows "value_home s (condition v s)"
proof -
  have "value_home s (let (c, s) = const_fp 0 s in build (create_fcmp NE v c) s)"
  proof -
    obtain c s1 where c: "const_fp 0 s = (c, s1)" by fastforce
    then have h: "stays s s1" "home s1 c" using const_fp_home [OF assms(1)] by blast+
    have "value_home s (build (create_fcmp NE v c) s1)"
      using home_after(1) [OF h(1) build_home(3) [OF stays_home [OF h(1)] home_stays [OF assms(2) h(1)] h(2)]] .
    then show ?thesis using c by simp
  qed
  then show ?thesis
    unfolding condition_def using assms by (auto intro!: read_home build_home simp: const_int_def)
qed

lemma visit_num_home:
  assumes "in_home s"
  shows "tmp_home s (visit_num n s)"
proof (cases n)
  case (NumFloat x)
  obtain c s1 where "const_fp x s = (c, s1)" by fastforce
  with const_fp_home [OF assms this] NumFloat show ?thesis by (simp add: visit_num_def)
qed (use assms in \<open>simp add: visit_num_def stays_refl\<close>)

lemma lookup_var_home:
  assumes "in_home s"
  shows "yields (lookup_var n s) (\<lambda>(v, et, lval, s'). stays s s' \<and> home s' v)"
  unfolding lookup_var_def Let_def using assms home_find [OF assms, of n]
  by (auto intro!: yields_any simp: stays_refl)

lemma var_value_home: "in_home s \<Longrightarrow> home s v \<Longrightarrow> tmp_home s (var_value v et lval s)"
  by (auto simp: var_value_def stays_refl const_int_def intro!: to_tmp_home build_load_home build_gep_home)

lemma element_access_home:
  assumes "in_home s" and "home s v" "home s i"
  shows "tmp_home s (element_access v et lval i s)"
proof -
  let ?p = "if is_scalar et then build (create_gep v [i]) s
     else if is_pointer_type et then bnd (build (create_load v) s) (\<lambda>(a, s). build (create_gep a [i]) s)
     else build (create_gep v [const_int 0, i]) s"
  have "value_home s (bnd (build (create_load v) s) (\<lambda>(a, s). build (create_gep a [i]) s))"
    using assms by (intro value_home_value build_load_home)
      (auto intro!: build_gep_home dest: stays_home home_stays)
  then have "value_home s ?p" using assms by (auto intro!: build_gep_home simp: const_int_def)
  then show ?thesis
    unfolding element_access_def
    by (rule value_home_tmp) (auto intro!: to_tmp_home build_load_home intro: stays_refl dest: stays_home)
qed

lemma assign_home:
  assumes "in_home s" and "home s v" "home s a"
  shows "tmp_home s (assign v a s)"
proof -
  have st: "tmp_home s1 (bnd (discard (build (create_store w a) s1)) (\<lambda>s. Inr (s\<lparr>tmp_val := w\<rparr>)))"
    if h: "stays s s1" "home s1 w" for w s1
  proof -
    have "step_home s1 (discard (build (create_store w a) s1))"
      using h home_stays [OF assms(3) h(1)] by (intro discard_home build_home) (auto dest: stays_home)
    then show ?thesis unfolding tmp_home_def
      by (rule step_home_bnd) (simp add: home_stays [OF h(2)])
  qed
  have "value_home s (if c then if d then build (create_sitofp v FloatTy) s else build (create_fptosi v INT32_T) s else Inr (v, s))" for c d
    using assms by (auto intro: build_home simp: stays_refl)
  then show ?thesis
    unfolding assign_def by (intro read_home value_home_tmp) (use st in auto)
qed

lemma convert_arg_home: "in_home s \<Longrightarrow> home s (tmp_val s) \<Longrightarrow> tmp_home s (convert_arg ps s)"
  unfolding convert_arg_def by (auto intro!: read_home to_tmp_home build_home simp: stays_refl split: list.split)

lemma lookup_fun_home: "in_home s \<Longrightarrow> yields (lookup_fun n s) (\<lambda>(v, ps). home s v)"
  using home_find [of s n] by (auto simp: lookup_fun_def intro!: yields_any split: val.split)

lemma index_check_home:
  assumes "in_home s" and "home s v"
  shows "value_home s (index_check v s)"
  unfolding index_check_def value_home_def
proof (rule yields_bnd [OF new_block_home [OF assms(1)]], clarify)
  fix e s1 assume e: "stays s s1" "home s1 (VBB e)"
  show "yields (bnd (new_block '''' s1) (\<lambda>(cont_bb, s). bnd (get_type s v) (\<lambda>t.
     bnd (if is_float_type t then build (create_fptosi v INT32_T) s else Inr (v, s)) (\<lambda>(v, s).
     bnd (build (create_cmp LT v (const_int 0)) s) (\<lambda>(is_neg, s).
     bnd (discard (build (create_cond_br is_neg e cont_bb) s)) (\<lambda>s.
     let s = set_insert_point e s
     in bnd (discard (build (create_call (find (scope s) ''neg_idx_except'') []) s)) (\<lambda>s.
        bnd (default_return s) (\<lambda>s. Inr (v, set_insert_point cont_bb s)))))))))
     (\<lambda>(v, s'). stays s s' \<and> home s' v)"
  proof (rule yields_bnd [OF new_block_home [OF stays_home [OF e(1)]]], clarify)
    fix c s2 assume c: "stays s1 s2" "home s2 (VBB c)"
    have tail: "value_home s3 (bnd (build (create_cmp LT w (const_int 0)) s3) (\<lambda>(is_neg, s).
       bnd (discard (build (create_cond_br is_neg e c) s)) (\<lambda>s.
       let s = set_insert_point e s
       in bnd (discard (build (create_call (find (scope s) ''neg_idx_except'') []) s)) (\<lambda>s.
          bnd (default_return s) (\<lambda>s. Inr (w, set_insert_point c s))))))" if h: "stays s2 s3" "home s3 w" for s3 w
    proof (rule value_home_value, goal_cases)
      case 1
      show ?case using h by (intro build_home) (auto simp: const_int_def dest: stays_home)
    next
      case (2 neg s4)
      then have s4: "stays s2 s4" "home s4 (VBB e)" "home s4 (VBB c)" "home s4 w"
        using stays_trans [OF h(1) 2(1)] home_stays [OF e(2) c(1)] c(2) h(2) home_stays by blast+
      show ?case
        unfolding split
      proof (rule step_home_value, goal_cases)
        case 1
        show ?case using 2 s4 by (intro cond_br_home) (auto dest: stays_home)
      next
        case (2 s5)
        then have s5: "in_home s5" "home s5 (VBB e)" "home s5 (VBB c)" "home s5 w"
          using s4 home_stays by (auto dest: stays_home)
        let ?s = "set_insert_point e s5"
        note i = insert_home [OF s5(1,2)]
        have "value_home ?s (bnd (discard (build (create_call (find (scope ?s) ''neg_idx_except'') []) ?s)) (\<lambda>s.
            bnd (default_return s) (\<lambda>s. Inr (w, set_insert_point c s))))"
        proof (rule step_home_value, goal_cases)
          case 1
          show ?case using stays_home [OF i] by (intro discard_home build_call_home home_find) auto
        next
          case (2 s6)
          show ?case
          proof (rule step_home_value, goal_cases)
            case 1
            show ?case using 2 by (intro default_return_home) (rule stays_home)
          next
            case (2 s7)
            have "home s7 (VBB c)" "home s7 w"
              using s5(3,4) i \<open>stays ?s s6\<close> 2 home_stays by blast+
            then show ?case using insert_home [OF stays_home [OF 2]] home_stays by auto
          qed
        qed
        then show ?case using home_after(1) [OF i] by (simp add: Let_def)
      qed
    qed
    have "value_home s2 (bnd (get_type s2 v) (\<lambda>t.
       bnd (if is_float_type t then build (create_fptosi v INT32_T) s2 else Inr (v, s2)) (\<lambda>(v, s).
       bnd (build (create_cmp LT v (const_int 0)) s) (\<lambda>(is_neg, s).
       bnd (discard (build (create_cond_br is_neg e c) s)) (\<lambda>s.
       let s = set_insert_point e s
       in bnd (discard (build (create_call (find (scope s) ''neg_idx_except'') []) s)) (\<lambda>s.
          bnd (default_return s) (\<lambda>s. Inr (v, set_insert_point c s))))))))"
    proof (rule read_home(1), rule value_home_value, goal_cases)
      case (1 t)
      have "home s2 v" using assms(2) e(1) c(1) home_stays by blast
      then show ?case using stays_home [OF c(1)] by (auto intro: build_home simp: stays_refl)
    next
      case (2 t w s3)
      then show ?case using tail by simp
    qed
    then show "yields (bnd (get_type s2 v) (\<lambda>t.
       bnd (if is_float_type t then build (create_fptosi v INT32_T) s2 else Inr (v, s2)) (\<lambda>(v, s).
       bnd (build (create_cmp LT v (const_int 0)) s) (\<lambda>(is_neg, s).
       bnd (discard (build (create_cond_br is_neg e c) s)) (\<lambda>s.
       let s = set_insert_point e s
       in bnd (discard (build (create_call (find (scope s) ''neg_idx_except'') []) s)) (\<lambda>s.
          bnd (default_return s) (\<lambda>s. Inr (v, set_insert_point c s)))))))) (\<lambda>(v, s'). stays s s' \<and> home s' v)"
      using home_after(1) [OF stays_trans [OF e(1) c(1)]] unfolding value_home_def by blast
  qed
qed

section \<open>Expressions\<close>

lemma home_upd [simp]:
  "value_home (s\<lparr>require_lvalue := b\<rparr>) = value_home s" "tmp_home (s\<lparr>require_lvalue := b\<rparr>) = tmp_home s"
  "step_home (s\<lparr>require_lvalue := b\<rparr>) = step_home s"
  by (simp_all add: home_defs fun_eq_iff yields_def)

lemma visit_args_home:
  "\<forall>e \<in> set es. \<forall>s. in_home s \<longrightarrow> tmp_home s (visit_expression e s) \<Longrightarrow> in_home s \<Longrightarrow>
     yields (visit_args es ps s) (\<lambda>(vs, s'). stays s s' \<and> (\<forall>v \<in> set vs. home s' v))"
proof (induction es arbitrary: ps s)
  case (Cons e es)
  have "tmp_home s (visit_expression e s)" using Cons.prems by simp
  then have first: "tmp_home s (bnd (visit_expression e s) (convert_arg ps))"
    by (rule tmp_home_tmp) (auto intro: convert_arg_home dest: stays_home)
  have "yields (bnd (bnd (visit_expression e s) (convert_arg ps)) (\<lambda>s. bnd (visit_args es (tl ps) s) (\<lambda>(vs, s'). Inr (tmp_val s # vs, s'))))
      (\<lambda>(vs, s'). stays s s' \<and> (\<forall>v \<in> set vs. home s' v))"
    using first unfolding tmp_home_def
  proof (rule yields_bnd)
    fix s1 assume s1: "stays s s1 \<and> home s1 (tmp_val s1)"
    then have "yields (visit_args es (tl ps) s1) (\<lambda>(vs, s'). stays s1 s' \<and> (\<forall>v \<in> set vs. home s' v))"
      using Cons.IH Cons.prems(1) by (auto dest: stays_home)
    then show "yields (bnd (visit_args es (tl ps) s1) (\<lambda>(vs, s'). Inr (tmp_val s1 # vs, s'))) (\<lambda>(vs, s'). stays s s' \<and> (\<forall>v \<in> set vs. home s' v))"
      by (rule yields_bnd) (use s1 in \<open>auto intro: stays_trans home_stays\<close>)
  qed
  then show ?case by (simp add: bnd_assoc)
qed (simp add: stays_refl)

lemma two_visits_home:
  assumes "tmp_home s r" and "\<And>s1. stays s s1 \<Longrightarrow> tmp_home s1 (g s1)"
    and "\<And>s1 s2. stays s1 s2 \<Longrightarrow> home s2 (tmp_val s1) \<Longrightarrow> home s2 (tmp_val s2) \<Longrightarrow> tmp_home s2 (h (tmp_val s1) s2)"
  shows "tmp_home s (bnd r (\<lambda>s. let l = tmp_val s in bnd (g s) (h l)))"
  unfolding Let_def by (rule tmp_home_tmp [OF assms(1)], rule tmp_home_tmp [OF assms(2)]) (auto intro: assms(3) home_stays)

lemma visit_expressions_home:
  "in_home s \<Longrightarrow> tmp_home s (visit_expression e s)" "in_home s \<Longrightarrow> tmp_home s (visit_var v s)"
  "in_home s \<Longrightarrow> tmp_home s (visit_additive a s)" "in_home s \<Longrightarrow> tmp_home s (visit_term t s)"
  "in_home s \<Longrightarrow> tmp_home s (visit_factor f s)"
proof (induction e and v and a and t and f arbitrary: s and s and s and s and s)
  case (AssignE v e)
  have v: "tmp_home s1 (visit_var v (s1\<lparr>require_lvalue := True\<rparr>))" if "stays s s1" for s1
    using AssignE.IH(1) [of "s1\<lparr>require_lvalue := True\<rparr>"] stays_home [OF that] by simp
  show ?case
    unfolding visit_expression.simps
    by (rule two_visits_home [where g = "\<lambda>s. visit_var v (s\<lparr>require_lvalue := True\<rparr>)" and h = "\<lambda>l s. assign l (tmp_val s) s"])
      (use AssignE v in \<open>auto intro: assign_home dest: stays_home\<close>)
next
  case (RelE l op r)
  show ?case
    unfolding visit_expression.simps
    by (rule two_visits_home [where h = "\<lambda>l s. compare op l (tmp_val s) s"])
      (use RelE in \<open>auto intro: compare_home dest: stays_home\<close>)
next
  case (Var n)
  show ?case
    unfolding visit_var.simps tmp_home_def
  proof (rule yields_bnd [OF lookup_var_home [OF Var]], clarify)
    fix v et lval s1 assume h: "stays s s1" "home s1 v"
    have "tmp_home s1 (var_value v et lval s1)" using h by (intro var_value_home) (auto dest: stays_home)
    then show "yields (var_value v et lval s1) (\<lambda>s'. stays s s' \<and> home s' (tmp_val s'))"
      using home_after(2) [OF h(1)] unfolding tmp_home_def by blast
  qed
next
  case (VarIndex n e)
  show ?case
    unfolding visit_var.simps tmp_home_def
  proof (rule yields_bnd [OF lookup_var_home [OF VarIndex.prems]], clarify)
    fix v et lval s1 assume h: "stays s s1" "home s1 v"
    have "tmp_home s1 (bnd (visit_expression e s1) (\<lambda>s. bnd (index_check (tmp_val s) s) (\<lambda>(i, s). element_access v et lval i s)))"
    proof (rule tmp_home_tmp [OF VarIndex.IH [OF stays_home [OF h(1)]]])
      fix s2 assume s2: "stays s1 s2" "home s2 (tmp_val s2)"
      show "tmp_home s2 (bnd (index_check (tmp_val s2) s2) (\<lambda>(i, s). element_access v et lval i s))"
        by (rule value_home_tmp [OF index_check_home [OF stays_home [OF s2(1)] s2(2)]])
          (use home_stays [OF home_stays [OF h(2) s2(1)]] in \<open>auto intro: element_access_home dest: stays_home\<close>)
    qed
    then show "yields (bnd (visit_expression e s1) (\<lambda>s. bnd (index_check (tmp_val s) s) (\<lambda>(i, s). element_access v et lval i s)))
        (\<lambda>s'. stays s s' \<and> home s' (tmp_val s'))"
      using home_after(2) [OF h(1)] unfolding tmp_home_def by blast
  qed
next
  case (AddBin a op t)
  have c: "int_add op \<noteq> Call" "float_add op \<noteq> Call" by (cases op; simp)+
  show ?case
    unfolding visit_additive.simps
    by (rule two_visits_home [where h = "\<lambda>l s. arith (int_add op) (float_add op) l (tmp_val s) s"])
      (use AddBin c in \<open>auto intro: arith_home dest: stays_home\<close>)
next
  case (TermBin t op f)
  have c: "int_mul op \<noteq> Call" "float_mul op \<noteq> Call" by (cases op; simp)+
  show ?case
    unfolding visit_term.simps
    by (rule two_visits_home [where h = "\<lambda>l s. arith (int_mul op) (float_mul op) l (tmp_val s) s"])
      (use TermBin c in \<open>auto intro: arith_home dest: stays_home\<close>)
next
  case (FCall n es)
  show ?case
    unfolding visit_factor.simps tmp_home_def
  proof (rule yields_bnd [OF lookup_fun_home [OF FCall.prems]], clarify)
    fix fn ps assume fn: "home s fn"
    have args: "yields (visit_args es ps s) (\<lambda>(vs, s'). stays s s' \<and> (\<forall>v \<in> set vs. home s' v))"
      using FCall.IH FCall.prems by (intro visit_args_home) auto
    show "yields (bnd (visit_args es ps s) (\<lambda>(vs, s). to_tmp (build (create_call fn vs) s))) (\<lambda>s'. stays s s' \<and> home s' (tmp_val s'))"
    proof (rule yields_bnd [OF args], clarify)
      fix vs s1 assume h: "stays s s1" "\<forall>v \<in> set vs. home s1 v"
      have "tmp_home s1 (to_tmp (build (create_call fn vs) s1))"
        using h home_stays [OF fn h(1)] by (intro to_tmp_home build_call_home) (auto dest: stays_home)
      then show "yields (to_tmp (build (create_call fn vs) s1)) (\<lambda>s'. stays s s' \<and> home s' (tmp_val s'))"
        using home_after(2) [OF h(1)] unfolding tmp_home_def by blast
    qed
  qed
qed (simp_all add: visit_num_home)

section \<open>Declarations\<close>

lemma declare_home:
  assumes "in_home s" and "home s v"
  shows "step_home s (declare_name n v s)"
  unfolding step_home_def yields_def
proof (intro allI impI)
  fix s' assume "declare_name n v s = Inr s'"
  then obtain r sc where sc: "push n v (scope s) = Inr (r, sc)" "s' = s\<lparr>scope := sc\<rparr>" by (auto simp: declare_name_Inr)
  obtain m rest where m: "scope s = m # rest" using sc(1) by (cases "scope s") auto
  have "\<forall>m \<in> set sc. \<forall>n v. m n = Some v \<longrightarrow> home s v"
    using assms sc(1) unfolding in_home_def m by (auto split: if_splits)
  then have "in_home s'" using assms(1) by (simp add: in_home_def sc(2) settled_def belongs_def fresh_ok_def owner_def ilist_def cong: val.case_cong)
  then show "stays s s'" by (simp add: stays_def sc(2))
qed

lemma scope_home: "in_home s \<Longrightarrow> set sc \<subseteq> insert Map.empty (set (scope s)) \<Longrightarrow> stays s (s\<lparr>scope := sc\<rparr>)"
  by (auto simp: stays_def in_home_def settled_def belongs_def fresh_ok_def owner_def ilist_def cong: val.case_cong)

lemma exit_home: "in_home s \<Longrightarrow> step_home s (exit_scope s)"
  by (cases "scope s") (auto simp: exit_scope_def intro!: scope_home)

lemma global_settled:
  assumes "settled s" and "GlobalVariable_create n t False (VConst c) s = Inr (v, s')"
  shows "settled s'" "kept s s'" "function_list s' = function_list s" "ir.more s' = ir.more s" "belongs s' f v"
proof -
  have fr: "fresh_ok s" using assms(1) by (simp add: settled_def)
  note k = GlobalVariable_create_kept [OF fr assms(2)]
  have v: "instrs s' = instrs s" "operands s' (VInstr p) = operands s (VInstr p)" "owner s' = owner s" "ilist s' = ilist s" "funs s' = funs s"
    "function_list s' = function_list s" "global_list s' = global_list s @ [next_id s]"
    "gvars s' = (gvars s)(next_id s \<mapsto> \<lparr>g_name = n, g_type = PtrTy t, g_const = False, g_init = VConst c\<rparr>)" for p
    using assms(2) by (auto simp: GlobalVariable_create_def Let_def set_operand_Inr owner_def [abs_def] ilist_def [abs_def] split: if_splits)
  have "blocks s' p = None \<longleftrightarrow> blocks s p = None" for p by (simp add: owner_None_blocks [symmetric] v)
  moreover have "next_id s' = Suc (next_id s)" "\<And>p. p > next_id s \<Longrightarrow> operands s' (VGlobal p) = operands s (VGlobal p)"
    using assms(2) by (auto simp: GlobalVariable_create_def Let_def set_operand_Inr split: if_splits)
  ultimately have "fresh_ok s'" using fr by (simp add: fresh_ok_def v)
  moreover have "belongs s' = belongs s" by (simp add: belongs_def fun_eq_iff v split: val.split)
  moreover have "\<exists>x t. gvars s' g = Some x \<and> g_type x = PtrTy t" if "g \<in> set (global_list s')" for g
    using assms(1) that by (auto simp: v settled_def)
  ultimately show "settled s'" using assms(1) by (simp add: settled_def v)
  show "kept s s'" "function_list s' = function_list s" "ir.more s' = ir.more s" "belongs s' f v"
    using k v(6) by (simp_all add: belongs_def)
qed

lemma global_home:
  assumes "in_home s"
  shows "value_home s (GlobalVariable_create n t False (VConst c) s)"
  unfolding value_home_def yields_def
proof (intro allI impI, clarify)
  fix v s' assume g: "GlobalVariable_create n t False (VConst c) s = Inr (v, s')"
  have "settled s" using assms by (simp add: in_home_def)
  note d = global_settled [OF this g]
  have more: "cur_fun s' = cur_fun s" "insert_bb s' = insert_bb s" "scope s' = scope s" using cg_more [OF d(4)] by simp_all
  have h: "home s' w" if "home s w" for w using that belongs_mono [OF _ d(2)] d(3) by (auto simp: home_def more)
  then have "in_home s'" using assms d(1,3) keptD(4) [OF d(2)] by (auto simp: in_home_def more)
  then show "stays s s' \<and> home s' v" using assms d(2,3,5) by (auto simp: stays_def more home_def in_home_def)
qed

lemma visit_var_decl_home: "in_home s \<Longrightarrow> step_home s (visit_var_decl d s)"
  unfolding visit_var_decl_def Let_def
  by (intro value_home_step) (auto intro: global_home build_home declare_home dest: stays_home)

lemma visit_var_decls_home: "in_home s \<Longrightarrow> step_home s (visit_var_decls ds s)"
proof (induction ds arbitrary: s)
  case (Cons d ds)
  show ?case unfolding visit_var_decls.simps
    by (rule step_home_step [OF visit_var_decl_home [OF Cons.prems]]) (use Cons.IH in \<open>auto dest: stays_home\<close>)
qed (simp add: stays_refl)

section \<open>Statements\<close>

lemma br_if_open_home: "in_home s \<Longrightarrow> home s (VBB b) \<Longrightarrow> step_home s (br_if_open b s)"
  unfolding br_if_open_def by (rule read_home) (simp add: stays_refl br_home)

lemma new_block_step:
  assumes "in_home s" and "\<And>b s'. stays s s' \<Longrightarrow> home s' (VBB b) \<Longrightarrow> step_home s' (f (b, s'))"
  shows "step_home s (bnd (new_block n s) f)"
  unfolding step_home_def
  by (rule yields_bnd [OF new_block_home [OF assms(1)]]) (use assms(2) in \<open>auto simp: home_defs yields_def intro: stays_trans\<close>)

lemma return_value_home: "in_home s \<Longrightarrow> home s (tmp_val s) \<Longrightarrow> step_home s (return_value rt s)"
proof -
  assume h: "in_home s" "home s (tmp_val s)"
  have t: "tmp_home s (if rt \<noteq> t then if is_integer_type rt then to_tmp (build (create_fptosi (tmp_val s) INT32_T) s)
     else to_tmp (build (create_sitofp (tmp_val s) FloatTy) s) else Inr s)" for t
    using h by (auto intro!: to_tmp_home build_home simp: stays_refl)
  have d: "step_home s' (discard (build (create_ret (tmp_val s')) s'))" if "stays s s'" "home s' (tmp_val s')" for s'
    using that by (intro discard_home build_home) (auto dest: stays_home)
  show ?thesis
    unfolding return_value_def
    by (rule read_home(3), unfold step_home_def, rule yields_seq [where P' = stays, OF t [unfolded tmp_home_def]])
      (use d in \<open>auto simp: step_home_def intro: stays_trans\<close>)
qed

text \<open>A branch of a statement: it starts in block \<open>t\<close> and ends with a jump to \<open>c\<close>.\<close>

lemma branch_home:
  assumes "in_home s" and "home s (VBB t)" "home s (VBB c)" and "\<And>s. in_home s \<Longrightarrow> step_home s (visit_statement st s)"
    and "\<And>s'. stays s s' \<Longrightarrow> step_home s' (k s')"
  shows "step_home s (bnd (visit_statement st (set_insert_point t s)) (\<lambda>s. bnd (br_if_open c s) k))"
proof (rule home_after(3) [OF insert_home [OF assms(1,2)]], rule step_home_step)
  let ?s = "set_insert_point t s"
  note i = insert_home [OF assms(1,2)]
  show "step_home ?s (visit_statement st ?s)" using assms(4) stays_home [OF i] by blast
  fix s1 assume s1: "stays ?s s1"
  have s01: "stays s s1" using stays_trans [OF i s1] .
  show "step_home s1 (bnd (br_if_open c s1) k)"
    by (rule step_home_step [OF br_if_open_home])
      (use s01 home_stays [OF assms(3) s01] in \<open>auto intro: assms(5) stays_trans dest: stays_home\<close>)
qed

text \<open>A test: the condition and the jump to one of two blocks.\<close>

lemma test_home:
  assumes "in_home s" and "home s v" "home s (VBB t)" "home s (VBB f)" and "\<And>s'. stays s s' \<Longrightarrow> step_home s' (k s')"
  shows "step_home s (bnd (condition v s) (\<lambda>(c, s). bnd (discard (build (create_cond_br c t f) s)) k))"
proof (rule value_home_step [OF condition_home [OF assms(1,2)]], unfold split, rule step_home_step)
  fix c s1 assume h: "stays s s1" "home s1 c"
  show "step_home s1 (discard (build (create_cond_br c t f) s1))"
    using h home_stays [OF _ h(1)] assms(3,4) by (intro cond_br_home) (auto dest: stays_home)
  fix s2 assume "stays s1 s2"
  then show "step_home s2 (k s2)" using assms(5) stays_trans [OF h(1)] by blast
qed

lemma insert_last_home: "in_home s \<Longrightarrow> home s (VBB c) \<Longrightarrow> step_home s (Inr (set_insert_point c s))"
  by (simp add: insert_home)

lemma tmp_home_step_visit:
  assumes "in_home s" and "\<And>s'. in_home s' \<Longrightarrow> home s' (tmp_val s') \<Longrightarrow> step_home s' (f s')"
  shows "step_home s (bnd (visit_expression e s) f)"
  unfolding step_home_def
  by (rule yields_seq [where P' = stays, OF visit_expressions_home(1) [OF assms(1), unfolded tmp_home_def]])
    (use assms(2) in \<open>auto simp: step_home_def intro: stays_trans dest: stays_home\<close>)

lemma tmp_home_then:
  "tmp_home s r \<Longrightarrow> (\<And>s'. stays s s' \<Longrightarrow> home s' (tmp_val s') \<Longrightarrow> step_home s' (f s')) \<Longrightarrow> step_home s (bnd r f)"
  unfolding home_defs by (erule yields_seq [where P' = stays]) (auto intro: stays_trans)

lemma visit_statements_home:
  "\<forall>st \<in> set ss. \<forall>s. in_home s \<longrightarrow> step_home s (visit_statement st s) \<Longrightarrow> in_home s \<Longrightarrow> step_home s (visit_statements ss s)"
proof (induction ss arbitrary: s)
  case (Cons st ss)
  show ?case
    unfolding visit_statements.simps
  proof (rule step_home_step)
    fix s1 assume "stays s s1"
    then show "step_home s1 (bnd (terminated s1) (\<lambda>t. if t then Inr s1 else visit_statements ss s1))"
      using Cons.IH Cons.prems(1) by (intro read_home(3)) (auto simp: stays_refl dest: stays_home)
  qed (use Cons.prems in simp)
qed (simp add: stays_refl)

lemma compound_exit_home: "in_home s \<Longrightarrow> step_home s (compound_exit need s)"
  by (simp add: compound_exit_def stays_refl exit_home)

lemma visit_statement_home: "in_home s \<Longrightarrow> step_home s (visit_statement st s)"
proof (induction st arbitrary: s)
  case (Compound ds ss)
  obtain need s1 where e: "compound_enter s = (need, s1)" by fastforce
  then have s1: "stays s s1" using Compound.prems by (auto simp: compound_enter_def enter_def stays_refl intro: scope_home split: if_splits)
  have "step_home s1 (bnd (visit_var_decls ds s1) (\<lambda>s. bnd (visit_statements ss s) (compound_exit need)))"
  proof (rule step_home_step [OF visit_var_decls_home [OF stays_home [OF s1]]], rule step_home_step)
    fix s2 assume "stays s1 s2"
    then show "step_home s2 (visit_statements ss s2)" using Compound.IH by (intro visit_statements_home) (auto dest: stays_home)
  qed (auto intro: compound_exit_home dest: stays_home)
  then show ?case using home_after(3) [OF s1] e by simp
next
  case (ExprStmt e)
  then show ?case by (cases e) (simp_all add: stays_refl tmp_home_step visit_expressions_home)
next
  case (Selection e st el)
  show ?case
  proof (cases el)
    case None
    show ?thesis
      unfolding None visit_statement.simps Let_def
    proof (rule tmp_home_step_visit [OF Selection.prems], rule new_block_step, assumption, unfold split, rule new_block_step,
        erule stays_home, unfold split, goal_cases)
      case (1 s1 t s2 c s3)
      have h: "in_home s3" "home s3 (tmp_val s1)" "home s3 (VBB t)" "home s3 (VBB c)"
        using 1 home_stays stays_home by blast+
      show ?case
      proof (rule test_home [OF h])
        fix s4 assume s4: "stays s3 s4"
        show "step_home s4 (bnd (visit_statement st (set_insert_point t s4)) (\<lambda>s. bnd (br_if_open c s) (\<lambda>s. Inr (set_insert_point c s))))"
          by (rule branch_home [OF stays_home [OF s4] home_stays [OF h(3) s4] home_stays [OF h(4) s4]])
            (rule Selection.IH(1), assumption, rule insert_last_home, erule stays_home, rule home_stays [OF home_stays [OF h(4) s4]])
      qed
    qed
  next
    case (Some el')
    have else_home: "step_home s (visit_statement el' s)" if "in_home s" for s using Selection.IH(2) Some that by simp
    show ?thesis
      unfolding Some visit_statement.simps Let_def
    proof (rule tmp_home_step_visit [OF Selection.prems], rule new_block_step, assumption, unfold split, rule new_block_step,
        erule stays_home, unfold split, rule value_home_step, rule condition_home, goal_cases)
      case (1 s1 t s2 c s3)
      then show ?case by (blast intro: stays_home)
    next
      case (2 s1 t s2 c s3)
      then show ?case using home_stays by blast
    next
      case (3 s1 t s2 c s3 v s4)
      have h: "in_home s4" "home s4 v" "home s4 (VBB t)" "home s4 (VBB c)"
        using 3 home_stays stays_home by blast+
      show ?case
        unfolding split
      proof (rule new_block_step [OF h(1)], unfold split, rule step_home_step)
        fix f s5 assume s5: "stays s4 s5" "home s5 (VBB f)"
        have g: "in_home s5" "home s5 v" "home s5 (VBB t)" "home s5 (VBB c)"
          using h s5(1) home_stays stays_home by blast+
        show "step_home s5 (discard (build (create_cond_br v t f) s5))" using g s5(2) by (intro cond_br_home)
        fix s6 assume s6: "stays s5 s6"
        show "step_home s6 (bnd (visit_statement st (set_insert_point t s6)) (\<lambda>s. bnd (br_if_open c s) (\<lambda>s.
          bnd (visit_statement el' (set_insert_point f s)) (\<lambda>s. bnd (br_if_open c s) (\<lambda>s. Inr (set_insert_point c s))))))"
        proof (rule branch_home [OF stays_home [OF s6] home_stays [OF g(3) s6] home_stays [OF g(4) s6]])
          fix s7 assume "stays s6 s7"
          then have s7: "in_home s7" "home s7 (VBB f)" "home s7 (VBB c)"
            using s6 s5(2) g(4) home_stays stays_home by blast+
          show "step_home s7 (bnd (visit_statement el' (set_insert_point f s7)) (\<lambda>s. bnd (br_if_open c s) (\<lambda>s. Inr (set_insert_point c s))))"
            by (rule branch_home [OF s7]) (rule else_home, assumption, rule insert_last_home, erule stays_home, rule home_stays [OF s7(3)])
        qed (rule Selection.IH(1))
      qed
    qed
  qed
next
  case (Iteration e st)
  show ?case
    unfolding visit_statement.simps
  proof (rule new_block_step [OF Iteration.prems], unfold split, rule step_home_step)
    fix x s1 assume s1: "stays s s1" "home s1 (VBB x)"
    show "step_home s1 (br_if_open x s1)" using s1 by (intro br_if_open_home) (auto dest: stays_home)
    fix s2 assume s2: "stays s1 s2"
    have x2: "in_home s2" "home s2 (VBB x)" using s2 s1(2) home_stays stays_home by blast+
    note i = insert_home [OF x2]
    have "tmp_home (set_insert_point x s2) (visit_expression e (set_insert_point x s2))"
      by (rule visit_expressions_home(1) [OF stays_home [OF i]])
    then have "tmp_home s2 (visit_expression e (set_insert_point x s2))" by (rule home_after(2) [OF i])
    then show "step_home s2 (bnd (visit_expression e (set_insert_point x s2)) (\<lambda>s. let ret_val = tmp_val s
     in bnd (new_block '''' s) (\<lambda>(true_bb, s).
        bnd (new_block '''' s) (\<lambda>(cont_bb, s).
        bnd (condition ret_val s) (\<lambda>(cond_val, s).
        bnd (discard (build (create_cond_br cond_val true_bb cont_bb) s)) (\<lambda>s.
        bnd (visit_statement st (set_insert_point true_bb s)) (\<lambda>s.
        bnd (br_if_open x s) (\<lambda>s.
        Inr (set_insert_point cont_bb s)))))))))"
    proof (rule tmp_home_then, unfold Let_def, goal_cases)
      case (1 s3)
      show ?case
      proof (rule new_block_step [OF stays_home [OF 1(1)]], unfold split, rule new_block_step, erule stays_home, unfold split, goal_cases)
        case (1 t s4 c s5)
        have h: "in_home s5" "home s5 (tmp_val s3)" "home s5 (VBB t)" "home s5 (VBB c)" "home s5 (VBB x)"
          using 1 \<open>stays s2 s3\<close> \<open>home s3 (tmp_val s3)\<close> x2(2) home_stays stays_home by blast+
        show ?case
        proof (rule test_home [OF h(1-4)])
          fix s6 assume s6: "stays s5 s6"
          show "step_home s6 (bnd (visit_statement st (set_insert_point t s6)) (\<lambda>s. bnd (br_if_open x s) (\<lambda>s. Inr (set_insert_point c s))))"
            by (rule branch_home [OF stays_home [OF s6] home_stays [OF h(3) s6] home_stays [OF h(5) s6]])
              (rule Iteration.IH, assumption, rule insert_last_home, erule stays_home, rule home_stays [OF home_stays [OF h(4) s6]])
        qed
      qed
    qed
  qed
next
  case (Return e)
  show ?case
  proof (cases e)
    case None
    then show ?thesis using Return by (simp add: discard_home build_home)
  next
    case (Some e)
    have "step_home s (bnd (visit_expression e s) (return_value rt))" for rt
      by (rule tmp_home_step_visit [OF Return]) (auto intro: return_value_home)
    then show ?thesis using Some by (auto intro: read_home)
  qed
qed

section \<open>Functions and programs\<close>

text \<open>Between two declarations the symbol table only has values that every function can use.\<close>

definition everywhere :: "cg \<Rightarrow> val \<Rightarrow> bool" where
  "everywhere s v \<longleftrightarrow> (\<forall>f. belongs s f v)"

definition outside :: "cg \<Rightarrow> bool" where
  "outside s \<longleftrightarrow> settled s \<and> (\<forall>m \<in> set (scope s). \<forall>n v. m n = Some v \<longrightarrow> everywhere s v)"

lemma everywhere_mono: "everywhere s v \<Longrightarrow> kept s s' \<Longrightarrow> set (function_list s) \<subseteq> set (function_list s') \<Longrightarrow> everywhere s' v"
  unfolding everywhere_def using belongs_mono by blast

lemma settled_upd [simp]:
  "settled (s\<lparr>scope := v1\<rparr>) = settled s" "settled (s\<lparr>cur_fun := v2\<rparr>) = settled s" "settled (s\<lparr>pre_enter_scope := v3\<rparr>) = settled s"
  "belongs (s\<lparr>scope := v1\<rparr>) = belongs s" "belongs (s\<lparr>cur_fun := v2\<rparr>) = belongs s" "belongs (s\<lparr>pre_enter_scope := v3\<rparr>) = belongs s"
  by (auto simp: settled_def belongs_def fresh_ok_def owner_def ilist_def fun_eq_iff split: val.split cong: val.case_cong)

lemma insert_upd [simp]:
  "belongs (set_insert_point b s) = belongs s" "settled (set_insert_point b s) = settled s"
  "function_list (set_insert_point b s) = function_list s" "cur_fun (set_insert_point b s) = cur_fun s"
  "scope (set_insert_point b s) = scope s" "insert_bb (set_insert_point b s) = Some b"
  "owner (set_insert_point b s) = owner s"
proof -
  show b: "belongs (set_insert_point b s) = belongs s"
    by (simp add: belongs_def fun_eq_iff set_insert_point_def owner_def split: val.split)
  show "settled (set_insert_point b s) = settled s"
    by (simp add: settled_def b) (simp add: set_insert_point_def fresh_ok_def owner_def ilist_def)
qed (simp_all add: set_insert_point_def owner_def fun_eq_iff)

lemma settled_owner:
  assumes "settled s" and "instrs s p = Some ins"
  obtains f where "owner s (i_parent ins) = Some f" "f \<in> set (function_list s)"
    "\<And>v. v \<in> set (operands s (VInstr p)) \<Longrightarrow> belongs s f v" "\<And>q. VInstr q \<in> set (operands s (VInstr p)) \<Longrightarrow> q < p"
proof -
  have "\<exists>f. owner s (i_parent ins) = Some f \<and> f \<in> set (function_list s) \<and>
      (\<forall>v \<in> set (operands s (VInstr p)). belongs s f v \<and> (\<forall>q. v = VInstr q \<longrightarrow> q < p))"
    using assms by (simp add: settled_def)
  then show thesis using that by blast
qed

lemma Function_settled:
  assumes "settled s" and "Function_create t n s = Inr (f, s')"
  shows "settled s'" "kept s s'" "set (function_list s') = insert f (set (function_list s))" "ir.more s' = ir.more s"
proof -
  have fr: "fresh_ok s" using assms(1) by (simp add: settled_def)
  note k = Function_create_kept(1) [OF fr assms(2)]
  obtain as where t: "fun_params t = Inr as" and f: "f = next_id s" using assms(2) by (auto simp: Function_create_def Let_def)
  then obtain r where r: "t = FunTy r as" by (cases t) auto
  have v: "instrs s' = instrs s" "operands s' = operands s" "owner s' = owner s" "ilist s' = ilist s" "gvars s' = gvars s"
    "function_list s' = function_list s @ [f]" "global_list s' = global_list s" "ir.more s' = ir.more s"
    using assms(2) by (auto simp: Function_create_def Let_def owner_def [abs_def] ilist_def [abs_def])
  have fn: "funs s' g = (if g = f then Some \<lparr>f_name = n, f_type = t, basic_blocks = [], arg_names = replicate (length as) '''', seq_cnt = 0\<rparr> else funs s g)" for g
    using assms(2) t by (auto simp: Function_create_def Let_def)
  have "fresh_ok s'" using assms(2) fr by (auto simp: Function_create_def Let_def fresh_ok_def)
  moreover have b: "belongs s' g v" if "belongs s g v" for g v using belongs_mono [OF that k] v(6) by auto
  have "\<exists>g. owner s (i_parent ins) = Some g \<and> (g = f \<or> g \<in> set (function_list s)) \<and>
      (\<forall>v \<in> set (operands s (VInstr p)). belongs s' g v \<and> (\<forall>q. v = VInstr q \<longrightarrow> q < p))" if i: "instrs s p = Some ins" for p ins
  proof -
    obtain g where g: "owner s (i_parent ins) = Some g" "g \<in> set (function_list s)"
      "\<And>v. v \<in> set (operands s (VInstr p)) \<Longrightarrow> belongs s g v" "\<And>q. VInstr q \<in> set (operands s (VInstr p)) \<Longrightarrow> q < p"
      using settled_owner [OF assms(1) i] by blast
    show ?thesis using g b by (intro exI [of _ g]) auto
  qed
  moreover have "\<exists>fn r as. funs s' g = Some fn \<and> f_type fn = FunTy r as" if "g \<in> insert f (set (function_list s))" for g
  proof (cases "g = f")
    case False
    then show ?thesis using assms(1) that by (auto simp: settled_def fn)
  qed (simp add: fn r)
  moreover have "\<exists>x t. gvars s g = Some x \<and> g_type x = PtrTy t" if "g \<in> set (global_list s)" for g
    using assms(1) that by (simp add: settled_def)
  moreover have "VNull \<notin> set (operands s (VInstr p))" "i_op ins = Call \<longrightarrow> (\<exists>g vs. operands s (VInstr p) = VFun g # vs)"
    "p \<in> set (ilist s (i_parent ins))"
    if "instrs s p = Some ins" for p ins using assms(1) that by (simp_all add: settled_def)
  moreover have "operands s (VInstr p) = []" if "instrs s p = None" for p using assms(1) that by (simp add: settled_def)
  ultimately show "settled s'" unfolding settled_def v set_append by simp
  show "kept s s'" "set (function_list s') = insert f (set (function_list s))" "ir.more s' = ir.more s" using k v by simp_all
qed

lemma visit_params_home: "in_home s \<Longrightarrow> step_home s (visit_params f i ps s)"
proof (induction ps arbitrary: i s)
  case (Cons p ps)
  show ?case
    unfolding visit_params.simps
  proof (rule value_home_step [OF build_home(7) [OF Cons.prems]], unfold split, rule step_home_step)
    fix a s1 assume a: "stays s s1" "home s1 a"
    have arg: "home s1 (VArg f i)" using stays_home [OF a(1)] by (auto simp: in_home_def home_def belongs_def)
    show "step_home s1 (discard (build (create_store (VArg f i) a) s1))"
      using stays_home [OF a(1)] arg a(2) by (intro discard_home build_home)
    fix s2 assume s2: "stays s1 s2"
    have "step_home s2 (declare_name (p_id p) a s2)" using declare_home stays_home [OF s2] home_stays [OF a(2) s2] .
    then show "step_home s2 (bnd (declare_name (p_id p) a s2) (visit_params f (Suc i) ps))"
      by (rule step_home_step) (auto intro: Cons.IH dest: stays_home)
  qed
qed (simp add: stays_refl)

lemma visit_params_declared: "visit_params f i ps s = Inr s' \<Longrightarrow> declared s s'"
proof (induction f i ps s rule: visit_params.induct)
  case (2 f i p ps s)
  then obtain a s1 s2 s3 where p: "build (create_alloca (param_type p)) s = Inr (a, s1)"
    "discard (build (create_store (VArg f i) a) s1) = Inr s2" "declare_name (p_id p) a s2 = Inr s3"
    "visit_params f (Suc i) ps s3 = Inr s'"
    by auto
  have "emits s s1" "emits s1 s2" using p(1,2) unfolding discard_Inr by (blast intro: emits_intros)+
  then have "declared s s3"
    using framed_trans [OF emits_framed emits_framed] declare_name_declared [OF p(3)] by (blast intro: declared_trans framed_declared)
  then show ?case using 2(1) [OF p(1) HOL.refl p(2,3,4)] declared_trans by blast
qed simp

lemma declare_outside:
  assumes "outside s" and "everywhere s v" and "declare_name n v s = Inr s'"
  shows "outside s'" "kept s s'" "function_list s' = function_list s"
proof -
  obtain r sc where sc: "push n v (scope s) = Inr (r, sc)" "s' = s\<lparr>scope := sc\<rparr>" using assms(3) by (auto simp: declare_name_Inr)
  obtain m rest where m: "scope s = m # rest" using sc(1) by (cases "scope s") auto
  have "\<forall>m \<in> set sc. \<forall>n v. m n = Some v \<longrightarrow> everywhere s v"
    using assms(1,2) sc(1) unfolding outside_def m by (auto split: if_splits)
  then show "outside s'" using assms(1) by (simp add: outside_def everywhere_def sc(2))
  show "kept s s'" "function_list s' = function_list s" by (simp_all add: sc(2))
qed

lemma outside_step:
  assumes "outside s" and "settled s'" "kept s s'" "set (function_list s) \<subseteq> set (function_list s')" "scope s' = scope s"
  shows "outside s'"
  using assms(1,2,5) everywhere_mono [OF _ assms(3,4)] by (simp add: outside_def)

lemma visit_fun_decl_outside:
  assumes out: "outside s" and visit: "visit_fun_decl d s = Inr s'" and scope: "scope s \<noteq> []"
  shows "outside s'"
proof -
  let ?in = "\<lambda>b s. (set_insert_point b s)\<lparr>scope := enter (scope s), pre_enter_scope := True\<rparr>"
  from visit obtain f s1 s2 b s3 s4 s5 t s6 where p:
    "Function_create (FunTy (return_ty (fd_type d)) (map param_type (fd_params d))) (fd_id d) s = Inr (f, s1)"
    "declare_name (fd_id d) (VFun f) s1 = Inr s2"
    "BasicBlock_create ''entry'' f (s2\<lparr>cur_fun := Some f\<rparr>) = Inr (b, s3)"
    "visit_params f 0 (fd_params d) (?in b s3) = Inr s4"
    "visit_statement (Compound (fd_locals d) (fd_body d)) s4 = Inr s5" "terminated s5 = Inr t"
    "(if t then Inr s5 else default_return s5) = Inr s6" "exit_scope s6 = Inr s'"
    by (auto simp: visit_fun_decl_def Let_def)
  have "settled s" using out by (simp add: outside_def)
  note f1 = Function_settled [OF this p(1)]
  have "outside s1" by (rule outside_step [OF out f1(1,2)]) (use f1(3) cg_more [OF f1(4)] in auto)
  then have o2: "outside s2" "function_list s2 = function_list s1"
    using declare_outside [OF _ _ p(2)] f1(3) by (auto simp: everywhere_def belongs_def)
  let ?s2 = "s2\<lparr>cur_fun := Some f\<rparr>"
  have "settled ?s2" using o2(1) by (simp add: outside_def)
  note b3 = block_settled [OF this p(3)]
  have more: "cur_fun s3 = Some f" "scope s3 = scope s2" using cg_more [OF b3(4)] by simp_all
  have o3: "outside s3" by (rule outside_step [OF o2(1) b3(1)]) (use b3(2,3) more in auto)
  let ?s = "?in b s3"
  have o: "\<And>x. (set_insert_point b s3)\<lparr>scope := x, pre_enter_scope := True\<rparr> = (set_insert_point b (s3\<lparr>scope := x, pre_enter_scope := True\<rparr>))"
    by (simp add: set_insert_point_def)
  have upd: "owner (s3\<lparr>scope := x, pre_enter_scope := True\<rparr>) = owner s3" for x by (simp add: owner_def [abs_def])
  have home: "in_home ?s"
    using o3 b3(3,5) o2(2) f1(3) more unfolding o in_home_def
    by (auto simp: home_def outside_def everywhere_def enter_def upd)
  have h4: "stays ?s s4" using visit_params_home [OF home] p(4) by (auto simp: step_home_def yields_def)
  have "step_home s4 (visit_statement (Compound (fd_locals d) (fd_body d)) s4)" by (rule visit_statement_home [OF stays_home [OF h4]])
  then have h5: "stays s4 s5" unfolding p(5) step_home_def yields_simps .
  then have h6: "stays s5 s6" using default_return_home [OF stays_home [OF h5]] p(7)
    by (cases t) (auto simp: step_home_def yields_def intro: stays_refl dest: stays_home)
  have sc: "scope s' = scope s3"
  proof -
    note s4 = visit_params_declared [OF p(4)]
    obtain s4a where p5: "visit_var_decls (fd_locals d) (s4\<lparr>pre_enter_scope := False\<rparr>) = Inr s4a" "visit_statements (fd_body d) s4a = Inr s5"
      using p(5) s4 by (auto simp: compound_enter_def compound_exit_def declared_def)
    note d4 = visit_var_decls_declared [OF p5(1)]
    have "framed s4a s5" using visit_statement_framed(2) [OF p5(2)] d4 by (simp add: declared_def)
    moreover have "framed s5 s6" using p(7) default_return_framed by (cases t) auto
    ultimately show ?thesis using p(8) d4 s4 by (auto simp: exit_scope_def framed_def declared_def enter_def)
  qed
  have s': "s' = s6\<lparr>scope := scope s3\<rparr>" using p(8) sc by (auto simp: exit_scope_def)
  have st: "stays ?s s6" using stays_trans [OF stays_trans [OF h4 h5] h6] .
  have "kept s3 s6" using st by (simp add: stays_def kept_def set_insert_point_def owner_def [abs_def] f_types_def [abs_def])
  moreover have "function_list s6 = function_list s3" using st by (simp add: stays_def set_insert_point_def)
  moreover have "settled s6" using stays_home [OF h6] by (simp add: in_home_def)
  ultimately show ?thesis
    using o3 everywhere_mono [of s3 _ s6] unfolding s' by (simp add: outside_def everywhere_def)
qed

lemma visit_decl_outside:
  assumes "outside s" and "visit_decl d s = Inr s'" and "length (scope s) = 1"
  shows "outside s'"
proof (cases d)
  case (FunDecl x)
  moreover have "scope s \<noteq> []" using assms(3) by auto
  ultimately show ?thesis using visit_fun_decl_outside [OF assms(1)] assms(2) by simp
next
  case (VarDecl x)
  then have "visit_var_decl x s = Inr s'" using assms(2) by simp
  then show ?thesis
  proof (rule visit_var_decl_Inr)
    fix t w s1
    assume p: "declare_name (vd_id x) w s1 = Inr s'"
      "if in_global (scope s) then GlobalVariable_create (vd_id x) t False (VConst (CZero t)) s = Inr (w, s1)
       else build (create_alloca t) s = Inr (w, s1)"
    then have g: "GlobalVariable_create (vd_id x) t False (VConst (CZero t)) s = Inr (w, s1)"
      using assms(3) by (simp add: in_global_def)
    have "settled s" using assms(1) by (simp add: outside_def)
    note d = global_settled [OF this g]
    have "outside s1" by (rule outside_step [OF assms(1) d(1,2)]) (use d(3) cg_more [OF d(4)] in auto)
    then show ?thesis using declare_outside(1) [OF _ _ p(1)] d(5) by (simp add: everywhere_def)
  qed
qed

lemma visit_program_outside:
  "visit_program ds s = Inr s' \<Longrightarrow> outside s \<Longrightarrow> quiet r B s \<Longrightarrow> length (scope s) = 1 \<Longrightarrow> \<not> pre_enter_scope s \<Longrightarrow> outside s'"
proof (induction ds s rule: visit_program.induct)
  case (2 d ds s)
  then obtain s1 where p: "visit_decl d s = Inr s1" "visit_program ds s1 = Inr s'" by auto
  show ?case using visit_decl_quiet [OF p(1) 2(4,5,6)] visit_decl_outside [OF 2(3) p(1) 2(5)] 2(1) [OF p] by blast
qed simp

lemma create_library_outside:
  "create_library fs s = Inr (vs, s') \<Longrightarrow> outside s \<Longrightarrow> outside s' \<and> set (function_list s) \<subseteq> set (function_list s') \<and>
     scope s' = scope s \<and> kept s s' \<and> (\<forall>(n, v) \<in> set vs. everywhere s' v)"
proof (induction fs s arbitrary: vs rule: create_library.induct)
  case (2 n t fs s)
  then obtain f s1 ws where p: "Function_create t n s = Inr (f, s1)" "create_library fs s1 = Inr (ws, s')" "vs = (n, VFun f) # ws"
    by auto
  have "settled s" using 2(3) by (simp add: outside_def)
  note f = Function_settled [OF this p(1)]
  have o1: "outside s1" by (rule outside_step [OF 2(3) f(1,2)]) (use f(3) cg_more [OF f(4)] in auto)
  note r = 2(1) [OF p(1) HOL.refl p(2) o1]
  have "everywhere s1 (VFun f)" using f(3) by (simp add: everywhere_def belongs_def)
  then have "everywhere s' (VFun f)" using r everywhere_mono by blast
  moreover have "scope s1 = scope s" using cg_more [OF f(4)] by simp
  ultimately show ?case using r p(3) f(2,3) kept_trans by auto
qed auto

lemma declare_names_outside:
  "declare_names vs s = Inr s' \<Longrightarrow> outside s \<Longrightarrow> \<forall>(n, v) \<in> set vs. everywhere s v \<Longrightarrow> outside s'"
proof (induction vs s rule: declare_names.induct)
  case (2 n v vs s)
  then obtain s1 where p: "declare_name n v s = Inr s1" "declare_names vs s1 = Inr s'" by auto
  note d = declare_outside [OF 2(3) _ p(1)]
  show ?case using 2(1) [OF p] d 2(4) everywhere_mono [of s _ s1] by fastforce
qed simp

lemma empty_settled: "outside empty_cg"
  by (simp add: outside_def settled_def fresh_ok_def empty_cg_def no_consts_def no_users_def ir.defs const_state.defs users.defs)

lemma init_builder_outside:
  assumes "init_builder = Inr s"
  shows "outside s"
proof -
  obtain vs s1 where p: "create_library library empty_cg = Inr (vs, s1)" "declare_names vs (s1\<lparr>scope := enter (scope s1)\<rparr>) = Inr s"
    using assms by (auto simp: init_builder_def)
  note l = create_library_outside [OF p(1) empty_settled]
  let ?s = "s1\<lparr>scope := enter (scope s1)\<rparr>"
  have "outside ?s" using l by (auto simp: outside_def everywhere_def enter_def)
  then show ?thesis using declare_names_outside [OF p(2)] l by (simp add: everywhere_def)
qed

text \<open>Every generated module is settled, and well formed.\<close>

lemma generate_settled:
  assumes "generate p = Inr s"
  shows "settled s" "ir_ok s"
proof -
  obtain s0 where s0: "init_builder = Inr s0" "visit_program p s0 = Inr s" using assms by (auto simp: generate_def)
  note i = init_builder_quiet [OF s0(1)]
  show "settled s" using visit_program_outside [OF s0(2) init_builder_outside [OF s0(1)]] i by (auto simp: outside_def)
  show "ir_ok s" using visit_program_quiet [OF s0(2), of s0 "{}"] i by (auto simp: quiet_def)
qed

end
