(* ===== verification/Complete_Code.thy ===== *)
theory Complete_Code
  imports Purity_Sound Code_Homes Codegen_Types
begin

text \<open>
  Every module that the code generator returns for a well-typed program is complete: the operands and
  the targets of the branches stay inside of their function, every call names a function of the
  module, and the analysis of pure functions ends on it. The passes' soundness theorems apply to such a
  module.
\<close>

section \<open>Operands and branches\<close>

lemma settledD:
  assumes "settled s" and "instrs s p = Some ins"
  shows "VNull \<notin> set (operands s (VInstr p))" "p \<in> set (ilist s (i_parent ins))"
    "i_op ins = Call \<Longrightarrow> \<exists>g vs. operands s (VInstr p) = VFun g # vs"
  using assms by (simp_all add: settled_def)

lemma code_ofD:
  assumes "heap_ok s" and "p \<in> code_of s f"
  obtains ins where "instrs s p = Some ins" "owner s (i_parent ins) = Some f"
proof -
  obtain b where b: "b \<in> set (fblocks s f)" "p \<in> set (ilist s b)" using assms(2) by (auto simp: code_of_def)
  then obtain ins where i: "instrs s p = Some ins" "i_parent ins = b" using assms(1) unfolding heap_ok_def by blast
  moreover have "owner s b = Some f" using b(1) assms(1) by (simp add: heap_ok_def)
  ultimately show thesis using that by simp
qed

lemma code_ofI:
  assumes "heap_ok s" and "settled s" and "instrs s p = Some ins" and "owner s (i_parent ins) = Some f"
  shows "p \<in> code_of s f"
proof -
  have "i_parent ins \<in> set (fblocks s f)" using assms(1,4) by (simp add: heap_ok_def)
  then show ?thesis using settledD(2) [OF assms(2,3)] by (auto simp: code_of_def)
qed

lemma settled_refs:
  assumes "settled s" and "heap_ok s"
  shows "refs_ok s"
  unfolding refs_ok_def
proof (intro conjI allI ballI impI)
  show "VNull \<notin> set (operands s (VInstr p))" for p
    using assms(1) settledD(1) [OF assms(1)] by (cases "instrs s p") (auto simp: settled_def)
  fix f p q assume p: "p \<in> code_of s f" and q: "VInstr q \<in> set (operands s (VInstr p))"
  obtain ins where i: "instrs s p = Some ins" "owner s (i_parent ins) = Some f" using code_ofD [OF assms(2) p] .
  obtain g where "owner s (i_parent ins) = Some g" "belongs s g (VInstr q)" using settled_owner [OF assms(1) i(1)] q by metis
  then show "q \<in> code_of s f" using i(2) code_ofI [OF assms(2,1)] by (auto simp: belongs_def)
qed

lemma settled_edges:
  assumes "settled s" and "heap_ok s" "cfg_ok s"
  shows "edges_inside s"
  unfolding edges_inside_def
proof (intro allI ballI subsetI)
  fix f b t assume b: "b \<in> set (fblocks s f)" and t: "t \<in> set (succs s b)"
  have own: "owner s b = Some f" using b assms(2) by (simp add: heap_ok_def)
  have t: "t \<in> set (br_targets s b)" using t assms(3) by (simp add: cfg_ok_def)
  then have p: "last (ilist s b) \<in> set (ilist s b)" "t \<in> set (br_edges (operands s (VInstr (last (ilist s b)))))"
    by (auto simp: br_targets_def split: if_splits)
  then obtain ins where i: "instrs s (last (ilist s b)) = Some ins" "i_parent ins = b" using assms(2) unfolding heap_ok_def by blast
  have "VBB t \<in> set (operands s (VInstr (last (ilist s b))))"
    using p(2) by (cases "operands s (VInstr (last (ilist s b)))" rule: br_edges.cases) auto
  then obtain g where "owner s b = Some g" "belongs s g (VBB t)" using settled_owner [OF assms(1) i(1)] i(2) by metis
  then show "t \<in> set (fblocks s f)" using own assms(2) by (simp add: belongs_def heap_ok_def)
qed

lemma settled_calls:
  assumes "settled s"
  shows "calls_known s"
  unfolding calls_known_def
proof (intro allI impI)
  fix p ins assume i: "instrs s p = Some ins" "i_op ins = Call"
  obtain g vs where g: "operands s (VInstr p) = VFun g # vs" using settledD(3) [OF assms i] by blast
  then have "\<exists>f. belongs s f (VFun g)" using settled_owner [OF assms i(1)] by (metis list.set_intros(1))
  then show "\<exists>f vs. operands s (VInstr p) = VFun f # vs \<and> f \<in> set (function_list s)" using g by (simp add: belongs_def)
qed

section \<open>The analysis ends\<close>

text \<open>The chain of addresses goes down.\<close>

definition rank :: "val \<Rightarrow> nat" where
  "rank v = (case v of VInstr p \<Rightarrow> Suc p | _ \<Rightarrow> 0)"

definition there :: "'z ir_scheme \<Rightarrow> val \<Rightarrow> bool" where
  "there s v \<longleftrightarrow> (\<forall>p. v = VInstr p \<longrightarrow> instrs s p \<noteq> None)"

lemma operand_there:
  assumes "settled s" and "instrs s p = Some ins" and "v \<in> set (operands s (VInstr p))"
  shows "there s v \<and> rank v < Suc p"
proof -
  obtain f where "belongs s f v" "\<And>q. v = VInstr q \<Longrightarrow> q < p" using settled_owner [OF assms(1,2)] assms(3) by metis
  then show ?thesis by (auto simp: there_def rank_def belongs_def split: val.splits)
qed

lemma first_pointer_returns:
  "types_of s vs ts \<Longrightarrow> \<exists>r. first_pointer s vs = Inr r \<and> (\<forall>v. r = Some v \<longrightarrow> v \<in> set vs)"
proof (induction vs arbitrary: ts)
  case (Cons v vs)
  then obtain t us where "get_type s v = Inr t" "types_of s vs us" by auto
  then show ?case using Cons.IH [of us] by fastforce
qed simp

lemma first_addr_returns:
  assumes s: "settled s" "typed s"
  shows "rank v < n \<Longrightarrow> there s v \<Longrightarrow> \<exists>a. first_addr n s v = Inr a \<and> there s a"
proof (induction n arbitrary: v)
  case (Suc n)
  show ?case
  proof (cases "\<exists>p. v = VInstr p")
    case True
    then obtain p ins where p: "v = VInstr p" "instrs s p = Some ins" using Suc.prems(2) by (auto simp: there_def)
    have down: "\<exists>a. first_addr n s w = Inr a \<and> there s a" if "w \<in> set (operands s (VInstr p))" for w
      using operand_there [OF s(1) p(2) that] Suc.prems(1) p(1) by (intro Suc.IH) (auto simp: rank_def)
    obtain ts r where t: "types_of s (operands s (VInstr p)) ts" "instr_typed r (i_op ins) (i_data ins) ts (i_type ins)"
      using typedD [OF s(2) p(2)] by blast
    consider "i_op ins = Alloca \<or> i_op ins = Load" | "i_op ins = Getelementptr" | "i_op ins \<notin> {Alloca, Load, Getelementptr}"
      by blast
    then show ?thesis
    proof cases
      case 1
      then show ?thesis using Suc.prems(2) p by auto
    next
      case 2
      then have "ts \<noteq> []" using t(2) by (cases "i_data ins") auto
      then obtain w ws where w: "operands s (VInstr p) = w # ws" using t(1) by (cases "operands s (VInstr p)") auto
      then show ?thesis using down [of w] p 2 by (simp add: get_operand_def)
    next
      case 3
      obtain r where r: "first_pointer s (operands s (VInstr p)) = Inr r" "\<forall>v. r = Some v \<longrightarrow> v \<in> set (operands s (VInstr p))"
        using first_pointer_returns [OF t(1)] by blast
      show ?thesis
      proof (cases r)
        case None
        then show ?thesis using 3 p r(1) Suc.prems(2) by simp
      next
        case (Some w)
        then show ?thesis using 3 p r down [of w] by simp
      qed
    qed
  qed (use Suc.prems(2) in \<open>auto split: val.split\<close>)
qed simp


lemma is_local_addr_returns:
  assumes "settled s" "typed s" and "there s v"
  shows "\<exists>l. is_local_addr s v = Inr l"
proof -
  have fr: "fresh_ok s" using assms(1) by (simp add: settled_def)
  have "p < next_id s" if "v = VInstr p" for p
    using assms(3) that fresh_okD(1) [OF fr, of p] by (cases "next_id s \<le> p") (auto simp: there_def)
  then have "rank v < Suc (Suc (next_id s))" by (auto simp: rank_def split: val.split)
  then obtain a where "get_first_addr s v = Inr a" "there s a"
    using first_addr_returns [OF assms(1,2) _ assms(3)] unfolding get_first_addr_def by blast
  then show ?thesis by (auto simp: is_local_addr_def there_def split: val.split)
qed

lemma local_operand_returns:
  assumes "settled s" "typed s" and "instrs s p = Some ins" and "i < length (operands s (VInstr p))"
  shows "\<exists>l. bnd (get_operand s (VInstr p) i) (is_local_addr s) = Inr l"
  using is_local_addr_returns [OF assms(1,2)] operand_there [OF assms(1,3)] assms(4) by (simp add: get_operand_def)

lemma side_effect_returns:
  assumes "settled s" "typed s" and "instrs s p = Some ins"
  shows "\<exists>e. is_side_effect_inst s p = Inr e"
proof -
  obtain ts r where t: "types_of s (operands s (VInstr p)) ts" "instr_typed r (i_op ins) (i_data ins) ts (i_type ins)"
    using typedD [OF assms(2,3)] by blast
  have len: "length (operands s (VInstr p)) = length ts" using t(1) by (simp add: types_of_def list_all2_lengthD)
  have "\<exists>l. is_local_store s p = Inr l" if "i_op ins = Store"
    unfolding is_local_store_def using local_operand_returns [OF assms, of 1] that t(2) len by (auto split: list.splits)
  moreover have "\<exists>l. is_local_load s p = Inr l" if "i_op ins = Load"
    unfolding is_local_load_def using local_operand_returns [OF assms, of 0] that t(2) len by auto
  ultimately show ?thesis using assms(3) by (auto simp: is_side_effect_inst_def)
qed

lemma any_side_effect_returns:
  assumes "settled s" "typed s"
  shows "\<forall>p \<in> set ps. instrs s p \<noteq> None \<Longrightarrow> \<exists>e. any_side_effect s ps = Inr e"
proof (induction ps)
  case (Cons p ps)
  then obtain e d where "is_side_effect_inst s p = Inr e" "any_side_effect s ps = Inr d" using side_effect_returns [OF assms] by fastforce
  then show ?case by (auto intro: exI [of _ True])
qed (auto intro: exI [of _ False])

lemma block_side_effect_returns:
  assumes "settled s" "typed s" "heap_ok s"
  shows "\<forall>b \<in> set bs. owner s b \<noteq> None \<Longrightarrow> \<exists>e. block_side_effect s bs = Inr e"
proof (induction bs)
  case (Cons b bs)
  then obtain k where k: "blocks s b = Some k" by (auto simp: owner_def)
  have "\<exists>ins. instrs s p = Some ins" if "p \<in> set (ilist s b)" for p using assms(3) that unfolding heap_ok_def by blast
  then have "\<forall>p \<in> set (instr_list k). instrs s p \<noteq> None" using k by (auto simp: ilist_def)
  then obtain e d where "any_side_effect s (instr_list k) = Inr e" "block_side_effect s bs = Inr d"
    using any_side_effect_returns [OF assms(1,2)] Cons by fastforce
  then show ?case using k by (auto intro: exI [of _ True])
qed (auto intro: exI [of _ False])

lemma settled_analysable:
  assumes "settled s" "typed s" "ir_ok s"
  shows "analysable s"
  unfolding analysable_def
proof
  fix f assume f: "f \<in> set (function_list s)"
  have h: "heap_ok s" "use_def_ok s" using assms(3) by (simp_all add: ir_ok_def)
  obtain fn r as where fn: "funs s f = Some fn" "f_type fn = FunTy r as" using assms(1) f unfolding settled_def by meson
  have "owner s b = Some f" if "b \<in> set (basic_blocks fn)" for b using h(1) fn(1) that by (simp add: heap_ok_def fblocks_def)
  then have "\<exists>b. trivial_mark s f = Inr b"
    using block_side_effect_returns [OF assms(1,2) h(1), of "basic_blocks fn"] fn by (auto simp: trivial_mark_def)
  moreover have "\<exists>g \<in> set (function_list s). get_function s p = Inr g" if u: "(VInstr p, i) \<in> set (use_list s (VFun f))" for p i
  proof -
    have "i < length (operands s (VInstr p))" using u h(2) by (auto simp: use_def_ok_def uses_of_def)
    then obtain ins where "instrs s p = Some ins" using assms(1) by (cases "instrs s p") (auto simp: settled_def)
    moreover from this obtain g where "owner s (i_parent ins) = Some g" "g \<in> set (function_list s)" using settled_owner [OF assms(1)] by metis
    ultimately show ?thesis by (auto simp: get_function_def owner_def)
  qed
  ultimately show "(\<exists>b. trivial_mark s f = Inr b) \<and> uses_resolved s (use_list s (VFun f))" by (simp add: uses_resolved_def)
qed

section \<open>Generated modules\<close>

lemma settled_complete: "settled s \<Longrightarrow> typed s \<Longrightarrow> ir_ok s \<Longrightarrow> complete_module s"
  using settled_refs settled_edges settled_calls settled_analysable
  by (auto simp: complete_module_def ir_ok_def globals_ok_def) (auto simp: settled_def)

lemma generate_complete:
  assumes "well_typed p" and "generate p = Inr s"
  shows "complete_module s"
proof -
  obtain s0 where s0: "init_builder = Inr s0" "ready library_env s0"
    using init_builder_ready by (rule returnsE)
  obtain s' E where s: "visit_program p s0 = Inr s'" "ready E s'"
    using visit_program_ready [OF s0(2) assms(1) [unfolded well_typed_def]] by (auto simp: returns_def)
  have "s' = s" using s(1) assms(2) by (simp add: generate_def s0(1))
  then have "typed s" using s(2) by (simp add: ready_def sound_def)
  then show ?thesis using settled_complete generate_settled [OF assms(2)] by blast
qed

end
