(* ===== verification/Optimised_Program.thy ===== *)
theory Optimised_Program
  imports Simulation_Program Dead_Code_Sound Complete_Code
begin

text \<open>
  The compiler with its first two passes: what a program does in the interpreter of the source, the
  generated module still does after the analysis of pure functions and dead code elimination.
\<close>

lemma optimised_runs:
  assumes "well_typed p" and "lit_program (\<lambda>x. x \<noteq> 2 ^ 31) p" and "run_program ValueFirst n p is = Some (out, v)"
  obtains s where "generate p = Inr s" "complete_module s" "module_runs s is out v" "\<And>ob i. v \<noteq> Some (PtrV ob i)"
proof -
  obtain s where s: "generate p = Inr s" "module_runs s is out v" "\<And>ob i. v \<noteq> Some (PtrV ob i)"
    using generate_runs [OF assms] by blast
  show thesis by (rule that [OF s(1) generate_complete [OF assms(1) s(1)] s(2,3)])
qed

text \<open>C3: code generation followed by dead code elimination. A well-typed program without the literal minus
  zero whose run does not depend on the order of its assignments is translated, the pass returns
  on the module, and the module that is left still prints \<open>out\<close> and ends with \<open>v\<close>, or by the handler of
  negative indices, as the interpreter of the source says.\<close>

theorem optimised_simulates:
  assumes "well_typed p" and "lit_program (\<lambda>x. x \<noteq> 2 ^ 31) p" and "\<And>ao. run_program ao n p is = Some (out, v)"
  shows "\<exists>s s' k. generate p = Inr s \<and> DeadCode_run s = Inr (s', k) \<and> module_runs s' is out v"
proof -
  obtain s where s: "generate p = Inr s" "complete_module s" "module_runs s is out v" "\<And>ob i. v \<noteq> Some (PtrV ob i)"
    using optimised_runs [OF assms] by blast
  obtain s' k where "DeadCode_run s = Inr (s', k)" "module_runs s' is out v" using keeps_runs [OF s(2-4)] .
  with s(1) show ?thesis by blast
qed

theorem optimised_simulates_witness:
  "\<exists>s s' k. generate sample_run = Inr s \<and> DeadCode_run s = Inr (s', k) \<and>
     module_runs s' [2] [PrintInt 4, PrintInt 2, PrintNegIndex] None"
  by (rule optimised_simulates [OF sample_run_typed sample_lit sample_run_result])

text \<open>The pass alone, on the module of \<open>sample_order\<close>.\<close>

theorem DeadCode_keeps_runs_witness:
  "\<exists>s s' n. generate sample_order = Inr s \<and> DeadCode_run s = Inr (s', n) \<and> module_runs s' [] [PrintInt 5] (Some (IntV 0))"
proof -
  have "run_program ValueFirst 5 sample_order [] = Some ([PrintInt 5], Some (IntV 0))"
    by (rule order_free_run [OF sample_order_ok(3) sample_order_result])
  then obtain s where s: "generate sample_order = Inr s" "complete_module s" "module_runs s [] [PrintInt 5] (Some (IntV 0))"
    using optimised_runs [OF sample_order_ok(1,2)] by blast
  from DeadCode_keeps_runs [OF s(2,3)] s(1) show ?thesis by blast
qed

end
