(* ===== verification/Syntax_Tree.thy ===== *)
theory Syntax_Tree
  imports Ast
begin

text \<open>
  The concrete syntax tree that the parser builds (\<open>include/syntax_tree.h\<close>,
  \<open>common/syntax_tree.c\<close>, the helper \<open>node\<close> of \<open>parser/syntax_analyzer.y\<close>) and its
  printer. The parser only ever adds finished children, so the linked nodes are a tree.
\<close>

section \<open>Nodes\<close>

text \<open>A node has a name of at most 30 characters, filled by \<open>strncpy\<close>, and an array of 10
  children. A name of 30 characters or more has no terminating zero: comparing it with a shorter
  string is fine, reading it as a whole string runs past the array.\<close>

datatype cst = Node (nname: string) (kids: "cst list")

definition new_syntax_tree_node :: "string \<Rightarrow> cst" where
  "new_syntax_tree_node name = Node (take 30 name) []"

definition syntax_tree_add_child :: "cst \<Rightarrow> cst \<Rightarrow> cst res" where
  "syntax_tree_add_child p c =
     bnd (ensure (length (kids p) < 10) OutOfBounds) (\<lambda>_. Inr (Node (nname p) (kids p @ [c])))"

definition read_name :: "cst \<Rightarrow> string res" where
  "read_name n = bnd (ensure (length (nname n) < 30) OutOfBounds) (\<lambda>_. Inr (nname n))"

text \<open>\<open>children[i]\<close>: the array is not initialised past \<open>children_num\<close>.\<close>

definition child :: "cst \<Rightarrow> nat \<Rightarrow> cst res" where
  "child n i = bnd (ensure (i < length (kids n)) OutOfBounds) (\<lambda>_. Inr (kids n ! i))"

fun add_children :: "cst \<Rightarrow> cst list \<Rightarrow> cst res" where
  "add_children p [] = Inr p"
| "add_children p (c # cs) = bnd (syntax_tree_add_child p c) (\<lambda>p. add_children p cs)"

text \<open>The parser's \<open>node\<close>: a node without children gets a child \<open>epsilon\<close>.\<close>

definition node :: "string \<Rightarrow> cst list \<Rightarrow> cst res" where
  "node name cs =
     (let p = new_syntax_tree_node name
      in if cs = [] then syntax_tree_add_child p (new_syntax_tree_node ''epsilon'')
         else add_children p cs)"

lemma add_children_eq:
  "length (kids p) + length cs \<le> 10 \<Longrightarrow> add_children p cs = Inr (Node (nname p) (kids p @ cs))"
proof (induction cs arbitrary: p)
  case (Cons c cs)
  then show ?case by (simp add: syntax_tree_add_child_def)
qed (cases p, simp)

lemma node_eq:
  "length cs \<le> 10 \<Longrightarrow> node name cs = Inr (Node (take 30 name) (if cs = [] then [Node ''epsilon'' []] else cs))"
  by (simp add: node_def new_syntax_tree_node_def add_children_eq syntax_tree_add_child_def Let_def)

lemma child_size [termination_simp]: "child n i = Inr c \<Longrightarrow> size c < size n"
  by (cases n) (auto simp: child_def bnd_eq_Inr_iff dest!: nth_mem size_list_estimation' [where f = size, OF _ order_refl])

section \<open>The printer\<close>

text \<open>\<open>print_syntax_tree_node\<close>: the line of the node, then its children one level deeper.\<close>

definition tree_line :: "nat \<Rightarrow> bool \<Rightarrow> string \<Rightarrow> string" where
  "tree_line level inner name =
     concat (replicate level ''|  '') @ ''>--'' @ (if inner then ''+'' else ''*'') @ '' '' @ name @ [CHR 10]"

fun print_syntax_tree_node :: "cst \<Rightarrow> nat \<Rightarrow> string" where
  "print_syntax_tree_node (Node name ts) level =
     tree_line level (ts \<noteq> []) name @ concat (map (\<lambda>t. print_syntax_tree_node t (Suc level)) ts)"

definition print_syntax_tree :: "cst \<Rightarrow> string" where
  "print_syntax_tree t = print_syntax_tree_node t 0"

end
