(* ===== verification/Ast_Transform.thy ===== *)
theory Ast_Transform
  imports Syntax_Tree
begin

text \<open>
  The construction of the abstract syntax from the parse tree (\<open>AST::transform_node_iter\<close> in
  \<open>common/ast.cpp\<close>): one definition per branch of its chain of comparisons. The branches
  take the recursive call as an argument; the last section ties the knot. The result is the node
  with its class, and each \<open>static_cast\<close> is a check of that class.
\<close>

section \<open>Literals: \<open>std::stoi\<close> and \<open>std::stof\<close>\<close>

definition is_space :: "char \<Rightarrow> bool" where
  "is_space c \<longleftrightarrow> c = CHR '' '' \<or> (9 \<le> (of_char c :: nat) \<and> of_char c \<le> (13 :: nat))"

text \<open>The sign, if any, and the rest.\<close>

fun read_sign :: "string \<Rightarrow> bool \<times> string" where
  "read_sign (c # s) = (if c = CHR ''-'' then (True, s) else if c = CHR ''+'' then (False, s) else (False, c # s))"
| "read_sign [] = (False, [])"

text \<open>\<open>std::stoi\<close> reads the longest prefix that is a decimal integer.\<close>

definition stoi :: "string \<Rightarrow> 32 word res" where
  "stoi s =
     (let (neg, r) = read_sign (dropWhile is_space s);
          ds = takeWhile is_digit r;
          v = (if neg then - int (read_nat ds) else int (read_nat ds))
      in bnd (ensure (ds \<noteq> []) InvalidArgument) (\<lambda>_.
         bnd (ensure (- (2 ^ 31) \<le> v \<and> v < 2 ^ 31) OutOfRange) (\<lambda>_. Inr (word_of_int v))))"

text \<open>
  \<open>std::stof\<close> on the decimal forms, digits with at most one point. The lexer produces no other
  (no exponent, no hexadecimal form, no names), so those are not modelled. A result that overflows,
  or that is subnormal and inexact, makes the library report a range error.
\<close>

definition decimal_parts :: "string \<Rightarrow> string \<times> string" where
  "decimal_parts r =
     (let i = takeWhile is_digit r; q = dropWhile is_digit r
      in case q of
           [] \<Rightarrow> (i, [])
         | c # q' \<Rightarrow> if c = CHR ''.'' then (i, takeWhile is_digit q') else (i, []))"

text \<open>Whether the finite float is exactly the quotient.\<close>

definition exactly :: "float32 \<Rightarrow> nat \<Rightarrow> nat \<Rightarrow> bool" where
  "exactly v n d \<longleftrightarrow>
     (if f_exp v = 0 then f_frac v * d = n * 2 ^ 149 else True)"

definition stof :: "string \<Rightarrow> float32 res" where
  "stof s =
     (let (neg, r) = read_sign (dropWhile is_space s);
          (i, f) = decimal_parts r;
          n = read_nat (i @ f); d = 10 ^ length f;
          v = round_float neg n d
      in bnd (ensure (i \<noteq> [] \<or> f \<noteq> []) InvalidArgument) (\<lambda>_.
         bnd (ensure (f_exp v \<noteq> 255 \<and> exactly v n d) OutOfRange) (\<lambda>_. Inr v)))"

section \<open>Nodes with their class\<close>

datatype ast_node =
    AProgram program
  | ADecl decl
  | AParam param
  | AStmt statement
  | AExpr expression
  | AVar avar
  | AAdditive additive
  | ATerm aterm
  | ACall string "expression list"
  | ANum num

fun as_program :: "ast_node \<Rightarrow> program res" where
  "as_program (AProgram p) = Inr p"
| "as_program _ = Inl BadCast"

fun as_decl :: "ast_node \<Rightarrow> decl res" where
  "as_decl (ADecl d) = Inr d"
| "as_decl _ = Inl BadCast"

fun as_var_decl :: "ast_node \<Rightarrow> var_decl res" where
  "as_var_decl (ADecl (VarDecl d)) = Inr d"
| "as_var_decl _ = Inl BadCast"

fun as_param :: "ast_node \<Rightarrow> param res" where
  "as_param (AParam p) = Inr p"
| "as_param _ = Inl BadCast"

fun as_compound :: "ast_node \<Rightarrow> (var_decl list \<times> statement list) res" where
  "as_compound (AStmt (Compound ds ss)) = Inr (ds, ss)"
| "as_compound _ = Inl BadCast"

fun as_statement :: "ast_node \<Rightarrow> statement res" where
  "as_statement (AStmt s) = Inr s"
| "as_statement _ = Inl BadCast"

fun as_expression :: "ast_node \<Rightarrow> expression res" where
  "as_expression (AExpr e) = Inr e"
| "as_expression _ = Inl BadCast"

fun as_var :: "ast_node \<Rightarrow> avar res" where
  "as_var (AVar v) = Inr v"
| "as_var _ = Inl BadCast"

fun as_additive :: "ast_node \<Rightarrow> additive res" where
  "as_additive (AAdditive a) = Inr a"
| "as_additive _ = Inl BadCast"

fun as_term :: "ast_node \<Rightarrow> aterm res" where
  "as_term (ATerm t) = Inr t"
| "as_term _ = Inl BadCast"

text \<open>\<open>ASTFactor\<close> is a base of expressions, variables, calls and numbers.\<close>

fun as_factor :: "ast_node \<Rightarrow> factor res" where
  "as_factor (AExpr e) = Inr (FExpr e)"
| "as_factor (AVar v) = Inr (FVar v)"
| "as_factor (ACall n es) = Inr (FCall n es)"
| "as_factor (ANum n) = Inr (FNum n)"
| "as_factor _ = Inl BadCast"

section \<open>The loops that flatten left-recursive lists\<close>

text \<open>While the node has \<open>k\<close> children, keep child \<open>j\<close> and go on with the first child. The
  stack of the source gives the kept nodes back in the order of the text; the node where the loop
  stops comes with them.\<close>

fun walk :: "nat \<Rightarrow> nat \<Rightarrow> cst \<Rightarrow> cst list \<times> cst" where
  "walk k j (Node s []) = ([], Node s [])"
| "walk k j (Node s (t # ts)) =
     (if Suc (length ts) = k
      then let (xs, l) = walk k j t in (xs @ [(t # ts) ! j], l)
      else ([], Node s (t # ts)))"

definition walk_first :: "nat \<Rightarrow> nat \<Rightarrow> cst \<Rightarrow> cst list res" where
  "walk_first k j l = (let (xs, l) = walk k j l in bnd (child l 0) (\<lambda>f. Inr (f # xs)))"

text \<open>Transform and cast each node of a list.\<close>

fun each :: "(cst \<Rightarrow> ast_node res) \<Rightarrow> (ast_node \<Rightarrow> 'a res) \<Rightarrow> cst list \<Rightarrow> 'a list res" where
  "each rec cast [] = Inr []"
| "each rec cast (c # cs) =
     bnd (rec c) (\<lambda>a. bnd (cast a) (\<lambda>x. bnd (each rec cast cs) (\<lambda>xs. Inr (x # xs))))"

section \<open>The branches\<close>

definition sub :: "(cst \<Rightarrow> ast_node res) \<Rightarrow> (ast_node \<Rightarrow> 'a res) \<Rightarrow> cst \<Rightarrow> nat \<Rightarrow> 'a res" where
  "sub rec cast n i = bnd (child n i) (\<lambda>c. bnd (rec c) cast)"

definition transform_program :: "(cst \<Rightarrow> ast_node res) \<Rightarrow> cst \<Rightarrow> ast_node res" where
  "transform_program rec n =
     bnd (child n 0) (\<lambda>l.
     bnd (walk_first 2 1 l) (\<lambda>cs.
     bnd (each rec as_decl cs) (\<lambda>ds. Inr (AProgram ds))))"

text \<open>The name below \<open>children[i]->children[0]\<close>: a type specifier or an operator.\<close>

definition inner_name :: "cst \<Rightarrow> nat \<Rightarrow> string res" where
  "inner_name n i = bnd (child n i) (\<lambda>c. bnd (child c 0) (\<lambda>d. Inr (nname d)))"

definition name_of_child :: "cst \<Rightarrow> nat \<Rightarrow> string res" where
  "name_of_child n i = bnd (child n i) read_name"

definition transform_var_declaration :: "cst \<Rightarrow> ast_node res" where
  "transform_var_declaration n =
     bnd (inner_name n 0) (\<lambda>t.
     let ty = (if t = ''int'' then TYPE_INT else TYPE_FLOAT)
     in if length (kids n) = 3 then
          bnd (name_of_child n 1) (\<lambda>i. Inr (ADecl (VarDecl \<lparr>vd_type = ty, vd_id = i, vd_num = None\<rparr>)))
        else if length (kids n) = 6 then
          bnd (name_of_child n 1) (\<lambda>i.
          bnd (name_of_child n 3) (\<lambda>d.
          bnd (stoi d) (\<lambda>v. Inr (ADecl (VarDecl \<lparr>vd_type = ty, vd_id = i, vd_num = Some v\<rparr>)))))
        else Inl Abort)"

definition param_nodes :: "cst \<Rightarrow> cst list res" where
  "param_nodes n =
     bnd (child n 3) (\<lambda>p.
     bnd (child p 0) (\<lambda>l.
     if kids l = [] then Inr [] else walk_first 3 2 l))"

definition transform_fun_declaration :: "(cst \<Rightarrow> ast_node res) \<Rightarrow> cst \<Rightarrow> ast_node res" where
  "transform_fun_declaration rec n =
     bnd (inner_name n 0) (\<lambda>t.
     let ty = (if t = ''int'' then TYPE_INT else if t = ''float'' then TYPE_FLOAT else TYPE_VOID)
     in bnd (name_of_child n 1) (\<lambda>i.
        bnd (param_nodes n) (\<lambda>cs.
        bnd (each rec as_param cs) (\<lambda>ps.
        bnd (sub rec as_compound n 5) (\<lambda>(ds, ss).
        Inr (ADecl (FunDecl \<lparr>fd_type = ty, fd_id = i, fd_params = ps, fd_locals = ds, fd_body = ss\<rparr>)))))))"

definition transform_param :: "cst \<Rightarrow> ast_node res" where
  "transform_param n =
     bnd (inner_name n 0) (\<lambda>t.
     bnd (name_of_child n 1) (\<lambda>i.
     Inr (AParam \<lparr>p_type = (if t = ''int'' then TYPE_INT else TYPE_FLOAT), p_id = i,
       p_isarray = (length (kids n) > 2)\<rparr>)))"

definition list_nodes :: "cst \<Rightarrow> nat \<Rightarrow> cst list res" where
  "list_nodes n i = bnd (child n i) (\<lambda>l. Inr (if length (kids l) = 2 then fst (walk 2 1 l) else []))"

definition transform_compound :: "(cst \<Rightarrow> ast_node res) \<Rightarrow> cst \<Rightarrow> ast_node res" where
  "transform_compound rec n =
     bnd (list_nodes n 1) (\<lambda>cs.
     bnd (each rec as_var_decl cs) (\<lambda>ds.
     bnd (list_nodes n 2) (\<lambda>cs.
     bnd (each rec as_statement cs) (\<lambda>ss. Inr (AStmt (Compound ds ss))))))"

definition transform_expression_stmt :: "(cst \<Rightarrow> ast_node res) \<Rightarrow> cst \<Rightarrow> ast_node res" where
  "transform_expression_stmt rec n =
     (if length (kids n) = 2
      then bnd (sub rec as_expression n 0) (\<lambda>e. Inr (AStmt (ExprStmt (Some e))))
      else Inr (AStmt (ExprStmt None)))"

definition transform_selection_stmt :: "(cst \<Rightarrow> ast_node res) \<Rightarrow> cst \<Rightarrow> ast_node res" where
  "transform_selection_stmt rec n =
     bnd (sub rec as_expression n 2) (\<lambda>e.
     bnd (sub rec as_statement n 4) (\<lambda>s.
     if length (kids n) = 7
     then bnd (sub rec as_statement n 6) (\<lambda>s'. Inr (AStmt (Selection e s (Some s'))))
     else Inr (AStmt (Selection e s None))))"

definition transform_iteration_stmt :: "(cst \<Rightarrow> ast_node res) \<Rightarrow> cst \<Rightarrow> ast_node res" where
  "transform_iteration_stmt rec n =
     bnd (sub rec as_expression n 2) (\<lambda>e.
     bnd (sub rec as_statement n 4) (\<lambda>s. Inr (AStmt (Iteration e s))))"

definition transform_return_stmt :: "(cst \<Rightarrow> ast_node res) \<Rightarrow> cst \<Rightarrow> ast_node res" where
  "transform_return_stmt rec n =
     (if length (kids n) = 3
      then bnd (sub rec as_expression n 1) (\<lambda>e. Inr (AStmt (Return (Some e))))
      else Inr (AStmt (Return None)))"

definition transform_expression :: "(cst \<Rightarrow> ast_node res) \<Rightarrow> cst \<Rightarrow> ast_node res" where
  "transform_expression rec n =
     (if length (kids n) = 1 then bnd (child n 0) rec
      else bnd (sub rec as_var n 0) (\<lambda>v.
           bnd (sub rec as_expression n 2) (\<lambda>e. Inr (AExpr (AssignE v e)))))"

definition transform_var :: "(cst \<Rightarrow> ast_node res) \<Rightarrow> cst \<Rightarrow> ast_node res" where
  "transform_var rec n =
     bnd (name_of_child n 0) (\<lambda>i.
     if length (kids n) = 4
     then bnd (sub rec as_expression n 2) (\<lambda>e. Inr (AVar (VarIndex i e)))
     else Inr (AVar (Var i)))"

text \<open>The operators. \<open>new T()\<close> zero-initialises the node, so a name that matches none leaves
  the first member of the enumeration.\<close>

definition rel_op_of :: "string \<Rightarrow> rel_op" where
  "rel_op_of s =
     (if s = ''<='' then OP_LE else if s = ''<'' then OP_LT else if s = ''>'' then OP_GT
      else if s = ''>='' then OP_GE else if s = ''=='' then OP_EQ else if s = ''!='' then OP_NEQ
      else OP_LE)"

definition add_op_of :: "string \<Rightarrow> add_op" where
  "add_op_of s = (if s = ''+'' then OP_PLUS else if s = ''-'' then OP_MINUS else OP_PLUS)"

definition mul_op_of :: "string \<Rightarrow> mul_op" where
  "mul_op_of s = (if s = ''*'' then OP_MUL else if s = ''/'' then OP_DIV else OP_MUL)"

definition transform_simple_expression :: "(cst \<Rightarrow> ast_node res) \<Rightarrow> cst \<Rightarrow> ast_node res" where
  "transform_simple_expression rec n =
     bnd (sub rec as_additive n 0) (\<lambda>l.
     if length (kids n) = 3
     then bnd (inner_name n 1) (\<lambda>s.
          bnd (sub rec as_additive n 2) (\<lambda>r. Inr (AExpr (RelE l (rel_op_of s) r))))
     else Inr (AExpr (SimpleE l)))"

definition transform_additive_expression :: "(cst \<Rightarrow> ast_node res) \<Rightarrow> cst \<Rightarrow> ast_node res" where
  "transform_additive_expression rec n =
     (if length (kids n) = 3
      then bnd (sub rec as_additive n 0) (\<lambda>a.
           bnd (inner_name n 1) (\<lambda>s.
           bnd (sub rec as_term n 2) (\<lambda>t. Inr (AAdditive (AddBin a (add_op_of s) t)))))
      else bnd (sub rec as_term n 0) (\<lambda>t. Inr (AAdditive (AddTerm t))))"

definition transform_term :: "(cst \<Rightarrow> ast_node res) \<Rightarrow> cst \<Rightarrow> ast_node res" where
  "transform_term rec n =
     (if length (kids n) = 3
      then bnd (sub rec as_term n 0) (\<lambda>t.
           bnd (inner_name n 1) (\<lambda>s.
           bnd (sub rec as_factor n 2) (\<lambda>f. Inr (ATerm (TermBin t (mul_op_of s) f)))))
      else bnd (sub rec as_factor n 0) (\<lambda>f. Inr (ATerm (TermFactor f))))"

definition literal_text :: "cst \<Rightarrow> string res" where
  "literal_text c = bnd (child c 0) read_name"

definition transform_factor :: "(cst \<Rightarrow> ast_node res) \<Rightarrow> cst \<Rightarrow> ast_node res" where
  "transform_factor rec n =
     bnd (child n (if length (kids n) = 3 then 1 else 0)) (\<lambda>c.
     if nname c \<in> {''expression'', ''var'', ''call''} then rec c
     else if nname c = ''integer'' then
       bnd (literal_text c) (\<lambda>s. bnd (stoi s) (\<lambda>v. Inr (ANum (NumInt v))))
     else if nname c = ''float'' then
       bnd (literal_text c) (\<lambda>s. bnd (stof s) (\<lambda>v. Inr (ANum (NumFloat v))))
     else Inl Abort)"

definition transform_call :: "(cst \<Rightarrow> ast_node res) \<Rightarrow> cst \<Rightarrow> ast_node res" where
  "transform_call rec n =
     bnd (name_of_child n 0) (\<lambda>i.
     bnd (child n 2) (\<lambda>as.
     bnd (child as 0) (\<lambda>l.
     if nname l = ''arg-list''
     then bnd (walk_first 3 2 l) (\<lambda>cs. bnd (each rec as_expression cs) (\<lambda>es. Inr (ACall i es)))
     else Inr (ACall i []))))"

section \<open>The recursion\<close>

text \<open>The branches call the recursion on nodes below the given one only.\<close>

lemma kid_size: "t \<in> set (kids n) \<Longrightarrow> size t < size n"
  by (cases n) (auto dest!: size_list_estimation' [where f = size, OF _ order_refl])

lemma walk_sizes:
  "j < k \<Longrightarrow> (\<forall>c \<in> set (fst (walk k j l)). size c < size l) \<and> size (snd (walk k j l)) \<le> size l"
proof (induction k j l rule: walk.induct)
  case (2 k j s t ts)
  show ?case
  proof (cases "Suc (length ts) = k")
    case True
    have "size ((t # ts) ! j) < size (Node s (t # ts))"
      by (rule kid_size, simp only: cst.sel, rule nth_mem) (use 2(2) True in simp)
    moreover have "size t < size (Node s (t # ts))" by simp
    moreover note IH = 2(1) [OF True 2(2)]
    moreover have "walk k j (Node s (t # ts)) = (fst (walk k j t) @ [(t # ts) ! j], snd (walk k j t))"
      using True by (simp add: split_beta)
    ultimately show ?thesis by (auto simp del: cst.size walk.simps)
  qed simp
qed simp

lemma walk_first_size:
  assumes "j < k" "walk_first k j l = Inr cs" "c \<in> set cs"
  shows "size c < size l"
proof -
  obtain f where f: "child (snd (walk k j l)) 0 = Inr f" and cs: "cs = f # fst (walk k j l)"
    using assms(2) by (auto simp: walk_first_def split_beta Let_def)
  with assms walk_sizes [OF assms(1), of l] child_size [OF f] show ?thesis by auto
qed

lemmas walk_first_12 = walk_first_size [of 1 2, simplified]
lemmas walk_first_23 = walk_first_size [of 2 3, simplified]

lemma arg_nodes_size:
  "walk_first 3 2 l = Inr cs \<Longrightarrow> c \<in> set cs \<Longrightarrow> size l < size m \<Longrightarrow> size m < size n \<Longrightarrow> size c < size n"
  using walk_first_23 by (meson order_less_trans)

lemma list_nodes_size: "list_nodes n i = Inr cs \<Longrightarrow> c \<in> set cs \<Longrightarrow> size c < size n"
  using walk_sizes [of 1 2] by (auto simp: list_nodes_def split: if_splits dest!: child_size) (metis order_less_trans)

lemma param_nodes_size: "param_nodes n = Inr cs \<Longrightarrow> c \<in> set cs \<Longrightarrow> size c < size n"
  by (auto simp: param_nodes_def split: if_splits dest!: child_size walk_first_size [of 2 3, rotated])

lemma sub_cong:
  "(\<And>m. size m < size n \<Longrightarrow> rec m = rec' m) \<Longrightarrow> sub rec cast n i = sub rec' cast n i"
  unfolding sub_def by (auto intro!: bnd_cong dest: child_size)

lemma each_cong: "(\<And>c. c \<in> set cs \<Longrightarrow> rec c = rec' c) \<Longrightarrow> each rec cast cs = each rec' cast cs"
  by (induction cs) (auto intro!: bnd_cong)

lemma transform_program_cong [fundef_cong]:
  assumes "n = n'" and "\<And>m. size m < size n' \<Longrightarrow> rec m = rec' m"
  shows "transform_program rec n = transform_program rec' n'"
  using assms by (auto simp: transform_program_def intro!: bnd_cong sub_cong each_cong dest!: child_size dest: walk_first_12 walk_first_23 list_nodes_size param_nodes_size)

lemma transform_fun_declaration_cong [fundef_cong]:
  assumes "n = n'" and "\<And>m. size m < size n' \<Longrightarrow> rec m = rec' m"
  shows "transform_fun_declaration rec n = transform_fun_declaration rec' n'"
  using assms by (auto simp: transform_fun_declaration_def intro!: bnd_cong sub_cong each_cong dest!: child_size dest: walk_first_12 walk_first_23 list_nodes_size param_nodes_size)

lemma transform_compound_cong [fundef_cong]:
  assumes "n = n'" and "\<And>m. size m < size n' \<Longrightarrow> rec m = rec' m"
  shows "transform_compound rec n = transform_compound rec' n'"
  using assms by (auto simp: transform_compound_def intro!: bnd_cong sub_cong each_cong dest!: child_size dest: walk_first_12 walk_first_23 list_nodes_size param_nodes_size)

lemma transform_expression_stmt_cong [fundef_cong]:
  assumes "n = n'" and "\<And>m. size m < size n' \<Longrightarrow> rec m = rec' m"
  shows "transform_expression_stmt rec n = transform_expression_stmt rec' n'"
  using assms by (auto simp: transform_expression_stmt_def intro!: bnd_cong sub_cong each_cong dest!: child_size dest: walk_first_12 walk_first_23 list_nodes_size param_nodes_size)

lemma transform_selection_stmt_cong [fundef_cong]:
  assumes "n = n'" and "\<And>m. size m < size n' \<Longrightarrow> rec m = rec' m"
  shows "transform_selection_stmt rec n = transform_selection_stmt rec' n'"
  using assms by (auto simp: transform_selection_stmt_def intro!: bnd_cong sub_cong each_cong dest!: child_size dest: walk_first_12 walk_first_23 list_nodes_size param_nodes_size)

lemma transform_iteration_stmt_cong [fundef_cong]:
  assumes "n = n'" and "\<And>m. size m < size n' \<Longrightarrow> rec m = rec' m"
  shows "transform_iteration_stmt rec n = transform_iteration_stmt rec' n'"
  using assms by (auto simp: transform_iteration_stmt_def intro!: bnd_cong sub_cong each_cong dest!: child_size dest: walk_first_12 walk_first_23 list_nodes_size param_nodes_size)

lemma transform_return_stmt_cong [fundef_cong]:
  assumes "n = n'" and "\<And>m. size m < size n' \<Longrightarrow> rec m = rec' m"
  shows "transform_return_stmt rec n = transform_return_stmt rec' n'"
  using assms by (auto simp: transform_return_stmt_def intro!: bnd_cong sub_cong each_cong dest!: child_size dest: walk_first_12 walk_first_23 list_nodes_size param_nodes_size)

lemma transform_expression_cong [fundef_cong]:
  assumes "n = n'" and "\<And>m. size m < size n' \<Longrightarrow> rec m = rec' m"
  shows "transform_expression rec n = transform_expression rec' n'"
  using assms by (auto simp: transform_expression_def intro!: bnd_cong sub_cong each_cong dest!: child_size dest: walk_first_12 walk_first_23 list_nodes_size param_nodes_size)

lemma transform_var_cong [fundef_cong]:
  assumes "n = n'" and "\<And>m. size m < size n' \<Longrightarrow> rec m = rec' m"
  shows "transform_var rec n = transform_var rec' n'"
  using assms by (auto simp: transform_var_def intro!: bnd_cong sub_cong each_cong dest!: child_size dest: walk_first_12 walk_first_23 list_nodes_size param_nodes_size)

lemma transform_simple_expression_cong [fundef_cong]:
  assumes "n = n'" and "\<And>m. size m < size n' \<Longrightarrow> rec m = rec' m"
  shows "transform_simple_expression rec n = transform_simple_expression rec' n'"
  using assms by (auto simp: transform_simple_expression_def intro!: bnd_cong sub_cong each_cong dest!: child_size dest: walk_first_12 walk_first_23 list_nodes_size param_nodes_size)

lemma transform_additive_expression_cong [fundef_cong]:
  assumes "n = n'" and "\<And>m. size m < size n' \<Longrightarrow> rec m = rec' m"
  shows "transform_additive_expression rec n = transform_additive_expression rec' n'"
  using assms by (auto simp: transform_additive_expression_def intro!: bnd_cong sub_cong each_cong dest!: child_size dest: walk_first_12 walk_first_23 list_nodes_size param_nodes_size)

lemma transform_term_cong [fundef_cong]:
  assumes "n = n'" and "\<And>m. size m < size n' \<Longrightarrow> rec m = rec' m"
  shows "transform_term rec n = transform_term rec' n'"
  using assms by (auto simp: transform_term_def intro!: bnd_cong sub_cong each_cong dest!: child_size dest: walk_first_12 walk_first_23 list_nodes_size param_nodes_size)

lemma transform_factor_cong [fundef_cong]:
  assumes "n = n'" and "\<And>m. size m < size n' \<Longrightarrow> rec m = rec' m"
  shows "transform_factor rec n = transform_factor rec' n'"
  using assms by (auto simp: transform_factor_def intro!: bnd_cong sub_cong each_cong dest!: child_size dest: walk_first_12 walk_first_23 list_nodes_size param_nodes_size)

lemma transform_call_cong [fundef_cong]:
  assumes "n = n'" and "\<And>m. size m < size n' \<Longrightarrow> rec m = rec' m"
  shows "transform_call rec n = transform_call rec' n'"
  unfolding transform_call_def assms(1)
  by (auto intro!: bnd_cong each_cong assms(2) dest!: child_size dest: arg_nodes_size)

text \<open>\<open>transform_node_iter\<close>: the chain of comparisons with the name of the node. A node of
  an unknown name is an \<open>abort()\<close>.\<close>

function transform_node_iter :: "cst \<Rightarrow> ast_node res" where
  "transform_node_iter n =
     (if nname n = ''program'' then transform_program transform_node_iter n
      else if nname n = ''declaration'' then bnd (child n 0) transform_node_iter
      else if nname n = ''var-declaration'' then transform_var_declaration n
      else if nname n = ''fun-declaration'' then transform_fun_declaration transform_node_iter n
      else if nname n = ''param'' then transform_param n
      else if nname n = ''compound-stmt'' then transform_compound transform_node_iter n
      else if nname n = ''statement'' then bnd (child n 0) transform_node_iter
      else if nname n = ''expression-stmt'' then transform_expression_stmt transform_node_iter n
      else if nname n = ''selection-stmt'' then transform_selection_stmt transform_node_iter n
      else if nname n = ''iteration-stmt'' then transform_iteration_stmt transform_node_iter n
      else if nname n = ''return-stmt'' then transform_return_stmt transform_node_iter n
      else if nname n = ''expression'' then transform_expression transform_node_iter n
      else if nname n = ''var'' then transform_var transform_node_iter n
      else if nname n = ''simple-expression'' then transform_simple_expression transform_node_iter n
      else if nname n = ''additive-expression'' then transform_additive_expression transform_node_iter n
      else if nname n = ''term'' then transform_term transform_node_iter n
      else if nname n = ''factor'' then transform_factor transform_node_iter n
      else if nname n = ''call'' then transform_call transform_node_iter n
      else Inl Abort)"
  by pat_completeness auto
termination by (relation "measure size") (auto dest: child_size)

declare transform_node_iter.simps [simp del]

text \<open>The constructor of \<open>AST\<close>: the parser leaves \<open>root\<close> unset when it finds no
  program, so that the constructor reads an invalid pointer; \<open>None\<close> stands for it.\<close>

definition AST :: "cst option \<Rightarrow> program res" where
  "AST root = bnd (deref root) (\<lambda>n. bnd (transform_node_iter n) as_program)"

end
