(* ===== verification/Ast_Grammar.thy ===== *)
theory Ast_Grammar
  imports Ast_Transform
begin

text \<open>
  The parse trees that the grammar of \<open>parser/syntax_analyzer.y\<close> builds, and what
  \<open>AST\<close> makes of them: on every such tree it gives a program or stops with one of the two
  faults that literals and names can cause, and the tree of an abstract program gives that
  program back.
\<close>

section \<open>The grammar\<close>

text \<open>The productions by their symbol; a symbol without productions is a token.\<close>

definition grammar :: "(string \<times> string list list) list" where
  "grammar =
     [(''program'', [[''declaration-list'']]),
      (''declaration-list'', [[''declaration-list'', ''declaration''], [''declaration'']]),
      (''declaration'', [[''var-declaration''], [''fun-declaration'']]),
      (''var-declaration'',
        [[''type-specifier'', ''ID'', ''SEMICOLON''],
         [''type-specifier'', ''ID'', ''LSBRA'', ''INTEGER'', ''RSBRA'', ''SEMICOLON'']]),
      (''type-specifier'', [[''INT''], [''FLOAT''], [''VOID'']]),
      (''fun-declaration'', [[''type-specifier'', ''ID'', ''LPAR'', ''params'', ''RPAR'', ''compound-stmt'']]),
      (''params'', [[''param-list''], [''VOID'']]),
      (''param-list'', [[''param-list'', ''COMMA'', ''param''], [''param'']]),
      (''param'', [[''type-specifier'', ''ID''], [''type-specifier'', ''ID'', ''LSBRA'', ''RSBRA'']]),
      (''compound-stmt'', [[''LCBRA'', ''local-declarations'', ''statement-list'', ''RCBRA'']]),
      (''local-declarations'', [[''local-declarations'', ''var-declaration''], []]),
      (''statement-list'', [[''statement-list'', ''statement''], []]),
      (''statement'', [[''expression-stmt''], [''compound-stmt''], [''selection-stmt''],
         [''iteration-stmt''], [''return-stmt'']]),
      (''expression-stmt'', [[''expression'', ''SEMICOLON''], [''SEMICOLON'']]),
      (''selection-stmt'',
        [[''IF'', ''LPAR'', ''expression'', ''RPAR'', ''statement''],
         [''IF'', ''LPAR'', ''expression'', ''RPAR'', ''statement'', ''ELSE'', ''statement'']]),
      (''iteration-stmt'', [[''WHILE'', ''LPAR'', ''expression'', ''RPAR'', ''statement'']]),
      (''return-stmt'', [[''RETURN'', ''SEMICOLON''], [''RETURN'', ''expression'', ''SEMICOLON'']]),
      (''expression'', [[''var'', ''ASSIN'', ''expression''], [''simple-expression'']]),
      (''var'', [[''ID''], [''ID'', ''LSBRA'', ''expression'', ''RSBRA'']]),
      (''simple-expression'', [[''additive-expression'', ''relop'', ''additive-expression''], [''additive-expression'']]),
      (''relop'', [[''LESE''], [''LES''], [''GRE''], [''GREE''], [''EQUAL''], [''NEQUAL'']]),
      (''additive-expression'', [[''additive-expression'', ''addop'', ''term''], [''term'']]),
      (''addop'', [[''ADD''], [''SUB'']]),
      (''term'', [[''term'', ''mulop'', ''factor''], [''factor'']]),
      (''mulop'', [[''MUL''], [''DIV'']]),
      (''factor'', [[''LPAR'', ''expression'', ''RPAR''], [''var''], [''call''], [''integer''], [''float'']]),
      (''integer'', [[''INTEGER'']]),
      (''float'', [[''FLO'']]),
      (''call'', [[''ID'', ''LPAR'', ''args'', ''RPAR'']]),
      (''args'', [[''arg-list''], []]),
      (''arg-list'', [[''arg-list'', ''COMMA'', ''expression''], [''expression'']])]"

definition rules :: "string \<Rightarrow> string list list" where
  "rules s = (case map_of grammar s of None \<Rightarrow> [] | Some rs \<Rightarrow> rs)"

text \<open>The texts of the tokens, cut to the 30 characters that a node keeps.\<close>

definition is_letter :: "char \<Rightarrow> bool" where
  "is_letter c \<longleftrightarrow> (let n = of_char c :: nat in 65 \<le> n \<and> n \<le> 90 \<or> 97 \<le> n \<and> n \<le> 122)"

definition is_flo :: "string \<Rightarrow> bool" where
  "is_flo s = (let i = takeWhile is_digit s; q = dropWhile is_digit s
     in q \<noteq> [] \<and> hd q = CHR ''.'' \<and> list_all is_digit (tl q) \<and> (i \<noteq> [] \<or> tl q \<noteq> []))"

definition token_text :: "string \<Rightarrow> string option" where
  "token_text = map_of
     [(''ELSE'', ''else''), (''IF'', ''if''), (''INT'', ''int''), (''RETURN'', ''return''),
      (''VOID'', ''void''), (''WHILE'', ''while''), (''FLOAT'', ''float''), (''ADD'', ''+''),
      (''SUB'', ''-''), (''MUL'', ''*''), (''DIV'', ''/''), (''LES'', ''<''), (''LESE'', ''<=''),
      (''GRE'', ''>''), (''GREE'', ''>=''), (''EQUAL'', ''==''), (''NEQUAL'', ''!=''), (''ASSIN'', ''=''),
      (''SEMICOLON'', '';''), (''COMMA'', '',''), (''LPAR'', ''(''), (''RPAR'', '')''), (''LSBRA'', ''[''),
      (''RSBRA'', '']''), (''LCBRA'', ''{''), (''RCBRA'', ''}'')]"

definition lexes :: "string \<Rightarrow> string \<Rightarrow> bool" where
  "lexes t s \<longleftrightarrow> s \<noteq> [] \<and> length s \<le> 30 \<and>
     (case token_text t of
        Some u \<Rightarrow> s = u
      | None \<Rightarrow> if t = ''ID'' then list_all is_letter s
                else if t = ''INTEGER'' then list_all is_digit s
                else t = ''FLO'' \<and> (is_flo s \<or> length s = 30 \<and> list_all is_digit s))"

text \<open>The tree of a derivation from a symbol.\<close>

fun conforms :: "string \<Rightarrow> cst \<Rightarrow> bool" where
  "conforms s (Node n ts) \<longleftrightarrow>
     (if rules s = [] then ts = [] \<and> lexes s n
      else n = s \<and> (\<exists>r \<in> set (rules s).
        if r = [] then ts = [Node ''epsilon'' []] else list_all2 conforms r ts))"

declare conforms.simps [simp del]

text \<open>No name has been cut.\<close>

fun uncut :: "cst \<Rightarrow> bool" where
  "uncut (Node n ts) \<longleftrightarrow> length n < 30 \<and> list_all uncut ts"

section \<open>Every tree of the grammar is transformed\<close>

text \<open>What a step may leave: one of the allowed faults, or a value with the property.\<close>

definition gives :: "fault set \<Rightarrow> 'a res \<Rightarrow> ('a \<Rightarrow> bool) \<Rightarrow> bool" where
  "gives F r P \<longleftrightarrow> (case r of Inl f \<Rightarrow> f \<in> F | Inr x \<Rightarrow> P x)"

lemma gives_Inr [simp]: "gives F (Inr x) P \<longleftrightarrow> P x"
  by (simp add: gives_def)

lemma gives_bnd: "gives F m P \<Longrightarrow> (\<And>x. P x \<Longrightarrow> gives F (f x) Q) \<Longrightarrow> gives F (bnd m f) Q"
  by (cases m) (auto simp: gives_def)

lemma gives_mono: "gives F m P \<Longrightarrow> (\<And>x. P x \<Longrightarrow> Q x) \<Longrightarrow> gives F m Q"
  by (cases m) (auto simp: gives_def)

lemma gives_ensure [simp]: "gives F (ensure b e) P \<longleftrightarrow> (if b then P () else e \<in> F)"
  by (simp add: gives_def ensure_def)

lemma child_Node [simp]: "i < length ts \<Longrightarrow> child (Node n ts) i = Inr (ts ! i)"
  by (simp add: child_def)

text \<open>The class of the node that the tree of a symbol gives.\<close>

fun fits :: "string \<Rightarrow> ast_node \<Rightarrow> bool" where
  "fits s (AProgram p) \<longleftrightarrow> s = ''program'' \<and> p \<noteq> []"
| "fits s (ADecl (VarDecl d)) \<longleftrightarrow> s = ''var-declaration'' \<or> s = ''declaration''"
| "fits s (ADecl (FunDecl d)) \<longleftrightarrow> s = ''fun-declaration'' \<or> s = ''declaration''"
| "fits s (AParam p) \<longleftrightarrow> s = ''param''"
| "fits s (AStmt t) \<longleftrightarrow>
     s = ''statement'' \<or> s = ''expression-stmt'' \<or> s = ''selection-stmt'' \<or>
     s = ''iteration-stmt'' \<or> s = ''return-stmt'' \<or>
     s = ''compound-stmt'' \<and> (case t of Compound _ _ \<Rightarrow> True | _ \<Rightarrow> False)"
| "fits s (AExpr e) \<longleftrightarrow> s = ''expression'' \<or> s = ''simple-expression'' \<or> s = ''factor''"
| "fits s (AVar v) \<longleftrightarrow> s = ''var'' \<or> s = ''factor''"
| "fits s (AAdditive a) \<longleftrightarrow> s = ''additive-expression''"
| "fits s (ATerm t) \<longleftrightarrow> s = ''term''"
| "fits s (ACall i es) \<longleftrightarrow> s = ''call'' \<or> s = ''factor''"
| "fits s (ANum v) \<longleftrightarrow> s = ''factor''"

lemma grammar_distinct: "distinct (map fst grammar)"
  by code_simp

lemma grammar_no_tokens: "list_all (\<lambda>(s, rs). rs \<noteq> []) grammar"
  by code_simp

text \<open>The shape of the tree of each symbol, by its row of the grammar.\<close>

lemma grammar_row:
  assumes "k < length grammar"
  shows "conforms (fst (grammar ! k)) t \<longleftrightarrow>
     (\<exists>ts. t = Node (fst (grammar ! k)) ts \<and>
       (\<exists>r \<in> set (snd (grammar ! k)). if r = [] then ts = [Node ''epsilon'' []] else list_all2 conforms r ts))"
proof -
  obtain s rs where row: "grammar ! k = (s, rs)" "(s, rs) \<in> set grammar"
    using nth_mem [OF assms] by (metis prod.exhaust)
  have "map_of grammar s = Some rs" by (rule map_of_is_SomeI [OF grammar_distinct row(2)])
  moreover have "rs \<noteq> []" using grammar_no_tokens row(2) by (auto simp: list_all_iff)
  ultimately show ?thesis by (cases t) (auto simp: conforms.simps rules_def row(1))
qed

lemmas grammar_rows = grammar_row [unfolded grammar_def]

lemmas program_tree = grammar_rows [of 0, simplified]
lemmas declaration_list_tree = grammar_rows [of 1, simplified]
lemmas declaration_tree = grammar_rows [of 2, simplified]
lemmas var_declaration_tree = grammar_rows [of 3, simplified]
lemmas type_specifier_tree = grammar_rows [of 4, simplified]
lemmas fun_declaration_tree = grammar_rows [of 5, simplified]
lemmas params_tree = grammar_rows [of 6, simplified]
lemmas param_list_tree = grammar_rows [of 7, simplified]
lemmas param_tree = grammar_rows [of 8, simplified]
lemmas compound_stmt_tree = grammar_rows [of 9, simplified]
lemmas local_declarations_tree = grammar_rows [of 10, simplified]
lemmas statement_list_tree = grammar_rows [of 11, simplified]
lemmas statement_tree = grammar_rows [of 12, simplified]
lemmas expression_stmt_tree = grammar_rows [of 13, simplified]
lemmas selection_stmt_tree = grammar_rows [of 14, simplified]
lemmas iteration_stmt_tree = grammar_rows [of 15, simplified]
lemmas return_stmt_tree = grammar_rows [of 16, simplified]
lemmas expression_tree = grammar_rows [of 17, simplified]
lemmas var_tree = grammar_rows [of 18, simplified]
lemmas simple_expression_tree = grammar_rows [of 19, simplified]
lemmas relop_tree = grammar_rows [of 20, simplified]
lemmas additive_expression_tree = grammar_rows [of 21, simplified]
lemmas addop_tree = grammar_rows [of 22, simplified]
lemmas term_tree = grammar_rows [of 23, simplified]
lemmas mulop_tree = grammar_rows [of 24, simplified]
lemmas factor_tree = grammar_rows [of 25, simplified]
lemmas integer_tree = grammar_rows [of 26, simplified]
lemmas float_tree = grammar_rows [of 27, simplified]
lemmas call_tree = grammar_rows [of 28, simplified]
lemmas args_tree = grammar_rows [of 29, simplified]
lemmas arg_list_tree = grammar_rows [of 30, simplified]

lemma token_tree: "rules s = [] \<Longrightarrow> conforms s t \<longleftrightarrow> (\<exists>n. t = Node n [] \<and> lexes s n)"
  by (cases t) (auto simp: conforms.simps)

section \<open>One equation for each class of node\<close>

lemma transform_node_simps [simp]:
  "transform_node_iter (Node ''program'' ts) = transform_program transform_node_iter (Node ''program'' ts)"
  "transform_node_iter (Node ''declaration'' ts) = bnd (child (Node ''declaration'' ts) 0) transform_node_iter"
  "transform_node_iter (Node ''var-declaration'' ts) = transform_var_declaration (Node ''var-declaration'' ts)"
  "transform_node_iter (Node ''fun-declaration'' ts) = transform_fun_declaration transform_node_iter (Node ''fun-declaration'' ts)"
  "transform_node_iter (Node ''param'' ts) = transform_param (Node ''param'' ts)"
  "transform_node_iter (Node ''compound-stmt'' ts) = transform_compound transform_node_iter (Node ''compound-stmt'' ts)"
  "transform_node_iter (Node ''statement'' ts) = bnd (child (Node ''statement'' ts) 0) transform_node_iter"
  "transform_node_iter (Node ''expression-stmt'' ts) = transform_expression_stmt transform_node_iter (Node ''expression-stmt'' ts)"
  "transform_node_iter (Node ''selection-stmt'' ts) = transform_selection_stmt transform_node_iter (Node ''selection-stmt'' ts)"
  "transform_node_iter (Node ''iteration-stmt'' ts) = transform_iteration_stmt transform_node_iter (Node ''iteration-stmt'' ts)"
  "transform_node_iter (Node ''return-stmt'' ts) = transform_return_stmt transform_node_iter (Node ''return-stmt'' ts)"
  "transform_node_iter (Node ''expression'' ts) = transform_expression transform_node_iter (Node ''expression'' ts)"
  "transform_node_iter (Node ''var'' ts) = transform_var transform_node_iter (Node ''var'' ts)"
  "transform_node_iter (Node ''simple-expression'' ts) = transform_simple_expression transform_node_iter (Node ''simple-expression'' ts)"
  "transform_node_iter (Node ''additive-expression'' ts) = transform_additive_expression transform_node_iter (Node ''additive-expression'' ts)"
  "transform_node_iter (Node ''term'' ts) = transform_term transform_node_iter (Node ''term'' ts)"
  "transform_node_iter (Node ''factor'' ts) = transform_factor transform_node_iter (Node ''factor'' ts)"
  "transform_node_iter (Node ''call'' ts) = transform_call transform_node_iter (Node ''call'' ts)"
  by (subst transform_node_iter.simps, simp)+

section \<open>Lists\<close>

lemma walk_list:
  assumes L: "\<And>l. conforms L l \<Longrightarrow>
      (\<exists>l' sep d. l = Node L (l' # sep @ [d]) \<and> length sep + 2 = k \<and> conforms L l' \<and> conforms D d) \<or>
      (\<exists>e. l = Node L [e] \<and> Q e)"
    and k: "1 < k" and l: "conforms L l"
  shows "(\<forall>x \<in> set (fst (walk k (k - 1) l)). conforms D x \<and> (uncut l \<longrightarrow> uncut x)) \<and>
    (\<exists>e. snd (walk k (k - 1) l) = Node L [e] \<and> Q e \<and> (uncut l \<longrightarrow> uncut e))"
  using l
proof (induction l rule: measure_induct_rule [where f = size])
  case (less l)
  from L [OF less.prems] show ?case
  proof (elim disjE exE conjE)
    fix l' sep d assume *: "l = Node L (l' # sep @ [d])" "length sep + 2 = k" "conforms L l'" "conforms D d"
    have "walk k (k - 1) l = (fst (walk k (k - 1) l') @ [d], snd (walk k (k - 1) l'))"
      using * by (auto simp: split_beta nth_append)
    moreover note less.IH [OF _ *(3)]
    ultimately show ?thesis using *(1,4) by (auto simp del: walk.simps)
  next
    fix e assume "l = Node L [e]" "Q e"
    then show ?thesis using k by auto
  qed
qed

text \<open>The five lists: the tree of the list is a node with the list before, a separator and an
  element, or with the first element, or with the empty mark.\<close>

lemma list_shapes:
  "conforms ''declaration-list'' l \<Longrightarrow>
     (\<exists>l' sep d. l = Node ''declaration-list'' (l' # sep @ [d]) \<and> length sep + 2 = 2 \<and>
        conforms ''declaration-list'' l' \<and> conforms ''declaration'' d) \<or>
     (\<exists>e. l = Node ''declaration-list'' [e] \<and> conforms ''declaration'' e)"
  "conforms ''param-list'' l \<Longrightarrow>
     (\<exists>l' sep d. l = Node ''param-list'' (l' # sep @ [d]) \<and> length sep + 2 = 3 \<and>
        conforms ''param-list'' l' \<and> conforms ''param'' d) \<or>
     (\<exists>e. l = Node ''param-list'' [e] \<and> conforms ''param'' e)"
  "conforms ''arg-list'' l \<Longrightarrow>
     (\<exists>l' sep d. l = Node ''arg-list'' (l' # sep @ [d]) \<and> length sep + 2 = 3 \<and>
        conforms ''arg-list'' l' \<and> conforms ''expression'' d) \<or>
     (\<exists>e. l = Node ''arg-list'' [e] \<and> conforms ''expression'' e)"
  "conforms ''local-declarations'' l \<Longrightarrow>
     (\<exists>l' sep d. l = Node ''local-declarations'' (l' # sep @ [d]) \<and> length sep + 2 = 2 \<and>
        conforms ''local-declarations'' l' \<and> conforms ''var-declaration'' d) \<or>
     (\<exists>e. l = Node ''local-declarations'' [e] \<and> e = Node ''epsilon'' [])"
  "conforms ''statement-list'' l \<Longrightarrow>
     (\<exists>l' sep d. l = Node ''statement-list'' (l' # sep @ [d]) \<and> length sep + 2 = 2 \<and>
        conforms ''statement-list'' l' \<and> conforms ''statement'' d) \<or>
     (\<exists>e. l = Node ''statement-list'' [e] \<and> e = Node ''epsilon'' [])"
  using declaration_list_tree [of l] param_list_tree [of l] arg_list_tree [of l]
    local_declarations_tree [of l] statement_list_tree [of l]
  by (auto simp: list_all2_Cons1 length_Suc_conv numeral_2_eq_2 numeral_3_eq_3)

lemma walk_first_list:
  assumes "\<And>l. conforms L l \<Longrightarrow>
      (\<exists>l' sep d. l = Node L (l' # sep @ [d]) \<and> length sep + 2 = k \<and> conforms L l' \<and> conforms D d) \<or>
      (\<exists>e. l = Node L [e] \<and> conforms D e)"
    and "1 < k" and "conforms L l"
  shows "\<exists>cs. walk_first k (k - 1) l = Inr cs \<and> cs \<noteq> [] \<and> (\<forall>c \<in> set cs. conforms D c \<and> (uncut l \<longrightarrow> uncut c))"
  using walk_list [of L k D "conforms D", OF assms]
  by (fastforce simp: walk_first_def split_beta Let_def)

lemmas element_walks =
  walk_first_list [OF list_shapes(1), simplified]
  walk_first_list [OF list_shapes(2), simplified]
  walk_first_list [OF list_shapes(3), simplified]

lemma list_nodes_list:
  assumes "\<And>l. conforms L l \<Longrightarrow>
      (\<exists>l' sep d. l = Node L (l' # sep @ [d]) \<and> length sep + 2 = 2 \<and> conforms L l' \<and> conforms D d) \<or>
      (\<exists>e. l = Node L [e] \<and> e = Node ''epsilon'' [])"
    and "child n i = Inr l" and "conforms L l"
  shows "\<exists>cs. list_nodes n i = Inr cs \<and> (\<forall>c \<in> set cs. conforms D c \<and> (uncut l \<longrightarrow> uncut c))"
  using walk_list [of L 2 D "\<lambda>e. e = Node ''epsilon'' []", OF assms(1) _ assms(3)] assms(2)
  by (auto simp: list_nodes_def)

lemmas local_walks = list_nodes_list [OF list_shapes(4)] list_nodes_list [OF list_shapes(5)]

section \<open>The induction\<close>

definition classes :: "string set" where
  "classes = {''declaration'', ''var-declaration'', ''fun-declaration'', ''param'', ''compound-stmt'',
     ''statement'', ''expression-stmt'', ''selection-stmt'', ''iteration-stmt'', ''return-stmt'',
     ''expression'', ''var'', ''simple-expression'', ''additive-expression'', ''term'', ''factor'', ''call''}"

definition may_cut :: "fault set \<Rightarrow> cst \<Rightarrow> bool" where
  "may_cut F t \<longleftrightarrow> OutOfRange \<in> F \<and> (uncut t \<or> OutOfBounds \<in> F)"

definition below :: "fault set \<Rightarrow> cst \<Rightarrow> bool" where
  "below F t \<longleftrightarrow> may_cut F t \<and>
     (\<forall>s u. size u < size t \<longrightarrow> s \<in> classes \<longrightarrow> conforms s u \<longrightarrow> may_cut F u \<longrightarrow>
        gives F (transform_node_iter u) (fits s))"

lemma uncut_kid: "uncut t \<Longrightarrow> u \<in> set (kids t) \<Longrightarrow> uncut u"
  by (cases t) (simp add: list_all_iff)

lemma belowD:
  "below F t \<Longrightarrow> size u < size t \<Longrightarrow> s \<in> classes \<Longrightarrow> conforms s u \<Longrightarrow> (uncut t \<Longrightarrow> uncut u) \<Longrightarrow>
     gives F (transform_node_iter u) (fits s)"
  by (auto simp: below_def may_cut_def)

lemma gives_kid:
  assumes "below F t" "i < length (kids t)" "conforms s (kids t ! i)" "s \<in> classes"
  shows "gives F (transform_node_iter (kids t ! i)) (fits s)"
  using belowD [OF assms(1) kid_size assms(4,3)] assms(2) uncut_kid nth_mem by blast

lemma gives_sub:
  assumes "below F t" "i < length (kids t)" "conforms s (kids t ! i)" "s \<in> classes"
    and "\<And>a. fits s a \<Longrightarrow> \<exists>x. cast a = Inr x"
  shows "gives F (sub transform_node_iter cast t i) (\<lambda>_. True)"
  using gives_kid [OF assms(1-4)] assms(2,5)
  by (fastforce simp: sub_def child_def gives_def bnd_def split: sum.splits)

lemma gives_each:
  assumes "below F t" "s \<in> classes" "\<And>a. fits s a \<Longrightarrow> \<exists>x. cast a = Inr x"
    and "\<forall>c \<in> set cs. size c < size t \<and> conforms s c \<and> (uncut t \<longrightarrow> uncut c)"
  shows "gives F (each transform_node_iter cast cs) (\<lambda>xs. length xs = length cs)"
  using assms(4)
proof (induction cs)
  case (Cons c cs)
  have "gives F (transform_node_iter c) (fits s)"
    using belowD [OF assms(1)] assms(2) Cons.prems by simp
  then have "gives F (bnd (transform_node_iter c) cast) (\<lambda>_. True)"
    using assms(3) by (fastforce simp: gives_def bnd_def split: sum.splits)
  with Cons show ?case
    by (auto simp: gives_def bnd_def split: sum.splits)
qed simp

lemma fits_cast:
  "fits ''declaration'' a \<Longrightarrow> \<exists>x. as_decl a = Inr x"
  "fits ''var-declaration'' a \<Longrightarrow> \<exists>x. as_var_decl a = Inr x"
  "fits ''param'' a \<Longrightarrow> \<exists>x. as_param a = Inr x"
  "fits ''compound-stmt'' a \<Longrightarrow> \<exists>x. as_compound a = Inr x"
  "fits ''statement'' a \<Longrightarrow> \<exists>x. as_statement a = Inr x"
  "fits ''expression'' a \<Longrightarrow> \<exists>x. as_expression a = Inr x"
  "fits ''var'' a \<Longrightarrow> \<exists>x. as_var a = Inr x"
  "fits ''additive-expression'' a \<Longrightarrow> \<exists>x. as_additive a = Inr x"
  "fits ''term'' a \<Longrightarrow> \<exists>x. as_term a = Inr x"
  "fits ''factor'' a \<Longrightarrow> \<exists>x. as_factor a = Inr x"
  by (cases a rule: as_var_decl.cases; auto; fail | cases a rule: as_compound.cases; auto)+

text \<open>Leaves: names, specifiers and operators, literals.\<close>

lemma gives_name:
  assumes "below F t" "i < length (kids t)"
  shows "gives F (name_of_child t i) (\<lambda>s. s = nname (kids t ! i))"
proof (cases "uncut t")
  case True
  then have "uncut (kids t ! i)" using assms(2) uncut_kid nth_mem by blast
  then show ?thesis using assms(2)
    by (cases "kids t ! i") (simp add: name_of_child_def child_def read_name_def)
next
  case False
  then show ?thesis using assms
    by (auto simp: name_of_child_def child_def read_name_def below_def may_cut_def intro: gives_bnd)
qed

lemma one_kid:
  "conforms ''type-specifier'' u \<Longrightarrow> \<exists>d. child u 0 = Inr d"
  "conforms ''relop'' u \<Longrightarrow> \<exists>d. child u 0 = Inr d"
  "conforms ''addop'' u \<Longrightarrow> \<exists>d. child u 0 = Inr d"
  "conforms ''mulop'' u \<Longrightarrow> \<exists>d. child u 0 = Inr d"
  by (auto simp: type_specifier_tree relop_tree addop_tree mulop_tree list_all2_Cons1)

lemma gives_inner:
  assumes "i < length (kids t)" "\<exists>d. child (kids t ! i) 0 = Inr d"
  shows "gives F (inner_name t i) (\<lambda>_. True)"
  using assms by (auto simp: inner_name_def child_def)

lemma digit_no_space: "is_digit c \<Longrightarrow> \<not> is_space c \<and> c \<noteq> CHR ''-'' \<and> c \<noteq> CHR ''+'' \<and> c \<noteq> CHR ''.''"
  by (auto simp: is_digit_def is_space_def)

lemma digits_read [simp]:
  assumes "list_all is_digit s"
  shows "dropWhile is_space s = s" and "read_sign s = (False, s)"
    and "takeWhile is_digit s = s" and "dropWhile is_digit s = []"
  using assms by (cases s; auto simp: digit_no_space list_all_iff takeWhile_eq_all_conv)+

lemma gives_stoi: "list_all is_digit s \<Longrightarrow> s \<noteq> [] \<Longrightarrow> OutOfRange \<in> F \<Longrightarrow> gives F (stoi s) (\<lambda>_. True)"
  by (auto simp: stoi_def Let_def intro!: gives_bnd)

lemma flo_parts:
  assumes "is_flo s"
  shows "dropWhile is_space s = s" and "read_sign s = (False, s)"
    and "\<exists>i f. decimal_parts s = (i, f) \<and> (i \<noteq> [] \<or> f \<noteq> [])"
proof -
  have s: "s = takeWhile is_digit s @ dropWhile is_digit s" by simp
  obtain q where q: "dropWhile is_digit s = CHR ''.'' # q" "list_all is_digit q" "takeWhile is_digit s \<noteq> [] \<or> q \<noteq> []"
    using assms by (cases "dropWhile is_digit s") (auto simp: is_flo_def Let_def)
  obtain c s' where c: "s = c # s'" "is_digit c \<or> c = CHR ''.''"
    using q(1) by (cases s) (auto split: if_splits)
  then have "\<not> is_space c \<and> c \<noteq> CHR ''-'' \<and> c \<noteq> CHR ''+''"
    using digit_no_space by (auto simp: is_space_def)
  then show "dropWhile is_space s = s" and "read_sign s = (False, s)" using c(1) by auto
  show "\<exists>i f. decimal_parts s = (i, f) \<and> (i \<noteq> [] \<or> f \<noteq> [])"
    using q by (auto simp: decimal_parts_def Let_def)
qed

lemma gives_stof:
  assumes "is_flo s \<or> list_all is_digit s \<and> s \<noteq> []" "OutOfRange \<in> F"
  shows "gives F (stof s) (\<lambda>_. True)"
  using assms(1)
proof
  assume "is_flo s"
  from flo_parts [OF this] assms(2) show ?thesis
    by (auto simp: stof_def Let_def intro!: gives_bnd)
next
  assume "list_all is_digit s \<and> s \<noteq> []"
  with assms(2) show ?thesis by (auto simp: stof_def decimal_parts_def Let_def intro!: gives_bnd)
qed

section \<open>Each class of node\<close>

lemma in_classes [simp]:
  "''declaration'' \<in> classes" "''var-declaration'' \<in> classes" "''fun-declaration'' \<in> classes"
  "''param'' \<in> classes" "''compound-stmt'' \<in> classes" "''statement'' \<in> classes"
  "''expression-stmt'' \<in> classes" "''selection-stmt'' \<in> classes" "''iteration-stmt'' \<in> classes"
  "''return-stmt'' \<in> classes" "''expression'' \<in> classes" "''var'' \<in> classes"
  "''simple-expression'' \<in> classes" "''additive-expression'' \<in> classes" "''term'' \<in> classes"
  "''factor'' \<in> classes" "''call'' \<in> classes"
  by (simp_all only: classes_def insert_iff simp_thms)

lemmas gives_subs =
  gives_sub [where s = "''compound-stmt''", OF _ _ _ _ fits_cast(4)]
  gives_sub [where s = "''statement''", OF _ _ _ _ fits_cast(5)]
  gives_sub [where s = "''expression''", OF _ _ _ _ fits_cast(6)]
  gives_sub [where s = "''var''", OF _ _ _ _ fits_cast(7)]
  gives_sub [where s = "''additive-expression''", OF _ _ _ _ fits_cast(8)]
  gives_sub [where s = "''term''", OF _ _ _ _ fits_cast(9)]
  gives_sub [where s = "''factor''", OF _ _ _ _ fits_cast(10)]

lemma gives_only_child:
  assumes "below F (Node n (u # us))" "conforms s u" "s \<in> classes" "\<And>a. fits s a \<Longrightarrow> fits s' a"
  shows "gives F (transform_node_iter u) (fits s')"
  using gives_kid [OF assms(1), of 0 s] assms(2-4) by (auto intro: gives_mono)

lemma fits_up:
  "fits ''var-declaration'' a \<Longrightarrow> fits ''declaration'' a"
  "fits ''fun-declaration'' a \<Longrightarrow> fits ''declaration'' a"
  "fits ''expression-stmt'' a \<Longrightarrow> fits ''statement'' a"
  "fits ''compound-stmt'' a \<Longrightarrow> fits ''statement'' a"
  "fits ''selection-stmt'' a \<Longrightarrow> fits ''statement'' a"
  "fits ''iteration-stmt'' a \<Longrightarrow> fits ''statement'' a"
  "fits ''return-stmt'' a \<Longrightarrow> fits ''statement'' a"
  "fits ''simple-expression'' a \<Longrightarrow> fits ''expression'' a"
  by (cases a rule: as_var_decl.cases; simp)+

lemmas gives_up = gives_only_child [OF _ _ in_classes(2) fits_up(1)] gives_only_child [OF _ _ in_classes(3) fits_up(2)]
  gives_only_child [OF _ _ in_classes(7) fits_up(3)] gives_only_child [OF _ _ in_classes(5) fits_up(4)]
  gives_only_child [OF _ _ in_classes(8) fits_up(5)] gives_only_child [OF _ _ in_classes(9) fits_up(6)]
  gives_only_child [OF _ _ in_classes(10) fits_up(7)] gives_only_child [OF _ _ in_classes(13) fits_up(8)]

lemma declaration_fits:
  assumes "below F t" "conforms ''declaration'' t"
  shows "gives F (transform_node_iter t) (fits ''declaration'')"
  using assms(1) assms(2) [unfolded declaration_tree]
  by (auto simp: list_all2_Cons1 intro: gives_up)

lemma statement_fits:
  assumes "below F t" "conforms ''statement'' t"
  shows "gives F (transform_node_iter t) (fits ''statement'')"
  using assms(1) assms(2) [unfolded statement_tree]
  by (auto simp: list_all2_Cons1 intro: gives_up)

lemma return_stmt_fits:
  assumes "below F t" "conforms ''return-stmt'' t"
  shows "gives F (transform_node_iter t) (fits ''return-stmt'')"
  using assms(1) assms(2) [unfolded return_stmt_tree]
  by (auto simp: list_all2_Cons1 transform_return_stmt_def intro!: gives_bnd [OF gives_subs(3)])

lemma iteration_stmt_fits:
  assumes "below F t" "conforms ''iteration-stmt'' t"
  shows "gives F (transform_node_iter t) (fits ''iteration-stmt'')"
  using assms(1) assms(2) [unfolded iteration_stmt_tree]
  by (auto simp: list_all2_Cons1 transform_iteration_stmt_def intro!: gives_bnd [OF gives_subs(3)] gives_bnd [OF gives_subs(2)])

lemma selection_stmt_fits:
  assumes "below F t" "conforms ''selection-stmt'' t"
  shows "gives F (transform_node_iter t) (fits ''selection-stmt'')"
  using assms(1) assms(2) [unfolded selection_stmt_tree]
  by (auto simp: list_all2_Cons1 transform_selection_stmt_def intro!: gives_bnd [OF gives_subs(3)] gives_bnd [OF gives_subs(2)])

lemma expression_stmt_fits:
  assumes "below F t" "conforms ''expression-stmt'' t"
  shows "gives F (transform_node_iter t) (fits ''expression-stmt'')"
  using assms(1) assms(2) [unfolded expression_stmt_tree]
  by (auto simp: list_all2_Cons1 transform_expression_stmt_def intro!: gives_bnd [OF gives_subs(3)])

lemma var_fits:
  assumes "below F t" "conforms ''var'' t"
  shows "gives F (transform_node_iter t) (fits ''var'')"
  using assms(1) assms(2) [unfolded var_tree]
  by (auto simp: list_all2_Cons1 transform_var_def intro!: gives_bnd [OF gives_name] gives_bnd [OF gives_subs(3)])

lemma expression_fits:
  assumes "below F t" "conforms ''expression'' t"
  shows "gives F (transform_node_iter t) (fits ''expression'')"
  using assms(1) assms(2) [unfolded expression_tree]
  by (auto simp: list_all2_Cons1 transform_expression_def intro!: gives_bnd [OF gives_subs(3)] gives_bnd [OF gives_subs(4)]
    intro: gives_up)

lemma simple_expression_fits:
  assumes "below F t" "conforms ''simple-expression'' t"
  shows "gives F (transform_node_iter t) (fits ''simple-expression'')"
  using assms(1) assms(2) [unfolded simple_expression_tree]
  by (auto simp: list_all2_Cons1 transform_simple_expression_def one_kid intro!: gives_bnd [OF gives_subs(5)] gives_bnd [OF gives_inner])

lemma additive_expression_fits:
  assumes "below F t" "conforms ''additive-expression'' t"
  shows "gives F (transform_node_iter t) (fits ''additive-expression'')"
  using assms(1) assms(2) [unfolded additive_expression_tree]
  by (auto simp: list_all2_Cons1 transform_additive_expression_def one_kid intro!: gives_bnd [OF gives_subs(5)] gives_bnd [OF gives_subs(6)] gives_bnd [OF gives_inner])

lemma term_fits:
  assumes "below F t" "conforms ''term'' t"
  shows "gives F (transform_node_iter t) (fits ''term'')"
  using assms(1) assms(2) [unfolded term_tree]
  by (auto simp: list_all2_Cons1 transform_term_def one_kid intro!: gives_bnd [OF gives_subs(6)] gives_bnd [OF gives_subs(7)] gives_bnd [OF gives_inner])

lemma param_fits:
  assumes "below F t" "conforms ''param'' t"
  shows "gives F (transform_node_iter t) (fits ''param'')"
  using assms(1) assms(2) [unfolded param_tree]
  by (auto simp: list_all2_Cons1 transform_param_def one_kid intro!: gives_bnd [OF gives_name] gives_bnd [OF gives_inner])

lemma var_declaration_fits:
  assumes "below F t" "conforms ''var-declaration'' t"
  shows "gives F (transform_node_iter t) (fits ''var-declaration'')"
proof -
  have F: "OutOfRange \<in> F" using assms(1) by (simp add: below_def may_cut_def)
  have int: "conforms ''INTEGER'' u \<Longrightarrow> gives F (stoi (nname u)) (\<lambda>_. True)" for u
    using F by (auto simp: token_tree rules_def grammar_def lexes_def token_text_def intro: gives_stoi)
  show ?thesis
    using assms(1) assms(2) [unfolded var_declaration_tree]
    by (auto simp: list_all2_Cons1 transform_var_declaration_def one_kid Let_def int
      intro!: gives_bnd [OF gives_inner] gives_bnd [OF gives_name] gives_bnd [OF int])
qed

lemma factor_literal:
  assumes "below F (Node ''factor'' [Node n [Node s []]])" "gives F (f s) (\<lambda>_. True)"
  shows "gives F (bnd (literal_text (Node n [Node s []])) (\<lambda>s. bnd (f s) (\<lambda>v. Inr (ANum (g v))))) (fits ''factor'')"
proof -
  have "length s < 30 \<or> OutOfBounds \<in> F" using assms(1) by (auto simp: below_def may_cut_def)
  then show ?thesis using assms(2)
    by (auto simp: literal_text_def read_name_def gives_def bnd_def ensure_def split: sum.splits)
qed

lemma factor_fits:
  assumes "below F t" "conforms ''factor'' t"
  shows "gives F (transform_node_iter t) (fits ''factor'')"
proof -
  have F: "OutOfRange \<in> F" using assms(1) by (simp add: below_def may_cut_def)
  have int: "conforms ''integer'' u \<Longrightarrow> \<exists>s. u = Node ''integer'' [Node s []] \<and> gives F (stoi s) (\<lambda>_. True)" for u
    using F by (auto simp: integer_tree list_all2_Cons1 token_tree rules_def grammar_def lexes_def token_text_def intro: gives_stoi)
  have flo: "conforms ''float'' u \<Longrightarrow> \<exists>s. u = Node ''float'' [Node s []] \<and> gives F (stof s) (\<lambda>_. True)" for u
    using F by (auto simp: float_tree list_all2_Cons1 token_tree rules_def grammar_def lexes_def token_text_def intro: gives_stof)
  have up: "fits ''expression'' a \<Longrightarrow> fits ''factor'' a" "fits ''var'' a \<Longrightarrow> fits ''factor'' a"
    "fits ''call'' a \<Longrightarrow> fits ''factor'' a" for a
    by (cases a rule: as_var_decl.cases; simp)+
  note up = gives_mono [OF gives_kid [OF assms(1) _ _ in_classes(11)] up(1)]
    gives_mono [OF gives_kid [OF assms(1) _ _ in_classes(12)] up(2)]
    gives_mono [OF gives_kid [OF assms(1) _ _ in_classes(17)] up(3)]
  have name: "conforms s u \<Longrightarrow> s \<in> {''expression'', ''var'', ''call''} \<Longrightarrow> nname u = s" for s u
    by (auto simp: expression_tree var_tree call_tree)
  show ?thesis
    using assms(1) assms(2) [unfolded factor_tree] up [of 0] up [of 1]
    by (auto simp: list_all2_Cons1 transform_factor_def name dest!: int flo intro!: factor_literal)
qed

lemma call_fits:
  assumes "below F t" "conforms ''call'' t"
  shows "gives F (transform_node_iter t) (fits ''call'')"
proof -
  obtain a b c d where t: "t = Node ''call'' [a, b, c, d]" "conforms ''args'' c"
    using assms(2) by (auto simp: call_tree list_all2_Cons1)
  from t(2) consider l where "c = Node ''args'' [l]" "conforms ''arg-list'' l" | "c = Node ''args'' [Node ''epsilon'' []]"
    by (auto simp: args_tree list_all2_Cons1)
  then show ?thesis
  proof cases
    case 1
    obtain cs where cs: "walk_first 3 2 l = Inr cs" "\<forall>e \<in> set cs. conforms ''expression'' e \<and> (uncut l \<longrightarrow> uncut e)"
      using element_walks(3) [OF 1(2)] by auto
    have each: "gives F (each transform_node_iter as_expression cs) (\<lambda>xs. length xs = length cs)"
      by (rule gives_each [OF assms(1) in_classes(11) fits_cast(6)])
        (use t 1 cs in \<open>auto dest!: walk_first_23 [OF cs(1)]\<close>)
    show ?thesis using t 1 cs(1) assms(1)
      by (auto simp: transform_call_def arg_list_tree intro!: gives_bnd [OF gives_name] gives_bnd [OF each])
  next
    case 2
    then show ?thesis using t assms(1) by (auto simp: transform_call_def intro!: gives_bnd [OF gives_name])
  qed
qed

lemma compound_stmt_fits:
  assumes "below F t" "conforms ''compound-stmt'' t"
  shows "gives F (transform_node_iter t) (fits ''compound-stmt'')"
proof -
  obtain a b c d where t: "t = Node ''compound-stmt'' [a, b, c, d]"
    "conforms ''local-declarations'' b" "conforms ''statement-list'' c"
    using assms(2) by (auto simp: compound_stmt_tree list_all2_Cons1)
  obtain ds where ds: "list_nodes t 1 = Inr ds" "\<forall>e \<in> set ds. conforms ''var-declaration'' e \<and> (uncut b \<longrightarrow> uncut e)"
    using local_walks(1) [of t 1 b] t by auto
  obtain ss where ss: "list_nodes t 2 = Inr ss" "\<forall>e \<in> set ss. conforms ''statement'' e \<and> (uncut c \<longrightarrow> uncut e)"
    using local_walks(2) [of t 2 c] t by auto
  have "gives F (each transform_node_iter as_var_decl ds) (\<lambda>xs. length xs = length ds)"
    by (rule gives_each [OF assms(1) in_classes(2) fits_cast(2)])
      (use t ds list_nodes_size [OF ds(1)] in auto)
  moreover have "gives F (each transform_node_iter as_statement ss) (\<lambda>xs. length xs = length ss)"
    by (rule gives_each [OF assms(1) in_classes(6) fits_cast(5)])
      (use t ss list_nodes_size [OF ss(1)] in auto)
  ultimately show ?thesis using t ds(1) ss(1)
    by (auto simp: transform_compound_def intro!: gives_bnd)
qed

lemma fun_declaration_fits:
  assumes "below F t" "conforms ''fun-declaration'' t"
  shows "gives F (transform_node_iter t) (fits ''fun-declaration'')"
proof -
  obtain a b c d e f where t: "t = Node ''fun-declaration'' [a, b, c, d, e, f]"
    "conforms ''type-specifier'' a" "conforms ''params'' d" "conforms ''compound-stmt'' f"
    using assms(2) by (auto simp: fun_declaration_tree list_all2_Cons1)
  have "\<exists>ps. param_nodes t = Inr ps \<and> (\<forall>p \<in> set ps. conforms ''param'' p \<and> (uncut t \<longrightarrow> uncut p))"
  proof -
    from t(3) consider l where "d = Node ''params'' [l]" "conforms ''param-list'' l" | "d = Node ''params'' [Node ''void'' []]"
      by (auto simp: params_tree list_all2_Cons1 token_tree rules_def grammar_def lexes_def token_text_def)
    then show ?thesis
    proof cases
      case 1
      then have "kids l \<noteq> []" using list_shapes(2) [of l] by auto
      with 1 t element_walks(2) [OF 1(2)] show ?thesis by (auto simp: param_nodes_def)
    qed (use t in \<open>auto simp: param_nodes_def\<close>)
  qed
  then obtain ps where ps: "param_nodes t = Inr ps" "\<forall>p \<in> set ps. conforms ''param'' p \<and> (uncut t \<longrightarrow> uncut p)"
    by blast
  have each: "gives F (each transform_node_iter as_param ps) (\<lambda>xs. length xs = length ps)"
    by (rule gives_each [OF assms(1) in_classes(4) fits_cast(3)])
      (use t ps param_nodes_size [OF ps(1)] in auto)
  show ?thesis using t assms(1) ps(1) one_kid(1) [OF t(2)]
    by (auto simp: transform_fun_declaration_def Let_def split_beta
      intro!: gives_bnd [OF gives_inner] gives_bnd [OF gives_name] gives_bnd [OF gives_subs(1)] gives_bnd [OF each])
qed

lemma class_fits:
  "s \<in> classes \<Longrightarrow> conforms s t \<Longrightarrow> may_cut F t \<Longrightarrow> gives F (transform_node_iter t) (fits s)"
proof (induction t arbitrary: s rule: measure_induct_rule [where f = size])
  case (less t)
  then have "below F t" by (simp add: below_def)
  then show ?case using less.prems(1,2) unfolding classes_def
    by (elim insertE) (simp_all add: declaration_fits var_declaration_fits fun_declaration_fits param_fits
      compound_stmt_fits statement_fits expression_stmt_fits selection_stmt_fits iteration_stmt_fits
      return_stmt_fits expression_fits var_fits simple_expression_fits additive_expression_fits term_fits
      factor_fits call_fits)
qed

lemma program_fits:
  assumes "conforms ''program'' t" "may_cut F t"
  shows "gives F (transform_node_iter t) (fits ''program'')"
proof -
  obtain l where t: "t = Node ''program'' [l]" "conforms ''declaration-list'' l"
    using assms(1) by (auto simp: program_tree list_all2_Cons1)
  obtain cs where cs: "walk_first 2 1 l = Inr cs" "cs \<noteq> []"
    "\<forall>c \<in> set cs. conforms ''declaration'' c \<and> (uncut l \<longrightarrow> uncut c)"
    using element_walks(1) [OF t(2)] by auto
  have "below F t" using assms(2) class_fits by (simp add: below_def)
  then have each: "gives F (each transform_node_iter as_decl cs) (\<lambda>xs. length xs = length cs)"
    by (rule gives_each [OF _ in_classes(1) fits_cast(1)]) (use t cs(3) walk_first_size [OF _ cs(1)] in \<open>auto simp: less_Suc_eq\<close>)
  show ?thesis using t cs(1,2) by (auto simp: transform_program_def intro!: gives_bnd [OF each])
qed

text \<open>C20: for every parse tree of the grammar the construction of the abstract syntax either gives
  a program with at least one declaration, or stops because a literal is out of the range of its
  type, or, only when some token has 30 characters or more and its text was cut in the tree, reads
  an array past its end. It never aborts and every static cast is to the class of the node.\<close>

theorem AST_of_parse_tree:
  assumes "conforms ''program'' t"
  shows "(\<exists>p. AST (Some t) = Inr p \<and> p \<noteq> []) \<or> AST (Some t) = Inl OutOfRange \<or>
    \<not> uncut t \<and> AST (Some t) = Inl OutOfBounds"
proof -
  let ?F = "if uncut t then {OutOfRange} else {OutOfRange, OutOfBounds}"
  have "gives ?F (transform_node_iter t) (fits ''program'')"
    by (rule program_fits [OF assms]) (simp add: may_cut_def)
  then show ?thesis
    by (cases "transform_node_iter t")
      (auto simp: AST_def gives_def split: if_splits elim!: fits.elims)
qed

definition sample_tree :: cst where
  "sample_tree = Node ''program'' [Node ''declaration-list'' [Node ''declaration'' [Node ''var-declaration''
     [Node ''type-specifier'' [Node ''int'' []], Node ''a'' [], Node ''['' [], Node ''12'' [], Node '']'' [], Node '';'' []]]]]"

theorem AST_of_parse_tree_witness:
  "conforms ''program'' sample_tree \<and> AST (Some sample_tree) = Inr [VarDecl \<lparr>vd_type = TYPE_INT, vd_id = ''a'', vd_num = Some 12\<rparr>]"
proof -
  have c: "conforms ''program'' sample_tree" by code_simp
  have "AST (Some sample_tree) = Inr [VarDecl \<lparr>vd_type = TYPE_INT, vd_id = ''a'', vd_num = Some 12\<rparr>]"
    by code_simp
  with c AST_of_parse_tree [OF c] show ?thesis by simp
qed

end
