(* ===== verification/Ast_Unparse.thy ===== *)
theory Ast_Unparse
  imports Ast_Grammar
begin

text \<open>
  The parse tree of an abstract program, and the round trip: the construction of the abstract
  syntax gives the program back, so every abstract program comes from some parse tree. A float
  literal is written by a parameter \<open>lit\<close> that gives a text for its value.
\<close>

section \<open>The parse tree of a program\<close>

abbreviation tok :: "string \<Rightarrow> cst" where
  "tok s \<equiv> Node s []"

fun rel_text :: "rel_op \<Rightarrow> string" where
  "rel_text OP_LE = ''<=''"
| "rel_text OP_LT = ''<''"
| "rel_text OP_GT = ''>''"
| "rel_text OP_GE = ''>=''"
| "rel_text OP_EQ = ''==''"
| "rel_text OP_NEQ = ''!=''"

fun add_text :: "add_op \<Rightarrow> string" where
  "add_text OP_PLUS = ''+''"
| "add_text OP_MINUS = ''-''"

fun mul_text :: "mul_op \<Rightarrow> string" where
  "mul_text OP_MUL = ''*''"
| "mul_text OP_DIV = ''/''"

fun type_text :: "cminus_type \<Rightarrow> string" where
  "type_text TYPE_INT = ''int''"
| "type_text TYPE_FLOAT = ''float''"
| "type_text TYPE_VOID = ''void''"

definition type_cst :: "cminus_type \<Rightarrow> cst" where
  "type_cst ty = Node ''type-specifier'' [tok (type_text ty)]"

definition list_cst :: "string \<Rightarrow> cst list \<Rightarrow> cst list \<Rightarrow> cst" where
  "list_cst name sep xs = foldl (\<lambda>l x. Node name (l # sep @ [x])) (Node name [hd xs]) (tl xs)"

definition opt_list_cst :: "string \<Rightarrow> cst list \<Rightarrow> cst" where
  "opt_list_cst name xs = foldl (\<lambda>l x. Node name [l, x]) (Node name [tok ''epsilon'']) xs"

fun expression_cst :: "(float32 \<Rightarrow> string) \<Rightarrow> expression \<Rightarrow> cst"
and var_cst :: "(float32 \<Rightarrow> string) \<Rightarrow> avar \<Rightarrow> cst"
and additive_cst :: "(float32 \<Rightarrow> string) \<Rightarrow> additive \<Rightarrow> cst"
and term_cst :: "(float32 \<Rightarrow> string) \<Rightarrow> aterm \<Rightarrow> cst"
and factor_cst :: "(float32 \<Rightarrow> string) \<Rightarrow> factor \<Rightarrow> cst" where
  "expression_cst lit (AssignE v e) = Node ''expression'' [var_cst lit v, tok ''='', expression_cst lit e]"
| "expression_cst lit (SimpleE a) = Node ''expression'' [Node ''simple-expression'' [additive_cst lit a]]"
| "expression_cst lit (RelE l op r) =
     Node ''expression'' [Node ''simple-expression'' [additive_cst lit l, Node ''relop'' [tok (rel_text op)], additive_cst lit r]]"
| "var_cst lit (Var i) = Node ''var'' [tok i]"
| "var_cst lit (VarIndex i e) = Node ''var'' [tok i, tok ''['', expression_cst lit e, tok '']'']"
| "additive_cst lit (AddTerm t) = Node ''additive-expression'' [term_cst lit t]"
| "additive_cst lit (AddBin a op t) =
     Node ''additive-expression'' [additive_cst lit a, Node ''addop'' [tok (add_text op)], term_cst lit t]"
| "term_cst lit (TermFactor f) = Node ''term'' [factor_cst lit f]"
| "term_cst lit (TermBin t op f) =
     Node ''term'' [term_cst lit t, Node ''mulop'' [tok (mul_text op)], factor_cst lit f]"
| "factor_cst lit (FExpr e) = Node ''factor'' [tok ''('', expression_cst lit e, tok '')'']"
| "factor_cst lit (FVar v) = Node ''factor'' [var_cst lit v]"
| "factor_cst lit (FCall i es) = Node ''factor'' [Node ''call'' [tok i, tok ''('',
     Node ''args'' [if es = [] then tok ''epsilon''
       else list_cst ''arg-list'' [tok '',''] (map (expression_cst lit) es)], tok '')'']]"
| "factor_cst lit (FNum (NumInt w)) = Node ''factor'' [Node ''integer'' [tok (show_nat (unat w))]]"
| "factor_cst lit (FNum (NumFloat v)) = Node ''factor'' [Node ''float'' [tok (lit v)]]"

definition var_decl_cst :: "var_decl \<Rightarrow> cst" where
  "var_decl_cst d = Node ''var-declaration'' ([type_cst (vd_type d), tok (vd_id d)] @
     (case vd_num d of None \<Rightarrow> [] | Some n \<Rightarrow> [tok ''['', tok (show_nat (unat n)), tok '']'']) @ [tok '';''])"

fun statement_cst :: "(float32 \<Rightarrow> string) \<Rightarrow> statement \<Rightarrow> cst"
and body_cst :: "(float32 \<Rightarrow> string) \<Rightarrow> statement \<Rightarrow> cst" where
  "statement_cst lit s = Node ''statement'' [body_cst lit s]"
| "body_cst lit (Compound ds ss) = Node ''compound-stmt'' [tok ''{'',
     opt_list_cst ''local-declarations'' (map var_decl_cst ds),
     opt_list_cst ''statement-list'' (map (statement_cst lit) ss), tok ''}'']"
| "body_cst lit (ExprStmt None) = Node ''expression-stmt'' [tok '';'']"
| "body_cst lit (ExprStmt (Some e)) = Node ''expression-stmt'' [expression_cst lit e, tok '';'']"
| "body_cst lit (Selection e s None) =
     Node ''selection-stmt'' [tok ''if'', tok ''('', expression_cst lit e, tok '')'', statement_cst lit s]"
| "body_cst lit (Selection e s (Some s')) =
     Node ''selection-stmt'' [tok ''if'', tok ''('', expression_cst lit e, tok '')'', statement_cst lit s,
       tok ''else'', statement_cst lit s']"
| "body_cst lit (Iteration e s) =
     Node ''iteration-stmt'' [tok ''while'', tok ''('', expression_cst lit e, tok '')'', statement_cst lit s]"
| "body_cst lit (Return None) = Node ''return-stmt'' [tok ''return'', tok '';'']"
| "body_cst lit (Return (Some e)) = Node ''return-stmt'' [tok ''return'', expression_cst lit e, tok '';'']"

definition param_cst :: "param \<Rightarrow> cst" where
  "param_cst p = Node ''param'' ([type_cst (p_type p), tok (p_id p)] @
     (if p_isarray p then [tok ''['', tok '']''] else []))"

definition params_cst :: "param list \<Rightarrow> cst" where
  "params_cst ps = Node ''params''
     [if ps = [] then tok ''void'' else list_cst ''param-list'' [tok '',''] (map param_cst ps)]"

fun decl_cst :: "(float32 \<Rightarrow> string) \<Rightarrow> decl \<Rightarrow> cst" where
  "decl_cst lit (VarDecl d) = Node ''declaration'' [var_decl_cst d]"
| "decl_cst lit (FunDecl d) = Node ''declaration'' [Node ''fun-declaration''
     [type_cst (fd_type d), tok (fd_id d), tok ''('', params_cst (fd_params d), tok '')'',
      body_cst lit (Compound (fd_locals d) (fd_body d))]]"

definition program_cst :: "(float32 \<Rightarrow> string) \<Rightarrow> program \<Rightarrow> cst" where
  "program_cst lit p = Node ''program'' [list_cst ''declaration-list'' [] (map (decl_cst lit) p)]"

section \<open>Programs that a text can denote\<close>

text \<open>An identifier that is not cut, a literal in range, no variable of type void.\<close>

definition ident :: "string \<Rightarrow> bool" where
  "ident i \<longleftrightarrow> i \<noteq> [] \<and> list_all is_letter i \<and> length i < 30"

definition literal :: "(float32 \<Rightarrow> string) \<Rightarrow> float32 \<Rightarrow> bool" where
  "literal lit v \<longleftrightarrow> is_flo (lit v) \<and> length (lit v) < 30 \<and> stof (lit v) = Inr v"

fun expression_ok :: "(float32 \<Rightarrow> string) \<Rightarrow> expression \<Rightarrow> bool"
and var_ok :: "(float32 \<Rightarrow> string) \<Rightarrow> avar \<Rightarrow> bool"
and additive_ok :: "(float32 \<Rightarrow> string) \<Rightarrow> additive \<Rightarrow> bool"
and term_ok :: "(float32 \<Rightarrow> string) \<Rightarrow> aterm \<Rightarrow> bool"
and factor_ok :: "(float32 \<Rightarrow> string) \<Rightarrow> factor \<Rightarrow> bool" where
  "expression_ok lit (AssignE v e) \<longleftrightarrow> var_ok lit v \<and> expression_ok lit e"
| "expression_ok lit (SimpleE a) \<longleftrightarrow> additive_ok lit a"
| "expression_ok lit (RelE l op r) \<longleftrightarrow> additive_ok lit l \<and> additive_ok lit r"
| "var_ok lit (Var i) \<longleftrightarrow> ident i"
| "var_ok lit (VarIndex i e) \<longleftrightarrow> ident i \<and> expression_ok lit e"
| "additive_ok lit (AddTerm t) \<longleftrightarrow> term_ok lit t"
| "additive_ok lit (AddBin a op t) \<longleftrightarrow> additive_ok lit a \<and> term_ok lit t"
| "term_ok lit (TermFactor f) \<longleftrightarrow> factor_ok lit f"
| "term_ok lit (TermBin t op f) \<longleftrightarrow> term_ok lit t \<and> factor_ok lit f"
| "factor_ok lit (FExpr e) \<longleftrightarrow> expression_ok lit e"
| "factor_ok lit (FVar v) \<longleftrightarrow> var_ok lit v"
| "factor_ok lit (FCall i es) \<longleftrightarrow> ident i \<and> (\<forall>e \<in> set es. expression_ok lit e)"
| "factor_ok lit (FNum (NumInt w)) \<longleftrightarrow> unat w < 2 ^ 31"
| "factor_ok lit (FNum (NumFloat v)) \<longleftrightarrow> literal lit v"

definition var_decl_ok :: "var_decl \<Rightarrow> bool" where
  "var_decl_ok d \<longleftrightarrow> vd_type d \<noteq> TYPE_VOID \<and> ident (vd_id d) \<and>
     (case vd_num d of None \<Rightarrow> True | Some n \<Rightarrow> unat n < 2 ^ 31)"

fun statement_ok :: "(float32 \<Rightarrow> string) \<Rightarrow> statement \<Rightarrow> bool" where
  "statement_ok lit (Compound ds ss) \<longleftrightarrow> (\<forall>d \<in> set ds. var_decl_ok d) \<and> (\<forall>s \<in> set ss. statement_ok lit s)"
| "statement_ok lit (ExprStmt e) \<longleftrightarrow> (case e of None \<Rightarrow> True | Some e \<Rightarrow> expression_ok lit e)"
| "statement_ok lit (Selection e s s') \<longleftrightarrow>
     expression_ok lit e \<and> statement_ok lit s \<and> (case s' of None \<Rightarrow> True | Some s' \<Rightarrow> statement_ok lit s')"
| "statement_ok lit (Iteration e s) \<longleftrightarrow> expression_ok lit e \<and> statement_ok lit s"
| "statement_ok lit (Return e) \<longleftrightarrow> (case e of None \<Rightarrow> True | Some e \<Rightarrow> expression_ok lit e)"

fun decl_ok :: "(float32 \<Rightarrow> string) \<Rightarrow> decl \<Rightarrow> bool" where
  "decl_ok lit (VarDecl d) \<longleftrightarrow> var_decl_ok d"
| "decl_ok lit (FunDecl d) \<longleftrightarrow> ident (fd_id d) \<and>
     (\<forall>p \<in> set (fd_params d). p_type p \<noteq> TYPE_VOID \<and> ident (p_id p)) \<and>
     statement_ok lit (Compound (fd_locals d) (fd_body d))"

definition program_ok :: "(float32 \<Rightarrow> string) \<Rightarrow> program \<Rightarrow> bool" where
  "program_ok lit p \<longleftrightarrow> p \<noteq> [] \<and> (\<forall>d \<in> set p. decl_ok lit d)"

section \<open>Lists and literals\<close>

lemma list_cst_snoc: "xs \<noteq> [] \<Longrightarrow> list_cst name sep (xs @ [x]) = Node name (list_cst name sep xs # sep @ [x])"
  by (simp add: list_cst_def)

lemma list_cst_single: "list_cst name sep [x] = Node name [x]"
  by (simp add: list_cst_def)

lemma walk_snoc:
  "Suc (Suc (length sep)) = k \<Longrightarrow>
     walk k (k - 1) (Node name (l # sep @ [x])) = (fst (walk k (k - 1) l) @ [x], snd (walk k (k - 1) l))"
  by (auto simp: split_beta nth_append)

lemma walk_list_cst:
  "xs \<noteq> [] \<Longrightarrow> 1 < k \<Longrightarrow> Suc (Suc (length sep)) = k \<Longrightarrow>
     walk k (k - 1) (list_cst name sep xs) = (tl xs, Node name [hd xs])"
proof (induction xs rule: rev_induct)
  case (snoc x xs)
  show ?case
  proof (cases "xs = []")
    case True
    then show ?thesis using snoc.prems by (auto simp: list_cst_single)
  next
    case False
    then show ?thesis using snoc.prems
      by (simp only: list_cst_snoc [OF False] walk_snoc [OF snoc.prems(3)] snoc.IH [OF False snoc.prems(2,3)]) simp
  qed
qed simp

lemma walk_first_list_cst:
  "xs \<noteq> [] \<Longrightarrow> Suc (Suc (length sep)) = k \<Longrightarrow> walk_first k (k - 1) (list_cst name sep xs) = Inr xs"
  using walk_list_cst [of xs k sep name] by (simp add: walk_first_def)

lemma walk_opt_list_cst: "walk 2 1 (opt_list_cst name xs) = (xs, Node name [tok ''epsilon''])"
proof (induction xs rule: rev_induct)
  case (snoc x xs)
  then show ?case using walk_snoc [of "[]" 2] by (simp add: opt_list_cst_def del: walk.simps)
qed (simp add: opt_list_cst_def)

lemma list_nodes_opt: "child n i = Inr (opt_list_cst name xs) \<Longrightarrow> list_nodes n i = Inr xs"
  using walk_opt_list_cst [of name xs]
  by (cases xs rule: rev_cases) (auto simp: list_nodes_def opt_list_cst_def simp del: walk.simps)

lemma each_map: "(\<And>x. x \<in> set xs \<Longrightarrow> bnd (rec (f x)) cast = Inr x) \<Longrightarrow> each rec cast (map f xs) = Inr xs"
  by (induction xs) (auto simp: bnd_assoc [symmetric])

lemma show_nat_length: "n < 10 ^ Suc k \<Longrightarrow> length (show_nat n) \<le> Suc k"
proof (induction k arbitrary: n)
  case (Suc k)
  show ?case
  proof (cases "n < 10")
    case False
    with Suc show ?thesis by (subst show_nat.simps) simp
  qed (subst show_nat.simps, simp)
qed (subst show_nat.simps, simp)

lemma int_literal:
  assumes "unat (w :: 32 word) < 2 ^ 31"
  shows "length (show_nat (unat w)) < 30" "list_all is_digit (show_nat (unat w))" "stoi (show_nat (unat w)) = Inr w"
proof -
  show "length (show_nat (unat w)) < 30" using show_nat_length [of "unat w" 9] assms by simp
  show d: "list_all is_digit (show_nat (unat w))" using show_nat_digits by (auto simp: list_all_iff)
  show "stoi (show_nat (unat w)) = Inr w" using assms d by (simp add: stoi_def Let_def)
qed

section \<open>The transformation reads the tree back\<close>

fun factor_node :: "factor \<Rightarrow> ast_node" where
  "factor_node (FExpr e) = AExpr e"
| "factor_node (FVar v) = AVar v"
| "factor_node (FCall i es) = ACall i es"
| "factor_node (FNum n) = ANum n"

lemma as_factor_node [simp]: "as_factor (factor_node f) = Inr f"
  by (cases f) auto

lemma cst_names [simp]:
  "nname (expression_cst lit e) = ''expression''" "nname (var_cst lit v) = ''var''"
  by (cases e; simp; fail | cases v; simp)+

lemma nname_list_cst [simp]: "nname (list_cst name sep xs) = name"
  by (cases xs rule: rev_cases) (auto simp: list_cst_def tl_append split: list.splits)

lemma op_texts [simp]:
  "rel_op_of (rel_text r) = r" "add_op_of (add_text a) = a" "mul_op_of (mul_text m) = m"
  by (cases r; simp add: rel_op_of_def; fail | cases a; simp add: add_op_of_def; fail |
    cases m; simp add: mul_op_of_def)+

lemmas transform_defs = sub_def inner_name_def name_of_child_def read_name_def literal_text_def ident_def Let_def
  transform_expression_def transform_var_def transform_simple_expression_def transform_additive_expression_def
  transform_term_def transform_factor_def transform_call_def

lemma args_back:
  assumes "\<And>e. e \<in> set es \<Longrightarrow> transform_node_iter (f e) = Inr (AExpr e)" "ident i"
  shows "transform_call transform_node_iter (Node ''call'' [tok i, tok ''('',
     Node ''args'' [if es = [] then tok ''epsilon'' else list_cst ''arg-list'' [tok '',''] (map f es)], tok '')'']) = Inr (ACall i es)"
  using assms walk_first_list_cst [of "map f es" "[tok '','']" 3 "''arg-list''"]
  by (auto simp: transform_defs each_map)

lemma expression_back:
  "expression_ok lit e \<Longrightarrow> transform_node_iter (expression_cst lit e) = Inr (AExpr e)"
  "var_ok lit v \<Longrightarrow> transform_node_iter (var_cst lit v) = Inr (AVar v)"
  "additive_ok lit a \<Longrightarrow> transform_node_iter (additive_cst lit a) = Inr (AAdditive a)"
  "term_ok lit t \<Longrightarrow> transform_node_iter (term_cst lit t) = Inr (ATerm t)"
  "factor_ok lit f \<Longrightarrow> transform_node_iter (factor_cst lit f) = Inr (factor_node f)"
proof (induction lit e and lit v and lit a and lit t and lit f
    rule: expression_cst_var_cst_additive_cst_term_cst_factor_cst.induct)
  case (12 lit i es)
  have es: "transform_node_iter (expression_cst lit e) = Inr (AExpr e)" if "e \<in> set es" for e
    using 12 that by (cases "es = []") simp_all
  have "transform_node_iter (Node ''call'' [tok i, tok ''('',
     Node ''args'' [if es = [] then tok ''epsilon'' else list_cst ''arg-list'' [tok '',''] (map (expression_cst lit) es)], tok '')''])
     = Inr (ACall i es)"
    by (simp only: transform_node_simps, rule args_back) (use es 12 in simp_all)
  then show ?case by (simp only: factor_cst.simps) (simp add: transform_factor_def)
next
  case (13 lit w)
  then show ?case by (simp add: transform_defs int_literal)
next
  case (14 lit v)
  then show ?case by (simp add: transform_defs literal_def)
qed (simp_all add: transform_defs)

lemmas decl_defs = transform_defs type_cst_def

lemma var_decl_back: "var_decl_ok d \<Longrightarrow> transform_node_iter (var_decl_cst d) = Inr (ADecl (VarDecl d))"
  by (cases d; cases "vd_type d"; cases "vd_num d")
    (simp_all add: var_decl_cst_def var_decl_ok_def transform_var_declaration_def decl_defs int_literal)

lemma body_back:
  "statement_ok lit s \<Longrightarrow> transform_node_iter (statement_cst lit s) = Inr (AStmt s)"
  "statement_ok lit s \<Longrightarrow> transform_node_iter (body_cst lit s) = Inr (AStmt s)"
proof (induction lit s and lit s rule: statement_cst_body_cst.induct)
  case (2 lit ds ss)
  let ?t = "Node ''compound-stmt'' [tok ''{'', opt_list_cst ''local-declarations'' (map var_decl_cst ds),
     opt_list_cst ''statement-list'' (map (statement_cst lit) ss), tok ''}'']"
  have "list_nodes ?t 1 = Inr (map var_decl_cst ds)"
    by (rule list_nodes_opt [of _ _ "''local-declarations''"]) simp
  moreover have "list_nodes ?t 2 = Inr (map (statement_cst lit) ss)"
    by (rule list_nodes_opt [of _ _ "''statement-list''"]) simp
  ultimately show ?case using 2 by (simp add: transform_compound_def each_map var_decl_back)
qed (simp_all add: transform_defs expression_back transform_expression_stmt_def transform_return_stmt_def
  transform_selection_stmt_def transform_iteration_stmt_def)

lemma param_back:
  "p_type p \<noteq> TYPE_VOID \<Longrightarrow> ident (p_id p) \<Longrightarrow> transform_node_iter (param_cst p) = Inr (AParam p)"
  by (cases p; cases "p_type p") (simp_all add: param_cst_def transform_param_def decl_defs)

lemma list_cst_kids: "xs \<noteq> [] \<Longrightarrow> kids (list_cst name sep xs) \<noteq> []"
  by (cases xs rule: rev_cases; cases "butlast xs = []") (auto simp: list_cst_single list_cst_snoc)

lemma params_nodes_back:
  "kids n ! 3 = params_cst ps \<Longrightarrow> length (kids n) = 6 \<Longrightarrow> param_nodes n = Inr (map param_cst ps)"
  using walk_first_list_cst [of "map param_cst ps" "[tok '','']" 3 "''param-list''"]
  by (simp add: param_nodes_def child_def params_cst_def list_cst_kids)

lemma decl_back: "decl_ok lit d \<Longrightarrow> bnd (transform_node_iter (decl_cst lit d)) as_decl = Inr d"
proof (cases d)
  case (FunDecl f)
  assume ok: "decl_ok lit d"
  let ?t = "Node ''fun-declaration'' [type_cst (fd_type f), tok (fd_id f), tok ''('', params_cst (fd_params f), tok '')'',
      body_cst lit (Compound (fd_locals f) (fd_body f))]"
  have "param_nodes ?t = Inr (map param_cst (fd_params f))" by (rule params_nodes_back) simp_all
  moreover have "transform_node_iter (body_cst lit (Compound (fd_locals f) (fd_body f))) =
      Inr (AStmt (Compound (fd_locals f) (fd_body f)))"
    using ok FunDecl by (intro body_back) (simp del: statement_ok.simps)
  ultimately show ?thesis using ok FunDecl
    by (cases f; cases "fd_type f")
      (simp_all add: transform_fun_declaration_def decl_defs each_map param_back del: body_cst.simps)
qed (simp add: var_decl_back)

lemma program_back: "program_ok lit p \<Longrightarrow> AST (Some (program_cst lit p)) = Inr p"
  using walk_first_list_cst [of "map (decl_cst lit) p" "[]" 2 "''declaration-list''"]
  by (simp add: AST_def program_cst_def transform_program_def program_ok_def each_map decl_back)

section \<open>The tree is one of the grammar\<close>

text \<open>Whether a node conforms, by its children.\<close>

lemmas conforms_node =
  program_tree [of "Node n ts" for n ts, simplified]
  declaration_tree [of "Node n ts" for n ts, simplified]
  var_declaration_tree [of "Node n ts" for n ts, simplified]
  type_specifier_tree [of "Node n ts" for n ts, simplified]
  fun_declaration_tree [of "Node n ts" for n ts, simplified]
  params_tree [of "Node n ts" for n ts, simplified]
  param_tree [of "Node n ts" for n ts, simplified]
  compound_stmt_tree [of "Node n ts" for n ts, simplified]
  statement_tree [of "Node n ts" for n ts, simplified]
  expression_stmt_tree [of "Node n ts" for n ts, simplified]
  selection_stmt_tree [of "Node n ts" for n ts, simplified]
  iteration_stmt_tree [of "Node n ts" for n ts, simplified]
  return_stmt_tree [of "Node n ts" for n ts, simplified]
  expression_tree [of "Node n ts" for n ts, simplified]
  var_tree [of "Node n ts" for n ts, simplified]
  simple_expression_tree [of "Node n ts" for n ts, simplified]
  relop_tree [of "Node n ts" for n ts, simplified]
  additive_expression_tree [of "Node n ts" for n ts, simplified]
  addop_tree [of "Node n ts" for n ts, simplified]
  term_tree [of "Node n ts" for n ts, simplified]
  mulop_tree [of "Node n ts" for n ts, simplified]
  factor_tree [of "Node n ts" for n ts, simplified]
  integer_tree [of "Node n ts" for n ts, simplified]
  float_tree [of "Node n ts" for n ts, simplified]
  call_tree [of "Node n ts" for n ts, simplified]
  args_tree [of "Node n ts" for n ts, simplified]
  declaration_list_tree [of "Node n ts" for n ts, simplified]
  param_list_tree [of "Node n ts" for n ts, simplified]
  arg_list_tree [of "Node n ts" for n ts, simplified]
  local_declarations_tree [of "Node n ts" for n ts, simplified]
  statement_list_tree [of "Node n ts" for n ts, simplified]

lemma fixed_tokens [simp]:
  "conforms ''ELSE'' (tok ''else'')" "conforms ''IF'' (tok ''if'')" "conforms ''INT'' (tok ''int'')"
  "conforms ''RETURN'' (tok ''return'')" "conforms ''VOID'' (tok ''void'')" "conforms ''WHILE'' (tok ''while'')"
  "conforms ''FLOAT'' (tok ''float'')" "conforms ''ADD'' (tok ''+'')" "conforms ''SUB'' (tok ''-'')"
  "conforms ''MUL'' (tok ''*'')" "conforms ''DIV'' (tok ''/'')" "conforms ''LES'' (tok ''<'')"
  "conforms ''LESE'' (tok ''<='')" "conforms ''GRE'' (tok ''>'')" "conforms ''GREE'' (tok ''>='')"
  "conforms ''EQUAL'' (tok ''=='')" "conforms ''NEQUAL'' (tok ''!='')" "conforms ''ASSIN'' (tok ''='')"
  "conforms ''SEMICOLON'' (tok '';'')" "conforms ''COMMA'' (tok '','')" "conforms ''LPAR'' (tok ''('')"
  "conforms ''RPAR'' (tok '')'')" "conforms ''LSBRA'' (tok ''['')" "conforms ''RSBRA'' (tok '']'')"
  "conforms ''LCBRA'' (tok ''{'')" "conforms ''RCBRA'' (tok ''}'')"
  by code_simp+

lemma other_tokens: "rules ''ID'' = []" "rules ''INTEGER'' = []" "rules ''FLO'' = []"
    "token_text ''ID'' = None" "token_text ''INTEGER'' = None" "token_text ''FLO'' = None"
  by code_simp+

lemma other_tokens_conform [simp]:
  "ident i \<Longrightarrow> conforms ''ID'' (tok i)"
  "unat (w :: 32 word) < 2 ^ 31 \<Longrightarrow> conforms ''INTEGER'' (tok (show_nat (unat w)))"
  "literal lit v \<Longrightarrow> conforms ''FLO'' (tok (lit v))"
  using int_literal [of w]
  by (auto simp: token_tree other_tokens lexes_def ident_def literal_def is_flo_def Let_def)

lemma list_cst_conforms:
  assumes "xs \<noteq> []" "\<And>x. x \<in> set xs \<Longrightarrow> conforms D x"
    and "\<And>l x. conforms L l \<Longrightarrow> conforms D x \<Longrightarrow> conforms L (Node L (l # sep @ [x]))"
    and "\<And>x. conforms D x \<Longrightarrow> conforms L (Node L [x])"
  shows "conforms L (list_cst L sep xs)"
  using assms(1,2)
proof (induction xs rule: rev_induct)
  case (snoc x xs)
  then show ?case using assms(3,4) by (cases "xs = []") (auto simp: list_cst_single list_cst_snoc)
qed simp

lemma opt_list_cst_conforms:
  assumes "\<And>x. x \<in> set xs \<Longrightarrow> conforms D x"
    and "\<And>l x. conforms L l \<Longrightarrow> conforms D x \<Longrightarrow> conforms L (Node L [l, x])"
    and "conforms L (Node L [tok ''epsilon''])"
  shows "conforms L (opt_list_cst L xs)"
  using assms(1)
proof (induction xs rule: rev_induct)
  case (snoc x xs)
  then show ?case using assms(2) by (simp add: opt_list_cst_def)
qed (use assms(3) in \<open>simp add: opt_list_cst_def\<close>)

lemma expression_conforms:
  "expression_ok lit e \<Longrightarrow> conforms ''expression'' (expression_cst lit e)"
  "var_ok lit v \<Longrightarrow> conforms ''var'' (var_cst lit v)"
  "additive_ok lit a \<Longrightarrow> conforms ''additive-expression'' (additive_cst lit a)"
  "term_ok lit t \<Longrightarrow> conforms ''term'' (term_cst lit t)"
  "factor_ok lit f \<Longrightarrow> conforms ''factor'' (factor_cst lit f)"
proof (induction lit e and lit v and lit a and lit t and lit f
    rule: expression_cst_var_cst_additive_cst_term_cst_factor_cst.induct)
  case (3 lit l op r)
  then show ?case by (cases op) (simp_all add: conforms_node)
next
  case (7 lit a op t)
  then show ?case by (cases op) (simp_all add: conforms_node)
next
  case (9 lit t op f)
  then show ?case by (cases op) (simp_all add: conforms_node)
next
  case (12 lit i es)
  have "conforms ''expression'' (expression_cst lit e)" if "e \<in> set es" for e
    using 12 that by (cases "es = []") simp_all
  then have "conforms ''arg-list'' (list_cst ''arg-list'' [tok '',''] (map (expression_cst lit) es))" if "es \<noteq> []"
    using that by (intro list_cst_conforms [where D = "''expression''"]) (auto simp: conforms_node)
  then show ?case using 12(2) by (simp add: conforms_node)
qed (simp_all add: conforms_node)

lemma type_conforms [simp]: "conforms ''type-specifier'' (type_cst ty)"
  by (cases ty) (simp_all add: type_cst_def conforms_node)

lemma var_decl_conforms: "var_decl_ok d \<Longrightarrow> conforms ''var-declaration'' (var_decl_cst d)"
  by (auto simp: var_decl_ok_def var_decl_cst_def conforms_node split: option.splits)

lemma body_conforms:
  "statement_ok lit s \<Longrightarrow> conforms ''statement'' (statement_cst lit s)"
  "statement_ok lit s \<Longrightarrow> conforms ''statement'' (Node ''statement'' [body_cst lit s]) \<and>
     ((\<exists>ds ss. s = Compound ds ss) \<longrightarrow> conforms ''compound-stmt'' (body_cst lit s))"
proof (induction lit s and lit s rule: statement_cst_body_cst.induct)
  case (2 lit ds ss)
  have "conforms ''local-declarations'' (opt_list_cst ''local-declarations'' (map var_decl_cst ds))"
    by (rule opt_list_cst_conforms [where D = "''var-declaration''"]) (use 2 in \<open>auto simp: conforms_node var_decl_conforms\<close>)
  moreover have "conforms ''statement-list'' (opt_list_cst ''statement-list'' (map (statement_cst lit) ss))"
    by (rule opt_list_cst_conforms [where D = "''statement''"]) (use 2 in \<open>auto simp: conforms_node\<close>)
  ultimately show ?case by (simp add: conforms_node)
qed (simp_all add: conforms_node expression_conforms)

lemma params_conforms:
  assumes "\<forall>p \<in> set ps. p_type p \<noteq> TYPE_VOID \<and> ident (p_id p)"
  shows "conforms ''params'' (params_cst ps)"
proof -
  have "conforms ''param'' (param_cst p)" if "p \<in> set ps" for p
    using assms that by (auto simp: param_cst_def conforms_node)
  then have "conforms ''param-list'' (list_cst ''param-list'' [tok '',''] (map param_cst ps))" if "ps \<noteq> []"
    using that by (intro list_cst_conforms [where D = "''param''"]) (auto simp: conforms_node)
  then show ?thesis by (simp add: params_cst_def conforms_node)
qed

lemma decl_conforms: "decl_ok lit d \<Longrightarrow> conforms ''declaration'' (decl_cst lit d)"
  using body_conforms(2)
  by (cases d) (auto simp: conforms_node var_decl_conforms params_conforms simp del: body_cst.simps)

lemma program_conforms: "program_ok lit p \<Longrightarrow> conforms ''program'' (program_cst lit p)"
  using list_cst_conforms [of "map (decl_cst lit) p" "''declaration''" "''declaration-list''" "[]"]
  by (fastforce simp: program_cst_def program_ok_def conforms_node decl_conforms)

text \<open>C21: every abstract program with identifiers of at most 29 letters, literals in range and no
  void variable has a parse tree of the grammar, and the construction of the abstract syntax gives
  exactly that program back from it: the order of declarations, parameters, arguments and
  statements, the nesting of the operators and every optional part.\<close>

theorem AST_program_cst:
  assumes "program_ok lit p"
  shows "conforms ''program'' (program_cst lit p) \<and> AST (Some (program_cst lit p)) = Inr p"
  using program_conforms [OF assms] program_back [OF assms] by simp

definition sample_program :: program where
  "sample_program =
     [VarDecl \<lparr>vd_type = TYPE_FLOAT, vd_id = ''x'', vd_num = None\<rparr>,
      FunDecl \<lparr>fd_type = TYPE_INT, fd_id = ''main'', fd_params = [], fd_locals = [],
        fd_body =
          [Selection (RelE (AddTerm (TermFactor (FVar (Var ''x'')))) OP_LT (AddTerm (TermFactor (FNum (NumFloat 0x3FC00000)))))
             (Return (Some (factor_expr (FNum (NumInt 7))))) None,
           ExprStmt (Some (factor_expr (FCall ''output'' [factor_expr (FNum (NumInt 1)), factor_expr (FVar (Var ''x''))])))]\<rparr>]"

theorem AST_program_cst_witness:
  "program_ok (\<lambda>_. ''1.5'') sample_program \<and> conforms ''program'' (program_cst (\<lambda>_. ''1.5'') sample_program) \<and>
   AST (Some (program_cst (\<lambda>_. ''1.5'') sample_program)) = Inr sample_program"
proof -
  have "stof ''1.5'' = Inr 0x3FC00000"
    by (simp add: stof_def decimal_parts_def is_space_def is_digit_def read_nat_def char_digit_def round_float_def
      round_exp_def scaled_def bit_len.simps exactly_def f_exp_def)
  then have "literal (\<lambda>_. ''1.5'') 0x3FC00000"
    by (simp add: literal_def is_flo_def is_digit_def)
  then have "program_ok (\<lambda>_. ''1.5'') sample_program"
    by (simp add: program_ok_def sample_program_def factor_expr_def ident_def is_letter_def var_decl_ok_def)
  with AST_program_cst [OF this] show ?thesis by simp
qed

section \<open>Two things that the tree loses\<close>

text \<open>C22: a variable declared \<open>void\<close>, which the grammar admits, becomes a variable of type
  float: the comparison only asks whether the specifier is \<open>int\<close>.\<close>

theorem void_variable_is_float:
  assumes "ident i"
  shows "conforms ''var-declaration'' (var_decl_cst \<lparr>vd_type = TYPE_VOID, vd_id = i, vd_num = None\<rparr>) \<and>
    transform_node_iter (var_decl_cst \<lparr>vd_type = TYPE_VOID, vd_id = i, vd_num = None\<rparr>) =
      Inr (ADecl (VarDecl \<lparr>vd_type = TYPE_FLOAT, vd_id = i, vd_num = None\<rparr>))"
  using assms by (simp add: var_decl_cst_def conforms_node transform_var_declaration_def decl_defs)

theorem void_variable_is_float_witness:
  "conforms ''var-declaration'' (var_decl_cst \<lparr>vd_type = TYPE_VOID, vd_id = ''v'', vd_num = None\<rparr>) \<and>
    transform_node_iter (var_decl_cst \<lparr>vd_type = TYPE_VOID, vd_id = ''v'', vd_num = None\<rparr>) =
      Inr (ADecl (VarDecl \<lparr>vd_type = TYPE_FLOAT, vd_id = ''v'', vd_num = None\<rparr>))"
  by (rule void_variable_is_float) (simp add: ident_def is_letter_def)

text \<open>C23: the node of an identifier of 30 characters or more keeps its first 30 without a
  terminating zero, and the declaration of such a variable reads past the array.\<close>

theorem long_identifier_overruns:
  assumes "30 \<le> length i"
  shows "transform_node_iter (Node ''var-declaration'' [type_cst ty, new_syntax_tree_node i, tok '';'']) = Inl OutOfBounds"
  using assms by (simp add: transform_var_declaration_def decl_defs new_syntax_tree_node_def)

theorem long_identifier_overruns_witness:
  "transform_node_iter (Node ''var-declaration''
     [type_cst TYPE_INT, new_syntax_tree_node ''abcdefghijklmnopqrstuvwxyzabcd'', tok '';'']) = Inl OutOfBounds"
  by (rule long_identifier_overruns) simp

end
