(* ===== verification/IR_Names.thy ===== *)
theory IR_Names
  imports IR_Print
begin

text \<open>
  The names that \<open>Function::set_instr_name\<close> gives: the values of a function in the order in
  which the method meets them, the invariant of their names, and the two properties that make the
  printed text well formed, every value has a name and no two share one.
\<close>

section \<open>The values of a function in order\<close>

definition nm :: "'z ir_scheme \<Rightarrow> val \<Rightarrow> string" where
  "nm s v = (case get_name s v of Inl e \<Rightarrow> '''' | Inr n \<Rightarrow> n)"

definition named_instr :: "'z ir_scheme \<Rightarrow> nat \<Rightarrow> bool" where
  "named_instr s p \<longleftrightarrow> (case instrs s p of None \<Rightarrow> False | Some ins \<Rightarrow> \<not> is_void_instr ins)"

definition block_values :: "'z ir_scheme \<Rightarrow> nat \<Rightarrow> (string \<times> val) list" where
  "block_values s b = (''label'', VBB b) # map (\<lambda>p. (''op'', VInstr p)) (filter (named_instr s) (ilist s b))"

definition arg_values :: "'z ir_scheme \<Rightarrow> nat \<Rightarrow> (string \<times> val) list" where
  "arg_values s f = (case funs s f of None \<Rightarrow> [] | Some fn \<Rightarrow> map (Pair ''arg'') (args_of f fn))"

definition values_of :: "'z ir_scheme \<Rightarrow> nat \<Rightarrow> (string \<times> val) list" where
  "values_of s f = arg_values s f @ concat (map (block_values s) (fblocks s f))"

definition members :: "'z ir_scheme \<Rightarrow> nat \<Rightarrow> val set" where
  "members s f = snd ` set (values_of s f)"

text \<open>What naming leaves alone: everything but names.\<close>

definition same_shape :: "'z ir_scheme \<Rightarrow> 'z ir_scheme \<Rightarrow> bool" where
  "same_shape s s' \<longleftrightarrow> ilist s' = ilist s \<and> fblocks s' = fblocks s \<and> named_instr s' = named_instr s \<and>
     dom (instrs s') = dom (instrs s) \<and> dom (blocks s') = dom (blocks s) \<and> dom (funs s') = dom (funs s) \<and>
     (\<forall>f. map_option (length \<circ> arg_names) (funs s' f) = map_option (length \<circ> arg_names) (funs s f)) \<and>
     (\<forall>f. map_option seq_cnt (funs s' f) = map_option seq_cnt (funs s f)) \<and>
     owner s' = owner s"

lemma same_shape_refl: "same_shape s s"
  by (simp add: same_shape_def)

lemma same_shape_trans: "same_shape s t \<Longrightarrow> same_shape t u \<Longrightarrow> same_shape s u"
  by (simp add: same_shape_def)

lemma write_name_shape: "same_shape s (write_name s v n)"
  by (cases v; auto simp: same_shape_def view_defs named_instr_def fun_eq_iff is_void_instr_def split: option.splits)

lemma same_shape_objects:
  assumes "same_shape s s'"
  shows "instrs s' p = None \<longleftrightarrow> instrs s p = None" "blocks s' b = None \<longleftrightarrow> blocks s b = None"
    "funs s' f = None \<longleftrightarrow> funs s f = None" "ilist s' = ilist s" "named_instr s' = named_instr s"
    "fblocks s' = fblocks s" "owner s' = owner s"
    "map_option seq_cnt (funs s' f) = map_option seq_cnt (funs s f)"
proof -
  have "dom (instrs s') = dom (instrs s)" "dom (blocks s') = dom (blocks s)" "dom (funs s') = dom (funs s)"
    using assms by (simp_all add: same_shape_def)
  then show "instrs s' p = None \<longleftrightarrow> instrs s p = None" "blocks s' b = None \<longleftrightarrow> blocks s b = None"
    "funs s' f = None \<longleftrightarrow> funs s f = None" by (metis domIff)+
qed (use assms in \<open>simp_all add: same_shape_def\<close>)

lemma same_shape_values:
  assumes "same_shape s s'"
  shows "values_of s' f = values_of s f" "members s' f = members s f" "block_values s' = block_values s"
proof -
  have "map_option (length \<circ> arg_names) (funs s' f) = map_option (length \<circ> arg_names) (funs s f)"
    using assms by (simp add: same_shape_def)
  then have "arg_values s' f = arg_values s f"
    by (cases "funs s f"; cases "funs s' f") (simp_all add: arg_values_def args_of_def)
  moreover show b: "block_values s' = block_values s"
  proof (rule ext)
    have "named_instr s' = named_instr s" "ilist s' = ilist s" using assms by (simp_all add: same_shape_def)
    then show "block_values s' b = block_values s b" for b by (simp add: block_values_def)
  qed
  ultimately show v: "values_of s' f = values_of s f"
    using assms by (simp add: values_of_def same_shape_def)
  show "members s' f = members s f" by (simp add: members_def v)
qed

section \<open>One value\<close>

text \<open>A value that has a slot for its name.\<close>

definition nameable :: "'z ir_scheme \<Rightarrow> val \<Rightarrow> bool" where
  "nameable s v \<longleftrightarrow> (case v of VArg f i \<Rightarrow> (\<exists>fn. funs s f = Some fn \<and> i < length (arg_names fn))
     | VBB b \<Rightarrow> blocks s b \<noteq> None | VInstr p \<Rightarrow> instrs s p \<noteq> None | _ \<Rightarrow> False)"

lemma nameable_shape: "same_shape s s' \<Longrightarrow> nameable s' v \<longleftrightarrow> nameable s v"
proof -
  assume sh: "same_shape s s'"
  have "(\<exists>fn. funs s' f = Some fn \<and> i < length (arg_names fn)) \<longleftrightarrow> (\<exists>fn. funs s f = Some fn \<and> i < length (arg_names fn))" for f i
  proof -
    have "map_option (length \<circ> arg_names) (funs s' f) = map_option (length \<circ> arg_names) (funs s f)"
      using sh by (simp add: same_shape_def)
    then show ?thesis by (cases "funs s f"; cases "funs s' f") auto
  qed
  moreover have "dom (blocks s') = dom (blocks s)" "dom (instrs s') = dom (instrs s)"
    using sh by (simp_all add: same_shape_def)
  ultimately show ?thesis by (auto simp: nameable_def dom_def set_eq_iff split: val.splits)
qed

lemma get_name_nameable: "nameable s v \<Longrightarrow> get_name s v = Inr (nm s v)"
  by (cases v) (auto simp: nameable_def nm_def)

lemma nm_write_name: "nameable s v \<Longrightarrow> nm (write_name s v n) = (nm s)(v := n)"
proof (rule ext)
  fix w assume "nameable s v"
  then show "nm (write_name s v n) w = ((nm s)(v := n)) w"
    by (cases v; cases w) (auto simp: nameable_def nm_def bnd_def deref_def ensure_def nth_list_update split: option.splits)
qed

lemma name_one_nameable:
  assumes "nameable s v"
  shows "name_one base pre v (seq, s) =
    Inr (if v \<in> set seq \<or> nm s v \<noteq> '''' then (seq, s)
         else (v # seq, write_name s v (pre @ show_nat (length seq + base))))"
  using assms by (auto simp: name_one_def set_name_def get_name_nameable)

section \<open>All values: the loops as one loop\<close>

fun name_all :: "nat \<Rightarrow> (string \<times> val) list \<Rightarrow> val list \<times> 'z ir_scheme \<Rightarrow> (val list \<times> 'z ir_scheme) res" where
  "name_all base [] st = Inr st"
| "name_all base ((pre, v) # xs) st = bnd (name_one base pre v st) (name_all base xs)"

lemma name_all_append: "name_all base (xs @ ys) st = bnd (name_all base xs st) (name_all base ys)"
  by (induction base xs st rule: name_all.induct) (auto simp: bnd_assoc intro!: bnd_cong)

lemma name_one_shape: "name_one base pre v (seq, s) = Inr (seq', s') \<Longrightarrow> same_shape s s'"
  by (auto simp: name_one_def set_name_def same_shape_refl write_name_shape split: if_splits)

lemma name_all_total:
  "\<forall>v \<in> snd ` set xs. nameable s v \<Longrightarrow> \<exists>seq' s'. name_all base xs (seq, s) = Inr (seq', s') \<and> same_shape s s'"
proof (induction xs arbitrary: seq s)
  case (Cons x xs)
  obtain pre v where x: "x = (pre, v)" by fastforce
  obtain seq1 s1 where one: "name_one base pre v (seq, s) = Inr (seq1, s1)"
    using name_one_nameable [of s v base pre seq] Cons.prems x by fastforce
  have sh: "same_shape s s1" by (rule name_one_shape [OF one])
  then obtain seq' s' where "name_all base xs (seq1, s1) = Inr (seq', s')" "same_shape s1 s'"
    using Cons.IH [of s1 seq1] Cons.prems nameable_shape [OF sh] by auto
  with one x show ?case using same_shape_trans [OF sh] by simp
qed (simp add: same_shape_refl)

lemma name_args_all: "name_args base as st = name_all base (map (Pair ''arg'') as) st"
  by (induction base as st rule: name_args.induct) (auto intro!: bnd_cong)

lemma name_instrs_all:
  "\<forall>p \<in> set ps. instrs s p \<noteq> None \<Longrightarrow>
     name_instrs base ps (seq, s) = name_all base (map (\<lambda>p. (''op'', VInstr p)) (filter (named_instr s) ps)) (seq, s)"
proof (induction ps arbitrary: seq s)
  case (Cons p ps)
  then obtain ins where ins: "instrs s p = Some ins" by auto
  have nm: "nameable s (VInstr p)" using ins by (simp add: nameable_def)
  have step: "name_instrs base ps (seq1, s1) =
      name_all base (map (\<lambda>p. (''op'', VInstr p)) (filter (named_instr s) ps)) (seq1, s1)"
    if "same_shape s s1" for seq1 s1
  proof -
    have "\<forall>p \<in> set ps. instrs s1 p \<noteq> None" "named_instr s1 = named_instr s"
      using same_shape_objects [OF that] Cons.prems by simp_all
    then show ?thesis using Cons.IH [of s1 seq1] by simp
  qed
  show ?case
  proof (cases "is_void_instr ins")
    case True
    then have "\<not> named_instr s p" using ins by (simp add: named_instr_def)
    with True show ?thesis using ins step [OF same_shape_refl] by simp
  next
    case False
    then have "name_instrs base (p # ps) (seq, s) = bnd (name_one base ''op'' (VInstr p) (seq, s)) (name_instrs base ps)"
      using ins by simp
    also have "\<dots> = bnd (name_one base ''op'' (VInstr p) (seq, s))
        (name_all base (map (\<lambda>p. (''op'', VInstr p)) (filter (named_instr s) ps)))"
      by (rule bnd_cong [OF HOL.refl]) (use step name_one_shape in force)
    moreover have "named_instr s p" using False ins by (simp add: named_instr_def)
    ultimately show ?thesis by simp
  qed
qed simp

lemma name_blocks_all:
  "\<forall>b \<in> set bs. blocks s b \<noteq> None \<and> (\<forall>p \<in> set (ilist s b). instrs s p \<noteq> None) \<Longrightarrow>
     name_blocks base bs (seq, s) = name_all base (concat (map (block_values s) bs)) (seq, s)"
proof (induction bs arbitrary: seq s)
  case (Cons b bs)
  obtain seq1 s1 where one: "name_one base ''label'' (VBB b) (seq, s) = Inr (seq1, s1)"
    using name_one_nameable [of s "VBB b"] Cons.prems by (fastforce simp: nameable_def)
  have sh1: "same_shape s s1" by (rule name_one_shape [OF one])
  then obtain k where k: "blocks s1 b = Some k" using Cons.prems same_shape_objects(2) by fastforce
  have il: "instr_list k = ilist s b"
    using k same_shape_objects(4) [OF sh1] by (metis ilist_def option.simps(5))
  have ex: "\<forall>p \<in> set (ilist s b). instrs s1 p \<noteq> None" "named_instr s1 = named_instr s"
    using same_shape_objects [OF sh1] Cons.prems by simp_all
  have tail: "name_blocks base bs (seq2, s2) = name_all base (concat (map (block_values s) bs)) (seq2, s2)"
    if "same_shape s s2" for seq2 s2
  proof -
    have "\<forall>b \<in> set bs. blocks s2 b \<noteq> None \<and> (\<forall>p \<in> set (ilist s2 b). instrs s2 p \<noteq> None)"
      using same_shape_objects [OF that] Cons.prems by simp
    then show ?thesis using Cons.IH same_shape_values(3) [OF that] by simp
  qed
  let ?ops = "map (\<lambda>p. (''op'', VInstr p)) (filter (named_instr s) (ilist s b))"
  have "name_blocks base (b # bs) (seq, s) = bnd (name_all base ?ops (seq1, s1)) (name_blocks base bs)"
    using one k il name_instrs_all [OF ex(1), of base seq1] ex(2) by simp
  also have "\<dots> = bnd (name_all base ?ops (seq1, s1)) (name_all base (concat (map (block_values s) bs)))"
  proof (rule bnd_cong [OF HOL.refl])
    fix st assume st: "name_all base ?ops (seq1, s1) = Inr st"
    obtain seq2 s2 where s2: "st = (seq2, s2)" by fastforce
    have "\<forall>v \<in> snd ` set ?ops. nameable s1 v" using ex(1) by (auto simp: nameable_def)
    from name_all_total [OF this, of base seq1] st s2 have "same_shape s1 s2" by auto
    with tail [OF same_shape_trans [OF sh1]] s2
    show "name_blocks base bs st = name_all base (concat (map (block_values s) bs)) st" by simp
  qed
  also have "\<dots> = name_all base (concat (map (block_values s) (b # bs))) (seq, s)"
    using one by (simp add: block_values_def name_all_append)
  finally show ?case .
qed simp

section \<open>The invariant of the names\<close>

text \<open>A name that was handed out with a number below \<open>k\<close>, or that the creator of a block chose
  (\<open>BasicBlock::create\<close> puts \<open>label_\<close> in front).\<close>

definition given :: "nat \<Rightarrow> string \<Rightarrow> bool" where
  "given k n \<longleftrightarrow> (\<exists>pre \<in> {''arg'', ''label'', ''op''}. \<exists>i < k. n = pre @ show_nat i) \<or> (\<exists>x. n = ''label_'' @ x)"

definition unique_names :: "val set \<Rightarrow> (val \<Rightarrow> string) \<Rightarrow> nat \<Rightarrow> bool" where
  "unique_names M N k \<longleftrightarrow> (\<forall>v \<in> M. N v \<noteq> '''' \<longrightarrow> given k (N v)) \<and>
     (\<forall>v \<in> M. \<forall>w \<in> M. N v = N w \<longrightarrow> N v \<noteq> '''' \<longrightarrow> v = w)"

definition names_ok :: "'z ir_scheme \<Rightarrow> nat \<Rightarrow> bool" where
  "names_ok s f \<longleftrightarrow> (\<exists>fn. funs s f = Some fn \<and> unique_names (members s f) (nm s) (seq_cnt fn))"

lemma underscore_no_digit: "show_nat k \<noteq> CHR ''_'' # x"
  using show_nat_digits [of "CHR ''_''" k] by (force simp: is_digit_def)

lemma given_fresh: "given k n \<Longrightarrow> pre \<in> {''arg'', ''label'', ''op''} \<Longrightarrow> n \<noteq> pre @ show_nat k"
  using underscore_no_digit [of k] by (auto simp: given_def)

lemma given_mono: "given k n \<Longrightarrow> k \<le> m \<Longrightarrow> given m n"
  unfolding given_def by (meson order_less_le_trans)

lemma unique_names_step:
  assumes "unique_names M N k" "pre \<in> {''arg'', ''label'', ''op''}" "N v = ''''"
  shows "unique_names M (N(v := pre @ show_nat k)) (Suc k)"
proof -
  have g: "given (Suc k) (pre @ show_nat k)" using assms(2) by (auto simp: given_def)
  have old: "given (Suc k) (N w)" "N w \<noteq> pre @ show_nat k" if "w \<in> M" "N w \<noteq> ''''" for w
    using assms(1) that given_mono [of k "N w" "Suc k"] given_fresh [OF _ assms(2)]
    by (auto simp: unique_names_def)
  have ne: "pre @ show_nat k \<noteq> ''''" by simp
  show ?thesis unfolding unique_names_def
  proof (intro conjI ballI impI)
    show "given (Suc k) ((N(v := pre @ show_nat k)) w)" if "w \<in> M" "(N(v := pre @ show_nat k)) w \<noteq> ''''" for w
      using that old(1) g by (cases "w = v") auto
    show "w = u" if wu: "w \<in> M" "u \<in> M" "(N(v := pre @ show_nat k)) w = (N(v := pre @ show_nat k)) u"
      "(N(v := pre @ show_nat k)) w \<noteq> ''''" for w u
    proof (cases "w = v \<or> u = v")
      case True
      have "False" if "w' \<in> M" "w' \<noteq> v" "N w' = pre @ show_nat k" for w'
        using old(2) [OF that(1)] that(3) ne by simp
      with True wu show ?thesis by (auto simp del: append_is_Nil_conv split: if_splits)
    next
      case False
      with wu have "N w = N u" "N w \<noteq> ''''" by simp_all
      with assms(1) wu(1,2) show ?thesis unfolding unique_names_def by blast
    qed
  qed
qed

lemma name_all_unique:
  assumes "name_all base xs (seq, s) = Inr (seq', s')" "\<forall>(pre, v) \<in> set xs. pre \<in> {''arg'', ''label'', ''op''}"
    and "\<forall>v \<in> snd ` set xs. nameable s v" "\<forall>v \<in> set seq. nm s v \<noteq> ''''"
    and "unique_names M (nm s) (length seq + base)"
  shows "unique_names M (nm s') (length seq' + base) \<and> (\<forall>v \<in> snd ` set xs. nm s' v \<noteq> '''') \<and>
    (\<forall>v. nm s v \<noteq> '''' \<longrightarrow> nm s' v = nm s v)"
  using assms
proof (induction xs arbitrary: seq s)
  case (Cons x xs)
  obtain pre v where x: "x = (pre, v)" by fastforce
  have nv: "nameable s v" and pre: "pre \<in> {''arg'', ''label'', ''op''}" using Cons.prems(2,3) x by auto
  define st where "st = (if v \<in> set seq \<or> nm s v \<noteq> '''' then (seq, s)
         else (v # seq, write_name s v (pre @ show_nat (length seq + base))))"
  obtain seq1 s1 where s1: "st = (seq1, s1)" by fastforce
  have one: "name_one base pre v (seq, s) = Inr (seq1, s1)"
    using name_one_nameable [OF nv] s1 by (simp add: st_def)
  have rest: "name_all base xs (seq1, s1) = Inr (seq', s')" using Cons.prems(1) one x by simp
  have sh: "same_shape s s1" by (rule name_one_shape [OF one])
  have nameable1: "\<forall>v \<in> snd ` set xs. nameable s1 v" using Cons.prems(3) nameable_shape [OF sh] by auto
  have step: "(\<forall>v \<in> set seq1. nm s1 v \<noteq> '''') \<and> unique_names M (nm s1) (length seq1 + base) \<and>
    nm s1 v \<noteq> '''' \<and> (\<forall>w. nm s w \<noteq> '''' \<longrightarrow> nm s1 w = nm s w)"
  proof (cases "v \<in> set seq \<or> nm s v \<noteq> ''''")
    case True
    with s1 Cons.prems(4,5) show ?thesis by (auto simp: st_def)
  next
    case False
    with s1 have eq: "seq1 = v # seq" "nm s1 = (nm s)(v := pre @ show_nat (length seq + base))"
      using nm_write_name [OF nv] by (auto simp: st_def)
    have "unique_names M (nm s1) (Suc (length seq + base))"
      unfolding eq(2) using False by (intro unique_names_step [OF Cons.prems(5) pre]) simp
    then show ?thesis using Cons.prems(4) False eq by auto
  qed
  have IH: "unique_names M (nm s') (length seq' + base) \<and> (\<forall>v \<in> snd ` set xs. nm s' v \<noteq> '''') \<and>
    (\<forall>v. nm s1 v \<noteq> '''' \<longrightarrow> nm s' v = nm s1 v)"
    by (rule Cons.IH [OF rest]) (use Cons.prems(2) nameable1 step in auto)
  have "nm s' v \<noteq> ''''" using IH step by metis
  moreover have "\<forall>w. nm s w \<noteq> '''' \<longrightarrow> nm s' w = nm s w" using IH step by metis
  ultimately show ?case using IH x by simp
qed simp

section \<open>The property\<close>

lemma seq_cnt_frame:
  assumes "funs s f = Some fn"
  shows "nm (s\<lparr>funs := (funs s)(f \<mapsto> fn\<lparr>seq_cnt := k\<rparr>)\<rparr>) = nm s"
    and "members (s\<lparr>funs := (funs s)(f \<mapsto> fn\<lparr>seq_cnt := k\<rparr>)\<rparr>) g = members s g"
proof -
  let ?t = "s\<lparr>funs := (funs s)(f \<mapsto> fn\<lparr>seq_cnt := k\<rparr>)\<rparr>"
  show "nm ?t = nm s"
  proof
    show "nm ?t v = nm s v" for v using assms by (cases v) (auto simp: nm_def)
  qed
  have "fblocks ?t = fblocks s" using assms by (auto simp: fblocks_def fun_eq_iff)
  moreover have "block_values ?t = block_values s"
    by (rule ext) (simp add: block_values_def ilist_def named_instr_def [abs_def])
  moreover have "arg_values ?t g = arg_values s g" using assms by (auto simp: arg_values_def args_of_def)
  ultimately show "members ?t g = members s g" by (simp add: members_def values_of_def)
qed

lemma heap_objects:
  assumes "heap_ok s"
  shows "b \<in> set (fblocks s f) \<Longrightarrow> blocks s b \<noteq> None" "p \<in> set (ilist s b) \<Longrightarrow> instrs s p \<noteq> None"
proof -
  have "owner s b = Some f \<longleftrightarrow> b \<in> set (fblocks s f)" using assms by (simp add: heap_ok_def)
  then show "b \<in> set (fblocks s f) \<Longrightarrow> blocks s b \<noteq> None" by (auto simp: owner_def)
  show "p \<in> set (ilist s b) \<Longrightarrow> instrs s p \<noteq> None" using assms by (fastforce simp: heap_ok_def)
qed

lemma values_nameable:
  assumes "heap_ok s" "v \<in> members s f"
  shows "nameable s v"
proof -
  show ?thesis using assms(2) heap_objects [OF assms(1)]
    by (cases "funs s f") (auto simp: members_def values_of_def arg_values_def args_of_def block_values_def nameable_def)
qed

lemma set_instr_name_all:
  assumes "heap_ok s" "funs s f = Some fn"
  shows "\<exists>seq' s1 fn1. name_all (seq_cnt fn) (values_of s f) ([], s) = Inr (seq', s1) \<and> same_shape s s1 \<and>
    funs s1 f = Some fn1 \<and> seq_cnt fn1 = seq_cnt fn \<and>
    set_instr_name f s = Inr (s1\<lparr>funs := (funs s1)(f \<mapsto> fn1\<lparr>seq_cnt := seq_cnt fn + length seq'\<rparr>)\<rparr>)"
proof -
  let ?base = "seq_cnt fn"
  have nameable: "\<forall>v \<in> snd ` set (values_of s f). nameable s v"
    using values_nameable [OF assms(1), of _ f] by (simp add: members_def)
  obtain seq' s1 where all: "name_all ?base (values_of s f) ([], s) = Inr (seq', s1)" "same_shape s s1"
    using name_all_total [OF nameable, of ?base "[]"] by blast
  obtain seq0 s0 where args: "name_all ?base (arg_values s f) ([], s) = Inr (seq0, s0)" "same_shape s s0"
    using name_all_total [of "arg_values s f" s ?base "[]"] nameable by (auto simp: values_of_def image_Un ball_Un)
  have ok: "\<forall>b \<in> set (fblocks s f). blocks s0 b \<noteq> None \<and> (\<forall>p \<in> set (ilist s0 b). instrs s0 p \<noteq> None)"
    using same_shape_objects [OF args(2)] heap_objects [OF assms(1)] by simp
  have "name_args ?base (args_of f fn) ([], s) = Inr (seq0, s0)"
    using args(1) assms(2) by (simp add: name_args_all arg_values_def)
  moreover have "name_blocks ?base (basic_blocks fn) (seq0, s0) = Inr (seq', s1)"
    using all(1) args(1) name_blocks_all [OF ok, of ?base seq0] assms(2) same_shape_values(3) [OF args(2)]
    by (simp add: values_of_def name_all_append fblocks_def)
  moreover obtain fn1 where "funs s1 f = Some fn1" "seq_cnt fn1 = seq_cnt fn"
    using same_shape_objects(8) [OF all(2), of f] assms(2) by auto
  ultimately show ?thesis using all assms(2) by (auto simp: set_instr_name_def)
qed

text \<open>C24: naming the values of a function always succeeds on a consistent heap; afterwards every
  argument, block and value-producing instruction of the function has a name and no two of them
  share one, names given before are kept, and the invariant holds again, so the same is true after
  any number of runs with instructions and blocks added or removed between them.\<close>

theorem set_instr_name_unique:
  assumes "heap_ok s" and "names_ok s f"
  shows "\<exists>s'. set_instr_name f s = Inr s' \<and> members s' f = members s f \<and> (\<forall>v \<in> members s' f. nm s' v \<noteq> '''') \<and>
    inj_on (nm s') (members s' f) \<and> (\<forall>v. nm s v \<noteq> '''' \<longrightarrow> nm s' v = nm s v) \<and> names_ok s' f"
proof -
  obtain fn where fn: "funs s f = Some fn" and un: "unique_names (members s f) (nm s) (seq_cnt fn)"
    using assms(2) by (auto simp: names_ok_def)
  obtain seq' s1 fn1 where all: "name_all (seq_cnt fn) (values_of s f) ([], s) = Inr (seq', s1)" "same_shape s s1"
    and f1: "funs s1 f = Some fn1" "seq_cnt fn1 = seq_cnt fn"
    and set: "set_instr_name f s = Inr (s1\<lparr>funs := (funs s1)(f \<mapsto> fn1\<lparr>seq_cnt := seq_cnt fn + length seq'\<rparr>)\<rparr>)"
    using set_instr_name_all [OF assms(1) fn] by blast
  let ?s' = "s1\<lparr>funs := (funs s1)(f \<mapsto> fn1\<lparr>seq_cnt := seq_cnt fn + length seq'\<rparr>)\<rparr>"
  have mem: "members ?s' f = members s f"
    using seq_cnt_frame(2) [OF f1(1)] same_shape_values(2) [OF all(2)] by simp
  have nm': "nm ?s' = nm s1" by (rule seq_cnt_frame(1) [OF f1(1)])
  have pres: "\<forall>(pre, v) \<in> set (values_of s f). pre \<in> {''arg'', ''label'', ''op''}"
    by (auto simp: values_of_def arg_values_def block_values_def split: option.splits)
  have "\<forall>v \<in> snd ` set (values_of s f). nameable s v"
    using values_nameable [OF assms(1), of _ f] by (simp add: members_def)
  from name_all_unique [OF all(1) pres this, of "members s f"] un
  have un': "unique_names (members s f) (nm s1) (length seq' + seq_cnt fn)"
    and named: "\<forall>v \<in> members s f. nm s1 v \<noteq> ''''" and kept: "\<forall>v. nm s v \<noteq> '''' \<longrightarrow> nm s1 v = nm s v"
    by (simp_all add: members_def)
  have "inj_on (nm s1) (members s f)"
    using un' named by (auto simp: inj_on_def unique_names_def)
  moreover have "names_ok ?s' f" using un' mem nm' by (simp add: names_ok_def add.commute)
  ultimately show ?thesis using set mem nm' named kept by simp
qed

text \<open>A function with one argument and one block that holds one instruction.\<close>

definition sample_ir :: ir where
  "sample_ir = \<lparr>operands = \<lambda>_. [], num_ops = \<lambda>_. 0, use_list = \<lambda>_. [], fp_count = 0, cached_float = [],
     next_id = 3, instrs = [2 \<mapsto> \<lparr>i_type = PtrTy INT32_T, i_op = Alloca, i_parent = 1, i_data = AllocaData INT32_T, i_name = ''''\<rparr>],
     blocks = [1 \<mapsto> \<lparr>bb_name = ''label_entry'', bb_parent = 0, pre_bbs = [], succ_bbs = [], instr_list = [2]\<rparr>],
     funs = [0 \<mapsto> \<lparr>f_name = ''f'', f_type = FunTy VoidTy [INT32_T], basic_blocks = [1], arg_names = [''''], seq_cnt = 0\<rparr>],
     gvars = Map.empty, global_list = [], function_list = [0]\<rparr>"

theorem set_instr_name_unique_witness:
  "heap_ok sample_ir \<and> names_ok sample_ir 0 \<and>
   (\<exists>s'. set_instr_name 0 sample_ir = Inr s' \<and> inj_on (nm s') (members s' 0) \<and> nm s' (VBB 1) = ''label_entry'')"
proof -
  have h: "heap_ok sample_ir"
    by (auto simp: sample_ir_def heap_ok_def fresh_ok_def ilist_def owner_def fblocks_def split: option.splits)
  have n: "names_ok sample_ir 0"
    by (auto simp: names_ok_def sample_ir_def unique_names_def members_def values_of_def arg_values_def args_of_def
      block_values_def nm_def given_def fblocks_def ilist_def split: if_splits)
  have "nm sample_ir (VBB 1) = ''label_entry''" by (simp add: sample_ir_def nm_def)
  with h n set_instr_name_unique [OF h n] show ?thesis by fastforce
qed

end
