(* ===== verification/IR_Literals.thy ===== *)
theory IR_Literals
  imports IR_Print
begin

text \<open>
  The text of the literals: a float constant is printed as the bits of a double, and that double is
  exactly the float; an integer constant is printed in decimal and read back to the same word.
\<close>

section \<open>Hexadecimal and decimal text\<close>

definition hex_value :: "char \<Rightarrow> nat" where
  "hex_value c = (let n = of_char c in if n \<le> 57 then n - 48 else n - 87)"

definition read_hex :: "string \<Rightarrow> nat" where
  "read_hex s = foldl (\<lambda>n c. 16 * n + hex_value c) 0 s"

lemma hex_value_digit: "d < 16 \<Longrightarrow> hex_value (hex_digit d) = d"
  by (simp add: hex_value_def hex_digit_def take_bit_eq_mod)

lemma read_show_hex [simp]: "read_hex (show_hex n) = n"
proof (induction n rule: show_hex.induct)
  case (1 n)
  show ?case
  proof (cases "n < 16")
    case True
    then show ?thesis by (subst show_hex.simps) (simp add: read_hex_def hex_value_digit)
  next
    case False
    have "read_hex (show_hex n) = 16 * read_hex (show_hex (n div 16)) + hex_value (hex_digit (n mod 16))"
      using False by (subst show_hex.simps) (simp add: read_hex_def)
    with 1 False show ?thesis by (simp add: hex_value_digit)
  qed
qed

section \<open>Doubles\<close>

text \<open>The fields of a double, and the value of a finite float and of a finite double in units of
  their smallest subnormal.\<close>

definition d_sign :: "nat \<Rightarrow> bool" where
  "d_sign d \<longleftrightarrow> d div 2 ^ 63 = 1"

definition d_exp :: "nat \<Rightarrow> nat" where
  "d_exp d = d div 2 ^ 52 mod 2 ^ 11"

definition d_frac :: "nat \<Rightarrow> nat" where
  "d_frac d = d mod 2 ^ 52"

definition d_units :: "nat \<Rightarrow> nat" where
  "d_units d = (if d_exp d = 0 then d_frac d else (2 ^ 52 + d_frac d) * 2 ^ (d_exp d - 1))"

definition f_units :: "float32 \<Rightarrow> nat" where
  "f_units v = (if f_exp v = 0 then f_frac v else (2 ^ 23 + f_frac v) * 2 ^ (f_exp v - 1))"

lemma double_fields:
  assumes "E < 2048" "F < 2 ^ 52"
  shows "d_exp ((if b then 2 ^ 63 else 0) + E * 2 ^ 52 + F) = E" "d_frac ((if b then 2 ^ 63 else 0) + E * 2 ^ 52 + F) = F"
    "d_sign ((if b then 2 ^ 63 else 0) + E * 2 ^ 52 + F) \<longleftrightarrow> b"
proof -
  let ?d = "(if b then 2 ^ 63 else 0) + E * 2 ^ 52 + F :: nat"
  define M X where "M = (2 :: nat) ^ 52" and "X = (if b then 2048 else 0) + E"
  have d: "?d = F + M * X" by (simp add: M_def X_def)
  have div: "?d div 2 ^ 52 = X" and m: "?d mod 2 ^ 52 = F"
  proof -
    have "F < M" using assms(2) by (simp add: M_def)
    then have aux: "(F + M * X) div M = X" "(F + M * X) mod M = F" by simp_all
    have "?d div M = X" "?d mod M = F" using aux by (simp_all only: d)
    then show "?d div 2 ^ 52 = X" "?d mod 2 ^ 52 = F" by (simp_all only: M_def)
  qed
  show "d_exp ?d = E" using assms(1) unfolding d_exp_def div X_def by simp
  show "d_frac ?d = F" unfolding d_frac_def by (rule m)
  have "?d div 2 ^ 63 = (?d div 2 ^ 52) div 2 ^ 11" by (simp only: div_mult2_eq [symmetric]) simp
  moreover have "X div 2 ^ 11 = (if b then 1 else 0)"
    using assms(1) div_add_self1 [of 2048 E] by (auto simp: X_def simp del: div_add_self1)
  ultimately show "d_sign ?d \<longleftrightarrow> b" unfolding d_sign_def div by simp
qed

lemma f_frac_bound: "f_frac v < 2 ^ 23"
  unfolding f_frac_def using take_bit_nat_less_exp [of 23 "unat v"] by (simp add: unsigned_take_bit_eq)

lemma f_exp_bound: "f_exp v < 256"
  unfolding f_exp_def using take_bit_nat_less_exp [of 8 "unat (drop_bit 23 v)"] by (simp add: unsigned_take_bit_eq)

lemma bit_len_bounds: "n \<noteq> 0 \<Longrightarrow> 2 ^ (bit_len n - 1) \<le> n \<and> n < 2 ^ bit_len n \<and> bit_len n \<noteq> 0"
proof (induction n rule: bit_len.induct)
  case (1 n)
  then have len: "bit_len n = Suc (bit_len (n div 2))" by (simp add: bit_len.simps)
  show ?case
  proof (cases "n div 2 = 0")
    case True
    then have "n = 1" using 1(2) by linarith
    then show ?thesis by (simp add: bit_len.simps)
  next
    case False
    from 1(1) [OF 1(2) False] obtain k where k: "bit_len (n div 2) = Suc k" "2 ^ k \<le> n div 2" "n div 2 < 2 ^ Suc k"
      by (cases "bit_len (n div 2)") auto
    then show ?thesis unfolding len k(1) by simp linarith
  qed
qed

section \<open>The literal of a float\<close>

lemma double_bits_fields:
  assumes "f_exp v \<noteq> 255"
  shows "d_sign (double_bits v) \<longleftrightarrow> f_sign v" "d_units (double_bits v) = f_units v * 2 ^ 925"
proof -
  have f: "f_frac v < 2 ^ 23" and e: "f_exp v < 255" using f_frac_bound f_exp_bound [of v] assms by simp_all
  obtain E F where d: "double_bits v = (if f_sign v then 2 ^ 63 else 0) + E * 2 ^ 52 + F" and EF: "E < 2048" "F < 2 ^ 52"
    and u: "(if E = 0 then F else (2 ^ 52 + F) * 2 ^ (E - 1)) = f_units v * 2 ^ 925"
  proof (cases "f_exp v = 0")
    case exp0: True
    show ?thesis
    proof (cases "f_frac v = 0")
      case True
      then show ?thesis using exp0 by (intro that [of 0 0]) (simp_all add: double_bits_def f_units_def)
    next
      case False
      define k where "k = bit_len (f_frac v) - 1"
      have k_eq: "bit_len (f_frac v) - Suc 0 = k" by (simp add: k_def)
      have k: "2 ^ k \<le> f_frac v" "f_frac v < 2 ^ Suc k"
        using bit_len_bounds [OF False] by (auto simp: k_def)
      have k23: "k < 23" using k(1) f by (metis order_le_less_trans power_less_imp_less_exp one_less_numeral_iff semiring_norm(76))
      have "(f_frac v - 2 ^ k) * 2 ^ (52 - k) < 2 ^ k * 2 ^ (52 - k)" using k by simp
      also have "\<dots> = 2 ^ 52" using k23 by (simp flip: power_add)
      finally have F: "(f_frac v - 2 ^ k) * 2 ^ (52 - k) < 2 ^ 52" .
      have "2 ^ 52 + (f_frac v - 2 ^ k) * 2 ^ (52 - k) = 2 ^ k * 2 ^ (52 - k) + (f_frac v - 2 ^ k) * 2 ^ (52 - k)"
        using k23 by (simp flip: power_add)
      also have "\<dots> = f_frac v * 2 ^ (52 - k)" using k(1) by (simp flip: distrib_right)
      finally have "(2 ^ 52 + (f_frac v - 2 ^ k) * 2 ^ (52 - k)) * 2 ^ (k + 873) = f_frac v * (2 ^ (52 - k) * 2 ^ (k + 873))"
        by simp
      also have "(2::nat) ^ (52 - k) * 2 ^ (k + 873) = 2 ^ 925" using k23 by (simp flip: power_add)
      finally show ?thesis using False exp0 k23 F
        by (intro that [of "k + 874" "(f_frac v - 2 ^ k) * 2 ^ (52 - k)"])
          (simp_all add: double_bits_def f_units_def Let_def k_eq add.commute del: power_numeral)
    qed
  next
    case False
    then obtain m where m: "f_exp v = Suc m" by (cases "f_exp v") auto
    have "(2::nat) ^ 52 + f_frac v * 2 ^ 29 = (2 ^ 23 + f_frac v) * 2 ^ 29" by (simp add: distrib_right)
    then have "(2 ^ 52 + f_frac v * 2 ^ 29) * 2 ^ (m + 896) = (2 ^ 23 + f_frac v) * (2 ^ 29 * 2 ^ (m + 896))" by simp
    also have "(2::nat) ^ 29 * 2 ^ (m + 896) = 2 ^ m * 2 ^ 925" by (simp only: power_add [symmetric]) (simp add: add.commute)
    finally show ?thesis using m e f
      by (intro that [of "m + 897" "f_frac v * 2 ^ 29"]) (simp_all add: double_bits_def f_units_def Let_def add.commute mult.assoc)
  qed
  show "d_sign (double_bits v) \<longleftrightarrow> f_sign v" unfolding d by (rule double_fields(3) [OF EF])
  show "d_units (double_bits v) = f_units v * 2 ^ 925"
    unfolding d_units_def d double_fields(1,2) [OF EF] by (rule u)
qed

text \<open>C25: the text of a finite float constant is \<open>0x\<close> and the bits of a double with the same
  sign and exactly the same value, subnormal floats included (one unit of a float is \<open>2 ^ 925\<close>
  units of a double), so no literal changes its value on the way into the text.\<close>

theorem print_float_exact:
  assumes "f_exp v \<noteq> 255"
  shows "\<exists>s. print_const (CFP v k) = ''0x'' @ s \<and> d_sign (read_hex s) = f_sign v \<and>
    d_units (read_hex s) = f_units v * 2 ^ 925"
  using double_bits_fields [OF assms] by (intro exI [of _ "show_hex (double_bits v)"]) (simp add: print_fp_def)

theorem print_float_exact_witness:
  "f_exp 1 \<noteq> 255 \<and> (\<exists>s. print_const (CFP 1 0) = ''0x'' @ s \<and> d_units (read_hex s) = 2 ^ 925)"
proof -
  have e: "f_exp 1 = 0" and u: "f_units 1 = 1"
    by (simp_all add: f_exp_def f_units_def f_frac_def)
  from e have ne: "f_exp 1 \<noteq> 255" by simp
  obtain s where "print_const (CFP 1 0) = ''0x'' @ s" "d_units (read_hex s) = f_units 1 * 2 ^ 925"
    using print_float_exact [OF ne, of 0] by blast
  with ne u show ?thesis by simp
qed

end
