(* ===== verification/GVN_Expr.thy ===== *)
theory GVN_Expr
  imports Func_Info Float_Arith "HOL-Library.Signed_Division"
begin

text \<open>
  The expressions of global value numbering (\<open>optimization/GVN.h\<close>): the constant folder,
  the classes under \<open>Expression\<close>, their equality and their text.
\<close>

section \<open>The constant folder\<close>

text \<open>\<open>get_const_int_value\<close> and \<open>get_const_fp_value\<close>: a \<open>dynamic_cast\<close> whose
  result is used without a check.\<close>

definition int_arg :: "const option \<Rightarrow> 32 word res" where
  "int_arg c = deref (case c of None \<Rightarrow> None | Some c \<Rightarrow> int_value c)"

definition fp_arg :: "const option \<Rightarrow> float32 res" where
  "fp_arg c = (case c of Some (CFP v n) \<Rightarrow> Inr v | _ \<Rightarrow> Inl NullDeref)"

text \<open>The C++ operators on \<open>int\<close>; the compiler is built without trapping or sanitizing
  overflow, so it wraps. A division that has no result traps.\<close>

fun int_fold :: "opid \<Rightarrow> 32 word \<Rightarrow> 32 word \<Rightarrow> 32 word res" where
  "int_fold Add a b = Inr (a + b)"
| "int_fold Sub a b = Inr (a - b)"
| "int_fold Mul a b = Inr (a * b)"
| "int_fold Sdiv a b =
     (if b = 0 \<or> sint a = - (2 ^ 31) \<and> sint b = - 1 then Inl Trap else Inr (word_of_int (sint a sdiv sint b)))"
| "int_fold _ a b = Inl BadCast"

fun fp_fold :: "opid \<Rightarrow> float32 \<Rightarrow> float32 \<Rightarrow> float32" where
  "fp_fold Fadd a b = ieee_add a b"
| "fp_fold Fsub a b = ieee_sub a b"
| "fp_fold Fmul a b = ieee_mul a b"
| "fp_fold Fdiv a b = ieee_div a b"
| "fp_fold _ a b = 0"

fun cmp_int :: "cmpop \<Rightarrow> 32 word \<Rightarrow> 32 word \<Rightarrow> bool" where
  "cmp_int EQ a b \<longleftrightarrow> sint a = sint b"
| "cmp_int NE a b \<longleftrightarrow> sint a \<noteq> sint b"
| "cmp_int GT a b \<longleftrightarrow> sint a > sint b"
| "cmp_int GE a b \<longleftrightarrow> sint a \<ge> sint b"
| "cmp_int LT a b \<longleftrightarrow> sint a < sint b"
| "cmp_int LE a b \<longleftrightarrow> sint a \<le> sint b"

fun cmp_fp :: "cmpop \<Rightarrow> float32 \<Rightarrow> float32 \<Rightarrow> bool" where
  "cmp_fp EQ a b \<longleftrightarrow> float_eq a b"
| "cmp_fp NE a b \<longleftrightarrow> \<not> float_eq a b"
| "cmp_fp GT a b \<longleftrightarrow> float_lt b a"
| "cmp_fp GE a b \<longleftrightarrow> float_le b a"
| "cmp_fp LT a b \<longleftrightarrow> float_lt a b"
| "cmp_fp LE a b \<longleftrightarrow> float_le a b"

definition int_binop :: "opid \<Rightarrow> bool" where
  "int_binop opc \<longleftrightarrow> opc \<in> {Add, Sub, Mul, Sdiv}"

definition fp_binop :: "opid \<Rightarrow> bool" where
  "fp_binop opc \<longleftrightarrow> opc \<in> {Fadd, Fsub, Fmul, Fdiv}"

text \<open>\<open>compute(OpID, Constant*, Constant*)\<close>; a null result stands for any other operation.\<close>

definition compute_op :: "opid \<Rightarrow> const option \<Rightarrow> const option \<Rightarrow> 'z const_state_scheme \<Rightarrow> (const option \<times> 'z const_state_scheme) res" where
  "compute_op opc c1 c2 s =
     (if int_binop opc then
        bnd (int_arg c1) (\<lambda>a. bnd (int_arg c2) (\<lambda>b. bnd (int_fold opc a b) (\<lambda>r. Inr (Some (CInt r), s))))
      else if fp_binop opc then
        bnd (fp_arg c1) (\<lambda>a. bnd (fp_arg c2) (\<lambda>b.
        let (c, s) = ConstantFP_get (fp_fold opc a b) s in Inr (Some c, s)))
      else Inr (None, s))"

text \<open>\<open>compute(Instruction*, Constant*, Constant*)\<close>.\<close>

definition compute_instr :: "instr \<Rightarrow> const option \<Rightarrow> const option \<Rightarrow> 'z const_state_scheme \<Rightarrow> (const option \<times> 'z const_state_scheme) res" where
  "compute_instr ins c1 c2 s =
     (if i_op ins = Cmp then
        case i_data ins of
          CmpData c \<Rightarrow> bnd (int_arg c1) (\<lambda>a. bnd (int_arg c2) (\<lambda>b. Inr (Some (CBool (cmp_int c a b)), s)))
        | _ \<Rightarrow> Inl NullDeref
      else if i_op ins = Fcmp then
        case i_data ins of
          CmpData c \<Rightarrow> bnd (fp_arg c1) (\<lambda>a. bnd (fp_arg c2) (\<lambda>b. Inr (Some (CBool (cmp_fp c a b)), s)))
        | _ \<Rightarrow> Inl NullDeref
      else compute_op (i_op ins) c1 c2 s)"

text \<open>\<open>compute(Instruction*, Constant*)\<close>.\<close>

definition compute_cast :: "instr \<Rightarrow> const option \<Rightarrow> 'z const_state_scheme \<Rightarrow> (const option \<times> 'z const_state_scheme) res" where
  "compute_cast ins c s =
     (if i_op ins = Sitofp then
        bnd (int_arg c) (\<lambda>a. let (c, s) = ConstantFP_get (float_of_int a) s in Inr (Some c, s))
      else if i_op ins = Fptosi then bnd (fp_arg c) (\<lambda>a. Inr (Some (CInt (int_of_float a)), s))
      else if i_op ins = Zext then bnd (int_arg c) (\<lambda>a. Inr (Some (CInt a), s))
      else Inr (None, s))"

section \<open>Expressions\<close>

datatype ekind = KConst | KBin | KPhi | KSingle | KFunc | KCmp | KFCmp | KTrans | KGep

text \<open>The subclasses of \<open>Expression\<close>. A \<open>ConstantExpression\<close> can hold a null pointer, a
  \<open>PhiExpression\<close> a member of its class, a \<open>FuncExpression\<close> the callee, the
  arguments, the purity and the instruction. The vectors of operands can hold null pointers.\<close>

datatype expr =
    ConstE "const option"
  | BinE opid expr expr
  | PhiE val expr expr
  | SingleE val
  | FuncE val "expr option list" bool nat
  | CmpE cmpop expr expr
  | FCmpE cmpop expr expr
  | TransE opid expr
  | GepE ty "expr option list"

fun get_expr_type :: "expr \<Rightarrow> ekind" where
  "get_expr_type (ConstE c) = KConst"
| "get_expr_type (BinE opc a b) = KBin"
| "get_expr_type (PhiE x a b) = KPhi"
| "get_expr_type (SingleE v) = KSingle"
| "get_expr_type (FuncE f as p x) = KFunc"
| "get_expr_type (CmpE c a b) = KCmp"
| "get_expr_type (FCmpE c a b) = KFCmp"
| "get_expr_type (TransE opc a) = KTrans"
| "get_expr_type (GepE t as) = KGep"

text \<open>The two \<open>operator==\<close> and the methods \<open>equiv\<close> of the subclasses. A phi is compared
  by its two sides only; calls are equal if they are the same instruction, or both pure with the
  same callee and arguments.\<close>

fun expr_eq :: "expr \<Rightarrow> expr \<Rightarrow> bool" and exprs_eq :: "expr option list \<Rightarrow> expr option list \<Rightarrow> bool" where
  "expr_eq (ConstE c) (ConstE c') \<longleftrightarrow> c = c'"
| "expr_eq (BinE opc a b) (BinE opc' a' b') \<longleftrightarrow> opc = opc' \<and> expr_eq a a' \<and> expr_eq b b'"
| "expr_eq (PhiE x a b) (PhiE x' a' b') \<longleftrightarrow> expr_eq a a' \<and> expr_eq b b'"
| "expr_eq (SingleE v) (SingleE v') \<longleftrightarrow> v = v'"
| "expr_eq (FuncE f as p x) (FuncE f' as' p' x') \<longleftrightarrow>
     x = x' \<or> p \<and> p' \<and> f = f' \<and> length as = length as' \<and> exprs_eq as as'"
| "expr_eq (CmpE c a b) (CmpE c' a' b') \<longleftrightarrow> c = c' \<and> expr_eq a a' \<and> expr_eq b b'"
| "expr_eq (FCmpE c a b) (FCmpE c' a' b') \<longleftrightarrow> c = c' \<and> expr_eq a a' \<and> expr_eq b b'"
| "expr_eq (TransE opc a) (TransE opc' a') \<longleftrightarrow> opc = opc' \<and> expr_eq a a'"
| "expr_eq (GepE t as) (GepE t' as') \<longleftrightarrow> t = t' \<and> length as = length as' \<and> exprs_eq as as'"
| "expr_eq _ _ \<longleftrightarrow> False"
| "exprs_eq [] _ \<longleftrightarrow> True"
| "exprs_eq (a # as) [] \<longleftrightarrow> True"
| "exprs_eq (None # as) (b # bs) \<longleftrightarrow> b = None \<and> exprs_eq as bs"
| "exprs_eq (Some a # as) (b # bs) \<longleftrightarrow> (case b of None \<Rightarrow> False | Some b \<Rightarrow> expr_eq a b) \<and> exprs_eq as bs"

definition ptr_eq :: "expr option \<Rightarrow> expr option \<Rightarrow> bool" where
  "ptr_eq a b = (case (a, b) of (None, None) \<Rightarrow> True | (Some a, Some b) \<Rightarrow> expr_eq a b | _ \<Rightarrow> False)"

section \<open>Text\<close>

text \<open>The static \<open>Instruction::get_instr_op_name\<close>.\<close>

fun op_name :: "opid \<Rightarrow> string" where
  "op_name Cmp = ''cmp''"
| "op_name opc = get_instr_op_name opc"

text \<open>The virtual \<open>Value::print\<close>.\<close>

fun print_value :: "'z ir_scheme \<Rightarrow> val \<Rightarrow> string res" where
  "print_value s VNull = Inl NullDeref"
| "print_value s (VConst c) = Inr (print_const c)"
| "print_value s (VGlobal g) = print_global s g"
| "print_value s (VFun f) = bnd (print_function f s) (\<lambda>(t, s). Inr t)"
| "print_value s (VArg f i) = print_argument s (VArg f i)"
| "print_value s (VBB b) = print_block s b"
| "print_value s (VInstr p) = print_instr s p"

fun print_expr :: "'z ir_scheme \<Rightarrow> expr \<Rightarrow> string res" where
  "print_expr s (ConstE c) = bnd (deref c) (\<lambda>c. lit (print_const c))"
| "print_expr s (BinE opc a b) =
     appends [lit ''('', lit (op_name opc), lit '' '', print_expr s a, lit '' '', print_expr s b, lit '')'']"
| "print_expr s (PhiE x a b) = appends [lit ''(phi '', print_expr s a, lit '' '', print_expr s b, lit '')'']"
| "print_expr s (SingleE v) = print_value s v"
| "print_expr s (FuncE f as p x) = lit ''func''"
| "print_expr s (CmpE c a b) = appends [lit ''(cmp '', print_expr s a, lit '' '', print_expr s b, lit '')'']"
| "print_expr s (FCmpE c a b) = appends [lit ''(fcmp '', print_expr s a, lit '' '', print_expr s b, lit '')'']"
| "print_expr s (TransE opc a) = appends [lit ''('', lit (op_name opc), lit '' '', print_expr s a, lit '')'']"
| "print_expr s (GepE t as) = lit ''gep''"

end
