(* ===== verification/GVN.thy ===== *)
theory GVN
  imports Dead_Code GVN_Expr
begin

text \<open>
  Global value numbering (\<open>optimization/GVN.h\<close>, \<open>GVN.cpp\<close>): congruence classes,
  partitions, the transfer function of an instruction, the join of two partitions, the iteration
  over the blocks and the replacement of class members by their leaders. The classes of a partition
  are shared between partitions by pointers in the source, but a class is changed only in the fresh
  clone that a block works on, so partitions are values here. The parameter \<open>adr\<close> gives the
  address of an object, which orders the sets and maps keyed by pointers.
\<close>

section \<open>Congruence classes and partitions\<close>

text \<open>The eight typed pointers \<open>value_const_\<close>, \<open>value_bin\<close>, and so on, are one field
  indexed by the kind. Sets of pointers are lists in the order of the addresses.\<close>

record cclass =
  cc_index :: nat
  leader :: val
  value_expr :: "expr option"
  value_as :: "ekind \<Rightarrow> expr option"
  members :: "val list"

type_synonym partition = "cclass list"

definition createCongruenceClass :: "nat \<Rightarrow> cclass" where
  "createCongruenceClass n = \<lparr>cc_index = n, leader = VNull, value_expr = None, value_as = (\<lambda>_. None), members = []\<rparr>"

text \<open>The assignment of the expression and of the pointer of its kind.\<close>

definition put_expr :: "expr \<Rightarrow> cclass \<Rightarrow> cclass" where
  "put_expr e cc = cc\<lparr>value_expr := Some e, value_as := (value_as cc)(get_expr_type e := Some e)\<rparr>"

fun set_insert :: "(val \<Rightarrow> nat) \<Rightarrow> val \<Rightarrow> val list \<Rightarrow> val list" where
  "set_insert adr v [] = [v]"
| "set_insert adr v (w # ws) =
     (if adr v < adr w then v # w # ws else if adr w < adr v then w # set_insert adr v ws else w # ws)"

definition set_erase :: "val \<Rightarrow> val list \<Rightarrow> val list" where
  "set_erase v ws = filter (\<lambda>w. w \<noteq> v) ws"

text \<open>A partition is ordered by the index; a class whose index is present is not inserted.\<close>

fun part_insert :: "cclass \<Rightarrow> partition \<Rightarrow> partition" where
  "part_insert cc [] = [cc]"
| "part_insert cc (c # cs) =
     (if cc_index cc < cc_index c then cc # c # cs
      else if cc_index c < cc_index cc then c # part_insert cc cs else c # cs)"

text \<open>\<open>members_.erase(x)\<close> in every class, then the loop that erases empty classes.\<close>

definition drop_member :: "val \<Rightarrow> partition \<Rightarrow> partition" where
  "drop_member v p =
     filter (\<lambda>cc. members cc \<noteq> []) (map (\<lambda>cc. cc\<lparr>members := set_erase v (members cc)\<rparr>) p)"

text \<open>\<open>operator==\<close> on classes and on partitions: the loop returns in its first round.\<close>

definition class_eq :: "cclass \<Rightarrow> cclass \<Rightarrow> bool" where
  "class_eq c d \<longleftrightarrow> members c = members d"

definition partitions_eq :: "partition \<Rightarrow> partition \<Rightarrow> bool" where
  "partitions_eq p1 p2 \<longleftrightarrow> length p1 = length p2 \<and> (case p1 of [] \<Rightarrow> True | i # is \<Rightarrow> list_ex (class_eq i) p2)"

section \<open>The state of the pass\<close>

text \<open>The maps \<open>pin_\<close> and \<open>pout_\<close> are keyed by block pointers, the null pointer
  included, in the order of the addresses. Reading with \<open>operator[]\<close> enters an empty partition
  for a missing key.\<close>

type_synonym bb_map = "(nat option \<times> partition) list"

record gvn = ir +
  next_value_number :: nat
  pin :: bb_map
  pout :: bb_map

text \<open>The pass on a module, before its first function.\<close>

definition new_gvn :: "ir \<Rightarrow> gvn" where
  "new_gvn s = ir.extend s \<lparr>next_value_number = 1, pin = [], pout = []\<rparr>"

definition key_adr :: "(val \<Rightarrow> nat) \<Rightarrow> nat option \<Rightarrow> nat" where
  "key_adr adr k = (case k of None \<Rightarrow> 0 | Some b \<Rightarrow> Suc (adr (VBB b)))"

fun map_put :: "(val \<Rightarrow> nat) \<Rightarrow> nat option \<Rightarrow> partition \<Rightarrow> bb_map \<Rightarrow> bb_map" where
  "map_put adr k p [] = [(k, p)]"
| "map_put adr k p ((l, q) # m) =
     (if key_adr adr k < key_adr adr l then (k, p) # (l, q) # m
      else if key_adr adr l < key_adr adr k then (l, q) # map_put adr k p m else (k, p) # m)"

definition pout_at :: "(val \<Rightarrow> nat) \<Rightarrow> nat option \<Rightarrow> 'z gvn_scheme \<Rightarrow> partition \<times> 'z gvn_scheme" where
  "pout_at adr k s =
     (case map_of (pout s) k of Some p \<Rightarrow> (p, s) | None \<Rightarrow> ([], s\<lparr>pout := map_put adr k [] (pout s)\<rparr>))"

definition set_pout :: "(val \<Rightarrow> nat) \<Rightarrow> nat \<Rightarrow> partition \<Rightarrow> 'z gvn_scheme \<Rightarrow> 'z gvn_scheme" where
  "set_pout adr b p s = s\<lparr>pout := map_put adr (Some b) p (pout s)\<rparr>"

definition set_pin :: "(val \<Rightarrow> nat) \<Rightarrow> nat \<Rightarrow> partition \<Rightarrow> 'z gvn_scheme \<Rightarrow> 'z gvn_scheme" where
  "set_pin adr b p s = s\<lparr>pin := map_put adr (Some b) p (pin s)\<rparr>"

definition fresh_number :: "'z gvn_scheme \<Rightarrow> nat \<times> 'z gvn_scheme" where
  "fresh_number s = (next_value_number s, s\<lparr>next_value_number := Suc (next_value_number s)\<rparr>)"

definition initPerFunction :: "'z gvn_scheme \<Rightarrow> 'z gvn_scheme" where
  "initPerFunction s = s\<lparr>next_value_number := 1, pin := [], pout := []\<rparr>"

section \<open>Join\<close>

text \<open>\<open>intersect\<close>: a class keeps its expression if both sides have the same one and else gets a
  phi of the two; the loops over the members give the common ones.\<close>

definition intersect_class :: "cclass \<Rightarrow> cclass \<Rightarrow> 'z gvn_scheme \<Rightarrow> (cclass \<times> 'z gvn_scheme) res" where
  "intersect_class ci cj s =
     bnd (if ptr_eq (value_expr ci) (value_expr cj)
          then bnd (deref (value_expr ci)) (\<lambda>e.
               let (n, s) = fresh_number s
               in Inr (put_expr e ((createCongruenceClass n)\<lparr>leader := leader ci\<rparr>), s))
          else Inr (createCongruenceClass 0, s)) (\<lambda>(cc, s).
     let ms = filter (\<lambda>v. v \<in> set (members cj)) (members ci); cc = cc\<lparr>members := ms\<rparr>
     in if ms \<noteq> [] \<and> cc_index cc = 0
        then bnd (deref (value_expr ci)) (\<lambda>a. bnd (deref (value_expr cj)) (\<lambda>b.
             let (n, s) = fresh_number s
             in Inr ((put_expr (PhiE (hd ms) a b) cc)\<lparr>cc_index := n, leader := hd ms\<rparr>, s)))
        else Inr (cc, s))"

fun join_row :: "cclass \<Rightarrow> partition \<Rightarrow> partition \<Rightarrow> 'z gvn_scheme \<Rightarrow> (partition \<times> 'z gvn_scheme) res" where
  "join_row ci [] p s = Inr (p, s)"
| "join_row ci (cj # cs) p s =
     bnd (intersect_class ci cj s) (\<lambda>(cc, s). join_row ci cs (if members cc \<noteq> [] then part_insert cc p else p) s)"

fun join_rows :: "partition \<Rightarrow> partition \<Rightarrow> partition \<Rightarrow> 'z gvn_scheme \<Rightarrow> (partition \<times> 'z gvn_scheme) res" where
  "join_rows [] p2 p s = Inr (p, s)"
| "join_rows (ci # cs) p2 p s = bnd (join_row ci p2 p s) (\<lambda>(p, s). join_rows cs p2 p s)"

definition has_top :: "partition \<Rightarrow> bool" where
  "has_top p = list_ex (\<lambda>cc. cc_index cc = 0) p"

definition join :: "partition \<Rightarrow> partition \<Rightarrow> 'z gvn_scheme \<Rightarrow> (partition \<times> 'z gvn_scheme) res" where
  "join p1 p2 s =
     (if p1 = [] \<or> p2 = [] then Inr ([], s)
      else if has_top p1 then Inr (p2, s)
      else if has_top p2 then Inr (p1, s)
      else join_rows p1 p2 [] s)"

section \<open>The expression of an instruction\<close>

text \<open>\<open>dynamic_cast<Constant*>\<close> on an operand.\<close>

fun as_const :: "val \<Rightarrow> const option" where
  "as_const (VConst c) = Some c"
| "as_const _ = None"

text \<open>The loop over all classes without a \<open>break\<close>: the last class that holds the operand
  counts.\<close>

fun class_expr :: "val \<Rightarrow> partition \<Rightarrow> expr option \<Rightarrow> expr option" where
  "class_expr v [] e = e"
| "class_expr v (cc # cs) e = class_expr v cs (if v \<in> set (members cc) then value_expr cc else e)"

definition folded :: "(const option \<times> 'z gvn_scheme) res \<Rightarrow> (expr \<times> 'z gvn_scheme) res" where
  "folded r = bnd r (\<lambda>(c, s). Inr (ConstE c, s))"

text \<open>The common body of \<open>binValueExpr\<close>, \<open>cmpValueExpr\<close> and \<open>fcmpValueExpr\<close>, which
  differ only in the expression at the end.\<close>

definition pairValueExpr :: "(expr \<Rightarrow> expr \<Rightarrow> expr res) \<Rightarrow> instr \<Rightarrow> nat \<Rightarrow> partition \<Rightarrow> 'z gvn_scheme \<Rightarrow> (expr \<times> 'z gvn_scheme) res" where
  "pairValueExpr mk ins x p s =
     bnd (get_operand s (VInstr x) 0) (\<lambda>l. bnd (get_operand s (VInstr x) 1) (\<lambda>r.
     case (as_const l, as_const r) of
       (Some a, Some b) \<Rightarrow> folded (compute_instr ins (Some a) (Some b) s)
     | (lconst, rconst) \<Rightarrow>
       (case (lconst, class_expr l p None, rconst, class_expr r p None) of
          (Some a, _, _, Some (ConstE b)) \<Rightarrow> folded (compute_instr ins (Some a) b s)
        | (_, Some (ConstE a), Some b, _) \<Rightarrow> folded (compute_instr ins a (Some b) s)
        | (_, Some (ConstE a), _, Some (ConstE b)) \<Rightarrow> folded (compute_instr ins a b s)
        | (_, lop, _, rop) \<Rightarrow>
            bnd (mk (case lconst of Some a \<Rightarrow> ConstE (Some a)
                     | None \<Rightarrow> (case lop of Some e \<Rightarrow> e | None \<Rightarrow> SingleE l))
                    (case rconst of Some b \<Rightarrow> ConstE (Some b)
                     | None \<Rightarrow> (case rop of Some e \<Rightarrow> e | None \<Rightarrow> SingleE r))) (\<lambda>e. Inr (e, s)))))"

definition cmp_op_of :: "instr \<Rightarrow> cmpop res" where
  "cmp_op_of ins = (case i_data ins of CmpData c \<Rightarrow> Inr c | _ \<Rightarrow> Inl NullDeref)"

definition binValueExpr :: "instr \<Rightarrow> nat \<Rightarrow> partition \<Rightarrow> 'z gvn_scheme \<Rightarrow> (expr \<times> 'z gvn_scheme) res" where
  "binValueExpr ins = pairValueExpr (\<lambda>a b. Inr (BinE (i_op ins) a b)) ins"

definition cmpValueExpr :: "instr \<Rightarrow> nat \<Rightarrow> partition \<Rightarrow> 'z gvn_scheme \<Rightarrow> (expr \<times> 'z gvn_scheme) res" where
  "cmpValueExpr ins = pairValueExpr (\<lambda>a b. bnd (cmp_op_of ins) (\<lambda>c. Inr (CmpE c a b))) ins"

definition fcmpValueExpr :: "instr \<Rightarrow> nat \<Rightarrow> partition \<Rightarrow> 'z gvn_scheme \<Rightarrow> (expr \<times> 'z gvn_scheme) res" where
  "fcmpValueExpr ins = pairValueExpr (\<lambda>a b. bnd (cmp_op_of ins) (\<lambda>c. Inr (FCmpE c a b))) ins"

definition transValueExpr :: "instr \<Rightarrow> nat \<Rightarrow> partition \<Rightarrow> 'z gvn_scheme \<Rightarrow> (expr \<times> 'z gvn_scheme) res" where
  "transValueExpr ins x p s =
     bnd (get_operand s (VInstr x) 0) (\<lambda>v.
     case as_const v of
       Some c \<Rightarrow> folded (compute_cast ins (Some c) s)
     | None \<Rightarrow>
       (case class_expr v p None of
          Some (ConstE c) \<Rightarrow> folded (compute_cast ins c s)
        | Some e \<Rightarrow> Inr (TransE (i_op ins) e, s)
        | None \<Rightarrow> Inr (TransE (i_op ins) (SingleE (VInstr x)), s)))"

text \<open>The operands of a call or an address: a constant as such, else the expression of every class
  that holds the operand; an operand of no class is left out.\<close>

definition operand_exprs :: "partition \<Rightarrow> val \<Rightarrow> expr option list" where
  "operand_exprs p v =
     (case as_const v of
        Some c \<Rightarrow> [Some (ConstE (Some c))]
      | None \<Rightarrow> map value_expr (filter (\<lambda>cc. v \<in> set (members cc)) p))"

definition gepValueExpr :: "instr \<Rightarrow> nat \<Rightarrow> partition \<Rightarrow> 'z gvn_scheme \<Rightarrow> (expr \<times> 'z gvn_scheme) res" where
  "gepValueExpr ins x p s =
     (let es = concat (map (operand_exprs p) (operands s (VInstr x)))
      in case i_data ins of GepData t \<Rightarrow> Inr (GepE t es, s) | _ \<Rightarrow> Inl NullDeref)"

definition funcValueExpr :: "(nat \<Rightarrow> bool option) \<Rightarrow> nat \<Rightarrow> partition \<Rightarrow> 'z gvn_scheme \<Rightarrow> (expr \<times> 'z gvn_scheme) res" where
  "funcValueExpr pure x p s =
     (let es = concat (map (operand_exprs p) (drop 1 (operands s (VInstr x))))
      in bnd (get_operand s (VInstr x) 0) (\<lambda>f.
         case f of
           VFun g \<Rightarrow> bnd (is_pure_function pure g) (\<lambda>b. Inr (FuncE f es b x, s))
         | _ \<Rightarrow> Inl OutOfRange))"

definition valueExpr :: "(nat \<Rightarrow> bool option) \<Rightarrow> nat \<Rightarrow> partition \<Rightarrow> 'z gvn_scheme \<Rightarrow> (expr \<times> 'z gvn_scheme) res" where
  "valueExpr pure x p s =
     bnd (deref (instrs s x)) (\<lambda>ins.
     if is_binary s x ins then binValueExpr ins x p s
     else if i_op ins = Call then funcValueExpr pure x p s
     else if i_op ins = Cmp then cmpValueExpr ins x p s
     else if i_op ins = Fcmp then fcmpValueExpr ins x p s
     else if i_op ins \<in> {Sitofp, Fptosi, Zext} then transValueExpr ins x p s
     else if i_op ins = Getelementptr then gepValueExpr ins x p s
     else Inr (SingleE (VInstr x), s))"

text \<open>\<open>getVN\<close>: the expression of the first class with an equal one.\<close>

fun getVN :: "partition \<Rightarrow> expr \<Rightarrow> expr option" where
  "getVN [] e = None"
| "getVN (cc # cs) e =
     (case value_expr cc of
        Some e' \<Rightarrow> if expr_eq e' e then Some e' else getVN cs e
      | None \<Rightarrow> getVN cs e)"

text \<open>One side of \<open>valuePhiFunc\<close>: the operation on two sides of the phis, folded if both are
  constants.\<close>

definition side_expr :: "opid \<Rightarrow> expr \<Rightarrow> expr \<Rightarrow> 'z gvn_scheme \<Rightarrow> (expr \<times> 'z gvn_scheme) res" where
  "side_expr opc a b s =
     (case (a, b) of
        (ConstE c, ConstE d) \<Rightarrow> folded (compute_op opc c d s)
      | _ \<Rightarrow> Inr (BinE opc a b, s))"

text \<open>The block that operand \<open>i\<close> of a phi names; \<open>dynamic_cast\<close> gives null for anything
  else.\<close>

definition phi_block :: "'z users_scheme \<Rightarrow> val \<Rightarrow> nat \<Rightarrow> nat option res" where
  "phi_block s v i =
     (case v of
        VInstr p \<Rightarrow> bnd (get_operand s v i) (\<lambda>w. Inr (case w of VBB b \<Rightarrow> Some b | _ \<Rightarrow> None))
      | _ \<Rightarrow> Inl NullDeref)"

text \<open>The recursive call sees a smaller expression; for a constant or any other expression it
  returns null.\<close>

fun valuePhiFunc :: "(val \<Rightarrow> nat) \<Rightarrow> expr \<Rightarrow> 'z gvn_scheme \<Rightarrow> (expr option \<times> 'z gvn_scheme) res" where
  "valuePhiFunc adr (BinE opc (PhiE x a b) (PhiE y c d)) s =
     bnd (side_expr opc a c s) (\<lambda>(le, s).
     bnd (phi_block s x 1) (\<lambda>k.
     let (p, s) = pout_at adr k s
     in bnd (case getVN p le of
               Some e \<Rightarrow> Inr (Some e, s)
             | None \<Rightarrow> if get_expr_type le = KBin then valuePhiFunc adr (BinE opc a c) s else Inr (None, s)) (\<lambda>(vi, s).
     bnd (side_expr opc b d s) (\<lambda>(re, s).
     bnd (phi_block s x 3) (\<lambda>k.
     let (p, s) = pout_at adr k s
     in bnd (case getVN p re of
               Some e \<Rightarrow> Inr (Some e, s)
             | None \<Rightarrow> if get_expr_type re = KBin then valuePhiFunc adr (BinE opc b d) s else Inr (None, s)) (\<lambda>(vj, s).
     Inr (case (vi, vj) of (Some a, Some b) \<Rightarrow> Some (PhiE x a b) | _ \<Rightarrow> None, s)))))))"
| "valuePhiFunc adr _ s = Inr (None, s)"

end
