(* ===== verification/GVN_Pass.thy ===== *)
theory GVN_Pass
  imports GVN
begin

text \<open>
  The second half of \<open>GVN.cpp\<close>: the transfer function, the iteration over the blocks, the
  replacement of members, the text of partitions and the pass as a whole.
\<close>

section \<open>The transfer function\<close>

text \<open>A class matches if it has an equal expression of the same kind.\<close>

definition class_matches :: "expr \<Rightarrow> cclass \<Rightarrow> bool" where
  "class_matches e cc = (case value_as cc (get_expr_type e) of Some e' \<Rightarrow> expr_eq e' e | None \<Rightarrow> False)"

text \<open>The class of an instruction that matches none: a constant leads its class.\<close>

definition new_class_of :: "nat \<Rightarrow> expr \<Rightarrow> nat \<Rightarrow> cclass" where
  "new_class_of n e x =
     put_expr e ((createCongruenceClass n)\<lparr>members := [VInstr x],
       leader := (case e of ConstE c \<Rightarrow> (case c of Some c \<Rightarrow> VConst c | None \<Rightarrow> VNull) | _ \<Rightarrow> VInstr x)\<rparr>)"

definition transferFunction ::
  "(val \<Rightarrow> nat) \<Rightarrow> (nat \<Rightarrow> bool option) \<Rightarrow> nat \<Rightarrow> partition \<Rightarrow> 'z gvn_scheme \<Rightarrow> (partition \<times> 'z gvn_scheme) res" where
  "transferFunction adr pure x p s =
     bnd (deref (instrs s x)) (\<lambda>ins.
     if is_void_instr ins \<or> i_op ins = Phi then Inr (p, s)
     else
       bnd (valueExpr pure x p s) (\<lambda>(ve, s).
       bnd (valuePhiFunc adr ve s) (\<lambda>(vpf, s).
       let ve = (case vpf of Some e \<Rightarrow> e | None \<Rightarrow> ve);
           q = drop_member (VInstr x) p
       in if list_ex (class_matches ve) q
          then Inr (map (\<lambda>cc. if class_matches ve cc then cc\<lparr>members := set_insert adr (VInstr x) (members cc)\<rparr> else cc) q, s)
          else let (n, s) = fresh_number s in Inr (part_insert (new_class_of n ve x) q, s))))"

fun transfers ::
  "(val \<Rightarrow> nat) \<Rightarrow> (nat \<Rightarrow> bool option) \<Rightarrow> nat list \<Rightarrow> partition \<Rightarrow> 'z gvn_scheme \<Rightarrow> (partition \<times> 'z gvn_scheme) res" where
  "transfers adr pure [] p s = Inr (p, s)"
| "transfers adr pure (x # xs) p s = bnd (transferFunction adr pure x p s) (\<lambda>(p, s). transfers adr pure xs p s)"

text \<open>Every global variable and every argument is a class of its own.\<close>

fun single_classes :: "val list \<Rightarrow> partition \<Rightarrow> 'z gvn_scheme \<Rightarrow> partition \<times> 'z gvn_scheme" where
  "single_classes [] p s = (p, s)"
| "single_classes (v # vs) p s =
     (let (n, s) = fresh_number s
      in single_classes vs
           (part_insert (put_expr (SingleE v) ((createCongruenceClass n)\<lparr>leader := v, members := [v]\<rparr>)) p) s)"

definition globel_and_argv :: "nat \<Rightarrow> partition \<Rightarrow> 'z gvn_scheme \<Rightarrow> (partition \<times> 'z gvn_scheme) res" where
  "globel_and_argv f p s =
     bnd (deref (funs s f)) (\<lambda>fn. Inr (single_classes (map VGlobal (global_list s) @ args_of f fn) p s))"

section \<open>Copies into the phis of the successors\<close>

text \<open>The first class that holds the constant gets the phi.\<close>

fun add_to_const :: "(val \<Rightarrow> nat) \<Rightarrow> val \<Rightarrow> expr \<Rightarrow> partition \<Rightarrow> partition" where
  "add_to_const adr v e [] = []"
| "add_to_const adr v e (cc # cs) =
     (if class_matches e cc then cc\<lparr>members := set_insert adr v (members cc)\<rparr> # cs else cc # add_to_const adr v e cs)"

definition copy_phi :: "(val \<Rightarrow> nat) \<Rightarrow> nat \<Rightarrow> nat \<Rightarrow> partition \<Rightarrow> 'z gvn_scheme \<Rightarrow> (partition \<times> 'z gvn_scheme) res" where
  "copy_phi adr b q p s =
     (let p = drop_member (VInstr q) p
      in bnd (get_operand s (VInstr q) 1) (\<lambda>w.
         bnd (get_operand s (VInstr q) (if w = VBB b then 0 else 2)) (\<lambda>v.
         let e = ConstE (as_const v)
         in if list_ex (\<lambda>cc. v \<in> set (members cc)) p
            then Inr (map (\<lambda>cc. if v \<in> set (members cc) then cc\<lparr>members := set_insert adr (VInstr q) (members cc)\<rparr> else cc) p, s)
            else if list_ex (class_matches e) p then Inr (add_to_const adr (VInstr q) e p, s)
            else let (n, s) = fresh_number s in Inr (part_insert (new_class_of n e q) p, s))))"

fun copy_phis :: "(val \<Rightarrow> nat) \<Rightarrow> nat \<Rightarrow> nat list \<Rightarrow> partition \<Rightarrow> 'z gvn_scheme \<Rightarrow> (partition \<times> 'z gvn_scheme) res" where
  "copy_phis adr b [] p s = Inr (p, s)"
| "copy_phis adr b (q # qs) p s =
     bnd (deref (instrs s q)) (\<lambda>ins.
     if i_op ins = Phi then bnd (copy_phi adr b q p s) (\<lambda>(p, s). copy_phis adr b qs p s) else Inr (p, s))"

fun copy_succs :: "(val \<Rightarrow> nat) \<Rightarrow> nat \<Rightarrow> nat list \<Rightarrow> partition \<Rightarrow> 'z gvn_scheme \<Rightarrow> (partition \<times> 'z gvn_scheme) res" where
  "copy_succs adr b [] p s = Inr (p, s)"
| "copy_succs adr b (c # cs) p s =
     bnd (deref (blocks s c)) (\<lambda>k.
     bnd (copy_phis adr b (instr_list k) p s) (\<lambda>(p, s). copy_succs adr b cs p s))"

section \<open>Text of partitions\<close>

definition print_ptr :: "'z ir_scheme \<Rightarrow> expr option \<Rightarrow> string res" where
  "print_ptr s e = (case e of None \<Rightarrow> lit ''nullptr'' | Some e \<Rightarrow> print_expr s e)"

definition print_congruence_class :: "'z ir_scheme \<Rightarrow> cclass \<Rightarrow> string res" where
  "print_congruence_class s cc =
     (if cc_index cc = 0 then lit (''top class'' @ [CHR 10])
      else appends
        [lit (CHR 10 # ''index: ''), lit (show_nat (cc_index cc)), lit (CHR 10 # ''leader: ''), print_value s (leader cc),
         lit (CHR 10 # ''value phi: ''), print_ptr s (value_as cc KPhi),
         lit (CHR 10 # ''value expr: ''), print_ptr s (value_expr cc), lit (CHR 10 # ''members: {''),
         appends (map (\<lambda>v. appends [print_value s v, lit ''; '']) (members cc)), lit (''}'' @ [CHR 10])])"

definition print_partitions :: "'z ir_scheme \<Rightarrow> partition \<Rightarrow> string res" where
  "print_partitions s p =
     (if p = [] then lit (''empty partitions'' @ [CHR 10]) else appends (map (print_congruence_class s) p))"

definition dump_member :: "'z ir_scheme \<Rightarrow> val \<Rightarrow> string res" where
  "dump_member s v =
     (case as_const v of
        Some c \<Rightarrow> lit (print_const c @ '', '')
      | None \<Rightarrow> appends [lit (CHR 34 # ''%''), get_name s v, lit (CHR 34 # '', '')])"

definition dump_cc_json :: "'z ir_scheme \<Rightarrow> cclass \<Rightarrow> string res" where
  "dump_cc_json s cc = appends [lit ''['', appends (map (dump_member s) (members cc)), lit '']'']"

definition dump_partition_json :: "'z ir_scheme \<Rightarrow> partition \<Rightarrow> string res" where
  "dump_partition_json s p =
     appends [lit ''['', appends (map (\<lambda>cc. appends [dump_cc_json s cc, lit '', '']) p), lit '']'']"

definition block_name :: "'z ir_scheme \<Rightarrow> nat option \<Rightarrow> string res" where
  "block_name s k = bnd (deref k) (\<lambda>b. get_name s (VBB b))"

definition dump_bb2partition :: "'z ir_scheme \<Rightarrow> bb_map \<Rightarrow> string res" where
  "dump_bb2partition s m = appends
     [lit ''{'',
      appends (map (\<lambda>(k, p). appends
        [lit [CHR 34], block_name s k, lit (CHR 34 # '': ''), dump_partition_json s p, lit '','']) m),
      lit ''}'']"

text \<open>The text that \<open>run\<close> builds for the log of \<open>pin_\<close> and \<open>pout_\<close>; it is built
  whatever the log level is.\<close>

definition log_map :: "'z ir_scheme \<Rightarrow> bb_map \<Rightarrow> string res" where
  "log_map s m = appends (map (\<lambda>(k, p). appends (block_name s k # map (print_congruence_class s) p)) m)"

section \<open>The iteration\<close>

definition pin_at :: "(val \<Rightarrow> nat) \<Rightarrow> nat \<Rightarrow> 'z gvn_scheme \<Rightarrow> partition \<times> 'z gvn_scheme" where
  "pin_at adr b s = (case map_of (pin s) (Some b) of Some p \<Rightarrow> (p, s) | None \<Rightarrow> ([], set_pin adr b [] s))"

text \<open>With more than two predecessors \<open>pin_\<close> keeps what it holds.\<close>

definition update_pin :: "(val \<Rightarrow> nat) \<Rightarrow> nat \<Rightarrow> nat list \<Rightarrow> 'z gvn_scheme \<Rightarrow> 'z gvn_scheme res" where
  "update_pin adr b ps s =
     (case ps of
        [] \<Rightarrow> Inr (set_pin adr b [] s)
      | [a] \<Rightarrow> let (p, s) = pout_at adr (Some a) s in Inr (set_pin adr b p s)
      | [a, c] \<Rightarrow>
          let (p1, s) = pout_at adr (Some a) s; (p2, s) = pout_at adr (Some c) s
          in bnd (join p1 p2 s) (\<lambda>(p, s). Inr (set_pin adr b p s))
      | _ \<Rightarrow> Inr s)"

definition gvn_block ::
  "(val \<Rightarrow> nat) \<Rightarrow> (nat \<Rightarrow> bool option) \<Rightarrow> nat \<Rightarrow> bool \<Rightarrow> nat \<Rightarrow> 'z gvn_scheme \<Rightarrow> (bool \<times> 'z gvn_scheme) res" where
  "gvn_block adr pure f first b s =
     bnd (deref (blocks s b)) (\<lambda>k.
     bnd (update_pin adr b (pre_bbs k) s) (\<lambda>s.
     let (p, s) = pin_at adr b s
     in bnd (if first then globel_and_argv f p s else Inr (p, s)) (\<lambda>(p, s).
        bnd (transfers adr pure (instr_list k) p s) (\<lambda>(p, s).
        bnd (copy_succs adr b (succ_bbs k) p s) (\<lambda>(p, s).
        bnd (print_partitions s p) (\<lambda>_.
        let (old, s) = pout_at adr (Some b) s
        in Inr (\<not> partitions_eq p old, set_pout adr b p s)))))))"

fun gvn_blocks ::
  "(val \<Rightarrow> nat) \<Rightarrow> (nat \<Rightarrow> bool option) \<Rightarrow> nat \<Rightarrow> bool \<Rightarrow> nat list \<Rightarrow> bool \<Rightarrow> 'z gvn_scheme \<Rightarrow> (bool \<times> 'z gvn_scheme) res" where
  "gvn_blocks adr pure f first [] changed s = Inr (changed, s)"
| "gvn_blocks adr pure f first (b # bs) changed s =
     bnd (gvn_block adr pure f first b s) (\<lambda>(c, s). gvn_blocks adr pure f False bs (changed \<or> c) s)"

fun detect_loop :: "nat \<Rightarrow> (val \<Rightarrow> nat) \<Rightarrow> (nat \<Rightarrow> bool option) \<Rightarrow> nat \<Rightarrow> nat list \<Rightarrow> 'z gvn_scheme \<Rightarrow> 'z gvn_scheme res" where
  "detect_loop 0 adr pure f bs s = Inl NoReturn"
| "detect_loop (Suc n) adr pure f bs s =
     bnd (gvn_blocks adr pure f True bs False s) (\<lambda>(changed, s).
     if changed then detect_loop n adr pure f bs s else Inr s)"

fun init_pout :: "(val \<Rightarrow> nat) \<Rightarrow> nat list \<Rightarrow> 'z gvn_scheme \<Rightarrow> 'z gvn_scheme" where
  "init_pout adr [] s = s"
| "init_pout adr (b # bs) s = init_pout adr bs (set_pout adr b [createCongruenceClass 0] s)"

definition detectEquivalences :: "nat \<Rightarrow> (val \<Rightarrow> nat) \<Rightarrow> (nat \<Rightarrow> bool option) \<Rightarrow> nat \<Rightarrow> 'z gvn_scheme \<Rightarrow> 'z gvn_scheme res" where
  "detectEquivalences n adr pure f s =
     bnd (deref (funs s f)) (\<lambda>fn.
     case basic_blocks fn of
       [] \<Rightarrow> Inl OutOfBounds
     | b # bs \<Rightarrow> detect_loop n adr pure f (b # bs) (init_pout adr bs (set_pin adr b [] s)))"

section \<open>Replacement\<close>

text \<open>The users that see the values at the end of block \<open>k\<close>: the instructions of the block, and
  the phis of its successors.\<close>

definition in_scope :: "'z ir_scheme \<Rightarrow> nat option \<Rightarrow> val \<Rightarrow> bool" where
  "in_scope s k u =
     (case u of
        VInstr p \<Rightarrow>
          (case instrs s p of
             Some ins \<Rightarrow> if i_op ins = Phi then k \<in> Some ` set (preds s (i_parent ins)) else Some (i_parent ins) = k
           | None \<Rightarrow> False)
      | _ \<Rightarrow> False)"

definition is_phi_val :: "'z ir_scheme \<Rightarrow> val \<Rightarrow> bool" where
  "is_phi_val s v = (case v of VInstr p \<Rightarrow> map_option i_op (instrs s p) = Some Phi | _ \<Rightarrow> False)"

fun replace_members :: "nat option \<Rightarrow> cclass \<Rightarrow> val list \<Rightarrow> 'z gvn_scheme \<Rightarrow> 'z gvn_scheme res" where
  "replace_members k cc [] s = Inr s"
| "replace_members k cc (v # vs) s =
     bnd (if v \<noteq> leader cc \<and> (value_as cc KPhi \<noteq> None \<or> \<not> is_phi_val s v)
          then case replace_use_with_when v (leader cc) (in_scope s k) 0 s of None \<Rightarrow> Inl NoReturn | Some r \<Rightarrow> r
          else Inr s) (replace_members k cc vs)"

fun replace_classes :: "nat option \<Rightarrow> partition \<Rightarrow> 'z gvn_scheme \<Rightarrow> 'z gvn_scheme res" where
  "replace_classes k [] s = Inr s"
| "replace_classes k (cc # cs) s =
     bnd (if cc_index cc = 0 then Inr s else replace_members k cc (members cc) s) (replace_classes k cs)"

fun replace_parts :: "bb_map \<Rightarrow> 'z gvn_scheme \<Rightarrow> 'z gvn_scheme res" where
  "replace_parts [] s = Inr s"
| "replace_parts ((k, p) # m) s = bnd (replace_classes k p s) (replace_parts m)"

definition replace_cc_members :: "'z gvn_scheme \<Rightarrow> 'z gvn_scheme res" where
  "replace_cc_members s = replace_parts (pout s) s"

section \<open>The pass\<close>

text \<open>One function: its text in \<open>gvn.json\<close> and the new state.\<close>

definition gvn_function :: "nat \<Rightarrow> (val \<Rightarrow> nat) \<Rightarrow> (nat \<Rightarrow> bool option) \<Rightarrow> bool \<Rightarrow> nat \<Rightarrow> 'z gvn_scheme \<Rightarrow> (string \<times> 'z gvn_scheme) res" where
  "gvn_function n adr pure dump_json f s =
     bnd (deref (funs s f)) (\<lambda>fn.
     if basic_blocks fn = [] then Inr ('''', s)
     else
       bnd (detectEquivalences n adr pure f (initPerFunction s)) (\<lambda>s.
       bnd (log_map s (pin s)) (\<lambda>_. bnd (log_map s (pout s)) (\<lambda>_.
       bnd (if dump_json
            then appends [lit (''{'' @ [CHR 10, CHR 34] @ ''function'' @ [CHR 34] @ '': ''), lit ([CHR 34] @ f_name fn @ [CHR 34] @ '', ''),
                   lit ([CHR 10, CHR 34] @ ''pout'' @ [CHR 34] @ '': ''), dump_bb2partition s (pout s), lit ''},'']
            else lit '''') (\<lambda>json.
       bnd (replace_cc_members s) (\<lambda>s. Inr (json, s)))))))"

fun gvn_functions :: "nat \<Rightarrow> (val \<Rightarrow> nat) \<Rightarrow> (nat \<Rightarrow> bool option) \<Rightarrow> bool \<Rightarrow> nat list \<Rightarrow> 'z gvn_scheme \<Rightarrow> (string \<times> 'z gvn_scheme) res" where
  "gvn_functions n adr pure dump_json [] s = Inr ('''', s)"
| "gvn_functions n adr pure dump_json (f # fs) s =
     bnd (gvn_function n adr pure dump_json f s) (\<lambda>(t, s).
     bnd (gvn_functions n adr pure dump_json fs s) (\<lambda>(u, s). Inr (t @ u, s)))"

definition GVN_run :: "nat \<Rightarrow> (val \<Rightarrow> nat) \<Rightarrow> bool \<Rightarrow> 'z gvn_scheme \<Rightarrow> (string \<times> 'z gvn_scheme) res" where
  "GVN_run n adr dump_json s =
     bnd (set_print_name s) (\<lambda>s.
     bnd (FuncInfo_run s) (\<lambda>pure.
     bnd (DeadCode_run s) (\<lambda>(s, ins_count).
     bnd (gvn_functions n adr pure dump_json (function_list s) s) (\<lambda>(json, s).
     bnd (DeadCode_run s) (\<lambda>(s, ins_count).
     Inr (if dump_json then ''['' @ json @ '']'' else '''', s))))))"

end
