(* ===== verification/GVN_Correct.thy ===== *)
theory GVN_Correct
  imports GVN_Pass
begin

text \<open>
  What value numbering computes: the range of the constant folder, the equality of expressions, the
  join of partitions, the test for convergence, and the replacement of class members.
\<close>

section \<open>Constant folding\<close>

text \<open>The exact integer result of an operation.\<close>

fun exact_int :: "opid \<Rightarrow> int \<Rightarrow> int \<Rightarrow> int" where
  "exact_int Add a b = a + b"
| "exact_int Sub a b = a - b"
| "exact_int Mul a b = a * b"
| "exact_int Sdiv a b = a sdiv b"
| "exact_int _ a b = 0"

lemma sint_wrap: "sint (word_of_int i :: 32 word) = (i + 2 ^ 31) mod 2 ^ 32 - 2 ^ 31"
  by (simp add: int_word_sint)

lemma sint_of_int: "- (2 ^ 31) \<le> i \<Longrightarrow> i < 2 ^ 31 \<Longrightarrow> sint (word_of_int i :: 32 word) = i"
  by (simp add: sint_wrap)

lemma sint_range32: "- (2 ^ 31) \<le> sint (a :: 32 word)" "sint (a :: 32 word) < 2 ^ 31"
  using sint_ge [of a] sint_lt [of a] by simp_all

lemma sint_0_iff: "sint (b :: 32 word) = 0 \<longleftrightarrow> b = 0"
  by (metis signed_0 signed_word_eqI)

lemma sdiv_range:
  assumes "b \<noteq> 0" and "- (2 ^ 31) \<le> a" "a < 2 ^ 31" and "\<not> (a = - (2 ^ 31) \<and> b = - 1)"
  shows "- (2 ^ 31) \<le> a sdiv b \<and> a sdiv b < (2 ^ 31 :: int)"
proof -
  let ?q = "\<bar>a\<bar> div \<bar>b\<bar>"
  have q: "0 \<le> ?q" "?q \<le> \<bar>a\<bar>"
    using assms(1) by (simp_all add: pos_imp_zdiv_nonneg_iff) (metis abs_ge_zero div_by_1 zdiv_mono2 zero_less_abs_iff zero_less_one int_one_le_iff_zero_less)
  have s: "a sdiv b = sgn a * sgn b * ?q" by (rule signed_divide_int_def)
  have "a sdiv b \<le> ?q" "- ?q \<le> a sdiv b"
    using q(1) by (auto simp: s sgn_if)
  moreover have "a sdiv b < 2 ^ 31" if a: "a = - (2 ^ 31)"
  proof (cases "b > 0")
    case True
    then have "sgn a * sgn b = - 1" using a by simp
    then have "a sdiv b = - ?q" unfolding s by simp
    then show ?thesis using q(1) by simp
  next
    case False
    then have "2 \<le> \<bar>b\<bar>" using assms(1,4) a by auto
    then have "?q \<le> \<bar>a\<bar> div 2" by (intro zdiv_mono2) simp_all
    moreover have "\<bar>a\<bar> div 2 < 2 ^ 31" using a by simp
    moreover have "a sdiv b \<le> ?q" using q(1) by (auto simp: s sgn_if)
    ultimately show ?thesis by linarith
  qed
  ultimately show ?thesis using q(2) assms(2,3) by linarith
qed

text \<open>C36: folding an operation on integer constants gives the exact result where that fits into 32
  bits and wraps where it does not; a division has no result exactly if the divisor is zero or the
  quotient does not fit, and then it is the compiler that stops with the trap.\<close>

theorem compute_op_int:
  assumes "int_binop opc"
  shows "compute_op opc (Some (CInt a)) (Some (CInt b)) s =
    (if opc = Sdiv \<and> (b = 0 \<or> sint a = - (2 ^ 31) \<and> sint b = - 1) then Inl Trap
     else Inr (Some (CInt (word_of_int (exact_int opc (sint a) (sint b)))), s)) \<and>
    (let r = exact_int opc (sint a) (sint b) in
       sint (word_of_int r :: 32 word) = (r + 2 ^ 31) mod 2 ^ 32 - 2 ^ 31 \<and>
       (- (2 ^ 31) \<le> r \<and> r < 2 ^ 31 \<longrightarrow> sint (word_of_int r :: 32 word) = r) \<and>
       (opc = Sdiv \<and> \<not> (b = 0 \<or> sint a = - (2 ^ 31) \<and> sint b = - 1) \<longrightarrow> - (2 ^ 31) \<le> r \<and> r < 2 ^ 31))"
proof -
  have "opc = Sdiv \<longrightarrow> \<not> (b = 0 \<or> sint a = - (2 ^ 31) \<and> sint b = - 1) \<longrightarrow>
      - (2 ^ 31) \<le> sint a sdiv sint b \<and> sint a sdiv sint b < 2 ^ 31"
    using sdiv_range [OF _ sint_range32, of "sint b" a] by (auto simp: sint_0_iff)
  moreover have "compute_op opc (Some (CInt a)) (Some (CInt b)) s =
    (if opc = Sdiv \<and> (b = 0 \<or> sint a = - (2 ^ 31) \<and> sint b = - 1) then Inl Trap
     else Inr (Some (CInt (word_of_int (exact_int opc (sint a) (sint b)))), s))"
    using assms by (cases opc) (simp_all add: compute_op_def int_arg_def int_binop_def)
  ultimately show ?thesis
    using sint_of_int [of "exact_int opc (sint a) (sint b)"] sint_wrap by (simp add: Let_def)
qed

theorem compute_op_int_witness:
  "compute_op Add (Some (CInt (2 ^ 31 - 1))) (Some (CInt 1)) no_consts = Inr (Some (CInt (- (2 ^ 31))), no_consts) \<and>
   compute_op Sdiv (Some (CInt 1)) (Some (CInt 0)) no_consts = Inl Trap"
proof -
  have "int_binop Add" "int_binop Sdiv" by (simp_all add: int_binop_def)
  from compute_op_int [OF this(1), of "2 ^ 31 - 1" 1 no_consts] compute_op_int [OF this(2), of 1 0 no_consts]
  show ?thesis by simp
qed

section \<open>Comparisons of floats\<close>

text \<open>What LLVM documents for the predicates that the printer emits: \<open>u\<close> for unordered or.\<close>

definition unordered_cmp :: "string \<Rightarrow> float32 \<Rightarrow> float32 \<Rightarrow> bool" where
  "unordered_cmp n a b \<longleftrightarrow> is_nan a \<or> is_nan b \<or>
     (if n = ''ueq'' then float_eq a b else if n = ''une'' then \<not> float_eq a b
      else if n = ''ugt'' then float_lt b a else if n = ''uge'' then float_le b a
      else if n = ''ult'' then float_lt a b else n = ''ule'' \<and> float_le a b)"

text \<open>C37: a comparison of floats that is folded has the value of the instruction that is printed for
  it exactly if no operand is NaN or the comparison is \<open>!=\<close>: the folder uses the C++ operators,
  which are false on NaN, and the printer the unordered predicates, which are true.\<close>

theorem fcmp_fold_agrees:
  "cmp_fp c a b = unordered_cmp (print_fcmp_type c) a b \<longleftrightarrow> c = NE \<or> \<not> is_nan a \<and> \<not> is_nan b"
  by (cases c) (auto simp: unordered_cmp_def float_eq_def float_lt_def float_le_def)

section \<open>Equality of expressions\<close>

lemma expr_eq_same: "a = b \<Longrightarrow> expr_eq a b" "as = bs \<Longrightarrow> exprs_eq as bs"
  by (induction a b and as bs rule: expr_eq_exprs_eq.induct) auto

lemma exprs_eq_Cons: "exprs_eq (a # as) (b # bs) \<longleftrightarrow> ptr_eq a b \<and> exprs_eq as bs"
  by (cases a; cases b) (auto simp: ptr_eq_def)

lemma expr_eq_sym: "expr_eq a b = expr_eq b a" "length as = length bs \<Longrightarrow> exprs_eq as bs = exprs_eq bs as"
  by (induction a b and as bs rule: expr_eq_exprs_eq.induct)
    (auto simp: exprs_eq_Cons ptr_eq_def split: option.splits)

text \<open>Expressions without calls.\<close>

fun call_free :: "expr \<Rightarrow> bool" and calls_free :: "expr option list \<Rightarrow> bool" where
  "call_free (BinE opc a b) \<longleftrightarrow> call_free a \<and> call_free b"
| "call_free (PhiE x a b) \<longleftrightarrow> call_free a \<and> call_free b"
| "call_free (CmpE c a b) \<longleftrightarrow> call_free a \<and> call_free b"
| "call_free (FCmpE c a b) \<longleftrightarrow> call_free a \<and> call_free b"
| "call_free (TransE opc a) \<longleftrightarrow> call_free a"
| "call_free (GepE t as) \<longleftrightarrow> calls_free as"
| "call_free (FuncE f as p x) \<longleftrightarrow> False"
| "call_free (ConstE c) \<longleftrightarrow> True"
| "call_free (SingleE v) \<longleftrightarrow> True"
| "calls_free [] \<longleftrightarrow> True"
| "calls_free (None # as) \<longleftrightarrow> calls_free as"
| "calls_free (Some a # as) \<longleftrightarrow> call_free a \<and> calls_free as"

text \<open>What an expression is equal to, from either side.\<close>

lemma expr_eq_left:
  "expr_eq a (BinE opc b b') \<longleftrightarrow> (\<exists>x y. a = BinE opc x y \<and> expr_eq x b \<and> expr_eq y b')"
  "expr_eq a (PhiE v b b') \<longleftrightarrow> (\<exists>w x y. a = PhiE w x y \<and> expr_eq x b \<and> expr_eq y b')"
  "expr_eq a (CmpE c b b') \<longleftrightarrow> (\<exists>x y. a = CmpE c x y \<and> expr_eq x b \<and> expr_eq y b')"
  "expr_eq a (FCmpE c b b') \<longleftrightarrow> (\<exists>x y. a = FCmpE c x y \<and> expr_eq x b \<and> expr_eq y b')"
  "expr_eq a (TransE opc b) \<longleftrightarrow> (\<exists>x. a = TransE opc x \<and> expr_eq x b)"
  "expr_eq a (GepE t bs) \<longleftrightarrow> (\<exists>as. a = GepE t as \<and> length as = length bs \<and> exprs_eq as bs)"
  "expr_eq a (ConstE d) \<longleftrightarrow> a = ConstE d" "expr_eq a (SingleE v) \<longleftrightarrow> a = SingleE v"
  by (cases a; auto)+

lemma exprs_eq_trans_step:
  assumes "\<And>a c. expr_eq a b \<Longrightarrow> expr_eq b c \<Longrightarrow> expr_eq a c" and "ptr_eq x (Some b)" and "ptr_eq (Some b) y"
  shows "ptr_eq x y"
  using assms by (cases x; cases y) (auto simp: ptr_eq_def)

lemma expr_eq_trans:
  "call_free b \<Longrightarrow> expr_eq a b \<Longrightarrow> expr_eq b c \<Longrightarrow> expr_eq a c"
  "calls_free bs \<Longrightarrow> length as = length bs \<Longrightarrow> length bs = length cs \<Longrightarrow> exprs_eq as bs \<Longrightarrow> exprs_eq bs cs \<Longrightarrow> exprs_eq as cs"
proof (induction b and bs arbitrary: a c and as cs rule: call_free_calls_free.induct)
  case (1 opc b b')
  obtain u v where a: "a = BinE opc u v" "expr_eq u b" "expr_eq v b'"
    using 1(4) unfolding expr_eq_left by blast
  obtain u' v' where c: "c = BinE opc u' v'" "expr_eq b u'" "expr_eq b' v'"
    using 1(5) by (cases c) auto
  show ?case using 1(1) [OF _ a(2) c(2)] 1(2) [OF _ a(3) c(3)] 1(3) by (simp add: a(1) c(1))
next
  case (2 x b b')
  obtain w u v where a: "a = PhiE w u v" "expr_eq u b" "expr_eq v b'"
    using 2(4) unfolding expr_eq_left by blast
  obtain w' u' v' where c: "c = PhiE w' u' v'" "expr_eq b u'" "expr_eq b' v'"
    using 2(5) by (cases c) auto
  show ?case using 2(1) [OF _ a(2) c(2)] 2(2) [OF _ a(3) c(3)] 2(3) by (simp add: a(1) c(1))
next
  case (3 x b b')
  obtain u v where a: "a = CmpE x u v" "expr_eq u b" "expr_eq v b'"
    using 3(4) unfolding expr_eq_left by blast
  obtain u' v' where c: "c = CmpE x u' v'" "expr_eq b u'" "expr_eq b' v'"
    using 3(5) by (cases c) auto
  show ?case using 3(1) [OF _ a(2) c(2)] 3(2) [OF _ a(3) c(3)] 3(3) by (simp add: a(1) c(1))
next
  case (4 x b b')
  obtain u v where a: "a = FCmpE x u v" "expr_eq u b" "expr_eq v b'"
    using 4(4) unfolding expr_eq_left by blast
  obtain u' v' where c: "c = FCmpE x u' v'" "expr_eq b u'" "expr_eq b' v'"
    using 4(5) by (cases c) auto
  show ?case using 4(1) [OF _ a(2) c(2)] 4(2) [OF _ a(3) c(3)] 4(3) by (simp add: a(1) c(1))
next
  case (5 opc b)
  obtain u where a: "a = TransE opc u" "expr_eq u b" using 5(3) unfolding expr_eq_left by blast
  obtain u' where c: "c = TransE opc u'" "expr_eq b u'" using 5(4) by (cases c) auto
  show ?case using 5(1) [OF _ a(2) c(2)] 5(2) by (simp add: a(1) c(1))
next
  case (6 t bs)
  obtain as where a: "a = GepE t as" "length as = length bs" "exprs_eq as bs" using 6(3) unfolding expr_eq_left by blast
  obtain cs where c: "c = GepE t cs" "length bs = length cs" "exprs_eq bs cs" using 6(4) by (cases c) auto
  show ?case using 6(1) [OF _ a(2) c(2) a(3) c(3)] 6(2) a(2) c(2) by (simp add: a(1) c(1))
next
  case (8 d)
  then show ?case unfolding expr_eq_left by simp
next
  case (9 v)
  then show ?case unfolding expr_eq_left by simp
next
  case (11 bs)
  obtain x xs y ys where c: "as = x # xs" "cs = y # ys" using 11(3,4) by (cases as; cases cs) auto
  have e: "x = None" "y = None" "exprs_eq xs bs" "exprs_eq bs ys"
    using 11(5,6) by (auto simp: c exprs_eq_Cons ptr_eq_def split: option.splits)
  have "exprs_eq xs ys" by (rule 11(1) [OF _ _ _ e(3,4)]) (use 11(2-4) in \<open>simp_all add: c\<close>)
  then show ?case by (simp add: c e)
next
  case (12 b bs)
  obtain x xs y ys where c: "as = x # xs" "cs = y # ys" using 12(4,5) by (cases as; cases cs) auto
  have free: "call_free b" "calls_free bs" using 12(3) by simp_all
  have l: "ptr_eq x (Some b)" "exprs_eq xs bs" using 12(6) by (simp_all add: c exprs_eq_Cons)
  have r: "ptr_eq (Some b) y" "exprs_eq bs ys" using 12(7) by (simp_all add: c exprs_eq_Cons)
  have "ptr_eq x y" by (rule exprs_eq_trans_step [OF 12(1) [OF free(1)] l(1) r(1)])
  moreover have "exprs_eq xs ys" by (rule 12(2) [OF free(2) _ _ l(2) r(2)]) (use 12(4,5) in \<open>simp_all add: c\<close>)
  ultimately show ?case by (simp add: c exprs_eq_Cons)
qed auto

text \<open>C35: the equality of value expressions is reflexive and symmetric, and transitive through an
  expression without calls. Through a call it is not: a call is equal to itself whatever the
  arguments were when its expression was built, and equal to another pure call if the arguments
  agree.\<close>

theorem expr_eq_equivalence:
  "expr_eq a a \<and> (expr_eq a b \<longrightarrow> expr_eq b a) \<and> (call_free b \<and> expr_eq a b \<and> expr_eq b c \<longrightarrow> expr_eq a c) \<and>
   (\<exists>d e g. expr_eq d e \<and> expr_eq e g \<and> \<not> expr_eq d g)"
proof (intro conjI impI)
  show "\<exists>d e g. expr_eq d e \<and> expr_eq e g \<and> \<not> expr_eq d g"
    by (rule exI [of _ "FuncE (VFun 0) [Some (SingleE (VArg 0 0))] True 1"],
        rule exI [of _ "FuncE (VFun 0) [Some (SingleE (VArg 0 1))] True 1"],
        rule exI [of _ "FuncE (VFun 0) [Some (SingleE (VArg 0 1))] True 2"]) simp
qed (use expr_eq_same(1) expr_eq_sym(1) expr_eq_trans(1) in blast)+

theorem expr_eq_equivalence_witness:
  "expr_eq (BinE Add (SingleE (VArg 0 0)) (ConstE (Some (CInt 1)))) (BinE Add (SingleE (VArg 0 0)) (ConstE (Some (CInt 1))))"
  using expr_eq_equivalence [of "BinE Add (SingleE (VArg 0 0)) (ConstE (Some (CInt 1)))"
      "BinE Add (SingleE (VArg 0 0)) (ConstE (Some (CInt 1)))"] by simp

section \<open>Partitions\<close>

text \<open>Two values are congruent if some class holds both.\<close>

definition congruent_in :: "partition \<Rightarrow> val \<Rightarrow> val \<Rightarrow> bool" where
  "congruent_in p v w \<longleftrightarrow> (\<exists>cc \<in> set p. v \<in> set (members cc) \<and> w \<in> set (members cc))"

text \<open>A well-formed partition below the next value number: ordered by index, without the top class,
  every class with members and an expression.\<close>

definition class_ok :: "nat \<Rightarrow> cclass \<Rightarrow> bool" where
  "class_ok n cc \<longleftrightarrow> 0 < cc_index cc \<and> cc_index cc < n \<and> members cc \<noteq> [] \<and> value_expr cc \<noteq> None"

definition part_ok :: "nat \<Rightarrow> partition \<Rightarrow> bool" where
  "part_ok n p \<longleftrightarrow> sorted_wrt (\<lambda>c d. cc_index c < cc_index d) p \<and> (\<forall>cc \<in> set p. class_ok n cc)"

lemma part_ok_Nil [simp]: "part_ok n []"
  by (simp add: part_ok_def)

lemma part_ok_mono: "part_ok n p \<Longrightarrow> n \<le> m \<Longrightarrow> part_ok m p"
  by (auto simp: part_ok_def class_ok_def)

lemma part_insert_last: "\<forall>c \<in> set p. cc_index c < cc_index cc \<Longrightarrow> part_insert cc p = p @ [cc]"
  by (induction p) auto

lemma part_ok_insert:
  assumes "part_ok n p" and "class_ok m cc" and "n \<le> cc_index cc"
  shows "part_insert cc p = p @ [cc]" "part_ok m (p @ [cc])"
proof -
  have "\<forall>c \<in> set p. cc_index c < cc_index cc" using assms(1,3) by (auto simp: part_ok_def class_ok_def)
  then show "part_insert cc p = p @ [cc]" by (rule part_insert_last)
  show "part_ok m (p @ [cc])"
    using assms by (auto simp: part_ok_def class_ok_def sorted_wrt_append)
qed

lemma put_expr_simps [simp]:
  "cc_index (put_expr e cc) = cc_index cc" "members (put_expr e cc) = members cc" "leader (put_expr e cc) = leader cc"
  "value_expr (put_expr e cc) = Some e" "value_as (put_expr e cc) = (value_as cc)(get_expr_type e := Some e)"
  by (simp_all add: put_expr_def)

lemma createCongruenceClass_simps [simp]:
  "cc_index (createCongruenceClass n) = n" "members (createCongruenceClass n) = []" "leader (createCongruenceClass n) = VNull"
  "value_expr (createCongruenceClass n) = None" "value_as (createCongruenceClass n) = (\<lambda>_. None)"
  by (simp_all add: createCongruenceClass_def)

section \<open>Join\<close>

definition numbers_only :: "'z gvn_scheme \<Rightarrow> 'z gvn_scheme \<Rightarrow> bool" where
  "numbers_only s s' \<longleftrightarrow> (\<exists>n \<ge> next_value_number s. s' = s\<lparr>next_value_number := n\<rparr>)"

lemma numbers_only_refl [simp]: "numbers_only s s"
  by (auto simp: numbers_only_def intro: exI [of _ "next_value_number s"])

lemma numbers_only_trans: "numbers_only s s' \<Longrightarrow> numbers_only s' s'' \<Longrightarrow> numbers_only s s''"
proof -
  assume "numbers_only s s'" "numbers_only s' s''"
  then obtain n m where "s' = s\<lparr>next_value_number := n\<rparr>" "s'' = s'\<lparr>next_value_number := m\<rparr>" "next_value_number s \<le> n" "n \<le> m"
    by (auto simp: numbers_only_def)
  then show ?thesis unfolding numbers_only_def by (intro exI [of _ m]) simp
qed

lemma numbers_only_fresh: "numbers_only s (s\<lparr>next_value_number := Suc (next_value_number s)\<rparr>)"
  unfolding numbers_only_def by (intro exI [of _ "Suc (next_value_number s)"]) simp

lemma numbers_only_le: "numbers_only s s' \<Longrightarrow> next_value_number s \<le> next_value_number s'"
  by (auto simp: numbers_only_def)

lemma intersect_class_returns:
  assumes "0 < next_value_number s" and "value_expr ci = Some a" and "value_expr cj = Some b"
  shows "returns (intersect_class ci cj s) (\<lambda>(cc, s'). numbers_only s s' \<and>
    members cc = filter (\<lambda>v. v \<in> set (members cj)) (members ci) \<and>
    (members cc \<noteq> [] \<longrightarrow> class_ok (next_value_number s') cc \<and> next_value_number s \<le> cc_index cc))"
  using assms by (auto simp: intersect_class_def ptr_eq_def fresh_number_def numbers_only_fresh class_ok_def Let_def)

lemma join_row_returns:
  assumes "0 < next_value_number s" and "part_ok (next_value_number s) p" and "value_expr ci \<noteq> None"
    and "\<forall>cj \<in> set cs. value_expr cj \<noteq> None"
  shows "returns (join_row ci cs p s) (\<lambda>(q, s'). numbers_only s s' \<and> part_ok (next_value_number s') q \<and>
    (\<forall>v w. congruent_in q v w \<longleftrightarrow> congruent_in p v w \<or> v \<in> set (members ci) \<and> w \<in> set (members ci) \<and> congruent_in cs v w))"
  using assms
proof (induction cs arbitrary: p s)
  case Nil
  then show ?case by (simp add: congruent_in_def)
next
  case (Cons cj cs)
  obtain cc s1 where c: "intersect_class ci cj s = Inr (cc, s1)" "numbers_only s s1"
    "members cc = filter (\<lambda>v. v \<in> set (members cj)) (members ci)"
    "members cc \<noteq> [] \<Longrightarrow> class_ok (next_value_number s1) cc \<and> next_value_number s \<le> cc_index cc"
    using intersect_class_returns [OF Cons.prems(1), of ci _ cj] Cons.prems(3,4)
    unfolding returns_def by fastforce
  let ?p = "if members cc \<noteq> [] then part_insert cc p else p"
  have n: "next_value_number s \<le> next_value_number s1" by (rule numbers_only_le [OF c(2)])
  have p: "part_ok (next_value_number s1) ?p"
  proof (cases "members cc = []")
    case False
    then show ?thesis
      using part_ok_insert [OF Cons.prems(2), of "next_value_number s1" cc] c(4) by simp
  qed (simp add: part_ok_mono [OF Cons.prems(2) n])
  have cg: "congruent_in ?p v w \<longleftrightarrow> congruent_in p v w \<or> v \<in> set (members cc) \<and> w \<in> set (members cc)" for v w
    using part_ok_insert(1) [OF Cons.prems(2), of "next_value_number s1" cc] c(4)
    by (cases "members cc = []") (auto simp: congruent_in_def)
  have "returns (join_row ci cs ?p s1) (\<lambda>(q, s'). numbers_only s1 s' \<and> part_ok (next_value_number s') q \<and>
    (\<forall>v w. congruent_in q v w \<longleftrightarrow> congruent_in ?p v w \<or> v \<in> set (members ci) \<and> w \<in> set (members ci) \<and> congruent_in cs v w))"
    by (rule Cons.IH [OF _ p]) (use Cons.prems n in auto)
  then have "returns (join_row ci cs ?p s1) (\<lambda>(q, s'). numbers_only s s' \<and> part_ok (next_value_number s') q \<and>
    (\<forall>v w. congruent_in q v w \<longleftrightarrow> congruent_in p v w \<or> v \<in> set (members ci) \<and> w \<in> set (members ci) \<and> congruent_in (cj # cs) v w))"
  proof (rule returns_mono, clarify)
    fix q s' assume a: "numbers_only s1 s'" "part_ok (next_value_number s') q"
      "\<forall>v w. congruent_in q v w \<longleftrightarrow> congruent_in ?p v w \<or> v \<in> set (members ci) \<and> w \<in> set (members ci) \<and> congruent_in cs v w"
    have "congruent_in q v w \<longleftrightarrow> congruent_in p v w \<or> v \<in> set (members ci) \<and> w \<in> set (members ci) \<and> congruent_in (cj # cs) v w" for v w
      using a(3) cg [of v w] c(3) by (auto simp: congruent_in_def)
    then show "numbers_only s s' \<and> part_ok (next_value_number s') q \<and>
      (\<forall>v w. congruent_in q v w \<longleftrightarrow> congruent_in p v w \<or> v \<in> set (members ci) \<and> w \<in> set (members ci) \<and> congruent_in (cj # cs) v w)"
      using numbers_only_trans [OF c(2) a(1)] a(2) by blast
  qed
  then show ?case by (simp add: c(1))
qed

lemma join_rows_returns:
  assumes "0 < next_value_number s" and "part_ok (next_value_number s) p" and "\<forall>ci \<in> set cs. value_expr ci \<noteq> None"
    and "\<forall>cj \<in> set p2. value_expr cj \<noteq> None"
  shows "returns (join_rows cs p2 p s) (\<lambda>(q, s'). numbers_only s s' \<and> part_ok (next_value_number s') q \<and>
    (\<forall>v w. congruent_in q v w \<longleftrightarrow> congruent_in p v w \<or> congruent_in cs v w \<and> congruent_in p2 v w))"
  using assms
proof (induction cs arbitrary: p s)
  case Nil
  then show ?case by (simp add: congruent_in_def)
next
  case (Cons ci cs)
  obtain q1 s1 where c: "join_row ci p2 p s = Inr (q1, s1)" "numbers_only s s1" "part_ok (next_value_number s1) q1"
    "\<And>v w. congruent_in q1 v w \<longleftrightarrow> congruent_in p v w \<or> v \<in> set (members ci) \<and> w \<in> set (members ci) \<and> congruent_in p2 v w"
    using join_row_returns [OF Cons.prems(1,2) _ Cons.prems(4), of ci] Cons.prems(3)
    unfolding returns_def by fastforce
  have n: "next_value_number s \<le> next_value_number s1" by (rule numbers_only_le [OF c(2)])
  have "returns (join_rows cs p2 q1 s1) (\<lambda>(q, s'). numbers_only s1 s' \<and> part_ok (next_value_number s') q \<and>
    (\<forall>v w. congruent_in q v w \<longleftrightarrow> congruent_in q1 v w \<or> congruent_in cs v w \<and> congruent_in p2 v w))"
    by (rule Cons.IH [OF _ c(3)]) (use Cons.prems n in auto)
  then have "returns (join_rows cs p2 q1 s1) (\<lambda>(q, s'). numbers_only s s' \<and> part_ok (next_value_number s') q \<and>
    (\<forall>v w. congruent_in q v w \<longleftrightarrow> congruent_in p v w \<or> congruent_in (ci # cs) v w \<and> congruent_in p2 v w))"
  proof (rule returns_mono, clarify)
    fix q s' assume a: "numbers_only s1 s'" "part_ok (next_value_number s') q"
      "\<forall>v w. congruent_in q v w \<longleftrightarrow> congruent_in q1 v w \<or> congruent_in cs v w \<and> congruent_in p2 v w"
    have "congruent_in q v w \<longleftrightarrow> congruent_in p v w \<or> congruent_in (ci # cs) v w \<and> congruent_in p2 v w" for v w
      using a(3) c(4) [of v w] by (auto simp: congruent_in_def)
    then show "numbers_only s s' \<and> part_ok (next_value_number s') q \<and>
      (\<forall>v w. congruent_in q v w \<longleftrightarrow> congruent_in p v w \<or> congruent_in (ci # cs) v w \<and> congruent_in p2 v w)"
      using numbers_only_trans [OF c(2) a(1)] a(2) by blast
  qed
  then show ?case by (simp add: c(1))
qed

text \<open>C32: the join of two well-formed partitions returns, changes nothing but the value numbers, is
  well formed, and its congruence is the intersection of the two congruences.\<close>

theorem join_meet:
  assumes n: "0 < next_value_number s" and p: "part_ok (next_value_number s) p1" "part_ok (next_value_number s) p2"
  shows "returns (join p1 p2 s) (\<lambda>(q, s'). numbers_only s s' \<and> part_ok (next_value_number s') q \<and>
    (\<forall>v w. congruent_in q v w \<longleftrightarrow> congruent_in p1 v w \<and> congruent_in p2 v w))"
proof -
  have t: "\<not> has_top p1" "\<not> has_top p2" and v: "\<forall>ci \<in> set p1. value_expr ci \<noteq> None" "\<forall>cj \<in> set p2. value_expr cj \<noteq> None"
    using p by (auto simp: part_ok_def class_ok_def has_top_def list_ex_iff)
  show ?thesis
  proof (cases "p1 = [] \<or> p2 = []")
    case True
    then show ?thesis by (auto simp: join_def congruent_in_def)
  next
    case False
    then show ?thesis
      using join_rows_returns [OF n part_ok_Nil v] t by (simp add: join_def) (simp add: congruent_in_def)
  qed
qed

theorem join_meet_witness:
  "returns (join [put_expr (SingleE (VArg 0 0)) ((createCongruenceClass 1)\<lparr>leader := VArg 0 0, members := [VArg 0 0, VArg 0 1]\<rparr>)]
     [put_expr (SingleE (VArg 0 1)) ((createCongruenceClass 2)\<lparr>leader := VArg 0 1, members := [VArg 0 1, VArg 0 2]\<rparr>)]
     ((new_gvn sample_calls)\<lparr>next_value_number := 3\<rparr>))
   (\<lambda>(q, s'). congruent_in q (VArg 0 1) (VArg 0 1) \<and> \<not> congruent_in q (VArg 0 0) (VArg 0 1))"
proof -
  let ?s = "(new_gvn sample_calls)\<lparr>next_value_number := 3\<rparr>"
  let ?c = "\<lambda>n v vs. put_expr (SingleE v) ((createCongruenceClass n)\<lparr>leader := v, members := vs\<rparr>)"
  have "part_ok 3 [?c 1 (VArg 0 0) [VArg 0 0, VArg 0 1]]" "part_ok 3 [?c 2 (VArg 0 1) [VArg 0 1, VArg 0 2]]"
    by (simp_all add: part_ok_def class_ok_def)
  then have "returns (join [?c 1 (VArg 0 0) [VArg 0 0, VArg 0 1]] [?c 2 (VArg 0 1) [VArg 0 1, VArg 0 2]] ?s)
    (\<lambda>(q, s'). numbers_only ?s s' \<and> part_ok (next_value_number s') q \<and>
      (\<forall>v w. congruent_in q v w \<longleftrightarrow> congruent_in [?c 1 (VArg 0 0) [VArg 0 0, VArg 0 1]] v w \<and> congruent_in [?c 2 (VArg 0 1) [VArg 0 1, VArg 0 2]] v w))"
    by (intro join_meet) simp_all
  then show ?thesis
  proof (rule returns_mono, clarify)
    fix q s' assume a: "\<forall>v w. congruent_in q v w \<longleftrightarrow> congruent_in [?c 1 (VArg 0 0) [VArg 0 0, VArg 0 1]] v w \<and> congruent_in [?c 2 (VArg 0 1) [VArg 0 1, VArg 0 2]] v w"
    show "congruent_in q (VArg 0 1) (VArg 0 1) \<and> \<not> congruent_in q (VArg 0 0) (VArg 0 1)"
      unfolding a [rule_format] by (simp add: congruent_in_def)
  qed
qed

lemma new_gvn_simps [simp]: "next_value_number (new_gvn s) = 1" "pout (new_gvn s) = []" "pin (new_gvn s) = []"
  "operands (new_gvn s) = operands s" "instrs (new_gvn s) = instrs s" "blocks (new_gvn s) = blocks s"
  by (simp_all add: new_gvn_def ir.defs)

section \<open>Replacement\<close>

text \<open>Two states that differ in operands and use lists only.\<close>

definition ops_only :: "'z users_scheme \<Rightarrow> 'z users_scheme \<Rightarrow> bool" where
  "ops_only s s' \<longleftrightarrow> s' = s\<lparr>operands := operands s', use_list := use_list s'\<rparr>"

lemma ops_only_refl [simp]: "ops_only s s"
  by (simp add: ops_only_def)

lemma ops_only_trans: "ops_only s s' \<Longrightarrow> ops_only s' s'' \<Longrightarrow> ops_only s s''"
  unfolding ops_only_def by (cases s, cases s', cases s'') simp

lemma ops_onlyD:
  assumes "ops_only s s'"
  shows "instrs s' = instrs s" "blocks s' = blocks s" "funs s' = funs s" "function_list s' = function_list s"
  using assms unfolding ops_only_def by (cases s; cases s'; simp)+

lemma ops_only_pout: "ops_only s s' \<Longrightarrow> pout s' = pout s"
  unfolding ops_only_def by (cases s; cases s'; simp)

lemma in_scope_cong: "ops_only s s' \<Longrightarrow> in_scope s' k u = in_scope s k u"
  by (auto simp: in_scope_def preds_def ops_onlyD split: val.splits option.splits)

lemma is_phi_val_cong: "ops_only s s' \<Longrightarrow> is_phi_val s' v = is_phi_val s v"
  by (auto simp: is_phi_val_def ops_onlyD split: val.splits)

lemma replace_when_returns:
  assumes "use_def_ok s" and "v \<noteq> VNull" and "new \<noteq> VNull" and "new \<noteq> v"
  obtains s' where "replace_use_with_when v new P 0 s = Some (Inr s')" "use_def_ok s'" "ops_only s s'"
    "\<And>u. operands s' u = map (\<lambda>x. if x = v \<and> P u then new else x) (operands s u)"
proof -
  let ?us = "filter (\<lambda>(u, i). P u) (use_list s v)"
  let ?r = "redirect new ?us s"
  let ?s = "?r\<lparr>use_list := (use_list ?r)(v := filter (\<lambda>(u, i). \<not> P u) (use_list s v))\<rparr>"
  have us: "set ?us = {(u, i) \<in> set (use_list s v). P u}" by auto
  show ?thesis
  proof
    show "replace_use_with_when v new P 0 s = Some (Inr ?s)"
      using replace_when_eq [OF use_def_slots_valid [OF assms(1,2)] assms(4,3), of 0] by (simp add: Let_def)
    show "use_def_ok ?s"
      using use_def_okD(3) [OF assms(1,2)] by (intro redirect_ok [OF assms us]) auto
    show "ops_only s ?s"
      unfolding ops_only_def by (rule users.equality) simp_all
    show "operands ?s u = map (\<lambda>x. if x = v \<and> P u then new else x) (operands s u)" for u
      using redirect_operands [OF assms(1,2) us, of new u] by (simp add: map_idI)
  qed
qed

text \<open>The replacements that the loops over \<open>pout_\<close> make, in their order: block, member,
  leader.\<close>

definition class_steps :: "'z ir_scheme \<Rightarrow> nat option \<Rightarrow> cclass \<Rightarrow> (nat option \<times> val \<times> val) list" where
  "class_steps s k cc = (if cc_index cc = 0 then [] else
     map (\<lambda>v. (k, v, leader cc))
       (filter (\<lambda>v. v \<noteq> leader cc \<and> (value_as cc KPhi \<noteq> None \<or> \<not> is_phi_val s v)) (members cc)))"

definition part_steps :: "'z ir_scheme \<Rightarrow> nat option \<times> partition \<Rightarrow> (nat option \<times> val \<times> val) list" where
  "part_steps s = (\<lambda>(k, p). concat (map (class_steps s k) p))"

definition all_steps :: "'z ir_scheme \<Rightarrow> bb_map \<Rightarrow> (nat option \<times> val \<times> val) list" where
  "all_steps s m = concat (map (part_steps s) m)"

text \<open>What becomes of an operand \<open>x\<close> of the user \<open>u\<close>.\<close>

definition renamed :: "'z ir_scheme \<Rightarrow> (nat option \<times> val \<times> val) list \<Rightarrow> val \<Rightarrow> val \<Rightarrow> val" where
  "renamed s ts u x = foldl (\<lambda>x (k, v, w). if x = v \<and> in_scope s k u then w else x) x ts"

lemma renamed_Nil [simp]: "renamed s [] u = (\<lambda>x. x)"
  by (simp add: renamed_def fun_eq_iff)

lemma renamed_append: "renamed s (as @ bs) u = renamed s bs u \<circ> renamed s as u"
  by (simp add: renamed_def fun_eq_iff)

lemma steps_cong:
  assumes "ops_only s s'"
  shows "class_steps s' = class_steps s" "part_steps s' = part_steps s" "all_steps s' = all_steps s" "renamed s' = renamed s"
proof -
  show c: "class_steps s' = class_steps s" by (simp add: class_steps_def fun_eq_iff is_phi_val_cong [OF assms])
  show p: "part_steps s' = part_steps s" by (simp only: part_steps_def c)
  show "all_steps s' = all_steps s" by (rule ext) (simp only: all_steps_def p)
  show "renamed s' = renamed s" by (simp add: renamed_def fun_eq_iff in_scope_cong [OF assms])
qed

text \<open>A step that returns, keeps the graph exact and renames the operands along a list.\<close>

definition renames :: "(nat option \<times> val \<times> val) list \<Rightarrow> 'z gvn_scheme \<Rightarrow> 'z gvn_scheme res \<Rightarrow> bool" where
  "renames ts s r \<longleftrightarrow> returns r (\<lambda>s'. use_def_ok s' \<and> ops_only s s' \<and> (\<forall>u. operands s' u = map (renamed s ts u) (operands s u)))"

lemma renames_Inr: "use_def_ok s \<Longrightarrow> renames [] s (Inr s)"
  by (simp add: renames_def)

lemma renames_bnd:
  assumes "renames as s r" and "\<And>s'. use_def_ok s' \<Longrightarrow> ops_only s s' \<Longrightarrow> renames bs s' (f s')"
  shows "renames (as @ bs) s (bnd r f)"
proof -
  obtain s' where a: "r = Inr s'" "use_def_ok s'" "ops_only s s'" "\<And>u. operands s' u = map (renamed s as u) (operands s u)"
    using assms(1) by (auto simp: renames_def returns_def)
  obtain s'' where b: "f s' = Inr s''" "use_def_ok s''" "ops_only s' s''" "\<And>u. operands s'' u = map (renamed s' bs u) (operands s' u)"
    using assms(2) [OF a(2,3)] by (auto simp: renames_def returns_def)
  show ?thesis
    using b(2) ops_only_trans [OF a(3) b(3)]
    by (simp add: renames_def a(1) b(1) b(4) a(4) renamed_append steps_cong(4) [OF a(3)] o_def)
qed

lemma replace_members_renames:
  assumes "use_def_ok s" and "leader cc \<noteq> VNull" and "VNull \<notin> set vs"
  shows "renames (map (\<lambda>v. (k, v, leader cc))
      (filter (\<lambda>v. v \<noteq> leader cc \<and> (value_as cc KPhi \<noteq> None \<or> \<not> is_phi_val s v)) vs)) s (replace_members k cc vs s)"
  using assms
proof (induction vs arbitrary: s)
  case Nil
  then show ?case by (simp add: renames_Inr)
next
  case (Cons v vs)
  note rest = Cons.IH [OF _ Cons.prems(2)]
  show ?case
  proof (cases "v \<noteq> leader cc \<and> (value_as cc KPhi \<noteq> None \<or> \<not> is_phi_val s v)")
    case True
    have vn: "v \<noteq> VNull" "leader cc \<noteq> v" using Cons.prems(3) True by auto
    obtain s' where s': "replace_use_with_when v (leader cc) (in_scope s k) 0 s = Some (Inr s')" "use_def_ok s'" "ops_only s s'"
      "\<And>u. operands s' u = map (\<lambda>x. if x = v \<and> in_scope s k u then leader cc else x) (operands s u)"
      by (rule replace_when_returns [OF Cons.prems(1) vn(1) Cons.prems(2) vn(2), where P = "in_scope s k"]) blast
    let ?ts = "map (\<lambda>v. (k, v, leader cc)) (filter (\<lambda>v. v \<noteq> leader cc \<and> (value_as cc KPhi \<noteq> None \<or> \<not> is_phi_val s v)) vs)"
    have "renames ([(k, v, leader cc)] @ ?ts) s (bnd (Inr s') (replace_members k cc vs))"
    proof (rule renames_bnd)
      show "renames [(k, v, leader cc)] s (Inr s')" by (simp add: renames_def s'(2-4) renamed_def)
      show "renames ?ts t (replace_members k cc vs t)" if "use_def_ok t" "ops_only s t" for t
        using rest [OF that(1)] Cons.prems(3) by (simp add: is_phi_val_cong [OF that(2)])
    qed
    then show ?thesis using True s'(1) by simp
  next
    case False
    have "replace_members k cc (v # vs) s = replace_members k cc vs s"
      by (simp only: replace_members.simps False if_False bnd_Inr)
    moreover have "VNull \<notin> set vs" using Cons.prems(3) by simp
    ultimately show ?thesis using rest [OF Cons.prems(1)] by (simp only: filter.simps False if_False not_False_eq_True True_implies_equals)
  qed
qed

definition replaceable :: "partition \<Rightarrow> bool" where
  "replaceable p \<longleftrightarrow> (\<forall>cc \<in> set p. cc_index cc \<noteq> 0 \<longrightarrow> leader cc \<noteq> VNull \<and> VNull \<notin> set (members cc))"

lemma replace_classes_renames:
  assumes "use_def_ok s" and "replaceable p"
  shows "renames (part_steps s (k, p)) s (replace_classes k p s)"
  using assms
proof (induction p arbitrary: s)
  case Nil
  then show ?case by (simp add: renames_Inr part_steps_def)
next
  case (Cons cc p)
  have "renames (class_steps s k cc) s (if cc_index cc = 0 then Inr s else replace_members k cc (members cc) s)"
    using replace_members_renames [OF Cons.prems(1), of cc "members cc" k] Cons.prems
    by (simp add: class_steps_def replaceable_def renames_Inr)
  then have "renames (class_steps s k cc @ part_steps s (k, p)) s
      (bnd (if cc_index cc = 0 then Inr s else replace_members k cc (members cc) s) (replace_classes k p))"
  proof (rule renames_bnd)
    show "renames (part_steps s (k, p)) t (replace_classes k p t)" if "use_def_ok t" "ops_only s t" for t
      using Cons.IH [OF that(1)] Cons.prems(2) by (simp add: steps_cong [OF that(2)] replaceable_def)
  qed
  then show ?case by (simp add: part_steps_def)
qed

lemma replace_parts_renames:
  assumes "use_def_ok s" and "\<forall>(k, p) \<in> set m. replaceable p"
  shows "renames (all_steps s m) s (replace_parts m s)"
  using assms
proof (induction m arbitrary: s)
  case Nil
  then show ?case by (simp add: renames_Inr all_steps_def)
next
  case (Cons kp m)
  obtain k p where kp: "kp = (k, p)" by (cases kp)
  have "renames (part_steps s (k, p)) s (replace_classes k p s)"
    using replace_classes_renames [OF Cons.prems(1)] Cons.prems(2) kp by auto
  then have "renames (part_steps s (k, p) @ all_steps s m) s (bnd (replace_classes k p s) (replace_parts m))"
  proof (rule renames_bnd)
    show "renames (all_steps s m) t (replace_parts m t)" if "use_def_ok t" "ops_only s t" for t
      using Cons.IH [OF that(1)] Cons.prems(2) by (simp add: steps_cong [OF that(2)])
  qed
  then show ?case by (simp add: all_steps_def kp)
qed

text \<open>C33: the replacement of class members returns, keeps the use-def graph exact, changes nothing but
  operands and use lists, and renames every operand of a user along exactly those steps from a
  member to its leader whose block sees the user, in the order of \<open>pout_\<close>.\<close>

theorem replace_cc_members_spec:
  assumes "use_def_ok s" and "\<forall>(k, p) \<in> set (pout s). replaceable p"
  shows "returns (replace_cc_members s) (\<lambda>s'. use_def_ok s' \<and> ops_only s s' \<and>
    (\<forall>u. operands s' u = map (renamed s (all_steps s (pout s)) u) (operands s u)))"
  using replace_parts_renames [OF assms] by (simp add: renames_def replace_cc_members_def)


text \<open>Two instructions that add the same argument to itself, in one class, and a third that adds
  their results.\<close>

definition sample_values :: gvn where
  "sample_values = (new_gvn \<lparr>
     operands = (\<lambda>_. [])(VInstr 2 := [VArg 0 0, VArg 0 0], VInstr 3 := [VArg 0 0, VArg 0 0], VInstr 4 := [VInstr 2, VInstr 3]),
     num_ops = (\<lambda>_. 0)(VInstr 2 := 2, VInstr 3 := 2, VInstr 4 := 2),
     use_list = (\<lambda>_. [])(VArg 0 0 := [(VInstr 2, 0), (VInstr 2, 1), (VInstr 3, 0), (VInstr 3, 1)],
       VInstr 2 := [(VInstr 4, 0)], VInstr 3 := [(VInstr 4, 1)]),
     fp_count = 0, cached_float = [], next_id = 5,
     instrs = (\<lambda>x. if x \<in> {2, 3, 4} then Some \<lparr>i_type = IntTy 32, i_op = Add, i_parent = 1, i_data = NoData, i_name = ''''\<rparr> else None),
     blocks = [1 \<mapsto> \<lparr>bb_name = '''', bb_parent = 0, pre_bbs = [], succ_bbs = [], instr_list = [2, 3, 4]\<rparr>],
     funs = [0 \<mapsto> \<lparr>f_name = ''f'', f_type = FunTy VoidTy [IntTy 32], basic_blocks = [1], arg_names = [''''], seq_cnt = 0\<rparr>],
     gvars = Map.empty, global_list = [], function_list = [0]\<rparr>)
     \<lparr>pout := [(Some 1, [put_expr (SingleE (VArg 0 0)) ((createCongruenceClass 1)\<lparr>leader := VArg 0 0, members := [VArg 0 0]\<rparr>),
       put_expr (BinE Add (SingleE (VArg 0 0)) (SingleE (VArg 0 0)))
         ((createCongruenceClass 2)\<lparr>leader := VInstr 2, members := [VInstr 2, VInstr 3]\<rparr>)])], next_value_number := 3\<rparr>"

lemma sample_values_simps:
  "operands sample_values = (\<lambda>_. [])(VInstr 2 := [VArg 0 0, VArg 0 0], VInstr 3 := [VArg 0 0, VArg 0 0], VInstr 4 := [VInstr 2, VInstr 3])"
  "num_ops sample_values = (\<lambda>_. 0)(VInstr 2 := 2, VInstr 3 := 2, VInstr 4 := 2)"
  "use_list sample_values = (\<lambda>_. [])(VArg 0 0 := [(VInstr 2, 0), (VInstr 2, 1), (VInstr 3, 0), (VInstr 3, 1)],
       VInstr 2 := [(VInstr 4, 0)], VInstr 3 := [(VInstr 4, 1)])"
  "next_value_number sample_values = 3"
  by (simp_all add: sample_values_def new_gvn_def ir.defs)

lemma sample_values_ok: "use_def_ok sample_values"
proof (rule use_def_okI)
  show "(u, i) \<in> set (use_list sample_values v) \<longleftrightarrow> i < length (operands sample_values u) \<and> operands sample_values u ! i = v"
    if "v \<noteq> VNull" for u i v
    using that by (cases i rule: nat.exhaust [of _ "_ :: bool"]; auto simp: sample_values_simps nth_Cons' split: if_splits)
qed (auto simp: sample_values_simps split: if_splits)

theorem replace_cc_members_spec_witness:
  "\<exists>s'. replace_cc_members sample_values = Inr s' \<and> use_def_ok s' \<and> operands s' (VInstr 4) = [VInstr 2, VInstr 2]"
proof -
  have po: "pout sample_values = [(Some 1, [put_expr (SingleE (VArg 0 0)) ((createCongruenceClass 1)\<lparr>leader := VArg 0 0, members := [VArg 0 0]\<rparr>),
       put_expr (BinE Add (SingleE (VArg 0 0)) (SingleE (VArg 0 0)))
         ((createCongruenceClass 2)\<lparr>leader := VInstr 2, members := [VInstr 2, VInstr 3]\<rparr>)])]"
    by (simp add: sample_values_def)
  have "\<forall>(k, p) \<in> set (pout sample_values). replaceable p"
    by (simp add: po replaceable_def)
  from replace_cc_members_spec [OF sample_values_ok this]
  obtain s' where s': "replace_cc_members sample_values = Inr s'" "use_def_ok s'"
    "operands s' (VInstr 4) = map (renamed sample_values (all_steps sample_values (pout sample_values)) (VInstr 4)) [VInstr 2, VInstr 3]"
    by (auto simp: returns_def sample_values_simps)
  have "\<not> is_phi_val sample_values (VInstr 3)" "in_scope sample_values (Some 1) (VInstr 4)"
    by (simp_all add: is_phi_val_def in_scope_def sample_values_def new_gvn_def ir.defs)
  then have "all_steps sample_values (pout sample_values) = [(Some 1, VInstr 3, VInstr 2)]"
    by (simp add: po all_steps_def part_steps_def class_steps_def)
  then show ?thesis using s' \<open>in_scope _ _ _\<close> by (simp add: renamed_def)
qed

section \<open>Convergence\<close>

text \<open>The test that ends the iteration looks at the first class only: two non-empty partitions of
  the same size count as equal as soon as some class of the second has the members of the first
  class of the first, so partitions with different congruences are taken for equal.\<close>

lemma convergence_test_first:
  "(partitions_eq (c # p) q \<longleftrightarrow> length q = Suc (length p) \<and> (\<exists>d \<in> set q. members d = members c)) \<and>
   (\<exists>p q. part_ok 4 p \<and> part_ok 4 q \<and> partitions_eq p q \<and> partitions_eq q p \<and> congruent_in p \<noteq> congruent_in q)"
proof
  show "partitions_eq (c # p) q \<longleftrightarrow> length q = Suc (length p) \<and> (\<exists>d \<in> set q. members d = members c)"
    by (auto simp: partitions_eq_def class_eq_def list_ex_iff eq_commute [of "members c"])
  let ?c = "\<lambda>n vs. put_expr (SingleE (hd vs)) ((createCongruenceClass n)\<lparr>leader := hd vs, members := vs\<rparr>)"
  let ?p = "[?c 1 [VArg 0 0], ?c 2 [VArg 0 1, VArg 0 2], ?c 3 [VArg 0 3]]"
  let ?q = "[?c 1 [VArg 0 0], ?c 2 [VArg 0 1], ?c 3 [VArg 0 2, VArg 0 3]]"
  have "congruent_in ?p (VArg 0 1) (VArg 0 2)" "\<not> congruent_in ?q (VArg 0 1) (VArg 0 2)"
    by (simp_all add: congruent_in_def)
  then have "congruent_in ?p \<noteq> congruent_in ?q" by metis
  moreover have "part_ok 4 ?p" "part_ok 4 ?q" by (simp_all add: part_ok_def class_ok_def)
  moreover have "partitions_eq ?p ?q" "partitions_eq ?q ?p" by (simp_all add: partitions_eq_def class_eq_def)
  ultimately show "\<exists>p q. part_ok 4 p \<and> part_ok 4 q \<and> partitions_eq p q \<and> partitions_eq q p \<and> congruent_in p \<noteq> congruent_in q"
    by blast
qed

end
