(* ===== verification/GVN_Local.thy ===== *)
theory GVN_Local
  imports GVN_Correct
begin

text \<open>
  Soundness of the transfer function along a block: what value numbering puts into one class has one
  value in every execution of the block. The run-time meaning of the integer instructions is the
  documented meaning of LLVM; the analysis is the model of \<open>GVN.cpp\<close>.
\<close>

section \<open>Run-time values\<close>

text \<open>A 32-bit integer, a truth value, or anything else: addresses and floats are only compared.\<close>

datatype rval = RI "32 word" | RB bool | RX nat

fun int_op :: "opid \<Rightarrow> 32 word \<Rightarrow> 32 word \<Rightarrow> rval option" where
  "int_op Add a b = Some (RI (a + b))"
| "int_op Sub a b = Some (RI (a - b))"
| "int_op Mul a b = Some (RI (a * b))"
| "int_op Sdiv a b = (if b = 0 \<or> sint a = - (2 ^ 31) \<and> sint b = - 1 then None else Some (RI (word_of_int (sint a sdiv sint b))))"
| "int_op _ a b = None"

fun icmp :: "cmpop \<Rightarrow> 32 word \<Rightarrow> 32 word \<Rightarrow> bool" where
  "icmp EQ a b \<longleftrightarrow> a = b"
| "icmp NE a b \<longleftrightarrow> a \<noteq> b"
| "icmp GT a b \<longleftrightarrow> word_sless b a"
| "icmp GE a b \<longleftrightarrow> word_sle b a"
| "icmp LT a b \<longleftrightarrow> word_sless a b"
| "icmp LE a b \<longleftrightarrow> word_sle a b"

text \<open>A valuation gives every value its meaning in one execution of the block; the meaning of integer
  and boolean constants is fixed.\<close>

definition valuation :: "(val \<Rightarrow> rval) \<Rightarrow> bool" where
  "valuation \<rho> \<longleftrightarrow> (\<forall>c. case c of CInt w \<Rightarrow> \<rho> (VConst c) = RI w | CBool b \<Rightarrow> \<rho> (VConst c) = RB b | _ \<Rightarrow> \<exists>n. \<rho> (VConst c) = RX n)"

text \<open>What the execution of instruction \<open>x\<close> says of its value; the other instructions and the calls
  of pure functions are not covered.\<close>

fun equation :: "'z ir_scheme \<Rightarrow> (nat \<Rightarrow> bool option) \<Rightarrow> (val \<Rightarrow> rval) \<Rightarrow> nat \<Rightarrow> instr \<Rightarrow> bool" where
  "equation s pure \<rho> x ins \<longleftrightarrow>
     (let ops = operands s (VInstr x); v = \<rho> (VInstr x) in
      if int_binop (i_op ins)
      then num_ops s (VInstr x) = 2 \<and> (\<exists>a b. map \<rho> ops = [RI a, RI b] \<and> int_op (i_op ins) a b = Some v)
      else if i_op ins = Cmp
      then \<exists>c a b. i_data ins = CmpData c \<and> map \<rho> ops = [RI a, RI b] \<and> v = RB (icmp c a b)
      else if i_op ins = Zext then \<exists>b. map \<rho> ops = [RB b] \<and> v = RI (of_bool b)
      else if i_op ins = Call then \<exists>f as. ops = VFun f # as \<and> pure f = Some False
      else i_op ins \<in> {Load, Alloca, Store, Br, Ret, Phi})"

definition numbered :: "instr \<Rightarrow> bool" where
  "numbered ins \<longleftrightarrow> \<not> is_void_instr ins \<and> i_op ins \<noteq> Phi"

text \<open>The instructions \<open>xs\<close> are executed with the values \<open>\<rho>\<close>, and a cast reads a constant or a
  value that is already numbered.\<close>

fun executed :: "'z ir_scheme \<Rightarrow> (nat \<Rightarrow> bool option) \<Rightarrow> (val \<Rightarrow> rval) \<Rightarrow> val set \<Rightarrow> nat list \<Rightarrow> bool" where
  "executed s pure \<rho> A [] \<longleftrightarrow> True"
| "executed s pure \<rho> A (x # xs) \<longleftrightarrow>
     (case instrs s x of
        None \<Rightarrow> False
      | Some ins \<Rightarrow> equation s pure \<rho> x ins \<and>
          (i_op ins = Zext \<longrightarrow> (\<forall>v \<in> set (operands s (VInstr x)). as_const v \<noteq> None \<or> v \<in> A)) \<and>
          executed s pure \<rho> (if numbered ins then insert (VInstr x) A else A) xs)"

section \<open>The meaning of expressions\<close>

fun ev :: "(val \<Rightarrow> rval) \<Rightarrow> expr \<Rightarrow> rval option" where
  "ev \<rho> (ConstE (Some c)) = Some (\<rho> (VConst c))"
| "ev \<rho> (SingleE v) = Some (\<rho> v)"
| "ev \<rho> (BinE opc a b) = (case (ev \<rho> a, ev \<rho> b) of (Some (RI x), Some (RI y)) \<Rightarrow> int_op opc x y | _ \<Rightarrow> None)"
| "ev \<rho> (CmpE c a b) = (case (ev \<rho> a, ev \<rho> b) of (Some (RI x), Some (RI y)) \<Rightarrow> Some (RB (icmp c x y)) | _ \<Rightarrow> None)"
| "ev \<rho> (TransE opc a) = (if opc = Zext then case ev \<rho> a of Some (RB b) \<Rightarrow> Some (RI (of_bool b)) | _ \<Rightarrow> None else None)"
| "ev \<rho> (FuncE f as p x) = (if p then None else Some (\<rho> (VInstr x)))"
| "ev \<rho> _ = None"

lemma ev_BinE: "ev \<rho> (BinE opc a b) = Some v \<longleftrightarrow>
    (\<exists>x y. ev \<rho> a = Some (RI x) \<and> ev \<rho> b = Some (RI y) \<and> int_op opc x y = Some v)"
  by (auto split: option.splits rval.splits)

lemma ev_CmpE: "ev \<rho> (CmpE c a b) = Some v \<longleftrightarrow>
    (\<exists>x y. ev \<rho> a = Some (RI x) \<and> ev \<rho> b = Some (RI y) \<and> v = RB (icmp c x y))"
  by (auto split: option.splits rval.splits)

lemma ev_TransE: "ev \<rho> (TransE opc a) = Some v \<longleftrightarrow> opc = Zext \<and> (\<exists>b. ev \<rho> a = Some (RB b) \<and> v = RI (of_bool b))"
  by (auto split: option.splits rval.splits)

declare ev.simps(3,4,5) [simp del]

text \<open>Equal expressions with a meaning have the same one.\<close>

lemma ev_expr_eq: "expr_eq a b \<Longrightarrow> ev \<rho> a = Some v \<Longrightarrow> ev \<rho> b = Some w \<Longrightarrow> v = w"
proof (induction a arbitrary: b v w)
  case (BinE opc a a')
  then obtain c c' where b: "b = BinE opc c c'" "expr_eq a c" "expr_eq a' c'" by (cases b) auto
  obtain x y where v: "ev \<rho> a = Some (RI x)" "ev \<rho> a' = Some (RI y)" "int_op opc x y = Some v"
    using BinE.prems(2) by (auto simp: ev_BinE)
  obtain x' y' where w: "ev \<rho> c = Some (RI x')" "ev \<rho> c' = Some (RI y')" "int_op opc x' y' = Some w"
    using BinE.prems(3) by (auto simp: ev_BinE b(1))
  show ?case using BinE.IH(1) [OF b(2) v(1) w(1)] BinE.IH(2) [OF b(3) v(2) w(2)] v(3) w(3) by simp
next
  case (CmpE k a a')
  then obtain c c' where b: "b = CmpE k c c'" "expr_eq a c" "expr_eq a' c'" by (cases b) auto
  obtain x y where v: "ev \<rho> a = Some (RI x)" "ev \<rho> a' = Some (RI y)" "v = RB (icmp k x y)"
    using CmpE.prems(2) by (auto simp: ev_CmpE)
  obtain x' y' where w: "ev \<rho> c = Some (RI x')" "ev \<rho> c' = Some (RI y')" "w = RB (icmp k x' y')"
    using CmpE.prems(3) by (auto simp: ev_CmpE b(1))
  show ?case using CmpE.IH(1) [OF b(2) v(1) w(1)] CmpE.IH(2) [OF b(3) v(2) w(2)] v(3) w(3) by simp
next
  case (TransE opc a)
  then obtain c where b: "b = TransE opc c" "expr_eq a c" by (cases b) auto
  obtain x where v: "ev \<rho> a = Some (RB x)" "v = RI (of_bool x)" using TransE.prems(2) by (auto simp: ev_TransE)
  obtain y where w: "ev \<rho> c = Some (RB y)" "w = RI (of_bool y)" using TransE.prems(3) by (auto simp: ev_TransE b(1))
  show ?case using TransE.IH [OF b(2) v(1) w(1)] v(2) w(2) by simp
next
  case (ConstE c)
  then show ?case by (cases b) auto
next
  case (SingleE u)
  then show ?case by (cases b) auto
next
  case (FuncE f as p x)
  then show ?case by (cases b) (auto split: if_splits)
qed simp_all

lemma valuation_const:
  assumes "valuation \<rho>" shows "\<rho> (VConst c) = RI a \<longleftrightarrow> c = CInt a" "\<rho> (VConst c) = RB b \<longleftrightarrow> c = CBool b"
proof -
  have "case c of CInt w \<Rightarrow> \<rho> (VConst c) = RI w | CBool b \<Rightarrow> \<rho> (VConst c) = RB b | _ \<Rightarrow> \<exists>n. \<rho> (VConst c) = RX n"
    using assms by (simp add: valuation_def)
  then show "\<rho> (VConst c) = RI a \<longleftrightarrow> c = CInt a" "\<rho> (VConst c) = RB b \<longleftrightarrow> c = CBool b"
    by (cases c; auto)+
qed

lemma int_op_fold: "int_op opc a b = Some v \<Longrightarrow> \<exists>r. int_fold opc a b = Inr r \<and> v = RI r"
  by (cases opc) (auto simp: split: if_splits)

lemma icmp_fold: "cmp_int c a b = icmp c a b"
  by (cases c) (auto simp: word_sle_eq word_sless_alt signed_word_eqI)

section \<open>Sound partitions\<close>

definition class_sound :: "(val \<Rightarrow> rval) \<Rightarrow> cclass \<Rightarrow> bool" where
  "class_sound \<rho> cc \<longleftrightarrow> (\<exists>e v. value_expr cc = Some e \<and> value_as cc = (\<lambda>_. None)(get_expr_type e := Some e) \<and>
     ev \<rho> e = Some v \<and> \<rho> (leader cc) = v \<and> (\<forall>w \<in> set (members cc). \<rho> w = v))"

definition sound :: "(val \<Rightarrow> rval) \<Rightarrow> partition \<Rightarrow> bool" where
  "sound \<rho> p \<longleftrightarrow> (\<forall>cc \<in> set p. class_sound \<rho> cc)"

definition covered :: "partition \<Rightarrow> val set" where
  "covered p = (\<Union>cc \<in> set p. set (members cc))"

lemma class_expr_sound:
  assumes "sound \<rho> p" and "class_expr v p e0 = Some e" and "e0 = Some e \<Longrightarrow> ev \<rho> e = Some (\<rho> v)"
  shows "ev \<rho> e = Some (\<rho> v)"
  using assms
proof (induction p arbitrary: e0)
  case (Cons cc p)
  show ?case
  proof (rule Cons.IH)
    show "sound \<rho> p" using Cons.prems(1) by (simp add: sound_def)
    show "class_expr v p (if v \<in> set (members cc) then value_expr cc else e0) = Some e" using Cons.prems(2) by simp
    show "ev \<rho> e = Some (\<rho> v)" if "(if v \<in> set (members cc) then value_expr cc else e0) = Some e"
    proof (cases "v \<in> set (members cc)")
      case True
      then show ?thesis using that Cons.prems(1) by (auto simp: sound_def class_sound_def)
    next
      case False
      then show ?thesis using that Cons.prems(3) by simp
    qed
  qed
qed simp

section \<open>The expression of an instruction\<close>

lemma ev_ConstE: "ev \<rho> (ConstE k) = Some r \<longleftrightarrow> (\<exists>c. k = Some c \<and> \<rho> (VConst c) = r)"
  by (cases k) auto

text \<open>The expression that \<open>pairValueExpr\<close> takes for an operand.\<close>

definition side :: "val \<Rightarrow> partition \<Rightarrow> expr" where
  "side u p = (case as_const u of Some c \<Rightarrow> ConstE (Some c)
     | None \<Rightarrow> (case class_expr u p None of Some e \<Rightarrow> e | None \<Rightarrow> SingleE u))"

lemma ev_side: "sound \<rho> p \<Longrightarrow> ev \<rho> (side u p) = Some (\<rho> u)"
  by (cases u) (auto simp: side_def dest: class_expr_sound split: option.splits)

lemma as_const_Some: "as_const u = Some c \<longleftrightarrow> u = VConst c"
  by (cases u) auto

lemma pairValueExpr_eq:
  assumes "operands s (VInstr x) = [l, r]"
  shows "pairValueExpr mk ins x p s =
    (case (side l p, side r p) of
       (ConstE a, ConstE b) \<Rightarrow> folded (compute_instr ins a b s)
     | (a, b) \<Rightarrow> bnd (mk a b) (\<lambda>e. Inr (e, s)))"
  unfolding pairValueExpr_def side_def
  by (cases "as_const l"; cases "as_const r"; cases "class_expr l p None"; cases "class_expr r p None")
    (auto simp: get_operand_def assms split: expr.splits)

lemma pairValueExpr_sound:
  assumes \<rho>: "valuation \<rho>" "sound \<rho> p" and ops: "operands s (VInstr x) = [l, r]" "\<rho> l = RI a" "\<rho> r = RI b"
    and fold: "\<exists>c. compute_instr ins (Some (CInt a)) (Some (CInt b)) s = Inr (Some c, s) \<and> \<rho> (VConst c) = v"
    and mk: "\<And>e e'. ev \<rho> e = Some (RI a) \<Longrightarrow> ev \<rho> e' = Some (RI b) \<Longrightarrow> \<exists>g. mk e e' = Inr g \<and> ev \<rho> g = Some v"
  shows "\<exists>e. pairValueExpr mk ins x p s = Inr (e, s) \<and> ev \<rho> e = Some v"
proof -
  have e: "ev \<rho> (side l p) = Some (RI a)" "ev \<rho> (side r p) = Some (RI b)"
    using ev_side [OF \<rho>(2)] ops(2,3) by metis+
  obtain g where g: "mk (side l p) (side r p) = Inr g" "ev \<rho> g = Some v" using mk [OF e] by blast
  show ?thesis
  proof (cases "\<exists>c d. side l p = ConstE c \<and> side r p = ConstE d")
    case True
    then obtain c d where cd: "side l p = ConstE c" "side r p = ConstE d" by blast
    then have "c = Some (CInt a)" "d = Some (CInt b)"
      using e valuation_const(1) [OF \<rho>(1)] by (auto simp: ev_ConstE)
    then show ?thesis using fold by (auto simp: pairValueExpr_eq [OF ops(1)] cd folded_def)
  next
    case False
    then have "pairValueExpr mk ins x p s = Inr (g, s)"
      using g(1) unfolding pairValueExpr_eq [OF ops(1)] by (auto split: expr.splits)
    then show ?thesis using g(2) by blast
  qed
qed

lemma int_binop_iff: "int_binop opc \<longleftrightarrow> opc = Add \<or> opc = Sub \<or> opc = Mul \<or> opc = Sdiv"
  by (simp add: int_binop_def)

lemma binValueExpr_sound:
  assumes "valuation \<rho>" "sound \<rho> p" "equation s pure \<rho> x ins" "int_binop (i_op ins)"
  shows "\<exists>e. binValueExpr ins x p s = Inr (e, s) \<and> ev \<rho> e = Some (\<rho> (VInstr x))"
proof -
  obtain a b where ab: "map \<rho> (operands s (VInstr x)) = [RI a, RI b]" "int_op (i_op ins) a b = Some (\<rho> (VInstr x))"
    using assms(3,4) by (auto simp: Let_def)
  then obtain l r where ops: "operands s (VInstr x) = [l, r]" "\<rho> l = RI a" "\<rho> r = RI b" by auto
  obtain w where w: "int_fold (i_op ins) a b = Inr w" "\<rho> (VInstr x) = RI w" using int_op_fold [OF ab(2)] by blast
  have "\<exists>c. compute_instr ins (Some (CInt a)) (Some (CInt b)) s = Inr (Some c, s) \<and> \<rho> (VConst c) = \<rho> (VInstr x)"
    using assms(4) w valuation_const(1) [OF assms(1), of "CInt w" w]
    by (intro exI [of _ "CInt w"]) (auto simp: compute_instr_def compute_op_def int_arg_def int_binop_iff)
  then show ?thesis
    unfolding binValueExpr_def
    by (rule pairValueExpr_sound [OF assms(1,2) ops]) (simp add: ev_BinE ab(2))
qed

lemma cmpValueExpr_sound:
  assumes "valuation \<rho>" "sound \<rho> p" "equation s pure \<rho> x ins" "i_op ins = Cmp"
  shows "\<exists>e. cmpValueExpr ins x p s = Inr (e, s) \<and> ev \<rho> e = Some (\<rho> (VInstr x))"
proof -
  obtain k a b where ab: "i_data ins = CmpData k" "map \<rho> (operands s (VInstr x)) = [RI a, RI b]" "\<rho> (VInstr x) = RB (icmp k a b)"
    using assms(3,4) by (auto simp: Let_def int_binop_iff)
  then obtain l r where ops: "operands s (VInstr x) = [l, r]" "\<rho> l = RI a" "\<rho> r = RI b" by auto
  have "\<exists>c. compute_instr ins (Some (CInt a)) (Some (CInt b)) s = Inr (Some c, s) \<and> \<rho> (VConst c) = \<rho> (VInstr x)"
    using valuation_const(2) [OF assms(1), of "CBool (icmp k a b)" "icmp k a b"]
    by (intro exI [of _ "CBool (icmp k a b)"]) (simp add: compute_instr_def int_arg_def assms(4) ab icmp_fold)
  then show ?thesis
    unfolding cmpValueExpr_def
    by (rule pairValueExpr_sound [OF assms(1,2) ops]) (simp add: ev_CmpE ab(1,3) cmp_op_of_def)
qed

lemma class_expr_covered: "v \<in> covered p \<Longrightarrow> \<forall>cc \<in> set p. value_expr cc \<noteq> None \<Longrightarrow> class_expr v p e \<noteq> None"
  and class_expr_start: "\<forall>cc \<in> set p. value_expr cc \<noteq> None \<Longrightarrow> e \<noteq> None \<Longrightarrow> class_expr v p e \<noteq> None"
  by (induction p arbitrary: e) (auto simp: covered_def)

lemma transValueExpr_sound:
  assumes "valuation \<rho>" "sound \<rho> p" "equation s pure \<rho> x ins" "i_op ins = Zext"
    and cov: "\<forall>v \<in> set (operands s (VInstr x)). as_const v \<noteq> None \<or> v \<in> covered p"
  shows "\<exists>e. transValueExpr ins x p s = Inr (e, s) \<and> ev \<rho> e = Some (\<rho> (VInstr x))"
proof -
  obtain b where ab: "map \<rho> (operands s (VInstr x)) = [RB b]" "\<rho> (VInstr x) = RI (of_bool b)"
    using assms(3,4) by (auto simp: Let_def int_binop_iff)
  then obtain u where ops: "operands s (VInstr x) = [u]" "\<rho> u = RB b" by auto
  have fold: "folded (compute_cast ins (Some (CBool b)) s) = Inr (ConstE (Some (CInt (of_bool b))), s)"
    by (simp add: folded_def compute_cast_def assms(4) int_arg_def)
  have val: "\<rho> (VConst (CInt (of_bool b))) = \<rho> (VInstr x)"
    using valuation_const(1) [OF assms(1), of "CInt (of_bool b)" "of_bool b"] ab(2) by simp
  show ?thesis
  proof (cases "as_const u")
    case (Some c)
    then have "c = CBool b" using ops(2) valuation_const(2) [OF assms(1)] by (simp add: as_const_Some)
    then show ?thesis using Some fold val by (simp add: transValueExpr_def get_operand_def ops(1))
  next
    case None
    then have "u \<in> covered p" using cov ops(1) by simp
    moreover have "\<forall>cc \<in> set p. value_expr cc \<noteq> None" using assms(2) by (auto simp: sound_def class_sound_def)
    ultimately obtain e where e: "class_expr u p None = Some e" using class_expr_covered by fastforce
    then have ev: "ev \<rho> e = Some (RB b)" using class_expr_sound [OF assms(2)] ops(2) by fastforce
    show ?thesis
    proof (cases "\<exists>c. e = ConstE c")
      case True
      then have "e = ConstE (Some (CBool b))" using ev valuation_const(2) [OF assms(1)] by (auto simp: ev_ConstE)
      then show ?thesis using None e fold val by (simp add: transValueExpr_def get_operand_def ops(1))
    next
      case False
      then have "transValueExpr ins x p s = Inr (TransE Zext e, s)"
        using None e assms(4) by (auto simp: transValueExpr_def get_operand_def ops(1) split: expr.splits)
      then show ?thesis using ev ab(2) by (simp add: ev_TransE)
    qed
  qed
qed

lemma valueExpr_sound:
  assumes "valuation \<rho>" "sound \<rho> p" and eq: "equation s pure \<rho> x ins" and "instrs s x = Some ins" "numbered ins"
    and cov: "i_op ins = Zext \<Longrightarrow> \<forall>v \<in> set (operands s (VInstr x)). as_const v \<noteq> None \<or> v \<in> covered p"
  shows "\<exists>e. valueExpr pure x p s = Inr (e, s) \<and> ev \<rho> e = Some (\<rho> (VInstr x))"
proof -
  consider (bin) "int_binop (i_op ins)" | (cmp) "i_op ins = Cmp" | (zext) "i_op ins = Zext" | (call) "i_op ins = Call"
    | (other) "i_op ins \<in> {Load, Alloca}"
    using eq assms(5) by (auto simp: Let_def numbered_def is_void_instr_def split: if_splits)
  then show ?thesis
  proof cases
    case bin
    then have "is_binary s x ins" using eq by (auto simp: is_binary_def int_binop_iff Let_def)
    then show ?thesis using binValueExpr_sound [OF assms(1-3) bin] assms(4) by (simp add: valueExpr_def)
  next
    case cmp
    then show ?thesis using cmpValueExpr_sound [OF assms(1-3) cmp] assms(4) by (simp add: valueExpr_def is_binary_def)
  next
    case zext
    then show ?thesis using transValueExpr_sound [OF assms(1-3) zext cov [OF zext]] assms(4) by (simp add: valueExpr_def is_binary_def)
  next
    case call
    then obtain f as where "operands s (VInstr x) = VFun f # as" "pure f = Some False"
      using eq by (auto simp: Let_def int_binop_iff)
    then show ?thesis
      using assms(4) call by (simp add: valueExpr_def is_binary_def funcValueExpr_def get_operand_def is_pure_function_def Let_def)
  next
    case other
    then have "valueExpr pure x p s = Inr (SingleE (VInstr x), s)" using assms(4) by (auto simp: valueExpr_def is_binary_def)
    then show ?thesis by simp
  qed
qed

lemma valuePhiFunc_none: "ev \<rho> e = Some v \<Longrightarrow> valuePhiFunc adr e s = Inr (None, s)"
  by (cases "(adr, e, s)" rule: valuePhiFunc.cases) (auto simp: ev_BinE)

section \<open>The transfer function\<close>

lemma set_set_insert: "inj_on adr (insert v (set ws)) \<Longrightarrow> set (set_insert adr v ws) = insert v (set ws)"
proof (induction ws)
  case (Cons w ws)
  have "inj_on adr (insert v (set ws))" by (rule inj_on_subset [OF Cons.prems]) auto
  then have "set (set_insert adr v ws) = insert v (set ws)" by (rule Cons.IH)
  moreover have "adr v = adr w \<Longrightarrow> v = w" by (rule inj_onD [OF Cons.prems]) auto
  ultimately show ?case by (auto simp: insert_commute)
qed simp

lemma drop_member_facts:
  "covered (drop_member v p) = covered p - {v}"
  "sound \<rho> p \<Longrightarrow> sound \<rho> (drop_member v p)"
  "part_ok n p \<Longrightarrow> part_ok n (drop_member v p)"
proof -
  have nz: "cc \<in> set p \<Longrightarrow> w \<in> set (members cc) \<Longrightarrow> w \<noteq> v \<Longrightarrow> set_erase v (members cc) \<noteq> []" for cc w
    by (auto simp: set_erase_def filter_empty_conv)
  show "covered (drop_member v p) = covered p - {v}"
  proof
    show "covered (drop_member v p) \<subseteq> covered p - {v}" by (auto simp: covered_def drop_member_def set_erase_def)
    show "covered p - {v} \<subseteq> covered (drop_member v p)"
    proof
      fix w assume "w \<in> covered p - {v}"
      then obtain cc where cc: "cc \<in> set p" "w \<in> set (members cc)" "w \<noteq> v" by (auto simp: covered_def)
      then have "cc\<lparr>members := set_erase v (members cc)\<rparr> \<in> set (drop_member v p)" using nz by (auto simp: drop_member_def)
      moreover have "w \<in> set (members (cc\<lparr>members := set_erase v (members cc)\<rparr>))" using cc by (simp add: set_erase_def)
      ultimately show "w \<in> covered (drop_member v p)" unfolding covered_def by blast
    qed
  qed
  show "sound \<rho> (drop_member v p)" if "sound \<rho> p"
    using that by (auto simp: sound_def class_sound_def drop_member_def set_erase_def)
  show "part_ok n (drop_member v p)" if "part_ok n p"
    using that by (auto simp: part_ok_def class_ok_def drop_member_def sorted_wrt_map intro!: sorted_wrt_filter)
qed

lemma new_class_sound:
  assumes "ev \<rho> e = Some (\<rho> (VInstr x))"
  shows "class_sound \<rho> (new_class_of n e x)"
  using assms by (cases e) (auto simp: class_sound_def new_class_of_def fun_eq_iff ev_ConstE split: option.splits)

lemma class_matches_sound:
  assumes "class_sound \<rho> cc" "ev \<rho> e = Some r" "class_matches e cc" "w \<in> set (members cc) \<or> w = leader cc"
  shows "\<rho> w = r" "\<exists>e'. value_expr cc = Some e' \<and> ev \<rho> e' = Some r"
proof -
  obtain e' v where e': "value_expr cc = Some e'" "value_as cc = (\<lambda>_. None)(get_expr_type e' := Some e')"
    "ev \<rho> e' = Some v" "\<rho> (leader cc) = v" "\<forall>w \<in> set (members cc). \<rho> w = v"
    using assms(1) by (auto simp: class_sound_def)
  then have "expr_eq e' e" using assms(3) by (auto simp: class_matches_def split: if_splits)
  then have "v = r" by (rule ev_expr_eq [OF _ e'(3) assms(2)])
  with e' assms(4) show "\<rho> w = r" "\<exists>e'. value_expr cc = Some e' \<and> ev \<rho> e' = Some r" by auto
qed

lemma add_member_sound:
  assumes "sound \<rho> q" "ev \<rho> e = Some (\<rho> v)"
  shows "sound \<rho> (map (\<lambda>cc. if class_matches e cc then cc\<lparr>members := set_insert adr v (members cc)\<rparr> else cc) q)"
proof -
  have sub: "set (set_insert adr v ws) \<subseteq> insert v (set ws)" for ws by (induction ws) auto
  have "class_sound \<rho> (cc\<lparr>members := set_insert adr v (members cc)\<rparr>)" if "cc \<in> set q" "class_matches e cc" for cc
  proof -
    have cc: "class_sound \<rho> cc" using assms(1) that(1) by (simp add: sound_def)
    have "\<rho> (leader cc) = \<rho> v" using class_matches_sound(1) [OF cc assms(2) that(2)] by simp
    then show ?thesis using cc sub [of "members cc"] by (auto simp: class_sound_def)
  qed
  then show ?thesis using assms(1) by (auto simp: sound_def)
qed

lemma set_insert_not_Nil [simp]: "set_insert adr v ws \<noteq> []"
  by (cases ws) auto

lemma add_member_ok:
  "part_ok n q \<Longrightarrow> part_ok n (map (\<lambda>cc. if P cc then cc\<lparr>members := set_insert adr v (members cc)\<rparr> else cc) q)"
  by (auto simp: part_ok_def class_ok_def sorted_wrt_map) (rule sorted_wrt_mono_rel [rotated], assumption, auto)

lemma add_member_covered:
  assumes "inj_on adr (insert v (covered q))" "list_ex P q"
  shows "covered (map (\<lambda>cc. if P cc then cc\<lparr>members := set_insert adr v (members cc)\<rparr> else cc) q) = insert v (covered q)"
proof -
  have "set (set_insert adr v (members cc)) = insert v (set (members cc))" if "cc \<in> set q" for cc
    by (rule set_set_insert, rule inj_on_subset [OF assms(1)]) (use that in \<open>auto simp: covered_def\<close>)
  then show ?thesis using assms(2) by (auto simp: covered_def list_ex_iff split: if_splits)
qed

definition state_sound :: "(val \<Rightarrow> rval) \<Rightarrow> 'z gvn_scheme \<Rightarrow> val set \<Rightarrow> 'z gvn_scheme \<Rightarrow> partition \<Rightarrow> bool" where
  "state_sound \<rho> s A s' p \<longleftrightarrow> numbers_only s s' \<and> part_ok (next_value_number s') p \<and> sound \<rho> p \<and> covered p = A"

lemma transferFunction_sound:
  assumes "valuation \<rho>" and n: "0 < next_value_number s" and st: "state_sound \<rho> s0 A s p"
    and ins: "instrs s x = Some ins" "equation s pure \<rho> x ins"
    and zext: "i_op ins = Zext \<longrightarrow> (\<forall>v \<in> set (operands s (VInstr x)). as_const v \<noteq> None \<or> v \<in> A)"
    and inj: "inj_on adr (insert (VInstr x) A)"
  shows "returns (transferFunction adr pure x p s) (\<lambda>(q, s'). state_sound \<rho> s (if numbered ins then insert (VInstr x) A else A) s' q)"
proof (cases "numbered ins")
  case False
  then show ?thesis using st ins(1) by (auto simp: transferFunction_def numbered_def state_sound_def)
next
  case True
  have p: "part_ok (next_value_number s) p" "sound \<rho> p" "covered p = A" using st by (simp_all add: state_sound_def)
  obtain e where e: "valueExpr pure x p s = Inr (e, s)" "ev \<rho> e = Some (\<rho> (VInstr x))"
    using valueExpr_sound [OF assms(1) p(2) ins(2,1) True] zext p(3) by blast
  let ?q = "drop_member (VInstr x) p"
  note q = drop_member_facts(1) [of "VInstr x" p] drop_member_facts(2) [OF p(2), of "VInstr x"] drop_member_facts(3) [OF p(1), of "VInstr x"]
  have tf: "transferFunction adr pure x p s =
     (if list_ex (class_matches e) ?q
      then Inr (map (\<lambda>cc. if class_matches e cc then cc\<lparr>members := set_insert adr (VInstr x) (members cc)\<rparr> else cc) ?q, s)
      else Inr (part_insert (new_class_of (next_value_number s) e x) ?q, s\<lparr>next_value_number := Suc (next_value_number s)\<rparr>))"
    using True ins(1) e
    by (simp add: valuePhiFunc_none [OF e(2)] transferFunction_def numbered_def Let_def fresh_number_def)
  show ?thesis
  proof (cases "list_ex (class_matches e) ?q")
    case m: True
    have "covered (map (\<lambda>cc. if class_matches e cc then cc\<lparr>members := set_insert adr (VInstr x) (members cc)\<rparr> else cc) ?q) =
        insert (VInstr x) (covered ?q)"
      by (rule add_member_covered [OF inj_on_subset [OF inj] m]) (use q(1) p(3) in auto)
    then show ?thesis
      using m True add_member_sound [OF q(2) e(2)] add_member_ok [OF q(3)] q(1) p(3)
      by (simp add: tf state_sound_def)
  next
    case m: False
    let ?c = "new_class_of (next_value_number s) e x"
    have c: "class_ok (Suc (next_value_number s)) ?c" "cc_index ?c = next_value_number s"
      using n by (simp_all add: new_class_of_def class_ok_def)
    note i = part_ok_insert [OF q(3) c(1)]
    have "covered (?q @ [?c]) = insert (VInstr x) A" using q(1) p(3) by (auto simp: covered_def new_class_of_def)
    moreover have "sound \<rho> (?q @ [?c])" using q(2) new_class_sound [OF e(2)] by (simp add: sound_def)
    ultimately show ?thesis
      using m True i c(2) by (simp add: tf state_sound_def numbers_only_fresh)
  qed
qed

lemma numbers_onlyD:
  assumes "numbers_only s s'"
  shows "instrs s' = instrs s" "operands s' = operands s" "num_ops s' = num_ops s"
  using assms by (auto simp: numbers_only_def)

lemma equation_cong: "numbers_only s s' \<Longrightarrow> equation s' pure \<rho> x ins = equation s pure \<rho> x ins"
  by (simp add: numbers_onlyD)

lemma executed_cong: "numbers_only s s' \<Longrightarrow> executed s' pure \<rho> A xs = executed s pure \<rho> A xs"
proof (induction xs arbitrary: A)
  case (Cons x xs)
  show ?case
    unfolding executed.simps equation_cong [OF Cons.prems] Cons.IH [OF Cons.prems] numbers_onlyD [OF Cons.prems] ..
qed simp

definition numbered_vals :: "'z ir_scheme \<Rightarrow> nat list \<Rightarrow> val set" where
  "numbered_vals s xs = {VInstr x |x. x \<in> set xs \<and> (\<exists>ins. instrs s x = Some ins \<and> numbered ins)}"

lemma transfers_sound:
  assumes "valuation \<rho>" "0 < next_value_number s" "state_sound \<rho> s0 A s p" "executed s pure \<rho> A xs"
    and "inj_on adr (A \<union> VInstr ` set xs)"
  shows "returns (transfers adr pure xs p s) (\<lambda>(q, s'). state_sound \<rho> s (A \<union> numbered_vals s xs) s' q)"
  using assms(2-)
proof (induction xs arbitrary: p s s0 A)
  case Nil
  then show ?case by (simp add: state_sound_def numbered_vals_def)
next
  case (Cons x xs)
  obtain ins where ins: "instrs s x = Some ins" "equation s pure \<rho> x ins"
    "i_op ins = Zext \<longrightarrow> (\<forall>v \<in> set (operands s (VInstr x)). as_const v \<noteq> None \<or> v \<in> A)"
    "executed s pure \<rho> (if numbered ins then insert (VInstr x) A else A) xs"
    using Cons.prems(3) by (auto split: option.splits)
  let ?A = "if numbered ins then insert (VInstr x) A else A"
  have "inj_on adr (insert (VInstr x) A)" by (rule inj_on_subset [OF Cons.prems(4)]) auto
  note step = transferFunction_sound [OF assms(1) Cons.prems(1,2) ins(1-3) this]
  obtain q s1 where q: "transferFunction adr pure x p s = Inr (q, s1)" "state_sound \<rho> s ?A s1 q"
    by (rule returnsE [OF step]) auto
  then have no: "numbers_only s s1" by (simp add: state_sound_def)
  have "returns (transfers adr pure xs q s1) (\<lambda>(q, s'). state_sound \<rho> s1 (?A \<union> numbered_vals s1 xs) s' q)"
  proof (rule Cons.IH [OF _ q(2)])
    show "0 < next_value_number s1" using numbers_only_le [OF no] Cons.prems(1) by simp
    show "executed s1 pure \<rho> ?A xs" using ins(4) executed_cong [OF no] by simp
    show "inj_on adr (?A \<union> VInstr ` set xs)" by (rule inj_on_subset [OF Cons.prems(4)]) auto
  qed
  moreover have "?A \<union> numbered_vals s1 xs = A \<union> numbered_vals s (x # xs)"
    using ins(1) by (auto simp: numbered_vals_def numbers_onlyD [OF no])
  ultimately have "returns (transfers adr pure xs q s1) (\<lambda>(q, s'). state_sound \<rho> s1 (A \<union> numbered_vals s (x # xs)) s' q)"
    by simp
  then show ?case
    unfolding transfers.simps q(1) bnd_Inr prod.case
    by (rule returns_mono) (auto simp: state_sound_def intro: numbers_only_trans [OF no])
qed

text \<open>C31: on a block of integer arithmetic, integer comparisons, zero extensions, loads, stores, allocas,
  branches, phis (which are skipped) and impure calls, executed with the values \<open>\<rho>\<close>, and from a
  partition that is true under \<open>\<rho>\<close> and has no phi expressions, the transfer function returns (a
  division that the execution survives is folded without the trap), numbers every value of the
  block, and keeps the partition true: all members of a class have the value of its leader and of
  its expression. Floats, address computations and calls of pure functions are not covered, and
  partitions with phi expressions cannot be: see \<open>GVN_Phis\<close>.\<close>

theorem local_value_numbering:
  assumes "valuation \<rho>" and "0 < next_value_number s" and "part_ok (next_value_number s) p" and "sound \<rho> p"
    and "executed s pure \<rho> (covered p) xs" and "inj_on adr (covered p \<union> VInstr ` set xs)"
  shows "returns (transfers adr pure xs p s) (\<lambda>(q, s'). numbers_only s s' \<and> part_ok (next_value_number s') q \<and>
    sound \<rho> q \<and> covered q = covered p \<union> numbered_vals s xs \<and> (\<forall>v w. congruent_in q v w \<longrightarrow> \<rho> v = \<rho> w))"
proof -
  have "congruent_in q v w \<longrightarrow> \<rho> v = \<rho> w" if "sound \<rho> q" for q v w
    using that by (auto simp: sound_def class_sound_def congruent_in_def)
  note cong = this
  have "state_sound \<rho> s (covered p) s p" using assms(3,4) by (simp add: state_sound_def)
  from transfers_sound [OF assms(1,2) this assms(5,6)] show ?thesis
    by (rule returns_mono) (use cong in \<open>auto simp: state_sound_def\<close>)
qed

definition sample_rho :: "val \<Rightarrow> rval" where
  "sample_rho v = (case v of VConst (CInt w) \<Rightarrow> RI w | VConst (CBool b) \<Rightarrow> RB b | VArg f i \<Rightarrow> RI 5
     | VInstr x \<Rightarrow> RI (if x = 4 then 20 else 10) | _ \<Rightarrow> RX 0)"

definition sample_adr :: "val \<Rightarrow> nat" where
  "sample_adr v = (case v of VArg f i \<Rightarrow> 0 | VInstr x \<Rightarrow> Suc x | _ \<Rightarrow> 0)"

text \<open>The two additions of \<open>sample_values\<close> end in one class.\<close>

theorem local_value_numbering_witness:
  "\<exists>q s'. transfers sample_adr Map.empty [2, 3, 4]
       [put_expr (SingleE (VArg 0 0)) ((createCongruenceClass 1)\<lparr>leader := VArg 0 0, members := [VArg 0 0]\<rparr>)] sample_values = Inr (q, s') \<and>
     sound sample_rho q \<and> map members q = [[VArg 0 0], [VInstr 2, VInstr 3], [VInstr 4]]"
proof -
  let ?p = "[put_expr (SingleE (VArg 0 0)) ((createCongruenceClass 1)\<lparr>leader := VArg 0 0, members := [VArg 0 0]\<rparr>)]"
  have i: "instrs sample_values = (\<lambda>x. if x \<in> {2, 3, 4} then Some \<lparr>i_type = IntTy 32, i_op = Add, i_parent = 1, i_data = NoData, i_name = ''''\<rparr> else None)"
    by (simp add: sample_values_def new_gvn_def ir.defs)
  have "valuation sample_rho" by (auto simp: valuation_def sample_rho_def split: const.splits)
  moreover have "0 < next_value_number sample_values" by (simp add: sample_values_simps)
  moreover have "part_ok (next_value_number sample_values) ?p" by (simp add: part_ok_def class_ok_def sample_values_simps)
  moreover have "sound sample_rho ?p" by (simp add: sound_def class_sound_def sample_rho_def)
  moreover have "executed sample_values Map.empty sample_rho (covered ?p) [2, 3, 4]"
    by (simp add: i sample_values_simps numbered_def is_void_instr_def int_binop_def sample_rho_def)
  moreover have "inj_on sample_adr (covered ?p \<union> VInstr ` set [2, 3, 4])"
    by (simp add: covered_def sample_adr_def inj_on_def)
  ultimately have "returns (transfers sample_adr Map.empty [2, 3, 4] ?p sample_values) (\<lambda>(q, s'). numbers_only sample_values s' \<and>
      part_ok (next_value_number s') q \<and> sound sample_rho q \<and> covered q = covered ?p \<union> numbered_vals sample_values [2, 3, 4] \<and>
      (\<forall>v w. congruent_in q v w \<longrightarrow> sample_rho v = sample_rho w))"
    by (rule local_value_numbering)
  moreover have "returns (transfers sample_adr Map.empty [2, 3, 4] ?p sample_values)
      (\<lambda>(q, s'). map members q = [[VArg 0 0], [VInstr 2, VInstr 3], [VInstr 4]])"
    by (simp add: i sample_values_simps transferFunction_def is_void_instr_def valueExpr_def is_binary_def binValueExpr_def
        pairValueExpr_def get_operand_def drop_member_def set_erase_def class_matches_def new_class_of_def fresh_number_def Let_def sample_adr_def)
  ultimately show ?thesis by (auto simp: returns_def)
qed

end
