(* ===== verification/GVN_Phis.thy ===== *)
theory GVN_Phis
  imports GVN_Local
begin

text \<open>
  Where value numbering is not sound: the equality of phi expressions does not look at the block of
  the phi.
\<close>

section \<open>Two conditional assignments in a row\<close>

text \<open>A function of two conditions in registers,
  \<open>x = 2; if (a) x = 1; y = 2; if (b) y = 1; return (x + 3) - (y + 3);\<close>:
  the blocks 2 and 4 are the two branches, the phi 10 in block 3 is \<open>x\<close>, the phi 11 in block 5 is \<open>y\<close>,
  12 and 13 are the two sums.\<close>

definition two_phis_ops :: "(val \<times> val list) list" where
  "two_phis_ops = map (\<lambda>(x, l). (VInstr x, l)) [(20, [VArg 0 0, VBB 2, VBB 3]), (21, [VBB 3]), (10, [VConst (CInt 1), VBB 2, VConst (CInt 2), VBB 1]),
     (22, [VArg 0 1, VBB 4, VBB 5]), (23, [VBB 5]), (11, [VConst (CInt 1), VBB 4, VConst (CInt 2), VBB 3]),
     (12, [VInstr 10, VConst (CInt 3)]), (13, [VInstr 11, VConst (CInt 3)]), (14, [VInstr 12, VInstr 13]), (24, [VInstr 14])]"

definition two_phis :: ir where
  "two_phis = \<lparr>
     operands = listed_operands two_phis_ops, num_ops = (\<lambda>u. length (listed_operands two_phis_ops u)),
     use_list = listed_uses two_phis_ops, fp_count = 0, cached_float = [], next_id = 30,
     instrs = map_of (map (\<lambda>(x, opc, b, t). (x, \<lparr>i_type = t, i_op = opc, i_parent = b, i_data = NoData, i_name = ''''\<rparr>))
       [(20, Br, 1, VoidTy), (21, Br, 2, VoidTy), (10, Phi, 3, IntTy 32), (22, Br, 3, VoidTy), (23, Br, 4, VoidTy),
        (11, Phi, 5, IntTy 32), (12, Add, 5, IntTy 32), (13, Add, 5, IntTy 32), (14, Sub, 5, IntTy 32), (24, Ret, 5, VoidTy)]),
     blocks = map_of (map (\<lambda>(b, ps, ss, xs). (b, \<lparr>bb_name = '''', bb_parent = 0, pre_bbs = ps, succ_bbs = ss, instr_list = xs\<rparr>))
       [(1, [], [2, 3], [20]), (2, [1], [3], [21]), (3, [2, 1], [4, 5], [10, 22]), (4, [3], [5], [23]), (5, [4, 3], [], [11, 12, 13, 14, 24])]),
     funs = [0 \<mapsto> \<lparr>f_name = ''f'', f_type = FunTy (IntTy 32) [IntTy 1, IntTy 1], basic_blocks = [1, 2, 3, 4, 5], arg_names = ['''', ''''], seq_cnt = 0\<rparr>],
     gvars = Map.empty, global_list = [], function_list = [0]\<rparr>"

lemma two_phis_ok: "use_def_ok two_phis"
  by (rule listed_ok [where ops = two_phis_ops]) (auto simp: two_phis_def two_phis_ops_def)

definition phis_adr :: "val \<Rightarrow> nat" where
  "phis_adr v = (case v of VArg f i \<Rightarrow> i | VInstr x \<Rightarrow> 10 + x | VBB x \<Rightarrow> 100 + x | _ \<Rightarrow> 0)"

definition merged_at :: "'z gvn_scheme res \<Rightarrow> nat \<Rightarrow> val \<Rightarrow> val \<Rightarrow> bool" where
  "merged_at r b v w \<longleftrightarrow> (case r of
     Inr s \<Rightarrow> (case map_of (pout s) (Some b) of
       Some p \<Rightarrow> list_ex (\<lambda>cc. v \<in> set (members cc) \<and> w \<in> set (members cc)) p | None \<Rightarrow> False) | Inl e \<Rightarrow> False)"

lemma two_phis_merged: "merged_at (detectEquivalences 2 phis_adr Map.empty 0 (new_gvn two_phis)) 5 (VInstr 12) (VInstr 13)"
  by code_simp

text \<open>The operand of a phi for the predecessor \<open>b\<close>.\<close>

fun incoming :: "val list \<Rightarrow> nat \<Rightarrow> val option" where
  "incoming (v # VBB c # vs) b = (if b = c then Some v else incoming vs b)"
| "incoming _ b = None"

definition phis_rho :: "val \<Rightarrow> rval" where
  "phis_rho v = (case v of VConst (CInt w) \<Rightarrow> RI w | VConst (CBool b) \<Rightarrow> RB b | VArg f i \<Rightarrow> RB (i = 0)
     | VInstr x \<Rightarrow> RI (if x = 10 then 1 else if x = 11 then 2 else if x = 12 then 4 else if x = 13 then 5 else - 1) | _ \<Rightarrow> RX 0)"

text \<open>C34: the pass merges values that differ: phis of different blocks with equal operands count as
  equal expressions, so on \<open>two_phis\<close> the iteration ends with the sums 12 and 13 in one class,
  although an execution over the blocks 1, 2, 3 and 5 gives them the values 4 and 5.\<close>

theorem phi_equality_unsound:
  "returns (detectEquivalences 2 phis_adr Map.empty 0 (new_gvn two_phis))
     (\<lambda>s. \<exists>p. map_of (pout s) (Some 5) = Some p \<and> congruent_in p (VInstr 12) (VInstr 13)) \<and>
   (\<exists>\<rho>. valuation \<rho> \<and> map_option \<rho> (incoming (operands two_phis (VInstr 10)) 2) = Some (\<rho> (VInstr 10)) \<and>
     map_option \<rho> (incoming (operands two_phis (VInstr 11)) 3) = Some (\<rho> (VInstr 11)) \<and>
     executed two_phis Map.empty \<rho> {} [11, 12, 13, 14, 24] \<and> \<rho> (VInstr 12) \<noteq> \<rho> (VInstr 13))"
proof
  show "returns (detectEquivalences 2 phis_adr Map.empty 0 (new_gvn two_phis))
     (\<lambda>s. \<exists>p. map_of (pout s) (Some 5) = Some p \<and> congruent_in p (VInstr 12) (VInstr 13))"
    using two_phis_merged
    by (auto simp: merged_at_def returns_def congruent_in_def list_ex_iff split: sum.splits option.splits)
  have "valuation phis_rho" by (auto simp: valuation_def phis_rho_def split: const.splits)
  moreover have "executed two_phis Map.empty phis_rho {} [11, 12, 13, 14, 24]"
    by (simp add: two_phis_def listed_operands_def two_phis_ops_def phis_rho_def int_binop_def numbered_def is_void_instr_def)
  ultimately show "\<exists>\<rho>. valuation \<rho> \<and> map_option \<rho> (incoming (operands two_phis (VInstr 10)) 2) = Some (\<rho> (VInstr 10)) \<and>
     map_option \<rho> (incoming (operands two_phis (VInstr 11)) 3) = Some (\<rho> (VInstr 11)) \<and>
     executed two_phis Map.empty \<rho> {} [11, 12, 13, 14, 24] \<and> \<rho> (VInstr 12) \<noteq> \<rho> (VInstr 13)"
    by (intro exI [of _ phis_rho]) (simp add: two_phis_def listed_operands_def two_phis_ops_def phis_rho_def)
qed

end
