(* ===== verification/Flow_Graph.thy ===== *)
theory Flow_Graph
  imports Prelude
begin

text \<open>
  Dominance in a flow graph whose nodes are numbered by a depth-first search, and the iteration that
  computes immediate dominators on parent pointers. \<open>P v\<close> lists the predecessors of \<open>v\<close>,
  \<open>r\<close> is the entry, \<open>R\<close> the set of nodes it reaches and \<open>po\<close> their post-order numbers.
\<close>

section \<open>Walks and dominance\<close>

text \<open>A walk from the entry, its last node first.\<close>

inductive walk :: "(nat \<Rightarrow> nat list) \<Rightarrow> nat \<Rightarrow> nat list \<Rightarrow> bool" for P r where
  start: "walk P r [r]"
| step: "walk P r (u # xs) \<Longrightarrow> u \<in> set (P v) \<Longrightarrow> walk P r (v # u # xs)"

inductive_cases walk_ConsE: "walk P r (v # xs)"

definition dominates :: "(nat \<Rightarrow> nat list) \<Rightarrow> nat \<Rightarrow> nat \<Rightarrow> nat \<Rightarrow> bool" where
  "dominates P r d v \<longleftrightarrow> (\<forall>xs. walk P r (v # xs) \<longrightarrow> d \<in> set (v # xs))"

definition sdom :: "(nat \<Rightarrow> nat list) \<Rightarrow> nat \<Rightarrow> nat \<Rightarrow> nat \<Rightarrow> bool" where
  "sdom P r d v \<longleftrightarrow> dominates P r d v \<and> d \<noteq> v"

text \<open>The immediate dominator: a strict dominator that every strict dominator dominates.\<close>

definition is_idom :: "(nat \<Rightarrow> nat list) \<Rightarrow> nat \<Rightarrow> nat \<Rightarrow> nat \<Rightarrow> bool" where
  "is_idom P r u v \<longleftrightarrow> sdom P r u v \<and> (\<forall>d. sdom P r d v \<longrightarrow> dominates P r d u)"

lemma dominates_refl [simp]: "dominates P r v v"
  by (simp add: dominates_def)

lemma dominates_root: "dominates P r d r \<Longrightarrow> d = r"
  using start [of P r] by (fastforce simp: dominates_def)

lemma walk_suffix: "walk P r zs \<Longrightarrow> zs = xs @ v # ys \<Longrightarrow> walk P r (v # ys)"
proof (induction arbitrary: xs rule: walk.induct)
  case start
  then show ?case by (cases xs) (auto intro: walk.start)
next
  case (step u zs w)
  then show ?case by (cases xs) (auto intro: walk.step)
qed

lemma walk_to: "walk P r (w # xs) \<Longrightarrow> v \<in> set (w # xs) \<Longrightarrow> \<exists>ys. walk P r (v # ys) \<and> set (v # ys) \<subseteq> set (w # xs)"
proof -
  assume w: "walk P r (w # xs)" and "v \<in> set (w # xs)"
  then obtain ys zs where s: "w # xs = ys @ v # zs"
    by (meson split_list)
  have "set (v # zs) \<subseteq> set (w # xs)"
    unfolding s by auto
  with walk_suffix [OF w s] show ?thesis by blast
qed

lemma dominates_trans:
  assumes "dominates P r a b" and "dominates P r b c"
  shows "dominates P r a c"
  unfolding dominates_def
proof (intro allI impI)
  fix xs assume w: "walk P r (c # xs)"
  then have "b \<in> set (c # xs)"
    using assms(2) unfolding dominates_def by blast
  then obtain ys where "walk P r (b # ys)" "set (b # ys) \<subseteq> set (c # xs)"
    using walk_to [OF w] by blast
  then show "a \<in> set (c # xs)"
    using assms(1) unfolding dominates_def by blast
qed

text \<open>A strict dominator dominates every predecessor.\<close>

lemma sdom_pred: "sdom P r d v \<Longrightarrow> p \<in> set (P v) \<Longrightarrow> dominates P r d p"
  unfolding sdom_def dominates_def using walk.step [of P r p _ v] by fastforce

lemma walk_distinct:
  "walk P r xs \<Longrightarrow> \<exists>ys. walk P r ys \<and> hd ys = hd xs \<and> distinct ys \<and> set ys \<subseteq> set xs"
proof (induction rule: walk.induct)
  case start
  show ?case by (rule exI [of _ "[r]"]) (simp add: walk.start)
next
  case (step u xs v)
  then obtain ys where ys: "walk P r ys" "hd ys = u" "distinct ys" "set ys \<subseteq> set (u # xs)"
    by auto
  obtain zs where zs: "ys = u # zs"
    using ys(1,2) by (cases rule: walk.cases) auto
  show ?case
  proof (cases "v \<in> set ys")
    case True
    then obtain as bs where s: "ys = as @ v # bs" by (meson split_list)
    have "set (v # bs) \<subseteq> set (v # u # xs)" using ys(4) s by auto
    moreover have "distinct (v # bs)" using ys(3) s by simp
    ultimately show ?thesis using walk_suffix [OF ys(1) s] by (intro exI [of _ "v # bs"]) simp
  next
    case False
    then show ?thesis
      using ys zs walk.step [of P r u zs v] step(2) by (intro exI [of _ "v # ys"]) auto
  qed
qed

section \<open>Numbered graphs\<close>

definition numbered :: "(nat \<Rightarrow> nat list) \<Rightarrow> nat \<Rightarrow> nat set \<Rightarrow> (nat \<Rightarrow> nat) \<Rightarrow> bool" where
  "numbered P r R po \<longleftrightarrow> finite R \<and> inj_on po R \<and> r \<in> R \<and>
     (\<forall>v \<in> R. v \<noteq> r \<longrightarrow> (\<exists>p \<in> set (P v). p \<in> R \<and> po v < po p)) \<and>
     (\<forall>u \<in> R. \<forall>v. u \<in> set (P v) \<longrightarrow> v \<in> R)"

lemma numberedD:
  assumes "numbered P r R po"
  shows "finite R" "r \<in> R" "u \<in> R \<Longrightarrow> v \<in> R \<Longrightarrow> po u = po v \<Longrightarrow> u = v"
    "u \<in> R \<Longrightarrow> u \<in> set (P v) \<Longrightarrow> v \<in> R"
  using assms by (auto simp: numbered_def inj_on_eq_iff)

lemma numbered_parent:
  assumes "numbered P r R po" and "v \<in> R" and "v \<noteq> r"
  obtains p where "p \<in> set (P v)" "p \<in> R" "po v < po p"
  using assms by (auto simp: numbered_def)

lemma walk_in: "numbered P r R po \<Longrightarrow> walk P r xs \<Longrightarrow> set xs \<subseteq> R"
  by (rotate_tac, induction rule: walk.induct) (auto simp: numbered_def)

text \<open>A walk along parents, on which the numbers fall.\<close>

lemma falling_walk:
  assumes n: "numbered P r R po" and "v \<in> R"
  shows "\<exists>xs. walk P r (v # xs) \<and> (\<forall>x \<in> set xs. po v < po x)"
  using assms(2)
proof (induction "Max (po ` R) - po v" arbitrary: v rule: less_induct)
  case less
  show ?case
  proof (cases "v = r")
    case True
    then show ?thesis by (intro exI [of _ "[]"]) (simp add: walk.start)
  next
    case False
    then obtain p where p: "p \<in> set (P v)" "p \<in> R" "po v < po p"
      using numbered_parent [OF n less(2)] by blast
    have "po p \<le> Max (po ` R)"
      using p(2) numberedD(1) [OF n] by simp
    then have "Max (po ` R) - po p < Max (po ` R) - po v"
      using p(3) by simp
    then obtain xs where xs: "walk P r (p # xs)" "\<forall>x \<in> set xs. po p < po x"
      using less(1) p(2) by blast
    have "walk P r (v # p # xs)"
      by (rule walk.step [OF xs(1) p(1)])
    then show ?thesis
      using xs(2) p(3) by (intro exI [of _ "p # xs"]) auto
  qed
qed

lemma sdom_po: "numbered P r R po \<Longrightarrow> sdom P r d v \<Longrightarrow> v \<in> R \<Longrightarrow> po v < po d"
  using falling_walk [of P r R po v] by (fastforce simp: sdom_def dominates_def)

lemma dominates_po: "numbered P r R po \<Longrightarrow> dominates P r d v \<Longrightarrow> v \<in> R \<Longrightarrow> po v \<le> po d"
  using sdom_po [of P r R po d v] by (cases "d = v") (auto simp: sdom_def)

lemma dominates_in: "numbered P r R po \<Longrightarrow> dominates P r d v \<Longrightarrow> v \<in> R \<Longrightarrow> d \<in> R"
  using falling_walk [of P r R po v] walk_in [of P r R po] by (fastforce simp: dominates_def)

text \<open>\<open>below u v\<close>: from \<open>u\<close> down to \<open>v\<close> through nodes with smaller numbers than \<open>u\<close>.\<close>

inductive below :: "(nat \<Rightarrow> nat list) \<Rightarrow> (nat \<Rightarrow> nat) \<Rightarrow> nat \<Rightarrow> nat \<Rightarrow> bool" for P po u where
  edge: "u \<in> set (P v) \<Longrightarrow> po v < po u \<Longrightarrow> below P po u v"
| more: "below P po u w \<Longrightarrow> w \<in> set (P v) \<Longrightarrow> po v < po u \<Longrightarrow> below P po u v"

lemma below_po: "below P po u v \<Longrightarrow> po v < po u"
  by (induction rule: below.induct) simp_all

lemma below_trans: "below P po w v \<Longrightarrow> below P po u w \<Longrightarrow> below P po u v"
proof (induction rule: below.induct)
  case (edge v)
  then show ?case by (meson below.more below_po less_trans)
next
  case (more x v)
  then show ?case by (meson below.more below_po less_trans)
qed

lemma below_walk:
  "below P po u v \<Longrightarrow> walk P r (u # xs) \<Longrightarrow> po u \<le> po d \<Longrightarrow> d \<notin> set (u # xs) \<Longrightarrow>
     \<exists>ys. walk P r (v # ys) \<and> d \<notin> set (v # ys)"
proof (induction rule: below.induct)
  case (edge v)
  then have "v \<noteq> d" by auto
  then show ?case using walk.step [OF edge(3,1)] edge(5) by (intro exI [of _ "u # xs"]) auto
next
  case (more w v)
  then obtain ys where "walk P r (w # ys)" "d \<notin> set (w # ys)" by blast
  moreover have "v \<noteq> d" using more by auto
  ultimately show ?case using walk.step [of P r w ys v] more(2) by (intro exI [of _ "w # ys"]) auto
qed

lemma below_dominates: "below P po u v \<Longrightarrow> sdom P r d v \<Longrightarrow> po u \<le> po d \<Longrightarrow> dominates P r d u"
  unfolding dominates_def sdom_def using below_walk by meson

section \<open>Parent pointers\<close>

text \<open>The ancestors of a node, itself included.\<close>

inductive anc :: "(nat \<rightharpoonup> nat) \<Rightarrow> nat \<Rightarrow> nat \<Rightarrow> bool" for I a where
  self: "anc I a a"
| up: "I v = Some u \<Longrightarrow> anc I a u \<Longrightarrow> anc I a v"

text \<open>The invariant of the iteration: a parent never lies above a strict dominator, and reaches
  its child through smaller numbers.\<close>

definition parents_ok :: "(nat \<Rightarrow> nat list) \<Rightarrow> nat \<Rightarrow> nat set \<Rightarrow> (nat \<Rightarrow> nat) \<Rightarrow> (nat \<rightharpoonup> nat) \<Rightarrow> bool" where
  "parents_ok P r R po I \<longleftrightarrow> I r = Some r \<and>
     (\<forall>v u. I v = Some u \<longrightarrow> v \<in> R \<and> (v \<noteq> r \<longrightarrow> I u \<noteq> None \<and> below P po u v \<and>
        (\<forall>d. sdom P r d v \<longrightarrow> po u \<le> po d)))"

lemma parents_okD:
  assumes "parents_ok P r R po I"
  shows "I r = Some r" "I v = Some u \<Longrightarrow> v \<in> R" "I v = Some u \<Longrightarrow> v \<noteq> r \<Longrightarrow> below P po u v"
    "I v = Some u \<Longrightarrow> I u \<noteq> None" "I v = Some u \<Longrightarrow> v \<noteq> r \<Longrightarrow> sdom P r d v \<Longrightarrow> po u \<le> po d"
proof -
  show r: "I r = Some r" using assms by (simp add: parents_ok_def)
  have a: "I v = Some u \<longrightarrow> v \<in> R \<and> (v \<noteq> r \<longrightarrow> I u \<noteq> None \<and> below P po u v \<and>
      (\<forall>d. sdom P r d v \<longrightarrow> po u \<le> po d))"
    using assms by (simp add: parents_ok_def)
  show "I v = Some u \<Longrightarrow> v \<in> R" "I v = Some u \<Longrightarrow> v \<noteq> r \<Longrightarrow> below P po u v"
    "I v = Some u \<Longrightarrow> v \<noteq> r \<Longrightarrow> sdom P r d v \<Longrightarrow> po u \<le> po d"
    using a by simp_all
  show "I v = Some u \<Longrightarrow> I u \<noteq> None"
    using a r by (cases "v = r") simp_all
qed

lemma parent_po: "parents_ok P r R po I \<Longrightarrow> I v = Some u \<Longrightarrow> v \<noteq> r \<Longrightarrow> po v < po u"
  using parents_okD(3) below_po by metis

lemma anc_below:
  "anc I a v \<Longrightarrow> parents_ok P r R po I \<Longrightarrow> I v \<noteq> None \<Longrightarrow> I a \<noteq> None \<and> (a = v \<or> below P po a v)"
proof (induction rule: anc.induct)
  case (up v u)
  note p = parents_okD [OF up.prems(1)]
  have "I u \<noteq> None" using p(4) [OF up.hyps(1)] .
  then have ih: "I a \<noteq> None" "a = u \<or> below P po a u" using up.IH up.prems by blast+
  show ?case
  proof (cases "v = r")
    case True
    then show ?thesis using ih up.hyps(1) p(1) by auto
  next
    case False
    then show ?thesis using ih p(3) [OF up.hyps(1)] below_trans by metis
  qed
qed simp

lemma anc_po: "anc I a v \<Longrightarrow> parents_ok P r R po I \<Longrightarrow> I v \<noteq> None \<Longrightarrow> po v \<le> po a"
  using anc_below below_po by (metis order.order_iff_strict)

lemma climb_dominator:
  assumes "parents_ok P r R po I" and "I v = Some u" and "dominates P r t v" and "t \<noteq> v"
  shows "dominates P r t u" "po u \<le> po t"
proof -
  have v: "v \<noteq> r"
    using dominates_root [of P r t] assms(3,4) by blast
  have s: "sdom P r t v" using assms(3,4) by (simp add: sdom_def)
  show 2: "po u \<le> po t"
    using parents_okD(5) [OF assms(1,2) v s] .
  show "dominates P r t u"
    using below_dominates [OF parents_okD(3) [OF assms(1,2) v] s 2] .
qed

text \<open>The new parent of a node: an ancestor of all its predecessors that have one, and dominated
  by every strict dominator of the node.\<close>

definition good_parent :: "(nat \<Rightarrow> nat list) \<Rightarrow> nat \<Rightarrow> (nat \<rightharpoonup> nat) \<Rightarrow> nat \<Rightarrow> nat \<Rightarrow> bool" where
  "good_parent P r I v n \<longleftrightarrow> (\<forall>p \<in> set (P v). I p \<noteq> None \<longrightarrow> anc I n p) \<and> (\<forall>t. sdom P r t v \<longrightarrow> dominates P r t n)"

definition higher_done :: "nat set \<Rightarrow> (nat \<Rightarrow> nat) \<Rightarrow> (nat \<rightharpoonup> nat) \<Rightarrow> nat \<Rightarrow> bool" where
  "higher_done R po I v \<longleftrightarrow> (\<forall>u \<in> R. po v < po u \<longrightarrow> I u \<noteq> None)"

lemma good_parent_above:
  assumes n: "numbered P r R po" and ok: "parents_ok P r R po I" and v: "v \<in> R" "v \<noteq> r"
    and h: "higher_done R po I v" and g: "good_parent P r I v u"
  shows "I u \<noteq> None" "below P po u v" "po v < po u" "u \<in> R"
proof -
  obtain p where p: "p \<in> set (P v)" "p \<in> R" "po v < po p"
    using numbered_parent [OF n v] by blast
  then have "I p \<noteq> None" using h by (simp add: higher_done_def)
  moreover from this have a: "anc I u p" using g p(1) by (simp add: good_parent_def)
  ultimately have u: "I u \<noteq> None" "u = p \<or> below P po u p" using anc_below [OF a ok] by blast+
  show "I u \<noteq> None" by (rule u)
  then show "u \<in> R" using parents_okD(2) [OF ok] by blast
  show b: "below P po u v"
    using u(2) p below.edge [of u P v po] below.more [of P po u p v] below_po [of P po u p] by auto
  show "po v < po u" by (rule below_po [OF b])
qed

lemma parents_ok_update:
  assumes n: "numbered P r R po" and ok: "parents_ok P r R po I" and v: "v \<in> R" "v \<noteq> r"
    and h: "higher_done R po I v" and g: "good_parent P r I v u"
  shows "parents_ok P r R po (I(v \<mapsto> u))"
proof -
  note a = good_parent_above [OF assms]
  note p = parents_okD [OF ok]
  have d: "po u \<le> po d" if "sdom P r d v" for d
    using g that dominates_po [OF n _ a(4)] by (simp add: good_parent_def)
  show ?thesis
    unfolding parents_ok_def
  proof (intro conjI allI impI)
    show "(I(v \<mapsto> u)) r = Some r" using p(1) v(2) by simp
    fix w x assume w: "(I(v \<mapsto> u)) w = Some x"
    show "w \<in> R" using w v(1) p(2) by (cases "w = v") auto
    show "(I(v \<mapsto> u)) x \<noteq> None" using w a(1) p(4) by (cases "w = v") auto
    assume r: "w \<noteq> r"
    show "below P po x w" using w r a(2) p(3) by (cases "w = v") auto
    show "po x \<le> po d" if "sdom P r d w" for d
      using w r that d p(5) by (cases "w = v") auto
  qed
qed

section \<open>Convergence\<close>

text \<open>\<open>few k xs\<close>: a walk with fewer than \<open>k\<close> steps to a number that is not smaller.\<close>

inductive few :: "(nat \<Rightarrow> nat list) \<Rightarrow> nat \<Rightarrow> (nat \<Rightarrow> nat) \<Rightarrow> nat \<Rightarrow> nat list \<Rightarrow> bool" for P r po where
  first: "few P r po (Suc k) [r]"
| advance: "few P r po k (u # xs) \<Longrightarrow> u \<in> set (P v) \<Longrightarrow> po v < po u \<Longrightarrow> few P r po k (v # u # xs)"
| retreat: "few P r po k (u # xs) \<Longrightarrow> u \<in> set (P v) \<Longrightarrow> few P r po (Suc k) (v # u # xs)"

lemma few_0 [simp]: "\<not> few P r po 0 xs"
proof
  assume "few P r po 0 xs"
  then show False by (induction "0 :: nat" xs rule: few.induct) simp_all
qed

lemma few_mono: "few P r po k xs \<Longrightarrow> few P r po (Suc k) xs"
  by (induction rule: few.induct) (auto intro: few.intros)

lemma few_walk: "few P r po k xs \<Longrightarrow> walk P r xs"
  by (induction rule: few.induct) (auto intro: walk.intros)

lemma few_suffix: "few P r po k zs \<Longrightarrow> zs = xs @ v # ys \<Longrightarrow> few P r po k (v # ys)"
proof (induction arbitrary: xs rule: few.induct)
  case (first k)
  then show ?case by (cases xs) (auto intro: few.first)
next
  case (advance k u zs w)
  then show ?case by (cases xs) (auto intro: few.advance)
next
  case (retreat k u zs w)
  then show ?case by (cases xs) (auto intro: few.retreat few_mono)
qed

lemma walk_few: "walk P r xs \<Longrightarrow> length xs \<le> k \<Longrightarrow> few P r po k xs"
proof (induction arbitrary: k rule: walk.induct)
  case start
  then show ?case by (cases k) (auto intro: few.first)
next
  case (step u xs v)
  then show ?case by (cases k) (auto intro: few.retreat)
qed

text \<open>All ancestors lie on all walks with few retreats.\<close>

definition settled :: "(nat \<Rightarrow> nat list) \<Rightarrow> nat \<Rightarrow> (nat \<Rightarrow> nat) \<Rightarrow> nat \<Rightarrow> (nat \<rightharpoonup> nat) \<Rightarrow> nat \<Rightarrow> bool" where
  "settled P r po k I v \<longleftrightarrow> (\<forall>xs a. few P r po k (v # xs) \<longrightarrow> anc I a v \<longrightarrow> a \<in> set (v # xs))"

lemma settled_0 [simp]: "settled P r po 0 I v"
  by (simp add: settled_def)

lemma anc_root: "anc I a v \<Longrightarrow> v = r \<Longrightarrow> I r = Some r \<Longrightarrow> a = r"
  by (induction rule: anc.induct) auto

lemma settled_root: "I r = Some r \<Longrightarrow> settled P r po k I r"
  using anc_root by (fastforce simp: settled_def)

text \<open>A node that is not below the changed one keeps its ancestors; otherwise the changed node is
  one of them.\<close>

lemma anc_upd:
  "anc (I(v \<mapsto> u)) a w \<Longrightarrow> anc I a w \<or> (anc I v w \<and> anc (I(v \<mapsto> u)) a v)"
proof (induction rule: anc.induct)
  case self
  show ?case by (simp add: anc.self)
next
  case (up w x)
  show ?case
  proof (cases "w = v")
    case True
    then show ?thesis using anc.up [OF up.hyps] anc.self by blast
  next
    case False
    then show ?thesis using up anc.up [of I w x] by auto
  qed
qed

lemma anc_upd_above:
  assumes "anc (I(v \<mapsto> u)) a w" and "parents_ok P r R po I" and "I w \<noteq> None" and "po v < po w"
  shows "anc I a w"
  using anc_upd [OF assms(1)] anc_po [OF _ assms(2,3), of v] assms(4) by auto

lemma anc_upd_self:
  assumes "anc (I(v \<mapsto> u)) a v" and "parents_ok P r R po I" and "I u \<noteq> None" and "po v < po u"
  shows "a = v \<or> anc I a u"
  using assms(1)
proof (cases rule: anc.cases)
  case (up x)
  then have "anc (I(v \<mapsto> u)) a u" by simp
  then show ?thesis using anc_upd_above [OF _ assms(2-4)] by blast
qed simp

lemma anc_trans: "anc I b c \<Longrightarrow> anc I a b \<Longrightarrow> anc I a c"
  by (induction rule: anc.induct) (auto intro: anc.intros)

lemma settled_update:
  assumes n: "numbered P r R po" and ok: "parents_ok P r R po I" and v: "v \<in> R" "v \<noteq> r"
    and h: "higher_done R po I v" and g: "good_parent P r I v u"
    and low: "\<And>w. w \<in> R \<Longrightarrow> settled P r po k I w"
    and high: "\<And>w. w \<in> R \<Longrightarrow> po v < po w \<Longrightarrow> settled P r po (Suc k) I w"
    and full: "k \<noteq> 0 \<Longrightarrow> R \<subseteq> dom I"
  shows "settled P r po (Suc k) (I(v \<mapsto> u)) v"
  unfolding settled_def
proof (intro allI impI)
  fix xs a assume few: "few P r po (Suc k) (v # xs)" and a: "anc (I(v \<mapsto> u)) a v"
  note above = good_parent_above [OF n ok v h g]
  have "a = v \<or> anc I a u"
    by (rule anc_upd_self [OF a ok above(1,3)])
  moreover have "a \<in> set (v # xs)" if au: "anc I a u"
    using few
  proof (cases rule: few.cases)
    case first
    then show ?thesis using v(2) by simp
  next
    case (advance x ys)
    then have x: "x \<in> R" using walk_in [OF n few_walk] by fastforce
    then have "anc I u x"
      using g h advance(3,4) by (auto simp: good_parent_def higher_done_def)
    then have "anc I a x" using au by (rule anc_trans)
    then show ?thesis
      using high [OF x advance(4)] advance(1,2) by (auto simp: settled_def)
  next
    case (retreat x ys)
    have k: "k \<noteq> 0" using few_0 [of P r po "x # ys"] retreat(2) by (cases k) auto
    have x: "x \<in> R" using walk_in [OF n few_walk] retreat(2) by fastforce
    then have "anc I u x"
      using g full [OF k] retreat(3) by (auto simp: good_parent_def)
    then have "anc I a x" using au by (rule anc_trans)
    then show ?thesis
      using low [OF x] retreat(1,2) by (auto simp: settled_def)
  qed
  ultimately show "a \<in> set (v # xs)" by auto
qed

lemma settled_lower:
  assumes self: "settled P r po (Suc k) (I(v \<mapsto> u)) v" and low: "settled P r po k I w" and "w \<noteq> v"
  shows "settled P r po k (I(v \<mapsto> u)) w"
  unfolding settled_def
proof (intro allI impI)
  fix xs a assume few: "few P r po k (w # xs)" and a: "anc (I(v \<mapsto> u)) a w"
  from anc_upd [OF a] consider "anc I a w" | "anc I v w" "anc (I(v \<mapsto> u)) a v" by blast
  then show "a \<in> set (w # xs)"
  proof cases
    case 1
    then show ?thesis using low few unfolding settled_def by blast
  next
    case 2
    then have "v \<in> set (w # xs)" using low few unfolding settled_def by blast
    then obtain ys zs where s: "w # xs = ys @ v # zs" by (meson split_list)
    then have "few P r po (Suc k) (v # zs)"
      using few_suffix [OF few] few_mono by blast
    then have "a \<in> set (v # zs)"
      using self 2(2) unfolding settled_def by blast
    then show ?thesis unfolding s by auto
  qed
qed

lemma settled_mono: "settled P r po (Suc k) I v \<Longrightarrow> settled P r po k I v"
  unfolding settled_def using few_mono by blast

lemma settled_higher:
  assumes "settled P r po k I w" and "parents_ok P r R po I" and "I w \<noteq> None" and "po v < po w"
  shows "settled P r po k (I(v \<mapsto> u)) w"
  using assms(1) anc_upd_above [OF _ assms(2-4)] unfolding settled_def by blast

section \<open>The fixpoint\<close>

definition exact :: "(nat \<Rightarrow> nat list) \<Rightarrow> nat \<Rightarrow> nat set \<Rightarrow> (nat \<Rightarrow> nat) \<Rightarrow> (nat \<rightharpoonup> nat) \<Rightarrow> bool" where
  "exact P r R po I \<longleftrightarrow> parents_ok P r R po I \<and> R \<subseteq> dom I \<and> (\<forall>v \<in> R. \<forall>a. anc I a v \<longrightarrow> dominates P r a v)"

lemma settled_dominates:
  assumes n: "numbered P r R po" and "settled P r po k I v" and "card R \<le> k" and "anc I a v"
  shows "dominates P r a v"
  unfolding dominates_def
proof (intro allI impI)
  fix xs assume "walk P r (v # xs)"
  then obtain ys where ys: "walk P r ys" "hd ys = v" "distinct ys" "set ys \<subseteq> set (v # xs)"
    using walk_distinct by fastforce
  have "card (set ys) \<le> card R"
    using walk_in [OF n ys(1)] numberedD(1) [OF n] by (simp add: card_mono)
  then have "few P r po k ys"
    using walk_few [OF ys(1)] assms(3) distinct_card [OF ys(3)] by simp
  moreover have "ys = v # tl ys"
    using ys(1,2) by (cases rule: walk.cases) auto
  ultimately have "a \<in> set ys"
    using assms(2,4) unfolding settled_def by metis
  then show "a \<in> set (v # xs)" using ys(4) by blast
qed

lemma settled_exact:
  assumes "numbered P r R po" and "parents_ok P r R po I" and "R \<subseteq> dom I"
    and "\<And>v. v \<in> R \<Longrightarrow> settled P r po k I v" and "card R \<le> k"
  shows "exact P r R po I"
  using assms settled_dominates unfolding exact_def by blast

lemma exactD:
  assumes "exact P r R po I"
  shows "parents_ok P r R po I" "R \<subseteq> dom I" "v \<in> R \<Longrightarrow> anc I a v \<Longrightarrow> dominates P r a v"
  using assms by (auto simp: exact_def)

lemma exact_parent:
  assumes n: "numbered P r R po" and e: "exact P r R po I" and v: "v \<in> R" "v \<noteq> r" and u: "I v = Some u"
  shows "sdom P r u v" "sdom P r d v \<Longrightarrow> po u \<le> po d" "sdom P r d v \<Longrightarrow> dominates P r d u" "u \<in> R"
proof -
  note ok = exactD(1) [OF e]
  have "anc I u v" using u by (auto intro: anc.intros)
  moreover have "u \<noteq> v" using parent_po [OF ok u v(2)] by auto
  ultimately show "sdom P r u v"
    using exactD(3) [OF e v(1)] by (simp add: sdom_def)
  show "sdom P r d v \<Longrightarrow> po u \<le> po d"
    by (rule parents_okD(5) [OF ok u v(2)])
  show "sdom P r d v \<Longrightarrow> dominates P r d u"
    using climb_dominator(1) [OF ok u] by (simp add: sdom_def)
  show "u \<in> R"
    using parents_okD(2,4) [OF ok] u by blast
qed

lemma exact_idom: "numbered P r R po \<Longrightarrow> exact P r R po I \<Longrightarrow> v \<in> R \<Longrightarrow> v \<noteq> r \<Longrightarrow> I v = Some u \<Longrightarrow> is_idom P r u v"
  by (simp add: is_idom_def exact_parent)

lemma exact_anc:
  assumes n: "numbered P r R po" and e: "exact P r R po I" and "v \<in> R"
  shows "anc I a v \<longleftrightarrow> dominates P r a v"
proof
  show "anc I a v \<Longrightarrow> dominates P r a v" by (rule exactD(3) [OF e assms(3)])
  show "dominates P r a v \<Longrightarrow> anc I a v"
    using assms(3)
  proof (induction "Max (po ` R) - po v" arbitrary: v rule: less_induct)
    case less
    show ?case
    proof (cases "a = v")
      case True
      then show ?thesis by (simp add: anc.self)
    next
      case False
      then have v: "v \<noteq> r" using dominates_root less.prems(1) by blast
      obtain u where u: "I v = Some u" using exactD(2) [OF e] less.prems(2) by blast
      note pu = exact_parent [OF n e less.prems(2) v u]
      have d: "dominates P r a u" using pu(3) less.prems(1) False by (simp add: sdom_def)
      have lt: "po v < po u" by (rule parent_po [OF exactD(1) [OF e] u v])
      have "po u \<le> Max (po ` R)" using pu(4) numberedD(1) [OF n] by simp
      then have "Max (po ` R) - po u < Max (po ` R) - po v" using lt by simp
      then have "anc I a u" using less.hyps d pu(4) by blast
      then show ?thesis using u by (rule anc.up [rotated])
    qed
  qed
qed

lemma exact_unique:
  assumes n: "numbered P r R po" and e: "exact P r R po I" and e': "exact P r R po J"
  shows "I = J"
proof
  fix v
  show "I v = J v"
  proof (cases "v \<in> R")
    case False
    then have "I v = None" "J v = None"
      using parents_okD(2) exactD(1) e e' by (metis not_None_eq)+
    then show ?thesis by simp
  next
    case True
    then obtain a b where ab: "I v = Some a" "J v = Some b" using exactD(2) e e' by blast
    show ?thesis
    proof (cases "v = r")
      case True
      then show ?thesis using parents_okD(1) exactD(1) e e' by metis
    next
      case False
      note a = exact_parent [OF n e True False ab(1)] and b = exact_parent [OF n e' True False ab(2)]
      have "po a = po b" using a(1,2) b(1,2) by (simp add: le_antisym)
      then show ?thesis using numberedD(3) [OF n a(4) b(4)] ab by simp
    qed
  qed
qed

text \<open>On the fixpoint an update changes nothing.\<close>

lemma exact_stable:
  assumes n: "numbered P r R po" and e: "exact P r R po I" and v: "v \<in> R" "v \<noteq> r" and g: "good_parent P r I v u"
  shows "I v = Some u"
proof -
  note ok = exactD(1) [OF e]
  have h: "higher_done R po I v" using exactD(2) [OF e] by (auto simp: higher_done_def)
  note above = good_parent_above [OF n ok v h g]
  have set: "settled P r po k I w" if "w \<in> R" for w k
    using exactD(3) [OF e that] few_walk unfolding settled_def dominates_def by blast
  have full: "R \<subseteq> dom I" by (rule exactD(2) [OF e])
  have "settled P r po (Suc (card R)) (I(v \<mapsto> u)) v"
    by (rule settled_update [OF n ok v h g set set full])
  moreover have "anc (I(v \<mapsto> u)) u v" by (rule anc.up [OF _ anc.self]) simp
  ultimately have "dominates P r u v"
    using settled_dominates [OF n] by (meson le_Suc_eq le_refl)
  then have s: "sdom P r u v" using above(3) by (auto simp: sdom_def)
  obtain w where w: "I v = Some w" using full v(1) by blast
  note pw = exact_parent [OF n e v w]
  have "po w \<le> po u" by (rule pw(2) [OF s])
  moreover have "po u \<le> po w"
    using parents_okD(5) [OF parents_ok_update [OF n ok v h g] _ v(2) pw(1), of u] by simp
  ultimately show ?thesis using numberedD(3) [OF n pw(4) above(4)] w by simp
qed

end
