(* ===== verification/Dominators.thy ===== *)
theory Dominators
  imports IR_Invariants Flow_Graph
begin

text \<open>
  The pass \<open>Dominators\<close> (\<open>optimization/Dominators.h\<close>, \<open>Dominators.cpp\<close>): the
  reverse post-order of a function's blocks, the iteration that computes immediate dominators on it,
  dominance frontiers and the children in the dominator tree. This file holds the model and the
  depth-first search; the results of the iteration are in \<open>Dominators_Correct\<close>.
\<close>

section \<open>The state of the pass\<close>

text \<open>
  The maps are read with \<open>operator[]\<close>, which enters the default for a missing key: an absent
  number reads as 0, an absent parent as \<open>nullptr\<close> (\<open>None\<close>), an absent set as empty.
  The keys of the two maps of sets can be null. That \<open>run\<close> enters empty values for the blocks
  first is therefore not visible.
\<close>

record dominators =
  reverse_post_order :: "nat list"
  post_order_id :: "nat \<Rightarrow> nat option"
  doms :: "nat \<Rightarrow> nat set"
  idom :: "nat \<Rightarrow> nat option"
  dom_frontier :: "nat option \<Rightarrow> nat set"
  dom_tree_succ_blocks :: "nat option \<Rightarrow> nat set"

definition new_dominators :: dominators where
  "new_dominators = \<lparr>reverse_post_order = [], post_order_id = Map.empty, doms = (\<lambda>_. {}), idom = Map.empty,
     dom_frontier = (\<lambda>_. {}), dom_tree_succ_blocks = (\<lambda>_. {})\<rparr>"

definition po_id :: "dominators \<Rightarrow> nat \<Rightarrow> nat" where
  "po_id d b = (case post_order_id d b of None \<Rightarrow> 0 | Some i \<Rightarrow> i)"

definition get_idom :: "dominators \<Rightarrow> nat option \<Rightarrow> nat option" where
  "get_idom d p = (case p of None \<Rightarrow> None | Some b \<Rightarrow> idom d b)"

definition set_idom :: "nat \<Rightarrow> nat option \<Rightarrow> dominators \<Rightarrow> dominators" where
  "set_idom b p d = d\<lparr>idom := (idom d)(b := p)\<rparr>"

definition add_dominance_frontier :: "nat option \<Rightarrow> nat \<Rightarrow> dominators \<Rightarrow> dominators" where
  "add_dominance_frontier p b d = d\<lparr>dom_frontier := (dom_frontier d)(p := insert b (dom_frontier d p))\<rparr>"

definition set_dominance_frontier :: "nat option \<Rightarrow> nat set \<Rightarrow> dominators \<Rightarrow> dominators" where
  "set_dominance_frontier p df d = d\<lparr>dom_frontier := (dom_frontier d)(p := df)\<rparr>"

definition add_dom :: "nat \<Rightarrow> nat \<Rightarrow> dominators \<Rightarrow> dominators" where
  "add_dom b c d = d\<lparr>doms := (doms d)(b := insert c (doms d b))\<rparr>"

definition set_doms :: "nat \<Rightarrow> nat set \<Rightarrow> dominators \<Rightarrow> dominators" where
  "set_doms b cs d = d\<lparr>doms := (doms d)(b := cs)\<rparr>"

definition add_dom_tree_succ_block :: "nat option \<Rightarrow> nat \<Rightarrow> dominators \<Rightarrow> dominators" where
  "add_dom_tree_succ_block p b d =
     d\<lparr>dom_tree_succ_blocks := (dom_tree_succ_blocks d)(p := insert b (dom_tree_succ_blocks d p))\<rparr>"

text \<open>\<open>Function::get_entry_block\<close>: the first element of the list of blocks.\<close>

definition get_entry_block :: "'z ir_scheme \<Rightarrow> nat \<Rightarrow> nat res" where
  "get_entry_block s f =
     bnd (deref (funs s f)) (\<lambda>fn. case basic_blocks fn of [] \<Rightarrow> Inl OutOfBounds | b # _ \<Rightarrow> Inr b)"

section \<open>The depth-first search\<close>

text \<open>The recursion \<open>post_order_visit\<close> and its loop over the successors, with the visited set
  that is passed by reference. The fuel bounds the depth of the recursion.\<close>

fun post_order_visit :: "nat \<Rightarrow> 'z ir_scheme \<Rightarrow> nat \<Rightarrow> nat set \<times> dominators \<Rightarrow> (nat set \<times> dominators) res"
  and visit_succs :: "nat \<Rightarrow> 'z ir_scheme \<Rightarrow> nat list \<Rightarrow> nat set \<times> dominators \<Rightarrow> (nat set \<times> dominators) res" where
  "post_order_visit 0 s b st = Inl NoReturn"
| "post_order_visit (Suc n) s b (vis, d) =
     bnd (deref (blocks s b)) (\<lambda>k.
     bnd (visit_succs n s (succ_bbs k) (insert b vis, d)) (\<lambda>(vis, d).
     Inr (vis, d\<lparr>post_order_id := (post_order_id d)(b \<mapsto> length (reverse_post_order d)),
                 reverse_post_order := reverse_post_order d @ [b]\<rparr>)))"
| "visit_succs n s [] st = Inr st"
| "visit_succs n s (b # bs) st =
     bnd (if b \<notin> fst st then post_order_visit n s b st else Inr st) (visit_succs n s bs)"

definition create_reverse_post_order :: "'z ir_scheme \<Rightarrow> nat \<Rightarrow> dominators \<Rightarrow> dominators res" where
  "create_reverse_post_order s f d =
     bnd (get_entry_block s f) (\<lambda>r.
     bnd (post_order_visit (length (fblocks s f)) s r ({}, d\<lparr>reverse_post_order := [], post_order_id := Map.empty\<rparr>))
       (\<lambda>(vis, d). Inr (d\<lparr>reverse_post_order := rev (reverse_post_order d)\<rparr>)))"

section \<open>Immediate dominators\<close>

text \<open>One of the two inner loops of \<open>intersect\<close>: climb from \<open>b1\<close> while its number is the
  smaller one.\<close>

fun climb :: "nat \<Rightarrow> dominators \<Rightarrow> nat \<Rightarrow> nat \<Rightarrow> nat res" where
  "climb 0 d b1 b2 = Inl NoReturn"
| "climb (Suc n) d b1 b2 =
     (if po_id d b1 < po_id d b2
      then case idom d b1 of None \<Rightarrow> Inl AssertFail | Some u \<Rightarrow> climb n d u b2
      else Inr b1)"

fun intersect :: "nat \<Rightarrow> dominators \<Rightarrow> nat \<Rightarrow> nat \<Rightarrow> nat res" where
  "intersect 0 d b1 b2 = Inl NoReturn"
| "intersect (Suc n) d b1 b2 =
     (if b1 = b2 then Inr b1
      else bnd (climb n d b1 b2) (\<lambda>b1. bnd (climb n d b2 b1) (\<lambda>b2. intersect n d b1 b2)))"

text \<open>The loop over the other predecessors that have a parent.\<close>

fun meet_preds :: "nat \<Rightarrow> dominators \<Rightarrow> nat \<Rightarrow> nat list \<Rightarrow> nat \<Rightarrow> nat res" where
  "meet_preds n d pred [] new_idom = Inr new_idom"
| "meet_preds n d pred (p # ps) new_idom =
     (if p = pred then meet_preds n d pred ps new_idom
      else if idom d p \<noteq> None then bnd (intersect n d p new_idom) (meet_preds n d pred ps)
      else meet_preds n d pred ps new_idom)"

definition find_new_idom :: "nat \<Rightarrow> 'z ir_scheme \<Rightarrow> dominators \<Rightarrow> nat \<Rightarrow> nat res" where
  "find_new_idom n s d b =
     bnd (deref (blocks s b)) (\<lambda>k.
     case find (\<lambda>p. idom d p \<noteq> None) (pre_bbs k) of
       None \<Rightarrow> Inl AssertFail
     | Some pred \<Rightarrow> meet_preds n d pred (pre_bbs k) pred)"

text \<open>One round of the outer loop; the flag is \<open>changed\<close>.\<close>

fun idom_pass :: "nat \<Rightarrow> 'z ir_scheme \<Rightarrow> nat \<Rightarrow> nat list \<Rightarrow> bool \<Rightarrow> dominators \<Rightarrow> (bool \<times> dominators) res" where
  "idom_pass n s root [] changed d = Inr (changed, d)"
| "idom_pass n s root (b # bs) changed d =
     (if b = root then idom_pass n s root bs changed d
      else bnd (find_new_idom n s d b) (\<lambda>new_idom.
           if idom d b \<noteq> Some new_idom then idom_pass n s root bs True (set_idom b (Some new_idom) d)
           else idom_pass n s root bs changed d))"

fun idom_loop :: "nat \<Rightarrow> nat \<Rightarrow> 'z ir_scheme \<Rightarrow> nat \<Rightarrow> dominators \<Rightarrow> dominators res" where
  "idom_loop 0 n s root d = Inl NoReturn"
| "idom_loop (Suc m) n s root d =
     bnd (idom_pass n s root (reverse_post_order d) False d) (\<lambda>(changed, d).
     if changed then idom_loop m n s root d else Inr d)"

fun clear_idoms :: "nat list \<Rightarrow> dominators \<Rightarrow> dominators" where
  "clear_idoms [] d = d"
| "clear_idoms (b # bs) d = clear_idoms bs (set_idom b None d)"

text \<open>With \<open>n\<close> numbered blocks a climb ends after \<open>n\<close> steps, \<open>intersect\<close> after
  \<open>2 * n\<close>, and the outer loop after \<open>n + 1\<close> rounds.\<close>

definition create_idom :: "'z ir_scheme \<Rightarrow> nat \<Rightarrow> dominators \<Rightarrow> dominators res" where
  "create_idom s f d =
     bnd (get_entry_block s f) (\<lambda>root.
     let n = length (reverse_post_order d)
     in idom_loop (n + 2) (2 * n + 2) s root (set_idom root (Some root) (clear_idoms (fblocks s f) d)))"

section \<open>Dominance frontiers and the dominator tree\<close>

text \<open>The runner climbs from a predecessor to the immediate dominator of the block; from a null
  pointer it does not move.\<close>

fun run_up :: "nat \<Rightarrow> nat \<Rightarrow> nat option \<Rightarrow> dominators \<Rightarrow> dominators res" where
  "run_up 0 b runner d = Inl NoReturn"
| "run_up (Suc n) b runner d =
     (if runner \<noteq> idom d b then run_up n b (get_idom d runner) (add_dominance_frontier runner b d) else Inr d)"

fun run_preds :: "nat \<Rightarrow> nat \<Rightarrow> nat list \<Rightarrow> dominators \<Rightarrow> dominators res" where
  "run_preds n b [] d = Inr d"
| "run_preds n b (p # ps) d = bnd (run_up n b (Some p) d) (run_preds n b ps)"

fun frontier_blocks :: "nat \<Rightarrow> 'z ir_scheme \<Rightarrow> nat list \<Rightarrow> dominators \<Rightarrow> dominators res" where
  "frontier_blocks n s [] d = Inr d"
| "frontier_blocks n s (b # bs) d =
     bnd (deref (blocks s b)) (\<lambda>k.
     bnd (if length (pre_bbs k) \<ge> 2 then run_preds n b (pre_bbs k) d else Inr d) (frontier_blocks n s bs))"

definition create_dominance_frontier :: "'z ir_scheme \<Rightarrow> nat \<Rightarrow> dominators \<Rightarrow> dominators res" where
  "create_dominance_frontier s f d =
     frontier_blocks (length (reverse_post_order d) + 3) s (fblocks s f) d"

fun tree_succs :: "nat list \<Rightarrow> dominators \<Rightarrow> dominators" where
  "tree_succs [] d = d"
| "tree_succs (b # bs) d =
     tree_succs bs (if idom d b \<noteq> Some b then add_dom_tree_succ_block (idom d b) b d else d)"

definition create_dom_tree_succ :: "'z ir_scheme \<Rightarrow> nat \<Rightarrow> dominators \<Rightarrow> dominators" where
  "create_dom_tree_succ s f d = tree_succs (fblocks s f) d"

definition create_dominators :: "'z ir_scheme \<Rightarrow> nat \<Rightarrow> dominators \<Rightarrow> dominators res" where
  "create_dominators s f d =
     bnd (create_reverse_post_order s f d) (\<lambda>d.
     bnd (create_idom s f d) (\<lambda>d.
     bnd (create_dominance_frontier s f d) (\<lambda>d.
     Inr (create_dom_tree_succ s f d))))"

fun dominators_functions :: "'z ir_scheme \<Rightarrow> nat list \<Rightarrow> dominators \<Rightarrow> dominators res" where
  "dominators_functions s [] d = Inr d"
| "dominators_functions s (f # fs) d =
     bnd (deref (funs s f)) (\<lambda>fn.
     bnd (if basic_blocks fn = [] then Inr d else create_dominators s f d) (dominators_functions s fs))"

definition Dominators_run :: "'z ir_scheme \<Rightarrow> dominators \<Rightarrow> dominators res" where
  "Dominators_run s d = dominators_functions s (function_list s) d"

section \<open>The search: reachability and numbering\<close>

text \<open>What the pass needs of a function: it has blocks, they exist, the edges stay inside, and the
  two adjacency lists agree.\<close>

definition flow_ok :: "'z ir_scheme \<Rightarrow> nat \<Rightarrow> bool" where
  "flow_ok s f \<longleftrightarrow> fblocks s f \<noteq> [] \<and>
     (\<forall>b \<in> set (fblocks s f). blocks s b \<noteq> None \<and> set (succs s b) \<subseteq> set (fblocks s f) \<and>
        set (preds s b) \<subseteq> set (fblocks s f)) \<and>
     (\<forall>b c. b \<in> set (preds s c) \<longleftrightarrow> c \<in> set (succs s b))"

lemma flow_okD:
  assumes "flow_ok s f"
  shows "fblocks s f \<noteq> []" "b \<in> set (fblocks s f) \<Longrightarrow> \<exists>k. blocks s b = Some k"
    "b \<in> set (fblocks s f) \<Longrightarrow> set (succs s b) \<subseteq> set (fblocks s f)"
    "b \<in> set (preds s c) \<longleftrightarrow> c \<in> set (succs s b)"
    "b \<in> set (fblocks s f) \<Longrightarrow> set (preds s b) \<subseteq> set (fblocks s f)"
  using assms by (auto simp: flow_ok_def)

definition entry :: "'z ir_scheme \<Rightarrow> nat \<Rightarrow> nat" where
  "entry s f = hd (fblocks s f)"

lemma get_entry_block_eq: "fblocks s f \<noteq> [] \<Longrightarrow> get_entry_block s f = Inr (entry s f)"
  by (auto simp: get_entry_block_def fblocks_def entry_def split: option.splits list.splits)

lemma entry_in: "flow_ok s f \<Longrightarrow> entry s f \<in> set (fblocks s f)"
  by (simp add: entry_def flow_okD(1))

definition reachable :: "'z ir_scheme \<Rightarrow> nat \<Rightarrow> nat set" where
  "reachable s f = {v. \<exists>xs. walk (preds s) (entry s f) (v # xs)}"

text \<open>Every node of a list is one of \<open>S\<close> or has a predecessor later in the list.\<close>

fun parented :: "(nat \<Rightarrow> nat list) \<Rightarrow> nat set \<Rightarrow> nat list \<Rightarrow> bool" where
  "parented P S [] \<longleftrightarrow> True"
| "parented P S (x # xs) \<longleftrightarrow> (x \<in> S \<or> (\<exists>p \<in> set xs. p \<in> set (P x))) \<and> parented P S xs"

lemma parented_append:
  "parented P S xs \<Longrightarrow> parented P T ys \<Longrightarrow> S \<subseteq> U \<Longrightarrow> T \<subseteq> U \<Longrightarrow> parented P U (xs @ ys)"
proof (induction xs)
  case Nil
  then show ?case by (induction ys) auto
qed auto

lemma parented_snoc: "parented P S xs \<Longrightarrow> (\<forall>x \<in> S. b \<in> set (P x)) \<Longrightarrow> parented P {b} (xs @ [b])"
  by (induction xs) auto

lemma parented_nth:
  "parented P S xs \<Longrightarrow> i < length xs \<Longrightarrow> xs ! i \<notin> S \<Longrightarrow> \<exists>j < length xs. i < j \<and> xs ! j \<in> set (P (xs ! i))"
proof (induction xs arbitrary: i)
  case (Cons x xs)
  show ?case
  proof (cases i)
    case 0
    with Cons.prems obtain p where "p \<in> set xs" "p \<in> set (P x)" by auto
    then obtain j where "j < length xs" "xs ! j = p" by (auto simp: in_set_conv_nth)
    then show ?thesis using 0 \<open>p \<in> set (P x)\<close> by (intro exI [of _ "Suc j"]) simp
  next
    case (Suc m)
    then obtain j where "j < length xs" "m < j" "xs ! j \<in> set (P (xs ! m))"
      using Cons by fastforce
    then show ?thesis using Suc by (intro exI [of _ "Suc j"]) simp
  qed
qed simp

text \<open>What a part of the search adds to the order: the numbers are the positions, the new blocks
  were not visited before, and all their successors are visited now.\<close>

definition ids_ok :: "dominators \<Rightarrow> bool" where
  "ids_ok d \<longleftrightarrow> distinct (reverse_post_order d) \<and>
     (\<forall>i < length (reverse_post_order d). post_order_id d (reverse_post_order d ! i) = Some i)"

definition searched :: "'z ir_scheme \<Rightarrow> nat \<Rightarrow> nat set \<Rightarrow> nat set \<times> dominators \<Rightarrow> nat list \<Rightarrow> nat set \<times> dominators \<Rightarrow> bool" where
  "searched s f S st new st' \<longleftrightarrow> (case st of (vis, d) \<Rightarrow> case st' of (vis', d') \<Rightarrow>
     reverse_post_order d' = reverse_post_order d @ new \<and> vis' = vis \<union> set new \<and> vis \<inter> set new = {} \<and>
     vis' \<subseteq> set (fblocks s f) \<and> ids_ok d' \<and> parented (preds s) S new \<and>
     (\<forall>x \<in> set new. set (succs s x) \<subseteq> vis') \<and> idom d' = idom d \<and> dom_frontier d' = dom_frontier d \<and>
     dom_tree_succ_blocks d' = dom_tree_succ_blocks d)"

definition search_pre :: "'z ir_scheme \<Rightarrow> nat \<Rightarrow> nat \<Rightarrow> nat set \<times> dominators \<Rightarrow> bool" where
  "search_pre s f n st \<longleftrightarrow> (case st of (vis, d) \<Rightarrow> vis \<subseteq> set (fblocks s f) \<and>
     set (reverse_post_order d) \<subseteq> vis \<and> ids_ok d \<and> card (set (fblocks s f) - vis) \<le> n)"

lemma searchedD:
  assumes "searched s f S (vis, d) new (vis', d')"
  shows "reverse_post_order d' = reverse_post_order d @ new" "vis' = vis \<union> set new" "vis \<inter> set new = {}"
    "vis' \<subseteq> set (fblocks s f)" "ids_ok d'" "parented (preds s) S new"
    "\<forall>x \<in> set new. set (succs s x) \<subseteq> vis'" "idom d' = idom d" "dom_frontier d' = dom_frontier d"
    "dom_tree_succ_blocks d' = dom_tree_succ_blocks d"
  using assms unfolding searched_def prod.case by blast+

lemma searched_refl: "search_pre s f n st \<Longrightarrow> searched s f S st [] st"
  by (auto simp: searched_def search_pre_def)

lemma searched_trans:
  assumes "searched s f S st xs st1" and "searched s f T st1 ys st2" and "S \<subseteq> U" and "T \<subseteq> U"
  shows "searched s f U st (xs @ ys) st2"
proof -
  obtain vis d vis1 d1 vis2 d2 where p: "st = (vis, d)" "st1 = (vis1, d1)" "st2 = (vis2, d2)"
    by (metis surj_pair)
  note a = searchedD [OF assms(1) [unfolded p]] and b = searchedD [OF assms(2) [unfolded p]]
  show ?thesis
    unfolding p searched_def
    using a b(1,3,4,5,7-10) parented_append [OF a(6) b(6) assms(3,4)]
    by (simp only: b(2) a(2)) auto
qed

lemma searched_pre:
  assumes "search_pre s f n st" and "searched s f S st new st'"
  shows "search_pre s f n st'"
proof -
  obtain vis d vis' d' where p: "st = (vis, d)" "st' = (vis', d')" by (metis surj_pair)
  note a = searchedD [OF assms(2) [unfolded p]]
  have "card (set (fblocks s f) - vis') \<le> card (set (fblocks s f) - vis)"
    using a(2) by (intro card_mono) auto
  then show ?thesis
    using assms(1) a(1,4,5) unfolding p search_pre_def by (auto simp: a(2))
qed

lemma ids_ok_snoc:
  assumes "ids_ok d" and "b \<notin> set (reverse_post_order d)"
  shows "ids_ok (d\<lparr>post_order_id := (post_order_id d)(b \<mapsto> length (reverse_post_order d)),
    reverse_post_order := reverse_post_order d @ [b]\<rparr>)"
  using assms by (auto simp: ids_ok_def nth_append less_Suc_eq)

lemma search_step:
  assumes fl: "flow_ok s f" and pre: "search_pre s f n (vis, d)" and b: "b \<in> set (fblocks s f) - vis"
    and se: "searched s f (set (succs s b)) (insert b vis, d) new (vis', d')" and sub: "set (succs s b) \<subseteq> vis'"
  shows "searched s f {b} (vis, d) (new @ [b])
    (vis', d'\<lparr>post_order_id := (post_order_id d')(b \<mapsto> length (reverse_post_order d')),
       reverse_post_order := reverse_post_order d' @ [b]\<rparr>)"
proof -
  note a = searchedD [OF se]
  have "set (reverse_post_order d) \<subseteq> vis"
    using pre by (simp add: search_pre_def)
  then have "b \<notin> set (reverse_post_order d')"
    using a(1,3) b by auto
  note ids = ids_ok_snoc [OF a(5) this]
  have par: "parented (preds s) {b} (new @ [b])"
    by (rule parented_snoc [OF a(6)]) (simp add: flow_okD(4) [OF fl])
  show ?thesis
    unfolding searched_def prod.case using a(1,3,4,7-10) ids par sub b by (auto simp: a(2))
qed

lemma search_pre_insert:
  assumes "search_pre s f (Suc n) (vis, d)" and "b \<in> set (fblocks s f) - vis"
  shows "search_pre s f n (insert b vis, d)"
proof -
  have "card (set (fblocks s f) - insert b vis) < card (set (fblocks s f) - vis)"
    using assms(2) by (intro psubset_card_mono) auto
  then show ?thesis using assms by (auto simp: search_pre_def)
qed

lemma search_returns:
  assumes fl: "flow_ok s f"
  shows "search_pre s f n st \<Longrightarrow> b \<in> set (fblocks s f) - fst st \<Longrightarrow>
      returns (post_order_visit n s b st) (\<lambda>st'. \<exists>new. searched s f {b} st (new @ [b]) st')"
    and "search_pre s f n st \<Longrightarrow> set bs \<subseteq> set (fblocks s f) \<Longrightarrow>
      returns (visit_succs n s bs st) (\<lambda>st'. \<exists>new. searched s f (set bs) st new st' \<and> set bs \<subseteq> fst st')"
  using assms
proof (induction n s b st and n s bs st rule: post_order_visit_visit_succs.induct)
  case (1 s b st)
  then have "set (fblocks s f) - fst st = {}"
    by (cases st) (simp add: search_pre_def)
  with 1 show ?case by blast
next
  case (2 n s b vis d)
  obtain k where k: "blocks s b = Some k" using flow_okD(2) [OF 2(4)] 2(3) by auto
  then have sk: "succ_bbs k = succs s b" by (simp add: succs_def)
  have pre: "search_pre s f n (insert b vis, d)" using search_pre_insert 2(2,3) by simp
  have "set (succs s b) \<subseteq> set (fblocks s f)" using flow_okD(3) [OF 2(4)] 2(3) by simp
  then obtain vis' d' new where r: "visit_succs n s (succs s b) (insert b vis, d) = Inr (vis', d')"
    "searched s f (set (succs s b)) (insert b vis, d) new (vis', d')" "set (succs s b) \<subseteq> vis'"
    using 2(1) [of k] k sk pre 2(4) unfolding returns_def by auto
  show ?case
    using search_step [OF 2(4) 2(2) _ r(2,3)] 2(3) k sk r(1) by auto
next
  case (3 n s st)
  then show ?case using searched_refl by fastforce
next
  case (4 n s b bs st)
  have rest: "returns (visit_succs n s bs st') (\<lambda>st''. \<exists>new. searched s f (set bs) st' new st'' \<and> set bs \<subseteq> fst st'')"
    if "search_pre s f n st'" "(if b \<notin> fst st then post_order_visit n s b st else Inr st) = Inr st'" for st'
    using 4(2) [of st'] that 4(4,5) by simp
  show ?case
  proof (cases "b \<in> fst st")
    case True
    obtain st' new where r: "visit_succs n s bs st = Inr st'" "searched s f (set bs) st new st'" "set bs \<subseteq> fst st'"
      using rest [OF 4(3)] True unfolding returns_def by auto
    have "searched s f (set (b # bs)) st ([] @ new) st'"
      by (rule searched_trans [OF searched_refl [OF 4(3)] r(2)]) auto
    moreover have "fst st \<subseteq> fst st'" using r(2) by (auto simp: searched_def)
    ultimately show ?thesis using True r(1,3) by auto
  next
    case False
    then obtain st1 new1 where r1: "post_order_visit n s b st = Inr st1" "searched s f {b} st (new1 @ [b]) st1"
      using 4(1,3-5) unfolding returns_def by auto
    obtain st' new where r: "visit_succs n s bs st1 = Inr st'" "searched s f (set bs) st1 new st'" "set bs \<subseteq> fst st'"
      using rest [OF searched_pre [OF 4(3) r1(2)]] r1(1) False unfolding returns_def by auto
    have "searched s f (set (b # bs)) st ((new1 @ [b]) @ new) st'"
      by (rule searched_trans [OF r1(2) r(2)]) auto
    moreover have "b \<in> fst st1" "fst st1 \<subseteq> fst st'" using r1(2) r(2) by (auto simp: searched_def)
    ultimately show ?thesis using False r1(1) r(1,3) by auto
  qed
qed

text \<open>The reverse post-order lists exactly the reachable blocks by falling numbers, and the numbers
  are those of a depth-first search.\<close>

definition rpo_ok :: "'z ir_scheme \<Rightarrow> nat \<Rightarrow> dominators \<Rightarrow> bool" where
  "rpo_ok s f d \<longleftrightarrow> set (reverse_post_order d) = reachable s f \<and>
     reachable s f \<subseteq> set (fblocks s f) \<and> distinct (reverse_post_order d) \<and>
     sorted_wrt (\<lambda>a b. po_id d b < po_id d a) (reverse_post_order d) \<and>
     numbered (preds s) (entry s f) (reachable s f) (po_id d) \<and>
     (\<forall>v \<in> reachable s f. po_id d v < length (reverse_post_order d))"

lemma rpo_okD:
  assumes "rpo_ok s f d"
  shows "set (reverse_post_order d) = reachable s f" "reachable s f \<subseteq> set (fblocks s f)"
    "distinct (reverse_post_order d)" "sorted_wrt (\<lambda>a b. po_id d b < po_id d a) (reverse_post_order d)"
    "numbered (preds s) (entry s f) (reachable s f) (po_id d)"
    "v \<in> reachable s f \<Longrightarrow> po_id d v < length (reverse_post_order d)"
  using assms unfolding rpo_ok_def by blast+

lemma numbered_reachable: "numbered (preds s) (entry s f) R po \<Longrightarrow> reachable s f = R"
proof -
  assume n: "numbered (preds s) (entry s f) R po"
  have "R \<subseteq> reachable s f" using falling_walk [OF n] by (auto simp: reachable_def)
  moreover have "reachable s f \<subseteq> R" using walk_in [OF n] by (fastforce simp: reachable_def)
  ultimately show ?thesis by blast
qed

lemma ids_ok_po: "ids_ok d \<Longrightarrow> i < length (reverse_post_order d) \<Longrightarrow> po_id d (reverse_post_order d ! i) = i"
  by (simp add: ids_ok_def po_id_def)

lemma searched_numbered:
  assumes fl: "flow_ok s f" and se: "searched s f {r} ({}, d) (new @ [r]) (vis, d')" and d: "reverse_post_order d = []"
  shows "numbered (preds s) r (set (reverse_post_order d')) (po_id d')"
    "set (reverse_post_order d') \<subseteq> set (fblocks s f)"
    "sorted_wrt (\<lambda>a b. po_id d' a < po_id d' b) (reverse_post_order d')" "distinct (reverse_post_order d')"
    "\<forall>v \<in> set (reverse_post_order d'). po_id d' v < length (reverse_post_order d')"
proof -
  note a = searchedD [OF se]
  let ?o = "reverse_post_order d'"
  have o: "?o = new @ [r]" "vis = set ?o" using a(1,2) d by simp_all
  note po = ids_ok_po [OF a(5)]
  show "set ?o \<subseteq> set (fblocks s f)" using a(4) o(2) by simp
  show "distinct ?o" using a(5) by (simp add: ids_ok_def)
  show "\<forall>v \<in> set ?o. po_id d' v < length ?o"
    using po by (metis in_set_conv_nth)
  show "sorted_wrt (\<lambda>a b. po_id d' a < po_id d' b) ?o"
    unfolding sorted_wrt_iff_nth_less by (auto simp: po)
  show "numbered (preds s) r (set ?o) (po_id d')"
    unfolding numbered_def
  proof (intro conjI ballI impI allI)
    show "inj_on (po_id d') (set ?o)"
      unfolding inj_on_def by (metis in_set_conv_nth po)
    show "r \<in> set ?o" by (simp add: o(1))
    fix v assume v: "v \<in> set ?o"
    then obtain i where i: "i < length ?o" "?o ! i = v" by (auto simp: in_set_conv_nth)
    show "\<exists>p \<in> set (preds s v). p \<in> set ?o \<and> po_id d' v < po_id d' p" if nr: "v \<noteq> r"
    proof -
      obtain j where "j < length ?o" "i < j" "?o ! j \<in> set (preds s v)"
        using parented_nth [OF a(6), of i] i nr by (auto simp: o(1))
      moreover have "po_id d' v = i" "po_id d' (?o ! j) = j" using po i calculation(1) by auto
      ultimately show ?thesis using nth_mem by (intro bexI [of _ "?o ! j"]) simp_all
    qed
    fix w assume "v \<in> set (preds s w)"
    then have "w \<in> set (succs s v)" by (simp add: flow_okD(4) [OF fl])
    then show "w \<in> set ?o" using a(7) v o by fastforce
  qed simp
qed

lemma create_reverse_post_order_returns:
  assumes fl: "flow_ok s f"
  shows "returns (create_reverse_post_order s f d) (\<lambda>d'. rpo_ok s f d' \<and> idom d' = idom d \<and>
    dom_frontier d' = dom_frontier d \<and> dom_tree_succ_blocks d' = dom_tree_succ_blocks d)"
proof -
  let ?d = "d\<lparr>reverse_post_order := [], post_order_id := Map.empty\<rparr>"
  have pre: "search_pre s f (length (fblocks s f)) ({}, ?d)"
    by (simp add: search_pre_def ids_ok_def card_length)
  obtain vis d' new where r: "post_order_visit (length (fblocks s f)) s (entry s f) ({}, ?d) = Inr (vis, d')"
    "searched s f {entry s f} ({}, ?d) (new @ [entry s f]) (vis, d')"
    using search_returns(1) [OF fl pre, of "entry s f"] entry_in [OF fl] unfolding returns_def by auto
  note n = searched_numbered [OF fl r(2)] and a = searchedD [OF r(2)]
  have po: "po_id (d'\<lparr>reverse_post_order := xs\<rparr>) = po_id d'" for xs by (rule ext) (simp add: po_id_def)
  have "rpo_ok s f (d'\<lparr>reverse_post_order := rev (reverse_post_order d')\<rparr>)"
    using n numbered_reachable [OF n(1)] by (simp add: rpo_ok_def po sorted_wrt_rev)
  then show ?thesis
    using r(1) a(8-10) by (simp add: create_reverse_post_order_def get_entry_block_eq flow_okD(1) [OF fl])
qed

end
