(* ===== verification/Dominators_Correct.thy ===== *)
theory Dominators_Correct
  imports Dominators
begin

text \<open>
  The pass \<open>Dominators\<close> returns, and what it computes: the immediate dominators of the
  reachable blocks, their dominance frontiers and the dominator tree.
\<close>

section \<open>Two fingers climbing\<close>

text \<open>The parents of the blocks of one function; the map holds those of all functions.\<close>

definition local :: "dominators \<Rightarrow> nat set \<Rightarrow> nat \<rightharpoonup> nat" where
  "local d B = idom d |` B"

lemma local_SomeD: "local d B b = Some u \<Longrightarrow> idom d b = Some u"
  by (simp add: local_def restrict_map_def split: if_splits)

lemma local_in [simp]: "b \<in> B \<Longrightarrow> local d B b = idom d b"
  by (simp add: local_def)

lemma root_dominates: "dominates P r r v"
proof -
  have "walk P r xs \<Longrightarrow> r \<in> set xs" for xs
    by (induction rule: walk.induct) auto
  then show ?thesis unfolding dominates_def by blast
qed

lemma climb_returns:
  assumes n: "numbered P r R (po_id d)" and ok: "parents_ok P r R (po_id d) (local d B)"
    and "b2 \<in> R" and N: "\<And>v. v \<in> R \<Longrightarrow> po_id d v < N"
  shows "local d B b1 \<noteq> None \<Longrightarrow> N - po_id d b1 < n \<Longrightarrow>
    returns (climb n d b1 b2) (\<lambda>c. anc (local d B) c b1 \<and> local d B c \<noteq> None \<and> po_id d b2 \<le> po_id d c \<and>
      po_id d b1 \<le> po_id d c \<and> (po_id d b1 < po_id d b2 \<longrightarrow> po_id d b1 < po_id d c) \<and>
      (\<forall>t. dominates P r t b1 \<and> dominates P r t b2 \<longrightarrow> dominates P r t c))"
proof (induction n arbitrary: b1)
  case (Suc n)
  show ?case
  proof (cases "po_id d b1 < po_id d b2")
    case False
    then show ?thesis using Suc.prems by (auto intro: anc.self)
  next
    case True
    obtain u where u: "local d B b1 = Some u" using Suc.prems(1) by blast
    note iu = local_SomeD [OF u]
    have up: "anc (local d B) c u \<Longrightarrow> anc (local d B) c b1" for c
      using anc.up [of "local d B" b1 u] u by blast
    have b1: "b1 \<in> R" using parents_okD(2) [OF ok u] .
    have r: "b1 \<noteq> r" using dominates_po [OF n root_dominates assms(3)] True by auto
    have lt: "po_id d b1 < po_id d u" by (rule parent_po [OF ok u r])
    have ui: "local d B u \<noteq> None" by (rule parents_okD(4) [OF ok u])
    have ltN: "po_id d b1 < N" by (rule N [OF b1])
    have dom: "dominates P r t u" if t: "dominates P r t b1" "dominates P r t b2" for t
    proof -
      have "po_id d b2 \<le> po_id d t" by (rule dominates_po [OF n t(2) assms(3)])
      then have "t \<noteq> b1" using True by auto
      then show ?thesis by (rule climb_dominator(1) [OF ok u t(1)])
    qed
    have "returns (climb n d u b2) (\<lambda>c. anc (local d B) c u \<and> local d B c \<noteq> None \<and> po_id d b2 \<le> po_id d c \<and>
        po_id d u \<le> po_id d c \<and> (po_id d u < po_id d b2 \<longrightarrow> po_id d u < po_id d c) \<and>
        (\<forall>t. dominates P r t u \<and> dominates P r t b2 \<longrightarrow> dominates P r t c))"
      by (rule Suc.IH [OF ui]) (use Suc.prems(2) lt ltN in linarith)
    then show ?thesis
      using True iu lt dom by (auto elim!: returns_mono intro: up)
  qed
qed simp

lemma intersect_returns:
  assumes n: "numbered P r R (po_id d)" and ok: "parents_ok P r R (po_id d) (local d B)"
    and N: "\<And>v. v \<in> R \<Longrightarrow> po_id d v < N"
  shows "local d B b1 \<noteq> None \<Longrightarrow> local d B b2 \<noteq> None \<Longrightarrow> (N - po_id d b1) + (N - po_id d b2) < m \<Longrightarrow>
    returns (intersect m d b1 b2) (\<lambda>c. anc (local d B) c b1 \<and> anc (local d B) c b2 \<and> local d B c \<noteq> None \<and>
      (\<forall>t. dominates P r t b1 \<and> dominates P r t b2 \<longrightarrow> dominates P r t c))"
proof (induction m arbitrary: b1 b2)
  case (Suc m)
  have in_R: "v \<in> R" if "local d B v \<noteq> None" for v using that parents_okD(2) [OF ok] by blast
  show ?case
  proof (cases "b1 = b2")
    case True
    then show ?thesis using Suc.prems by (auto intro: anc.self)
  next
    case False
    then have ne: "po_id d b1 \<noteq> po_id d b2"
      using numberedD(3) [OF n in_R in_R] Suc.prems(1,2) by blast
    have lt: "po_id d b1 < N" "po_id d b2 < N" using N in_R Suc.prems(1,2) by blast+
    obtain c1 where c1: "climb m d b1 b2 = Inr c1" "anc (local d B) c1 b1" "local d B c1 \<noteq> None"
      "po_id d b1 \<le> po_id d c1" "po_id d b1 < po_id d b2 \<longrightarrow> po_id d b1 < po_id d c1"
      "po_id d b2 \<le> po_id d c1"
      "\<And>t. dominates P r t b1 \<Longrightarrow> dominates P r t b2 \<Longrightarrow> dominates P r t c1"
      using climb_returns [OF n ok in_R [OF Suc.prems(2)] N Suc.prems(1), of m] Suc.prems(3) lt
      unfolding returns_def by fastforce
    obtain c2 where c2: "climb m d b2 c1 = Inr c2" "anc (local d B) c2 b2" "local d B c2 \<noteq> None"
      "po_id d b2 \<le> po_id d c2" "po_id d b2 < po_id d c1 \<longrightarrow> po_id d b2 < po_id d c2"
      "\<And>t. dominates P r t b2 \<Longrightarrow> dominates P r t c1 \<Longrightarrow> dominates P r t c2"
      using climb_returns [OF n ok in_R [OF c1(3)] N Suc.prems(2), of m] Suc.prems(3) lt
      unfolding returns_def by fastforce
    have lt': "po_id d c1 < N" "po_id d c2 < N" using N in_R c1(3) c2(3) by blast+
    have "(N - po_id d c1) + (N - po_id d c2) < m"
      using Suc.prems(3) c1(4-6) c2(4,5) ne lt lt' by linarith
    then have "returns (intersect m d c1 c2) (\<lambda>c. anc (local d B) c c1 \<and> anc (local d B) c c2 \<and> local d B c \<noteq> None \<and>
      (\<forall>t. dominates P r t c1 \<and> dominates P r t c2 \<longrightarrow> dominates P r t c))"
      by (rule Suc.IH [OF c1(3) c2(3)])
    then show ?thesis
      using False c1(1,7) c2(1,6) anc_trans [OF c1(2)] anc_trans [OF c2(2)]
      by (auto elim!: returns_mono)
  qed
qed simp

lemma meet_preds_returns:
  assumes n: "numbered P r R (po_id d)" and ok: "parents_ok P r R (po_id d) (local d B)"
    and N: "\<And>v. v \<in> R \<Longrightarrow> po_id d v < N" and m: "2 * N < m"
  shows "local d B u \<noteq> None \<Longrightarrow> set ps \<subseteq> B \<Longrightarrow>
    returns (meet_preds m d q ps u) (\<lambda>c. anc (local d B) c u \<and> local d B c \<noteq> None \<and>
      (\<forall>p \<in> set ps. p \<noteq> q \<longrightarrow> local d B p \<noteq> None \<longrightarrow> anc (local d B) c p) \<and>
      (\<forall>t. dominates P r t u \<and> (\<forall>p \<in> set ps. dominates P r t p) \<longrightarrow> dominates P r t c))"
proof (induction ps arbitrary: u)
  case Nil
  then show ?case by (auto simp: anc.self)
next
  case (Cons p ps)
  show ?case
  proof (cases "p = q \<or> local d B p = None")
    case True
    then show ?thesis using Cons.IH [OF Cons.prems(1)] Cons.prems(2) by (auto elim!: returns_mono)
  next
    case False
    have lt: "(N - po_id d p) + (N - po_id d u) < m" using m by linarith
    then obtain c where c: "intersect m d p u = Inr c" "anc (local d B) c p" "anc (local d B) c u" "local d B c \<noteq> None"
      "\<And>t. dominates P r t p \<Longrightarrow> dominates P r t u \<Longrightarrow> dominates P r t c"
      using intersect_returns [OF n ok N _ _ lt] False Cons.prems
      unfolding returns_def by blast
    show ?thesis
      using Cons.IH [OF c(4)] Cons.prems(2) False c(1,5) anc_trans [OF c(2)] anc_trans [OF c(3)]
      by (auto elim!: returns_mono)
  qed
qed

section \<open>A round of the iteration\<close>

abbreviation idoms :: "'z ir_scheme \<Rightarrow> nat \<Rightarrow> dominators \<Rightarrow> nat \<rightharpoonup> nat" where
  "idoms s f d \<equiv> local d (set (fblocks s f))"

text \<open>What a round keeps: the parents are sound, every block is settled for \<open>k\<close> retreats, and
  the blocks already visited in this round for one more.\<close>

definition round_inv :: "'z ir_scheme \<Rightarrow> nat \<Rightarrow> nat \<Rightarrow> nat set \<Rightarrow> dominators \<Rightarrow> bool" where
  "round_inv s f k done d \<longleftrightarrow> parents_ok (preds s) (entry s f) (reachable s f) (po_id d) (idoms s f d) \<and>
     (\<forall>w \<in> reachable s f. settled (preds s) (entry s f) (po_id d) k (idoms s f d) w) \<and>
     (\<forall>w \<in> done. settled (preds s) (entry s f) (po_id d) (Suc k) (idoms s f d) w \<and> idoms s f d w \<noteq> None) \<and>
     (k \<noteq> 0 \<longrightarrow> reachable s f \<subseteq> dom (idoms s f d))"

abbreviation exact_in :: "'z ir_scheme \<Rightarrow> nat \<Rightarrow> dominators \<Rightarrow> bool" where
  "exact_in s f d \<equiv> exact (preds s) (entry s f) (reachable s f) (po_id d) (idoms s f d)"

lemma set_idom_simps [simp]:
  "po_id (set_idom b p d) = po_id d" "reverse_post_order (set_idom b p d) = reverse_post_order d"
  "idom (set_idom b p d) = (idom d)(b := p)" "post_order_id (set_idom b p d) = post_order_id d"
  "dom_frontier (set_idom b p d) = dom_frontier d" "doms (set_idom b p d) = doms d" "dom_tree_succ_blocks (set_idom b p d) = dom_tree_succ_blocks d"
  by (simp_all add: set_idom_def po_id_def fun_eq_iff)

lemma local_set_idom: "b \<in> B \<Longrightarrow> local (set_idom b (Some u) d) B = (local d B)(b \<mapsto> u)"
  by (auto simp: local_def restrict_map_def fun_eq_iff)

lemma rpo_ok_cong:
  "reverse_post_order d' = reverse_post_order d \<Longrightarrow> post_order_id d' = post_order_id d \<Longrightarrow> rpo_ok s f d' = rpo_ok s f d"
  by (simp add: rpo_ok_def po_id_def [abs_def])

lemma find_new_idom_returns:
  assumes fl: "flow_ok s f" and rp: "rpo_ok s f d"
    and ok: "parents_ok (preds s) (entry s f) (reachable s f) (po_id d) (idoms s f d)"
    and v: "v \<in> reachable s f" "v \<noteq> entry s f"
    and h: "higher_done (reachable s f) (po_id d) (idoms s f d) v" and m: "2 * length (reverse_post_order d) < m"
  shows "returns (find_new_idom m s d v) (good_parent (preds s) (entry s f) (idoms s f d) v)"
proof -
  note n = rpo_okD(5) [OF rp] and N = rpo_okD(6) [OF rp]
  obtain k where k: "blocks s v = Some k" using flow_okD(2) [OF fl] rpo_okD(2) [OF rp] v(1) by blast
  then have pk: "pre_bbs k = preds s v" by (simp add: preds_def)
  have pb: "set (preds s v) \<subseteq> set (fblocks s f)"
    using flow_okD(5) [OF fl] rpo_okD(2) [OF rp] v(1) by blast
  obtain p where "p \<in> set (preds s v)" "p \<in> reachable s f" "po_id d v < po_id d p"
    using numbered_parent [OF n v] by blast
  then have "idoms s f d p \<noteq> None" "p \<in> set (preds s v)" using h by (auto simp: higher_done_def)
  then have "find (\<lambda>p. idom d p \<noteq> None) (preds s v) \<noteq> None"
    by (auto simp: find_None_iff dest: local_SomeD)
  then obtain q where q: "find (\<lambda>p. idom d p \<noteq> None) (preds s v) = Some q" by blast
  then have q0: "idom d q \<noteq> None" "q \<in> set (preds s v)" by (auto simp: find_Some_iff)
  then have q': "idoms s f d q \<noteq> None" "q \<in> set (preds s v)" using pb by (auto simp: subset_iff)
  have "returns (meet_preds m d q (preds s v) q) (good_parent (preds s) (entry s f) (idoms s f d) v)"
  proof (rule returns_mono [OF meet_preds_returns [OF n ok N m q'(1) pb]])
    fix c assume c: "anc (idoms s f d) c q \<and> idoms s f d c \<noteq> None \<and>
      (\<forall>p \<in> set (preds s v). p \<noteq> q \<longrightarrow> idoms s f d p \<noteq> None \<longrightarrow> anc (idoms s f d) c p) \<and>
      (\<forall>t. dominates (preds s) (entry s f) t q \<and> (\<forall>p \<in> set (preds s v). dominates (preds s) (entry s f) t p)
         \<longrightarrow> dominates (preds s) (entry s f) t c)"
    then show "good_parent (preds s) (entry s f) (idoms s f d) v c"
      using q'(2) sdom_pred [of "preds s" "entry s f" _ v] unfolding good_parent_def by metis
  qed
  then show ?thesis by (simp add: find_new_idom_def k pk q del: not_None_eq)
qed

lemma round_step:
  assumes rp: "rpo_ok s f d" and inv: "round_inv s f k done d"
    and v: "v \<in> reachable s f" "v \<noteq> entry s f"
    and dn: "done = {w \<in> reachable s f. po_id d v < po_id d w}"
    and g: "good_parent (preds s) (entry s f) (idoms s f d) v u"
  shows "round_inv s f k (insert v done) (set_idom v (Some u) d)"
proof -
  note n = rpo_okD(5) [OF rp]
  have ok: "parents_ok (preds s) (entry s f) (reachable s f) (po_id d) (idoms s f d)"
    and low: "\<And>w. w \<in> reachable s f \<Longrightarrow> settled (preds s) (entry s f) (po_id d) k (idoms s f d) w"
    and high: "\<And>w. w \<in> reachable s f \<Longrightarrow> po_id d v < po_id d w \<Longrightarrow>
      settled (preds s) (entry s f) (po_id d) (Suc k) (idoms s f d) w"
    and full: "k \<noteq> 0 \<Longrightarrow> reachable s f \<subseteq> dom (idoms s f d)"
    and asg: "\<And>w. w \<in> done \<Longrightarrow> idoms s f d w \<noteq> None"
    using inv dn by (auto simp: round_inv_def)
  have h: "higher_done (reachable s f) (po_id d) (idoms s f d) v"
    using asg dn by (auto simp: higher_done_def)
  note self = settled_update [OF n ok v h g low high full]
  have vB: "v \<in> set (fblocks s f)" using rpo_okD(2) [OF rp] v(1) by blast
  show ?thesis
    unfolding round_inv_def set_idom_simps local_set_idom [OF vB]
  proof (intro conjI ballI impI)
    show "parents_ok (preds s) (entry s f) (reachable s f) (po_id d) ((idoms s f d)(v \<mapsto> u))"
      by (rule parents_ok_update [OF n ok v h g])
    show "settled (preds s) (entry s f) (po_id d) k ((idoms s f d)(v \<mapsto> u)) w" if "w \<in> reachable s f" for w
      using settled_lower [OF self low [OF that]] settled_mono [OF self] by (cases "w = v") auto
    fix w assume w: "w \<in> insert v done"
    show "settled (preds s) (entry s f) (po_id d) (Suc k) ((idoms s f d)(v \<mapsto> u)) w"
      using w self settled_higher [OF high ok asg] dn by (cases "w = v") auto
    show "((idoms s f d)(v \<mapsto> u)) w \<noteq> None" using w asg by auto
  next
    show "reachable s f \<subseteq> dom ((idoms s f d)(v \<mapsto> u))" if "k \<noteq> 0" using full [OF that] by auto
  qed
qed

text \<open>A round over a suffix of the reverse post-order.\<close>

definition round_result :: "'z ir_scheme \<Rightarrow> nat \<Rightarrow> nat \<Rightarrow> bool \<Rightarrow> dominators \<Rightarrow> bool \<times> dominators \<Rightarrow> bool" where
  "round_result s f k c d = (\<lambda>(c', d'). d' = d\<lparr>idom := idom d'\<rparr> \<and>
     (\<forall>b. b \<notin> set (fblocks s f) \<longrightarrow> idom d' b = idom d b) \<and> round_inv s f k (reachable s f) d' \<and>
     (\<not> c' \<longrightarrow> \<not> c \<and> d' = d) \<and> (exact_in s f d \<longrightarrow> c' = c \<and> d' = d))"

lemma set_idom_same: "idom d b = p \<Longrightarrow> set_idom b p d = d"
  by (simp add: set_idom_def fun_upd_idem)

lemma round_root: "round_inv s f k done d \<Longrightarrow> round_inv s f k (insert (entry s f) done) d"
proof -
  assume i: "round_inv s f k done d"
  then have r: "idoms s f d (entry s f) = Some (entry s f)"
    using parents_okD(1) by (auto simp: round_inv_def)
  have "settled P (entry s f) po j (idoms s f d) (entry s f)" for P po j
    by (rule settled_root) (rule r)
  with i r show ?thesis by (simp add: round_inv_def)
qed

lemma idom_pass_returns:
  assumes fl: "flow_ok s f" and m: "2 * length (reverse_post_order d) < m"
  shows "rpo_ok s f d \<Longrightarrow> reverse_post_order d = xs @ bs \<Longrightarrow> round_inv s f k (set xs) d \<Longrightarrow>
    returns (idom_pass m s (entry s f) bs c d) (round_result s f k c d)"
  using m
proof (induction bs arbitrary: xs c d)
  case Nil
  then have "set xs = reachable s f" using rpo_okD(1) by fastforce
  then show ?case using Nil by (simp add: round_result_def)
next
  case (Cons b bs)
  note rp = Cons.prems(1) and inv = Cons.prems(3)
  show ?case
  proof (cases "b = entry s f")
    case True
    have "returns (idom_pass m s (entry s f) bs c d) (round_result s f k c d)"
      by (rule Cons.IH [of d "xs @ [b]"]) (use Cons.prems round_root [OF inv] True in simp_all)
    then show ?thesis using True by simp
  next
    case False
    have b: "b \<in> reachable s f" using rpo_okD(1) [OF rp] Cons.prems(2) by auto
    have sw: "sorted_wrt (\<lambda>a b. po_id d b < po_id d a) (xs @ b # bs)"
      using rpo_okD(4) [OF rp] Cons.prems(2) by simp
    have R: "reachable s f = set xs \<union> {b} \<union> set bs" using rpo_okD(1) [OF rp] Cons.prems(2) by auto
    have dn: "set xs = {w \<in> reachable s f. po_id d b < po_id d w}"
      using sw by (force simp: R sorted_wrt_append)
    have ok: "parents_ok (preds s) (entry s f) (reachable s f) (po_id d) (idoms s f d)"
      using inv by (simp add: round_inv_def)
    have h: "higher_done (reachable s f) (po_id d) (idoms s f d) b"
      using inv dn by (auto simp: round_inv_def higher_done_def)
    obtain u where u: "find_new_idom m s d b = Inr u" "good_parent (preds s) (entry s f) (idoms s f d) b u"
      using find_new_idom_returns [OF fl rp ok b False h Cons.prems(4)] by (rule returnsE)
    let ?d = "set_idom b (Some u) d"
    have inv': "round_inv s f k (set (xs @ [b])) ?d"
      using round_step [OF rp inv b False dn u(2)] by simp
    have rp': "rpo_ok s f ?d" by (subst rpo_ok_cong [of _ d]) (simp_all add: rp)
    have bB: "b \<in> set (fblocks s f)" using rpo_okD(2) [OF rp] b by blast
    have st: "exact_in s f d \<Longrightarrow> idom d b = Some u"
      using local_SomeD exact_stable [OF rpo_okD(5) [OF rp] _ b False u(2)] by blast
    have ih: "returns (idom_pass m s (entry s f) bs c' ?d) (round_result s f k c' ?d)" for c'
      by (rule Cons.IH [OF rp' _ inv']) (use Cons.prems in simp_all)
    show ?thesis
    proof (cases "idom d b = Some u")
      case True
      then show ?thesis using ih [of c] False u(1) set_idom_same [OF True] by simp
    next
      case ne: False
      have "returns (idom_pass m s (entry s f) bs True ?d) (round_result s f k c d)"
        by (rule returns_mono [OF ih]) (use st ne bB in \<open>auto simp: round_result_def set_idom_def\<close>)
      then show ?thesis using ne False u(1) by simp
    qed
  qed
qed

section \<open>The iteration ends, with the immediate dominators\<close>

lemma round_again:
  "round_inv s f k (reachable s f) d \<Longrightarrow> round_inv s f (Suc k) {} d"
  by (auto simp: round_inv_def)

lemma round_exact:
  assumes rp: "rpo_ok s f d" and inv: "round_inv s f k {} d" and "card (reachable s f) \<le> k" and "k \<noteq> 0"
  shows "exact_in s f d"
  using settled_exact [OF rpo_okD(5) [OF rp] _ _ _ assms(3)] inv assms(4) unfolding round_inv_def by blast

text \<open>A round that changes nothing would change nothing again.\<close>

lemma stable_exact:
  assumes fl: "flow_ok s f" and m: "2 * length (reverse_post_order d) < m" and rp: "rpo_ok s f d"
    and inv: "round_inv s f k {} d"
    and same: "idom_pass m s (entry s f) (reverse_post_order d) False d = Inr (False, d)"
  shows "exact_in s f d"
proof -
  have step: "round_inv s f j {} d \<Longrightarrow> round_inv s f (Suc j) {} d" for j
    using idom_pass_returns [OF fl m rp, of "[]" "reverse_post_order d" j False] same round_again
    by (simp add: round_result_def)
  have "round_inv s f (k + j) {} d" for j
    by (induction j) (use inv step in simp_all)
  from this [of "Suc (card (reachable s f))"] show ?thesis
    using round_exact [OF rp] by simp
qed

lemma idom_loop_returns:
  assumes fl: "flow_ok s f"
  shows "rpo_ok s f d \<Longrightarrow> round_inv s f k {} d \<Longrightarrow> 2 * length (reverse_post_order d) < m \<Longrightarrow>
    card (reachable s f) + 2 \<le> n + k \<Longrightarrow> k \<le> Suc (card (reachable s f)) \<Longrightarrow>
    returns (idom_loop n m s (entry s f) d) (\<lambda>d'. d' = d\<lparr>idom := idom d'\<rparr> \<and>
      (\<forall>b. b \<notin> set (fblocks s f) \<longrightarrow> idom d' b = idom d b) \<and> exact_in s f d')"
proof (induction n arbitrary: k d)
  case (Suc n)
  note rp = Suc.prems(1) and inv = Suc.prems(2) and m = Suc.prems(3)
  obtain c d' where r: "idom_pass m s (entry s f) (reverse_post_order d) False d = Inr (c, d')"
    "round_result s f k False d (c, d')"
    using idom_pass_returns [OF fl m rp, of "[]" "reverse_post_order d" k False] inv
    unfolding returns_def by auto
  then have d': "d' = d\<lparr>idom := idom d'\<rparr>" "round_inv s f (Suc k) {} d'"
    "\<not> c \<Longrightarrow> d' = d" "exact_in s f d \<Longrightarrow> \<not> c" "\<forall>b. b \<notin> set (fblocks s f) \<longrightarrow> idom d' b = idom d b"
    using round_again by (auto simp: round_result_def)
  show ?case
  proof (cases c)
    case False
    then have "d' = d" using d'(3) by blast
    moreover have "exact_in s f d"
      using stable_exact [OF fl m rp inv] r(1) False calculation by simp
    ultimately show ?thesis using False r(1) by simp
  next
    case True
    have "k = 0 \<or> k < card (reachable s f)"
      using round_exact [OF rp inv] d'(4) True by (meson not_le)
    then have k: "Suc k \<le> Suc (card (reachable s f))" by auto
    have e: "reverse_post_order d' = reverse_post_order d" "post_order_id d' = post_order_id d"
      by (subst d'(1); simp)+
    have "rpo_ok s f d'" by (subst rpo_ok_cong [of _ d]) (simp_all add: e rp)
    then have "returns (idom_loop n m s (entry s f) d') (\<lambda>d''. d'' = d'\<lparr>idom := idom d''\<rparr> \<and>
        (\<forall>b. b \<notin> set (fblocks s f) \<longrightarrow> idom d'' b = idom d' b) \<and> exact_in s f d'')"
      by (rule Suc.IH [OF _ d'(2)]) (use e m Suc.prems(4) k in simp_all)
    moreover have "d'\<lparr>idom := x\<rparr> = d\<lparr>idom := x\<rparr>" for x by (subst d'(1)) simp
    ultimately show ?thesis using True r(1) d'(5) by simp
  qed
qed simp

text \<open>Clearing the parents of all blocks but the entry establishes the invariant.\<close>

lemma clear_idoms_simps [simp]:
  "reverse_post_order (clear_idoms bs d) = reverse_post_order d" "post_order_id (clear_idoms bs d) = post_order_id d"
  "dom_frontier (clear_idoms bs d) = dom_frontier d" "doms (clear_idoms bs d) = doms d"
  "dom_tree_succ_blocks (clear_idoms bs d) = dom_tree_succ_blocks d"
  "idom (clear_idoms bs d) b = (if b \<in> set bs then None else idom d b)"
  by (induction bs arbitrary: d) auto

lemma round_inv_start:
  assumes fl: "flow_ok s f" and rp: "rpo_ok s f d" and i: "idoms s f d = [entry s f \<mapsto> entry s f]"
  shows "round_inv s f 0 {} d"
  using numberedD(2) [OF rpo_okD(5) [OF rp]] by (auto simp: round_inv_def i parents_ok_def)

lemma create_idom_returns:
  assumes fl: "flow_ok s f" and rp: "rpo_ok s f d"
  shows "returns (create_idom s f d) (\<lambda>d'. d' = d\<lparr>idom := idom d'\<rparr> \<and>
    (\<forall>b. b \<notin> set (fblocks s f) \<longrightarrow> idom d' b = idom d b) \<and> exact_in s f d')"
proof -
  let ?r = "entry s f" and ?n = "length (reverse_post_order d)"
  let ?d = "set_idom ?r (Some ?r) (clear_idoms (fblocks s f) d)"
  have r: "?r \<in> set (fblocks s f)" by (rule entry_in [OF fl])
  have e: "reverse_post_order ?d = reverse_post_order d" "post_order_id ?d = post_order_id d"
    by simp_all
  have rp': "rpo_ok s f ?d" by (subst rpo_ok_cong [of _ d]) (simp_all add: e rp)
  have "idoms s f ?d = [?r \<mapsto> ?r]"
    using r by (auto simp: local_def restrict_map_def fun_eq_iff)
  then have inv: "round_inv s f 0 {} ?d" by (rule round_inv_start [OF fl rp'])
  have card: "card (reachable s f) = ?n"
    using rpo_okD(1,3) [OF rp] distinct_card by metis
  have "returns (idom_loop (?n + 2) (2 * ?n + 2) s ?r ?d) (\<lambda>d'. d' = ?d\<lparr>idom := idom d'\<rparr> \<and>
      (\<forall>b. b \<notin> set (fblocks s f) \<longrightarrow> idom d' b = idom ?d b) \<and> exact_in s f d')"
    by (rule idom_loop_returns [OF fl rp' inv]) (simp_all add: e card)
  moreover have "?d\<lparr>idom := x\<rparr> = d\<lparr>idom := x\<rparr>" for x
    by (rule dominators.equality) simp_all
  ultimately show ?thesis
    using r by (auto simp: create_idom_def get_entry_block_eq flow_okD(1) [OF fl] Let_def elim!: returns_mono)
qed

end
