(* ===== verification/Dominance_Frontier.thy ===== *)
theory Dominance_Frontier
  imports Dominators_Correct
begin

text \<open>
  The second half of the pass \<open>Dominators\<close>: dominance frontiers by runners on the parent
  pointers, the children in the dominator tree, and the pass as a whole.
\<close>

section \<open>Runners\<close>

text \<open>Where the runner of predecessor \<open>p\<close> enters block \<open>b\<close>: the ancestors of \<open>p\<close> below the
  immediate dominator of \<open>b\<close>; only \<open>p\<close> itself if neither has a parent.\<close>

definition visited_by :: "dominators \<Rightarrow> nat set \<Rightarrow> nat \<Rightarrow> nat \<Rightarrow> nat option set" where
  "visited_by d B b p = (case idom d b of
     None \<Rightarrow> {Some p} | Some u \<Rightarrow> {Some x | x. anc (local d B) x p \<and> \<not> anc (local d B) x u})"

definition frontier_upd :: "dominators \<Rightarrow> nat \<Rightarrow> nat option set \<Rightarrow> dominators" where
  "frontier_upd d b K = d\<lparr>dom_frontier := (\<lambda>k. if k \<in> K then insert b (dom_frontier d k) else dom_frontier d k)\<rparr>"

lemma frontier_upd_simps [simp]:
  "idom (frontier_upd d b K) = idom d" "reverse_post_order (frontier_upd d b K) = reverse_post_order d"
  "post_order_id (frontier_upd d b K) = post_order_id d" "po_id (frontier_upd d b K) = po_id d"
  "dom_tree_succ_blocks (frontier_upd d b K) = dom_tree_succ_blocks d" "local (frontier_upd d b K) B = local d B"
  by (simp_all add: frontier_upd_def po_id_def local_def fun_eq_iff)

lemma frontier_upd_empty [simp]: "frontier_upd d b {} = d"
  by (simp add: frontier_upd_def)

lemma frontier_upd_union: "frontier_upd (frontier_upd d b K) b L = frontier_upd d b (K \<union> L)"
  by (auto simp: frontier_upd_def fun_eq_iff intro!: arg_cong [where f = "\<lambda>x. d\<lparr>dom_frontier := x\<rparr>"])

lemma add_dominance_frontier_upd: "add_dominance_frontier k b d = frontier_upd d b {k}"
  by (auto simp: frontier_upd_def add_dominance_frontier_def fun_eq_iff
    intro!: arg_cong [where f = "\<lambda>x. d\<lparr>dom_frontier := x\<rparr>"])

lemma run_up_returns:
  assumes n: "numbered P r R (po_id d)" and N: "\<And>v. v \<in> R \<Longrightarrow> po_id d v < N"
    and ok: "parents_ok P r R (po_id d) (local d B)" and u: "idom d b = Some u"
  shows "anc (local d B) u p \<Longrightarrow> local d B p \<noteq> None \<Longrightarrow> N - po_id d p < m \<Longrightarrow>
    run_up m b (Some p) (frontier_upd d b K) =
      Inr (frontier_upd d b (K \<union> {Some x | x. anc (local d B) x p \<and> \<not> anc (local d B) x u}))"
proof (induction m arbitrary: p K)
  case (Suc m)
  show ?case
  proof (cases "p = u")
    case True
    then have "{Some x | x. anc (local d B) x p \<and> \<not> anc (local d B) x u} = {}" by simp
    then show ?thesis using True u by simp
  next
    case False
    obtain q where q: "local d B p = Some q" "anc (local d B) u q"
      using Suc.prems(1) False by (cases rule: anc.cases) auto
    have r: "p \<noteq> r"
    proof
      assume "p = r"
      then have "u = r" using anc_root [OF Suc.prems(1)] parents_okD(1) [OF ok] by blast
      with \<open>p = r\<close> False show False by simp
    qed
    have lt: "po_id d p < po_id d q" by (rule parent_po [OF ok q(1) r])
    have "po_id d p < N" using N parents_okD(2) [OF ok q(1)] by blast
    then have fuel: "N - po_id d q < m" using Suc.prems(3) lt by linarith
    have qi: "local d B q \<noteq> None" by (rule parents_okD(4) [OF ok q(1)])
    have "po_id d q \<le> po_id d u" by (rule anc_po [OF q(2) ok qi])
    then have "\<not> anc (local d B) p u"
      using anc_po [OF _ ok, of p u] anc_below [OF Suc.prems(1) ok Suc.prems(2)] lt by force
    then have "{Some x | x. anc (local d B) x p \<and> \<not> anc (local d B) x u} =
        insert (Some p) {Some x | x. anc (local d B) x q \<and> \<not> anc (local d B) x u}"
      using anc.self [of "local d B" p] anc.up [of "local d B" p q] q(1)
      by (auto elim: anc.cases)
    then show ?thesis
      using Suc.IH [OF q(2) qi fuel, of "insert (Some p) K"] False u local_SomeD [OF q(1)]
      by (simp add: add_dominance_frontier_upd frontier_upd_union get_idom_def)
  qed
qed simp

text \<open>What the runners need: every predecessor of a reachable join is reachable.\<close>

definition joins_reached :: "'z ir_scheme \<Rightarrow> nat \<Rightarrow> bool" where
  "joins_reached s f \<longleftrightarrow> (\<forall>b \<in> reachable s f. 2 \<le> length (preds s b) \<longrightarrow> set (preds s b) \<subseteq> reachable s f)"

definition frontier_keys :: "'z ir_scheme \<Rightarrow> nat \<Rightarrow> dominators \<Rightarrow> nat \<Rightarrow> nat option set" where
  "frontier_keys s f d b = (if 2 \<le> length (preds s b) then \<Union>p \<in> set (preds s b). visited_by d (set (fblocks s f)) b p else {})"

lemma run_preds_returns:
  assumes "\<And>p K. p \<in> set ps \<Longrightarrow> run_up m b (Some p) (frontier_upd d b K) = Inr (frontier_upd d b (K \<union> V p))"
  shows "run_preds m b ps (frontier_upd d b K) = Inr (frontier_upd d b (K \<union> (\<Union>p \<in> set ps. V p)))"
  using assms
proof (induction ps arbitrary: K)
  case (Cons p ps)
  then show ?case by (simp add: Un_assoc)
qed simp

lemma exact_outside: "exact_in s f d \<Longrightarrow> b \<in> set (fblocks s f) \<Longrightarrow> b \<notin> reachable s f \<Longrightarrow> idom d b = None"
  using parents_okD(2) [OF exactD(1)] by (metis local_in not_None_eq)

lemma pred_reachable: "b \<in> set (preds s c) \<Longrightarrow> b \<in> reachable s f \<Longrightarrow> c \<in> reachable s f"
  using walk.step by (fastforce simp: reachable_def)

lemma block_frontier_returns:
  assumes fl: "flow_ok s f" and rp: "rpo_ok s f d" and e: "exact_in s f d" and j: "joins_reached s f"
    and b: "b \<in> set (fblocks s f)" and m: "length (reverse_post_order d) + 2 < m" and k: "blocks s b = Some k"
  shows "(if 2 \<le> length (pre_bbs k) then run_preds m b (pre_bbs k) d else Inr d) =
    Inr (frontier_upd d b (frontier_keys s f d b))"
proof (cases "2 \<le> length (preds s b)")
  case True
  note n = rpo_okD(5) [OF rp] and N = rpo_okD(6) [OF rp] and ok = exactD(1) [OF e]
  let ?B = "set (fblocks s f)"
  have pk: "pre_bbs k = preds s b" using k by (simp add: preds_def)
  have one: "run_up m b (Some p) (frontier_upd d b K) = Inr (frontier_upd d b (K \<union> visited_by d ?B b p))"
    if p: "p \<in> set (preds s b)" for p K
  proof (cases "b \<in> reachable s f")
    case False
    then have "p \<notin> reachable s f" using pred_reachable p by blast
    moreover have "p \<in> ?B" using flow_okD(5) [OF fl b] p by blast
    ultimately have "idom d p = None" "idom d b = None" using exact_outside [OF e] b False by blast+
    moreover have "m = Suc (Suc (m - 2))" using m by simp
    then obtain m' where "m = Suc (Suc m')" ..
    ultimately show ?thesis
      by (simp add: visited_by_def add_dominance_frontier_upd frontier_upd_union get_idom_def)
  next
    case in_R: True
    then have p': "p \<in> reachable s f" using j True p by (auto simp: joins_reached_def)
    obtain u where u: "local d ?B b = Some u" using exactD(2) [OF e] in_R by blast
    have "dominates (preds s) (entry s f) u p"
    proof (cases "b = entry s f")
      case True
      then show ?thesis using u parents_okD(1) [OF ok] root_dominates by simp
    next
      case False
      show ?thesis by (rule sdom_pred [OF exact_parent(1) [OF n e in_R False u] p])
    qed
    then have a: "anc (local d ?B) u p" using exact_anc [OF n e p'] by blast
    have "local d ?B p \<noteq> None" using exactD(2) [OF e] p' by blast
    then show ?thesis
      using run_up_returns [OF n N ok local_SomeD [OF u] a, of m K] m
      by (simp add: visited_by_def local_SomeD [OF u])
  qed
  show ?thesis
    using run_preds_returns [OF one, of "preds s b" "{}"] True by (simp add: pk frontier_keys_def)
next
  case False
  then show ?thesis using k by (simp add: frontier_keys_def preds_def)
qed

text \<open>All blocks: a reachable block enters the sets of the ancestors of its predecessors that are
  not ancestors of its immediate dominator.\<close>

definition frontier_result :: "'z ir_scheme \<Rightarrow> nat \<Rightarrow> nat list \<Rightarrow> dominators \<Rightarrow> dominators \<Rightarrow> bool" where
  "frontier_result s f bs d d' \<longleftrightarrow> d' = d\<lparr>dom_frontier := dom_frontier d'\<rparr> \<and>
     (\<forall>c k. c \<in> dom_frontier d' k \<longleftrightarrow> c \<in> dom_frontier d k \<or> c \<in> set bs \<and> k \<in> frontier_keys s f d c)"

lemma frontier_keys_cong:
  "idom d' = idom d \<Longrightarrow> frontier_keys s f d' = frontier_keys s f d"
  by (rule ext) (simp add: frontier_keys_def visited_by_def local_def cong: option.case_cong)

lemma exact_in_cong: "idom d' = idom d \<Longrightarrow> post_order_id d' = post_order_id d \<Longrightarrow> exact_in s f d' = exact_in s f d"
  by (simp add: local_def po_id_def [abs_def])

lemma frontier_blocks_returns:
  assumes fl: "flow_ok s f" and j: "joins_reached s f"
  shows "rpo_ok s f d \<Longrightarrow> exact_in s f d \<Longrightarrow> length (reverse_post_order d) + 2 < m \<Longrightarrow>
    set bs \<subseteq> set (fblocks s f) \<Longrightarrow> returns (frontier_blocks m s bs d) (frontier_result s f bs d)"
proof (induction bs arbitrary: d)
  case Nil
  then show ?case by (simp add: frontier_result_def)
next
  case (Cons b bs)
  let ?d = "frontier_upd d b (frontier_keys s f d b)"
  obtain k where k: "blocks s b = Some k" using flow_okD(2) [OF fl] Cons.prems(4) by auto
  have one: "(if 2 \<le> length (pre_bbs k) then run_preds m b (pre_bbs k) d else Inr d) = Inr ?d"
    using block_frontier_returns [OF fl Cons.prems(1,2) j _ Cons.prems(3) k] Cons.prems(4) by simp
  have "rpo_ok s f ?d" by (subst rpo_ok_cong [of _ d]) (simp_all add: Cons.prems(1))
  moreover have "exact_in s f ?d" by (subst exact_in_cong [of _ d]) (simp_all add: Cons.prems(2))
  ultimately have "returns (frontier_blocks m s bs ?d) (frontier_result s f bs ?d)"
    using Cons.IH [of ?d] Cons.prems(3,4) by simp
  then have "returns (frontier_blocks m s bs ?d) (frontier_result s f (b # bs) d)"
  proof (rule returns_mono)
    fix d' assume r: "frontier_result s f bs ?d d'"
    have "d' = ?d\<lparr>dom_frontier := dom_frontier d'\<rparr>" using r by (simp add: frontier_result_def)
    then have "d' = d\<lparr>dom_frontier := dom_frontier d'\<rparr>" by (simp add: frontier_upd_def)
    then show "frontier_result s f (b # bs) d d'"
      using r frontier_keys_cong [of ?d d s f] by (auto simp: frontier_result_def frontier_upd_def)
  qed
  then show ?case using one by (simp add: k)
qed

lemma tree_succs_result:
  "\<exists>X. tree_succs bs d = d\<lparr>dom_tree_succ_blocks := X\<rparr> \<and>
     (\<forall>c k. c \<in> X k \<longleftrightarrow> c \<in> dom_tree_succ_blocks d k \<or> c \<in> set bs \<and> idom d c \<noteq> Some c \<and> k = idom d c)"
proof (induction bs arbitrary: d)
  case Nil
  show ?case by (rule exI [of _ "dom_tree_succ_blocks d"]) simp
next
  case (Cons b bs)
  let ?d = "if idom d b \<noteq> Some b then add_dom_tree_succ_block (idom d b) b d else d"
  obtain X where X: "tree_succs bs ?d = ?d\<lparr>dom_tree_succ_blocks := X\<rparr>"
    "\<forall>c k. c \<in> X k \<longleftrightarrow> c \<in> dom_tree_succ_blocks ?d k \<or> c \<in> set bs \<and> idom ?d c \<noteq> Some c \<and> k = idom ?d c"
    using Cons.IH by blast
  have i: "idom ?d = idom d" by (simp add: add_dom_tree_succ_block_def)
  have u: "?d\<lparr>dom_tree_succ_blocks := X\<rparr> = d\<lparr>dom_tree_succ_blocks := X\<rparr>"
    by (simp add: add_dom_tree_succ_block_def)
  show ?case
    using X(1) X(2) [unfolded i] by (intro exI [of _ X]) (auto simp: u add_dom_tree_succ_block_def split: if_splits)
qed

section \<open>The specification\<close>

text \<open>The results of the pass for the blocks of one function, in terms of walks in the flow graph.\<close>

definition dominators_ok :: "'z ir_scheme \<Rightarrow> nat \<Rightarrow> dominators \<Rightarrow> bool" where
  "dominators_ok s f d \<longleftrightarrow> (\<forall>b \<in> set (fblocks s f).
     (\<forall>u. idom d b = Some u \<longleftrightarrow> b \<in> reachable s f \<and>
        (if b = entry s f then u = entry s f else is_idom (preds s) (entry s f) u b)) \<and>
     (b \<in> reachable s f \<and> b \<noteq> entry s f \<longrightarrow> (\<forall>x. b \<in> dom_frontier d (Some x) \<longleftrightarrow>
        (\<exists>p \<in> set (preds s b). dominates (preds s) (entry s f) x p) \<and> \<not> sdom (preds s) (entry s f) x b)) \<and>
     (\<forall>u. b \<in> dom_tree_succ_blocks d (Some u) \<longleftrightarrow>
        b \<in> reachable s f \<and> b \<noteq> entry s f \<and> is_idom (preds s) (entry s f) u b) \<and>
     (b \<in> dom_tree_succ_blocks d None \<longleftrightarrow> b \<notin> reachable s f))"

text \<open>The blocks of the function have no entries yet.\<close>

definition untouched :: "'z ir_scheme \<Rightarrow> nat \<Rightarrow> dominators \<Rightarrow> bool" where
  "untouched s f d \<longleftrightarrow> (\<forall>b \<in> set (fblocks s f). \<forall>k. b \<notin> dom_frontier d k \<and> b \<notin> dom_tree_succ_blocks d k)"

lemma is_idom_unique:
  assumes n: "numbered P r R po" and "v \<in> R" and u: "is_idom P r u v" and w: "is_idom P r w v"
  shows "u = w"
proof -
  have in_R: "u \<in> R" "w \<in> R" using dominates_in [OF n] assms(2) u w by (auto simp: is_idom_def sdom_def)
  have "dominates P r u w" "dominates P r w u" using u w by (auto simp: is_idom_def)
  then have "po u = po w" using dominates_po [OF n] in_R le_antisym by metis
  then show ?thesis using numberedD(3) [OF n in_R] by blast
qed

lemma idom_spec:
  assumes n: "numbered P r R po" and e: "exact P r R po I" and "v \<in> R" "v \<noteq> r"
  shows "I v = Some u \<longleftrightarrow> is_idom P r u v"
proof -
  obtain w where w: "I v = Some w" using exactD(2) [OF e] assms(3) by blast
  have "is_idom P r w v" by (rule exact_idom [OF n e assms(3,4) w])
  then show ?thesis using is_idom_unique [OF n assms(3)] w by auto
qed

text \<open>The only predecessor dominates its block.\<close>

lemma single_pred_dominates:
  assumes "P v = [p]" and "v \<noteq> r"
  shows "dominates P r p v"
  unfolding dominates_def
proof (intro allI impI)
  fix xs assume "walk P r (v # xs)"
  then show "p \<in> set (v # xs)" by (cases rule: walk_ConsE) (use assms in auto)
qed

lemma frontier_classic:
  assumes rp: "rpo_ok s f d" and e: "exact_in s f d" and b: "b \<in> reachable s f" "b \<noteq> entry s f"
    and j: "joins_reached s f"
  shows "Some x \<in> frontier_keys s f d b \<longleftrightarrow>
    (\<exists>p \<in> set (preds s b). dominates (preds s) (entry s f) x p) \<and> \<not> sdom (preds s) (entry s f) x b"
proof -
  note n = rpo_okD(5) [OF rp]
  let ?D = "dominates (preds s) (entry s f)"
  obtain u where u: "idoms s f d b = Some u" using exactD(2) [OF e] b(1) by blast
  note pu = exact_parent [OF n e b u]
  have su: "?D x u \<longleftrightarrow> sdom (preds s) (entry s f) x b"
  proof
    assume "?D x u"
    moreover have "b \<noteq> x" using dominates_po [OF n \<open>?D x u\<close> pu(4)] sdom_po [OF n pu(1) b(1)] by auto
    ultimately show "sdom (preds s) (entry s f) x b"
      using pu(1) dominates_trans [of _ _ x u b] by (auto simp: sdom_def)
  qed (rule pu(3))
  obtain q where q: "q \<in> set (preds s b)" "q \<in> reachable s f" "po_id d b < po_id d q"
    using numbered_parent [OF n b] .
  show ?thesis
  proof (cases "2 \<le> length (preds s b)")
    case True
    then have "set (preds s b) \<subseteq> reachable s f" using j b(1) by (simp add: joins_reached_def)
    then have "anc (idoms s f d) x p \<longleftrightarrow> ?D x p" if "p \<in> set (preds s b)" for p
      using exact_anc [OF n e] that by blast
    then show ?thesis
      using True exact_anc [OF n e pu(4)] by (auto simp: frontier_keys_def visited_by_def local_SomeD [OF u] su)
  next
    case False
    then have p: "preds s b = [q]" using q(1) by (cases "preds s b" rule: remdups_adj.cases) auto
    have "sdom (preds s) (entry s f) x b" if "?D x q"
    proof -
      have "b \<noteq> x" using dominates_po [OF n that q(2)] q(3) by auto
      then show ?thesis
        using dominates_trans [OF that single_pred_dominates [of "preds s", OF p b(2)]] by (auto simp: sdom_def)
    qed
    then show ?thesis using False p by (auto simp: frontier_keys_def)
  qed
qed

text \<open>What the pass leaves alone: the entries of the other functions' blocks.\<close>

definition others_kept :: "'z ir_scheme \<Rightarrow> nat \<Rightarrow> dominators \<Rightarrow> dominators \<Rightarrow> bool" where
  "others_kept s f d d' \<longleftrightarrow> (\<forall>b. b \<notin> set (fblocks s f) \<longrightarrow> idom d' b = idom d b \<and>
     (\<forall>k. (b \<in> dom_frontier d' k \<longleftrightarrow> b \<in> dom_frontier d k) \<and>
          (b \<in> dom_tree_succ_blocks d' k \<longleftrightarrow> b \<in> dom_tree_succ_blocks d k)))"

lemma create_dominators_ok:
  assumes fl: "flow_ok s f" and j: "joins_reached s f" and un: "untouched s f d"
  shows "returns (create_dominators s f d) (\<lambda>d'. dominators_ok s f d' \<and> others_kept s f d d')"
proof -
  obtain d1 where d1: "create_reverse_post_order s f d = Inr d1" "rpo_ok s f d1" "idom d1 = idom d"
    "dom_frontier d1 = dom_frontier d" "dom_tree_succ_blocks d1 = dom_tree_succ_blocks d"
    using create_reverse_post_order_returns [OF fl, of d] unfolding returns_def by blast
  obtain d2 where d2: "create_idom s f d1 = Inr d2" "d2 = d1\<lparr>idom := idom d2\<rparr>"
    "\<forall>b. b \<notin> set (fblocks s f) \<longrightarrow> idom d2 b = idom d1 b" "exact_in s f d2"
    using create_idom_returns [OF fl d1(2)] unfolding returns_def by blast
  have f2: "reverse_post_order d2 = reverse_post_order d1" "post_order_id d2 = post_order_id d1"
    "dom_frontier d2 = dom_frontier d" "dom_tree_succ_blocks d2 = dom_tree_succ_blocks d"
    by (subst d2(2), simp add: d1(4,5))+
  have rp: "rpo_ok s f d2" by (subst rpo_ok_cong [OF f2(1,2)]) (rule d1(2))
  obtain d3 where d3: "create_dominance_frontier s f d2 = Inr d3" "frontier_result s f (fblocks s f) d2 d3"
    using frontier_blocks_returns [OF fl j rp d2(4), of "length (reverse_post_order d2) + 3" "fblocks s f"]
    unfolding returns_def create_dominance_frontier_def by auto
  have e3: "d3 = d2\<lparr>dom_frontier := dom_frontier d3\<rparr>"
    and m3: "\<And>b k. b \<in> dom_frontier d3 k \<longleftrightarrow> b \<in> dom_frontier d k \<or> b \<in> set (fblocks s f) \<and> k \<in> frontier_keys s f d2 b"
    using d3(2) f2(3) by (simp_all add: frontier_result_def)
  have f3: "idom d3 = idom d2" "dom_tree_succ_blocks d3 = dom_tree_succ_blocks d"
    by (subst e3, simp add: f2(4))+
  obtain X where X: "create_dom_tree_succ s f d3 = d3\<lparr>dom_tree_succ_blocks := X\<rparr>"
    "\<And>b k. b \<in> X k \<longleftrightarrow> b \<in> dom_tree_succ_blocks d k \<or> b \<in> set (fblocks s f) \<and> idom d2 b \<noteq> Some b \<and> idom d2 b = k"
    using tree_succs_result [of "fblocks s f" d3] unfolding create_dom_tree_succ_def f3 by blast
  let ?d = "d3\<lparr>dom_tree_succ_blocks := X\<rparr>"
  note n = rpo_okD(5) [OF rp]
  have "dominators_ok s f ?d"
    unfolding dominators_ok_def
  proof (intro ballI conjI)
    fix b assume b: "b \<in> set (fblocks s f)"
    then have loc: "idoms s f d2 b = idom d2 b" by simp
    have fresh: "b \<notin> dom_frontier d k" "b \<notin> dom_tree_succ_blocks d k" for k
      using un b by (auto simp: untouched_def)
    have out: "idom d2 b = None" if "b \<notin> reachable s f" by (rule exact_outside [OF d2(4) b that])
    have root: "idom d2 (entry s f) = Some (entry s f)"
      using parents_okD(1) [OF exactD(1) [OF d2(4)]] entry_in [OF fl] by simp
    have inner: "idom d2 b = Some u \<longleftrightarrow> is_idom (preds s) (entry s f) u b"
      if "b \<in> reachable s f" "b \<noteq> entry s f" for u
      using idom_spec [OF n d2(4) that, of u] unfolding loc .
    have not_self: "idom d2 b \<noteq> Some b" if "b \<noteq> entry s f"
      using inner out that by (cases "b \<in> reachable s f") (auto simp: is_idom_def sdom_def)
    show "\<forall>u. idom ?d b = Some u \<longleftrightarrow> b \<in> reachable s f \<and>
        (if b = entry s f then u = entry s f else is_idom (preds s) (entry s f) u b)"
      using inner out root by (cases "b = entry s f"; cases "b \<in> reachable s f") (auto simp: f3)
    show "b \<in> reachable s f \<and> b \<noteq> entry s f \<longrightarrow> (\<forall>x. b \<in> dom_frontier ?d (Some x) \<longleftrightarrow>
        (\<exists>p \<in> set (preds s b). dominates (preds s) (entry s f) x p) \<and> \<not> sdom (preds s) (entry s f) x b)"
      using frontier_classic [OF rp d2(4) _ _ j, of b] b fresh(1) m3 by simp
    show "\<forall>u. b \<in> dom_tree_succ_blocks ?d (Some u) \<longleftrightarrow>
        b \<in> reachable s f \<and> b \<noteq> entry s f \<and> is_idom (preds s) (entry s f) u b"
      using inner out root not_self b fresh(2) X(2) by (cases "b = entry s f"; cases "b \<in> reachable s f") auto
    show "b \<in> dom_tree_succ_blocks ?d None \<longleftrightarrow> b \<notin> reachable s f"
      using inner out root b fresh(2) X(2) exactD(2) [OF d2(4)]
      by (cases "b \<in> reachable s f") (auto simp: loc subset_iff dom_def)
  qed
  moreover have "others_kept s f d ?d"
    using d2(3) d1(3) m3 X(2) by (simp add: others_kept_def f3)
  ultimately show ?thesis
    using d1(1) d2(1) d3(1) X(1) by (simp add: create_dominators_def)
qed

section \<open>The pass on a module\<close>

definition flow_module :: "'z ir_scheme \<Rightarrow> bool" where
  "flow_module s \<longleftrightarrow> heap_ok s \<and> distinct (function_list s) \<and> (\<forall>f \<in> set (function_list s). funs s f \<noteq> None \<and>
     (fblocks s f \<noteq> [] \<longrightarrow> flow_ok s f \<and> joins_reached s f))"

lemma blocks_disjoint: "heap_ok s \<Longrightarrow> b \<in> set (fblocks s f) \<Longrightarrow> b \<in> set (fblocks s g) \<Longrightarrow> f = g"
  using heap_okD(4) [of s b f] heap_okD(4) [of s b g] by simp

lemma others_dominators_ok:
  assumes "heap_ok s" and "f \<noteq> g" and k: "others_kept s f d d'" and ok: "dominators_ok s g d"
  shows "dominators_ok s g d'"
proof -
  have "b \<notin> set (fblocks s f)" if "b \<in> set (fblocks s g)" for b
    using blocks_disjoint [OF assms(1) that, of f] assms(2) by blast
  with k ok show ?thesis by (simp add: dominators_ok_def others_kept_def)
qed

lemma others_untouched:
  assumes "heap_ok s" and "f \<noteq> g" and k: "others_kept s f d d'" and ok: "untouched s g d"
  shows "untouched s g d'"
proof -
  have "b \<notin> set (fblocks s f)" if "b \<in> set (fblocks s g)" for b
    using blocks_disjoint [OF assms(1) that, of f] assms(2) by blast
  with k ok show ?thesis by (simp add: untouched_def others_kept_def)
qed

lemma dominators_functions_ok:
  assumes heap: "heap_ok s"
  shows "distinct fs \<Longrightarrow> (\<forall>f \<in> set fs. funs s f \<noteq> None \<and> (fblocks s f \<noteq> [] \<longrightarrow>
      flow_ok s f \<and> joins_reached s f) \<and> untouched s f d) \<Longrightarrow>
    returns (dominators_functions s fs d) (\<lambda>d'. (\<forall>f \<in> set fs. fblocks s f \<noteq> [] \<longrightarrow> dominators_ok s f d') \<and>
      (\<forall>g. g \<notin> set fs \<longrightarrow> dominators_ok s g d \<longrightarrow> dominators_ok s g d'))"
proof (induction fs arbitrary: d)
  case (Cons f fs)
  obtain fn where fn: "funs s f = Some fn" using Cons.prems(2) by auto
  then have bf: "basic_blocks fn = fblocks s f" by (simp add: fblocks_def)
  have "returns (if fblocks s f = [] then Inr d else create_dominators s f d)
      (\<lambda>d'. (fblocks s f \<noteq> [] \<longrightarrow> dominators_ok s f d') \<and> others_kept s f d d')"
    using create_dominators_ok [of s f d] Cons.prems(2) by (simp add: others_kept_def)
  then obtain d1 where d1: "(if fblocks s f = [] then Inr d else create_dominators s f d) = Inr d1"
    "fblocks s f \<noteq> [] \<longrightarrow> dominators_ok s f d1" "others_kept s f d d1"
    unfolding returns_def by blast
  note keep = others_dominators_ok [OF heap _ d1(3)]
  have un: "untouched s g d1" if "g \<in> set fs" for g
    by (rule others_untouched [OF heap _ d1(3)]) (use that Cons.prems in auto)
  have "returns (dominators_functions s fs d1) (\<lambda>d'. (\<forall>f \<in> set fs. fblocks s f \<noteq> [] \<longrightarrow> dominators_ok s f d') \<and>
      (\<forall>g. g \<notin> set fs \<longrightarrow> dominators_ok s g d1 \<longrightarrow> dominators_ok s g d'))"
    by (rule Cons.IH) (use Cons.prems un in auto)
  then show ?case
    using d1(1,2) keep Cons.prems(1) by (auto simp: fn bf elim!: returns_mono)
qed simp

text \<open>C28: on a module whose reachable joins have only reachable predecessors the pass returns, and
  for every function with blocks it has computed the immediate dominators of the reachable blocks,
  the dominance frontiers, and the dominator tree with the unreachable blocks under the null key.\<close>

theorem Dominators_run_spec:
  assumes "flow_module s"
  shows "returns (Dominators_run s new_dominators)
    (\<lambda>d. \<forall>f \<in> set (function_list s). fblocks s f \<noteq> [] \<longrightarrow> dominators_ok s f d)"
  unfolding Dominators_run_def
  by (rule returns_mono [OF dominators_functions_ok])
    (use assms in \<open>auto simp: flow_module_def untouched_def new_dominators_def\<close>)

section \<open>A join with an unreachable predecessor\<close>

text \<open>The runner of a predecessor without a parent reaches the null pointer and stays there.\<close>

lemma run_up_null: "idom d b \<noteq> None \<Longrightarrow> run_up m b None d = Inl NoReturn"
  by (induction m arbitrary: d) (auto simp: get_idom_def add_dominance_frontier_def)

lemma run_up_stuck: "idom d b \<noteq> None \<Longrightarrow> idom d p = None \<Longrightarrow> idom d b \<noteq> Some p \<Longrightarrow> run_up m b (Some p) d = Inl NoReturn"
  by (cases m) (auto simp: get_idom_def add_dominance_frontier_def run_up_null)

lemma run_up_idom:
  "run_up m b x d = Inr d' \<Longrightarrow> idom d' = idom d" "run_up m b x d = Inl e \<Longrightarrow> e = NoReturn"
  by (induction m arbitrary: x d) (auto simp: add_dominance_frontier_def split: if_splits)

lemma run_preds_idom:
  "run_preds m b ps d = Inr d' \<Longrightarrow> idom d' = idom d" "run_preds m b ps d = Inl e \<Longrightarrow> e = NoReturn"
proof (induction ps arbitrary: d)
  case (Cons p ps)
  {
    case 1
    then show ?case using Cons.IH(1) run_up_idom(1) by fastforce
  next
    case 2
    then show ?case using Cons.IH(2) run_up_idom(2) by (cases "run_up m b (Some p) d") auto
  }
qed simp_all

lemma run_preds_stuck:
  "idom d b \<noteq> None \<Longrightarrow> p \<in> set ps \<Longrightarrow> idom d p = None \<Longrightarrow> idom d b \<noteq> Some p \<Longrightarrow> run_preds m b ps d = Inl NoReturn"
proof (induction ps arbitrary: d)
  case (Cons q ps)
  show ?case
  proof (cases "run_up m b (Some q) d")
    case (Inl e)
    then show ?thesis using run_up_idom(2) by simp
  next
    case (Inr d')
    have "q \<noteq> p" using run_up_stuck [OF Cons.prems(1,3,4), of m] Inr by auto
    then show ?thesis using Cons run_up_idom(1) [OF Inr] Inr by simp
  qed
qed simp

lemma frontier_blocks_stuck:
  assumes bl: "\<forall>c \<in> set bs. blocks s c \<noteq> None" and b: "b \<in> set bs" "2 \<le> length (preds s b)"
    and p: "p \<in> set (preds s b)"
  shows "idom d b \<noteq> None \<Longrightarrow> idom d p = None \<Longrightarrow> idom d b \<noteq> Some p \<Longrightarrow> frontier_blocks m s bs d = Inl NoReturn"
  using bl b(1)
proof (induction bs arbitrary: d)
  case (Cons c bs)
  then obtain k where k: "blocks s c = Some k" by auto
  then have pk: "pre_bbs k = preds s c" by (simp add: preds_def)
  let ?m = "if 2 \<le> length (pre_bbs k) then run_preds m c (pre_bbs k) d else Inr d"
  show ?case
  proof (cases ?m)
    case (Inl e)
    then show ?thesis using run_preds_idom(2) [of m c "pre_bbs k" d e] k by (auto split: if_splits)
  next
    case (Inr d')
    have "c \<noteq> b" using run_preds_stuck [OF Cons.prems(1) p Cons.prems(2,3), of m] Inr b(2) pk by auto
    moreover have "idom d' = idom d"
      using Inr run_preds_idom(1) [of m c "pre_bbs k" d d'] by (auto split: if_splits)
    ultimately show ?thesis using Cons Inr k by simp
  qed
qed simp

text \<open>C29: a reachable block with two predecessors one of which is unreachable (the code generator
  makes one for a loop whose body returns on both branches) stops the pass: the immediate dominators
  are found, but however long it runs the runner of the unreachable predecessor never meets the
  immediate dominator of the block.\<close>

theorem frontier_never_returns:
  assumes fl: "flow_ok s f" and b: "b \<in> reachable s f" "2 \<le> length (preds s b)"
    and p: "p \<in> set (preds s b)" "p \<notin> reachable s f"
  shows "\<exists>d1 d2. create_reverse_post_order s f d = Inr d1 \<and> create_idom s f d1 = Inr d2 \<and>
    (\<forall>m. frontier_blocks m s (fblocks s f) d2 = Inl NoReturn)"
proof -
  obtain d1 where d1: "create_reverse_post_order s f d = Inr d1" "rpo_ok s f d1"
    using create_reverse_post_order_returns [OF fl, of d] unfolding returns_def by blast
  obtain d2 where d2: "create_idom s f d1 = Inr d2" "exact_in s f d2"
    using create_idom_returns [OF fl d1(2)] unfolding returns_def by blast
  have bB: "b \<in> set (fblocks s f)" using rpo_okD(2) [OF d1(2)] b(1) by blast
  then have pB: "p \<in> set (fblocks s f)" using flow_okD(5) [OF fl] p(1) by blast
  have bi: "idom d2 b \<noteq> None" using exactD(2) [OF d2(2)] b(1) bB by (auto simp: subset_iff dom_def)
  have bp: "idom d2 b \<noteq> Some p"
    using parents_okD(2,4) [OF exactD(1) [OF d2(2)]] bB p(2) local_in by (metis not_None_eq)
  have "frontier_blocks m s (fblocks s f) d2 = Inl NoReturn" for m
    by (rule frontier_blocks_stuck [OF _ bB b(2) p(1) bi exact_outside [OF d2(2) pB p(2)] bp])
      (use flow_okD(2) [OF fl] in auto)
  with d1(1) d2(1) show ?thesis by blast
qed

section \<open>Two small modules\<close>

definition flow_block :: "nat list \<Rightarrow> nat list \<Rightarrow> block" where
  "flow_block ps ss = \<lparr>bb_name = '''', bb_parent = 0, pre_bbs = ps, succ_bbs = ss, instr_list = []\<rparr>"

definition flow_ir :: "(nat \<rightharpoonup> block) \<Rightarrow> nat list \<Rightarrow> ir" where
  "flow_ir B bs = \<lparr>
     operands = (\<lambda>_. []), num_ops = (\<lambda>_. 0), use_list = (\<lambda>_. []), fp_count = 0, cached_float = [], next_id = 5,
     instrs = Map.empty, blocks = B,
     funs = [0 \<mapsto> \<lparr>f_name = ''f'', f_type = FunTy VoidTy [], basic_blocks = bs, arg_names = [], seq_cnt = 0\<rparr>],
     gvars = Map.empty, global_list = [], function_list = [0]\<rparr>"

text \<open>A diamond, and a loop header with an unreachable predecessor.\<close>

definition diamond :: ir where
  "diamond = flow_ir [1 \<mapsto> flow_block [] [2, 3], 2 \<mapsto> flow_block [1] [4], 3 \<mapsto> flow_block [1] [4],
     4 \<mapsto> flow_block [2, 3] []] [1, 2, 3, 4]"

definition dead_latch :: ir where
  "dead_latch = flow_ir [1 \<mapsto> flow_block [] [3], 2 \<mapsto> flow_block [] [3], 3 \<mapsto> flow_block [1, 2] []] [1, 2, 3]"

lemma diamond_views:
  "fblocks diamond f = (if f = 0 then [1, 2, 3, 4] else [])" "function_list diamond = [0]"
  "preds diamond b = (if b = 2 \<or> b = 3 then [1] else if b = 4 then [2, 3] else [])"
  "succs diamond b = (if b = 1 then [2, 3] else if b = 2 \<or> b = 3 then [4] else [])"
  by (simp_all add: diamond_def flow_ir_def flow_block_def fblocks_def preds_def succs_def)

lemma diamond_flow: "flow_module diamond"
proof -
  have "heap_ok diamond"
    by (auto simp: heap_ok_def fresh_ok_def diamond_views)
      (auto simp: diamond_def flow_ir_def flow_block_def ilist_def owner_def split: if_splits)
  moreover have "flow_ok diamond 0"
    by (auto simp: flow_ok_def diamond_views) (auto simp: diamond_def flow_ir_def)
  moreover have "1 \<in> reachable diamond 0"
    using walk.start [of "preds diamond" 1] by (auto simp: reachable_def entry_def diamond_views)
  then have "{2, 3} \<subseteq> reachable diamond 0"
    using pred_reachable [of 1 diamond] by (simp add: diamond_views)
  then have "joins_reached diamond 0" by (auto simp: joins_reached_def diamond_views)
  ultimately show ?thesis
    by (simp add: flow_module_def diamond_views) (simp add: diamond_def flow_ir_def)
qed

theorem Dominators_run_spec_witness:
  "flow_module diamond \<and> returns (Dominators_run diamond new_dominators) (dominators_ok diamond 0)"
  using diamond_flow Dominators_run_spec [OF diamond_flow] by (simp add: diamond_views)

lemma dead_latch_views:
  "fblocks dead_latch f = (if f = 0 then [1, 2, 3] else [])"
  "preds dead_latch b = (if b = 3 then [1, 2] else [])"
  "succs dead_latch b = (if b = 1 \<or> b = 2 then [3] else [])"
  by (simp_all add: dead_latch_def flow_ir_def flow_block_def fblocks_def preds_def succs_def)

theorem frontier_never_returns_witness:
  "\<exists>d1 d2. create_reverse_post_order dead_latch 0 new_dominators = Inr d1 \<and> create_idom dead_latch 0 d1 = Inr d2 \<and>
    (\<forall>m. frontier_blocks m dead_latch (fblocks dead_latch 0) d2 = Inl NoReturn)"
proof (rule frontier_never_returns [of dead_latch 0 3 2])
  show "flow_ok dead_latch 0"
    by (auto simp: flow_ok_def dead_latch_views) (auto simp: dead_latch_def flow_ir_def)
  have "1 \<in> reachable dead_latch 0"
    using walk.start [of "preds dead_latch" 1] by (auto simp: reachable_def entry_def dead_latch_views)
  then show "3 \<in> reachable dead_latch 0"
    using pred_reachable [of 1 dead_latch 3] by (simp add: dead_latch_views)
  have "\<not> walk (preds dead_latch) 1 (2 # xs)" for xs
  proof
    assume "walk (preds dead_latch) 1 (2 # xs)"
    then show False by (rule walk_ConsE) (auto simp: dead_latch_views)
  qed
  then show "2 \<notin> reachable dead_latch 0"
    by (simp add: reachable_def entry_def dead_latch_views)
qed (simp_all add: dead_latch_views)

end
