(* ===== verification/Dominator_Sets.thy ===== *)
theory Dominator_Sets
  imports Dominance_Frontier IR_Names
begin

text \<open>
  The members of \<open>Dominators\<close> that \<open>run\<close> does not use: \<open>create_doms\<close>, the data-flow
  iteration on sets of dominators, and the two debugging outputs. A \<open>std::set\<close> of blocks is
  walked in the order of the addresses, which the parameter \<open>adr\<close> gives.
\<close>

section \<open>Sets of dominators\<close>

text \<open>\<open>std::set_intersection\<close> on two ranges.\<close>

fun set_intersection :: "(nat \<Rightarrow> nat) \<Rightarrow> nat list \<Rightarrow> nat list \<Rightarrow> nat list" where
  "set_intersection adr (x # xs) (y # ys) =
     (if adr x < adr y then set_intersection adr xs (y # ys)
      else if adr y < adr x then set_intersection adr (x # xs) ys
      else x # set_intersection adr xs ys)"
| "set_intersection adr _ _ = []"

text \<open>The loop over the predecessors after the first. The vector \<open>ret\<close> has room for \<open>n\<close>
  blocks and is cut to the result, which is inserted in front of what \<open>pre.resize\<close> has left.\<close>

fun doms_preds :: "(nat \<Rightarrow> nat) \<Rightarrow> nat \<Rightarrow> dominators \<Rightarrow> nat list \<Rightarrow> nat list \<Rightarrow> nat list res" where
  "doms_preds adr n d [] pre = Inr pre"
| "doms_preds adr n d (p # ps) pre =
     (let ret = set_intersection adr pre (sorted_key_list_of_set adr (doms d p))
      in bnd (ensure (length ret \<le> n) OutOfBounds) (\<lambda>_.
         doms_preds adr (length ret) d ps (ret @ take (length ret) pre)))"

fun doms_pass :: "(nat \<Rightarrow> nat) \<Rightarrow> nat \<Rightarrow> 'z ir_scheme \<Rightarrow> nat list \<Rightarrow> bool \<Rightarrow> dominators \<Rightarrow> (bool \<times> dominators) res" where
  "doms_pass adr n s [] changed d = Inr (changed, d)"
| "doms_pass adr n s (b # bs) changed d =
     bnd (deref (blocks s b)) (\<lambda>k.
     case pre_bbs k of
       [] \<Rightarrow> Inl OutOfBounds
     | p # ps \<Rightarrow>
         bnd (doms_preds adr n d ps (sorted_key_list_of_set adr (doms d p))) (\<lambda>pre.
         if doms d b \<noteq> insert b (set pre)
         then doms_pass adr n s bs True (set_doms b (insert b (set pre)) d)
         else doms_pass adr n s bs changed d))"

fun doms_loop :: "nat \<Rightarrow> (nat \<Rightarrow> nat) \<Rightarrow> nat \<Rightarrow> 'z ir_scheme \<Rightarrow> nat list \<Rightarrow> dominators \<Rightarrow> dominators res" where
  "doms_loop 0 adr n s bs d = Inl NoReturn"
| "doms_loop (Suc m) adr n s bs d =
     bnd (doms_pass adr n s bs False d) (\<lambda>(changed, d). if changed then doms_loop m adr n s bs d else Inr d)"

fun init_doms :: "nat list \<Rightarrow> dominators \<Rightarrow> dominators" where
  "init_doms [] d = d"
| "init_doms (b # bs) d = init_doms bs (add_dom b b d)"

definition create_doms :: "nat \<Rightarrow> (nat \<Rightarrow> nat) \<Rightarrow> 'z ir_scheme \<Rightarrow> nat \<Rightarrow> dominators \<Rightarrow> dominators res" where
  "create_doms m adr s f d =
     doms_loop m adr (length (fblocks s f)) s (fblocks s f) (init_doms (fblocks s f) d)"

text \<open>C30: on a function whose entry block has no predecessor, which is every function that the code
  generator makes, \<open>create_doms\<close> dereferences the end of the empty list of predecessors.\<close>

theorem create_doms_entry:
  assumes fl: "flow_ok s f" and "preds s (entry s f) = []"
  shows "create_doms (Suc m) adr s f d = Inl OutOfBounds"
proof -
  obtain bs where bs: "fblocks s f = entry s f # bs"
    using flow_okD(1) [OF fl] by (cases "fblocks s f") (auto simp: entry_def)
  obtain k where "blocks s (entry s f) = Some k" using flow_okD(2) [OF fl entry_in [OF fl]] by blast
  moreover from this have "pre_bbs k = []" using assms(2) by (simp add: preds_def)
  ultimately have "doms_pass adr n s (entry s f # bs) False d' = Inl OutOfBounds" for n d' by simp
  then show ?thesis by (simp add: create_doms_def bs)
qed

theorem create_doms_entry_witness: "create_doms 1 (\<lambda>b. b) diamond 0 new_dominators = Inl OutOfBounds"
proof -
  have "flow_ok diamond 0" using diamond_flow by (simp add: flow_module_def diamond_views)
  then show ?thesis using create_doms_entry [of diamond 0 0] by (simp add: entry_def diamond_views)
qed

section \<open>Debugging output\<close>

text \<open>The table of names: a block without a name gets one from the counter.\<close>

fun block_ids :: "'z ir_scheme \<Rightarrow> nat list \<Rightarrow> nat \<Rightarrow> (nat \<Rightarrow> string) \<Rightarrow> (nat \<Rightarrow> string) res" where
  "block_ids s [] counter m = Inr m"
| "block_ids s (b # bs) counter m =
     bnd (deref (blocks s b)) (\<lambda>k.
     block_ids s bs (Suc counter) (m(b := if bb_name k = '''' then ''bb'' @ show_nat counter else bb_name k)))"

definition idom_line :: "(nat \<Rightarrow> string) \<Rightarrow> dominators \<Rightarrow> nat \<Rightarrow> string" where
  "idom_line m d b =
     m b @ '': '' @ (case idom d b of Some u \<Rightarrow> m u | None \<Rightarrow> ''null'') @ [CHR 0x0A]"

definition print_idom :: "'z ir_scheme \<Rightarrow> nat \<Rightarrow> dominators \<Rightarrow> string res" where
  "print_idom s f d =
     bnd (block_ids s (fblocks s f) 0 (\<lambda>_. '''')) (\<lambda>m.
     bnd (deref (funs s f)) (\<lambda>fn.
     Inr (''Immediate dominance of function '' @ f_name fn @ '':'' @ [CHR 0x0A] @ concat (map (idom_line m d) (fblocks s f)))))"

fun comma_list :: "string list \<Rightarrow> string" where
  "comma_list [] = ''''"
| "comma_list [x] = x"
| "comma_list (x # y # xs) = x @ '', '' @ comma_list (y # xs)"

definition frontier_line :: "(nat \<Rightarrow> nat) \<Rightarrow> (nat \<Rightarrow> string) \<Rightarrow> dominators \<Rightarrow> nat \<Rightarrow> string" where
  "frontier_line adr m d b =
     m b @ '': '' @ (if dom_frontier d (Some b) = {} then ''null''
                     else comma_list (map m (sorted_key_list_of_set adr (dom_frontier d (Some b))))) @ [CHR 0x0A]"

definition print_dominance_frontier :: "(nat \<Rightarrow> nat) \<Rightarrow> 'z ir_scheme \<Rightarrow> nat \<Rightarrow> dominators \<Rightarrow> string res" where
  "print_dominance_frontier adr s f d =
     bnd (block_ids s (fblocks s f) 0 (\<lambda>_. '''')) (\<lambda>m.
     bnd (deref (funs s f)) (\<lambda>fn.
     Inr (''Dominance Frontier of function '' @ f_name fn @ '':'' @ [CHR 0x0A] @ concat (map (frontier_line adr m d) (fblocks s f)))))"

end
