(* ===== verification/Mem2Reg.thy ===== *)
theory Mem2Reg
  imports Dominator_Sets
begin

text \<open>
  Promotion of memory to registers (\<open>optimization/Mem2Reg.hpp\<close>, \<open>Mem2Reg.cpp\<close>): phis
  for the stored variables on the dominance frontiers, the renaming along the dominator tree, and
  the removal of the slots. The parameter \<open>adr\<close> gives the address of an object, which orders the
  sets and maps keyed by pointers.
\<close>

section \<open>The stacks of values\<close>

text \<open>The global map \<open>var_val_stack\<close>; the end of a vector is the head of the list. An absent key
  and an empty vector are told apart by \<open>find\<close>.\<close>

record mem2reg = ir +
  var_val_stack :: "val \<Rightarrow> val list option"

definition push_val :: "val \<Rightarrow> val \<Rightarrow> 'z mem2reg_scheme \<Rightarrow> 'z mem2reg_scheme" where
  "push_val l v s = s\<lparr>var_val_stack := (var_val_stack s)
     (l \<mapsto> v # (case var_val_stack s l of None \<Rightarrow> [] | Some vs \<Rightarrow> vs))\<rparr>"

text \<open>\<open>pop_back\<close> and \<open>back\<close> on an empty vector are undefined.\<close>

definition pop_val :: "val \<Rightarrow> 'z mem2reg_scheme \<Rightarrow> 'z mem2reg_scheme res" where
  "pop_val l s =
     (case var_val_stack s l of
        Some (v # vs) \<Rightarrow> Inr (s\<lparr>var_val_stack := (var_val_stack s)(l \<mapsto> vs)\<rparr>)
      | _ \<Rightarrow> Inl OutOfBounds)"

definition top_val :: "val \<Rightarrow> 'z mem2reg_scheme \<Rightarrow> val res" where
  "top_val l s = (case var_val_stack s l of Some (v # vs) \<Rightarrow> Inr v | _ \<Rightarrow> Inl OutOfBounds)"

text \<open>Neither a global variable nor the result of a \<open>getelementptr\<close>: the \<open>dynamic_cast\<close> reads
  the object.\<close>

definition promoted :: "'z ir_scheme \<Rightarrow> val \<Rightarrow> bool res" where
  "promoted s l = (case l of
     VGlobal g \<Rightarrow> Inr False
   | VInstr p \<Rightarrow> bnd (deref (instrs s p)) (\<lambda>ins. Inr (i_op ins \<noteq> Getelementptr))
   | _ \<Rightarrow> Inr True)"

text \<open>Operand \<open>i\<close> if it is promoted.\<close>

definition promoted_operand :: "'z ir_scheme \<Rightarrow> nat \<Rightarrow> nat \<Rightarrow> val option res" where
  "promoted_operand s p i =
     bnd (get_operand s (VInstr p) i) (\<lambda>l. bnd (promoted s l) (\<lambda>b. Inr (if b then Some l else None)))"

definition block_instrs :: "'z ir_scheme \<Rightarrow> nat \<Rightarrow> nat list res" where
  "block_instrs s b = bnd (deref (blocks s b)) (\<lambda>k. Inr (instr_list k))"

text \<open>The promoted variable that a store writes, a load reads, or a phi stands for.\<close>

definition store_lval :: "'z ir_scheme \<Rightarrow> nat \<Rightarrow> val option res" where
  "store_lval s p =
     bnd (deref (instrs s p)) (\<lambda>ins.
     if i_op ins = Store
     then promoted_operand s p 1
     else Inr None)"

definition load_lval :: "'z ir_scheme \<Rightarrow> nat \<Rightarrow> val option res" where
  "load_lval s p =
     bnd (deref (instrs s p)) (\<lambda>ins.
     if i_op ins = Load
     then promoted_operand s p 0
     else Inr None)"

definition phi_lval :: "'z ir_scheme \<Rightarrow> nat \<Rightarrow> val option res" where
  "phi_lval s p =
     bnd (deref (instrs s p)) (\<lambda>ins.
     Inr (if i_op ins = Phi then case i_data ins of PhiData l \<Rightarrow> Some l | _ \<Rightarrow> Some VNull else None))"

section \<open>Insertion of phis\<close>

text \<open>A \<open>std::set\<close> of pointers is a list in the order of the addresses. The stored variables and
  the blocks that store them.\<close>

definition set_put :: "('a \<Rightarrow> nat) \<Rightarrow> 'a \<Rightarrow> 'a list \<Rightarrow> 'a list" where
  "set_put adr x xs = (if x \<in> set xs then xs else insort_key adr x xs)"

definition block_adr :: "(val \<Rightarrow> nat) \<Rightarrow> nat \<Rightarrow> nat" where
  "block_adr adr b = adr (VBB b)"

definition blocks_by_adr :: "(val \<Rightarrow> nat) \<Rightarrow> nat set \<Rightarrow> nat list" where
  "blocks_by_adr adr bs = sort_key (block_adr adr) (sorted_list_of_set bs)"

type_synonym var_defs = "val list \<times> (val \<Rightarrow> nat list)"

fun instr_defs :: "(val \<Rightarrow> nat) \<Rightarrow> 'z ir_scheme \<Rightarrow> nat \<Rightarrow> nat list \<Rightarrow> var_defs \<Rightarrow> var_defs res" where
  "instr_defs adr s b [] r = Inr r"
| "instr_defs adr s b (p # ps) (vs, m) =
     bnd (store_lval s p) (\<lambda>l.
     instr_defs adr s b ps (case l of None \<Rightarrow> (vs, m) | Some l \<Rightarrow> (set_put adr l vs, m(l := set_put (block_adr adr) b (m l)))))"

fun block_defs :: "(val \<Rightarrow> nat) \<Rightarrow> 'z ir_scheme \<Rightarrow> nat list \<Rightarrow> var_defs \<Rightarrow> var_defs res" where
  "block_defs adr s [] r = Inr r"
| "block_defs adr s (b # bs) r = bnd (block_instrs s b) (\<lambda>ps. bnd (instr_defs adr s b ps r) (block_defs adr s bs))"

definition set_lval :: "nat \<Rightarrow> val \<Rightarrow> 'z ir_scheme \<Rightarrow> 'z ir_scheme res" where
  "set_lval p l s = bnd (deref (instrs s p)) (\<lambda>ins. Inr (s\<lparr>instrs := (instrs s)(p \<mapsto> ins\<lparr>i_data := PhiData l\<rparr>)\<rparr>))"

definition insert_phi :: "val \<Rightarrow> nat \<Rightarrow> 'z ir_scheme \<Rightarrow> 'z ir_scheme res" where
  "insert_phi var b s =
     bnd (get_type s var) (\<lambda>t.
     bnd (deref (get_pointer_element_type t)) (\<lambda>et.
     let (p, s) = create_phi et b s
     in bnd (set_lval p var s) (add_instr_begin b p)))"

text \<open>The loop over one dominance frontier: the blocks that are appended to the work list, and
  \<open>bb_has_var_phi\<close>.\<close>

fun phi_frontier :: "val \<Rightarrow> nat list \<Rightarrow> (nat \<times> val) set \<Rightarrow> 'z ir_scheme \<Rightarrow> (nat list \<times> (nat \<times> val) set \<times> 'z ir_scheme) res" where
  "phi_frontier var [] has s = Inr ([], has, s)"
| "phi_frontier var (c # cs) has s =
     (if (c, var) \<notin> has
      then bnd (insert_phi var c s) (\<lambda>s.
           bnd (phi_frontier var cs (insert (c, var) has) s) (\<lambda>(new, has, s). Inr (c # new, has, s)))
      else phi_frontier var cs has s)"

text \<open>The work list from its current position on.\<close>

fun phi_work :: "nat \<Rightarrow> (val \<Rightarrow> nat) \<Rightarrow> dominators \<Rightarrow> val \<Rightarrow> nat list \<Rightarrow> (nat \<times> val) set \<Rightarrow> 'z ir_scheme \<Rightarrow> ((nat \<times> val) set \<times> 'z ir_scheme) res" where
  "phi_work n adr d var [] has s = Inr (has, s)"
| "phi_work 0 adr d var (b # wl) has s = Inl NoReturn"
| "phi_work (Suc n) adr d var (b # wl) has s =
     bnd (phi_frontier var (blocks_by_adr adr (dom_frontier d (Some b))) has s)
       (\<lambda>(new, has, s). phi_work n adr d var (wl @ new) has s)"

fun phi_vars :: "nat \<Rightarrow> (val \<Rightarrow> nat) \<Rightarrow> dominators \<Rightarrow> (val \<Rightarrow> nat list) \<Rightarrow> val list \<Rightarrow> (nat \<times> val) set \<Rightarrow> 'z ir_scheme \<Rightarrow> 'z ir_scheme res" where
  "phi_vars n adr d m [] has s = Inr s"
| "phi_vars n adr d m (v # vs) has s =
     bnd (phi_work n adr d v (m v) has s) (\<lambda>(has, s). phi_vars n adr d m vs has s)"

text \<open>A block enters the work list of a variable once for its store and once for its phi.\<close>

definition generate_phi :: "(val \<Rightarrow> nat) \<Rightarrow> dominators \<Rightarrow> nat \<Rightarrow> 'z ir_scheme \<Rightarrow> 'z ir_scheme res" where
  "generate_phi adr d f s =
     bnd (block_defs adr s (fblocks s f) ([], \<lambda>_. [])) (\<lambda>(vs, m).
     phi_vars (2 * length (fblocks s f)) adr d m vs {} s)"

section \<open>Renaming\<close>

fun push_phis :: "nat list \<Rightarrow> 'z mem2reg_scheme \<Rightarrow> 'z mem2reg_scheme res" where
  "push_phis [] s = Inr s"
| "push_phis (p # ps) s =
     bnd (phi_lval s p) (\<lambda>l. push_phis ps (case l of None \<Rightarrow> s | Some l \<Rightarrow> push_val l (VInstr p) s))"

text \<open>Loads are replaced by the newest value, stores push theirs; both are collected in
  \<open>wait_delete\<close>.\<close>

fun rename_instrs :: "nat list \<Rightarrow> 'z mem2reg_scheme \<Rightarrow> (nat list \<times> 'z mem2reg_scheme) res" where
  "rename_instrs [] s = Inr ([], s)"
| "rename_instrs (p # ps) s =
     bnd (load_lval s p) (\<lambda>l.
     bnd (case l of
            Some l \<Rightarrow>
              if var_val_stack s l \<noteq> None
              then bnd (top_val l s) (\<lambda>v.
                   case replace_all_use_with (VInstr p) v s of
                     None \<Rightarrow> Inl NoReturn | Some r \<Rightarrow> bnd r (\<lambda>s. Inr ([p], s)))
              else Inr ([], s)
          | None \<Rightarrow> Inr ([], s)) (\<lambda>(del, s).
     bnd (store_lval s p) (\<lambda>l.
     bnd (case l of
            Some l \<Rightarrow> bnd (get_operand s (VInstr p) 0) (\<lambda>r. Inr (del @ [p], push_val l r s))
          | None \<Rightarrow> Inr (del, s)) (\<lambda>(del, s).
     bnd (rename_instrs ps s) (\<lambda>(del', s). Inr (del @ del', s))))))"

fun fill_phis :: "nat \<Rightarrow> nat list \<Rightarrow> 'z mem2reg_scheme \<Rightarrow> 'z mem2reg_scheme res" where
  "fill_phis b [] s = Inr s"
| "fill_phis b (p # ps) s =
     bnd (phi_lval s p) (\<lambda>l.
     bnd (case l of
            Some l \<Rightarrow>
              (case var_val_stack s l of
                 None \<Rightarrow> Inr s
               | Some [] \<Rightarrow> Inl AssertFail
               | Some (v # vs) \<Rightarrow> add_phi_pair_operand p v b s)
          | None \<Rightarrow> Inr s) (fill_phis b ps))"

fun fill_succs :: "nat \<Rightarrow> nat list \<Rightarrow> 'z mem2reg_scheme \<Rightarrow> 'z mem2reg_scheme res" where
  "fill_succs b [] s = Inr s"
| "fill_succs b (c # cs) s = bnd (block_instrs s c) (\<lambda>ps. bnd (fill_phis b ps s) (fill_succs b cs))"

fun pop_vals :: "nat list \<Rightarrow> 'z mem2reg_scheme \<Rightarrow> 'z mem2reg_scheme res" where
  "pop_vals [] s = Inr s"
| "pop_vals (p # ps) s =
     bnd (store_lval s p) (\<lambda>l. bnd (phi_lval s p) (\<lambda>k.
     bnd (case (l, k) of
            (Some l, _) \<Rightarrow> pop_val l s
          | (None, Some k) \<Rightarrow> if var_val_stack s k \<noteq> None then pop_val k s else Inr s
          | (None, None) \<Rightarrow> Inr s) (pop_vals ps)))"

fun erase_instrs :: "nat \<Rightarrow> nat list \<Rightarrow> 'z ir_scheme \<Rightarrow> 'z ir_scheme res" where
  "erase_instrs b [] s = Inr s"
| "erase_instrs b (p # ps) s = bnd (erase_instr b p s) (erase_instrs b ps)"

text \<open>The recursion over the dominator tree; the fuel bounds its depth.\<close>

fun re_name :: "nat \<Rightarrow> (val \<Rightarrow> nat) \<Rightarrow> dominators \<Rightarrow> nat \<Rightarrow> 'z mem2reg_scheme \<Rightarrow> 'z mem2reg_scheme res"
  and re_names :: "nat \<Rightarrow> (val \<Rightarrow> nat) \<Rightarrow> dominators \<Rightarrow> nat list \<Rightarrow> 'z mem2reg_scheme \<Rightarrow> 'z mem2reg_scheme res" where
  "re_name 0 adr d b s = Inl NoReturn"
| "re_name (Suc n) adr d b s =
     bnd (deref (blocks s b)) (\<lambda>k.
     bnd (push_phis (instr_list k) s) (\<lambda>s.
     bnd (rename_instrs (instr_list k) s) (\<lambda>(wait_delete, s).
     bnd (fill_succs b (succ_bbs k) s) (\<lambda>s.
     bnd (re_names n adr d (blocks_by_adr adr (dom_tree_succ_blocks d (Some b))) s) (\<lambda>s.
     bnd (block_instrs s b) (\<lambda>ps.
     bnd (pop_vals ps s) (erase_instrs b wait_delete)))))))"
| "re_names n adr d [] s = Inr s"
| "re_names n adr d (b # bs) s = bnd (re_name n adr d b s) (re_names n adr d bs)"

section \<open>The slots and the pass\<close>

text \<open>The type of an \<open>alloca\<close> is a pointer to the type of its slot.\<close>

definition scalar_slot :: "'z ir_scheme \<Rightarrow> nat \<Rightarrow> bool res" where
  "scalar_slot s p =
     bnd (deref (instrs s p)) (\<lambda>ins.
     if i_op ins = Alloca
     then bnd (deref (get_pointer_element_type (i_type ins))) (\<lambda>t. Inr (is_integer_type t \<or> is_float_type t))
     else Inr False)"

fun scalar_slots :: "'z ir_scheme \<Rightarrow> nat list \<Rightarrow> nat list res" where
  "scalar_slots s [] = Inr []"
| "scalar_slots s (p # ps) =
     bnd (scalar_slot s p) (\<lambda>x. bnd (scalar_slots s ps) (\<lambda>qs. Inr (if x then p # qs else qs)))"

fun remove_alloca :: "nat list \<Rightarrow> 'z ir_scheme \<Rightarrow> 'z ir_scheme res" where
  "remove_alloca [] s = Inr s"
| "remove_alloca (b # bs) s =
     bnd (block_instrs s b) (\<lambda>ps. bnd (scalar_slots s ps) (\<lambda>del. bnd (erase_instrs b del s) (remove_alloca bs)))"

definition mem2reg_function :: "(val \<Rightarrow> nat) \<Rightarrow> dominators \<Rightarrow> nat \<Rightarrow> 'z mem2reg_scheme \<Rightarrow> 'z mem2reg_scheme res" where
  "mem2reg_function adr d f s =
     bnd (deref (funs s f)) (\<lambda>fn.
     bnd (case basic_blocks fn of
            [] \<Rightarrow> Inr s
          | b # bs \<Rightarrow> bnd (generate_phi adr d f s) (re_name (Suc (length bs)) adr d b)) (\<lambda>s.
     remove_alloca (basic_blocks fn) s))"

fun mem2reg_functions :: "(val \<Rightarrow> nat) \<Rightarrow> dominators \<Rightarrow> nat list \<Rightarrow> 'z mem2reg_scheme \<Rightarrow> 'z mem2reg_scheme res" where
  "mem2reg_functions adr d [] s = Inr s"
| "mem2reg_functions adr d (f # fs) s = bnd (mem2reg_function adr d f s) (mem2reg_functions adr d fs)"

definition Mem2Reg_run :: "(val \<Rightarrow> nat) \<Rightarrow> 'z mem2reg_scheme \<Rightarrow> 'z mem2reg_scheme res" where
  "Mem2Reg_run adr s = bnd (Dominators_run s new_dominators) (\<lambda>d. mem2reg_functions adr d (function_list s) s)"

text \<open>The pass on a module at the start of the program.\<close>

definition new_mem2reg :: "ir \<Rightarrow> mem2reg" where
  "new_mem2reg s = ir.extend s \<lparr>var_val_stack = Map.empty\<rparr>"

end
