(* ===== verification/Mem2Reg_Phis.thy ===== *)
theory Mem2Reg_Phis
  imports Mem2Reg
begin

text \<open>
  The first phase of the promotion: \<open>generate_phi\<close> returns and puts a phi for a variable exactly in
  front of the blocks of the iterated dominance frontier of its stores.
\<close>

section \<open>Sets ordered by address\<close>

lemma set_set_put [simp]: "set (set_put adr x xs) = insert x (set xs)"
  by (auto simp: set_put_def set_insort_key)

lemma distinct_set_put [simp]: "distinct (set_put adr x xs) \<longleftrightarrow> distinct xs"
  by (simp add: set_put_def distinct_insort)

lemma set_blocks_by_adr [simp]: "finite bs \<Longrightarrow> set (blocks_by_adr adr bs) = bs"
  by (simp add: blocks_by_adr_def)

lemma distinct_blocks_by_adr [simp]: "distinct (blocks_by_adr adr bs)"
  by (simp add: blocks_by_adr_def)

section \<open>The stored variables\<close>

definition instrs_of :: "'z ir_scheme \<Rightarrow> nat \<Rightarrow> nat list" where
  "instrs_of s b = (case blocks s b of None \<Rightarrow> [] | Some k \<Rightarrow> instr_list k)"

definition stored_in :: "'z ir_scheme \<Rightarrow> nat \<Rightarrow> val \<Rightarrow> nat set" where
  "stored_in s f v = {b \<in> set (fblocks s f). \<exists>p \<in> set (instrs_of s b). store_lval s p = Inr (Some v)}"

text \<open>The blocks of the function exist, their instructions exist, and a promoted variable that is
  stored is a pointer.\<close>

definition stores_ok :: "'z ir_scheme \<Rightarrow> nat \<Rightarrow> bool" where
  "stores_ok s f \<longleftrightarrow> (\<forall>b \<in> set (fblocks s f). blocks s b \<noteq> None \<and>
     (\<forall>p \<in> set (instrs_of s b). \<exists>l. store_lval s p = Inr l \<and> (\<forall>v. l = Some v \<longrightarrow> (\<exists>t. get_type s v = Inr (PtrTy t)))))"

definition defs_are :: "var_defs \<Rightarrow> (val \<times> nat) set \<Rightarrow> bool" where
  "defs_are r D \<longleftrightarrow> (case r of (vs, m) \<Rightarrow> distinct vs \<and> set vs = fst ` D \<and> (\<forall>v. distinct (m v) \<and> set (m v) = {b. (v, b) \<in> D}))"

lemma defs_are_put:
  "defs_are (vs, m) D \<Longrightarrow> defs_are (set_put adr l vs, m(l := set_put a b (m l))) (insert (l, b) D)"
  by (auto simp: defs_are_def)

lemma instr_defs_returns:
  assumes "\<forall>p \<in> set ps. \<exists>l. store_lval s p = Inr l" and "defs_are r D"
  shows "returns (instr_defs adr s b ps r) (\<lambda>r. defs_are r (D \<union> {(v, b) |v. \<exists>p \<in> set ps. store_lval s p = Inr (Some v)}))"
  using assms
proof (induction ps arbitrary: r D)
  case (Cons p ps)
  obtain vs m where r: "r = (vs, m)" by (cases r)
  obtain l where l: "store_lval s p = Inr l" using Cons.prems(1) by auto
  let ?r = "case l of None \<Rightarrow> (vs, m) | Some l \<Rightarrow> (set_put adr l vs, m(l := set_put (block_adr adr) b (m l)))"
  let ?D = "D \<union> {(v, b) |v. l = Some v}"
  have "defs_are ?r ?D"
    using Cons.prems(2) by (cases l) (simp_all add: r defs_are_put)
  then have "returns (instr_defs adr s b ps ?r) (\<lambda>r. defs_are r (?D \<union> {(v, b) |v. \<exists>p \<in> set ps. store_lval s p = Inr (Some v)}))"
    using Cons.prems(1) by (intro Cons.IH) auto
  moreover have "?D \<union> {(v, b) |v. \<exists>p \<in> set ps. store_lval s p = Inr (Some v)} =
      D \<union> {(v, b) |v. \<exists>q \<in> set (p # ps). store_lval s q = Inr (Some v)}"
    using l by auto
  ultimately show ?case by (simp add: r l)
qed simp

lemma block_defs_returns:
  assumes "\<forall>b \<in> set bs. blocks s b \<noteq> None \<and> (\<forall>p \<in> set (instrs_of s b). \<exists>l. store_lval s p = Inr l)" and "defs_are r D"
  shows "returns (block_defs adr s bs r)
    (\<lambda>r. defs_are r (D \<union> {(v, b) |v b. b \<in> set bs \<and> (\<exists>p \<in> set (instrs_of s b). store_lval s p = Inr (Some v))}))"
  using assms
proof (induction bs arbitrary: r D)
  case (Cons b bs)
  let ?N = "{(v, b) |v. \<exists>p \<in> set (instrs_of s b). store_lval s p = Inr (Some v)}"
  obtain k where k: "blocks s b = Some k" using Cons.prems(1) by auto
  have "\<forall>p \<in> set (instr_list k). \<exists>l. store_lval s p = Inr l" using Cons.prems(1) k by (simp add: instrs_of_def)
  from instr_defs_returns [OF this Cons.prems(2), of adr b]
  obtain r' where r': "instr_defs adr s b (instr_list k) r = Inr r'" "defs_are r' (D \<union> ?N)"
    by (auto simp: returns_def instrs_of_def k)
  have "returns (block_defs adr s bs r')
    (\<lambda>r. defs_are r (D \<union> ?N \<union> {(v, b) |v b. b \<in> set bs \<and> (\<exists>p \<in> set (instrs_of s b). store_lval s p = Inr (Some v))}))"
    by (rule Cons.IH) (use Cons.prems(1) r'(2) in auto)
  moreover have "D \<union> ?N \<union> {(v, b) |v b. b \<in> set bs \<and> (\<exists>p \<in> set (instrs_of s b). store_lval s p = Inr (Some v))} =
      D \<union> {(v, c) |v c. c \<in> set (b # bs) \<and> (\<exists>p \<in> set (instrs_of s c). store_lval s p = Inr (Some v))}"
    by auto
  ultimately show ?case by (simp add: block_instrs_def k r'(1))
qed simp

lemma stored_variables:
  assumes "stores_ok s f"
  shows "returns (block_defs adr s (fblocks s f) ([], \<lambda>_. []))
    (\<lambda>(vs, m). distinct vs \<and> set vs = {v. stored_in s f v \<noteq> {}} \<and> (\<forall>v. distinct (m v) \<and> set (m v) = stored_in s f v))"
proof -
  let ?D = "{(v, b) |v b. b \<in> set (fblocks s f) \<and> (\<exists>p \<in> set (instrs_of s b). store_lval s p = Inr (Some v))}"
  have D: "fst ` ?D = {v. stored_in s f v \<noteq> {}}" "{b. (v, b) \<in> ?D} = stored_in s f v" for v
    by (force simp: stored_in_def)+
  have "returns (block_defs adr s (fblocks s f) ([], \<lambda>_. [])) (\<lambda>r. defs_are r ({} \<union> ?D))"
  proof (rule block_defs_returns)
    show "\<forall>b \<in> set (fblocks s f). blocks s b \<noteq> None \<and> (\<forall>p \<in> set (instrs_of s b). \<exists>l. store_lval s p = Inr l)"
      using assms unfolding stores_ok_def by blast
  qed (simp add: defs_are_def)
  then show ?thesis by (rule returns_mono) (auto simp only: defs_are_def prod.case D Un_empty_left)
qed

section \<open>Adding phis\<close>

text \<open>The type of the slot that a pointer points to.\<close>

definition slot_type :: "'z ir_scheme \<Rightarrow> val \<Rightarrow> ty" where
  "slot_type s v = (case get_type s v of Inr (PtrTy t) \<Rightarrow> t | _ \<Rightarrow> VoidTy)"

text \<open>\<open>p\<close> is a new phi without operands in block \<open>b\<close> for the variable \<open>v\<close>.\<close>

definition fresh_phi :: "'z ir_scheme \<Rightarrow> 'z ir_scheme \<Rightarrow> nat \<Rightarrow> nat \<Rightarrow> val \<Rightarrow> bool" where
  "fresh_phi s s' b p v \<longleftrightarrow> next_id s \<le> p \<and> p < next_id s' \<and>
     instrs s' p = Some \<lparr>i_type = slot_type s v, i_op = Phi, i_parent = b, i_data = PhiData v, i_name = ''''\<rparr> \<and>
     operands s' (VInstr p) = [] \<and> num_ops s' (VInstr p) = 0"

text \<open>\<open>s'\<close> is \<open>s\<close> with phis for the pairs in \<open>H\<close> and no other change: every block gets its phis in
  front, one for each variable.\<close>

definition phis_added :: "'z ir_scheme \<Rightarrow> (nat \<times> val) set \<Rightarrow> 'z ir_scheme \<Rightarrow> bool" where
  "phis_added s H s' \<longleftrightarrow>
     s' = s\<lparr>operands := operands s', num_ops := num_ops s', next_id := next_id s', instrs := instrs s', blocks := blocks s'\<rparr> \<and>
     next_id s \<le> next_id s' \<and> (\<forall>p < next_id s. instrs s' p = instrs s p) \<and>
     (\<forall>u. (\<forall>p. u = VInstr p \<longrightarrow> p < next_id s) \<longrightarrow> operands s' u = operands s u \<and> num_ops s' u = num_ops s u) \<and>
     dom (blocks s') = dom (blocks s) \<and>
     (\<forall>b k. blocks s b = Some k \<longrightarrow> (\<exists>ps vs. blocks s' b = Some (k\<lparr>instr_list := ps @ instr_list k\<rparr>) \<and>
        distinct vs \<and> set vs = {v. (b, v) \<in> H} \<and> list_all2 (fresh_phi s s' b) ps vs))"

text \<open>Every object is numbered below \<open>next_id\<close>.\<close>

definition ids_below :: "'z ir_scheme \<Rightarrow> bool" where
  "ids_below s \<longleftrightarrow> (\<forall>p ins. instrs s p = Some ins \<longrightarrow> p < next_id s)"

lemma phis_added_refl: "phis_added s {} s"
  unfolding phis_added_def by (auto intro!: exI [of _ "[]"])

lemma phis_added_fields:
  assumes "phis_added s H s'"
  shows "use_list s' = use_list s" "funs s' = funs s" "gvars s' = gvars s" "function_list s' = function_list s"
    "next_id s \<le> next_id s'" "p < next_id s \<Longrightarrow> instrs s' p = instrs s p" "dom (blocks s') = dom (blocks s)"
proof -
  have eq: "s' = s\<lparr>operands := operands s', num_ops := num_ops s', next_id := next_id s', instrs := instrs s', blocks := blocks s'\<rparr>"
    using assms by (simp add: phis_added_def)
  show "use_list s' = use_list s" "funs s' = funs s" "gvars s' = gvars s" "function_list s' = function_list s"
    by (subst eq, simp)+
qed (use assms in \<open>auto simp: phis_added_def\<close>)

lemma get_type_extends:
  assumes "get_type s v = Inr t" "phis_added s H s'" "ids_below s"
  shows "get_type s' v = Inr t"
proof (cases v)
  case (VInstr p)
  then obtain ins where "instrs s p = Some ins" "i_type ins = t" using assms(1) by auto
  then show ?thesis using VInstr assms(2,3) by (simp add: ids_below_def phis_added_fields(6))
next
  case (VBB b)
  then have "b \<in> dom (blocks s)" "t = LabelTy" using assms(1) by auto
  then have "b \<in> dom (blocks s')" using phis_added_fields(7) [OF assms(2)] by simp
  then show ?thesis using VBB \<open>t = LabelTy\<close> by auto
qed (use assms phis_added_fields(2,3) [OF assms(2)] in auto)

lemma fresh_phi_later:
  assumes "fresh_phi s t b q w" and "next_id t \<le> next_id t'" and "instrs t' q = instrs t q"
    and "operands t' (VInstr q) = operands t (VInstr q)" "num_ops t' (VInstr q) = num_ops t (VInstr q)"
  shows "fresh_phi s t' b q w"
  using assms by (simp add: fresh_phi_def)

lemma insert_phi_added:
  assumes t: "phis_added s H t" and new: "(c, v) \<notin> H" and c: "blocks s c \<noteq> None"
    and ty: "get_type s v = Inr (PtrTy e)" and below: "ids_below s"
  shows "returns (insert_phi v c t) (phis_added s (insert (c, v) H))"
proof -
  let ?p = "next_id t"
  let ?i = "\<lparr>i_type = e, i_op = Phi, i_parent = c, i_data = PhiData v, i_name = ''''\<rparr>"
  obtain k where k: "blocks s c = Some k" using c by auto
  have blk: "\<exists>ps vs. blocks t b = Some (l\<lparr>instr_list := ps @ instr_list l\<rparr>) \<and> distinct vs \<and> set vs = {v. (b, v) \<in> H} \<and> list_all2 (fresh_phi s t b) ps vs"
    if "blocks s b = Some l" for b l
    using t that by (simp add: phis_added_def)
  obtain ps vs where ps: "blocks t c = Some (k\<lparr>instr_list := ps @ instr_list k\<rparr>)" "distinct vs" "set vs = {v. (c, v) \<in> H}"
    "list_all2 (fresh_phi s t c) ps vs" using blk [OF k] by blast
  define t' where "t' = t\<lparr>next_id := Suc ?p, instrs := (instrs t)(?p \<mapsto> ?i), operands := (operands t)(VInstr ?p := []),
      num_ops := (num_ops t)(VInstr ?p := 0), blocks := (blocks t)(c \<mapsto> k\<lparr>instr_list := ?p # ps @ instr_list k\<rparr>)\<rparr>"
  have run: "insert_phi v c t = Inr t'"
    using get_type_extends [OF ty t below] ps(1)
    by (simp add: insert_phi_def create_phi_def set_lval_def add_instr_begin_def modify_block_def new_user_def Let_def t'_def)
  have lt: "next_id s \<le> ?p" by (rule phis_added_fields(5) [OF t])
  have later: "fresh_phi s t' b q w" if "fresh_phi s t b q w" for b q w
    using that by (rule fresh_phi_later) (use that in \<open>auto simp: t'_def fresh_phi_def\<close>)
  have all: "list_all2 (fresh_phi s t' b) qs ws" if "list_all2 (fresh_phi s t b) qs ws" for b qs ws
    using that by (rule list_all2_mono) (rule later)
  have "slot_type s v = e" by (simp add: slot_type_def ty)
  then have here: "fresh_phi s t' c ?p v" using lt by (simp add: fresh_phi_def t'_def)
  have "phis_added s (insert (c, v) H) t'"
    unfolding phis_added_def
  proof (intro conjI allI impI)
    have eq: "t = s\<lparr>operands := operands t, num_ops := num_ops t, next_id := next_id t, instrs := instrs t, blocks := blocks t\<rparr>"
      using t by (simp add: phis_added_def)
    show "t' = s\<lparr>operands := operands t', num_ops := num_ops t', next_id := next_id t', instrs := instrs t', blocks := blocks t'\<rparr>"
      unfolding t'_def by (subst (1) eq) simp
    show "next_id s \<le> next_id t'" using lt by (simp add: t'_def)
    show "instrs t' p = instrs s p" if "p < next_id s" for p
      using that lt phis_added_fields(6) [OF t that] by (simp add: t'_def)
    show "operands t' u = operands s u" "num_ops t' u = num_ops s u" if "\<forall>p. u = VInstr p \<longrightarrow> p < next_id s" for u
      using that t lt by (auto simp: t'_def phis_added_def)
    show "dom (blocks t') = dom (blocks s)" using phis_added_fields(7) [OF t] k by (auto simp: t'_def)
    show "\<exists>ps vs. blocks t' b = Some (l\<lparr>instr_list := ps @ instr_list l\<rparr>) \<and> distinct vs \<and>
        set vs = {w. (b, w) \<in> insert (c, v) H} \<and> list_all2 (fresh_phi s t' b) ps vs" if l: "blocks s b = Some l" for b l
    proof (cases "b = c")
      case True
      have "set (v # vs) = {w. (b, w) \<in> insert (c, v) H}" using ps(3) True by auto
      moreover have "distinct (v # vs)" using ps(2,3) new by simp
      moreover have "list_all2 (fresh_phi s t' b) (?p # ps) (v # vs)" using all [OF ps(4)] here True by simp
      moreover have "blocks t' b = Some (l\<lparr>instr_list := (?p # ps) @ instr_list l\<rparr>)" using True k l by (simp add: t'_def)
      ultimately show ?thesis by blast
    next
      case False
      obtain qs ws where q: "blocks t b = Some (l\<lparr>instr_list := qs @ instr_list l\<rparr>)" "distinct ws" "set ws = {v. (b, v) \<in> H}"
        "list_all2 (fresh_phi s t b) qs ws" using blk [OF l] by blast
      have "set ws = {w. (b, w) \<in> insert (c, v) H}" using q(3) False by auto
      moreover have "blocks t' b = Some (l\<lparr>instr_list := qs @ instr_list l\<rparr>)" using False q(1) by (simp add: t'_def)
      ultimately show ?thesis using q(2) all [OF q(4)] by blast
    qed
  qed
  then show ?thesis by (simp add: run)
qed

section \<open>The work list\<close>

text \<open>The iterated dominance frontier of a set of blocks.\<close>

inductive_set iterated :: "(nat \<Rightarrow> nat set) \<Rightarrow> nat set \<Rightarrow> nat set" for DF D where
  first: "b \<in> D \<Longrightarrow> c \<in> DF b \<Longrightarrow> c \<in> iterated DF D"
| further: "b \<in> iterated DF D \<Longrightarrow> c \<in> DF b \<Longrightarrow> c \<in> iterated DF D"

lemma iterated_least:
  assumes "\<And>b. b \<in> D \<union> H \<Longrightarrow> DF b \<subseteq> H"
  shows "iterated DF D \<subseteq> H"
proof
  fix c assume "c \<in> iterated DF D"
  then show "c \<in> H" by induction (use assms in blast)+
qed

lemma phi_frontier_added:
  assumes "phis_added s H t" and "\<forall>c \<in> set cs. blocks s c \<noteq> None" and "get_type s v = Inr (PtrTy e)" and "ids_below s"
  shows "returns (phi_frontier v cs H t) (\<lambda>(new, H', t'). phis_added s H' t' \<and>
    H' = H \<union> (\<lambda>c. (c, v)) ` set cs \<and> distinct new \<and> set new = {c \<in> set cs. (c, v) \<notin> H})"
  using assms(1,2)
proof (induction cs arbitrary: H t)
  case (Cons c cs)
  show ?case
  proof (cases "(c, v) \<in> H")
    case True
    have "returns (phi_frontier v cs H t) (\<lambda>(new, H', t'). phis_added s H' t' \<and>
      H' = H \<union> (\<lambda>c. (c, v)) ` set cs \<and> distinct new \<and> set new = {c \<in> set cs. (c, v) \<notin> H})"
      using Cons.prems(2) by (intro Cons.IH [OF Cons.prems(1)]) simp
    then show ?thesis using True by (auto elim!: returns_mono)
  next
    case False
    have "blocks s c \<noteq> None" using Cons.prems(2) by simp
    from insert_phi_added [OF Cons.prems(1) False this assms(3,4)] obtain t1 where
      t1: "insert_phi v c t = Inr t1" "phis_added s (insert (c, v) H) t1" by (auto simp: returns_def)
    have "returns (phi_frontier v cs (insert (c, v) H) t1) (\<lambda>(new, H', t'). phis_added s H' t' \<and>
      H' = insert (c, v) H \<union> (\<lambda>c. (c, v)) ` set cs \<and> distinct new \<and> set new = {d \<in> set cs. (d, v) \<notin> insert (c, v) H})"
      using Cons.prems(2) by (intro Cons.IH [OF t1(2)]) simp
    then obtain new H' t' where r: "phi_frontier v cs (insert (c, v) H) t1 = Inr (new, H', t')" "phis_added s H' t'"
      "H' = insert (c, v) H \<union> (\<lambda>c. (c, v)) ` set cs" "distinct new" "set new = {d \<in> set cs. (d, v) \<notin> insert (c, v) H}"
      by (auto simp: returns_def)
    have "set (c # new) = {d \<in> set (c # cs). (d, v) \<notin> H}" "distinct (c # new)" using r(4,5) False by auto
    then show ?thesis using False t1(1) r(1,2,3) by simp
  qed
qed simp

definition frontier :: "dominators \<Rightarrow> nat \<Rightarrow> nat set" where
  "frontier d b = dom_frontier d (Some b)"

text \<open>The state of the work list of \<open>v\<close>: the blocks \<open>P\<close> are done, \<open>wl\<close> is left.\<close>

definition work_inv :: "dominators \<Rightarrow> nat set \<Rightarrow> nat set \<Rightarrow> nat set \<Rightarrow> nat list \<Rightarrow> nat set \<Rightarrow> bool" where
  "work_inv d B D P wl H \<longleftrightarrow> set wl \<subseteq> B \<and> H \<subseteq> B \<and> D \<union> H \<subseteq> set wl \<union> P \<and> (\<forall>b \<in> P. frontier d b \<subseteq> H) \<and>
     set wl \<subseteq> D \<union> iterated (frontier d) D \<and> H \<subseteq> iterated (frontier d) D"

lemma work_inv_step:
  assumes "work_inv d B D P (b # wl) H" and "frontier d b \<subseteq> B" and "set new = frontier d b - H"
  shows "work_inv d B D (insert b P) (wl @ new) (H \<union> frontier d b)"
proof -
  have "frontier d b \<subseteq> iterated (frontier d) D"
    using assms(1) by (auto simp: work_inv_def intro: iterated.intros)
  then show ?thesis using assms by (auto simp: work_inv_def)
qed

lemma phi_work_added:
  assumes B: "finite B" "\<forall>b \<in> B. frontier d b \<subseteq> B" "\<forall>b \<in> B. blocks s b \<noteq> None"
    and ty: "get_type s v = Inr (PtrTy e)" and below: "ids_below s"
    and t: "phis_added s H t" and inv: "work_inv d B D P wl {c. (c, v) \<in> H}"
    and n: "length wl + card (B - {c. (c, v) \<in> H}) \<le> n"
  shows "returns (phi_work n adr d v wl H t) (\<lambda>(H', t'). phis_added s H' t' \<and> H' = H \<union> (\<lambda>c. (c, v)) ` iterated (frontier d) D)"
  using t inv n
proof (induction n arbitrary: wl H t P)
  case (0 wl H t P)
  then have "wl = []" by simp
  moreover have "iterated (frontier d) D \<subseteq> {c. (c, v) \<in> H}"
    using 0(2) \<open>wl = []\<close> by (intro iterated_least) (auto simp: work_inv_def)
  ultimately show ?case using 0(1) by (auto simp: Un_absorb2 image_subset_iff)
next
  case (Suc n wl H t P)
  show ?case
  proof (cases wl)
    case Nil
    have "iterated (frontier d) D \<subseteq> {c. (c, v) \<in> H}"
      using Suc.prems(2) Nil by (intro iterated_least) (auto simp: work_inv_def)
    then show ?thesis using Suc.prems(1) Nil by (auto simp: Un_absorb2 image_subset_iff)
  next
    case (Cons b wl')
    let ?H = "{c. (c, v) \<in> H}"
    have b: "b \<in> B" using Suc.prems(2) Cons by (simp add: work_inv_def)
    then have sub: "frontier d b \<subseteq> B" using B(2) by blast
    then have fin: "finite (frontier d b)" using B(1) finite_subset by blast
    let ?cs = "blocks_by_adr adr (dom_frontier d (Some b))"
    have cs: "set ?cs = frontier d b" using fin by (simp add: frontier_def)
    have "\<forall>c \<in> set ?cs. blocks s c \<noteq> None" using cs sub B(3) by auto
    from phi_frontier_added [OF Suc.prems(1) this ty below]
    obtain new H1 t1 where r: "phi_frontier v ?cs H t = Inr (new, H1, t1)" "phis_added s H1 t1"
      "H1 = H \<union> (\<lambda>c. (c, v)) ` frontier d b" "distinct new" "set new = {c \<in> frontier d b. (c, v) \<notin> H}"
      unfolding cs by (auto simp: returns_def)
    have H1: "{c. (c, v) \<in> H1} = ?H \<union> frontier d b" using r(3) by auto
    have new: "set new = frontier d b - ?H" using r(5) by auto
    have inv1: "work_inv d B D (insert b P) (wl' @ new) {c. (c, v) \<in> H1}"
      unfolding H1 using work_inv_step [OF _ sub new] Suc.prems(2) Cons by simp
    have "length new = card (frontier d b - ?H)" using distinct_card [OF r(4)] new by simp
    moreover have "B - ?H = (B - (?H \<union> frontier d b)) \<union> (frontier d b - ?H)" using sub by auto
    then have "card (B - ?H) = card (B - (?H \<union> frontier d b)) + card (frontier d b - ?H)"
      using B(1) fin by (subst card_Un_disjoint [symmetric]) auto
    ultimately have "length (wl' @ new) + card (B - {c. (c, v) \<in> H1}) \<le> n"
      unfolding H1 using Suc.prems(3) Cons by simp
    from Suc.IH [OF r(2) inv1 this]
    have "returns (phi_work n adr d v (wl' @ new) H1 t1) (\<lambda>(H', t'). phis_added s H' t' \<and> H' = H1 \<union> (\<lambda>c. (c, v)) ` iterated (frontier d) D)" .
    moreover have "frontier d b \<subseteq> iterated (frontier d) D"
      using inv1 unfolding work_inv_def H1 by blast
    then have "H1 \<union> (\<lambda>c. (c, v)) ` iterated (frontier d) D = H \<union> (\<lambda>c. (c, v)) ` iterated (frontier d) D" using r(3) by auto
    ultimately show ?thesis by (simp add: Cons r(1))
  qed
qed

lemma phi_vars_added:
  assumes B: "finite B" "\<forall>b \<in> B. frontier d b \<subseteq> B" "\<forall>b \<in> B. blocks s b \<noteq> None" and below: "ids_below s"
    and vs: "\<forall>v \<in> set vs. (\<exists>e. get_type s v = Inr (PtrTy e)) \<and> set (m v) \<subseteq> B \<and> length (m v) + card B \<le> n"
    and t: "phis_added s H t" and "distinct vs" and "\<forall>c v. (c, v) \<in> H \<longrightarrow> v \<notin> set vs"
  shows "returns (phi_vars n adr d m vs H t)
    (phis_added s (H \<union> {(c, v). v \<in> set vs \<and> c \<in> iterated (frontier d) (set (m v))}))"
  using vs t assms(7-)
proof (induction vs arbitrary: H t)
  case (Cons v vs)
  obtain e where e: "get_type s v = Inr (PtrTy e)" and mv: "set (m v) \<subseteq> B" "length (m v) + card B \<le> n"
    using Cons.prems(1) by auto
  have none: "{c. (c, v) \<in> H} = {}" using Cons.prems(4) by auto
  have "work_inv d B (set (m v)) {} (m v) {c. (c, v) \<in> H}" using mv(1) by (simp add: none work_inv_def)
  from phi_work_added [OF B e below Cons.prems(2) this, of n adr] mv(2)
  obtain t1 where t1: "phi_work n adr d v (m v) H t = Inr (H \<union> (\<lambda>c. (c, v)) ` iterated (frontier d) (set (m v)), t1)"
    "phis_added s (H \<union> (\<lambda>c. (c, v)) ` iterated (frontier d) (set (m v))) t1"
    by (auto simp: none returns_def)
  let ?H = "H \<union> (\<lambda>c. (c, v)) ` iterated (frontier d) (set (m v))"
  have "returns (phi_vars n adr d m vs ?H t1) (phis_added s (?H \<union> {(c, v). v \<in> set vs \<and> c \<in> iterated (frontier d) (set (m v))}))"
    by (rule Cons.IH [OF _ t1(2)]) (use Cons.prems in auto)
  moreover have "?H \<union> {(c, v). v \<in> set vs \<and> c \<in> iterated (frontier d) (set (m v))} =
      H \<union> {(c, w). w \<in> set (v # vs) \<and> c \<in> iterated (frontier d) (set (m w))}" by auto
  ultimately show ?case by (simp add: t1(1))
qed simp

section \<open>The result\<close>

lemma iterated_empty: "iterated DF {} = {}"
  using iterated_least [of "{}" "{}" DF] by simp

text \<open>C38: on a function whose dominance frontiers stay inside it, \<open>generate_phi\<close> returns, and the only
  change is that every block gets, in front, one empty phi for each stored variable in whose
  iterated dominance frontier it lies.\<close>

theorem generate_phi_spec:
  assumes ok: "stores_ok s f" and below: "ids_below s" and df: "\<forall>b \<in> set (fblocks s f). frontier d b \<subseteq> set (fblocks s f)"
  shows "returns (generate_phi adr d f s) (phis_added s {(b, v). b \<in> iterated (frontier d) (stored_in s f v)})"
proof -
  let ?B = "set (fblocks s f)"
  obtain vs m where r: "block_defs adr s (fblocks s f) ([], \<lambda>_. []) = Inr (vs, m)" "distinct vs" "set vs = {v. stored_in s f v \<noteq> {}}"
    "\<And>v. distinct (m v)" "\<And>v. set (m v) = stored_in s f v"
    using stored_variables [OF ok, of adr] by (auto simp: returns_def)
  have "(\<exists>e. get_type s v = Inr (PtrTy e)) \<and> set (m v) \<subseteq> ?B \<and> length (m v) + card ?B \<le> 2 * length (fblocks s f)"
    if v: "v \<in> set vs" for v
  proof (intro conjI)
    obtain b p where bp: "b \<in> ?B" "p \<in> set (instrs_of s b)" "store_lval s p = Inr (Some v)"
      using v r(3) by (auto simp: stored_in_def)
    then show "\<exists>e. get_type s v = Inr (PtrTy e)" using ok unfolding stores_ok_def by fastforce
    show sub: "set (m v) \<subseteq> ?B" by (auto simp: r(5) stored_in_def)
    have "length (m v) \<le> card ?B" using distinct_card [OF r(4)] card_mono [OF _ sub] by simp
    then show "length (m v) + card ?B \<le> 2 * length (fblocks s f)" using card_length [of "fblocks s f"] by linarith
  qed
  then have "returns (phi_vars (2 * length (fblocks s f)) adr d m vs {} s)
      (phis_added s ({} \<union> {(c, v). v \<in> set vs \<and> c \<in> iterated (frontier d) (set (m v))}))"
    using ok by (intro phi_vars_added [OF _ df _ below _ phis_added_refl r(2)]) (auto simp: stores_ok_def)
  moreover have "{} \<union> {(c, v). v \<in> set vs \<and> c \<in> iterated (frontier d) (set (m v))} =
      {(b, v). b \<in> iterated (frontier d) (stored_in s f v)}"
    by (auto simp: r(3,5)) (auto simp: iterated_empty)
  ultimately show ?thesis by (simp add: generate_phi_def r(1))
qed

section \<open>An example\<close>

text \<open>A function with one integer parameter \<open>a\<close> (kept in its register) and the body
  \<open>int x; int y; if (a) x = 1; else y = 2; return 0;\<close>: the slots 10 and 11 of \<open>x\<close> and \<open>y\<close>, the
  comparison 18 of \<open>a\<close> with zero, the branches 2 and 3, the join 4.\<close>

definition two_branches_ops :: "(val \<times> val list) list" where
  "two_branches_ops = [(VInstr 18, [VArg 0 0, VConst (CInt 0)]), (VInstr 12, [VInstr 18, VBB 2, VBB 3]), (VInstr 13, [VConst (CInt 1), VInstr 10]), (VInstr 14, [VBB 4]),
     (VInstr 15, [VConst (CInt 2), VInstr 11]), (VInstr 16, [VBB 4]), (VInstr 17, [VConst (CInt 0)])]"

definition two_branches :: ir where
  "two_branches = \<lparr>
     operands = listed_operands two_branches_ops, num_ops = (\<lambda>u. length (listed_operands two_branches_ops u)),
     use_list = listed_uses two_branches_ops, fp_count = 0, cached_float = [], next_id = 20,
     instrs = map_of (map (\<lambda>(x, opc, b, d, t). (x, \<lparr>i_type = t, i_op = opc, i_parent = b, i_data = d, i_name = ''''\<rparr>))
       [(10, Alloca, 1, AllocaData (IntTy 32), PtrTy (IntTy 32)), (11, Alloca, 1, AllocaData (IntTy 32), PtrTy (IntTy 32)),
        (18, Cmp, 1, CmpData NE, IntTy 1), (12, Br, 1, NoData, VoidTy), (13, Store, 2, NoData, VoidTy), (14, Br, 2, NoData, VoidTy),
        (15, Store, 3, NoData, VoidTy), (16, Br, 3, NoData, VoidTy), (17, Ret, 4, NoData, VoidTy)]),
     blocks = map_of (map (\<lambda>(b, ps, ss, xs). (b, \<lparr>bb_name = '''', bb_parent = 0, pre_bbs = ps, succ_bbs = ss, instr_list = xs\<rparr>))
       [(1, [], [3, 2], [10, 11, 18, 12]), (2, [1], [4], [13, 14]), (3, [1], [4], [15, 16]), (4, [2, 3], [], [17])]),
     funs = [0 \<mapsto> \<lparr>f_name = ''f'', f_type = FunTy (IntTy 32) [IntTy 32], basic_blocks = [1, 2, 3, 4], arg_names = [''''], seq_cnt = 0\<rparr>],
     gvars = Map.empty, global_list = [], function_list = [0]\<rparr>"

lemma two_branches_ok: "use_def_ok two_branches"
  by (rule listed_ok [where ops = two_branches_ops]) (auto simp: two_branches_def two_branches_ops_def)

definition growing :: "val \<Rightarrow> nat" where
  "growing v = (case v of VInstr p \<Rightarrow> p | VBB b \<Rightarrow> b | _ \<Rightarrow> 0)"

definition two_branches_doms :: dominators where
  "two_branches_doms = new_dominators\<lparr>dom_frontier := (\<lambda>k. if k = Some 2 \<or> k = Some 3 then {4} else {}),
     dom_tree_succ_blocks := (\<lambda>k. if k = Some 1 then {2, 3, 4} else {})\<rparr>"

lemma iterated_two_branches:
  assumes "D \<subseteq> {2, 3}"
  shows "iterated (frontier two_branches_doms) D = (if D = {} then {} else {4})"
proof -
  have "iterated (frontier two_branches_doms) D \<subseteq> {4}"
    using assms by (intro iterated_least) (auto simp: frontier_def two_branches_doms_def)
  moreover have "4 \<in> iterated (frontier two_branches_doms) D" if "b \<in> D" for b
    by (rule iterated.first [OF that]) (use assms that in \<open>auto simp: frontier_def two_branches_doms_def\<close>)
  ultimately show ?thesis by (auto simp: iterated_empty)
qed

text \<open>The join gets one phi for each of the two variables.\<close>

theorem generate_phi_spec_witness:
  "\<exists>s' p q v w. generate_phi growing two_branches_doms 0 two_branches = Inr s' \<and>
     map_option instr_list (blocks s' 4) = Some [p, q, 17] \<and> {v, w} = {VInstr 10, VInstr 11} \<and>
     fresh_phi two_branches s' 4 p v \<and> fresh_phi two_branches s' 4 q w"
proof -
  have fb: "fblocks two_branches 0 = [1, 2, 3, 4]" by (simp add: fblocks_def two_branches_def)
  have lv: "store_lval two_branches p = Inr (if p = 13 then Some (VInstr 10) else if p = 15 then Some (VInstr 11) else None)"
    if "p \<in> {10, 11, 18, 12, 13, 14, 15, 16, 17}" for p
    using that by (auto simp: store_lval_def promoted_operand_def promoted_def get_operand_def two_branches_def listed_operands_def two_branches_ops_def)
  have io: "instrs_of two_branches b = (if b = 1 then [10, 11, 18, 12] else if b = 2 then [13, 14] else if b = 3 then [15, 16] else if b = 4 then [17] else [])" for b
    by (simp add: instrs_of_def two_branches_def)
  have ty: "get_type two_branches (VInstr 10) = Inr (PtrTy (IntTy 32))" "get_type two_branches (VInstr 11) = Inr (PtrTy (IntTy 32))"
    by (simp_all add: two_branches_def)
  have "stores_ok two_branches 0"
    unfolding stores_ok_def fb by (simp add: io lv ty) (simp add: two_branches_def)
  moreover have "ids_below two_branches"
    by (auto simp: ids_below_def two_branches_def split: if_splits)
  moreover have "\<forall>b \<in> set (fblocks two_branches 0). frontier two_branches_doms b \<subseteq> set (fblocks two_branches 0)"
    by (auto simp: fb frontier_def two_branches_doms_def)
  ultimately obtain s' where s': "generate_phi growing two_branches_doms 0 two_branches = Inr s'"
    "phis_added two_branches {(b, v). b \<in> iterated (frontier two_branches_doms) (stored_in two_branches 0 v)} s'"
    using generate_phi_spec [of two_branches 0 two_branches_doms growing] by (auto simp: returns_def)
  have st: "stored_in two_branches 0 v = (if v = VInstr 10 then {2} else if v = VInstr 11 then {3} else {})" for v
    unfolding stored_in_def fb by (auto simp: io lv)
  obtain k where k: "blocks two_branches 4 = Some k" "instr_list k = [17]" by (simp add: two_branches_def)
  from s'(2) k obtain ps vs where ps: "blocks s' 4 = Some (k\<lparr>instr_list := ps @ [17]\<rparr>)" "distinct vs"
    "set vs = {v. 4 \<in> iterated (frontier two_branches_doms) (stored_in two_branches 0 v)}" "list_all2 (fresh_phi two_branches s' 4) ps vs"
    by (force simp: phis_added_def)
  have vs: "set vs = {VInstr 10, VInstr 11}" using ps(3) by (auto simp: st iterated_two_branches split: if_splits)
  then have "length vs = 2" using distinct_card [OF ps(2)] by simp
  then obtain v w where vw: "vs = [v, w]" by (metis (no_types) One_nat_def Suc_1 length_0_conv length_Suc_conv)
  then obtain p q where pq: "ps = [p, q]" "fresh_phi two_branches s' 4 p v" "fresh_phi two_branches s' 4 q w"
    using ps(4) by (auto simp: list_all2_Cons2)
  show ?thesis using s'(1) ps(1) vs vw pq by auto
qed

end
