(* ===== verification/Mem2Reg_Faults.thy ===== *)
theory Mem2Reg_Faults
  imports Mem2Reg_Phis
begin

text \<open>
  Where the promotion goes wrong: a variable that is assigned in one branch only, and a variable that
  is read before it is assigned.
\<close>

section \<open>Assignments in two branches\<close>

definition fault_of :: "'a res \<Rightarrow> fault option" where
  "fault_of r = (case r of Inl e \<Rightarrow> Some e | Inr x \<Rightarrow> None)"

lemma two_branches_fails: "fault_of (Mem2Reg_run growing (new_mem2reg two_branches)) = Some AssertFail"
  by code_simp

section \<open>A variable that is read first\<close>

text \<open>The module of \<open>int x; return x;\<close>: the slot 10, its load 11.\<close>

definition read_first_ops :: "(val \<times> val list) list" where
  "read_first_ops = [(VInstr 11, [VInstr 10]), (VInstr 12, [VInstr 11])]"

definition read_first :: ir where
  "read_first = \<lparr>
     operands = listed_operands read_first_ops, num_ops = (\<lambda>u. length (listed_operands read_first_ops u)),
     use_list = listed_uses read_first_ops, fp_count = 0, cached_float = [], next_id = 20,
     instrs = map_of (map (\<lambda>(x, opc, d, t). (x, \<lparr>i_type = t, i_op = opc, i_parent = 1, i_data = d, i_name = ''''\<rparr>))
       [(10, Alloca, AllocaData (IntTy 32), PtrTy (IntTy 32)), (11, Load, NoData, IntTy 32), (12, Ret, NoData, VoidTy)]),
     blocks = [1 \<mapsto> \<lparr>bb_name = '''', bb_parent = 0, pre_bbs = [], succ_bbs = [], instr_list = [10, 11, 12]\<rparr>],
     funs = [0 \<mapsto> \<lparr>f_name = ''main'', f_type = FunTy (IntTy 32) [], basic_blocks = [1], arg_names = [], seq_cnt = 0\<rparr>],
     gvars = Map.empty, global_list = [], function_list = [0]\<rparr>"

lemma read_first_ok: "use_def_ok read_first"
  by (rule listed_ok [where ops = read_first_ops]) (auto simp: read_first_def read_first_ops_def)

definition dangling :: "'z ir_scheme res \<Rightarrow> nat \<Rightarrow> nat \<Rightarrow> bool" where
  "dangling r p q \<longleftrightarrow> (case r of
     Inr s \<Rightarrow> (case blocks s 1 of Some k \<Rightarrow> p \<in> set (instr_list k) | None \<Rightarrow> False) \<and> operands s (VInstr p) = [VInstr q] \<and>
       instrs s q = None \<and> fault_of (print_instr s p) = Some NullDeref
   | Inl e \<Rightarrow> False)"

lemma read_first_dangles: "dangling (Mem2Reg_run growing (new_mem2reg read_first)) 11 10"
  by code_simp

text \<open>The promotion stops with its assertion on a function that assigns one variable in
  each branch of a conditional (the stack that the first branch has left empty is found for the phi
  at the join), and on a program that reads a variable before it is assigned it deletes the slot
  and keeps the load of it, so that printing the module follows a dangling pointer.\<close>

lemma promotion_faults:
  "Mem2Reg_run growing (new_mem2reg two_branches) = Inl AssertFail \<and>
   returns (Mem2Reg_run growing (new_mem2reg read_first)) (\<lambda>s. \<exists>k. blocks s 1 = Some k \<and> 11 \<in> set (instr_list k) \<and>
     operands s (VInstr 11) = [VInstr 10] \<and> instrs s 10 = None \<and> print_instr s 11 = Inl NullDeref)"
proof
  show "Mem2Reg_run growing (new_mem2reg two_branches) = Inl AssertFail"
    using two_branches_fails by (auto simp: fault_of_def split: sum.splits)
qed (use read_first_dangles in \<open>auto simp: dangling_def fault_of_def returns_def split: sum.splits option.splits\<close>)

end
