(* ===== verification/Spec2Isabelle.thy ===== *)
theory Spec2Isabelle
  imports Optimised_Program Ast_Unparse IR_Names IR_Literals GVN_Phis Mem2Reg_Faults
begin

text \<open>
  A model of the Cminus-f compiler and of what makes it correct.

  The compiler (\<open>src/src\<close>, \<open>src/include\<close>) reads a program, builds the concrete syntax tree
  (\<open>common/syntax_tree.c\<close>, driven by the generated parser of \<open>parser/\<close>), turns it into the
  abstract syntax (\<open>common/ast.cpp\<close>), generates the intermediate representation with a visitor
  (\<open>cminusfc/cminusf_builder.cpp\<close> on the classes of \<open>lightir/\<close>), runs passes over the module
  (\<open>optimization/\<close>) and prints it. Every stage is a group of theories here.

  \<^bold>\<open>Faults.\<close> A step of the compiler is a function to \<open>'a res\<close>, a fault or a result
  (\<open>Prelude\<close>): failed assertions, null and dangling pointers, wrong casts, indices past the end,
  \<open>abort\<close> and exceptions are the faults, so every error path is a branch of the model. Loops
  and recursions whose end is not evident take fuel and stop with \<open>NoReturn\<close>; where the code
  returns, a theorem says so and names the fuel that is enough.

  \<^bold>\<open>Objects.\<close> Objects on the heap are numbered; the maps of the record \<open>ir\<close> hold the live ones,
  and a number is never used twice. A \<open>Value*\<close> is a \<open>val\<close>. Types and constants that the source
  makes unique are plain data; that its tables really make address comparison the same as equality
  is proved separately (\<open>IR_Types.type_identity\<close>, \<open>Constants.constant_identity\<close>).

  \<^bold>\<open>Theories.\<close>
  \<^item> \<open>Prelude\<close>: faults, sequencing, decimal printing. \<open>Hash_Cons\<close>: the locale of interning
    tables, interpreted for types and constants.
  \<^item> \<open>IR_Types\<close> (\<open>Type.h\<close>, \<open>Type.cpp\<close>, \<open>Module.cpp\<close>), \<open>Users\<close> (\<open>Value.cpp\<close>, \<open>User.cpp\<close>: operands
    and use lists, with the exactness invariant \<open>use_def_ok\<close>), \<open>Float32\<close> and \<open>Constants\<close>
    (\<open>Constant.cpp\<close>; floats as 32-bit patterns), \<open>IR_Module\<close> (instructions, blocks, functions,
    global variables: one definition per constructor or operation).
  \<^item> \<open>IR_Invariants\<close>: well-formedness \<open>ir_ok\<close> of a module and its preservation by every constructor;
    \<open>IR_Typing\<close>: the typing rules of the instructions.
  \<^item> \<open>Ast\<close>, \<open>Scope\<close>, \<open>Codegen\<close>: the abstract syntax, the symbol table (a locale of balanced
    environments, interpreted) and the visitor, one definition per \<open>visit\<close> method.
    \<open>Builder_Effects\<close> and \<open>Codegen_Blocks\<close> hold the interface of visitor and builder (locales
    interpreted for the control flow, the frame and the flag of the visitor), \<open>Codegen_Correct\<close>
    its well-formedness results; \<open>Cminus_Types\<close> is the static semantics as a specification, and
    \<open>Codegen_Steps\<close>, \<open>Codegen_Types\<close> show that the visitor refines it.
  \<^item> \<open>Syntax_Tree\<close>, \<open>Ast_Transform\<close>, \<open>Ast_Grammar\<close>, \<open>Ast_Unparse\<close>: concrete syntax trees, the
    construction of the abstract syntax on all trees of the grammar, and the round trip.
  \<^item> \<open>IR_Print\<close>, \<open>IR_Names\<close>, \<open>IR_Literals\<close>: naming and printing of a module.
  \<^item> \<open>Runtime\<close> (values, memory, conversions, \<open>io/io.c\<close>), \<open>Cminus_Semantics\<close> (an interpreter of the
    abstract syntax, for both orders of an assignment), \<open>Assignment_Order\<close> (programs for which the
    two orders agree) and \<open>IR_Semantics\<close> (the execution of a module, with \<open>calls_deterministic\<close>): the two
    dynamic semantics. \<open>Simulation_Program.generate_simulates\<close> relates them for whole programs:
    what the interpreter prints and returns, the generated module prints and returns. Its proof
    is layered: \<open>Code_Growth\<close> (emitted code stays where it is; a locale interpreted for the visitor's parts),
    \<open>Module_Lists\<close> (what statements leave alone), \<open>Simulation\<close> (memory, registers and what an
    execution of straight code keeps), \<open>Simulation_Expressions\<close> and \<open>Simulation_Visits\<close> (expressions,
    by induction along the visitor), \<open>Simulation_Statements\<close> (branches and loops),
    \<open>Simulation_Functions\<close> (a compiled body) and \<open>Simulation_Program\<close> (declarations and calls).
  \<^item> \<open>Func_Info\<close>, \<open>Dead_Code\<close>: the purity analysis and dead code elimination. \<open>Purity_Sound\<close> shows that
    calls of the functions marked pure are silent, \<open>Dead_Code_Sound\<close> that a module does after the
    elimination what it did before (objects of the memory are related by a partial map), for
    every \<open>complete_module\<close>; \<open>Code_Homes\<close> (operands stay inside of their function, along the
    visitor) and \<open>Complete_Code\<close> show that generated modules are such, and \<open>Optimised_Program\<close>
    composes code generation and the pass.
  \<^item> \<open>Flow_Graph\<close> (paths and dominance), \<open>Dominators\<close> (\<open>Dominators.cpp\<close>), \<open>Dominators_Correct\<close> (the
    depth-first search and the iteration give the immediate dominators), \<open>Dominance_Frontier\<close>
    (frontiers, the dominator tree and the whole pass) and \<open>Dominator_Sets\<close> (\<open>create_doms\<close>).
  \<^item> \<open>Float_Arith\<close> (IEEE arithmetic on 32-bit patterns), \<open>GVN_Expr\<close>, \<open>GVN\<close>, \<open>GVN_Pass\<close> (\<open>GVN.h\<close>, \<open>GVN.cpp\<close>:
    constant folding, expressions, partitions, the iteration and the replacement), \<open>GVN_Correct\<close>
    (folding, equality, join, replacement), \<open>GVN_Local\<close> (the transfer along a block is sound)
    and \<open>GVN_Phis\<close> (a wrong merge of phis).
  \<^item> \<open>Mem2Reg\<close> (\<open>Mem2Reg.cpp\<close>), \<open>Mem2Reg_Phis\<close> (phis are placed at the iterated dominance frontier) and
    \<open>Mem2Reg_Faults\<close> (two modules on which the promotion fails).

  \<^bold>\<open>Fuel.\<close> A loop takes a number of rounds; running out of them is the fault \<open>NoReturn\<close>, and a theorem
  shows that the number is enough. The iteration for the immediate dominators of a function with
  \<open>n\<close> blocks gets \<open>n + 2\<close> rounds and \<open>2 n + 2\<close> steps of climbing (\<open>Dominators_run_spec\<close>; for the frontier
  runner \<open>frontier_never_returns\<close> covers every number), dead code elimination one round more than
  there are object numbers, its marking one step per object number, the purity analysis one step per function,
  the search for an address one step more than object numbers (\<open>DeadCode_run_spec\<close>, \<open>FuncInfo_run_spec\<close>,
  \<open>generate_complete\<close>), the work list of phi insertion \<open>2 n\<close> steps (\<open>generate_phi_spec\<close>). The renaming
  gets the number of blocks as its depth, and the iteration of value numbering a number that is a parameter; that
  these two are enough is not proved. The source interpreter takes a number that bounds the depth of calls and the rounds of each loop; a program
  with a result has one for some number, and \<open>generate_simulates\<close> holds for every number. Execution of
  the module is a relation and needs none.

  \<^bold>\<open>Programs left out.\<close> What C leaves undefined has no result in the interpreter: \<open>generate_simulates\<close>
  speaks of programs whose run is defined. Three kinds of defined programs are left out because the
  code generator departs from the language there. The document (\<open>Documentations/common/cminusf.md\<close>)
  evaluates the place of an assignment before the right side, the generator afterwards;
  \<open>generate_simulates\<close> asks that both orders give the same run, \<open>generate_follows_document\<close> rests on
  the document's order alone for programs whose indexed assignments only read, and
  \<open>assignment_order_differs\<close> is a program where the module contradicts the document. An ordered
  comparison with a float that is not a number, false in C, has no result in the interpreter: the
  printed predicate is the unordered one, which is true. A program with the literal minus zero is
  excluded because the float table may return the other zero (\<open>Constants.negative_zero_lost\<close>);
  the scanner never gives that literal.

  In the model of the compiler itself, \<open>int\<close> arithmetic of the constant folder wraps, a division
  without a result traps, and the conversion of a float out of range gives the value of x86; C++
  leaves these undefined.

  \<^bold>\<open>Not modelled.\<close> The scanner and parser automata are generated by flex and bison; the grammar and
  the texts of the tokens are the predicates of \<open>Ast_Grammar\<close>. The printer of the abstract syntax
  (\<open>ASTPrinter\<close>), logging, the pass manager and the driver \<open>cminusfc.cpp\<close> only read and write files or
  call the stages in order. \<open>ConstantArray\<close> is built by no stage. Memory is not freed in the model.
\<close>

end
